(* ===== verification/Kernel_Prelude.thy ===== *)
theory Kernel_Prelude
  imports Main "HOL-Library.Word"
begin

text \<open>
  Shared vocabulary of the development: the fixed-width integers of
  \<^verbatim>\<open>include/types.h\<close>, the two loop shapes that occur in almost every component
  (a first-match scan over an index range, and the shift that closes the gap of a removed
  array element), bits of a byte, and little-endian 32-bit fields of a byte array.
  The collections \<open>array_simps\<close>, \<open>byte_simps\<close> and \<open>kframe\<close> gather the rewrite rules
  that the component theories pass to the simplifier.
\<close>

unbundle bit_operations_syntax

subsection \<open>Integer types\<close>

type_synonym u8 = "8 word"
type_synonym u16 = "16 word"
type_synonym u32 = "32 word"
type_synonym u64 = "64 word"

named_theorems array_simps "lengths and elements of the array loops"
named_theorems byte_simps "bits and little-endian fields of bytes"
named_theorems kframe "fields a state-changing operation leaves alone"

subsection \<open>The first-match scan\<close>

text \<open>
  \<^verbatim>\<open>for (i = lo; i < hi; i++) if (P(i)) return i;\<close> for a condition that does not change
  the state: the least index of the range that satisfies \<open>P\<close>.
\<close>

function scan :: "(nat \<Rightarrow> bool) \<Rightarrow> nat \<Rightarrow> nat \<Rightarrow> nat option" where
  "scan P lo hi = (if lo < hi then (if P lo then Some lo else scan P (Suc lo) hi) else None)"
  by pat_completeness auto
termination
  by (relation "measure (\<lambda>(P, lo, hi). hi - lo)") auto

declare scan.simps [simp del]

text \<open>
  \<^verbatim>\<open>for (; i + 1 < n; i++) a[i] = a[i + 1];\<close> closes the gap at index \<open>i\<close> of the first
  \<open>n\<close> elements.
\<close>

function shift_down :: "'a list \<Rightarrow> nat \<Rightarrow> nat \<Rightarrow> 'a list" where
  "shift_down a i n = (if i + 1 < n then shift_down (a[i := a ! (i + 1)]) (Suc i) n else a)"
  by pat_completeness auto
termination
  by (relation "measure (\<lambda>(a, i, n). n - i)") auto

declare shift_down.simps [simp del]

lemma scan_Some_iff:
  "scan P lo hi = Some k \<longleftrightarrow> lo \<le> k \<and> k < hi \<and> P k \<and> (\<forall>j. lo \<le> j \<and> j < k \<longrightarrow> \<not> P j)"
proof (induction P lo hi rule: scan.induct)
  case (1 P lo hi)
  show ?case
  proof (cases "lo < hi \<and> \<not> P lo")
    case True
    with 1 have "scan P lo hi = Some k \<longleftrightarrow>
        Suc lo \<le> k \<and> k < hi \<and> P k \<and> (\<forall>j. Suc lo \<le> j \<and> j < k \<longrightarrow> \<not> P j)"
      by (simp add: scan.simps [of P lo hi])
    with True show ?thesis
      by (metis Suc_leD Suc_leI le_neq_implies_less)
  next
    case False
    then show ?thesis
      by (auto simp: scan.simps [of P lo hi] intro: le_neq_implies_less)
  qed
qed

lemma scan_None_iff: "scan P lo hi = None \<longleftrightarrow> (\<forall>j. lo \<le> j \<and> j < hi \<longrightarrow> \<not> P j)"
proof (induction P lo hi rule: scan.induct)
  case (1 P lo hi)
  show ?case
  proof (cases "lo < hi \<and> \<not> P lo")
    case True
    with 1 have "scan P lo hi = None \<longleftrightarrow> (\<forall>j. Suc lo \<le> j \<and> j < hi \<longrightarrow> \<not> P j)"
      by (simp add: scan.simps [of P lo hi])
    with True show ?thesis
      by (metis Suc_leD Suc_leI le_neq_implies_less)
  next
    case False
    then show ?thesis by (auto simp: scan.simps [of P lo hi])
  qed
qed

lemma scan_SomeD:
  assumes "scan P lo hi = Some k"
  shows "lo \<le> k" "k < hi" "P k" "\<And>j. lo \<le> j \<Longrightarrow> j < k \<Longrightarrow> \<not> P j"
  using assms by (auto simp: scan_Some_iff)

lemma scan_NoneD: "scan P lo hi = None \<Longrightarrow> lo \<le> j \<Longrightarrow> j < hi \<Longrightarrow> \<not> P j"
  by (auto simp: scan_None_iff)

lemma scan_ex: "lo \<le> j \<Longrightarrow> j < hi \<Longrightarrow> P j \<Longrightarrow> \<exists>k. scan P lo hi = Some k"
  by (metis not_None_eq scan_None_iff)

lemma scan_cong:
  "(\<And>j. lo \<le> j \<Longrightarrow> j < hi \<Longrightarrow> P j = Q j) \<Longrightarrow> scan P lo hi = scan Q lo hi"
proof (induction P lo hi rule: scan.induct)
  case (1 P lo hi)
  then show ?case by (simp add: scan.simps [of P lo hi] scan.simps [of Q lo hi])
qed

text \<open>Finding the one index that equals \<open>k\<close>: the pointer-to-index loops of the kernel.\<close>

lemma scan_eq_index [simp]: "scan (\<lambda>i. i = k) 0 n = (if k < n then Some k else None)"
  by (auto simp: scan_Some_iff scan_None_iff)

subsection \<open>The gap-closing shift\<close>

lemma length_shift_down [simp, array_simps]: "length (shift_down a i n) = length a"
proof (induction a i n rule: shift_down.induct)
  case (1 a i n)
  then show ?case by (simp add: shift_down.simps [of a i n])
qed

lemma nth_shift_down [array_simps]:
  "n \<le> length a \<Longrightarrow> j < length a \<Longrightarrow>
     shift_down a i n ! j = (if i \<le> j \<and> j + 1 < n then a ! (j + 1) else a ! j)"
proof (induction a i n rule: shift_down.induct)
  case (1 a i n)
  show ?case
  proof (cases "i + 1 < n")
    case True
    with 1 have "shift_down (a[i := a ! (i + 1)]) (Suc i) n ! j =
        (if Suc i \<le> j \<and> j + 1 < n then a[i := a ! (i + 1)] ! (j + 1) else a[i := a ! (i + 1)] ! j)"
      by simp
    with True "1.prems" show ?thesis
      by (auto simp: shift_down.simps [of a i n] nth_list_update)
  next
    case False
    then show ?thesis by (auto simp: shift_down.simps [of a i n])
  qed
qed

lemma take_shift_down [array_simps]:
  assumes "n \<le> length a" "i < n"
  shows "take (n - 1) (shift_down a i n) = take i a @ drop (Suc i) (take n a)"
proof (rule nth_equalityI)
  show "length (take (n - 1) (shift_down a i n)) = length (take i a @ drop (Suc i) (take n a))"
    using assms by auto
next
  fix j assume "j < length (take (n - 1) (shift_down a i n))"
  then have "j < n - 1" "j < length a" using assms by auto
  then show "take (n - 1) (shift_down a i n) ! j = (take i a @ drop (Suc i) (take n a)) ! j"
    using assms by (auto simp: nth_shift_down nth_append)
qed

lemma take_shift_down_0 [array_simps]:
  "n \<le> length a \<Longrightarrow> 0 < n \<Longrightarrow> take (n - 1) (shift_down a 0 n) = tl (take n a)"
  using take_shift_down [of n a 0] by (simp add: drop_Suc)

lemma take_update_last [array_simps]:
  "n < length a \<Longrightarrow> take (Suc n) (a[n := x]) = take n a @ [x]"
  by (simp add: take_Suc_conv_app_nth take_update_cancel)

subsection \<open>Bits of a byte\<close>

lemma bit_u8_set [byte_simps]:
  "bit (x OR ucast ((2 :: u32) ^ k) :: u8) j \<longleftrightarrow> bit x j \<or> j = k \<and> k < 8"
  by (auto simp: bit_simps dest: bit_imp_le_length)

lemma bit_u8_clear [byte_simps]:
  "k < 8 \<Longrightarrow> bit (x AND ucast (NOT ((2 :: u32) ^ k)) :: u8) j \<longleftrightarrow> bit x j \<and> j \<noteq> k"
  by (auto simp: bit_simps dest: bit_imp_le_length)

lemma u8_test [byte_simps]: "drop_bit k (x :: u8) AND 1 = of_bool (bit x k)"
  by (simp add: and_one_eq bit_iff_odd_drop_bit mod_2_eq_odd)

lemma unat_drop_bit_3: "unat (drop_bit 3 (f :: u32)) = unat f div 8"
  by (simp add: drop_bit_eq_div unat_div)

lemma unat_and_7: "unat ((f :: u32) AND 7) = unat f mod 8"
proof -
  have "f AND 7 = take_bit 3 f" by (simp add: take_bit_eq_mask mask_eq_exp_minus_1)
  then show ?thesis by (simp add: take_bit_eq_mod unat_mod)
qed

subsection \<open>Little-endian 32-bit fields\<close>

definition get32 :: "u8 list \<Rightarrow> nat \<Rightarrow> u32" where
  "get32 bs k = ucast (bs ! k) OR push_bit 8 (ucast (bs ! (k + 1)))
     OR push_bit 16 (ucast (bs ! (k + 2))) OR push_bit 24 (ucast (bs ! (k + 3)))"

definition put32 :: "nat \<Rightarrow> u32 \<Rightarrow> u8 list \<Rightarrow> u8 list" where
  "put32 k w bs = bs[k := ucast w, k + 1 := ucast (drop_bit 8 w),
     k + 2 := ucast (drop_bit 16 w), k + 3 := ucast (drop_bit 24 w)]"

lemma length_put32 [simp, byte_simps]: "length (put32 k w bs) = length bs"
  by (simp add: put32_def)

lemma u32_of_bytes:
  "(ucast (ucast w :: u8) :: u32) OR push_bit 8 (ucast (ucast (drop_bit 8 w) :: u8))
     OR push_bit 16 (ucast (ucast (drop_bit 16 w) :: u8))
     OR push_bit 24 (ucast (ucast (drop_bit 24 w) :: u8)) = w"
proof (rule bit_word_eqI)
  fix n assume "n < LENGTH(32)"
  then have "n < 8 \<or> (8 \<le> n \<and> n < 16) \<or> (16 \<le> n \<and> n < 24) \<or> (24 \<le> n \<and> n < 32)" by auto
  then show "bit ((ucast (ucast w :: u8) :: u32) OR push_bit 8 (ucast (ucast (drop_bit 8 w) :: u8))
     OR push_bit 16 (ucast (ucast (drop_bit 16 w) :: u8))
     OR push_bit 24 (ucast (ucast (drop_bit 24 w) :: u8))) n = bit w n"
    by (elim disjE) (auto simp: bit_simps)
qed

lemma get32_put32_same [byte_simps]: "k + 4 \<le> length bs \<Longrightarrow> get32 (put32 k w bs) k = w"
  by (simp add: get32_def put32_def nth_list_update u32_of_bytes)

lemma nth_put32_other [byte_simps]:
  "j < k \<or> k + 4 \<le> j \<Longrightarrow> put32 k w bs ! j = bs ! j"
  by (auto simp: put32_def nth_list_update)

lemma get32_put32_other [byte_simps]:
  "j + 4 \<le> k \<or> k + 4 \<le> j \<Longrightarrow> get32 (put32 k w bs) j = get32 bs j"
  unfolding get32_def by (subst (1 2 3 4) nth_put32_other) auto

end
