(* ===== verification/Pmm.thy ===== *)
theory Pmm
  imports Kernel_Prelude
begin

text \<open>
  The physical memory manager of \<^verbatim>\<open>kernel/pmm.c\<close>: one bit per 4 KiB frame, built from the
  BIOS E820 map at boot. The state is the five statics of the file. The linker symbol
  \<^verbatim>\<open>_kernel_end\<close> and the E820 table that the boot sector leaves at 0x8000 are arguments of
  \<open>pmm_init\<close>. \<open>free_set\<close> is the abstraction the lemmas are stated over, \<open>pmm_inv\<close>
  the invariant; the locale \<open>frame_allocator\<close> is what the other components rely on.
\<close>

subsection \<open>State\<close>

abbreviation PMM_PAGE_SIZE :: u32 where "PMM_PAGE_SIZE \<equiv> 4096"
abbreviation PMM_MAX_MEMORY :: u32 where "PMM_MAX_MEMORY \<equiv> 0x08000000"
abbreviation PMM_BITMAP_BYTES :: nat where "PMM_BITMAP_BYTES \<equiv> 4096"
abbreviation E820_MAX_ENTRIES :: nat where "E820_MAX_ENTRIES \<equiv> 128"

record e820_entry =
  e820_base :: u64
  e820_length :: u64
  e820_type :: u32
  e820_acpi :: u32

record pmm_state =
  frame_bitmap :: "u8 list"
  frame_count :: u32
  total_frames_count :: u32
  used_frames_count :: u32
  reserved_end :: u32

subsection \<open>The bitmap\<close>

definition bit_set :: "u32 \<Rightarrow> u8 list \<Rightarrow> u8 list" where
  "bit_set frame bm = (let k = unat (drop_bit 3 frame)
     in bm[k := bm ! k OR ucast (push_bit (unat (frame AND 7)) (1 :: u32))])"

definition bit_clear :: "u32 \<Rightarrow> u8 list \<Rightarrow> u8 list" where
  "bit_clear frame bm = (let k = unat (drop_bit 3 frame)
     in bm[k := bm ! k AND ucast (NOT (push_bit (unat (frame AND 7)) (1 :: u32)))])"

definition bit_test :: "u8 list \<Rightarrow> u32 \<Rightarrow> u8" where
  "bit_test bm frame = drop_bit (unat (frame AND 7)) (bm ! unat (drop_bit 3 frame)) AND 1"

definition align_up_page :: "u32 \<Rightarrow> u32" where
  "align_up_page v = (v + PMM_PAGE_SIZE - 1) AND NOT (PMM_PAGE_SIZE - 1)"

subsection \<open>Boot: the E820 map\<close>

text \<open>The body of the innermost loop of \<^verbatim>\<open>pmm_init\<close>: one frame becomes usable.\<close>

definition release_frame :: "nat \<Rightarrow> u8 list \<times> u32 \<Rightarrow> u8 list \<times> u32" where
  "release_frame f = (\<lambda>(bm, usable).
     if bit_test bm (of_nat f) \<noteq> 0 then (bit_clear (of_nat f) bm, usable + 1) else (bm, usable))"

text \<open>One entry of the map; the state is the bitmap, \<^verbatim>\<open>max_end\<close> and \<^verbatim>\<open>usable\<close>.\<close>

definition e820_add :: "e820_entry \<Rightarrow> u8 list \<times> u32 \<times> u32 \<Rightarrow> u8 list \<times> u32 \<times> u32" where
  "e820_add e = (\<lambda>(bm, max_end, usable).
     let base = e820_base e; len = e820_length e; end = base + len in
     if e820_type e \<noteq> 1 \<or> len = 0 \<or> ucast PMM_MAX_MEMORY \<le> base then (bm, max_end, usable)
     else
       let end = (if ucast PMM_MAX_MEMORY < end then ucast PMM_MAX_MEMORY else end);
           start32 = ucast base; end32 = ucast end in
       if end32 \<le> start32 then (bm, max_end, usable)
       else
         let max_end = (if max_end < end32 then end32 else max_end);
             start32 = align_up_page start32;
             end32 = end32 AND NOT (PMM_PAGE_SIZE - 1);
             (bm, usable) = fold release_frame
               [unat (start32 div PMM_PAGE_SIZE)..<unat (end32 div PMM_PAGE_SIZE)] (bm, usable)
         in (bm, max_end, usable))"

text \<open>The body of the second loop: one frame below 1 MiB or below the kernel's end is taken.\<close>

definition reserve_frame :: "u32 \<Rightarrow> nat \<Rightarrow> u8 list \<times> u32 \<Rightarrow> u8 list \<times> u32" where
  "reserve_frame kernel_end i = (\<lambda>(bm, used).
     if bit_test bm (of_nat i) = 0
     then let addr = of_nat i * PMM_PAGE_SIZE in
       if addr < kernel_end \<or> addr < 0x00100000
       then (bit_set (of_nat i) bm, used + 1) else (bm, used)
     else (bm, used))"

definition pmm_init :: "u32 \<Rightarrow> u16 \<Rightarrow> (nat \<Rightarrow> e820_entry) \<Rightarrow> pmm_state" where
  "pmm_init kernel_end_sym count entries =
     (let kernel_end = align_up_page kernel_end_sym;
          bm = replicate PMM_BITMAP_BYTES 0xFF;
          (bm, max_end, usable) =
            fold (\<lambda>i. e820_add (entries i)) [0..<min (unat count) E820_MAX_ENTRIES] (bm, 0, 0);
          n = max_end div PMM_PAGE_SIZE;
          (bm, used) = fold (reserve_frame kernel_end) [0..<unat n] (bm, 0)
      in \<lparr>frame_bitmap = bm, frame_count = n, total_frames_count = usable,
          used_frames_count = used, reserved_end = kernel_end\<rparr>)"

subsection \<open>Allocation and statistics\<close>

definition pmm_alloc_frame :: "pmm_state \<Rightarrow> pmm_state \<times> u32" where
  "pmm_alloc_frame s =
     (case scan (\<lambda>i. bit_test (frame_bitmap s) (of_nat i) = 0) 0 (unat (frame_count s)) of
        None \<Rightarrow> (s, 0)
      | Some i \<Rightarrow> (s\<lparr>frame_bitmap := bit_set (of_nat i) (frame_bitmap s),
                    used_frames_count := used_frames_count s + 1\<rparr>, of_nat i * PMM_PAGE_SIZE))"

definition pmm_free_frame :: "u32 \<Rightarrow> pmm_state \<Rightarrow> pmm_state" where
  "pmm_free_frame addr s =
     (let frame = addr div PMM_PAGE_SIZE in
      if frame_count s \<le> frame \<or> addr mod PMM_PAGE_SIZE \<noteq> 0 then s
      else if addr < reserved_end s \<or> addr < 0x00100000 then s
      else if bit_test (frame_bitmap s) frame = 0 then s
      else s\<lparr>frame_bitmap := bit_clear frame (frame_bitmap s),
             used_frames_count := (if 0 < used_frames_count s then used_frames_count s - 1
                                   else used_frames_count s)\<rparr>)"

definition pmm_total_frames :: "pmm_state \<Rightarrow> u32" where
  "pmm_total_frames s = total_frames_count s"

definition pmm_used_frames :: "pmm_state \<Rightarrow> u32" where
  "pmm_used_frames s = used_frames_count s"

definition pmm_free_frames :: "pmm_state \<Rightarrow> u32" where
  "pmm_free_frames s = total_frames_count s - used_frames_count s"

definition pmm_total_bytes :: "pmm_state \<Rightarrow> u32" where
  "pmm_total_bytes s = total_frames_count s * PMM_PAGE_SIZE"

definition pmm_used_bytes :: "pmm_state \<Rightarrow> u32" where
  "pmm_used_bytes s = used_frames_count s * PMM_PAGE_SIZE"

definition pmm_free_bytes :: "pmm_state \<Rightarrow> u32" where
  "pmm_free_bytes s = pmm_free_frames s * PMM_PAGE_SIZE"

subsection \<open>The frame loops of the allocator's clients\<close>

text \<open>
  \<^verbatim>\<open>for (i = 0; i < n; i++) { frames[i] = alloc(); if (!frames[i]) break; }\<close> over any
  allocator: the new state, the frames obtained, and whether all \<open>n\<close> were.
\<close>

fun alloc_frames :: "('s \<Rightarrow> 's \<times> u32) \<Rightarrow> nat \<Rightarrow> u32 list \<Rightarrow> 's \<Rightarrow> 's \<times> u32 list \<times> bool" where
  "alloc_frames alloc 0 acc s = (s, acc, True)"
| "alloc_frames alloc (Suc n) acc s =
     (case alloc s of (s', a) \<Rightarrow>
        if a = 0 then (s', acc, False) else alloc_frames alloc n (acc @ [a]) s')"

datatype pmmtest_result = Pmm_alloc_failed | Pmm_count_wrong | Pmm_pass | Pmm_leak

text \<open>The shell command \<^verbatim>\<open>pmmtest\<close> of \<^verbatim>\<open>kernel/kernel.c\<close>; the result is the message it prints.\<close>

definition cmd_pmmtest :: "pmm_state \<Rightarrow> pmm_state \<times> pmmtest_result" where
  "cmd_pmmtest s =
     (let before = pmm_free_frames s;
          (s1, frames, ok) = alloc_frames pmm_alloc_frame 100 [] s in
      if \<not> ok then (fold pmm_free_frame (rev frames) s1, Pmm_alloc_failed)
      else if pmm_free_frames s1 \<noteq> before - 100
        then (fold pmm_free_frame frames s1, Pmm_count_wrong)
      else let s2 = fold pmm_free_frame frames s1 in
        (s2, if pmm_free_frames s2 = before then Pmm_pass else Pmm_leak))"

subsection \<open>Abstraction and invariant\<close>

text \<open>The frames whose bit is clear.\<close>

definition free_set :: "u8 list \<Rightarrow> nat set" where
  "free_set bm = {f. f < 8 * length bm \<and> \<not> bit (bm ! (f div 8)) (f mod 8)}"

text \<open>The frames an E820 entry makes usable: whole pages of a type-1 range below 128 MiB.\<close>

definition e820_frames :: "e820_entry \<Rightarrow> nat set" where
  "e820_frames e = {f. e820_type e = 1 \<and> e820_length e \<noteq> 0 \<and> e820_base e < 0x08000000
     \<and> unat (e820_base e) \<le> f * 4096
     \<and> (f + 1) * 4096 \<le> min (unat (e820_base e + e820_length e)) 0x08000000}"

definition e820_usable :: "u16 \<Rightarrow> (nat \<Rightarrow> e820_entry) \<Rightarrow> nat set" where
  "e820_usable count entries = (\<Union>i < min (unat count) E820_MAX_ENTRIES. e820_frames (entries i))"

text \<open>
  \<open>pmm_inv U s\<close>: \<open>s\<close> manages the usable frames \<open>U\<close>. Every free frame is usable and lies
  above the kernel and the first MiB, and the two counters count \<open>U\<close> and its taken part.
\<close>

definition pmm_inv :: "nat set \<Rightarrow> pmm_state \<Rightarrow> bool" where
  "pmm_inv U s \<longleftrightarrow>
     length (frame_bitmap s) = PMM_BITMAP_BYTES \<and> unat (frame_count s) \<le> 32768 \<and>
     U \<subseteq> {..<unat (frame_count s)} \<and> free_set (frame_bitmap s) \<subseteq> U \<and>
     total_frames_count s = of_nat (card U) \<and>
     used_frames_count s = of_nat (card (U - free_set (frame_bitmap s))) \<and>
     (\<forall>f \<in> free_set (frame_bitmap s). 256 \<le> f \<and> unat (reserved_end s) \<le> 4096 * f)"

text \<open>The specification: allocation and release on the set of free frames.\<close>

definition abs_alloc :: "nat set \<Rightarrow> nat set \<times> nat" where
  "abs_alloc F = (if F = {} then (F, 0) else (F - {Min F}, Min F * 4096))"

definition abs_free :: "nat set \<Rightarrow> nat \<Rightarrow> nat set \<Rightarrow> nat set" where
  "abs_free pool addr F =
     (if addr mod 4096 = 0 \<and> addr div 4096 \<in> pool then insert (addr div 4096) F else F)"

text \<open>The frames a client may own: usable, above the first MiB and the kernel.\<close>

definition pmm_pool :: "nat set \<Rightarrow> pmm_state \<Rightarrow> nat set" where
  "pmm_pool U s = {f \<in> U. 256 \<le> f \<and> unat (reserved_end s) \<le> 4096 * f}"

subsection \<open>Bits and frames\<close>

lemma length_bit_set [simp]: "length (bit_set f bm) = length bm"
  by (simp add: bit_set_def Let_def)

lemma length_bit_clear [simp]: "length (bit_clear f bm) = length bm"
  by (simp add: bit_clear_def Let_def)

lemma finite_free_set [simp]: "finite (free_set bm)"
  by (rule finite_subset [of _ "{..<8 * length bm}"]) (auto simp: free_set_def)

lemma free_set_bound: "f \<in> free_set bm \<Longrightarrow> f < 8 * length bm"
  by (simp add: free_set_def)

lemma bit_test_free_set:
  "unat f < 8 * length bm \<Longrightarrow> bit_test bm f = of_bool (unat f \<notin> free_set bm)"
  by (simp add: bit_test_def free_set_def byte_simps unat_drop_bit_3 unat_and_7)

lemma div_mod_8_eq: "(g :: nat) div 8 = f div 8 \<Longrightarrow> g mod 8 = f mod 8 \<Longrightarrow> g = f"
  by (metis div_mult_mod_eq)

lemma free_set_bit_set:
  assumes "unat f < 8 * length bm"
  shows "free_set (bit_set f bm) = free_set bm - {unat f}"
proof -
  have "g \<in> free_set (bit_set f bm) \<longleftrightarrow> g \<in> free_set bm - {unat f}" for g
    using assms div_mod_8_eq [of g "unat f"]
    by (auto simp: free_set_def bit_set_def Let_def byte_simps unat_drop_bit_3 unat_and_7
        nth_list_update)
  then show ?thesis by blast
qed

lemma free_set_bit_clear:
  assumes "unat f < 8 * length bm"
  shows "free_set (bit_clear f bm) = insert (unat f) (free_set bm)"
proof -
  have "g \<in> free_set (bit_clear f bm) \<longleftrightarrow> g \<in> insert (unat f) (free_set bm)" for g
    using assms div_mod_8_eq [of g "unat f"]
    by (auto simp: free_set_def bit_clear_def Let_def byte_simps unat_drop_bit_3 unat_and_7
        nth_list_update)
  then show ?thesis by blast
qed

lemma bit_clear_bit_set:
  assumes "unat f < 8 * length bm" "unat f \<in> free_set bm"
  shows "bit_clear f (bit_set f bm) = bm"
proof (rule nth_equalityI)
  show "length (bit_clear f (bit_set f bm)) = length bm" by simp
next
  fix i assume "i < length (bit_clear f (bit_set f bm))"
  then have i: "i < length bm" by simp
  have "bit (bit_clear f (bit_set f bm) ! i) j = bit (bm ! i) j" for j
    using assms i
    by (auto simp: free_set_def bit_clear_def bit_set_def Let_def byte_simps unat_drop_bit_3
        unat_and_7 nth_list_update)
  then show "bit_clear f (bit_set f bm) ! i = bm ! i" by (simp add: bit_eq_iff)
qed

lemma unat_of_nat_frame [simp]: "f < 2 ^ 32 \<Longrightarrow> unat (of_nat f :: u32) = f"
  by (simp add: unat_of_nat take_bit_eq_mod)

lemma unat_frame_addr: "f < 1048576 \<Longrightarrow> unat ((of_nat f :: u32) * 4096) = f * 4096"
  by (simp add: unat_word_ariths unat_of_nat)

lemma frame_addr_div: "f < 1048576 \<Longrightarrow> (of_nat f * 4096 :: u32) div 4096 = of_nat f"
  by (simp add: word_unat_eq_iff unat_div unat_frame_addr)

lemma frame_addr_mod: "f < 1048576 \<Longrightarrow> (of_nat f * 4096 :: u32) mod 4096 = 0"
  by (simp add: word_unat_eq_iff unat_mod unat_frame_addr)

lemma page_mask_div: "((x :: u32) AND NOT (4096 - 1)) div 4096 = x div 4096"
proof -
  have "drop_bit 12 (x AND NOT (mask 12)) = drop_bit 12 x"
    by (rule bit_word_eqI) (auto simp: bit_simps dest: bit_imp_le_length)
  then show ?thesis by (simp add: drop_bit_eq_div mask_eq_exp_minus_1)
qed

lemma unat_align_up_div:
  "unat v + 4095 < 2 ^ 32 \<Longrightarrow> unat (align_up_page v div 4096) = (unat v + 4095) div 4096"
  unfolding align_up_page_def page_mask_div by (simp add: unat_div unat_word_ariths)

subsection \<open>Boot\<close>

text \<open>The counter of usable frames equals the number of free frames, as a 32-bit word.\<close>

lemma card_insert_word:
  "finite A \<Longrightarrow> x \<notin> A \<Longrightarrow> (of_nat (card (insert x A)) :: u32) = of_nat (card A) + 1"
  by simp

lemma release_frame_spec:
  assumes "length bm = 4096" "f < 32768"
  shows "release_frame f (bm, usable) =
     (if f \<in> free_set bm then (bm, usable) else (bit_clear (of_nat f) bm, usable + 1))"
  using assms by (simp add: release_frame_def bit_test_free_set)

lemma fold_release:
  assumes "length bm = 4096" "\<forall>f \<in> set fs. f < 32768" "usable = of_nat (card (free_set bm))"
    and "fold release_frame fs (bm, usable) = (bm', usable')"
  shows "length bm' = 4096 \<and> free_set bm' = free_set bm \<union> set fs
     \<and> usable' = of_nat (card (free_set bm'))"
  using assms
proof (induction fs arbitrary: bm usable)
  case Nil
  then show ?case by auto
next
  case (Cons f fs)
  show ?case
  proof (cases "f \<in> free_set bm")
    case True
    with Cons.prems show ?thesis
      using Cons.IH [of bm usable] by (auto simp: release_frame_spec)
  next
    case False
    with Cons.prems have "fold release_frame fs (bit_clear (of_nat f) bm, usable + 1) = (bm', usable')"
      by (simp add: release_frame_spec)
    moreover have "free_set (bit_clear (of_nat f) bm) = insert f (free_set bm)"
      using Cons.prems by (simp add: free_set_bit_clear)
    ultimately show ?thesis
      using Cons.IH [of "bit_clear (of_nat f) bm" "usable + 1"] Cons.prems False
      by (simp add: card_insert_word)
  qed
qed

text \<open>The frame range of one entry, on natural numbers.\<close>

lemma e820_frames_range:
  assumes "e820_type e = 1" "e820_length e \<noteq> 0" "e820_base e < 0x08000000"
  shows "e820_frames e = {(unat (e820_base e) + 4095) div 4096
     ..< min (unat (e820_base e + e820_length e)) 0x08000000 div 4096}"
  using assms by (auto simp: e820_frames_def)

lemma e820_frames_bound: "f \<in> e820_frames e \<Longrightarrow> f < 32768"
  by (auto simp: e820_frames_def)

lemma e820_frames_skip:
  "e820_type e \<noteq> 1 \<or> e820_length e = 0 \<or> 0x08000000 \<le> e820_base e \<Longrightarrow> e820_frames e = {}"
  by (auto simp: e820_frames_def)

lemma unat_ucast_small: "(x :: u64) \<le> 0x08000000 \<Longrightarrow> unat (ucast x :: u32) = unat x"
  by (simp add: unsigned_ucast_eq take_bit_eq_mod word_le_nat_alt)

text \<open>\<open>e820_scan_ok\<close>: what the entry loop maintains of bitmap, \<^verbatim>\<open>max_end\<close> and \<^verbatim>\<open>usable\<close>.\<close>

definition e820_scan_ok :: "nat set \<Rightarrow> u8 list \<times> u32 \<times> u32 \<Rightarrow> bool" where
  "e820_scan_ok U = (\<lambda>(bm, max_end, usable).
     length bm = 4096 \<and> free_set bm = U \<and> usable = of_nat (card U) \<and>
     max_end \<le> PMM_MAX_MEMORY \<and> (\<forall>f \<in> U. f < unat max_end div 4096))"

lemma e820_add_ok:
  assumes "e820_scan_ok U st"
  shows "e820_scan_ok (U \<union> e820_frames e) (e820_add e st)"
proof -
  obtain bm mx us where st: "st = (bm, mx, us)" by (cases st)
  show ?thesis
  proof (cases "e820_type e \<noteq> 1 \<or> e820_length e = 0 \<or> 0x08000000 \<le> e820_base e")
    case True
    with assms show ?thesis
      by (auto simp: st e820_add_def e820_frames_skip)
  next
    case False
    define en :: u64 where "en = (if ucast PMM_MAX_MEMORY < e820_base e + e820_length e
        then ucast PMM_MAX_MEMORY else e820_base e + e820_length e)"
    have add_eq: "e820_add e st = (if (ucast en :: u32) \<le> ucast (e820_base e) then (bm, mx, us)
       else let max_end = (if mx < ucast en then ucast en else mx);
         (bm, us) = fold release_frame [unat (align_up_page (ucast (e820_base e)) div 4096)
           ..<unat (((ucast en :: u32) AND NOT (4096 - 1)) div 4096)] (bm, us)
         in (bm, max_end, us))"
      using False unfolding st e820_add_def en_def [symmetric] Let_def prod.case by simp
    have en: "unat en = min (unat (e820_base e + e820_length e)) 0x08000000" "en \<le> 0x08000000"
      by (auto simp: en_def word_less_nat_alt word_le_nat_alt)
    have base: "e820_base e < 0x08000000" using False by (simp add: not_le)
    then have base': "unat (ucast (e820_base e) :: u32) = unat (e820_base e)"
      by (intro unat_ucast_small) simp
    have bb: "unat (e820_base e) < 0x08000000" using base by (simp add: word_less_nat_alt)
    have en': "unat (ucast en :: u32) = unat en" using en(2) by (rule unat_ucast_small)
    have range: "e820_frames e = {(unat (e820_base e) + 4095) div 4096 ..< unat en div 4096}"
      using False base en(1) by (simp add: e820_frames_range)
    show ?thesis
    proof (cases "(ucast en :: u32) \<le> ucast (e820_base e)")
      case True
      then have "unat en \<le> unat (e820_base e)" using base' en' by (simp add: word_le_nat_alt)
      then have "unat en div 4096 \<le> (unat (e820_base e) + 4095) div 4096" by (intro div_le_mono) simp
      then have "e820_frames e = {}" using range by simp
      with True assms add_eq show ?thesis by (simp add: st)
    next
      case nle: False
      let ?r = "[(unat (e820_base e) + 4095) div 4096 ..< unat en div 4096]"
      obtain bm' us' where fr: "fold release_frame ?r (bm, us) = (bm', us')"
        by fastforce
      have "unat (align_up_page (ucast (e820_base e)) div 4096) = (unat (e820_base e) + 4095) div 4096"
        using bb base' by (simp add: unat_align_up_div)
      moreover have "unat (((ucast en :: u32) AND NOT (4096 - 1)) div 4096) = unat en div 4096"
        unfolding page_mask_div using en' by (simp add: unat_div)
      ultimately have add: "e820_add e st =
          (bm', if mx < ucast en then ucast en else mx, us')"
        using nle fr by (simp add: add_eq Let_def)
      have U: "set ?r = e820_frames e" by (simp add: range)
      have "\<forall>f \<in> set ?r. f < 32768" unfolding U by (auto dest: e820_frames_bound)
      then have "length bm' = 4096 \<and> free_set bm' = free_set bm \<union> e820_frames e
          \<and> us' = of_nat (card (free_set bm'))"
        using fold_release [OF _ _ _ fr] assms unfolding U by (simp add: st e820_scan_ok_def)
      moreover have "(ucast en :: u32) \<le> 0x08000000"
        using en(2) en' by (simp add: word_le_nat_alt)
      moreover have "f < unat (if mx < ucast en then ucast en else mx) div 4096"
        if "f \<in> U \<union> e820_frames e" for f
        using that
      proof
        assume "f \<in> U"
        then have "f < unat mx div 4096" using assms by (simp add: st e820_scan_ok_def)
        moreover have "unat mx \<le> unat (if mx < ucast en then ucast en else mx)"
          by (simp add: word_less_nat_alt)
        ultimately show ?thesis by (meson div_le_mono less_le_trans)
      next
        assume "f \<in> e820_frames e"
        then have "f < unat en div 4096" by (simp add: range)
        moreover have "unat en \<le> unat (if mx < ucast en then ucast en else mx)"
          using en' by (simp add: word_less_nat_alt)
        ultimately show ?thesis by (meson div_le_mono less_le_trans)
      qed
      ultimately show ?thesis
        using assms unfolding add by (auto simp: st e820_scan_ok_def)
    qed
  qed
qed

lemma fold_e820_ok:
  "e820_scan_ok U st \<Longrightarrow>
     e820_scan_ok (U \<union> (\<Union>i \<in> set ks. e820_frames (entries i)))
       (fold (\<lambda>i. e820_add (entries i)) ks st)"
proof (induction ks arbitrary: U st)
  case Nil
  then show ?case by simp
next
  case (Cons i ks)
  have "e820_scan_ok (U \<union> e820_frames (entries i)) (e820_add (entries i) st)"
    using Cons.prems by (rule e820_add_ok)
  from Cons.IH [OF this] show ?case by (simp add: Un_assoc)
qed

lemma free_set_full [simp]: "free_set (replicate n 0xFF) = {}"
proof -
  have "bit (0xFF :: u8) (f mod 8)" for f :: nat
  proof -
    have "(0xFF :: u8) = mask 8" by (simp add: mask_eq_exp_minus_1)
    then show ?thesis by (simp only: bit_mask_iff) simp
  qed
  then show ?thesis by (auto simp: free_set_def nth_replicate)
qed

text \<open>The reserve loop takes exactly the free frames below the kernel's end or below 1 MiB.\<close>

lemma reserve_frame_spec:
  assumes "length bm = 4096" "f < 32768"
  shows "reserve_frame ke f (bm, used) =
     (if f \<in> free_set bm \<and> (f * 4096 < unat ke \<or> f < 256)
      then (bit_set (of_nat f) bm, used + 1) else (bm, used))"
proof -
  have "unat ((of_nat f :: u32) * 4096) = f * 4096" using assms(2) by (intro unat_frame_addr) simp
  with assms show ?thesis
    by (auto simp: reserve_frame_def bit_test_free_set word_less_nat_alt)
qed

lemma fold_reserve:
  assumes "length bm = 4096" "\<forall>f \<in> set fs. f < 32768" "finite U" "free_set bm \<subseteq> U"
    and "used = of_nat (card (U - free_set bm))"
    and "fold (reserve_frame ke) fs (bm, used) = (bm', used')"
  shows "length bm' = 4096 \<and> used' = of_nat (card (U - free_set bm'))
     \<and> free_set bm' = {f \<in> free_set bm. f \<in> set fs \<longrightarrow> unat ke \<le> f * 4096 \<and> 256 \<le> f}"
  using assms
proof (induction fs arbitrary: bm used)
  case Nil
  then show ?case by auto
next
  case (Cons f fs)
  show ?case
  proof (cases "f \<in> free_set bm \<and> (f * 4096 < unat ke \<or> f < 256)")
    case True
    have fs: "free_set (bit_set (of_nat f) bm) = free_set bm - {f}"
      using Cons.prems by (simp add: free_set_bit_set)
    have "U - free_set (bit_set (of_nat f) bm) = insert f (U - free_set bm)"
      using fs True Cons.prems(4) by auto
    then have "used + 1 = of_nat (card (U - free_set (bit_set (of_nat f) bm)))"
      using True Cons.prems(3,5) by simp
    moreover have "fold (reserve_frame ke) fs (bit_set (of_nat f) bm, used + 1) = (bm', used')"
      using True Cons.prems by (simp add: reserve_frame_spec)
    moreover have "free_set (bit_set (of_nat f) bm) \<subseteq> U" using fs Cons.prems(4) by auto
    ultimately have IH: "length bm' = 4096 \<and> used' = of_nat (card (U - free_set bm')) \<and>
        free_set bm' = {g \<in> free_set bm - {f}. g \<in> set fs \<longrightarrow> unat ke \<le> g * 4096 \<and> 256 \<le> g}"
      using Cons.IH [of "bit_set (of_nat f) bm" "used + 1"] Cons.prems(1-3) unfolding fs by simp
    have "{g \<in> free_set bm - {f}. g \<in> set fs \<longrightarrow> unat ke \<le> g * 4096 \<and> 256 \<le> g} =
        {g \<in> free_set bm. g \<in> set (f # fs) \<longrightarrow> unat ke \<le> g * 4096 \<and> 256 \<le> g}"
      using True by auto
    with IH show ?thesis by simp
  next
    case False
    with Cons.prems have "fold (reserve_frame ke) fs (bm, used) = (bm', used')"
      by (simp add: reserve_frame_spec)
    with Cons.IH [of bm used] Cons.prems
    have "length bm' = 4096 \<and> used' = of_nat (card (U - free_set bm')) \<and>
        free_set bm' = {g \<in> free_set bm. g \<in> set fs \<longrightarrow> unat ke \<le> g * 4096 \<and> 256 \<le> g}"
      by simp
    moreover have "{g \<in> free_set bm. g \<in> set fs \<longrightarrow> unat ke \<le> g * 4096 \<and> 256 \<le> g} =
        {g \<in> free_set bm. g \<in> set (f # fs) \<longrightarrow> unat ke \<le> g * 4096 \<and> 256 \<le> g}"
      using False by auto
    ultimately show ?thesis by simp
  qed
qed

lemma pmm_init_spec:
  "pmm_inv (e820_usable count entries) (pmm_init kernel_end count entries)
     \<and> free_set (frame_bitmap (pmm_init kernel_end count entries)) =
       {f \<in> e820_usable count entries. unat (align_up_page kernel_end) \<le> f * 4096 \<and> 256 \<le> f}
     \<and> reserved_end (pmm_init kernel_end count entries) = align_up_page kernel_end"
proof -
  define ke where "ke = align_up_page kernel_end"
  let ?U = "e820_usable count entries"
  let ?n = "min (unat count) 128"
  obtain bm mx us where sc:
    "fold (\<lambda>i. e820_add (entries i)) [0..<?n] (replicate 4096 0xFF, 0, 0) = (bm, mx, us)"
    by (metis prod_cases3)
  have "e820_scan_ok {} (replicate 4096 0xFF, 0, 0)" by (simp add: e820_scan_ok_def)
  from fold_e820_ok [OF this, where ks = "[0..<?n]" and entries = entries] sc
  have "e820_scan_ok ?U (bm, mx, us)"
    by (simp add: e820_usable_def atLeast0LessThan)
  then have ok: "length bm = 4096" "free_set bm = ?U" "us = of_nat (card ?U)"
      "mx \<le> PMM_MAX_MEMORY" "\<And>f. f \<in> ?U \<Longrightarrow> f < unat mx div 4096"
    by (auto simp: e820_scan_ok_def)
  have mx: "unat (mx div 4096) = unat mx div 4096" by (simp add: unat_div)
  have le: "unat (mx div 4096) \<le> 32768"
    using ok(4) div_le_mono [where m = "unat mx" and n = "0x08000000" and k = 4096]
    by (simp add: mx word_le_nat_alt)
  obtain bm' used where rs: "fold (reserve_frame ke) [0..<unat (mx div 4096)] (bm, 0) = (bm', used)"
    by fastforce
  have "finite ?U" using ok(2) finite_free_set by metis
  then have res: "length bm' = 4096 \<and> used = of_nat (card (?U - free_set bm')) \<and> free_set bm' =
      {f \<in> free_set bm. f \<in> set [0..<unat (mx div 4096)] \<longrightarrow> unat ke \<le> f * 4096 \<and> 256 \<le> f}"
    using ok le by (intro fold_reserve [OF _ _ _ _ _ rs]) auto
  have init: "pmm_init kernel_end count entries = \<lparr>frame_bitmap = bm', frame_count = mx div 4096,
      total_frames_count = us, used_frames_count = used, reserved_end = ke\<rparr>"
    using sc rs by (simp add: pmm_init_def Let_def ke_def)
  have fs: "free_set bm' = {f \<in> ?U. unat ke \<le> f * 4096 \<and> 256 \<le> f}"
    using res ok(2,5) by (auto simp: mx)
  have "?U \<subseteq> {..<unat (mx div 4096)}" using ok(5) by (auto simp: mx)
  with fs res ok(3) le show ?thesis
    unfolding ke_def [symmetric] by (auto simp: init pmm_inv_def)
qed

subsection \<open>Allocation and release\<close>

lemma pmm_inv_facts:
  assumes "pmm_inv U s"
  shows "length (frame_bitmap s) = 4096" "unat (frame_count s) \<le> 32768" "finite U"
    "free_set (frame_bitmap s) \<subseteq> U" "\<And>f. f \<in> U \<Longrightarrow> f < unat (frame_count s)"
    "\<And>f. f \<in> U \<Longrightarrow> f < 32768" "card U \<le> 32768"
proof -
  show 1: "length (frame_bitmap s) = 4096" "unat (frame_count s) \<le> 32768"
      "free_set (frame_bitmap s) \<subseteq> U" "\<And>f. f \<in> U \<Longrightarrow> f < unat (frame_count s)"
    using assms by (auto simp: pmm_inv_def)
  then show "\<And>f. f \<in> U \<Longrightarrow> f < 32768" by fastforce
  have sub: "U \<subseteq> {..<unat (frame_count s)}" using 1(4) by auto
  then show "finite U" by (rule finite_subset) simp
  show "card U \<le> 32768" using card_mono [OF _ sub] 1(2) by simp
qed

text \<open>The scan finds the least free frame.\<close>

lemma pmm_scan:
  assumes "pmm_inv U s"
  shows "scan (\<lambda>i. bit_test (frame_bitmap s) (of_nat i) = 0) 0 (unat (frame_count s)) =
     (if free_set (frame_bitmap s) = {} then None else Some (Min (free_set (frame_bitmap s))))"
proof -
  let ?F = "free_set (frame_bitmap s)"
  note facts = pmm_inv_facts [OF assms]
  have "bit_test (frame_bitmap s) (of_nat i) = 0 \<longleftrightarrow> i \<in> ?F" if "i < unat (frame_count s)" for i
    using that facts(1,2) by (simp add: bit_test_free_set)
  then have eq: "scan (\<lambda>i. bit_test (frame_bitmap s) (of_nat i) = 0) 0 (unat (frame_count s)) =
      scan (\<lambda>i. i \<in> ?F) 0 (unat (frame_count s))"
    by (intro scan_cong) simp
  show ?thesis
  proof (cases "?F = {}")
    case True
    then show ?thesis by (simp add: eq scan_None_iff)
  next
    case False
    then have "Min ?F \<in> ?F" by (intro Min_in) auto
    moreover have "Min ?F \<le> f" if "f \<in> ?F" for f using that by (intro Min_le) auto
    moreover have "Min ?F < unat (frame_count s)" using calculation(1) facts(4,5) by blast
    ultimately show ?thesis using False by (auto simp: eq scan_Some_iff not_less)
  qed
qed

lemma pmm_alloc_none:
  "pmm_inv U s \<Longrightarrow> free_set (frame_bitmap s) = {} \<Longrightarrow> pmm_alloc_frame s = (s, 0)"
  by (simp add: pmm_alloc_frame_def pmm_scan)

lemma pmm_alloc_some:
  assumes "pmm_inv U s" "free_set (frame_bitmap s) \<noteq> {}"
  defines "f \<equiv> Min (free_set (frame_bitmap s))"
  shows "pmm_alloc_frame s = (s\<lparr>frame_bitmap := bit_set (of_nat f) (frame_bitmap s),
      used_frames_count := used_frames_count s + 1\<rparr>, of_nat f * 4096)"
    and "pmm_inv U (fst (pmm_alloc_frame s))"
    and "free_set (frame_bitmap (fst (pmm_alloc_frame s))) = free_set (frame_bitmap s) - {f}"
    and "f \<in> free_set (frame_bitmap s)"
proof -
  note facts = pmm_inv_facts [OF assms(1)]
  show f: "f \<in> free_set (frame_bitmap s)" unfolding f_def using assms(2) by (intro Min_in) auto
  then have lt: "f < 32768" using facts(4,6) by blast
  show alloc: "pmm_alloc_frame s = (s\<lparr>frame_bitmap := bit_set (of_nat f) (frame_bitmap s),
      used_frames_count := used_frames_count s + 1\<rparr>, of_nat f * 4096)"
    using assms(1,2) by (simp add: pmm_alloc_frame_def pmm_scan f_def)
  show fs: "free_set (frame_bitmap (fst (pmm_alloc_frame s))) = free_set (frame_bitmap s) - {f}"
    using lt facts(1) by (simp add: alloc free_set_bit_set)
  have "U - (free_set (frame_bitmap s) - {f}) = insert f (U - free_set (frame_bitmap s))"
    using f facts(4) by auto
  then have "(of_nat (card (U - (free_set (frame_bitmap s) - {f}))) :: u32) =
      of_nat (card (U - free_set (frame_bitmap s))) + 1"
    using f facts(3) by (simp add: card_insert_word)
  then show "pmm_inv U (fst (pmm_alloc_frame s))"
    using assms(1) fs by (auto simp: pmm_inv_def alloc)
qed

lemma pmm_pool_addr:
  assumes "pmm_inv U s" "f \<in> pmm_pool U s"
  shows "256 \<le> f" "f < 32768" "unat ((of_nat f :: u32) * 4096) = f * 4096"
    "(of_nat f * 4096 :: u32) \<noteq> 0"
proof -
  show 1: "256 \<le> f" "f < 32768"
    using assms pmm_inv_facts(6) [OF assms(1)] by (auto simp: pmm_pool_def)
  show 2: "unat ((of_nat f :: u32) * 4096) = f * 4096" using 1 by (intro unat_frame_addr) simp
  then show "(of_nat f * 4096 :: u32) \<noteq> 0" using 1 by (metis mult_eq_0_iff not_numeral_le_zero
      unsigned_0 zero_neq_numeral)
qed

lemma free_set_pool: "pmm_inv U s \<Longrightarrow> free_set (frame_bitmap s) \<subseteq> pmm_pool U s"
  by (auto simp: pmm_inv_def pmm_pool_def)

text \<open>A frame in the pool passes every guard of \<^verbatim>\<open>pmm_free_frame\<close> but the last.\<close>

lemma pmm_free_frame_pool:
  assumes "pmm_inv U s" "f \<in> pmm_pool U s"
  shows "pmm_free_frame (of_nat f * 4096) s =
     (if f \<in> free_set (frame_bitmap s) then s
      else s\<lparr>frame_bitmap := bit_clear (of_nat f) (frame_bitmap s),
             used_frames_count := (if 0 < used_frames_count s then used_frames_count s - 1
                                   else used_frames_count s)\<rparr>)"
proof -
  note facts = pmm_inv_facts [OF assms(1)] and addr = pmm_pool_addr [OF assms]
  have "f < unat (frame_count s)" "unat (reserved_end s) \<le> f * 4096"
    using assms facts(5) by (auto simp: pmm_pool_def mult.commute)
  moreover have "(of_nat f * 4096 :: u32) div 4096 = of_nat f" "(of_nat f * 4096 :: u32) mod 4096 = 0"
    using addr(2) by (simp_all add: frame_addr_div frame_addr_mod)
  ultimately show ?thesis
    using facts(1) addr by (simp add: pmm_free_frame_def Let_def bit_test_free_set word_less_nat_alt
        word_le_nat_alt)
qed

lemma pmm_free_owned:
  assumes "pmm_inv U s" "f \<in> pmm_pool U s" "f \<notin> free_set (frame_bitmap s)"
  shows "pmm_inv U (pmm_free_frame (of_nat f * 4096) s)"
    and "free_set (frame_bitmap (pmm_free_frame (of_nat f * 4096) s)) =
      insert f (free_set (frame_bitmap s))"
    and "used_frames_count (pmm_free_frame (of_nat f * 4096) s) = used_frames_count s - 1"
    and "pmm_free_frame (of_nat f * 4096) s = s\<lparr>frame_bitmap := bit_clear (of_nat f) (frame_bitmap s),
           used_frames_count := used_frames_count s - 1\<rparr>"
proof -
  let ?F = "free_set (frame_bitmap s)"
  note facts = pmm_inv_facts [OF assms(1)] and addr = pmm_pool_addr [OF assms(1,2)]
  have fU: "f \<in> U" using assms(2) by (simp add: pmm_pool_def)
  have un: "used_frames_count s = of_nat (card (U - ?F))" using assms(1) by (simp add: pmm_inv_def)
  have split: "U - ?F = insert f (U - insert f ?F)" using fU assms(3) by auto
  have card: "card (U - ?F) = Suc (card (U - insert f ?F))"
    using facts(3) by (subst split) simp
  have "card (U - ?F) \<le> 32768"
    using card_mono [OF facts(3), of "U - ?F"] facts(7) by simp
  then have pos: "0 < used_frames_count s"
    using card by (simp add: un word_less_nat_alt unat_of_nat del: of_nat_Suc)
  show eq: "pmm_free_frame (of_nat f * 4096) s = s\<lparr>frame_bitmap := bit_clear (of_nat f) (frame_bitmap s),
           used_frames_count := used_frames_count s - 1\<rparr>"
    using pmm_free_frame_pool [OF assms(1,2)] assms(3) pos by simp
  show fs: "free_set (frame_bitmap (pmm_free_frame (of_nat f * 4096) s)) = insert f ?F"
    using facts(1) addr(2) by (simp add: eq free_set_bit_clear)
  show "used_frames_count (pmm_free_frame (of_nat f * 4096) s) = used_frames_count s - 1"
    by (simp add: eq)
  have "used_frames_count s - 1 = of_nat (card (U - insert f ?F))"
    using card by (simp add: un)
  with assms fU fs show "pmm_inv U (pmm_free_frame (of_nat f * 4096) s)"
    by (auto simp: pmm_inv_def eq pmm_pool_def mult.commute)
qed

subsection \<open>The interface to the other components\<close>

text \<open>
  What a client of the physical memory manager relies on: frames are handed out lowest first,
  none twice, and a frame the client owns can be given back. \<open>avail\<close> is the set of free
  frame numbers, \<open>pool\<close> the set of frames a client may own.
\<close>

locale frame_allocator =
  fixes alloc :: "'s \<Rightarrow> 's \<times> u32" and free :: "u32 \<Rightarrow> 's \<Rightarrow> 's"
    and inv :: "'s \<Rightarrow> bool" and avail :: "'s \<Rightarrow> nat set" and pool :: "'s \<Rightarrow> nat set"
  assumes finite_avail: "inv s \<Longrightarrow> finite (avail s)"
    and avail_pool: "inv s \<Longrightarrow> avail s \<subseteq> pool s"
    and pool_range: "inv s \<Longrightarrow> f \<in> pool s \<Longrightarrow> 256 \<le> f \<and> f < 32768"
    and alloc_empty: "inv s \<Longrightarrow> avail s = {} \<Longrightarrow> alloc s = (s, 0)"
    and alloc_addr: "inv s \<Longrightarrow> avail s \<noteq> {} \<Longrightarrow> snd (alloc s) = of_nat (Min (avail s)) * 4096"
    and alloc_avail: "inv s \<Longrightarrow> avail s \<noteq> {} \<Longrightarrow>
      avail (fst (alloc s)) = avail s - {Min (avail s)}"
    and alloc_inv: "inv s \<Longrightarrow> inv (fst (alloc s))"
    and alloc_pool: "inv s \<Longrightarrow> pool (fst (alloc s)) = pool s"
    and free_inv: "inv s \<Longrightarrow> f \<in> pool s \<Longrightarrow> f \<notin> avail s \<Longrightarrow> inv (free (of_nat f * 4096) s)"
    and free_avail: "inv s \<Longrightarrow> f \<in> pool s \<Longrightarrow> f \<notin> avail s \<Longrightarrow>
      avail (free (of_nat f * 4096) s) = insert f (avail s)"
    and free_pool: "inv s \<Longrightarrow> f \<in> pool s \<Longrightarrow> pool (free (of_nat f * 4096) s) = pool s"
begin

lemma pool_unat: "inv s \<Longrightarrow> f \<in> pool s \<Longrightarrow> unat ((of_nat f :: u32) * 4096) = f * 4096"
  using pool_range by (intro unat_frame_addr) fastforce

lemma pool_nonzero: "inv s \<Longrightarrow> f \<in> pool s \<Longrightarrow> (of_nat f * 4096 :: u32) \<noteq> 0"
  using pool_range pool_unat by (metis mult_eq_0_iff not_numeral_le_zero unsigned_0 zero_neq_numeral)

lemma Min_avail: "inv s \<Longrightarrow> avail s \<noteq> {} \<Longrightarrow> Min (avail s) \<in> avail s"
  using finite_avail by (intro Min_in) auto

text \<open>Address 0 is returned exactly when no frame is left.\<close>

lemma alloc_zero_iff: "inv s \<Longrightarrow> snd (alloc s) = 0 \<longleftrightarrow> avail s = {}"
  by (metis Min_avail alloc_addr alloc_empty avail_pool pool_nonzero snd_conv subsetD)

lemma alloc_frames_step:
  assumes "inv s" "avail s \<noteq> {}"
  shows "alloc_frames alloc (Suc n) acc s =
     alloc_frames alloc n (acc @ [of_nat (Min (avail s)) * 4096]) (fst (alloc s))"
  using alloc_addr [OF assms] alloc_zero_iff [of s] assms by (simp add: split_def)

lemma alloc_frames_ok:
  "inv s \<Longrightarrow> n \<le> card (avail s) \<Longrightarrow>
   \<exists>s' fs. alloc_frames alloc n acc s = (s', acc @ map (\<lambda>f. of_nat f * 4096) fs, True)
     \<and> length fs = n \<and> distinct fs \<and> set fs \<subseteq> avail s
     \<and> avail s' = avail s - set fs \<and> inv s' \<and> pool s' = pool s"
proof (induction n arbitrary: s acc)
  case 0
  then show ?case by auto
next
  case (Suc n)
  let ?m = "Min (avail s)" and ?s = "fst (alloc s)"
  have ne: "avail s \<noteq> {}" using Suc.prems by auto
  have m: "?m \<in> avail s" using Suc.prems ne by (intro Min_avail) auto
  have av: "avail ?s = avail s - {?m}" using Suc.prems(1) ne by (rule alloc_avail)
  have "n \<le> card (avail ?s)" using Suc.prems m finite_avail by (simp add: av)
  from Suc.IH [OF alloc_inv [OF Suc.prems(1)] this, of "acc @ [of_nat ?m * 4096]"]
  obtain s' fs where IH: "alloc_frames alloc n (acc @ [of_nat ?m * 4096]) ?s =
        (s', (acc @ [of_nat ?m * 4096]) @ map (\<lambda>f. of_nat f * 4096) fs, True)"
      "length fs = n" "distinct fs" "set fs \<subseteq> avail ?s" "avail s' = avail ?s - set fs"
      "inv s'" "pool s' = pool ?s"
    by blast
  have "alloc_frames alloc (Suc n) acc s =
      (s', acc @ map (\<lambda>f. of_nat f * 4096) (?m # fs), True)"
    using IH(1) by (simp only: alloc_frames_step [OF Suc.prems(1) ne]) simp
  moreover have "length (?m # fs) = Suc n" "distinct (?m # fs)" "set (?m # fs) \<subseteq> avail s"
      "avail s' = avail s - set (?m # fs)" "pool s' = pool s"
    using IH m alloc_pool [OF Suc.prems(1)] by (auto simp: av)
  ultimately show ?case using IH(6) by blast
qed

lemma alloc_frames_short:
  "inv s \<Longrightarrow> card (avail s) < n \<Longrightarrow>
   \<exists>s' fs. alloc_frames alloc n acc s = (s', acc @ map (\<lambda>f. of_nat f * 4096) fs, False)
     \<and> distinct fs \<and> set fs = avail s \<and> avail s' = {} \<and> inv s' \<and> pool s' = pool s"
proof (induction n arbitrary: s acc)
  case 0
  then show ?case by simp
next
  case (Suc n)
  let ?m = "Min (avail s)" and ?s = "fst (alloc s)"
  show ?case
  proof (cases "avail s = {}")
    case True
    then show ?thesis using Suc.prems alloc_empty [of s] by (intro exI [of _ s] exI [of _ "[]"]) simp
  next
    case False
    have m: "?m \<in> avail s" using Suc.prems False by (intro Min_avail) auto
    have av: "avail ?s = avail s - {?m}" using Suc.prems(1) False by (rule alloc_avail)
    have "card (avail ?s) < n" using Suc.prems m finite_avail
      by (metis av card.remove not_less_eq)
    from Suc.IH [OF alloc_inv [OF Suc.prems(1)] this, of "acc @ [of_nat ?m * 4096]"]
    obtain s' fs where IH: "alloc_frames alloc n (acc @ [of_nat ?m * 4096]) ?s =
          (s', (acc @ [of_nat ?m * 4096]) @ map (\<lambda>f. of_nat f * 4096) fs, False)"
        "distinct fs" "set fs = avail ?s" "avail s' = {}" "inv s'" "pool s' = pool ?s"
      by blast
    have "alloc_frames alloc (Suc n) acc s =
        (s', acc @ map (\<lambda>f. of_nat f * 4096) (?m # fs), False)"
      using IH(1) by (simp only: alloc_frames_step [OF Suc.prems(1) False]) simp
    moreover have "distinct (?m # fs)" "set (?m # fs) = avail s" "pool s' = pool s"
      using IH m alloc_pool [OF Suc.prems(1)] by (auto simp: av)
    ultimately show ?thesis using IH(4,5) by blast
  qed
qed

lemma free_frames_ok:
  "inv s \<Longrightarrow> distinct fs \<Longrightarrow> set fs \<subseteq> pool s \<Longrightarrow> set fs \<inter> avail s = {} \<Longrightarrow>
     inv (fold free (map (\<lambda>f. of_nat f * 4096) fs) s)
     \<and> avail (fold free (map (\<lambda>f. of_nat f * 4096) fs) s) = avail s \<union> set fs
     \<and> pool (fold free (map (\<lambda>f. of_nat f * 4096) fs) s) = pool s"
proof (induction fs arbitrary: s)
  case Nil
  then show ?case by simp
next
  case (Cons f fs)
  let ?s = "free (of_nat f * 4096) s"
  have s: "inv ?s" "avail ?s = insert f (avail s)" "pool ?s = pool s"
    using Cons.prems free_inv free_avail free_pool by auto
  have "set fs \<subseteq> pool ?s" "set fs \<inter> avail ?s = {}" using Cons.prems s by auto
  from Cons.IH [OF s(1) _ this] Cons.prems(2) s show ?case by auto
qed

end

interpretation pmm: frame_allocator pmm_alloc_frame pmm_free_frame "pmm_inv U"
  "\<lambda>s. free_set (frame_bitmap s)" "pmm_pool U" for U
proof (unfold_locales, goal_cases)
  case (1 s)
  then show ?case by simp
next
  case (2 s)
  then show ?case by (rule free_set_pool)
next
  case (3 s f)
  then show ?case using pmm_pool_addr by blast
next
  case (4 s)
  then show ?case by (rule pmm_alloc_none)
next
  case (5 s)
  then show ?case by (simp add: pmm_alloc_some(1))
next
  case (6 s)
  then show ?case by (rule pmm_alloc_some(3))
next
  case (7 s)
  then show ?case
    by (cases "free_set (frame_bitmap s) = {}") (simp_all add: pmm_alloc_none pmm_alloc_some(2))
next
  case (8 s)
  then show ?case
    by (cases "free_set (frame_bitmap s) = {}")
      (simp_all add: pmm_alloc_none pmm_alloc_some(1) pmm_pool_def)
next
  case (9 s f)
  then show ?case by (rule pmm_free_owned(1))
next
  case (10 s f)
  then show ?case by (rule pmm_free_owned(2))
next
  case (11 s f)
  then show ?case by (simp add: pmm_free_frame_pool pmm_pool_def)
qed

subsection \<open>Whole-state facts\<close>

lemma pmm_alloc_kept [kframe]:
  "frame_count (fst (pmm_alloc_frame s)) = frame_count s"
  "reserved_end (fst (pmm_alloc_frame s)) = reserved_end s"
  by (simp_all add: pmm_alloc_frame_def split: option.split)

lemma pmm_free_kept [kframe]:
  "frame_count (pmm_free_frame a s) = frame_count s"
  "reserved_end (pmm_free_frame a s) = reserved_end s"
  by (simp_all add: pmm_free_frame_def Let_def)

lemma alloc_frames_kept:
  "alloc_frames pmm_alloc_frame n acc s = (s', fs, ok) \<Longrightarrow>
     frame_count s' = frame_count s \<and> reserved_end s' = reserved_end s"
proof (induction n arbitrary: acc s)
  case 0
  then show ?case by simp
next
  case (Suc n)
  show ?case
  proof (cases "snd (pmm_alloc_frame s) = 0")
    case True
    with Suc.prems have "s' = fst (pmm_alloc_frame s)" by (simp add: split_def)
    then show ?thesis by (simp add: kframe)
  next
    case False
    with Suc.prems Suc.IH [of _ "fst (pmm_alloc_frame s)"] show ?thesis
      by (simp add: split_def kframe)
  qed
qed

lemma fold_free_kept [kframe]:
  "frame_count (fold pmm_free_frame as s) = frame_count s"
  "reserved_end (fold pmm_free_frame as s) = reserved_end s"
  by (induction as arbitrary: s) (simp_all add: kframe)

lemma free_set_inject:
  assumes "length bm = length bm'" "free_set bm = free_set bm'"
  shows "bm = bm'"
proof (rule nth_equalityI)
  fix i assume i: "i < length bm"
  have "bit (bm ! i) j = bit (bm' ! i) j" if "j < 8" for j
  proof -
    have "8 * i + j \<in> free_set bm \<longleftrightarrow> \<not> bit (bm ! i) j"
      "8 * i + j \<in> free_set bm' \<longleftrightarrow> \<not> bit (bm' ! i) j"
      using that i assms(1) by (auto simp: free_set_def)
    with assms(2) show ?thesis by simp
  qed
  then show "bm ! i = bm' ! i" by (intro bit_word_eqI) simp
qed (rule assms(1))

lemma pmm_state_eqI:
  assumes "pmm_inv U s" "pmm_inv U t"
    and "free_set (frame_bitmap s) = free_set (frame_bitmap t)"
    and "frame_count s = frame_count t" "reserved_end s = reserved_end t"
  shows "s = t"
proof -
  have "frame_bitmap s = frame_bitmap t"
    using assms by (intro free_set_inject) (auto simp: pmm_inv_def)
  moreover have "total_frames_count s = total_frames_count t"
      "used_frames_count s = used_frames_count t"
    using assms by (auto simp: pmm_inv_def)
  ultimately show ?thesis using assms(4,5) by (intro pmm_state.equality) simp_all
qed

lemma pmm_free_frames_card:
  assumes "pmm_inv U s"
  shows "pmm_free_frames s = of_nat (card (free_set (frame_bitmap s)))"
proof -
  note facts = pmm_inv_facts [OF assms]
  have "card U = card (U - free_set (frame_bitmap s)) + card (free_set (frame_bitmap s))"
    using facts(3,4) by (metis card_Diff_subset card_mono finite_free_set le_add_diff_inverse2)
  then show ?thesis using assms by (simp add: pmm_free_frames_def pmm_inv_def)
qed

subsection \<open>Properties\<close>

text \<open>
  C1: initialising from an E820 map establishes the invariant for exactly the whole pages of its
  type-1 ranges below 128 MiB, and the frames left free are those above the kernel and the
  first MiB.
\<close>

theorem pmm_init_correct:
  "pmm_inv (e820_usable count entries) (pmm_init kernel_end count entries)
   \<and> free_set (frame_bitmap (pmm_init kernel_end count entries)) =
       {f \<in> e820_usable count entries. unat (align_up_page kernel_end) \<le> f * 4096 \<and> 256 \<le> f}
   \<and> pmm_free_frames (pmm_init kernel_end count entries) =
       of_nat (card {f \<in> e820_usable count entries.
         unat (align_up_page kernel_end) \<le> f * 4096 \<and> 256 \<le> f})"
proof -
  note spec = pmm_init_spec [of count entries kernel_end]
  with pmm_free_frames_card [of "e820_usable count entries" "pmm_init kernel_end count entries"]
  show ?thesis by simp
qed

text \<open>
  C9: first-fit allocation refines the specification on sets of frames: with no free frame the
  set is unchanged and 0 is returned, otherwise the lowest free frame leaves the set and its
  address is returned. The invariant is kept, the address is page aligned and at least 1 MiB
  when it is not 0, and the free count drops by one exactly when a frame was handed out.
\<close>

theorem pmm_alloc_refines:
  assumes "pmm_inv U s" "pmm_alloc_frame s = (s', a)"
  shows "(free_set (frame_bitmap s'), unat a) = abs_alloc (free_set (frame_bitmap s))
     \<and> pmm_inv U s' \<and> unat a mod 4096 = 0 \<and> (a = 0 \<or> 0x100000 \<le> a)
     \<and> pmm_free_frames s' = (if a = 0 then pmm_free_frames s else pmm_free_frames s - 1)"
proof (cases "free_set (frame_bitmap s) = {}")
  case True
  with assms show ?thesis by (simp add: pmm_alloc_none abs_alloc_def)
next
  case False
  note al = pmm_alloc_some [OF assms(1) False]
  let ?f = "Min (free_set (frame_bitmap s))"
  have f: "?f \<in> pmm_pool U s" using al(4) free_set_pool [OF assms(1)] by blast
  note addr = pmm_pool_addr [OF assms(1) f]
  have a: "a = of_nat ?f * 4096" using al(1) assms(2) by simp
  have "0x100000 \<le> a" using addr(1,3) by (simp add: a word_le_nat_alt)
  moreover have "pmm_free_frames s' = pmm_free_frames s - 1"
    using al(1) assms(2) by (auto simp: pmm_free_frames_def)
  ultimately show ?thesis
    using al(2,3) addr(3,4) False assms(2) by (simp add: abs_alloc_def a)
qed

text \<open>A machine with two usable pages, at 1 MiB and two pages above, and a hole between them.\<close>

definition two_pages :: "nat \<Rightarrow> e820_entry" where
  "two_pages i = \<lparr>e820_base = (if i = 0 then 0x100000 else 0x102000), e820_length = 0x1000,
     e820_type = 1, e820_acpi = 0\<rparr>"

lemma two_pages_usable: "e820_usable 2 two_pages = {256, 258}"
proof -
  have "{..<min (unat (2 :: u16)) 128} = {0, 1 :: nat}" by auto
  moreover have "e820_frames (two_pages 0) = {256}" "e820_frames (two_pages 1) = {258}"
    by (auto simp: e820_frames_def two_pages_def)
  ultimately show ?thesis by (auto simp: e820_usable_def)
qed

lemma align_up_0x10000: "align_up_page 0x10000 = 0x10000"
  by (simp add: align_up_page_def)

lemma two_pages_state:
  "pmm_inv {256, 258} (pmm_init 0x10000 2 two_pages)"
  "free_set (frame_bitmap (pmm_init 0x10000 2 two_pages)) = {256, 258}"
  "reserved_end (pmm_init 0x10000 2 two_pages) = 0x10000"
proof -
  note spec = pmm_init_spec [of 2 two_pages "0x10000", unfolded two_pages_usable align_up_0x10000]
  show "pmm_inv {256, 258} (pmm_init 0x10000 2 two_pages)"
    and "reserved_end (pmm_init 0x10000 2 two_pages) = 0x10000"
    using spec by blast+
  have "{f \<in> {256, 258 :: nat}. unat (0x10000 :: u32) \<le> f * 4096 \<and> 256 \<le> f} = {256, 258}"
    by auto
  with spec show "free_set (frame_bitmap (pmm_init 0x10000 2 two_pages)) = {256, 258}"
    by metis
qed

theorem pmm_alloc_refines_witness:
  "\<exists>s' a. pmm_inv {256, 258} (pmm_init 0x10000 2 two_pages)
     \<and> pmm_alloc_frame (pmm_init 0x10000 2 two_pages) = (s', a)
     \<and> (free_set (frame_bitmap s'), unat a) = ({258}, 0x100000) \<and> pmm_inv {256, 258} s'"
proof -
  obtain s' a where al: "pmm_alloc_frame (pmm_init 0x10000 2 two_pages) = (s', a)" by fastforce
  from pmm_alloc_refines [OF two_pages_state(1) al] two_pages_state(1) al show ?thesis
    by (auto simp: abs_alloc_def two_pages_state(2))
qed

lemma pmm_free_usable:
  assumes "pmm_inv U s" "unat addr div 4096 \<in> U"
  shows "free_set (frame_bitmap (pmm_free_frame addr s)) =
       abs_free (pmm_pool U s) (unat addr) (free_set (frame_bitmap s))
     \<and> pmm_inv U (pmm_free_frame addr s)
     \<and> (unat addr div 4096 \<in> free_set (frame_bitmap s) \<longrightarrow> pmm_free_frame addr s = s)"
proof -
  let ?f = "unat addr div 4096"
  have f: "?f < 32768" using assms pmm_inv_facts(6) by blast
  have mod: "addr mod 4096 = 0 \<longleftrightarrow> unat addr mod 4096 = 0"
    by (simp add: word_unat_eq_iff unat_mod)
  show ?thesis
  proof (cases "unat addr mod 4096 = 0 \<and> ?f \<in> pmm_pool U s")
    case True
    then have "unat addr = ?f * 4096" by auto
    moreover have "unat ((of_nat ?f :: u32) * 4096) = ?f * 4096"
      using f by (intro unat_frame_addr) simp
    ultimately have addr: "addr = of_nat ?f * 4096" by (simp only: word_unat_eq_iff)
    show ?thesis
    proof (cases "?f \<in> free_set (frame_bitmap s)")
      case t: True
      then have "pmm_free_frame addr s = s"
        using pmm_free_frame_pool [of U s ?f] True assms(1) addr [symmetric] by simp
      with t True assms(1) show ?thesis by (auto simp: abs_free_def)
    next
      case False
      with True assms(1) addr [symmetric] pmm_free_owned [of U s ?f] show ?thesis
        by (auto simp: abs_free_def)
    qed
  next
    case False
    have "pmm_free_frame addr s = s"
    proof (cases "unat addr mod 4096 = 0")
      case True
      then have a: "unat addr = ?f * 4096" by auto
      with False True assms(2) have "?f < 256 \<or> ?f * 4096 < unat (reserved_end s)"
        by (auto simp: pmm_pool_def not_le mult.commute)
      then have "addr < reserved_end s \<or> addr < 0x00100000"
        using a by (auto simp: word_less_nat_alt)
      then show ?thesis by (auto simp: pmm_free_frame_def Let_def)
    qed (simp add: pmm_free_frame_def Let_def mod)
    with False assms(1) show ?thesis by (auto simp: abs_free_def)
  qed
qed

text \<open>
  C10: releasing a frame. For an address in a frame of usable memory (a frame of \<open>U\<close>, the frames the
  memory map calls usable) it refines the set specification: an address at the start of a frame
  above the kernel and the first MiB makes that frame free, any other leaves the free set as it
  was, and the invariant is kept. For every address at all, the state does not change if the
  address is not page aligned, lies beyond the frame table, below the kernel's end or below the
  first MiB, or its frame is free already.
\<close>

theorem pmm_free_refines:
  assumes "pmm_inv U s"
  shows "(unat addr div 4096 \<in> U \<longrightarrow>
       free_set (frame_bitmap (pmm_free_frame addr s)) = abs_free (pmm_pool U s) (unat addr) (free_set (frame_bitmap s))
       \<and> pmm_inv U (pmm_free_frame addr s))
     \<and> (unat addr mod 4096 \<noteq> 0 \<or> unat (frame_count s) \<le> unat addr div 4096 \<or> unat addr < unat (reserved_end s)
        \<or> unat addr < 0x100000 \<or> unat addr div 4096 \<in> free_set (frame_bitmap s) \<longrightarrow> pmm_free_frame addr s = s)"
proof (intro conjI impI)
  show "free_set (frame_bitmap (pmm_free_frame addr s)) = abs_free (pmm_pool U s) (unat addr) (free_set (frame_bitmap s))"
    "pmm_inv U (pmm_free_frame addr s)" if "unat addr div 4096 \<in> U"
    using pmm_free_usable [OF assms that] by blast+
  assume "unat addr mod 4096 \<noteq> 0 \<or> unat (frame_count s) \<le> unat addr div 4096 \<or> unat addr < unat (reserved_end s)
    \<or> unat addr < 0x100000 \<or> unat addr div 4096 \<in> free_set (frame_bitmap s)"
  then consider "addr mod 4096 \<noteq> 0" | "frame_count s \<le> addr div 4096" | "addr < reserved_end s \<or> addr < 0x00100000"
    | "unat addr div 4096 \<in> free_set (frame_bitmap s)"
    by (auto simp: word_unat_eq_iff word_le_nat_alt word_less_nat_alt unat_mod unat_div)
  then show "pmm_free_frame addr s = s"
  proof cases
    case 4
    then show ?thesis using pmm_free_usable [OF assms] pmm_inv_facts(4) [OF assms] by blast
  qed (auto simp: pmm_free_frame_def Let_def)
qed

theorem pmm_free_refines_witness:
  "let s = fst (pmm_alloc_frame (pmm_init 0x10000 2 two_pages))
   in free_set (frame_bitmap s) = {258} \<and> free_set (frame_bitmap (pmm_free_frame 0x100000 s)) = {256, 258}
      \<and> pmm_free_frame 0x100001 s = s"
proof -
  let ?s0 = "pmm_init 0x10000 2 two_pages"
  define s where "s = fst (pmm_alloc_frame ?s0)"
  have ne: "free_set (frame_bitmap ?s0) \<noteq> {}" by (simp add: two_pages_state(2))
  note al = pmm_alloc_some [OF two_pages_state(1) ne, folded s_def]
  have f: "free_set (frame_bitmap s) = {258}" using al(3) by (auto simp: two_pages_state(2))
  have "256 \<in> pmm_pool {256, 258} ?s0" using free_set_pool [OF two_pages_state(1)] by (auto simp: two_pages_state(2))
  then have p: "256 \<in> pmm_pool {256, 258} s" using pmm.alloc_pool [OF two_pages_state(1)] by (simp add: s_def)
  note r = pmm_free_refines [OF al(2)]
  have "free_set (frame_bitmap (pmm_free_frame 0x100000 s)) = {256, 258}" using r [of "0x100000"] p f by (auto simp: abs_free_def)
  moreover have "pmm_free_frame 0x100001 s = s" using r [of "0x100001"] by simp
  ultimately show ?thesis using f by (simp add: Let_def s_def)
qed

text \<open>
  giving a frame back right after allocating it restores the exact state, bitmap and
  counters included.
\<close>

theorem pmm_alloc_free_roundtrip:
  assumes "pmm_inv U s" "pmm_alloc_frame s = (s', a)" "a \<noteq> 0"
  shows "pmm_free_frame a s' = s"
proof -
  let ?F = "free_set (frame_bitmap s)"
  have ne: "?F \<noteq> {}" using assms pmm_alloc_none by fastforce
  note al = pmm_alloc_some [OF assms(1) ne]
  have f: "Min ?F \<in> pmm_pool U s" using al(4) free_set_pool [OF assms(1)] by blast
  have s': "s' = fst (pmm_alloc_frame s)" and a: "a = of_nat (Min ?F) * 4096"
    using al(1) assms(2) by simp_all
  have "Min ?F \<in> pmm_pool U s'" using pmm.alloc_pool [OF assms(1)] f by (simp add: s')
  moreover have "Min ?F \<notin> free_set (frame_bitmap s')" using al(3) by (simp add: s')
  ultimately have "pmm_inv U (pmm_free_frame a s')"
      "free_set (frame_bitmap (pmm_free_frame a s')) = insert (Min ?F) (?F - {Min ?F})"
    using pmm_free_owned [of U s' "Min ?F"] al(2,3) by (auto simp: a s')
  moreover have "insert (Min ?F) (?F - {Min ?F}) = ?F" using al(4) by auto
  ultimately show ?thesis
    using assms(1) by (intro pmm_state_eqI [of U]) (simp_all add: s' kframe)
qed

theorem pmm_alloc_free_roundtrip_witness:
  "let s = pmm_init 0x10000 2 two_pages; (s', a) = pmm_alloc_frame s
   in a = 0x100000 \<and> pmm_free_frame a s' = s"
proof -
  obtain s' a where al: "pmm_alloc_frame (pmm_init 0x10000 2 two_pages) = (s', a)" by fastforce
  have a: "a = 0x100000"
    using pmm_alloc_some(1) [OF two_pages_state(1)] al by (simp add: two_pages_state(2))
  with pmm_alloc_free_roundtrip [OF two_pages_state(1) al] al show ?thesis by simp
qed

text \<open>
  the shell's \<^verbatim>\<open>pmmtest\<close> passes exactly when at least 100 frames are free, and on both
  outcomes every frame is returned: the allocator is left in the state it was found in.
\<close>

theorem pmmtest_correct:
  assumes "pmm_inv U s"
  shows "cmd_pmmtest s =
     (s, if 100 \<le> card (free_set (frame_bitmap s)) then Pmm_pass else Pmm_alloc_failed)"
proof -
  let ?F = "free_set (frame_bitmap s)" and ?addr = "\<lambda>f :: nat. of_nat f * 4096 :: u32"
  have restore: "fold pmm_free_frame (map ?addr fs) s1 = s"
    if "alloc_frames pmm_alloc_frame 100 [] s = (s1, as, ok)" "pmm_inv U s1" "distinct fs"
      "set fs \<subseteq> ?F" "free_set (frame_bitmap s1) = ?F - set fs" "pmm_pool U s1 = pmm_pool U s"
    for s1 fs as ok
  proof -
    have "set fs \<subseteq> pmm_pool U s1" using that(4,6) free_set_pool [OF assms] by auto
    moreover have "set fs \<inter> free_set (frame_bitmap s1) = {}" using that(5) by auto
    ultimately have "pmm_inv U (fold pmm_free_frame (map ?addr fs) s1)"
        "free_set (frame_bitmap (fold pmm_free_frame (map ?addr fs) s1)) = (?F - set fs) \<union> set fs"
      using pmm.free_frames_ok [of U s1 fs] that(2,3,5) by simp_all
    moreover have "(?F - set fs) \<union> set fs = ?F" using that(4) by auto
    ultimately show ?thesis
      using assms alloc_frames_kept [OF that(1)] by (intro pmm_state_eqI [of U]) (simp_all add: kframe)
  qed
  show ?thesis
  proof (cases "100 \<le> card ?F")
    case True
    obtain s1 fs where a: "alloc_frames pmm_alloc_frame 100 [] s = (s1, map ?addr fs, True)"
        "length fs = 100" "distinct fs" "set fs \<subseteq> ?F" "free_set (frame_bitmap s1) = ?F - set fs"
        "pmm_inv U s1" "pmm_pool U s1 = pmm_pool U s"
      using pmm.alloc_frames_ok [OF assms True, of "[]"] by auto
    have "card (?F - set fs) = card ?F - 100"
      using a(2,3,4) by (simp add: card_Diff_subset distinct_card)
    then have "pmm_free_frames s1 = pmm_free_frames s - 100"
      using True assms a(5,6) by (simp add: pmm_free_frames_card of_nat_diff)
    with True a(1) restore [OF a(1,6,3,4,5,7)] show ?thesis by (simp add: cmd_pmmtest_def Let_def)
  next
    case False
    then obtain s1 fs where a: "alloc_frames pmm_alloc_frame 100 [] s = (s1, map ?addr fs, False)"
        "distinct fs" "set fs = ?F" "free_set (frame_bitmap s1) = {}" "pmm_inv U s1"
        "pmm_pool U s1 = pmm_pool U s"
      using pmm.alloc_frames_short [OF assms, of 100 "[]"] by auto
    have "fold pmm_free_frame (map ?addr (rev fs)) s1 = s"
      using a by (intro restore [OF a(1)]) auto
    with False a(1) show ?thesis by (simp add: cmd_pmmtest_def Let_def rev_map)
  qed
qed

theorem pmmtest_correct_witness:
  "pmm_inv {256, 258} (pmm_init 0x10000 2 two_pages) \<and>
   cmd_pmmtest (pmm_init 0x10000 2 two_pages) = (pmm_init 0x10000 2 two_pages, Pmm_alloc_failed)"
  using pmmtest_correct [OF two_pages_state(1)] two_pages_state(1) by (simp add: two_pages_state(2))

text \<open>
  \<^verbatim>\<open>pmm_free_frame\<close> does not check that a frame was ever usable memory. Releasing the
  address of a frame in an E820 hole succeeds: the frame becomes allocatable and the counters no
  longer describe the usable memory.
\<close>

theorem pmm_free_accepts_hole:
  assumes "pmm_inv U s" "f \<notin> U" "f < unat (frame_count s)" "256 \<le> f"
    and "unat (reserved_end s) \<le> f * 4096"
  shows "f \<in> free_set (frame_bitmap (pmm_free_frame (of_nat f * 4096) s))
     \<and> \<not> pmm_inv U (pmm_free_frame (of_nat f * 4096) s)"
proof -
  note facts = pmm_inv_facts [OF assms(1)]
  have f: "f < 32768" using assms(3) facts(2) by simp
  have nf: "f \<notin> free_set (frame_bitmap s)" using assms(2) facts(4) by auto
  have "frame_bitmap (pmm_free_frame (of_nat f * 4096) s) = bit_clear (of_nat f) (frame_bitmap s)"
    using assms(3-5) f nf facts(1)
    by (simp add: pmm_free_frame_def Let_def bit_test_free_set word_less_nat_alt word_le_nat_alt
        frame_addr_div frame_addr_mod unat_frame_addr)
  then have "f \<in> free_set (frame_bitmap (pmm_free_frame (of_nat f * 4096) s))"
    using f facts(1) by (simp add: free_set_bit_clear)
  with assms(2) show ?thesis by (auto simp: pmm_inv_def)
qed

theorem pmm_free_accepts_hole_witness:
  "257 \<notin> {256, 258 :: nat} \<and>
   257 \<in> free_set (frame_bitmap (pmm_free_frame 0x101000 (pmm_init 0x10000 2 two_pages)))"
proof -
  have "257 < unat (frame_count (pmm_init 0x10000 2 two_pages))"
    using pmm_inv_facts(5) [OF two_pages_state(1), of 258] by simp
  then show ?thesis
    using pmm_free_accepts_hole [OF two_pages_state(1), of 257] by (simp add: two_pages_state(3))
qed

end
