(* ===== verification/Buddy.thy ===== *)
theory Buddy
  imports Pmm "HOL-Library.Multiset"
begin

text \<open>
  The buddy allocator of \<^verbatim>\<open>kernel/buddy.c\<close>: one contiguous pool of 256 frames taken from the
  physical memory manager at boot, a table of at most 1024 block descriptors, allocation by
  splitting the first large enough free block and release by merging with the free buddy.
  The first \<^verbatim>\<open>block_count\<close> entries of the C array are the list \<open>blocks\<close>; no code reads the
  array beyond \<^verbatim>\<open>block_count\<close>. \<open>buddy_inv A s\<close> is the invariant for a client that holds the
  multiset \<open>A\<close> of blocks.
\<close>

subsection \<open>State\<close>

abbreviation BUDDY_POOL_ORDER :: u32 where "BUDDY_POOL_ORDER \<equiv> 8"
abbreviation BUDDY_POOL_FRAMES :: nat where "BUDDY_POOL_FRAMES \<equiv> 256"
abbreviation BUDDY_POOL_SIZE :: u32 where "BUDDY_POOL_SIZE \<equiv> 0x100000"
abbreviation BUDDY_MAX_BLOCKS :: nat where "BUDDY_MAX_BLOCKS \<equiv> 1024"

record buddy_block =
  b_addr :: u32
  b_order :: u32
  b_free :: bool

record buddy_state =
  blocks :: "buddy_block list"
  pool_base :: u32
  buddy_initialized :: bool

subsection \<open>Helpers\<close>

definition block_size :: "u32 \<Rightarrow> u32" where
  "block_size order = push_bit (unat order) PMM_PAGE_SIZE"

definition find_free_block :: "u32 \<Rightarrow> u32 \<Rightarrow> buddy_block list \<Rightarrow> nat option" where
  "find_free_block addr order bs =
     scan (\<lambda>i. b_free (bs ! i) \<and> b_addr (bs ! i) = addr \<and> b_order (bs ! i) = order) 0 (length bs)"

definition add_block :: "u32 \<Rightarrow> u32 \<Rightarrow> buddy_block list \<Rightarrow> buddy_block list option" where
  "add_block addr order bs =
     (if BUDDY_MAX_BLOCKS \<le> length bs then None
      else Some (bs @ [\<lparr>b_addr = addr, b_order = order, b_free = True\<rparr>]))"

definition mark_used :: "u32 \<Rightarrow> u32 \<Rightarrow> buddy_block list \<Rightarrow> buddy_block list" where
  "mark_used addr order bs =
     (case find_free_block addr order bs of
        None \<Rightarrow> bs | Some i \<Rightarrow> bs[i := (bs ! i)\<lparr>b_free := False\<rparr>])"

subsection \<open>Boot: taking the pool\<close>

text \<open>The loop of \<^verbatim>\<open>find_contiguous_pool\<close> from frame \<open>i\<close> on, over the frame allocator it calls.\<close>

function pool_loop ::
  "('s \<Rightarrow> 's \<times> u32) \<Rightarrow> (u32 \<Rightarrow> 's \<Rightarrow> 's) \<Rightarrow> u32 \<Rightarrow> nat \<Rightarrow> 's \<Rightarrow> 's \<times> u32" where
  "pool_loop alloc free first i s =
     (if i < BUDDY_POOL_FRAMES then
        let (s1, addr) = alloc s in
        if addr \<noteq> first + of_nat i * PMM_PAGE_SIZE then
          let s2 = free first s1;
              s3 = fold (\<lambda>j. free (first + of_nat j * PMM_PAGE_SIZE)) [1..<i] s2;
              s4 = (if addr \<noteq> 0 then free addr s3 else s3)
          in (s4, 0)
        else pool_loop alloc free first (Suc i) s1
      else (s, first))"
  by pat_completeness auto
termination
  by (relation "measure (\<lambda>(alloc, free, first, i, s). BUDDY_POOL_FRAMES - i)") auto

declare pool_loop.simps [simp del]

definition find_contiguous_pool ::
  "('s \<Rightarrow> 's \<times> u32) \<Rightarrow> (u32 \<Rightarrow> 's \<Rightarrow> 's) \<Rightarrow> 's \<Rightarrow> 's \<times> u32" where
  "find_contiguous_pool alloc free s =
     (let (s1, first) = alloc s in
      if first = 0 then (s1, 0) else pool_loop alloc free first 1 s1)"

definition buddy_init :: "pmm_state \<Rightarrow> pmm_state \<times> buddy_state" where
  "buddy_init p =
     (let (p', base) = find_contiguous_pool pmm_alloc_frame pmm_free_frame p in
      if base = 0 then (p', \<lparr>blocks = [], pool_base = 0, buddy_initialized = False\<rparr>)
      else (p', \<lparr>blocks = (case add_block base BUDDY_POOL_ORDER [] of None \<Rightarrow> [] | Some bs \<Rightarrow> bs),
                 pool_base = base, buddy_initialized = True\<rparr>))"

subsection \<open>Allocation\<close>

text \<open>
  The splitting loop at table entry \<open>i\<close>: the table, and whether the loop ended normally
  (\<open>False\<close> is the early \<^verbatim>\<open>return 0\<close> when the table is full).
\<close>

function split_loop :: "nat \<Rightarrow> u32 \<Rightarrow> buddy_block list \<Rightarrow> buddy_block list \<times> bool" where
  "split_loop i order bs =
     (if i < length bs \<and> order < b_order (bs ! i) then
        let old_order = b_order (bs ! i);
            half = block_size (old_order - 1);
            second_addr = b_addr (bs ! i) + half;
            bs1 = bs[i := (bs ! i)\<lparr>b_order := old_order - 1\<rparr>]
        in (case add_block second_addr (old_order - 1) bs1 of
              None \<Rightarrow> (bs1, False)
            | Some bs2 \<Rightarrow> split_loop i order bs2)
      else (bs, True))"
  by pat_completeness auto
termination
proof (relation "measure (\<lambda>(i, order, bs). unat (b_order (bs ! i)))", goal_cases)
  case 1
  show ?case by simp
next
  case (2 i order bs old_order half second_addr bs1 bs2)
  then have "b_order (bs2 ! i) = old_order - 1"
    by (auto simp: add_block_def nth_append split: if_splits)
  moreover have "old_order \<noteq> 0" using 2 by auto
  then have "unat (old_order - 1) < unat old_order"
    by (simp add: unat_minus_one unat_gt_0)
  ultimately show ?case using 2 by simp
qed

declare split_loop.simps [simp del]

definition buddy_alloc :: "u32 \<Rightarrow> buddy_state \<Rightarrow> buddy_state \<times> u32" where
  "buddy_alloc order s =
     (if \<not> buddy_initialized s \<or> BUDDY_POOL_ORDER < order then (s, 0)
      else case scan (\<lambda>i. b_free (blocks s ! i) \<and> order \<le> b_order (blocks s ! i))
             0 (length (blocks s)) of
          None \<Rightarrow> (s, 0)
        | Some i \<Rightarrow>
            (case split_loop i order (blocks s) of
               (bs, False) \<Rightarrow> (s\<lparr>blocks := bs\<rparr>, 0)
             | (bs, True) \<Rightarrow> (s\<lparr>blocks := bs[i := (bs ! i)\<lparr>b_free := False\<rparr>]\<rparr>, b_addr (bs ! i))))"

subsection \<open>Release\<close>

text \<open>The merging loop: the block grown so far and the table with the merged buddies taken.\<close>

function merge_loop ::
  "u32 \<Rightarrow> u32 \<Rightarrow> u32 \<Rightarrow> buddy_block list \<Rightarrow> u32 \<times> u32 \<times> buddy_block list" where
  "merge_loop base addr order bs =
     (if order < BUDDY_POOL_ORDER then
        let buddy_addr = addr XOR block_size order in
        if buddy_addr < base \<or> base + BUDDY_POOL_SIZE \<le> buddy_addr then (addr, order, bs)
        else (case find_free_block buddy_addr order bs of
                None \<Rightarrow> (addr, order, bs)
              | Some k \<Rightarrow> merge_loop base (if buddy_addr < addr then buddy_addr else addr)
                  (order + 1) (bs[k := (bs ! k)\<lparr>b_free := False\<rparr>]))
      else (addr, order, bs))"
  by pat_completeness auto
termination
proof (relation "measure (\<lambda>(base, addr, order, bs). 8 - unat order)", goal_cases)
  case 1
  show ?case by simp
next
  case (2 base addr order bs buddy_addr k)
  then have "unat order < 8" by (simp add: word_less_nat_alt)
  then have "unat (order + 1) = unat order + 1" by (simp add: unat_word_ariths)
  with \<open>unat order < 8\<close> show ?case by simp
qed

declare merge_loop.simps [simp del]

definition buddy_free :: "u32 \<Rightarrow> u32 \<Rightarrow> buddy_state \<Rightarrow> buddy_state" where
  "buddy_free addr order s =
     (if \<not> buddy_initialized s \<or> addr < pool_base s \<or> pool_base s + BUDDY_POOL_SIZE \<le> addr
        \<or> BUDDY_POOL_ORDER < order then s
      else case merge_loop (pool_base s) addr order (blocks s) of
        (current_addr, current_order, bs) \<Rightarrow>
          s\<lparr>blocks := (case add_block current_addr current_order bs of None \<Rightarrow> bs | Some bs' \<Rightarrow> bs')\<rparr>)"

subsection \<open>The shell's test\<close>

datatype buddytest_result =
    Buddy_order0_failed | Buddy_order2_failed | Buddy_misaligned | Buddy_order3_failed
  | Buddy_pass | Buddy_unbalanced

text \<open>
  The shell command \<^verbatim>\<open>buddytest\<close> of \<^verbatim>\<open>kernel/kernel.c\<close>; the result is the verdict it prints.
  \<open>p\<close> is the physical memory manager, whose free count the test compares.
\<close>

definition cmd_buddytest :: "pmm_state \<Rightarrow> buddy_state \<Rightarrow> buddy_state \<times> buddytest_result" where
  "cmd_buddytest p s =
     (let before = pmm_free_frames p;
          (s1, a) = buddy_alloc 0 s in
      if a = 0 then (s1, Buddy_order0_failed)
      else let (s2, b) = buddy_alloc 2 s1 in
      if b = 0 then (buddy_free a 0 s2, Buddy_order2_failed)
      else if b AND (push_bit 2 PMM_PAGE_SIZE - 1) \<noteq> 0
        then (buddy_free b 2 (buddy_free a 0 s2), Buddy_misaligned)
      else let (s3, c) = buddy_alloc 3 s2 in
      if c = 0 then (buddy_free b 2 (buddy_free a 0 s3), Buddy_order3_failed)
      else let s4 = buddy_free c 3 (buddy_free b 2 (buddy_free a 0 s3)) in
        (s4, if pmm_free_frames p = before then Buddy_pass else Buddy_unbalanced))"

subsection \<open>Abstraction and invariant\<close>

text \<open>
  A block is an address and an order; its region is a set of byte addresses. \<open>cov M x\<close>
  counts the blocks of \<open>M\<close> that hold byte \<open>x\<close>: at most one everywhere means the blocks are
  disjoint, exactly one on the pool means none of it is lost.
\<close>

type_synonym block = "u32 \<times> u32"

definition region :: "block \<Rightarrow> nat set" where
  "region r = {unat (fst r) ..< unat (fst r) + 4096 * 2 ^ unat (snd r)}"

definition cov :: "block multiset \<Rightarrow> nat \<Rightarrow> nat" where
  "cov M x = size {#r \<in># M. x \<in> region r#}"

definition blk :: "buddy_block \<Rightarrow> block" where
  "blk b = (b_addr b, b_order b)"

definition free_ms :: "buddy_block list \<Rightarrow> block multiset" where
  "free_ms bs = image_mset blk (filter_mset b_free (mset bs))"

definition pool_range :: "u32 \<Rightarrow> nat set" where
  "pool_range base = {unat base ..< unat base + 0x100000}"

definition block_ok :: "u32 \<Rightarrow> block \<Rightarrow> bool" where
  "block_ok base r \<longleftrightarrow> snd r \<le> 8 \<and> region r \<subseteq> pool_range base"

definition buddy_inv :: "block multiset \<Rightarrow> buddy_state \<Rightarrow> bool" where
  "buddy_inv A s \<longleftrightarrow> buddy_initialized s \<and> length (blocks s) \<le> BUDDY_MAX_BLOCKS
     \<and> 0x100000 \<le> pool_base s \<and> pool_base s < PMM_MAX_MEMORY
     \<and> (\<forall>r \<in># free_ms (blocks s) + A. block_ok (pool_base s) r)
     \<and> (\<forall>x. cov (free_ms (blocks s) + A) x \<le> 1)"

text \<open>Every byte of the pool belongs to a free block or to a block the client holds.\<close>

definition buddy_full :: "block multiset \<Rightarrow> buddy_state \<Rightarrow> bool" where
  "buddy_full A s \<longleftrightarrow> (\<forall>x \<in> pool_range (pool_base s). cov (free_ms (blocks s) + A) x = 1)"

text \<open>
  A client of the allocator: it allocates blocks of any order and frees blocks it holds. The
  state of a run is the allocator and the multiset of blocks held.
\<close>

inductive buddy_step :: "buddy_state \<times> block multiset \<Rightarrow> buddy_state \<times> block multiset \<Rightarrow> bool" where
  step_alloc: "buddy_alloc order s = (s', a) \<Longrightarrow> a \<noteq> 0 \<Longrightarrow> buddy_step (s, A) (s', add_mset (a, order) A)"
| step_refuse: "buddy_alloc order s = (s', 0) \<Longrightarrow> buddy_step (s, A) (s', A)"
| step_free: "(a, order) \<in># A \<Longrightarrow> buddy_step (s, A) (buddy_free a order s, A - {#(a, order)#})"

text \<open>A step taken while the table has room for the eight halves of a full split.\<close>

definition roomy_step :: "buddy_state \<times> block multiset \<Rightarrow> buddy_state \<times> block multiset \<Rightarrow> bool" where
  "roomy_step x y \<longleftrightarrow> buddy_step x y \<and> length (blocks (fst x)) + 8 \<le> BUDDY_MAX_BLOCKS"

text \<open>
  Alignment of a block to its own size, the buddy of a block, and the condition that no free
  block has a free buddy (outside a possible exception, the block being split).
\<close>

definition aligned :: "block \<Rightarrow> bool" where
  "aligned r \<longleftrightarrow> (\<forall>k < 12 + unat (snd r). \<not> bit (fst r) k)"

definition buddy_of :: "block \<Rightarrow> block" where
  "buddy_of r = (fst r XOR block_size (snd r), snd r)"

definition coalesced_but :: "block \<Rightarrow> block multiset \<Rightarrow> bool" where
  "coalesced_but r0 M \<longleftrightarrow>
     (\<forall>r \<in># M. snd r < 8 \<longrightarrow> buddy_of r \<in># M \<longrightarrow> r = r0 \<or> buddy_of r = r0)"

definition coalesced :: "block multiset \<Rightarrow> bool" where
  "coalesced M \<longleftrightarrow> (\<forall>r \<in># M. snd r < 8 \<longrightarrow> buddy_of r \<notin># M)"

definition buddy_tidy :: "block multiset \<Rightarrow> buddy_state \<Rightarrow> bool" where
  "buddy_tidy A s \<longleftrightarrow> aligned (pool_base s, 8) \<and> (\<forall>r \<in># free_ms (blocks s) + A. aligned r)
     \<and> coalesced (free_ms (blocks s))"

subsection \<open>Coverage\<close>

lemma cov_empty [simp]: "cov {#} x = 0"
  by (simp add: cov_def)

lemma cov_add [simp]: "cov (add_mset r M) x = of_bool (x \<in> region r) + cov M x"
  by (simp add: cov_def)

lemma cov_union [simp]: "cov (M + N) x = cov M x + cov N x"
  by (simp add: cov_def)

lemma cov_diff: "r \<in># M \<Longrightarrow> cov M x = of_bool (x \<in> region r) + cov (M - {#r#}) x"
  by (metis cov_add insert_DiffM)

lemma cov_mono: "M \<subseteq># N \<Longrightarrow> cov M x \<le> cov N x"
  by (simp add: cov_def size_mset_mono multiset_filter_mono)

lemma cov_pos: "r \<in># M \<Longrightarrow> x \<in> region r \<Longrightarrow> 0 < cov M x"
  by (simp add: cov_diff)

lemma cov_posE:
  assumes "0 < cov M x"
  shows "\<exists>r. r \<in># M \<and> x \<in> region r"
proof -
  have "{#r \<in># M. x \<in> region r#} \<noteq> {#}" using assms unfolding cov_def by (metis less_irrefl size_empty)
  then obtain r where "r \<in># {#r \<in># M. x \<in> region r#}" by (rule multiset_nonemptyE)
  then show ?thesis by (intro exI [of _ r]) simp
qed

text \<open>Two blocks of a multiset with coverage at most one do not meet.\<close>

lemma cov_disjoint:
  assumes "\<forall>x. cov M x \<le> 1" "r \<in># M" "q \<in># M - {#r#}"
  shows "region r \<inter> region q = {}"
proof (rule ccontr)
  assume "region r \<inter> region q \<noteq> {}"
  then obtain x where x: "x \<in> region r" "x \<in> region q" by auto
  then have "cov M x = 1 + cov (M - {#r#}) x" using assms(2) by (simp add: cov_diff)
  moreover have "0 < cov (M - {#r#}) x" using assms(3) x(2) by (rule cov_pos)
  ultimately show False using assms(1) by (metis add_gr_0 less_add_same_cancel1 not_le)
qed

subsection \<open>Sizes and regions\<close>

lemma unat_block_size: "order \<le> 8 \<Longrightarrow> unat (block_size order) = 4096 * 2 ^ unat order"
proof -
  assume "order \<le> 8"
  then have "unat order \<le> 8" by (simp add: word_le_nat_alt)
  then have "4096 * 2 ^ unat order \<le> (4096 * 2 ^ 8 :: nat)"
    by (intro mult_le_mono power_increasing) auto
  then have "(4096 * 2 ^ unat order :: nat) < 2 ^ 32" by simp
  moreover have "unat (block_size order) = (4096 * 2 ^ unat order) mod 2 ^ 32"
    unfolding block_size_def unsigned_push_bit_eq
    by (simp add: push_bit_eq_mult take_bit_eq_mod mult.commute)
  ultimately show ?thesis by simp
qed

lemma region_bounds: "block_ok base r \<Longrightarrow>
    unat base \<le> unat (fst r) \<and> unat (fst r) + 4096 * 2 ^ unat (snd r) \<le> unat base + 0x100000"
proof -
  assume "block_ok base r"
  then have sub: "region r \<subseteq> pool_range base" by (simp add: block_ok_def)
  have "(1 :: nat) \<le> 4096 * 2 ^ unat (snd r)" by simp
  then have "unat (fst r) \<in> region r" "unat (fst r) + 4096 * 2 ^ unat (snd r) - 1 \<in> region r"
    unfolding region_def atLeastLessThan_iff by linarith+
  then have "unat (fst r) \<in> pool_range base"
      "unat (fst r) + 4096 * 2 ^ unat (snd r) - 1 \<in> pool_range base"
    using sub by auto
  then show ?thesis by (auto simp: pool_range_def)
qed

text \<open>Splitting: the two halves cover what the block covered.\<close>

lemma split_regions:
  assumes "block_ok base (a, old)" "unat base + 0x100000 < 2 ^ 32" "old \<noteq> 0"
  shows "block_ok base (a, old - 1)" "block_ok base (a + block_size (old - 1), old - 1)"
    and "of_bool (x \<in> region (a, old)) =
      (of_bool (x \<in> region (a, old - 1)) + of_bool (x \<in> region (a + block_size (old - 1), old - 1)) :: nat)"
proof -
  have o: "old \<le> 8" using assms(1) by (simp add: block_ok_def)
  have p: "unat (old - 1) = unat old - 1" using assms(3) by (rule unat_minus_one)
  have o0: "unat old \<noteq> 0" using assms(3) by (simp add: unat_eq_0)
  have o1: "old - 1 \<le> 8" using o p by (simp add: word_le_nat_alt)
  have pw: "(4096 :: nat) * 2 ^ unat old = 4096 * 2 ^ unat (old - 1) + 4096 * 2 ^ unat (old - 1)"
    using o0 by (cases "unat old") (simp_all add: p)
  note b = region_bounds [OF assms(1)]
  have sum: "unat (a + block_size (old - 1)) = unat a + 4096 * 2 ^ unat (old - 1)"
    using b pw assms(2) o1 by (simp add: unat_word_ariths unat_block_size)
  show "block_ok base (a, old - 1)" "block_ok base (a + block_size (old - 1), old - 1)"
    using o1 b pw sum by (auto simp: block_ok_def region_def pool_range_def)
  show "of_bool (x \<in> region (a, old)) = (of_bool (x \<in> region (a, old - 1)) +
      of_bool (x \<in> region (a + block_size (old - 1), old - 1)) :: nat)"
    using sum pw by (auto simp: region_def)
qed

lemma unat_exp: "k < 32 \<Longrightarrow> unat (2 ^ k :: u32) = 2 ^ k"
  using unsigned_push_bit_eq [where 'a = nat and 'b = 32, of k 1] power_strict_increasing [of k 32 "2 :: nat"]
  by (simp add: take_bit_eq_mod)

text \<open>The address of the buddy: one bit flipped, so the two regions are adjacent.\<close>

lemma unat_xor_exp:
  assumes "k < 32"
  shows "unat (a XOR 2 ^ k :: u32) = (if bit a k then unat a - 2 ^ k else unat a + 2 ^ k)
    \<and> (bit a k \<longrightarrow> 2 ^ k \<le> unat a)"
proof -
  have step: "unat (b XOR 2 ^ k) = unat b + 2 ^ k" if "\<not> bit b k" for b :: u32
  proof -
    have "unat (b XOR 2 ^ k) = unat b XOR unat (2 ^ k :: u32)" by (simp add: unsigned_xor_eq)
    also have "\<dots> = unat b XOR 2 ^ k" using assms by (simp add: unat_exp)
    also have "\<dots> = unat b + 2 ^ k"
      using that by (intro disjunctive_add_eq_xor [symmetric] bit_eqI) (auto simp: bit_simps)
    finally show ?thesis .
  qed
  show ?thesis
  proof (cases "bit a k")
    case False
    then show ?thesis using step by simp
  next
    case True
    have "\<not> bit (a XOR 2 ^ k) k" using True assms by (simp add: bit_simps)
    from step [OF this] have "unat a = unat (a XOR 2 ^ k) + 2 ^ k"
      by (simp add: xor.assoc)
    with True show ?thesis by simp
  qed
qed

subsection \<open>The table as a multiset of free blocks\<close>

lemma free_ms_simps [simp]:
  "free_ms [] = {#}" "free_ms (bs @ cs) = free_ms bs + free_ms cs"
  "free_ms (b # bs) = (if b_free b then add_mset (blk b) (free_ms bs) else free_ms bs)"
  by (simp_all add: free_ms_def)

lemma free_ms_mem: "i < length bs \<Longrightarrow> b_free (bs ! i) \<Longrightarrow> blk (bs ! i) \<in># free_ms bs"
  by (auto simp: free_ms_def intro!: image_eqI [of _ _ "bs ! i"])

lemma free_ms_update:
  assumes "i < length bs"
  shows "free_ms (bs[i := b]) + (if b_free (bs ! i) then {#blk (bs ! i)#} else {#}) =
     free_ms bs + (if b_free b then {#blk b#} else {#})"
proof -
  have "bs = take i bs @ bs ! i # drop (Suc i) bs" using assms by (rule id_take_nth_drop)
  then have "free_ms bs = free_ms (take i bs) + free_ms [bs ! i] + free_ms (drop (Suc i) bs)"
    by (metis add.assoc append_Cons append_Nil free_ms_simps(2))
  moreover have "free_ms (bs[i := b]) = free_ms (take i bs) + free_ms [b] + free_ms (drop (Suc i) bs)"
    using assms by (simp add: upd_conv_take_nth_drop)
  ultimately show ?thesis by simp
qed

lemma free_ms_take:
  assumes "i < length bs" "b_free (bs ! i)"
  shows "free_ms (bs[i := (bs ! i)\<lparr>b_free := False\<rparr>]) = free_ms bs - {#blk (bs ! i)#}"
  using free_ms_update [OF assms(1), of "(bs ! i)\<lparr>b_free := False\<rparr>"] assms(2)
  by simp (metis add_mset_remove_trivial)

lemma free_ms_resize:
  assumes "i < length bs" "b_free (bs ! i)"
  shows "free_ms (bs[i := (bs ! i)\<lparr>b_order := k\<rparr>]) =
     add_mset (b_addr (bs ! i), k) (free_ms bs - {#blk (bs ! i)#})"
proof -
  have "add_mset (blk (bs ! i)) (free_ms (bs[i := (bs ! i)\<lparr>b_order := k\<rparr>])) =
      add_mset (b_addr (bs ! i), k) (free_ms bs)"
    using free_ms_update [OF assms(1), of "(bs ! i)\<lparr>b_order := k\<rparr>"] assms(2)
    by (simp add: blk_def)
  then have "free_ms (bs[i := (bs ! i)\<lparr>b_order := k\<rparr>]) =
      add_mset (b_addr (bs ! i), k) (free_ms bs) - {#blk (bs ! i)#}"
    by (metis add_mset_remove_trivial)
  also have "\<dots> = add_mset (b_addr (bs ! i), k) (free_ms bs - {#blk (bs ! i)#})"
    using free_ms_mem [OF assms] by (metis add_mset_remove_trivial diff_union_swap2)
  finally show ?thesis .
qed

lemma add_block_Some:
  "add_block a k bs = Some bs' \<longleftrightarrow> length bs < 1024 \<and> bs' = bs @ [\<lparr>b_addr = a, b_order = k, b_free = True\<rparr>]"
  by (auto simp: add_block_def)

lemma add_block_None: "add_block a k bs = None \<longleftrightarrow> 1024 \<le> length bs"
  by (simp add: add_block_def)

subsection \<open>The splitting loop\<close>

text \<open>
  \<open>split_ok\<close>: what one call of the loop does to the free blocks. Either entry \<open>i\<close> is cut
  down to \<open>order\<close> and the coverage of the free blocks is unchanged, or the table became full and
  coverage only shrank. Entry \<open>i\<close> keeps its address and stays free in both cases.
\<close>

lemma split_loop_spec:
  assumes "i < length bs" "b_free (bs ! i)" "order \<le> b_order (bs ! i)" "length bs \<le> 1024"
    and "unat base + 0x100000 < 2 ^ 32" "\<forall>r \<in># free_ms bs. block_ok base r"
    and "split_loop i order bs = (bs', ok)"
  shows "i < length bs' \<and> b_free (bs' ! i) \<and> b_addr (bs' ! i) = b_addr (bs ! i) \<and> length bs' \<le> 1024
     \<and> (\<forall>r \<in># free_ms bs'. block_ok base r)
     \<and> (ok \<longrightarrow> b_order (bs' ! i) = order \<and> (\<forall>x. cov (free_ms bs') x = cov (free_ms bs) x))
     \<and> (\<not> ok \<longrightarrow> length bs' = 1024 \<and> (\<forall>x. cov (free_ms bs') x \<le> cov (free_ms bs) x))
     \<and> (length bs + unat (b_order (bs ! i)) - unat order \<le> 1024 \<longrightarrow> ok)"
  using assms
proof (induction i order bs arbitrary: bs' rule: split_loop.induct)
  case (1 i order bs)
  show ?case
  proof (cases "order < b_order (bs ! i)")
    case False
    then have "split_loop i order bs = (bs, True)" by (simp add: split_loop.simps)
    moreover have "b_order (bs ! i) = order" using False "1.prems"(3) by simp
    ultimately show ?thesis using "1.prems" by auto
  next
    case True
    let ?old = "b_order (bs ! i)" and ?a = "b_addr (bs ! i)"
    let ?bs1 = "bs[i := (bs ! i)\<lparr>b_order := ?old - 1\<rparr>]"
    let ?second = "?a + block_size (?old - 1)"
    have nz: "?old \<noteq> 0" using True by auto
    have mem: "(?a, ?old) \<in># free_ms bs" using free_ms_mem "1.prems"(1,2) by (auto simp: blk_def)
    have okb: "block_ok base (?a, ?old)" using mem "1.prems"(6) by auto
    note sp = split_regions [OF okb "1.prems"(5) nz]
    have fm1: "free_ms ?bs1 = add_mset (?a, ?old - 1) (free_ms bs - {#(?a, ?old)#})"
      using free_ms_resize [OF "1.prems"(1,2)] by (simp add: blk_def)
    have c1: "cov (free_ms bs) x = of_bool (x \<in> region (?second, ?old - 1)) + cov (free_ms ?bs1) x" for x
      using cov_diff [OF mem, of x] sp(3) [of x] by (simp add: fm1)
    have ok1: "\<forall>r \<in># free_ms ?bs1. block_ok base r"
      using "1.prems"(6) sp(1) by (auto simp: fm1 dest: in_diffD)
    have un: "unat (?old - 1) = unat ?old - 1" "unat order < unat ?old"
      using nz True by (simp_all add: unat_minus_one word_less_nat_alt)
    show ?thesis
    proof (cases "length bs < 1024")
      case False
      then have full: "length bs = 1024" using "1.prems"(4) by simp
      then have "add_block ?second (?old - 1) ?bs1 = None" by (simp add: add_block_None)
      then have "bs' = ?bs1" "\<not> ok"
        using "1.prems"(1,7) True by (auto simp: split_loop.simps [of i order bs] Let_def)
      then show ?thesis using "1.prems"(1,2) full ok1 c1 un by auto
    next
      case room: True
      let ?bs2 = "?bs1 @ [\<lparr>b_addr = ?second, b_order = ?old - 1, b_free = True\<rparr>]"
      have add: "add_block ?second (?old - 1) ?bs1 = Some ?bs2" using room by (simp add: add_block_Some)
      have at: "?bs2 ! i = (bs ! i)\<lparr>b_order := ?old - 1\<rparr>" using "1.prems"(1) by (simp add: nth_append)
      have run: "split_loop i order ?bs2 = (bs', ok)"
        using "1.prems"(1,7) True add by (simp add: split_loop.simps [of i order bs] Let_def)
      have fm2: "free_ms ?bs2 = add_mset (?second, ?old - 1) (free_ms ?bs1)" by (simp add: blk_def)
      have ok2: "\<forall>r \<in># free_ms ?bs2. block_ok base r" using ok1 sp(2) unfolding fm2 by simp
      have c2: "cov (free_ms ?bs2) x = cov (free_ms bs) x" for x unfolding fm2 by (simp add: c1)
      have le: "order \<le> ?old - 1" using un by (simp add: word_le_nat_alt)
      have "i < length ?bs2" "b_free (?bs2 ! i)" "order \<le> b_order (?bs2 ! i)" "length ?bs2 \<le> 1024"
        using "1.prems"(1,2) room le at by auto
      from "1.IH" [OF _ refl refl refl refl add this "1.prems"(5) ok2 run] "1.prems"(1) True
      have IH: "i < length bs' \<and> b_free (bs' ! i) \<and> b_addr (bs' ! i) = b_addr (?bs2 ! i) \<and> length bs' \<le> 1024
         \<and> (\<forall>r \<in># free_ms bs'. block_ok base r)
         \<and> (ok \<longrightarrow> b_order (bs' ! i) = order \<and> (\<forall>x. cov (free_ms bs') x = cov (free_ms ?bs2) x))
         \<and> (\<not> ok \<longrightarrow> length bs' = 1024 \<and> (\<forall>x. cov (free_ms bs') x \<le> cov (free_ms ?bs2) x))
         \<and> (length ?bs2 + unat (b_order (?bs2 ! i)) - unat order \<le> 1024 \<longrightarrow> ok)"
        by blast
      then show ?thesis using at un by (simp only: c2) simp
    qed
  qed
qed

subsection \<open>The merging loop\<close>

lemma block_size_exp: "block_size order = 2 ^ (12 + unat order)"
  by (simp add: block_size_def push_bit_eq_mult power_add)

lemma buddy_adjacent:
  assumes "order \<le> 8"
  shows "unat (addr XOR block_size order) = unat addr + 4096 * 2 ^ unat order
    \<or> unat addr = unat (addr XOR block_size order) + 4096 * 2 ^ unat order"
proof -
  have "12 + unat order < 32" using assms by (simp add: word_le_nat_alt)
  then show ?thesis
    using unat_xor_exp [of "12 + unat order" addr] by (auto simp: block_size_exp power_add)
qed

lemma merge_regions:
  assumes "order < 8" "block_ok base (addr, order)" "block_ok base (addr XOR block_size order, order)"
  defines "lo \<equiv> (if addr XOR block_size order < addr then addr XOR block_size order else addr)"
  shows "block_ok base (lo, order + 1)"
    and "of_bool (x \<in> region (lo, order + 1)) =
      (of_bool (x \<in> region (addr, order)) + of_bool (x \<in> region (addr XOR block_size order, order)) :: nat)"
proof -
  let ?b = "addr XOR block_size order"
  have u: "unat (order + 1) = Suc (unat order)"
    using assms(1) by (simp add: unat_word_ariths word_less_nat_alt)
  then have pw: "(4096 :: nat) * 2 ^ unat (order + 1) = 4096 * 2 ^ unat order + 4096 * 2 ^ unat order"
    by simp
  have adj: "unat ?b = unat addr + 4096 * 2 ^ unat order \<or> unat addr = unat ?b + 4096 * 2 ^ unat order"
    using assms(1) by (intro buddy_adjacent) simp
  have lo: "unat lo = min (unat addr) (unat ?b)" by (auto simp: lo_def word_less_nat_alt)
  have "order + 1 \<le> 8" using assms(1) u by (simp add: word_le_nat_alt word_less_nat_alt)
  then show "block_ok base (lo, order + 1)"
    using region_bounds [OF assms(2)] region_bounds [OF assms(3)] adj lo pw
    unfolding block_ok_def region_def pool_range_def by auto
  show "of_bool (x \<in> region (lo, order + 1)) =
      (of_bool (x \<in> region (addr, order)) + of_bool (x \<in> region (?b, order)) :: nat)"
    using adj lo pw unfolding region_def by auto
qed

lemma find_free_block_Some:
  assumes "find_free_block a k bs = Some i"
  shows "i < length bs" "b_free (bs ! i)" "blk (bs ! i) = (a, k)"
  using assms by (auto simp: find_free_block_def blk_def dest: scan_SomeD)

lemma find_free_block_None:
  assumes "find_free_block a k bs = None"
  shows "(a, k) \<notin># free_ms bs"
proof
  assume "(a, k) \<in># free_ms bs"
  then obtain b where "b \<in> set bs" "b_free b" "blk b = (a, k)" by (auto simp: free_ms_def)
  then obtain i where "i < length bs" "bs ! i = b" by (auto simp: in_set_conv_nth)
  with scan_NoneD [OF assms [unfolded find_free_block_def], of i] \<open>b_free b\<close> \<open>blk b = (a, k)\<close>
  show False by (simp add: blk_def)
qed

lemma merge_loop_spec:
  assumes "block_ok base (addr, order)" "\<forall>r \<in># free_ms bs. block_ok base r"
    and "merge_loop base addr order bs = (addr', order', bs')"
  shows "block_ok base (addr', order') \<and> free_ms bs' \<subseteq># free_ms bs \<and> length bs' = length bs
     \<and> (\<forall>x. cov (add_mset (addr', order') (free_ms bs')) x = cov (add_mset (addr, order) (free_ms bs)) x)
     \<and> (order' = 8 \<or> addr' XOR block_size order' < base
        \<or> base + 0x100000 \<le> addr' XOR block_size order'
        \<or> (addr' XOR block_size order', order') \<notin># free_ms bs')"
  using assms
proof (induction base addr order bs rule: merge_loop.induct)
  case (1 base addr order bs)
  let ?b = "addr XOR block_size order"
  show ?case
  proof (cases "order < 8 \<and> \<not> (?b < base \<or> base + 0x100000 \<le> ?b)")
    case False
    then have stop: "merge_loop base addr order bs = (addr, order, bs)"
      by (auto simp: merge_loop.simps [of base addr order bs] Let_def)
    have "order \<le> 8" using "1.prems"(1) by (simp add: block_ok_def)
    then have "order = 8 \<or> ?b < base \<or> base + 0x100000 \<le> ?b" using False by auto
    with stop "1.prems" show ?thesis by auto
  next
    case True
    show ?thesis
    proof (cases "find_free_block ?b order bs")
      case None
      with True have stop: "merge_loop base addr order bs = (addr, order, bs)"
        by (simp add: merge_loop.simps [of base addr order bs] Let_def)
      with "1.prems" find_free_block_None [OF None] show ?thesis by auto
    next
      case (Some k)
      note fb = find_free_block_Some [OF Some]
      let ?bs = "bs[k := (bs ! k)\<lparr>b_free := False\<rparr>]"
      let ?lo = "if ?b < addr then ?b else addr"
      have mem: "(?b, order) \<in># free_ms bs" using free_ms_mem [OF fb(1,2)] fb(3) by simp
      have fm: "free_ms ?bs = free_ms bs - {#(?b, order)#}" using free_ms_take [OF fb(1,2)] fb(3) by simp
      have okb: "block_ok base (?b, order)" using mem "1.prems"(2) by blast
      have "order < 8" using True by simp
      note mg = merge_regions [OF this "1.prems"(1) okb]
      have run: "merge_loop base ?lo (order + 1) ?bs = (addr', order', bs')"
        using "1.prems"(3) True Some by (simp add: merge_loop.simps [of base addr order bs] Let_def)
      have ok: "\<forall>r \<in># free_ms ?bs. block_ok base r"
        using "1.prems"(2) by (auto simp: fm dest: in_diffD)
      have c: "cov (add_mset (?lo, order + 1) (free_ms ?bs)) x =
          cov (add_mset (addr, order) (free_ms bs)) x" for x
        using mg(2) [of x] cov_diff [OF mem, of x] by (simp add: fm)
      have "free_ms ?bs \<subseteq># free_ms bs" by (simp add: fm)
      moreover have "block_ok base (addr', order') \<and> free_ms bs' \<subseteq># free_ms ?bs \<and> length bs' = length ?bs
       \<and> (\<forall>x. cov (add_mset (addr', order') (free_ms bs')) x = cov (add_mset (?lo, order + 1) (free_ms ?bs)) x)
       \<and> (order' = 8 \<or> addr' XOR block_size order' < base
          \<or> base + 0x100000 \<le> addr' XOR block_size order'
          \<or> (addr' XOR block_size order', order') \<notin># free_ms bs')"
        using "1.IH" [OF _ refl _ Some mg(1) ok run] True by simp
      ultimately show ?thesis
        by (simp only: c) (metis length_list_update subset_mset.order_trans)
    qed
  qed
qed

subsection \<open>Allocation and release keep the invariant\<close>

lemma buddy_inv_facts:
  assumes "buddy_inv A s"
  shows "buddy_initialized s" "length (blocks s) \<le> 1024" "0x100000 \<le> unat (pool_base s)"
    "unat (pool_base s) < 0x8000000" "unat (pool_base s) + 0x100000 < 2 ^ 32"
    "\<forall>r \<in># free_ms (blocks s). block_ok (pool_base s) r" "\<forall>r \<in># A. block_ok (pool_base s) r"
    "\<And>x. cov (free_ms (blocks s)) x + cov A x \<le> 1"
  using assms by (auto simp: buddy_inv_def word_le_nat_alt word_less_nat_alt simp del: One_nat_def)

lemma block_ok_nonzero: "0x100000 \<le> unat base \<Longrightarrow> block_ok base r \<Longrightarrow> fst r \<noteq> 0"
  using region_bounds by fastforce

text \<open>A step that moves blocks between the table and the client without adding coverage.\<close>

lemma buddy_inv_step:
  assumes "buddy_inv A s" "pool_base t = pool_base s" "buddy_initialized t = buddy_initialized s"
    and "length (blocks t) \<le> 1024" "\<forall>r \<in># free_ms (blocks t) + B. block_ok (pool_base s) r"
    and le: "\<And>x. cov (free_ms (blocks t) + B) x \<le> cov (free_ms (blocks s) + A) x"
  shows "buddy_inv B t"
proof -
  have "cov (free_ms (blocks t) + B) x \<le> 1" for x
    using le [of x] assms(1) unfolding buddy_inv_def by (meson order_trans)
  then show ?thesis using assms(1-5) unfolding buddy_inv_def by simp
qed

lemma buddy_alloc_split:
  assumes inv: "buddy_inv A s" and "order \<le> 8"
    and sc: "scan (\<lambda>i. b_free (blocks s ! i) \<and> order \<le> b_order (blocks s ! i)) 0 (length (blocks s)) = Some i"
    and sp: "split_loop i order (blocks s) = (bs, ok)"
  shows "buddy_alloc order s =
      (if ok then (s\<lparr>blocks := bs[i := (bs ! i)\<lparr>b_free := False\<rparr>]\<rparr>, b_addr (bs ! i)) else (s\<lparr>blocks := bs\<rparr>, 0))"
    and "ok \<Longrightarrow> b_addr (bs ! i) \<noteq> 0 \<and> buddy_inv (add_mset (b_addr (bs ! i), order) A)
        (s\<lparr>blocks := bs[i := (bs ! i)\<lparr>b_free := False\<rparr>]\<rparr>)
      \<and> (\<forall>x. cov (free_ms (bs[i := (bs ! i)\<lparr>b_free := False\<rparr>]) + add_mset (b_addr (bs ! i), order) A) x
           = cov (free_ms (blocks s) + A) x)"
    and "\<not> ok \<Longrightarrow> buddy_inv A (s\<lparr>blocks := bs\<rparr>)
      \<and> (\<forall>x. cov (free_ms bs + A) x \<le> cov (free_ms (blocks s) + A) x)"
    and "length (blocks s) + 8 \<le> 1024 \<Longrightarrow> ok"
proof -
  note facts = buddy_inv_facts [OF inv]
  note i = scan_SomeD [OF sc]
  have spec: "i < length bs" "b_free (bs ! i)" "length bs \<le> 1024"
      "\<forall>r \<in># free_ms bs. block_ok (pool_base s) r"
      "ok \<Longrightarrow> b_order (bs ! i) = order" "ok \<Longrightarrow> \<forall>x. cov (free_ms bs) x = cov (free_ms (blocks s)) x"
      "\<not> ok \<Longrightarrow> \<forall>x. cov (free_ms bs) x \<le> cov (free_ms (blocks s)) x"
      "length (blocks s) + unat (b_order (blocks s ! i)) - unat order \<le> 1024 \<longrightarrow> ok"
    using split_loop_spec [OF i(2) _ _ facts(2,5,6) sp] i(3) by auto
  show "buddy_alloc order s =
      (if ok then (s\<lparr>blocks := bs[i := (bs ! i)\<lparr>b_free := False\<rparr>]\<rparr>, b_addr (bs ! i)) else (s\<lparr>blocks := bs\<rparr>, 0))"
    using facts(1) assms(2) sc sp by (simp add: buddy_alloc_def not_less [symmetric])
  show "\<not> ok \<Longrightarrow> buddy_inv A (s\<lparr>blocks := bs\<rparr>) \<and> (\<forall>x. cov (free_ms bs + A) x \<le> cov (free_ms (blocks s) + A) x)"
    using buddy_inv_step [OF inv, of "s\<lparr>blocks := bs\<rparr>" A] spec(3,4,7) facts(7) by auto
  have b8: "unat (b_order (blocks s ! i)) \<le> 8"
    using facts(6) free_ms_mem [OF i(2)] i(3) by (auto simp: block_ok_def blk_def word_le_nat_alt)
  then show "length (blocks s) + 8 \<le> 1024 \<Longrightarrow> ok" using spec(8) by simp
  assume ok
  let ?r = "(b_addr (bs ! i), order)"
  have mem: "?r \<in># free_ms bs" using free_ms_mem [OF spec(1,2)] spec(5) \<open>ok\<close> by (simp add: blk_def)
  then have okr: "block_ok (pool_base s) ?r" using spec(4) by blast
  have fm: "free_ms (bs[i := (bs ! i)\<lparr>b_free := False\<rparr>]) = free_ms bs - {#?r#}"
    using free_ms_take [OF spec(1,2)] spec(5) \<open>ok\<close> by (simp add: blk_def)
  have c: "cov (free_ms (bs[i := (bs ! i)\<lparr>b_free := False\<rparr>]) + add_mset ?r A) x = cov (free_ms (blocks s) + A) x" for x
    using cov_diff [OF mem, of x] spec(6) \<open>ok\<close> unfolding fm by simp
  have "\<forall>r \<in># free_ms bs - {#?r#}. block_ok (pool_base s) r" using spec(4) by (auto dest: in_diffD)
  then have "buddy_inv (add_mset ?r A) (s\<lparr>blocks := bs[i := (bs ! i)\<lparr>b_free := False\<rparr>]\<rparr>)"
    using facts(7) okr spec(3) c by (intro buddy_inv_step [OF inv]) (auto simp: fm)
  moreover have "b_addr (bs ! i) \<noteq> 0" using block_ok_nonzero [OF facts(3) okr] by simp
  ultimately show "b_addr (bs ! i) \<noteq> 0 \<and> buddy_inv (add_mset ?r A) (s\<lparr>blocks := bs[i := (bs ! i)\<lparr>b_free := False\<rparr>]\<rparr>)
      \<and> (\<forall>x. cov (free_ms (bs[i := (bs ! i)\<lparr>b_free := False\<rparr>]) + add_mset ?r A) x = cov (free_ms (blocks s) + A) x)"
    using c by blast
qed

lemma buddy_alloc_kept [kframe]:
  "pool_base (fst (buddy_alloc order s)) = pool_base s"
  "buddy_initialized (fst (buddy_alloc order s)) = buddy_initialized s"
  by (auto simp: buddy_alloc_def split: option.splits bool.splits prod.splits)

lemma buddy_alloc_spec:
  assumes "buddy_inv A s" "buddy_alloc order s = (s', a)"
  shows "a = 0 \<Longrightarrow> buddy_inv A s' \<and> (\<forall>x. cov (free_ms (blocks s') + A) x \<le> cov (free_ms (blocks s) + A) x)"
    and "a \<noteq> 0 \<Longrightarrow> order \<le> 8 \<and> buddy_inv (add_mset (a, order) A) s'
      \<and> (\<forall>x. cov (free_ms (blocks s') + add_mset (a, order) A) x = cov (free_ms (blocks s) + A) x)"
    and "length (blocks s) + 8 \<le> 1024 \<Longrightarrow>
      a = 0 \<longleftrightarrow> 8 < order \<or> (\<forall>r \<in># free_ms (blocks s). snd r < order)"
    and "length (blocks s) + 8 \<le> 1024 \<Longrightarrow> a = 0 \<Longrightarrow> s' = s"
proof -
  let ?P = "\<lambda>i. b_free (blocks s ! i) \<and> order \<le> b_order (blocks s ! i)"
  note facts = buddy_inv_facts [OF assms(1)]
  have ex: "(\<exists>r \<in># free_ms (blocks s). order \<le> snd r) \<longleftrightarrow> (\<exists>i < length (blocks s). ?P i)"
    by (auto simp: free_ms_def blk_def in_set_conv_nth)
  have all: "(a = 0 \<longrightarrow> buddy_inv A s' \<and> (\<forall>x. cov (free_ms (blocks s') + A) x \<le> cov (free_ms (blocks s) + A) x))
    \<and> (a \<noteq> 0 \<longrightarrow> order \<le> 8 \<and> buddy_inv (add_mset (a, order) A) s'
      \<and> (\<forall>x. cov (free_ms (blocks s') + add_mset (a, order) A) x = cov (free_ms (blocks s) + A) x))
    \<and> (length (blocks s) + 8 \<le> 1024 \<longrightarrow>
       (a = 0 \<longleftrightarrow> 8 < order \<or> \<not> (\<exists>r \<in># free_ms (blocks s). order \<le> snd r)) \<and> (a = 0 \<longrightarrow> s' = s))"
  proof (cases "8 < order")
    case True
    then show ?thesis using assms by (simp add: buddy_alloc_def)
  next
    case o: False
    show ?thesis
    proof (cases "scan ?P 0 (length (blocks s))")
      case None
      then have "buddy_alloc order s = (s, 0)" by (simp add: buddy_alloc_def)
      with assms None show ?thesis unfolding ex by (auto simp: scan_None_iff)
    next
      case (Some i)
      obtain bs ok where sp: "split_loop i order (blocks s) = (bs, ok)" by fastforce
      have "order \<le> 8" using o by simp
      note al = buddy_alloc_split [OF assms(1) this Some sp]
      have "\<exists>i < length (blocks s). ?P i" using scan_SomeD [OF Some] by blast
      then show ?thesis using al assms(2) o unfolding ex by (cases ok) auto
    qed
  qed
  show "a = 0 \<Longrightarrow> buddy_inv A s' \<and> (\<forall>x. cov (free_ms (blocks s') + A) x \<le> cov (free_ms (blocks s) + A) x)"
    using all by blast
  show "a \<noteq> 0 \<Longrightarrow> order \<le> 8 \<and> buddy_inv (add_mset (a, order) A) s'
      \<and> (\<forall>x. cov (free_ms (blocks s') + add_mset (a, order) A) x = cov (free_ms (blocks s) + A) x)"
    using all by blast
  show "length (blocks s) + 8 \<le> 1024 \<Longrightarrow>
      a = 0 \<longleftrightarrow> 8 < order \<or> (\<forall>r \<in># free_ms (blocks s). snd r < order)"
    using all by (metis not_le)
  show "length (blocks s) + 8 \<le> 1024 \<Longrightarrow> a = 0 \<Longrightarrow> s' = s" using all by blast
qed

lemma buddy_free_kept [kframe]:
  "pool_base (buddy_free a order s) = pool_base s"
  "buddy_initialized (buddy_free a order s) = buddy_initialized s"
  by (auto simp: buddy_free_def split: option.splits prod.splits)

lemma buddy_free_spec:
  assumes "buddy_inv A s" "(a, order) \<in># A"
  shows "buddy_inv (A - {#(a, order)#}) (buddy_free a order s)
     \<and> (length (blocks s) < 1024 \<longrightarrow>
        (\<forall>x. cov (free_ms (blocks (buddy_free a order s)) + (A - {#(a, order)#})) x = cov (free_ms (blocks s) + A) x))"
proof -
  note facts = buddy_inv_facts [OF assms(1)]
  let ?A = "A - {#(a, order)#}"
  obtain a' o' bs where mg: "merge_loop (pool_base s) a order (blocks s) = (a', o', bs)"
    by (metis prod_cases3)
  have ok: "block_ok (pool_base s) (a, order)" using facts(7) assms(2) by blast
  have spec: "block_ok (pool_base s) (a', o')" "free_ms bs \<subseteq># free_ms (blocks s)"
      "length bs = length (blocks s)"
      "\<And>x. cov (add_mset (a', o') (free_ms bs)) x = cov (add_mset (a, order) (free_ms (blocks s))) x"
    using merge_loop_spec [OF ok facts(6) mg] by auto
  have b: "unat (pool_base s) \<le> unat a" "unat a < unat (pool_base s) + 0x100000"
  proof -
    have "(0 :: nat) < 4096 * 2 ^ unat order" by simp
    with region_bounds [OF ok] show "unat (pool_base s) \<le> unat a"
        "unat a < unat (pool_base s) + 0x100000"
      unfolding fst_conv snd_conv by linarith+
  qed
  have sum: "unat (pool_base s + 0x100000) = unat (pool_base s) + 0x100000"
    using facts(5) by (simp add: unat_word_ariths)
  have "order \<le> 8" using ok by (simp add: block_ok_def)
  then have fr: "buddy_free a order s = s\<lparr>blocks := (case add_block a' o' bs of None \<Rightarrow> bs | Some bs' \<Rightarrow> bs')\<rparr>"
    using facts(1) b sum mg by (simp add: buddy_free_def word_less_nat_alt word_le_nat_alt not_less not_le)
  have cA: "cov A x = of_bool (x \<in> region (a, order)) + cov ?A x" for x using assms(2) by (rule cov_diff)
  have okA: "\<forall>r \<in># ?A. block_ok (pool_base s) r" using facts(7) by (auto dest: in_diffD)
  have okb: "\<forall>r \<in># free_ms bs. block_ok (pool_base s) r" using facts(6) spec(2) by (meson mset_subset_eqD)
  show ?thesis
  proof (cases "length (blocks s) < 1024")
    case True
    then have fr': "blocks (buddy_free a order s) = bs @ [\<lparr>b_addr = a', b_order = o', b_free = True\<rparr>]"
      using spec(3) by (simp add: fr add_block_def)
    have c: "cov (free_ms (blocks (buddy_free a order s)) + ?A) x = cov (free_ms (blocks s) + A) x" for x
      using spec(4) [of x] cA [of x] unfolding fr' by (simp add: blk_def)
    have "buddy_inv ?A (buddy_free a order s)"
      using c okA okb spec(1,3) True fr'
      by (intro buddy_inv_step [OF assms(1)]) (auto simp: blk_def kframe)
    with c show ?thesis by blast
  next
    case False
    then have fr': "blocks (buddy_free a order s) = bs" using spec(3) by (simp add: fr add_block_def)
    have "cov (free_ms bs + ?A) x \<le> cov (free_ms (blocks s) + A) x" for x
      using cov_mono [OF spec(2), of x] cA [of x] by simp
    then have "buddy_inv ?A (buddy_free a order s)"
      using okA okb spec(3) fr' facts(2)
      by (intro buddy_inv_step [OF assms(1)]) (auto simp: kframe)
    with False show ?thesis by blast
  qed
qed

subsection \<open>Boot: the contiguous pool\<close>

text \<open>
  Over any frame allocator, the pool loop takes the 256 frames from the lowest free frame on if
  all of them are free, and otherwise gives back every frame it took.
\<close>

lemma frame_addr_add: "of_nat f * 4096 + of_nat j * 4096 = (of_nat (f + j) * 4096 :: u32)"
  by (simp add: algebra_simps)

lemma frame_addr_inject:
  "f < 1048576 \<Longrightarrow> g < 1048576 \<Longrightarrow> (of_nat f * 4096 :: u32) = of_nat g * 4096 \<longleftrightarrow> f = g"
  by (metis mult_cancel2 unat_frame_addr zero_neq_numeral)

lemma fold_free_offsets:
  "fold (\<lambda>j. free (of_nat f * 4096 + of_nat j * 4096)) [a..<b] s =
     fold free (map (\<lambda>g. of_nat g * 4096 :: u32) [f + a..<f + b]) s"
proof -
  have "[f + a..<f + b] = map (\<lambda>j. f + j) [a..<b]" by (induction b) auto
  then show ?thesis by (simp only: fold_map comp_def frame_addr_add)
qed

context frame_allocator
begin

lemma pool_loop_ok:
  assumes "inv s" "avail s0 \<subseteq> pool s" "{f..<f + i} \<subseteq> avail s0" "avail s = avail s0 - {f..<f + i}"
    and "\<And>g. g \<in> avail s0 \<Longrightarrow> f \<le> g" "1 \<le> i" "i \<le> 256" "finite (avail s0)"
    and "pool_loop alloc free (of_nat f * 4096) i s = (s', base)"
  shows "inv s' \<and> pool s' = pool s \<and>
     (if {f..<f + 256} \<subseteq> avail s0
      then base = of_nat f * 4096 \<and> avail s' = avail s0 - {f..<f + 256}
      else base = 0 \<and> avail s' = avail s0)"
  using assms
proof (induction "256 - i" arbitrary: i s)
  case 0
  then have "i = 256" by simp
  with 0 show ?case by (simp add: pool_loop.simps)
next
  case (Suc n)
  note prems = Suc.prems
  let ?s = "fst (alloc s)" and ?a = "snd (alloc s)" and ?A = "\<lambda>f :: nat. of_nat f * 4096 :: u32"
  have i: "i < 256" using Suc.hyps(2) by simp
  have inv': "inv ?s" and pool': "pool ?s = pool s" using prems(1) alloc_inv alloc_pool by auto
  have f: "f \<in> avail s0" using prems(3,6) by auto
  then have "256 \<le> f" "f < 32768" using prems(1,2) pool_range by blast+
  then have small: "f + i < 1048576" using i by simp
  have frees: "fold (\<lambda>j. free (?A f + of_nat j * 4096)) [1..<i] (free (?A f) t) =
      fold free (map ?A [f..<f + i]) t" for t
    using prems(6) by (simp add: fold_free_offsets upt_conv_Cons [of f "f + i"])
  have unfold: "pool_loop alloc free (?A f) i s = (if ?a \<noteq> ?A (f + i)
      then (let s3 = fold free (map ?A [f..<f + i]) ?s in (if ?a \<noteq> 0 then free ?a s3 else s3, 0))
      else pool_loop alloc free (?A f) (Suc i) ?s)"
    using i frees [simplified]
    by (simp add: pool_loop.simps [of alloc free "?A f" i s] Let_def split_def)
  have notin: "f + i \<in> avail s0 \<longleftrightarrow> f + i \<in> avail s" using prems(4) by auto
  show ?case
  proof (cases "f + i \<in> avail s")
    case True
    then have ne: "avail s \<noteq> {}" by auto
    have "f + i \<le> g" if "g \<in> avail s" for g using that prems(4,5) by force
    then have m: "Min (avail s) = f + i" using True prems(4,8) by (intro Min_eqI) auto
    have a: "?a = ?A (f + i)" using alloc_addr [OF prems(1) ne] m by simp
    have up: "{f..<f + Suc i} = insert (f + i) {f..<f + i}" by auto
    have "avail ?s = avail s0 - {f..<f + i} - {f + i}"
      using alloc_avail [OF prems(1) ne] m prems(4) by metis
    then have av: "avail ?s = avail s0 - {f..<f + Suc i}" unfolding up by blast
    have sub: "{f..<f + Suc i} \<subseteq> avail s0"
      using prems(3) True notin unfolding up by blast
    have "pool_loop alloc free (?A f) (Suc i) ?s = (s', base)" using unfold a prems(9) by simp
    from Suc.hyps(1) [OF _ inv' _ sub av prems(5) _ _ prems(8) this] prems(2) i pool' Suc.hyps(2)
    show ?thesis by simp
  next
    case False
    have "f + i \<in> {f..<f + 256}" using i by simp
    then have ne256: "\<not> {f..<f + 256} \<subseteq> avail s0" using False notin by blast
    have fin: "finite (avail s)" using prems(4,8) by simp
    have "?a \<noteq> ?A (f + i) \<and> inv s' \<and> pool s' = pool s \<and> avail s' = avail s0"
    proof (cases "avail s = {}")
      case True
      then have al: "alloc s = (s, 0)" using prems(1) alloc_empty by simp
      have "unat (?A (f + i)) \<noteq> 0" using small \<open>256 \<le> f\<close> by (simp only: unat_frame_addr) simp
      then have "?a \<noteq> ?A (f + i)" using al by (metis snd_conv unsigned_0)
      moreover have "s' = fold free (map ?A [f..<f + i]) s"
        using calculation unfold prems(9) al by (simp add: Let_def)
      moreover have "set [f..<f + i] \<subseteq> pool s" "set [f..<f + i] \<inter> avail s = {}"
        using prems(2,3,4) by auto
      moreover have "avail s \<union> {f..<f + i} = avail s0" using prems(3,4) by auto
      ultimately show ?thesis using free_frames_ok [OF prems(1) distinct_upt] by simp
    next
      case ne: False
      let ?m = "Min (avail s)"
      have m: "?m \<in> avail s" using fin ne by (rule Min_in)
      have mp: "?m \<in> pool s" using m prems(1) avail_pool by blast
      then have "?m < 32768" using prems(1) pool_range by blast
      moreover have "?m \<noteq> f + i" using m False by auto
      ultimately have "?A ?m \<noteq> ?A (f + i)" using frame_addr_inject [of ?m "f + i"] small by linarith
      then have aa: "?a \<noteq> ?A (f + i)" "?a = ?A ?m" using alloc_addr [OF prems(1) ne] by metis+
      have nz: "?A ?m \<noteq> 0" using prems(1) mp by (rule pool_nonzero)
      have av: "avail ?s = avail s - {?m}" using prems(1) ne by (rule alloc_avail)
      have "s' = fold free (map ?A ([f..<f + i] @ [?m])) ?s"
        using aa nz unfold prems(9) by (simp add: Let_def)
      moreover have "set ([f..<f + i] @ [?m]) \<subseteq> pool ?s" "set ([f..<f + i] @ [?m]) \<inter> avail ?s = {}"
          "distinct ([f..<f + i] @ [?m])"
        using prems(2,3,4) mp pool' av m by auto
      moreover have "avail ?s \<union> set ([f..<f + i] @ [?m]) = avail s0" using prems(3,4) av m by auto
      ultimately show ?thesis using free_frames_ok [OF inv', of "[f..<f + i] @ [?m]"] aa(1) pool' by simp
    qed
    then show ?thesis using unfold prems(9) ne256 by (auto simp: Let_def)
  qed
qed

lemma find_contiguous_pool_ok:
  assumes "inv s" "find_contiguous_pool alloc free s = (s', base)"
  defines "f \<equiv> Min (avail s)"
  shows "inv s' \<and> pool s' = pool s \<and>
     (if avail s \<noteq> {} \<and> {f..<f + 256} \<subseteq> avail s
      then base = of_nat f * 4096 \<and> base \<noteq> 0 \<and> avail s' = avail s - {f..<f + 256}
      else base = 0 \<and> avail s' = avail s)"
proof (cases "avail s = {}")
  case True
  then show ?thesis using assms(1,2) alloc_empty by (simp add: find_contiguous_pool_def)
next
  case False
  let ?s = "fst (alloc s)"
  have fin: "finite (avail s)" using assms(1) by (rule finite_avail)
  have f: "f \<in> avail s" unfolding f_def using fin False by (rule Min_in)
  have fp: "f \<in> pool s" using f assms(1) avail_pool by blast
  have nz: "(of_nat f * 4096 :: u32) \<noteq> 0" using assms(1) fp by (rule pool_nonzero)
  have "snd (alloc s) = of_nat f * 4096" using alloc_addr [OF assms(1) False] by (simp add: f_def)
  then have run: "pool_loop alloc free (of_nat f * 4096) 1 ?s = (s', base)"
    using assms(2) nz by (simp add: find_contiguous_pool_def split_def Let_def)
  have "avail ?s = avail s - {f..<f + 1}" using alloc_avail [OF assms(1) False] by (simp add: f_def)
  moreover have "avail s \<subseteq> pool ?s" using assms(1) avail_pool alloc_pool by auto
  moreover have "\<And>g. g \<in> avail s \<Longrightarrow> f \<le> g" unfolding f_def using fin by simp
  moreover have "{f..<f + 1} \<subseteq> avail s" using f by simp
  ultimately have "inv s' \<and> pool s' = pool ?s \<and> (if {f..<f + 256} \<subseteq> avail s
      then base = of_nat f * 4096 \<and> avail s' = avail s - {f..<f + 256} else base = 0 \<and> avail s' = avail s)"
    using pool_loop_ok [OF alloc_inv [OF assms(1)] _ _ _ _ _ _ fin run] by simp
  then show ?thesis using False nz assms(1) alloc_pool by (auto split: if_splits)
qed

end

lemma buddy_init_spec:
  assumes "pmm_inv U p" "buddy_init p = (p', s)"
  defines "F \<equiv> free_set (frame_bitmap p)"
  shows "pmm_inv U p' \<and>
     (if F \<noteq> {} \<and> {Min F..<Min F + 256} \<subseteq> F
      then free_set (frame_bitmap p') = F - {Min F..<Min F + 256}
        \<and> unat (pool_base s) = Min F * 4096 \<and> buddy_inv {#} s \<and> buddy_full {#} s \<and> length (blocks s) = 1
        \<and> free_ms (blocks s) = {#(pool_base s, 8)#}
      else free_set (frame_bitmap p') = F \<and> \<not> buddy_initialized s)"
proof -
  obtain q base where fp: "find_contiguous_pool pmm_alloc_frame pmm_free_frame p = (q, base)"
    by fastforce
  note fcp = pmm.find_contiguous_pool_ok [OF assms(1) fp, folded F_def]
  show ?thesis
  proof (cases "F \<noteq> {} \<and> {Min F..<Min F + 256} \<subseteq> F")
    case False
    have q: "base = 0" "free_set (frame_bitmap q) = F" "pmm_inv U q"
      using fcp [unfolded if_not_P [OF False]] by blast+
    then have "p' = q" "\<not> buddy_initialized s" using fp assms(2) by (auto simp: buddy_init_def)
    with q show ?thesis unfolding if_not_P [OF False] by blast
  next
    case True
    then have base: "base = of_nat (Min F) * 4096" "base \<noteq> 0" "pmm_inv U q"
        "free_set (frame_bitmap q) = F - {Min F..<Min F + 256}"
      using fcp [unfolded if_P [OF True]] by blast+
    have s: "s = \<lparr>blocks = [\<lparr>b_addr = base, b_order = 8, b_free = True\<rparr>], pool_base = base,
        buddy_initialized = True\<rparr>" "p' = q"
      using fp assms(2) base(2) by (auto simp: buddy_init_def add_block_def)
    have "Min F \<in> {Min F..<Min F + 256}" "Min F + 255 \<in> {Min F..<Min F + 256}" by simp_all
    then have "Min F \<in> pmm_pool U p" "Min F + 255 \<in> pmm_pool U p"
      using True free_set_pool [OF assms(1), folded F_def] by blast+
    then have m: "256 \<le> Min F" "Min F + 255 < 32768" "unat base = Min F * 4096"
      using pmm_pool_addr [OF assms(1)] base(1) by blast+
    have reg: "region (base, 8) = pool_range base" by (simp add: region_def pool_range_def)
    have "buddy_inv {#} s" "buddy_full {#} s"
      using m by (simp_all add: s(1) buddy_inv_def buddy_full_def reg blk_def block_ok_def
          word_le_nat_alt word_less_nat_alt)
    then show ?thesis using True base(3,4) m(3) by (simp add: s blk_def)
  qed
qed

subsection \<open>Runs\<close>

lemma buddy_step_kept: "buddy_step x y \<Longrightarrow> pool_base (fst y) = pool_base (fst x)"
proof (induction rule: buddy_step.induct)
  case (step_alloc order s s' a A)
  then show ?case using buddy_alloc_kept(1) [of order s] by simp
next
  case (step_refuse order s s' A)
  then show ?case using buddy_alloc_kept(1) [of order s] by simp
next
  case (step_free a order A s)
  then show ?case by (simp add: kframe)
qed

lemma buddy_step_inv: "buddy_step x y \<Longrightarrow> buddy_inv (snd x) (fst x) \<Longrightarrow> buddy_inv (snd y) (fst y)"
proof (induction rule: buddy_step.induct)
  case (step_alloc order s s' a A)
  then show ?case using buddy_alloc_spec(2) by simp
next
  case (step_refuse order s s' A)
  then show ?case using buddy_alloc_spec(1) by simp
next
  case (step_free a order A s)
  then show ?case using buddy_free_spec by simp
qed

lemma buddy_run_inv:
  "buddy_step\<^sup>*\<^sup>* x y \<Longrightarrow> buddy_inv (snd x) (fst x) \<Longrightarrow>
     buddy_inv (snd y) (fst y) \<and> pool_base (fst y) = pool_base (fst x)"
  by (induction rule: rtranclp_induct) (auto simp: buddy_step_kept intro: buddy_step_inv)

lemma roomy_step_cov:
  assumes "roomy_step x y" "buddy_inv (snd x) (fst x)"
  shows "cov (free_ms (blocks (fst y)) + snd y) b = cov (free_ms (blocks (fst x)) + snd x) b"
proof -
  obtain s A where x: "x = (s, A)" by (cases x)
  have st: "buddy_step (s, A) y" and room: "length (blocks s) + 8 \<le> 1024"
    using assms(1) by (auto simp: roomy_step_def x)
  have inv: "buddy_inv A s" using assms(2) by (simp add: x)
  from st show ?thesis
  proof (cases rule: buddy_step.cases)
    case (step_alloc order s' a)
    then show ?thesis using buddy_alloc_spec(2) [OF inv] by (simp add: x)
  next
    case (step_refuse order s')
    then have "s' = s" using buddy_alloc_spec(4) [OF inv _ room] by blast
    with step_refuse show ?thesis by (simp add: x)
  next
    case (step_free a order)
    then show ?thesis using buddy_free_spec [OF inv, of a order] room by (simp add: x)
  qed
qed

lemma roomy_run:
  assumes "roomy_step\<^sup>*\<^sup>* x y" "buddy_inv (snd x) (fst x)"
  shows "buddy_inv (snd y) (fst y) \<and> pool_base (fst y) = pool_base (fst x)
     \<and> (\<forall>b. cov (free_ms (blocks (fst y)) + snd y) b = cov (free_ms (blocks (fst x)) + snd x) b)"
  using assms
proof (induction rule: rtranclp_induct)
  case base
  then show ?case by simp
next
  case (step y z)
  then have y: "buddy_inv (snd y) (fst y)" by blast
  have "buddy_step y z" using step.hyps(2) by (simp add: roomy_step_def)
  then have "buddy_inv (snd z) (fst z)" "pool_base (fst z) = pool_base (fst y)"
    using y buddy_step_inv buddy_step_kept by blast+
  then show ?case using step.IH step.prems roomy_step_cov [OF step.hyps(2) y] by simp
qed

subsection \<open>Alignment and coalescing\<close>

lemma buddy_of_invol [simp]: "buddy_of (buddy_of r) = r"
  by (simp add: buddy_of_def xor.assoc prod_eq_iff)

lemma aligned_mod: "aligned r \<longleftrightarrow> unat (fst r) mod (4096 * 2 ^ unat (snd r)) = 0"
proof -
  have "aligned r \<longleftrightarrow> take_bit (12 + unat (snd r)) (unat (fst r)) = 0"
    by (auto simp: aligned_def bit_eq_iff bit_simps)
  then show ?thesis by (simp add: take_bit_eq_mod power_add)
qed

lemma aligned_halves:
  assumes "aligned (a, old)" "old \<noteq> 0" "old \<le> 8"
  shows "aligned (a, old - 1)" "aligned (a + block_size (old - 1), old - 1)"
    "buddy_of (a, old - 1) = (a + block_size (old - 1), old - 1)"
proof -
  have p: "unat (old - 1) = unat old - 1" "unat old \<noteq> 0" "unat old \<le> 8"
    using assms(2,3) by (simp_all add: unat_minus_one unat_eq_0 word_le_nat_alt)
  show 1: "aligned (a, old - 1)" using assms(1) p by (auto simp: aligned_def)
  have k: "12 + unat (old - 1) < 32" using p by simp
  have nb: "\<not> bit a (12 + unat (old - 1))" using assms(1) p by (auto simp: aligned_def)
  have "a AND block_size (old - 1) = 0"
    using nb by (intro bit_eqI) (auto simp: block_size_exp bit_simps)
  then have x: "a + block_size (old - 1) = a XOR block_size (old - 1)" by (rule disjunctive_add_eq_xor)
  show "aligned (a + block_size (old - 1), old - 1)"
    using 1 unfolding x by (auto simp: aligned_def block_size_exp bit_simps)
  show "buddy_of (a, old - 1) = (a + block_size (old - 1), old - 1)" by (simp add: buddy_of_def x)
qed

lemma aligned_merge:
  assumes "aligned (addr, order)" "order < 8"
  shows "aligned (if addr XOR block_size order < addr then addr XOR block_size order else addr, order + 1)"
proof -
  let ?k = "12 + unat order" and ?b = "addr XOR block_size order"
  have k: "?k < 32" using assms(2) by (simp add: word_less_nat_alt)
  have u: "unat (order + 1) = Suc (unat order)"
    using assms(2) by (simp add: unat_word_ariths word_less_nat_alt)
  have lt: "?b < addr \<longleftrightarrow> bit addr ?k"
  proof -
    define n where "n = (2 :: nat) ^ ?k"
    have "0 < n" by (simp add: n_def)
    with unat_xor_exp [OF k, of addr, folded n_def] have "unat ?b < unat addr \<longleftrightarrow> bit addr ?k"
      unfolding block_size_exp by auto
    then show ?thesis by (simp add: word_less_nat_alt)
  qed
  have "\<not> bit (if ?b < addr then ?b else addr) j" if "j < Suc ?k" for j
  proof (cases "j = ?k")
    case True
    then show ?thesis using k lt by (simp add: block_size_exp bit_simps)
  next
    case False
    then have "j < ?k" using that by simp
    then show ?thesis using assms(1) by (simp add: aligned_def block_size_exp bit_simps)
  qed
  then show ?thesis by (simp add: aligned_def u)
qed

lemma region_nonempty: "unat (fst r) \<in> region r"
  by (simp add: region_def)

text \<open>With coverage at most one, a block occurs once.\<close>

lemma cov_once: "\<forall>x. cov M x \<le> 1 \<Longrightarrow> r \<in># M \<Longrightarrow> r \<notin># M - {#r#}"
  using cov_disjoint region_nonempty by blast

lemma coalesced_but_split:
  assumes "coalesced_but (a, old) M" "(a, old) \<in># M" "\<forall>x. cov M x \<le> 1"
    and "buddy_of (a, k) = (a', k)"
  shows "coalesced_but (a, k) (add_mset (a', k) (add_mset (a, k) (M - {#(a, old)#})))"
proof -
  have bk: "buddy_of (a', k) = (a, k)" using assms(4) by (metis buddy_of_invol)
  have once: "(a, old) \<notin># M - {#(a, old)#}" using assms(2,3) by (intro cov_once)
  have "r = (a, k) \<or> buddy_of r = (a, k)"
    if r: "r \<in># add_mset (a', k) (add_mset (a, k) (M - {#(a, old)#}))" "snd r < 8"
      "buddy_of r \<in># add_mset (a', k) (add_mset (a, k) (M - {#(a, old)#}))" for r
  proof (rule ccontr)
    assume n: "\<not> (r = (a, k) \<or> buddy_of r = (a, k))"
    then have "r \<noteq> (a', k)" using bk by auto
    moreover have "buddy_of r \<noteq> (a', k)" using n assms(4) by (metis buddy_of_invol)
    ultimately have m: "r \<in># M - {#(a, old)#}" "buddy_of r \<in># M - {#(a, old)#}" using r n by auto
    then have "r = (a, old) \<or> buddy_of r = (a, old)"
      using assms(1) r(2) by (auto simp: coalesced_but_def dest: in_diffD)
    with m once show False by auto
  qed
  then show ?thesis unfolding coalesced_but_def by blast
qed

lemma split_loop_tidy:
  assumes "i < length bs" "b_free (bs ! i)" "order \<le> b_order (bs ! i)"
    and "unat base + 0x100000 < 2 ^ 32" "\<forall>r \<in># free_ms bs. block_ok base r"
    and "\<forall>x. cov (free_ms bs) x \<le> 1" "\<forall>r \<in># free_ms bs. aligned r"
    and "coalesced_but (blk (bs ! i)) (free_ms bs)" "split_loop i order bs = (bs', True)"
  shows "(\<forall>r \<in># free_ms bs'. aligned r) \<and> coalesced_but (blk (bs' ! i)) (free_ms bs')"
  using assms
proof (induction i order bs arbitrary: bs' rule: split_loop.induct)
  case (1 i order bs)
  show ?case
  proof (cases "order < b_order (bs ! i)")
    case False
    then have "split_loop i order bs = (bs, True)" by (simp add: split_loop.simps)
    then show ?thesis using "1.prems" by auto
  next
    case True
    let ?old = "b_order (bs ! i)" and ?a = "b_addr (bs ! i)"
    let ?bs1 = "bs[i := (bs ! i)\<lparr>b_order := ?old - 1\<rparr>]"
    let ?second = "?a + block_size (?old - 1)"
    let ?bs2 = "?bs1 @ [\<lparr>b_addr = ?second, b_order = ?old - 1, b_free = True\<rparr>]"
    have nz: "?old \<noteq> 0" using True by auto
    have mem: "(?a, ?old) \<in># free_ms bs" using free_ms_mem "1.prems"(1,2) by (auto simp: blk_def)
    have okb: "block_ok base (?a, ?old)" using mem "1.prems"(5) by auto
    have al: "aligned (?a, ?old)" using mem "1.prems"(7) by blast
    note ha = aligned_halves [OF al nz] and sp = split_regions [OF okb "1.prems"(4) nz]
    have o8: "?old \<le> 8" using okb by (simp add: block_ok_def)
    have add: "add_block ?second (?old - 1) ?bs1 = Some ?bs2"
      using "1.prems"(1,9) True by (auto simp: split_loop.simps [of i order bs] Let_def add_block_def split: if_splits)
    have run: "split_loop i order ?bs2 = (bs', True)"
      using "1.prems"(1,9) True add by (simp add: split_loop.simps [of i order bs] Let_def)
    have at: "?bs2 ! i = (bs ! i)\<lparr>b_order := ?old - 1\<rparr>" using "1.prems"(1) by (simp add: nth_append)
    have fm: "free_ms ?bs2 = add_mset (?second, ?old - 1) (add_mset (?a, ?old - 1) (free_ms bs - {#(?a, ?old)#}))"
      using free_ms_resize [OF "1.prems"(1,2), of "?old - 1"] by (simp add: blk_def)
    have "\<forall>r \<in># free_ms ?bs2. aligned r"
      using "1.prems"(7) ha(1,2) [OF o8] unfolding fm by (auto dest: in_diffD)
    moreover have "\<forall>r \<in># free_ms ?bs2. block_ok base r"
      using "1.prems"(5) sp(1,2) unfolding fm by (auto dest: in_diffD)
    moreover have "\<forall>x. cov (free_ms ?bs2) x \<le> 1"
    proof
      fix x
      have "cov (free_ms ?bs2) x = cov (free_ms bs) x"
        using cov_diff [OF mem, of x] sp(3) [of x] unfolding fm by simp
      then show "cov (free_ms ?bs2) x \<le> 1" using "1.prems"(6) by simp
    qed
    moreover have "coalesced_but (blk (?bs2 ! i)) (free_ms ?bs2)"
      using coalesced_but_split [OF _ mem "1.prems"(6) ha(3) [OF o8]] "1.prems"(8)
      unfolding fm at by (simp add: blk_def)
    moreover have "order \<le> b_order (?bs2 ! i)"
      using True nz by (simp add: at word_le_nat_alt word_less_nat_alt unat_minus_one)
    moreover have "i < length ?bs2" "b_free (?bs2 ! i)" using "1.prems"(1,2) at by auto
    ultimately show ?thesis
      using "1.IH" [OF _ refl refl refl refl add _ _ _ "1.prems"(4) _ _ _ _ run] "1.prems"(1) True by blast
  qed
qed

lemma coalesced_but_remove:
  assumes "coalesced_but r M" "\<forall>x. cov M x \<le> 1" "r \<in># M"
  shows "coalesced (M - {#r#})"
  using assms(1) cov_once [OF assms(2,3)] unfolding coalesced_def coalesced_but_def
  by (metis in_diffD)

lemma buddy_alloc_tidy:
  assumes inv: "buddy_inv A s" and tidy: "buddy_tidy A s" and al: "buddy_alloc order s = (s', a)" "a \<noteq> 0"
  shows "buddy_tidy (add_mset (a, order) A) s'"
proof -
  note facts = buddy_inv_facts [OF inv]
  have o: "order \<le> 8" using buddy_alloc_spec(2) [OF inv al(1)] al(2) by blast
  obtain i where sc: "scan (\<lambda>i. b_free (blocks s ! i) \<and> order \<le> b_order (blocks s ! i)) 0 (length (blocks s)) = Some i"
    using al facts(1) by (auto simp: buddy_alloc_def split: option.splits if_splits)
  obtain bs ok where sp: "split_loop i order (blocks s) = (bs, ok)" by fastforce
  note i = scan_SomeD [OF sc] and alloc = buddy_alloc_split(1) [OF inv o sc sp]
  have ok: ok using alloc al by (cases ok) auto
  have spec: "i < length bs" "b_free (bs ! i)" "b_order (bs ! i) = order"
      "\<forall>x. cov (free_ms bs) x = cov (free_ms (blocks s)) x"
    using split_loop_spec [OF i(2) _ _ facts(2,5,6) sp] i(3) ok by auto
  have c0: "\<forall>x. cov (free_ms (blocks s)) x \<le> 1" using facts(8) by (metis add_leD1)
  have cb: "coalesced_but (blk (blocks s ! i)) (free_ms (blocks s))"
    using tidy by (auto simp: buddy_tidy_def coalesced_def coalesced_but_def)
  have t: "\<forall>r \<in># free_ms bs. aligned r" "coalesced_but (blk (bs ! i)) (free_ms bs)"
    using split_loop_tidy [OF i(2) _ _ facts(5,6) c0 _ cb] sp ok i(3) tidy by (auto simp: buddy_tidy_def)
  have r: "blk (bs ! i) = (a, order)" "s' = s\<lparr>blocks := bs[i := (bs ! i)\<lparr>b_free := False\<rparr>]\<rparr>"
    using alloc al(1) ok spec(3) by (auto simp: blk_def)
  have mem: "(a, order) \<in># free_ms bs" using free_ms_mem [OF spec(1,2)] r(1) by simp
  have fm: "free_ms (blocks s') = free_ms bs - {#(a, order)#}"
    using free_ms_take [OF spec(1,2)] r by simp
  have "\<forall>x. cov (free_ms bs) x \<le> 1" using c0 spec(4) by simp
  then have "coalesced (free_ms (blocks s'))"
    using coalesced_but_remove [OF _ _ mem] t(2) unfolding fm r(1) by blast
  moreover have "\<forall>q \<in># free_ms (blocks s') + add_mset (a, order) A. aligned q"
    using t(1) mem tidy unfolding fm buddy_tidy_def by (auto dest: in_diffD)
  ultimately show ?thesis using tidy r(2) by (simp add: buddy_tidy_def)
qed

lemma merge_loop_aligned:
  assumes "aligned (addr, order)" "merge_loop base addr order bs = (addr', order', bs')"
  shows "aligned (addr', order')"
  using assms
proof (induction base addr order bs rule: merge_loop.induct)
  case (1 base addr order bs)
  show ?case
  proof (cases "order < 8 \<and> \<not> (addr XOR block_size order < base \<or> base + 0x100000 \<le> addr XOR block_size order)
      \<and> find_free_block (addr XOR block_size order) order bs \<noteq> None")
    case True
    then obtain k where k: "find_free_block (addr XOR block_size order) order bs = Some k" by auto
    have "order < 8" using True by simp
    from aligned_merge [OF "1.prems"(1) this] "1.IH" [OF _ refl _ k] True "1.prems"(2) k show ?thesis
      by (simp add: merge_loop.simps [of base addr order bs] Let_def)
  next
    case False
    then have "merge_loop base addr order bs = (addr, order, bs)"
      by (auto simp: merge_loop.simps [of base addr order bs] Let_def)
    then show ?thesis using "1.prems" by auto
  qed
qed

text \<open>In a pool aligned to its own size, the buddy of a block in the pool is in the pool.\<close>

lemma buddy_in_pool:
  assumes "aligned (base, 8)" "order < 8" "unat base \<le> unat a" "unat a < unat base + 0x100000"
  shows "unat base \<le> unat (a XOR block_size order) \<and> unat (a XOR block_size order) < unat base + 0x100000"
proof -
  have m: "unat base mod 1048576 = 0" using assms(1) by (simp add: aligned_mod)
  have hi: "unat (a XOR block_size order) div 1048576 = unat a div 1048576"
  proof -
    have "drop_bit 20 (a XOR block_size order) = drop_bit 20 a"
      using assms(2) by (intro bit_eqI) (auto simp: block_size_exp bit_simps word_less_nat_alt)
    then have "unat (drop_bit 20 (a XOR block_size order)) = unat (drop_bit 20 a)" by simp
    then show ?thesis by (simp add: drop_bit_eq_div unat_div)
  qed
  obtain q where q: "unat base = q * 1048576" using m by (metis div_mult_mod_eq add_0_right)
  have "unat a div 1048576 = q" using assms(3,4) q by (intro div_nat_eqI) simp_all
  with hi have b: "unat (a XOR block_size order) div 1048576 = q" by simp
  have "unat (a XOR block_size order) = q * 1048576 + unat (a XOR block_size order) mod 1048576"
    using div_mult_mod_eq [of "unat (a XOR block_size order)" 1048576] unfolding b by simp
  moreover have "unat (a XOR block_size order) mod 1048576 < 1048576" by simp
  ultimately show ?thesis using q by linarith
qed

lemma buddy_free_tidy:
  assumes inv: "buddy_inv A s" and tidy: "buddy_tidy A s" and mem: "(a, order) \<in># A"
    and room: "length (blocks s) < 1024"
  shows "buddy_tidy (A - {#(a, order)#}) (buddy_free a order s)"
proof -
  note facts = buddy_inv_facts [OF inv]
  obtain a' o' bs where mg: "merge_loop (pool_base s) a order (blocks s) = (a', o', bs)"
    by (metis prod_cases3)
  have ok: "block_ok (pool_base s) (a, order)" using facts(7) mem by blast
  note spec = merge_loop_spec [OF ok facts(6) mg]
  then have sub: "free_ms bs \<subseteq># free_ms (blocks s)" and ok': "block_ok (pool_base s) (a', o')"
      and len: "length bs = length (blocks s)" by auto
  have pos: "(0 :: nat) < 4096 * 2 ^ unat k" for k :: u32 by simp
  have b: "unat (pool_base s) \<le> unat a" "unat a < unat (pool_base s) + 0x100000"
      "unat (pool_base s) \<le> unat a'" "unat a' < unat (pool_base s) + 0x100000"
    using region_bounds [OF ok] region_bounds [OF ok'] pos [of order] pos [of o']
    unfolding fst_conv snd_conv by linarith+
  have sum: "unat (pool_base s + 0x100000) = unat (pool_base s) + 0x100000"
    using facts(5) by (simp add: unat_word_ariths)
  have "order \<le> 8" using ok by (simp add: block_ok_def)
  then have fr: "blocks (buddy_free a order s) = bs @ [\<lparr>b_addr = a', b_order = o', b_free = True\<rparr>]"
    using facts(1) b sum mg room len
    by (simp add: buddy_free_def word_less_nat_alt word_le_nat_alt not_less not_le add_block_def)
  have fm: "free_ms (blocks (buddy_free a order s)) = add_mset (a', o') (free_ms bs)"
    unfolding fr by (simp add: blk_def)
  have al': "aligned (a', o')" using merge_loop_aligned [OF _ mg] tidy mem by (auto simp: buddy_tidy_def)
  have none: "o' = 8 \<or> buddy_of (a', o') \<notin># free_ms bs"
  proof (rule disjCI)
    assume "\<not> buddy_of (a', o') \<notin># free_ms bs"
    moreover have "o' < 8 \<Longrightarrow> \<not> (a' XOR block_size o' < pool_base s \<or> pool_base s + 0x100000 \<le> a' XOR block_size o')"
      using buddy_in_pool [of "pool_base s" o' a'] tidy b(3,4) sum
      by (auto simp: buddy_tidy_def word_less_nat_alt word_le_nat_alt)
    moreover have "o' < 8 \<or> o' = 8" using ok' by (auto simp: block_ok_def)
    ultimately show "o' = 8" using spec by (auto simp: buddy_of_def)
  qed
  have ne: "buddy_of (a', o') \<noteq> (a', o')" if "o' < 8"
  proof -
    have "o' \<le> 8" using that by simp
    from buddy_adjacent [OF this, of a'] show ?thesis using pos [of o'] by (auto simp: buddy_of_def)
  qed
  have "coalesced (add_mset (a', o') (free_ms bs))"
    unfolding coalesced_def
  proof (intro ballI impI notI)
    fix r assume r: "r \<in># add_mset (a', o') (free_ms bs)" "snd r < 8"
      "buddy_of r \<in># add_mset (a', o') (free_ms bs)"
    have "coalesced (free_ms (blocks s))" using tidy by (simp add: buddy_tidy_def)
    then have "\<not> (r \<in># free_ms bs \<and> buddy_of r \<in># free_ms bs)"
      using r(2) sub by (auto simp: coalesced_def dest: mset_subset_eqD)
    then consider "r = (a', o')" | "buddy_of r = (a', o')" using r by auto
    then show False
    proof cases
      case 1
      then show False using r none ne by auto
    next
      case 2
      then have r': "r = buddy_of (a', o')" by (metis buddy_of_invol)
      then have "o' < 8" using r(2) by (simp add: buddy_of_def)
      then show False using r(1) r' none ne by auto
    qed
  qed
  moreover have "\<forall>r \<in># free_ms bs. aligned r"
    using tidy sub by (auto simp: buddy_tidy_def dest: mset_subset_eqD)
  ultimately show ?thesis
    using tidy al' unfolding buddy_tidy_def fm kframe by (auto dest: in_diffD)
qed

lemma roomy_run_tidy:
  assumes "roomy_step\<^sup>*\<^sup>* x y" "buddy_inv (snd x) (fst x)" "buddy_tidy (snd x) (fst x)"
  shows "buddy_tidy (snd y) (fst y)"
  using assms
proof (induction rule: rtranclp_induct)
  case base
  then show ?case by simp
next
  case (step y z)
  obtain s A where y: "y = (s, A)" by (cases y)
  have inv: "buddy_inv A s" using roomy_run [OF step.hyps(1) step.prems(1)] by (simp add: y)
  have tidy: "buddy_tidy A s" using step by (simp add: y)
  have st: "buddy_step (s, A) z" and room: "length (blocks s) + 8 \<le> 1024"
    using step.hyps(2) by (auto simp: roomy_step_def y)
  from st show ?case
  proof (cases rule: buddy_step.cases)
    case (step_alloc order s' a)
    then show ?thesis using buddy_alloc_tidy [OF inv tidy] by simp
  next
    case (step_refuse order s')
    then have "s' = s" using buddy_alloc_spec(4) [OF inv _ room] by blast
    with step_refuse tidy show ?thesis by simp
  next
    case (step_free a order)
    then show ?thesis using buddy_free_tidy [OF inv tidy, of a order] room by simp
  qed
qed

text \<open>An aligned block holds exactly the bytes with its quotient.\<close>

lemma aligned_region_div:
  assumes "aligned r"
  shows "x \<in> region r \<longleftrightarrow> x div (4096 * 2 ^ unat (snd r)) = unat (fst r) div (4096 * 2 ^ unat (snd r))"
proof -
  define n where "n = (4096 * 2 ^ unat (snd r) :: nat)"
  have n: "0 < n" by (simp add: n_def)
  obtain k where k: "unat (fst r) = k * n"
    using assms unfolding aligned_mod n_def [symmetric] by (metis div_mult_mod_eq add_0_right)
  have "x \<in> region r \<longleftrightarrow> k * n \<le> x \<and> x < k * n + n" by (simp add: region_def k n_def)
  also have "\<dots> \<longleftrightarrow> x div n = k"
  proof
    assume "k * n \<le> x \<and> x < k * n + n"
    then show "x div n = k" by (intro div_nat_eqI) (simp_all add: mult.commute)
  next
    assume "x div n = k"
    then have "x = k * n + x mod n" using div_mult_mod_eq [of x n] by simp
    moreover have "x mod n < n" using n by simp
    ultimately show "k * n \<le> x \<and> x < k * n + n" by linarith
  qed
  finally show ?thesis using n by (simp add: k flip: n_def)
qed

lemma take_bit_unat_u32: "take_bit LENGTH(32) (unat (x :: u32)) = unat x"
  using unsigned_less [of x, where 'a = nat] by (simp add: take_bit_nat_eq_self_iff)

text \<open>When the client holds nothing, a tidy full pool is one free block of order 8.\<close>

lemma tidy_full_single:
  assumes inv: "buddy_inv {#} s" and tidy: "buddy_tidy {#} s" and full: "buddy_full {#} s"
  shows "free_ms (blocks s) = {#(pool_base s, 8)#}"
proof -
  let ?M = "free_ms (blocks s)"
  note facts = buddy_inv_facts [OF inv]
  have al: "\<And>r. r \<in># ?M \<Longrightarrow> aligned r" and co: "coalesced ?M" and ab: "aligned (pool_base s, 8)"
    using tidy by (auto simp: buddy_tidy_def)
  have c1: "\<forall>x. cov ?M x \<le> 1" using facts(8) by simp
  have cover: "\<exists>q. q \<in># ?M \<and> x \<in> region q" if "x \<in> pool_range (pool_base s)" for x
    using full that by (intro cov_posE) (simp add: buddy_full_def)
  have "unat (pool_base s) \<in> pool_range (pool_base s)" by (simp add: pool_range_def)
  then obtain q0 where "q0 \<in># ?M" using cover by blast
  then obtain r where r: "r \<in># ?M" and min: "\<And>q. q \<in># ?M \<Longrightarrow> unat (snd r) \<le> unat (snd q)"
    using ex_has_least_nat [of "\<lambda>q. q \<in># ?M" q0 "\<lambda>q. unat (snd q)"] by blast
  have okr: "block_ok (pool_base s) r" using facts(6) r by blast
  have "snd r = 8"
  proof (rule ccontr)
    assume "snd r \<noteq> 8"
    moreover have "snd r \<le> 8" using okr by (simp add: block_ok_def)
    ultimately have o: "snd r < 8" by simp
    define b where "b = buddy_of r"
    have pos: "(0 :: nat) < 4096 * 2 ^ unat (snd r)" by simp
    have "unat (pool_base s) \<le> unat (fst r)" "unat (fst r) < unat (pool_base s) + 0x100000"
      using region_bounds [OF okr] pos by linarith+
    from buddy_in_pool [OF ab o this] have "unat (fst b) \<in> pool_range (pool_base s)"
      by (simp add: pool_range_def b_def buddy_of_def)
    then obtain q where q: "q \<in># ?M" "unat (fst b) \<in> region q" using cover by blast
    let ?n = "4096 * 2 ^ unat (snd q) :: nat" and ?m = "4096 * 2 ^ unat (snd r) :: nat"
    have alb: "aligned b"
      using al [OF r] o by (auto simp: b_def aligned_def buddy_of_def block_size_exp bit_simps)
    show False
    proof (cases "unat (snd q) = unat (snd r)")
      case True
      then have eq: "snd q = snd b" by (simp add: b_def buddy_of_def word_unat_eq_iff)
      have "unat (fst b) div ?n = unat (fst q) div ?n"
        using q(2) aligned_region_div [OF al [OF q(1)]] by simp
      moreover have "unat (fst b) mod ?n = 0" "unat (fst q) mod ?n = 0"
        using alb al [OF q(1)] eq by (simp_all add: aligned_mod)
      ultimately have "unat (fst b) = unat (fst q)" by (metis div_mult_mod_eq)
      then have "b = q" using eq by (simp add: prod_eq_iff word_unat_eq_iff)
      then show False using co r o q(1) by (auto simp: coalesced_def b_def)
    next
      case False
      then have lt: "unat (snd r) < unat (snd q)" using min [OF q(1)] by simp
      have "drop_bit (12 + unat (snd q)) (fst b) = drop_bit (12 + unat (snd q)) (fst r)"
        using lt by (intro bit_eqI) (auto simp: b_def buddy_of_def block_size_exp bit_simps)
      then have "unat (drop_bit (12 + unat (snd q)) (fst b)) = unat (drop_bit (12 + unat (snd q)) (fst r))"
        by simp
      then have "unat (fst b) div ?n = unat (fst r) div ?n"
        unfolding unsigned_drop_bit_eq take_bit_unat_u32 by (simp add: drop_bit_eq_div power_add)
      then have "unat (fst r) \<in> region q" using q(2) aligned_region_div [OF al [OF q(1)]] by simp
      moreover have "q \<noteq> r" using lt by auto
      then have "q \<in># ?M - {#r#}" using q(1) r by (metis insert_DiffM insert_noteq_member)
      ultimately show False using cov_disjoint [OF c1 r] region_nonempty [of r] by blast
    qed
  qed
  then have reg: "region r = pool_range (pool_base s)" and r': "r = (pool_base s, 8)"
    using region_bounds [OF okr] by (auto simp: region_def pool_range_def prod_eq_iff word_unat_eq_iff)
  have "?M - {#r#} = {#}"
  proof (rule ccontr)
    assume "?M - {#r#} \<noteq> {#}"
    then obtain q where q: "q \<in># ?M - {#r#}" by (rule multiset_nonemptyE)
    then have "region q \<subseteq> pool_range (pool_base s)" using facts(6) by (auto simp: block_ok_def dest: in_diffD)
    then show False using cov_disjoint [OF c1 r q] reg region_nonempty [of q] by blast
  qed
  then show ?thesis using r r' by (metis insert_DiffM)
qed

subsection \<open>Properties\<close>

text \<open>
  C39: initialisation either takes exactly the 256 frames from the lowest free frame on and
  starts with the whole pool as one free block of order 8, or, when those frames are not all
  free, gives back every frame it tried and leaves the allocator off.
\<close>

theorem buddy_init_correct:
  assumes "pmm_inv U p" "buddy_init p = (p', s)" "F = free_set (frame_bitmap p)"
  shows "pmm_inv U p' \<and>
     (if F \<noteq> {} \<and> {Min F..<Min F + 256} \<subseteq> F
      then free_set (frame_bitmap p') = F - {Min F..<Min F + 256}
        \<and> unat (pool_base s) = Min F * 4096 \<and> buddy_inv {#} s \<and> buddy_full {#} s
        \<and> free_ms (blocks s) = {#(pool_base s, 8)#}
      else free_set (frame_bitmap p') = F \<and> \<not> buddy_initialized s)"
  using buddy_init_spec [OF assms(1,2)] unfolding assms(3) by presburger

theorem buddy_init_correct_witness:
  "let (p', s) = buddy_init (pmm_init 0x10000 2 two_pages)
   in free_set (frame_bitmap p') = {256, 258} \<and> \<not> buddy_initialized s"
proof -
  let ?F = "{256, 258 :: nat}"
  obtain p' s where b: "buddy_init (pmm_init 0x10000 2 two_pages) = (p', s)" by fastforce
  have "257 \<in> {Min ?F..<Min ?F + 256}" "257 \<notin> ?F" by simp_all
  then have n: "\<not> (?F \<noteq> {} \<and> {Min ?F..<Min ?F + 256} \<subseteq> ?F)" by blast
  from buddy_init_correct [OF two_pages_state(1) b, of ?F] show ?thesis
    unfolding if_not_P [OF n] by (simp add: b two_pages_state(2))
qed

text \<open>
  C2: safety. In every run of allocations and releases of held blocks, whatever the orders and
  even after the block table has filled up, two blocks the client holds never overlap, no held
  block overlaps a free one, and all of them lie inside the pool.
\<close>

theorem buddy_no_overlap:
  assumes "buddy_inv {#} s0" "buddy_step\<^sup>*\<^sup>* (s0, {#}) (s, A)" "r \<in># A"
  shows "region r \<subseteq> pool_range (pool_base s0)
     \<and> (\<forall>q \<in># A - {#r#}. region r \<inter> region q = {})
     \<and> (\<forall>q \<in># free_ms (blocks s). region r \<inter> region q = {})"
proof -
  have inv: "buddy_inv A s" and base: "pool_base s = pool_base s0"
    using buddy_run_inv [OF assms(2)] assms(1) by simp_all
  have c: "\<forall>x. cov (free_ms (blocks s) + A) x \<le> 1" using inv by (simp add: buddy_inv_def)
  have "free_ms (blocks s) + A - {#r#} = free_ms (blocks s) + (A - {#r#})"
    using assms(3) by (intro multiset_diff_union_assoc) simp
  then have "q \<in># free_ms (blocks s) + A - {#r#}" if "q \<in># A - {#r#} \<or> q \<in># free_ms (blocks s)" for q
    using that by auto
  then have "region r \<inter> region q = {}" if "q \<in># A - {#r#} \<or> q \<in># free_ms (blocks s)" for q
    using cov_disjoint [OF c] that assms(3) by simp
  moreover have "region r \<subseteq> pool_range (pool_base s0)"
    using buddy_inv_facts(7) [OF inv] assms(3) base by (auto simp: block_ok_def)
  ultimately show ?thesis by blast
qed

text \<open>A pool at \<open>base\<close> as \<^verbatim>\<open>buddy_init\<close> leaves it.\<close>

definition fresh_pool :: "u32 \<Rightarrow> buddy_state" where
  "fresh_pool base = \<lparr>blocks = [\<lparr>b_addr = base, b_order = 8, b_free = True\<rparr>],
     pool_base = base, buddy_initialized = True\<rparr>"

lemma fresh_pool_ok:
  assumes "0x100000 \<le> base" "base < 0x08000000"
  shows "buddy_inv {#} (fresh_pool base)" "buddy_full {#} (fresh_pool base)"
    "free_ms (blocks (fresh_pool base)) = {#(base, 8)#}" "pool_base (fresh_pool base) = base"
proof -
  have "region (base, 8) = pool_range base" by (simp add: region_def pool_range_def)
  then show "buddy_inv {#} (fresh_pool base)" "buddy_full {#} (fresh_pool base)"
    using assms by (simp_all add: fresh_pool_def buddy_inv_def buddy_full_def blk_def block_ok_def)
qed (simp_all add: fresh_pool_def blk_def)

lemmas fresh_run = split_loop.simps add_block_def block_size_def scan.simps fresh_pool_def

theorem buddy_no_overlap_witness:
  "\<exists>s A. buddy_step\<^sup>*\<^sup>* (fresh_pool 0x100000, {#}) (s, A) \<and> (0x100000, 8) \<in># A
     \<and> region (0x100000, 8) \<subseteq> pool_range 0x100000"
proof -
  obtain s where al: "buddy_alloc 8 (fresh_pool 0x100000) = (s, 0x100000)"
    by (simp add: buddy_alloc_def fresh_run)
  then have "buddy_step (fresh_pool 0x100000, {#}) (s, {#(0x100000, 8)#})"
    by (rule step_alloc) simp
  then have run: "buddy_step\<^sup>*\<^sup>* (fresh_pool 0x100000, {#}) (s, {#(0x100000, 8)#})" by simp
  have "region (0x100000, 8) \<subseteq> pool_range 0x100000"
    using buddy_no_overlap [OF fresh_pool_ok(1) run, of "(0x100000, 8)"] by (simp add: fresh_pool_ok(4))
  with run show ?thesis by (intro exI [of _ s] exI [of _ "{#(0x100000, 8)#}"]) simp
qed

text \<open>
  while the table has room, an allocation fails only when it must: address 0 is returned
  exactly for an order above 8 or when no free block is large enough, and then nothing changed.
\<close>

theorem buddy_alloc_succeeds:
  assumes "buddy_inv A s" "length (blocks s) + 8 \<le> 1024" "buddy_alloc order s = (s', a)"
  shows "(a = 0 \<longleftrightarrow> 8 < order \<or> (\<forall>r \<in># free_ms (blocks s). snd r < order)) \<and> (a = 0 \<longrightarrow> s' = s)"
  using buddy_alloc_spec(3,4) [OF assms(1,3,2)] by blast

theorem buddy_alloc_succeeds_witness:
  "snd (buddy_alloc 3 (fresh_pool 0x100000)) \<noteq> 0 \<and> buddy_alloc 9 (fresh_pool 0x100000) = (fresh_pool 0x100000, 0)"
proof -
  have inv: "buddy_inv {#} (fresh_pool 0x100000)" by (rule fresh_pool_ok) simp_all
  have room: "length (blocks (fresh_pool 0x100000)) + 8 \<le> 1024" by (simp add: fresh_pool_def)
  have fm: "free_ms (blocks (fresh_pool 0x100000)) = {#(0x100000, 8)#}" by (rule fresh_pool_ok) simp_all
  obtain s3 a3 s9 a9 where al: "buddy_alloc 3 (fresh_pool 0x100000) = (s3, a3)"
      "buddy_alloc 9 (fresh_pool 0x100000) = (s9, a9)"
    by fastforce
  from buddy_alloc_succeeds [OF inv room al(1)] buddy_alloc_succeeds [OF inv room al(2)] al fm
  show ?thesis by simp
qed

text \<open>
  C21: conservation. In a run from a fresh pool during which the table keeps room for a full
  split, every byte of the pool is in exactly one free or held block: nothing is lost.
\<close>

theorem buddy_no_leak:
  assumes "buddy_inv {#} s0" "buddy_full {#} s0" "roomy_step\<^sup>*\<^sup>* (s0, {#}) (s, A)"
  shows "buddy_full A s"
  using roomy_run [OF assms(3)] assms(1,2) by (simp add: buddy_full_def)

theorem buddy_no_leak_witness:
  "\<exists>s. roomy_step\<^sup>*\<^sup>* (fresh_pool 0x100000, {#}) (s, {#(0x100000, 7)#}) \<and> buddy_full {#(0x100000, 7)#} s"
proof -
  obtain s where al: "buddy_alloc 7 (fresh_pool 0x100000) = (s, 0x100000)"
    by (simp add: buddy_alloc_def fresh_run)
  then have "buddy_step (fresh_pool 0x100000, {#}) (s, {#(0x100000, 7)#})"
    by (rule step_alloc) simp
  then have "roomy_step (fresh_pool 0x100000, {#}) (s, {#(0x100000, 7)#})"
    by (simp add: roomy_step_def fresh_pool_def)
  then have run: "roomy_step\<^sup>*\<^sup>* (fresh_pool 0x100000, {#}) (s, {#(0x100000, 7)#})" by simp
  have "buddy_full {#(0x100000, 7)#} s" by (rule buddy_no_leak [OF fresh_pool_ok(1,2) run]) simp_all
  with run show ?thesis by blast
qed

text \<open>
  C22: coalescing is complete while the block table has room. From a pool that starts on a 1 MiB
  boundary, once a run in which every step left room for a full split in the table has released
  everything it allocated, the table again describes one free block of order 8, so a 1 MiB
  allocation succeeds. (When the table is full released blocks are lost, \<open>buddy_table_exhausts\<close>.)
\<close>

theorem buddy_coalesces:
  assumes "0x100000 \<le> base" "base < 0x08000000" "unat base mod 0x100000 = 0"
    and "roomy_step\<^sup>*\<^sup>* (fresh_pool base, {#}) (s, {#})"
  shows "free_ms (blocks s) = {#(base, 8)#}"
proof -
  note fresh = fresh_pool_ok [OF assms(1,2)]
  have al: "aligned (base, 8)" using assms(3) by (simp add: aligned_mod)
  have "buddy_tidy {#} (fresh_pool base)"
    using al fresh(3,4) by (simp add: buddy_tidy_def coalesced_def)
  then have "buddy_tidy {#} s" using roomy_run_tidy [OF assms(4)] fresh(1) by simp
  moreover have "buddy_inv {#} s" "pool_base s = base" "buddy_full {#} s"
    using roomy_run [OF assms(4)] fresh by (simp_all add: buddy_full_def)
  ultimately show ?thesis using tidy_full_single [of s] by simp
qed

theorem buddy_coalesces_witness:
  "\<exists>s. roomy_step\<^sup>*\<^sup>* (fresh_pool 0x100000, {#}) (s, {#}) \<and> s \<noteq> fresh_pool 0x100000
     \<and> free_ms (blocks s) = {#(0x100000, 8)#}"
proof -
  define s1 where "s1 = fst (buddy_alloc 7 (fresh_pool 0x100000))"
  define s2 where "s2 = buddy_free 0x100000 7 s1"
  have al: "buddy_alloc 7 (fresh_pool 0x100000) = (s1, 0x100000)" and len: "length (blocks s1) = 2"
    by (simp_all add: s1_def buddy_alloc_def fresh_run)
  have st1: "buddy_step (fresh_pool 0x100000, {#}) (s1, {#(0x100000, 7)#})"
    using al by (rule step_alloc) simp
  have "buddy_step (s1, {#(0x100000, 7)#}) (s2, {#(0x100000, 7)#} - {#(0x100000, 7)#})"
    unfolding s2_def by (rule step_free) simp
  then have "roomy_step (s1, {#(0x100000, 7)#}) (s2, {#})" using len by (simp add: roomy_step_def)
  moreover have "roomy_step (fresh_pool 0x100000, {#}) (s1, {#(0x100000, 7)#})"
    using st1 by (simp add: roomy_step_def fresh_pool_def)
  ultimately have run: "roomy_step\<^sup>*\<^sup>* (fresh_pool 0x100000, {#}) (s2, {#})" by simp
  have "length (blocks s2) \<noteq> 1"
    by (simp add: s2_def s1_def buddy_alloc_def fresh_run buddy_free_def merge_loop.simps
        find_free_block_def)
  then have "s2 \<noteq> fresh_pool 0x100000" by (auto simp: fresh_pool_def)
  moreover have "free_ms (blocks s2) = {#(0x100000, 8)#}"
    using buddy_coalesces [OF _ _ _ run] by simp
  ultimately show ?thesis using run by blast
qed

text \<open>One client cycle: take the whole pool and give it back.\<close>

definition pool_cycle :: "buddy_state \<Rightarrow> buddy_state" where
  "pool_cycle s = (case buddy_alloc 8 s of (s', a) \<Rightarrow> buddy_free a 8 s')"

definition worn_pool :: "u32 \<Rightarrow> nat \<Rightarrow> buddy_state" where
  "worn_pool base n = \<lparr>blocks = replicate n \<lparr>b_addr = base, b_order = 8, b_free = False\<rparr>
       @ (if n < 1024 then [\<lparr>b_addr = base, b_order = 8, b_free = True\<rparr>] else []),
     pool_base = base, buddy_initialized = True\<rparr>"

lemma worn_pool_alloc:
  "buddy_alloc 8 (worn_pool base n) =
     (if n < 1024 then ((worn_pool base n)\<lparr>blocks := replicate (Suc n) \<lparr>b_addr = base, b_order = 8, b_free = False\<rparr>\<rparr>, base)
      else (worn_pool base n, 0))"
proof (cases "n < 1024")
  case True
  have "scan (\<lambda>i. b_free (blocks (worn_pool base n) ! i) \<and> 8 \<le> b_order (blocks (worn_pool base n) ! i))
      0 (length (blocks (worn_pool base n))) = Some n"
    using True by (simp add: scan_Some_iff worn_pool_def nth_append)
  then show ?thesis using True
    by (simp add: buddy_alloc_def split_loop.simps [of n] worn_pool_def nth_append list_update_append
        flip: replicate_append_same)
next
  case False
  have "scan (\<lambda>i. b_free (blocks (worn_pool base n) ! i) \<and> 8 \<le> b_order (blocks (worn_pool base n) ! i))
      0 (length (blocks (worn_pool base n))) = None"
    using False by (simp add: scan_None_iff worn_pool_def)
  then show ?thesis using False by (simp add: buddy_alloc_def worn_pool_def)
qed

lemma pool_cycle_worn:
  assumes "0x100000 \<le> base" "base < 0x08000000" "n \<le> 1024"
  shows "pool_cycle (worn_pool base n) = worn_pool base (min 1024 (Suc n))"
proof -
  have "unat base + 0x100000 < 2 ^ 32" using assms(2) by (simp add: word_less_nat_alt)
  then have "base < base + 0x100000" by (simp add: word_less_nat_alt unat_word_ariths)
  moreover have "\<not> base < 0x100000" "0 < base" "merge_loop base base 8 bs = (base, 8, bs)" for bs
    using assms(1) by (auto simp: merge_loop.simps word_less_nat_alt word_le_nat_alt)
  ultimately show ?thesis using assms(3) unfolding pool_cycle_def worn_pool_alloc
    by (cases "n = 1023"; cases "n < 1024")
      (auto simp: buddy_free_def worn_pool_def add_block_def not_le min_def not_less
        simp flip: replicate_Suc)
qed

text \<open>
  the block table only grows: every release takes a fresh entry and no entry is ever
  reused. A client that takes the whole pool and returns it is served exactly 1024 times; the
  1024th release finds the table full, drops the block, and the pool is lost for good.
\<close>

theorem buddy_table_exhausts:
  assumes "0x100000 \<le> base" "base < 0x08000000"
  shows "snd (buddy_alloc 8 ((pool_cycle ^^ n) (fresh_pool base))) = (if n < 1024 then base else 0)"
proof -
  have "(pool_cycle ^^ n) (fresh_pool base) = worn_pool base (min 1024 n)"
  proof (induction n)
    case 0
    show ?case by (simp add: fresh_pool_def worn_pool_def)
  next
    case (Suc n)
    then show ?case using pool_cycle_worn [OF assms, of "min 1024 n"] by (simp add: min_def)
  qed
  then show ?thesis by (simp add: worn_pool_alloc min_def)
qed

theorem buddy_table_exhausts_witness:
  "snd (buddy_alloc 8 ((pool_cycle ^^ 1023) (fresh_pool 0x100000))) = 0x100000
   \<and> snd (buddy_alloc 8 ((pool_cycle ^^ 1024) (fresh_pool 0x100000))) = 0"
  using buddy_table_exhausts [of "0x100000" 1023] buddy_table_exhausts [of "0x100000" 1024] by simp

text \<open>The tables the three allocations of \<^verbatim>\<open>buddytest\<close> leave.\<close>

abbreviation free_blk :: "u32 \<Rightarrow> u32 \<Rightarrow> buddy_block" where
  "free_blk a k \<equiv> \<lparr>b_addr = a, b_order = k, b_free = True\<rparr>"

abbreviation used_blk :: "u32 \<Rightarrow> u32 \<Rightarrow> buddy_block" where
  "used_blk a k \<equiv> \<lparr>b_addr = a, b_order = k, b_free = False\<rparr>"

definition test_table1 :: "u32 \<Rightarrow> buddy_block list" where
  "test_table1 b = [free_blk (b + 0x40000) 6, free_blk (b + 0x20000) 5, free_blk (b + 0x10000) 4,
     free_blk (b + 0x8000) 3, free_blk (b + 0x4000) 2, free_blk (b + 0x2000) 1, free_blk (b + 0x1000) 0]"

lemma split_test1:
  "split_loop 0 0 [free_blk b 8] = (free_blk b 0 # free_blk (b + 0x80000) 7 # test_table1 b, True)"
  by (simp add: split_loop.simps add_block_def block_size_def test_table1_def)

lemma split_test2:
  "split_loop 1 2 (used_blk b 0 # free_blk (b + 0x80000) 7 # test_table1 b) =
     (used_blk b 0 # free_blk (b + 0x80000) 2 # test_table1 b @
       [free_blk (b + 0xC0000) 6, free_blk (b + 0xA0000) 5, free_blk (b + 0x90000) 4,
        free_blk (b + 0x88000) 3, free_blk (b + 0x84000) 2], True)"
  by (simp add: split_loop.simps add_block_def block_size_def test_table1_def add.assoc)

lemma split_test3:
  assumes "length bs \<le> 100"
  shows "\<exists>bs'. split_loop 2 3 (x # y # free_blk a 6 # bs) = (x # y # free_blk a 3 # bs', True)"
  using assms by (simp add: split_loop.simps add_block_def block_size_def)

lemma buddytest_allocs:
  obtains s1 s2 s3 where "buddy_alloc 0 (fresh_pool b) = (s1, b)"
    "buddy_alloc 2 s1 = (s2, b + 0x80000)" "buddy_alloc 3 s2 = (s3, b + 0x40000)"
proof -
  define ext where "ext = [free_blk (b + 0xC0000) 6, free_blk (b + 0xA0000) 5, free_blk (b + 0x90000) 4,
        free_blk (b + 0x88000) 3, free_blk (b + 0x84000) 2]"
  define mk where "mk bs = \<lparr>blocks = bs, pool_base = b, buddy_initialized = True\<rparr>" for bs
  have a1: "buddy_alloc 0 (fresh_pool b) = (mk (used_blk b 0 # free_blk (b + 0x80000) 7 # test_table1 b), b)"
    by (simp add: buddy_alloc_def fresh_pool_def scan.simps mk_def flip: split_test1)
       (simp add: split_test1)
  have a2: "buddy_alloc 2 (mk (used_blk b 0 # free_blk (b + 0x80000) 7 # test_table1 b)) =
      (mk (used_blk b 0 # used_blk (b + 0x80000) 2 # test_table1 b @ ext), b + 0x80000)"
    using split_test2 [of b] by (simp add: buddy_alloc_def scan.simps mk_def ext_def)
  obtain bs' where sp: "split_loop 2 3 (used_blk b 0 # used_blk (b + 0x80000) 2 # test_table1 b @ ext) =
      (used_blk b 0 # used_blk (b + 0x80000) 2 # free_blk (b + 0x40000) 3 # bs', True)"
    using split_test3 [of "tl (test_table1 b) @ ext"] by (fastforce simp: test_table1_def ext_def)
  have "scan (\<lambda>i. b_free ((used_blk b 0 # used_blk (b + 0x80000) 2 # test_table1 b @ ext) ! i)
      \<and> 3 \<le> b_order ((used_blk b 0 # used_blk (b + 0x80000) 2 # test_table1 b @ ext) ! i))
      0 (length (used_blk b 0 # used_blk (b + 0x80000) 2 # test_table1 b @ ext)) = Some 2"
    by (simp add: scan.simps test_table1_def)
  then have "\<exists>s3. buddy_alloc 3 (mk (used_blk b 0 # used_blk (b + 0x80000) 2 # test_table1 b @ ext)) = (s3, b + 0x40000)"
    using sp by (simp add: buddy_alloc_def mk_def)
  with a1 a2 that show thesis by blast
qed

text \<open>
  the exact verdict of the shell's buddy test on a fresh pool. The pool starts at whatever
  page is free first, and blocks are aligned relative to that page only, so the test (which
  wants an order-2 block on a 16 KiB boundary) passes exactly when the pool base is itself on
  a 16 KiB boundary, and reports a misaligned block otherwise.
\<close>

theorem buddytest_verdict:
  assumes "0x100000 \<le> base" "base < 0x08000000"
  shows "snd (cmd_buddytest p (fresh_pool base)) =
     (if base AND 0x3FFF = 0 then Buddy_pass else Buddy_misaligned)"
proof -
  obtain s1 s2 s3 where al: "buddy_alloc 0 (fresh_pool base) = (s1, base)"
    "buddy_alloc 2 s1 = (s2, base + 0x80000)" "buddy_alloc 3 s2 = (s3, base + 0x40000)"
    by (rule buddytest_allocs)
  have "unat base + 0x80000 < 2 ^ 32" "0 < unat base"
    using assms by (auto simp: word_less_nat_alt word_le_nat_alt)
  then have "unat (base + 0x80000) \<noteq> 0" "unat (base + 0x40000) \<noteq> 0" "base \<noteq> 0"
    by (auto simp: unat_word_ariths)
  then have nz: "base + 0x80000 \<noteq> 0" "base + 0x40000 \<noteq> 0" "base \<noteq> 0" by auto
  have "(base + 0x80000) AND 0x3FFF = base AND 0x3FFF"
  proof -
    have m: "(0x3FFF :: u32) = mask 14" by (simp add: mask_eq_exp_minus_1)
    have "(n + 0x80000) mod 0x4000 = n mod 0x4000" for n :: nat
      using mod_mult_self1 [of n 32 "0x4000"] by simp
    moreover have "unat (base + 0x80000) = unat base + 0x80000"
      using \<open>unat base + 0x80000 < 2 ^ 32\<close> by (simp add: unat_word_ariths)
    ultimately have "unat (take_bit 14 (base + 0x80000)) = unat (take_bit 14 base)"
      by (simp add: unsigned_take_bit_eq) (simp add: take_bit_eq_mod)
    then have "take_bit 14 (base + 0x80000) = take_bit 14 base"
      by (simp only: word_unat_eq_iff)
    then show ?thesis unfolding m by (simp only: take_bit_eq_mask)
  qed
  with al nz show ?thesis by (simp add: cmd_buddytest_def)
qed

theorem buddytest_verdict_witness:
  "snd (cmd_buddytest (pmm_init 0x10000 2 two_pages) (fresh_pool 0x100000)) = Buddy_pass
   \<and> snd (cmd_buddytest (pmm_init 0x10000 2 two_pages) (fresh_pool 0x101000)) = Buddy_misaligned"
  using buddytest_verdict [of "0x100000"] buddytest_verdict [of "0x101000"] by simp

end
