(* ===== verification/Slab.thy ===== *)
theory Slab
  imports Buddy
begin

text \<open>
  The slab allocator of \<^verbatim>\<open>kernel/slab.c\<close>: four caches of 32, 64, 128 and 256 byte objects, one
  page each, and the shell's \<^verbatim>\<open>slabtest\<close>. The free objects of a cache are linked through their
  own first word, so the pages are modelled byte by byte; \<open>base\<close> is the address the linker
  gives \<^verbatim>\<open>slab_memory\<close>. The lemmas show that every cache is a stack of free objects, that
  clients may write to what they hold without disturbing it, and what a double free does.
\<close>

unbundle bit_operations_syntax

subsection \<open>State\<close>

abbreviation SLAB_PAGE_SIZE :: u32 where "SLAB_PAGE_SIZE \<equiv> 4096"
abbreviation CACHE_COUNT :: nat where "CACHE_COUNT \<equiv> 4"

definition cache_sizes :: "u32 list" where
  "cache_sizes = [32, 64, 128, 256]"

text \<open>Pointers are addresses, 0 the null pointer.\<close>

record slab_t =
  sl_addr :: u32
  sl_object_size :: u32
  sl_free_count :: u32
  sl_free_list :: u32
  sl_next :: u32

record slab_state =
  slabs :: "slab_t list"
  slab_memory :: "u8 list"
  slab_initialized :: bool

text \<open>The statics before \<^verbatim>\<open>slab_init\<close>: zeroed.\<close>

definition slab_boot :: slab_state where
  "slab_boot = \<lparr>slabs = replicate 4 \<lparr>sl_addr = 0, sl_object_size = 0, sl_free_count = 0,
       sl_free_list = 0, sl_next = 0\<rparr>,
     slab_memory = replicate 16384 0, slab_initialized = False\<rparr>"

text \<open>\<open>object->next\<close>, read and written in the bytes of \<^verbatim>\<open>slab_memory\<close>.\<close>

definition object_next :: "u32 \<Rightarrow> u32 \<Rightarrow> u8 list \<Rightarrow> u32" where
  "object_next base object m = get32 m (unat (object - base))"

definition set_object_next :: "u32 \<Rightarrow> u32 \<Rightarrow> u32 \<Rightarrow> u8 list \<Rightarrow> u8 list" where
  "set_object_next base object v m = put32 (unat (object - base)) v m"

subsection \<open>Operations\<close>

definition cache_index :: "u32 \<Rightarrow> nat option" where
  "cache_index sz = scan (\<lambda>i. sz \<le> cache_sizes ! i) 0 CACHE_COUNT"

text \<open>One iteration of the loop of \<^verbatim>\<open>create_slab\<close>.\<close>

definition link_object :: "u32 \<Rightarrow> nat \<Rightarrow> nat \<Rightarrow> slab_state \<Rightarrow> slab_state" where
  "link_object base index i s =
     (let object = base + of_nat index * SLAB_PAGE_SIZE + of_nat i * cache_sizes ! index in
      s\<lparr>slab_memory := set_object_next base object (sl_free_list (slabs s ! index)) (slab_memory s),
        slabs := (slabs s)[index := (slabs s ! index)\<lparr>sl_free_list := object\<rparr>]\<rparr>)"

definition create_slab :: "u32 \<Rightarrow> nat \<Rightarrow> slab_state \<Rightarrow> slab_state" where
  "create_slab base index s =
     (let object_size = cache_sizes ! index;
          count = SLAB_PAGE_SIZE div object_size in
      fold (link_object base index) [0..<unat count]
        (s\<lparr>slabs := (slabs s)[index :=
            \<lparr>sl_addr = base + of_nat index * SLAB_PAGE_SIZE, sl_object_size = object_size,
             sl_free_count = count, sl_free_list = 0, sl_next = 0\<rparr>]\<rparr>))"

definition slab_init :: "u32 \<Rightarrow> slab_state \<Rightarrow> slab_state" where
  "slab_init base s = (fold (create_slab base) [0..<CACHE_COUNT] s)\<lparr>slab_initialized := True\<rparr>"

definition kmalloc :: "u32 \<Rightarrow> u32 \<Rightarrow> slab_state \<Rightarrow> slab_state \<times> u32" where
  "kmalloc base sz s =
     (if \<not> slab_initialized s \<or> sz = 0 then (s, 0)
      else case cache_index sz of
          None \<Rightarrow> (s, 0)
        | Some index \<Rightarrow>
            let sl = slabs s ! index in
            if sl_free_list sl = 0 then (s, 0)
            else
              let object = sl_free_list sl;
                  sl1 = sl\<lparr>sl_free_list := object_next base object (slab_memory s)\<rparr>;
                  sl2 = (if 0 < sl_free_count sl1 then sl1\<lparr>sl_free_count := sl_free_count sl1 - 1\<rparr> else sl1)
              in (s\<lparr>slabs := (slabs s)[index := sl2]\<rparr>, object))"

definition kfree :: "u32 \<Rightarrow> u32 \<Rightarrow> slab_state \<Rightarrow> slab_state" where
  "kfree base ptr s =
     (if \<not> slab_initialized s \<or> ptr = 0 then s
      else case scan (\<lambda>i. sl_addr (slabs s ! i) \<le> ptr \<and> ptr < sl_addr (slabs s ! i) + SLAB_PAGE_SIZE)
             0 CACHE_COUNT of
          None \<Rightarrow> s
        | Some i \<Rightarrow>
            s\<lparr>slab_memory := set_object_next base ptr (sl_free_list (slabs s ! i)) (slab_memory s),
              slabs := (slabs s)[i := (slabs s ! i)\<lparr>sl_free_list := ptr,
                 sl_free_count := sl_free_count (slabs s ! i) + 1\<rparr>]\<rparr>)"

text \<open>
  The shell command \<^verbatim>\<open>slabtest\<close> of \<^verbatim>\<open>kernel/kernel.c\<close>; the result is the list of verdicts it
  prints (for 32, 64, 128 and 256 bytes, and for the reuse of an object).
\<close>

definition cmd_slabtest :: "u32 \<Rightarrow> slab_state \<Rightarrow> slab_state \<times> bool list" where
  "cmd_slabtest base s =
     (let (s1, a) = kmalloc base 20 s;
          (s2, b) = kmalloc base 50 s1;
          (s3, c) = kmalloc base 100 s2;
          (s4, d) = kmalloc base 200 s3;
          s5 = kfree base d (kfree base c (kfree base b (kfree base a s4)));
          (s6, e) = kmalloc base 20 s5
      in (kfree base e s6, [a \<noteq> 0, b \<noteq> 0, c \<noteq> 0, d \<noteq> 0, e \<noteq> 0]))"

subsection \<open>Objects and free lists\<close>

text \<open>The linker places the four pages at a page boundary, below the end of the address space.\<close>

definition slab_base_ok :: "u32 \<Rightarrow> bool" where
  "slab_base_ok base \<longleftrightarrow> base \<noteq> 0 \<and> unat base mod 4096 = 0 \<and> unat base + 16384 < 2 ^ 32"

abbreviation obj_size :: "nat \<Rightarrow> nat" where "obj_size i \<equiv> 32 * 2 ^ i"

definition obj_addr :: "u32 \<Rightarrow> nat \<Rightarrow> nat \<Rightarrow> u32" where
  "obj_addr base i k = base + of_nat (i * 4096 + k * obj_size i)"

text \<open>The addresses of the objects of cache \<open>i\<close>, lowest first.\<close>

definition objs :: "u32 \<Rightarrow> nat \<Rightarrow> u32 list" where
  "objs base i = map (obj_addr base i) [0..<4096 div obj_size i]"

text \<open>\<open>chain base m p L\<close>: following the links in \<open>m\<close> from \<open>p\<close> visits exactly \<open>L\<close>, then null.\<close>

fun chain :: "u32 \<Rightarrow> u8 list \<Rightarrow> u32 \<Rightarrow> u32 list \<Rightarrow> bool" where
  "chain base m p [] \<longleftrightarrow> p = 0"
| "chain base m p (x # xs) \<longleftrightarrow> p = x \<and> x \<noteq> 0 \<and> chain base m (object_next base x m) xs"

definition cache_ok :: "u32 \<Rightarrow> slab_state \<Rightarrow> nat \<Rightarrow> u32 list \<Rightarrow> bool" where
  "cache_ok base s i L \<longleftrightarrow> sl_addr (slabs s ! i) = base + of_nat i * 4096
     \<and> sl_object_size (slabs s ! i) = cache_sizes ! i
     \<and> chain base (slab_memory s) (sl_free_list (slabs s ! i)) L
     \<and> sl_free_count (slabs s ! i) = of_nat (length L)
     \<and> distinct L \<and> set L \<subseteq> set (objs base i)"

text \<open>The abstraction: \<open>F i\<close> is the stack of free objects of cache \<open>i\<close>.\<close>

definition slab_rep :: "u32 \<Rightarrow> slab_state \<Rightarrow> (nat \<Rightarrow> u32 list) \<Rightarrow> bool" where
  "slab_rep base s F \<longleftrightarrow> slab_base_ok base \<and> slab_initialized s \<and> length (slabs s) = 4
     \<and> length (slab_memory s) = 16384 \<and> (\<forall>i < 4. cache_ok base s i (F i))"

lemma less_4_cases: "(i :: nat) < 4 \<longleftrightarrow> i = 0 \<or> i = 1 \<or> i = 2 \<or> i = 3"
  by auto

lemma cache_sizes_nth: "i < 4 \<Longrightarrow> cache_sizes ! i = of_nat (obj_size i)"
  by (auto simp: less_4_cases cache_sizes_def)

lemma unat_cache_sizes [simp]: "i < 4 \<Longrightarrow> unat (cache_sizes ! i) = obj_size i"
  by (auto simp: less_4_cases cache_sizes_def)

lemma cache_index_Some:
  "cache_index sz = Some i \<Longrightarrow> i < 4 \<and> unat sz \<le> obj_size i \<and> (\<forall>j < i. obj_size j < unat sz)"
  unfolding cache_index_def scan_Some_iff
  by (auto simp: word_le_nat_alt not_le)

lemma cache_index_None: "cache_index sz = None \<longleftrightarrow> 256 < sz"
  unfolding cache_index_def scan_None_iff
  by (auto simp: less_4_cases cache_sizes_def word_le_nat_alt word_less_nat_alt)

lemma obj_offset_bound: "i < 4 \<Longrightarrow> k < 4096 div obj_size i \<Longrightarrow> i * 4096 + k * obj_size i + obj_size i \<le> (i + 1) * 4096"
  by (auto simp: less_4_cases)

lemma unat_obj_addr:
  assumes "slab_base_ok base" "i < 4" "k < 4096 div obj_size i"
  shows "unat (obj_addr base i k) = unat base + i * 4096 + k * obj_size i"
    and "unat (obj_addr base i k - base) = i * 4096 + k * obj_size i"
proof -
  have "(i + 1) * 4096 \<le> 16384" using assms(2) by simp
  moreover have "0 < obj_size i" by simp
  ultimately have "i * 4096 + k * obj_size i < 16384" using obj_offset_bound [OF assms(2,3)] by linarith
  then have u: "unat (of_nat (i * 4096 + k * obj_size i) :: u32) = i * 4096 + k * obj_size i"
    by (simp add: unat_of_nat take_bit_eq_mod del: of_nat_add of_nat_mult)
  then show "unat (obj_addr base i k) = unat base + i * 4096 + k * obj_size i"
    using assms(1) \<open>_ < 16384\<close> by (simp add: obj_addr_def unat_word_ariths slab_base_ok_def del: of_nat_add of_nat_mult)
  show "unat (obj_addr base i k - base) = i * 4096 + k * obj_size i"
    using u by (simp add: obj_addr_def del: of_nat_add of_nat_mult)
qed

text \<open>An address of an object of some cache: its offset is a multiple of 32 below 16384.\<close>

definition is_obj :: "u32 \<Rightarrow> u32 \<Rightarrow> bool" where
  "is_obj base p \<longleftrightarrow> p \<noteq> 0 \<and> unat (p - base) mod 32 = 0 \<and> unat (p - base) < 16384"

lemma obj_facts:
  assumes "slab_base_ok base" "i < 4" "p \<in> set (objs base i)"
  shows "is_obj base p" "unat (p - base) div 4096 = i" "unat (p - base) mod obj_size i = 0"
    "unat (p - base) + obj_size i \<le> (i + 1) * 4096" "unat p = unat base + unat (p - base)"
proof -
  obtain k where k: "p = obj_addr base i k" "k < 4096 div obj_size i"
    using assms(3) by (auto simp: objs_def)
  note u = unat_obj_addr [OF assms(1,2) k(2)]
  note b = obj_offset_bound [OF assms(2) k(2)]
  have pos: "0 < obj_size i" by simp
  show "unat (p - base) + obj_size i \<le> (i + 1) * 4096" using b u k(1) by simp
  then have lt: "unat (p - base) < (i + 1) * 4096" using pos by linarith
  then show "unat (p - base) div 4096 = i" using u k(1) by (intro div_nat_eqI) auto
  show m: "unat (p - base) mod obj_size i = 0"
    using u k(1) assms(2) by (auto simp: less_4_cases mod_eq_0_iff_dvd)
  have "32 dvd unat (p - base)" using m by (metis dvd_triv_left dvd_trans mod_eq_0_iff_dvd)
  moreover have "unat p \<noteq> 0" using u(1) k(1) assms(1) by (auto simp: slab_base_ok_def unat_eq_0)
  moreover have "unat (p - base) < 16384" using lt assms(2) by simp
  ultimately show "is_obj base p" by (auto simp: is_obj_def)
  show "unat p = unat base + unat (p - base)" using u k(1) by simp
qed

lemma obj_page:
  assumes "slab_base_ok base" "i < 4" "p \<in> set (objs base i)"
  shows "4096 * i \<le> unat (p - base)" "unat (p - base) < 4096 * (i + 1)"
  using obj_facts(2) [OF assms] dividend_less_div_times [of 4096 "unat (p - base)"]
    div_times_less_eq_dividend [of "unat (p - base)" 4096]
  by (simp_all add: mult.commute)

lemma length_set_object_next [simp]: "length (set_object_next base p v m) = length m"
  by (simp add: set_object_next_def)

lemma obj_offset_inj: "unat (p - base) = unat (q - base) \<longleftrightarrow> p = (q :: u32)"
  by (simp flip: word_unat_eq_iff)

lemma object_next_set:
  assumes "is_obj base p" "is_obj base q" "length m = 16384"
  shows "object_next base q (set_object_next base p v m) = (if p = q then v else object_next base q m)"
proof -
  obtain a b where ab: "unat (p - base) = 32 * a" "unat (q - base) = 32 * b" "a < 512" "b < 512"
    using assms(1,2) by (auto simp: is_obj_def elim!: dvdE simp flip: mod_eq_0_iff_dvd)
  show ?thesis
  proof (cases "p = q")
    case True
    then show ?thesis using ab assms(3) by (simp add: object_next_def set_object_next_def byte_simps)
  next
    case False
    then have "a \<noteq> b" using ab(1,2) obj_offset_inj [of p base q] by auto
    then have "32 * b + 4 \<le> 32 * a \<or> 32 * a + 4 \<le> 32 * b" by linarith
    then show ?thesis using ab False
      by (simp add: object_next_def set_object_next_def get32_put32_other)
  qed
qed

lemma chain_cong:
  "(\<And>x. x \<in> set L \<Longrightarrow> object_next base x m' = object_next base x m) \<Longrightarrow> chain base m' p L = chain base m p L"
  by (induction L arbitrary: p) auto

lemma chain_push:
  assumes "chain base m p L" "is_obj base x" "\<forall>y \<in> set L. is_obj base y" "x \<notin> set L" "length m = 16384"
  shows "chain base (set_object_next base x p m) x (x # L)"
proof -
  have "chain base (set_object_next base x p m) p L = chain base m p L"
    using assms by (intro chain_cong) (auto simp: object_next_set)
  then show ?thesis using assms by (auto simp: object_next_set is_obj_def)
qed

lemma chain_pop: "chain base m p L \<Longrightarrow> p \<noteq> 0 \<Longrightarrow> \<exists>xs. L = p # xs \<and> chain base m (object_next base p m) xs"
  by (cases L) auto

text \<open>A cache is not disturbed by a step that leaves its descriptor and its free objects alone.\<close>

lemma cache_ok_frame:
  assumes "cache_ok base s i L" "slabs s' ! i = slabs s ! i"
    "\<And>x. x \<in> set L \<Longrightarrow> object_next base x (slab_memory s') = object_next base x (slab_memory s)"
  shows "cache_ok base s' i L"
  using assms chain_cong [of L base "slab_memory s'" "slab_memory s"] by (simp add: cache_ok_def)

lemma distinct_objs: "slab_base_ok base \<Longrightarrow> i < 4 \<Longrightarrow> distinct (objs base i)"
  unfolding objs_def distinct_map
proof (intro conjI inj_onI)
  fix k l assume a: "slab_base_ok base" "i < 4" "k \<in> set [0..<4096 div obj_size i]"
    "l \<in> set [0..<4096 div obj_size i]" "obj_addr base i k = obj_addr base i l"
  then have "unat base + i * 4096 + k * obj_size i = unat base + i * 4096 + l * obj_size i"
    by (metis atLeastLessThan_iff set_upt unat_obj_addr(1))
  then show "k = l" by simp
qed simp

lemma length_objs: "length (objs base i) = 4096 div obj_size i"
  by (simp add: objs_def)

subsection \<open>Initialisation\<close>

lemma free_list_same: "(r :: slab_t)\<lparr>sl_free_list := sl_free_list r\<rparr> = r"
  by simp

lemma link_objects:
  assumes "slab_base_ok base" "i < 4" "length (slabs s) = 4" "length (slab_memory s) = 16384"
    "sl_free_list (slabs s ! i) = 0" "n \<le> 4096 div obj_size i"
  defines "t \<equiv> fold (link_object base i) [0..<n] s"
  shows "slabs t = (slabs s)[i := (slabs s ! i)\<lparr>sl_free_list := sl_free_list (slabs t ! i)\<rparr>]
     \<and> chain base (slab_memory t) (sl_free_list (slabs t ! i)) (rev (map (obj_addr base i) [0..<n]))
     \<and> length (slab_memory t) = 16384 \<and> slab_initialized t = slab_initialized s
     \<and> (\<forall>q. is_obj base q \<longrightarrow> unat (q - base) div 4096 \<noteq> i \<longrightarrow>
          object_next base q (slab_memory t) = object_next base q (slab_memory s))"
  using assms(6) unfolding t_def
proof (induction n)
  case 0
  have "slabs s = (slabs s)[i := (slabs s ! i)\<lparr>sl_free_list := sl_free_list (slabs s ! i)\<rparr>]"
    unfolding free_list_same by simp
  then show ?case using assms(4,5) by simp
next
  case (Suc n)
  let ?t = "fold (link_object base i) [0..<n] s" and ?x = "obj_addr base i n"
  let ?L = "rev (map (obj_addr base i) [0..<n])"
  have IH: "slabs ?t = (slabs s)[i := (slabs s ! i)\<lparr>sl_free_list := sl_free_list (slabs ?t ! i)\<rparr>]"
    "chain base (slab_memory ?t) (sl_free_list (slabs ?t ! i)) ?L" "length (slab_memory ?t) = 16384"
    "slab_initialized ?t = slab_initialized s"
    "\<forall>q. is_obj base q \<longrightarrow> unat (q - base) div 4096 \<noteq> i \<longrightarrow>
       object_next base q (slab_memory ?t) = object_next base q (slab_memory s)"
    using Suc by simp_all
  have L: "set ?L \<subseteq> set (objs base i)" "?x \<in> set (objs base i)" "?x \<notin> set ?L"
    using Suc.prems distinct_objs [OF assms(1,2)] by (auto simp: objs_def distinct_map inj_on_eq_iff)
  have obj: "is_obj base ?x" "\<forall>y \<in> set ?L. is_obj base y"
    using L obj_facts(1) [OF assms(1,2)] by auto
  have x: "base + of_nat i * 4096 + of_nat n * cache_sizes ! i = ?x"
    using assms(2) by (simp add: obj_addr_def cache_sizes_nth)
  have len: "length (slabs ?t) = 4" using arg_cong [OF IH(1), of length] assms(3) by simp
  have step: "fold (link_object base i) [0..<Suc n] s =
      ?t\<lparr>slab_memory := set_object_next base ?x (sl_free_list (slabs ?t ! i)) (slab_memory ?t),
         slabs := (slabs ?t)[i := (slabs ?t ! i)\<lparr>sl_free_list := ?x\<rparr>]\<rparr>"
    by (simp add: link_object_def Let_def x)
  have "chain base (set_object_next base ?x (sl_free_list (slabs ?t ! i)) (slab_memory ?t)) ?x (?x # ?L)"
    by (rule chain_push) (use IH obj L in auto)
  moreover have "slabs ?t ! i = (slabs s ! i)\<lparr>sl_free_list := sl_free_list (slabs ?t ! i)\<rparr>"
    using IH(1) assms(2,3) by (metis nth_list_update_eq)
  then have "(slabs ?t)[i := (slabs ?t ! i)\<lparr>sl_free_list := ?x\<rparr>] = (slabs s)[i := (slabs s ! i)\<lparr>sl_free_list := ?x\<rparr>]"
    by (subst IH(1), subst IH(1)) (metis (no_types, lifting) list_update_overwrite slab_t.update_convs(4) slab_t.surjective)
  moreover have "object_next base q (set_object_next base ?x v (slab_memory ?t)) = object_next base q (slab_memory s)"
    if "is_obj base q" "unat (q - base) div 4096 \<noteq> i" for q v
    using that IH(3,5) obj(1) obj_facts(2) [OF assms(1,2) L(2)] by (auto simp: object_next_set)
  ultimately show ?case
    unfolding step using assms(2,3) len IH(3,4) by simp
qed

lemma create_slab_ok:
  assumes "slab_base_ok base" "i < 4" "length (slabs s) = 4" "length (slab_memory s) = 16384"
  defines "t \<equiv> create_slab base i s"
  shows "cache_ok base t i (rev (objs base i))" "length (slabs t) = 4" "length (slab_memory t) = 16384"
    "slab_initialized t = slab_initialized s"
    "j < 4 \<Longrightarrow> j \<noteq> i \<Longrightarrow> cache_ok base s j L \<Longrightarrow> cache_ok base t j L"
proof -
  let ?n = "4096 div obj_size i"
  define s0 where "s0 = s\<lparr>slabs := (slabs s)[i :=
     \<lparr>sl_addr = base + of_nat i * 4096, sl_object_size = cache_sizes ! i,
      sl_free_count = 4096 div cache_sizes ! i, sl_free_list = 0, sl_next = 0\<rparr>]\<rparr>"
  have n: "unat (4096 div cache_sizes ! i) = ?n" using assms(2) by (simp add: unat_div)
  have t: "t = fold (link_object base i) [0..<?n] s0"
    unfolding t_def create_slab_def Let_def s0_def n by simp
  have s0: "length (slabs s0) = 4" "length (slab_memory s0) = 16384" "sl_free_list (slabs s0 ! i) = 0"
    using assms(2-4) by (simp_all add: s0_def)
  note lo = link_objects [OF assms(1,2) s0 order_refl, folded t]
  have cnt: "of_nat ?n = 4096 div cache_sizes ! i" using assms(2) by (auto simp: less_4_cases cache_sizes_def)
  have ti: "slabs t ! i = (slabs s0 ! i)\<lparr>sl_free_list := sl_free_list (slabs t ! i)\<rparr>"
    using lo s0(1) assms(2) by (metis nth_list_update_eq)
  have s0i: "sl_addr (slabs s0 ! i) = base + of_nat i * 4096" "sl_object_size (slabs s0 ! i) = cache_sizes ! i"
     "sl_free_count (slabs s0 ! i) = 4096 div cache_sizes ! i"
    using assms(2,3) by (simp_all add: s0_def)
  have fld: "sl_addr (slabs t ! i) = base + of_nat i * 4096" "sl_object_size (slabs t ! i) = cache_sizes ! i"
     "sl_free_count (slabs t ! i) = 4096 div cache_sizes ! i"
    by (subst ti, simp add: s0i)+
  show "cache_ok base t i (rev (objs base i))"
    unfolding cache_ok_def using lo fld distinct_objs [OF assms(1,2)] cnt length_objs [of base i]
    by (simp add: objs_def)
  show "length (slabs t) = 4" using lo s0(1) by (metis length_list_update)
  show "length (slab_memory t) = 16384" "slab_initialized t = slab_initialized s"
    using lo by (simp_all add: s0_def)
  assume j: "j < 4" "j \<noteq> i" "cache_ok base s j L"
  then have "slabs t ! j = slabs s ! j"
    using lo by (metis (no_types, lifting) nth_list_update_neq s0_def select_convs(1) surjective update_convs(1))
  moreover have "object_next base x (slab_memory t) = object_next base x (slab_memory s)" if "x \<in> set L" for x
  proof -
    have "x \<in> set (objs base j)" using j(3) that by (auto simp: cache_ok_def)
    then show ?thesis using lo obj_facts(1,2) [OF assms(1) j(1)] j(2) by (simp add: s0_def)
  qed
  ultimately show "cache_ok base t j L" using j(3) by (rule cache_ok_frame [rotated])
qed

lemma slab_init_rep:
  assumes "slab_base_ok base" "length (slabs s) = 4" "length (slab_memory s) = 16384"
  shows "slab_rep base (slab_init base s) (\<lambda>i. rev (objs base i))"
proof -
  have "length (slabs t) = 4 \<and> length (slab_memory t) = 16384 \<and> (\<forall>i < n. cache_ok base t i (rev (objs base i)))"
    if "n \<le> 4" "t = fold (create_slab base) [0..<n] s" for n t
    using that
  proof (induction n arbitrary: t)
    case 0
    then show ?case using assms by simp
  next
    case (Suc n)
    then show ?case using create_slab_ok [OF assms(1), of n "fold (create_slab base) [0..<n] s"]
      by (auto simp: less_Suc_eq)
  qed
  from this [of 4] show ?thesis
    using assms(1) by (auto simp: slab_rep_def slab_init_def cache_ok_def)
qed

subsection \<open>Allocation and release\<close>

lemma slab_rep_cacheD: "slab_rep base s F \<Longrightarrow> i < 4 \<Longrightarrow> cache_ok base s i (F i)"
  by (simp add: slab_rep_def)

text \<open>The stack an allocation of \<open>sz\<close> bytes pops.\<close>

definition abs_kmalloc :: "u32 \<Rightarrow> (nat \<Rightarrow> u32 list) \<Rightarrow> (nat \<Rightarrow> u32 list) \<times> u32" where
  "abs_kmalloc sz F =
     (if sz = 0 then (F, 0)
      else case cache_index sz of None \<Rightarrow> (F, 0)
       | Some i \<Rightarrow> (case F i of [] \<Rightarrow> (F, 0) | x # xs \<Rightarrow> (F(i := xs), x)))"

lemma free_count_pred:
  "length L \<le> 128 \<Longrightarrow> c = of_nat (length L) \<Longrightarrow> L = x # xs \<Longrightarrow> (0 :: u32) < c \<and> c - 1 = of_nat (length xs)"
  by (auto simp: word_less_nat_alt unat_of_nat unat_word_ariths)

lemma cache_length:
  assumes "slab_rep base s F" "i < 4"
  shows "length (F i) \<le> 4096 div obj_size i" "length (F i) \<le> 128"
proof -
  have ok: "cache_ok base s i (F i)" using assms by (rule slab_rep_cacheD)
  have "length (F i) = card (set (F i))" using ok by (simp add: cache_ok_def distinct_card)
  also have "\<dots> \<le> card (set (objs base i))" using ok by (intro card_mono) (auto simp: cache_ok_def)
  also have "\<dots> \<le> 4096 div obj_size i" using card_length [of "objs base i"] by (simp add: length_objs)
  finally show a: "length (F i) \<le> 4096 div obj_size i" .
  have "4096 div obj_size i \<le> 128" using assms(2) by (auto simp: less_4_cases)
  then show "length (F i) \<le> 128" using a by (rule order_trans [rotated])
qed

lemma kmalloc_rep:
  assumes "slab_rep base s F"
  shows "slab_rep base (fst (kmalloc base sz s)) (fst (abs_kmalloc sz F))
     \<and> snd (kmalloc base sz s) = snd (abs_kmalloc sz F)"
proof (cases "sz = 0 \<or> cache_index sz = None")
  case True
  then show ?thesis using assms by (auto simp: kmalloc_def abs_kmalloc_def)
next
  case False
  then obtain i where i: "cache_index sz = Some i" "sz \<noteq> 0" by auto
  then have i4: "i < 4" using cache_index_Some by blast
  have ok: "cache_ok base s i (F i)" using assms i4 by (rule slab_rep_cacheD)
  have init: "slab_initialized s" using assms by (simp add: slab_rep_def)
  show ?thesis
  proof (cases "F i")
    case Nil
    then have "sl_free_list (slabs s ! i) = 0" using ok by (simp add: cache_ok_def)
    then show ?thesis using Nil i assms by (simp add: kmalloc_def abs_kmalloc_def)
  next
    case (Cons x xs)
    define sl where "sl = slabs s ! i"
    have fl: "sl_free_list sl = x" "x \<noteq> 0" "chain base (slab_memory s) (object_next base x (slab_memory s)) xs"
      using ok Cons by (auto simp: cache_ok_def sl_def)
    have cnt: "0 < sl_free_count sl" "sl_free_count sl - 1 = of_nat (length xs)"
      using free_count_pred [OF cache_length(2) [OF assms i4] _ Cons] ok by (auto simp: cache_ok_def sl_def)
    define s' where "s' = s\<lparr>slabs := (slabs s)[i := sl\<lparr>sl_free_list := object_next base x (slab_memory s),
       sl_free_count := sl_free_count sl - 1\<rparr>]\<rparr>"
    have k: "kmalloc base sz s = (s', x)"
      using i init fl cnt by (simp add: kmalloc_def s'_def flip: sl_def)
    have "cache_ok base s' j ((F(i := xs)) j)" if j: "j < 4" for j
    proof (cases "j = i")
      case True
      then show ?thesis using ok fl cnt Cons i4 assms by (auto simp: cache_ok_def s'_def sl_def slab_rep_def)
    next
      case False
      then show ?thesis using slab_rep_cacheD [OF assms j] by (simp add: cache_ok_def s'_def)
    qed
    then have "slab_rep base s' (F(i := xs))" using assms by (simp add: slab_rep_def s'_def)
    then show ?thesis using k i Cons by (simp add: abs_kmalloc_def)
  qed
qed

lemma page_of:
  assumes "slab_rep base s F" "i < 4" "4096 * i \<le> unat (p - base)" "unat (p - base) < 4096 * (i + 1)"
  shows "scan (\<lambda>j. sl_addr (slabs s ! j) \<le> p \<and> p < sl_addr (slabs s ! j) + SLAB_PAGE_SIZE) 0 4 = Some i"
proof -
  have base: "unat base + 16384 < 2 ^ 32" using assms(1) by (simp add: slab_rep_def slab_base_ok_def)
  have p: "unat p = unat base + unat (p - base)"
  proof -
    have "unat (base + (p - base)) = unat base + unat (p - base)"
      using base assms(2,4) by (subst unat_add_lem [symmetric]) simp
    then show ?thesis by simp
  qed
  have "sl_addr (slabs s ! j) \<le> p \<and> p < sl_addr (slabs s ! j) + SLAB_PAGE_SIZE \<longleftrightarrow> j = i"
    if "j < 4" for j
  proof -
    have "sl_addr (slabs s ! j) = base + of_nat j * 4096"
      using slab_rep_cacheD [OF assms(1) that] by (simp add: cache_ok_def)
    moreover have u: "unat (base + of_nat j * 4096) = unat base + j * 4096"
      using that base by (auto simp: less_4_cases unat_word_ariths)
    moreover have "unat (base + of_nat j * 4096 + 4096) = unat base + j * 4096 + 4096"
      using that base u by (auto simp: unat_word_ariths)
    ultimately show ?thesis using p assms(3,4) by (auto simp: word_le_nat_alt word_less_nat_alt)
  qed
  then show ?thesis using assms(2) by (simp add: scan_Some_iff)
qed

lemma kfree_rep:
  assumes "slab_rep base s F" "i < 4" "p \<in> set (objs base i)" "p \<notin> set (F i)"
  shows "slab_rep base (kfree base p s) (F(i := p # F i))"
proof -
  have bok: "slab_base_ok base" and len: "length (slabs s) = 4" "length (slab_memory s) = 16384"
    and init: "slab_initialized s" using assms(1) by (simp_all add: slab_rep_def)
  note pf = obj_facts [OF bok assms(2,3)]
  have ok: "cache_ok base s i (F i)" using assms(1,2) by (rule slab_rep_cacheD)
  have isobj: "is_obj base x" if "j < 4" "x \<in> set (F j)" for j x
    using slab_rep_cacheD [OF assms(1) that(1)] that(2) obj_facts(1) [OF bok that(1)]
    by (auto simp: cache_ok_def)
  define s' where "s' = s\<lparr>slab_memory := set_object_next base p (sl_free_list (slabs s ! i)) (slab_memory s),
      slabs := (slabs s)[i := (slabs s ! i)\<lparr>sl_free_list := p, sl_free_count := sl_free_count (slabs s ! i) + 1\<rparr>]\<rparr>"
  have "kfree base p s = s'"
    using page_of [OF assms(1,2) obj_page [OF bok assms(2,3)]] init pf(1) by (simp add: kfree_def s'_def is_obj_def)
  moreover have "cache_ok base s' j ((F(i := p # F i)) j)" if j: "j < 4" for j
  proof (cases "j = i")
    case True
    have "chain base (slab_memory s') p (p # F i)"
      unfolding s'_def using ok len pf(1) isobj [OF assms(2)] assms(4)
      by (simp del: chain.simps) (rule chain_push, auto simp: cache_ok_def)
    then show ?thesis using True ok assms(2-4) len
      by (auto simp: cache_ok_def s'_def simp del: chain.simps)
  next
    case False
    have "cache_ok base s' j (F j)"
    proof (rule cache_ok_frame [OF slab_rep_cacheD [OF assms(1) j]])
      show "slabs s' ! j = slabs s ! j" using False by (simp add: s'_def)
      fix x assume x: "x \<in> set (F j)"
      then have "x \<in> set (objs base j)" using slab_rep_cacheD [OF assms(1) j] by (auto simp: cache_ok_def)
      then have "x \<noteq> p" using pf(2) obj_facts(2) [OF bok j] False by auto
      then show "object_next base x (slab_memory s') = object_next base x (slab_memory s)"
        using isobj [OF j x] pf(1) len by (auto simp: s'_def object_next_set)
    qed
    then show ?thesis using False by simp
  qed
  ultimately show ?thesis using assms(1) by (simp add: slab_rep_def s'_def)
qed

subsection \<open>Clients\<close>

text \<open>The bytes of an object, as offsets into \<^verbatim>\<open>slab_memory\<close>.\<close>

definition obj_bytes :: "u32 \<Rightarrow> nat \<times> u32 \<Rightarrow> nat set" where
  "obj_bytes base o1 = {unat (snd o1 - base) ..< unat (snd o1 - base) + obj_size (fst o1)}"

lemma mult_apart:
  fixes a b d :: nat
  assumes "a mod d = 0" "b mod d = 0" "a \<noteq> b"
  shows "a + d \<le> b \<or> b + d \<le> a"
proof -
  obtain k l where "a = d * k" "b = d * l" using assms(1,2) by (auto simp: mod_eq_0_iff_dvd elim!: dvdE)
  moreover from this have "Suc k \<le> l \<or> Suc l \<le> k" using assms(3) by auto
  then have "d * Suc k \<le> d * l \<or> d * Suc l \<le> d * k" by (meson mult_le_mono2)
  ultimately show ?thesis by auto
qed

lemma obj_bytes_disjoint:
  assumes "slab_base_ok base" "i < 4" "p \<in> set (objs base i)" "j < 4" "q \<in> set (objs base j)" "(i, p) \<noteq> (j, q)"
  shows "obj_bytes base (i, p) \<inter> obj_bytes base (j, q) = {}"
proof -
  note pf = obj_facts [OF assms(1-3)] and qf = obj_facts [OF assms(1,4,5)]
  have "unat (p - base) + obj_size i \<le> unat (q - base) \<or> unat (q - base) + obj_size j \<le> unat (p - base)"
  proof (cases "i = j")
    case True
    then have "unat (p - base) \<noteq> unat (q - base)" using assms(6) obj_offset_inj by blast
    then show ?thesis using mult_apart [OF pf(3) qf(3) [folded True]] True by simp
  next
    case False
    have "i * 4096 \<le> unat (p - base)" "j * 4096 \<le> unat (q - base)"
      using pf(2) qf(2) div_times_less_eq_dividend by blast+
    moreover have "(i + 1) * 4096 \<le> j * 4096 \<or> (j + 1) * 4096 \<le> i * 4096" using False by auto
    ultimately show ?thesis using pf(4) qf(4) by linarith
  qed
  then show ?thesis by (auto simp: obj_bytes_def)
qed

lemma slab_write_rep:
  assumes "slab_rep base s F" "i < 4" "p \<in> set (objs base i)" "p \<notin> set (F i)"
    "length m = 16384" "\<And>k. k \<notin> obj_bytes base (i, p) \<Longrightarrow> m ! k = slab_memory s ! k"
  shows "slab_rep base (s\<lparr>slab_memory := m\<rparr>) F"
proof -
  have bok: "slab_base_ok base" using assms(1) by (simp add: slab_rep_def)
  have "cache_ok base (s\<lparr>slab_memory := m\<rparr>) j (F j)" if j: "j < 4" for j
  proof (rule cache_ok_frame [OF slab_rep_cacheD [OF assms(1) j]])
    fix x assume x: "x \<in> set (F j)"
    then have xo: "x \<in> set (objs base j)" using slab_rep_cacheD [OF assms(1) j] by (auto simp: cache_ok_def)
    have "(i, p) \<noteq> (j, x)" using x assms(4) by auto
    then have d: "obj_bytes base (i, p) \<inter> obj_bytes base (j, x) = {}"
      using obj_bytes_disjoint [OF bok assms(2,3) j xo] by simp
    have "m ! (unat (x - base) + k) = slab_memory s ! (unat (x - base) + k)" if "k < 4" for k
    proof (rule assms(6))
      have "32 \<le> obj_size j" by simp
      then have "k < obj_size j" using that by linarith
      then have "unat (x - base) + k \<in> obj_bytes base (j, x)" by (simp add: obj_bytes_def)
      then show "unat (x - base) + k \<notin> obj_bytes base (i, p)" using d by blast
    qed
    from this [of 0] this [of 1] this [of 2] this [of 3]
    show "object_next base x (slab_memory (s\<lparr>slab_memory := m\<rparr>)) = object_next base x (slab_memory s)"
      by (simp add: object_next_def get32_def)
  qed simp
  then show ?thesis using assms(1,5) by (simp add: slab_rep_def)
qed

text \<open>
  A run of clients: \<open>H\<close> is the multiset of the objects handed out and not yet released, with their
  cache, so that an object handed to two clients would be in it twice. Between the calls the clients
  write what they like to the objects they hold.
\<close>

inductive slab_step :: "u32 \<Rightarrow> slab_state \<times> (nat \<times> u32) multiset \<Rightarrow> slab_state \<times> (nat \<times> u32) multiset \<Rightarrow> bool"
  for base :: u32 where
  take: "kmalloc base sz s = (s', p) \<Longrightarrow> p \<noteq> 0 \<Longrightarrow> cache_index sz = Some i \<Longrightarrow>
    slab_step base (s, H) (s', add_mset (i, p) H)"
| refused: "kmalloc base sz s = (s', 0) \<Longrightarrow> slab_step base (s, H) (s', H)"
| give_back: "(i, p) \<in># H \<Longrightarrow> slab_step base (s, H) (kfree base p s, H - {#(i, p)#})"
| use: "(i, p) \<in># H \<Longrightarrow> length m = 16384 \<Longrightarrow>
    (\<And>k. k \<notin> obj_bytes base (i, p) \<Longrightarrow> m ! k = slab_memory s ! k) \<Longrightarrow>
    slab_step base (s, H) (s\<lparr>slab_memory := m\<rparr>, H)"

text \<open>Every object is free or held by exactly one client.\<close>

definition slab_acct :: "u32 \<Rightarrow> slab_state \<times> (nat \<times> u32) multiset \<Rightarrow> (nat \<Rightarrow> u32 list) \<Rightarrow> bool" where
  "slab_acct base c F \<longleftrightarrow> slab_rep base (fst c) F
     \<and> (\<forall>i p. count (snd c) (i, p) = of_bool (i < 4 \<and> p \<in> set (objs base i) \<and> p \<notin> set (F i)))"

lemma slab_acctD:
  assumes "slab_acct base (s, H) F"
  shows "slab_rep base s F" "count H (i, p) = of_bool (i < 4 \<and> p \<in> set (objs base i) \<and> p \<notin> set (F i))"
    "(i, p) \<in># H \<longleftrightarrow> i < 4 \<and> p \<in> set (objs base i) \<and> p \<notin> set (F i)"
proof -
  show "slab_rep base s F" and c: "count H (i, p) = of_bool (i < 4 \<and> p \<in> set (objs base i) \<and> p \<notin> set (F i))"
    using assms by (simp_all add: slab_acct_def)
  show "(i, p) \<in># H \<longleftrightarrow> i < 4 \<and> p \<in> set (objs base i) \<and> p \<notin> set (F i)"
    using c unfolding count_greater_zero_iff [symmetric] by simp
qed

lemma free_nonzero: "slab_rep base s F \<Longrightarrow> i < 4 \<Longrightarrow> F i = x # xs \<Longrightarrow> x \<noteq> 0"
  using slab_rep_cacheD [of base s F i] by (auto simp: cache_ok_def)

lemma abs_kmalloc_cases:
  assumes "abs_kmalloc sz F = (F', p)"
  shows "p = 0 \<and> F' = F \<or> (\<exists>i. cache_index sz = Some i \<and> F i = p # tl (F i) \<and> F' = F(i := tl (F i)))
      \<or> p \<noteq> 0 \<and> cache_index sz = None"
  using assms by (auto simp: abs_kmalloc_def split: if_splits option.splits list.splits)

lemma slab_step_acct:
  assumes "slab_step base c c'" "slab_acct base c F"
  shows "\<exists>F'. slab_acct base c' F'"
  using assms
proof (cases rule: slab_step.cases)
  case (take sz s s' p i H)
  note d = slab_acctD [OF assms(2) [unfolded take(1)]]
  obtain F' where F': "abs_kmalloc sz F = (F', p)"
    using kmalloc_rep [OF d(1), of sz] take by (cases "abs_kmalloc sz F") simp
  then obtain xs where pop: "F i = p # xs" "F' = F(i := xs)"
    using abs_kmalloc_cases [OF F'] take by auto
  have i4: "i < 4" using take cache_index_Some by blast
  have rep: "slab_rep base s' F'" using kmalloc_rep [OF d(1), of sz] take F' by simp
  have p: "p \<in> set (objs base i)" "p \<notin> set xs"
    using slab_rep_cacheD [OF d(1) i4] pop(1) by (auto simp: cache_ok_def)
  have "count (add_mset (i, p) H) (j, q) = of_bool (j < 4 \<and> q \<in> set (objs base j) \<and> q \<notin> set (F' j))" for j q
    using d(2) [of j q] i4 pop p by (cases "(j, q) = (i, p)") (auto simp: of_bool_def)
  then show ?thesis using rep take(2) by (auto simp: slab_acct_def)
next
  case (refused sz s s' H)
  note d = slab_acctD [OF assms(2) [unfolded refused(1)]]
  obtain F' where F': "abs_kmalloc sz F = (F', 0)"
    using kmalloc_rep [OF d(1), of sz] refused by (cases "abs_kmalloc sz F") simp
  have "F' = F"
    using abs_kmalloc_cases [OF F'] cache_index_Some free_nonzero [OF d(1)] by blast
  then have "slab_rep base s' F" using kmalloc_rep [OF d(1), of sz] refused F' by simp
  then show ?thesis using assms(2) refused by (auto simp: slab_acct_def)
next
  case (give_back i p H s)
  note d = slab_acctD [OF assms(2) [unfolded give_back(1)]]
  have i4: "i < 4" and p: "p \<in> set (objs base i)" "p \<notin> set (F i)" using d(3) [of i p] give_back by auto
  have "count (H - {#(i, p)#}) (j, q) = of_bool (j < 4 \<and> q \<in> set (objs base j) \<and> q \<notin> set ((F(i := p # F i)) j))" for j q
    using d(2) [of j q] i4 p by (cases "(j, q) = (i, p)") (auto simp: of_bool_def)
  then show ?thesis using kfree_rep [OF d(1) i4 p] give_back(2) by (auto simp: slab_acct_def)
next
  case (use i p H m s)
  note d = slab_acctD [OF assms(2) [unfolded use(1)]]
  have i4: "i < 4" and p: "p \<in> set (objs base i)" "p \<notin> set (F i)" using d(3) [of i p] use by auto
  have "slab_acct base c' F"
    using slab_write_rep [OF d(1) i4 p use(4,5)] assms(2) use by (simp add: slab_acct_def)
  then show ?thesis by blast
qed

lemma slab_run_acct:
  assumes "(slab_step base)\<^sup>*\<^sup>* (slab_init base slab_boot, {#}) c" "slab_base_ok base"
  shows "\<exists>F. slab_acct base c F"
  using assms(1)
proof (induction rule: rtranclp_induct)
  case base
  have rep: "slab_rep base (slab_init base slab_boot) (\<lambda>i. rev (objs base i))"
    using assms(2) by (intro slab_init_rep) (simp_all add: slab_boot_def)
  then have "slab_acct base (slab_init base slab_boot, {#}) (\<lambda>i. rev (objs base i))" by (auto simp: slab_acct_def)
  then show ?case by blast
next
  case (step y z)
  then show ?case using slab_step_acct by blast
qed

text \<open>The answers to a sequence of requests; they depend on the free lists only.\<close>

fun kmallocs :: "u32 \<Rightarrow> u32 list \<Rightarrow> slab_state \<Rightarrow> u32 list" where
  "kmallocs base [] s = []"
| "kmallocs base (sz # szs) s = snd (kmalloc base sz s) # kmallocs base szs (fst (kmalloc base sz s))"

lemma kmallocs_rep: "slab_rep base s F \<Longrightarrow> slab_rep base s' F \<Longrightarrow> kmallocs base szs s = kmallocs base szs s'"
proof (induction szs arbitrary: s s' F)
  case (Cons sz szs)
  note k = kmalloc_rep [OF Cons.prems(1), of sz] kmalloc_rep [OF Cons.prems(2), of sz]
  then have "kmallocs base szs (fst (kmalloc base sz s)) = kmallocs base szs (fst (kmalloc base sz s'))"
    by (intro Cons.IH [of _ "fst (abs_kmalloc sz F)"]) blast+
  with k show ?case by simp
qed simp

subsection \<open>Properties\<close>

text \<open>
  initialisation builds four free lists that hold every object of their page exactly once,
  the highest first, with the right counts.
\<close>

theorem slab_init_correct:
  assumes "slab_base_ok base"
  shows "slab_rep base (slab_init base slab_boot) (\<lambda>i. rev (objs base i))"
  using assms by (intro slab_init_rep) (simp_all add: slab_boot_def)

text \<open>A base address such as the linker script gives.\<close>

lemma slab_base_example: "slab_base_ok 0x20000"
  by (simp add: slab_base_ok_def)

text \<open>The first request for 200 bytes takes the last object of the last page.\<close>

abbreviation slab_start :: slab_state where
  "slab_start \<equiv> slab_init 0x20000 slab_boot"

abbreviation start_lists :: "nat \<Rightarrow> u32 list" where
  "start_lists \<equiv> \<lambda>i. rev (objs 0x20000 i)"

lemma objs_3: "rev (objs 0x20000 3) = 0x23F00 # rev (map (obj_addr 0x20000 3) [0..<15])"
proof -
  have "[0..<16] = [0..<15] @ [15 :: nat]" by (simp add: upt_rec)
  then show ?thesis by (simp add: objs_def obj_addr_def)
qed

lemma index_256: "cache_index 200 = Some 3" "cache_index 130 = Some 3"
  by (simp_all add: cache_index_def cache_sizes_def scan.simps)

lemma slab_start_rep: "slab_rep 0x20000 slab_start start_lists"
  by (intro slab_init_rep slab_base_example) (simp_all add: slab_boot_def)

lemma abs_start: "abs_kmalloc 200 start_lists = (start_lists(3 := tl (start_lists 3)), 0x23F00)"
  unfolding abs_kmalloc_def index_256 by (simp only: option.case objs_3) simp

lemma slab_held:
  "slab_rep 0x20000 (fst (kmalloc 0x20000 200 slab_start)) (start_lists(3 := tl (start_lists 3)))"
  "0x23F00 \<in> set (objs 0x20000 3)" "0x23F00 \<notin> set ((start_lists(3 := tl (start_lists 3))) 3)"
proof -
  show "slab_rep 0x20000 (fst (kmalloc 0x20000 200 slab_start)) (start_lists(3 := tl (start_lists 3)))"
    using kmalloc_rep [OF slab_start_rep, of 200] abs_start by simp
  have "0x23F00 \<in> set (start_lists 3)" by (simp only: objs_3) simp
  then show "0x23F00 \<in> set (objs 0x20000 3)" by simp
  have "distinct (start_lists 3)" using distinct_objs [OF slab_base_example, of 3] by simp
  then show "0x23F00 \<notin> set ((start_lists(3 := tl (start_lists 3))) 3)" unfolding fun_upd_same objs_3 by simp
qed

theorem slab_init_correct_witness:
  "slab_rep 0x20000 slab_start start_lists"
  by (rule slab_init_correct [OF slab_base_example])

text \<open>
  \<^verbatim>\<open>kmalloc\<close> refines a pop: a request of 1 to 256 bytes takes the top of the stack of the
  smallest cache that fits it, and 0 or more than 256 bytes, or an empty stack, return the
  null pointer and change nothing.
\<close>

theorem kmalloc_refines:
  assumes "slab_rep base s F" "kmalloc base sz s = (s', p)" "abs_kmalloc sz F = (F', q)"
  shows "slab_rep base s' F' \<and> p = q"
  using kmalloc_rep [OF assms(1), of sz] assms(2,3) by simp

theorem kmalloc_refines_witness:
  "snd (kmalloc 0x20000 200 slab_start) = 0x23F00"
  using kmalloc_refines [OF slab_start_rep surjective_pairing abs_start] by simp

text \<open>
  \<^verbatim>\<open>kfree\<close> of an object that is in use pushes it on the stack of its cache, whatever cache
  it came from, and touches nothing else; so the next request of that size gets it back.
\<close>

theorem kfree_kmalloc_roundtrip:
  assumes "slab_rep base s F" "cache_index sz = Some i" "sz \<noteq> 0" "p \<in> set (objs base i)" "p \<notin> set (F i)"
  shows "slab_rep base (kfree base p s) (F(i := p # F i)) \<and> snd (kmalloc base sz (kfree base p s)) = p
     \<and> slab_rep base (fst (kmalloc base sz (kfree base p s))) F"
proof -
  have i: "i < 4" using assms(2) cache_index_Some by blast
  note r = kfree_rep [OF assms(1) i assms(4,5)]
  have "abs_kmalloc sz (F(i := p # F i)) = (F, p)" using assms(2,3) by (simp add: abs_kmalloc_def)
  with kmalloc_rep [OF r, of sz] r show ?thesis by simp
qed

theorem kfree_kmalloc_roundtrip_witness:
  "snd (kmalloc 0x20000 130 (kfree 0x20000 0x23F00 (fst (kmalloc 0x20000 200 slab_start)))) = 0x23F00"
  using kfree_kmalloc_roundtrip [OF slab_held(1) index_256(2) _ slab_held(2,3)] by simp

text \<open>
  C23: isolation. In every run of clients that release only what they hold and write only to
  what they hold: the objects of two clients never share a byte (no object is handed out twice,
  \<open>H\<close> being a multiset), and neither does the object the next request gets with one that is held;
  each held object lies in its page; and no write to a held object, however it garbles it, breaks
  the free lists: every sequence of further requests gets the same answers as without the write.
\<close>

theorem slab_isolation:
  assumes "slab_base_ok base" "(slab_step base)\<^sup>*\<^sup>* (slab_init base slab_boot, {#}) (s, H)"
  shows "(\<forall>i p j q. {#(i, p), (j, q)#} \<subseteq># H \<longrightarrow> obj_bytes base (i, p) \<inter> obj_bytes base (j, q) = {})
     \<and> (\<forall>sz i p j q. cache_index sz = Some i \<and> snd (kmalloc base sz s) = p \<and> p \<noteq> 0 \<and> (j, q) \<in># H \<longrightarrow>
          obj_bytes base (i, p) \<inter> obj_bytes base (j, q) = {})
     \<and> (\<forall>i p. (i, p) \<in># H \<longrightarrow> obj_bytes base (i, p) \<subseteq> {i * 4096 ..< (i + 1) * 4096})
     \<and> (\<forall>i p m szs. (i, p) \<in># H \<and> length m = 16384 \<and> (\<forall>k. k \<notin> obj_bytes base (i, p) \<longrightarrow> m ! k = slab_memory s ! k) \<longrightarrow>
          kmallocs base szs (s\<lparr>slab_memory := m\<rparr>) = kmallocs base szs s)"
proof (intro conjI allI impI)
  obtain F where "slab_acct base (s, H) F" using slab_run_acct [OF assms(2,1)] by blast
  note d = slab_acctD [OF this]
  show "obj_bytes base (i, p) \<inter> obj_bytes base (j, q) = {}" if two: "{#(i, p), (j, q)#} \<subseteq># H" for i p j q
  proof -
    have "(i, p) \<in># H" "(j, q) \<in># H" using mset_subset_eqD [OF two] by simp_all
    moreover have "(i, p) \<noteq> (j, q)"
    proof
      assume "(i, p) = (j, q)"
      then have "2 \<le> count H (i, p)" using mset_subset_eq_count [OF two, of "(i, p)"] by simp
      then show False using d(2) [of i p] by (simp add: of_bool_def split: if_splits)
    qed
    ultimately show ?thesis using obj_bytes_disjoint [OF assms(1)] d(3) by blast
  qed
  show "obj_bytes base (i, p) \<inter> obj_bytes base (j, q) = {}"
    if new: "cache_index sz = Some i \<and> snd (kmalloc base sz s) = p \<and> p \<noteq> 0 \<and> (j, q) \<in># H" for sz i p j q
  proof -
    have "snd (abs_kmalloc sz F) = p" using kmalloc_rep [OF d(1), of sz] new by simp
    then obtain F' where "abs_kmalloc sz F = (F', p)" by (cases "abs_kmalloc sz F") simp
    then have "p \<in> set (F i)" using abs_kmalloc_cases [of sz F F' p] new by (metis list.set_intros(1) option.distinct(1) option.inject)
    moreover have i4: "i < 4" using new cache_index_Some by blast
    ultimately have "p \<in> set (objs base i)" "(i, p) \<noteq> (j, q)"
      using slab_rep_cacheD [OF d(1) i4] d(3) [of j q] new by (auto simp: cache_ok_def)
    then show ?thesis using obj_bytes_disjoint [OF assms(1) i4] d(3) [of j q] new by blast
  qed
  show "obj_bytes base (i, p) \<subseteq> {i * 4096 ..< (i + 1) * 4096}" if "(i, p) \<in># H" for i p
  proof -
    have o: "i < 4" "p \<in> set (objs base i)" using d(3) [of i p] that by auto
    note pf = obj_facts [OF assms(1) o]
    have "i * 4096 \<le> unat (p - base)" using pf(2) div_times_less_eq_dividend by blast
    then show ?thesis using pf(4) by (auto simp: obj_bytes_def)
  qed
  show "kmallocs base szs (s\<lparr>slab_memory := m\<rparr>) = kmallocs base szs s"
    if w: "(i, p) \<in># H \<and> length m = 16384 \<and> (\<forall>k. k \<notin> obj_bytes base (i, p) \<longrightarrow> m ! k = slab_memory s ! k)" for i p m szs
  proof -
    have o: "i < 4" "p \<in> set (objs base i)" "p \<notin> set (F i)" using d(3) [of i p] w by auto
    have "slab_rep base (s\<lparr>slab_memory := m\<rparr>) F" by (rule slab_write_rep [OF d(1) o]) (use w in auto)
    then show ?thesis using kmallocs_rep d(1) by blast
  qed
qed

text \<open>
  C40: no leak and no early refusal. After any such run a request of \<open>sz\<close> bytes is refused
  exactly when the size is 0 or above 256 or every object of its cache is in use.
\<close>

theorem slab_no_leak:
  assumes "slab_base_ok base" "(slab_step base)\<^sup>*\<^sup>* (slab_init base slab_boot, {#}) (s, H)"
  shows "snd (kmalloc base sz s) = 0 \<longleftrightarrow>
     sz = 0 \<or> 256 < sz \<or> (\<exists>i. cache_index sz = Some i \<and> card {p. (i, p) \<in># H} = 4096 div obj_size i)"
proof -
  obtain F where F: "slab_acct base (s, H) F" using slab_run_acct [OF assms(2,1)] by blast
  note d = slab_acctD [OF F] and rep = slab_acctD(1) [OF F]
  have held: "F i = [] \<longleftrightarrow> card {p. (i, p) \<in># H} = 4096 div obj_size i" if i: "i < 4" for i
  proof -
    have eq: "{p. (i, p) \<in># H} = set (objs base i) - set (F i)" using d(3) i by auto
    have ok: "cache_ok base s i (F i)" using rep i by (rule slab_rep_cacheD)
    have "card {p. (i, p) \<in># H} = card (set (objs base i)) - card (set (F i))"
      unfolding eq using ok by (intro card_Diff_subset) (auto simp: cache_ok_def)
    also have "\<dots> = 4096 div obj_size i - length (F i)"
      using ok distinct_objs [OF assms(1) i] by (simp add: distinct_card length_objs cache_ok_def)
    finally have c: "card {p. (i, p) \<in># H} = 4096 div obj_size i - length (F i)" .
    have "0 < 4096 div obj_size i" using i by (auto simp: less_4_cases)
    then have "4096 div obj_size i - length (F i) = 4096 div obj_size i \<longleftrightarrow> length (F i) = 0"
      using cache_length(1) [OF rep i] by linarith
    then show ?thesis unfolding c by simp
  qed
  have "snd (kmalloc base sz s) = snd (abs_kmalloc sz F)" using kmalloc_rep [OF rep] by blast
  also have "\<dots> = 0 \<longleftrightarrow> sz = 0 \<or> cache_index sz = None \<or> (\<exists>i. cache_index sz = Some i \<and> F i = [])"
  proof (cases "cache_index sz")
    case None
    then show ?thesis by (simp add: abs_kmalloc_def)
  next
    case (Some i)
    then show ?thesis using free_nonzero [OF rep, of i] cache_index_Some [OF Some]
      by (cases "F i") (auto simp: abs_kmalloc_def)
  qed
  also have "\<dots> \<longleftrightarrow> sz = 0 \<or> 256 < sz \<or> (\<exists>i. cache_index sz = Some i \<and> card {p. (i, p) \<in># H} = 4096 div obj_size i)"
    using held cache_index_Some cache_index_None by blast
  finally show ?thesis .
qed

lemma slab_example_answers:
  "snd (kmalloc 0x20000 200 slab_start) = 0x23F00" "snd (kmalloc 0x20000 130 (fst (kmalloc 0x20000 200 slab_start))) = 0x23E00"
proof -
  let ?F1 = "start_lists(3 := tl (start_lists 3))" and ?s1 = "fst (kmalloc 0x20000 200 slab_start)"
  show "snd (kmalloc 0x20000 200 slab_start) = 0x23F00" using kmalloc_rep [OF slab_start_rep, of 200] abs_start by simp
  have "rev (map (obj_addr 0x20000 3) [0..<15]) = 0x23E00 # rev (map (obj_addr 0x20000 3) [0..<14])"
  proof -
    have "[0..<15] = [0..<14] @ [14 :: nat]" by (simp add: upt_rec)
    then show ?thesis by (simp add: obj_addr_def)
  qed
  then have "snd (abs_kmalloc 130 ?F1) = 0x23E00"
    unfolding abs_kmalloc_def index_256 by (simp only: option.case objs_3 fun_upd_same list.sel) simp
  then show "snd (kmalloc 0x20000 130 ?s1) = 0x23E00" using kmalloc_rep [OF slab_held(1), of 130] by simp
qed

lemma slab_example_run:
  "(slab_step 0x20000)\<^sup>*\<^sup>* (slab_start, {#})
     (fst (kmalloc 0x20000 130 (fst (kmalloc 0x20000 200 slab_start))), {#(3, 0x23F00), (3, 0x23E00)#})"
proof -
  let ?s1 = "fst (kmalloc 0x20000 200 slab_start)"
  have k1: "kmalloc 0x20000 200 slab_start = (?s1, 0x23F00)" and k2: "kmalloc 0x20000 130 ?s1 = (fst (kmalloc 0x20000 130 ?s1), 0x23E00)"
    using slab_example_answers by (simp_all add: prod_eq_iff)
  have "slab_step 0x20000 (slab_start, {#}) (?s1, {#(3, 0x23F00)#})"
    using take [OF k1 _ index_256(1)] by simp
  moreover have "slab_step 0x20000 (?s1, {#(3, 0x23F00)#}) (fst (kmalloc 0x20000 130 ?s1), {#(3, 0x23E00), (3, 0x23F00)#})"
    using take [OF k2 _ index_256(2)] by simp
  ultimately show ?thesis by (simp add: add_mset_commute)
qed

theorem slab_isolation_witness:
  "obj_bytes 0x20000 (3, snd (kmalloc 0x20000 200 slab_start))
     \<inter> obj_bytes 0x20000 (3, snd (kmalloc 0x20000 130 (fst (kmalloc 0x20000 200 slab_start)))) = {}
   \<and> kmallocs 0x20000 [200, 20] ((fst (kmalloc 0x20000 130 (fst (kmalloc 0x20000 200 slab_start))))\<lparr>slab_memory :=
       (slab_memory (fst (kmalloc 0x20000 130 (fst (kmalloc 0x20000 200 slab_start)))))[0x3F00 := 7]\<rparr>)
     = kmallocs 0x20000 [200, 20] (fst (kmalloc 0x20000 130 (fst (kmalloc 0x20000 200 slab_start))))"
proof -
  let ?s = "fst (kmalloc 0x20000 130 (fst (kmalloc 0x20000 200 slab_start)))"
  let ?m = "(slab_memory ?s)[0x3F00 := 7]"
  obtain F where "slab_acct 0x20000 (?s, {#(3, 0x23F00), (3, 0x23E00)#}) F"
    using slab_run_acct [OF slab_example_run slab_base_example] by blast
  then have len: "length ?m = 16384" using slab_acctD(1) by (simp add: slab_rep_def)
  have "0x3F00 \<in> obj_bytes 0x20000 (3, 0x23F00)" by (simp add: obj_bytes_def)
  then have k: "\<forall>k. k \<notin> obj_bytes 0x20000 (3, 0x23F00) \<longrightarrow> ?m ! k = slab_memory ?s ! k" by (metis nth_list_update_neq)
  have a: "snd (kmalloc 0x20000 200 slab_start) = 0x23F00" "snd (kmalloc 0x20000 130 (fst (kmalloc 0x20000 200 slab_start))) = 0x23E00"
    by (rule slab_example_answers)+
  note iso = slab_isolation [OF slab_base_example slab_example_run]
  have "obj_bytes 0x20000 (3, 0x23F00) \<inter> obj_bytes 0x20000 (3, 0x23E00) = {}" using iso by (metis subset_mset.order_refl)
  moreover have "kmallocs 0x20000 [200, 20] (?s\<lparr>slab_memory := ?m\<rparr>) = kmallocs 0x20000 [200, 20] ?s"
    using iso len k by (metis union_single_eq_member add_mset_add_single)
  ultimately show ?thesis unfolding a by blast
qed

theorem slab_no_leak_witness:
  "snd (kmalloc 0x20000 200 (fst (kmalloc 0x20000 130 (fst (kmalloc 0x20000 200 slab_start))))) \<noteq> 0"
proof -
  have "{p. (3 :: nat, p) \<in># {#(3, 0x23F00), (3, 0x23E00 :: u32)#}} = {0x23F00, 0x23E00}" by auto
  then have "card {p. (3 :: nat, p) \<in># {#(3, 0x23F00), (3, 0x23E00 :: u32)#}} = 2" by simp
  then show ?thesis
    using slab_no_leak [OF slab_base_example slab_example_run, of 200] index_256(1) by simp
qed

text \<open>
  there is no protection against a double free. An object released twice becomes its own
  successor, so every later request of that size is answered with the same address: two
  clients are handed the same object.
\<close>

theorem kfree_twice_aliases:
  assumes "slab_rep base s F" "cache_index sz = Some i" "sz \<noteq> 0" "p \<in> set (objs base i)" "p \<notin> set (F i)"
  shows "snd (kmalloc base sz (fst (kmalloc base sz (kfree base p (kfree base p s))))) = p
     \<and> snd (kmalloc base sz (kfree base p (kfree base p s))) = p"
proof -
  have i: "i < 4" using assms(2) cache_index_Some by blast
  define s1 where "s1 = kfree base p s"
  have r: "slab_rep base s1 (F(i := p # F i))" unfolding s1_def using kfree_rep [OF assms(1) i assms(4,5)] .
  then have bok: "slab_base_ok base" and len: "length (slabs s1) = 4" "length (slab_memory s1) = 16384"
    and init: "slab_initialized s1" by (simp_all add: slab_rep_def)
  note pf = obj_facts [OF bok i assms(4)]
  have top: "sl_free_list (slabs s1 ! i) = p" "p \<noteq> 0"
    using slab_rep_cacheD [OF r i] by (simp_all add: cache_ok_def)
  have k: "kfree base p s1 = s1\<lparr>slab_memory := set_object_next base p p (slab_memory s1),
      slabs := (slabs s1)[i := (slabs s1 ! i)\<lparr>sl_free_list := p, sl_free_count := sl_free_count (slabs s1 ! i) + 1\<rparr>]\<rparr>"
    using page_of [OF r i obj_page [OF bok i assms(4)]] init top by (simp add: kfree_def)
  have loop: "object_next base p (set_object_next base p p (slab_memory s1)) = p"
    using object_next_set [OF pf(1) pf(1) len(2)] by simp
  have step: "snd (kmalloc base sz t) = p \<and> sl_free_list (slabs (fst (kmalloc base sz t)) ! i) = p
      \<and> slab_memory (fst (kmalloc base sz t)) = slab_memory t \<and> slab_initialized (fst (kmalloc base sz t))
      \<and> length (slabs (fst (kmalloc base sz t))) = 4"
    if "slab_initialized t" "sl_free_list (slabs t ! i) = p" "length (slabs t) = 4"
      "object_next base p (slab_memory t) = p" for t
    using that assms(2,3) top(2) i by (simp add: kmalloc_def Let_def)
  let ?t = "kfree base p s1"
  have t: "slab_initialized ?t" "sl_free_list (slabs ?t ! i) = p" "length (slabs ?t) = 4"
      "object_next base p (slab_memory ?t) = p"
    using init i len loop by (simp_all add: k)
  have "snd (kmalloc base sz (fst (kmalloc base sz ?t))) = p"
    using step [OF t] t(4) step [of "fst (kmalloc base sz ?t)"] by simp
  then show ?thesis using step [OF t] unfolding s1_def by simp
qed

theorem kfree_twice_aliases_witness:
  "\<exists>s. snd (kmalloc 0x20000 200 (fst (kmalloc 0x20000 200 (kfree 0x20000 0x23F00 (kfree 0x20000 0x23F00 s))))) = 0x23F00
     \<and> s = fst (kmalloc 0x20000 200 slab_start)"
  using kfree_twice_aliases [OF slab_held(1) index_256(1) _ slab_held(2,3)] by simp

lemma kmalloc_pop:
  assumes "slab_rep base s F" "cache_index sz = Some i" "sz \<noteq> 0" "F i = x # xs"
  shows "slab_rep base (fst (kmalloc base sz s)) (F(i := xs))" "snd (kmalloc base sz s) = x"
  using kmalloc_rep [OF assms(1), of sz] assms(2-4) by (simp_all add: abs_kmalloc_def)

lemma kfree_push:
  assumes "slab_rep base s (F(i := xs))" "slab_rep base s0 F0" "F0 i = x # xs" "i < 4"
  shows "slab_rep base (kfree base x s) (F(i := x # xs))"
proof -
  have "x \<in> set (objs base i)" "x \<notin> set xs"
    using slab_rep_cacheD [OF assms(2,4)] assms(3) by (auto simp: cache_ok_def)
  then show ?thesis using kfree_rep [OF assms(1,4), of x] by simp
qed

text \<open>
  the shell's slab test passes whenever each cache has a free object, and leaves every
  free list as it found it.
\<close>

theorem slabtest_passes:
  assumes "slab_rep base s F" "\<forall>i < 4. F i \<noteq> []"
  shows "snd (cmd_slabtest base s) = [True, True, True, True, True]
     \<and> slab_rep base (fst (cmd_slabtest base s)) F"
proof -
  have ix: "cache_index 20 = Some 0" "cache_index 50 = Some 1" "cache_index 100 = Some 2" "cache_index 200 = Some 3"
    by (simp_all add: cache_index_def cache_sizes_def scan.simps)
  have "\<exists>x xs. F i = x # xs \<and> x \<noteq> 0" if "i < 4" for i
    using assms that free_nonzero [OF assms(1) that] by (cases "F i") auto
  then obtain a as b bs c cs d ds where F: "F 0 = a # as" "F 1 = b # bs" "F 2 = c # cs" "F 3 = d # ds"
      and nz: "a \<noteq> 0" "b \<noteq> 0" "c \<noteq> 0" "d \<noteq> 0"
    by (metis (no_types) less_4_cases)
  define s1 where "s1 = fst (kmalloc base 20 s)"
  define s2 where "s2 = fst (kmalloc base 50 s1)"
  define s3 where "s3 = fst (kmalloc base 100 s2)"
  define s4 where "s4 = fst (kmalloc base 200 s3)"
  have r1: "slab_rep base s1 (F(0 := as))" and k1: "kmalloc base 20 s = (s1, a)"
    using kmalloc_pop [OF assms(1) ix(1) _ F(1)] by (simp_all add: s1_def prod_eq_iff)
  have r2: "slab_rep base s2 (F(0 := as, 1 := bs))" and k2: "kmalloc base 50 s1 = (s2, b)"
    using kmalloc_pop [OF r1 ix(2)] F by (simp_all add: s2_def prod_eq_iff)
  have r3: "slab_rep base s3 (F(0 := as, 1 := bs, 2 := cs))" and k3: "kmalloc base 100 s2 = (s3, c)"
    using kmalloc_pop [OF r2 ix(3)] F by (simp_all add: s3_def prod_eq_iff)
  have r4: "slab_rep base s4 (F(0 := as, 1 := bs, 2 := cs, 3 := ds))" and k4: "kmalloc base 200 s3 = (s4, d)"
    using kmalloc_pop [OF r3 ix(4)] F by (simp_all add: s4_def prod_eq_iff)
  note push = kfree_push [OF _ assms(1)]
  have f1: "slab_rep base (kfree base a s4) (F(1 := bs, 2 := cs, 3 := ds))"
    using push [of s4 "F(1 := bs, 2 := cs, 3 := ds)" 0 as a] r4 F by (simp add: fun_upd_twist fun_upd_idem)
  have f2: "slab_rep base (kfree base b (kfree base a s4)) (F(2 := cs, 3 := ds))"
    using push [of _ "F(2 := cs, 3 := ds)" 1 bs b] f1 F by (simp add: fun_upd_twist fun_upd_idem)
  have f3: "slab_rep base (kfree base c (kfree base b (kfree base a s4))) (F(3 := ds))"
    using push [of _ "F(3 := ds)" 2 cs c] f2 F by (simp add: fun_upd_twist fun_upd_idem)
  define s5 where "s5 = kfree base d (kfree base c (kfree base b (kfree base a s4)))"
  have r5: "slab_rep base s5 F" unfolding s5_def using push [of _ F 3 ds d] f3 F by (simp add: fun_upd_idem)
  define s6 where "s6 = fst (kmalloc base 20 s5)"
  have r6: "slab_rep base s6 (F(0 := as))" and k6: "kmalloc base 20 s5 = (s6, a)"
    using kmalloc_pop [OF r5 ix(1) _ F(1)] by (simp_all add: s6_def prod_eq_iff)
  have "slab_rep base (kfree base a s6) F" using push [of _ F 0 as a] r6 F by (simp add: fun_upd_idem)
  then show ?thesis using nz by (simp add: cmd_slabtest_def k1 k2 k3 k4 k6 s5_def [symmetric])
qed

theorem slabtest_passes_witness:
  "snd (cmd_slabtest 0x20000 slab_start) = [True, True, True, True, True]"
proof -
  have "\<forall>i < 4. start_lists i \<noteq> []" by (auto simp: objs_def less_4_cases)
  then show ?thesis using slabtest_passes [OF slab_start_rep] by blast
qed

end
