(* ===== verification/Process.thy ===== *)
theory Process
  imports Pmm
begin

text \<open>
  Process management, \<^verbatim>\<open>kernel/process.c\<close> and \<^verbatim>\<open>kernel/thread.c\<close>: the table of 16 process
  control blocks, creation of processes and threads with a stack frame from the physical
  memory manager and an initial interrupt context, exit, and the accessors. A pointer to a PCB
  is its index in the table, a function pointer its address (0 the null pointer), and memory
  is a function from addresses to bytes. The invariant \<open>kernel_inv\<close> says that the stacks of
  the processes are distinct allocated frames.
\<close>

unbundle bit_operations_syntax

subsection \<open>Words in memory\<close>

type_synonym memory = "u32 \<Rightarrow> u8"

definition load32 :: "memory \<Rightarrow> u32 \<Rightarrow> u32" where
  "load32 m a = ucast (m a) OR push_bit 8 (ucast (m (a + 1)))
     OR push_bit 16 (ucast (m (a + 2))) OR push_bit 24 (ucast (m (a + 3)))"

definition store32 :: "u32 \<Rightarrow> u32 \<Rightarrow> memory \<Rightarrow> memory" where
  "store32 a v m = m(a := ucast v, a + 1 := ucast (drop_bit 8 v),
     a + 2 := ucast (drop_bit 16 v), a + 3 := ucast (drop_bit 24 v))"

subsection \<open>State\<close>

abbreviation MAX_PROCESSES :: nat where "MAX_PROCESSES \<equiv> 16"
abbreviation STACK_SIZE :: u32 where "STACK_SIZE \<equiv> 4096"
abbreviation PROCESS_NAME_LEN :: nat where "PROCESS_NAME_LEN \<equiv> 16"
abbreviation NUL :: char where "NUL \<equiv> CHR 0x00"

datatype proc_state = PROC_READY | PROC_RUNNING | PROC_BLOCKED | PROC_TERMINATED

record pcb =
  p_pid :: u32
  p_state :: proc_state
  p_esp :: u32
  p_eip :: u32
  p_stack_base :: u32
  p_stack_top :: u32
  p_wake_tick :: u32
  p_priority :: u8
  p_base_priority :: u8
  p_quantum_ticks :: u8
  p_ticks_used :: u8
  p_has_stack :: bool
  p_is_thread :: bool
  p_tid :: u32
  p_parent :: "nat option"
  p_thread_entry :: u32
  p_thread_arg :: u32
  p_owned_mutex_list :: "nat option list"
  p_owned_mutexes :: nat
  p_waiting_mutex :: "nat option"
  p_rw_read_locks :: u8
  p_entry :: u32
  p_name :: "char list"

text \<open>The statics of \<^verbatim>\<open>process.c\<close>, with the memory manager and the memory they use.\<close>

record proc =
  pcbs :: "pcb list"
  next_pid :: u32
  next_tid :: u32
  process_total :: u32
  current :: "nat option"
  pmm_of :: pmm_state
  mem :: memory

definition upd_pcb :: "nat \<Rightarrow> (pcb \<Rightarrow> pcb) \<Rightarrow> 'a proc_scheme \<Rightarrow> 'a proc_scheme" where
  "upd_pcb i f k = k\<lparr>pcbs := (pcbs k)[i := f (pcbs k ! i)]\<rparr>"

subsection \<open>Names\<close>

text \<open>The string an array of characters holds.\<close>

definition c_string :: "char list \<Rightarrow> string" where
  "c_string a = takeWhile (\<lambda>c. c \<noteq> NUL) a"

function k_name_loop :: "nat \<Rightarrow> string \<Rightarrow> char list \<Rightarrow> char list" where
  "k_name_loop i src dst =
     (if i < length src \<and> src ! i \<noteq> NUL \<and> i < PROCESS_NAME_LEN - 1
      then k_name_loop (Suc i) src (dst[i := src ! i]) else dst[i := NUL])"
  by pat_completeness auto
termination
  by (relation "measure (\<lambda>(i, src, dst). length src - i)") auto

declare k_name_loop.simps [simp del]

definition k_name :: "string option \<Rightarrow> char list \<Rightarrow> char list" where
  "k_name src dst = k_name_loop 0 (case src of None \<Rightarrow> ''process'' | Some s \<Rightarrow> s) dst"

subsection \<open>The initial context\<close>

text \<open>
  The words of an interrupt frame and a PUSHAD image, pushed in this order; \<open>boot\<close> is the
  address of \<^verbatim>\<open>process_bootstrap\<close>.
\<close>

definition push32 :: "u32 \<Rightarrow> u32 \<times> memory \<Rightarrow> u32 \<times> memory" where
  "push32 v sm = (fst sm - 4, store32 (fst sm - 4) v (snd sm))"

definition build_initial_context :: "u32 \<Rightarrow> nat \<Rightarrow> 'a proc_scheme \<Rightarrow> 'a proc_scheme" where
  "build_initial_context boot i k =
     (let (sp, m) = fold push32 [0x202, 8, boot, 0, 0, 0, 0, 0, 0, 0, 0] (p_stack_top (pcbs k ! i), mem k)
      in upd_pcb i (\<lambda>p. p\<lparr>p_esp := sp, p_eip := boot\<rparr>) (k\<lparr>mem := m\<rparr>))"

subsection \<open>Operations\<close>

definition empty_pcb :: "pcb \<Rightarrow> pcb" where
  "empty_pcb p = p\<lparr>p_pid := 0, p_state := PROC_TERMINATED, p_esp := 0, p_eip := 0, p_stack_base := 0,
     p_stack_top := 0, p_wake_tick := 0, p_priority := 0, p_base_priority := 0, p_quantum_ticks := 0,
     p_ticks_used := 0, p_has_stack := False, p_is_thread := False, p_tid := 0, p_parent := None,
     p_thread_entry := 0, p_thread_arg := 0, p_owned_mutexes := 0, p_waiting_mutex := None,
     p_rw_read_locks := 0, p_entry := 0, p_name := (p_name p)[0 := NUL]\<rparr>"

definition process_init :: "'a proc_scheme \<Rightarrow> 'a proc_scheme" where
  "process_init k =
     (let k1 = k\<lparr>pcbs := map empty_pcb (pcbs k)\<rparr>;
          k2 = upd_pcb 0 (\<lambda>p. p\<lparr>p_pid := 0, p_state := PROC_RUNNING, p_priority := 0, p_base_priority := 0,
                 p_quantum_ticks := 4, p_is_thread := False, p_tid := 0, p_parent := None, p_entry := 0,
                 p_name := k_name (Some ''shell'') (p_name p)\<rparr>) k1
      in k2\<lparr>current := Some 0, process_total := 1, next_pid := 1, next_tid := 1\<rparr>)"

text \<open>The search for a free slot, shared by creation and fork.\<close>

definition free_slot :: "pcb list \<Rightarrow> nat option" where
  "free_slot ps = scan (\<lambda>i. p_state (ps ! i) = PROC_TERMINATED \<and> \<not> p_has_stack (ps ! i)) 1 MAX_PROCESSES"

text \<open>
  The tail of both creation functions: take a frame for the stack, and give up when there is
  none; otherwise name the process, build its context and count it.
\<close>

definition finish_create :: "u32 \<Rightarrow> nat \<Rightarrow> string option \<Rightarrow> 'a proc_scheme \<Rightarrow> 'a proc_scheme \<times> nat option" where
  "finish_create boot i name k =
     (let (pm, sb) = pmm_alloc_frame (pmm_of k);
          k1 = upd_pcb i (\<lambda>p. p\<lparr>p_stack_base := sb\<rparr>) (k\<lparr>pmm_of := pm\<rparr>)
      in if sb = 0 then (k1, None)
         else
           let k2 = upd_pcb i (\<lambda>p. p\<lparr>p_stack_top := sb + STACK_SIZE, p_has_stack := True,
                      p_name := k_name name (p_name p)\<rparr>) k1;
               k3 = build_initial_context boot i k2
           in (k3\<lparr>process_total := process_total k3 + 1\<rparr>, Some i))"

text \<open>The fields a new process and a new thread start with.\<close>

definition init_process_pcb :: "u32 \<Rightarrow> u32 \<Rightarrow> pcb \<Rightarrow> pcb" where
  "init_process_pcb pid entry p = p\<lparr>p_pid := pid, p_state := PROC_READY, p_priority := 0,
     p_base_priority := 0, p_quantum_ticks := 4, p_ticks_used := 0, p_wake_tick := 0,
     p_entry := entry, p_is_thread := False, p_tid := 0, p_parent := None,
     p_thread_entry := 0, p_thread_arg := 0, p_owned_mutexes := 0,
     p_waiting_mutex := None, p_rw_read_locks := 0\<rparr>"

definition init_thread_pcb :: "u32 \<Rightarrow> u32 \<Rightarrow> nat \<Rightarrow> pcb \<Rightarrow> u32 \<Rightarrow> u32 \<Rightarrow> pcb \<Rightarrow> pcb" where
  "init_thread_pcb pid tid par par_pcb entry arg p = p\<lparr>p_pid := pid, p_tid := tid, p_state := PROC_READY,
     p_priority := p_priority par_pcb, p_base_priority := p_base_priority par_pcb,
     p_quantum_ticks := 4, p_ticks_used := 0, p_wake_tick := 0, p_entry := 0,
     p_is_thread := True, p_parent := Some par, p_thread_entry := entry,
     p_thread_arg := arg, p_owned_mutexes := 0, p_waiting_mutex := None,
     p_rw_read_locks := 0\<rparr>"

definition process_create_named :: "u32 \<Rightarrow> u32 \<Rightarrow> string option \<Rightarrow> 'a proc_scheme \<Rightarrow> 'a proc_scheme \<times> nat option" where
  "process_create_named boot entry name k =
     (if entry = 0 then (k, None)
      else case free_slot (pcbs k) of
          None \<Rightarrow> (k, None)
        | Some i \<Rightarrow>
            finish_create boot i name
              (upd_pcb i (init_process_pcb (next_pid k) entry)
               (k\<lparr>next_pid := next_pid k + 1\<rparr>)))"

definition thread_create_named ::
    "u32 \<Rightarrow> u32 \<Rightarrow> u32 \<Rightarrow> string option \<Rightarrow> 'a proc_scheme \<Rightarrow> 'a proc_scheme \<times> nat option" where
  "thread_create_named boot entry arg name k =
     (case current k of
        None \<Rightarrow> (k, None)
      | Some par \<Rightarrow>
          if entry = 0 then (k, None)
          else case free_slot (pcbs k) of
              None \<Rightarrow> (k, None)
            | Some i \<Rightarrow>
                finish_create boot i (case name of None \<Rightarrow> Some ''thread'' | Some s \<Rightarrow> Some s)
                  (upd_pcb i (init_thread_pcb (next_pid k) (next_tid k) par (pcbs k ! par) entry arg)
                   (k\<lparr>next_pid := next_pid k + 1, next_tid := next_tid k + 1\<rparr>)))"

definition thread_create :: "u32 \<Rightarrow> u32 \<Rightarrow> u32 \<Rightarrow> 'a proc_scheme \<Rightarrow> 'a proc_scheme \<times> nat option" where
  "thread_create boot entry arg k = thread_create_named boot entry arg (Some ''thread'') k"

definition create_process :: "u32 \<Rightarrow> u32 \<Rightarrow> 'a proc_scheme \<Rightarrow> 'a proc_scheme \<times> nat option" where
  "create_process boot entry k = process_create_named boot entry (Some ''process'') k"

definition process_increment_count :: "'a proc_scheme \<Rightarrow> 'a proc_scheme" where
  "process_increment_count k =
     (if process_total k < 16 then k\<lparr>process_total := process_total k + 1\<rparr> else k)"

definition process_decrement_count :: "'a proc_scheme \<Rightarrow> 'a proc_scheme" where
  "process_decrement_count k =
     (if process_total k \<noteq> 0 then k\<lparr>process_total := process_total k - 1\<rparr> else k)"

definition process_allocate_pid :: "'a proc_scheme \<Rightarrow> 'a proc_scheme \<times> u32" where
  "process_allocate_pid k = (k\<lparr>next_pid := next_pid k + 1\<rparr>, next_pid k)"

definition process_exit :: "'a proc_scheme \<Rightarrow> 'a proc_scheme" where
  "process_exit k =
     (case current k of
        None \<Rightarrow> k
      | Some i \<Rightarrow>
          if p_pid (pcbs k ! i) = 0 then k
          else
            let k1 = upd_pcb i (\<lambda>p. p\<lparr>p_state := PROC_TERMINATED, p_entry := 0, p_thread_entry := 0,
                       p_thread_arg := 0, p_waiting_mutex := None\<rparr>) k;
                k2 = (if p_has_stack (pcbs k ! i)
                      then k1\<lparr>pmm_of := pmm_free_frame (p_stack_base (pcbs k ! i)) (pmm_of k1)\<rparr> else k1);
                k3 = upd_pcb i (\<lambda>p. p\<lparr>p_stack_base := 0, p_stack_top := 0, p_esp := 0, p_eip := 0,
                       p_has_stack := False\<rparr>) k2
            in process_decrement_count k3)"

text \<open>What a new process runs: which function with which argument, or straight to the exit.\<close>

datatype boot_call = Call_thread u32 u32 | Call_process u32 | Call_exit

definition process_bootstrap :: "'a proc_scheme \<Rightarrow> boot_call" where
  "process_bootstrap k =
     (case current k of
        None \<Rightarrow> Call_exit
      | Some i \<Rightarrow>
          if p_is_thread (pcbs k ! i) \<and> p_thread_entry (pcbs k ! i) \<noteq> 0
          then Call_thread (p_thread_entry (pcbs k ! i)) (p_thread_arg (pcbs k ! i))
          else if p_entry (pcbs k ! i) \<noteq> 0 then Call_process (p_entry (pcbs k ! i)) else Call_exit)"

definition process_get :: "u32 \<Rightarrow> 'a proc_scheme \<Rightarrow> nat option" where
  "process_get pid k =
     scan (\<lambda>i. p_pid (pcbs k ! i) = pid \<and> p_state (pcbs k ! i) \<noteq> PROC_TERMINATED) 0 MAX_PROCESSES"

definition process_set_current :: "nat \<Rightarrow> 'a proc_scheme \<Rightarrow> 'a proc_scheme" where
  "process_set_current i k = k\<lparr>current := Some i\<rparr>"

fun process_state_name :: "proc_state \<Rightarrow> string" where
  "process_state_name PROC_READY = ''READY''"
| "process_state_name PROC_RUNNING = ''RUNNING''"
| "process_state_name PROC_BLOCKED = ''BLOCKED''"
| "process_state_name PROC_TERMINATED = ''TERMINATED''"

subsection \<open>Words in memory, lemmas\<close>

lemma load32_store32_same: "load32 (store32 a v m) a = v"
proof -
  have "(a :: u32) + 1 \<noteq> a" "a + 2 \<noteq> a" "a + 3 \<noteq> a" "a + 2 \<noteq> a + 1" "a + 3 \<noteq> a + 1" "a + 3 \<noteq> a + 2" by simp_all
  then show ?thesis by (simp add: load32_def store32_def u32_of_bytes)
qed

lemma store32_other: "b \<noteq> a \<Longrightarrow> b \<noteq> a + 1 \<Longrightarrow> b \<noteq> a + 2 \<Longrightarrow> b \<noteq> a + 3 \<Longrightarrow> store32 a v m b = m b"
  by (simp add: store32_def)

text \<open>The addresses of the \<open>n\<close> bytes below \<open>tp\<close>.\<close>

definition below :: "u32 \<Rightarrow> nat \<Rightarrow> u32 set" where
  "below tp n = {a. 0 < unat (tp - a) \<and> unat (tp - a) \<le> n}"

lemma push32s:
  assumes "4 * length ws \<le> 4096"
  shows "fst (fold push32 ws (tp, m)) = tp - 4 * of_nat (length ws)
    \<and> (\<forall>a. a \<notin> below tp (4 * length ws) \<longrightarrow> snd (fold push32 ws (tp, m)) a = m a)
    \<and> (\<forall>j < length ws. load32 (snd (fold push32 ws (tp, m))) (tp - 4 * of_nat (Suc j)) = ws ! j)"
  using assms
proof (induction ws rule: rev_induct)
  case Nil
  then show ?case by simp
next
  case (snoc w ws)
  let ?n = "length ws" and ?r = "fold push32 ws (tp, m)"
  define a where "a = tp - 4 * of_nat (Suc ?n)"
  have IH: "fst ?r = tp - 4 * of_nat ?n" "\<And>a. a \<notin> below tp (4 * ?n) \<Longrightarrow> snd ?r a = m a"
    "\<And>j. j < ?n \<Longrightarrow> load32 (snd ?r) (tp - 4 * of_nat (Suc j)) = ws ! j"
    using snoc by auto
  have step: "fold push32 (ws @ [w]) (tp, m) = (a, store32 a w (snd ?r))"
  proof -
    have "fst ?r - 4 = a" unfolding IH(1) by (simp add: a_def)
    then show ?thesis by (simp add: push32_def)
  qed
  have off: "unat (tp - (a + of_nat i)) = 4 * Suc ?n - i" if "i < 4" for i
  proof -
    have "tp - (a + of_nat i) = of_nat (4 * Suc ?n - i)"
      using that by (simp add: a_def of_nat_diff)
    moreover have "4 * Suc ?n - i < 2 ^ 32" using snoc.prems by simp
    ultimately show ?thesis by (simp add: unat_of_nat take_bit_eq_mod)
  qed
  have keep: "store32 a w (snd ?r) b = snd ?r b" if "\<not> (4 * ?n < unat (tp - b) \<and> unat (tp - b) \<le> 4 * Suc ?n)" for b
  proof (rule store32_other)
    show "b \<noteq> a" using off [of 0] that by auto
    show "b \<noteq> a + 1" using off [of 1] that by auto
    show "b \<noteq> a + 2" using off [of 2] that by auto
    show "b \<noteq> a + 3" using off [of 3] that by auto
  qed
  have "load32 (store32 a w (snd ?r)) (tp - 4 * of_nat (Suc j)) = ws ! j" if j: "j < ?n" for j
  proof -
    define b where "b = tp - 4 * of_nat (Suc j)"
    have "unat (tp - (b + of_nat i)) = 4 * Suc j - i" if "i < 4" for i
    proof -
      have "tp - (b + of_nat i) = of_nat (4 * Suc j - i)" using that by (simp add: b_def of_nat_diff)
      moreover have "4 * Suc j - i < 2 ^ 32" using snoc.prems j by simp
      ultimately show ?thesis by (simp add: unat_of_nat take_bit_eq_mod)
    qed
    then have "store32 a w (snd ?r) (b + of_nat i) = snd ?r (b + of_nat i)" if "i < 4" for i
      using that j by (intro keep) auto
    from this [of 0] this [of 1] this [of 2] this [of 3]
    have "load32 (store32 a w (snd ?r)) b = load32 (snd ?r) b" by (simp add: load32_def)
    then show ?thesis using IH(3) [OF j] by (simp add: b_def)
  qed
  moreover have "load32 (store32 a w (snd ?r)) (tp - 4 * of_nat (Suc ?n)) = w"
    unfolding a_def by (rule load32_store32_same)
  moreover have "store32 a w (snd ?r) b = m b" if "b \<notin> below tp (4 * length (ws @ [w]))" for b
    using that keep [of b] IH(2) [of b] by (auto simp: below_def)
  ultimately show ?case unfolding step by (auto simp: nth_append less_Suc_eq a_def)
qed

subsection \<open>Names, lemmas\<close>

lemma k_name_loop_spec:
  assumes "i \<le> length s" "i \<le> 15" "length dst = 16" "\<forall>c \<in> set s. c \<noteq> NUL" "take i dst = take i s"
  shows "length (k_name_loop i s dst) = 16 \<and> c_string (k_name_loop i s dst) = take 15 s"
  using assms
proof (induction i s dst rule: k_name_loop.induct)
  case (1 i s dst)
  show ?case
  proof (cases "i < length s \<and> s ! i \<noteq> NUL \<and> i < PROCESS_NAME_LEN - 1")
    case True
    have "take (Suc i) (dst[i := s ! i]) = take (Suc i) s"
      using True 1(4,6) by (simp add: take_update_last take_Suc_conv_app_nth)
    then have "length (k_name_loop (Suc i) s (dst[i := s ! i])) = 16
        \<and> c_string (k_name_loop (Suc i) s (dst[i := s ! i])) = take 15 s"
      using True 1(2-6) by (intro 1(1)) auto
    moreover have "k_name_loop i s dst = k_name_loop (Suc i) s (dst[i := s ! i])"
      using True by (simp add: k_name_loop.simps [of i])
    ultimately show ?thesis by simp
  next
    case False
    then have end_i: "take i s = take 15 s" using 1(2,3,5) by (cases "i = length s") auto
    have "dst[i := NUL] = take i s @ NUL # drop (Suc i) dst"
      using 1(3,4,6) by (simp add: upd_conv_take_nth_drop)
    then have "c_string (dst[i := NUL]) = take i s"
      using 1(5) by (auto simp: c_string_def takeWhile_append dest: in_set_takeD)
    moreover have "k_name_loop i s dst = dst[i := NUL]"
      by (subst k_name_loop.simps) (simp only: False if_False)
    ultimately show ?thesis using 1(4) end_i by simp
  qed
qed

lemma k_name_spec:
  assumes "length dst = 16" "\<forall>c \<in> set s. c \<noteq> NUL"
  shows "length (k_name (Some s) dst) = 16" "c_string (k_name (Some s) dst) = take 15 s"
  using k_name_loop_spec [of 0 s dst] assms by (simp_all add: k_name_def)

subsection \<open>The invariant\<close>

definition stack_ok :: "nat set \<Rightarrow> pmm_state \<Rightarrow> pcb \<Rightarrow> bool" where
  "stack_ok U pm p \<longleftrightarrow> (\<exists>f \<in> pmm_pool U pm. f \<notin> free_set (frame_bitmap pm)
     \<and> p_stack_base p = of_nat f * 4096 \<and> p_stack_top p = p_stack_base p + 4096)"

definition kernel_inv :: "nat set \<Rightarrow> 'a proc_scheme \<Rightarrow> bool" where
  "kernel_inv U k \<longleftrightarrow> length (pcbs k) = 16 \<and> pmm_inv U (pmm_of k) \<and> \<not> p_has_stack (pcbs k ! 0)
     \<and> (\<forall>i < 16. p_has_stack (pcbs k ! i) \<longrightarrow> stack_ok U (pmm_of k) (pcbs k ! i))
     \<and> (\<forall>i < 16. \<forall>j < 16. p_has_stack (pcbs k ! i) \<longrightarrow> p_has_stack (pcbs k ! j) \<longrightarrow> i \<noteq> j \<longrightarrow>
          p_stack_base (pcbs k ! i) \<noteq> p_stack_base (pcbs k ! j))"

lemma kernel_inv_cong:
  assumes "length (pcbs k') = length (pcbs k)" "pmm_of k' = pmm_of k"
    "\<And>i. i < 16 \<Longrightarrow> p_has_stack (pcbs k' ! i) = p_has_stack (pcbs k ! i)"
    "\<And>i. i < 16 \<Longrightarrow> p_stack_base (pcbs k' ! i) = p_stack_base (pcbs k ! i)"
    "\<And>i. i < 16 \<Longrightarrow> p_stack_top (pcbs k' ! i) = p_stack_top (pcbs k ! i)"
  shows "kernel_inv U k' = kernel_inv U k"
  using assms by (simp add: kernel_inv_def stack_ok_def)

text \<open>Updates that leave the stack fields of every PCB alone keep the invariant.\<close>

definition stack_neutral :: "(pcb \<Rightarrow> pcb) \<Rightarrow> bool" where
  "stack_neutral f \<longleftrightarrow> (\<forall>p. p_has_stack (f p) = p_has_stack p \<and> p_stack_base (f p) = p_stack_base p
     \<and> p_stack_top (f p) = p_stack_top p)"

lemma upd_pcb_simps [simp]:
  "pmm_of (upd_pcb i f k) = pmm_of k" "mem (upd_pcb i f k) = mem k" "current (upd_pcb i f k) = current k"
  "process_total (upd_pcb i f k) = process_total k" "next_pid (upd_pcb i f k) = next_pid k"
  "next_tid (upd_pcb i f k) = next_tid k" "length (pcbs (upd_pcb i f k)) = length (pcbs k)"
  "proc.more (upd_pcb i f k) = proc.more k"
  by (simp_all add: upd_pcb_def)

lemma pcbs_upd_pcb: "i < length (pcbs k) \<Longrightarrow> pcbs (upd_pcb i f k) ! j = (if j = i then f (pcbs k ! i) else pcbs k ! j)"
  by (simp add: upd_pcb_def)

lemma kernel_inv_upd:
  assumes "kernel_inv U k" "stack_neutral f"
  shows "kernel_inv U (upd_pcb i f k)"
proof (cases "i < 16")
  case True
  then have "kernel_inv U (upd_pcb i f k) = kernel_inv U k"
    using assms by (intro kernel_inv_cong) (auto simp: pcbs_upd_pcb kernel_inv_def stack_neutral_def)
  then show ?thesis using assms by simp
next
  case False
  then have "(pcbs k)[i := f (pcbs k ! i)] = pcbs k"
    using assms(1) by (intro list_update_beyond) (simp add: kernel_inv_def)
  then have "upd_pcb i f k = k" by (simp add: upd_pcb_def)
  then show ?thesis using assms by simp
qed

lemma free_slot_Some:
  "free_slot ps = Some i \<Longrightarrow> 0 < i \<and> i < 16 \<and> p_state (ps ! i) = PROC_TERMINATED \<and> \<not> p_has_stack (ps ! i)"
  by (auto simp: free_slot_def scan_Some_iff)

lemma pool_eq: "frame_count s' = frame_count s \<Longrightarrow> reserved_end s' = reserved_end s \<Longrightarrow> pmm_pool U s' = pmm_pool U s"
  by (simp add: pmm_pool_def)

lemma frame_addr_inj:
  assumes "pmm_inv U s" "f \<in> pmm_pool U s" "g \<in> pmm_pool U s" "(of_nat f * 4096 :: u32) = of_nat g * 4096"
  shows "f = g"
proof -
  have "f * 4096 = g * 4096"
    using pmm_pool_addr(3) [OF assms(1,2)] pmm_pool_addr(3) [OF assms(1,3)] unfolding assms(4) by (rule trans [OF sym])
  then show ?thesis by simp
qed

lemma build_initial_context_pcbs:
  assumes "i < length (pcbs k)"
  shows "pcbs (build_initial_context boot i k) = (pcbs k)[i := (pcbs k ! i)\<lparr>p_esp := p_stack_top (pcbs k ! i) - 44, p_eip := boot\<rparr>]"
    "a \<notin> below (p_stack_top (pcbs k ! i)) 44 \<Longrightarrow> mem (build_initial_context boot i k) a = mem k a"
    "j < 11 \<Longrightarrow> load32 (mem (build_initial_context boot i k)) (p_stack_top (pcbs k ! i) - 4 * of_nat (Suc j)) =
       [0x202, 8, boot, 0, 0, 0, 0, 0, 0, 0, 0] ! j"
    "pmm_of (build_initial_context boot i k) = pmm_of k" "process_total (build_initial_context boot i k) = process_total k"
    "next_pid (build_initial_context boot i k) = next_pid k" "next_tid (build_initial_context boot i k) = next_tid k"
    "current (build_initial_context boot i k) = current k"
proof -
  let ?ws = "[0x202, 8, boot, 0, 0, 0, 0, 0, 0, 0, 0]" and ?t = "p_stack_top (pcbs k ! i)"
  define r where "r = fold push32 ?ws (?t, mem k)"
  have "4 * length ?ws \<le> 4096" by simp
  from push32s [OF this, of ?t "mem k", folded r_def]
  have r: "fst r = ?t - 44" "\<And>a. a \<notin> below ?t 44 \<Longrightarrow> snd r a = mem k a"
    "\<And>j. j < 11 \<Longrightarrow> load32 (snd r) (?t - 4 * of_nat (Suc j)) = ?ws ! j" by simp_all
  have b: "build_initial_context boot i k = upd_pcb i (\<lambda>p. p\<lparr>p_esp := fst r, p_eip := boot\<rparr>) (k\<lparr>mem := snd r\<rparr>)"
    by (simp only: build_initial_context_def Let_def split_def r_def)
  show "pcbs (build_initial_context boot i k) = (pcbs k)[i := (pcbs k ! i)\<lparr>p_esp := ?t - 44, p_eip := boot\<rparr>]"
    unfolding b using r(1) by (simp add: upd_pcb_def)
  show "a \<notin> below ?t 44 \<Longrightarrow> mem (build_initial_context boot i k) a = mem k a" unfolding b using r(2) by simp
  show "j < 11 \<Longrightarrow> load32 (mem (build_initial_context boot i k)) (?t - 4 * of_nat (Suc j)) = ?ws ! j"
    unfolding b using r(3) [of j] by simp
qed (simp_all add: build_initial_context_def Let_def split_def)

lemma finish_create_none:
  assumes "pmm_inv U (pmm_of k)" "free_set (frame_bitmap (pmm_of k)) = {}"
  shows "finish_create boot i name k = (upd_pcb i (\<lambda>p. p\<lparr>p_stack_base := 0\<rparr>) k, None)"
  using pmm_alloc_none [OF assms] by (simp add: finish_create_def)

lemma take_stack_inv:
  assumes "kernel_inv U k" "0 < i" "i < 16" "free_set (frame_bitmap (pmm_of k)) \<noteq> {}"
  defines "sb \<equiv> of_nat (Min (free_set (frame_bitmap (pmm_of k)))) * 4096"
  assumes "pmm_of k' = fst (pmm_alloc_frame (pmm_of k))" "pcbs k' = (pcbs k)[i := p]" "p_stack_base p = sb" "p_stack_top p = sb + 4096"
  shows "kernel_inv U k'" "j < 16 \<Longrightarrow> p_has_stack (pcbs k ! j) \<Longrightarrow> p_stack_base (pcbs k ! j) \<noteq> sb" "stack_ok U (pmm_of k') p"
proof -
  define f where "f = Min (free_set (frame_bitmap (pmm_of k)))"
  have len: "length (pcbs k) = 16" and pinv: "pmm_inv U (pmm_of k)" using assms(1) by (simp_all add: kernel_inv_def)
  note al = pmm_alloc_some [OF pinv assms(4), folded f_def] and sb = sb_def [folded f_def]
  have fp: "f \<in> pmm_pool U (pmm_of k)" using al(4) free_set_pool [OF pinv] by blast
  have pool: "pmm_pool U (pmm_of k') = pmm_pool U (pmm_of k)" using pmm.alloc_pool [OF pinv] assms(6) by simp
  have fs: "free_set (frame_bitmap (pmm_of k')) = free_set (frame_bitmap (pmm_of k)) - {f}" using al(3) assms(6) by simp
  show ok_new: "stack_ok U (pmm_of k') p"
    unfolding stack_ok_def pool using fp fs assms(8,9) by (intro bexI [of _ f]) (auto simp: sb)
  have ok_old: "stack_ok U (pmm_of k') q" if "stack_ok U (pmm_of k) q" for q
    using that fs unfolding stack_ok_def pool by auto
  have fresh: "p_stack_base q \<noteq> sb" if "stack_ok U (pmm_of k) q" for q
    using that frame_addr_inj [OF pinv fp] al(4) unfolding stack_ok_def sb by metis
  have old: "stack_ok U (pmm_of k) (pcbs k ! j)" if "j < 16" "p_has_stack (pcbs k ! j)" for j
    using assms(1) that by (simp add: kernel_inv_def)
  show "j < 16 \<Longrightarrow> p_has_stack (pcbs k ! j) \<Longrightarrow> p_stack_base (pcbs k ! j) \<noteq> sb" using fresh old by blast
  have "pmm_inv U (pmm_of k')" using al(2) assms(6) by simp
  then show "kernel_inv U k'"
    unfolding kernel_inv_def assms(7)
    using assms(1-3,8) len ok_new ok_old [OF old] fresh [OF old] fresh [OF old, symmetric]
    by (auto simp: kernel_inv_def nth_list_update)
qed

lemma finish_create_some:
  fixes boot :: u32 and name :: "string option"
  assumes "kernel_inv U k" "0 < i" "i < 16" "\<not> p_has_stack (pcbs k ! i)" "free_set (frame_bitmap (pmm_of k)) \<noteq> {}"
  defines "f \<equiv> Min (free_set (frame_bitmap (pmm_of k)))" and "r \<equiv> finish_create boot i name k"
  defines "sb \<equiv> of_nat f * 4096"
  shows "snd r = Some i" "kernel_inv U (fst r)"
    "free_set (frame_bitmap (pmm_of (fst r))) = free_set (frame_bitmap (pmm_of k)) - {f}"
    "pcbs (fst r) = (pcbs k)[i := (pcbs k ! i)\<lparr>p_stack_base := sb, p_stack_top := sb + 4096, p_has_stack := True,
       p_name := k_name name (p_name (pcbs k ! i)), p_esp := sb + 4096 - 44, p_eip := boot\<rparr>]"
    "process_total (fst r) = process_total k + 1" "next_pid (fst r) = next_pid k" "next_tid (fst r) = next_tid k"
    "current (fst r) = current k"
    "a \<notin> below (sb + 4096) 44 \<Longrightarrow> mem (fst r) a = mem k a"
    "j < 11 \<Longrightarrow> load32 (mem (fst r)) (sb + 4096 - 4 * of_nat (Suc j)) = [0x202, 8, boot, 0, 0, 0, 0, 0, 0, 0, 0] ! j"
proof -
  have len: "length (pcbs k) = 16" and pinv: "pmm_inv U (pmm_of k)" using assms(1) by (simp_all add: kernel_inv_def)
  note al = pmm_alloc_some [OF pinv assms(5), folded f_def]
  have fp: "f \<in> pmm_pool U (pmm_of k)" using al(4) free_set_pool [OF pinv] by blast
  have nz: "sb \<noteq> 0" using pmm_pool_addr(4) [OF pinv fp] by (simp add: sb_def)
  define pm where "pm = fst (pmm_alloc_frame (pmm_of k))"
  have alloc: "pmm_alloc_frame (pmm_of k) = (pm, sb)" using al(1) by (simp add: pm_def sb_def)
  define k2 where "k2 = upd_pcb i (\<lambda>p. p\<lparr>p_stack_top := sb + 4096, p_has_stack := True, p_name := k_name name (p_name p)\<rparr>)
     (upd_pcb i (\<lambda>p. p\<lparr>p_stack_base := sb\<rparr>) (k\<lparr>pmm_of := pm\<rparr>))"
  define k3 where "k3 = build_initial_context boot i k2"
  have r: "r = (k3\<lparr>process_total := process_total k3 + 1\<rparr>, Some i)"
    unfolding r_def finish_create_def alloc k3_def k2_def using nz by (simp add: Let_def)
  have i2: "i < length (pcbs k2)" "p_stack_top (pcbs k2 ! i) = sb + 4096"
    using assms(3) len by (simp_all add: k2_def pcbs_upd_pcb)
  note b = build_initial_context_pcbs [OF i2(1), where boot = boot, folded k3_def, unfolded i2(2)]
  show "snd r = Some i" "process_total (fst r) = process_total k + 1" "next_pid (fst r) = next_pid k"
    "next_tid (fst r) = next_tid k" "current (fst r) = current k"
    unfolding r using b(5-8) by (simp_all add: k2_def)
  show pcbs': "pcbs (fst r) = (pcbs k)[i := (pcbs k ! i)\<lparr>p_stack_base := sb, p_stack_top := sb + 4096, p_has_stack := True,
       p_name := k_name name (p_name (pcbs k ! i)), p_esp := sb + 4096 - 44, p_eip := boot\<rparr>]"
    unfolding r using b(1) assms(3) len by (simp add: k2_def upd_pcb_def)
  have pmm': "pmm_of (fst r) = pm" unfolding r using b(4) by (simp add: k2_def)
  then show fs: "free_set (frame_bitmap (pmm_of (fst r))) = free_set (frame_bitmap (pmm_of k)) - {f}"
    using al(3) by (simp add: pm_def)
  show "a \<notin> below (sb + 4096) 44 \<Longrightarrow> mem (fst r) a = mem k a" unfolding r using b(2) by (simp add: k2_def)
  show "j < 11 \<Longrightarrow> load32 (mem (fst r)) (sb + 4096 - 4 * of_nat (Suc j)) = [0x202, 8, boot, 0, 0, 0, 0, 0, 0, 0, 0] ! j"
    unfolding r using b(3) by simp
  show "kernel_inv U (fst r)"
    by (rule take_stack_inv(1) [OF assms(1-3,5), folded f_def, OF _ pcbs']) (simp_all add: pmm' pm_def sb_def)
qed

subsection \<open>Creation and exit\<close>

lemma kernel_inv_fields [simp]:
  "kernel_inv U (k\<lparr>next_pid := a\<rparr>) = kernel_inv U k" "kernel_inv U (k\<lparr>next_pid := a, next_tid := b\<rparr>) = kernel_inv U k"
  "kernel_inv U (k\<lparr>process_total := c\<rparr>) = kernel_inv U k" "kernel_inv U (k\<lparr>current := d\<rparr>) = kernel_inv U k"
  "kernel_inv U (k\<lparr>mem := m\<rparr>) = kernel_inv U k"
  by (simp_all add: kernel_inv_def)

text \<open>The bytes of a stack.\<close>

definition stack_range :: "pcb \<Rightarrow> nat set" where
  "stack_range p = {unat (p_stack_base p) ..< unat (p_stack_base p) + 4096}"

lemma stack_ok_addr:
  assumes "pmm_inv U pm" "stack_ok U pm p"
  shows "unat (p_stack_base p) mod 4096 = 0" "unat (p_stack_base p) + 4096 \<le> 0x08000000"
    "unat (p_stack_top p) = unat (p_stack_base p) + 4096" "0x100000 \<le> unat (p_stack_base p)"
proof -
  obtain f where f: "f \<in> pmm_pool U pm" "p_stack_base p = of_nat f * 4096" "p_stack_top p = p_stack_base p + 4096"
    using assms(2) by (auto simp: stack_ok_def)
  note a = pmm_pool_addr [OF assms(1) f(1)]
  show b: "unat (p_stack_base p) mod 4096 = 0" "unat (p_stack_base p) + 4096 \<le> 0x08000000"
    "0x100000 \<le> unat (p_stack_base p)" using a f(2) by auto
  show "unat (p_stack_top p) = unat (p_stack_base p) + 4096" using b(2) unfolding f(3) by (simp add: unat_word_ariths)
qed

lemma page_ranges_disjoint:
  fixes a b :: nat
  assumes "a mod 4096 = 0" "b mod 4096 = 0" "a \<noteq> b"
  shows "{a ..< a + 4096} \<inter> {b ..< b + 4096} = {}"
proof -
  obtain x y where "a = 4096 * x" "b = 4096 * y" using assms(1,2) by (auto simp: mod_eq_0_iff_dvd elim!: dvdE)
  moreover from this have "x + 1 \<le> y \<or> y + 1 \<le> x" using assms(3) by auto
  ultimately show ?thesis by auto
qed

lemma stacks_disjoint:
  assumes "kernel_inv U k" "i < 16" "j < 16" "i \<noteq> j" "p_has_stack (pcbs k ! i)" "p_has_stack (pcbs k ! j)"
  shows "stack_range (pcbs k ! i) \<inter> stack_range (pcbs k ! j) = {}"
proof -
  have pinv: "pmm_inv U (pmm_of k)" and ok: "stack_ok U (pmm_of k) (pcbs k ! i)" "stack_ok U (pmm_of k) (pcbs k ! j)"
    and ne: "p_stack_base (pcbs k ! i) \<noteq> p_stack_base (pcbs k ! j)"
    using assms by (simp_all add: kernel_inv_def)
  have "unat (p_stack_base (pcbs k ! i)) \<noteq> unat (p_stack_base (pcbs k ! j))" using ne by (simp only: word_unat_eq_iff) simp
  then show ?thesis unfolding stack_range_def
    using stack_ok_addr(1) [OF pinv ok(1)] stack_ok_addr(1) [OF pinv ok(2)] by (intro page_ranges_disjoint)
qed

lemma below_stack:
  assumes "unat tp = unat sb + 4096" "a \<in> below tp 44"
  shows "unat a \<in> {unat sb ..< unat sb + 4096}"
proof -
  have "unat (tp - a) \<le> 44" "0 < unat (tp - a)" using assms(2) by (auto simp: below_def)
  moreover from this have "tp - a \<le> tp" using assms(1) by (simp add: word_le_nat_alt)
  then have "unat (tp - (tp - a)) = unat tp - unat (tp - a)" by (rule unat_sub)
  then have "unat a = unat tp - unat (tp - a)" by simp
  ultimately show ?thesis using assms(1) by auto
qed

text \<open>Release of the stack of slot \<open>i\<close>, common to exit and kill.\<close>

lemma release_stack_inv:
  assumes "kernel_inv U k" "i < 16" "length (pcbs k') = 16"
    and "\<And>j. j < 16 \<Longrightarrow> j \<noteq> i \<Longrightarrow> pcbs k' ! j = pcbs k ! j" "\<not> p_has_stack (pcbs k' ! i)"
    and "pmm_of k' = (if p_has_stack (pcbs k ! i) then pmm_free_frame (p_stack_base (pcbs k ! i)) (pmm_of k) else pmm_of k)"
  shows "kernel_inv U k'"
    "free_set (frame_bitmap (pmm_of k')) = free_set (frame_bitmap (pmm_of k))
       \<union> (if p_has_stack (pcbs k ! i) then {unat (p_stack_base (pcbs k ! i)) div 4096} else {})"
proof -
  have pinv: "pmm_inv U (pmm_of k)" and ok: "\<And>j. j < 16 \<Longrightarrow> p_has_stack (pcbs k ! j) \<Longrightarrow> stack_ok U (pmm_of k) (pcbs k ! j)"
    and inj: "\<And>j l. j < 16 \<Longrightarrow> l < 16 \<Longrightarrow> p_has_stack (pcbs k ! j) \<Longrightarrow> p_has_stack (pcbs k ! l) \<Longrightarrow> j \<noteq> l \<Longrightarrow>
      p_stack_base (pcbs k ! j) \<noteq> p_stack_base (pcbs k ! l)"
    using assms(1) by (auto simp: kernel_inv_def)
  have z: "\<not> p_has_stack (pcbs k' ! 0)" using assms(1,4,5) by (cases "i = 0") (auto simp: kernel_inv_def)
  have dist: "\<forall>j < 16. \<forall>l < 16. p_has_stack (pcbs k' ! j) \<longrightarrow> p_has_stack (pcbs k' ! l) \<longrightarrow> j \<noteq> l \<longrightarrow>
      p_stack_base (pcbs k' ! j) \<noteq> p_stack_base (pcbs k' ! l)"
    using inj assms(4,5) by metis
  have goal: "kernel_inv U k' \<and> free_set (frame_bitmap (pmm_of k')) = free_set (frame_bitmap (pmm_of k))
       \<union> (if p_has_stack (pcbs k ! i) then {unat (p_stack_base (pcbs k ! i)) div 4096} else {})"
  proof (cases "p_has_stack (pcbs k ! i)")
    case False
    then have "pmm_of k' = pmm_of k" using assms(6) by simp
    moreover have "stack_ok U (pmm_of k) (pcbs k' ! j)" if "j < 16" "p_has_stack (pcbs k' ! j)" for j
      using that ok assms(4,5) by metis
    ultimately show ?thesis using False assms(3) pinv z dist by (simp add: kernel_inv_def)
  next
    case True
    then obtain f where f: "f \<in> pmm_pool U (pmm_of k)" "f \<notin> free_set (frame_bitmap (pmm_of k))"
        "p_stack_base (pcbs k ! i) = of_nat f * 4096"
      using ok [OF assms(2)] by (auto simp: stack_ok_def)
    have pm: "pmm_of k' = pmm_free_frame (of_nat f * 4096) (pmm_of k)" using assms(6) True f(3) by simp
    note fr = pmm_free_owned [OF pinv f(1,2), folded pm]
    have pool: "pmm_pool U (pmm_of k') = pmm_pool U (pmm_of k)" using pmm.free_pool [OF pinv f(1)] pm by simp
    have "stack_ok U (pmm_of k') (pcbs k' ! j)" if j: "j < 16" "p_has_stack (pcbs k' ! j)" for j
    proof -
      have ji: "j \<noteq> i" using j assms(5) by auto
      then have e: "pcbs k' ! j = pcbs k ! j" using assms(4) j by simp
      then obtain g where g: "g \<in> pmm_pool U (pmm_of k)" "g \<notin> free_set (frame_bitmap (pmm_of k))"
         "p_stack_base (pcbs k ! j) = of_nat g * 4096" "p_stack_top (pcbs k ! j) = p_stack_base (pcbs k ! j) + 4096"
        using ok [of j] j unfolding e stack_ok_def by blast
      have "g \<noteq> f" using inj [of j i] assms(2) j True e ji f(3) g(3) by auto
      then show ?thesis unfolding stack_ok_def pool e using g fr(2) by (intro bexI [of _ g]) auto
    qed
    moreover have "unat (p_stack_base (pcbs k ! i)) div 4096 = f" using pmm_pool_addr(3) [OF pinv f(1)] f(3) by simp
    ultimately show ?thesis using True assms(3) fr(1,2) z dist by (simp add: kernel_inv_def)
  qed
  then show "kernel_inv U k'" "free_set (frame_bitmap (pmm_of k')) = free_set (frame_bitmap (pmm_of k))
       \<union> (if p_has_stack (pcbs k ! i) then {unat (p_stack_base (pcbs k ! i)) div 4096} else {})" by blast+
qed

lemma decrement_simps [simp]:
  "pcbs (process_decrement_count k) = pcbs k" "pmm_of (process_decrement_count k) = pmm_of k"
  "current (process_decrement_count k) = current k" "mem (process_decrement_count k) = mem k"
  "next_pid (process_decrement_count k) = next_pid k"
  "kernel_inv U (process_decrement_count k) = kernel_inv U k"
  by (simp_all add: process_decrement_count_def kernel_inv_def)

lemma process_exit_eq:
  assumes "current k = Some i" "i < length (pcbs k)" "p_pid (pcbs k ! i) \<noteq> 0"
  shows "pcbs (process_exit k) = (pcbs k)[i := (pcbs k ! i)\<lparr>p_state := PROC_TERMINATED, p_entry := 0, p_thread_entry := 0,
       p_thread_arg := 0, p_waiting_mutex := None, p_stack_base := 0, p_stack_top := 0, p_esp := 0, p_eip := 0, p_has_stack := False\<rparr>]"
    "pmm_of (process_exit k) = (if p_has_stack (pcbs k ! i) then pmm_free_frame (p_stack_base (pcbs k ! i)) (pmm_of k) else pmm_of k)"
    "current (process_exit k) = current k" "mem (process_exit k) = mem k"
    "process_total (process_exit k) = (if process_total k = 0 then 0 else process_total k - 1)"
  using assms by (simp_all add: process_exit_def Let_def upd_pcb_def process_decrement_count_def)

lemma process_exit_idle:
  "current k = None \<or> (\<exists>i. current k = Some i \<and> p_pid (pcbs k ! i) = 0) \<Longrightarrow> process_exit k = k"
  by (auto simp: process_exit_def)

lemma init_pcb_neutral [simp]: "stack_neutral (init_process_pcb pid entry)"
  "stack_neutral (init_thread_pcb pid tid par q entry arg)"
  by (simp_all add: stack_neutral_def init_process_pcb_def init_thread_pcb_def)

lemma slot_fill_inv:
  assumes "kernel_inv U k" "stack_neutral f" "\<not> p_has_stack (pcbs k ! i)" "i < 16"
  shows "kernel_inv U (upd_pcb i f k)" "\<not> p_has_stack (pcbs (upd_pcb i f k) ! i)"
  using kernel_inv_upd [OF assms(1,2)] assms by (auto simp: pcbs_upd_pcb kernel_inv_def stack_neutral_def)

lemma finish_create_inv:
  assumes "kernel_inv U k" "0 < i" "i < 16" "\<not> p_has_stack (pcbs k ! i)"
  shows "kernel_inv U (fst (finish_create boot i name k))"
proof (cases "free_set (frame_bitmap (pmm_of k)) = {}")
  case True
  have "kernel_inv U (upd_pcb i (\<lambda>p. p\<lparr>p_stack_base := 0\<rparr>) k)"
    using assms by (auto simp: kernel_inv_def pcbs_upd_pcb stack_ok_def)
  moreover have "pmm_inv U (pmm_of k)" using assms(1) by (simp add: kernel_inv_def)
  ultimately show ?thesis by (simp add: finish_create_none [OF _ True])
next
  case False
  then show ?thesis using finish_create_some(2) [OF assms] by blast
qed

lemma create_inv:
  fixes k :: "'a proc_scheme"
  assumes "kernel_inv U k"
  shows "kernel_inv U (fst (process_create_named boot entry name k))"
    "kernel_inv U (fst (thread_create_named boot entry arg name k))"
proof -
  have slot: "kernel_inv U (fst (finish_create boot i nm (upd_pcb i f k')))"
    if "free_slot (pcbs k) = Some i" "stack_neutral f" "pcbs k' = pcbs k" "pmm_of k' = pmm_of k" for i nm f
      and k' :: "'a proc_scheme"
  proof -
    have i: "0 < i" "i < 16" "\<not> p_has_stack (pcbs k' ! i)" using free_slot_Some [OF that(1)] that(3) by auto
    have "kernel_inv U k'" using assms that(3,4) by (simp add: kernel_inv_def)
    from slot_fill_inv [OF this that(2) i(3,2)] show ?thesis using i by (intro finish_create_inv)
  qed
  show "kernel_inv U (fst (process_create_named boot entry name k))"
    using assms by (auto simp: process_create_named_def split: option.splits intro!: slot)
  show "kernel_inv U (fst (thread_create_named boot entry arg name k))"
    using assms by (auto simp: thread_create_named_def split: option.splits intro!: slot)
qed

lemma process_exit_inv:
  assumes "kernel_inv U k" "\<And>i. current k = Some i \<Longrightarrow> i < 16"
  shows "kernel_inv U (process_exit k)"
proof (cases "\<exists>i. current k = Some i \<and> p_pid (pcbs k ! i) \<noteq> 0")
  case True
  then obtain i where i: "current k = Some i" "p_pid (pcbs k ! i) \<noteq> 0" by blast
  have len: "length (pcbs k) = 16" using assms(1) by (simp add: kernel_inv_def)
  note e = process_exit_eq [OF i(1) _ i(2)]
  show ?thesis
    by (rule release_stack_inv(1) [OF assms(1) assms(2) [OF i(1)]])
       (use e assms(2) [OF i(1)] len in auto)
next
  case False
  then have "process_exit k = k" by (intro process_exit_idle) (cases "current k"; auto)
  then show ?thesis using assms by simp
qed

subsection \<open>Properties\<close>

text \<open>
  C11: creating a process with a free slot and a free frame takes the first free slot and the
  lowest free frame as its stack, gives it the next pid, the state READY and (at most 15
  characters of) its name, and leaves on its stack exactly the frame the first dispatch
  returns through: the address of \<^verbatim>\<open>process_bootstrap\<close>, the kernel code selector and flags
  with interrupts enabled, below zeroed registers. Every other PCB is untouched.
\<close>

theorem process_create_correct:
  assumes "kernel_inv U k" "entry \<noteq> 0" "free_slot (pcbs k) = Some i" "free_set (frame_bitmap (pmm_of k)) \<noteq> {}"
    and "length (p_name (pcbs k ! i)) = 16" "\<forall>c \<in> set s. c \<noteq> NUL"
    and "process_create_named boot entry (Some s) k = (k', r)" "p = pcbs k' ! i"
  shows "r = Some i \<and> kernel_inv U k' \<and> p_pid p = next_pid k \<and> p_state p = PROC_READY \<and> p_entry p = entry
     \<and> p_stack_base p = of_nat (Min (free_set (frame_bitmap (pmm_of k)))) * 4096
     \<and> c_string (p_name p) = take 15 s \<and> p_esp p = p_stack_top p - 44
     \<and> load32 (mem k') (p_esp p + 32) = boot \<and> load32 (mem k') (p_esp p + 36) = 8
     \<and> load32 (mem k') (p_esp p + 40) = 0x202 \<and> (\<forall>j < 8. load32 (mem k') (p_esp p + 4 * of_nat j) = 0)
     \<and> next_pid k' = next_pid k + 1 \<and> process_total k' = process_total k + 1
     \<and> free_set (frame_bitmap (pmm_of k')) =
         free_set (frame_bitmap (pmm_of k)) - {Min (free_set (frame_bitmap (pmm_of k)))}
     \<and> (\<forall>j. j \<noteq> i \<longrightarrow> pcbs k' ! j = pcbs k ! j)"
proof -
  define k0 where "k0 = upd_pcb i (init_process_pcb (next_pid k) entry) (k\<lparr>next_pid := next_pid k + 1\<rparr>)"
  have i: "0 < i" "i < 16" "\<not> p_has_stack (pcbs k ! i)" using free_slot_Some [OF assms(3)] by auto
  have len: "length (pcbs k) = 16" using assms(1) by (simp add: kernel_inv_def)
  have inv0: "kernel_inv U k0" "\<not> p_has_stack (pcbs k0 ! i)"
    using slot_fill_inv [of U "k\<lparr>next_pid := next_pid k + 1\<rparr>" "init_process_pcb (next_pid k) entry" i] assms(1) i
    by (simp_all add: k0_def stack_neutral_def init_process_pcb_def)
  have fin: "(k', r) = finish_create boot i (Some s) k0"
    using assms(2,3,7) by (simp add: process_create_named_def k0_def)
  have free: "free_set (frame_bitmap (pmm_of k0)) = free_set (frame_bitmap (pmm_of k))" by (simp add: k0_def)
  let ?sb = "of_nat (Min (free_set (frame_bitmap (pmm_of k)))) * 4096 :: u32"
  note fc = finish_create_some [where boot = boot and name = "Some s", OF inv0(1) i(1,2) inv0(2), unfolded free, OF assms(4), folded fin, simplified]
  have p: "p = (init_process_pcb (next_pid k) entry (pcbs k ! i))\<lparr>p_stack_base := ?sb, p_stack_top := ?sb + 4096, p_has_stack := True,
       p_name := k_name (Some s) (p_name (pcbs k ! i)), p_esp := ?sb + 4096 - 44, p_eip := boot\<rparr>"
    using fc(4) i(2) len unfolding assms(8) by (simp add: k0_def pcbs_upd_pcb) (simp add: init_process_pcb_def)
  have regs: "load32 (mem k') (4052 + ?sb + 4 * of_nat j) = 0" if "j < 8" for j
  proof -
    have "4092 + (?sb - 4 * of_nat (10 - j)) = 4052 + ?sb + 4 * of_nat j"
      using that by (simp add: of_nat_diff algebra_simps)
    moreover have "[0x202, 8, boot, 0, 0, 0, 0, 0, 0, 0, 0] ! (10 - j) = 0"
      using that by (auto simp: less_Suc_eq numeral_eq_Suc)
    ultimately show ?thesis using fc(10) [of "10 - j"] by (simp only:)
  qed
  have "load32 (mem k') (4084 + ?sb) = boot" "load32 (mem k') (4088 + ?sb) = 8" "load32 (mem k') (4092 + ?sb) = 0x202"
    using fc(10) [of 2] fc(10) [of 1] fc(10) [of 0] by (simp_all add: algebra_simps)
  moreover have "pcbs k' ! j = pcbs k ! j" if "j \<noteq> i" for j
    using fc(4) that i(2) len by (simp add: k0_def pcbs_upd_pcb)
  moreover have "c_string (k_name (Some s) (p_name (pcbs k ! i))) = take 15 s" by (rule k_name_spec [OF assms(5,6)])
  ultimately show ?thesis using fc regs unfolding p by (simp add: init_process_pcb_def k0_def)
qed

text \<open>A machine right after \<^verbatim>\<open>process_init\<close>, with zeroed statics and the two free frames of \<open>two_pages\<close>.\<close>

definition zero_pcb :: pcb where
  "zero_pcb = \<lparr>p_pid = 0, p_state = PROC_READY, p_esp = 0, p_eip = 0, p_stack_base = 0, p_stack_top = 0,
     p_wake_tick = 0, p_priority = 0, p_base_priority = 0, p_quantum_ticks = 0, p_ticks_used = 0,
     p_has_stack = False, p_is_thread = False, p_tid = 0, p_parent = None, p_thread_entry = 0,
     p_thread_arg = 0, p_owned_mutex_list = replicate 4 None, p_owned_mutexes = 0, p_waiting_mutex = None,
     p_rw_read_locks = 0, p_entry = 0, p_name = replicate 16 NUL\<rparr>"

definition booted :: proc where
  "booted = process_init \<lparr>pcbs = replicate 16 zero_pcb, next_pid = 1, next_tid = 1, process_total = 0,
     current = None, pmm_of = pmm_init 0x10000 2 two_pages, mem = (\<lambda>_. 0)\<rparr>"

lemma process_init_slots:
  assumes "length (pcbs k) = 16" "i < 16"
  shows "p_has_stack (pcbs (process_init k) ! i) = False"
    "0 < i \<Longrightarrow> p_state (pcbs (process_init k) ! i) = PROC_TERMINATED"
    "0 < i \<Longrightarrow> p_name (pcbs (process_init k) ! i) = (p_name (pcbs k ! i))[0 := NUL]"
    "length (pcbs (process_init k)) = 16"
  using assms by (simp_all add: process_init_def Let_def upd_pcb_def empty_pcb_def nth_list_update)

lemma process_init_pmm: "pmm_of (process_init k) = pmm_of k"
  by (simp add: process_init_def Let_def)

lemma process_init_inv:
  "length (pcbs k) = 16 \<Longrightarrow> pmm_inv U (pmm_of k) \<Longrightarrow> kernel_inv U (process_init k)"
  using process_init_slots [of k] process_init_slots(4) [of k 0]
  by (auto simp: kernel_inv_def process_init_pmm)

lemma booted_facts:
  "kernel_inv {256, 258} booted" "free_slot (pcbs booted) = Some 1"
  "free_set (frame_bitmap (pmm_of booted)) = {256, 258}" "length (p_name (pcbs booted ! 1)) = 16"
  "next_pid booted = 1"
proof -
  let ?k = "\<lparr>pcbs = replicate 16 zero_pcb, next_pid = 1, next_tid = 1, process_total = 0,
     current = None, pmm_of = pmm_init 0x10000 2 two_pages, mem = (\<lambda>_. 0)\<rparr>"
  show "kernel_inv {256, 258} booted"
    unfolding booted_def using two_pages_state(1) by (intro process_init_inv) simp_all
  have slot: "p_state (pcbs booted ! 1) = PROC_TERMINATED \<and> \<not> p_has_stack (pcbs booted ! 1)"
    unfolding booted_def using process_init_slots(1,2) [of ?k 1] by simp
  then show "free_slot (pcbs booted) = Some 1" by (simp add: free_slot_def scan_Some_iff)
  show "length (p_name (pcbs booted ! 1)) = 16"
    unfolding booted_def using process_init_slots(3) [of ?k 1] by (simp add: zero_pcb_def)
  show "free_set (frame_bitmap (pmm_of booted)) = {256, 258}" "next_pid booted = 1"
    using two_pages_state(2) by (simp_all add: booted_def process_init_def Let_def upd_pcb_def)
qed

theorem process_create_correct_witness:
  "\<exists>k'. process_create_named 0x10500 0x11000 (Some ''idle'') booted = (k', Some 1)
     \<and> p_stack_base (pcbs k' ! 1) = 0x100000 \<and> c_string (p_name (pcbs k' ! 1)) = ''idle''"
proof -
  obtain k' r where c: "process_create_named 0x10500 0x11000 (Some ''idle'') booted = (k', r)" by fastforce
  have "free_set (frame_bitmap (pmm_of booted)) \<noteq> {}" "Min (free_set (frame_bitmap (pmm_of booted))) = 256"
    unfolding booted_facts(3) by simp_all
  with process_create_correct [OF booted_facts(1) _ booted_facts(2) _ booted_facts(4) _ c refl]
  have "r = Some 1" "p_stack_base (pcbs k' ! 1) = 0x100000" "c_string (p_name (pcbs k' ! 1)) = ''idle''" by simp_all
  with c show ?thesis by blast
qed

lemma process_create_split:
  "free_slot (pcbs k) = Some i \<Longrightarrow> entry \<noteq> 0 \<Longrightarrow> process_create_named boot entry name k =
     finish_create boot i name (upd_pcb i (init_process_pcb (next_pid k) entry) (k\<lparr>next_pid := next_pid k + 1\<rparr>))"
  by (simp add: process_create_named_def)

text \<open>
  C24: isolation of stacks. When a process is created, no byte of any other process's stack
  changes and the new stack shares no byte with it.
\<close>

theorem process_create_isolated:
  assumes "kernel_inv U k" "process_create_named boot entry name k = (k', Some i)"
    and "j < 16" "j \<noteq> i" "p_has_stack (pcbs k ! j)"
  shows "stack_range (pcbs k' ! i) \<inter> stack_range (pcbs k' ! j) = {} \<and> pcbs k' ! j = pcbs k ! j
     \<and> (\<forall>a. unat a \<in> stack_range (pcbs k ! j) \<longrightarrow> mem k' a = mem k a)"
proof -
  have e: "entry \<noteq> 0" "free_slot (pcbs k) \<noteq> None"
    using assms(2) by (auto simp: process_create_named_def split: if_splits option.splits)
  then obtain i0 where i0: "free_slot (pcbs k) = Some i0" by blast
  have s: "0 < i0" "i0 < 16" "\<not> p_has_stack (pcbs k ! i0)" using free_slot_Some [OF i0] by auto
  have len: "length (pcbs k) = 16" using assms(1) by (simp add: kernel_inv_def)
  obtain f k0 where k0: "k0 = upd_pcb i0 f (k\<lparr>next_pid := next_pid k + 1\<rparr>)" "stack_neutral f"
      "(k', Some i) = finish_create boot i0 name k0"
    using process_create_split [OF i0 e(1), of boot name] assms(2) init_pcb_neutral(1) by metis
  have inv0: "kernel_inv U k0" "\<not> p_has_stack (pcbs k0 ! i0)"
    using slot_fill_inv [of U "k\<lparr>next_pid := next_pid k + 1\<rparr>" f i0] assms(1) s k0(1,2) by simp_all
  have "free_set (frame_bitmap (pmm_of k0)) \<noteq> {}"
    using finish_create_none [of U k0] inv0(1) k0(3) by (auto simp: kernel_inv_def)
  note fc = finish_create_some [where boot = boot and name = name, OF inv0(1) s(1,2) inv0(2) this, folded k0(3), simplified]
  have ii: "i = i0" using fc(1) by simp
  let ?sb = "of_nat (Min (free_set (frame_bitmap (pmm_of k0)))) * 4096 :: u32"
  have pi: "p_stack_base (pcbs k' ! i) = ?sb" "p_stack_top (pcbs k' ! i) = ?sb + 4096" "p_has_stack (pcbs k' ! i)"
    using fc(4) s(2) len by (simp_all add: ii k0(1))
  have pj: "pcbs k' ! j = pcbs k ! j" using fc(4) assms(4) s(2) len by (simp add: ii k0(1) pcbs_upd_pcb)
  have disj: "stack_range (pcbs k' ! i) \<inter> stack_range (pcbs k' ! j) = {}"
    using stacks_disjoint [OF fc(2), of i j] s(2) assms(3-5) pi pj ii by simp
  have "stack_ok U (pmm_of k') (pcbs k' ! i)" "pmm_inv U (pmm_of k')"
    using fc(2) pi(3) s(2) ii by (auto simp: kernel_inv_def)
  then have tp: "unat (?sb + 4096) = unat ?sb + 4096" using stack_ok_addr(3) pi by fastforce
  have "mem k' a = mem k a" if "unat a \<in> stack_range (pcbs k ! j)" for a
  proof -
    have "unat a \<notin> {unat ?sb ..< unat ?sb + 4096}" using disj that pj pi(1) by (auto simp: stack_range_def)
    then have "a \<notin> below (?sb + 4096) 44" using below_stack [OF tp] by blast
    then show ?thesis using fc(9) [of a] by (simp add: k0(1))
  qed
  with disj pj show ?thesis by blast
qed

text \<open>The machine of \<open>booted\<close> with a first process.\<close>

definition booted1 :: proc where
  "booted1 = fst (process_create_named 0x10500 0x11000 (Some ''idle'') booted)"

lemma booted1_facts:
  "kernel_inv {256, 258} booted1" "free_slot (pcbs booted1) = Some 2"
  "free_set (frame_bitmap (pmm_of booted1)) = {258}" "p_has_stack (pcbs booted1 ! 1)"
  "p_pid (pcbs booted1 ! 1) = 1" "p_stack_base (pcbs booted1 ! 1) = 0x100000"
proof -
  let ?k = "\<lparr>pcbs = replicate 16 zero_pcb, next_pid = 1, next_tid = 1, process_total = 0,
     current = None, pmm_of = pmm_init 0x10000 2 two_pages, mem = (\<lambda>_. 0)\<rparr>"
  let ?b = "upd_pcb 1 (init_process_pcb (next_pid booted) 0x11000) (booted\<lparr>next_pid := next_pid booted + 1\<rparr>)"
  have m: "Min {256, 258 :: nat} = 256" by simp
  have ne: "free_set (frame_bitmap (pmm_of booted)) \<noteq> {}" unfolding booted_facts(3) by simp
  have b1: "booted1 = fst (finish_create 0x10500 1 (Some ''idle'') ?b)"
    unfolding booted1_def by (subst process_create_split [OF booted_facts(2)]) simp_all
  have sl: "0 < (1 :: nat)" "(1 :: nat) < 16" "\<not> p_has_stack (pcbs booted ! 1)"
    using free_slot_Some [OF booted_facts(2)] by auto
  have b: "kernel_inv {256, 258} ?b" "\<not> p_has_stack (pcbs ?b ! 1)"
    using slot_fill_inv [of _ "booted\<lparr>next_pid := next_pid booted + 1\<rparr>" _ 1] booted_facts(1) sl by simp_all
  have fb: "free_set (frame_bitmap (pmm_of ?b)) = {256, 258}" "{256, 258 :: nat} \<noteq> {}" by (simp_all add: booted_facts(3))
  have len: "length (pcbs ?b) = 16" using b(1) by (simp add: kernel_inv_def)
  note fc = finish_create_some [where boot = "0x10500" and name = "Some ''idle''", OF b(1) sl(1,2) b(2), unfolded fb(1) m, OF fb(2),
      folded b1]
  show "kernel_inv {256, 258} booted1" using fc(2) .
  show "free_set (frame_bitmap (pmm_of booted1)) = {258}" using fc(3) by auto
  show "p_has_stack (pcbs booted1 ! 1)" "p_stack_base (pcbs booted1 ! 1) = 0x100000" using fc(4) len by simp_all
  obtain r where c: "process_create_named 0x10500 0x11000 (Some ''idle'') booted = (booted1, r)"
    unfolding booted1_def by (metis prod.collapse)
  have pc: "p_pid (pcbs booted1 ! 1) = 1" "p_state (pcbs booted1 ! 1) = PROC_READY" "\<And>j. j \<noteq> 1 \<Longrightarrow> pcbs booted1 ! j = pcbs booted ! j"
    using process_create_correct [OF booted_facts(1) _ booted_facts(2) ne booted_facts(4) _ c refl] booted_facts(5) by auto
  show "p_pid (pcbs booted1 ! 1) = 1" using pc(1) .
  have "p_state (pcbs booted1 ! 2) = PROC_TERMINATED" "\<not> p_has_stack (pcbs booted1 ! 2)"
    using pc(3) [of 2] process_init_slots(1,2) [of ?k 2] by (simp_all add: booted_def)
  then show "free_slot (pcbs booted1) = Some 2"
    using pc(2) by (auto simp: free_slot_def scan_Some_iff less_2_cases_iff)
qed

theorem process_create_isolated_witness:
  "\<exists>k'. process_create_named 0x10500 0x12000 (Some ''hog'') booted1 = (k', Some 2)
     \<and> stack_range (pcbs k' ! 2) \<inter> stack_range (pcbs k' ! 1) = {}"
proof -
  let ?b = "upd_pcb 2 (init_process_pcb (next_pid booted1) 0x12000) (booted1\<lparr>next_pid := next_pid booted1 + 1\<rparr>)"
  have sl: "0 < (2 :: nat)" "(2 :: nat) < 16" "\<not> p_has_stack (pcbs booted1 ! 2)"
    using free_slot_Some [OF booted1_facts(2)] by auto
  have b: "kernel_inv {256, 258} ?b" "\<not> p_has_stack (pcbs ?b ! 2)"
    using slot_fill_inv [of _ "booted1\<lparr>next_pid := next_pid booted1 + 1\<rparr>" _ 2] booted1_facts(1) sl by simp_all
  have "free_set (frame_bitmap (pmm_of ?b)) \<noteq> {}" by (simp add: booted1_facts(3))
  from finish_create_some(1) [where boot = "0x10500" and name = "Some ''hog''", OF b(1) sl(1,2) b(2) this]
    process_create_split [OF booted1_facts(2), of "0x12000" "0x10500" "Some ''hog''"]
  have "snd (process_create_named 0x10500 0x12000 (Some ''hog'') booted1) = Some 2" by simp
  then obtain k' where c: "process_create_named 0x10500 0x12000 (Some ''hog'') booted1 = (k', Some 2)"
    by (metis prod.collapse)
  have "stack_range (pcbs k' ! 2) \<inter> stack_range (pcbs k' ! 1) = {}"
    by (rule process_create_isolated [OF booted1_facts(1) c _ _ booted1_facts(4), THEN conjunct1]) simp_all
  with c show ?thesis by blast
qed

text \<open>
  exit of a process other than the shell returns its stack frame to the memory manager,
  frees its slot for the next creation and touches no other process.
\<close>

theorem process_exit_correct:
  assumes "kernel_inv U k" "current k = Some i" "i < 16" "p_pid (pcbs k ! i) \<noteq> 0" "p_has_stack (pcbs k ! i)"
  shows "kernel_inv U (process_exit k)
     \<and> free_set (frame_bitmap (pmm_of (process_exit k))) =
         insert (unat (p_stack_base (pcbs k ! i)) div 4096) (free_set (frame_bitmap (pmm_of k)))
     \<and> p_state (pcbs (process_exit k) ! i) = PROC_TERMINATED \<and> \<not> p_has_stack (pcbs (process_exit k) ! i)
     \<and> (\<forall>j. j \<noteq> i \<longrightarrow> pcbs (process_exit k) ! j = pcbs k ! j)"
proof -
  have len: "length (pcbs k) = 16" using assms(1) by (simp add: kernel_inv_def)
  note e = process_exit_eq [OF assms(2) _ assms(4), unfolded len, OF assms(3)]
  have "kernel_inv U (process_exit k) \<and> free_set (frame_bitmap (pmm_of (process_exit k))) = free_set (frame_bitmap (pmm_of k))
       \<union> (if p_has_stack (pcbs k ! i) then {unat (p_stack_base (pcbs k ! i)) div 4096} else {})"
    by (intro conjI release_stack_inv [OF assms(1,3)]) (use e len assms(3) in auto)
  then show ?thesis using e len assms(3,5) by simp
qed

theorem process_exit_correct_witness:
  "free_set (frame_bitmap (pmm_of (process_exit (booted1\<lparr>current := Some 1\<rparr>)))) = {256, 258}"
  using process_exit_correct [of "{256, 258}" "booted1\<lparr>current := Some 1\<rparr>" 1] booted1_facts by auto

text \<open>
  when no frame is left, creation returns the null pointer but has already filled the slot:
  it stays READY without a stack or context, so it is a candidate for the scheduler, it is not
  counted, and no later creation can reuse it.
\<close>

theorem process_create_no_memory:
  assumes "kernel_inv U k" "entry \<noteq> 0" "free_slot (pcbs k) = Some i" "free_set (frame_bitmap (pmm_of k)) = {}"
    and "process_create_named boot entry name k = (k', r)"
  shows "r = None \<and> p_state (pcbs k' ! i) = PROC_READY \<and> \<not> p_has_stack (pcbs k' ! i)
     \<and> p_esp (pcbs k' ! i) = p_esp (pcbs k ! i) \<and> process_total k' = process_total k
     \<and> free_slot (pcbs k') \<noteq> Some i"
proof -
  have i: "i < 16" "\<not> p_has_stack (pcbs k ! i)" using free_slot_Some [OF assms(3)] by auto
  have len: "length (pcbs k) = 16" and pinv: "pmm_inv U (pmm_of k)" using assms(1) by (simp_all add: kernel_inv_def)
  have k': "r = None" "p_state (pcbs k' ! i) = PROC_READY" "\<not> p_has_stack (pcbs k' ! i)"
    "p_esp (pcbs k' ! i) = p_esp (pcbs k ! i)" "process_total k' = process_total k"
    using process_create_split [OF assms(3,2), of boot name] assms(5) i len
      finish_create_none [of U "upd_pcb i (init_process_pcb (next_pid k) entry) (k\<lparr>next_pid := next_pid k + 1\<rparr>)" boot i name]
      pinv assms(4) by (auto simp: pcbs_upd_pcb init_process_pcb_def)
  then show ?thesis using free_slot_Some [of "pcbs k'" i] by auto
qed

theorem process_create_no_memory_witness:
  "\<exists>(k :: proc) k'. process_create_named 0x10500 0x12000 None k = (k', None) \<and> free_slot (pcbs k) = Some 1
     \<and> p_state (pcbs k' ! 1) = PROC_READY \<and> \<not> p_has_stack (pcbs k' ! 1)"
proof -
  let ?pm = "pmm_init 0 0 two_pages"
  let ?k = "booted\<lparr>pmm_of := ?pm\<rparr>"
  have pm: "pmm_inv {} ?pm" "free_set (frame_bitmap ?pm) = {}"
    using pmm_init_spec [of 0 two_pages 0] by (auto simp: e820_usable_def)
  have "kernel_inv {} (process_init \<lparr>pcbs = replicate 16 zero_pcb, next_pid = 1, next_tid = 1, process_total = 0,
     current = None, pmm_of = ?pm, mem = (\<lambda>_. 0)\<rparr>)" using pm by (intro process_init_inv) simp_all
  then have inv: "kernel_inv {} ?k" by (simp add: booted_def process_init_def Let_def upd_pcb_def kernel_inv_def)
  have sl: "free_slot (pcbs ?k) = Some 1" using booted_facts(2) by simp
  obtain k' r where c: "process_create_named 0x10500 0x12000 None ?k = (k', r)" by fastforce
  have "r = None \<and> p_state (pcbs k' ! 1) = PROC_READY \<and> \<not> p_has_stack (pcbs k' ! 1)"
    using process_create_no_memory [OF inv _ sl _ c] pm(2) by simp
  with c sl show ?thesis by blast
qed

end
