(* ===== verification/Scheduler.thy ===== *)
theory Scheduler
  imports Process "HOL-Library.Multiset"
begin

text \<open>
  The scheduler, \<^verbatim>\<open>kernel/scheduler.c\<close>: interrupt gates and the programming of the timer, the
  sorted sleep queue, the choice of the next process (three priority levels, round robin inside
  a level), the context switch of a tick or a yield, fork and kill. An interrupt context is
  the address of the registers the entry stub pushed; its word 7 is the saved EAX and its word
  8 the interrupted EIP. The state extends the process table with the scheduler's statics.
\<close>

unbundle bit_operations_syntax

subsection \<open>State\<close>

abbreviation MLFQ_LEVELS :: u8 where "MLFQ_LEVELS \<equiv> 3"

definition quantum :: "u8 list" where "quantum = [4, 8, 16]"

record idt_entry =
  offset_lo :: u16
  selector :: u16
  gate_zero :: u8
  gate_flags :: u8
  offset_hi :: u16

record sched = proc +
  tick_count :: u32
  rr_cursor :: nat
  timer_started :: bool
  sleep_queue :: "nat list"
  sleep_queue_count :: nat
  idt :: "idt_entry list"
  port_writes :: "(u16 \<times> u8) list"

text \<open>\<open>port_writes\<close> is the sequence of bytes written to I/O ports.\<close>

definition outb :: "u16 \<Rightarrow> u8 \<Rightarrow> sched \<Rightarrow> sched" where
  "outb port v k = k\<lparr>port_writes := port_writes k @ [(port, v)]\<rparr>"

subsection \<open>Interrupt gates, PIC and PIT\<close>

definition idt_set_gate :: "u8 \<Rightarrow> u32 \<Rightarrow> sched \<Rightarrow> sched" where
  "idt_set_gate vector addr k = k\<lparr>idt := (idt k)[unat vector :=
     \<lparr>offset_lo = ucast (addr AND 0xFFFF), selector = 0x08, gate_zero = 0, gate_flags = 0x8E,
      offset_hi = ucast (drop_bit 16 addr)\<rparr>]\<rparr>"

text \<open>The addresses of the four entry stubs of \<^verbatim>\<open>switch.asm\<close>.\<close>

record entries =
  irq0_entry :: u32
  scheduler_yield_entry :: u32
  scheduler_fork_entry :: u32
  scheduler_kill_entry :: u32

definition idt_init :: "entries \<Rightarrow> sched \<Rightarrow> sched" where
  "idt_init e k =
     (let k0 = k\<lparr>idt := map (\<lambda>_. \<lparr>offset_lo = 0, selector = 0, gate_zero = 0, gate_flags = 0, offset_hi = 0\<rparr>) (idt k)\<rparr>
      in idt_set_gate 0x32 (scheduler_kill_entry e) (idt_set_gate 0x31 (scheduler_fork_entry e)
           (idt_set_gate 0x30 (scheduler_yield_entry e) (idt_set_gate 32 (irq0_entry e) k0))))"

definition pic_init :: "sched \<Rightarrow> sched" where
  "pic_init k = fold (\<lambda>(p, v). outb p v)
     [(0x20, 0x11), (0xA0, 0x11), (0x21, 0x20), (0xA1, 0x28), (0x21, 0x04), (0xA1, 0x02),
      (0x21, 0x01), (0xA1, 0x01), (0x21, 0xFE), (0xA1, 0xFF), (0x20, 0x20)] k"

definition PIT_DIVISOR :: u32 where "PIT_DIVISOR = 1193182 div 100"

definition pit_init :: "sched \<Rightarrow> sched" where
  "pit_init k =
     (let divisor = ucast PIT_DIVISOR :: u16
      in outb 0x40 (ucast (drop_bit 8 divisor)) (outb 0x40 (ucast (divisor AND 0xFF)) (outb 0x43 0x36 k)))"

definition scheduler_init :: "entries \<Rightarrow> sched \<Rightarrow> sched" where
  "scheduler_init e k = (pit_init (pic_init (idt_init e (process_init k))))
     \<lparr>tick_count := 0, rr_cursor := 0, timer_started := False, sleep_queue_count := 0\<rparr>"

definition scheduler_start :: "sched \<Rightarrow> sched" where
  "scheduler_start k = k\<lparr>timer_started := True\<rparr>"

subsection \<open>The sleep queue\<close>

text \<open>
  The insertion loop: entries that wake later than \<open>x\<close> move up one place. \<open>wk\<close> gives the
  \<^verbatim>\<open>wake_tick\<close> of an index.
\<close>

fun insert_loop :: "(nat \<Rightarrow> u32) \<Rightarrow> nat \<Rightarrow> nat \<Rightarrow> nat list \<Rightarrow> nat list" where
  "insert_loop wk x 0 q = q[0 := x]"
| "insert_loop wk x (Suc n) q =
     (if wk (q ! n) \<le> wk x then q[Suc n := x] else insert_loop wk x n (q[Suc n := q ! n]))"

definition sleep_queue_insert :: "nat \<Rightarrow> sched \<Rightarrow> sched" where
  "sleep_queue_insert index k =
     (if MAX_PROCESSES \<le> sleep_queue_count k then k
      else k\<lparr>sleep_queue := insert_loop (\<lambda>i. p_wake_tick (pcbs k ! i)) index (sleep_queue_count k) (sleep_queue k),
             sleep_queue_count := sleep_queue_count k + 1\<rparr>)"

definition scheduler_block_current :: "u32 \<Rightarrow> sched \<Rightarrow> sched" where
  "scheduler_block_current wake k =
     (case current k of
        None \<Rightarrow> k
      | Some cur \<Rightarrow>
          if p_pid (pcbs k ! cur) = 0 then k
          else case scan (\<lambda>i. i = cur) 0 MAX_PROCESSES of
              None \<Rightarrow> k
            | Some i \<Rightarrow> sleep_queue_insert i
                (upd_pcb cur (\<lambda>p. p\<lparr>p_wake_tick := wake, p_state := PROC_BLOCKED\<rparr>) k))"

definition scheduler_block_forever :: "'a proc_scheme \<Rightarrow> 'a proc_scheme" where
  "scheduler_block_forever k =
     (case current k of
        None \<Rightarrow> k
      | Some cur \<Rightarrow>
          if p_pid (pcbs k ! cur) = 0 then k
          else upd_pcb cur (\<lambda>p. p\<lparr>p_wake_tick := 0, p_state := PROC_BLOCKED\<rparr>) k)"

definition scheduler_wake :: "nat option \<Rightarrow> 'a proc_scheme \<Rightarrow> 'a proc_scheme" where
  "scheduler_wake pp k =
     (case pp of
        None \<Rightarrow> k
      | Some i \<Rightarrow>
          if p_state (pcbs k ! i) \<noteq> PROC_BLOCKED then k
          else upd_pcb i (\<lambda>p. let p1 = p\<lparr>p_state := PROC_READY, p_wake_tick := 0, p_ticks_used := 0\<rparr>
                              in if p_quantum_ticks p1 = 0 then p1\<lparr>p_quantum_ticks := 4\<rparr> else p1) k)"

definition sleep_queue_remove :: "nat \<Rightarrow> sched \<Rightarrow> sched" where
  "sleep_queue_remove index k =
     (case scan (\<lambda>i. sleep_queue k ! i = index) 0 (sleep_queue_count k) of
        None \<Rightarrow> k
      | Some i \<Rightarrow> k\<lparr>sleep_queue := shift_down (sleep_queue k) i (sleep_queue_count k),
                    sleep_queue_count := sleep_queue_count k - 1\<rparr>)"

text \<open>The wake-up of one expired sleeper, with the boost to the highest level.\<close>

definition wake_pcb :: "pcb \<Rightarrow> pcb" where
  "wake_pcb p = (if p_state p = PROC_BLOCKED
     then p\<lparr>p_state := PROC_READY, p_wake_tick := 0, p_priority := 0, p_ticks_used := 0, p_quantum_ticks := quantum ! 0\<rparr>
     else p)"

lemma sleep_queue_remove_head:
  "0 < sleep_queue_count k \<Longrightarrow> sleep_queue_count (sleep_queue_remove (sleep_queue k ! 0) k) = sleep_queue_count k - 1"
  by (simp add: sleep_queue_remove_def scan.simps)

function wake_sleepers :: "sched \<Rightarrow> sched" where
  "wake_sleepers k =
     (if 0 < sleep_queue_count k then
        let index = sleep_queue k ! 0; w = p_wake_tick (pcbs k ! index) in
        if w = 0 \<or> tick_count k < w then k
        else wake_sleepers (upd_pcb index wake_pcb (sleep_queue_remove index k))
      else k)"
  by pat_completeness auto
termination
  by (relation "measure sleep_queue_count") (auto simp: upd_pcb_def sleep_queue_remove_head)

declare wake_sleepers.simps [simp del]

subsection \<open>Choosing the next process\<close>

definition runnable_at :: "pcb list \<Rightarrow> nat \<Rightarrow> bool" where
  "runnable_at ps i \<longleftrightarrow> p_state (ps ! i) = PROC_READY \<or> p_state (ps ! i) = PROC_RUNNING"

definition best_level :: "pcb list \<Rightarrow> u8" where
  "best_level ps = fold (\<lambda>i best. if runnable_at ps i \<and> p_priority (ps ! i) < best then p_priority (ps ! i) else best)
     [0..<MAX_PROCESSES] MLFQ_LEVELS"

definition pick_next :: "pcb list \<Rightarrow> nat \<Rightarrow> nat option" where
  "pick_next ps start =
     (if best_level ps = MLFQ_LEVELS then None
      else case scan (\<lambda>pass. runnable_at ps ((start + pass) mod MAX_PROCESSES)
             \<and> p_priority (ps ! ((start + pass) mod MAX_PROCESSES)) = best_level ps) 0 MAX_PROCESSES of
          None \<Rightarrow> None
        | Some pass \<Rightarrow> Some ((start + pass) mod MAX_PROCESSES))"

subsection \<open>Dispatch\<close>

text \<open>What a tick or a yield does to the PCB of the interrupted process; \<open>ctx = 0\<close> is the null context.\<close>

definition charge :: "bool \<Rightarrow> pcb \<Rightarrow> pcb" where
  "charge count_tick p =
     (if p_pid p = 0 then p\<lparr>p_priority := 0, p_quantum_ticks := quantum ! 0, p_ticks_used := 0\<rparr>
      else
        let p1 = p\<lparr>p_ticks_used := p_ticks_used p + 1\<rparr> in
        if count_tick \<and> p_quantum_ticks p1 \<le> p_ticks_used p1 then
          let p2 = (if unat (p_priority p1) + 1 < 3 then p1\<lparr>p_priority := p_priority p1 + 1\<rparr> else p1)
          in p2\<lparr>p_ticks_used := 0, p_quantum_ticks := quantum ! unat (p_priority p2)\<rparr>
        else p1)"

definition save_current :: "u32 \<Rightarrow> u32 \<Rightarrow> bool \<Rightarrow> pcb \<Rightarrow> pcb" where
  "save_current ctx eip count_tick p =
     (if ctx = 0 then p
      else
        let p1 = (if p_state p \<noteq> PROC_TERMINATED then p\<lparr>p_esp := ctx, p_eip := eip\<rparr> else p)
        in if p_state p1 = PROC_RUNNING then charge count_tick p1 else p1)"

definition dispatch :: "u32 \<Rightarrow> bool \<Rightarrow> sched \<Rightarrow> sched \<times> u32" where
  "dispatch ctx count_tick k0 =
     (let k1 = (if count_tick then wake_sleepers (k0\<lparr>tick_count := tick_count k0 + 1\<rparr>) else k0);
          cur = current k0;
          cur_index = (case cur of None \<Rightarrow> 0
             | Some c \<Rightarrow> (case scan (\<lambda>i. i = c) 0 MAX_PROCESSES of None \<Rightarrow> 0 | Some i \<Rightarrow> i));
          k2 = (case cur of None \<Rightarrow> k1
             | Some c \<Rightarrow> upd_pcb c (save_current ctx (load32 (mem k1) (ctx + 32)) count_tick) k1);
          k3 = k2\<lparr>rr_cursor := (cur_index + 1) mod MAX_PROCESSES\<rparr>;
          next = (case pick_next (pcbs k3) (rr_cursor k3) of
             Some n \<Rightarrow> Some n
           | None \<Rightarrow> (case cur of None \<Rightarrow> None
                      | Some c \<Rightarrow> if runnable_at (pcbs k3) (c + cur_index) then Some c else None))
      in case next of
           None \<Rightarrow> (k3, ctx)
         | Some n \<Rightarrow>
             let k4 = (case cur of None \<Rightarrow> k3
                  | Some c \<Rightarrow> if c \<noteq> n \<and> p_state (pcbs k3 ! c) = PROC_RUNNING
                             then upd_pcb c (\<lambda>p. p\<lparr>p_state := PROC_READY\<rparr>) k3 else k3);
                 k5 = process_set_current n (upd_pcb n (\<lambda>p. p\<lparr>p_state := PROC_RUNNING\<rparr>) k4)
             in (k5\<lparr>rr_cursor := (n + 1) mod MAX_PROCESSES\<rparr>, p_esp (pcbs k5 ! n)))"

definition scheduler_tick :: "u32 \<Rightarrow> sched \<Rightarrow> sched \<times> u32" where
  "scheduler_tick ctx k = (if \<not> timer_started k then (k, ctx) else dispatch ctx True k)"

definition scheduler_yield :: "u32 \<Rightarrow> sched \<Rightarrow> sched \<times> u32" where
  "scheduler_yield ctx k = dispatch ctx False k"

text \<open>\<^verbatim>\<open>sleep\<close> of \<^verbatim>\<open>process.c\<close> up to its trap; the result says whether it yields.\<close>

definition sleep :: "u32 \<Rightarrow> sched \<Rightarrow> sched \<times> bool" where
  "sleep ms k =
     (let ticks = (ms + 9) div 10 in
      case current k of
        None \<Rightarrow> (k, False)
      | Some cur \<Rightarrow>
          if p_pid (pcbs k ! cur) = 0 \<or> ticks = 0 then (k, False)
          else
            let wake = tick_count k + ticks;
                k1 = upd_pcb cur (\<lambda>p. p\<lparr>p_wake_tick := wake\<rparr>) k
            in (scheduler_block_current wake k1, True))"

subsection \<open>Fork\<close>

text \<open>Word \<open>n\<close> of an interrupt context.\<close>

definition ctx_get :: "u32 \<Rightarrow> nat \<Rightarrow> memory \<Rightarrow> u32" where
  "ctx_get ctx n m = load32 m (ctx + 4 * of_nat n)"

definition ctx_set :: "u32 \<Rightarrow> nat \<Rightarrow> u32 \<Rightarrow> memory \<Rightarrow> memory" where
  "ctx_set ctx n v m = store32 (ctx + 4 * of_nat n) v m"

text \<open>The loop that copies the parent's name; it returns the number of characters copied.\<close>

function copy_name_loop :: "nat \<Rightarrow> char list \<Rightarrow> char list \<Rightarrow> nat \<times> char list" where
  "copy_name_loop i src dst =
     (if i < PROCESS_NAME_LEN - 1 \<and> src ! i \<noteq> NUL then copy_name_loop (Suc i) src (dst[i := src ! i]) else (i, dst))"
  by pat_completeness auto
termination
  by (relation "measure (\<lambda>(i, src, dst). 16 - i)") auto

declare copy_name_loop.simps [simp del]

text \<open>
  The name of the child, and whether the terminating zero of the suffix falls on the byte
  behind the array (\<^verbatim>\<open>name[16]\<close>), which is the low byte of the next PCB's \<^verbatim>\<open>pid\<close>: \<^verbatim>\<open>name\<close> is
  the last member of \<^verbatim>\<open>pcb_t\<close> and ends on its last byte.
\<close>

definition fork_name :: "char list \<Rightarrow> char list \<Rightarrow> char list \<times> bool" where
  "fork_name src dst =
     (case copy_name_loop 0 src dst of
        (i, d) \<Rightarrow>
          let d0 = d[i := NUL] in
          if i < PROCESS_NAME_LEN - 1
          then (d0[i := CHR ''-'', i + 1 := CHR ''c'', i + 2 := NUL], i + 2 = PROCESS_NAME_LEN)
          else (d0, False))"

definition copy_stack :: "u32 \<Rightarrow> u32 \<Rightarrow> memory \<Rightarrow> memory" where
  "copy_stack dst src m = fold (\<lambda>i m. m(dst + of_nat i := m (src + of_nat i))) [0..<4096] m"

text \<open>The saved registers that point into the parent's stack are moved along.\<close>

definition relocate :: "u32 \<Rightarrow> u32 \<Rightarrow> u32 \<Rightarrow> u32 \<Rightarrow> memory \<Rightarrow> memory" where
  "relocate lo hi delta cctx m = fold (\<lambda>i m.
     let v = ctx_get cctx i m in if lo \<le> v \<and> v < hi then ctx_set cctx i (v + delta) m else m) [0..<8] m"

definition scheduler_fork :: "u32 \<Rightarrow> sched \<Rightarrow> sched \<times> u32" where
  "scheduler_fork ctx k =
     (let fail = (\<lambda>k :: sched. k\<lparr>mem := ctx_set ctx 7 (- 1) (mem k)\<rparr>) in
      case current k of
        None \<Rightarrow> (if ctx \<noteq> 0 then fail k else k, ctx)
      | Some par \<Rightarrow>
          if \<not> p_has_stack (pcbs k ! par) then (if ctx \<noteq> 0 then fail k else k, ctx)
          else case free_slot (pcbs k) of
              None \<Rightarrow> (fail k, ctx)
            | Some ch \<Rightarrow>
                let (pm, sb) = pmm_alloc_frame (pmm_of k);
                    k1 = upd_pcb ch (\<lambda>p. p\<lparr>p_pid := 0, p_stack_base := sb\<rparr>) (k\<lparr>pmm_of := pm\<rparr>)
                in if sb = 0 then (fail k1, ctx)
                   else
                     let parent = pcbs k ! par;
                         (k2, pid) = process_allocate_pid k1;
                         (nm, over) = fork_name (p_name parent) (p_name (pcbs k2 ! ch));
                         k3 = upd_pcb ch (\<lambda>p. p\<lparr>p_stack_top := sb + STACK_SIZE, p_has_stack := True,
                                p_state := PROC_READY, p_entry := p_entry parent, p_priority := p_priority parent,
                                p_quantum_ticks := p_quantum_ticks parent, p_ticks_used := 0, p_wake_tick := 0,
                                p_pid := pid, p_name := nm\<rparr>) k2;
                         k4 = (if over \<and> ch + 1 < MAX_PROCESSES
                               then upd_pcb (ch + 1) (\<lambda>p. p\<lparr>p_pid := p_pid p AND NOT 0xFF\<rparr>) k3 else k3);
                         m1 = copy_stack sb (p_stack_base parent) (mem k4);
                         delta = sb - p_stack_base parent;
                         cctx = ctx + delta;
                         m2 = relocate (p_stack_base parent) (p_stack_top parent) delta cctx m1;
                         m3 = ctx_set cctx 7 0 m2;
                         k5 = upd_pcb ch (\<lambda>p. p\<lparr>p_esp := cctx, p_eip := ctx_get cctx 8 m3\<rparr>) (k4\<lparr>mem := m3\<rparr>);
                         k6 = process_increment_count k5
                     in (k6\<lparr>mem := ctx_set ctx 7 (p_pid (pcbs k6 ! ch)) (mem k6)\<rparr>, ctx))"

subsection \<open>Kill\<close>

definition scheduler_kill :: "u32 \<Rightarrow> u32 \<Rightarrow> sched \<Rightarrow> sched \<times> u32" where
  "scheduler_kill ctx pid k =
     (let set_eax = (\<lambda>v (k :: sched). k\<lparr>mem := ctx_set ctx 7 v (mem k)\<rparr>) in
      if process_get pid k = None \<or> pid = 0 then (set_eax (- 1) k, ctx)
      else
        let target = the (process_get pid k);
            k1 = sleep_queue_remove target k;
            k2 = (if p_has_stack (pcbs k1 ! target)
                  then k1\<lparr>pmm_of := pmm_free_frame (p_stack_base (pcbs k1 ! target)) (pmm_of k1)\<rparr> else k1);
            k3 = upd_pcb target (\<lambda>p. p\<lparr>p_stack_base := 0, p_stack_top := 0, p_state := PROC_TERMINATED,
                   p_esp := 0, p_eip := 0, p_wake_tick := 0, p_entry := 0, p_has_stack := False\<rparr>) k2;
            k4 = set_eax 0 (process_decrement_count k3)
        in if current k \<noteq> Some target then (k4, ctx) else dispatch ctx False k4)"

subsection \<open>The sleep queue, lemmas\<close>

text \<open>The queue as a list, and its order.\<close>

definition sq :: "sched \<Rightarrow> nat list" where
  "sq k = take (sleep_queue_count k) (sleep_queue k)"

definition sorted_by :: "(nat \<Rightarrow> u32) \<Rightarrow> nat list \<Rightarrow> bool" where
  "sorted_by wk xs = sorted_wrt (\<lambda>x y. wk x \<le> wk y) xs"

text \<open>Insertion behind the last entry that wakes no later.\<close>

definition insert_after :: "(nat \<Rightarrow> u32) \<Rightarrow> nat \<Rightarrow> nat list \<Rightarrow> nat list" where
  "insert_after wk x xs = takeWhile (\<lambda>y. wk y \<le> wk x) xs @ x # dropWhile (\<lambda>y. wk y \<le> wk x) xs"

lemma set_insert_after [simp]: "set (insert_after wk x xs) = insert x (set xs)"
proof -
  have "set xs = set (takeWhile (\<lambda>y. wk y \<le> wk x) xs) \<union> set (dropWhile (\<lambda>y. wk y \<le> wk x) xs)"
    by (metis set_append takeWhile_dropWhile_id)
  then show ?thesis by (auto simp: insert_after_def)
qed

lemma mset_insert_after [simp]: "mset (insert_after wk x xs) = add_mset x (mset xs)"
proof -
  have "mset xs = mset (takeWhile (\<lambda>y. wk y \<le> wk x) xs) + mset (dropWhile (\<lambda>y. wk y \<le> wk x) xs)"
    by (metis mset_append takeWhile_dropWhile_id)
  then show ?thesis by (simp add: insert_after_def)
qed

lemma sorted_by_suffix: "sorted_by wk (xs @ [y]) \<Longrightarrow> x \<in> set xs \<Longrightarrow> wk x \<le> wk y"
  by (auto simp: sorted_by_def sorted_wrt_append)

lemma insert_after_snoc:
  assumes "sorted_by wk (xs @ [y])"
  shows "insert_after wk x (xs @ [y]) = (if wk y \<le> wk x then xs @ [y, x] else insert_after wk x xs @ [y])"
proof (cases "wk y \<le> wk x")
  case True
  then have "\<forall>z \<in> set (xs @ [y]). wk z \<le> wk x" using sorted_by_suffix [OF assms] by fastforce
  then have "takeWhile (\<lambda>y. wk y \<le> wk x) (xs @ [y]) = xs @ [y]" "dropWhile (\<lambda>y. wk y \<le> wk x) (xs @ [y]) = []"
    by (metis takeWhile_eq_all_conv, metis dropWhile_eq_Nil_conv)
  then show ?thesis using True by (simp add: insert_after_def)
next
  case False
  then show ?thesis
    by (cases "\<forall>z \<in> set xs. wk z \<le> wk x") (auto simp: insert_after_def takeWhile_append dropWhile_append,
      metis takeWhile_eq_all_conv)
qed

lemma sorted_by_butlast: "sorted_by wk (xs @ [y]) \<Longrightarrow> sorted_by wk xs"
  by (simp add: sorted_by_def sorted_wrt_append)

lemma insert_loop_take:
  assumes "n < length q" "sorted_by wk (take n q)"
  shows "length (insert_loop wk x n q) = length q"
    "take (Suc n) (insert_loop wk x n q) = insert_after wk x (take n q)"
    "\<And>j. n < j \<Longrightarrow> insert_loop wk x n q ! j = q ! j"
proof -
  have "length (insert_loop wk x n q) = length q
     \<and> take (Suc n) (insert_loop wk x n q) = insert_after wk x (take n q) \<and> (\<forall>j > n. insert_loop wk x n q ! j = q ! j)"
    using assms
  proof (induction n arbitrary: q)
    case 0
    then show ?case by (cases q) (auto simp: insert_after_def)
  next
    case (Suc n)
    have tk: "take (Suc n) q = take n q @ [q ! n]" using Suc.prems(1) by (simp add: take_Suc_conv_app_nth)
    show ?case
    proof (cases "wk (q ! n) \<le> wk x")
      case True
      then show ?thesis using Suc.prems insert_after_snoc [of wk "take n q" "q ! n" x] tk
        by (auto simp: take_Suc_conv_app_nth [of "Suc n"] )
    next
      case False
      let ?q = "q[Suc n := q ! n]"
      have IH: "length (insert_loop wk x n ?q) = length ?q"
        "take (Suc n) (insert_loop wk x n ?q) = insert_after wk x (take n ?q)" "\<forall>j > n. insert_loop wk x n ?q ! j = ?q ! j"
        using Suc.IH [of ?q] Suc.prems sorted_by_butlast [of wk "take n q" "q ! n"] tk by simp_all
      have "take (Suc (Suc n)) (insert_loop wk x n ?q) = insert_after wk x (take n q) @ [q ! n]"
        using IH Suc.prems(1) by (simp add: take_Suc_conv_app_nth [of "Suc n"])
      then show ?thesis using False IH Suc.prems insert_after_snoc [of wk "take n q" "q ! n" x] tk by auto
    qed
  qed
  then show "length (insert_loop wk x n q) = length q"
    "take (Suc n) (insert_loop wk x n q) = insert_after wk x (take n q)"
    "\<And>j. n < j \<Longrightarrow> insert_loop wk x n q ! j = q ! j" by blast+
qed

lemma sorted_insert_after: "sorted_by wk xs \<Longrightarrow> sorted_by wk (insert_after wk x xs)"
proof (induction xs rule: rev_induct)
  case Nil
  then show ?case by (simp add: sorted_by_def insert_after_def)
next
  case (snoc y xs)
  show ?case
  proof (cases "wk y \<le> wk x")
    case True
    then show ?thesis using snoc.prems sorted_by_suffix [OF snoc.prems]
      by (auto simp: insert_after_snoc sorted_by_def sorted_wrt_append intro: order_trans)
  next
    case False
    then show ?thesis using snoc sorted_by_butlast [OF snoc.prems] sorted_by_suffix [OF snoc.prems]
      by (auto simp: insert_after_snoc) (auto simp: sorted_by_def sorted_wrt_append)
  qed
qed

lemma remove1_as_take_drop:
  "i < length xs \<Longrightarrow> xs ! i = x \<Longrightarrow> (\<And>j. j < i \<Longrightarrow> xs ! j \<noteq> x) \<Longrightarrow> remove1 x xs = take i xs @ drop (Suc i) xs"
proof (induction xs arbitrary: i)
  case Nil
  then show ?case by simp
next
  case (Cons y ys)
  show ?case
  proof (cases i)
    case 0
    then show ?thesis using Cons.prems by simp
  next
    case (Suc j)
    then have "y \<noteq> x" using Cons.prems(3) [of 0] by simp
    moreover have "remove1 x ys = take j ys @ drop (Suc j) ys"
      using Cons.prems Suc by (intro Cons.IH) force+
    ultimately show ?thesis using Suc by simp
  qed
qed

lemma sq_remove:
  assumes "sleep_queue_count k \<le> length (sleep_queue k)"
  shows "sq (sleep_queue_remove x k) = remove1 x (sq k)"
    "sleep_queue_count (sleep_queue_remove x k) \<le> length (sleep_queue (sleep_queue_remove x k))"
    "length (sleep_queue (sleep_queue_remove x k)) = length (sleep_queue k)"
proof -
  let ?n = "sleep_queue_count k"
  have "sq (sleep_queue_remove x k) = remove1 x (sq k)
     \<and> sleep_queue_count (sleep_queue_remove x k) \<le> length (sleep_queue (sleep_queue_remove x k))
     \<and> length (sleep_queue (sleep_queue_remove x k)) = length (sleep_queue k)"
  proof (cases "scan (\<lambda>i. sleep_queue k ! i = x) 0 ?n")
    case None
    then have "x \<notin> set (sq k)" by (auto simp: sq_def scan_None_iff in_set_conv_nth)
    then show ?thesis using None assms by (simp add: sleep_queue_remove_def remove1_idem)
  next
    case (Some i)
    then have i: "i < ?n" "sleep_queue k ! i = x" "\<And>j. j < i \<Longrightarrow> sleep_queue k ! j \<noteq> x" by (auto simp: scan_Some_iff)
    have "remove1 x (sq k) = take i (sq k) @ drop (Suc i) (sq k)"
      using i assms by (intro remove1_as_take_drop) (auto simp: sq_def)
    then show ?thesis using i assms Some take_shift_down [of ?n "sleep_queue k" i]
      by (auto simp: sleep_queue_remove_def sq_def length_shift_down)
  qed
  then show "sq (sleep_queue_remove x k) = remove1 x (sq k)"
    "sleep_queue_count (sleep_queue_remove x k) \<le> length (sleep_queue (sleep_queue_remove x k))"
    "length (sleep_queue (sleep_queue_remove x k)) = length (sleep_queue k)" by blast+
qed

lemma sleep_queue_remove_kept [simp]:
  "pcbs (sleep_queue_remove x k) = pcbs k" "tick_count (sleep_queue_remove x k) = tick_count k"
  "pmm_of (sleep_queue_remove x k) = pmm_of k" "mem (sleep_queue_remove x k) = mem k"
  "current (sleep_queue_remove x k) = current k" "process_total (sleep_queue_remove x k) = process_total k"
  "timer_started (sleep_queue_remove x k) = timer_started k"
  by (simp_all add: sleep_queue_remove_def split: option.splits)

lemma sq_insert:
  assumes "length (sleep_queue k) = 16" "sleep_queue_count k < 16" "sorted_by (\<lambda>i. p_wake_tick (pcbs k ! i)) (sq k)"
  shows "sq (sleep_queue_insert x k) = insert_after (\<lambda>i. p_wake_tick (pcbs k ! i)) x (sq k)"
    "length (sleep_queue (sleep_queue_insert x k)) = 16" "sleep_queue_count (sleep_queue_insert x k) = sleep_queue_count k + 1"
  using insert_loop_take [of "sleep_queue_count k" "sleep_queue k" "\<lambda>i. p_wake_tick (pcbs k ! i)" x] assms
  by (simp_all add: sleep_queue_insert_def sq_def)

text \<open>Scheduler fields of PCB updates.\<close>

lemma upd_pcb_sched [simp]:
  "sq (upd_pcb i f k) = sq k" "sleep_queue_count (upd_pcb i f k) = sleep_queue_count k"
  "sleep_queue (upd_pcb i f k) = sleep_queue k" "tick_count (upd_pcb i f k) = tick_count k"
  "timer_started (upd_pcb i f k) = timer_started k" "rr_cursor (upd_pcb i f k) = rr_cursor k"
  by (simp_all add: upd_pcb_def sq_def)

text \<open>
  The queue is in order: distinct indexes of blocked processes with a wake-up time, sorted by it.
\<close>

definition queue_inv :: "sched \<Rightarrow> bool" where
  "queue_inv k \<longleftrightarrow> length (pcbs k) = 16 \<and> length (sleep_queue k) = 16 \<and> sleep_queue_count k \<le> 16
     \<and> distinct (sq k) \<and> sorted_by (\<lambda>i. p_wake_tick (pcbs k ! i)) (sq k)
     \<and> (\<forall>i \<in> set (sq k). i < 16 \<and> p_state (pcbs k ! i) = PROC_BLOCKED \<and> p_wake_tick (pcbs k ! i) \<noteq> 0)"

text \<open>The sleepers whose time has come.\<close>

definition expired :: "sched \<Rightarrow> nat set" where
  "expired k = {i \<in> set (sq k). p_wake_tick (pcbs k ! i) \<le> tick_count k}"

lemma sorted_by_cong: "(\<And>i. i \<in> set xs \<Longrightarrow> f i = g i) \<Longrightarrow> sorted_by f xs = sorted_by g xs"
  by (induction xs) (auto simp: sorted_by_def)

lemma sq_Cons:
  assumes "queue_inv k" "0 < sleep_queue_count k"
  shows "sq k = sleep_queue k ! 0 # tl (sq k)"
proof -
  have "length (sq k) = sleep_queue_count k" using assms by (simp add: sq_def queue_inv_def)
  then have "sq k \<noteq> []" using assms(2) by auto
  moreover have "hd (sq k) = sleep_queue k ! 0"
    using assms by (cases "sleep_queue k") (auto simp: sq_def queue_inv_def take_Cons split: nat.splits)
  ultimately show ?thesis by (metis list.collapse)
qed

lemma wake_step:
  assumes "queue_inv k" "0 < sleep_queue_count k" "p_wake_tick (pcbs k ! (sleep_queue k ! 0)) \<le> tick_count k"
  defines "x \<equiv> sleep_queue k ! 0"
  defines "k' \<equiv> upd_pcb x wake_pcb (sleep_queue_remove x k)"
  shows "queue_inv k'" "sq k' = tl (sq k)" "expired k = insert x (expired k')" "x \<notin> expired k'"
    "pcbs k' = (pcbs k)[x := wake_pcb (pcbs k ! x)]" "x < 16" "x \<in> set (sq k)"
proof -
  have xs: "sq k = x # tl (sq k)" unfolding x_def using sq_Cons [OF assms(1,2)] .
  have inv: "length (pcbs k) = 16" "length (sleep_queue k) = 16" "sleep_queue_count k \<le> 16" "distinct (sq k)"
    "sorted_by (\<lambda>i. p_wake_tick (pcbs k ! i)) (sq k)"
    "\<And>i. i \<in> set (sq k) \<Longrightarrow> i < 16 \<and> p_state (pcbs k ! i) = PROC_BLOCKED \<and> p_wake_tick (pcbs k ! i) \<noteq> 0"
    using assms(1) by (auto simp: queue_inv_def)
  show xin: "x \<in> set (sq k)" using xs by (metis list.set_intros(1))
  show x16: "x < 16" using inv(6) [OF xin] by simp
  show p': "pcbs k' = (pcbs k)[x := wake_pcb (pcbs k ! x)]" by (simp add: k'_def upd_pcb_def)
  have notin: "x \<notin> set (tl (sq k))" using inv(4) xs by (metis distinct.simps(2))
  have rem: "sq k' = remove1 x (sq k)" unfolding k'_def using sq_remove(1) [of k x] inv(2,3) by simp
  also have "\<dots> = tl (sq k)" by (subst xs) simp
  finally show sq': "sq k' = tl (sq k)" .
  have same: "pcbs k' ! i = pcbs k ! i" if "i \<in> set (sq k')" for i
    using that notin sq' p' by (metis nth_list_update_neq)
  have sub: "set (sq k') \<subseteq> set (sq k)" unfolding sq' by (metis list.set_sel(2) list.sel(2) subsetI)
  have len': "length (sleep_queue k') = 16" "sleep_queue_count k' \<le> 16"
    unfolding k'_def using sq_remove [of k x] inv(2,3) by simp_all
  have "sorted_by (\<lambda>i. p_wake_tick (pcbs k' ! i)) (sq k') = sorted_by (\<lambda>i. p_wake_tick (pcbs k ! i)) (sq k')"
    by (rule sorted_by_cong) (simp add: same)
  also have "\<dots>" unfolding sq' using inv(5) by (subst (asm) xs) (simp add: sorted_by_def)
  finally have srt: "sorted_by (\<lambda>i. p_wake_tick (pcbs k' ! i)) (sq k')" .
  have "distinct (sq k')" unfolding sq' using inv(4) by (rule distinct_tl)
  then show "queue_inv k'" using len' srt inv(1,6) sub same p' unfolding queue_inv_def by auto
  have t: "tick_count k' = tick_count k" by (simp add: k'_def)
  show "x \<notin> expired k'" using notin sq' by (simp add: expired_def)
  have "i \<in> expired k \<longleftrightarrow> i = x \<or> i \<in> expired k'" for i
  proof -
    have "i \<in> set (sq k) \<longleftrightarrow> i = x \<or> i \<in> set (sq k')" unfolding sq' by (subst xs) simp
    then show ?thesis using assms(3) same [of i] t by (auto simp: expired_def x_def)
  qed
  then show "expired k = insert x (expired k')" by blast
qed

lemma wake_sleepers_spec:
  "queue_inv k \<Longrightarrow> queue_inv (wake_sleepers k)
     \<and> sq (wake_sleepers k) = filter (\<lambda>i. i \<notin> expired k) (sq k)
     \<and> (\<forall>i. pcbs (wake_sleepers k) ! i = (if i \<in> expired k then wake_pcb (pcbs k ! i) else pcbs k ! i))
     \<and> tick_count (wake_sleepers k) = tick_count k \<and> current (wake_sleepers k) = current k
     \<and> pmm_of (wake_sleepers k) = pmm_of k \<and> mem (wake_sleepers k) = mem k
     \<and> timer_started (wake_sleepers k) = timer_started k"
proof (induction k rule: wake_sleepers.induct)
  case (1 k)
  let ?x = "sleep_queue k ! 0" and ?w = "p_wake_tick (pcbs k ! (sleep_queue k ! 0))"
  show ?case
  proof (cases "0 < sleep_queue_count k \<and> ?w \<noteq> 0 \<and> \<not> tick_count k < ?w")
    case True
    define k' where "k' = upd_pcb ?x wake_pcb (sleep_queue_remove ?x k)"
    have le: "?w \<le> tick_count k" using True by (simp add: not_less)
    note st = wake_step [OF "1.prems" _ le, folded k'_def]
    have inv': "queue_inv k'" using st(1) True by simp
    have eq: "wake_sleepers k = wake_sleepers k'" using True by (subst wake_sleepers.simps) (simp add: Let_def k'_def)
    have IH: "queue_inv (wake_sleepers k')"
      "sq (wake_sleepers k') = filter (\<lambda>i. i \<notin> expired k') (sq k')"
      "\<And>i. pcbs (wake_sleepers k') ! i = (if i \<in> expired k' then wake_pcb (pcbs k' ! i) else pcbs k' ! i)"
      "tick_count (wake_sleepers k') = tick_count k'" "current (wake_sleepers k') = current k'"
      "pmm_of (wake_sleepers k') = pmm_of k'" "mem (wake_sleepers k') = mem k'" "timer_started (wake_sleepers k') = timer_started k'"
      using "1.IH" True inv' by (auto simp: k'_def Let_def not_less)
    have len: "length (pcbs k) = 16" and d: "distinct (sq k)" using "1.prems" by (simp_all add: queue_inv_def)
    have xs: "sq k = ?x # sq k'" using sq_Cons [OF "1.prems"] True st(2) by simp
    have "filter (\<lambda>i. i \<notin> expired k') (sq k') = filter (\<lambda>i. i \<notin> expired k) (sq k)"
    proof -
      have "?x \<notin> set (sq k')" using d xs by (metis distinct.simps(2))
      then have "filter (\<lambda>i. i \<notin> expired k) (sq k') = filter (\<lambda>i. i \<notin> expired k') (sq k')"
        using st(3) True by (intro filter_cong) auto
      then show ?thesis using st(3) True by (subst xs) simp
    qed
    moreover have "pcbs (wake_sleepers k') ! i = (if i \<in> expired k then wake_pcb (pcbs k ! i) else pcbs k ! i)" for i
      using IH(3) [of i] st(3-6) True len by (cases "i = ?x") auto
    ultimately show ?thesis unfolding eq using IH by (simp add: k'_def)
  next
    case False
    have eq: "wake_sleepers k = k" using False by (subst wake_sleepers.simps) (auto simp: Let_def)
    have "expired k = {}"
    proof (cases "0 < sleep_queue_count k")
      case True
      have xs: "sq k = ?x # tl (sq k)" using sq_Cons [OF "1.prems" True] .
      have "?w \<noteq> 0" using "1.prems" xs unfolding queue_inv_def by (metis list.set_intros(1))
      then have lt: "tick_count k < ?w" using False True by simp
      have "sorted_by (\<lambda>i. p_wake_tick (pcbs k ! i)) (?x # tl (sq k))" using "1.prems" xs by (simp add: queue_inv_def)
      then have "\<forall>i \<in> set (?x # tl (sq k)). ?w \<le> p_wake_tick (pcbs k ! i)" by (auto simp: sorted_by_def)
      then have "\<forall>i \<in> set (sq k). ?w \<le> p_wake_tick (pcbs k ! i)" using xs by metis
      then show ?thesis using lt by (force simp: expired_def)
    qed (simp add: expired_def sq_def)
    then show ?thesis unfolding eq using "1.prems" by simp
  qed
qed

subsection \<open>Choosing, lemmas\<close>

lemma best_level_fold:
  fixes ps :: "pcb list"
  defines "f \<equiv> \<lambda>i best. if runnable_at ps i \<and> p_priority (ps ! i) < best then p_priority (ps ! i) else best"
  shows "fold f xs b \<le> b \<and> (\<forall>i \<in> set xs. runnable_at ps i \<longrightarrow> fold f xs b \<le> p_priority (ps ! i))
     \<and> (fold f xs b = b \<or> (\<exists>i \<in> set xs. runnable_at ps i \<and> p_priority (ps ! i) = fold f xs b))"
proof (induction xs rule: rev_induct)
  case Nil
  then show ?case by simp
next
  case (snoc x xs)
  let ?b = "fold f xs b"
  have eq: "fold f (xs @ [x]) b = (if runnable_at ps x \<and> p_priority (ps ! x) < ?b then p_priority (ps ! x) else ?b)"
    by (simp add: f_def)
  show ?case
  proof (cases "runnable_at ps x \<and> p_priority (ps ! x) < ?b")
    case True
    then show ?thesis using snoc unfolding eq by (auto intro: order_trans less_imp_le)
  next
    case False
    then show ?thesis using snoc unfolding eq by (auto simp: not_less)
  qed
qed

lemma best_level_spec:
  "best_level ps \<le> 3" "i < 16 \<Longrightarrow> runnable_at ps i \<Longrightarrow> best_level ps \<le> p_priority (ps ! i)"
  "best_level ps \<noteq> 3 \<Longrightarrow> \<exists>i < 16. runnable_at ps i \<and> p_priority (ps ! i) = best_level ps"
  using best_level_fold [of ps "[0..<16]" 3] unfolding best_level_def by auto

text \<open>How far \<open>i\<close> is behind \<open>start\<close> in the circle of the 16 slots.\<close>

definition cdist :: "nat \<Rightarrow> nat \<Rightarrow> nat" where
  "cdist start i = (i + 16 - start) mod 16"

lemma cdist_add: "start < 16 \<Longrightarrow> i < 16 \<Longrightarrow> (start + cdist start i) mod 16 = i"
  by (auto simp: cdist_def mod_if)

lemma cdist_of_add: "start < 16 \<Longrightarrow> d < 16 \<Longrightarrow> cdist start ((start + d) mod 16) = d"
  by (auto simp: cdist_def mod_if)

lemma cdist_less [simp]: "cdist start i < 16"
  by (simp add: cdist_def)

lemma pick_next_Some:
  assumes "pick_next ps start = Some j" "start < 16"
  shows "j < 16" "runnable_at ps j" "p_priority (ps ! j) < 3"
    "i < 16 \<Longrightarrow> runnable_at ps i \<Longrightarrow> p_priority (ps ! j) \<le> p_priority (ps ! i)"
    "i < 16 \<Longrightarrow> runnable_at ps i \<Longrightarrow> p_priority (ps ! i) = p_priority (ps ! j) \<Longrightarrow> cdist start j \<le> cdist start i"
proof -
  from assms(1) obtain d where d: "best_level ps \<noteq> 3" "j = (start + d) mod 16"
      "scan (\<lambda>pass. runnable_at ps ((start + pass) mod 16) \<and> p_priority (ps ! ((start + pass) mod 16)) = best_level ps) 0 16 = Some d"
    by (auto simp: pick_next_def split: if_splits option.splits)
  then have s: "d < 16" "runnable_at ps j" "p_priority (ps ! j) = best_level ps"
    "\<And>e. e < d \<Longrightarrow> \<not> (runnable_at ps ((start + e) mod 16) \<and> p_priority (ps ! ((start + e) mod 16)) = best_level ps)"
    by (auto simp: scan_Some_iff)
  show "j < 16" "runnable_at ps j" using d(2) s(2) by simp_all
  show "p_priority (ps ! j) < 3" using best_level_spec(1) [of ps] d(1) s(3) by simp
  show "p_priority (ps ! j) \<le> p_priority (ps ! i)" if "i < 16" "runnable_at ps i"
    using best_level_spec(2) [OF that] s(3) by simp
  show "cdist start j \<le> cdist start i" if "i < 16" "runnable_at ps i" "p_priority (ps ! i) = p_priority (ps ! j)"
  proof (rule ccontr)
    assume "\<not> ?thesis"
    then have "cdist start i < d" using cdist_of_add [OF assms(2) s(1)] d(2) by simp
    then show False using s(4) [of "cdist start i"] cdist_add [OF assms(2) that(1)] that(2,3) s(3) by simp
  qed
qed

lemma pick_next_None:
  assumes "start < 16"
  shows "pick_next ps start = None \<longleftrightarrow> (\<forall>i < 16. runnable_at ps i \<longrightarrow> 3 \<le> p_priority (ps ! i))"
proof
  assume "pick_next ps start = None"
  then consider "best_level ps = 3"
    | "best_level ps \<noteq> 3" "\<forall>d < 16. \<not> (runnable_at ps ((start + d) mod 16) \<and> p_priority (ps ! ((start + d) mod 16)) = best_level ps)"
    by (auto simp: pick_next_def scan_None_iff split: if_splits option.splits)
  then show "\<forall>i < 16. runnable_at ps i \<longrightarrow> 3 \<le> p_priority (ps ! i)"
  proof cases
    case 1
    then show ?thesis using best_level_spec(2) [of _ ps] by auto
  next
    case 2
    obtain i where i: "i < 16" "runnable_at ps i" "p_priority (ps ! i) = best_level ps"
      using best_level_spec(3) [OF 2(1)] by blast
    then show ?thesis using 2(2) [rule_format, of "cdist start i"] cdist_add [OF assms i(1)] by simp
  qed
next
  assume a: "\<forall>i < 16. runnable_at ps i \<longrightarrow> 3 \<le> p_priority (ps ! i)"
  show "pick_next ps start = None"
  proof (rule ccontr)
    assume "pick_next ps start \<noteq> None"
    then obtain j where "pick_next ps start = Some j" by blast
    note p = pick_next_Some [OF this assms]
    show False using a p(1-3) by (auto simp: not_less [symmetric])
  qed
qed

subsection \<open>Dispatch, lemmas\<close>

lemma queue_inv_upd:
  assumes "queue_inv k" "i \<in> set (sq k) \<Longrightarrow> p_state (f (pcbs k ! i)) = PROC_BLOCKED \<and> p_wake_tick (f (pcbs k ! i)) = p_wake_tick (pcbs k ! i)"
  shows "queue_inv (upd_pcb i f k)"
proof (cases "i < 16")
  case True
  have len: "length (pcbs k) = 16" using assms(1) by (simp add: queue_inv_def)
  have w: "p_wake_tick (pcbs (upd_pcb i f k) ! j) = p_wake_tick (pcbs k ! j)" "p_state (pcbs (upd_pcb i f k) ! j) = PROC_BLOCKED"
    if "j \<in> set (sq k)" for j
    using that assms True len by (auto simp: pcbs_upd_pcb queue_inv_def)
  then have "sorted_by (\<lambda>j. p_wake_tick (pcbs (upd_pcb i f k) ! j)) (sq k) = sorted_by (\<lambda>j. p_wake_tick (pcbs k ! j)) (sq k)"
    by (intro sorted_by_cong) simp
  then show ?thesis using assms(1) w by (simp add: queue_inv_def)
next
  case False
  then have "(pcbs k)[i := f (pcbs k ! i)] = pcbs k" using assms(1) by (intro list_update_beyond) (simp add: queue_inv_def)
  then show ?thesis using assms(1) by (simp add: upd_pcb_def)
qed

text \<open>
  The invariant of the scheduler: one current process, at most it is RUNNING, levels below 3,
  and the shell in slot 0 is always able to run, at level 0.
\<close>

definition sched_inv :: "sched \<Rightarrow> bool" where
  "sched_inv k \<longleftrightarrow> queue_inv k \<and> (\<exists>c < 16. current k = Some c \<and> (\<forall>i < 16. p_state (pcbs k ! i) = PROC_RUNNING \<longrightarrow> i = c))
     \<and> (\<forall>i < 16. p_priority (pcbs k ! i) < 3)
     \<and> p_pid (pcbs k ! 0) = 0 \<and> runnable_at (pcbs k) 0 \<and> p_priority (pcbs k ! 0) = 0"

lemma sched_invI:
  assumes "queue_inv k" "current k = Some c" "c < 16" "\<And>i. i < 16 \<Longrightarrow> p_state (pcbs k ! i) = PROC_RUNNING \<Longrightarrow> i = c"
    "\<And>i. i < 16 \<Longrightarrow> p_priority (pcbs k ! i) < 3" "p_pid (pcbs k ! 0) = 0" "runnable_at (pcbs k) 0" "p_priority (pcbs k ! 0) = 0"
  shows "sched_inv k"
  using assms unfolding sched_inv_def by blast

lemma sched_invD:
  assumes "sched_inv k"
  shows "queue_inv k" "i < 16 \<Longrightarrow> p_priority (pcbs k ! i) < 3" "p_pid (pcbs k ! 0) = 0" "runnable_at (pcbs k) 0"
    "p_priority (pcbs k ! 0) = 0" "current k = Some c \<Longrightarrow> c < 16"
    "current k = Some c \<Longrightarrow> i < 16 \<Longrightarrow> p_state (pcbs k ! i) = PROC_RUNNING \<Longrightarrow> i = c" "length (pcbs k) = 16"
    "\<exists>c < 16. current k = Some c"
  using assms by (auto simp: sched_inv_def queue_inv_def)

lemma sched_inv_upd:
  assumes "sched_inv k" "queue_inv (upd_pcb i f k)"
    and "i < 16 \<Longrightarrow> p_priority (f (pcbs k ! i)) < 3"
    and "p_state (f (pcbs k ! i)) = PROC_RUNNING \<Longrightarrow> current k = Some i"
    and "i = 0 \<Longrightarrow> p_pid (f (pcbs k ! i)) = 0 \<and> p_priority (f (pcbs k ! i)) = 0
        \<and> (p_state (f (pcbs k ! i)) = PROC_READY \<or> p_state (f (pcbs k ! i)) = PROC_RUNNING)"
  shows "sched_inv (upd_pcb i f k)"
proof (cases "i < 16")
  case True
  have len: "length (pcbs k) = 16" using assms(1) by (simp add: sched_inv_def queue_inv_def)
  then show ?thesis using assms True unfolding sched_inv_def runnable_at_def by (auto simp: pcbs_upd_pcb)
next
  case False
  then have "(pcbs k)[i := f (pcbs k ! i)] = pcbs k"
    using assms(1) by (intro list_update_beyond) (simp add: sched_inv_def queue_inv_def)
  then show ?thesis using assms(1) by (simp add: upd_pcb_def)
qed

lemma charge_keeps [simp]:
  "p_state (charge t p) = p_state p" "p_wake_tick (charge t p) = p_wake_tick p" "p_pid (charge t p) = p_pid p"
  "p_has_stack (charge t p) = p_has_stack p" "p_stack_base (charge t p) = p_stack_base p" "p_stack_top (charge t p) = p_stack_top p"
  "p_esp (charge t p) = p_esp p"
  by (simp_all add: charge_def Let_def)

lemma save_keeps [simp]:
  "p_state (save_current ctx eip t p) = p_state p" "p_wake_tick (save_current ctx eip t p) = p_wake_tick p"
  "p_pid (save_current ctx eip t p) = p_pid p"
  "p_has_stack (save_current ctx eip t p) = p_has_stack p" "p_stack_base (save_current ctx eip t p) = p_stack_base p"
  "p_stack_top (save_current ctx eip t p) = p_stack_top p"
  by (simp_all add: save_current_def Let_def)

lemma word8_lt3: "(x :: u8) < 3 \<longleftrightarrow> unat x < 3"
  by (simp add: word_less_nat_alt)

lemma charge_priority:
  assumes "p_priority p < 3"
  shows "p_priority (charge t p) < 3" "p_pid p = 0 \<Longrightarrow> p_priority (charge t p) = 0"
proof -
  have "p_priority p + 1 < 3" if "unat (p_priority p) + 1 < 3"
  proof -
    have "unat (p_priority p + 1) = unat (p_priority p) + 1" using that by (simp add: unat_word_ariths)
    then show ?thesis using that by (simp add: word8_lt3)
  qed
  then show "p_priority (charge t p) < 3" using assms by (auto simp: charge_def Let_def)
  show "p_pid p = 0 \<Longrightarrow> p_priority (charge t p) = 0" by (simp add: charge_def)
qed

lemma save_priority:
  assumes "p_priority p < 3"
  shows "p_priority (save_current ctx eip t p) < 3"
    "p_pid p = 0 \<Longrightarrow> p_priority p = 0 \<Longrightarrow> p_priority (save_current ctx eip t p) = 0"
  using assms charge_priority [of "p\<lparr>p_esp := ctx, p_eip := eip\<rparr>" t] charge_priority [of p t]
  by (auto simp: save_current_def Let_def)

text \<open>The state a dispatch decides on: sleepers woken, the interrupted context saved.\<close>

definition prepared :: "u32 \<Rightarrow> bool \<Rightarrow> sched \<Rightarrow> sched" where
  "prepared ctx t k =
     (let k1 = (if t then wake_sleepers (k\<lparr>tick_count := tick_count k + 1\<rparr>) else k)
      in case current k of None \<Rightarrow> k1 | Some c \<Rightarrow> upd_pcb c (save_current ctx (load32 (mem k1) (ctx + 32)) t) k1)"

definition switch_to :: "nat \<Rightarrow> nat \<Rightarrow> sched \<Rightarrow> sched" where
  "switch_to c n k =
     (process_set_current n (upd_pcb n (\<lambda>p. p\<lparr>p_state := PROC_RUNNING\<rparr>)
        (if c \<noteq> n \<and> p_state (pcbs k ! c) = PROC_RUNNING then upd_pcb c (\<lambda>p. p\<lparr>p_state := PROC_READY\<rparr>) k else k)))
     \<lparr>rr_cursor := (n + 1) mod 16\<rparr>"

lemma dispatch_eq:
  assumes "current k = Some c" "c < 16" "pick_next (pcbs (prepared ctx t k)) ((c + 1) mod 16) = Some n"
  shows "dispatch ctx t k = (switch_to c n ((prepared ctx t k)\<lparr>rr_cursor := (c + 1) mod 16\<rparr>),
     p_esp (pcbs (switch_to c n ((prepared ctx t k)\<lparr>rr_cursor := (c + 1) mod 16\<rparr>)) ! n))"
  using assms scan_eq_index [of c 16]
  by (simp add: dispatch_def prepared_def switch_to_def Let_def process_set_current_def)

lemma sched_inv_tick [simp]: "sched_inv (k\<lparr>tick_count := a\<rparr>) = sched_inv k" "sched_inv (k\<lparr>rr_cursor := b\<rparr>) = sched_inv k"
  "queue_inv (k\<lparr>tick_count := a\<rparr>) = queue_inv k" "queue_inv (k\<lparr>rr_cursor := b\<rparr>) = queue_inv k"
  by (simp_all add: sched_inv_def queue_inv_def sq_def)

lemma wake_sleepers_inv:
  assumes "sched_inv k"
  shows "sched_inv (wake_sleepers k)"
proof -
  have q: "queue_inv k" using assms by (simp add: sched_inv_def)
  note w = wake_sleepers_spec [OF q]
  have blocked: "p_state (pcbs k ! i) = PROC_BLOCKED" if "i \<in> expired k" for i
    using q that by (auto simp: queue_inv_def expired_def)
  have zero: "0 \<notin> expired k" using blocked [of 0] assms by (auto simp: sched_inv_def runnable_at_def)
  obtain c where c: "current k = Some c" using sched_invD(9) [OF assms] by blast
  show ?thesis
  proof (rule sched_invI)
    show "queue_inv (wake_sleepers k)" "current (wake_sleepers k) = Some c" using w c by simp_all
    show "c < 16" using sched_invD(6) [OF assms c] .
    show "i = c" if "i < 16" "p_state (pcbs (wake_sleepers k) ! i) = PROC_RUNNING" for i
      using that w sched_invD(7) [OF assms c that(1)] by (cases "i \<in> expired k") (auto simp: wake_pcb_def split: if_splits)
    show "p_priority (pcbs (wake_sleepers k) ! i) < 3" if "i < 16" for i
      using w sched_invD(2) [OF assms that] by (cases "i \<in> expired k") (auto simp: wake_pcb_def)
    show "p_pid (pcbs (wake_sleepers k) ! 0) = 0" "p_priority (pcbs (wake_sleepers k) ! 0) = 0"
      using w zero sched_invD(3,5) [OF assms] by simp_all
    show "runnable_at (pcbs (wake_sleepers k)) 0"
      using w zero sched_invD(4) [OF assms] by (simp add: runnable_at_def)
  qed
qed

lemma prepared_inv:
  assumes "sched_inv k"
  shows "sched_inv (prepared ctx t k)" "current (prepared ctx t k) = current k"
proof -
  define k1 where "k1 = (if t then wake_sleepers (k\<lparr>tick_count := tick_count k + 1\<rparr>) else k)"
  have inv1: "sched_inv k1" using assms wake_sleepers_inv [of "k\<lparr>tick_count := tick_count k + 1\<rparr>"] by (simp add: k1_def)
  have q: "queue_inv (k\<lparr>tick_count := tick_count k + 1\<rparr>)" using assms by (simp add: sched_inv_def)
  have cur1: "current k1 = current k" using wake_sleepers_spec [OF q] by (simp add: k1_def)
  obtain c where c: "current k = Some c" "c < 16" using assms by (auto simp: sched_inv_def)
  have p: "prepared ctx t k = upd_pcb c (save_current ctx (load32 (mem k1) (ctx + 32)) t) k1"
    using c by (simp add: prepared_def k1_def Let_def)
  have q1: "queue_inv k1" "p_priority (pcbs k1 ! c) < 3" using inv1 c(2) by (simp_all add: sched_inv_def)
  have "queue_inv (prepared ctx t k)" unfolding p using q1(1) by (intro queue_inv_upd) (auto simp: queue_inv_def)
  then show "sched_inv (prepared ctx t k)" unfolding p
  proof (rule sched_inv_upd [OF inv1])
    show "p_priority (save_current ctx (load32 (mem k1) (ctx + 32)) t (pcbs k1 ! c)) < 3" by (rule save_priority(1) [OF q1(2)])
    show "current k1 = Some c" using cur1 c by simp
    show "p_pid (save_current ctx (load32 (mem k1) (ctx + 32)) t (pcbs k1 ! c)) = 0
        \<and> p_priority (save_current ctx (load32 (mem k1) (ctx + 32)) t (pcbs k1 ! c)) = 0
        \<and> (p_state (save_current ctx (load32 (mem k1) (ctx + 32)) t (pcbs k1 ! c)) = PROC_READY
          \<or> p_state (save_current ctx (load32 (mem k1) (ctx + 32)) t (pcbs k1 ! c)) = PROC_RUNNING)" if "c = 0"
      using that sched_invD(3-5) [OF inv1] save_priority(2) [OF q1(2)] by (simp add: runnable_at_def)
  qed
  show "current (prepared ctx t k) = current k" unfolding p using cur1 by simp
qed

lemma switch_to_inv:
  assumes "sched_inv k" "current k = Some c" "n < 16" "runnable_at (pcbs k) n"
  shows "sched_inv (switch_to c n k)" "current (switch_to c n k) = Some n" "p_state (pcbs (switch_to c n k) ! n) = PROC_RUNNING"
    "i < 16 \<Longrightarrow> p_state (pcbs (switch_to c n k) ! i) = PROC_RUNNING \<Longrightarrow> i = n"
    "p_esp (pcbs (switch_to c n k) ! n) = p_esp (pcbs k ! n)" "p_priority (pcbs (switch_to c n k) ! n) = p_priority (pcbs k ! n)"
proof -
  have len: "length (pcbs k) = 16" and c16: "c < 16" and run: "\<And>i. i < 16 \<Longrightarrow> p_state (pcbs k ! i) = PROC_RUNNING \<Longrightarrow> i = c"
    using assms(1,2) by (auto simp: sched_inv_def queue_inv_def)
  define k1 where "k1 = (if c \<noteq> n \<and> p_state (pcbs k ! c) = PROC_RUNNING then upd_pcb c (\<lambda>p. p\<lparr>p_state := PROC_READY\<rparr>) k else k)"
  define k2 where "k2 = upd_pcb n (\<lambda>p. p\<lparr>p_state := PROC_RUNNING\<rparr>) k1"
  have s: "switch_to c n k = k2\<lparr>current := Some n, rr_cursor := (n + 1) mod 16\<rparr>"
    by (simp only: switch_to_def k2_def k1_def process_set_current_def)
  have q: "queue_inv k" using sched_invD(1) [OF assms(1)] .
  have blocked: "p_state (pcbs k ! i) = PROC_BLOCKED" if "i \<in> set (sq k)" for i using q that by (simp add: queue_inv_def)
  have q1: "queue_inv k1"
  proof (cases "c \<noteq> n \<and> p_state (pcbs k ! c) = PROC_RUNNING")
    case True
    have "queue_inv (upd_pcb c (\<lambda>p. p\<lparr>p_state := PROC_READY\<rparr>) k)"
      by (rule queue_inv_upd [OF q]) (use True blocked in fastforce)
    then show ?thesis using True by (simp add: k1_def)
  next
    case False
    then show ?thesis using q by (simp only: k1_def if_False)
  qed
  have sq1: "sq k1 = sq k" by (simp add: k1_def)
  have "n \<notin> set (sq k1)" using blocked [of n] assms(4) sq1 by (auto simp: runnable_at_def)
  then have q2: "queue_inv k2" unfolding k2_def by (intro queue_inv_upd [OF q1]) simp
  have st: "pcbs k2 ! i = (if i = n then (pcbs k ! n)\<lparr>p_state := PROC_RUNNING\<rparr>
      else if i = c \<and> p_state (pcbs k ! c) = PROC_RUNNING then (pcbs k ! c)\<lparr>p_state := PROC_READY\<rparr> else pcbs k ! i)" for i
    using len c16 assms(3) by (auto simp: k2_def k1_def pcbs_upd_pcb)
  have "queue_inv (switch_to c n k)" using q2 by (simp add: s queue_inv_def sq_def)
  moreover have only: "i = n" if "i < 16" "p_state (pcbs k2 ! i) = PROC_RUNNING" for i
    using that run [OF that(1)] by (auto simp: st split: if_splits)
  ultimately show "sched_inv (switch_to c n k)"
  proof (intro sched_invI [where c = n])
    show "current (switch_to c n k) = Some n" "n < 16" using assms(3) by (simp_all add: s)
    show "i = n" if "i < 16" "p_state (pcbs (switch_to c n k) ! i) = PROC_RUNNING" for i using only that by (simp add: s)
    show "p_priority (pcbs (switch_to c n k) ! i) < 3" if "i < 16" for i
      using sched_invD(2) [OF assms(1)] that assms(3) c16 by (simp add: s st)
    show "p_pid (pcbs (switch_to c n k) ! 0) = 0" "p_priority (pcbs (switch_to c n k) ! 0) = 0"
      using sched_invD(3,5) [OF assms(1)] by (auto simp: s st)
    show "runnable_at (pcbs (switch_to c n k)) 0" using sched_invD(4) [OF assms(1)] by (auto simp: s st runnable_at_def)
  qed
  show "current (switch_to c n k) = Some n" by (simp add: s)
  show "p_state (pcbs (switch_to c n k) ! n) = PROC_RUNNING" "p_esp (pcbs (switch_to c n k) ! n) = p_esp (pcbs k ! n)"
    "p_priority (pcbs (switch_to c n k) ! n) = p_priority (pcbs k ! n)" by (simp_all add: s st)
  show "i = n" if "i < 16" "p_state (pcbs (switch_to c n k) ! i) = PROC_RUNNING"
    using that(2) by (intro only [OF that(1)]) (simp add: s)
qed

lemma prepared_pick:
  assumes "sched_inv k" "current k = Some c"
  obtains n where "pick_next (pcbs (prepared ctx t k)) ((c + 1) mod 16) = Some n" "n < 16"
    "runnable_at (pcbs (prepared ctx t k)) n" "p_priority (pcbs (prepared ctx t k) ! n) = 0"
proof -
  have inv: "sched_inv (prepared ctx t k)" using prepared_inv [OF assms(1)] by simp
  then have z: "runnable_at (pcbs (prepared ctx t k)) 0" "p_priority (pcbs (prepared ctx t k) ! 0) = 0"
    by (simp_all add: sched_inv_def)
  have st: "(c + 1) mod 16 < 16" by simp
  have "pick_next (pcbs (prepared ctx t k)) ((c + 1) mod 16) \<noteq> None"
    unfolding pick_next_None [OF st] using z by (auto intro: exI [of _ 0])
  then obtain n where n: "pick_next (pcbs (prepared ctx t k)) ((c + 1) mod 16) = Some n" by blast
  note p = pick_next_Some [OF n st]
  have "p_priority (pcbs (prepared ctx t k) ! n) \<le> 0" using p(4) [of 0] z by simp
  then show ?thesis using that n p(1,2) by (simp add: word_le_0_iff)
qed

subsection \<open>Runs of ticks and yields\<close>

text \<open>The timer interrupts (once started) and processes yield, with any context.\<close>

inductive switch_step :: "sched \<Rightarrow> sched \<Rightarrow> bool" where
  "dispatch ctx t k = (k', esp) \<Longrightarrow> switch_step k k'"

lemma dispatch_facts:
  assumes "sched_inv k" "current k = Some c" "dispatch ctx t k = (k', esp)"
  obtains n where "pick_next (pcbs (prepared ctx t k)) ((c + 1) mod 16) = Some n" "n < 16"
    "runnable_at (pcbs (prepared ctx t k)) n" "p_priority (pcbs (prepared ctx t k) ! n) = 0"
    "k' = switch_to c n ((prepared ctx t k)\<lparr>rr_cursor := (c + 1) mod 16\<rparr>)" "esp = p_esp (pcbs k' ! n)"
    "sched_inv k'" "current k' = Some n" "esp = p_esp (pcbs (prepared ctx t k) ! n)"
proof -
  obtain n where n: "pick_next (pcbs (prepared ctx t k)) ((c + 1) mod 16) = Some n" "n < 16"
    "runnable_at (pcbs (prepared ctx t k)) n" "p_priority (pcbs (prepared ctx t k) ! n) = 0"
    using prepared_pick [OF assms(1,2)] by blast
  have k': "k' = switch_to c n ((prepared ctx t k)\<lparr>rr_cursor := (c + 1) mod 16\<rparr>)" "esp = p_esp (pcbs k' ! n)"
    using dispatch_eq [OF assms(2) sched_invD(6) [OF assms(1,2)] n(1)] assms(3) by simp_all
  have p: "sched_inv ((prepared ctx t k)\<lparr>rr_cursor := (c + 1) mod 16\<rparr>)"
      "current ((prepared ctx t k)\<lparr>rr_cursor := (c + 1) mod 16\<rparr>) = Some c"
    using prepared_inv [OF assms(1), of ctx t] assms(2) by simp_all
  have r: "runnable_at (pcbs ((prepared ctx t k)\<lparr>rr_cursor := (c + 1) mod 16\<rparr>)) n" using n(3) by simp
  note sw = switch_to_inv [OF p n(2) r, folded k'(1)]
  show ?thesis using that [OF n k' sw(1,2)] sw(5) k'(2) by simp
qed

text \<open>A process that is ready and not the current one is not touched by the preparation.\<close>

lemma prepared_other:
  assumes "sched_inv k" "current k = Some c" "j < 16" "j \<noteq> c" "p_state (pcbs k ! j) \<noteq> PROC_BLOCKED"
  shows "pcbs (prepared ctx t k) ! j = pcbs k ! j"
proof -
  have q: "queue_inv (k\<lparr>tick_count := tick_count k + 1\<rparr>)" using sched_invD(1) [OF assms(1)] by simp
  have len: "length (pcbs k) = 16" using sched_invD(8) [OF assms(1)] .
  have "j \<notin> expired (k\<lparr>tick_count := tick_count k + 1\<rparr>)"
    using q assms(5) by (auto simp: expired_def queue_inv_def)
  then have "pcbs (wake_sleepers (k\<lparr>tick_count := tick_count k + 1\<rparr>)) ! j = pcbs k ! j"
    using wake_sleepers_spec [OF q] by simp
  moreover have "c < 16" using sched_invD(6) [OF assms(1,2)] .
  moreover have "length (pcbs (wake_sleepers (k\<lparr>tick_count := tick_count k + 1\<rparr>))) = 16"
    using wake_sleepers_spec [OF q] by (simp add: queue_inv_def)
  ultimately show ?thesis using assms(2,4) len by (simp add: prepared_def Let_def pcbs_upd_pcb)
qed

lemma switch_to_other:
  assumes "length (pcbs k) = 16" "j \<noteq> n" "j \<noteq> c" "n < 16" "c < 16"
  shows "pcbs (switch_to c n k) ! j = pcbs k ! j"
  using assms by (simp add: switch_to_def process_set_current_def pcbs_upd_pcb)

lemma dispatch_other:
  assumes "sched_inv k" "current k = Some c" "dispatch ctx t k = (k', esp)" "j < 16" "j \<noteq> c"
    "p_state (pcbs k ! j) \<noteq> PROC_BLOCKED" "current k' \<noteq> Some j"
  shows "pcbs k' ! j = pcbs k ! j"
proof -
  obtain n where n: "n < 16" "k' = switch_to c n ((prepared ctx t k)\<lparr>rr_cursor := (c + 1) mod 16\<rparr>)" "current k' = Some n"
    using dispatch_facts [OF assms(1-3)] by metis
  have len: "length (pcbs (prepared ctx t k)) = 16" using sched_invD(8) [OF prepared_inv(1) [OF assms(1)]] .
  have "pcbs k' ! j = pcbs (prepared ctx t k) ! j"
    unfolding n(2) using switch_to_other [of "(prepared ctx t k)\<lparr>rr_cursor := (c + 1) mod 16\<rparr>" j n c] len n(1,3)
      sched_invD(6) [OF assms(1,2)] assms(5,7) by auto
  then show ?thesis using prepared_other [OF assms(1,2,4,5,6)] by simp
qed

text \<open>The slot whose turn is \<open>j\<close> gets nearer with every dispatch that does not choose it.\<close>

lemma cdist_progress:
  assumes "n < 16" "j < 16" "s < 16" "n \<noteq> j" "cdist s n \<le> cdist s j"
  shows "cdist ((n + 1) mod 16) j < cdist s j"
proof -
  have n: "n = (s + cdist s n) mod 16" and j: "j = (s + cdist s j) mod 16" using cdist_add assms(1-3) by simp_all
  define a b where "a = cdist s n" and "b = cdist s j"
  have ab: "a < b" "b < 16" using assms(4,5) n j by (auto simp: a_def b_def le_less)
  have "cdist ((n + 1) mod 16) j = cdist (((s + a) mod 16 + 1) mod 16) ((s + b) mod 16)" using n j by (simp add: a_def b_def)
  also have "\<dots> = b - a - 1"
  proof -
    have m: "((s + a) mod 16 + 1) mod 16 = (s + a + 1) mod 16" by (simp add: mod_simps)
    have "((s + a + 1) mod 16 + (b - a - 1)) mod 16 = (s + a + 1 + (b - a - 1)) mod 16" by (rule mod_add_left_eq)
    also have "s + a + 1 + (b - a - 1) = s + b" using ab by simp
    finally have "((s + a) mod 16 + 1) mod 16 < 16" "(s + b) mod 16 = (((s + a) mod 16 + 1) mod 16 + (b - a - 1)) mod 16"
      by (simp_all only: m)
    then show ?thesis using cdist_of_add [of "((s + a) mod 16 + 1) mod 16" "b - a - 1"] ab by simp
  qed
  finally show ?thesis using ab by (simp add: b_def)
qed

lemma dispatch_progress:
  assumes "sched_inv k" "current k = Some c" "dispatch ctx t k = (k', esp)" "j < 16" "j \<noteq> c"
    "p_state (pcbs k ! j) = PROC_READY" "p_priority (pcbs k ! j) = 0"
  shows "current k' = Some j \<or> (pcbs k' ! j = pcbs k ! j \<and> (\<exists>n. current k' = Some n \<and> n \<noteq> j
     \<and> cdist ((n + 1) mod 16) j < cdist ((c + 1) mod 16) j))"
proof (cases "current k' = Some j")
  case False
  obtain n where n: "pick_next (pcbs (prepared ctx t k)) ((c + 1) mod 16) = Some n" "n < 16"
      "p_priority (pcbs (prepared ctx t k) ! n) = 0" "current k' = Some n"
    using dispatch_facts [OF assms(1-3)] by metis
  have same: "pcbs (prepared ctx t k) ! j = pcbs k ! j" using assms by (intro prepared_other) auto
  have "cdist ((c + 1) mod 16) n \<le> cdist ((c + 1) mod 16) j"
    using pick_next_Some(5) [OF n(1) _ assms(4)] same assms(6,7) n(3) by (simp add: runnable_at_def)
  then have "cdist ((n + 1) mod 16) j < cdist ((c + 1) mod 16) j"
    using n(2,4) assms(4) False by (intro cdist_progress) auto
  moreover have "pcbs k' ! j = pcbs k ! j" using dispatch_other [OF assms(1-5)] assms(6) False by simp
  ultimately show ?thesis using n(4) False by blast
qed simp

text \<open>A sequence of ticks and yields, and the states it goes through.\<close>

fun switch_run :: "(u32 \<times> bool) list \<Rightarrow> sched \<Rightarrow> sched" where
  "switch_run [] k = k"
| "switch_run ((ctx, t) # cs) k = switch_run cs (fst (dispatch ctx t k))"

lemma switch_run_reaches:
  assumes "sched_inv k" "current k = Some c" "j < 16" "j \<noteq> c" "p_state (pcbs k ! j) = PROC_READY" "p_priority (pcbs k ! j) = 0"
    "cdist ((c + 1) mod 16) j < length cs"
  shows "\<exists>m \<le> cdist ((c + 1) mod 16) j + 1. current (switch_run (take m cs) k) = Some j"
  using assms
proof (induction cs arbitrary: k c)
  case Nil
  then show ?case by simp
next
  case (Cons x cs)
  obtain ctx t where x: "x = (ctx, t)" by fastforce
  obtain k' esp where d: "dispatch ctx t k = (k', esp)" by fastforce
  show ?case
  proof (cases "current k' = Some j")
    case True
    then have "current (switch_run (take 1 (x # cs)) k) = Some j" using d by (simp add: x)
    then show ?thesis by (intro exI [of _ 1]) simp
  next
    case False
    then obtain n where n: "pcbs k' ! j = pcbs k ! j" "current k' = Some n" "n \<noteq> j"
        "cdist ((n + 1) mod 16) j < cdist ((c + 1) mod 16) j"
      using dispatch_progress [OF Cons.prems(1,2) d Cons.prems(3-6)] by blast
    have inv: "sched_inv k'" using dispatch_facts [OF Cons.prems(1,2) d] by metis
    obtain m where m: "m \<le> cdist ((n + 1) mod 16) j + 1" "current (switch_run (take m cs) k') = Some j"
      using Cons.IH [OF inv n(2) Cons.prems(3)] n Cons.prems(5-7) by auto
    then show ?thesis using d n(4) by (intro exI [of _ "Suc m"]) (simp add: x)
  qed
qed

subsection \<open>Going to sleep\<close>

lemma sq_room:
  assumes "queue_inv k" "c < 16" "c \<notin> set (sq k)"
  shows "sleep_queue_count k < 16"
proof -
  have "distinct (c # sq k)" "set (c # sq k) \<subseteq> {..<16}" using assms by (auto simp: queue_inv_def)
  then have "length (c # sq k) \<le> card {..<16 :: nat}" by (metis card_mono distinct_card finite_lessThan)
  moreover have "length (sq k) = sleep_queue_count k" using assms(1) by (simp add: sq_def queue_inv_def)
  ultimately show ?thesis by simp
qed

lemma sleep_queue_insert_kept [simp]:
  "pcbs (sleep_queue_insert x k) = pcbs k" "current (sleep_queue_insert x k) = current k"
  "pmm_of (sleep_queue_insert x k) = pmm_of k" "mem (sleep_queue_insert x k) = mem k"
  by (simp_all add: sleep_queue_insert_def)

lemma sched_inv_queue:
  "sched_inv k \<Longrightarrow> queue_inv k' \<Longrightarrow> pcbs k' = pcbs k \<Longrightarrow> current k' = current k \<Longrightarrow> sched_inv k'"
  by (simp add: sched_inv_def)

lemma block_current_spec:
  assumes "sched_inv k" "current k = Some c" "p_pid (pcbs k ! c) \<noteq> 0" "p_state (pcbs k ! c) = PROC_RUNNING" "wake \<noteq> 0"
  defines "k' \<equiv> scheduler_block_current wake k"
  shows "sched_inv k'" "pcbs k' = (pcbs k)[c := (pcbs k ! c)\<lparr>p_wake_tick := wake, p_state := PROC_BLOCKED\<rparr>]"
    "sq k' = insert_after (\<lambda>i. p_wake_tick (pcbs k' ! i)) c (sq k)"
proof -
  let ?f = "\<lambda>p. p\<lparr>p_wake_tick := wake, p_state := PROC_BLOCKED\<rparr>" and ?k1 = "upd_pcb c (\<lambda>p. p\<lparr>p_wake_tick := wake, p_state := PROC_BLOCKED\<rparr>) k"
  have c: "c < 16" "c \<noteq> 0" using sched_invD(6) [OF assms(1,2)] sched_invD(3) [OF assms(1)] assms(3) by (auto intro: ccontr)
  have q: "queue_inv k" and len: "length (pcbs k) = 16" using sched_invD(1,8) [OF assms(1)] by simp_all
  have nin: "c \<notin> set (sq k)" using q assms(4) by (auto simp: queue_inv_def)
  have q1: "queue_inv ?k1" using nin by (intro queue_inv_upd [OF q]) simp
  have inv1: "sched_inv ?k1" using q1 c sched_invD(2) [OF assms(1)] by (intro sched_inv_upd [OF assms(1)]) auto
  have k': "k' = sleep_queue_insert c ?k1" using assms(2,3) c by (simp add: k'_def scheduler_block_current_def)
  show p': "pcbs k' = (pcbs k)[c := ?f (pcbs k ! c)]" by (simp add: k' upd_pcb_def)
  have room: "sleep_queue_count ?k1 < 16" using sq_room [OF q c(1) nin] by simp
  have s1: "length (sleep_queue ?k1) = 16" "sorted_by (\<lambda>i. p_wake_tick (pcbs ?k1 ! i)) (sq ?k1)"
    using q1 by (simp_all add: queue_inv_def)
  note ins = sq_insert [OF s1(1) room s1(2), of c, folded k']
  show sq': "sq k' = insert_after (\<lambda>i. p_wake_tick (pcbs k' ! i)) c (sq k)" using ins(1) by (simp add: k')
  have "queue_inv k'"
    unfolding queue_inv_def
  proof (intro conjI)
    show "length (pcbs k') = 16" "length (sleep_queue k') = 16" "sleep_queue_count k' \<le> 16"
      using len ins(2,3) room p' by simp_all
    have "mset (sq k') = add_mset c (mset (sq k))" by (simp add: sq')
    then have "mset (sq k') = mset (c # sq k)" by simp
    then show "distinct (sq k')" using nin q by (metis distinct.simps(2) mset_eq_imp_distinct_iff queue_inv_def)
    show "sorted_by (\<lambda>i. p_wake_tick (pcbs k' ! i)) (sq k')" unfolding sq'
      using s1(2) by (intro sorted_insert_after) (simp add: k')
    show "\<forall>i \<in> set (sq k'). i < 16 \<and> p_state (pcbs k' ! i) = PROC_BLOCKED \<and> p_wake_tick (pcbs k' ! i) \<noteq> 0"
      using q c(1) len assms(5) nin unfolding sq' p' by (auto simp: queue_inv_def nth_list_update)
  qed
  then show "sched_inv k'" by (rule sched_inv_queue [OF inv1]) (simp_all add: k')
qed

subsection \<open>Properties\<close>

text \<open>
  C4: one process runs. From a state of the scheduler's invariant, a tick or a yield leaves
  exactly one process RUNNING, which is the current one and was able to run; the stack pointer
  returned to the entry stub is the one saved for it, and the invariant holds again.
\<close>

theorem dispatch_correct:
  assumes "sched_inv k" "dispatch ctx t k = (k', esp)"
  shows "\<exists>n < 16. current k' = Some n \<and> p_state (pcbs k' ! n) = PROC_RUNNING
     \<and> (\<forall>i < 16. p_state (pcbs k' ! i) = PROC_RUNNING \<longrightarrow> i = n) \<and> esp = p_esp (pcbs k' ! n) \<and> sched_inv k'"
proof -
  obtain c where c: "current k = Some c" using sched_invD(9) [OF assms(1)] by blast
  obtain n where n: "n < 16" "runnable_at (pcbs (prepared ctx t k)) n"
    "k' = switch_to c n ((prepared ctx t k)\<lparr>rr_cursor := (c + 1) mod 16\<rparr>)" "esp = p_esp (pcbs k' ! n)"
    "sched_inv k'" "current k' = Some n"
    using dispatch_facts [OF assms(1) c assms(2)] by metis
  have p: "sched_inv ((prepared ctx t k)\<lparr>rr_cursor := (c + 1) mod 16\<rparr>)"
      "current ((prepared ctx t k)\<lparr>rr_cursor := (c + 1) mod 16\<rparr>) = Some c"
    using prepared_inv [OF assms(1), of ctx t] c by simp_all
  have "runnable_at (pcbs ((prepared ctx t k)\<lparr>rr_cursor := (c + 1) mod 16\<rparr>)) n" using n(2) by simp
  note sw = switch_to_inv [OF p n(1) this, folded n(3)]
  show ?thesis using n sw(3,4) by blast
qed

text \<open>The scheduler as \<^verbatim>\<open>scheduler_init\<close> leaves it, on zeroed statics.\<close>

lemma idt_ports_kept [simp]:
  "sched_inv (pic_init k) = sched_inv k" "sched_inv (pit_init k) = sched_inv k" "sched_inv (idt_init e k) = sched_inv k"
  by (simp_all add: pic_init_def pit_init_def idt_init_def idt_set_gate_def outb_def sched_inv_def queue_inv_def sq_def Let_def)

lemma process_init_pcb0:
  assumes "length (pcbs k) = 16"
  shows "p_pid (pcbs (process_init k) ! 0) = 0" "p_state (pcbs (process_init k) ! 0) = PROC_RUNNING"
    "i < 16 \<Longrightarrow> p_priority (pcbs (process_init k) ! i) = 0" "current (process_init k) = Some 0"
  using assms by (simp_all add: process_init_def Let_def upd_pcb_def empty_pcb_def nth_list_update)

lemma scheduler_init_inv:
  assumes "length (pcbs k) = 16" "length (sleep_queue k) = 16"
  shows "sched_inv (scheduler_init e k)"
proof -
  let ?k = "(process_init k)\<lparr>tick_count := 0, rr_cursor := 0, timer_started := False, sleep_queue_count := 0\<rparr>"
  note p = process_init_pcb0 [OF assms(1)] and s = process_init_slots [OF assms(1)]
  have sl: "sleep_queue (process_init k) = sleep_queue k" by (simp add: process_init_def Let_def)
  have "queue_inv ?k" using s(4) [of 0] assms(2) sl by (simp add: queue_inv_def sq_def sorted_by_def)
  then have "sched_inv ?k"
  proof (rule sched_invI)
    show "current ?k = Some 0" "(0 :: nat) < 16" "p_pid (pcbs ?k ! 0) = 0" "p_priority (pcbs ?k ! 0) = 0"
      "runnable_at (pcbs ?k) 0" using p by (simp_all add: runnable_at_def)
    show "p_priority (pcbs ?k ! i) < 3" if "i < 16" for i using p(3) [OF that] by simp
    show "i = 0" if "i < 16" "p_state (pcbs ?k ! i) = PROC_RUNNING" for i using s(2) [OF that(1)] that(2) by (cases "i = 0") auto
  qed
  then have "sched_inv (pit_init (pic_init (idt_init e ?k)))" by simp
  moreover have "pit_init (pic_init (idt_init e ?k)) = scheduler_init e k"
    by (simp add: scheduler_init_def pit_init_def pic_init_def idt_init_def idt_set_gate_def outb_def Let_def)
  ultimately show ?thesis by simp
qed

definition sched_boot :: sched where
  "sched_boot = scheduler_init \<lparr>irq0_entry = 0x10100, scheduler_yield_entry = 0x10120,
       scheduler_fork_entry = 0x10140, scheduler_kill_entry = 0x10160\<rparr>
     \<lparr>pcbs = replicate 16 zero_pcb, next_pid = 1, next_tid = 1, process_total = 0, current = None,
      pmm_of = pmm_init 0x10000 2 two_pages, mem = (\<lambda>_. 0), tick_count = 0, rr_cursor = 0,
      timer_started = False, sleep_queue = replicate 16 0, sleep_queue_count = 0,
      idt = replicate 256 \<lparr>offset_lo = 0, selector = 0, gate_zero = 0, gate_flags = 0, offset_hi = 0\<rparr>,
      port_writes = []\<rparr>"

lemma sched_boot_inv: "sched_inv sched_boot"
  unfolding sched_boot_def by (rule scheduler_init_inv) simp_all

theorem dispatch_correct_witness:
  "\<exists>k' esp n. dispatch 0x9000 True sched_boot = (k', esp) \<and> current k' = Some n \<and> p_state (pcbs k' ! n) = PROC_RUNNING"
proof -
  obtain k' esp where d: "dispatch 0x9000 True sched_boot = (k', esp)" by fastforce
  from dispatch_correct [OF sched_boot_inv d] d show ?thesis by blast
qed

text \<open>
  C25: the choice. The process picked is able to run, no process able to run has a more urgent
  level, and among those of its level it is the first one in the circle of slots from
  \<open>start\<close>; nothing is picked exactly when no process able to run is on one of the three levels.
\<close>

theorem pick_next_correct:
  assumes "start < 16"
  shows "case pick_next ps start of
       None \<Rightarrow> \<forall>i < 16. runnable_at ps i \<longrightarrow> 3 \<le> p_priority (ps ! i)
     | Some j \<Rightarrow> j < 16 \<and> runnable_at ps j \<and> p_priority (ps ! j) < 3
         \<and> (\<forall>i < 16. runnable_at ps i \<longrightarrow> p_priority (ps ! j) \<le> p_priority (ps ! i)
              \<and> (p_priority (ps ! i) = p_priority (ps ! j) \<longrightarrow> cdist start j \<le> cdist start i))"
proof (cases "pick_next ps start")
  case None
  from None have "\<forall>i < 16. runnable_at ps i \<longrightarrow> 3 \<le> p_priority (ps ! i)" using pick_next_None [OF assms] by blast
  then show ?thesis unfolding None by simp
next
  case (Some j)
  note p = pick_next_Some [OF Some assms]
  show ?thesis unfolding Some using p by simp
qed

theorem pick_next_correct_witness:
  "case pick_next (pcbs sched_boot) 5 of None \<Rightarrow> False | Some j \<Rightarrow> runnable_at (pcbs sched_boot) j"
proof -
  have "pick_next (pcbs sched_boot) 5 \<noteq> None"
    using pick_next_None [of 5 "pcbs sched_boot"] sched_invD(4,5) [OF sched_boot_inv] by (auto intro: exI [of _ 0])
  then show ?thesis using pick_next_correct [of 5 "pcbs sched_boot"] by (auto split: option.splits)
qed

text \<open>
  C26: fairness inside a level. A READY process at level 0 is dispatched within 16 scheduling
  decisions, whatever mixture of ticks and yields they come from.
\<close>

theorem round_robin_bounded:
  assumes "sched_inv k" "j < 16" "p_state (pcbs k ! j) = PROC_READY" "p_priority (pcbs k ! j) = 0" "length cs = 16"
  shows "\<exists>m \<le> 16. current (switch_run (take m cs) k) = Some j"
proof -
  obtain c where c: "current k = Some c" using sched_invD(9) [OF assms(1)] by blast
  show ?thesis
  proof (cases "j = c")
    case True
    then show ?thesis using c by (intro exI [of _ 0]) simp
  next
    case False
    obtain m where m: "m \<le> cdist ((c + 1) mod 16) j + 1" "current (switch_run (take m cs) k) = Some j"
      using switch_run_reaches [OF assms(1) c assms(2) False assms(3,4), of cs] assms(5) by auto
    have "cdist ((c + 1) mod 16) j < 16" by simp
    then have "m \<le> 16" using m(1) by linarith
    with m(2) show ?thesis by blast
  qed
qed

text \<open>A second process beside the shell, at a given level.\<close>

definition beside_shell :: "u8 \<Rightarrow> sched" where
  "beside_shell level = upd_pcb 1 (\<lambda>p. p\<lparr>p_pid := 1, p_state := PROC_READY, p_priority := level\<rparr>) sched_boot"

lemma beside_shell_facts:
  assumes "level < 3"
  shows "sched_inv (beside_shell level)" "p_state (pcbs (beside_shell level) ! 1) = PROC_READY"
    "p_priority (pcbs (beside_shell level) ! 1) = level" "current (beside_shell level) = Some 0"
proof -
  have q: "queue_inv sched_boot" and len: "length (pcbs sched_boot) = 16" using sched_invD(1,8) [OF sched_boot_inv] by simp_all
  have e: "sq sched_boot = []" by (simp add: sched_boot_def scheduler_init_def sq_def)
  have q1: "queue_inv (beside_shell level)" unfolding beside_shell_def using e by (intro queue_inv_upd [OF q]) simp
  then show "sched_inv (beside_shell level)" unfolding beside_shell_def using assms
    by (intro sched_inv_upd [OF sched_boot_inv]) simp_all
  show "p_state (pcbs (beside_shell level) ! 1) = PROC_READY" "p_priority (pcbs (beside_shell level) ! 1) = level"
    using len by (simp_all add: beside_shell_def pcbs_upd_pcb)
  show "current (beside_shell level) = Some 0"
    by (simp add: beside_shell_def sched_boot_def scheduler_init_def pit_init_def pic_init_def idt_init_def
        idt_set_gate_def outb_def Let_def process_init_def)
qed

theorem round_robin_bounded_witness:
  "\<exists>m \<le> 16. current (switch_run (take m (replicate 16 (0x9000, True))) (beside_shell 0)) = Some 1"
  using round_robin_bounded [OF beside_shell_facts(1), of 0 1 "replicate 16 (0x9000, True)"] beside_shell_facts(2,3) [of 0]
  by simp

text \<open>
  starvation below level 0. The shell is always able to run at level 0, so a READY process
  that has been moved to level 1 or 2 is never dispatched again by any sequence of ticks and
  yields: its PCB does not change at all.
\<close>

theorem lower_levels_starve:
  assumes "switch_step\<^sup>*\<^sup>* k k'" "sched_inv k" "j < 16" "p_state (pcbs k ! j) = PROC_READY" "0 < p_priority (pcbs k ! j)"
    "current k \<noteq> Some j"
  shows "current k' \<noteq> Some j \<and> pcbs k' ! j = pcbs k ! j"
proof -
  have "sched_inv k' \<and> current k' \<noteq> Some j \<and> pcbs k' ! j = pcbs k ! j"
    using assms(1)
  proof (induction rule: rtranclp_induct)
    case base
    then show ?case using assms by simp
  next
    case (step y z)
    then obtain ctx t esp where d: "dispatch ctx t y = (z, esp)" by (auto elim: switch_step.cases)
    obtain c where c: "current y = Some c" using sched_invD(9) step.IH by blast
    have st: "p_state (pcbs y ! j) = PROC_READY" "0 < p_priority (pcbs y ! j)" "j \<noteq> c" using step.IH assms(4,5) c by auto
    obtain n where n: "p_priority (pcbs (prepared ctx t y) ! n) = 0" "current z = Some n" "sched_inv z"
      using dispatch_facts [OF _ c d] step.IH by metis
    have "pcbs (prepared ctx t y) ! j = pcbs y ! j" using step.IH c assms(3) st by (intro prepared_other) auto
    then have "n \<noteq> j" using n(1) st(2) by auto
    moreover have "pcbs z ! j = pcbs y ! j"
      using dispatch_other [OF _ c d assms(3)] step.IH st n(2) \<open>n \<noteq> j\<close> by auto
    ultimately show ?case using n step.IH by auto
  qed
  then show ?thesis by blast
qed

theorem lower_levels_starve_witness:
  "\<exists>k'. switch_step (beside_shell 1) k' \<and> current k' \<noteq> Some 1 \<and> pcbs k' ! 1 = pcbs (beside_shell 1) ! 1"
proof -
  obtain k' esp where d: "dispatch 0x9000 True (beside_shell 1) = (k', esp)" by fastforce
  then have s: "switch_step (beside_shell 1) k'" by (rule switch_step.intros)
  have "current k' \<noteq> Some 1 \<and> pcbs k' ! 1 = pcbs (beside_shell 1) ! 1"
    using lower_levels_starve [OF r_into_rtranclp [of switch_step, OF s] beside_shell_facts(1), of 1] beside_shell_facts(2-4) [of 1] by simp
  with s show ?thesis by blast
qed

text \<open>The shell READY, and a process RUNNING in slot 1.\<close>

definition proc1_running :: sched where
  "proc1_running = (upd_pcb 1 (\<lambda>p. p\<lparr>p_pid := 1, p_state := PROC_RUNNING\<rparr>)
     (upd_pcb 0 (\<lambda>p. p\<lparr>p_state := PROC_READY\<rparr>) sched_boot))\<lparr>current := Some 1\<rparr>"

lemma proc1_running_facts:
  "sched_inv proc1_running" "current proc1_running = Some 1" "p_pid (pcbs proc1_running ! 1) = 1"
  "p_state (pcbs proc1_running ! 1) = PROC_RUNNING" "sq proc1_running = []"
proof -
  have len: "length (pcbs sched_boot) = 16" using sched_invD(8) [OF sched_boot_inv] .
  show e: "sq proc1_running = []" by (simp add: proc1_running_def sched_boot_def scheduler_init_def sq_def)
  have p: "pcbs proc1_running ! i = (if i = 1 then (pcbs sched_boot ! 1)\<lparr>p_pid := 1, p_state := PROC_RUNNING\<rparr>
      else if i = 0 then (pcbs sched_boot ! 0)\<lparr>p_state := PROC_READY\<rparr> else pcbs sched_boot ! i)" for i
    using len by (auto simp: proc1_running_def pcbs_upd_pcb)
  show c: "current proc1_running = Some 1" by (simp add: proc1_running_def)
  show "p_pid (pcbs proc1_running ! 1) = 1" "p_state (pcbs proc1_running ! 1) = PROC_RUNNING" by (simp_all add: p)
  have "current sched_boot = Some 0" using beside_shell_facts(4) [of 0] by (simp add: beside_shell_def)
  then have run: "p_state (pcbs sched_boot ! i) = PROC_RUNNING \<Longrightarrow> i < 16 \<Longrightarrow> i = 0" for i
    using sched_invD(7) [OF sched_boot_inv] by blast
  have "queue_inv proc1_running" using sched_invD(1) [OF sched_boot_inv] e len
    by (simp add: queue_inv_def sorted_by_def) (simp add: proc1_running_def)
  then show "sched_inv proc1_running"
  proof (rule sched_invI [OF _ c])
    show "i = 1" if "i < 16" "p_state (pcbs proc1_running ! i) = PROC_RUNNING" for i
      using that run [of i] by (auto simp: p split: if_splits)
    show "p_priority (pcbs proc1_running ! i) < 3" if "i < 16" for i
      using sched_invD(2) [OF sched_boot_inv, of 1] sched_invD(2) [OF sched_boot_inv, of 0]
        sched_invD(2) [OF sched_boot_inv that] by (simp add: p)
  qed (use sched_invD(3,5) [OF sched_boot_inv] in \<open>simp_all add: p runnable_at_def\<close>)
qed

text \<open>
  the sleep queue. Going to sleep inserts the current process behind every sleeper that
  wakes no later and before every one that wakes later, and keeps the queue sorted.
\<close>

theorem sleep_sorted:
  assumes "sched_inv k" "current k = Some c" "p_pid (pcbs k ! c) \<noteq> 0" "p_state (pcbs k ! c) = PROC_RUNNING" "wake \<noteq> 0"
    and "k' = scheduler_block_current wake k"
  shows "sched_inv k' \<and> sq k' = filter (\<lambda>i. p_wake_tick (pcbs k ! i) \<le> wake) (sq k) @ c # filter (\<lambda>i. wake < p_wake_tick (pcbs k ! i)) (sq k)"
proof -
  note b = block_current_spec [OF assms(1-5), folded assms(6)]
  have q: "queue_inv k" using sched_invD(1) [OF assms(1)] .
  have nin: "c \<notin> set (sq k)" using q assms(4) by (auto simp: queue_inv_def)
  have c: "c < 16" "length (pcbs k) = 16" using sched_invD(6) [OF assms(1,2)] sched_invD(8) [OF assms(1)] by simp_all
  have wk: "p_wake_tick (pcbs k' ! c) = wake" "\<And>i. i \<in> set (sq k) \<Longrightarrow> p_wake_tick (pcbs k' ! i) = p_wake_tick (pcbs k ! i)"
    using nin c by (auto simp: b(2) nth_list_update)
  have part: "sorted_by w xs \<Longrightarrow> takeWhile (\<lambda>y. w y \<le> (v :: u32)) xs = filter (\<lambda>y. w y \<le> v) xs
      \<and> dropWhile (\<lambda>y. w y \<le> v) xs = filter (\<lambda>y. v < w y) xs" for w v and xs :: "nat list"
  proof (induction xs)
    case (Cons x xs)
    then have IH: "takeWhile (\<lambda>y. w y \<le> v) xs = filter (\<lambda>y. w y \<le> v) xs" "dropWhile (\<lambda>y. w y \<le> v) xs = filter (\<lambda>y. v < w y) xs"
      by (simp_all add: sorted_by_def)
    show ?case
    proof (cases "w x \<le> v")
      case True
      then show ?thesis using IH by auto
    next
      case False
      then have "\<forall>y \<in> set xs. v < w y" using Cons.prems by (fastforce simp: sorted_by_def)
      then have "filter (\<lambda>y. w y \<le> v) xs = []" "filter (\<lambda>y. v < w y) xs = xs" by (auto simp: filter_empty_conv)
      moreover have "v < w x" using False by (simp only: not_le)
      ultimately show ?thesis using False by simp
    qed
  qed simp
  have srt: "sorted_by (\<lambda>i. p_wake_tick (pcbs k ! i)) (sq k)" using q by (simp add: queue_inv_def)
  have "sq k' = insert_after (\<lambda>i. p_wake_tick (pcbs k' ! i)) c (sq k)" by (rule b(3))
  also have "\<dots> = takeWhile (\<lambda>i. p_wake_tick (pcbs k ! i) \<le> wake) (sq k) @ c # dropWhile (\<lambda>i. p_wake_tick (pcbs k ! i) \<le> wake) (sq k)"
    unfolding insert_after_def wk(1) using wk(2) by (auto cong: takeWhile_cong dropWhile_cong)
  finally show ?thesis using part [OF srt, of wake] b(1) by simp
qed

theorem sleep_sorted_witness:
  "sq (scheduler_block_current 7 proc1_running) = [1]"
  using sleep_sorted [OF proc1_running_facts(1,2) _ proc1_running_facts(4), of 7] proc1_running_facts(3,5) by simp

text \<open>
  C38: waking. After the tick counter moved, exactly the sleepers whose time has come leave the
  queue and become READY at the top level with a fresh quantum; every other process and the
  order of the remaining queue are unchanged.
\<close>

theorem wake_sleepers_correct:
  assumes "queue_inv k"
  shows "queue_inv (wake_sleepers k)
     \<and> sq (wake_sleepers k) = filter (\<lambda>i. tick_count k < p_wake_tick (pcbs k ! i)) (sq k)
     \<and> (\<forall>i. pcbs (wake_sleepers k) ! i =
          (if i \<in> set (sq k) \<and> p_wake_tick (pcbs k ! i) \<le> tick_count k
           then (pcbs k ! i)\<lparr>p_state := PROC_READY, p_wake_tick := 0, p_priority := 0, p_ticks_used := 0, p_quantum_ticks := 4\<rparr>
           else pcbs k ! i))"
proof -
  note w = wake_sleepers_spec [OF assms]
  have "filter (\<lambda>i. i \<notin> expired k) (sq k) = filter (\<lambda>i. tick_count k < p_wake_tick (pcbs k ! i)) (sq k)"
    by (intro filter_cong) (auto simp: expired_def not_le)
  moreover have "wake_pcb (pcbs k ! i) = (pcbs k ! i)\<lparr>p_state := PROC_READY, p_wake_tick := 0, p_priority := 0,
      p_ticks_used := 0, p_quantum_ticks := 4\<rparr>" if "i \<in> set (sq k)" for i
    using that assms by (simp add: wake_pcb_def queue_inv_def quantum_def)
  ultimately show ?thesis using w by (auto simp: expired_def)
qed

theorem wake_sleepers_correct_witness:
  "sq (wake_sleepers ((scheduler_block_current 7 proc1_running)\<lparr>tick_count := 7\<rparr>)) = []
   \<and> p_state (pcbs (wake_sleepers ((scheduler_block_current 7 proc1_running)\<lparr>tick_count := 7\<rparr>)) ! 1) = PROC_READY"
proof -
  let ?k = "(scheduler_block_current 7 proc1_running)\<lparr>tick_count := 7\<rparr>"
  have pid: "p_pid (pcbs proc1_running ! 1) \<noteq> 0" by (simp only: proc1_running_facts(3)) simp
  note b = block_current_spec [OF proc1_running_facts(1,2) pid proc1_running_facts(4), of 7, simplified]
  have len: "length (pcbs proc1_running) = 16" using sched_invD(8) [OF proc1_running_facts(1)] .
  have q: "queue_inv ?k" using sched_invD(1) [OF b(1)] by simp
  have "sq ?k = sq (scheduler_block_current 7 proc1_running)" by (simp add: sq_def)
  then have s: "sq ?k = [1]" using b(3) unfolding proc1_running_facts(5) by (simp add: insert_after_def)
  have "p_wake_tick (pcbs ?k ! 1) = 7" using b(2) len by simp
  then show ?thesis using wake_sleepers_correct [OF q] s by simp
qed

subsection \<open>Stacks across a switch\<close>

lemma wake_pcb_neutral: "stack_neutral wake_pcb"
  by (simp add: stack_neutral_def wake_pcb_def)

lemma wake_sleepers_kernel:
  assumes "queue_inv k" "kernel_inv U k"
  shows "kernel_inv U (wake_sleepers k)"
proof -
  note w = wake_sleepers_spec [OF assms(1)]
  have "kernel_inv U (wake_sleepers k) = kernel_inv U k"
    using w assms(1) wake_pcb_neutral by (intro kernel_inv_cong) (auto simp: queue_inv_def stack_neutral_def)
  then show ?thesis using assms(2) by simp
qed

lemma kernel_inv_sched_fields [simp]:
  "kernel_inv U (k\<lparr>tick_count := a\<rparr>) = kernel_inv U k" "kernel_inv U (k\<lparr>rr_cursor := b\<rparr>) = kernel_inv U k"
  by (simp_all add: kernel_inv_def)

lemma prepared_kernel:
  assumes "sched_inv k" "kernel_inv U k"
  shows "kernel_inv U (prepared ctx t k)"
proof -
  have "queue_inv (k\<lparr>tick_count := tick_count k + 1\<rparr>)" using sched_invD(1) [OF assms(1)] by simp
  then have "kernel_inv U (if t then wake_sleepers (k\<lparr>tick_count := tick_count k + 1\<rparr>) else k)"
    using wake_sleepers_kernel assms(2) by simp
  then show ?thesis
    by (auto simp: prepared_def Let_def stack_neutral_def split: option.splits intro!: kernel_inv_upd)
qed

lemma switch_to_kernel:
  assumes "kernel_inv U k"
  shows "kernel_inv U (switch_to c n k)"
proof -
  let ?k1 = "if c \<noteq> n \<and> p_state (pcbs k ! c) = PROC_RUNNING then upd_pcb c (\<lambda>p. p\<lparr>p_state := PROC_READY\<rparr>) k else k"
  have "kernel_inv U ?k1" using assms kernel_inv_upd [OF assms, of "\<lambda>p. p\<lparr>p_state := PROC_READY\<rparr>" c]
    by (simp add: stack_neutral_def)
  then have "kernel_inv U (upd_pcb n (\<lambda>p. p\<lparr>p_state := PROC_RUNNING\<rparr>) ?k1)"
    by (intro kernel_inv_upd) (simp_all add: stack_neutral_def)
  then show ?thesis unfolding switch_to_def process_set_current_def by (simp only: kernel_inv_sched_fields kernel_inv_fields)
qed

lemma dispatch_kernel:
  assumes "sched_inv k" "kernel_inv U k"
  shows "kernel_inv U (fst (dispatch ctx t k))"
proof -
  obtain c where c: "current k = Some c" using sched_invD(9) [OF assms(1)] by blast
  obtain k' esp where d: "dispatch ctx t k = (k', esp)" by fastforce
  obtain n where "k' = switch_to c n ((prepared ctx t k)\<lparr>rr_cursor := (c + 1) mod 16\<rparr>)"
    using dispatch_facts [OF assms(1) c d] by metis
  then show ?thesis using d switch_to_kernel prepared_kernel [OF assms] by simp
qed

subsection \<open>Kill, lemmas\<close>

lemma process_get_Some:
  "process_get pid k = Some i \<Longrightarrow> i < 16 \<and> p_pid (pcbs k ! i) = pid \<and> p_state (pcbs k ! i) \<noteq> PROC_TERMINATED"
  by (auto simp: process_get_def scan_Some_iff)

text \<open>The state of a kill before it possibly dispatches.\<close>

definition killed :: "u32 \<Rightarrow> nat \<Rightarrow> sched \<Rightarrow> sched" where
  "killed ctx target k =
     (let k1 = sleep_queue_remove target k;
          k2 = (if p_has_stack (pcbs k1 ! target)
                then k1\<lparr>pmm_of := pmm_free_frame (p_stack_base (pcbs k1 ! target)) (pmm_of k1)\<rparr> else k1);
          k3 = upd_pcb target (\<lambda>p. p\<lparr>p_stack_base := 0, p_stack_top := 0, p_state := PROC_TERMINATED,
                 p_esp := 0, p_eip := 0, p_wake_tick := 0, p_entry := 0, p_has_stack := False\<rparr>) k2;
          k4 = process_decrement_count k3
      in k4\<lparr>mem := ctx_set ctx 7 0 (mem k4)\<rparr>)"

lemma kill_eq:
  "process_get pid k = Some i \<Longrightarrow> pid \<noteq> 0 \<Longrightarrow>
   scheduler_kill ctx pid k = (if current k \<noteq> Some i then (killed ctx i k, ctx) else dispatch ctx False (killed ctx i k))"
  by (simp add: scheduler_kill_def killed_def Let_def)

lemma sorted_by_remove1: "sorted_by wk xs \<Longrightarrow> sorted_by wk (remove1 x xs)"
proof (induction xs)
  case (Cons y ys)
  then show ?case using set_remove1_subset [of x ys] by (auto simp: sorted_by_def)
qed (simp add: sorted_by_def)

lemma decrement_sched [simp]:
  "sq (process_decrement_count k) = sq k" "sleep_queue (process_decrement_count k) = sleep_queue k"
  "sleep_queue_count (process_decrement_count k) = sleep_queue_count k"
  by (simp_all add: process_decrement_count_def sq_def)

lemma killed_fields:
  shows "pcbs (killed ctx i k) = (pcbs k)[i := (pcbs k ! i)\<lparr>p_stack_base := 0, p_stack_top := 0, p_state := PROC_TERMINATED,
       p_esp := 0, p_eip := 0, p_wake_tick := 0, p_entry := 0, p_has_stack := False\<rparr>]"
    "pmm_of (killed ctx i k) = (if p_has_stack (pcbs k ! i) then pmm_free_frame (p_stack_base (pcbs k ! i)) (pmm_of k) else pmm_of k)"
    "current (killed ctx i k) = current k" "mem (killed ctx i k) = ctx_set ctx 7 0 (mem k)"
    "sq (killed ctx i k) = sq (sleep_queue_remove i k)" "sleep_queue (killed ctx i k) = sleep_queue (sleep_queue_remove i k)"
    "sleep_queue_count (killed ctx i k) = sleep_queue_count (sleep_queue_remove i k)"
  by (simp_all add: killed_def Let_def) (simp_all add: upd_pcb_def sq_def)

lemma killed_inv:
  assumes "sched_inv k" "kernel_inv U k" "process_get pid k = Some i" "pid \<noteq> 0"
  shows "sched_inv (killed ctx i k)" "kernel_inv U (killed ctx i k)" "i \<notin> set (sq (killed ctx i k))"
    "free_set (frame_bitmap (pmm_of (killed ctx i k))) = free_set (frame_bitmap (pmm_of k))
       \<union> (if p_has_stack (pcbs k ! i) then {unat (p_stack_base (pcbs k ! i)) div 4096} else {})"
proof -
  note g = process_get_Some [OF assms(3)]
  have i: "i < 16" "i \<noteq> 0" using g assms(4) sched_invD(3) [OF assms(1)] by (auto intro: ccontr)
  have len: "length (pcbs k) = 16" and q: "queue_inv k" using sched_invD(1,8) [OF assms(1)] by simp_all
  let ?k1 = "sleep_queue_remove i k"
  have sq1: "sq ?k1 = remove1 i (sq k)" "length (sleep_queue ?k1) = 16" "sleep_queue_count ?k1 \<le> 16"
    using sq_remove [of k i] q by (simp_all add: queue_inv_def)
  show nin: "i \<notin> set (sq (killed ctx i k))"
    using q sq1(1) by (simp add: killed_fields queue_inv_def)
  have same: "pcbs (killed ctx i k) ! j = pcbs k ! j" if "j \<noteq> i" for j using that by (simp add: killed_fields(1))
  have sub: "set (sq (killed ctx i k)) \<subseteq> set (sq k)" using set_remove1_subset [of i "sq k"] by (simp add: killed_fields(5) sq1(1))
  have "queue_inv (killed ctx i k)"
    unfolding queue_inv_def
  proof (intro conjI)
    show "length (pcbs (killed ctx i k)) = 16" "length (sleep_queue (killed ctx i k)) = 16" "sleep_queue_count (killed ctx i k) \<le> 16"
      using len sq1 by (simp_all add: killed_fields)
    show "distinct (sq (killed ctx i k))" using q sq1(1) by (simp add: killed_fields queue_inv_def)
    have "sorted_by (\<lambda>j. p_wake_tick (pcbs (killed ctx i k) ! j)) (sq (killed ctx i k)) =
        sorted_by (\<lambda>j. p_wake_tick (pcbs k ! j)) (sq (killed ctx i k))"
      using nin same by (intro sorted_by_cong) metis
    also have "\<dots>" using q by (simp add: killed_fields(5) sq1(1) queue_inv_def sorted_by_remove1)
    finally show "sorted_by (\<lambda>j. p_wake_tick (pcbs (killed ctx i k) ! j)) (sq (killed ctx i k))" .
    show "\<forall>j \<in> set (sq (killed ctx i k)). j < 16 \<and> p_state (pcbs (killed ctx i k) ! j) = PROC_BLOCKED
        \<and> p_wake_tick (pcbs (killed ctx i k) ! j) \<noteq> 0"
      using q sub nin same unfolding queue_inv_def by (metis subsetD)
  qed
  moreover obtain c where c: "current k = Some c" using sched_invD(9) [OF assms(1)] by blast
  ultimately show "sched_inv (killed ctx i k)"
  proof (intro sched_invI [where c = c])
    show "current (killed ctx i k) = Some c" "c < 16" using c sched_invD(6) [OF assms(1) c] by (simp_all add: killed_fields)
    show "j = c" if "j < 16" "p_state (pcbs (killed ctx i k) ! j) = PROC_RUNNING" for j
      using that sched_invD(7) [OF assms(1) c that(1)] i len by (cases "j = i") (auto simp: killed_fields(1))
    show "p_priority (pcbs (killed ctx i k) ! j) < 3" if "j < 16" for j
      using sched_invD(2) [OF assms(1) that] len i(1) by (cases "j = i") (auto simp: killed_fields(1))
  qed (use sched_invD(3-5) [OF assms(1)] same [of 0] i(2) in \<open>simp_all add: runnable_at_def\<close>)
  have "kernel_inv U (killed ctx i k) \<and> free_set (frame_bitmap (pmm_of (killed ctx i k))) = free_set (frame_bitmap (pmm_of k))
       \<union> (if p_has_stack (pcbs k ! i) then {unat (p_stack_base (pcbs k ! i)) div 4096} else {})"
    by (intro conjI release_stack_inv [OF assms(2) i(1)]) (use len i(1) in \<open>simp_all add: killed_fields(1,2)\<close>)
  then show "kernel_inv U (killed ctx i k)" "free_set (frame_bitmap (pmm_of (killed ctx i k))) = free_set (frame_bitmap (pmm_of k))
       \<union> (if p_has_stack (pcbs k ! i) then {unat (p_stack_base (pcbs k ! i)) div 4096} else {})" by blast+
qed

text \<open>
  kill. An unknown pid or pid 0 gives -1 in the caller's EAX and changes nothing else.
  Otherwise the target's stack frame goes back to the memory manager, it leaves the sleep
  queue, its slot becomes free and its stack pointer is gone; all invariants hold afterwards.
\<close>

theorem kill_correct:
  assumes "sched_inv k" "kernel_inv U k" "scheduler_kill ctx pid k = (k', esp)"
  shows "(case process_get pid k of
       None \<Rightarrow> k' = k\<lparr>mem := ctx_set ctx 7 (- 1) (mem k)\<rparr> \<and> esp = ctx
     | Some i \<Rightarrow> if pid = 0 then k' = k\<lparr>mem := ctx_set ctx 7 (- 1) (mem k)\<rparr> \<and> esp = ctx
         else p_state (pcbs k' ! i) = PROC_TERMINATED \<and> \<not> p_has_stack (pcbs k' ! i) \<and> i \<notin> set (sq k')
           \<and> free_set (frame_bitmap (pmm_of k')) = free_set (frame_bitmap (pmm_of k))
               \<union> (if p_has_stack (pcbs k ! i) then {unat (p_stack_base (pcbs k ! i)) div 4096} else {}))
     \<and> sched_inv k' \<and> kernel_inv U k'"
proof (cases "process_get pid k = None \<or> pid = 0")
  case True
  then have k': "k' = k\<lparr>mem := ctx_set ctx 7 (- 1) (mem k)\<rparr>" "esp = ctx"
    using assms(3) by (auto simp: scheduler_kill_def Let_def)
  moreover have "sched_inv k'" "kernel_inv U k'" using assms(1,2) by (simp_all add: k'(1) sched_inv_def queue_inv_def sq_def)
  ultimately show ?thesis using True by (auto split: option.splits)
next
  case False
  then obtain i where i: "process_get pid k = Some i" "pid \<noteq> 0" by (cases "process_get pid k") auto
  note ki = killed_inv [OF assms(1,2) i, of ctx]
  have i16: "i < 16" and len: "length (pcbs k) = 16" using process_get_Some [OF i(1)] sched_invD(8) [OF assms(1)] by simp_all
  have st: "p_state (pcbs (killed ctx i k) ! i) = PROC_TERMINATED" "\<not> p_has_stack (pcbs (killed ctx i k) ! i)"
    using i16 len by (simp_all add: killed_fields(1))
  show ?thesis
  proof (cases "current k = Some i")
    case False
    then have "k' = killed ctx i k" using kill_eq [OF i, of ctx] assms(3) by simp
    then show ?thesis using i ki st by simp
  next
    case True
    then have d: "dispatch ctx False (killed ctx i k) = (k', esp)" using kill_eq [OF i, of ctx] assms(3) by simp
    have c: "current (killed ctx i k) = Some i" using True by (simp add: killed_fields)
    obtain n where n: "n < 16" "runnable_at (pcbs (prepared ctx False (killed ctx i k))) n"
      "k' = switch_to i n ((prepared ctx False (killed ctx i k))\<lparr>rr_cursor := (i + 1) mod 16\<rparr>)" "sched_inv k'"
      using dispatch_facts [OF ki(1) c d] by metis
    have p: "prepared ctx False (killed ctx i k) = upd_pcb i (save_current ctx (load32 (mem (killed ctx i k)) (ctx + 32)) False) (killed ctx i k)"
      using c by (simp add: prepared_def Let_def)
    have pi: "p_state (pcbs (prepared ctx False (killed ctx i k)) ! i) = PROC_TERMINATED"
      "\<not> p_has_stack (pcbs (prepared ctx False (killed ctx i k)) ! i)"
      using i16 st sched_invD(8) [OF ki(1)] by (simp_all add: p pcbs_upd_pcb)
    have ni: "n \<noteq> i" using n(2) pi(1) by (auto simp: runnable_at_def)
    have len': "length (pcbs (prepared ctx False (killed ctx i k))) = 16" using sched_invD(8) [OF prepared_inv(1) [OF ki(1)]] .
    have same: "pcbs k' ! i = pcbs (prepared ctx False (killed ctx i k)) ! i" "pmm_of k' = pmm_of (killed ctx i k)" "sq k' = sq (killed ctx i k)"
      using ni pi(1) n(1) i16 len'
      by (simp_all add: n(3) switch_to_def process_set_current_def pcbs_upd_pcb p) (simp_all add: sq_def)
    have "kernel_inv U k'" using dispatch_kernel [OF ki(1,2), of ctx False] d by simp
    then show ?thesis using i n(4) ki(3,4) pi same by simp
  qed
qed

lemma process_init_idt [simp]: "idt (process_init k) = idt k"
  by (simp add: process_init_def Let_def upd_pcb_def)

lemma sched_boot_fields:
  "pcbs sched_boot = pcbs (process_init
     \<lparr>pcbs = replicate 16 zero_pcb, next_pid = 1, next_tid = 1, process_total = 0, current = None,
      pmm_of = pmm_init 0x10000 2 two_pages, mem = (\<lambda>_. 0)\<rparr>)"
  "pmm_of sched_boot = pmm_init 0x10000 2 two_pages" "length (idt sched_boot) = 256"
  by (simp_all add: sched_boot_def scheduler_init_def pit_init_def pic_init_def idt_init_def idt_set_gate_def
      outb_def Let_def process_init_pmm) (simp add: process_init_def Let_def upd_pcb_def)

lemma proc1_running_kernel:
  "kernel_inv {256, 258} proc1_running" "pmm_of proc1_running = pmm_init 0x10000 2 two_pages"
  "i < 16 \<Longrightarrow> \<not> p_has_stack (pcbs proc1_running ! i)"
proof -
  have len: "length (pcbs sched_boot) = 16" using sched_invD(8) [OF sched_boot_inv] .
  have z: "\<not> p_has_stack (pcbs sched_boot ! i)" if "i < 16" for i
    unfolding sched_boot_fields using that by (simp add: process_init_slots(1))
  show "pmm_of proc1_running = pmm_init 0x10000 2 two_pages" by (simp add: proc1_running_def sched_boot_fields)
  then show "kernel_inv {256, 258} proc1_running"
    using two_pages_state(1) len z by (simp add: kernel_inv_def) (auto simp: proc1_running_def pcbs_upd_pcb)
  show "i < 16 \<Longrightarrow> \<not> p_has_stack (pcbs proc1_running ! i)"
    using z [of i] z [of 0] z [of 1] len by (simp add: proc1_running_def pcbs_upd_pcb)
qed

theorem kill_correct_witness:
  "\<exists>k' esp. scheduler_kill 0x9000 1 proc1_running = (k', esp) \<and> p_state (pcbs k' ! 1) = PROC_TERMINATED"
proof -
  obtain k' esp where d: "scheduler_kill 0x9000 1 proc1_running = (k', esp)" by fastforce
  have "p_pid (pcbs proc1_running ! 0) = 0" using sched_invD(3) [OF proc1_running_facts(1)] .
  then have g: "process_get 1 proc1_running = Some 1"
    using proc1_running_facts(3,4) by (auto simp: process_get_def scan_Some_iff)
  have "p_state (pcbs k' ! 1) = PROC_TERMINATED"
    using kill_correct [OF proc1_running_facts(1) proc1_running_kernel(1) d] by (simp add: g)
  with d show ?thesis by blast
qed

text \<open>
  an interrupt gate carries the handler's address: the two halves of the descriptor give the
  32-bit address back, and no other vector is touched.
\<close>

theorem idt_gate_roundtrip:
  assumes "length (idt k) = 256"
  shows "ucast (offset_lo (idt (idt_set_gate v addr k) ! unat v)) OR push_bit 16 (ucast (offset_hi (idt (idt_set_gate v addr k) ! unat v))) = addr
     \<and> (\<forall>w. w \<noteq> v \<longrightarrow> idt (idt_set_gate v addr k) ! unat w = idt k ! unat w)"
proof -
  have v: "unat v < length (idt k)" using unsigned_less [of v] assms by simp
  have "bit ((ucast (ucast (addr AND 0xFFFF) :: u16) :: u32) OR push_bit 16 (ucast (ucast (drop_bit 16 addr) :: u16))) n = bit addr n"
    if "n < 32" for n
  proof -
    have m: "(0xFFFF :: u32) = mask 16" by (simp add: mask_eq_exp_minus_1)
    show ?thesis using that unfolding m by (cases "n < 16") (auto simp: bit_simps)
  qed
  then have "(ucast (ucast (addr AND 0xFFFF) :: u16) :: u32) OR push_bit 16 (ucast (ucast (drop_bit 16 addr) :: u16)) = addr"
    by (intro bit_word_eqI) simp
  moreover have "unat v \<noteq> unat w" if "w \<noteq> v" for w using that by (simp only: word_unat_eq_iff)
  ultimately show ?thesis using v by (simp add: idt_set_gate_def)
qed

theorem idt_gate_roundtrip_witness:
  "ucast (offset_lo (idt (idt_set_gate 32 0x10ABC sched_boot) ! 32))
     OR push_bit 16 (ucast (offset_hi (idt (idt_set_gate 32 0x10ABC sched_boot) ! 32))) = (0x10ABC :: u32)"
proof -
  have "length (idt sched_boot) = 256" by (rule sched_boot_fields)
  from idt_gate_roundtrip [OF this, of 32 "0x10ABC"] show ?thesis by simp
qed

end
