(* ===== verification/Fork.thy ===== *)
theory Fork
  imports Scheduler
begin

text \<open>
  Correctness of \<^verbatim>\<open>scheduler_fork\<close> of \<^verbatim>\<open>kernel/scheduler.c\<close>: the copy of the stack, the relocation
  of the saved registers, the return values of parent and child, and the name of the child with
  the byte its suffix may write behind the array.
\<close>

unbundle bit_operations_syntax

subsection \<open>Words of a context\<close>

lemma store32_far: "4 \<le> unat (b - a) \<Longrightarrow> store32 a v m b = m b"
  by (rule store32_other) auto

lemma load32_store32_far:
  assumes "\<And>e. e < 4 \<Longrightarrow> 4 \<le> unat (b + of_nat e - a)"
  shows "load32 (store32 a v m) b = load32 m b"
proof -
  have "store32 a v m (b + of_nat e) = m (b + of_nat e)" if "e < 4" for e using store32_far [OF assms [OF that]] .
  from this [of 0] this [of 1] this [of 2] this [of 3] show ?thesis by (simp add: load32_def)
qed

lemma unat_offset_diff:
  assumes "x < 1000" "y < 1000"
  shows "unat ((of_nat x :: u32) - of_nat y) = (if y \<le> x then x - y else 2 ^ 32 - (y - x))"
proof (cases "y \<le> x")
  case True
  then have e: "(of_nat x :: u32) - of_nat y = of_nat (x - y)" by (simp add: of_nat_diff)
  show ?thesis unfolding e using True assms by (simp add: unat_of_nat take_bit_eq_mod del: of_nat_diff)
next
  case False
  then have "y \<le> 2 ^ 32 + x" "2 ^ 32 + x - y < 2 ^ 32" "2 ^ 32 + x - y = 2 ^ 32 - (y - x)" using assms by auto
  moreover from this(1) have e: "(of_nat x :: u32) - of_nat y = of_nat (2 ^ 32 + x - y)"
    by (subst of_nat_diff) simp_all
  ultimately show ?thesis unfolding e using False by (simp add: unat_of_nat take_bit_eq_mod del: of_nat_diff)
qed

lemma ctx_get_set:
  assumes "i < 20" "j < 20"
  shows "ctx_get c j (ctx_set c i v m) = (if i = j then v else ctx_get c j m)"
proof (cases "i = j")
  case True
  then show ?thesis by (simp add: ctx_get_def ctx_set_def load32_store32_same)
next
  case False
  have "4 \<le> unat (c + 4 * of_nat j + of_nat e - (c + 4 * of_nat i))" if "e < 4" for e
  proof -
    have eq: "c + 4 * of_nat j + of_nat e - (c + 4 * of_nat i) = of_nat (4 * j + e) - of_nat (4 * i)" by simp
    show ?thesis unfolding eq using unat_offset_diff [of "4 * j + e" "4 * i"] assms that False
      by (auto simp del: of_nat_add of_nat_mult)
  qed
  then show ?thesis using False by (simp add: ctx_get_def ctx_set_def load32_store32_far)
qed


subsection \<open>Copy and relocation\<close>




subsection \<open>The child's name\<close>

lemma c_string_nth:
  assumes "NUL \<in> set a"
  shows "length (c_string a) < length a" "a ! length (c_string a) = NUL" "i < length (c_string a) \<Longrightarrow> a ! i \<noteq> NUL"
    "c_string a = take (length (c_string a)) a"
proof -
  show l: "length (c_string a) < length a"
    using assms by (induction a) (auto simp: c_string_def)
  show "a ! length (c_string a) = NUL" using nth_length_takeWhile [of "\<lambda>c. c \<noteq> NUL" a] l by (simp add: c_string_def)
  show "a ! i \<noteq> NUL" if "i < length (c_string a)"
  proof -
    have "c_string a ! i \<in> set (takeWhile (\<lambda>c. c \<noteq> NUL) a)" using that unfolding c_string_def by (rule nth_mem)
    then have "c_string a ! i \<noteq> NUL" by (rule set_takeWhileD [THEN conjunct2])
    moreover have "c_string a ! i = a ! i" using that unfolding c_string_def by (rule takeWhile_nth)
    ultimately show ?thesis by simp
  qed
  show "c_string a = take (length (c_string a)) a" unfolding c_string_def by (rule takeWhile_eq_take)
qed

lemma copy_name_loop_spec:
  assumes "length src = 16" "length dst = 16" "NUL \<in> set src" "i \<le> length (c_string src)" "take i dst = take i src"
  shows "\<exists>d. copy_name_loop i src dst = (length (c_string src), d) \<and> length d = 16
     \<and> take (length (c_string src)) d = c_string src"
  using assms
proof (induction i src dst rule: copy_name_loop.induct)
  case (1 i src dst)
  let ?n = "length (c_string src)"
  note c = c_string_nth [OF "1.prems"(3)]
  show ?case
  proof (cases "i < 15 \<and> src ! i \<noteq> NUL")
    case True
    then have i: "i < ?n" using c(2) "1.prems"(4) by (metis le_neq_implies_less)
    have "take (Suc i) (dst[i := src ! i]) = take (Suc i) src"
      using True "1.prems"(1,2,5) by (simp add: take_update_last take_Suc_conv_app_nth)
    then have "\<exists>d. copy_name_loop (Suc i) src (dst[i := src ! i]) = (?n, d) \<and> length d = 16 \<and> take ?n d = c_string src"
      using True "1.prems" i by (intro "1.IH") auto
    moreover have "copy_name_loop i src dst = copy_name_loop (Suc i) src (dst[i := src ! i])"
      using True by (simp add: copy_name_loop.simps [of i])
    ultimately show ?thesis by simp
  next
    case False
    have "?n < 16" using c(1) "1.prems"(1) by simp
    then have "i = ?n" using False c(3) [of i] "1.prems"(4) by (cases "i < ?n") auto
    moreover have "copy_name_loop i src dst = (i, dst)" using False by (subst copy_name_loop.simps) auto
    ultimately show ?thesis using "1.prems"(2,5) c(4) by simp
  qed
qed

lemma fork_name_spec:
  assumes "length src = 16" "length dst = 16" "NUL \<in> set src"
  defines "s \<equiv> c_string src"
  shows "snd (fork_name src dst) \<longleftrightarrow> length s = 14"
    "length s \<noteq> 14 \<Longrightarrow> c_string (fst (fork_name src dst)) = (if length s < 14 then s @ ''-c'' else s)"
    "length (fst (fork_name src dst)) = 16"
proof -
  obtain d where d: "copy_name_loop 0 src dst = (length s, d)" "length d = 16" "take (length s) d = s"
    using copy_name_loop_spec [OF assms(1-3), of 0] by (auto simp: s_def)
  have n: "length s \<le> 15" using c_string_nth(1) [OF assms(3)] assms(1) by (simp add: s_def)
  have s: "\<forall>c \<in> set s. c \<noteq> NUL" by (auto simp: s_def c_string_def dest: set_takeWhileD)
  have tw: "c_string (s @ NUL # ys) = s" for ys using s by (simp add: c_string_def takeWhile_append2)
  have tw2: "c_string (s @ CHR ''-'' # CHR ''c'' # NUL # ys) = s @ ''-c''" for ys using s by (simp add: c_string_def takeWhile_append2)
  show "snd (fork_name src dst) \<longleftrightarrow> length s = 14" using d(1) n by (auto simp: fork_name_def Let_def)
  show "length (fst (fork_name src dst)) = 16" using d by (simp add: fork_name_def Let_def)
  assume ne: "length s \<noteq> 14"
  show "c_string (fst (fork_name src dst)) = (if length s < 14 then s @ ''-c'' else s)"
  proof (cases "length s < 14")
    case True
    have "d[length s := NUL, length s := CHR ''-'', length s + 1 := CHR ''c'', length s + 2 := NUL] =
        s @ CHR ''-'' # CHR ''c'' # NUL # drop (length s + 3) d"
    proof -
      have "d = s @ drop (length s) d" using d(3) by (metis append_take_drop_id)
      moreover have "Suc (Suc (Suc 0)) \<le> length (drop (length s) d)" using True d(2) by simp
      then obtain w x y ys where "drop (length s) d = w # x # y # ys" unfolding Suc_le_length_iff by blast
      ultimately obtain w x y ys where w: "d = s @ w # x # y # ys" by metis
      then show ?thesis by (simp add: list_update_append)
    qed
    then show ?thesis using True d(1) tw2 by (simp add: fork_name_def Let_def)
  next
    case False
    then have "length s = 15" using n ne by simp
    then have "d[length s := NUL] = s @ [NUL]"
      using d(2,3) by (simp add: upd_conv_take_nth_drop)
    then show ?thesis using False d(1) tw [of "[]"] \<open>length s = 15\<close> by (simp add: fork_name_def Let_def)
  qed
qed

subsection \<open>The whole handler\<close>










text \<open>The machine of \<open>proc1_running\<close>, its process on the frame at 1 MiB.\<close>

definition fork_start :: "char list \<Rightarrow> sched" where
  "fork_start nm = upd_pcb 1 (\<lambda>p. p\<lparr>p_has_stack := True, p_stack_base := 0x100000, p_stack_top := 0x101000, p_name := nm\<rparr>)
     (proc1_running\<lparr>pmm_of := fst (pmm_alloc_frame (pmm_of proc1_running))\<rparr>)"

lemma fork_start_facts:
  assumes "length nm = 16"
  shows "sched_inv (fork_start nm)" "kernel_inv {256, 258} (fork_start nm)" "current (fork_start nm) = Some 1"
    "p_has_stack (pcbs (fork_start nm) ! 1)" "free_slot (pcbs (fork_start nm)) = Some 2"
    "free_set (frame_bitmap (pmm_of (fork_start nm))) = {258}" "p_stack_base (pcbs (fork_start nm) ! 1) = 0x100000"
    "\<forall>i < 16. length (p_name (pcbs (fork_start nm) ! i)) = 16" "p_name (pcbs (fork_start nm) ! 1) = nm"
proof -
  let ?b = "process_init \<lparr>pcbs = replicate 16 zero_pcb, next_pid = 1, next_tid = 1, process_total = 0, current = None,
      pmm_of = pmm_init 0x10000 2 two_pages, mem = (\<lambda>_. 0)\<rparr>"
  have len: "length (pcbs proc1_running) = 16" and bl: "length (pcbs sched_boot) = 16"
    using sched_invD(8) [OF proc1_running_facts(1)] sched_invD(8) [OF sched_boot_inv] .
  have pm: "pmm_inv {256, 258} (pmm_of proc1_running)" using proc1_running_kernel(1) by (simp add: kernel_inv_def)
  have fs: "free_set (frame_bitmap (pmm_of proc1_running)) = {256, 258}" "{256, 258 :: nat} \<noteq> {}" "Min {256, 258 :: nat} = 256"
    using two_pages_state(2) by (simp_all add: proc1_running_kernel(2))
  show "free_set (frame_bitmap (pmm_of (fork_start nm))) = {258}"
    using pmm_alloc_some(3) [OF pm] fs by (auto simp: fork_start_def)
  show "current (fork_start nm) = Some 1" by (simp add: fork_start_def proc1_running_facts)
  have p: "pcbs (fork_start nm) ! i = (if i = 1 then (pcbs proc1_running ! 1)\<lparr>p_has_stack := True, p_stack_base := 0x100000,
      p_stack_top := 0x101000, p_name := nm\<rparr> else pcbs proc1_running ! i)" for i
    using len by (simp add: fork_start_def pcbs_upd_pcb)
  show "p_has_stack (pcbs (fork_start nm) ! 1)" "p_stack_base (pcbs (fork_start nm) ! 1) = 0x100000" "p_name (pcbs (fork_start nm) ! 1) = nm"
    by (simp_all add: p)
  show "kernel_inv {256, 258} (fork_start nm)"
  proof (rule take_stack_inv(1) [OF proc1_running_kernel(1), of 1])
    show "pcbs (fork_start nm) = (pcbs proc1_running)[1 := (pcbs proc1_running ! 1)\<lparr>p_has_stack := True, p_stack_base := 0x100000,
      p_stack_top := 0x101000, p_name := nm\<rparr>]" by (simp add: fork_start_def upd_pcb_def)
  qed (use fs in \<open>simp_all add: fork_start_def\<close>)
  have q: "queue_inv (fork_start nm)"
  proof -
    have "sq (fork_start nm) = []" using proc1_running_facts(5) by (simp add: fork_start_def sq_def upd_pcb_def)
    moreover have "length (pcbs (fork_start nm)) = 16" using len by (simp add: fork_start_def)
    moreover have "sleep_queue (fork_start nm) = sleep_queue proc1_running" "sleep_queue_count (fork_start nm) = sleep_queue_count proc1_running"
      by (simp_all add: fork_start_def upd_pcb_def)
    ultimately show ?thesis using sched_invD(1) [OF proc1_running_facts(1)] by (simp add: queue_inv_def sorted_by_def)
  qed
  show "sched_inv (fork_start nm)"
  proof (rule sched_invI [OF q])
    show "current (fork_start nm) = Some 1" "(1 :: nat) < 16" by (simp_all add: fork_start_def proc1_running_facts)
    show "i = 1" if "i < 16" "p_state (pcbs (fork_start nm) ! i) = PROC_RUNNING" for i
      using that sched_invD(7) [OF proc1_running_facts(1,2)] by (auto simp: p split: if_splits)
    show "p_priority (pcbs (fork_start nm) ! i) < 3" if "i < 16" for i
      using sched_invD(2) [OF proc1_running_facts(1) that] sched_invD(2) [OF proc1_running_facts(1), of 1] by (simp add: p)
  qed (use sched_invD(3-5) [OF proc1_running_facts(1)] in \<open>simp_all add: p runnable_at_def\<close>)
  have pr: "pcbs proc1_running ! i = pcbs ?b ! i" if "i \<noteq> 0" "i \<noteq> 1" for i
    using that bl by (simp add: proc1_running_def pcbs_upd_pcb sched_boot_fields)
  have "p_state (pcbs proc1_running ! 2) = PROC_TERMINATED" unfolding pr [of 2, simplified] by (rule process_init_slots(2)) simp_all
  then show "free_slot (pcbs (fork_start nm)) = Some 2"
    using proc1_running_facts(4) proc1_running_kernel(3) [of 2] by (auto simp: free_slot_def scan_Some_iff p less_2_cases_iff)
  have n0: "length (p_name (pcbs ?b ! i)) = 16" if "i < 16" for i
    using that by (simp add: process_init_def Let_def upd_pcb_def empty_pcb_def zero_pcb_def nth_list_update k_name_spec(1))
  have "length (p_name (pcbs proc1_running ! i)) = 16" if "i < 16" for i
    using n0 [OF that] n0 [of 0] n0 [of 1] bl by (simp add: proc1_running_def pcbs_upd_pcb sched_boot_fields)
  then show "\<forall>i < 16. length (p_name (pcbs (fork_start nm) ! i)) = 16" using assms by (simp add: p)
qed

text \<open>
  a fork that cannot be served (the caller has no stack of its own, no slot is free or no
  frame is free) returns -1 in the caller's EAX; it takes no frame, no pid and no slot.
\<close>

theorem fork_refused:
  assumes "kernel_inv U k" "current k = Some par" "ctx \<noteq> 0"
    and "\<not> p_has_stack (pcbs k ! par) \<or> free_slot (pcbs k) = None \<or> free_set (frame_bitmap (pmm_of k)) = {}"
    and "scheduler_fork ctx k = (k', esp)"
  shows "esp = ctx \<and> ctx_get ctx 7 (mem k') = - 1 \<and> pmm_of k' = pmm_of k \<and> next_pid k' = next_pid k \<and> process_total k' = process_total k
     \<and> free_slot (pcbs k') = free_slot (pcbs k) \<and> kernel_inv U k'
     \<and> (\<forall>j < 16. p_state (pcbs k' ! j) = p_state (pcbs k ! j) \<and> p_has_stack (pcbs k' ! j) = p_has_stack (pcbs k ! j))"
proof (cases "p_has_stack (pcbs k ! par) \<and> free_slot (pcbs k) \<noteq> None")
  case False
  then have "k' = k\<lparr>mem := ctx_set ctx 7 (- 1) (mem k)\<rparr>" "esp = ctx"
    using assms(2,3,5) by (auto simp: scheduler_fork_def Let_def split: option.splits if_splits)
  then show ?thesis using assms(1) by (simp add: ctx_get_set)
next
  case True
  then obtain ch where ch: "free_slot (pcbs k) = Some ch" by blast
  note c = free_slot_Some [OF ch]
  have len: "length (pcbs k) = 16" and pinv: "pmm_inv U (pmm_of k)" using assms(1) by (simp_all add: kernel_inv_def)
  define k1 where "k1 = upd_pcb ch (\<lambda>p. p\<lparr>p_pid := 0, p_stack_base := 0\<rparr>) k"
  have k': "k' = k1\<lparr>mem := ctx_set ctx 7 (- 1) (mem k)\<rparr>" "esp = ctx"
    using assms(2,4,5) True ch pmm_alloc_none [OF pinv] by (auto simp: scheduler_fork_def Let_def k1_def)
  have p: "pcbs k1 ! j = (if j = ch then (pcbs k ! ch)\<lparr>p_pid := 0, p_stack_base := 0\<rparr> else pcbs k ! j)" for j
    using c len by (simp add: k1_def pcbs_upd_pcb)
  then have "p_state (pcbs k1 ! j) = p_state (pcbs k ! j) \<and> p_has_stack (pcbs k1 ! j) = p_has_stack (pcbs k ! j)" for j by simp
  moreover from this have "free_slot (pcbs k1) = free_slot (pcbs k)" by (simp add: free_slot_def)
  moreover have "kernel_inv U k1"
    using assms(1) c by (simp add: kernel_inv_def) (auto simp: k1_def pcbs_upd_pcb len)
  ultimately show ?thesis unfolding k' by (simp add: ctx_get_set) (simp add: k1_def)
qed

theorem fork_refused_witness:
  "\<exists>k'. scheduler_fork 0x9000 proc1_running = (k', 0x9000) \<and> ctx_get 0x9000 7 (mem k') = - 1"
proof -
  obtain k' esp where d: "scheduler_fork 0x9000 proc1_running = (k', esp)" by fastforce
  have "\<not> p_has_stack (pcbs proc1_running ! 1)" by (rule proc1_running_kernel(3)) simp
  with fork_refused [OF proc1_running_kernel(1) proc1_running_facts(2) _ _ d] d show ?thesis by simp
qed

text \<open>
  the suffix of the child's name. When the parent's name has 14 characters, \<^verbatim>\<open>-c\<close> fills the
  array and the terminating zero is stored one byte behind it, on the low byte of the pid of
  the next slot: a fork changes the pid of a process that has nothing to do with it.
\<close>

theorem fork_name_overflow:
  assumes "kernel_inv U k" "current k = Some par" "par < 16" "p_has_stack (pcbs k ! par)" "free_slot (pcbs k) = Some ch" "ch + 1 < 16"
    and "free_set (frame_bitmap (pmm_of k)) \<noteq> {}" "\<forall>i < 16. length (p_name (pcbs k ! i)) = 16" "NUL \<in> set (p_name (pcbs k ! par))"
    and "length (c_string (p_name (pcbs k ! par))) = 14" "scheduler_fork ctx k = (k', esp)"
  shows "p_pid (pcbs k' ! (ch + 1)) = p_pid (pcbs k ! (ch + 1)) AND NOT 0xFF"
proof -
  have len: "length (pcbs k) = 16" and pinv: "pmm_inv U (pmm_of k)" using assms(1) by (simp_all add: kernel_inv_def)
  note c = free_slot_Some [OF assms(5)]
  obtain pm sb where al: "pmm_alloc_frame (pmm_of k) = (pm, sb)" by fastforce
  define f where "f = Min (free_set (frame_bitmap (pmm_of k)))"
  have "f \<in> pmm_pool U (pmm_of k)" using pmm_alloc_some(4) [OF pinv assms(7)] free_set_pool [OF pinv] by (auto simp: f_def)
  from pmm_pool_addr(4) [OF pinv this] have "sb \<noteq> 0"
    using pmm_alloc_some(1) [OF pinv assms(7)] al by (simp add: f_def)
  moreover obtain nm where "fork_name (p_name (pcbs k ! par)) (p_name (pcbs k ! ch)) = (nm, True)"
    using fork_name_spec(1) [of "p_name (pcbs k ! par)" "p_name (pcbs k ! ch)"] assms(3,8-10) c
    by (cases "fork_name (p_name (pcbs k ! par)) (p_name (pcbs k ! ch))") auto
  ultimately have "p_pid (pcbs (fst (scheduler_fork ctx k)) ! (ch + 1)) = p_pid (pcbs k ! (ch + 1)) AND NOT 0xFF"
    using assms(2,4-6) len al
    by (simp add: scheduler_fork_def upd_pcb_def process_allocate_pid_def process_increment_count_def Let_def)
  then show ?thesis using assms(11) by simp
qed

theorem fork_name_overflow_witness:
  "\<exists>k' esp. scheduler_fork 0x100F00 (upd_pcb 3 (\<lambda>p. p\<lparr>p_pid := 7\<rparr>) (fork_start (''fourteen-chars'' @ [NUL, NUL]))) = (k', esp)
     \<and> p_pid (pcbs k' ! 3) = 0"
proof -
  define nm where "nm = ''fourteen-chars'' @ [NUL, NUL]"
  let ?k = "upd_pcb 3 (\<lambda>p. p\<lparr>p_pid := 7\<rparr>) (fork_start nm)"
  obtain k' esp where d: "scheduler_fork 0x100F00 ?k = (k', esp)" by fastforce
  have n: "length nm = 16" "NUL \<in> set nm" "length (c_string nm) = 14" by (simp_all add: c_string_def nm_def)
  note ff = fork_start_facts [OF n(1)]
  have len: "length (pcbs (fork_start nm)) = 16" using ff(2) by (simp add: kernel_inv_def)
  have p: "pcbs ?k ! i = (if i = 3 then (pcbs (fork_start nm) ! 3)\<lparr>p_pid := 7\<rparr> else pcbs (fork_start nm) ! i)" for i
    using len by (simp add: pcbs_upd_pcb)
  have kinv: "kernel_inv {256, 258} ?k" by (rule kernel_inv_upd [OF ff(2)]) (simp add: stack_neutral_def)
  have "free_slot (pcbs ?k) = Some 2" using ff(5) by (auto simp: free_slot_def scan_Some_iff p)
  moreover have "free_set (frame_bitmap (pmm_of ?k)) \<noteq> {}" by (simp add: ff(6))
  moreover have "current ?k = Some 1" "p_has_stack (pcbs ?k ! 1)" "p_name (pcbs ?k ! 1) = nm"
    "\<forall>i < 16. length (p_name (pcbs ?k ! i)) = 16" "p_pid (pcbs ?k ! 3) = 7"
    using ff(3,4,8,9) by (simp_all add: p)
  ultimately have "p_pid (pcbs k' ! 3) = 0" using fork_name_overflow [OF kinv _ _ _ _ _ _ _ _ _ d, of 1 2] n by simp
  with d show ?thesis unfolding nm_def by blast
qed

end
