(* ===== verification/Blocking.thy ===== *)
theory Blocking
  imports Scheduler
begin

text \<open>
  What the synchronisation primitives of \<^verbatim>\<open>kernel/mutex.c\<close>, \<^verbatim>\<open>kernel/semaphore.c\<close> and
  \<^verbatim>\<open>kernel/rwlock.c\<close> rely on, as two interfaces: the scheduler seen by a process that blocks
  without a wake-up time (locale \<open>blocking_kernel\<close>, interpreted on the model of the scheduler),
  and the array of waiting processes (locale \<open>wait_queue\<close>, interpreted by each primitive).
  Between \<^verbatim>\<open>irq_save\<close> and \<^verbatim>\<open>irq_restore\<close> the primitives run with interrupts off, so these parts
  are atomic; the tests and the lazy initialisation in front of them run with interrupts on and
  are steps of their own (\<open>lock_pc\<close>). Between two steps the scheduler may run any number of times
  (\<open>kstep\<close>).
\<close>

subsection \<open>The kernel as a blocking process sees it\<close>

locale blocking_kernel =
  fixes inv :: "'k \<Rightarrow> bool"
    and cur :: "'k \<Rightarrow> nat option"
    and runs :: "'k \<Rightarrow> nat \<Rightarrow> bool"
    and user :: "'k \<Rightarrow> nat \<Rightarrow> bool"
    and asleep :: "'k \<Rightarrow> nat set"
    and block :: "'k \<Rightarrow> 'k"
    and wake :: "nat option \<Rightarrow> 'k \<Rightarrow> 'k"
    and step :: "'k \<Rightarrow> 'k \<Rightarrow> bool"
  assumes cur_bound: "inv k \<Longrightarrow> cur k = Some c \<Longrightarrow> c < 16"
    and runs_awake: "inv k \<Longrightarrow> runs k c \<Longrightarrow> c \<notin> asleep k"
    and block_inv: "inv k \<Longrightarrow> cur k = Some c \<Longrightarrow> runs k c \<Longrightarrow> user k c \<Longrightarrow> inv (block k)"
    and block_asleep: "inv k \<Longrightarrow> cur k = Some c \<Longrightarrow> runs k c \<Longrightarrow> user k c \<Longrightarrow> asleep (block k) = insert c (asleep k)"
    and block_user: "inv k \<Longrightarrow> i < 16 \<Longrightarrow> user (block k) i = user k i"
    and wake_inv: "inv k \<Longrightarrow> i \<in> asleep k \<Longrightarrow> inv (wake (Some i) k)"
    and wake_asleep: "inv k \<Longrightarrow> i \<in> asleep k \<Longrightarrow> asleep (wake (Some i) k) = asleep k - {i}"
    and wake_user: "inv k \<Longrightarrow> i \<in> asleep k \<Longrightarrow> j < 16 \<Longrightarrow> user (wake (Some i) k) j = user k j"
    and step_inv: "inv k \<Longrightarrow> step k k' \<Longrightarrow> inv k'"
    and step_asleep: "inv k \<Longrightarrow> step k k' \<Longrightarrow> asleep k' = asleep k"
    and step_user: "inv k \<Longrightarrow> step k k' \<Longrightarrow> i < 16 \<Longrightarrow> user k' i = user k i"
begin

text \<open>A queue of sleepers stays one when the running process joins it and blocks.\<close>

lemma join_queue:
  assumes "inv k" "cur k = Some c" "runs k c" "user k c" "set q \<subseteq> asleep k" "distinct q"
  shows "set (q @ [c]) \<subseteq> asleep (block k)" "distinct (q @ [c])" "inv (block k)"
  using assms runs_awake [OF assms(1,3)] by (auto simp: block_asleep [OF assms(1-4)] block_inv)

text \<open>Waking the head leaves a queue of sleepers, and only the head is awake afterwards.\<close>

lemma wake_head:
  assumes "inv k" "set (x # q) \<subseteq> asleep k" "distinct (x # q)"
  shows "set q \<subseteq> asleep (wake (Some x) k)" "x \<notin> asleep (wake (Some x) k)" "inv (wake (Some x) k)"
  using assms by (auto simp: wake_asleep wake_inv)

lemma other_queue:
  assumes "inv k" "x \<in> asleep k" "set q \<subseteq> asleep k" "x \<notin> set q"
  shows "set q \<subseteq> asleep (wake (Some x) k)"
  using assms by (auto simp: wake_asleep)

end

subsection \<open>Wait queues\<close>

text \<open>
  A wait queue holds at most 16 processes in the order they came; one that is already in it is
  not entered twice.
\<close>

locale wait_queue =
  fixes wf :: "'q \<Rightarrow> bool"
    and elems :: "'q \<Rightarrow> nat list"
    and add :: "nat \<Rightarrow> 'q \<Rightarrow> 'q"
    and pop :: "'q \<Rightarrow> 'q \<times> nat option"
  assumes len_elems: "wf q \<Longrightarrow> length (elems q) \<le> 16"
    and add_wf: "wf q \<Longrightarrow> wf (add p q)"
    and add_new: "wf q \<Longrightarrow> p \<notin> set (elems q) \<Longrightarrow> length (elems q) < 16 \<Longrightarrow> elems (add p q) = elems q @ [p]"
    and add_old: "wf q \<Longrightarrow> p \<in> set (elems q) \<Longrightarrow> add p q = q"
    and pop_wf: "wf q \<Longrightarrow> wf (fst (pop q))"
    and pop_empty: "wf q \<Longrightarrow> elems q = [] \<Longrightarrow> pop q = (q, None)"
    and pop_head: "wf q \<Longrightarrow> elems q = x # xs \<Longrightarrow> snd (pop q) = Some x \<and> elems (fst (pop q)) = xs"
begin

lemma pop_None: "wf q \<Longrightarrow> snd (pop q) = None \<longleftrightarrow> elems q = []"
  using pop_empty [of q] pop_head [of q] by (cases "elems q") auto

lemma pop_Some: "wf q \<Longrightarrow> snd (pop q) = Some x \<Longrightarrow> elems q = x # elems (fst (pop q))"
  using pop_empty [of q] pop_head [of q] by (cases "elems q") auto

lemma add_distinct:
  assumes "wf q" "distinct (elems q)" "length (elems q) < 16"
  shows "distinct (elems (add p q))"
  using assms add_new [of q p] add_old [of q p] by (cases "p \<in> set (elems q)") auto

text \<open>A process that is not queued among processes below 16 finds room.\<close>

lemma room:
  assumes "wf q" "distinct (elems q)" "set (elems q) \<subseteq> {..<16} - {p}" "p < 16"
  shows "length (elems q) < 16"
proof -
  have "length (elems q) = card (set (elems q))" using assms(2) by (simp add: distinct_card)
  also have "\<dots> \<le> card ({..<16} - {p})" using assms(3) by (intro card_mono) auto
  finally show ?thesis using assms(4) by simp
qed

text \<open>First in, first out: entering new processes and then emptying the queue returns everything in order.\<close>

lemma fifo:
  assumes "wf q" "distinct ps" "set ps \<inter> set (elems q) = {}" "length (elems q) + length ps \<le> 16"
  shows "elems (fold add ps q) = elems q @ ps \<and> wf (fold add ps q)"
  using assms
proof (induction ps arbitrary: q)
  case (Cons p ps)
  then have "elems (add p q) = elems q @ [p]" "wf (add p q)" by (simp_all add: add_new add_wf)
  then show ?case using Cons by auto
qed simp

end

text \<open>
  Where a process is in a call of a primitive, between any two points at which another process
  may run: outside; having found the object uninitialised and about to initialise it; behind the
  initialisation, where interrupts are still on; at the head of the retry loop; behind the yield
  that follows its blocking. A call that does not block (\<^verbatim>\<open>sem_signal\<close>) has the last two instead:
  having found the object uninitialised, and in front of its body.
\<close>

datatype lock_pc = Outside | Starting nat | Entering nat | Trying nat | Waiting nat | Posting_start nat | Posting nat

subsection \<open>The array behind a wait queue\<close>

text \<open>
  The two loops the primitives share, on the array of PCB pointers and its fill count: entering
  behind the last one unless the array is full or the process is in it, and taking the first by
  moving the others down.
\<close>

type_synonym waiters = "nat option list \<times> nat"

definition in_waiters :: "nat \<Rightarrow> waiters \<Rightarrow> bool" where
  "in_waiters p w = (scan (\<lambda>i. fst w ! i = Some p) 0 (snd w) \<noteq> None)"

definition push_waiter :: "nat \<Rightarrow> waiters \<Rightarrow> waiters" where
  "push_waiter p w = ((fst w)[snd w := Some p], snd w + 1)"

definition pop_waiter :: "waiters \<Rightarrow> waiters \<times> nat option" where
  "pop_waiter w =
     (if snd w = 0 then (w, None)
      else (((shift_down (fst w) 0 (snd w))[snd w - 1 := None], snd w - 1), fst w ! 0))"

definition waiters_wf :: "waiters \<Rightarrow> bool" where
  "waiters_wf w \<longleftrightarrow> length (fst w) = 16 \<and> snd w \<le> 16 \<and> None \<notin> set (take (snd w) (fst w))"

definition waiting :: "waiters \<Rightarrow> nat list" where
  "waiting w = map the (take (snd w) (fst w))"

lemma length_waiting [simp]: "waiters_wf w \<Longrightarrow> length (waiting w) = snd w"
  by (simp add: waiters_wf_def waiting_def)

lemma waiters_some: "waiters_wf w \<Longrightarrow> take (snd w) (fst w) = map Some (waiting w)"
  by (auto simp: waiting_def waiters_wf_def comp_def intro!: map_idI [symmetric]) (metis option.collapse)

lemma in_waiters_iff: "waiters_wf w \<Longrightarrow> in_waiters p w \<longleftrightarrow> p \<in> set (waiting w)"
proof -
  assume w: "waiters_wf w"
  have "in_waiters p w \<longleftrightarrow> (\<exists>i < snd w. fst w ! i = Some p)" by (auto simp: in_waiters_def scan_None_iff)
  also have "\<dots> \<longleftrightarrow> Some p \<in> set (take (snd w) (fst w))"
    using w by (auto simp: in_set_conv_nth waiters_wf_def)
  also have "\<dots> \<longleftrightarrow> p \<in> set (waiting w)" by (auto simp: waiters_some [OF w])
  finally show ?thesis .
qed

lemma push_waiter_spec:
  assumes "waiters_wf w" "snd w < 16"
  shows "waiters_wf (push_waiter p w)" "waiting (push_waiter p w) = waiting w @ [p]"
  using assms by (auto simp: waiters_wf_def push_waiter_def waiting_def take_update_last)

lemma pop_waiter_spec:
  assumes "waiters_wf w"
  shows "waiters_wf (fst (pop_waiter w))" "waiting w = [] \<Longrightarrow> pop_waiter w = (w, None)"
    "waiting w = x # xs \<Longrightarrow> snd (pop_waiter w) = Some x \<and> waiting (fst (pop_waiter w)) = xs"
proof -
  let ?a = "(shift_down (fst w) 0 (snd w))[snd w - 1 := None]"
  have len: "length (fst w) = 16" "snd w \<le> 16" using assms by (auto simp: waiters_wf_def)
  have t: "take (snd w - 1) ?a = tl (take (snd w) (fst w))" if "0 < snd w"
    using that len take_shift_down_0 [of "snd w" "fst w"] by simp
  show "waiters_wf (fst (pop_waiter w))"
  proof (cases "snd w = 0")
    case False
    have "set (tl (take (snd w) (fst w))) \<subseteq> set (take (snd w) (fst w))" by (cases "take (snd w) (fst w)") auto
    then show ?thesis using False assms t len by (auto simp: pop_waiter_def waiters_wf_def)
  qed (use assms in \<open>simp add: pop_waiter_def\<close>)
  show "waiting w = [] \<Longrightarrow> pop_waiter w = (w, None)" using assms length_waiting [OF assms] by (simp add: pop_waiter_def)
  assume c: "waiting w = x # xs"
  then have pos: "0 < snd w" using length_waiting [OF assms] by simp
  have tk: "take (snd w) (fst w) = Some x # map Some xs" using waiters_some [OF assms] c by simp
  then have "fst w ! 0 = Some x" using pos by (metis nth_Cons_0 nth_take)
  moreover have "waiting (fst (pop_waiter w)) = xs" using pos t tk by (simp add: pop_waiter_def waiting_def comp_def)
  ultimately show "snd (pop_waiter w) = Some x \<and> waiting (fst (pop_waiter w)) = xs" using pos by (simp add: pop_waiter_def)
qed

subsection \<open>The scheduler as a blocking kernel\<close>

text \<open>The processes that are blocked and not in the sleep queue: nobody but a waker runs them again.\<close>

definition asleep :: "sched \<Rightarrow> nat set" where
  "asleep k = {i. i < 16 \<and> p_state (pcbs k ! i) = PROC_BLOCKED \<and> i \<notin> set (sq k)}"

definition runs :: "sched \<Rightarrow> nat \<Rightarrow> bool" where
  "runs k c \<longleftrightarrow> current k = Some c \<and> p_state (pcbs k ! c) = PROC_RUNNING"

definition user :: "sched \<Rightarrow> nat \<Rightarrow> bool" where
  "user k c \<longleftrightarrow> p_pid (pcbs k ! c) \<noteq> 0"

text \<open>
  What else happens in the kernel: a tick or a yield, and a process that goes to sleep for a while.
  A sleep whose wake-up tick is exactly 0, for which the 32-bit tick counter has to be about to
  wrap, is left out: \<^verbatim>\<open>wake_sleepers\<close> stops at a head of the queue with wake-up tick 0, so it and
  every sleeper behind it would never wake. Creating and killing processes and exits are not steps
  either.
\<close>

inductive kstep :: "sched \<Rightarrow> sched \<Rightarrow> bool" where
  kdispatch: "dispatch ctx t k = (k', esp) \<Longrightarrow> kstep k k'"
| ksleep: "runs k c \<Longrightarrow> user k c \<Longrightarrow> tick_count k + (ms + 9) div 10 \<noteq> 0 \<Longrightarrow> kstep k (fst (sleep ms k))"

inductive_cases kstepE: "kstep k k'"

text \<open>The fields of a PCB the scheduler never touches.\<close>

definition lock_view :: "pcb \<Rightarrow> u32 \<times> nat option list \<times> nat \<times> nat option \<times> u8 \<times> u8" where
  "lock_view p = (p_pid p, p_owned_mutex_list p, p_owned_mutexes p, p_waiting_mutex p, p_rw_read_locks p, p_base_priority p)"

lemma lock_view_scheduler [simp]:
  "lock_view (wake_pcb p) = lock_view p" "lock_view (save_current ctx eip t p) = lock_view p"
  "lock_view (p\<lparr>p_state := s\<rparr>) = lock_view p" "lock_view (p\<lparr>p_wake_tick := w\<rparr>) = lock_view p"
  "lock_view (p\<lparr>p_wake_tick := w, p_state := s\<rparr>) = lock_view p"
  by (simp_all add: lock_view_def wake_pcb_def save_current_def charge_def Let_def)

lemma prepared_asleep:
  assumes "sched_inv k" "i < 16"
  shows "p_state (pcbs (prepared ctx t k) ! i) = PROC_BLOCKED \<and> i \<notin> set (sq (prepared ctx t k)) \<longleftrightarrow> i \<in> asleep k"
    "lock_view (pcbs (prepared ctx t k) ! i) = lock_view (pcbs k ! i)"
proof -
  obtain c where c: "current k = Some c" "c < 16" using sched_invD(9) [OF assms(1)] by blast
  let ?k = "k\<lparr>tick_count := tick_count k + 1\<rparr>"
  define k1 where "k1 = (if t then wake_sleepers ?k else k)"
  have q: "queue_inv ?k" using sched_invD(1) [OF assms(1)] by simp
  note w = wake_sleepers_spec [OF q]
  have len1: "length (pcbs k1) = 16" using w q by (auto simp: k1_def queue_inv_def)
  have p: "prepared ctx t k = upd_pcb c (save_current ctx (load32 (mem k1) (ctx + 32)) t) k1"
    using c by (simp add: prepared_def k1_def Let_def)
  have sqp: "sq (prepared ctx t k) = sq k1" by (simp add: p sq_def upd_pcb_def)
  have st: "p_state (pcbs (prepared ctx t k) ! i) = p_state (pcbs k1 ! i)"
    "lock_view (pcbs (prepared ctx t k) ! i) = lock_view (pcbs k1 ! i)"
    using len1 c(2) by (simp_all add: p pcbs_upd_pcb)
  have ex: "i \<in> expired ?k \<Longrightarrow> i \<in> set (sq k) \<and> p_state (pcbs k ! i) = PROC_BLOCKED"
    using q by (auto simp: expired_def queue_inv_def sq_def)
  have sqk: "sq ?k = sq k" by (simp add: sq_def)
  have "p_state (pcbs k1 ! i) = PROC_BLOCKED \<and> i \<notin> set (sq k1) \<longleftrightarrow> p_state (pcbs k ! i) = PROC_BLOCKED \<and> i \<notin> set (sq k)"
    using w ex sqk by (auto simp: k1_def wake_pcb_def)
  then show "p_state (pcbs (prepared ctx t k) ! i) = PROC_BLOCKED \<and> i \<notin> set (sq (prepared ctx t k)) \<longleftrightarrow> i \<in> asleep k"
    using assms(2) by (simp add: st sqp asleep_def)
  show "lock_view (pcbs (prepared ctx t k) ! i) = lock_view (pcbs k ! i)" unfolding st using w by (simp add: k1_def)
qed

lemma dispatch_asleep:
  assumes "sched_inv k" "dispatch ctx t k = (k', esp)"
  shows "sched_inv k'" "asleep k' = asleep k" "i < 16 \<Longrightarrow> lock_view (pcbs k' ! i) = lock_view (pcbs k ! i)"
proof -
  obtain c where c: "current k = Some c" using sched_invD(9) [OF assms(1)] by blast
  obtain n where n: "n < 16" "runnable_at (pcbs (prepared ctx t k)) n"
      "k' = switch_to c n ((prepared ctx t k)\<lparr>rr_cursor := (c + 1) mod 16\<rparr>)" "sched_inv k'"
    using dispatch_facts [OF assms(1) c assms(2)] by metis
  have c16: "c < 16" using sched_invD(6) [OF assms(1) c] .
  have len: "length (pcbs (prepared ctx t k)) = 16" using sched_invD(8) [OF prepared_inv(1) [OF assms(1)]] .
  have p: "pcbs k' ! i = (if i = n then (pcbs (prepared ctx t k) ! n)\<lparr>p_state := PROC_RUNNING\<rparr>
      else if i = c \<and> p_state (pcbs (prepared ctx t k) ! c) = PROC_RUNNING then (pcbs (prepared ctx t k) ! c)\<lparr>p_state := PROC_READY\<rparr>
      else pcbs (prepared ctx t k) ! i)" for i
    using len c16 n(1) by (auto simp: n(3) switch_to_def process_set_current_def pcbs_upd_pcb)
  have sq': "sq k' = sq (prepared ctx t k)" by (simp add: n(3) switch_to_def process_set_current_def sq_def upd_pcb_def)
  show "sched_inv k'" using n(4) .
  show "asleep k' = asleep k"
  proof -
    have "i \<in> asleep k' \<longleftrightarrow> i \<in> asleep k" for i
    proof (cases "i < 16")
      case True
      have "i \<in> asleep k' \<longleftrightarrow> p_state (pcbs (prepared ctx t k) ! i) = PROC_BLOCKED \<and> i \<notin> set (sq (prepared ctx t k))"
        using True n(2) by (auto simp: asleep_def p sq' runnable_at_def)
      then show ?thesis using prepared_asleep(1) [OF assms(1) True] by simp
    qed (simp add: asleep_def)
    then show ?thesis by blast
  qed
  show "i < 16 \<Longrightarrow> lock_view (pcbs k' ! i) = lock_view (pcbs k ! i)"
    using prepared_asleep(2) [OF assms(1), of _ ctx t] n(1) c16 by (simp add: p)
qed

lemma dispatch_runs:
  assumes "sched_inv k" "dispatch ctx t k = (k', esp)"
  obtains n where "n < 16" "runs k' n"
proof -
  obtain c where c: "current k = Some c" using sched_invD(9) [OF assms(1)] by blast
  obtain n where n: "n < 16" "runnable_at (pcbs (prepared ctx t k)) n"
      "k' = switch_to c n ((prepared ctx t k)\<lparr>rr_cursor := (c + 1) mod 16\<rparr>)"
    using dispatch_facts [OF assms(1) c assms(2)] by metis
  have "runs k' n"
    using switch_to_inv(2,3) [of "(prepared ctx t k)\<lparr>rr_cursor := (c + 1) mod 16\<rparr>" c n] n c prepared_inv [OF assms(1)]
    by (simp add: runs_def)
  with n(1) show ?thesis by (rule that)
qed

lemma sleep_asleep:
  assumes "sched_inv k" "runs k c" "user k c" "tick_count k + (ms + 9) div 10 \<noteq> 0" "k' = fst (sleep ms k)"
  shows "sched_inv k'" "asleep k' = asleep k" "i < 16 \<Longrightarrow> lock_view (pcbs k' ! i) = lock_view (pcbs k ! i)"
proof -
  let ?w = "tick_count k + (ms + 9) div 10"
  define k1 where "k1 = upd_pcb c (\<lambda>p. p\<lparr>p_wake_tick := ?w\<rparr>) k"
  have c: "current k = Some c" "p_state (pcbs k ! c) = PROC_RUNNING" "p_pid (pcbs k ! c) \<noteq> 0" "c < 16"
    using assms(1-3) sched_invD(6) by (auto simp: runs_def user_def)
  have len: "length (pcbs k) = 16" and q: "queue_inv k" using sched_invD(1,8) [OF assms(1)] by simp_all
  have nin: "c \<notin> set (sq k)" using q c(2) by (auto simp: queue_inv_def)
  have "queue_inv k1" unfolding k1_def using nin by (intro queue_inv_upd [OF q]) simp
  then have inv1: "sched_inv k1" unfolding k1_def
    by (rule sched_inv_upd [OF assms(1)]) (use c sched_invD(2-5) [OF assms(1)] in \<open>auto simp: runnable_at_def\<close>)
  have c1: "current k1 = Some c" "p_pid (pcbs k1 ! c) \<noteq> 0" "p_state (pcbs k1 ! c) = PROC_RUNNING"
    using c len by (simp_all add: k1_def pcbs_upd_pcb)
  note b = block_current_spec [OF inv1 c1 assms(4)]
  have k'c: "k' = (if (ms + 9) div 10 = 0 then k else scheduler_block_current ?w k1)"
    using c by (simp add: assms(5) sleep_def Let_def k1_def)
  have sq1: "sq k1 = sq k" by (simp add: k1_def sq_def upd_pcb_def)
  have pcb: "pcbs (scheduler_block_current ?w k1) ! i = (if i = c then (pcbs k ! c)\<lparr>p_wake_tick := ?w, p_state := PROC_BLOCKED\<rparr> else pcbs k ! i)" for i
    using b(2) len c(4) by (simp add: k1_def pcbs_upd_pcb)
  have "set (sq (scheduler_block_current ?w k1)) = insert c (set (sq k))"
    using b(3) sq1 mset_eq_setD [of "sq (scheduler_block_current ?w k1)" "c # sq k"] by simp
  then have "asleep (scheduler_block_current ?w k1) = asleep k" using c(2) by (auto simp: asleep_def pcb)
  then show "asleep k' = asleep k" by (simp add: k'c)
  show "sched_inv k'" using b(1) assms(1) by (simp add: k'c)
  show "i < 16 \<Longrightarrow> lock_view (pcbs k' ! i) = lock_view (pcbs k ! i)" by (simp add: k'c pcb)
qed

lemma kstep_keeps:
  assumes "kstep k k'" "sched_inv k"
  shows "sched_inv k'" "asleep k' = asleep k" "i < 16 \<Longrightarrow> lock_view (pcbs k' ! i) = lock_view (pcbs k ! i)"
  using assms(1) by (auto elim!: kstepE dest: dispatch_asleep [OF assms(2)] sleep_asleep [OF assms(2)])

lemma block_forever_spec:
  assumes "sched_inv k" "runs k c" "user k c"
  shows "sched_inv (scheduler_block_forever k)" "asleep (scheduler_block_forever k) = insert c (asleep k)"
    "pcbs (scheduler_block_forever k) = (pcbs k)[c := (pcbs k ! c)\<lparr>p_wake_tick := 0, p_state := PROC_BLOCKED\<rparr>]"
    "current (scheduler_block_forever k) = current k" "sq (scheduler_block_forever k) = sq k"
proof -
  let ?f = "\<lambda>p. p\<lparr>p_wake_tick := 0, p_state := PROC_BLOCKED\<rparr>"
  have c: "current k = Some c" "p_state (pcbs k ! c) = PROC_RUNNING" "p_pid (pcbs k ! c) \<noteq> 0" "c < 16"
    using assms sched_invD(6) by (auto simp: runs_def user_def)
  have len: "length (pcbs k) = 16" and q: "queue_inv k" using sched_invD(1,8) [OF assms(1)] by simp_all
  have nin: "c \<notin> set (sq k)" using q c(2) by (auto simp: queue_inv_def)
  have b: "scheduler_block_forever k = upd_pcb c ?f k" using c by (simp add: scheduler_block_forever_def)
  have "c \<noteq> 0" using c(3) sched_invD(3) [OF assms(1)] by (auto intro: ccontr)
  moreover have "queue_inv (upd_pcb c ?f k)" using nin by (intro queue_inv_upd [OF q]) simp
  ultimately show "sched_inv (scheduler_block_forever k)" unfolding b
    by (intro sched_inv_upd [OF assms(1)]) (use c sched_invD(2) [OF assms(1)] in auto)
  show p: "pcbs (scheduler_block_forever k) = (pcbs k)[c := ?f (pcbs k ! c)]" "current (scheduler_block_forever k) = current k"
    "sq (scheduler_block_forever k) = sq k" by (simp_all add: b upd_pcb_def sq_def)
  show "asleep (scheduler_block_forever k) = insert c (asleep k)"
    using len c(4) nin by (auto simp: asleep_def p nth_list_update)
qed

lemma wake_spec:
  assumes "sched_inv k" "i \<in> asleep k"
  shows "sched_inv (scheduler_wake (Some i) k)" "asleep (scheduler_wake (Some i) k) = asleep k - {i}"
    "current (scheduler_wake (Some i) k) = current k" "sq (scheduler_wake (Some i) k) = sq k"
    "p_state (pcbs (scheduler_wake (Some i) k) ! i) = PROC_READY"
    "j \<noteq> i \<Longrightarrow> pcbs (scheduler_wake (Some i) k) ! j = pcbs k ! j"
    "lock_view (pcbs (scheduler_wake (Some i) k) ! j) = lock_view (pcbs k ! j)"
    "p_priority (pcbs (scheduler_wake (Some i) k) ! j) = p_priority (pcbs k ! j)"
    "length (pcbs (scheduler_wake (Some i) k)) = length (pcbs k)"
proof -
  let ?f = "\<lambda>p. let p1 = p\<lparr>p_state := PROC_READY, p_wake_tick := 0, p_ticks_used := 0\<rparr>
      in if p_quantum_ticks p1 = 0 then p1\<lparr>p_quantum_ticks := 4\<rparr> else p1"
  have i: "i < 16" "p_state (pcbs k ! i) = PROC_BLOCKED" "i \<notin> set (sq k)" using assms(2) by (auto simp: asleep_def)
  have len: "length (pcbs k) = 16" and q: "queue_inv k" using sched_invD(1,8) [OF assms(1)] by simp_all
  have w: "scheduler_wake (Some i) k = upd_pcb i ?f k" using i by (simp add: scheduler_wake_def)
  have f: "p_state (?f p) = PROC_READY" "p_priority (?f p) = p_priority p" "lock_view (?f p) = lock_view p" for p
    by (simp_all add: Let_def lock_view_def)
  have "i \<noteq> 0"
  proof
    assume "i = 0"
    then show False using i(2) sched_invD(4) [OF assms(1)] by (simp add: runnable_at_def)
  qed
  moreover have "queue_inv (upd_pcb i ?f k)" using i by (intro queue_inv_upd [OF q]) simp
  ultimately show "sched_inv (scheduler_wake (Some i) k)" unfolding w
    by (intro sched_inv_upd [OF assms(1)]) (use i sched_invD(2) [OF assms(1)] f in auto)
  have p: "pcbs (scheduler_wake (Some i) k) ! j = (if j = i then ?f (pcbs k ! i) else pcbs k ! j)" for j
    unfolding w using i(1) len by (intro pcbs_upd_pcb) simp
  show s: "current (scheduler_wake (Some i) k) = current k" "sq (scheduler_wake (Some i) k) = sq k"
    "length (pcbs (scheduler_wake (Some i) k)) = length (pcbs k)"
    unfolding w by (simp_all add: sq_def upd_pcb_def)
  show "p_state (pcbs (scheduler_wake (Some i) k) ! i) = PROC_READY" using f(1) p [of i] by simp
  show "j \<noteq> i \<Longrightarrow> pcbs (scheduler_wake (Some i) k) ! j = pcbs k ! j" using p [of j] by simp
  show "lock_view (pcbs (scheduler_wake (Some i) k) ! j) = lock_view (pcbs k ! j)" using f(3) p [of j] by simp
  show "p_priority (pcbs (scheduler_wake (Some i) k) ! j) = p_priority (pcbs k ! j)" using f(2) p [of j] by simp
  have st: "p_state (pcbs (scheduler_wake (Some i) k) ! j) = (if j = i then PROC_READY else p_state (pcbs k ! j))" for j
    using f(1) p [of j] by simp
  show "asleep (scheduler_wake (Some i) k) = asleep k - {i}" by (auto simp: asleep_def st s(2))
qed

text \<open>A wake-up of a process that is not blocked does nothing.\<close>

lemma wake_other: "p_state (pcbs k ! i) \<noteq> PROC_BLOCKED \<Longrightarrow> scheduler_wake (Some i) k = k"
  by (simp add: scheduler_wake_def)

lemma user_lock_view: "lock_view p = lock_view q \<Longrightarrow> (p_pid p = 0) = (p_pid q = 0)"
  by (simp add: lock_view_def)

interpretation bk: blocking_kernel sched_inv current runs user asleep scheduler_block_forever scheduler_wake kstep
proof (unfold_locales, goal_cases)
  case (1 k c)
  then show ?case by (rule sched_invD(6))
next
  case (2 k c)
  then show ?case by (simp add: runs_def asleep_def)
next
  case (3 k c)
  show ?case by (rule block_forever_spec(1) [OF 3(1,3,4)])
next
  case (4 k c)
  show ?case by (rule block_forever_spec(2) [OF 4(1,3,4)])
next
  case (5 k i)
  obtain c where c: "current k = Some c" "c < 16" using sched_invD(9) [OF 5(1)] by blast
  then show ?case using sched_invD(8) [OF 5(1)] by (simp add: user_def scheduler_block_forever_def pcbs_upd_pcb)
next
  case (6 k i)
  then show ?case by (rule wake_spec(1))
next
  case (7 k i)
  then show ?case by (rule wake_spec(2))
next
  case (8 k i j)
  show ?case unfolding user_def using user_lock_view [OF wake_spec(7) [OF 8(1,2)]] by simp
next
  case (9 k k')
  show ?case by (rule kstep_keeps(1) [OF 9(2,1)])
next
  case (10 k k')
  show ?case by (rule kstep_keeps(2) [OF 10(2,1)])
next
  case (11 k k' i)
  show ?case unfolding user_def using user_lock_view [OF kstep_keeps(3) [OF 11(2,1,3)]] by simp
qed

subsection \<open>Changes to a PCB the scheduler does not see\<close>

text \<open>
  An update of one PCB that keeps the state, the wake-up time and the pid, and a priority the
  scheduler accepts, keeps everything the locks rely on.
\<close>

lemma upd_neutral:
  assumes "sched_inv k" "i < 16" "p_state (f (pcbs k ! i)) = p_state (pcbs k ! i)" "p_wake_tick (f (pcbs k ! i)) = p_wake_tick (pcbs k ! i)"
    "p_pid (f (pcbs k ! i)) = p_pid (pcbs k ! i)" "p_priority (f (pcbs k ! i)) \<le> p_priority (pcbs k ! i) \<or> p_priority (f (pcbs k ! i)) < 3 \<and> i \<noteq> 0"
  shows "sched_inv (upd_pcb i f k)" "asleep (upd_pcb i f k) = asleep k" "runs (upd_pcb i f k) = runs k"
    "user (upd_pcb i f k) j = user k j"
proof -
  have len: "length (pcbs k) = 16" and q: "queue_inv k" using sched_invD(1,8) [OF assms(1)] by simp_all
  have p: "pcbs (upd_pcb i f k) ! j = (if j = i then f (pcbs k ! i) else pcbs k ! j)" for j
    using len assms(2) by (simp add: pcbs_upd_pcb)
  have "queue_inv (upd_pcb i f k)" using assms(3,4) q by (intro queue_inv_upd [OF q]) (auto simp: queue_inv_def)
  moreover have "p_priority (f (pcbs k ! i)) < 3" using assms(6) sched_invD(2) [OF assms(1,2)] by auto
  moreover have "current k = Some i" if "p_state (f (pcbs k ! i)) = PROC_RUNNING"
    using that assms(2,3) sched_invD(7,9) [OF assms(1)] by auto
  moreover have "p_pid (f (pcbs k ! i)) = 0 \<and> p_priority (f (pcbs k ! i)) = 0
      \<and> (p_state (f (pcbs k ! i)) = PROC_READY \<or> p_state (f (pcbs k ! i)) = PROC_RUNNING)" if "i = 0"
    using that assms(3,5,6) sched_invD(3-5) [OF assms(1)] by (auto simp: runnable_at_def word_le_0_iff)
  ultimately show "sched_inv (upd_pcb i f k)" by (intro sched_inv_upd [OF assms(1)]) auto
  have s: "sq (upd_pcb i f k) = sq k" by (simp add: sq_def upd_pcb_def)
  show "asleep (upd_pcb i f k) = asleep k" using assms(3) by (auto simp: asleep_def p s)
  show "runs (upd_pcb i f k) = runs k" using assms(3) by (auto simp: runs_def p fun_eq_iff)
  show "user (upd_pcb i f k) j = user k j" using assms(5) by (simp add: user_def p)
qed

lemma proc1_runs: "runs proc1_running 1" "user proc1_running 1"
  using proc1_running_facts(2-4) by (simp_all add: runs_def user_def)

lemma proc1_asleep: "asleep proc1_running = {}"
proof -
  have "p_state (pcbs sched_boot ! j) \<noteq> PROC_BLOCKED" if "j < 16" for j
    using that by (simp add: sched_boot_fields process_init_def Let_def upd_pcb_def empty_pcb_def nth_list_update)
  then have "p_state (pcbs proc1_running ! j) \<noteq> PROC_BLOCKED" if "j < 16" for j
    using that sched_invD(8) [OF sched_boot_inv] by (simp add: proc1_running_def pcbs_upd_pcb)
  then show ?thesis by (auto simp: asleep_def)
qed

text \<open>Putting a further blocked process into the table, to build contended states.\<close>

lemma upd_blocked:
  assumes "sched_inv k" "i < 16" "i \<noteq> 0" "current k \<noteq> Some i" "sq k = []"
    "p_state (f (pcbs k ! i)) = PROC_BLOCKED" "p_priority (f (pcbs k ! i)) < 3"
  shows "sched_inv (upd_pcb i f k)" "asleep (upd_pcb i f k) = insert i (asleep k)" "sq (upd_pcb i f k) = []"
    "current (upd_pcb i f k) = current k" "runs (upd_pcb i f k) j = runs k j"
    "user (upd_pcb i f k) j = (if j = i then p_pid (f (pcbs k ! i)) \<noteq> 0 else user k j)"
    "pcbs (upd_pcb i f k) ! j = (if j = i then f (pcbs k ! i) else pcbs k ! j)"
proof -
  have len: "length (pcbs k) = 16" and q: "queue_inv k" using sched_invD(1,8) [OF assms(1)] by simp_all
  show p: "pcbs (upd_pcb i f k) ! j = (if j = i then f (pcbs k ! i) else pcbs k ! j)" for j
    using len assms(2) by (simp add: pcbs_upd_pcb)
  have "queue_inv (upd_pcb i f k)" by (rule queue_inv_upd [OF q]) (simp add: assms(5))
  then show "sched_inv (upd_pcb i f k)" by (rule sched_inv_upd [OF assms(1)]) (use assms in simp_all)
  show sq: "sq (upd_pcb i f k) = []" using assms(5) by (simp add: sq_def upd_pcb_def)
  show c: "current (upd_pcb i f k) = current k" by (simp add: upd_pcb_def)
  show "asleep (upd_pcb i f k) = insert i (asleep k)" using assms(2,5,6) by (auto simp: asleep_def sq p)
  show "runs (upd_pcb i f k) j = runs k j" using assms(4) by (auto simp: runs_def c p)
  show "user (upd_pcb i f k) j = (if j = i then p_pid (f (pcbs k ! i)) \<noteq> 0 else user k j)" by (simp add: user_def p)
qed

subsection \<open>Reaching a process by ticks\<close>

lemma switch_run_ksteps:
  "sched_inv k \<Longrightarrow> kstep\<^sup>*\<^sup>* k (switch_run cs k) \<and> sched_inv (switch_run cs k) \<and> (cs \<noteq> [] \<longrightarrow> (\<exists>n. runs (switch_run cs k) n))"
proof (induction cs arbitrary: k)
  case (Cons x cs)
  obtain ctx t where x: "x = (ctx, t)" by fastforce
  obtain k' esp where d: "dispatch ctx t k = (k', esp)" by fastforce
  have st: "kstep k k'" by (rule kdispatch [OF d])
  have IH: "kstep\<^sup>*\<^sup>* k' (switch_run cs k')" "sched_inv (switch_run cs k')" "cs \<noteq> [] \<longrightarrow> (\<exists>n. runs (switch_run cs k') n)"
    using Cons.IH [OF kstep_keeps(1) [OF st Cons.prems]] by blast+
  have r: "\<exists>n. runs k' n" using dispatch_runs [OF Cons.prems d] by metis
  have e: "switch_run (x # cs) k = switch_run cs k'" using d by (simp add: x)
  show ?case unfolding e using IH r converse_rtranclp_into_rtranclp [of kstep, OF st IH(1)] by (cases cs) auto
qed simp

text \<open>A READY process of level 0 gets to run, and nothing else than dispatching happens on the way.\<close>

lemma ticks_reach:
  assumes "sched_inv k" "current k = Some c" "j < 16" "j \<noteq> c" "p_state (pcbs k ! j) = PROC_READY" "p_priority (pcbs k ! j) = 0"
  obtains k' where "kstep\<^sup>*\<^sup>* k k'" "runs k' j" "sched_inv k'"
proof -
  let ?cs = "replicate 16 (0x9000 :: u32, True)"
  obtain m where m: "current (switch_run (take m ?cs) k) = Some j"
    using switch_run_reaches [OF assms, of ?cs] by auto
  have "take m ?cs \<noteq> []" using m assms(2,4) by (cases "take m ?cs") auto
  then obtain n where "runs (switch_run (take m ?cs) k) n" using switch_run_ksteps [OF assms(1)] by blast
  then have "runs (switch_run (take m ?cs) k) j" using m by (simp add: runs_def)
  with that show ?thesis using switch_run_ksteps [OF assms(1)] by blast
qed

lemma ksteps_keep:
  "kstep\<^sup>*\<^sup>* k k' \<Longrightarrow> sched_inv k \<Longrightarrow> sched_inv k' \<and> (\<forall>i < 16. user k' i = user k i)"
  by (induction rule: rtranclp_induct) (auto dest: kstep_keeps(1) bk.step_user)

text \<open>
  One tick from a process to its neighbour in the table, with no process asleep and the quantum not
  used up: the interrupted process is READY at level 0.
\<close>

lemma tick_to_neighbour:
  assumes "sched_inv k" "runs k c" "user k c" "sq k = []" "p_priority (pcbs k ! c) = 0" "c < 15"
    "p_ticks_used (pcbs k ! c) + 1 < p_quantum_ticks (pcbs k ! c)" "p_state (pcbs k ! Suc c) = PROC_READY" "p_priority (pcbs k ! Suc c) = 0"
    "ctx \<noteq> 0" "dispatch ctx True k = (k', esp)"
  shows "runs k' (Suc c)" "p_state (pcbs k' ! c) = PROC_READY" "p_priority (pcbs k' ! c) = 0"
proof -
  have cur: "current k = Some c" "p_state (pcbs k ! c) = PROC_RUNNING" "p_pid (pcbs k ! c) \<noteq> 0" using assms(2,3) by (simp_all add: runs_def user_def)
  have cd: "cdist ((c + 1) mod 16) (Suc c) = 0" using assms(6) by (simp add: cdist_def)
  have k': "current k' = Some (Suc c)"
    using dispatch_progress [OF assms(1) cur(1) assms(11) _ _ assms(8,9)] assms(6) cd by fastforce
  then show "runs k' (Suc c)" using dispatch_runs [OF assms(1,11)] by (auto simp: runs_def)
  have e: "k' = switch_to c (Suc c) ((prepared ctx True k)\<lparr>rr_cursor := (c + 1) mod 16\<rparr>)"
    using dispatch_facts [OF assms(1) cur(1) assms(11)] k' by (metis option.inject)
  have len: "length (pcbs k) = 16" using sched_invD(8) [OF assms(1)] .
  have "sleep_queue_count k = 0" using assms(4) sched_invD(1) [OF assms(1)] by (auto simp: sq_def queue_inv_def)
  then have p: "pcbs (prepared ctx True k) = (pcbs k)[c := save_current ctx (load32 (mem k) (ctx + 32)) True (pcbs k ! c)]"
    using cur(1) by (simp add: prepared_def Let_def wake_sleepers.simps upd_pcb_def)
  have s: "p_state (save_current ctx e True (pcbs k ! c)) = PROC_RUNNING" "p_priority (save_current ctx e True (pcbs k ! c)) = 0" for e
    using cur(2,3) assms(5,7,10) by (simp_all add: save_current_def charge_def Let_def linorder_not_less [symmetric])
  have "pcbs k' ! c = (save_current ctx (load32 (mem k) (ctx + 32)) True (pcbs k ! c))\<lparr>p_state := PROC_READY\<rparr>"
    using p s len assms(6) by (simp add: e switch_to_def process_set_current_def pcbs_upd_pcb nth_list_update)
  then show "p_state (pcbs k' ! c) = PROC_READY" "p_priority (pcbs k' ! c) = 0" using s(2) by simp_all
qed

lemma proc1_priority: "p_priority (pcbs proc1_running ! 1) = 0" and proc1_owned: "p_owned_mutexes (pcbs proc1_running ! 1) = 0"
proof -
  have "p_priority (pcbs sched_boot ! 1) = 0" "p_owned_mutexes (pcbs sched_boot ! 1) = 0"
    by (simp_all add: sched_boot_fields process_init_def Let_def upd_pcb_def empty_pcb_def zero_pcb_def nth_list_update)
  then show "p_priority (pcbs proc1_running ! 1) = 0" "p_owned_mutexes (pcbs proc1_running ! 1) = 0"
    using sched_invD(8) [OF sched_boot_inv] by (simp_all add: proc1_running_def pcbs_upd_pcb)
qed

text \<open>Processes 1 and 2 beside the shell, the first one running.\<close>

definition race_ker :: sched where
  "race_ker = upd_pcb 2 (\<lambda>p. p\<lparr>p_pid := 2, p_state := PROC_READY, p_priority := 0\<rparr>)
     (upd_pcb 1 (\<lambda>p. p\<lparr>p_quantum_ticks := 4, p_ticks_used := 0\<rparr>) proc1_running)"

lemma race_ker_facts:
  "sched_inv race_ker" "runs race_ker 1" "user race_ker 1" "sq race_ker = []" "p_priority (pcbs race_ker ! 1) = 0" "(1 :: nat) < 15"
  "p_ticks_used (pcbs race_ker ! 1) + 1 < p_quantum_ticks (pcbs race_ker ! 1)" "p_state (pcbs race_ker ! Suc 1) = PROC_READY"
  "p_priority (pcbs race_ker ! Suc 1) = 0" "user race_ker (Suc 1)"
proof -
  let ?k = "upd_pcb 1 (\<lambda>p. p\<lparr>p_quantum_ticks := 4, p_ticks_used := 0\<rparr>) proc1_running"
  have len: "length (pcbs proc1_running) = 16" using sched_invD(8) [OF proc1_running_facts(1)] .
  have k: "sched_inv ?k" by (rule upd_neutral(1) [OF proc1_running_facts(1)]) simp_all
  have sq: "sq ?k = []" using proc1_running_facts(5) by (simp add: sq_def upd_pcb_def)
  show "sq race_ker = []" using proc1_running_facts(5) by (simp add: race_ker_def sq_def upd_pcb_def)
  have "queue_inv race_ker" unfolding race_ker_def by (rule queue_inv_upd [OF sched_invD(1) [OF k]]) (simp only: sq, simp)
  then show "sched_inv race_ker" unfolding race_ker_def by (rule sched_inv_upd [OF k]) simp_all
  have p: "pcbs race_ker ! 1 = (pcbs proc1_running ! 1)\<lparr>p_quantum_ticks := 4, p_ticks_used := 0\<rparr>"
    "p_state (pcbs race_ker ! 2) = PROC_READY" "p_priority (pcbs race_ker ! 2) = 0" "p_pid (pcbs race_ker ! 2) = 2"
    "current race_ker = Some 1"
    using len proc1_running_facts(2) by (simp_all add: race_ker_def pcbs_upd_pcb)
  show "runs race_ker 1" "user race_ker 1" "user race_ker (Suc 1)" "p_priority (pcbs race_ker ! 1) = 0"
    "p_state (pcbs race_ker ! Suc 1) = PROC_READY" "p_priority (pcbs race_ker ! Suc 1) = 0"
    using p proc1_running_facts(3,4) proc1_priority by (simp_all add: runs_def user_def numeral_2_eq_2)
  show "p_ticks_used (pcbs race_ker ! 1) + 1 < p_quantum_ticks (pcbs race_ker ! 1)" unfolding p(1) by (simp add: word_less_nat_alt)
qed simp

end
