(* ===== verification/Semaphore.thy ===== *)
theory Semaphore
  imports Blocking
begin

text \<open>
  The counting semaphore of \<^verbatim>\<open>kernel/semaphore.c\<close>. The bodies between \<^verbatim>\<open>irq_save\<close> and
  \<^verbatim>\<open>irq_restore\<close> are atomic; \<open>sem_wait\<close> is cut into the guards with the test of the initialised
  flag (\<open>sem_enter\<close>), the lazy initialisation (\<open>sem_lazy\<close>), the attempt (\<open>sem_try\<close>) and what follows
  its \<^verbatim>\<open>thread_yield\<close> when the process runs again (\<open>sem_resume\<close>); \<open>sem_signal\<close> into the same first
  two (\<open>sem_up_enter\<close>, \<open>sem_up_lazy\<close>) and its body (\<open>sem_post\<close>). The count is the 32-bit word of
  the \<^verbatim>\<open>int32_t\<close>, read by \<open>sint\<close>; it wraps. A semaphore is named by a number, a null pointer by
  \<open>None\<close>. Two counters that the program does not have record how many waits returned with a unit
  and how many signals were given.
\<close>

record semaphore =
  s_count :: u32
  s_initialized :: bool
  s_waiters :: "nat option list"
  s_waiter_count :: nat

abbreviation s_array :: "semaphore \<Rightarrow> waiters" where
  "s_array s \<equiv> (s_waiters s, s_waiter_count s)"

definition sem_waitq_add :: "nat \<Rightarrow> semaphore \<Rightarrow> semaphore" where
  "sem_waitq_add p s =
     (if 16 \<le> s_waiter_count s then s
      else if in_waiters p (s_array s) then s
      else let (a, n) = push_waiter p (s_array s) in s\<lparr>s_waiters := a, s_waiter_count := n\<rparr>)"

definition sem_waitq_pop :: "semaphore \<Rightarrow> semaphore \<times> nat option" where
  "sem_waitq_pop s =
     (case pop_waiter (s_array s) of ((a, n), p) \<Rightarrow> (s\<lparr>s_waiters := a, s_waiter_count := n\<rparr>, p))"

definition semaphore_init :: "u32 \<Rightarrow> semaphore \<Rightarrow> semaphore" where
  "semaphore_init initial_count s =
     s\<lparr>s_count := (if sint initial_count < 0 then 0 else initial_count), s_initialized := True, s_waiter_count := 0,
       s_waiters := replicate 16 None\<rparr>"

definition sem_init :: "u32 \<Rightarrow> semaphore \<Rightarrow> semaphore" where
  "sem_init initial_count s = semaphore_init initial_count s"

record sem_sys =
  s_ker :: sched
  sems :: "nat \<Rightarrow> semaphore"
  s_pc :: "nat \<Rightarrow> lock_pc"
  s_taken :: "nat \<Rightarrow> nat"
  s_signals :: "nat \<Rightarrow> nat"

definition s_at :: "nat \<Rightarrow> lock_pc \<Rightarrow> sem_sys \<Rightarrow> sem_sys" where
  "s_at c l S = S\<lparr>s_pc := (s_pc S)(c := l)\<rparr>"

definition set_sem :: "nat \<Rightarrow> semaphore \<Rightarrow> sem_sys \<Rightarrow> sem_sys" where
  "set_sem s x S = S\<lparr>sems := (sems S)(s := x)\<rparr>"

definition sem_try :: "nat \<Rightarrow> sem_sys \<Rightarrow> sem_sys" where
  "sem_try s S =
     (case current (s_ker S) of
        None \<Rightarrow> S
      | Some cur \<Rightarrow>
          let x = sems S s in
          if 0 < sint (s_count x) then
            S\<lparr>sems := (sems S)(s := x\<lparr>s_count := s_count x - 1\<rparr>),
              s_pc := (s_pc S)(cur := Outside), s_taken := (s_taken S)(s := s_taken S s + 1)\<rparr>
          else if s_waiter_count x < 16 then
            S\<lparr>sems := (sems S)(s := sem_waitq_add cur x), s_ker := scheduler_block_forever (s_ker S),
              s_pc := (s_pc S)(cur := Waiting s)\<rparr>
          else S\<lparr>s_pc := (s_pc S)(cur := Trying s)\<rparr>)"

text \<open>The call up to its first attempt, when nobody else runs in between.\<close>

definition sem_wait :: "nat option \<Rightarrow> sem_sys \<Rightarrow> sem_sys" where
  "sem_wait ptr S =
     (case ptr of
        None \<Rightarrow> S
      | Some s \<Rightarrow>
          (case current (s_ker S) of
             None \<Rightarrow> S
           | Some cur \<Rightarrow>
               if p_pid (pcbs (s_ker S) ! cur) = 0 then S
               else sem_try s (if s_initialized (sems S s) then S else set_sem s (semaphore_init 0 (sems S s)) S)))"

text \<open>
  The same lines one by one, with interrupts on: the guards and the test of the flag; and the
  initialisation, by a process that has found the flag clear (it may be set by now).
\<close>

definition sem_enter :: "nat option \<Rightarrow> sem_sys \<Rightarrow> sem_sys" where
  "sem_enter ptr S =
     (case ptr of
        None \<Rightarrow> S
      | Some s \<Rightarrow>
          (case current (s_ker S) of
             None \<Rightarrow> S
           | Some cur \<Rightarrow>
               if p_pid (pcbs (s_ker S) ! cur) = 0 then S
               else s_at cur (if s_initialized (sems S s) then Trying s else Starting s) S))"

definition sem_lazy :: "nat \<Rightarrow> sem_sys \<Rightarrow> sem_sys" where
  "sem_lazy s S =
     (case current (s_ker S) of None \<Rightarrow> S | Some cur \<Rightarrow> s_at cur (Trying s) (set_sem s (semaphore_init 0 (sems S s)) S))"

definition sem_resume :: "nat \<Rightarrow> sem_sys \<Rightarrow> sem_sys" where
  "sem_resume s S =
     (case current (s_ker S) of
        None \<Rightarrow> S
      | Some cur \<Rightarrow>
          if p_state (pcbs (s_ker S) ! cur) \<noteq> PROC_BLOCKED
          then S\<lparr>s_pc := (s_pc S)(cur := Outside), s_taken := (s_taken S)(s := s_taken S s + 1)\<rparr>
          else S\<lparr>s_pc := (s_pc S)(cur := Trying s)\<rparr>)"

text \<open>The body of a signal, with interrupts off; behind it the caller is outside.\<close>

definition sem_post :: "nat \<Rightarrow> sem_sys \<Rightarrow> sem_sys" where
  "sem_post s S =
     (let S0 = (case current (s_ker S) of None \<Rightarrow> S | Some cur \<Rightarrow> s_at cur Outside S);
          S1 = S0\<lparr>s_signals := (s_signals S)(s := s_signals S s + 1)\<rparr>
      in case sem_waitq_pop (sems S s) of
           (y, Some next) \<Rightarrow> S1\<lparr>sems := (sems S)(s := y), s_ker := scheduler_wake (Some next) (s_ker S)\<rparr>
         | (y, None) \<Rightarrow> S1\<lparr>sems := (sems S)(s := y\<lparr>s_count := s_count y + 1\<rparr>)\<rparr>)"

text \<open>The call as one piece, when nobody else runs in between.\<close>

definition sem_signal :: "nat option \<Rightarrow> sem_sys \<Rightarrow> sem_sys" where
  "sem_signal ptr S =
     (case ptr of
        None \<Rightarrow> S
      | Some s \<Rightarrow> sem_post s (if s_initialized (sems S s) then S else set_sem s (semaphore_init 0 (sems S s)) S))"

text \<open>The test of the flag and the initialisation, with interrupts on.\<close>

definition sem_up_enter :: "nat option \<Rightarrow> sem_sys \<Rightarrow> sem_sys" where
  "sem_up_enter ptr S =
     (case ptr of
        None \<Rightarrow> S
      | Some s \<Rightarrow>
          (case current (s_ker S) of
             None \<Rightarrow> S
           | Some cur \<Rightarrow> s_at cur (if s_initialized (sems S s) then Posting s else Posting_start s) S))"

definition sem_up_lazy :: "nat \<Rightarrow> sem_sys \<Rightarrow> sem_sys" where
  "sem_up_lazy s S =
     (case current (s_ker S) of None \<Rightarrow> S | Some cur \<Rightarrow> s_at cur (Posting s) (set_sem s (semaphore_init 0 (sems S s)) S))"

subsection \<open>The wait queue\<close>

interpretation smq: wait_queue "\<lambda>s. waiters_wf (s_array s)" "\<lambda>s. waiting (s_array s)" sem_waitq_add sem_waitq_pop
proof (unfold_locales, goal_cases)
  case (1 q)
  then show ?case by (simp add: waiters_wf_def waiting_def)
next
  case (2 q p)
  then show ?case using push_waiter_spec(1) [of "s_array q" p] by (auto simp: sem_waitq_add_def Let_def split_def)
next
  case (3 q p)
  then show ?case using push_waiter_spec(2) [of "s_array q" p] in_waiters_iff [of "s_array q" p]
    by (auto simp: sem_waitq_add_def Let_def split_def)
next
  case (4 q p)
  then show ?case using in_waiters_iff [of "s_array q" p] by (simp add: sem_waitq_add_def)
next
  case (5 q)
  then show ?case using pop_waiter_spec(1) [of "s_array q"] by (simp add: sem_waitq_pop_def split_def)
next
  case (6 q)
  then show ?case using pop_waiter_spec(2) [of "s_array q"] by (simp add: sem_waitq_pop_def split_def)
next
  case (7 q x xs)
  then show ?case using pop_waiter_spec(3) [of "s_array q" x xs] by (simp add: sem_waitq_pop_def split_def)
qed

lemma sem_queue_fields [simp]:
  "s_count (sem_waitq_add p s) = s_count s" "s_initialized (sem_waitq_add p s) = s_initialized s"
  "s_count (fst (sem_waitq_pop s)) = s_count s" "s_initialized (fst (sem_waitq_pop s)) = s_initialized s"
  by (simp_all add: sem_waitq_add_def sem_waitq_pop_def Let_def split_def)

subsection \<open>All interleavings\<close>

text \<open>
  A run: the kernel switches processes at any point outside the atomic bodies, the running
  process starts a wait or a signal when it is in none, and goes on with its call otherwise.
\<close>

inductive sem_step :: "sem_sys \<Rightarrow> sem_sys \<Rightarrow> bool" where
  sem_kernel: "kstep (s_ker S) k' \<Longrightarrow> sem_step S (S\<lparr>s_ker := k'\<rparr>)"
| sem_call: "runs (s_ker S) c \<Longrightarrow> s_pc S c = Outside \<Longrightarrow> sem_step S (sem_enter ptr S)"
| sem_starts: "runs (s_ker S) c \<Longrightarrow> s_pc S c = Starting s \<Longrightarrow> sem_step S (sem_lazy s S)"
| sem_again: "runs (s_ker S) c \<Longrightarrow> s_pc S c = Trying s \<Longrightarrow> sem_step S (sem_try s S)"
| sem_back: "runs (s_ker S) c \<Longrightarrow> s_pc S c = Waiting s \<Longrightarrow> sem_step S (sem_resume s S)"
| sem_up: "runs (s_ker S) c \<Longrightarrow> s_pc S c = Outside \<Longrightarrow> sem_step S (sem_up_enter ptr S)"
| sem_up_starts: "runs (s_ker S) c \<Longrightarrow> s_pc S c = Posting_start s \<Longrightarrow> sem_step S (sem_up_lazy s S)"
| sem_up_post: "runs (s_ker S) c \<Longrightarrow> s_pc S c = Posting s \<Longrightarrow> sem_step S (sem_post s S)"

abbreviation s_queue :: "sem_sys \<Rightarrow> nat \<Rightarrow> nat list" where
  "s_queue S s \<equiv> waiting (s_array (sems S s))"

text \<open>The processes that were given a unit by a signal and have not run since.\<close>

definition s_granted :: "sem_sys \<Rightarrow> nat \<Rightarrow> nat set" where
  "s_granted S s = {i. i < 16 \<and> s_pc S i = Waiting s \<and> i \<notin> set (s_queue S s)}"

text \<open>
  The queue of a semaphore; and its units, as long as the number of units ever given fits the
  count: with \<open>init\<close> the initial number, \<open>init s + signals < 2^31\<close>.
\<close>

definition sem_queue_ok :: "sem_sys \<Rightarrow> nat \<Rightarrow> bool" where
  "sem_queue_ok S s \<longleftrightarrow> s_initialized (sems S s) \<and> waiters_wf (s_array (sems S s)) \<and> distinct (s_queue S s)
     \<and> set (s_queue S s) \<subseteq> asleep (s_ker S) \<and> (\<forall>i \<in> set (s_queue S s). s_pc S i = Waiting s)
     \<and> (\<forall>i \<in> asleep (s_ker S). s_pc S i = Waiting s \<longrightarrow> i \<in> set (s_queue S s))"

definition sem_units :: "(nat \<Rightarrow> int) \<Rightarrow> sem_sys \<Rightarrow> nat \<Rightarrow> bool" where
  "sem_units init S s \<longleftrightarrow> 0 \<le> sint (s_count (sems S s)) \<and> (s_queue S s \<noteq> [] \<longrightarrow> s_count (sems S s) = 0)
     \<and> init s + int (s_signals S s) = sint (s_count (sems S s)) + int (s_taken S s) + int (card (s_granted S s))"

definition sem_ok :: "(nat \<Rightarrow> int) \<Rightarrow> sem_sys \<Rightarrow> nat \<Rightarrow> bool" where
  "sem_ok init S s \<longleftrightarrow> sem_queue_ok S s \<and> (init s + int (s_signals S s) < 2 ^ 31 \<longrightarrow> sem_units init S s)"

text \<open>The shell never waits; nobody is about to initialise a semaphore.\<close>

definition sem_inv :: "(nat \<Rightarrow> int) \<Rightarrow> sem_sys \<Rightarrow> bool" where
  "sem_inv init S \<longleftrightarrow> sched_inv (s_ker S) \<and> (\<forall>s. sem_ok init S s)
     \<and> (\<forall>i < 16. \<not> user (s_ker S) i \<longrightarrow> (\<forall>t. s_pc S i \<noteq> Trying t \<and> s_pc S i \<noteq> Waiting t))
     \<and> (\<forall>i t. s_pc S i \<noteq> Starting t \<and> s_pc S i \<noteq> Posting_start t)"

lemma sem_invI:
  assumes "sem_ok init S s" "\<And>t. t \<noteq> s \<Longrightarrow> sem_ok init S t" "sched_inv (s_ker S)"
    "\<And>i t. i < 16 \<Longrightarrow> \<not> user (s_ker S) i \<Longrightarrow> s_pc S i \<noteq> Trying t \<and> s_pc S i \<noteq> Waiting t"
    "\<And>i t. s_pc S i \<noteq> Starting t \<and> s_pc S i \<noteq> Posting_start t"
  shows "sem_inv init S"
  using assms unfolding sem_inv_def by metis

lemma sem_invD:
  assumes "sem_inv init S"
  shows "sched_inv (s_ker S)" "sem_ok init S s" "sem_queue_ok S s"
    "i < 16 \<Longrightarrow> \<not> user (s_ker S) i \<Longrightarrow> s_pc S i \<noteq> Trying t \<and> s_pc S i \<noteq> Waiting t"
    "s_pc S i \<noteq> Starting t \<and> s_pc S i \<noteq> Posting_start t"
  using assms by (simp_all add: sem_inv_def sem_ok_def)

lemma sem_queue_okD:
  assumes "sem_queue_ok S s"
  shows "s_initialized (sems S s)" "waiters_wf (s_array (sems S s))" "distinct (s_queue S s)"
    "set (s_queue S s) \<subseteq> asleep (s_ker S)" "i \<in> set (s_queue S s) \<Longrightarrow> s_pc S i = Waiting s"
    "i \<in> asleep (s_ker S) \<Longrightarrow> s_pc S i = Waiting s \<Longrightarrow> i \<in> set (s_queue S s)"
  using assms by (simp_all add: sem_queue_ok_def)

text \<open>The count away from its limits.\<close>

lemma sint_count_dec: "0 < sint (c :: u32) \<Longrightarrow> sint (c - 1) = sint c - 1"
proof -
  assume "0 < sint c"
  moreover have "sint (c - 1) = signed_take_bit 31 (sint c - 1)" by (simp add: sint_word_ariths)
  moreover have "sint c < 2 ^ 31" using sint_lt [of c] by simp
  ultimately show ?thesis by (simp add: signed_take_bit_int_eq_self)
qed

lemma sint_count_inc: "0 \<le> sint (c :: u32) \<Longrightarrow> sint c + 1 < 2 ^ 31 \<Longrightarrow> sint (c + 1) = sint c + 1"
proof -
  assume "0 \<le> sint c" "sint c + 1 < 2 ^ 31"
  moreover have "sint (c + 1) = signed_take_bit 31 (sint c + 1)" by (simp add: sint_word_ariths)
  ultimately show ?thesis by (simp add: signed_take_bit_int_eq_self)
qed

text \<open>What happens at one semaphore leaves the others correct.\<close>

lemma sem_ok_other:
  assumes "sem_ok init S t" "sems S' t = sems S t" "s_signals S' t = s_signals S t" "s_taken S' t = s_taken S t"
    "set (s_queue S t) \<subseteq> asleep (s_ker S')" "\<And>i. s_pc S i = Waiting t \<longleftrightarrow> s_pc S' i = Waiting t"
    "\<And>i. s_pc S i = Waiting t \<Longrightarrow> i \<in> asleep (s_ker S') \<Longrightarrow> i \<in> asleep (s_ker S)"
  shows "sem_ok init S' t"
proof -
  have "s_granted S' t = s_granted S t" using assms(2,6) by (simp add: s_granted_def)
  moreover have "\<forall>i \<in> asleep (s_ker S'). s_pc S' i = Waiting t \<longrightarrow> i \<in> set (s_queue S t)"
    using assms(1,6,7) by (simp add: sem_ok_def sem_queue_ok_def)
  ultimately show ?thesis using assms(1-6) by (simp add: sem_ok_def sem_queue_ok_def sem_units_def)
qed

text \<open>Steps that only move the running process.\<close>

lemma s_at_inv:
  assumes "sem_inv init S" "\<And>t. s_pc S c \<noteq> Waiting t" "\<And>t. l \<noteq> Waiting t \<and> l \<noteq> Starting t \<and> l \<noteq> Posting_start t"
    "user (s_ker S) c \<or> (\<forall>t. l \<noteq> Trying t)"
  shows "sem_inv init (s_at c l S)"
proof -
  note d = sem_invD [OF assms(1)]
  have "sem_ok init (s_at c l S) t" for t
    by (rule sem_ok_other [OF d(2)]) (use sem_queue_okD(4) [OF d(3), of t] assms(2,3) in \<open>auto simp: s_at_def\<close>)
  then show ?thesis using d(1,4,5) assms(3,4) by (auto simp: sem_inv_def s_at_def)
qed

lemma finite_granted [simp]: "finite (s_granted S s)"
  by (rule finite_subset [of _ "{..<16}"]) (auto simp: s_granted_def)

lemma sem_kernel_inv:
  assumes "sem_inv init S" "kstep (s_ker S) k'"
  shows "sem_inv init (S\<lparr>s_ker := k'\<rparr>)"
proof -
  note d = sem_invD [OF assms(1)]
  have "sem_ok init (S\<lparr>s_ker := k'\<rparr>) t = sem_ok init S t" for t
    using bk.step_asleep [OF d(1) assms(2)] by (simp add: sem_ok_def sem_queue_ok_def sem_units_def s_granted_def)
  then show ?thesis using d bk.step_inv [OF d(1) assms(2)] bk.step_user [OF d(1) assms(2)] by (simp add: sem_inv_def)
qed

lemma sem_try_inv:
  assumes "sem_inv init S" "runs (s_ker S) c" "user (s_ker S) c" "s_pc S c = Trying s"
  shows "sem_inv init (sem_try s S)"
proof -
  let ?x = "sems S s"
  note d = sem_invD [OF assms(1)]
  have inv: "sched_inv (s_ker S)" by (rule d(1))
  have cur: "current (s_ker S) = Some c" using assms(2) by (simp add: runs_def)
  have c: "c < 16" using bk.cur_bound [OF inv cur] .
  note x = sem_queue_okD [OF d(3) [of s]]
  have nw: "s_pc S c \<noteq> Waiting t" for t using assms(4) by auto
  have cq: "c \<notin> set (s_queue S t)" for t using sem_queue_okD(5) [OF d(3)] nw by blast
  define S' where "S' = sem_try s S"
  consider "0 < sint (s_count ?x)" | "\<not> 0 < sint (s_count ?x)" "s_waiter_count ?x < 16" | "\<not> 0 < sint (s_count ?x)" "\<not> s_waiter_count ?x < 16"
    by blast
  then show ?thesis
  proof cases
    case 1
    have S': "S' = S\<lparr>sems := (sems S)(s := ?x\<lparr>s_count := s_count ?x - 1\<rparr>), s_pc := (s_pc S)(c := Outside),
        s_taken := (s_taken S)(s := s_taken S s + 1)\<rparr>" using 1 cur by (simp add: S'_def sem_try_def Let_def)
    have "s_granted S' s = s_granted S s" using nw by (auto simp: s_granted_def S')
    moreover have "s_count ?x \<noteq> 0" using 1 by auto
    ultimately have "sem_units init S s \<Longrightarrow> sem_units init S' s" using sint_count_dec [OF 1] 1 by (simp add: sem_units_def S')
    moreover have "sem_queue_ok S' s" using d(3) [of s] nw by (auto simp: sem_queue_ok_def S')
    ultimately have "sem_ok init S' s" using d(2) [of s] by (simp add: sem_ok_def) (simp add: S')
    moreover have "sem_ok init S' t" if "t \<noteq> s" for t
      by (rule sem_ok_other [OF d(2)]) (use that sem_queue_okD(4) [OF d(3), of t] nw in \<open>auto simp: S'\<close>)
    ultimately show ?thesis using inv d(4,5) unfolding S'_def [symmetric] by (intro sem_invI [of init S' s]) (auto simp: S')
  next
    case 2
    have S': "S' = S\<lparr>sems := (sems S)(s := sem_waitq_add c ?x), s_ker := scheduler_block_forever (s_ker S),
        s_pc := (s_pc S)(c := Waiting s)\<rparr>" using 2 cur by (simp add: S'_def sem_try_def Let_def)
    have q: "waiting (s_array (sem_waitq_add c ?x)) = s_queue S s @ [c]"
      using smq.add_new [OF x(2) cq] 2 length_waiting [OF x(2)] by simp
    note j = bk.join_queue [OF inv cur assms(2,3) x(4,3)] and as = bk.block_asleep [OF inv cur assms(2,3)]
    have g: "s_granted S' s = s_granted S s" using nw by (auto simp: s_granted_def S' q)
    have f: "s_count (sems S' s) = s_count ?x" "s_signals S' s = s_signals S s" "s_taken S' s = s_taken S s" by (simp_all add: S')
    have "sem_units init S' s" if u: "sem_units init S s"
    proof -
      have "sint (s_count ?x) = 0" using u 2(1) unfolding sem_units_def by linarith
      then have "s_count ?x = 0" by (simp add: signed_eq_0_iff)
      with u show ?thesis unfolding sem_units_def f g by simp
    qed
    moreover have "sem_queue_ok S' s" using d(3) [of s] j q as smq.add_wf [OF x(2), of c] by (auto simp: sem_queue_ok_def S')
    ultimately have "sem_ok init S' s" using d(2) [of s] by (simp add: sem_ok_def) (simp add: S')
    moreover have "sem_ok init S' t" if "t \<noteq> s" for t
      by (rule sem_ok_other [OF d(2)]) (use that sem_queue_okD(4) [OF d(3), of t] nw as in \<open>auto simp: S'\<close>)
    ultimately show ?thesis using j(3) d(4,5) assms(3) bk.block_user [OF inv] unfolding S'_def [symmetric]
      by (intro sem_invI [of init S' s]) (auto simp: S')
  next
    case 3
    have "S' = s_at c (Trying s) S" using 3 cur by (simp add: S'_def sem_try_def Let_def s_at_def)
    then show ?thesis using s_at_inv [OF assms(1) nw] assms(3) by (simp add: S'_def)
  qed
qed

lemma sem_resume_inv:
  assumes "sem_inv init S" "runs (s_ker S) c" "s_pc S c = Waiting s"
  shows "sem_inv init (sem_resume s S)"
proof -
  note d = sem_invD [OF assms(1)]
  have inv: "sched_inv (s_ker S)" by (rule d(1))
  have cur: "current (s_ker S) = Some c" using assms(2) by (simp add: runs_def)
  have c: "c < 16" using bk.cur_bound [OF inv cur] .
  define S' where "S' = sem_resume s S"
  have S': "S' = S\<lparr>s_pc := (s_pc S)(c := Outside), s_taken := (s_taken S)(s := s_taken S s + 1)\<rparr>"
    using cur assms(2) by (simp add: S'_def sem_resume_def runs_def)
  note x = sem_queue_okD [OF d(3) [of s]]
  have cq: "c \<notin> set (s_queue S s)" using bk.runs_awake [OF inv assms(2)] x(4) by blast
  have "s_granted S s = insert c (s_granted S' s)" "c \<notin> s_granted S' s" using c assms(3) cq by (auto simp: s_granted_def S')
  then have "card (s_granted S s) = card (s_granted S' s) + 1" by simp
  then have "sem_units init S s \<Longrightarrow> sem_units init S' s" by (simp add: sem_units_def S')
  moreover have "sem_queue_ok S' s" using d(3) [of s] cq by (auto simp: sem_queue_ok_def S')
  ultimately have "sem_ok init S' s" using d(2) [of s] by (simp add: sem_ok_def) (simp add: S')
  moreover have "sem_ok init S' t" if "t \<noteq> s" for t
    by (rule sem_ok_other [OF d(2)]) (use that sem_queue_okD(4) [OF d(3), of t] assms(3) in \<open>auto simp: S'\<close>)
  ultimately show ?thesis using inv d(4,5) unfolding S'_def [symmetric] by (intro sem_invI [of init S' s]) (auto simp: S')
qed

text \<open>The body of a signal, apart from where its caller stands.\<close>

lemma sem_post_at:
  assumes "current (s_ker S) = Some c"
  shows "sem_post s (s_at c l S) = sem_post s S" "s_at c Outside (sem_post s S) = sem_post s S"
  using assms by (simp_all add: sem_post_def s_at_def Let_def split: prod.splits option.splits)

lemma sem_post_inv:
  assumes "sem_inv init S" "current (s_ker S) = Some c" "s_pc S c = Outside"
  shows "sem_inv init (sem_post s S)"
proof -
  let ?x = "sems S s"
  note d = sem_invD [OF assms(1)]
  have inv: "sched_inv (s_ker S)" by (rule d(1))
  note x = sem_queue_okD [OF d(3) [of s]]
  have out: "s_at c Outside S = S" using assms(3) by (simp add: s_at_def fun_upd_idem)
  define S' where "S' = sem_post s S"
  show ?thesis
  proof (cases "s_queue S s")
    case Nil
    have S': "S' = S\<lparr>s_signals := (s_signals S)(s := s_signals S s + 1), sems := (sems S)(s := ?x\<lparr>s_count := s_count ?x + 1\<rparr>)\<rparr>"
      using smq.pop_empty [OF x(2) Nil] assms(2) by (simp add: S'_def sem_post_def Let_def out)
    have "s_granted S' s = s_granted S s" by (simp add: s_granted_def S')
    then have "sem_units init S s \<Longrightarrow> init s + int (s_signals S' s) < 2 ^ 31 \<Longrightarrow> sem_units init S' s"
      using sint_count_inc [of "s_count ?x"] Nil by (simp add: sem_units_def S')
    moreover have "sem_queue_ok S' s" using d(3) [of s] by (auto simp: sem_queue_ok_def S')
    ultimately have "sem_ok init S' s" using d(2) [of s] by (auto simp: sem_ok_def) (simp add: S')
    moreover have "sem_ok init S' t" if "t \<noteq> s" for t
      by (rule sem_ok_other [OF d(2)]) (use that sem_queue_okD(4) [OF d(3), of t] in \<open>auto simp: S'\<close>)
    ultimately show ?thesis using inv d(4,5) unfolding S'_def [symmetric] by (intro sem_invI [of init S' s]) (auto simp: S')
  next
    case (Cons n q)
    obtain y where pop: "sem_waitq_pop ?x = (y, Some n)" "waiting (s_array y) = q"
      using smq.pop_head [OF x(2) Cons] by (cases "sem_waitq_pop ?x") auto
    have y: "waiters_wf (s_array y)" "s_count y = s_count ?x" "s_initialized y"
      using smq.pop_wf [OF x(2)] sem_queue_fields(3,4) [of ?x] pop x(1) by simp_all
    have S': "S' = S\<lparr>s_signals := (s_signals S)(s := s_signals S s + 1), sems := (sems S)(s := y),
        s_ker := scheduler_wake (Some n) (s_ker S)\<rparr>"
      using pop(1) assms(2) by (simp add: S'_def sem_post_def Let_def out)
    have as: "n \<in> asleep (s_ker S)" "n < 16" using x(4) Cons by (auto simp: asleep_def)
    note w = bk.wake_head [OF inv, of n q]
    have w': "set q \<subseteq> asleep (s_ker S')" "sched_inv (s_ker S')" using w x(3,4) Cons by (auto simp: S')
    have "s_granted S' s = insert n (s_granted S s)" "n \<notin> s_granted S s"
      using Cons x(3) x(5) [of n] as(2) pop(2) by (auto simp: s_granted_def S')
    then have "card (s_granted S' s) = card (s_granted S s) + 1" by simp
    then have "sem_units init S s \<Longrightarrow> sem_units init S' s" using Cons y(2) by (simp add: sem_units_def S')
    moreover have "sem_queue_ok S' s"
      using d(3) [of s] Cons pop(2) w' y bk.wake_asleep [OF inv as(1)] by (auto simp: sem_queue_ok_def S')
    ultimately have "sem_ok init S' s" using d(2) [of s] by (auto simp: sem_ok_def) (simp add: S')
    moreover have "sem_ok init S' t" if "t \<noteq> s" for t
    proof (rule sem_ok_other [OF d(2)])
      have "n \<notin> set (s_queue S t)" using sem_queue_okD(5) [OF d(3) [of t], of n] x(5) [of n] Cons that by auto
      then show "set (s_queue S t) \<subseteq> asleep (s_ker S')"
        using bk.other_queue [OF inv as(1) sem_queue_okD(4) [OF d(3)]] by (simp add: S')
    qed (use that bk.wake_asleep [OF inv as(1)] in \<open>auto simp: S'\<close>)
    ultimately show ?thesis
      using w'(2) d(4,5) bk.wake_user [OF inv as(1)] unfolding S'_def [symmetric] by (intro sem_invI [of init S' s]) (auto simp: S')
  qed
qed

lemma sem_step_inv: "sem_step S S' \<Longrightarrow> sem_inv init S \<Longrightarrow> sem_inv init S'"
proof (induction rule: sem_step.induct)
  case (sem_kernel S k')
  then show ?case by (intro sem_kernel_inv)
next
  case (sem_call S c ptr)
  have "s_initialized (sems S s)" for s using sem_queue_okD(1) [OF sem_invD(3) [OF sem_call(3)]] .
  then show ?case using sem_call s_at_inv [OF sem_call(3), of c]
    by (auto simp: sem_enter_def user_def runs_def split: option.splits)
next
  case (sem_starts S c s)
  then show ?case using sem_invD(5) by blast
next
  case (sem_again S c s)
  have c: "c < 16" using sem_again(1,3) bk.cur_bound [of "s_ker S" c] by (auto simp: runs_def sem_inv_def)
  then have "user (s_ker S) c" using sem_again(2) sem_invD(4) [OF sem_again(3) c] by blast
  then show ?case using sem_again by (intro sem_try_inv) auto
next
  case (sem_back S c s)
  then show ?case by (intro sem_resume_inv)
next
  case (sem_up S c ptr)
  have "s_initialized (sems S s)" for s using sem_queue_okD(1) [OF sem_invD(3) [OF sem_up(3)]] .
  then show ?case using sem_up s_at_inv [OF sem_up(3), of c]
    by (auto simp: sem_up_enter_def runs_def split: option.splits)
next
  case (sem_up_starts S c s)
  then show ?case using sem_invD(5) by blast
next
  case (sem_up_post S c s)
  have cur: "current (s_ker S) = Some c" using sem_up_post(1) by (simp add: runs_def)
  have "sem_inv init (s_at c Outside S)" using s_at_inv [OF sem_up_post(3), of c Outside] sem_up_post(2) by simp
  from sem_post_inv [OF this, of c s] show ?case using sem_post_at(1) [OF cur, of s Outside] cur by (simp add: s_at_def)
qed

text \<open>
  Where a process stands is not read by an attempt, so the steps of a call that nobody interrupts
  add up to \<open>sem_wait\<close> and \<open>sem_signal\<close>.
\<close>

lemma sem_try_at: "current (s_ker S) = Some c \<Longrightarrow> sem_try s (s_at c l S) = sem_try s S"
  by (simp add: sem_try_def s_at_def Let_def)

lemma sem_wait_steps:
  assumes "runs (s_ker S) c" "s_pc S c = Outside"
  shows "sem_step\<^sup>*\<^sup>* S (sem_wait ptr S)"
proof (cases "ptr = None \<or> p_pid (pcbs (s_ker S) ! c) = 0")
  case True
  then show ?thesis using assms(1) by (auto simp: sem_wait_def runs_def split: option.splits)
next
  case False
  then obtain s where s: "ptr = Some s" "p_pid (pcbs (s_ker S) ! c) \<noteq> 0" by auto
  have cur: "current (s_ker S) = Some c" using assms(1) by (simp add: runs_def)
  define S1 where "S1 = (if s_initialized (sems S s) then S else set_sem s (semaphore_init 0 (sems S s)) S)"
  have s1: "s_ker S1 = s_ker S" by (simp add: S1_def set_sem_def)
  let ?T = "s_at c (Trying s) S1"
  have g: "sem_step S (sem_enter ptr S)" by (rule sem_call [OF assms])
  have "sem_step\<^sup>*\<^sup>* S ?T"
  proof (cases "s_initialized (sems S s)")
    case True
    then show ?thesis using g s cur by (simp add: sem_enter_def S1_def)
  next
    case False
    let ?B = "s_at c (Starting s) S"
    have "sem_step S ?B" using g False s cur by (simp add: sem_enter_def)
    moreover have "sem_step ?B (sem_lazy s ?B)" by (rule sem_starts [of _ c]) (use assms(1) in \<open>simp_all add: s_at_def\<close>)
    moreover have "sem_lazy s ?B = ?T" using cur False by (simp add: sem_lazy_def s_at_def set_sem_def S1_def)
    ultimately show ?thesis by (metis converse_rtranclp_into_rtranclp r_into_rtranclp)
  qed
  moreover have "sem_step ?T (sem_try s ?T)" by (rule sem_again [of _ c]) (use assms(1) s1 in \<open>simp_all add: s_at_def\<close>)
  moreover have "sem_try s ?T = sem_try s S1" by (rule sem_try_at) (simp add: s1 cur)
  moreover have "sem_wait ptr S = sem_try s S1" using s cur by (simp add: sem_wait_def S1_def)
  ultimately show ?thesis by (metis rtranclp.rtrancl_into_rtrancl)
qed

lemma sem_signal_steps:
  assumes "runs (s_ker S) c" "s_pc S c = Outside"
  shows "sem_step\<^sup>*\<^sup>* S (sem_signal ptr S)"
proof (cases ptr)
  case (Some s)
  have cur: "current (s_ker S) = Some c" using assms(1) by (simp add: runs_def)
  define S1 where "S1 = (if s_initialized (sems S s) then S else set_sem s (semaphore_init 0 (sems S s)) S)"
  have s1: "s_ker S1 = s_ker S" by (simp add: S1_def set_sem_def)
  let ?T = "s_at c (Posting s) S1"
  have g: "sem_step S (sem_up_enter ptr S)" by (rule sem_up [OF assms])
  have "sem_step\<^sup>*\<^sup>* S ?T"
  proof (cases "s_initialized (sems S s)")
    case True
    then show ?thesis using g Some cur by (simp add: sem_up_enter_def S1_def)
  next
    case False
    let ?B = "s_at c (Posting_start s) S"
    have "sem_step S ?B" using g False Some cur by (simp add: sem_up_enter_def)
    moreover have "sem_step ?B (sem_up_lazy s ?B)" by (rule sem_up_starts [of _ c]) (use assms(1) in \<open>simp_all add: s_at_def\<close>)
    moreover have "sem_up_lazy s ?B = ?T" using cur False by (simp add: sem_up_lazy_def s_at_def set_sem_def S1_def)
    ultimately show ?thesis by (metis converse_rtranclp_into_rtranclp r_into_rtranclp)
  qed
  moreover have "sem_step ?T (sem_post s ?T)" by (rule sem_up_post [of _ c]) (use assms(1) s1 in \<open>simp_all add: s_at_def\<close>)
  moreover have "sem_post s ?T = sem_post s S1" by (rule sem_post_at(1)) (simp add: s1 cur)
  moreover have "sem_signal ptr S = sem_post s S1" using Some by (simp add: sem_signal_def S1_def)
  ultimately show ?thesis by (metis rtranclp.rtrancl_into_rtrancl)
qed (simp add: sem_signal_def)

subsection \<open>Properties\<close>

text \<open>The state before any call: the scheduler in order, every semaphore fresh.\<close>

definition sem_start :: "sched \<Rightarrow> (nat \<Rightarrow> u32) \<Rightarrow> sem_sys" where
  "sem_start k init = \<lparr>s_ker = k,
     sems = (\<lambda>s. sem_init (init s) \<lparr>s_count = 0, s_initialized = False, s_waiters = replicate 16 None, s_waiter_count = 0\<rparr>),
     s_pc = (\<lambda>_. Outside), s_taken = (\<lambda>_. 0), s_signals = (\<lambda>_. 0)\<rparr>"

text \<open>The units a semaphore starts with: a negative initial count counts as 0.\<close>

definition first_units :: "(nat \<Rightarrow> u32) \<Rightarrow> nat \<Rightarrow> int" where
  "first_units init s = max 0 (sint (init s))"

lemma sem_start_inv:
  assumes "sched_inv k"
  shows "sem_inv (first_units init) (sem_start k init)"
proof -
  have "sem_ok (first_units init) (sem_start k init) s" for s
    by (simp add: sem_ok_def sem_queue_ok_def sem_units_def first_units_def sem_start_def sem_init_def semaphore_init_def
        waiters_wf_def waiting_def s_granted_def max_def)
  then show ?thesis using assms(1) by (auto simp: sem_inv_def sem_start_def)
qed

lemma sem_run_inv: "sem_step\<^sup>*\<^sup>* S S' \<Longrightarrow> sem_inv init S \<Longrightarrow> sem_inv init S'"
  by (induction rule: rtranclp_induct) (auto intro: sem_step_inv)

text \<open>
  C15: units are conserved, for semaphores that \<^verbatim>\<open>sem_init\<close> has initialised before the first
  process uses them. In every interleaving of waits and signals with ticks, yields and sleeps,
  preemption inside the calls included, in which no process is killed or exits, and as long as the
  initial units and the signals given so far together stay below 2^31 (the count is an
  \<^verbatim>\<open>int32_t\<close>): the number of waits that returned with a unit, plus those granted one and not yet
  running, plus the count, equals the initial units plus the number of signals; so no more waits
  return than units were given. While a process is in the queue the count is 0, and a process in
  a wait is blocked exactly if it is in the queue. The waits are those of processes other than the
  shell (pid 0), for which \<^verbatim>\<open>sem_wait\<close> returns without a unit; the shell may signal.
\<close>

theorem sem_conservation:
  assumes "sem_step\<^sup>*\<^sup>* (sem_start k init) S" "sched_inv k" "max 0 (sint (init s)) + int (s_signals S s) < 2 ^ 31"
  shows "max 0 (sint (init s)) + int (s_signals S s) = sint (s_count (sems S s)) + int (s_taken S s) + int (card (s_granted S s))
     \<and> 0 \<le> sint (s_count (sems S s)) \<and> int (s_taken S s) \<le> max 0 (sint (init s)) + int (s_signals S s)
     \<and> (s_queue S s \<noteq> [] \<longrightarrow> s_count (sems S s) = 0)
     \<and> (\<forall>i < 16. s_pc S i = Waiting s \<longrightarrow> (i \<in> asleep (s_ker S) \<longleftrightarrow> i \<in> set (s_queue S s)))"
proof -
  have inv: "sem_inv (first_units init) S" using sem_run_inv [OF assms(1)] sem_start_inv [OF assms(2)] by blast
  then have "sem_units (first_units init) S s" using assms(3) by (simp add: sem_inv_def sem_ok_def first_units_def)
  then have u: "0 \<le> sint (s_count (sems S s))" "s_queue S s \<noteq> [] \<longrightarrow> s_count (sems S s) = 0"
    "max 0 (sint (init s)) + int (s_signals S s) = sint (s_count (sems S s)) + int (s_taken S s) + int (card (s_granted S s))"
    by (simp_all add: sem_units_def first_units_def)
  note q = sem_queue_okD [OF sem_invD(3) [OF inv, of s]]
  show ?thesis
  proof (intro conjI allI impI)
    show "int (s_taken S s) \<le> max 0 (sint (init s)) + int (s_signals S s)" using u(1,3) by linarith
    show "i \<in> asleep (s_ker S) \<longleftrightarrow> i \<in> set (s_queue S s)" if "s_pc S i = Waiting s" for i using q(4) q(6) [of i] that by blast
  qed (use u in blast)+
qed

theorem sem_conservation_witness:
  "\<exists>S. sem_step\<^sup>*\<^sup>* (sem_start proc1_running (\<lambda>_. 1)) S \<and> s_taken S 0 = 1 \<and> sint (s_count (sems S 0)) = 0"
proof -
  let ?I = "sem_start proc1_running (\<lambda>_. 1)"
  let ?S = "sem_wait (Some 0) ?I"
  have run: "sem_step\<^sup>*\<^sup>* ?I ?S" by (rule sem_wait_steps [of _ 1]) (use proc1_runs in \<open>simp_all add: sem_start_def\<close>)
  have t: "s_taken ?S 0 = 1" "s_signals ?S 0 = 0" using proc1_runs
    by (simp_all add: sem_wait_def sem_try_def sem_start_def sem_init_def semaphore_init_def runs_def user_def Let_def)
  have "max 0 (sint (1 :: u32)) + int (s_signals ?S 0) < 2 ^ 31" by (simp add: t)
  from sem_conservation [OF run proc1_running_facts(1) this] have "0 = sint (s_count (sems ?S 0)) + int (card (s_granted ?S 0))"
    "0 \<le> sint (s_count (sems ?S 0))" by (simp_all add: t)
  then have "sint (s_count (sems ?S 0)) = 0" by linarith
  with run t show ?thesis by blast
qed

text \<open>
  a signal serves the process that has waited longest. With an empty queue it adds one unit to
  the count; otherwise the count stays and exactly the head of the queue leaves it and becomes
  READY, every other PCB unchanged.
\<close>

theorem sem_signal_correct:
  assumes "sem_inv init S" "current (s_ker S) = Some c" "s_pc S c = Outside"
  shows "(case s_queue S s of
       [] \<Rightarrow> s_count (sems (sem_signal (Some s) S) s) = s_count (sems S s) + 1 \<and> s_queue (sem_signal (Some s) S) s = []
             \<and> s_ker (sem_signal (Some s) S) = s_ker S
     | x # q \<Rightarrow> s_count (sems (sem_signal (Some s) S) s) = s_count (sems S s) \<and> s_queue (sem_signal (Some s) S) s = q
             \<and> p_state (pcbs (s_ker (sem_signal (Some s) S)) ! x) = PROC_READY
             \<and> (\<forall>j. j \<noteq> x \<longrightarrow> pcbs (s_ker (sem_signal (Some s) S)) ! j = pcbs (s_ker S) ! j))
     \<and> sem_inv init (sem_signal (Some s) S)"
proof -
  have inv: "sched_inv (s_ker S)" by (rule sem_invD(1) [OF assms(1)])
  note x = sem_queue_okD [OF sem_invD(3) [OF assms(1), of s]]
  have p: "sem_signal (Some s) S = sem_post s S" using x(1) by (simp add: sem_signal_def)
  note post = sem_post_inv [OF assms, of s]
  show ?thesis
  proof (cases "s_queue S s")
    case Nil
    then show ?thesis unfolding p
      using smq.pop_empty [OF x(2)] assms(2) post by (simp add: sem_post_def Let_def s_at_def)
  next
    case (Cons n q)
    obtain y where pop: "sem_waitq_pop (sems S s) = (y, Some n)" "waiting (s_array y) = q"
      using smq.pop_head [OF x(2) Cons] by (cases "sem_waitq_pop (sems S s)") auto
    have cnt: "s_count y = s_count (sems S s)" using sem_queue_fields(3) [of "sems S s"] pop(1) by simp
    have n: "n \<in> asleep (s_ker S)" using x(4) Cons by auto
    show ?thesis unfolding p
      using Cons pop cnt assms(2) wake_spec(5,6) [OF inv n] post by (simp add: sem_post_def Let_def s_at_def)
  qed
qed

theorem sem_signal_correct_witness:
  "s_count (sems (sem_signal (Some 0) (sem_start proc1_running (\<lambda>_. 2))) 0) = 3"
proof -
  let ?S = "sem_start proc1_running (\<lambda>_. 2)"
  have inv: "sem_inv (first_units (\<lambda>_. 2)) ?S" by (rule sem_start_inv [OF proc1_running_facts(1)])
  have f: "s_queue ?S 0 = []" "s_count (sems ?S 0) = 2" "current (s_ker ?S) = Some 1" "s_pc ?S 1 = Outside"
    using proc1_running_facts(2) by (simp_all add: sem_start_def sem_init_def semaphore_init_def waiting_def)
  show ?thesis using sem_signal_correct [OF inv f(3,4), of 0] f(1,2) by simp
qed

subsection \<open>The window of the lazy initialisation\<close>

text \<open>Every semaphore as a static variable has it before its first use: all zero.\<close>

definition sem_static :: "sched \<Rightarrow> sem_sys" where
  "sem_static k = (sem_start k (\<lambda>_. 0))\<lparr>sems :=
     (\<lambda>_. \<lparr>s_count = 0, s_initialized = False, s_waiters = replicate 16 None, s_waiter_count = 0\<rparr>)\<rparr>"

text \<open>A signaller that has found the semaphore uninitialised leaves it with exactly one unit.\<close>

lemma sem_lazy_posts:
  assumes "runs (s_ker S) c" "s_pc S c = Posting_start s"
  obtains S' where "sem_step\<^sup>*\<^sup>* S S'" "s_ker S' = s_ker S" "s_pc S' = (s_pc S)(c := Outside)"
    "s_signals S' = (s_signals S)(s := s_signals S s + 1)" "s_count (sems S' s) = 1" "s_taken S' = s_taken S"
proof -
  have cur: "current (s_ker S) = Some c" using assms(1) by (simp add: runs_def)
  let ?T = "s_at c (Posting s) (set_sem s (semaphore_init 0 (sems S s)) S)"
  have "sem_step S (sem_up_lazy s S)" by (rule sem_up_starts [OF assms])
  then have s1: "sem_step S ?T" using cur by (simp add: sem_up_lazy_def)
  have s2: "sem_step ?T (sem_post s ?T)" by (rule sem_up_post [of _ c]) (use assms(1) in \<open>simp_all add: s_at_def set_sem_def\<close>)
  have "sem_step\<^sup>*\<^sup>* S (sem_post s ?T)" using s1 s2 by (meson converse_rtranclp_into_rtranclp r_into_rtranclp)
  then show ?thesis using cur
    by (intro that [of "sem_post s ?T"])
      (simp_all add: sem_post_def Let_def s_at_def set_sem_def semaphore_init_def sem_waitq_pop_def pop_waiter_def)
qed

lemma sem_ksteps: "kstep\<^sup>*\<^sup>* k k' \<Longrightarrow> sem_step\<^sup>*\<^sup>* (S\<lparr>s_ker := k\<rparr>) (S\<lparr>s_ker := k'\<rparr>)"
proof (induction rule: rtranclp_induct)
  case (step k' k'')
  have "sem_step (S\<lparr>s_ker := k'\<rparr>) (S\<lparr>s_ker := k'\<rparr>\<lparr>s_ker := k''\<rparr>)" by (rule sem_kernel) (use step(2) in simp)
  then show ?case using step(3) by (simp add: rtranclp.rtrancl_into_rtrancl)
qed simp

text \<open>
  a unit is lost without \<^verbatim>\<open>sem_init\<close>. When a process calls \<^verbatim>\<open>sem_signal\<close> on a semaphore that
  nobody has initialised and the tick that ends its turn falls between the test of the flag and
  the initialisation, the next process's signal is wiped out: two signals leave one unit.
\<close>

theorem sem_lazy_init_race:
  assumes "sched_inv k" "runs k c" "user k c" "sq k = []" "p_priority (pcbs k ! c) = 0" "c < 15"
    "p_ticks_used (pcbs k ! c) + 1 < p_quantum_ticks (pcbs k ! c)" "p_state (pcbs k ! Suc c) = PROC_READY"
    "p_priority (pcbs k ! Suc c) = 0" "user k (Suc c)"
  shows "\<exists>S. sem_step\<^sup>*\<^sup>* (sem_static k) S \<and> s_signals S s = 2 \<and> s_taken S s = 0 \<and> s_count (sems S s) = 1"
proof -
  let ?d = "Suc c"
  let ?A = "sem_static k" and ?B = "s_at c (Posting_start s) (sem_static k)"
  have A: "s_ker ?A = k" "s_pc ?A = (\<lambda>_. Outside)" "\<not> s_initialized (sems ?A s)" "s_signals ?A = (\<lambda>_. 0)" "s_taken ?A = (\<lambda>_. 0)"
    by (simp_all add: sem_static_def sem_start_def)
  have cur: "current k = Some c" using assms(2) by (simp add: runs_def)
  have "sem_step ?A (sem_up_enter (Some s) ?A)" by (rule sem_up [of _ c]) (use A assms(2) in simp_all)
  then have s1: "sem_step ?A ?B" using A cur by (simp add: sem_up_enter_def)
  obtain k1 esp where d: "dispatch 0x9000 True k = (k1, esp)" by fastforce
  note t = tick_to_neighbour [OF assms(1-9) _ d, simplified]
  have k1: "kstep k k1" by (rule kdispatch [OF d])
  have inv1: "sched_inv k1" by (rule kstep_keeps(1) [OF k1 assms(1)])
  let ?C = "?B\<lparr>s_ker := k1\<rparr>" and ?D = "s_at ?d (Posting_start s) (?B\<lparr>s_ker := k1\<rparr>)"
  have s2: "sem_step ?B ?C" by (rule sem_kernel) (use k1 A in \<open>simp add: s_at_def\<close>)
  have C: "s_ker ?C = k1" "s_pc ?C = (\<lambda>_. Outside)(c := Posting_start s)" "\<not> s_initialized (sems ?C s)" using A by (simp_all add: s_at_def)
  have "sem_step ?C (sem_up_enter (Some s) ?C)" by (rule sem_up [of _ ?d]) (use C t(1) in simp_all)
  then have s3: "sem_step ?C ?D" using C t(1) by (simp add: sem_up_enter_def runs_def)
  have D: "runs (s_ker ?D) ?d" "s_pc ?D ?d = Posting_start s" using t(1) by (simp_all add: s_at_def)
  obtain E where E: "sem_step\<^sup>*\<^sup>* ?D E" "s_ker E = k1" "s_pc E = (s_pc ?D)(?d := Outside)" "s_signals E s = 1" "s_taken E s = 0"
    by (rule sem_lazy_posts [OF D]) (use A in \<open>simp_all add: s_at_def\<close>)
  obtain k2 where k2: "kstep\<^sup>*\<^sup>* k1 k2" "runs k2 c"
    by (rule ticks_reach [OF inv1 t(1) [unfolded runs_def, THEN conjunct1] _ _ t(2,3)]) (use assms(6) in simp_all)
  let ?F = "E\<lparr>s_ker := k2\<rparr>"
  have "sem_step\<^sup>*\<^sup>* (E\<lparr>s_ker := k1\<rparr>) ?F" by (rule sem_ksteps [OF k2(1)])
  then have s4: "sem_step\<^sup>*\<^sup>* E ?F" by (simp flip: E(2))
  have F: "runs (s_ker ?F) c" "s_pc ?F c = Posting_start s" using E(3) k2(2) by (simp_all add: s_at_def)
  obtain G where G: "sem_step\<^sup>*\<^sup>* ?F G" "s_signals G s = 2" "s_count (sems G s) = 1" "s_taken G s = 0"
    by (rule sem_lazy_posts [OF F]) (use E(4,5) in simp_all)
  have "sem_step\<^sup>*\<^sup>* ?A G"
    using s1 s2 s3 E(1) s4 G(1) by (meson converse_rtranclp_into_rtranclp rtranclp_trans)
  with G show ?thesis by blast
qed

theorem sem_lazy_init_race_witness:
  "\<exists>S. sem_step\<^sup>*\<^sup>* (sem_static race_ker) S \<and> s_signals S 0 = 2 \<and> s_taken S 0 = 0 \<and> s_count (sems S 0) = 1"
  using sem_lazy_init_race [OF race_ker_facts, of 0] .

subsection \<open>Killed waiters\<close>

text \<open>
  a signal can be lost. \<^verbatim>\<open>kill\<close> does not take its target out of a semaphore's queue; when the
  killed process is at its head, the next signal takes it from there, wakes nobody and adds no
  unit, so the processes behind it stay blocked although a unit was given.
\<close>

theorem sem_signal_lost:
  assumes "sem_inv init S" "s_queue S s = x # q" "process_get pid (s_ker S) = Some x" "pid \<noteq> 0" "current (s_ker S) \<noteq> Some x"
    and "scheduler_kill ctx pid (s_ker S) = (k', esp)" "S' = sem_signal (Some s) (S\<lparr>s_ker := k'\<rparr>)"
  shows "s_ker S' = k' \<and> s_count (sems S' s) = s_count (sems S s) \<and> s_queue S' s = q \<and> (\<forall>i \<in> set q. p_state (pcbs (s_ker S') ! i) = PROC_BLOCKED)"
proof -
  have inv: "sched_inv (s_ker S)" by (rule sem_invD(1) [OF assms(1)])
  note y = sem_queue_okD [OF sem_invD(3) [OF assms(1), of s]]
  have k': "k' = killed ctx x (s_ker S)" using kill_eq [OF assms(3,4), of ctx] assms(5,6) by simp
  have len: "length (pcbs (s_ker S)) = 16" using sched_invD(8) [OF inv] .
  have x16: "x < 16" using process_get_Some [OF assms(3)] by simp
  have dead: "p_state (pcbs k' ! x) = PROC_TERMINATED" using x16 len by (simp add: k' killed_fields(1))
  obtain z where pop: "sem_waitq_pop (sems S s) = (z, Some x)" "waiting (s_array z) = q"
    using smq.pop_head [OF y(2) assms(2)] by (cases "sem_waitq_pop (sems S s)") auto
  have "s_count z = s_count (sems S s)" using sem_queue_fields(3) [of "sems S s"] pop(1) by simp
  moreover have "s_ker S' = k'" "sems S' = (sems S)(s := z)"
    using y(1) pop(1) dead by (simp_all add: assms(7) sem_signal_def sem_post_def s_at_def Let_def wake_other split: option.splits)
  moreover have "p_state (pcbs k' ! i) = PROC_BLOCKED" if "i \<in> set q" for i
  proof -
    have "i \<noteq> x" "i \<in> asleep (s_ker S)" using that y(3,4) assms(2) by auto
    then show ?thesis by (simp add: k' killed_fields(1) asleep_def)
  qed
  ultimately show ?thesis using pop(2) by simp
qed

text \<open>A shell beside a process that has blocked on semaphore 0.\<close>

definition sem_blocked :: sem_sys where
  "sem_blocked = (let S = sem_wait (Some 0) (sem_start proc1_running (\<lambda>_. 0)) in S\<lparr>s_ker := fst (dispatch 0x9000 False (s_ker S))\<rparr>)"

lemma sem_blocked_facts:
  "sem_inv (first_units (\<lambda>_. 0)) sem_blocked" "s_queue sem_blocked 0 = [1]" "process_get 1 (s_ker sem_blocked) = Some 1" "current (s_ker sem_blocked) \<noteq> Some 1"
  "s_count (sems sem_blocked 0) = 0"
proof -
  let ?I = "sem_start proc1_running (\<lambda>_. 0)" and ?S = "sem_wait (Some 0) (sem_start proc1_running (\<lambda>_. 0))"
  have st: "s_ker ?S = scheduler_block_forever proc1_running" "s_queue ?S 0 = [1]" "s_count (sems ?S 0) = 0" using proc1_runs
    by (simp_all add: sem_wait_def sem_try_def sem_start_def sem_init_def semaphore_init_def runs_def user_def Let_def
        sem_waitq_add_def in_waiters_def push_waiter_def waiting_def scan.simps numeral_eq_Suc)
  have "sem_step\<^sup>*\<^sup>* ?I ?S" by (rule sem_wait_steps [of _ 1]) (use proc1_runs in \<open>simp_all add: sem_start_def\<close>)
  then have inv: "sem_inv (first_units (\<lambda>_. 0)) ?S" using sem_run_inv sem_start_inv [OF proc1_running_facts(1)] by blast
  obtain k' e where d: "dispatch 0x9000 False (s_ker ?S) = (k', e)" by fastforce
  have b: "sem_blocked = ?S\<lparr>s_ker := k'\<rparr>" by (simp add: sem_blocked_def d)
  show bi: "sem_inv (first_units (\<lambda>_. 0)) sem_blocked" unfolding b by (rule sem_kernel_inv [OF inv]) (rule kdispatch [OF d])
  show q: "s_queue sem_blocked 0 = [1]" and "s_count (sems sem_blocked 0) = 0" using st(2,3) by (simp_all add: b)
  from sem_queue_okD(4) [OF sem_invD(3) [OF bi, of 0]] q have as: "1 \<in> asleep k'" by (simp add: b)
  have sk: "sched_inv (s_ker ?S)" "sched_inv k'" using inv bi by (simp_all add: sem_inv_def b)
  have "p_state (pcbs k' ! 1) = PROC_BLOCKED" using as by (simp add: asleep_def)
  moreover obtain n where "runs k' n" using dispatch_runs [OF sk(1) d] by blast
  ultimately show "current (s_ker sem_blocked) \<noteq> Some 1" by (auto simp: b runs_def)
  have "p_pid (pcbs (s_ker ?S) ! 1) = 1"
    using block_forever_spec(3) [OF proc1_running_facts(1) proc1_runs] proc1_running_facts(3) sched_invD(8) [OF proc1_running_facts(1)]
    by (simp add: st)
  then have "p_pid (pcbs k' ! 1) = 1" using dispatch_asleep(3) [OF sk(1) d, of 1] by (simp add: lock_view_def)
  then show "process_get 1 (s_ker sem_blocked) = Some 1"
    using sched_invD(3) [OF sk(2)] \<open>p_state (pcbs k' ! 1) = PROC_BLOCKED\<close> by (auto simp: process_get_def scan_Some_iff b)
qed

theorem sem_signal_lost_witness:
  "\<exists>k' esp. scheduler_kill 0x9000 1 (s_ker sem_blocked) = (k', esp)
     \<and> s_count (sems (sem_signal (Some 0) (sem_blocked\<lparr>s_ker := k'\<rparr>)) 0) = 0
     \<and> s_queue (sem_signal (Some 0) (sem_blocked\<lparr>s_ker := k'\<rparr>)) 0 = []"
proof -
  obtain k' esp where d: "scheduler_kill 0x9000 1 (s_ker sem_blocked) = (k', esp)" by fastforce
  have "s_count (sems sem_blocked 0) = 0" by (rule sem_blocked_facts(5))
  with d sem_signal_lost [OF sem_blocked_facts(1,2,3) _ sem_blocked_facts(4) d refl] show ?thesis by auto
qed

end
