(* ===== verification/Rwlock.thy ===== *)
theory Rwlock
  imports Blocking
begin

text \<open>
  The reader-writer lock of \<^verbatim>\<open>kernel/rwlock.c\<close>. The bodies between \<^verbatim>\<open>irq_save\<close> and
  \<^verbatim>\<open>irq_restore\<close> are atomic; the two lock operations are cut into the guards with the test of the
  initialised flag (\<open>rw_guard\<close>), the lazy initialisation (\<open>rw_lazy\<close>), the attempt and what follows
  their \<^verbatim>\<open>thread_yield\<close>. The tests in front of the unlock operations stay with what follows them:
  they read what only the caller changes. Locks are named by numbers, a null pointer is \<open>None\<close>.
  In the interleavings a process is in at most one lock at a time.
\<close>

record rwlock =
  rw_readers :: nat
  rw_writer :: "nat option"
  rw_reader_waiters :: waiters
  rw_writer_waiters :: waiters
  rw_initialized :: bool

definition rw_add :: "nat \<Rightarrow> waiters \<Rightarrow> waiters" where
  "rw_add p w = (if 16 \<le> snd w then w else if in_waiters p w then w else push_waiter p w)"

definition rw_pop :: "waiters \<Rightarrow> waiters \<times> nat option" where
  "rw_pop w = pop_waiter w"

definition rwlock_init :: "rwlock \<Rightarrow> rwlock" where
  "rwlock_init rw = rw\<lparr>rw_readers := 0, rw_writer := None, rw_reader_waiters := (replicate 16 None, 0),
     rw_writer_waiters := (replicate 16 None, 0), rw_initialized := True\<rparr>"

text \<open>
  Where a process is: outside every lock, reading, writing, or inside one of the two lock
  operations, about to initialise the lock, at the head of its loop or behind its yield.
\<close>

datatype rw_pc = Out | R_start nat | W_start nat | R_try nat | R_wait nat | R_in nat | W_try nat | W_wait nat | W_in nat

record rw_sys =
  r_ker :: sched
  rws :: "nat \<Rightarrow> rwlock"
  r_pc :: "nat \<Rightarrow> rw_pc"

definition set_rw :: "nat \<Rightarrow> rwlock \<Rightarrow> rw_sys \<Rightarrow> rw_sys" where
  "set_rw s x S = S\<lparr>rws := (rws S)(s := x)\<rparr>"

definition set_pc :: "nat \<Rightarrow> rw_pc \<Rightarrow> rw_sys \<Rightarrow> rw_sys" where
  "set_pc c l S = S\<lparr>r_pc := (r_pc S)(c := l)\<rparr>"

definition read_locks_plus :: "nat \<Rightarrow> sched \<Rightarrow> sched" where
  "read_locks_plus c k = upd_pcb c (\<lambda>p. p\<lparr>p_rw_read_locks := p_rw_read_locks p + 1\<rparr>) k"

definition rw_read_try :: "nat \<Rightarrow> rw_sys \<Rightarrow> rw_sys" where
  "rw_read_try s S =
     (case current (r_ker S) of
        None \<Rightarrow> S
      | Some cur \<Rightarrow>
          let x = rws S s in
          if rw_writer x = None \<and> snd (rw_writer_waiters x) = 0 then
            set_pc cur (R_in s) (set_rw s (x\<lparr>rw_readers := rw_readers x + 1\<rparr>) (S\<lparr>r_ker := read_locks_plus cur (r_ker S)\<rparr>))
          else
            set_pc cur (R_wait s) (set_rw s (x\<lparr>rw_reader_waiters := rw_add cur (rw_reader_waiters x)\<rparr>)
              (S\<lparr>r_ker := scheduler_block_forever (r_ker S)\<rparr>)))"

definition rw_write_try :: "nat \<Rightarrow> rw_sys \<Rightarrow> rw_sys" where
  "rw_write_try s S =
     (case current (r_ker S) of
        None \<Rightarrow> S
      | Some cur \<Rightarrow>
          let x = rws S s in
          if rw_writer x = None \<and> rw_readers x = 0 then set_pc cur (W_in s) (set_rw s (x\<lparr>rw_writer := Some cur\<rparr>) S)
          else
            set_pc cur (W_wait s) (set_rw s (x\<lparr>rw_writer_waiters := rw_add cur (rw_writer_waiters x)\<rparr>)
              (S\<lparr>r_ker := scheduler_block_forever (r_ker S)\<rparr>)))"

text \<open>A lock operation up to its first attempt, when nobody else runs in between.\<close>

definition rw_enter :: "(nat \<Rightarrow> rw_sys \<Rightarrow> rw_sys) \<Rightarrow> nat option \<Rightarrow> rw_sys \<Rightarrow> rw_sys" where
  "rw_enter try ptr S =
     (case ptr of
        None \<Rightarrow> S
      | Some s \<Rightarrow>
          (case current (r_ker S) of
             None \<Rightarrow> S
           | Some cur \<Rightarrow>
               if p_pid (pcbs (r_ker S) ! cur) = 0 then S
               else try s (if rw_initialized (rws S s) then S else set_rw s (rwlock_init (rws S s)) S)))"

definition rwlock_read_lock :: "nat option \<Rightarrow> rw_sys \<Rightarrow> rw_sys" where
  "rwlock_read_lock ptr S = rw_enter rw_read_try ptr S"


text \<open>
  The same lines one by one, with interrupts on: the guards and the test of the flag; and the
  initialisation, by a process that has found the flag clear (it may be set by now).
\<close>

definition rw_guard :: "(nat \<Rightarrow> rw_pc) \<Rightarrow> (nat \<Rightarrow> rw_pc) \<Rightarrow> nat option \<Rightarrow> rw_sys \<Rightarrow> rw_sys" where
  "rw_guard try start ptr S =
     (case ptr of
        None \<Rightarrow> S
      | Some s \<Rightarrow>
          (case current (r_ker S) of
             None \<Rightarrow> S
           | Some cur \<Rightarrow>
               if p_pid (pcbs (r_ker S) ! cur) = 0 then S
               else set_pc cur (if rw_initialized (rws S s) then try s else start s) S))"

definition rw_lazy :: "nat \<Rightarrow> rw_pc \<Rightarrow> rw_sys \<Rightarrow> rw_sys" where
  "rw_lazy s l S =
     (case current (r_ker S) of None \<Rightarrow> S | Some cur \<Rightarrow> set_pc cur l (set_rw s (rwlock_init (rws S s)) S))"

definition rw_read_resume :: "nat \<Rightarrow> rw_sys \<Rightarrow> rw_sys" where
  "rw_read_resume s S =
     (case current (r_ker S) of
        None \<Rightarrow> S
      | Some cur \<Rightarrow> set_pc cur (if p_state (pcbs (r_ker S) ! cur) \<noteq> PROC_BLOCKED then R_in s else R_try s) S)"

definition rw_write_resume :: "nat \<Rightarrow> rw_sys \<Rightarrow> rw_sys" where
  "rw_write_resume s S =
     (case current (r_ker S) of
        None \<Rightarrow> S
      | Some cur \<Rightarrow> set_pc cur (if rw_writer (rws S s) = Some cur then W_in s else W_try s) S)"

definition rwlock_read_unlock :: "nat option \<Rightarrow> rw_sys \<Rightarrow> rw_sys" where
  "rwlock_read_unlock ptr S =
     (case ptr of
        None \<Rightarrow> S
      | Some s \<Rightarrow>
          (case current (r_ker S) of
             None \<Rightarrow> S
           | Some cur \<Rightarrow>
               if p_rw_read_locks (pcbs (r_ker S) ! cur) = 0 then S
               else
                 let k1 = upd_pcb cur (\<lambda>p. p\<lparr>p_rw_read_locks := p_rw_read_locks p - 1\<rparr>) (r_ker S);
                     x = rws S s;
                     x1 = (if rw_readers x \<noteq> 0 then x\<lparr>rw_readers := rw_readers x - 1\<rparr> else x);
                     S1 = set_pc cur Out (S\<lparr>r_ker := k1\<rparr>)
                 in if rw_readers x1 = 0 \<and> rw_writer x1 = None then
                      (case rw_pop (rw_writer_waiters x1) of
                         (w, next) \<Rightarrow> set_rw s (x1\<lparr>rw_writer_waiters := w\<rparr>) (S1\<lparr>r_ker := scheduler_wake next k1\<rparr>))
                    else set_rw s x1 S1))"

lemma pop_waiter_less: "pop_waiter w = (w', Some r) \<Longrightarrow> snd w' < snd w"
  by (auto simp: pop_waiter_def split: if_splits)

text \<open>All waiting readers enter as one group.\<close>

function rw_release :: "waiters \<Rightarrow> nat \<Rightarrow> sched \<Rightarrow> waiters \<times> nat \<times> sched" where
  "rw_release w n k =
     (case rw_pop w of
        (w', None) \<Rightarrow> (w', n, k)
      | (w', Some r) \<Rightarrow> rw_release w' (n + 1) (scheduler_wake (Some r) (read_locks_plus r k)))"
  by pat_completeness auto
termination
  by (relation "measure (\<lambda>(w, n, k). snd w)") (auto simp: rw_pop_def dest: sym [THEN pop_waiter_less])

declare rw_release.simps [simp del]

definition rwlock_write_unlock :: "nat option \<Rightarrow> rw_sys \<Rightarrow> rw_sys" where
  "rwlock_write_unlock ptr S =
     (case ptr of
        None \<Rightarrow> S
      | Some s \<Rightarrow>
          let x = rws S s in
          if rw_writer x \<noteq> current (r_ker S) then S
          else
            let S1 = (case current (r_ker S) of None \<Rightarrow> S | Some cur \<Rightarrow> set_pc cur Out S)
            in case rw_pop (rw_writer_waiters x) of
                 (w, Some next) \<Rightarrow>
                   set_rw s (x\<lparr>rw_writer := Some next, rw_writer_waiters := w\<rparr>) (S1\<lparr>r_ker := scheduler_wake (Some next) (r_ker S)\<rparr>)
               | (w, None) \<Rightarrow>
                   (case rw_release (rw_reader_waiters x) (rw_readers x) (r_ker S) of
                      (rq, n, k) \<Rightarrow>
                        set_rw s (x\<lparr>rw_writer := None, rw_writer_waiters := w, rw_reader_waiters := rq, rw_readers := n\<rparr>) (S1\<lparr>r_ker := k\<rparr>)))"

subsection \<open>The wait queues\<close>

interpretation rwq: wait_queue waiters_wf waiting rw_add rw_pop
proof (unfold_locales, goal_cases)
  case (1 q)
  then show ?case by (simp add: waiters_wf_def waiting_def)
next
  case (2 q p)
  then show ?case using push_waiter_spec(1) [of q p] by (auto simp: rw_add_def)
next
  case (3 q p)
  then show ?case using push_waiter_spec(2) [of q p] in_waiters_iff [of q p] by (auto simp: rw_add_def)
next
  case (4 q p)
  then show ?case using in_waiters_iff [of q p] by (simp add: rw_add_def)
next
  case (5 q)
  then show ?case by (simp add: rw_pop_def pop_waiter_spec(1))
next
  case (6 q)
  then show ?case by (simp add: rw_pop_def pop_waiter_spec(2))
next
  case (7 q x xs)
  then show ?case by (simp add: rw_pop_def pop_waiter_spec(3))
qed

lemma read_locks_plus_keeps:
  assumes "sched_inv k" "i < 16"
  shows "sched_inv (read_locks_plus i k)" "asleep (read_locks_plus i k) = asleep k" "runs (read_locks_plus i k) = runs k"
    "user (read_locks_plus i k) j = user k j" "current (read_locks_plus i k) = current k"
    "p_rw_read_locks (pcbs (read_locks_plus i k) ! j) = p_rw_read_locks (pcbs k ! j) + of_bool (i = j)"
proof -
  let ?f = "\<lambda>p. p\<lparr>p_rw_read_locks := p_rw_read_locks p + 1\<rparr>"
  have n: "sched_inv (upd_pcb i ?f k)" "asleep (upd_pcb i ?f k) = asleep k" "runs (upd_pcb i ?f k) = runs k" "user (upd_pcb i ?f k) j = user k j"
    by (rule upd_neutral(1) [OF assms], simp_all) (rule upd_neutral(2) [OF assms], simp_all, rule upd_neutral(3) [OF assms], simp_all,
        rule upd_neutral(4) [OF assms], simp_all)
  show "sched_inv (read_locks_plus i k)" "asleep (read_locks_plus i k) = asleep k" "runs (read_locks_plus i k) = runs k"
    "user (read_locks_plus i k) j = user k j" unfolding read_locks_plus_def by (rule n)+
  show "current (read_locks_plus i k) = current k" by (simp add: read_locks_plus_def)
  show "p_rw_read_locks (pcbs (read_locks_plus i k) ! j) = p_rw_read_locks (pcbs k ! j) + of_bool (i = j)"
    using assms(2) sched_invD(8) [OF assms(1)] by (simp add: read_locks_plus_def pcbs_upd_pcb)
qed

lemma wake_read_locks: "sched_inv k \<Longrightarrow> i \<in> asleep k \<Longrightarrow>
    p_rw_read_locks (pcbs (scheduler_wake (Some i) k) ! j) = p_rw_read_locks (pcbs k ! j)"
  using wake_spec(7) [of k i j] by (simp add: lock_view_def)

lemma rw_release_spec:
  "waiters_wf w \<Longrightarrow> distinct (waiting w) \<Longrightarrow> sched_inv k \<Longrightarrow> set (waiting w) \<subseteq> asleep k \<Longrightarrow>
   \<exists>w' k'. rw_release w n k = (w', n + length (waiting w), k') \<and> waiters_wf w' \<and> waiting w' = [] \<and> sched_inv k'
     \<and> asleep k' = asleep k - set (waiting w) \<and> (\<forall>j < 16. user k' j = user k j)
     \<and> (\<forall>j. p_rw_read_locks (pcbs k' ! j) = p_rw_read_locks (pcbs k ! j) + of_bool (j \<in> set (waiting w)))"
proof (induction w n k rule: rw_release.induct)
  case (1 w n k)
  show ?case
  proof (cases "waiting w")
    case Nil
    then have "rw_release w n k = (w, n, k)" using rwq.pop_empty [OF "1.prems"(1)] by (subst rw_release.simps) simp
    then show ?thesis using "1.prems" Nil by simp
  next
    case (Cons r q)
    obtain w1 where pop: "rw_pop w = (w1, Some r)" "waiting w1 = q" "waiters_wf w1"
      using rwq.pop_head [OF "1.prems"(1) Cons] rwq.pop_wf [OF "1.prems"(1)] by (cases "rw_pop w") auto
    define k1 where "k1 = scheduler_wake (Some r) (read_locks_plus r k)"
    have r: "r < 16" "r \<in> asleep k" using "1.prems"(4) Cons by (auto simp: asleep_def)
    note p = read_locks_plus_keeps [OF "1.prems"(3) r(1)]
    have r1: "r \<in> asleep (read_locks_plus r k)" using p(2) r(2) by simp
    have k1: "sched_inv k1" "asleep k1 = asleep k - {r}" unfolding k1_def using wake_spec(1,2) [OF p(1) r1] p(2) by simp_all
    have rl: "p_rw_read_locks (pcbs k1 ! j) = p_rw_read_locks (pcbs k ! j) + of_bool (r = j)" for j
      unfolding k1_def using wake_read_locks [OF p(1) r1] p(6) by simp
    have us: "j < 16 \<Longrightarrow> user k1 j = user k j" for j unfolding k1_def using bk.wake_user [OF p(1) r1] p(4) by simp
    have "distinct q" "set q \<subseteq> asleep k1" "r \<notin> set q" using "1.prems"(2,4) Cons k1(2) by auto
    with "1.IH" [OF pop(1) [symmetric] refl, folded k1_def] pop(2,3) k1(1)
    obtain w' k' where IH: "rw_release w1 (n + 1) k1 = (w', n + 1 + length q, k')" "waiters_wf w'" "waiting w' = []" "sched_inv k'"
      "asleep k' = asleep k1 - set q" "\<forall>j < 16. user k' j = user k1 j"
      "\<And>j. p_rw_read_locks (pcbs k' ! j) = p_rw_read_locks (pcbs k1 ! j) + of_bool (j \<in> set q)" by auto
    have "rw_release w n k = rw_release w1 (n + 1) k1" by (subst rw_release.simps) (simp add: pop k1_def)
    then show ?thesis using IH us rl k1(2) Cons \<open>r \<notin> set q\<close> by (auto simp: of_bool_def)
  qed
qed

subsection \<open>All interleavings\<close>

inductive rw_step :: "rw_sys \<Rightarrow> rw_sys \<Rightarrow> bool" where
  rw_kernel: "kstep (r_ker S) k' \<Longrightarrow> rw_step S (S\<lparr>r_ker := k'\<rparr>)"
| rw_read: "runs (r_ker S) c \<Longrightarrow> r_pc S c = Out \<Longrightarrow> rw_step S (rw_guard R_try R_start ptr S)"
| rw_write: "runs (r_ker S) c \<Longrightarrow> r_pc S c = Out \<Longrightarrow> rw_step S (rw_guard W_try W_start ptr S)"
| rw_read_starts: "runs (r_ker S) c \<Longrightarrow> r_pc S c = R_start s \<Longrightarrow> rw_step S (rw_lazy s (R_try s) S)"
| rw_write_starts: "runs (r_ker S) c \<Longrightarrow> r_pc S c = W_start s \<Longrightarrow> rw_step S (rw_lazy s (W_try s) S)"
| rw_read_again: "runs (r_ker S) c \<Longrightarrow> r_pc S c = R_try s \<Longrightarrow> rw_step S (rw_read_try s S)"
| rw_write_again: "runs (r_ker S) c \<Longrightarrow> r_pc S c = W_try s \<Longrightarrow> rw_step S (rw_write_try s S)"
| rw_read_back: "runs (r_ker S) c \<Longrightarrow> r_pc S c = R_wait s \<Longrightarrow> rw_step S (rw_read_resume s S)"
| rw_write_back: "runs (r_ker S) c \<Longrightarrow> r_pc S c = W_wait s \<Longrightarrow> rw_step S (rw_write_resume s S)"
| rw_read_done: "runs (r_ker S) c \<Longrightarrow> r_pc S c = R_in s \<Longrightarrow> rw_step S (rwlock_read_unlock (Some s) S)"
| rw_write_done: "runs (r_ker S) c \<Longrightarrow> r_pc S c = W_in s \<Longrightarrow> rw_step S (rwlock_write_unlock (Some s) S)"

abbreviation rq :: "rw_sys \<Rightarrow> nat \<Rightarrow> nat list" where "rq S s \<equiv> waiting (rw_reader_waiters (rws S s))"
abbreviation wq :: "rw_sys \<Rightarrow> nat \<Rightarrow> nat list" where "wq S s \<equiv> waiting (rw_writer_waiters (rws S s))"

text \<open>
  The processes that count as readers (reading, or let in and not yet run), and the writers in
  front of an attempt: new ones, and ones that have been woken and will try again.
\<close>

definition r_inside :: "rw_sys \<Rightarrow> nat \<Rightarrow> nat set" where
  "r_inside S s = {i. i < 16 \<and> (r_pc S i = R_in s \<or> r_pc S i = R_wait s \<and> i \<notin> set (rq S s))}"

definition w_pending :: "rw_sys \<Rightarrow> nat \<Rightarrow> nat set" where
  "w_pending S s = {i. i < 16 \<and> (r_pc S i = W_try s \<or> r_pc S i = W_wait s \<and> i \<notin> set (wq S s))}"

definition rw_queues :: "rw_sys \<Rightarrow> nat \<Rightarrow> bool" where
  "rw_queues S s \<longleftrightarrow> rw_initialized (rws S s)
     \<and> waiters_wf (rw_reader_waiters (rws S s)) \<and> waiters_wf (rw_writer_waiters (rws S s)) \<and> distinct (rq S s) \<and> distinct (wq S s)
     \<and> set (rq S s) \<subseteq> asleep (r_ker S) \<and> set (wq S s) \<subseteq> asleep (r_ker S)
     \<and> (\<forall>i \<in> set (rq S s). r_pc S i = R_wait s) \<and> (\<forall>i \<in> set (wq S s). r_pc S i = W_wait s)
     \<and> (\<forall>i \<in> asleep (r_ker S). (r_pc S i = R_wait s \<longrightarrow> i \<in> set (rq S s)) \<and> (r_pc S i = W_wait s \<longrightarrow> i \<in> set (wq S s)))
     \<and> (\<forall>i \<in> asleep (r_ker S). r_pc S i \<noteq> W_try s)"

definition rw_counts :: "rw_sys \<Rightarrow> nat \<Rightarrow> bool" where
  "rw_counts S s \<longleftrightarrow> rw_readers (rws S s) = card (r_inside S s)
     \<and> (\<forall>i < 16. r_pc S i = W_in s \<longrightarrow> rw_writer (rws S s) = Some i)
     \<and> (\<forall>i. rw_writer (rws S s) = Some i \<longrightarrow> i < 16 \<and> (r_pc S i = W_in s \<or> r_pc S i = W_wait s \<and> i \<notin> set (wq S s)))
     \<and> (rw_writer (rws S s) \<noteq> None \<longrightarrow> rw_readers (rws S s) = 0)"

definition rw_live :: "rw_sys \<Rightarrow> nat \<Rightarrow> bool" where
  "rw_live S s \<longleftrightarrow> (rq S s \<noteq> [] \<longrightarrow> rw_writer (rws S s) \<noteq> None \<or> wq S s \<noteq> [] \<or> w_pending S s \<noteq> {})
     \<and> (wq S s \<noteq> [] \<longrightarrow> rw_writer (rws S s) \<noteq> None \<or> 0 < rw_readers (rws S s) \<or> w_pending S s \<noteq> {})"

definition rw_ok :: "rw_sys \<Rightarrow> nat \<Rightarrow> bool" where
  "rw_ok S s \<longleftrightarrow> rw_queues S s \<and> rw_counts S s \<and> rw_live S s"

definition rw_inv :: "rw_sys \<Rightarrow> bool" where
  "rw_inv S \<longleftrightarrow> sched_inv (r_ker S) \<and> (\<forall>s. rw_ok S s)
     \<and> (\<forall>i < 16. p_rw_read_locks (pcbs (r_ker S) ! i) = of_bool (\<exists>s. i \<in> r_inside S s))
     \<and> (\<forall>i < 16. \<not> user (r_ker S) i \<longrightarrow> r_pc S i = Out) \<and> (\<forall>i s. r_pc S i \<noteq> R_start s \<and> r_pc S i \<noteq> W_start s)"

fun lock_of :: "rw_pc \<Rightarrow> nat option" where
  "lock_of Out = None"
| "lock_of (R_start s) = Some s"
| "lock_of (W_start s) = Some s"
| "lock_of (R_try s) = Some s"
| "lock_of (R_wait s) = Some s"
| "lock_of (R_in s) = Some s"
| "lock_of (W_try s) = Some s"
| "lock_of (W_wait s) = Some s"
| "lock_of (W_in s) = Some s"

lemma rw_queuesD:
  assumes "rw_queues S s"
  shows "rw_initialized (rws S s)" "waiters_wf (rw_reader_waiters (rws S s))" "waiters_wf (rw_writer_waiters (rws S s))"
    "distinct (rq S s)" "distinct (wq S s)" "set (rq S s) \<subseteq> asleep (r_ker S)" "set (wq S s) \<subseteq> asleep (r_ker S)"
    "i \<in> set (rq S s) \<Longrightarrow> r_pc S i = R_wait s" "i \<in> set (wq S s) \<Longrightarrow> r_pc S i = W_wait s"
    "i \<in> asleep (r_ker S) \<Longrightarrow> r_pc S i = R_wait s \<Longrightarrow> i \<in> set (rq S s)"
    "i \<in> asleep (r_ker S) \<Longrightarrow> r_pc S i = W_wait s \<Longrightarrow> i \<in> set (wq S s)"
    "i \<in> asleep (r_ker S) \<Longrightarrow> r_pc S i \<noteq> W_try s"
  using assms unfolding rw_queues_def by blast+

lemma rw_queuesI:
  assumes "rw_initialized (rws S s)" "waiters_wf (rw_reader_waiters (rws S s))" "waiters_wf (rw_writer_waiters (rws S s))"
    "distinct (rq S s)" "distinct (wq S s)" "set (rq S s) \<subseteq> asleep (r_ker S)" "set (wq S s) \<subseteq> asleep (r_ker S)"
    "\<And>i. i \<in> set (rq S s) \<Longrightarrow> r_pc S i = R_wait s" "\<And>i. i \<in> set (wq S s) \<Longrightarrow> r_pc S i = W_wait s"
    "\<And>i. i \<in> asleep (r_ker S) \<Longrightarrow> r_pc S i = R_wait s \<Longrightarrow> i \<in> set (rq S s)"
    "\<And>i. i \<in> asleep (r_ker S) \<Longrightarrow> r_pc S i = W_wait s \<Longrightarrow> i \<in> set (wq S s)"
    "\<And>i. i \<in> asleep (r_ker S) \<Longrightarrow> r_pc S i \<noteq> W_try s"
  shows "rw_queues S s"
  unfolding rw_queues_def
  by (intro conjI ballI impI; (rule assms(1-7) | erule assms(8,9) | erule (1) assms(10,11) | erule assms(12)))

lemma rw_countsD:
  assumes "rw_counts S s"
  shows "rw_readers (rws S s) = card (r_inside S s)" "i < 16 \<Longrightarrow> r_pc S i = W_in s \<Longrightarrow> rw_writer (rws S s) = Some i"
    "rw_writer (rws S s) = Some i \<Longrightarrow> i < 16 \<and> (r_pc S i = W_in s \<or> r_pc S i = W_wait s \<and> i \<notin> set (wq S s))"
    "rw_writer (rws S s) = Some i \<Longrightarrow> rw_readers (rws S s) = 0"
  using assms unfolding rw_counts_def by blast+

lemma rw_countsI:
  assumes "rw_readers (rws S s) = card (r_inside S s)" "\<And>i. i < 16 \<Longrightarrow> r_pc S i = W_in s \<Longrightarrow> rw_writer (rws S s) = Some i"
    "\<And>i. rw_writer (rws S s) = Some i \<Longrightarrow> i < 16 \<and> (r_pc S i = W_in s \<or> r_pc S i = W_wait s \<and> i \<notin> set (wq S s))"
    "rw_writer (rws S s) \<noteq> None \<Longrightarrow> rw_readers (rws S s) = 0"
  shows "rw_counts S s"
  using assms unfolding rw_counts_def by blast

text \<open>What happens at one lock leaves the others correct.\<close>

lemma rw_other:
  assumes "rws S' t = rws S t" "\<And>i. r_pc S' i = r_pc S i \<or> lock_of (r_pc S i) \<noteq> Some t \<and> lock_of (r_pc S' i) \<noteq> Some t"
    "\<And>i. lock_of (r_pc S i) = Some t \<Longrightarrow> i \<in> asleep (r_ker S') \<longleftrightarrow> i \<in> asleep (r_ker S)"
  shows "r_inside S' t = r_inside S t" "rw_ok S t \<Longrightarrow> rw_ok S' t"
proof -
  have pc: "r_pc S' i = l \<longleftrightarrow> r_pc S i = l" if "lock_of l = Some t" for i l using assms(2) [of i] that by auto
  show ins: "r_inside S' t = r_inside S t" using assms(1) by (simp add: r_inside_def pc)
  have pen: "w_pending S' t = w_pending S t" using assms(1) by (simp add: w_pending_def pc)
  assume ok: "rw_ok S t"
  then have "rw_queues S t" by (simp add: rw_ok_def)
  note q = rw_queuesD [OF this]
  have rqs: "rq S' t = rq S t" "wq S' t = wq S t" using assms(1) by simp_all
  have "rw_queues S' t"
  proof (rule rw_queuesI, unfold rqs)
    show "set (rq S t) \<subseteq> asleep (r_ker S')"
    proof
      fix i assume "i \<in> set (rq S t)"
      then show "i \<in> asleep (r_ker S')" using q(6) q(8) [of i] assms(3) [of i] by auto
    qed
    show "set (wq S t) \<subseteq> asleep (r_ker S')"
    proof
      fix i assume "i \<in> set (wq S t)"
      then show "i \<in> asleep (r_ker S')" using q(7) q(9) [of i] assms(3) [of i] by auto
    qed
    show "r_pc S' i = R_wait t" if "i \<in> set (rq S t)" for i using q(8) [OF that] pc [of "R_wait t"] by simp
    show "r_pc S' i = W_wait t" if "i \<in> set (wq S t)" for i using q(9) [OF that] pc [of "W_wait t"] by simp
    show "i \<in> set (rq S t)" if "i \<in> asleep (r_ker S')" "r_pc S' i = R_wait t" for i
      using q(10) [of i] that pc [of "R_wait t"] assms(3) [of i] by simp
    show "i \<in> set (wq S t)" if "i \<in> asleep (r_ker S')" "r_pc S' i = W_wait t" for i
      using q(11) [of i] that pc [of "W_wait t"] assms(3) [of i] by simp
    show "r_pc S' i \<noteq> W_try t" if "i \<in> asleep (r_ker S')" for i
      using q(12) [of i] that pc [of "W_try t"] assms(3) [of i] by auto
  qed (use q(1-5) assms(1) in simp_all)
  moreover have "rw_counts S' t = rw_counts S t" unfolding rw_counts_def by (simp add: pc ins assms(1))
  moreover have "rw_live S' t = rw_live S t" unfolding rw_live_def by (simp add: pen assms(1))
  ultimately show "rw_ok S' t" using ok by (simp add: rw_ok_def)
qed

lemma rw_other_pc:
  assumes "rws S' t = rws S t" "\<And>i. r_pc S' i = (if i = c then l else r_pc S i)" "lock_of (r_pc S c) \<noteq> Some t" "lock_of l \<noteq> Some t"
    "\<And>i. i \<noteq> c \<Longrightarrow> lock_of (r_pc S i) = Some t \<Longrightarrow> i \<in> asleep (r_ker S') \<longleftrightarrow> i \<in> asleep (r_ker S)" "rw_ok S t"
  shows "rw_ok S' t" "r_inside S' t = r_inside S t"
proof -
  have pc: "r_pc S' i = r_pc S i \<or> lock_of (r_pc S i) \<noteq> Some t \<and> lock_of (r_pc S' i) \<noteq> Some t" for i
    using assms(2-4) by simp
  have as: "i \<in> asleep (r_ker S') \<longleftrightarrow> i \<in> asleep (r_ker S)" if "lock_of (r_pc S i) = Some t" for i
    using assms(3) assms(5) [of i] that by (cases "i = c") simp_all
  show "rw_ok S' t" "r_inside S' t = r_inside S t" using rw_other [OF assms(1) pc as] assms(6) by simp_all
qed

lemma rw_invI:
  assumes "sched_inv (r_ker S)" "rw_ok S s" "\<And>t. t \<noteq> s \<Longrightarrow> rw_ok S t"
    "\<And>i. i < 16 \<Longrightarrow> p_rw_read_locks (pcbs (r_ker S) ! i) = of_bool (\<exists>s. i \<in> r_inside S s)"
    "\<And>i. i < 16 \<Longrightarrow> \<not> user (r_ker S) i \<Longrightarrow> r_pc S i = Out" "\<And>i t. r_pc S i \<noteq> R_start t \<and> r_pc S i \<noteq> W_start t"
  shows "rw_inv S"
proof -
  have "rw_ok S t" for t using assms(2) assms(3) [of t] by (cases "t = s") simp_all
  then show ?thesis using assms(1,4-6) by (simp add: rw_inv_def)
qed

lemma rw_invD:
  assumes "rw_inv S"
  shows "sched_inv (r_ker S)" "rw_ok S s" "rw_queues S s" "rw_counts S s" "rw_live S s"
    "i < 16 \<Longrightarrow> p_rw_read_locks (pcbs (r_ker S) ! i) = of_bool (\<exists>s. i \<in> r_inside S s)"
    "i < 16 \<Longrightarrow> \<not> user (r_ker S) i \<Longrightarrow> r_pc S i = Out" "r_pc S i \<noteq> R_start t \<and> r_pc S i \<noteq> W_start t"
  using assms by (simp_all add: rw_inv_def rw_ok_def)

lemma finite_inside [simp]: "finite (r_inside S s)"
  by (rule finite_subset [of _ "{..<16}"]) (auto simp: r_inside_def)

lemma inside_lock: "i \<in> r_inside S s \<Longrightarrow> lock_of (r_pc S i) = Some s"
  by (auto simp: r_inside_def)

lemma rw_kernel_inv:
  assumes "rw_inv S" "kstep (r_ker S) k'"
  shows "rw_inv (S\<lparr>r_ker := k'\<rparr>)"
proof -
  have s: "sched_inv (r_ker S)" by (rule rw_invD(1) [OF assms(1)])
  note k = kstep_keeps [OF assms(2) s]
  have o: "rw_ok (S\<lparr>r_ker := k'\<rparr>) t" "r_inside (S\<lparr>r_ker := k'\<rparr>) t = r_inside S t" for t
    using rw_other [of "S\<lparr>r_ker := k'\<rparr>" t S] k(2) rw_invD(2) [OF assms(1)] by simp_all
  have "p_rw_read_locks (pcbs k' ! i) = p_rw_read_locks (pcbs (r_ker S) ! i)" if "i < 16" for i
    using k(3) [OF that] by (simp add: lock_view_def)
  then show ?thesis
    using k(1) o rw_invD(6-8) [OF assms(1)] bk.step_user [OF s assms(2)] by (intro rw_invI) simp_all
qed

text \<open>The running process joins a queue: the part the two lock operations share.\<close>

lemma rw_block_inv:
  assumes "rw_inv S" "runs (r_ker S) c" "user (r_ker S) c" "lock_of (r_pc S c) = None \<or> r_pc S c = R_try s \<or> r_pc S c = W_try s"
    and "S' = set_pc c l (set_rw s x (S\<lparr>r_ker := scheduler_block_forever (r_ker S)\<rparr>))"
    and "l = R_wait s \<and> x = rws S s\<lparr>rw_reader_waiters := rw_add c (rw_reader_waiters (rws S s))\<rparr>
           \<and> (rw_writer (rws S s) \<noteq> None \<or> wq S s \<noteq> []) \<and> r_pc S c \<noteq> W_try s
       \<or> l = W_wait s \<and> x = rws S s\<lparr>rw_writer_waiters := rw_add c (rw_writer_waiters (rws S s))\<rparr>
           \<and> (rw_writer (rws S s) \<noteq> None \<or> 0 < rw_readers (rws S s))"
  shows "rw_inv S'"
proof -
  have inv: "sched_inv (r_ker S)" by (rule rw_invD(1) [OF assms(1)])
  have cur: "current (r_ker S) = Some c" using assms(2) by (simp add: runs_def)
  have c: "c < 16" using bk.cur_bound [OF inv cur] .
  note q = rw_queuesD [OF rw_invD(3) [OF assms(1)]]
  have cs: "c \<notin> asleep (r_ker S)" using bk.runs_awake [OF inv assms(2)] .
  have nin: "c \<notin> set (rq S s)" "c \<notin> set (wq S s)" using q(6,7) [of s] cs by auto
  have lr: "length (rq S s) < 16" "length (wq S s) < 16"
    using q(6,7) [of s] cs rwq.room [OF q(2,4) [of s], of c] rwq.room [OF q(3,5) [of s], of c] c by (auto simp: asleep_def)
  note ad = rwq.add_new [OF q(2) nin(1) lr(1)] rwq.add_new [OF q(3) nin(2) lr(2)] rwq.add_wf [OF q(2) [of s], of c] rwq.add_wf [OF q(3) [of s], of c]
  have ker: "r_ker S' = scheduler_block_forever (r_ker S)" by (simp add: assms(5) set_pc_def set_rw_def)
  have as: "asleep (r_ker S') = insert c (asleep (r_ker S))" unfolding ker by (rule bk.block_asleep [OF inv cur assms(2,3)])
  have pc: "r_pc S' i = (if i = c then l else r_pc S i)" and rws': "rws S' t = (if t = s then x else rws S t)" for i t
    by (simp_all add: assms(5) set_pc_def set_rw_def)
  have ci: "c \<notin> r_inside S t" for t using inside_lock [of c S t] assms(4) by (auto simp: r_inside_def)
  have l: "l = R_wait s \<or> l = W_wait s" using assms(6) by blast
  have el: "set (rq S' s) = set (rq S s) \<union> (if l = R_wait s then {c} else {})" "set (wq S' s) = set (wq S s) \<union> (if l = W_wait s then {c} else {})"
    "distinct (rq S' s)" "distinct (wq S' s)" "rw_initialized (rws S' s)"
    "waiters_wf (rw_reader_waiters (rws S' s))" "waiters_wf (rw_writer_waiters (rws S' s))"
    "rw_readers (rws S' s) = rw_readers (rws S s)" "rw_writer (rws S' s) = rw_writer (rws S s)"
    using assms(6) ad nin q(1-5) [of s] by (elim disjE; clarsimp simp: rws')+
  have "i \<in> r_inside S' s \<longleftrightarrow> i \<in> r_inside S s" for i
    using l ci [of s] by (cases "i = c") (auto simp: r_inside_def pc el(1))
  then have ins: "r_inside S' s = r_inside S s" by blast
  have "rw_queues S' s"
  proof -
    show ?thesis
    proof (rule rw_queuesI)
      show "set (rq S' s) \<subseteq> asleep (r_ker S')" "set (wq S' s) \<subseteq> asleep (r_ker S')" using q(6,7) [of s] by (auto simp: el as)
      show "r_pc S' i = R_wait s" if "i \<in> set (rq S' s)" for i using that q(8) [of i s] nin by (auto simp: el pc split: if_splits)
      show "r_pc S' i = W_wait s" if "i \<in> set (wq S' s)" for i using that q(9) [of i s] nin by (auto simp: el pc split: if_splits)
      show "i \<in> set (rq S' s)" if "i \<in> asleep (r_ker S')" "r_pc S' i = R_wait s" for i
        using that q(10) [of i s] by (auto simp: el pc as split: if_splits)
      show "i \<in> set (wq S' s)" if "i \<in> asleep (r_ker S')" "r_pc S' i = W_wait s" for i
        using that q(11) [of i s] by (auto simp: el pc as split: if_splits)
      show "r_pc S' i \<noteq> W_try s" if "i \<in> asleep (r_ker S')" for i using that q(12) [of i s] l by (auto simp: pc as)
    qed (use el in simp_all)
  qed
  moreover have "rw_counts S' s"
  proof (rule rw_countsI)
    note d = rw_countsD [OF rw_invD(4) [OF assms(1), of s]]
    show "rw_readers (rws S' s) = card (r_inside S' s)" using d(1) by (simp add: el ins)
    show "rw_writer (rws S' s) = Some i" if "i < 16" "r_pc S' i = W_in s" for i
      using d(2) [OF that(1)] that(2) l by (auto simp: el pc split: if_splits)
    show "i < 16 \<and> (r_pc S' i = W_in s \<or> r_pc S' i = W_wait s \<and> i \<notin> set (wq S' s))" if "rw_writer (rws S' s) = Some i" for i
    proof -
      have w: "rw_writer (rws S s) = Some i" using that by (simp add: el)
      then have "i \<noteq> c" using d(3) [OF w] assms(4) by auto
      then show ?thesis using d(3) [OF w] by (auto simp: pc el)
    qed
    show "rw_readers (rws S' s) = 0" if "rw_writer (rws S' s) \<noteq> None" using d(4) that by (auto simp: el)
  qed
  moreover have "rw_live S' s"
  proof -
    have "w_pending S s - {c} \<subseteq> w_pending S' s" using el(2) by (auto simp: w_pending_def pc)
    moreover have "c \<in> w_pending S s \<Longrightarrow> r_pc S c = W_try s" using assms(4) by (auto simp: w_pending_def)
    ultimately have pen: "w_pending S s \<noteq> {} \<Longrightarrow> w_pending S' s \<noteq> {} \<or> r_pc S c = W_try s" by blast
    show ?thesis
      using assms(6)
    proof
      assume a: "l = R_wait s \<and> x = rws S s\<lparr>rw_reader_waiters := rw_add c (rw_reader_waiters (rws S s))\<rparr>
           \<and> (rw_writer (rws S s) \<noteq> None \<or> wq S s \<noteq> []) \<and> r_pc S c \<noteq> W_try s"
      then have "wq S' s = wq S s" by (simp add: rws')
      then show ?thesis using a pen rw_invD(5) [OF assms(1), of s] unfolding rw_live_def by (auto simp: el)
    next
      assume a: "l = W_wait s \<and> x = rws S s\<lparr>rw_writer_waiters := rw_add c (rw_writer_waiters (rws S s))\<rparr>
           \<and> (rw_writer (rws S s) \<noteq> None \<or> 0 < rw_readers (rws S s))"
      then have "wq S' s \<noteq> []" using ad(2) by (simp add: rws')
      then show ?thesis using a unfolding rw_live_def by (auto simp: el)
    qed
  qed
  ultimately have ok: "rw_ok S' s" by (simp add: rw_ok_def)
  have cl: "lock_of (r_pc S c) \<noteq> Some t" "lock_of l \<noteq> Some t" if "t \<noteq> s" for t using assms(4) l that by auto
  have oth: "rw_ok S' t" "r_inside S' t = r_inside S t" if "t \<noteq> s" for t
    using rw_other_pc [OF _ pc cl [OF that] _ rw_invD(2) [OF assms(1)]] that as by (simp_all add: rws')
  have "p_rw_read_locks (pcbs (r_ker S') ! i) = p_rw_read_locks (pcbs (r_ker S) ! i)" for i
    unfolding ker block_forever_spec(3) [OF inv assms(2,3)] using c sched_invD(8) [OF inv] by (simp add: nth_list_update)
  moreover have "(\<exists>t. i \<in> r_inside S' t) \<longleftrightarrow> (\<exists>t. i \<in> r_inside S t)" for i using ins oth(2) by metis
  ultimately show ?thesis
    using bk.block_inv [OF inv cur assms(2,3)] ok oth(1) rw_invD(6-8) [OF assms(1)] bk.block_user [OF inv] assms(3) l
    by (intro rw_invI [of S' s]) (auto simp: ker pc)
qed

text \<open>
  The frame of a step at lock \<open>s\<close> by process \<open>c\<close>: what has to be shown about \<open>s\<close> itself, and how
  the per-process count of read locks follows who is let in and who leaves.
\<close>

lemma rw_frame:
  assumes "rw_inv S" "rw_ok S' s" "sched_inv (r_ker S')" "\<And>t. t \<noteq> s \<Longrightarrow> rws S' t = rws S t"
    "\<And>i. r_pc S' i = (if i = c then l else r_pc S i)" "lock_of (r_pc S c) = None \<or> lock_of (r_pc S c) = Some s"
    "lock_of l = None \<or> lock_of l = Some s"
    "\<And>i. i \<noteq> c \<Longrightarrow> lock_of (r_pc S i) \<noteq> Some s \<Longrightarrow> i \<in> asleep (r_ker S') \<longleftrightarrow> i \<in> asleep (r_ker S)"
    "\<And>i. i < 16 \<Longrightarrow> p_rw_read_locks (pcbs (r_ker S') ! i) =
        p_rw_read_locks (pcbs (r_ker S) ! i) + of_bool (i \<in> r_inside S' s) - of_bool (i \<in> r_inside S s)"
    "\<And>i. i < 16 \<Longrightarrow> user (r_ker S') i = user (r_ker S) i" "user (r_ker S) c \<or> l = Out"
    "l \<noteq> R_start s \<and> l \<noteq> W_start s"
  shows "rw_inv S'"
proof -
  have oth: "rw_ok S' t" "r_inside S' t = r_inside S t" if "t \<noteq> s" for t
  proof -
    have "lock_of (r_pc S c) \<noteq> Some t" "lock_of l \<noteq> Some t" using assms(6,7) that by auto
    moreover have "i \<in> asleep (r_ker S') \<longleftrightarrow> i \<in> asleep (r_ker S)" if "i \<noteq> c" "lock_of (r_pc S i) = Some t" for i
      using assms(8) [of i] that \<open>t \<noteq> s\<close> by simp
    ultimately show "rw_ok S' t" "r_inside S' t = r_inside S t"
      using rw_other_pc [OF assms(4) assms(5) _ _ _ rw_invD(2) [OF assms(1)], of t] that by blast+
  qed
  have "p_rw_read_locks (pcbs (r_ker S') ! i) = of_bool (\<exists>t. i \<in> r_inside S' t)" if "i < 16" for i
  proof (cases "\<exists>t. t \<noteq> s \<and> i \<in> r_inside S t")
    case True
    then obtain t where t: "t \<noteq> s" "i \<in> r_inside S t" "i \<in> r_inside S' t" using oth(2) by blast
    have "i \<notin> r_inside S s" "i \<notin> r_inside S' s"
      using inside_lock [OF t(2)] inside_lock [OF t(3)] inside_lock [of i S s] inside_lock [of i S' s] t(1) by auto
    then show ?thesis using assms(9) [OF that] rw_invD(6) [OF assms(1) that] t by (auto simp: of_bool_def)
  next
    case False
    then have "(\<exists>t. i \<in> r_inside S t) \<longleftrightarrow> i \<in> r_inside S s" "(\<exists>t. i \<in> r_inside S' t) \<longleftrightarrow> i \<in> r_inside S' s"
      using oth(2) by metis+
    then show ?thesis using assms(9) [OF that] rw_invD(6) [OF assms(1) that] by simp
  qed
  moreover have "r_pc S' i = Out" if "i < 16" "\<not> user (r_ker S') i" for i
    using that assms(5,10,11) rw_invD(7) [OF assms(1) that(1)] by (cases "i = c") auto
  moreover have "r_pc S' i \<noteq> R_start t \<and> r_pc S' i \<noteq> W_start t" for i t
    using assms(5) [of i] assms(7,12) rw_invD(8) [OF assms(1)] by auto
  ultimately show ?thesis by (intro rw_invI [OF assms(3,2) oth(1)])
qed

text \<open>A step that leaves the queues of \<open>s\<close> alone, by a process that is awake.\<close>

lemma rw_queues_pc:
  assumes "rw_queues S s" "rw_reader_waiters (rws S' s) = rw_reader_waiters (rws S s)"
    "rw_writer_waiters (rws S' s) = rw_writer_waiters (rws S s)" "rw_initialized (rws S' s) = rw_initialized (rws S s)"
    "\<And>i. i \<noteq> c \<Longrightarrow> r_pc S' i = r_pc S i" "asleep (r_ker S') = asleep (r_ker S)" "c \<notin> asleep (r_ker S)"
  shows "rw_queues S' s"
proof -
  note q = rw_queuesD [OF assms(1)]
  have pc: "i \<in> asleep (r_ker S) \<Longrightarrow> r_pc S' i = r_pc S i" for i using assms(5) [of i] assms(7) by auto
  show ?thesis
  proof (rule rw_queuesI, unfold assms(2,3,4,6))
    show "r_pc S' i = R_wait s" if "i \<in> set (rq S s)" for i using q(6) q(8) [OF that] pc that by auto
    show "r_pc S' i = W_wait s" if "i \<in> set (wq S s)" for i using q(7) q(9) [OF that] pc that by auto
    show "i \<in> set (rq S s)" if "i \<in> asleep (r_ker S)" "r_pc S' i = R_wait s" for i using q(10) that pc by simp
    show "i \<in> set (wq S s)" if "i \<in> asleep (r_ker S)" "r_pc S' i = W_wait s" for i using q(11) that pc by simp
    show "r_pc S' i \<noteq> W_try s" if "i \<in> asleep (r_ker S)" for i using q(12) [OF that] pc [OF that] by simp
  qed (use q(1-7) in simp_all)
qed

text \<open>A process that has passed the guards stands in front of its first attempt.\<close>

lemma rw_guard_inv:
  assumes "rw_inv S" "runs (r_ker S) c" "r_pc S c = Out" "\<And>s. try s = R_try s \<or> try s = W_try s"
  shows "rw_inv (rw_guard try start ptr S)"
proof (cases "rw_guard try start ptr S = S")
  case False
  have inv: "sched_inv (r_ker S)" by (rule rw_invD(1) [OF assms(1)])
  have cur: "current (r_ker S) = Some c" using assms(2) by (simp add: runs_def)
  have cs: "c \<notin> asleep (r_ker S)" using bk.runs_awake [OF inv assms(2)] .
  from False obtain s where s: "user (r_ker S) c" "rw_guard try start ptr S = set_pc c (try s) S"
    using cur rw_queuesD(1) [OF rw_invD(3) [OF assms(1)]] by (auto simp: rw_guard_def user_def split: option.splits if_splits)
  note q = rw_queuesD [OF rw_invD(3) [OF assms(1), of s]] and d = rw_countsD [OF rw_invD(4) [OF assms(1), of s]]
  define l where "l = try s"
  have l: "l = R_try s \<or> l = W_try s" using assms(4) by (simp add: l_def)
  define S' where "S' = set_pc c l S"
  have ker: "r_ker S' = r_ker S" "rws S' = rws S" by (simp_all add: S'_def set_pc_def)
  have pc: "r_pc S' i = (if i = c then l else r_pc S i)" for i by (simp add: S'_def set_pc_def)
  have ins: "r_inside S' s = r_inside S s" using l assms(3) by (auto simp: r_inside_def pc ker)
  have "rw_queues S' s"
    by (rule rw_queues_pc [OF rw_invD(3) [OF assms(1)], where c = c]) (use cs in \<open>simp_all add: pc ker\<close>)
  moreover have "rw_counts S' s"
  proof (rule rw_countsI)
    show "rw_writer (rws S' s) = Some i" if "i < 16" "r_pc S' i = W_in s" for i
      using d(2) [OF that(1)] that(2) l by (auto simp: ker pc split: if_splits)
    show "i < 16 \<and> (r_pc S' i = W_in s \<or> r_pc S' i = W_wait s \<and> i \<notin> set (wq S' s))" if "rw_writer (rws S' s) = Some i" for i
      using d(3) [of i] that assms(3) by (cases "i = c") (simp_all add: ker pc)
  qed (use d(1,4) in \<open>auto simp: ker ins\<close>)
  moreover have "rw_live S' s"
  proof -
    have "w_pending S s \<subseteq> w_pending S' s" using assms(3) by (auto simp: w_pending_def pc ker)
    then show ?thesis using rw_invD(5) [OF assms(1), of s] unfolding rw_live_def ker by blast
  qed
  ultimately have ok: "rw_ok S' s" by (simp add: rw_ok_def)
  show ?thesis unfolding s(2) l_def [symmetric] S'_def [symmetric]
    by (intro rw_frame [OF assms(1) ok _ _ pc]) (use assms(3) s(1) inv l in \<open>auto simp: ker ins\<close>)
qed (use assms(1) in simp)

lemma rw_read_try_inv:
  assumes "rw_inv S" "runs (r_ker S) c" "user (r_ker S) c" "r_pc S c = Out \<or> r_pc S c = R_try s"
  shows "rw_inv (rw_read_try s S)"
proof -
  let ?x = "rws S s"
  have inv: "sched_inv (r_ker S)" by (rule rw_invD(1) [OF assms(1)])
  have cur: "current (r_ker S) = Some c" using assms(2) by (simp add: runs_def)
  have c: "c < 16" using bk.cur_bound [OF inv cur] .
  have cs: "c \<notin> asleep (r_ker S)" using bk.runs_awake [OF inv assms(2)] .
  note q = rw_queuesD [OF rw_invD(3) [OF assms(1), of s]] and d = rw_countsD [OF rw_invD(4) [OF assms(1), of s]]
  have we: "snd (rw_writer_waiters ?x) = 0 \<longleftrightarrow> wq S s = []" using length_waiting [OF q(3)] by (metis length_0_conv)
  show ?thesis
  proof (cases "rw_writer ?x = None \<and> wq S s = []")
    case True
    define S' where "S' = rw_read_try s S"
    have S': "S' = set_pc c (R_in s) (set_rw s (?x\<lparr>rw_readers := rw_readers ?x + 1\<rparr>) (S\<lparr>r_ker := read_locks_plus c (r_ker S)\<rparr>))"
      using True we cur by (simp add: S'_def rw_read_try_def Let_def)
    note k = read_locks_plus_keeps [OF inv c]
    have ker: "r_ker S' = read_locks_plus c (r_ker S)" by (simp add: S' set_pc_def set_rw_def)
    have pc: "r_pc S' i = (if i = c then R_in s else r_pc S i)" for i by (simp add: S' set_pc_def set_rw_def)
    have rs: "rws S' s = ?x\<lparr>rw_readers := rw_readers ?x + 1\<rparr>" "t \<noteq> s \<Longrightarrow> rws S' t = rws S t" for t
      by (simp_all add: S' set_pc_def set_rw_def)
    have cn: "c \<notin> r_inside S s" using assms(4) by (auto simp: r_inside_def)
    have "r_inside S' s = insert c (r_inside S s)" using c by (auto simp: r_inside_def pc rs(1))
    moreover from this have "card (r_inside S' s) = card (r_inside S s) + 1" using cn by simp
    moreover have "rw_queues S' s"
      by (rule rw_queues_pc [OF rw_invD(3) [OF assms(1)], where c = c]) (use cs in \<open>simp_all add: rs pc ker k\<close>)
    moreover have "rw_counts S' s"
    proof (rule rw_countsI)
      show "rw_readers (rws S' s) = card (r_inside S' s)" using d(1) calculation(2) by (simp add: rs)
      show "rw_writer (rws S' s) = Some i" if "i < 16" "r_pc S' i = W_in s" for i
        using d(2) [OF that(1)] that(2) by (auto simp: rs pc split: if_splits)
    qed (use True in \<open>simp_all add: rs\<close>)
    moreover have "rw_live S' s"
    proof -
      have "w_pending S' s = w_pending S s" using assms(4) by (auto simp: w_pending_def pc rs)
      then show ?thesis using True rw_invD(5) [OF assms(1), of s] by (simp add: rw_live_def rs)
    qed
    ultimately have ok: "rw_ok S' s" and ins: "r_inside S' s = insert c (r_inside S s)" by (simp_all add: rw_ok_def)
    show ?thesis unfolding S'_def [symmetric]
      by (rule rw_frame [OF assms(1) ok _ rs(2) pc]) (use assms(3,4) k cn in \<open>auto simp: ker ins\<close>)
  next
    case False
    then have "rw_read_try s S = set_pc c (R_wait s) (set_rw s (?x\<lparr>rw_reader_waiters := rw_add c (rw_reader_waiters ?x)\<rparr>)
        (S\<lparr>r_ker := scheduler_block_forever (r_ker S)\<rparr>))"
      using we cur by (auto simp: rw_read_try_def Let_def)
    from rw_block_inv [OF assms(1-3) _ this] show ?thesis using False assms(4) by auto
  qed
qed

lemma rw_write_try_inv:
  assumes "rw_inv S" "runs (r_ker S) c" "user (r_ker S) c" "r_pc S c = Out \<or> r_pc S c = W_try s"
  shows "rw_inv (rw_write_try s S)"
proof -
  let ?x = "rws S s"
  have inv: "sched_inv (r_ker S)" by (rule rw_invD(1) [OF assms(1)])
  have cur: "current (r_ker S) = Some c" using assms(2) by (simp add: runs_def)
  have c: "c < 16" using bk.cur_bound [OF inv cur] .
  have cs: "c \<notin> asleep (r_ker S)" using bk.runs_awake [OF inv assms(2)] .
  note q = rw_queuesD [OF rw_invD(3) [OF assms(1), of s]] and d = rw_countsD [OF rw_invD(4) [OF assms(1), of s]]
  show ?thesis
  proof (cases "rw_writer ?x = None \<and> rw_readers ?x = 0")
    case True
    define S' where "S' = rw_write_try s S"
    have S': "S' = set_pc c (W_in s) (set_rw s (?x\<lparr>rw_writer := Some c\<rparr>) S)"
      using True cur by (simp add: S'_def rw_write_try_def Let_def)
    have ker: "r_ker S' = r_ker S" by (simp add: S' set_pc_def set_rw_def)
    have pc: "r_pc S' i = (if i = c then W_in s else r_pc S i)" for i by (simp add: S' set_pc_def set_rw_def)
    have rs: "rws S' s = ?x\<lparr>rw_writer := Some c\<rparr>" "t \<noteq> s \<Longrightarrow> rws S' t = rws S t" for t
      by (simp_all add: S' set_pc_def set_rw_def)
    have cn: "c \<notin> r_inside S s" using assms(4) by (auto simp: r_inside_def)
    have ins: "r_inside S' s = r_inside S s" using cn by (auto simp: r_inside_def pc rs(1))
    have "rw_queues S' s"
      by (rule rw_queues_pc [OF rw_invD(3) [OF assms(1)], where c = c]) (use cs in \<open>simp_all add: rs pc ker\<close>)
    moreover have "rw_counts S' s"
    proof (rule rw_countsI)
      show "rw_writer (rws S' s) = Some i" if "i < 16" "r_pc S' i = W_in s" for i
        using d(2) [OF that(1)] that(2) True by (auto simp: rs pc split: if_splits)
    qed (use True c d(1) in \<open>auto simp: rs ins pc\<close>)
    moreover have "rw_live S' s" by (simp add: rw_live_def rs)
    ultimately have ok: "rw_ok S' s" by (simp add: rw_ok_def)
    show ?thesis unfolding S'_def [symmetric]
      by (rule rw_frame [OF assms(1) ok _ rs(2) pc]) (use assms(3,4) inv in \<open>auto simp: ker ins\<close>)
  next
    case False
    then have "rw_write_try s S = set_pc c (W_wait s) (set_rw s (?x\<lparr>rw_writer_waiters := rw_add c (rw_writer_waiters ?x)\<rparr>)
        (S\<lparr>r_ker := scheduler_block_forever (r_ker S)\<rparr>))"
      using cur by (auto simp: rw_write_try_def Let_def)
    from rw_block_inv [OF assms(1-3) _ this] show ?thesis using False assms(4) by auto
  qed
qed

lemma rw_read_resume_inv:
  assumes "rw_inv S" "runs (r_ker S) c" "r_pc S c = R_wait s"
  shows "rw_inv (rw_read_resume s S)"
proof -
  have inv: "sched_inv (r_ker S)" by (rule rw_invD(1) [OF assms(1)])
  have cur: "current (r_ker S) = Some c" using assms(2) by (simp add: runs_def)
  have c: "c < 16" using bk.cur_bound [OF inv cur] .
  have cs: "c \<notin> asleep (r_ker S)" using bk.runs_awake [OF inv assms(2)] .
  note q = rw_queuesD [OF rw_invD(3) [OF assms(1), of s]] and d = rw_countsD [OF rw_invD(4) [OF assms(1), of s]]
  define S' where "S' = rw_read_resume s S"
  have S': "S' = set_pc c (R_in s) S" using cur assms(2) by (simp add: S'_def rw_read_resume_def runs_def)
  have ker: "r_ker S' = r_ker S" "rws S' = rws S" by (simp_all add: S' set_pc_def)
  have pc: "r_pc S' i = (if i = c then R_in s else r_pc S i)" for i by (simp add: S' set_pc_def)
  have cq: "c \<notin> set (rq S s)" using q(6) cs by blast
  have ins: "r_inside S' s = r_inside S s" using cq c assms(3) by (auto simp: r_inside_def pc ker)
  have pen: "w_pending S' s = w_pending S s" using assms(3) by (auto simp: w_pending_def pc ker)
  have "rw_queues S' s"
    by (rule rw_queues_pc [OF rw_invD(3) [OF assms(1)], where c = c]) (use cs in \<open>simp_all add: pc ker\<close>)
  moreover have "rw_counts S' s"
  proof (rule rw_countsI)
    show "rw_writer (rws S' s) = Some i" if "i < 16" "r_pc S' i = W_in s" for i
      using d(2) [OF that(1)] that(2) by (auto simp: ker pc split: if_splits)
    show "i < 16 \<and> (r_pc S' i = W_in s \<or> r_pc S' i = W_wait s \<and> i \<notin> set (wq S' s))" if "rw_writer (rws S' s) = Some i" for i
      using d(3) [of i] that assms(3) by (cases "i = c") (simp_all add: ker pc)
  qed (use d(1,4) in \<open>auto simp: ker ins\<close>)
  moreover have "rw_live S' s" using rw_invD(5) [OF assms(1), of s] by (simp add: rw_live_def ker pen)
  ultimately have ok: "rw_ok S' s" by (simp add: rw_ok_def)
  have "user (r_ker S) c" using rw_invD(7) [OF assms(1) c] assms(3) by auto
  then show ?thesis unfolding S'_def [symmetric]
    by (intro rw_frame [OF assms(1) ok _ _ pc]) (use assms(3) inv in \<open>auto simp: ker ins\<close>)
qed

lemma rw_write_resume_inv:
  assumes "rw_inv S" "runs (r_ker S) c" "r_pc S c = W_wait s"
  shows "rw_inv (rw_write_resume s S)"
proof -
  have inv: "sched_inv (r_ker S)" by (rule rw_invD(1) [OF assms(1)])
  have cur: "current (r_ker S) = Some c" using assms(2) by (simp add: runs_def)
  have c: "c < 16" using bk.cur_bound [OF inv cur] .
  have cs: "c \<notin> asleep (r_ker S)" using bk.runs_awake [OF inv assms(2)] .
  note q = rw_queuesD [OF rw_invD(3) [OF assms(1), of s]] and d = rw_countsD [OF rw_invD(4) [OF assms(1), of s]]
  define l where "l = (if rw_writer (rws S s) = Some c then W_in s else W_try s)"
  define S' where "S' = rw_write_resume s S"
  have S': "S' = set_pc c l S" using cur by (simp add: S'_def rw_write_resume_def l_def)
  have ker: "r_ker S' = r_ker S" "rws S' = rws S" by (simp_all add: S' set_pc_def)
  have pc: "r_pc S' i = (if i = c then l else r_pc S i)" for i by (simp add: S' set_pc_def)
  have cq: "c \<notin> set (wq S s)" using q(7) cs by blast
  have ins: "r_inside S' s = r_inside S s" using assms(3) by (auto simp: r_inside_def pc ker l_def)
  have "rw_queues S' s"
    by (rule rw_queues_pc [OF rw_invD(3) [OF assms(1)], where c = c]) (use cs in \<open>simp_all add: pc ker\<close>)
  moreover have "rw_counts S' s"
  proof (rule rw_countsI)
    show "rw_writer (rws S' s) = Some i" if "i < 16" "r_pc S' i = W_in s" for i
      using d(2) [OF that(1)] that(2) by (auto simp: ker pc l_def split: if_splits)
    show "i < 16 \<and> (r_pc S' i = W_in s \<or> r_pc S' i = W_wait s \<and> i \<notin> set (wq S' s))" if "rw_writer (rws S' s) = Some i" for i
      using d(3) [of i] that by (cases "i = c") (simp_all add: ker pc l_def)
  qed (use d(1,4) in \<open>auto simp: ker ins\<close>)
  moreover have "rw_live S' s"
  proof (cases "rw_writer (rws S s) = None")
    case True
    have "w_pending S' s = w_pending S s" using True cq c assms(3) by (auto simp: w_pending_def pc ker l_def)
    then show ?thesis using rw_invD(5) [OF assms(1), of s] by (simp add: rw_live_def ker)
  qed (simp add: rw_live_def ker)
  ultimately have ok: "rw_ok S' s" by (simp add: rw_ok_def)
  have "user (r_ker S) c" using rw_invD(7) [OF assms(1) c] assms(3) by auto
  then show ?thesis unfolding S'_def [symmetric]
    by (intro rw_frame [OF assms(1) ok _ _ pc]) (use assms(3) inv in \<open>auto simp: ker ins l_def\<close>)
qed

text \<open>
  A step by \<open>c\<close> that may take the head \<open>w\<close> of the writers' queue and wake it: the queues stay in
  order.
\<close>

lemma rw_queues_pop:
  assumes "rw_queues S s" "wq S s = w # ws" "waiting (rw_writer_waiters (rws S' s)) = ws" "waiters_wf (rw_writer_waiters (rws S' s))"
    "rw_reader_waiters (rws S' s) = rw_reader_waiters (rws S s)" "rw_initialized (rws S' s) = rw_initialized (rws S s)"
    "\<And>i. i \<noteq> c \<Longrightarrow> r_pc S' i = r_pc S i" "asleep (r_ker S') = asleep (r_ker S) - {w}" "c \<notin> asleep (r_ker S)"
  shows "rw_queues S' s"
proof -
  note q = rw_queuesD [OF assms(1)]
  have pc: "i \<in> asleep (r_ker S) \<Longrightarrow> r_pc S' i = r_pc S i" for i using assms(7) [of i] assms(9) by auto
  have w: "w \<notin> set ws" "distinct ws" "r_pc S w = W_wait s" using q(5) q(9) [of w] assms(2) by auto
  have wr: "w \<notin> set (rq S s)" using q(8) [of w] w(3) by auto
  show ?thesis
  proof (rule rw_queuesI, unfold assms(3,5,6,8))
    show "set (rq S s) \<subseteq> asleep (r_ker S) - {w}" using q(6) wr by blast
    show "set ws \<subseteq> asleep (r_ker S) - {w}" using q(7) assms(2) w(1) by auto
    show "r_pc S' i = R_wait s" if "i \<in> set (rq S s)" for i using q(6) q(8) [OF that] pc that by auto
    show "r_pc S' i = W_wait s" if "i \<in> set ws" for i using q(7) q(9) [of i] assms(2) pc that by auto
    show "i \<in> set (rq S s)" if "i \<in> asleep (r_ker S) - {w}" "r_pc S' i = R_wait s" for i using q(10) [of i] that pc by simp
    show "i \<in> set ws" if "i \<in> asleep (r_ker S) - {w}" "r_pc S' i = W_wait s" for i using q(11) [of i] that pc assms(2) by simp
    show "r_pc S' i \<noteq> W_try s" if "i \<in> asleep (r_ker S) - {w}" for i using q(12) [of i] pc [of i] that by simp
  qed (use q(1-4) w(2) assms(4) in simp_all)
qed

lemma rw_read_unlock_inv:
  assumes "rw_inv S" "runs (r_ker S) c" "r_pc S c = R_in s"
  shows "rw_inv (rwlock_read_unlock (Some s) S)"
proof -
  let ?x = "rws S s" and ?f = "\<lambda>p. p\<lparr>p_rw_read_locks := p_rw_read_locks p - 1\<rparr>"
  have inv: "sched_inv (r_ker S)" by (rule rw_invD(1) [OF assms(1)])
  have cur: "current (r_ker S) = Some c" using assms(2) by (simp add: runs_def)
  have c: "c < 16" using bk.cur_bound [OF inv cur] .
  have cs: "c \<notin> asleep (r_ker S)" using bk.runs_awake [OF inv assms(2)] .
  note q = rw_queuesD [OF rw_invD(3) [OF assms(1), of s]] and d = rw_countsD [OF rw_invD(4) [OF assms(1), of s]]
  have ci: "c \<in> r_inside S s" using c assms(3) by (simp add: r_inside_def)
  have lk: "p_rw_read_locks (pcbs (r_ker S) ! c) = 1" using rw_invD(6) [OF assms(1) c] ci by auto
  have pos: "0 < rw_readers ?x" using d(1) ci by (metis card_gt_0_iff empty_iff finite_inside)
  then have wn: "rw_writer ?x = None" using d(4) by (cases "rw_writer ?x") auto
  define k1 where "k1 = upd_pcb c ?f (r_ker S)"
  have k1: "sched_inv k1" unfolding k1_def by (rule upd_neutral(1) [OF inv c]) simp_all
  have k1a: "asleep k1 = asleep (r_ker S)" unfolding k1_def by (rule upd_neutral(2) [OF inv c]) simp_all
  have k1u: "user k1 i = user (r_ker S) i" for i unfolding k1_def by (rule upd_neutral(4) [OF inv c]) simp_all
  have l1: "p_rw_read_locks (pcbs k1 ! i) = p_rw_read_locks (pcbs (r_ker S) ! i) - of_bool (i = c)" for i
    using c sched_invD(8) [OF inv] by (simp add: k1_def pcbs_upd_pcb)
  define S' where "S' = rwlock_read_unlock (Some s) S"
  have pc: "r_pc S' i = (if i = c then Out else r_pc S i)" for i
    using cur lk pos by (simp add: S'_def rwlock_read_unlock_def Let_def set_pc_def set_rw_def split: prod.splits)
  have rs: "rw_readers (rws S' s) = rw_readers ?x - 1" "rw_writer (rws S' s) = None" "rw_reader_waiters (rws S' s) = rw_reader_waiters ?x"
    "rw_initialized (rws S' s) = rw_initialized ?x" and ro: "t \<noteq> s \<Longrightarrow> rws S' t = rws S t" for t
    using cur lk pos wn by (simp_all add: S'_def rwlock_read_unlock_def Let_def set_pc_def set_rw_def split: prod.splits)
  have "r_inside S' s = r_inside S s - {c}" by (auto simp: r_inside_def pc rs)
  then have ins: "r_inside S' s = r_inside S s - {c}" "card (r_inside S' s) = card (r_inside S s) - 1" using ci by simp_all
  have qk: "rw_queues S' s \<and> sched_inv (r_ker S') \<and> asleep (r_ker S') \<subseteq> asleep (r_ker S)
      \<and> (\<forall>i. p_rw_read_locks (pcbs (r_ker S') ! i) = p_rw_read_locks (pcbs k1 ! i)) \<and> (\<forall>i < 16. user (r_ker S') i = user (r_ker S) i)
      \<and> (\<forall>i. i \<in> asleep (r_ker S) \<longrightarrow> i \<in> asleep (r_ker S') \<or> r_pc S i = W_wait s)
      \<and> (\<forall>i. i \<in> set (wq S s) \<longrightarrow> i \<in> set (wq S' s) \<or> i \<in> w_pending S' s) \<and> set (wq S' s) \<subseteq> set (wq S s)
      \<and> (rw_readers (rws S' s) = 0 \<longrightarrow> wq S s \<noteq> [] \<longrightarrow> w_pending S' s \<noteq> {})"
  proof (cases "rw_readers ?x - 1 = 0 \<and> wq S s \<noteq> []")
    case True
    then obtain w ws where w: "wq S s = w # ws" by (cases "wq S s") auto
    obtain y where pop: "rw_pop (rw_writer_waiters ?x) = (y, Some w)" "waiting y = ws" "waiters_wf y"
      using rwq.pop_head [OF q(3) w] rwq.pop_wf [OF q(3)] by (cases "rw_pop (rw_writer_waiters ?x)") auto
    have wa: "w \<in> asleep k1" "w < 16" using q(7) w k1a by (auto simp: asleep_def)
    have ker: "r_ker S' = scheduler_wake (Some w) k1" and ww: "rw_writer_waiters (rws S' s) = y"
      using cur lk pos wn True pop(1) by (simp_all add: S'_def rwlock_read_unlock_def Let_def set_pc_def set_rw_def k1_def)
    note v = wake_spec [OF k1 wa(1), folded ker]
    have "rw_queues S' s"
      by (rule rw_queues_pop [OF rw_invD(3) [OF assms(1)] w, where c = c]) (use pop cs rs pc v k1a ww in simp_all)
    moreover have "w \<in> w_pending S' s"
      using q(9) [of w] q(5) w wa(2) pop(2) assms(3) by (auto simp: w_pending_def pc ww)
    moreover have "\<forall>i < 16. user (r_ker S') i = user (r_ker S) i" using bk.wake_user [OF k1 wa(1)] k1u ker by simp
    moreover have "\<forall>i. p_rw_read_locks (pcbs (r_ker S') ! i) = p_rw_read_locks (pcbs k1 ! i)"
      using wake_read_locks [OF k1 wa(1)] ker by simp
    ultimately show ?thesis using v k1a w q(9) [of w] ww pop(2) by auto
  next
    case False
    have ker: "r_ker S' = k1" and ww: "rw_writer_waiters (rws S' s) = rw_writer_waiters ?x"
      using cur lk pos wn False rwq.pop_empty [OF q(3)]
      by (auto simp: S'_def rwlock_read_unlock_def Let_def set_pc_def set_rw_def k1_def scheduler_wake_def split: prod.splits)
    have "rw_queues S' s"
      by (rule rw_queues_pc [OF rw_invD(3) [OF assms(1)], where c = c]) (use cs rs pc k1a ww ker in simp_all)
    then show ?thesis using False k1 k1a k1u ker ww rs by auto
  qed
  have "rw_counts S' s"
  proof (rule rw_countsI)
    show "rw_readers (rws S' s) = card (r_inside S' s)" using d(1) by (simp add: rs ins(2))
    show "rw_writer (rws S' s) = Some i" if "i < 16" "r_pc S' i = W_in s" for i
      using d(2) [OF that(1)] that(2) wn by (auto simp: rs pc split: if_splits)
  qed (simp_all add: rs)
  moreover have "rw_live S' s"
  proof -
    have "w_pending S s \<subseteq> w_pending S' s" using qk assms(3) by (auto simp: w_pending_def pc)
    moreover have "wq S' s \<noteq> [] \<or> w_pending S' s \<noteq> {}" if "wq S s \<noteq> []"
      using qk hd_in_set [OF that] by (metis empty_iff list.set(1))
    moreover have "wq S s \<noteq> []" if "wq S' s \<noteq> []" using qk that by auto
    moreover have "rq S s \<noteq> [] \<longrightarrow> wq S s \<noteq> [] \<or> w_pending S s \<noteq> {}" using rw_invD(5) [OF assms(1), of s] wn by (simp add: rw_live_def)
    ultimately show ?thesis using qk unfolding rw_live_def rs(3) by blast
  qed
  ultimately have ok: "rw_ok S' s" using qk by (simp add: rw_ok_def)
  have "i \<in> asleep (r_ker S') \<longleftrightarrow> i \<in> asleep (r_ker S)" if "lock_of (r_pc S i) \<noteq> Some s" for i
    using qk that by (auto dest: spec [of _ i])
  then show ?thesis unfolding S'_def [symmetric]
    by (intro rw_frame [OF assms(1) ok _ ro pc]) (use assms(3) qk l1 ins ci in \<open>auto simp: of_bool_def\<close>)
qed

lemma rw_write_unlock_inv:
  assumes "rw_inv S" "runs (r_ker S) c" "r_pc S c = W_in s"
  shows "rw_inv (rwlock_write_unlock (Some s) S)"
proof -
  let ?x = "rws S s"
  have inv: "sched_inv (r_ker S)" by (rule rw_invD(1) [OF assms(1)])
  have cur: "current (r_ker S) = Some c" using assms(2) by (simp add: runs_def)
  have c: "c < 16" using bk.cur_bound [OF inv cur] .
  have cs: "c \<notin> asleep (r_ker S)" using bk.runs_awake [OF inv assms(2)] .
  note q = rw_queuesD [OF rw_invD(3) [OF assms(1), of s]] and d = rw_countsD [OF rw_invD(4) [OF assms(1), of s]]
  have wr: "rw_writer ?x = Some c" using d(2) [OF c assms(3)] .
  have rd: "rw_readers ?x = 0" "r_inside S s = {}" using d(4) [OF wr] d(1) by auto
  have only: "r_pc S i \<noteq> W_in s" if "i < 16" "i \<noteq> c" for i using d(2) [OF that(1)] wr that(2) by auto
  define S' where "S' = rwlock_write_unlock (Some s) S"
  have ro: "t \<noteq> s \<Longrightarrow> rws S' t = rws S t" and pc: "r_pc S' i = (if i = c then Out else r_pc S i)" for t i
    using wr cur by (auto simp: S'_def rwlock_write_unlock_def Let_def set_pc_def set_rw_def split: prod.splits option.splits)
  show ?thesis
  proof (cases "wq S s")
    case (Cons w ws)
    obtain y where pop: "rw_pop (rw_writer_waiters ?x) = (y, Some w)" "waiting y = ws" "waiters_wf y"
      using rwq.pop_head [OF q(3) Cons] rwq.pop_wf [OF q(3)] by (cases "rw_pop (rw_writer_waiters ?x)") auto
    have wa: "w \<in> asleep (r_ker S)" "w < 16" using q(7) Cons by (auto simp: asleep_def)
    have ker: "r_ker S' = scheduler_wake (Some w) (r_ker S)" and rs: "rws S' s = ?x\<lparr>rw_writer := Some w, rw_writer_waiters := y\<rparr>"
      using cur wr pop(1) by (simp_all add: S'_def rwlock_write_unlock_def Let_def set_pc_def set_rw_def)
    note v = wake_spec [OF inv wa(1), folded ker]
    have wp: "r_pc S w = W_wait s" "w \<noteq> c" "w \<notin> set ws" using q(9) [of w] q(5) Cons assms(3) by auto
    have ins: "r_inside S' s = {}" using rd(2) by (auto simp: r_inside_def pc rs)
    have "rw_queues S' s"
      by (rule rw_queues_pop [OF rw_invD(3) [OF assms(1)] Cons, where c = c]) (use pop cs rs pc v in simp_all)
    moreover have "rw_counts S' s"
    proof (rule rw_countsI)
      show "rw_writer (rws S' s) = Some i" if "i < 16" "r_pc S' i = W_in s" for i
        using only [of i] that by (auto simp: pc split: if_splits)
    qed (use wp wa pop(2) rd(1) in \<open>auto simp: rs ins pc\<close>)
    moreover have "rw_live S' s" by (simp add: rw_live_def rs)
    ultimately have ok: "rw_ok S' s" by (simp add: rw_ok_def)
    have as: "i \<in> asleep (r_ker S') \<longleftrightarrow> i \<in> asleep (r_ker S)" if "lock_of (r_pc S i) \<noteq> Some s" for i
    proof -
      have "i \<noteq> w" using wp(1) that by auto
      then show ?thesis unfolding v(2) by simp
    qed
    show ?thesis unfolding S'_def [symmetric]
      by (rule rw_frame [OF assms(1) ok v(1) ro pc _ _ as])
        (use assms(3) ins rd(2) wake_read_locks [OF inv wa(1)] bk.wake_user [OF inv wa(1)] in \<open>simp_all add: ker\<close>)
  next
    case Nil
    obtain rq' k' where rel: "rw_release (rw_reader_waiters ?x) 0 (r_ker S) = (rq', length (rq S s), k')" "waiters_wf rq'" "waiting rq' = []"
      "sched_inv k'" "asleep k' = asleep (r_ker S) - set (rq S s)" "\<forall>j < 16. user k' j = user (r_ker S) j"
      "\<forall>j. p_rw_read_locks (pcbs k' ! j) = p_rw_read_locks (pcbs (r_ker S) ! j) + of_bool (j \<in> set (rq S s))"
      using rw_release_spec [OF q(2,4) inv q(6), of 0] by auto
    have ker: "r_ker S' = k'" and rs: "rws S' s = ?x\<lparr>rw_writer := None, rw_writer_waiters := rw_writer_waiters ?x,
        rw_reader_waiters := rq', rw_readers := length (rq S s)\<rparr>"
      using cur wr rwq.pop_empty [OF q(3) Nil] rel(1) rd(1) by (simp_all add: S'_def rwlock_write_unlock_def Let_def set_pc_def set_rw_def)
    have rin: "r_pc S i = R_wait s \<and> i < 16 \<and> i \<noteq> c" if "i \<in> set (rq S s)" for i
      using q(6) q(8) [OF that] that assms(3) by (auto simp: asleep_def)
    have "i \<in> r_inside S' s \<longleftrightarrow> i \<in> set (rq S s)" for i
      using rd(2) rin [of i] rel(3) by (auto simp: r_inside_def pc rs)
    then have ins: "r_inside S' s = set (rq S s)" by blast
    have "rw_queues S' s"
    proof (rule rw_queuesI)
      show "i \<in> set (rq S' s)" if "i \<in> asleep (r_ker S')" "r_pc S' i = R_wait s" for i
        using that q(10) [of i] rel(5) by (auto simp: ker pc split: if_splits)
      show "i \<in> set (wq S' s)" if "i \<in> asleep (r_ker S')" "r_pc S' i = W_wait s" for i
        using that q(11) [of i] rel(5) Nil by (auto simp: ker pc split: if_splits)
      show "r_pc S' i \<noteq> W_try s" if "i \<in> asleep (r_ker S')" for i using that q(12) [of i] rel(5) by (simp add: ker pc)
    qed (use q(1,3) rel(2,3) Nil in \<open>simp_all add: rs\<close>)
    moreover have "rw_counts S' s"
    proof (rule rw_countsI)
      show "rw_readers (rws S' s) = card (r_inside S' s)" using q(4) by (simp add: rs ins distinct_card)
      show "rw_writer (rws S' s) = Some i" if "i < 16" "r_pc S' i = W_in s" for i
        using only [of i] that by (auto simp: pc split: if_splits)
    qed (simp_all add: rs)
    moreover have "rw_live S' s" using Nil rel(3) by (simp add: rw_live_def rs)
    ultimately have ok: "rw_ok S' s" by (simp add: rw_ok_def)
    have as: "i \<in> asleep (r_ker S') \<longleftrightarrow> i \<in> asleep (r_ker S)" if "lock_of (r_pc S i) \<noteq> Some s" for i
    proof -
      have "i \<notin> set (rq S s)" using rin [of i] that by auto
      then show ?thesis unfolding ker rel(5) by simp
    qed
    show ?thesis unfolding S'_def [symmetric]
      by (rule rw_frame [OF assms(1) ok _ ro pc _ _ as]) (use assms(3) ins rd(2) rel(4,6,7) in \<open>simp_all add: ker\<close>)
  qed
qed

lemma rw_step_inv: "rw_step S S' \<Longrightarrow> rw_inv S \<Longrightarrow> rw_inv S'"
proof (induction rule: rw_step.induct)
  case (rw_kernel S k')
  then show ?case by (intro rw_kernel_inv)
next
  case (rw_read S c ptr)
  then show ?case by (intro rw_guard_inv) auto
next
  case (rw_write S c ptr)
  then show ?case by (intro rw_guard_inv) auto
next
  case (rw_read_starts S c s)
  then show ?case using rw_invD(8) by blast
next
  case (rw_write_starts S c s)
  then show ?case using rw_invD(8) by blast
next
  case (rw_read_again S c s)
  have "c < 16" using rw_read_again(1,3) bk.cur_bound [of "r_ker S" c] rw_invD(1) by (auto simp: runs_def)
  then have "user (r_ker S) c" using rw_invD(7) [OF rw_read_again(3)] rw_read_again(2) by force
  then show ?case using rw_read_again by (intro rw_read_try_inv) auto
next
  case (rw_write_again S c s)
  have "c < 16" using rw_write_again(1,3) bk.cur_bound [of "r_ker S" c] rw_invD(1) by (auto simp: runs_def)
  then have "user (r_ker S) c" using rw_invD(7) [OF rw_write_again(3)] rw_write_again(2) by force
  then show ?case using rw_write_again by (intro rw_write_try_inv) auto
next
  case (rw_read_back S c s)
  then show ?case by (intro rw_read_resume_inv)
next
  case (rw_write_back S c s)
  then show ?case by (intro rw_write_resume_inv)
next
  case (rw_read_done S c s)
  then show ?case by (intro rw_read_unlock_inv)
next
  case (rw_write_done S c s)
  then show ?case by (intro rw_write_unlock_inv)
qed



subsection \<open>Properties\<close>

definition rw_fresh :: rwlock where
  "rw_fresh = rwlock_init \<lparr>rw_readers = 0, rw_writer = None, rw_reader_waiters = (replicate 16 None, 0),
     rw_writer_waiters = (replicate 16 None, 0), rw_initialized = False\<rparr>"

text \<open>Every lock fresh, every process outside.\<close>

definition rw_start :: "sched \<Rightarrow> rw_sys" where
  "rw_start k = \<lparr>r_ker = k, rws = (\<lambda>_. rw_fresh), r_pc = (\<lambda>_. Out)\<rparr>"

lemma rw_fresh_facts [simp]:
  "rw_initialized rw_fresh" "waiters_wf (rw_reader_waiters rw_fresh)" "waiters_wf (rw_writer_waiters rw_fresh)"
  "waiting (rw_reader_waiters rw_fresh) = []" "waiting (rw_writer_waiters rw_fresh) = []" "rw_readers rw_fresh = 0" "rw_writer rw_fresh = None"
  by (simp_all add: rw_fresh_def rwlock_init_def waiters_wf_def waiting_def)


lemma rw_run_inv: "rw_step\<^sup>*\<^sup>* S S' \<Longrightarrow> rw_inv S \<Longrightarrow> rw_inv S'"
  by (induction rule: rtranclp_induct) (auto intro: rw_step_inv)


lemma proc1_read_locks: "i < 16 \<Longrightarrow> p_rw_read_locks (pcbs proc1_running ! i) = 0"
proof -
  have z: "j < 16 \<Longrightarrow> p_rw_read_locks (pcbs sched_boot ! j) = 0" for j
    by (simp add: sched_boot_fields process_init_def Let_def upd_pcb_def empty_pcb_def zero_pcb_def nth_list_update)
  assume "i < 16"
  then show ?thesis using z [of i] z [of 0] z [of 1] sched_invD(8) [OF sched_boot_inv] by (simp add: proc1_running_def pcbs_upd_pcb)
qed


subsection \<open>The window of the lazy initialisation\<close>

text \<open>A writer that has found the lock uninitialised gets in when it goes on, whatever has happened since.\<close>

lemma rw_lazy_enters:
  assumes "runs (r_ker S) c" "r_pc S c = W_start s"
  obtains S' where "rw_step\<^sup>*\<^sup>* S S'" "r_ker S' = r_ker S" "r_pc S' = (r_pc S)(c := W_in s)"
proof -
  have cur: "current (r_ker S) = Some c" using assms(1) by (simp add: runs_def)
  let ?T = "set_pc c (W_try s) (set_rw s (rwlock_init (rws S s)) S)"
  have "rw_step S (rw_lazy s (W_try s) S)" by (rule rw_write_starts [OF assms])
  then have s1: "rw_step S ?T" using cur by (simp add: rw_lazy_def)
  have s2: "rw_step ?T (rw_write_try s ?T)" by (rule rw_write_again [of _ c]) (use assms(1) in \<open>simp_all add: set_pc_def set_rw_def\<close>)
  have "rw_step\<^sup>*\<^sup>* S (rw_write_try s ?T)" using s1 s2 by (meson converse_rtranclp_into_rtranclp r_into_rtranclp)
  then show ?thesis using cur
    by (intro that [of "rw_write_try s ?T"]) (simp_all add: rw_write_try_def Let_def set_pc_def set_rw_def rwlock_init_def)
qed

lemma rw_ksteps: "kstep\<^sup>*\<^sup>* k k' \<Longrightarrow> rw_step\<^sup>*\<^sup>* (S\<lparr>r_ker := k\<rparr>) (S\<lparr>r_ker := k'\<rparr>)"
proof (induction rule: rtranclp_induct)
  case (step k' k'')
  have "rw_step (S\<lparr>r_ker := k'\<rparr>) (S\<lparr>r_ker := k'\<rparr>\<lparr>r_ker := k''\<rparr>)" by (rule rw_kernel) (use step(2) in simp)
  then show ?case using step(3) by (simp add: rtranclp.rtrancl_into_rtrancl)
qed simp

text \<open>Every lock as a static variable has it before its first use: all zero.\<close>

definition rw_static :: "sched \<Rightarrow> rw_sys" where
  "rw_static k = (rw_start k)\<lparr>rws := (\<lambda>_. rw_fresh\<lparr>rw_initialized := False\<rparr>)\<rparr>"

text \<open>
  no exclusion without \<^verbatim>\<open>rwlock_init\<close>. When a process calls \<^verbatim>\<open>rwlock_write_lock\<close> on a lock that
  nobody has initialised and the tick that ends its turn falls between the test of the flag and
  the initialisation, the next process and, later, the first one both write under the lock.
\<close>

theorem rw_lazy_init_race:
  assumes "sched_inv k" "runs k c" "user k c" "sq k = []" "p_priority (pcbs k ! c) = 0" "c < 15"
    "p_ticks_used (pcbs k ! c) + 1 < p_quantum_ticks (pcbs k ! c)" "p_state (pcbs k ! Suc c) = PROC_READY"
    "p_priority (pcbs k ! Suc c) = 0" "user k (Suc c)"
  shows "\<exists>S. rw_step\<^sup>*\<^sup>* (rw_static k) S \<and> r_pc S c = W_in s \<and> r_pc S (Suc c) = W_in s"
proof -
  let ?d = "Suc c"
  let ?A = "rw_static k" and ?B = "set_pc c (W_start s) (rw_static k)"
  have A: "r_ker ?A = k" "r_pc ?A = (\<lambda>_. Out)" "\<not> rw_initialized (rws ?A s)" by (simp_all add: rw_static_def rw_start_def)
  have cur: "current k = Some c" using assms(2) by (simp add: runs_def)
  have "rw_step ?A (rw_guard W_try W_start (Some s) ?A)" by (rule rw_write [of _ c]) (use A assms(2) in simp_all)
  then have s1: "rw_step ?A ?B" using A assms(3) cur by (simp add: rw_guard_def user_def)
  obtain k1 esp where d: "dispatch 0x9000 True k = (k1, esp)" by fastforce
  note t = tick_to_neighbour [OF assms(1-9) _ d, simplified]
  have k1: "kstep k k1" by (rule kdispatch [OF d])
  have inv1: "sched_inv k1" "user k1 ?d" using kstep_keeps(1) [OF k1 assms(1)] bk.step_user [OF assms(1) k1, of ?d] assms(6,10) by simp_all
  let ?C = "?B\<lparr>r_ker := k1\<rparr>" and ?D = "set_pc ?d (W_start s) (?B\<lparr>r_ker := k1\<rparr>)"
  have s2: "rw_step ?B ?C" by (rule rw_kernel) (use k1 A in \<open>simp add: set_pc_def\<close>)
  have C: "r_ker ?C = k1" "r_pc ?C = (\<lambda>_. Out)(c := W_start s)" "\<not> rw_initialized (rws ?C s)" using A by (simp_all add: set_pc_def)
  have "rw_step ?C (rw_guard W_try W_start (Some s) ?C)" by (rule rw_write [of _ ?d]) (use C t(1) in simp_all)
  then have s3: "rw_step ?C ?D" using C inv1(2) t(1) by (simp add: rw_guard_def user_def runs_def)
  obtain E where E: "rw_step\<^sup>*\<^sup>* ?D E" "r_ker E = k1" "r_pc E = (r_pc ?D)(?d := W_in s)"
    using rw_lazy_enters [of ?D ?d s] t(1) C by (auto simp: set_pc_def)
  obtain k2 where k2: "kstep\<^sup>*\<^sup>* k1 k2" "runs k2 c"
    by (rule ticks_reach [OF inv1(1) t(1) [unfolded runs_def, THEN conjunct1] _ _ t(2,3)]) (use assms(6) in simp_all)
  let ?F = "E\<lparr>r_ker := k2\<rparr>"
  have "rw_step\<^sup>*\<^sup>* (E\<lparr>r_ker := k1\<rparr>) ?F" by (rule rw_ksteps [OF k2(1)])
  then have s4: "rw_step\<^sup>*\<^sup>* E ?F" by (simp flip: E(2))
  have pcF: "r_pc ?F c = W_start s" using E(3) by (simp add: set_pc_def)
  obtain G where G: "rw_step\<^sup>*\<^sup>* ?F G" "r_pc G = (r_pc ?F)(c := W_in s)"
    using rw_lazy_enters [of ?F c s] k2(2) pcF by auto
  have "rw_step\<^sup>*\<^sup>* ?A G"
    using s1 s2 s3 E(1) s4 G(1) by (meson converse_rtranclp_into_rtranclp rtranclp_trans)
  moreover have "r_pc G c = W_in s \<and> r_pc G ?d = W_in s" using G(2) E(3) by simp
  ultimately show ?thesis by blast
qed

theorem rw_lazy_init_race_witness:
  "\<exists>S. rw_step\<^sup>*\<^sup>* (rw_static race_ker) S \<and> r_pc S 1 = W_in 0 \<and> r_pc S 2 = W_in 0"
  using rw_lazy_init_race [OF race_ker_facts, of 0] by (simp add: numeral_2_eq_2)

subsection \<open>Waiting\<close>

text \<open>
  no process waits for a lock nobody will release. A blocked writer waits behind a writer, a
  reader, or a writer that was just woken; a blocked reader waits behind a writer, a queued
  writer, or a woken one; the woken ones are able to run; and every process that is blocked in a
  lock operation is in the queue of that lock. This holds in every state reached from one of the
  invariant, which the state with fresh locks satisfies.
\<close>

theorem rw_no_lost_wakeup:
  assumes "rw_inv I" "rw_step\<^sup>*\<^sup>* I S" "i \<in> asleep (r_ker S)"
  shows "(r_pc S i = W_wait s \<longrightarrow> i \<in> set (wq S s) \<and> (rw_writer (rws S s) \<noteq> None \<or> 0 < rw_readers (rws S s) \<or> w_pending S s \<noteq> {}))
     \<and> (r_pc S i = R_wait s \<longrightarrow> i \<in> set (rq S s) \<and> (rw_writer (rws S s) \<noteq> None \<or> wq S s \<noteq> [] \<or> w_pending S s \<noteq> {}))
     \<and> w_pending S s \<inter> asleep (r_ker S) = {}"
proof -
  have inv: "rw_inv S" by (rule rw_run_inv [OF assms(2,1)])
  note q = rw_queuesD [OF rw_invD(3) [OF inv, of s]]
  have l: "rw_live S s" using rw_invD(5) [OF inv] .
  have "i \<in> set (wq S s) \<and> wq S s \<noteq> []" if "r_pc S i = W_wait s" using q(11) [OF assms(3) that] by auto
  moreover have "i \<in> set (rq S s) \<and> rq S s \<noteq> []" if "r_pc S i = R_wait s" using q(10) [OF assms(3) that] by auto
  moreover have "w_pending S s \<inter> asleep (r_ker S) = {}" using q(11,12) by (auto simp: w_pending_def)
  ultimately show ?thesis using l unfolding rw_live_def by metis
qed

text \<open>
  a waiting writer can be overtaken. When the last reader leaves, the writer at the head of
  the queue is taken out of it and woken but does not own the lock; a reader that comes before
  it has run (the one that just left, for instance) finds no writer waiting and is let in.
\<close>

theorem rw_writer_overtaken:
  assumes "rw_inv S" "runs (r_ker S) c" "user (r_ker S) c" "r_pc S c = R_in s" "rw_readers (rws S s) = 1" "wq S s = [w]"
    and "S' = rwlock_read_lock (Some s) (rwlock_read_unlock (Some s) S)"
  shows "r_pc S' c = R_in s \<and> r_pc S' w = W_wait s \<and> wq S' s = [] \<and> rw_writer (rws S' s) = None \<and> rw_readers (rws S' s) = 1"
proof -
  have inv: "sched_inv (r_ker S)" by (rule rw_invD(1) [OF assms(1)])
  have cur: "current (r_ker S) = Some c" using assms(2) by (simp add: runs_def)
  have c: "c < 16" using bk.cur_bound [OF inv cur] .
  note q = rw_queuesD [OF rw_invD(3) [OF assms(1), of s]] and d = rw_countsD [OF rw_invD(4) [OF assms(1), of s]]
  have wn: "rw_writer (rws S s) = None" using d(4) assms(5) by (cases "rw_writer (rws S s)") auto
  have "c \<in> r_inside S s" using c assms(4) by (simp add: r_inside_def)
  then have lk: "p_rw_read_locks (pcbs (r_ker S) ! c) = 1" using rw_invD(6) [OF assms(1) c] by auto
  have wp: "r_pc S w = W_wait s" "w \<noteq> c" using q(9) [of w] assms(4,6) by auto
  obtain y where pop: "rw_pop (rw_writer_waiters (rws S s)) = (y, Some w)" "waiting y = []" "waiters_wf y"
    using rwq.pop_head [OF q(3) assms(6)] rwq.pop_wf [OF q(3)] by (cases "rw_pop (rw_writer_waiters (rws S s))") auto
  define k1 where "k1 = scheduler_wake (Some w) (upd_pcb c (\<lambda>p. p\<lparr>p_rw_read_locks := p_rw_read_locks p - 1\<rparr>) (r_ker S))"
  define S1 where "S1 = rwlock_read_unlock (Some s) S"
  have S1: "S1 = set_rw s (rws S s\<lparr>rw_readers := 0, rw_writer_waiters := y\<rparr>) (set_pc c Out S\<lparr>r_ker := k1\<rparr>)"
    using cur lk wn pop(1) assms(5) by (simp add: S1_def rwlock_read_unlock_def Let_def k1_def set_pc_def)
  have "w \<in> asleep (r_ker S)" using q(7) assms(6) by simp
  then have wne: "w < 16" by (simp add: asleep_def)
  have cur1: "current k1 = Some c" using cur by (simp add: k1_def scheduler_wake_def)
  have "p_pid (pcbs k1 ! c) = p_pid (pcbs (r_ker S) ! c)"
    using wp(2) c wne sched_invD(8) [OF inv] by (simp add: k1_def scheduler_wake_def pcbs_upd_pcb)
  then have u1: "p_pid (pcbs k1 ! c) \<noteq> 0" using assms(3) by (simp add: user_def)
  have "snd y = 0" using length_waiting [OF pop(3)] pop(2) by simp
  then show ?thesis
    unfolding assms(7) S1_def [symmetric] S1 using cur1 u1 q(1) wn wp pop(2)
    by (simp add: rwlock_read_lock_def rw_enter_def rw_read_try_def Let_def set_pc_def set_rw_def)
qed

text \<open>Process 1 reads under lock 0 and runs; process 2 is blocked as a writer.\<close>

definition overtake_ker :: sched where
  "overtake_ker = upd_pcb 2 (\<lambda>p. p\<lparr>p_pid := 2, p_state := PROC_BLOCKED\<rparr>) (read_locks_plus 1 proc1_running)"

definition overtake_start :: rw_sys where
  "overtake_start = \<lparr>r_ker = overtake_ker,
     rws = (\<lambda>_. rw_fresh)(0 := rw_fresh\<lparr>rw_readers := 1, rw_writer_waiters := rw_add 2 (rw_writer_waiters rw_fresh)\<rparr>),
     r_pc = (\<lambda>_. Out)(1 := R_in 0, 2 := W_wait 0)\<rparr>"

lemma overtake_ker_facts:
  "sched_inv overtake_ker" "asleep overtake_ker = {2}" "runs overtake_ker 1" "user overtake_ker 1" "user overtake_ker 2"
  "i < 16 \<Longrightarrow> p_rw_read_locks (pcbs overtake_ker ! i) = of_bool (i = 1)"
proof -
  let ?k = "read_locks_plus 1 proc1_running" and ?f = "\<lambda>p. p\<lparr>p_pid := 2, p_state := PROC_BLOCKED\<rparr>"
  note k = read_locks_plus_keeps [OF proc1_running_facts(1), of 1]
  have inv: "sched_inv ?k" using k(1) by simp
  have sq: "sq ?k = []" using proc1_running_facts(5) by (simp add: read_locks_plus_def sq_def upd_pcb_def)
  have c: "current ?k = Some 1" using k(5) proc1_running_facts(2) by simp
  note u = upd_blocked [where f = ?f and i = 2, OF inv _ _ _ sq, folded overtake_ker_def]
  have pr: "p_priority (?f (pcbs ?k ! 2)) < 3" using sched_invD(2) [OF inv, of 2] by simp
  show "sched_inv overtake_ker" by (rule u(1)) (use c pr in simp_all)
  have as: "asleep overtake_ker = insert 2 (asleep ?k)" by (rule u(2)) (use c pr in simp_all)
  then show "asleep overtake_ker = {2}" using k(2) proc1_asleep by simp
  have r: "runs overtake_ker j = runs ?k j" for j by (rule u(5)) (use c pr in simp_all)
  then show "runs overtake_ker 1" using k(3) proc1_runs by simp
  have us: "user overtake_ker j = (if j = 2 then p_pid (?f (pcbs ?k ! 2)) \<noteq> 0 else user ?k j)" for j
    by (rule u(6)) (use c pr in simp_all)
  show "user overtake_ker 1" using us [of 1] k(4) proc1_runs by simp
  show "user overtake_ker 2" using us [of 2] by simp
  have p: "pcbs overtake_ker ! j = (if j = 2 then ?f (pcbs ?k ! 2) else pcbs ?k ! j)" for j
    by (rule u(7)) (use c pr in simp_all)
  show "i < 16 \<Longrightarrow> p_rw_read_locks (pcbs overtake_ker ! i) = of_bool (i = 1)"
    using k(6) [of i] k(6) [of 2] proc1_read_locks [of i] proc1_read_locks [of 2] by (auto simp: p)
qed

lemma overtake_start_inv: "rw_inv overtake_start" "wq overtake_start 0 = [2]"
proof -
  have q: "waiting (rw_add 2 (rw_writer_waiters rw_fresh)) = [2]" "waiters_wf (rw_add 2 (rw_writer_waiters rw_fresh))"
    using rwq.add_new [of "rw_writer_waiters rw_fresh" 2] rwq.add_wf [of "rw_writer_waiters rw_fresh" 2] by simp_all
  have pc: "r_pc overtake_start i = (if i = 1 then R_in 0 else if i = 2 then W_wait 0 else Out)" for i by (simp add: overtake_start_def)
  have rs: "rws overtake_start s = (if s = 0 then rw_fresh\<lparr>rw_readers := 1, rw_writer_waiters := rw_add 2 (rw_writer_waiters rw_fresh)\<rparr> else rw_fresh)" for s
    by (simp add: overtake_start_def)
  have ker: "r_ker overtake_start = overtake_ker" by (simp add: overtake_start_def)
  show "wq overtake_start 0 = [2]" by (simp add: rs q)
  have ins: "r_inside overtake_start s = (if s = 0 then {1} else {})" for s by (auto simp: r_inside_def pc rs)
  have "rw_queues overtake_start s" for s
    by (rule rw_queuesI) (use overtake_ker_facts(2) q in \<open>auto simp: rs pc ker split: if_splits\<close>)
  moreover have "rw_counts overtake_start s" for s by (rule rw_countsI) (auto simp: rs pc ins split: if_splits)
  moreover have "rw_live overtake_start s" for s by (simp add: rw_live_def rs)
  ultimately have "rw_ok overtake_start s" for s by (simp add: rw_ok_def)
  moreover have "r_pc overtake_start i = Out" if "\<not> user overtake_ker i" for i using that overtake_ker_facts(4,5) by (auto simp: pc)
  ultimately show "rw_inv overtake_start"
    using overtake_ker_facts(1,6) pc by (auto simp: rw_inv_def ker ins)
qed

theorem rw_writer_overtaken_witness:
  "r_pc (rwlock_read_lock (Some 0) (rwlock_read_unlock (Some 0) overtake_start)) 1 = R_in 0
     \<and> r_pc (rwlock_read_lock (Some 0) (rwlock_read_unlock (Some 0) overtake_start)) 2 = W_wait 0"
  using rw_writer_overtaken [OF overtake_start_inv(1) _ _ _ _ overtake_start_inv(2) refl, of 1] overtake_ker_facts(3,4)
  by (simp add: overtake_start_def)

theorem rw_no_lost_wakeup_witness:
  "2 \<in> asleep (r_ker overtake_start) \<and> r_pc overtake_start 2 = W_wait 0 \<and> 2 \<in> set (wq overtake_start 0)
     \<and> w_pending overtake_start 0 \<inter> asleep (r_ker overtake_start) = {}"
proof -
  have "2 \<in> asleep (r_ker overtake_start)" "r_pc overtake_start 2 = W_wait 0"
    using overtake_ker_facts(2) by (simp_all add: overtake_start_def)
  then show ?thesis using rw_no_lost_wakeup [OF overtake_start_inv(1) rtranclp.rtrancl_refl, of 2 0] by simp
qed

end
