(* ===== verification/Mutex.thy ===== *)
theory Mutex
  imports Blocking
begin

text \<open>
  The blocking mutex of \<^verbatim>\<open>kernel/mutex.c\<close>, with its registry, the list of mutexes a process
  owns and priority inheritance. A mutex is named by a number, a null pointer by \<open>None\<close>. For the
  interleavings \<open>mutex_lock\<close> is cut into steps wherever another process may run: the guards and
  the test of the initialised flag (\<open>mutex_enter\<close>), the lazy initialisation (\<open>mutex_lazy\<close>), the
  test whether the caller is the owner (\<open>mutex_owned\<close>), an attempt with interrupts off
  (\<open>mutex_try\<close>), and what follows its \<^verbatim>\<open>thread_yield\<close> when the process runs again
  (\<open>mutex_resume\<close>). The test in front of \<open>mutex_unlock\<close> and the one behind the yield stay with
  what follows them: whether the owner is the caller is changed by the caller alone.
\<close>

abbreviation MUTEX_MAX_OWNERS :: nat where "MUTEX_MAX_OWNERS \<equiv> 4"
abbreviation MUTEX_REGISTRY_SIZE :: nat where "MUTEX_REGISTRY_SIZE \<equiv> 32"

record mutex =
  m_locked :: bool
  m_initialized :: bool
  m_owner :: "nat option"
  m_waiters :: "nat option list"
  m_waiter_count :: nat

record mutex_sys =
  m_ker :: sched
  mutexes :: "nat \<Rightarrow> mutex"
  m_registry :: "nat option list"
  m_registry_used :: nat
  m_pc :: "nat \<Rightarrow> lock_pc"
  m_holds :: "nat \<Rightarrow> nat set"

abbreviation m_array :: "mutex \<Rightarrow> waiters" where
  "m_array m \<equiv> (m_waiters m, m_waiter_count m)"

abbreviation m_pcb :: "mutex_sys \<Rightarrow> nat \<Rightarrow> pcb" where
  "m_pcb S i \<equiv> pcbs (m_ker S) ! i"

definition mutex_waitq_add :: "nat \<Rightarrow> mutex \<Rightarrow> mutex \<times> bool" where
  "mutex_waitq_add p m =
     (if 16 \<le> m_waiter_count m then (m, False)
      else if in_waiters p (m_array m) then (m, True)
      else let (a, n) = push_waiter p (m_array m) in (m\<lparr>m_waiters := a, m_waiter_count := n\<rparr>, True))"

definition mutex_waitq_pop :: "mutex \<Rightarrow> mutex \<times> nat option" where
  "mutex_waitq_pop m =
     (case pop_waiter (m_array m) of ((a, n), p) \<Rightarrow> (m\<lparr>m_waiters := a, m_waiter_count := n\<rparr>, p))"

definition owner_add :: "nat \<Rightarrow> pcb \<Rightarrow> pcb" where
  "owner_add m p =
     (if MUTEX_MAX_OWNERS \<le> p_owned_mutexes p then p
      else if scan (\<lambda>i. p_owned_mutex_list p ! i = Some m) 0 (p_owned_mutexes p) \<noteq> None then p
      else p\<lparr>p_owned_mutex_list := (p_owned_mutex_list p)[p_owned_mutexes p := Some m], p_owned_mutexes := p_owned_mutexes p + 1\<rparr>)"

definition owner_remove :: "nat \<Rightarrow> pcb \<Rightarrow> pcb" where
  "owner_remove m p =
     (case scan (\<lambda>i. p_owned_mutex_list p ! i = Some m) 0 (p_owned_mutexes p) of
        None \<Rightarrow> p
      | Some i \<Rightarrow> p\<lparr>p_owned_mutex_list := (shift_down (p_owned_mutex_list p) i (p_owned_mutexes p))[p_owned_mutexes p - 1 := None],
                   p_owned_mutexes := p_owned_mutexes p - 1\<rparr>)"

text \<open>The two nested loops of \<^verbatim>\<open>recompute_priority\<close>, on the priority computed so far.\<close>

definition inherit_from :: "(nat \<Rightarrow> pcb) \<Rightarrow> mutex \<Rightarrow> u8 \<Rightarrow> u8" where
  "inherit_from pcb m pr = fold (\<lambda>j pr. case m_waiters m ! j of
       None \<Rightarrow> pr
     | Some w \<Rightarrow> if p_priority (pcb w) < pr then p_priority (pcb w) else pr) [0..<m_waiter_count m] pr"

text \<open>The process's own priority is, inside the loops, the one computed so far.\<close>

definition recompute_priority :: "nat \<Rightarrow> mutex_sys \<Rightarrow> mutex_sys" where
  "recompute_priority i S =
     (let p = m_pcb S i;
          pr = fold (\<lambda>n pr. case p_owned_mutex_list p ! n of
                 None \<Rightarrow> pr
               | Some m \<Rightarrow> inherit_from (\<lambda>w. if w = i then p\<lparr>p_priority := pr\<rparr> else m_pcb S w) (mutexes S m) pr)
               [0..<p_owned_mutexes p] (p_base_priority p)
      in S\<lparr>m_ker := upd_pcb i (\<lambda>p. p\<lparr>p_priority := pr\<rparr>) (m_ker S)\<rparr>)"

fun propagate_loop :: "nat \<Rightarrow> nat \<Rightarrow> mutex_sys \<Rightarrow> mutex_sys" where
  "propagate_loop 0 i S = S"
| "propagate_loop (Suc guard) i S =
     (case p_waiting_mutex (m_pcb S i) of
        None \<Rightarrow> S
      | Some m \<Rightarrow>
          (case m_owner (mutexes S m) of
             None \<Rightarrow> S
           | Some ow \<Rightarrow>
               if p_priority (m_pcb S ow) \<le> p_priority (m_pcb S i) then S
               else propagate_loop guard ow
                 (S\<lparr>m_ker := upd_pcb ow (\<lambda>p. p\<lparr>p_priority := p_priority (m_pcb S i)\<rparr>) (m_ker S)\<rparr>)))"

definition propagate_priority :: "nat \<Rightarrow> mutex_sys \<Rightarrow> mutex_sys" where
  "propagate_priority i S = propagate_loop MAX_PROCESSES i S"

definition mutex_clear :: "mutex \<Rightarrow> mutex" where
  "mutex_clear m = m\<lparr>m_locked := False, m_initialized := True, m_owner := None, m_waiter_count := 0,
     m_waiters := replicate 16 None\<rparr>"

definition mutex_init :: "nat option \<Rightarrow> mutex_sys \<Rightarrow> mutex_sys" where
  "mutex_init ptr S =
     (case ptr of
        None \<Rightarrow> S
      | Some m \<Rightarrow>
          let S1 = S\<lparr>mutexes := (mutexes S)(m := mutex_clear (mutexes S m))\<rparr> in
          if scan (\<lambda>i. m_registry S ! i = Some m) 0 (m_registry_used S) \<noteq> None then S1
          else if m_registry_used S < MUTEX_REGISTRY_SIZE
          then S1\<lparr>m_registry := (m_registry S)[m_registry_used S := Some m], m_registry_used := m_registry_used S + 1\<rparr>
          else S1)"

definition mutex_registry_get :: "nat \<Rightarrow> mutex_sys \<Rightarrow> nat option" where
  "mutex_registry_get i S = (if i < m_registry_used S then m_registry S ! i else None)"

definition mutex_is_locked :: "nat option \<Rightarrow> mutex_sys \<Rightarrow> bool" where
  "mutex_is_locked ptr S = (case ptr of None \<Rightarrow> False | Some m \<Rightarrow> m_locked (mutexes S m))"

definition m_upd :: "nat \<Rightarrow> (pcb \<Rightarrow> pcb) \<Rightarrow> mutex_sys \<Rightarrow> mutex_sys" where
  "m_upd i f S = S\<lparr>m_ker := upd_pcb i f (m_ker S)\<rparr>"

definition m_at :: "nat \<Rightarrow> lock_pc \<Rightarrow> mutex_sys \<Rightarrow> mutex_sys" where
  "m_at c l S = S\<lparr>m_pc := (m_pc S)(c := l)\<rparr>"

definition m_take :: "nat \<Rightarrow> nat \<Rightarrow> mutex_sys \<Rightarrow> mutex_sys" where
  "m_take c m S = S\<lparr>m_holds := (m_holds S)(c := insert m (m_holds S c))\<rparr>"

definition m_drop :: "nat \<Rightarrow> nat \<Rightarrow> mutex_sys \<Rightarrow> mutex_sys" where
  "m_drop c m S = S\<lparr>m_holds := (m_holds S)(c := m_holds S c - {m})\<rparr>"

text \<open>Priority inheritance: the owner gets the priority of a more urgent process that is about to wait.\<close>

definition boost :: "nat \<Rightarrow> nat \<Rightarrow> mutex_sys \<Rightarrow> mutex_sys" where
  "boost cur m S1 =
     (case m_owner (mutexes S1 m) of
        Some ow \<Rightarrow> if p_priority (m_pcb S1 cur) < p_priority (m_pcb S1 ow)
                   then propagate_priority ow (m_upd ow (\<lambda>p. p\<lparr>p_priority := p_priority (m_pcb S1 cur)\<rparr>) S1)
                   else S1
      | None \<Rightarrow> S1)"

definition mutex_try :: "nat \<Rightarrow> mutex_sys \<Rightarrow> mutex_sys" where
  "mutex_try m S =
     (case current (m_ker S) of
        None \<Rightarrow> S
      | Some cur \<Rightarrow>
          let x = mutexes S m in
          if \<not> m_locked x then
            m_take cur m (m_at cur Outside
              (m_upd cur (owner_add m) (S\<lparr>mutexes := (mutexes S)(m := x\<lparr>m_locked := True, m_owner := Some cur\<rparr>)\<rparr>)))
          else
            (case mutex_waitq_add cur x of
               (x1, False) \<Rightarrow> m_at cur (Trying m) S
             | (x1, True) \<Rightarrow>
                 let S1 = m_upd cur (\<lambda>p. p\<lparr>p_waiting_mutex := Some m\<rparr>) (S\<lparr>mutexes := (mutexes S)(m := x1)\<rparr>);
                     S2 = boost cur m S1
                 in m_at cur (Waiting m) (S2\<lparr>m_ker := scheduler_block_forever (m_ker S2)\<rparr>)))"

text \<open>The call up to its first attempt, when nobody else runs in between.\<close>

definition mutex_lock :: "nat option \<Rightarrow> mutex_sys \<Rightarrow> mutex_sys" where
  "mutex_lock ptr S =
     (case ptr of
        None \<Rightarrow> S
      | Some m \<Rightarrow>
          (case current (m_ker S) of
             None \<Rightarrow> S
           | Some cur \<Rightarrow>
               if p_pid (m_pcb S cur) = 0 then S
               else
                 let S1 = (if m_initialized (mutexes S m) then S else mutex_init (Some m) S)
                 in if m_owner (mutexes S1 m) = Some cur then S1 else mutex_try m S1))"

text \<open>The same lines one by one, with interrupts on: the guards and the test of the flag,\<close>

definition mutex_enter :: "nat option \<Rightarrow> mutex_sys \<Rightarrow> mutex_sys" where
  "mutex_enter ptr S =
     (case ptr of
        None \<Rightarrow> S
      | Some m \<Rightarrow>
          (case current (m_ker S) of
             None \<Rightarrow> S
           | Some cur \<Rightarrow>
               if p_pid (m_pcb S cur) = 0 then S
               else m_at cur (if m_initialized (mutexes S m) then Entering m else Starting m) S))"

text \<open>the initialisation, by a process that has found the flag clear (it may be set by now),\<close>

definition mutex_lazy :: "nat \<Rightarrow> mutex_sys \<Rightarrow> mutex_sys" where
  "mutex_lazy m S =
     (case current (m_ker S) of None \<Rightarrow> S | Some cur \<Rightarrow> m_at cur (Entering m) (mutex_init (Some m) S))"

text \<open>and the return of a caller that is the owner already.\<close>

definition mutex_owned :: "nat \<Rightarrow> mutex_sys \<Rightarrow> mutex_sys" where
  "mutex_owned m S =
     (case current (m_ker S) of
        None \<Rightarrow> S
      | Some cur \<Rightarrow> m_at cur (if m_owner (mutexes S m) = Some cur then Outside else Trying m) S)"

definition mutex_resume :: "nat \<Rightarrow> mutex_sys \<Rightarrow> mutex_sys" where
  "mutex_resume m S =
     (case current (m_ker S) of
        None \<Rightarrow> S
      | Some cur \<Rightarrow>
          if m_owner (mutexes S m) = Some cur
          then m_take cur m (m_at cur Outside (m_upd cur (\<lambda>p. p\<lparr>p_waiting_mutex := None\<rparr>) S))
          else m_at cur (Trying m) S)"

definition mutex_unlock :: "nat option \<Rightarrow> mutex_sys \<Rightarrow> mutex_sys" where
  "mutex_unlock ptr S =
     (case ptr of
        None \<Rightarrow> S
      | Some m \<Rightarrow>
          (case current (m_ker S) of
             None \<Rightarrow> S
           | Some cur \<Rightarrow>
               if m_owner (mutexes S m) \<noteq> Some cur then S
               else
                 let S1 = m_drop cur m (m_upd cur (owner_remove m) S) in
                 case mutex_waitq_pop (mutexes S m) of
                   (x, Some next) \<Rightarrow>
                     let S2 = m_upd next (\<lambda>p. owner_add m (p\<lparr>p_waiting_mutex := None\<rparr>))
                                (S1\<lparr>mutexes := (mutexes S)(m := x\<lparr>m_locked := True, m_owner := Some next\<rparr>)\<rparr>)
                     in recompute_priority cur (S2\<lparr>m_ker := scheduler_wake (Some next) (m_ker S2)\<rparr>)
                 | (x, None) \<Rightarrow>
                     recompute_priority cur (S1\<lparr>mutexes := (mutexes S)(m := x\<lparr>m_locked := False, m_owner := None\<rparr>)\<rparr>)))"

subsection \<open>The wait queue\<close>

interpretation mq: wait_queue "\<lambda>m. waiters_wf (m_array m)" "\<lambda>m. waiting (m_array m)" "\<lambda>p m. fst (mutex_waitq_add p m)" mutex_waitq_pop
proof (unfold_locales, goal_cases)
  case (1 q)
  then show ?case by (simp add: waiters_wf_def waiting_def)
next
  case (2 q p)
  then show ?case using push_waiter_spec(1) [of "m_array q" p] by (auto simp: mutex_waitq_add_def Let_def split_def)
next
  case (3 q p)
  then show ?case using push_waiter_spec(2) [of "m_array q" p] in_waiters_iff [of "m_array q" p]
    by (auto simp: mutex_waitq_add_def Let_def split_def)
next
  case (4 q p)
  then show ?case using in_waiters_iff [of "m_array q" p] by (simp add: mutex_waitq_add_def)
next
  case (5 q)
  then show ?case using pop_waiter_spec(1) [of "m_array q"] by (simp add: mutex_waitq_pop_def split_def)
next
  case (6 q)
  then show ?case using pop_waiter_spec(2) [of "m_array q"] by (simp add: mutex_waitq_pop_def split_def)
next
  case (7 q x xs)
  then show ?case using pop_waiter_spec(3) [of "m_array q" x xs] by (simp add: mutex_waitq_pop_def split_def)
qed

lemma mutex_queue_fields [simp]:
  "m_owner (fst (mutex_waitq_add p m)) = m_owner m" "m_locked (fst (mutex_waitq_add p m)) = m_locked m"
  "m_initialized (fst (mutex_waitq_add p m)) = m_initialized m"
  "m_owner (fst (mutex_waitq_pop m)) = m_owner m" "m_locked (fst (mutex_waitq_pop m)) = m_locked m"
  "m_initialized (fst (mutex_waitq_pop m)) = m_initialized m"
  by (simp_all add: mutex_waitq_add_def mutex_waitq_pop_def Let_def split_def)

subsection \<open>Steps that only tune PCBs\<close>

text \<open>
  Bookkeeping of owned mutexes and of priorities changes no state, no pid and no base priority, so
  neither the scheduler nor another process sees a difference but in the order of dispatch.
\<close>

definition tuned :: "mutex_sys \<Rightarrow> mutex_sys \<Rightarrow> bool" where
  "tuned S S' \<longleftrightarrow> mutexes S' = mutexes S \<and> m_pc S' = m_pc S \<and> m_holds S' = m_holds S \<and> m_registry S' = m_registry S
     \<and> m_registry_used S' = m_registry_used S \<and> sched_inv (m_ker S') \<and> asleep (m_ker S') = asleep (m_ker S)
     \<and> runs (m_ker S') = runs (m_ker S) \<and> current (m_ker S') = current (m_ker S) \<and> (\<forall>i. user (m_ker S') i = user (m_ker S) i)
     \<and> (\<forall>i. p_base_priority (m_pcb S' i) = p_base_priority (m_pcb S i))"

lemma tunedD:
  assumes "tuned S S'"
  shows "mutexes S' = mutexes S" "m_pc S' = m_pc S" "m_holds S' = m_holds S" "sched_inv (m_ker S')" "asleep (m_ker S') = asleep (m_ker S)"
    "runs (m_ker S') = runs (m_ker S)" "current (m_ker S') = current (m_ker S)" "user (m_ker S') i = user (m_ker S) i"
    "p_base_priority (m_pcb S' i) = p_base_priority (m_pcb S i)"
  using assms by (simp_all add: tuned_def)

lemma tuned_refl: "sched_inv (m_ker S) \<Longrightarrow> tuned S S"
  by (simp add: tuned_def)

lemma tuned_trans: "tuned S T \<Longrightarrow> tuned T R \<Longrightarrow> tuned S R"
  by (simp add: tuned_def)

lemma tuned_upd:
  assumes "sched_inv (m_ker S)" "i < 16"
    "\<And>p. p_state (f p) = p_state p" "\<And>p. p_wake_tick (f p) = p_wake_tick p" "\<And>p. p_pid (f p) = p_pid p"
    "\<And>p. p_base_priority (f p) = p_base_priority p"
    "p_priority (f (m_pcb S i)) \<le> p_priority (m_pcb S i) \<or> p_priority (f (m_pcb S i)) < 3 \<and> i \<noteq> 0"
  shows "tuned S (m_upd i f S)"
proof -
  note n = upd_neutral [where f = f, OF assms(1,2,3,4,5,7)]
  show ?thesis
    using assms(2,6) sched_invD(8) [OF assms(1)] n by (simp add: tuned_def m_upd_def pcbs_upd_pcb)
qed

lemma owner_fields [simp]:
  "p_state (owner_add m p) = p_state p" "p_wake_tick (owner_add m p) = p_wake_tick p" "p_pid (owner_add m p) = p_pid p"
  "p_base_priority (owner_add m p) = p_base_priority p" "p_priority (owner_add m p) = p_priority p"
  "p_state (owner_remove m p) = p_state p" "p_wake_tick (owner_remove m p) = p_wake_tick p" "p_pid (owner_remove m p) = p_pid p"
  "p_base_priority (owner_remove m p) = p_base_priority p" "p_priority (owner_remove m p) = p_priority p"
  "p_waiting_mutex (owner_add m p) = p_waiting_mutex p" "p_waiting_mutex (owner_remove m p) = p_waiting_mutex p"
  by (simp_all add: owner_add_def owner_remove_def split: option.splits)

lemma tuned_propagate:
  assumes "sched_inv (m_ker S)" "\<And>m i. m_owner (mutexes S m) = Some i \<Longrightarrow> i < 16"
  shows "tuned S (propagate_loop g i S)"
  using assms
proof (induction g i S rule: propagate_loop.induct)
  case (1 i S)
  then show ?case by (simp add: tuned_refl)
next
  case (2 g i S)
  show ?case
  proof (cases "\<exists>m ow. p_waiting_mutex (m_pcb S i) = Some m \<and> m_owner (mutexes S m) = Some ow \<and> \<not> p_priority (m_pcb S ow) \<le> p_priority (m_pcb S i)")
    case True
    then obtain m ow where m: "p_waiting_mutex (m_pcb S i) = Some m" "m_owner (mutexes S m) = Some ow" "\<not> p_priority (m_pcb S ow) \<le> p_priority (m_pcb S i)"
      by blast
    let ?T = "m_upd ow (\<lambda>p. p\<lparr>p_priority := p_priority (m_pcb S i)\<rparr>) S"
    have "p_priority (m_pcb S i) \<le> p_priority (m_pcb S ow)" using m(3) by simp
    then have t: "tuned S ?T" by (intro tuned_upd [OF "2.prems"(1) "2.prems"(2) [OF m(2)]]) simp_all
    have "tuned ?T (propagate_loop g ow ?T)"
      using "2.IH" [OF m(1,2,3), folded m_upd_def] tunedD(1,4) [OF t] "2.prems"(2) by simp
    moreover have "propagate_loop (Suc g) i S = propagate_loop g ow ?T" using m by (simp add: m_upd_def)
    ultimately show ?thesis using t tuned_trans by metis
  next
    case False
    then have "propagate_loop (Suc g) i S = S" by (auto split: option.splits)
    then show ?thesis using "2.prems"(1) by (simp add: tuned_refl)
  qed
qed

subsection \<open>Priorities\<close>

lemma fold_upt_nth: "n \<le> length xs \<Longrightarrow> fold (\<lambda>j. g (xs ! j)) [0..<n] a = fold g (take n xs) a"
  by (induction n) (simp_all add: take_Suc_conv_app_nth)

text \<open>The inner loop takes the minimum over the queue.\<close>

lemma inherit_from_min:
  assumes "waiters_wf (m_array m)"
  shows "inherit_from pcb m pr = fold (\<lambda>w. min (p_priority (pcb w))) (waiting (m_array m)) pr"
proof -
  let ?g = "\<lambda>e (pr :: u8). case e of None \<Rightarrow> pr | Some w \<Rightarrow> if p_priority (pcb w) < pr then p_priority (pcb w) else pr"
  have "inherit_from pcb m pr = fold ?g (take (m_waiter_count m) (m_waiters m)) pr"
    unfolding inherit_from_def using assms fold_upt_nth [of "m_waiter_count m" "m_waiters m" ?g pr] by (simp add: waiters_wf_def)
  also have "take (m_waiter_count m) (m_waiters m) = map Some (waiting (m_array m))" using waiters_some [OF assms] by simp
  also have "fold ?g (map Some (waiting (m_array m))) pr = fold (\<lambda>w. min (p_priority (pcb w))) (waiting (m_array m)) pr"
    unfolding fold_map by (rule fold_cong) (auto simp: min_def fun_eq_iff)
  finally show ?thesis .
qed

lemma fold_min_bounds:
  fixes pr :: u8
  shows "fold (\<lambda>w. min (f w)) ws pr \<le> pr" "w \<in> set ws \<Longrightarrow> fold (\<lambda>w. min (f w)) ws pr \<le> f w"
    "fold (\<lambda>w. min (f w)) ws pr = pr \<or> (\<exists>w \<in> set ws. fold (\<lambda>w. min (f w)) ws pr = f w)"
proof (induction ws arbitrary: pr)
  case (Cons v ws)
  { case 1 show ?case using Cons.IH(1) [of "min (f v) pr"] by simp }
  { case 2 show ?case using 2 Cons.IH(1) [of "min (f v) pr"] Cons.IH(2) [of "min (f v) pr"] by auto }
  { case 3 show ?case using Cons.IH(3) [of "min (f v) pr"] by (auto simp: min_def) }
qed simp_all

text \<open>The mutexes on a process's list.\<close>

definition owned :: "pcb \<Rightarrow> nat set" where
  "owned p = {m. Some m \<in> set (take (p_owned_mutexes p) (p_owned_mutex_list p))}"

definition inherited :: "nat \<Rightarrow> mutex_sys \<Rightarrow> u8" where
  "inherited i S =
     (let p = m_pcb S i in
      fold (\<lambda>n pr. case p_owned_mutex_list p ! n of
                 None \<Rightarrow> pr
               | Some m \<Rightarrow> inherit_from (\<lambda>w. if w = i then p\<lparr>p_priority := pr\<rparr> else m_pcb S w) (mutexes S m) pr)
               [0..<p_owned_mutexes p] (p_base_priority p))"

lemma recompute_eq: "recompute_priority i S = m_upd i (\<lambda>p. p\<lparr>p_priority := inherited i S\<rparr>) S"
  by (simp add: recompute_priority_def inherited_def m_upd_def Let_def)

text \<open>
  What \<^verbatim>\<open>recompute_priority\<close> computes: the smallest of the base priority and the priorities of
  all processes waiting for a mutex on the list.
\<close>

lemma inherited_spec:
  assumes "\<And>m. waiters_wf (m_array (mutexes S m))" "\<And>m. m \<in> owned (m_pcb S i) \<Longrightarrow> i \<notin> set (waiting (m_array (mutexes S m)))"
    "p_owned_mutexes (m_pcb S i) \<le> length (p_owned_mutex_list (m_pcb S i))"
  shows "inherited i S \<le> p_base_priority (m_pcb S i)"
    "m \<in> owned (m_pcb S i) \<Longrightarrow> w \<in> set (waiting (m_array (mutexes S m))) \<Longrightarrow> inherited i S \<le> p_priority (m_pcb S w)"
    "inherited i S = p_base_priority (m_pcb S i) \<or>
     (\<exists>m \<in> owned (m_pcb S i). \<exists>w \<in> set (waiting (m_array (mutexes S m))). inherited i S = p_priority (m_pcb S w))"
proof -
  let ?p = "m_pcb S i" and ?q = "\<lambda>m. waiting (m_array (mutexes S m))"
  let ?g = "\<lambda>e (pr :: u8). case e of None \<Rightarrow> pr | Some m \<Rightarrow> inherit_from (\<lambda>w. if w = i then ?p\<lparr>p_priority := pr\<rparr> else m_pcb S w) (mutexes S m) pr"
  let ?l = "take (p_owned_mutexes ?p) (p_owned_mutex_list ?p)"
  have inh: "inherited i S = fold ?g ?l (p_base_priority ?p)"
    unfolding inherited_def Let_def using fold_upt_nth [OF assms(3), of ?g] .
  have g: "?g (Some m) pr = fold (\<lambda>w. min (p_priority (m_pcb S w))) (?q m) pr" if "m \<in> owned ?p" for m pr
    unfolding option.case inherit_from_min [OF assms(1)] using assms(2) [OF that] by (intro fold_cong) auto
  have "fold ?g l pr \<le> pr \<and> (\<forall>m w. Some m \<in> set l \<longrightarrow> w \<in> set (?q m) \<longrightarrow> fold ?g l pr \<le> p_priority (m_pcb S w))
      \<and> (fold ?g l pr = pr \<or> (\<exists>m w. Some m \<in> set l \<and> w \<in> set (?q m) \<and> fold ?g l pr = p_priority (m_pcb S w)))"
    if "set l \<subseteq> set ?l" for l pr
    using that
  proof (induction l arbitrary: pr)
    case (Cons e l)
    show ?case
    proof (cases e)
      case None
      then show ?thesis using Cons.IH [of pr] Cons.prems by auto
    next
      case (Some m)
      then have "m \<in> owned ?p" using Cons.prems by (auto simp: owned_def)
      then have e: "?g e pr = fold (\<lambda>w. min (p_priority (m_pcb S w))) (?q m) pr" using g Some by simp
      have IH: "fold ?g l (?g e pr) \<le> ?g e pr"
        "\<And>m w. Some m \<in> set l \<Longrightarrow> w \<in> set (?q m) \<Longrightarrow> fold ?g l (?g e pr) \<le> p_priority (m_pcb S w)"
        "fold ?g l (?g e pr) = ?g e pr \<or> (\<exists>m w. Some m \<in> set l \<and> w \<in> set (?q m) \<and> fold ?g l (?g e pr) = p_priority (m_pcb S w))"
        using Cons.IH [of "?g e pr"] Cons.prems by auto
      note b = fold_min_bounds [where f = "\<lambda>w. p_priority (m_pcb S w)" and ws = "?q m" and pr = pr, folded e]
      have f: "fold ?g (e # l) pr = fold ?g l (?g e pr)" by simp
      show ?thesis unfolding f
      proof (intro conjI allI impI)
        show "fold ?g l (?g e pr) \<le> pr" using IH(1) b(1) by (rule order_trans)
        show "fold ?g l (?g e pr) \<le> p_priority (m_pcb S w)" if "Some m' \<in> set (e # l)" "w \<in> set (?q m')" for m' w
          using that IH(1,2) b(2) Some by (auto intro: order_trans)
        show "fold ?g l (?g e pr) = pr \<or> (\<exists>m w. Some m \<in> set (e # l) \<and> w \<in> set (?q m) \<and> fold ?g l (?g e pr) = p_priority (m_pcb S w))"
          using IH(3)
        proof
          assume eq: "fold ?g l (?g e pr) = ?g e pr"
          show ?thesis unfolding eq using b(3) unfolding Some by (metis list.set_intros(1))
        next
          assume "\<exists>m w. Some m \<in> set l \<and> w \<in> set (?q m) \<and> fold ?g l (?g e pr) = p_priority (m_pcb S w)"
          then show ?thesis by (meson list.set_intros(2))
        qed
      qed
    qed
  qed simp
  from this [of ?l "p_base_priority ?p"] show "inherited i S \<le> p_base_priority ?p"
    "m \<in> owned ?p \<Longrightarrow> w \<in> set (?q m) \<Longrightarrow> inherited i S \<le> p_priority (m_pcb S w)"
    "inherited i S = p_base_priority ?p \<or> (\<exists>m \<in> owned ?p. \<exists>w \<in> set (?q m). inherited i S = p_priority (m_pcb S w))"
    unfolding inh [symmetric] by (auto simp: owned_def)
qed

lemma inherited_less:
  assumes "sched_inv (m_ker S)" "i < 16" "p_base_priority (m_pcb S i) < 3" "\<And>m. waiters_wf (m_array (mutexes S m))"
    "\<And>m w. w \<in> set (waiting (m_array (mutexes S m))) \<Longrightarrow> w < 16"
  shows "inherited i S < 3"
proof -
  let ?p = "m_pcb S i"
  let ?f = "\<lambda>n pr. case p_owned_mutex_list ?p ! n of None \<Rightarrow> pr
     | Some m \<Rightarrow> inherit_from (\<lambda>w. if w = i then ?p\<lparr>p_priority := pr\<rparr> else m_pcb S w) (mutexes S m) pr"
  have step: "?f n pr < 3" if "pr < 3" for n pr
  proof (cases "p_owned_mutex_list ?p ! n")
    case (Some m)
    let ?pcb = "\<lambda>w. if w = i then ?p\<lparr>p_priority := pr\<rparr> else m_pcb S w"
    have "p_priority (?pcb w) < 3" if "w \<in> set (waiting (m_array (mutexes S m)))" for w
      using sched_invD(2) [OF assms(1) assms(5) [OF that]] \<open>pr < 3\<close> by simp
    then show ?thesis
      using Some that fold_min_bounds(3) [of "\<lambda>w. p_priority (?pcb w)" "waiting (m_array (mutexes S m))" pr]
      by (auto simp: inherit_from_min [OF assms(4)])
  qed (use that in simp)
  have "fold ?f [0..<n] (p_base_priority ?p) < 3" for n by (induction n) (use assms(3) step in simp_all)
  then show ?thesis by (simp add: inherited_def Let_def)
qed

subsection \<open>All interleavings\<close>

inductive mutex_step :: "mutex_sys \<Rightarrow> mutex_sys \<Rightarrow> bool" where
  mutex_kernel: "kstep (m_ker S) k' \<Longrightarrow> mutex_step S (S\<lparr>m_ker := k'\<rparr>)"
| mutex_call: "runs (m_ker S) c \<Longrightarrow> m_pc S c = Outside \<Longrightarrow> mutex_step S (mutex_enter ptr S)"
| mutex_starts: "runs (m_ker S) c \<Longrightarrow> m_pc S c = Starting m \<Longrightarrow> mutex_step S (mutex_lazy m S)"
| mutex_owns: "runs (m_ker S) c \<Longrightarrow> m_pc S c = Entering m \<Longrightarrow> mutex_step S (mutex_owned m S)"
| mutex_again: "runs (m_ker S) c \<Longrightarrow> m_pc S c = Trying m \<Longrightarrow> mutex_step S (mutex_try m S)"
| mutex_back: "runs (m_ker S) c \<Longrightarrow> m_pc S c = Waiting m \<Longrightarrow> mutex_step S (mutex_resume m S)"
| mutex_release: "runs (m_ker S) c \<Longrightarrow> m_pc S c = Outside \<Longrightarrow> mutex_step S (mutex_unlock ptr S)"

abbreviation m_queue :: "mutex_sys \<Rightarrow> nat \<Rightarrow> nat list" where
  "m_queue S m \<equiv> waiting (m_array (mutexes S m))"

definition mu_ok :: "mutex_sys \<Rightarrow> nat \<Rightarrow> bool" where
  "mu_ok S m \<longleftrightarrow> m_initialized (mutexes S m) \<and> waiters_wf (m_array (mutexes S m)) \<and> distinct (m_queue S m)
     \<and> set (m_queue S m) \<subseteq> asleep (m_ker S) \<and> m_locked (mutexes S m) = (m_owner (mutexes S m) \<noteq> None)
     \<and> (m_queue S m \<noteq> [] \<longrightarrow> m_owner (mutexes S m) \<noteq> None)
     \<and> (\<forall>i \<in> set (m_queue S m). m_pc S i = Waiting m) \<and> (\<forall>i \<in> asleep (m_ker S). m_pc S i = Waiting m \<longrightarrow> i \<in> set (m_queue S m))
     \<and> (\<forall>i. m_owner (mutexes S m) = Some i \<longrightarrow> i < 16 \<and> user (m_ker S) i \<and> (m \<in> m_holds S i \<or> m_pc S i = Waiting m \<and> i \<notin> set (m_queue S m)))
     \<and> (\<forall>i. m \<in> m_holds S i \<longrightarrow> m_owner (mutexes S m) = Some i \<and> m_pc S i \<noteq> Waiting m \<and> m_pc S i \<noteq> Trying m)"

definition mu_inv :: "mutex_sys \<Rightarrow> bool" where
  "mu_inv S \<longleftrightarrow> sched_inv (m_ker S) \<and> (\<forall>m. mu_ok S m) \<and> (\<forall>i < 16. p_base_priority (m_pcb S i) < 3)
     \<and> (\<forall>i < 16. \<not> user (m_ker S) i \<longrightarrow> m_pc S i = Outside) \<and> (\<forall>i m. m_pc S i \<noteq> Starting m)"

lemma mu_okD:
  assumes "mu_ok S m"
  shows "m_initialized (mutexes S m)" "waiters_wf (m_array (mutexes S m))" "distinct (m_queue S m)"
    "set (m_queue S m) \<subseteq> asleep (m_ker S)" "m_locked (mutexes S m) = (m_owner (mutexes S m) \<noteq> None)"
    "m_queue S m \<noteq> [] \<Longrightarrow> m_owner (mutexes S m) \<noteq> None" "i \<in> set (m_queue S m) \<Longrightarrow> m_pc S i = Waiting m"
    "i \<in> asleep (m_ker S) \<Longrightarrow> m_pc S i = Waiting m \<Longrightarrow> i \<in> set (m_queue S m)"
    "m_owner (mutexes S m) = Some i \<Longrightarrow> i < 16 \<and> user (m_ker S) i \<and> (m \<in> m_holds S i \<or> m_pc S i = Waiting m \<and> i \<notin> set (m_queue S m))"
    "m \<in> m_holds S i \<Longrightarrow> m_owner (mutexes S m) = Some i \<and> m_pc S i \<noteq> Waiting m \<and> m_pc S i \<noteq> Trying m"
  using assms unfolding mu_ok_def by blast+

lemma mu_okI:
  assumes "m_initialized (mutexes S m)" "waiters_wf (m_array (mutexes S m))" "distinct (m_queue S m)"
    "set (m_queue S m) \<subseteq> asleep (m_ker S)" "m_locked (mutexes S m) = (m_owner (mutexes S m) \<noteq> None)"
    "m_queue S m \<noteq> [] \<Longrightarrow> m_owner (mutexes S m) \<noteq> None" "\<And>i. i \<in> set (m_queue S m) \<Longrightarrow> m_pc S i = Waiting m"
    "\<And>i. i \<in> asleep (m_ker S) \<Longrightarrow> m_pc S i = Waiting m \<Longrightarrow> i \<in> set (m_queue S m)"
    "\<And>i. m_owner (mutexes S m) = Some i \<Longrightarrow> i < 16 \<and> user (m_ker S) i \<and> (m \<in> m_holds S i \<or> m_pc S i = Waiting m \<and> i \<notin> set (m_queue S m))"
    "\<And>i. m \<in> m_holds S i \<Longrightarrow> m_owner (mutexes S m) = Some i \<and> m_pc S i \<noteq> Waiting m \<and> m_pc S i \<noteq> Trying m"
  shows "mu_ok S m"
  unfolding mu_ok_def
  by (intro conjI ballI allI impI; (rule assms(1-5) | erule assms(6,7) | erule (1) assms(8) | (drule assms(9), blast) | (drule assms(10), blast)))

lemma mu_invD:
  assumes "mu_inv S"
  shows "sched_inv (m_ker S)" "mu_ok S m" "i < 16 \<Longrightarrow> p_base_priority (m_pcb S i) < 3"
    "i < 16 \<Longrightarrow> \<not> user (m_ker S) i \<Longrightarrow> m_pc S i = Outside" "m_pc S i \<noteq> Starting m"
  using assms unfolding mu_inv_def by blast+

text \<open>
  The frame of a step at mutex \<open>m\<close> by process \<open>c\<close>: other mutexes are not affected.
\<close>

lemma mu_frame:
  assumes "mu_inv S" "mu_ok S' m" "sched_inv (m_ker S')" "\<And>t. t \<noteq> m \<Longrightarrow> mutexes S' t = mutexes S t"
    "\<And>i. m_pc S' i = (if i = c then l else m_pc S i)" "m_pc S c \<in> {Outside, Entering m, Trying m, Waiting m}" "l \<in> {Outside, Entering m, Trying m, Waiting m}"
    "\<And>t i. t \<noteq> m \<Longrightarrow> t \<in> m_holds S' i \<longleftrightarrow> t \<in> m_holds S i"
    "\<And>i. i \<noteq> c \<Longrightarrow> m_pc S i \<noteq> Waiting m \<Longrightarrow> i \<in> asleep (m_ker S') \<longleftrightarrow> i \<in> asleep (m_ker S)"
    "\<And>i. i < 16 \<Longrightarrow> user (m_ker S') i = user (m_ker S) i" "user (m_ker S) c \<or> l = Outside"
    "\<And>i. i < 16 \<Longrightarrow> p_base_priority (m_pcb S' i) = p_base_priority (m_pcb S i)"
  shows "mu_inv S'"
proof -
  have "mu_ok S' t" for t
  proof (cases "t = m")
    case False
    note d = mu_okD [OF mu_invD(2) [OF assms(1), of t]]
    have pc: "m_pc S' i = Waiting t \<longleftrightarrow> m_pc S i = Waiting t" "m_pc S' i = Trying t \<longleftrightarrow> m_pc S i = Trying t" for i
      using assms(5) [of i] assms(6,7) False by auto
    have mt: "mutexes S' t = mutexes S t" using assms(4) [OF False] .
    have as: "i \<in> asleep (m_ker S') \<longleftrightarrow> i \<in> asleep (m_ker S)" if "m_pc S i = Waiting t" for i
    proof -
      have "i \<noteq> c" "m_pc S i \<noteq> Waiting m" using assms(6) that False by auto
      then show ?thesis by (rule assms(9))
    qed
    show ?thesis
    proof (rule mu_okI, unfold mt pc)
      show "set (m_queue S t) \<subseteq> asleep (m_ker S')" using d(4,7) as by blast
      show "i \<in> set (m_queue S t)" if "i \<in> asleep (m_ker S')" "m_pc S i = Waiting t" for i using d(8) as [of i] that by blast
      show "i < 16 \<and> user (m_ker S') i \<and> (t \<in> m_holds S' i \<or> m_pc S i = Waiting t \<and> i \<notin> set (m_queue S t))" if "m_owner (mutexes S t) = Some i" for i
        using d(9) [OF that] assms(8) [OF False, of i] assms(10) by blast
      show "m_owner (mutexes S t) = Some i \<and> m_pc S i \<noteq> Waiting t \<and> m_pc S i \<noteq> Trying t" if "t \<in> m_holds S' i" for i
        using d(10) [of i] assms(8) [OF False] that by blast
    qed (use d(1-3,5-7) in simp_all)
  qed (use assms(2) in simp)
  moreover have "m_pc S' i = Outside" if "i < 16" "\<not> user (m_ker S') i" for i
    using that assms(5,10,11) mu_invD(4) [OF assms(1) that(1)] by (cases "i = c") auto
  moreover have "m_pc S' i \<noteq> Starting t" for i t using assms(5,7) mu_invD(5) [OF assms(1)] by auto
  ultimately show ?thesis using assms(3,12) mu_invD(3) [OF assms(1)] by (simp add: mu_inv_def)
qed

lemma mu_kernel_inv:
  assumes "mu_inv S" "kstep (m_ker S) k'"
  shows "mu_inv (S\<lparr>m_ker := k'\<rparr>)"
proof -
  have s: "sched_inv (m_ker S)" by (rule mu_invD(1) [OF assms(1)])
  note k = kstep_keeps [OF assms(2) s]
  have us: "i < 16 \<Longrightarrow> user k' i = user (m_ker S) i" for i by (rule bk.step_user [OF s assms(2)])
  have "mu_ok (S\<lparr>m_ker := k'\<rparr>) t" for t
    by (rule mu_okI) (use mu_okD [OF mu_invD(2) [OF assms(1), of t]] k(2) us in \<open>auto simp del: not_None_eq\<close>)
  moreover have "p_base_priority (pcbs k' ! i) = p_base_priority (m_pcb S i)" if "i < 16" for i
    using k(3) [OF that] by (simp add: lock_view_def)
  ultimately show ?thesis using k(1) us mu_invD(3-5) [OF assms(1)] by (simp add: mu_inv_def)
qed

lemma tuned_boost:
  assumes "sched_inv (m_ker S)" "\<And>m i. m_owner (mutexes S m) = Some i \<Longrightarrow> i < 16"
  shows "tuned S (boost cur m S)"
proof (cases "m_owner (mutexes S m)")
  case None
  then show ?thesis using assms(1) by (simp add: boost_def tuned_refl)
next
  case (Some ow)
  show ?thesis
  proof (cases "p_priority (m_pcb S cur) < p_priority (m_pcb S ow)")
    case True
    let ?T = "m_upd ow (\<lambda>p. p\<lparr>p_priority := p_priority (m_pcb S cur)\<rparr>) S"
    have "p_priority (m_pcb S cur) \<le> p_priority (m_pcb S ow)" using True by simp
    then have t: "tuned S ?T" by (intro tuned_upd [OF assms(1) assms(2) [OF Some]]) simp_all
    have "tuned ?T (propagate_priority ow ?T)"
      unfolding propagate_priority_def by (rule tuned_propagate) (use tunedD(1,4) [OF t] assms(2) in simp_all)
    then show ?thesis using t True Some tuned_trans by (simp add: boost_def)
  next
    case False
    then show ?thesis using Some assms(1) by (simp add: boost_def tuned_refl)
  qed
qed

text \<open>An attempt that finds the mutex locked: the queue never is full, and the process ends up in it.\<close>

lemma mutex_try_waits:
  assumes "mu_inv S" "runs (m_ker S) c" "m_locked (mutexes S m)"
  defines "y \<equiv> fst (mutex_waitq_add c (mutexes S m))"
  defines "S1 \<equiv> m_upd c (\<lambda>p. p\<lparr>p_waiting_mutex := Some m\<rparr>) (S\<lparr>mutexes := (mutexes S)(m := y)\<rparr>)"
  shows "waiting (m_array y) = m_queue S m @ [c]" "waiters_wf (m_array y)" "c \<notin> set (m_queue S m)"
    "tuned (S\<lparr>mutexes := (mutexes S)(m := y)\<rparr>) S1"
    "tuned (S\<lparr>mutexes := (mutexes S)(m := y)\<rparr>) (boost c m S1)"
    "mutex_try m S = m_at c (Waiting m) ((boost c m S1)\<lparr>m_ker := scheduler_block_forever (m_ker (boost c m S1))\<rparr>)"
    "m_owner (mutexes S1 t) = Some i \<Longrightarrow> i < 16" "m_owner (mutexes S1 m) = m_owner (mutexes S m)"
proof -
  have inv: "sched_inv (m_ker S)" by (rule mu_invD(1) [OF assms(1)])
  have cur: "current (m_ker S) = Some c" using assms(2) by (simp add: runs_def)
  have c: "c < 16" using bk.cur_bound [OF inv cur] .
  have cs: "c \<notin> asleep (m_ker S)" using bk.runs_awake [OF inv assms(2)] .
  note d = mu_okD [OF mu_invD(2) [OF assms(1), of m]]
  show cq: "c \<notin> set (m_queue S m)" using cs d(4) by blast
  have room: "length (m_queue S m) < 16"
    using mq.room [OF d(2,3), of c] d(4) cs c by (auto simp: asleep_def)
  then have "snd (mutex_waitq_add c (mutexes S m))"
    using length_waiting [OF d(2)] in_waiters_iff [OF d(2), of c] cq by (simp add: mutex_waitq_add_def split_def Let_def)
  then have add: "mutex_waitq_add c (mutexes S m) = (y, True)" by (simp add: y_def prod_eq_iff)
  show "waiting (m_array y) = m_queue S m @ [c]" "waiters_wf (m_array y)"
    unfolding y_def using mq.add_new [OF d(2) cq room] mq.add_wf [OF d(2)] by simp_all
  show t1: "tuned (S\<lparr>mutexes := (mutexes S)(m := y)\<rparr>) S1" unfolding S1_def by (rule tuned_upd) (use inv c in simp_all)
  show "m_owner (mutexes S1 m) = m_owner (mutexes S m)" using tunedD(1) [OF t1] by (simp add: y_def)
  show ow: "i < 16" if "m_owner (mutexes S1 t) = Some i" for t i
    using mu_okD(9) [OF mu_invD(2) [OF assms(1), of t], of i] that tunedD(1) [OF t1] by (auto simp: y_def split: if_splits)
  show "tuned (S\<lparr>mutexes := (mutexes S)(m := y)\<rparr>) (boost c m S1)"
    using tuned_trans [OF t1] tuned_boost [OF tunedD(4) [OF t1] ow] by simp
  show "mutex_try m S = m_at c (Waiting m) ((boost c m S1)\<lparr>m_ker := scheduler_block_forever (m_ker (boost c m S1))\<rparr>)"
    unfolding mutex_try_def S1_def using assms(3) cur add by (simp add: Let_def)
qed

lemma mutex_try_inv:
  assumes "mu_inv S" "runs (m_ker S) c" "user (m_ker S) c" "m_pc S c = Outside \<or> m_pc S c = Trying m" "m_owner (mutexes S m) \<noteq> Some c"
  shows "mu_inv (mutex_try m S)"
proof -
  let ?x = "mutexes S m"
  have inv: "sched_inv (m_ker S)" by (rule mu_invD(1) [OF assms(1)])
  have cur: "current (m_ker S) = Some c" using assms(2) by (simp add: runs_def)
  have c: "c < 16" using bk.cur_bound [OF inv cur] .
  have cs: "c \<notin> asleep (m_ker S)" using bk.runs_awake [OF inv assms(2)] .
  note d = mu_okD [OF mu_invD(2) [OF assms(1), of m]]
  define S' where "S' = mutex_try m S"
  show ?thesis
  proof (cases "m_locked ?x")
    case False
    let ?S1 = "S\<lparr>mutexes := (mutexes S)(m := ?x\<lparr>m_locked := True, m_owner := Some c\<rparr>)\<rparr>"
    have own: "m_owner ?x = None" and q: "m_queue S m = []" using False d(5,6) by auto
    have S': "S' = m_take c m (m_at c Outside (m_upd c (owner_add m) ?S1))" using False cur by (simp add: S'_def mutex_try_def Let_def)
    have t: "tuned ?S1 (m_upd c (owner_add m) ?S1)" by (rule tuned_upd) (use inv c in simp_all)
    have f: "mutexes S' = (mutexes S)(m := ?x\<lparr>m_locked := True, m_owner := Some c\<rparr>)" "m_ker S' = m_ker (m_upd c (owner_add m) ?S1)"
      "m_holds S' = (m_holds S)(c := insert m (m_holds S c))"
      by (simp_all add: S' m_take_def m_at_def m_upd_def)
    have pc: "m_pc S' i = (if i = c then Outside else m_pc S i)" for i by (simp add: S' m_take_def m_at_def m_upd_def)
    note k = tunedD(4,5,8,9) [OF t, folded f(2)]
    have ok: "mu_ok S' m"
    proof (rule mu_okI)
      show "i \<in> set (m_queue S' m)" if "i \<in> asleep (m_ker S')" "m_pc S' i = Waiting m" for i
        using d(8) [of i] that k(2) q by (auto simp: pc split: if_splits)
      show "m_owner (mutexes S' m) = Some i \<and> m_pc S' i \<noteq> Waiting m \<and> m_pc S' i \<noteq> Trying m" if "m \<in> m_holds S' i" for i
        using d(10) [of i] that own by (auto simp: f pc split: if_splits)
    qed (use d(1,2) q c assms(3) k(3) in \<open>simp_all add: f\<close>)
    show ?thesis unfolding S'_def [symmetric]
      by (rule mu_frame [OF assms(1) ok k(1) _ pc]) (use assms(3,4) k f in \<open>auto split: if_splits\<close>)
  next
    case True
    let ?y = "fst (mutex_waitq_add c ?x)"
    note w = mutex_try_waits [OF assms(1,2) True]
    note y = w(1,2) and cq = w(3)
    define S1 where "S1 = m_upd c (\<lambda>p. p\<lparr>p_waiting_mutex := Some m\<rparr>) (S\<lparr>mutexes := (mutexes S)(m := ?y)\<rparr>)"
    define S2 where "S2 = boost c m S1"
    have t: "tuned (S\<lparr>mutexes := (mutexes S)(m := ?y)\<rparr>) S2" and S': "S' = m_at c (Waiting m) (S2\<lparr>m_ker := scheduler_block_forever (m_ker S2)\<rparr>)"
      using w(5,6) by (simp_all add: S'_def S2_def S1_def)
    note k = tunedD [OF t, simplified]
    have r2: "runs (m_ker S2) c" "user (m_ker S2) c" "current (m_ker S2) = Some c" using k(6-8) assms(2,3) cur by simp_all
    note b = block_forever_spec [OF k(4) r2(1,2)]
    have f: "mutexes S' = (mutexes S)(m := ?y)" "m_holds S' = m_holds S" "m_ker S' = scheduler_block_forever (m_ker S2)"
      using k(1,3) by (simp_all add: S' m_at_def)
    have pc: "m_pc S' i = (if i = c then Waiting m else m_pc S i)" for i using k(2) by (simp add: S' m_at_def)
    have as: "asleep (m_ker S') = insert c (asleep (m_ker S))" using b(2) k(5) by (simp add: f)
    have us: "user (m_ker S') i = user (m_ker S) i" if "i < 16" for i using bk.block_user [OF k(4) that] k(8) by (simp add: f)
    have nh: "m \<notin> m_holds S c" using d(10) [of c] assms(5) by blast
    have ok: "mu_ok S' m"
    proof (rule mu_okI)
      show "i \<in> set (m_queue S' m)" if "i \<in> asleep (m_ker S')" "m_pc S' i = Waiting m" for i
        using d(8) [of i] that by (auto simp: pc as f(1,2) y split: if_splits)
      show "m_pc S' i = Waiting m" if "i \<in> set (m_queue S' m)" for i using d(7) [of i] that by (auto simp: pc f y)
      show "i < 16 \<and> user (m_ker S') i \<and> (m \<in> m_holds S' i \<or> m_pc S' i = Waiting m \<and> i \<notin> set (m_queue S' m))"
        if "m_owner (mutexes S' m) = Some i" for i
        using d(9) [of i] that assms(5) us [of i] by (auto simp: f(1,2) pc y)
      show "m_owner (mutexes S' m) = Some i \<and> m_pc S' i \<noteq> Waiting m \<and> m_pc S' i \<noteq> Trying m" if "m \<in> m_holds S' i" for i
        using d(10) [of i] that nh by (auto simp: f pc)
    qed (use d(1,3,4,5) True y cq in \<open>auto simp: f(1,2) as\<close>)
    have bp: "p_base_priority (m_pcb S' i) = p_base_priority (m_pcb S i)" for i
      using k(9) [of i] sched_invD(8) [OF k(4)] c by (simp add: f b(3) nth_list_update)
    show ?thesis unfolding S'_def [symmetric]
      by (rule mu_frame [OF assms(1) ok _ _ pc]) (use assms(3,4) b(1) us bp f as in \<open>auto\<close>)
  qed
qed

lemma mutex_resume_inv:
  assumes "mu_inv S" "runs (m_ker S) c" "m_pc S c = Waiting m"
  shows "mu_inv (mutex_resume m S)"
proof -
  have inv: "sched_inv (m_ker S)" by (rule mu_invD(1) [OF assms(1)])
  have cur: "current (m_ker S) = Some c" using assms(2) by (simp add: runs_def)
  have c: "c < 16" using bk.cur_bound [OF inv cur] .
  have cs: "c \<notin> asleep (m_ker S)" using bk.runs_awake [OF inv assms(2)] .
  have us: "user (m_ker S) c" using mu_invD(4) [OF assms(1) c] assms(3) by auto
  note d = mu_okD [OF mu_invD(2) [OF assms(1), of m]]
  have cq: "c \<notin> set (m_queue S m)" using cs d(4) by blast
  have nh: "m \<notin> m_holds S c" using d(10) [of c] assms(3) by blast
  define S' where "S' = mutex_resume m S"
  show ?thesis
  proof (cases "m_owner (mutexes S m) = Some c")
    case True
    let ?T = "m_upd c (\<lambda>p. p\<lparr>p_waiting_mutex := None\<rparr>) S"
    have S': "S' = m_take c m (m_at c Outside ?T)" using True cur by (simp add: S'_def mutex_resume_def)
    have t: "tuned S ?T" by (rule tuned_upd [OF inv c]) simp_all
    have f: "mutexes S' = mutexes S" "m_ker S' = m_ker ?T" "m_holds S' = (m_holds S)(c := insert m (m_holds S c))"
      by (simp_all add: S' m_take_def m_at_def m_upd_def)
    have pc: "m_pc S' i = (if i = c then Outside else m_pc S i)" for i by (simp add: S' m_take_def m_at_def m_upd_def)
    note k = tunedD(4,5,8,9) [OF t, folded f(2)]
    have ok: "mu_ok S' m"
    proof (rule mu_okI)
      show "i \<in> set (m_queue S' m)" if "i \<in> asleep (m_ker S')" "m_pc S' i = Waiting m" for i
        using d(8) [of i] that k(2) by (auto simp: pc f split: if_splits)
      show "m_pc S' i = Waiting m" if "i \<in> set (m_queue S' m)" for i using d(7) [of i] that cq by (auto simp: pc f)
      show "m_owner (mutexes S' m) = Some i \<and> m_pc S' i \<noteq> Waiting m \<and> m_pc S' i \<noteq> Trying m" if "m \<in> m_holds S' i" for i
        using d(10) [of i] that True by (auto simp: f pc split: if_splits)
    qed (use d(1-6) True c us k in \<open>simp_all add: f\<close>)
    show ?thesis unfolding S'_def [symmetric]
      by (rule mu_frame [OF assms(1) ok k(1) _ pc]) (use assms(3) k f in \<open>auto split: if_splits\<close>)
  next
    case False
    have S': "S' = m_at c (Trying m) S" using False cur by (simp add: S'_def mutex_resume_def)
    have f: "mutexes S' = mutexes S" "m_ker S' = m_ker S" "m_holds S' = m_holds S" by (simp_all add: S' m_at_def)
    have pc: "m_pc S' i = (if i = c then Trying m else m_pc S i)" for i by (simp add: S' m_at_def)
    have ok: "mu_ok S' m"
    proof (rule mu_okI)
      show "i \<in> set (m_queue S' m)" if "i \<in> asleep (m_ker S')" "m_pc S' i = Waiting m" for i
        using d(8) [of i] that by (auto simp: pc f split: if_splits)
      show "m_pc S' i = Waiting m" if "i \<in> set (m_queue S' m)" for i using d(7) [of i] that cq by (auto simp: pc f)
      show "i < 16 \<and> user (m_ker S') i \<and> (m \<in> m_holds S' i \<or> m_pc S' i = Waiting m \<and> i \<notin> set (m_queue S' m))"
        if "m_owner (mutexes S' m) = Some i" for i using d(9) [of i] that False by (auto simp: f pc)
      show "m_owner (mutexes S' m) = Some i \<and> m_pc S' i \<noteq> Waiting m \<and> m_pc S' i \<noteq> Trying m" if "m \<in> m_holds S' i" for i
        using d(10) [of i] that nh by (auto simp: f pc)
    qed (use d(1-6) in \<open>simp_all add: f\<close>)
    show ?thesis unfolding S'_def [symmetric]
      by (rule mu_frame [OF assms(1) ok _ _ pc]) (use assms(3) us inv f in auto)
  qed
qed

lemma tuned_recompute:
  assumes "sched_inv (m_ker S)" "i < 16" "user (m_ker S) i" "p_base_priority (m_pcb S i) < 3" "\<And>m. waiters_wf (m_array (mutexes S m))"
    "\<And>m w. w \<in> set (m_queue S m) \<Longrightarrow> w < 16"
  shows "tuned S (recompute_priority i S)"
proof -
  have "i \<noteq> 0" using assms(3) sched_invD(3) [OF assms(1)] unfolding user_def by metis
  then show ?thesis unfolding recompute_eq
    using inherited_less [OF assms(1,2,4,5,6)] by (intro tuned_upd [OF assms(1,2)]) simp_all
qed

text \<open>The state before the priority is recomputed, in the two cases of an unlock by the owner.\<close>

definition unlock_free :: "nat \<Rightarrow> nat \<Rightarrow> mutex_sys \<Rightarrow> mutex_sys" where
  "unlock_free c m S = m_upd c (owner_remove m) (m_drop c m
     (S\<lparr>mutexes := (mutexes S)(m := (fst (mutex_waitq_pop (mutexes S m)))\<lparr>m_locked := False, m_owner := None\<rparr>)\<rparr>))"

definition unlock_pass :: "nat \<Rightarrow> nat \<Rightarrow> nat \<Rightarrow> mutex_sys \<Rightarrow> mutex_sys" where
  "unlock_pass c next m S = m_upd next (\<lambda>p. owner_add m (p\<lparr>p_waiting_mutex := None\<rparr>)) (m_upd c (owner_remove m) (m_drop c m
     (S\<lparr>mutexes := (mutexes S)(m := (fst (mutex_waitq_pop (mutexes S m)))\<lparr>m_locked := True, m_owner := Some next\<rparr>)\<rparr>)))"

lemma mutex_unlock_eq:
  assumes "current (m_ker S) = Some c" "m_owner (mutexes S m) = Some c"
  shows "mutex_unlock (Some m) S =
     (case snd (mutex_waitq_pop (mutexes S m)) of
        None \<Rightarrow> recompute_priority c (unlock_free c m S)
      | Some next \<Rightarrow> recompute_priority c
          ((unlock_pass c next m S)\<lparr>m_ker := scheduler_wake (Some next) (m_ker (unlock_pass c next m S))\<rparr>))"
  using assms
  by (cases "mutex_waitq_pop (mutexes S m)")
    (auto simp: mutex_unlock_def Let_def unlock_free_def unlock_pass_def m_upd_def m_drop_def split: option.splits
       intro!: arg_cong [where f = "recompute_priority c"] mutex_sys.equality)

lemma unlock_free_tuned:
  assumes "sched_inv (m_ker S)" "c < 16"
  shows "tuned (m_drop c m (S\<lparr>mutexes := (mutexes S)(m := (fst (mutex_waitq_pop (mutexes S m)))\<lparr>m_locked := False, m_owner := None\<rparr>)\<rparr>))
     (unlock_free c m S)"
  unfolding unlock_free_def by (rule tuned_upd) (use assms in \<open>simp_all add: m_drop_def\<close>)

lemma unlock_pass_tuned:
  assumes "sched_inv (m_ker S)" "c < 16" "n < 16"
  shows "tuned (m_drop c m (S\<lparr>mutexes := (mutexes S)(m := (fst (mutex_waitq_pop (mutexes S m)))\<lparr>m_locked := True, m_owner := Some n\<rparr>)\<rparr>))
     (unlock_pass c n m S)"
proof -
  let ?A = "m_drop c m (S\<lparr>mutexes := (mutexes S)(m := (fst (mutex_waitq_pop (mutexes S m)))\<lparr>m_locked := True, m_owner := Some n\<rparr>)\<rparr>)"
  let ?B = "m_upd c (owner_remove m) ?A"
  have t: "tuned ?A ?B" by (rule tuned_upd) (use assms in \<open>simp_all add: m_drop_def\<close>)
  have "tuned ?B (unlock_pass c n m S)"
    unfolding unlock_pass_def by (rule tuned_upd [OF tunedD(4) [OF t] assms(3)]) simp_all
  with t show ?thesis by (rule tuned_trans)
qed

lemma mutex_unlock_inv:
  assumes "mu_inv S" "runs (m_ker S) c" "m_pc S c = Outside"
  shows "mu_inv (mutex_unlock (Some m) S)"
proof (cases "m_owner (mutexes S m) = Some c")
  case False
  then show ?thesis using assms(1,2) by (simp add: mutex_unlock_def runs_def)
next
  case True
  let ?x = "mutexes S m"
  have inv: "sched_inv (m_ker S)" by (rule mu_invD(1) [OF assms(1)])
  have cur: "current (m_ker S) = Some c" using assms(2) by (simp add: runs_def)
  note d = mu_okD [OF mu_invD(2) [OF assms(1), of m]]
  have c: "c < 16" "user (m_ker S) c" "m \<in> m_holds S c" using d(9) [OF True] assms(3) by auto
  have bp: "p_base_priority (m_pcb S c) < 3" using mu_invD(3) [OF assms(1) c(1)] .
  have el: "w < 16" if "w \<in> set (m_queue S t)" for t w using mu_okD(4) [OF mu_invD(2) [OF assms(1), of t]] that by (auto simp: asleep_def)
  have only: "i = c" if "m \<in> m_holds S i" for i using d(10) [OF that] True by simp
  define S' where "S' = mutex_unlock (Some m) S"
  show ?thesis
  proof (cases "m_queue S m")
    case Nil
    let ?A = "m_drop c m (S\<lparr>mutexes := (mutexes S)(m := ?x\<lparr>m_locked := False, m_owner := None\<rparr>)\<rparr>)"
    have pop: "mutex_waitq_pop ?x = (?x, None)" using mq.pop_empty [OF d(2) Nil] .
    have t1: "tuned ?A (unlock_free c m S)" using unlock_free_tuned [OF inv c(1), of m] by (simp add: pop)
    note k1 = tunedD [OF t1]
    have mx: "mutexes (unlock_free c m S) t = (if t = m then ?x\<lparr>m_locked := False, m_owner := None\<rparr> else mutexes S t)" for t
      using k1(1) by (simp add: m_drop_def)
    have "tuned (unlock_free c m S) (recompute_priority c (unlock_free c m S))"
      by (rule tuned_recompute [OF k1(4) c(1)])
        (use k1(8,9) c(2) bp el Nil mu_okD(2) [OF mu_invD(2) [OF assms(1)]] in \<open>auto simp: mx m_drop_def split: if_splits\<close>)
    moreover have S': "S' = recompute_priority c (unlock_free c m S)" unfolding S'_def mutex_unlock_eq [OF cur True] pop by simp
    ultimately have t: "tuned ?A S'" using t1 tuned_trans by metis
    note k = tunedD [OF t]
    have f: "mutexes S' m = ?x\<lparr>m_locked := False, m_owner := None\<rparr>" "\<And>t. t \<noteq> m \<Longrightarrow> mutexes S' t = mutexes S t"
      "\<And>i. m_holds S' i = (if i = c then m_holds S c - {m} else m_holds S i)" "asleep (m_ker S') = asleep (m_ker S)"
      "\<And>i. user (m_ker S') i = user (m_ker S) i" "\<And>i. p_base_priority (m_pcb S' i) = p_base_priority (m_pcb S i)"
      using k(1,3,5,8,9) by (simp_all add: m_drop_def)
    have pc: "m_pc S' i = (if i = c then Outside else m_pc S i)" for i using k(2) assms(3) by (simp add: m_drop_def)
    have ok: "mu_ok S' m"
    proof (rule mu_okI)
      show "i \<in> set (m_queue S' m)" if "i \<in> asleep (m_ker S')" "m_pc S' i = Waiting m" for i
        using d(8) [of i] that Nil by (auto simp: pc f(4) split: if_splits)
      show "m_owner (mutexes S' m) = Some i \<and> m_pc S' i \<noteq> Waiting m \<and> m_pc S' i \<noteq> Trying m" if "m \<in> m_holds S' i" for i
        using that only [of i] by (auto simp: f(3) split: if_splits)
    qed (use d(1,2) Nil in \<open>simp_all add: f(1)\<close>)
    show ?thesis unfolding S'_def [symmetric]
      by (rule mu_frame [OF assms(1) ok k(4) f(2) pc]) (use assms(3) in \<open>auto simp: f(3-6)\<close>)
  next
    case (Cons n q)
    obtain y where pop: "mutex_waitq_pop ?x = (y, Some n)" "waiting (m_array y) = q"
      using mq.pop_head [OF d(2) Cons] by (cases "mutex_waitq_pop ?x") auto
    have y: "waiters_wf (m_array y)" "m_initialized y" using mq.pop_wf [OF d(2)] mutex_queue_fields(6) [of ?x] pop(1) d(1) by simp_all
    let ?A = "m_drop c m (S\<lparr>mutexes := (mutexes S)(m := y\<lparr>m_locked := True, m_owner := Some n\<rparr>)\<rparr>)"
    let ?B = "unlock_pass c n m S"
    define D where "D = ?B\<lparr>m_ker := scheduler_wake (Some n) (m_ker ?B)\<rparr>"
    have n: "n < 16" "n \<in> asleep (m_ker S)" "n \<noteq> c" "m_pc S n = Waiting m" "n \<notin> set q" "distinct q" "user (m_ker S) n"
    proof -
      show "n < 16" "n \<in> asleep (m_ker S)" "m_pc S n = Waiting m" "n \<notin> set q" "distinct q" using d(3,4,7) el [of n m] Cons by auto
      then show "n \<noteq> c" "user (m_ker S) n" using assms(3) mu_invD(4) [OF assms(1), of n] by auto
    qed
    have t1: "tuned ?A ?B" using unlock_pass_tuned [OF inv c(1) n(1), of m] by (simp add: pop)
    note k1 = tunedD [OF t1]
    have na: "n \<in> asleep (m_ker ?B)" using k1(5) n(2) by (simp add: m_drop_def)
    note w = wake_spec [OF k1(4) na]
    have kD: "m_ker D = scheduler_wake (Some n) (m_ker ?B)" "mutexes D = mutexes ?B" "m_pc D = m_pc ?B" "m_holds D = m_holds ?B"
      by (simp_all add: D_def)
    have mx: "mutexes D t = (if t = m then y\<lparr>m_locked := True, m_owner := Some n\<rparr> else mutexes S t)" for t
      using k1(1) by (simp add: kD m_drop_def)
    have base: "p_base_priority (pcbs (m_ker D) ! i) = p_base_priority (m_pcb S i)" for i
      using w(7) [of i] k1(9) [of i] by (simp add: kD lock_view_def m_drop_def)
    have usr: "user (m_ker D) i = user (m_ker S) i" if "i < 16" for i using bk.wake_user [OF k1(4) na that] k1(8) by (simp add: kD m_drop_def)
    have elq: "w < 16" if "w \<in> set q" for w using el [of w m] that Cons by simp
    have "tuned D (recompute_priority c D)"
      by (rule tuned_recompute)
        (use w(1) c usr bp base el elq y pop(2) mu_okD(2) [OF mu_invD(2) [OF assms(1)]] in \<open>auto simp: mx kD(1) split: if_splits\<close>)
    moreover have S': "S' = recompute_priority c D" unfolding S'_def mutex_unlock_eq [OF cur True] pop D_def by simp
    ultimately have k: "tuned D S'" by simp
    note k = tunedD [OF k]
    have f: "mutexes S' m = y\<lparr>m_locked := True, m_owner := Some n\<rparr>" "\<And>t. t \<noteq> m \<Longrightarrow> mutexes S' t = mutexes S t"
      "\<And>i. m_holds S' i = (if i = c then m_holds S c - {m} else m_holds S i)" "asleep (m_ker S') = asleep (m_ker S) - {n}"
      "\<And>i. i < 16 \<Longrightarrow> user (m_ker S') i = user (m_ker S) i" "\<And>i. p_base_priority (m_pcb S' i) = p_base_priority (m_pcb S i)"
      using k(1,3,5,8,9) k1(3,5) w(2) usr base mx by (simp_all add: kD m_drop_def)
    have pc: "m_pc S' i = (if i = c then Outside else m_pc S i)" for i using k(2) k1(2) assms(3) by (simp add: kD m_drop_def)
    have ok: "mu_ok S' m"
    proof (rule mu_okI)
      show "set (m_queue S' m) \<subseteq> asleep (m_ker S')" using d(4) Cons n(5) pop(2) by (auto simp: f(1,4))
      show "m_pc S' i = Waiting m" if "i \<in> set (m_queue S' m)" for i using that d(7) [of i] Cons pop(2) assms(3) by (auto simp: f(1) pc)
      show "i \<in> set (m_queue S' m)" if "i \<in> asleep (m_ker S')" "m_pc S' i = Waiting m" for i
        using d(8) [of i] that Cons pop(2) by (auto simp: pc f(1,4) split: if_splits)
      show "i < 16 \<and> user (m_ker S') i \<and> (m \<in> m_holds S' i \<or> m_pc S' i = Waiting m \<and> i \<notin> set (m_queue S' m))"
        if "m_owner (mutexes S' m) = Some i" for i using that n pop(2) f(5) [of n] by (auto simp: f(1) pc)
      show "m_owner (mutexes S' m) = Some i \<and> m_pc S' i \<noteq> Waiting m \<and> m_pc S' i \<noteq> Trying m" if "m \<in> m_holds S' i" for i
        using that only [of i] by (auto simp: f(3) split: if_splits)
    qed (use y n(6) pop(2) in \<open>simp_all add: f(1)\<close>)
    have as: "i \<in> asleep (m_ker S') \<longleftrightarrow> i \<in> asleep (m_ker S)" if "m_pc S i \<noteq> Waiting m" for i
    proof -
      have "i \<noteq> n" using n(4) that by auto
      then show ?thesis unfolding f(4) by simp
    qed
    show ?thesis unfolding S'_def [symmetric]
      by (rule mu_frame [OF assms(1) ok k(4) f(2) pc]) (use assms(3) as f(5) in \<open>auto simp: f(3,6)\<close>)
  qed
qed

lemma mutex_owned_inv:
  assumes "mu_inv S" "runs (m_ker S) c" "m_pc S c = Entering m"
  shows "mu_inv (mutex_owned m S)"
proof -
  have inv: "sched_inv (m_ker S)" by (rule mu_invD(1) [OF assms(1)])
  have cur: "current (m_ker S) = Some c" using assms(2) by (simp add: runs_def)
  have us: "user (m_ker S) c" using mu_invD(4) [OF assms(1) bk.cur_bound [OF inv cur]] assms(3) by auto
  note d = mu_okD [OF mu_invD(2) [OF assms(1), of m]]
  let ?l = "if m_owner (mutexes S m) = Some c then Outside else Trying m"
  define S' where "S' = mutex_owned m S"
  have S': "S' = m_at c ?l S" using cur by (simp add: S'_def mutex_owned_def)
  have f: "mutexes S' = mutexes S" "m_ker S' = m_ker S" "m_holds S' = m_holds S" by (simp_all add: S' m_at_def)
  have pc: "m_pc S' i = (if i = c then ?l else m_pc S i)" for i by (simp add: S' m_at_def)
  have w: "m_pc S' i = Waiting m \<longleftrightarrow> m_pc S i = Waiting m" for i using assms(3) by (simp add: pc)
  have ok: "mu_ok S' m"
  proof (rule mu_okI, unfold f w)
    show "m_owner (mutexes S m) = Some i \<and> m_pc S i \<noteq> Waiting m \<and> m_pc S' i \<noteq> Trying m" if "m \<in> m_holds S i" for i
      using d(10) [OF that] by (simp add: pc)
  qed (use d in blast)+
  show ?thesis unfolding S'_def [symmetric]
    by (rule mu_frame [OF assms(1) ok _ _ pc]) (use assms(3) us inv f in auto)
qed

lemma mutex_enter_inv:
  assumes "mu_inv S" "runs (m_ker S) c" "m_pc S c = Outside"
  shows "mu_inv (mutex_enter ptr S)"
proof (cases "mutex_enter ptr S = S")
  case False
  have cur: "current (m_ker S) = Some c" using assms(2) by (simp add: runs_def)
  from False obtain m where m: "ptr = Some m" "user (m_ker S) c" "mutex_enter ptr S = m_at c (Entering m) S"
    using cur mu_okD(1) [OF mu_invD(2) [OF assms(1)]] by (auto simp: mutex_enter_def user_def split: option.splits if_splits)
  note d = mu_okD [OF mu_invD(2) [OF assms(1), of m]]
  define S' where "S' = m_at c (Entering m) S"
  have f: "mutexes S' = mutexes S" "m_ker S' = m_ker S" "m_holds S' = m_holds S" by (simp_all add: S'_def m_at_def)
  have pc: "m_pc S' i = (if i = c then Entering m else m_pc S i)" for i by (simp add: S'_def m_at_def)
  have w: "m_pc S' i = Waiting m \<longleftrightarrow> m_pc S i = Waiting m" "m_pc S' i = Trying m \<longleftrightarrow> m_pc S i = Trying m" for i
    using assms(3) by (simp_all add: pc)
  have ok: "mu_ok S' m" by (rule mu_okI, unfold f w) (use d in blast)+
  show ?thesis unfolding m(3) S'_def [symmetric]
    by (rule mu_frame [OF assms(1) ok _ _ pc]) (use assms(3) m(2) mu_invD(1) [OF assms(1)] f in auto)
qed (use assms(1) in simp)

lemma mutex_step_inv: "mutex_step S S' \<Longrightarrow> mu_inv S \<Longrightarrow> mu_inv S'"
proof (induction rule: mutex_step.induct)
  case (mutex_kernel S k')
  then show ?case by (intro mu_kernel_inv)
next
  case (mutex_call S c ptr)
  then show ?case by (intro mutex_enter_inv)
next
  case (mutex_starts S c m)
  then show ?case using mu_invD(5) by blast
next
  case (mutex_owns S c m)
  then show ?case by (intro mutex_owned_inv)
next
  case (mutex_again S c m)
  have c: "current (m_ker S) = Some c" using mutex_again(1) by (simp add: runs_def)
  have "c < 16" using bk.cur_bound [OF mu_invD(1) [OF mutex_again(3)] c] .
  then have u: "user (m_ker S) c" using mu_invD(4) [OF mutex_again(3)] mutex_again(2) by force
  note d = mu_okD [OF mu_invD(2) [OF mutex_again(3), of m]]
  have "m_owner (mutexes S m) \<noteq> Some c" using d(9) [of c] d(10) [of c] mutex_again(2) by auto
  with u show ?case using mutex_again by (intro mutex_try_inv) auto
next
  case (mutex_back S c m)
  then show ?case by (intro mutex_resume_inv)
next
  case (mutex_release S c ptr)
  then show ?case by (cases ptr) (simp_all add: mutex_unlock_inv mutex_unlock_def [of None])
qed

lemma mutex_run_inv: "mutex_step\<^sup>*\<^sup>* S S' \<Longrightarrow> mu_inv S \<Longrightarrow> mu_inv S'"
  by (induction rule: rtranclp_induct) (auto intro: mutex_step_inv)

subsection \<open>The call as one piece\<close>

text \<open>
  Where a process stands is not read by an attempt, so the steps of a call that nobody interrupts
  add up to \<open>mutex_lock\<close>.
\<close>

lemma propagate_m_at: "propagate_loop g i (m_at c l S) = m_at c l (propagate_loop g i S)"
proof (induction g i S rule: propagate_loop.induct)
  case (2 g i S)
  have q: "(m_at c l S)\<lparr>m_ker := k\<rparr> = m_at c l (S\<lparr>m_ker := k\<rparr>)" "mutexes (m_at c l S) = mutexes S" "m_ker (m_at c l S) = m_ker S" for k
    by (simp_all add: m_at_def)
  show ?case using "2.IH" by (simp add: q split: option.splits)
qed simp

lemma boost_m_at: "boost cur m (m_at c l S) = m_at c l (boost cur m S)"
proof -
  have u: "m_upd i f (m_at c l S) = m_at c l (m_upd i f S)" for i f by (simp add: m_upd_def m_at_def)
  have "mutexes (m_at c l S) = mutexes S" "m_ker (m_at c l S) = m_ker S" by (simp_all add: m_at_def)
  then show ?thesis by (simp add: boost_def propagate_priority_def propagate_m_at u split: option.splits)
qed

lemma mutex_try_m_at:
  assumes "current (m_ker S) = Some c"
  shows "mutex_try m (m_at c l S) = mutex_try m S"
proof -
  have q: "(m_at c l S)\<lparr>mutexes := x\<rparr> = m_at c l (S\<lparr>mutexes := x\<rparr>)" "m_upd i f (m_at c l S) = m_at c l (m_upd i f S)"
    "m_at c l' (m_at c l S) = m_at c l' S" "(m_at c l S)\<lparr>m_ker := k\<rparr> = m_at c l (S\<lparr>m_ker := k\<rparr>)"
    "mutexes (m_at c l S) = mutexes S" "m_ker (m_at c l S) = m_ker S" for x i f l l' k S
    by (simp_all add: m_at_def m_upd_def)
  show ?thesis using assms by (simp add: mutex_try_def q boost_m_at Let_def split: prod.splits bool.splits)
qed

lemma mutex_lock_steps:
  assumes "runs (m_ker S) c" "m_pc S c = Outside"
  shows "mutex_step\<^sup>*\<^sup>* S (mutex_lock ptr S)"
proof (cases "ptr = None \<or> p_pid (m_pcb S c) = 0")
  case True
  then show ?thesis using assms(1) by (auto simp: mutex_lock_def runs_def split: option.splits)
next
  case False
  then obtain m where m: "ptr = Some m" "p_pid (m_pcb S c) \<noteq> 0" by auto
  have cur: "current (m_ker S) = Some c" using assms(1) by (simp add: runs_def)
  define S1 where "S1 = (if m_initialized (mutexes S m) then S else mutex_init (Some m) S)"
  have s1: "m_ker S1 = m_ker S" "m_pc S1 = m_pc S" by (simp_all add: S1_def mutex_init_def Let_def)
  let ?E = "m_at c (Entering m) S1"
  have "mutex_step\<^sup>*\<^sup>* S ?E"
  proof (cases "m_initialized (mutexes S m)")
    case True
    have "mutex_step S (mutex_enter ptr S)" by (rule mutex_call [OF assms])
    then show ?thesis using True m cur by (simp add: mutex_enter_def S1_def)
  next
    case False
    let ?B = "m_at c (Starting m) S"
    have "mutex_step S (mutex_enter ptr S)" by (rule mutex_call [OF assms])
    then have "mutex_step S ?B" using False m cur by (simp add: mutex_enter_def)
    moreover have "mutex_step ?B (mutex_lazy m ?B)" by (rule mutex_starts [of _ c]) (use assms in \<open>simp_all add: m_at_def\<close>)
    moreover have "mutex_lazy m ?B = ?E" using cur False by (simp add: mutex_lazy_def m_at_def S1_def mutex_init_def Let_def)
    ultimately show ?thesis by (metis converse_rtranclp_into_rtranclp r_into_rtranclp)
  qed
  moreover have o: "mutex_step ?E (mutex_owned m ?E)" by (rule mutex_owns [of _ c]) (use assms s1 in \<open>simp_all add: m_at_def\<close>)
  have "mutex_step\<^sup>*\<^sup>* ?E (mutex_lock ptr S)"
  proof (cases "m_owner (mutexes S1 m) = Some c")
    case True
    have "mutex_owned m ?E = m_at c Outside S1" using True cur s1(1) by (simp add: mutex_owned_def m_at_def)
    also have "\<dots> = S1" using assms(2) s1(2) by (simp add: m_at_def fun_upd_idem)
    finally show ?thesis using o True m cur S1_def by (simp add: mutex_lock_def)
  next
    case False
    let ?T = "m_at c (Trying m) S1"
    have "mutex_owned m ?E = ?T" using False cur s1(1) by (simp add: mutex_owned_def m_at_def)
    moreover have "mutex_step ?T (mutex_try m ?T)" by (rule mutex_again [of _ c]) (use assms s1 in \<open>simp_all add: m_at_def\<close>)
    moreover have "mutex_try m ?T = mutex_try m S1" by (rule mutex_try_m_at) (simp add: s1 cur)
    moreover have "mutex_lock ptr S = mutex_try m S1" using m cur False S1_def by (simp add: mutex_lock_def Let_def)
    ultimately show ?thesis using o by (metis converse_rtranclp_into_rtranclp r_into_rtranclp)
  qed
  ultimately show ?thesis by (rule rtranclp_trans)
qed

subsection \<open>Properties\<close>

text \<open>Every mutex initialised and free, every process outside.\<close>

definition mutex_start :: "sched \<Rightarrow> mutex_sys" where
  "mutex_start k = \<lparr>m_ker = k,
     mutexes = (\<lambda>_. mutex_clear \<lparr>m_locked = False, m_initialized = False, m_owner = None, m_waiters = replicate 16 None, m_waiter_count = 0\<rparr>),
     m_registry = replicate 32 None, m_registry_used = 0, m_pc = (\<lambda>_. Outside), m_holds = (\<lambda>_. {})\<rparr>"

lemma mutex_start_inv:
  assumes "sched_inv k" "\<And>i. i < 16 \<Longrightarrow> p_base_priority (pcbs k ! i) < 3"
  shows "mu_inv (mutex_start k)"
  using assms by (simp add: mu_inv_def mu_ok_def mutex_start_def mutex_clear_def waiters_wf_def waiting_def)

text \<open>
  C5: mutual exclusion, for mutexes that \<^verbatim>\<open>mutex_init\<close> has initialised before the first process
  uses them. In every interleaving of lock and unlock calls of the processes other than the shell
  with ticks, yields and sleeps, preemption inside the calls included, at most one process has
  returned from \<^verbatim>\<open>mutex_lock\<close> on a mutex without having released it, and it is the owner recorded
  in the mutex, which is locked. The shell (pid 0) passes \<^verbatim>\<open>mutex_lock\<close> without locking and is
  not counted; no process is killed or exits during the run. Without the initialisation exclusion
  fails (\<open>mutex_lazy_init_race\<close>).
\<close>

theorem mutex_exclusion:
  assumes "mutex_step\<^sup>*\<^sup>* (mutex_start k) S" "sched_inv k" "\<forall>i < 16. p_base_priority (pcbs k ! i) < 3" "m \<in> m_holds S i"
  shows "m_owner (mutexes S m) = Some i \<and> m_locked (mutexes S m) \<and> (\<forall>j. m \<in> m_holds S j \<longrightarrow> j = i)"
proof -
  have "mu_inv S" using mutex_run_inv [OF assms(1)] mutex_start_inv [OF assms(2)] assms(3) by blast
  note d = mu_okD [OF mu_invD(2) [OF this, of m]]
  have o: "m_owner (mutexes S m) = Some i" using d(10) [OF assms(4)] by simp
  show ?thesis
  proof (intro conjI allI impI)
    show "m_owner (mutexes S m) = Some i" "m_locked (mutexes S m)" using o d(5) by simp_all
    show "j = i" if "m \<in> m_holds S j" for j using d(10) [OF that] o by simp
  qed
qed

lemma proc1_base: "i < 16 \<Longrightarrow> p_base_priority (pcbs proc1_running ! i) = 0"
proof -
  have z: "j < 16 \<Longrightarrow> p_base_priority (pcbs sched_boot ! j) = 0" for j
    by (simp add: sched_boot_fields process_init_def Let_def upd_pcb_def empty_pcb_def zero_pcb_def nth_list_update)
  assume "i < 16"
  then show ?thesis using z [of i] z [of 0] z [of 1] sched_invD(8) [OF sched_boot_inv] by (simp add: proc1_running_def pcbs_upd_pcb)
qed

theorem mutex_exclusion_witness:
  "\<exists>S. mutex_step\<^sup>*\<^sup>* (mutex_start proc1_running) S \<and> 0 \<in> m_holds S 1 \<and> m_owner (mutexes S 0) = Some 1"
proof -
  let ?I = "mutex_start proc1_running"
  let ?S = "mutex_lock (Some 0) ?I"
  have run: "mutex_step\<^sup>*\<^sup>* ?I ?S" by (rule mutex_lock_steps [of _ 1]) (use proc1_runs in \<open>simp_all add: mutex_start_def\<close>)
  have h: "0 \<in> m_holds ?S 1" using proc1_runs
    by (simp add: mutex_lock_def mutex_try_def mutex_start_def mutex_clear_def runs_def user_def Let_def m_take_def m_at_def m_upd_def)
  have "\<forall>i < 16. p_base_priority (pcbs proc1_running ! i) < 3" by (simp add: proc1_base)
  from mutex_exclusion [OF run proc1_running_facts(1) this h] have "m_owner (mutexes ?S 0) = Some 1" by blast
  with run h show ?thesis by blast
qed

subsection \<open>The window of the lazy initialisation\<close>

text \<open>
  A process that has found the mutex uninitialised takes it when it goes on, whatever has happened
  to the mutex since.
\<close>

lemma lazy_takes:
  assumes "runs (m_ker S) c" "m_pc S c = Starting m"
  obtains S' where "mutex_step\<^sup>*\<^sup>* S S'" "m_ker S' = upd_pcb c (owner_add m) (m_ker S)"
    "m_pc S' = (m_pc S)(c := Outside)" "m_holds S' = (m_holds S)(c := insert m (m_holds S c))"
proof -
  have cur: "current (m_ker S) = Some c" using assms(1) by (simp add: runs_def)
  define A where "A = mutex_init (Some m) S"
  have A: "m_ker A = m_ker S" "m_pc A = m_pc S" "m_holds A = m_holds S" "mutexes A m = mutex_clear (mutexes S m)"
    by (simp_all add: A_def mutex_init_def Let_def)
  let ?E = "m_at c (Entering m) A" and ?T = "m_at c (Trying m) A"
  have "mutex_step S (mutex_lazy m S)" by (rule mutex_starts [OF assms])
  then have s1: "mutex_step S ?E" using cur by (simp add: mutex_lazy_def A_def)
  have "mutex_step ?E (mutex_owned m ?E)" by (rule mutex_owns [of _ c]) (use assms(1) A(1) in \<open>simp_all add: m_at_def\<close>)
  then have s2: "mutex_step ?E ?T" using cur A(1,4) by (simp add: mutex_owned_def m_at_def mutex_clear_def)
  have s3: "mutex_step ?T (mutex_try m ?T)" by (rule mutex_again [of _ c]) (use assms(1) A(1) in \<open>simp_all add: m_at_def\<close>)
  have "mutex_step\<^sup>*\<^sup>* S (mutex_try m ?T)" using s1 s2 s3 by (meson converse_rtranclp_into_rtranclp r_into_rtranclp)
  moreover have "mutex_try m ?T = m_take c m (m_at c Outside (m_upd c (owner_add m)
      (?T\<lparr>mutexes := (mutexes A)(m := (mutexes A m)\<lparr>m_locked := True, m_owner := Some c\<rparr>)\<rparr>)))"
    using cur A(1,4) by (simp add: mutex_try_def m_at_def Let_def mutex_clear_def)
  ultimately show ?thesis using A(1-3) by (intro that [of "mutex_try m ?T"]) (simp_all add: m_take_def m_at_def m_upd_def)
qed

lemma mutex_ksteps: "kstep\<^sup>*\<^sup>* k k' \<Longrightarrow> mutex_step\<^sup>*\<^sup>* (S\<lparr>m_ker := k\<rparr>) (S\<lparr>m_ker := k'\<rparr>)"
proof (induction rule: rtranclp_induct)
  case (step k' k'')
  have "mutex_step (S\<lparr>m_ker := k'\<rparr>) (S\<lparr>m_ker := k'\<rparr>\<lparr>m_ker := k''\<rparr>)" by (rule mutex_kernel) (use step(2) in simp)
  then show ?case using step(3) by (simp add: rtranclp.rtrancl_into_rtrancl)
qed simp

text \<open>Every mutex as a static variable has it before its first use: all zero.\<close>

definition mutex_static :: "sched \<Rightarrow> mutex_sys" where
  "mutex_static k = (mutex_start k)\<lparr>mutexes :=
     (\<lambda>_. \<lparr>m_locked = False, m_initialized = False, m_owner = None, m_waiters = replicate 16 None, m_waiter_count = 0\<rparr>)\<rparr>"

text \<open>
  no mutual exclusion without \<^verbatim>\<open>mutex_init\<close>. When a process calls \<^verbatim>\<open>mutex_lock\<close> on a mutex
  that nobody has initialised and the tick that ends its turn falls between the test of the flag
  and the initialisation, the next process initialises and locks the mutex, and the first one, when
  it goes on, initialises it again and locks it too: both hold it.
\<close>

theorem mutex_lazy_init_race:
  assumes "sched_inv k" "runs k c" "user k c" "sq k = []" "p_priority (pcbs k ! c) = 0" "c < 15"
    "p_ticks_used (pcbs k ! c) + 1 < p_quantum_ticks (pcbs k ! c)" "p_state (pcbs k ! Suc c) = PROC_READY"
    "p_priority (pcbs k ! Suc c) = 0" "user k (Suc c)"
  shows "\<exists>S. mutex_step\<^sup>*\<^sup>* (mutex_static k) S \<and> m \<in> m_holds S c \<and> m \<in> m_holds S (Suc c)"
proof -
  let ?d = "Suc c"
  let ?A = "mutex_static k" and ?B = "m_at c (Starting m) (mutex_static k)"
  have A: "m_ker ?A = k" "m_pc ?A = (\<lambda>_. Outside)" "\<not> m_initialized (mutexes ?A m)" by (simp_all add: mutex_static_def mutex_start_def)
  have cur: "current k = Some c" using assms(2) by (simp add: runs_def)
  have "mutex_step ?A (mutex_enter (Some m) ?A)" by (rule mutex_call [of _ c]) (use A assms(2) in simp_all)
  then have s1: "mutex_step ?A ?B" using A assms(3) cur by (simp add: mutex_enter_def user_def)
  obtain k1 esp where d: "dispatch 0x9000 True k = (k1, esp)" by fastforce
  note t = tick_to_neighbour [OF assms(1-9) _ d, simplified]
  have k1: "kstep k k1" by (rule kdispatch [OF d])
  have inv1: "sched_inv k1" "user k1 ?d" using kstep_keeps(1) [OF k1 assms(1)] bk.step_user [OF assms(1) k1, of ?d] assms(6,10) by simp_all
  let ?C = "?B\<lparr>m_ker := k1\<rparr>" and ?D = "m_at ?d (Starting m) (?B\<lparr>m_ker := k1\<rparr>)"
  have s2: "mutex_step ?B ?C" by (rule mutex_kernel) (use k1 A in \<open>simp add: m_at_def\<close>)
  have C: "m_ker ?C = k1" "m_pc ?C = (\<lambda>_. Outside)(c := Starting m)" "\<not> m_initialized (mutexes ?C m)" using A by (simp_all add: m_at_def)
  have "mutex_step ?C (mutex_enter (Some m) ?C)" by (rule mutex_call [of _ ?d]) (use C t(1) in simp_all)
  then have s3: "mutex_step ?C ?D" using C inv1(2) t(1) by (simp add: mutex_enter_def user_def runs_def)
  obtain E where E: "mutex_step\<^sup>*\<^sup>* ?D E" "m_ker E = upd_pcb ?d (owner_add m) k1"
    "m_pc E = (m_pc ?D)(?d := Outside)" "m_holds E = (m_holds ?D)(?d := insert m (m_holds ?D ?d))"
    using lazy_takes [of ?D ?d m] t(1) C by (auto simp: m_at_def)
  have len: "length (pcbs k1) = 16" using sched_invD(8) [OF inv1(1)] .
  have inv2: "sched_inv (m_ker E)" unfolding E(2) by (rule upd_neutral(1) [OF inv1(1)]) (use assms(6) in simp_all)
  have E2: "current (m_ker E) = Some ?d" "p_state (m_pcb E c) = PROC_READY" "p_priority (m_pcb E c) = 0"
    using t len assms(6) by (simp_all add: E(2) pcbs_upd_pcb runs_def)
  obtain k2 where k2: "kstep\<^sup>*\<^sup>* (m_ker E) k2" "runs k2 c"
    by (rule ticks_reach [OF inv2 E2(1) _ _ E2(2,3)]) (use assms(6) in simp_all)
  let ?F = "E\<lparr>m_ker := k2\<rparr>"
  have s4: "mutex_step\<^sup>*\<^sup>* E ?F" using mutex_ksteps [OF k2(1), of E] by simp
  have pcF: "m_pc ?F c = Starting m" using E(3) by (simp add: m_at_def)
  obtain G where G: "mutex_step\<^sup>*\<^sup>* ?F G" "m_holds G = (m_holds E)(c := insert m (m_holds E c))"
    using lazy_takes [of ?F c m] k2(2) pcF by auto
  have "mutex_step\<^sup>*\<^sup>* ?A G"
    using s1 s2 s3 E(1) s4 G(1) by (meson converse_rtranclp_into_rtranclp rtranclp_trans)
  moreover have "m \<in> m_holds G c \<and> m \<in> m_holds G ?d" using G(2) E(4) by simp
  ultimately show ?thesis by blast
qed

theorem mutex_lazy_init_race_witness:
  "\<exists>S. mutex_step\<^sup>*\<^sup>* (mutex_static race_ker) S \<and> 0 \<in> m_holds S 1 \<and> 0 \<in> m_holds S 2"
  using mutex_lazy_init_race [OF race_ker_facts, of 0] by (simp add: numeral_2_eq_2)

subsection \<open>Handing over\<close>

text \<open>What an unlock by the owner makes of the PCBs before the priority is recomputed.\<close>

lemma unlock_form:
  assumes "mu_inv S" "runs (m_ker S) c" "m_pc S c = Outside" "m_owner (mutexes S m) = Some c"
  obtains T where "mutex_unlock (Some m) S = recompute_priority c T" "m_pcb T c = owner_remove m (m_pcb S c)" "m_pc T = m_pc S"
    "length (pcbs (m_ker T)) = 16" "\<And>j. p_priority (m_pcb T j) = p_priority (m_pcb S j)"
proof -
  have inv: "sched_inv (m_ker S)" by (rule mu_invD(1) [OF assms(1)])
  have len: "length (pcbs (m_ker S)) = 16" using sched_invD(8) [OF inv] .
  have cur: "current (m_ker S) = Some c" using assms(2) by (simp add: runs_def)
  note d = mu_okD [OF mu_invD(2) [OF assms(1), of m]]
  have c: "c < 16" using bk.cur_bound [OF inv cur] .
  show ?thesis
  proof (cases "m_queue S m")
    case Nil
    have "snd (mutex_waitq_pop (mutexes S m)) = None" using mq.pop_empty [OF d(2) Nil] by simp
    then show ?thesis
      by (intro that [of "unlock_free c m S"])
        (use c len in \<open>simp_all add: mutex_unlock_eq [OF cur assms(4)] unlock_free_def m_upd_def m_drop_def pcbs_upd_pcb\<close>)
  next
    case (Cons n q)
    have pop: "snd (mutex_waitq_pop (mutexes S m)) = Some n"
      using mq.pop_head [OF d(2) Cons] by (cases "mutex_waitq_pop (mutexes S m)") auto
    let ?B = "unlock_pass c n m S"
    have n: "n \<in> asleep (m_ker S)" "n < 16" "n \<noteq> c" using d(4) d(7) [of n] Cons assms(3) by (auto simp: asleep_def)
    note t = tunedD [OF unlock_pass_tuned [OF inv c n(2), of m]]
    have na: "n \<in> asleep (m_ker ?B)" using t(5) n(1) by (simp add: m_drop_def)
    note w = wake_spec [OF t(4) na]
    have B: "m_pcb ?B c = owner_remove m (m_pcb S c)" "p_priority (m_pcb ?B j) = p_priority (m_pcb S j)" for j
      using c n(2,3) len by (simp_all add: unlock_pass_def m_upd_def m_drop_def pcbs_upd_pcb)
    show ?thesis
      by (rule that [of "?B\<lparr>m_ker := scheduler_wake (Some n) (m_ker ?B)\<rparr>"])
        (use pop B w(6,8,9) n(3) t(2) sched_invD(8) [OF t(4)] in \<open>simp_all add: mutex_unlock_eq [OF cur assms(4)] m_drop_def\<close>)
  qed
qed

lemma unlock_hands_over:
  assumes "mu_inv S" "runs (m_ker S) c" "m_pc S c = Outside" "m_owner (mutexes S m) = Some c" "m_queue S m = n # q"
  shows "m_owner (mutexes (mutex_unlock (Some m) S) m) = Some n" "m_locked (mutexes (mutex_unlock (Some m) S) m)"
    "m_queue (mutex_unlock (Some m) S) m = q" "p_state (m_pcb (mutex_unlock (Some m) S) n) = PROC_READY"
    "p_waiting_mutex (m_pcb (mutex_unlock (Some m) S) n) = None"
proof -
  have inv: "sched_inv (m_ker S)" by (rule mu_invD(1) [OF assms(1)])
  have cur: "current (m_ker S) = Some c" using assms(2) by (simp add: runs_def)
  note d = mu_okD [OF mu_invD(2) [OF assms(1), of m]]
  have c: "c < 16" using bk.cur_bound [OF inv cur] .
  obtain y where pop: "mutex_waitq_pop (mutexes S m) = (y, Some n)" "waiting (m_array y) = q"
    using mq.pop_head [OF d(2) assms(5)] by (cases "mutex_waitq_pop (mutexes S m)") auto
  let ?B = "unlock_pass c n m S"
  have n: "n \<in> asleep (m_ker S)" "n < 16" "n \<noteq> c" using d(4) d(7) [of n] assms(3,5) by (auto simp: asleep_def)
  note t = tunedD [OF unlock_pass_tuned [OF inv c n(2), of m]]
  have na: "n \<in> asleep (m_ker ?B)" using t(5) n(1) by (simp add: m_drop_def)
  note w = wake_spec [OF t(4) na]
  have U: "mutex_unlock (Some m) S = recompute_priority c (?B\<lparr>m_ker := scheduler_wake (Some n) (m_ker ?B)\<rparr>)"
    unfolding mutex_unlock_eq [OF cur assms(4)] pop by simp
  have mx: "mutexes (mutex_unlock (Some m) S) m = y\<lparr>m_locked := True, m_owner := Some n\<rparr>"
    unfolding U by (simp add: recompute_eq m_upd_def unlock_pass_def pop m_drop_def)
  then show "m_owner (mutexes (mutex_unlock (Some m) S) m) = Some n" "m_locked (mutexes (mutex_unlock (Some m) S) m)"
    "m_queue (mutex_unlock (Some m) S) m = q" using pop(2) by simp_all
  have pn: "m_pcb (mutex_unlock (Some m) S) n = pcbs (scheduler_wake (Some n) (m_ker ?B)) ! n"
    unfolding U using n(3) c w(9) sched_invD(8) [OF t(4)] by (simp add: recompute_eq m_upd_def pcbs_upd_pcb)
  have "p_waiting_mutex (m_pcb ?B n) = None"
    using n(2) sched_invD(8) [OF inv] by (simp add: unlock_pass_def m_upd_def pcbs_upd_pcb m_drop_def)
  then show "p_waiting_mutex (m_pcb (mutex_unlock (Some m) S) n) = None" using w(7) [of n] by (simp add: pn lock_view_def)
  show "p_state (m_pcb (mutex_unlock (Some m) S) n) = PROC_READY" using pn w(5) by simp
qed

text \<open>
  C29: hand-over. An unlock by the owner frees the mutex when nobody waits; otherwise the process
  that has waited longest becomes the owner, is READY and no longer waits, and the others stay in
  order. An unlock by anyone else, or of a null pointer, changes nothing.
\<close>

theorem mutex_unlock_correct:
  assumes "mu_inv S" "runs (m_ker S) c" "m_pc S c = Outside"
  shows "(if m_owner (mutexes S m) = Some c then
       (case m_queue S m of
          [] \<Rightarrow> m_owner (mutexes (mutex_unlock (Some m) S) m) = None \<and> \<not> m_locked (mutexes (mutex_unlock (Some m) S) m)
                \<and> m_queue (mutex_unlock (Some m) S) m = []
        | n # q \<Rightarrow> m_owner (mutexes (mutex_unlock (Some m) S) m) = Some n \<and> m_locked (mutexes (mutex_unlock (Some m) S) m)
                \<and> m_queue (mutex_unlock (Some m) S) m = q \<and> p_state (m_pcb (mutex_unlock (Some m) S) n) = PROC_READY
                \<and> p_waiting_mutex (m_pcb (mutex_unlock (Some m) S) n) = None)
     else mutex_unlock (Some m) S = S)
     \<and> mutex_unlock None S = S \<and> mu_inv (mutex_unlock (Some m) S)"
proof (cases "m_owner (mutexes S m) = Some c")
  case False
  then show ?thesis using assms by (simp add: mutex_unlock_def runs_def)
next
  case True
  have inv: "sched_inv (m_ker S)" by (rule mu_invD(1) [OF assms(1)])
  have cur: "current (m_ker S) = Some c" using assms(2) by (simp add: runs_def)
  note d = mu_okD [OF mu_invD(2) [OF assms(1), of m]]
  have c: "c < 16" using bk.cur_bound [OF inv cur] .
  note mi = mutex_unlock_inv [OF assms, of m]
  show ?thesis
  proof (cases "m_queue S m")
    case Nil
    have pop: "mutex_waitq_pop (mutexes S m) = (mutexes S m, None)" using mq.pop_empty [OF d(2) Nil] .
    have "mutexes (mutex_unlock (Some m) S) m = mutexes S m\<lparr>m_locked := False, m_owner := None\<rparr>"
      unfolding mutex_unlock_eq [OF cur True] pop by (simp add: recompute_eq m_upd_def unlock_free_def pop m_drop_def)
    then show ?thesis using mi Nil True by (simp add: mutex_unlock_def [of None])
  next
    case (Cons n q)
    show ?thesis using mi True unlock_hands_over [OF assms True Cons] Cons by (simp add: mutex_unlock_def [of None])
  qed
qed

theorem mutex_unlock_correct_witness:
  "m_owner (mutexes (mutex_unlock (Some 0) (mutex_lock (Some 0) (mutex_start proc1_running))) 0) = None"
proof -
  let ?I = "mutex_start proc1_running"
  let ?S = "mutex_lock (Some 0) ?I"
  have st: "mutex_step\<^sup>*\<^sup>* ?I ?S" by (rule mutex_lock_steps [of _ 1]) (use proc1_runs in \<open>simp_all add: mutex_start_def\<close>)
  have inv: "mu_inv ?S" by (rule mutex_run_inv [OF st]) (rule mutex_start_inv [OF proc1_running_facts(1)], simp add: proc1_base)
  have S: "?S = m_take 1 0 (m_at 1 Outside (m_upd 1 (owner_add 0) (?I\<lparr>mutexes := (mutexes ?I)(0 := mutexes ?I 0\<lparr>m_locked := True, m_owner := Some 1\<rparr>)\<rparr>)))"
    using proc1_runs by (simp add: mutex_lock_def mutex_try_def mutex_start_def mutex_clear_def runs_def user_def Let_def)
  have "tuned (?I\<lparr>mutexes := (mutexes ?I)(0 := mutexes ?I 0\<lparr>m_locked := True, m_owner := Some 1\<rparr>)\<rparr>)
     (m_upd 1 (owner_add 0) (?I\<lparr>mutexes := (mutexes ?I)(0 := mutexes ?I 0\<lparr>m_locked := True, m_owner := Some 1\<rparr>)\<rparr>))"
    by (rule tuned_upd) (use proc1_running_facts(1) in \<open>simp_all add: mutex_start_def\<close>)
  from tunedD(6) [OF this] have r: "runs (m_ker ?S) 1" using proc1_runs unfolding S by (simp add: m_take_def m_at_def mutex_start_def)
  have f: "m_pc ?S 1 = Outside" "m_owner (mutexes ?S 0) = Some 1" "m_queue ?S 0 = []"
    unfolding S by (simp_all add: m_take_def m_at_def m_upd_def mutex_start_def mutex_clear_def waiting_def)
  show ?thesis using mutex_unlock_correct [OF inv r f(1), of 0] f(2,3) by simp
qed

text \<open>
  nobody waits for a free mutex. A process that is blocked in \<^verbatim>\<open>mutex_lock\<close> is in the queue
  of the mutex, which is owned by another process that either holds it or has been handed it and
  is able to run.
\<close>

theorem mutex_waiter_has_owner:
  assumes "mu_inv I" "mutex_step\<^sup>*\<^sup>* I S" "i \<in> asleep (m_ker S)" "m_pc S i = Waiting m"
  shows "i \<in> set (m_queue S m) \<and> (\<exists>ow. m_owner (mutexes S m) = Some ow \<and> ow \<noteq> i \<and> (m \<in> m_holds S ow \<or> ow \<notin> asleep (m_ker S)))"
proof -
  have inv: "mu_inv S" by (rule mutex_run_inv [OF assms(2,1)])
  note d = mu_okD [OF mu_invD(2) [OF inv, of m]]
  have q: "i \<in> set (m_queue S m)" by (rule d(8) [OF assms(3,4)])
  then have "m_queue S m \<noteq> []" by auto
  then obtain ow where ow: "m_owner (mutexes S m) = Some ow" using d(6) by blast
  have "ow \<noteq> i" using d(9) [OF ow] d(10) [of ow] q assms(4) by blast
  moreover have "m \<in> m_holds S ow \<or> ow \<notin> asleep (m_ker S)" using d(9) [OF ow] d(8) [of ow] by blast
  ultimately show ?thesis using q ow by blast
qed

subsection \<open>Priority inheritance\<close>

text \<open>Propagation only makes processes more urgent, and never more than the process it starts from.\<close>

lemma propagate_priorities:
  assumes "length (pcbs (m_ker S)) = 16" "\<And>m i. m_owner (mutexes S m) = Some i \<Longrightarrow> i < 16"
  shows "p_priority (m_pcb (propagate_loop g i S) j) = p_priority (m_pcb S j)
     \<or> p_priority (m_pcb (propagate_loop g i S) j) = p_priority (m_pcb S i) \<and> p_priority (m_pcb S i) < p_priority (m_pcb S j)"
  using assms
proof (induction g i S arbitrary: j rule: propagate_loop.induct)
  case (2 g i S)
  show ?case
  proof (cases "\<exists>m ow. p_waiting_mutex (m_pcb S i) = Some m \<and> m_owner (mutexes S m) = Some ow \<and> \<not> p_priority (m_pcb S ow) \<le> p_priority (m_pcb S i)")
    case True
    then obtain m ow where m: "p_waiting_mutex (m_pcb S i) = Some m" "m_owner (mutexes S m) = Some ow" "\<not> p_priority (m_pcb S ow) \<le> p_priority (m_pcb S i)"
      by blast
    let ?T = "m_upd ow (\<lambda>p. p\<lparr>p_priority := p_priority (m_pcb S i)\<rparr>) S"
    have ow: "ow < 16" using "2.prems"(2) [OF m(2)] .
    have pT: "p_priority (m_pcb ?T j) = (if j = ow then p_priority (m_pcb S i) else p_priority (m_pcb S j))" for j
      using ow "2.prems"(1) by (simp add: m_upd_def pcbs_upd_pcb)
    have "length (pcbs (m_ker ?T)) = 16" "mutexes ?T = mutexes S" using "2.prems"(1) by (simp_all add: m_upd_def)
    then have IH: "p_priority (m_pcb (propagate_loop g ow ?T) j) = p_priority (m_pcb ?T j)
        \<or> p_priority (m_pcb (propagate_loop g ow ?T) j) = p_priority (m_pcb ?T ow) \<and> p_priority (m_pcb ?T ow) < p_priority (m_pcb ?T j)"
      using "2.IH" [OF m(1,2,3), folded m_upd_def, of j] "2.prems"(2) by simp
    have e: "propagate_loop (Suc g) i S = propagate_loop g ow ?T" using m by (simp add: m_upd_def)
    show ?thesis unfolding e using IH m(3) by (cases "j = ow") (auto simp: pT not_le)
  next
    case False
    then have "propagate_loop (Suc g) i S = S" by (auto split: option.splits)
    then show ?thesis by simp
  qed
qed simp

lemma boost_priorities:
  assumes "length (pcbs (m_ker S)) = 16" "\<And>m i. m_owner (mutexes S m) = Some i \<Longrightarrow> i < 16" "m_owner (mutexes S m) = Some ow"
  shows "p_priority (m_pcb (boost c m S) j) \<le> p_priority (m_pcb S j)"
    "p_priority (m_pcb (boost c m S) j) = p_priority (m_pcb S j) \<or> p_priority (m_pcb (boost c m S) j) = p_priority (m_pcb S c)"
    "p_priority (m_pcb (boost c m S) ow) \<le> p_priority (m_pcb S c)"
proof -
  let ?T = "m_upd ow (\<lambda>p. p\<lparr>p_priority := p_priority (m_pcb S c)\<rparr>) S"
  have pT: "p_priority (m_pcb ?T j) = (if j = ow then p_priority (m_pcb S c) else p_priority (m_pcb S j))" for j
    using assms(1) assms(2) [OF assms(3)] by (simp add: m_upd_def pcbs_upd_pcb)
  have P: "p_priority (m_pcb (propagate_priority ow ?T) j) = p_priority (m_pcb ?T j)
      \<or> p_priority (m_pcb (propagate_priority ow ?T) j) = p_priority (m_pcb ?T ow) \<and> p_priority (m_pcb ?T ow) < p_priority (m_pcb ?T j)" for j
    unfolding propagate_priority_def by (rule propagate_priorities) (use assms(1,2) in \<open>simp_all add: m_upd_def\<close>)
  have b: "boost c m S = (if p_priority (m_pcb S c) < p_priority (m_pcb S ow) then propagate_priority ow ?T else S)"
    using assms(3) by (simp add: boost_def)
  show "p_priority (m_pcb (boost c m S) j) \<le> p_priority (m_pcb S j)"
    "p_priority (m_pcb (boost c m S) j) = p_priority (m_pcb S j) \<or> p_priority (m_pcb (boost c m S) j) = p_priority (m_pcb S c)"
    unfolding b using P [of j] by (auto simp: pT split: if_splits)
  show "p_priority (m_pcb (boost c m S) ow) \<le> p_priority (m_pcb S c)"
    unfolding b using P [of ow] by (auto simp: pT)
qed

text \<open>
  A contended state: process 1 runs and owns mutex 0, processes 2 (priority 2) and 3 (priority 1)
  wait for it in this order, and process 2 owns mutex 1.
\<close>

definition contend_ker :: sched where
  "contend_ker = upd_pcb 3 (\<lambda>p. p\<lparr>p_pid := 3, p_state := PROC_BLOCKED, p_priority := 1, p_waiting_mutex := Some 0\<rparr>)
     (upd_pcb 2 (\<lambda>p. p\<lparr>p_pid := 2, p_state := PROC_BLOCKED, p_priority := 2, p_waiting_mutex := Some 0\<rparr>) proc1_running)"

definition contended :: mutex_sys where
  "contended = (let fresh = mutexes (mutex_start contend_ker) 0 in
     (mutex_start contend_ker)\<lparr>mutexes := (\<lambda>_. fresh)
        (0 := (fst (mutex_waitq_add 3 (fst (mutex_waitq_add 2 fresh))))\<lparr>m_locked := True, m_owner := Some 1\<rparr>,
         1 := fresh\<lparr>m_locked := True, m_owner := Some 2\<rparr>),
      m_pc := (\<lambda>_. Outside)(2 := Waiting 0, 3 := Waiting 0), m_holds := (\<lambda>_. {})(1 := {0}, 2 := {1})\<rparr>)"

lemma contend_ker_facts:
  "sched_inv contend_ker" "asleep contend_ker = {2, 3}" "runs contend_ker 1" "current contend_ker = Some 1"
  "user contend_ker 1" "user contend_ker 2" "user contend_ker 3"
  "p_priority (pcbs contend_ker ! 2) = 2" "p_priority (pcbs contend_ker ! 3) = 1" "pcbs contend_ker ! 1 = pcbs proc1_running ! 1"
  "i < 16 \<Longrightarrow> p_base_priority (pcbs contend_ker ! i) = 0"
proof -
  let ?f = "\<lambda>p. p\<lparr>p_pid := 2, p_state := PROC_BLOCKED, p_priority := 2, p_waiting_mutex := Some 0\<rparr>"
  let ?g = "\<lambda>p. p\<lparr>p_pid := 3, p_state := PROC_BLOCKED, p_priority := 1, p_waiting_mutex := Some 0\<rparr>"
  let ?k = "upd_pcb 2 ?f proc1_running"
  have pr: "p_state (?f (pcbs proc1_running ! 2)) = PROC_BLOCKED" "p_priority (?f (pcbs proc1_running ! 2)) < 3"
    "current proc1_running \<noteq> Some 2" "p_state (?g (pcbs ?k ! 3)) = PROC_BLOCKED" "p_priority (?g (pcbs ?k ! 3)) < 3"
    using proc1_running_facts(2) by simp_all
  note u = upd_blocked [where f = ?f and i = 2, OF proc1_running_facts(1) _ _ pr(3) proc1_running_facts(5) pr(1,2)]
  have k: "sched_inv ?k" "sq ?k = []" "current ?k \<noteq> Some 3" using u(1,3,4) proc1_running_facts(2) by simp_all
  note v = upd_blocked [where f = ?g and i = 3 and k = ?k, OF k(1) _ _ k(3,2) pr(4,5), folded contend_ker_def]
  show "sched_inv contend_ker" "current contend_ker = Some 1" using v(1,4) u(4) proc1_running_facts(2) by simp_all
  show "asleep contend_ker = {2, 3}" "runs contend_ker 1" using v(2,5) u(2,5) proc1_asleep proc1_runs(1) by auto
  show "user contend_ker 1" "user contend_ker 2" "user contend_ker 3" using v(6) u(6) proc1_runs(2) by simp_all
  have p: "pcbs contend_ker ! j = (if j = 3 then ?g (pcbs proc1_running ! 3) else if j = 2 then ?f (pcbs proc1_running ! 2) else pcbs proc1_running ! j)" for j
    using v(7) [of j] u(7) [of j] u(7) [of 3] by simp
  show "p_priority (pcbs contend_ker ! 2) = 2" "p_priority (pcbs contend_ker ! 3) = 1" "pcbs contend_ker ! 1 = pcbs proc1_running ! 1" by (simp_all add: p)
  show "i < 16 \<Longrightarrow> p_base_priority (pcbs contend_ker ! i) = 0" by (simp add: p proc1_base)
qed

lemma contended_inv: "mu_inv contended" "m_queue contended 0 = [2, 3]" "m_queue contended 1 = []"
proof -
  let ?x = "mutexes (mutex_start contend_ker) 0"
  have x: "waiting (m_array ?x) = []" "waiters_wf (m_array ?x)" "m_initialized ?x" "\<not> m_locked ?x" "m_owner ?x = None"
    by (simp_all add: mutex_start_def mutex_clear_def waiters_wf_def waiting_def)
  let ?y = "fst (mutex_waitq_add 2 ?x)"
  have y: "waiting (m_array ?y) = [2]" "waiters_wf (m_array ?y)" using mq.add_new [of ?x 2] mq.add_wf [of ?x 2] x by simp_all
  let ?z = "fst (mutex_waitq_add 3 ?y)"
  have z: "waiting (m_array ?z) = [2, 3]" "waiters_wf (m_array ?z)" using mq.add_new [of ?y 3] mq.add_wf [of ?y 3] y by simp_all
  have ms: "mutexes contended m = (if m = 0 then ?z\<lparr>m_locked := True, m_owner := Some 1\<rparr> else if m = 1 then ?x\<lparr>m_locked := True, m_owner := Some 2\<rparr> else ?x)" for m
    by (simp add: contended_def Let_def)
  have pc: "m_pc contended i = (if i = 2 \<or> i = 3 then Waiting 0 else Outside)" for i by (simp add: contended_def Let_def)
  have h: "m_holds contended i = (if i = 1 then {0} else if i = 2 then {1} else {})" for i by (simp add: contended_def Let_def)
  have ker: "m_ker contended = contend_ker" by (simp add: contended_def Let_def mutex_start_def)
  show "m_queue contended 0 = [2, 3]" "m_queue contended 1 = []" by (simp_all add: ms z x)
  have "mu_ok contended m" for m
    by (rule mu_okI) (use x z contend_ker_facts(2,5,6) in \<open>auto simp: ms pc h ker split: if_splits\<close>)
  then show "mu_inv contended" using contend_ker_facts(1,6,7,11) by (auto simp: mu_inv_def ker pc)
qed

theorem mutex_waiter_has_owner_witness: "2 \<in> asleep (m_ker contended) \<and> (\<exists>ow. m_owner (mutexes contended 0) = Some ow \<and> ow \<noteq> 2)"
proof -
  have a: "2 \<in> asleep (m_ker contended)" using contend_ker_facts(2) by (simp add: contended_def Let_def mutex_start_def)
  have "m_pc contended 2 = Waiting 0" by (simp add: contended_def Let_def)
  from mutex_waiter_has_owner [OF contended_inv(1) rtranclp.rtrancl_refl a this] a show ?thesis by blast
qed

lemma boost_waiting: "p_waiting_mutex (m_pcb (boost c m S) j) = p_waiting_mutex (m_pcb S j)"
proof -
  have v: "p_waiting_mutex (pcbs (upd_pcb i (\<lambda>p. p\<lparr>p_priority := x\<rparr>) k) ! j) = p_waiting_mutex (pcbs k ! j)" for i x k j
    by (cases "i < length (pcbs k)") (simp_all add: upd_pcb_def nth_list_update list_update_beyond)
  then have u: "p_waiting_mutex (m_pcb (m_upd i (\<lambda>p. p\<lparr>p_priority := x\<rparr>) S) j) = p_waiting_mutex (m_pcb S j)" for i x S j
    by (simp add: m_upd_def)
  have "p_waiting_mutex (m_pcb (propagate_loop g i S) j) = p_waiting_mutex (m_pcb S j)" for g i S
    by (induction g i S rule: propagate_loop.induct) (auto simp: v split: option.splits)
  then show ?thesis by (auto simp: boost_def propagate_priority_def u split: option.splits)
qed

text \<open>
  C30: priority inheritance. A call of \<^verbatim>\<open>mutex_lock\<close> on a mutex that another process owns puts
  the caller at the end of the queue, BLOCKED and marked as waiting for this mutex; afterwards the
  owner is at least as urgent as the caller, no process has become less urgent, and a process
  whose priority changed has exactly the caller's.
\<close>

theorem mutex_lock_inherits:
  assumes "mu_inv S" "runs (m_ker S) c" "user (m_ker S) c" "m_pc S c = Outside" "m_owner (mutexes S m) = Some ow" "ow \<noteq> c"
    and "S' = mutex_lock (Some m) S"
  shows "m_queue S' m = m_queue S m @ [c] \<and> p_state (m_pcb S' c) = PROC_BLOCKED \<and> p_waiting_mutex (m_pcb S' c) = Some m
     \<and> p_priority (m_pcb S' ow) \<le> p_priority (m_pcb S c)
     \<and> (\<forall>i. p_priority (m_pcb S' i) \<le> p_priority (m_pcb S i)
            \<and> (p_priority (m_pcb S' i) = p_priority (m_pcb S i) \<or> p_priority (m_pcb S' i) = p_priority (m_pcb S c)))"
proof -
  let ?y = "fst (mutex_waitq_add c (mutexes S m))"
  let ?S1 = "m_upd c (\<lambda>p. p\<lparr>p_waiting_mutex := Some m\<rparr>) (S\<lparr>mutexes := (mutexes S)(m := ?y)\<rparr>)"
  let ?S2 = "boost c m ?S1"
  have inv: "sched_inv (m_ker S)" by (rule mu_invD(1) [OF assms(1)])
  have cur: "current (m_ker S) = Some c" using assms(2) by (simp add: runs_def)
  have c: "c < 16" using bk.cur_bound [OF inv cur] .
  note d = mu_okD [OF mu_invD(2) [OF assms(1), of m]]
  have lk: "m_locked (mutexes S m)" using d(5) assms(5) by simp
  note w = mutex_try_waits [OF assms(1,2) lk]
  note k = tunedD [OF w(5), simplified]
  have "S' = mutex_try m S" using assms(3,5,6,7) cur d(1) by (simp add: mutex_lock_def user_def)
  then have S': "S' = m_at c (Waiting m) (?S2\<lparr>m_ker := scheduler_block_forever (m_ker ?S2)\<rparr>)" using w(6) by simp
  have r2: "runs (m_ker ?S2) c" "user (m_ker ?S2) c" using k(6,8) assms(2,3) by simp_all
  have len: "length (pcbs (m_ker ?S2)) = 16" using sched_invD(8) [OF k(4)] .
  have pcb: "m_pcb S' i = (if i = c then (m_pcb ?S2 c)\<lparr>p_wake_tick := 0, p_state := PROC_BLOCKED\<rparr> else m_pcb ?S2 i)" for i
    using block_forever_spec(3) [OF k(4) r2] c len by (simp add: S' m_at_def nth_list_update)
  have p1: "p_priority (m_pcb ?S1 i) = p_priority (m_pcb S i)" for i using c sched_invD(8) [OF inv] by (simp add: m_upd_def pcbs_upd_pcb)
  have b: "p_priority (m_pcb ?S2 i) \<le> p_priority (m_pcb S i)"
    "p_priority (m_pcb ?S2 i) = p_priority (m_pcb S i) \<or> p_priority (m_pcb ?S2 i) = p_priority (m_pcb S c)"
    "p_priority (m_pcb ?S2 ow) \<le> p_priority (m_pcb S c)" for i
    using boost_priorities(1,2) [OF sched_invD(8) [OF tunedD(4) [OF w(4)]] w(7) w(8) [unfolded assms(5)], where c = c and j = i]
      boost_priorities(3) [OF sched_invD(8) [OF tunedD(4) [OF w(4)]] w(7) w(8) [unfolded assms(5)], where c = c] unfolding p1 by auto
  have "p_waiting_mutex (m_pcb ?S2 c) = Some m"
    using boost_waiting [of c m ?S1 c] c sched_invD(8) [OF inv] by (simp add: m_upd_def pcbs_upd_pcb)
  moreover have "m_queue S' m = m_queue S m @ [c]" using w(1) k(1) by (simp add: S' m_at_def)
    moreover have "p_priority (m_pcb S' i) = p_priority (m_pcb ?S2 i)" for i by (simp add: pcb)
  moreover have "p_priority (m_pcb ?S2 c) = p_priority (m_pcb S c)" using b(1,2) [of c] by auto
  ultimately show ?thesis using b pcb by simp
qed

theorem mutex_lock_inherits_witness:
  "p_priority (m_pcb contended 2) = 2 \<and> p_priority (m_pcb (mutex_lock (Some 1) contended) 2) = 0"
proof -
  have ker: "m_ker contended = contend_ker" by (simp add: contended_def Let_def mutex_start_def)
  have p1: "p_priority (m_pcb contended 1) = 0"
    using proc1_priority contend_ker_facts(10) by (simp add: ker)
  have "p_priority (m_pcb (mutex_lock (Some 1) contended) 2) \<le> p_priority (m_pcb contended 1)"
    using mutex_lock_inherits [OF contended_inv(1) _ _ _ _ _ refl, of 1 1 2] contend_ker_facts(3,5)
    by (simp add: ker) (simp add: contended_def Let_def)
  then show ?thesis using p1 contend_ker_facts(8) by (simp add: ker)
qed

text \<open>
  giving up an inherited priority. After an unlock by the owner its priority is exactly the
  most urgent of its base priority and the priorities of the processes that wait for a mutex it
  still has on its list.
\<close>

theorem mutex_unlock_priority:
  assumes "mu_inv S" "runs (m_ker S) c" "m_pc S c = Outside" "m_owner (mutexes S m) = Some c"
    and "p_owned_mutexes (m_pcb S c) \<le> length (p_owned_mutex_list (m_pcb S c))" "S' = mutex_unlock (Some m) S"
  shows "p_priority (m_pcb S' c) \<le> p_base_priority (m_pcb S c)
     \<and> (\<forall>x \<in> owned (m_pcb S' c). \<forall>w \<in> set (m_queue S' x). p_priority (m_pcb S' c) \<le> p_priority (m_pcb S' w))
     \<and> (p_priority (m_pcb S' c) = p_base_priority (m_pcb S c)
        \<or> (\<exists>x \<in> owned (m_pcb S' c). \<exists>w \<in> set (m_queue S' x). p_priority (m_pcb S' c) = p_priority (m_pcb S' w)))"
proof -
  obtain T where T: "mutex_unlock (Some m) S = recompute_priority c T" "m_pcb T c = owner_remove m (m_pcb S c)" "m_pc T = m_pc S"
    "length (pcbs (m_ker T)) = 16"
    using unlock_form [OF assms(1-4)] by metis
  have c: "c < 16" using bk.cur_bound [OF mu_invD(1) [OF assms(1)]] assms(2) by (simp add: runs_def)
  have S': "S' = m_upd c (\<lambda>p. p\<lparr>p_priority := inherited c T\<rparr>) T" using T(1) assms(6) recompute_eq by simp
  have f: "mutexes S' = mutexes T" "m_pc S' = m_pc S" using T(3) by (simp_all add: S' m_upd_def)
  have p: "m_pcb S' i = (if i = c then (m_pcb T c)\<lparr>p_priority := inherited c T\<rparr> else m_pcb T i)" for i
    using c T(4) by (simp add: S' m_upd_def pcbs_upd_pcb)
  have inv: "mu_inv S'" using mutex_unlock_inv [OF assms(1-3)] assms(6) by simp
  have wf: "waiters_wf (m_array (mutexes T t))" and nq: "c \<notin> set (m_queue T t)" for t
    using mu_okD(2) [OF mu_invD(2) [OF inv, of t]] mu_okD(7) [OF mu_invD(2) [OF inv, of t], of c] assms(3) f by auto
  have l: "p_owned_mutexes (m_pcb T c) \<le> length (p_owned_mutex_list (m_pcb T c))"
    using assms(5) by (auto simp: T(2) owner_remove_def split: option.splits)
  have o: "owned (m_pcb S' c) = owned (m_pcb T c)" by (simp add: p owned_def)
  have b: "p_base_priority (m_pcb T c) = p_base_priority (m_pcb S c)" by (simp add: T(2))
  note i = inherited_spec [OF wf nq l, unfolded b]
  have w: "w \<noteq> c" if "w \<in> set (m_queue T t)" for w t using that nq by blast
  show ?thesis unfolding o f(1) using i(1,2,3) w by (auto simp: p)
qed

text \<open>
  the new owner of a mutex does not inherit from the processes that still wait for it: when a
  process further back in the queue is more urgent than the one that is handed the mutex, it is
  still more urgent than the owner after the unlock.
\<close>

theorem mutex_handoff_inversion:
  assumes "mu_inv S" "runs (m_ker S) c" "m_pc S c = Outside" "m_owner (mutexes S m) = Some c"
    and "m_queue S m = n # q" "y \<in> set q" "p_priority (m_pcb S y) < p_priority (m_pcb S n)" "S' = mutex_unlock (Some m) S"
  shows "m_owner (mutexes S' m) = Some n \<and> y \<in> set (m_queue S' m) \<and> p_priority (m_pcb S' y) < p_priority (m_pcb S' n)"
proof -
  obtain T where T: "mutex_unlock (Some m) S = recompute_priority c T" "\<And>j. p_priority (m_pcb T j) = p_priority (m_pcb S j)"
    "length (pcbs (m_ker T)) = 16"
    using unlock_form [OF assms(1-4)] by metis
  note d = mu_okD(7) [OF mu_invD(2) [OF assms(1), of m]]
  have ne: "n \<noteq> c" "y \<noteq> c" using d [of n] d [of y] assms(3,5,6) by auto
  have c: "c < 16" using bk.cur_bound [OF mu_invD(1) [OF assms(1)]] assms(2) by (simp add: runs_def)
  have "p_priority (m_pcb S' i) = p_priority (m_pcb S i)" if "i \<noteq> c" for i
    using that c T(3) by (simp add: assms(8) T(1,2) recompute_eq m_upd_def pcbs_upd_pcb)
  then show ?thesis using unlock_hands_over [OF assms(1-5)] assms(6,7,8) ne by simp
qed

theorem mutex_handoff_inversion_witness:
  "m_owner (mutexes (mutex_unlock (Some 0) contended) 0) = Some 2
     \<and> p_priority (m_pcb (mutex_unlock (Some 0) contended) 3) < p_priority (m_pcb (mutex_unlock (Some 0) contended) 2)"
proof -
  have f: "m_ker contended = contend_ker" "m_pc contended 1 = Outside" "m_owner (mutexes contended 0) = Some 1"
    by (simp_all add: contended_def Let_def mutex_start_def)
  have r: "runs (m_ker contended) 1" "p_priority (m_pcb contended 3) < p_priority (m_pcb contended 2)"
    using contend_ker_facts(3,8,9) by (simp_all add: f)
  show ?thesis using mutex_handoff_inversion [OF contended_inv(1) r(1) f(2,3) contended_inv(2) _ r(2) refl] by simp
qed

theorem mutex_unlock_priority_witness:
  "p_priority (m_pcb (mutex_unlock (Some 0) contended) 1) = 0"
proof -
  have f: "m_ker contended = contend_ker" "m_pc contended 1 = Outside" "m_owner (mutexes contended 0) = Some 1"
    by (simp_all add: contended_def Let_def mutex_start_def)
  have r: "runs (m_ker contended) 1" using contend_ker_facts(3) by (simp add: f)
  have l: "p_owned_mutexes (m_pcb contended 1) \<le> length (p_owned_mutex_list (m_pcb contended 1))"
    using proc1_owned contend_ker_facts(10) by (simp add: f)
  have "p_base_priority (m_pcb contended 1) = 0" using contend_ker_facts(11) [of 1] by (simp add: f)
  then show ?thesis using mutex_unlock_priority [OF contended_inv(1) r f(2,3) l refl] by simp
qed

end
