(* ===== verification/Deadlock.thy ===== *)
theory Deadlock
  imports Mutex
begin

text \<open>
  The deadlock detector of \<^verbatim>\<open>kernel/deadlock.c\<close> on the registry and the wait queues of the
  mutexes. The recursion of \<^verbatim>\<open>dfs\<close> is given a bound on its depth; 17 is enough, because every
  call that goes deeper has marked one more of the 16 nodes (\<open>dfs_returns\<close>). The main result says
  exactly when the detector reports a deadlock.
\<close>

subsection \<open>Model\<close>

text \<open>The marks \<^verbatim>\<open>visiting\<close> and \<^verbatim>\<open>done\<close>.\<close>

type_synonym marks = "bool list \<times> bool list"

text \<open>The mutexes the two nested loops look at: the registered ones that have an owner.\<close>

definition owned_registered :: "mutex_sys \<Rightarrow> nat list" where
  "owned_registered S =
     concat (map (\<lambda>i. case mutex_registry_get i S of
        None \<Rightarrow> []
      | Some m \<Rightarrow> if m_owner (mutexes S m) = None then [] else [m]) [0..<m_registry_used S])"

text \<open>The processes \<^verbatim>\<open>dfs(node)\<close> calls itself on, in order.\<close>

definition dfs_calls :: "nat \<Rightarrow> mutex_sys \<Rightarrow> nat list" where
  "dfs_calls node S =
     concat (map (\<lambda>m. concat (map (\<lambda>j. case m_waiters (mutexes S m) ! j of
        None \<Rightarrow> []
      | Some w \<Rightarrow> if MAX_PROCESSES \<le> w then [] else if m_owner (mutexes S m) = Some node then [w] else [])
        [0..<m_waiter_count (mutexes S m)])) (owned_registered S))"

function dfs :: "nat \<Rightarrow> mutex_sys \<Rightarrow> nat \<Rightarrow> marks \<Rightarrow> (bool \<times> marks) option"
  and dfs_loop :: "nat \<Rightarrow> mutex_sys \<Rightarrow> nat list \<Rightarrow> marks \<Rightarrow> (bool \<times> marks) option" where
  "dfs 0 S node vd = None"
| "dfs (Suc fuel) S node vd =
     (if fst vd ! node then Some (True, vd)
      else if snd vd ! node then Some (False, vd)
      else case dfs_loop fuel S (dfs_calls node S) ((fst vd)[node := True], snd vd) of
        None \<Rightarrow> None
      | Some (True, vd1) \<Rightarrow> Some (True, vd1)
      | Some (False, vd1) \<Rightarrow> Some (False, ((fst vd1)[node := False], (snd vd1)[node := True])))"
| "dfs_loop fuel S [] vd = Some (False, vd)"
| "dfs_loop fuel S (w # ws) vd =
     (case dfs fuel S w vd of
        None \<Rightarrow> None
      | Some (True, vd1) \<Rightarrow> Some (True, vd1)
      | Some (False, vd1) \<Rightarrow> dfs_loop fuel S ws vd1)"
  by pat_completeness auto
termination
  by (relation "measures [case_sum (\<lambda>(f, _). f) (\<lambda>(f, _). f), case_sum (\<lambda>_. 0) (\<lambda>(_, _, ws, _). Suc (length ws))]") auto

text \<open>The owners \<^verbatim>\<open>deadlock_detect\<close> starts a search from when it looks at process \<open>i\<close>.\<close>

definition owner_calls :: "nat \<Rightarrow> mutex_sys \<Rightarrow> nat list" where
  "owner_calls i S =
     concat (map (\<lambda>m. concat (map (\<lambda>j.
        if m_waiters (mutexes S m) ! j = Some i
        then (case m_owner (mutexes S m) of None \<Rightarrow> [] | Some ow \<Rightarrow> if ow < MAX_PROCESSES then [ow] else [])
        else []) [0..<m_waiter_count (mutexes S m)])) (owned_registered S))"

fun detect_loop :: "mutex_sys \<Rightarrow> nat list \<Rightarrow> marks \<Rightarrow> bool option" where
  "detect_loop S [] vd = Some False"
| "detect_loop S (i # is) vd =
     (if p_state (m_pcb S i) = PROC_TERMINATED then detect_loop S is vd
      else if fst vd ! i \<or> snd vd ! i then detect_loop S is vd
      else case dfs_loop 17 S (owner_calls i S) ((fst vd)[i := True], snd vd) of
        None \<Rightarrow> None
      | Some (True, vd1) \<Rightarrow> Some True
      | Some (False, vd1) \<Rightarrow> detect_loop S is ((fst vd1)[i := False], (snd vd1)[i := True]))"

definition deadlock_detect :: "mutex_sys \<Rightarrow> bool option" where
  "deadlock_detect S = detect_loop S [0..<MAX_PROCESSES] (replicate MAX_PROCESSES False, replicate MAX_PROCESSES False)"

text \<open>
  The built-in test on a graph of three nodes: \<open>demo_edges\<close> is the inner loop over \<open>next\<close> (it gives
  the value of \<open>next\<close> at its end), \<open>demo_walk\<close> the loop over the stack.
\<close>

definition demo_graph :: "nat list list" where
  "demo_graph = [[0, 1, 0], [0, 0, 1], [1, 0, 0]]"

datatype demo_move = Found | Push nat | Done_node

fun demo_edges :: "nat list \<Rightarrow> nat list \<Rightarrow> nat list \<Rightarrow> demo_move" where
  "demo_edges row st [] = Done_node"
| "demo_edges row st (nx # ns) =
     (if row ! nx = 0 then demo_edges row st ns
      else if st ! nx = 1 then Found
      else if st ! nx = 0 then Push nx
      else demo_edges row st ns)"

fun demo_walk :: "nat \<Rightarrow> nat list list \<Rightarrow> nat list \<Rightarrow> nat list \<Rightarrow> (bool \<times> nat list) option" where
  "demo_walk 0 g st stack = None"
| "demo_walk (Suc fuel) g st [] = Some (False, st)"
| "demo_walk (Suc fuel) g st (node # stack) =
     (let st1 = st[node := 1] in
      case demo_edges (g ! node) st1 [0..<3] of
        Found \<Rightarrow> Some (True, st1)
      | Push nx \<Rightarrow> demo_walk fuel g st1 (nx # node # stack)
      | Done_node \<Rightarrow> demo_walk fuel g (st1[node := 2]) stack)"

fun demo_starts :: "nat \<Rightarrow> nat list list \<Rightarrow> nat list \<Rightarrow> nat list \<Rightarrow> bool option" where
  "demo_starts fuel g st [] = Some False"
| "demo_starts fuel g st (s # ss) =
     (if st ! s \<noteq> 0 then demo_starts fuel g st ss
      else case demo_walk fuel g st [s] of
        None \<Rightarrow> None
      | Some (True, st1) \<Rightarrow> Some True
      | Some (False, st1) \<Rightarrow> demo_starts fuel g st1 ss)"

definition deadlock_demo :: "bool option" where
  "deadlock_demo = demo_starts 7 demo_graph (replicate 3 0) [0..<3]"

subsection \<open>The search\<close>

text \<open>Nodes not being visited; every call that goes deeper marks one more.\<close>

definition fresh :: "bool list \<Rightarrow> nat" where
  "fresh v = card {n. n < 16 \<and> \<not> v ! n}"

lemma fresh_mark: "length v = 16 \<Longrightarrow> n < 16 \<Longrightarrow> \<not> v ! n \<Longrightarrow> Suc (fresh (v[n := True])) = fresh v"
proof -
  assume a: "length v = 16" "n < 16" "\<not> v ! n"
  have "{k. k < 16 \<and> \<not> v ! k} = insert n {k. k < 16 \<and> \<not> v[n := True] ! k}" using a by (auto simp: nth_list_update split: if_splits)
  moreover have "n \<notin> {k. k < 16 \<and> \<not> v[n := True] ! k}" using a by simp
  ultimately show ?thesis by (simp add: fresh_def)
qed

lemma fresh_le: "fresh v \<le> 16"
proof -
  have "fresh v \<le> card {..<16 :: nat}" unfolding fresh_def by (rule card_mono) auto
  then show ?thesis by simp
qed

lemma dfs_calls_bound: "w \<in> set (dfs_calls node S) \<Longrightarrow> w < 16"
  by (auto simp: dfs_calls_def split: option.splits if_splits)

text \<open>
  What a search that reports no cycle leaves behind: the marks of the nodes being visited are as
  before, the node is done, no node is undone, and no node that became done has a successor that
  is being visited.
\<close>

definition search_ok :: "mutex_sys \<Rightarrow> marks \<Rightarrow> marks \<Rightarrow> bool" where
  "search_ok S vd vd' \<longleftrightarrow> fst vd' = fst vd \<and> length (snd vd') = 16 \<and> (\<forall>n < 16. snd vd ! n \<longrightarrow> snd vd' ! n)
     \<and> (\<forall>x < 16. snd vd' ! x \<and> \<not> snd vd ! x \<longrightarrow> (\<forall>w \<in> set (dfs_calls x S). \<not> fst vd ! w))"

lemma search_ok_refl: "length (snd vd) = 16 \<Longrightarrow> search_ok S vd vd"
  by (simp add: search_ok_def)

lemma search_ok_trans: "search_ok S vd vd1 \<Longrightarrow> search_ok S vd1 vd2 \<Longrightarrow> search_ok S vd vd2"
  unfolding search_ok_def by metis

lemma dfs_spec:
  shows "length (fst vd) = 16 \<Longrightarrow> length (snd vd) = 16 \<Longrightarrow> node < 16 \<Longrightarrow> fresh (fst vd) < fuel \<Longrightarrow>
       \<exists>b vd'. dfs fuel S node vd = Some (b, vd') \<and> (\<not> b \<longrightarrow> search_ok S vd vd' \<and> \<not> fst vd ! node \<and> snd vd' ! node)"
    and "length (fst vd) = 16 \<Longrightarrow> length (snd vd) = 16 \<Longrightarrow> set ws \<subseteq> {..<16} \<Longrightarrow> fresh (fst vd) < fuel \<Longrightarrow>
       \<exists>b vd'. dfs_loop fuel S ws vd = Some (b, vd') \<and> (\<not> b \<longrightarrow> search_ok S vd vd' \<and> (\<forall>w \<in> set ws. \<not> fst vd ! w \<and> snd vd' ! w))"
proof (induction fuel S node vd and fuel S ws vd rule: dfs_dfs_loop.induct)
  case (2 fuel S node vd)
  show ?case
  proof (cases "fst vd ! node \<or> snd vd ! node")
    case True
    have "dfs (Suc fuel) S node vd = Some (fst vd ! node, vd)" using True by (cases "fst vd ! node") simp_all
    moreover have "search_ok S vd vd" by (rule search_ok_refl [OF "2.prems"(2)])
    ultimately show ?thesis using True by blast
  next
    case False
    let ?vd = "((fst vd)[node := True], snd vd)"
    have "fresh (fst ?vd) < fuel" using fresh_mark [of "fst vd" node] "2.prems" False by simp
    moreover have "set (dfs_calls node S) \<subseteq> {..<16}" using dfs_calls_bound by blast
    ultimately obtain b vd1 where l: "dfs_loop fuel S (dfs_calls node S) ?vd = Some (b, vd1)"
      and ok: "\<not> b \<Longrightarrow> search_ok S ?vd vd1" "\<And>w. \<not> b \<Longrightarrow> w \<in> set (dfs_calls node S) \<Longrightarrow> \<not> fst ?vd ! w"
      using "2.IH" False "2.prems"(1,2) by auto
    show ?thesis
    proof (cases b)
      case True
      then have "dfs (Suc fuel) S node vd = Some (True, vd1)" using l False by simp
      then show ?thesis by blast
    next
      case nb: False
      let ?r = "((fst vd1)[node := False], (snd vd1)[node := True])"
      have f: "fst vd1 = (fst vd)[node := True]" "length (snd vd1) = 16" using ok(1) [OF nb] by (simp_all add: search_ok_def)
      have v: "fst ?r = fst vd" using f False "2.prems"(1,3) by (simp add: list_update_same_conv)
      have nv: "\<not> fst vd ! w" if "\<not> (fst vd)[node := True] ! w" for w
        using that "2.prems"(1,3) by (cases "w = node") simp_all
      have "search_ok S vd ?r" unfolding search_ok_def
      proof (intro conjI allI impI ballI)
        show "fst ?r = fst vd" by (rule v)
        show "length (snd ?r) = 16" using f by simp
        show "snd ?r ! n" if "n < 16" "snd vd ! n" for n
          using ok(1) [OF nb] that f "2.prems"(3) by (cases "n = node") (auto simp: search_ok_def)
        show "\<not> fst vd ! w" if "x < 16" "snd ?r ! x \<and> \<not> snd vd ! x" "w \<in> set (dfs_calls x S)" for x w
          using ok(1) [OF nb] ok(2) [OF nb, of w] nv [of w] that f by (cases "x = node") (auto simp: search_ok_def)
      qed
      moreover have "dfs (Suc fuel) S node vd = Some (False, ?r)" using l nb False by simp
      ultimately show ?thesis using False "2.prems"(3) f by auto
    qed
  qed
next
  case (3 fuel S vd)
  have "dfs_loop fuel S [] vd = Some (False, vd)" by simp
  then show ?case using search_ok_refl [OF "3.prems"(2)] by auto
next
  case (4 fuel S w ws vd)
  obtain b vd1 where w: "dfs fuel S w vd = Some (b, vd1)" "\<not> b \<longrightarrow> search_ok S vd vd1 \<and> \<not> fst vd ! w \<and> snd vd1 ! w"
    using "4.IH"(1) "4.prems" by auto
  show ?case
  proof (cases b)
    case True
    then have "dfs_loop fuel S (w # ws) vd = Some (True, vd1)" using w(1) by simp
    then show ?thesis by blast
  next
    case False
    then have f: "search_ok S vd vd1" "fst vd1 = fst vd" "length (snd vd1) = 16" using w(2) by (auto simp: search_ok_def)
    obtain c vd2 where l: "dfs_loop fuel S ws vd1 = Some (c, vd2)" "\<not> c \<longrightarrow> search_ok S vd1 vd2 \<and> (\<forall>x \<in> set ws. \<not> fst vd1 ! x \<and> snd vd2 ! x)"
      using "4.IH"(2) [OF w(1) _ , of False vd1] False "4.prems" f by auto
    have "snd vd2 ! w" if "\<not> c" using l(2) that w(2) False "4.prems"(3) by (auto simp: search_ok_def)
    moreover have "dfs_loop fuel S (w # ws) vd = Some (c, vd2)" using w(1) l(1) False by simp
    ultimately show ?thesis using w(2) l(2) False f(2) search_ok_trans [OF f(1), of vd2] by auto
  qed
qed simp


text \<open>
  A search from an unfinished node with a successor that is being visited reports a cycle; a
  search from a finished node reports none and changes nothing.
\<close>

lemma dfs_back_edge:
  assumes "length (fst vd) = 16" "length (snd vd) = 16" "node < 16" "fresh (fst vd) < fuel"
    "\<not> snd vd ! node" "w \<in> set (dfs_calls node S)" "fst vd ! w"
  obtains vd' where "dfs fuel S node vd = Some (True, vd')"
proof -
  obtain b vd' where d: "dfs fuel S node vd = Some (b, vd')" "\<not> b \<longrightarrow> search_ok S vd vd' \<and> \<not> fst vd ! node \<and> snd vd' ! node"
    using dfs_spec(1) [OF assms(1-4)] by blast
  have b using d(2) assms(3,5,6,7) unfolding search_ok_def by metis
  then show ?thesis using that d(1) by simp
qed

lemma dfs_finished: "\<not> fst vd ! node \<Longrightarrow> snd vd ! node \<Longrightarrow> 0 < fuel \<Longrightarrow> dfs fuel S node vd = Some (False, vd)"
  by (cases fuel) simp_all

text \<open>
  The wait-for relation, stated on the mutexes alone: process \<open>i\<close> is in the queue of mutex \<open>m\<close> and
  \<open>ow\<close> owns it. Which mutexes the detector can know is a matter of the registry.
\<close>

definition waits_at :: "mutex_sys \<Rightarrow> nat \<Rightarrow> nat \<Rightarrow> nat \<Rightarrow> bool" where
  "waits_at S i m ow \<longleftrightarrow> m_owner (mutexes S m) = Some ow
     \<and> (\<exists>j < m_waiter_count (mutexes S m). m_waiters (mutexes S m) ! j = Some i)"

definition registered :: "mutex_sys \<Rightarrow> nat \<Rightarrow> bool" where
  "registered S m \<longleftrightarrow> (\<exists>k < m_registry_used S. m_registry S ! k = Some m)"

definition waits_seen :: "mutex_sys \<Rightarrow> nat \<Rightarrow> nat \<Rightarrow> bool" where
  "waits_seen S i ow \<longleftrightarrow> (\<exists>m. registered S m \<and> waits_at S i m ow)"

lemma owned_registered_iff: "set (owned_registered S) = {m. registered S m \<and> m_owner (mutexes S m) \<noteq> None}"
proof (rule set_eqI)
  fix m
  have e: "m \<in> set (case x of None \<Rightarrow> [] | Some m \<Rightarrow> if m_owner (mutexes S m) = None then [] else [m])
      \<longleftrightarrow> x = Some m \<and> m_owner (mutexes S m) \<noteq> None" for x by (cases x) auto
  show "m \<in> set (owned_registered S) \<longleftrightarrow> m \<in> {m. registered S m \<and> m_owner (mutexes S m) \<noteq> None}"
    unfolding owned_registered_def registered_def set_concat set_map set_upt UN_simps UN_iff e by (auto simp: mutex_registry_get_def)
qed

text \<open>
  \<^verbatim>\<open>mutex_init\<close> registers the mutex as long as the registry of 32 has room, and no registered one
  is forgotten.
\<close>

lemma mutex_init_registers:
  assumes "length (m_registry S) = 32" "m_registry_used S < 32 \<or> registered S m"
  shows "registered (mutex_init (Some m) S) m" "registered S x \<Longrightarrow> registered (mutex_init (Some m) S) x"
proof -
  have sc: "scan (\<lambda>i. m_registry S ! i = Some m) 0 (m_registry_used S) = None \<longleftrightarrow> \<not> registered S m"
    by (auto simp: scan_None_iff registered_def)
  show "registered (mutex_init (Some m) S) m"
  proof (cases "registered S m")
    case True
    then show ?thesis using sc by (simp add: mutex_init_def Let_def) (simp add: registered_def)
  next
    case False
    then show ?thesis using sc assms by (simp add: mutex_init_def Let_def registered_def) (metis lessI nth_list_update_eq)
  qed
  show "registered (mutex_init (Some m) S) x" if "registered S x"
    using that assms(1) by (auto simp: mutex_init_def Let_def registered_def nth_list_update) (metis less_SucI less_irrefl)
qed

lemma dfs_calls_iff: "set (dfs_calls node S) = {w. w < 16 \<and> waits_seen S w node}"
proof (rule set_eqI)
  fix w
  have "w \<in> set (dfs_calls node S) \<longleftrightarrow> (\<exists>m \<in> set (owned_registered S). \<exists>j < m_waiter_count (mutexes S m).
      m_waiters (mutexes S m) ! j = Some w \<and> w < 16 \<and> m_owner (mutexes S m) = Some node)"
  proof -
    have "w \<in> set (case x of None \<Rightarrow> [] | Some w \<Rightarrow> if MAX_PROCESSES \<le> w then [] else if b then [w] else []) \<longleftrightarrow> x = Some w \<and> w < 16 \<and> b" for x b
      by (cases x) auto
    then show ?thesis unfolding dfs_calls_def by (simp add: Bex_def) blast
  qed
  then show "w \<in> set (dfs_calls node S) \<longleftrightarrow> w \<in> {w. w < 16 \<and> waits_seen S w node}" by (auto simp: waits_seen_def waits_at_def owned_registered_iff)
qed

lemma owner_calls_iff: "set (owner_calls i S) = {ow. ow < 16 \<and> waits_seen S i ow}"
proof (rule set_eqI)
  fix ow
  have "ow \<in> set (owner_calls i S) \<longleftrightarrow> (\<exists>m \<in> set (owned_registered S). \<exists>j < m_waiter_count (mutexes S m).
      m_waiters (mutexes S m) ! j = Some i \<and> ow < 16 \<and> m_owner (mutexes S m) = Some ow)"
  proof -
    have "ow \<in> set (if b then (case x of None \<Rightarrow> [] | Some ow \<Rightarrow> if ow < MAX_PROCESSES then [ow] else []) else []) \<longleftrightarrow> b \<and> ow < 16 \<and> x = Some ow" for x b
      by (cases b; cases x) auto
    note e = this
    show ?thesis unfolding owner_calls_def set_concat set_map UN_iff image_iff bex_simps e by fastforce
  qed
  then show "ow \<in> set (owner_calls i S) \<longleftrightarrow> ow \<in> {ow. ow < 16 \<and> waits_seen S i ow}" by (auto simp: waits_seen_def waits_at_def owned_registered_iff)
qed

text \<open>The searches started for process \<open>i\<close>: they report a cycle exactly if one of the owners is not done.\<close>

lemma searches_for:
  assumes "length v = 16" "length d = 16" "i < 16" "v ! i" "\<And>n. n < 16 \<Longrightarrow> v ! n \<Longrightarrow> n = i" "\<not> d ! i" "set ws \<subseteq> set (owner_calls i S)"
  shows "if \<forall>ow \<in> set ws. d ! ow then dfs_loop 17 S ws (v, d) = Some (False, (v, d))
     else \<exists>vd'. dfs_loop 17 S ws (v, d) = Some (True, vd')"
  using assms(7)
proof (induction ws)
  case (Cons ow ws)
  have ow: "ow < 16" "i \<in> set (dfs_calls ow S)" using Cons.prems assms(3) owner_calls_iff [of i S] dfs_calls_iff [of ow S] by auto
  show ?case
  proof (cases "d ! ow")
    case True
    then have "\<not> v ! ow" using assms(5) [OF ow(1)] assms(6) by auto
    then have "dfs 17 S ow (v, d) = Some (False, (v, d))" using True by (intro dfs_finished) simp_all
    then show ?thesis using Cons True by (cases "\<forall>ow \<in> set ws. d ! ow") auto
  next
    case False
    have "fresh (fst (v, d)) < 17" using fresh_le [of v] by simp
    then obtain vd' where "dfs 17 S ow (v, d) = Some (True, vd')"
      using dfs_back_edge [of "(v, d)" ow 17 i S] assms(1,2,4) ow False by auto
    then show ?thesis using False by simp
  qed
qed simp

subsection \<open>What the detector reports\<close>

abbreviation alive :: "mutex_sys \<Rightarrow> nat \<Rightarrow> bool" where
  "alive S i \<equiv> p_state (m_pcb S i) \<noteq> PROC_TERMINATED"

text \<open>The marks when the loop comes to process \<open>i\<close>: nothing is being visited, the processes before it are done.\<close>

lemma detect_loop_eq:
  assumes "i \<le> 16" "length d = 16" "\<And>n. n < 16 \<Longrightarrow> d ! n \<longleftrightarrow> n < i \<and> alive S n"
  shows "detect_loop S [i..<16] (replicate 16 False, d)
     = Some (\<exists>k \<in> {i..<16}. \<exists>ow < 16. alive S k \<and> waits_seen S k ow \<and> (k \<le> ow \<or> \<not> alive S ow))"
  using assms
proof (induction "16 - i" arbitrary: i d)
  case 0
  then show ?case by simp
next
  case (Suc n)
  have i: "i < 16" using Suc.hyps(2) by simp
  have up: "[i..<16] = i # [Suc i..<16]" using i by (simp add: upt_conv_Cons)
  have set: "{i..<16} = insert i {Suc i..<16}" using i by auto
  have nd: "\<not> d ! i" using Suc.prems(3) [OF i] by simp
  let ?v = "(replicate 16 False)[i := True]"
  have v: "n < 16 \<Longrightarrow> ?v ! n \<Longrightarrow> n = i" for n by (cases "n = i") simp_all
  have IH: "detect_loop S [Suc i..<16] (replicate 16 False, d')
      = Some (\<exists>k \<in> {Suc i..<16}. \<exists>ow < 16. alive S k \<and> waits_seen S k ow \<and> (k \<le> ow \<or> \<not> alive S ow))"
    if "length d' = 16" "\<And>n. n < 16 \<Longrightarrow> d' ! n \<longleftrightarrow> n < Suc i \<and> alive S n" for d'
    using Suc.hyps(1) [of "Suc i" d'] Suc.hyps(2) i that by simp
  show ?case
  proof (cases "alive S i")
    case False
    have "d ! n \<longleftrightarrow> n < Suc i \<and> alive S n" if "n < 16" for n
      using Suc.prems(3) [OF that] False by (auto simp: less_Suc_eq)
    from IH [OF Suc.prems(2) this] show ?thesis using False by (simp add: up set)
  next
    case True
    have u: "?v ! i" "length ?v = 16" using i by simp_all
    note s = searches_for [OF u(2) Suc.prems(2) i u(1) v nd subset_refl, of S]
    have dn: "(\<forall>ow \<in> set (owner_calls i S). d ! ow) \<longleftrightarrow> \<not> (\<exists>ow < 16. waits_seen S i ow \<and> (i \<le> ow \<or> \<not> alive S ow))"
      unfolding owner_calls_iff using Suc.prems(3) by auto
    show ?thesis
    proof (cases "\<exists>ow < 16. waits_seen S i ow \<and> (i \<le> ow \<or> \<not> alive S ow)")
      case True
      then obtain vd' where "dfs_loop 17 S (owner_calls i S) (?v, d) = Some (True, vd')" using s dn by auto
      then show ?thesis using True \<open>alive S i\<close> nd i by (auto simp: up set)
    next
      case False
      then have l: "dfs_loop 17 S (owner_calls i S) (?v, d) = Some (False, (?v, d))" using s dn by auto
      have r: "?v[i := False] = replicate 16 False" using i by (simp add: list_update_same_conv)
      have "d[i := True] ! n \<longleftrightarrow> n < Suc i \<and> alive S n" if "n < 16" for n
        using Suc.prems(2) Suc.prems(3) [OF that] that i True by (cases "n = i") auto
      from IH [OF _ this] have "detect_loop S [Suc i..<16] (replicate 16 False, d[i := True])
          = Some (\<exists>k \<in> {Suc i..<16}. \<exists>ow < 16. alive S k \<and> waits_seen S k ow \<and> (k \<le> ow \<or> \<not> alive S ow))"
        using Suc.prems(2) by simp
      then show ?thesis using True False l r nd i by (simp add: up set) blast
    qed
  qed
qed

lemma detect_eq: "deadlock_detect S = Some (\<exists>i < 16. \<exists>ow < 16. alive S i \<and> waits_seen S i ow \<and> (i \<le> ow \<or> \<not> alive S ow))"
proof -
  have "deadlock_detect S = Some (\<exists>k \<in> {0..<16}. \<exists>ow < 16. alive S k \<and> waits_seen S k ow \<and> (k \<le> ow \<or> \<not> alive S ow))"
    unfolding deadlock_detect_def by (rule detect_loop_eq) simp_all
  then show ?thesis by (simp add: Bex_def)
qed

text \<open>The wait-for graph of the processes that are not terminated.\<close>

definition wait_edge :: "mutex_sys \<Rightarrow> nat \<Rightarrow> nat \<Rightarrow> bool" where
  "wait_edge S i ow \<longleftrightarrow> i < 16 \<and> ow < 16 \<and> alive S i \<and> alive S ow \<and> (\<exists>m. waits_at S i m ow)"

lemma wait_edge_seen:
  assumes "wait_edge S i ow" "\<And>m. m_owner (mutexes S m) \<noteq> None \<Longrightarrow> 0 < m_waiter_count (mutexes S m) \<Longrightarrow> registered S m"
  shows "i < 16" "ow < 16" "alive S i" "alive S ow" "waits_seen S i ow"
proof -
  obtain m where m: "waits_at S i m ow" using assms(1) by (auto simp: wait_edge_def)
  have "registered S m" by (rule assms(2)) (use m in \<open>auto simp: waits_at_def\<close>)
  with m show "waits_seen S i ow" by (auto simp: waits_seen_def)
qed (use assms(1) in \<open>simp_all add: wait_edge_def\<close>)

lemma no_rise_decreases:
  assumes "(wait_edge S)\<^sup>+\<^sup>+ a b" "\<And>i ow. wait_edge S i ow \<Longrightarrow> ow < i"
  shows "b < a"
  using assms(1) by (induction rule: tranclp_induct) (use assms(2) in \<open>auto intro: less_trans\<close>)

text \<open>
  C16: no deadlock is missed among the mutexes the registry knows. When every mutex that somebody
  owns and somebody waits for is in the registry (it has 32 places; \<^verbatim>\<open>mutex_init\<close> forgets the
  mutexes beyond), a cycle of whatever length in the wait-for graph of the processes that are not
  terminated makes \<^verbatim>\<open>deadlock_detect\<close> return, and answer yes.
\<close>

theorem deadlock_detect_complete:
  assumes "(wait_edge S)\<^sup>+\<^sup>+ a a"
    and "\<forall>m. m_owner (mutexes S m) \<noteq> None \<longrightarrow> 0 < m_waiter_count (mutexes S m) \<longrightarrow> (\<exists>k < m_registry_used S. m_registry S ! k = Some m)"
  shows "deadlock_detect S = Some True"
proof (rule ccontr)
  assume no: "deadlock_detect S \<noteq> Some True"
  have reg: "registered S m" if "m_owner (mutexes S m) \<noteq> None" "0 < m_waiter_count (mutexes S m)" for m
    using assms(2) that by (simp add: registered_def)
  have "ow < i" if "wait_edge S i ow" for i ow
    using no wait_edge_seen [OF that reg] unfolding detect_eq by (auto simp: not_le)
  from no_rise_decreases [OF assms(1) this] show False by simp
qed

text \<open>
  The search returns in every state (its depth never exceeds 17 calls), and its answer is exactly
  this one.
\<close>

lemma deadlock_detect_exact:
  "deadlock_detect S = Some (\<exists>i < 16. \<exists>ow < 16. \<exists>m. alive S i \<and> registered S m \<and> waits_at S i m ow \<and> (i \<le> ow \<or> \<not> alive S ow))"
  by (simp add: detect_eq waits_seen_def) blast

text \<open>
  plain contention is reported as a deadlock. When a process waits for a mutex that a process
  with a larger index owns, the answer is yes although that owner waits for nothing, so that no
  cycle goes through it.
\<close>

theorem deadlock_false_alarm:
  assumes "wait_edge S i ow" "i < ow" "\<forall>x. \<not> wait_edge S ow x"
    "\<forall>m. m_owner (mutexes S m) \<noteq> None \<longrightarrow> 0 < m_waiter_count (mutexes S m) \<longrightarrow> registered S m"
  shows "deadlock_detect S = Some True \<and> \<not> (wait_edge S)\<^sup>+\<^sup>+ ow ow \<and> (\<forall>x. (wait_edge S)\<^sup>+\<^sup>+ i x \<longrightarrow> \<not> (wait_edge S)\<^sup>+\<^sup>+ ow x)"
proof -
  have "\<not> (wait_edge S)\<^sup>+\<^sup>+ ow x" for x using assms(3) by (auto dest: tranclpD)
  moreover have "deadlock_detect S = Some True" using wait_edge_seen [OF assms(1)] assms(2,4) unfolding detect_eq using less_imp_le by blast
  ultimately show ?thesis by blast
qed

text \<open>Process 2 waits for mutex 0, which process 3 owns; and a cycle of the two.\<close>

definition contention :: mutex_sys where
  "contention = (let S = mutex_start contend_ker; fresh = mutexes S 0 in
     S\<lparr>mutexes := (mutexes S)(0 := (fst (mutex_waitq_add 2 fresh))\<lparr>m_locked := True, m_owner := Some 3\<rparr>),
       m_registry := (m_registry S)[0 := Some 0], m_registry_used := 1\<rparr>)"

definition crossed :: mutex_sys where
  "crossed = (let fresh = mutexes (mutex_start contend_ker) 0 in
     contention\<lparr>mutexes := (mutexes contention)(1 := (fst (mutex_waitq_add 3 fresh))\<lparr>m_locked := True, m_owner := Some 2\<rparr>),
       m_registry := (m_registry contention)[1 := Some 1], m_registry_used := 2\<rparr>)"

lemma contend_alive: "p_state (pcbs contend_ker ! 2) = PROC_BLOCKED" "p_state (pcbs contend_ker ! 3) = PROC_BLOCKED"
  using contend_ker_facts(2) by (auto simp: asleep_def)

lemma fresh_queue: "waitq = fst (mutex_waitq_add p (mutexes (mutex_start k) 0)) \<Longrightarrow>
    m_waiter_count waitq = 1 \<and> m_waiters waitq = (replicate 16 None)[0 := Some p]"
  by (simp add: mutex_start_def mutex_clear_def mutex_waitq_add_def in_waiters_def push_waiter_def scan.simps Let_def)

lemma contention_mutexes:
  "m_waiter_count (mutexes contention m) = of_bool (m = 0)" "m_waiters (mutexes contention 0) ! 0 = Some 2"
  "m_owner (mutexes contention 0) = Some 3" "m_registry_used contention = 1" "m_registry contention ! 0 = Some 0" "m_ker contention = contend_ker"
proof -
  let ?q = "fst (mutex_waitq_add 2 (mutexes (mutex_start contend_ker) 0))"
  have q: "m_waiter_count ?q = 1" "m_waiters ?q = (replicate 16 None)[0 := Some 2]" using fresh_queue [OF refl, of 2 contend_ker] by simp_all
  have m: "mutexes contention 0 = ?q\<lparr>m_locked := True, m_owner := Some 3\<rparr>" by (simp add: contention_def Let_def)
  have "m \<noteq> 0 \<Longrightarrow> m_waiter_count (mutexes contention m) = 0" by (simp add: contention_def Let_def mutex_start_def mutex_clear_def)
  then show "m_waiter_count (mutexes contention m) = of_bool (m = 0)" using q(1) m by (cases "m = 0") simp_all
  show "m_waiters (mutexes contention 0) ! 0 = Some 2" "m_owner (mutexes contention 0) = Some 3" using q(2) m by simp_all
  show "m_registry_used contention = 1" "m_registry contention ! 0 = Some 0" "m_ker contention = contend_ker"
    by (simp_all add: contention_def Let_def mutex_start_def)
qed

theorem deadlock_false_alarm_witness: "deadlock_detect contention = Some True \<and> \<not> (wait_edge contention)\<^sup>+\<^sup>+ 3 3"
proof -
  have "waits_at contention i m ow \<longleftrightarrow> m = 0 \<and> i = 2 \<and> ow = 3" for i m ow
    using contention_mutexes(1) [of m] contention_mutexes(2,3) by (cases "m = 0") (auto simp: waits_at_def)
  then have "wait_edge contention i ow \<longleftrightarrow> i = 2 \<and> ow = 3" for i ow
    using contend_alive by (auto simp: wait_edge_def contention_mutexes(6))
  moreover have "registered contention m" if "0 < m_waiter_count (mutexes contention m)" for m
    using that contention_mutexes(4,5) by (simp add: contention_mutexes(1) registered_def)
  ultimately show ?thesis using deadlock_false_alarm [of contention 2 3] by simp
qed

lemma crossed_mutexes:
  "m_waiter_count (mutexes crossed m) = of_bool (m < 2)" "m_waiters (mutexes crossed 0) ! 0 = Some 2"
  "m_waiters (mutexes crossed 1) ! 0 = Some 3" "m_owner (mutexes crossed 0) = Some 3" "m_owner (mutexes crossed 1) = Some 2"
  "m_registry_used crossed = 2" "m_registry crossed ! 0 = Some 0" "m_registry crossed ! 1 = Some 1" "m_ker crossed = contend_ker"
proof -
  let ?q = "fst (mutex_waitq_add 3 (mutexes (mutex_start contend_ker) 0))"
  have q: "m_waiter_count ?q = 1" "m_waiters ?q = (replicate 16 None)[0 := Some 3]" using fresh_queue [OF refl, of 3 contend_ker] by simp_all
  have m: "mutexes crossed 1 = ?q\<lparr>m_locked := True, m_owner := Some 2\<rparr>" "m \<noteq> 1 \<Longrightarrow> mutexes crossed m = mutexes contention m" for m
    by (simp_all add: crossed_def Let_def)
  show "m_waiter_count (mutexes crossed m) = of_bool (m < 2)"
    using q(1) m(1) m(2) [of m] contention_mutexes(1) [of m] by (cases "m = 1") (auto simp: less_2_cases_iff)
  show "m_waiters (mutexes crossed 0) ! 0 = Some 2" "m_owner (mutexes crossed 0) = Some 3" using m(2) [of 0] contention_mutexes(2,3) by simp_all
  show "m_waiters (mutexes crossed 1) ! 0 = Some 3" "m_owner (mutexes crossed 1) = Some 2" using m(1) q(2) by simp_all
  show "m_registry_used crossed = 2" "m_registry crossed ! 0 = Some 0" "m_registry crossed ! 1 = Some 1" "m_ker crossed = contend_ker"
    by (simp_all add: crossed_def contention_def Let_def mutex_start_def)
qed

theorem deadlock_detect_complete_witness: "(wait_edge crossed)\<^sup>+\<^sup>+ 2 2 \<and> deadlock_detect crossed = Some True"
proof -
  have "waits_at crossed 2 0 3" "waits_at crossed 3 1 2" using crossed_mutexes(2-5) by (auto simp: waits_at_def crossed_mutexes(1))
  then have "wait_edge crossed 2 3" "wait_edge crossed 3 2"
    using contend_alive by (auto simp: wait_edge_def crossed_mutexes(9))
  then have c: "(wait_edge crossed)\<^sup>+\<^sup>+ 2 2" by (meson tranclp.r_into_trancl tranclp.trancl_into_trancl)
  have "\<exists>k < m_registry_used crossed. m_registry crossed ! k = Some m" if "0 < m_waiter_count (mutexes crossed m)" for m
  proof -
    have "m = 0 \<or> m = 1" using that by (auto simp: crossed_mutexes(1) less_2_cases_iff split: if_splits)
    then show ?thesis using crossed_mutexes(6-8) by (auto simp: less_2_cases_iff)
  qed
  with c deadlock_detect_complete [OF c] show ?thesis by blast
qed

text \<open>The built-in test on the cycle of three nodes finds the cycle.\<close>

lemma deadlock_demo_passes: "deadlock_demo = Some True"
  by code_simp

end
