(* ===== verification/Ramdisk.thy ===== *)
theory Ramdisk
  imports Kernel_Prelude
begin

text \<open>
  The RAM disk of \<^verbatim>\<open>kernel/ramdisk.c\<close>: 256 blocks of 4096 bytes in one array, whose last two
  blocks hold a write-ahead journal (header and before-image). A block write is the list of
  the stores it performs, in program order, so that an interruption between any two of them
  is a prefix of that list; the main theorem is that recovery after any such prefix leaves the
  target block wholly old or wholly new. The block interface the file system relies on is the
  locale \<open>block_device\<close>.
\<close>

unbundle bit_operations_syntax

subsection \<open>Layout\<close>

abbreviation RAMDISK_BLOCK_SIZE :: nat where "RAMDISK_BLOCK_SIZE \<equiv> 4096"
abbreviation RAMDISK_BLOCKS :: nat where "RAMDISK_BLOCKS \<equiv> 256"
abbreviation JOURNAL_MAGIC :: u32 where "JOURNAL_MAGIC \<equiv> 0x4A4E4C31"
abbreviation JOURNAL_BLOCK :: nat where "JOURNAL_BLOCK \<equiv> 254"
abbreviation JOURNAL_DATA_BLOCK :: nat where "JOURNAL_DATA_BLOCK \<equiv> 255"

type_synonym disk = "u8 list"

text \<open>Offset of a block in the array, and of the fields of \<^verbatim>\<open>journal_header_t\<close>.\<close>

definition block_off :: "nat \<Rightarrow> nat" where
  "block_off b = b * RAMDISK_BLOCK_SIZE"

definition j_magic :: "disk \<Rightarrow> u32" where "j_magic d = get32 d (block_off JOURNAL_BLOCK)"
definition j_target :: "disk \<Rightarrow> u32" where "j_target d = get32 d (block_off JOURNAL_BLOCK + 4)"
definition j_checksum :: "disk \<Rightarrow> u32" where "j_checksum d = get32 d (block_off JOURNAL_BLOCK + 8)"
definition j_committed :: "disk \<Rightarrow> u32" where "j_committed d = get32 d (block_off JOURNAL_BLOCK + 12)"

definition set_j_magic :: "u32 \<Rightarrow> disk \<Rightarrow> disk" where "set_j_magic v = put32 (block_off JOURNAL_BLOCK) v"
definition set_j_target :: "u32 \<Rightarrow> disk \<Rightarrow> disk" where "set_j_target v = put32 (block_off JOURNAL_BLOCK + 4) v"
definition set_j_checksum :: "u32 \<Rightarrow> disk \<Rightarrow> disk" where "set_j_checksum v = put32 (block_off JOURNAL_BLOCK + 8) v"
definition set_j_committed :: "u32 \<Rightarrow> disk \<Rightarrow> disk" where "set_j_committed v = put32 (block_off JOURNAL_BLOCK + 12) v"

subsection \<open>Operations\<close>

text \<open>\<open>checksum32 d p n\<close> hashes the \<open>n\<close> bytes at offset \<open>p\<close> (32-bit FNV-1a).\<close>

definition checksum32 :: "disk \<Rightarrow> nat \<Rightarrow> nat \<Rightarrow> u32" where
  "checksum32 d p n = fold (\<lambda>i h. (h XOR ucast (d ! (p + i))) * 16777619) [0..<n] 2166136261"

text \<open>\<open>copy_steps\<close> are the stores of \<^verbatim>\<open>copy_bytes\<close>, one per byte.\<close>

definition copy_steps :: "nat \<Rightarrow> nat \<Rightarrow> nat \<Rightarrow> (disk \<Rightarrow> disk) list" where
  "copy_steps dst src n = map (\<lambda>i d. d[dst + i := d ! (src + i)]) [0..<n]"

text \<open>Running a list of stores.\<close>

definition run :: "('s \<Rightarrow> 's) list \<Rightarrow> 's \<Rightarrow> 's" where
  "run fs s = fold (\<lambda>f. f) fs s"

definition copy_bytes :: "nat \<Rightarrow> nat \<Rightarrow> nat \<Rightarrow> disk \<Rightarrow> disk" where
  "copy_bytes dst src n = run (copy_steps dst src n)"

definition journal_clear_steps :: "(disk \<Rightarrow> disk) list" where
  "journal_clear_steps = [set_j_magic 0, set_j_target 0, set_j_checksum 0, set_j_committed 0]"

definition journal_clear :: "disk \<Rightarrow> disk" where
  "journal_clear = run journal_clear_steps"

definition journal_recover :: "disk \<Rightarrow> disk" where
  "journal_recover d =
     (if j_magic d \<noteq> JOURNAL_MAGIC \<or> 256 \<le> j_target d \<or> j_target d = 254 \<or> j_target d = 255 then d
      else if checksum32 d (block_off JOURNAL_DATA_BLOCK) RAMDISK_BLOCK_SIZE \<noteq> j_checksum d
        then journal_clear d
      else if j_committed d = 0
        then journal_clear (copy_bytes (block_off (unat (j_target d))) (block_off JOURNAL_DATA_BLOCK)
               RAMDISK_BLOCK_SIZE d)
      else journal_clear d)"

definition ramdisk_init :: "disk \<Rightarrow> disk" where
  "ramdisk_init d = journal_recover d"

text \<open>Buffers are byte arrays, \<open>None\<close> the null pointer.\<close>

definition ramdisk_read_block :: "disk \<Rightarrow> u32 \<Rightarrow> u8 list option \<Rightarrow> u8 list option" where
  "ramdisk_read_block d block buf =
     (case buf of None \<Rightarrow> None
      | Some dst \<Rightarrow>
          if 256 \<le> block then Some dst
          else Some (fold (\<lambda>i dst. dst[i := d ! (block_off (unat block) + i)]) [0..<RAMDISK_BLOCK_SIZE] dst))"

text \<open>The stores of the body of \<^verbatim>\<open>ramdisk_write_block\<close>.\<close>

definition write_steps :: "u32 \<Rightarrow> u8 list \<Rightarrow> (disk \<Rightarrow> disk) list" where
  "write_steps block src =
     copy_steps (block_off JOURNAL_DATA_BLOCK) (block_off (unat block)) RAMDISK_BLOCK_SIZE
     @ [set_j_magic JOURNAL_MAGIC, set_j_target block,
        (\<lambda>d. set_j_checksum (checksum32 d (block_off JOURNAL_DATA_BLOCK) RAMDISK_BLOCK_SIZE) d),
        set_j_committed 0]
     @ map (\<lambda>i d. d[block_off (unat block) + i := src ! i]) [0..<RAMDISK_BLOCK_SIZE]
     @ [set_j_committed 1]
     @ journal_clear_steps"

definition ramdisk_write_block :: "u32 \<Rightarrow> u8 list option \<Rightarrow> disk \<Rightarrow> disk \<times> int" where
  "ramdisk_write_block block buf d =
     (case buf of None \<Rightarrow> (d, -1)
      | Some src \<Rightarrow>
          if 256 \<le> block then (d, -1)
          else if block = 254 \<or> block = 255 then (d, -1)
          else (run (write_steps block src) d, 0))"

definition ramdisk_zero_block :: "u32 \<Rightarrow> disk \<Rightarrow> disk" where
  "ramdisk_zero_block block d = fst (ramdisk_write_block block (Some (replicate RAMDISK_BLOCK_SIZE 0)) d)"

text \<open>The machine stops after the first \<open>k\<close> stores of a block write.\<close>

definition crash_write :: "nat \<Rightarrow> u32 \<Rightarrow> u8 list \<Rightarrow> disk \<Rightarrow> disk" where
  "crash_write k block src d = run (take k (write_steps block src)) d"

subsection \<open>Stores\<close>

definition block_of :: "disk \<Rightarrow> nat \<Rightarrow> u8 list" where
  "block_of d b = map (\<lambda>i. d ! (block_off b + i)) [0..<RAMDISK_BLOCK_SIZE]"

lemma run_append: "run (fs @ gs) s = run gs (run fs s)"
  by (simp add: run_def)

lemma run_simps [simp]: "run [] s = s" "run (f # fs) s = run fs (f s)"
  by (simp_all add: run_def)

lemma length_block_of [simp]: "length (block_of d b) = 4096"
  by (simp add: block_of_def)

lemma block_of_eq_iff: "block_of d b = block_of e c \<longleftrightarrow> (\<forall>i < 4096. d ! (block_off b + i) = e ! (block_off c + i))"
  by (auto simp: block_of_def)

lemma block_of_eq_list: "length xs = 4096 \<Longrightarrow> block_of d b = xs \<longleftrightarrow> (\<forall>i < 4096. d ! (block_off b + i) = xs ! i)"
  by (auto simp: list_eq_iff_nth_eq block_of_def)

text \<open>A loop of byte stores writes exactly its range.\<close>

lemma run_stores:
  fixes d :: "'a list"
  shows "length (run (map (\<lambda>i d. d[a + i := x i]) [0..<n]) d) = length d
    \<and> (\<forall>k < length d. run (map (\<lambda>i d. d[a + i := x i]) [0..<n]) d ! k =
        (if a \<le> k \<and> k < a + n then x (k - a) else d ! k))"
proof (induction n)
  case 0
  then show ?case by auto
next
  case (Suc n)
  let ?e = "run (map (\<lambda>i d. d[a + i := x i]) [0..<n]) d"
  have "run (map (\<lambda>i d. d[a + i := x i]) [0..<Suc n]) d = ?e[a + n := x n]"
    by (simp add: run_append)
  then show ?case using Suc by (auto simp: nth_list_update less_Suc_eq)
qed

lemma run_copy:
  assumes "src + n \<le> dst \<or> dst + n \<le> src" "src + n \<le> length d"
  shows "run (copy_steps dst src n) d = run (map (\<lambda>i e. e[dst + i := d ! (src + i)]) [0..<n]) d"
proof -
  have "run (copy_steps dst src m) d = run (map (\<lambda>i e. e[dst + i := d ! (src + i)]) [0..<m]) d" if "m \<le> n" for m
    using that
  proof (induction m)
    case 0
    then show ?case by (simp add: copy_steps_def)
  next
    case (Suc m)
    let ?e = "run (map (\<lambda>i e. e[dst + i := d ! (src + i)]) [0..<m]) d"
    have "?e ! (src + m) = d ! (src + m)"
      using run_stores [of dst "\<lambda>i. d ! (src + i)" m d] assms Suc.prems by auto
    then show ?case using Suc by (simp add: copy_steps_def run_append)
  qed
  then show ?thesis by simp
qed

lemma copy_bytes_nth:
  assumes "src + n \<le> dst \<or> dst + n \<le> src" "src + n \<le> length d"
  shows "length (copy_bytes dst src n d) = length d"
    "k < length d \<Longrightarrow> copy_bytes dst src n d ! k = (if dst \<le> k \<and> k < dst + n then d ! (src + (k - dst)) else d ! k)"
  using run_stores [of dst "\<lambda>i. d ! (src + i)" n d] by (simp_all add: copy_bytes_def run_copy [OF assms])
subsection \<open>The journal, abstractly\<close>

text \<open>
  The disk as the journal sees it: the four header fields and the contents of the other
  blocks. Every store acts on this view in the obvious way.
\<close>

record jview =
  jm :: u32
  jt :: u32
  jc :: u32
  jk :: u32
  jb :: "nat \<Rightarrow> u8 list"

definition view :: "disk \<Rightarrow> jview" where
  "view d = \<lparr>jm = j_magic d, jt = j_target d, jc = j_checksum d, jk = j_committed d,
     jb = (\<lambda>b. if b < 256 \<and> b \<noteq> 254 then block_of d b else [])\<rparr>"

definition hash :: "u8 list \<Rightarrow> u32" where
  "hash bs = fold (\<lambda>b h. (h XOR ucast b) * 16777619) bs 2166136261"

abbreviation disk_size :: nat where "disk_size \<equiv> 1048576"

lemma checksum32_block: "checksum32 d (block_off b) 4096 = hash (block_of d b)"
  by (simp add: checksum32_def hash_def block_of_def fold_map comp_def)

lemmas header_defs = j_magic_def j_target_def j_checksum_def j_committed_def
  set_j_magic_def set_j_target_def set_j_checksum_def set_j_committed_def

lemma length_header [simp]:
  "length (set_j_magic v d) = length d" "length (set_j_target v d) = length d"
  "length (set_j_checksum v d) = length d" "length (set_j_committed v d) = length d"
  by (simp_all add: header_defs)

lemma block_of_put32_header:
  assumes "b \<noteq> 254" "block_off 254 \<le> k" "k + 4 \<le> block_off 255"
  shows "block_of (put32 k v d) b = block_of d b"
proof -
  have "block_off b + i < k \<or> k + 4 \<le> block_off b + i" if "i < 4096" for i
    using assms that by (cases "b < 254") (auto simp: block_off_def)
  then show ?thesis by (auto simp: block_of_eq_iff nth_put32_other)
qed

lemma view_header [simp]:
  assumes "length d = disk_size"
  shows "view (set_j_magic v d) = (view d)\<lparr>jm := v\<rparr>" "view (set_j_target v d) = (view d)\<lparr>jt := v\<rparr>"
    "view (set_j_checksum v d) = (view d)\<lparr>jc := v\<rparr>" "view (set_j_committed v d) = (view d)\<lparr>jk := v\<rparr>"
  using assms
  by (simp_all add: view_def header_defs block_of_put32_header get32_put32_same get32_put32_other block_off_def
      cong: if_cong)

lemma block_of_store:
  assumes "block_off b + i < length d" "i < 4096"
  shows "block_of (d[block_off b + i := x]) c = (if c = b then (block_of d b)[i := x] else block_of d c)"
proof -
  have "block_off b + i = block_off c + j \<longleftrightarrow> c = b \<and> i = j" if "j < 4096" for j
    using that assms(2) by (cases b c rule: linorder_cases) (auto simp: block_off_def)
  then show ?thesis using assms(1)
    by (auto simp: block_of_def list_eq_iff_nth_eq nth_list_update)
qed

lemma get32_store_other: "j < k \<or> k + 4 \<le> j \<Longrightarrow> get32 (d[j := x]) k = get32 d k"
  by (auto simp: get32_def)

lemma view_store:
  assumes "length d = disk_size" "b < 256" "b \<noteq> 254" "i < 4096"
  shows "view (d[block_off b + i := x]) = (view d)\<lparr>jb := (jb (view d))(b := (jb (view d) b)[i := x])\<rparr>"
proof -
  have "block_off b + i < block_off 254 \<or> block_off 255 \<le> block_off b + i"
    using assms(2-4) by (cases "b = 255") (auto simp: block_off_def)
  then have "get32 (d[block_off b + i := x]) (block_off 254 + j) = get32 d (block_off 254 + j)" if "j < 16" for j
    using that by (intro get32_store_other) (auto simp: block_off_def)
  from this [of 0] this [of 4] this [of 8] this [of 12]
  moreover have "block_off b + i < length d" using assms by (auto simp: block_off_def)
  ultimately show ?thesis using assms
    by (auto simp: view_def header_defs block_of_store fun_eq_iff)
qed

lemma view_stores:
  assumes "length d = disk_size" "b < 256" "b \<noteq> 254" "n \<le> 4096" "length xs = 4096"
  shows "length (run (map (\<lambda>i d. d[block_off b + i := xs ! i]) [0..<n]) d) = disk_size
    \<and> view (run (map (\<lambda>i d. d[block_off b + i := xs ! i]) [0..<n]) d) =
      (view d)\<lparr>jb := (jb (view d))(b := take n xs @ drop n (jb (view d) b))\<rparr>"
  using assms(4)
proof (induction n)
  case 0
  then show ?case using assms(1) by simp
next
  case (Suc n)
  have len: "length (jb (view d) b) = 4096" using assms(2,3) by (simp add: view_def)
  then have "(take n xs @ drop n (jb (view d) b))[n := xs ! n] = take (Suc n) xs @ drop (Suc n) (jb (view d) b)"
    using Suc.prems assms(5)
    by (auto simp: list_eq_iff_nth_eq nth_append nth_list_update min_def less_Suc_eq)
  then show ?case using Suc assms by (simp add: run_append view_store fun_upd_def cong: if_cong)
qed

lemma view_copy:
  assumes "length d = disk_size" "b < 254" "n \<le> 4096"
  shows "length (run (take n (copy_steps (block_off 255) (block_off b) 4096)) d) = disk_size
    \<and> view (run (take n (copy_steps (block_off 255) (block_off b) 4096)) d) =
      (view d)\<lparr>jb := (jb (view d))(255 := take n (jb (view d) b) @ drop n (jb (view d) 255))\<rparr>"
proof -
  have "take n (copy_steps (block_off 255) (block_off b) 4096) = copy_steps (block_off 255) (block_off b) n"
    using assms(3) by (simp add: copy_steps_def take_map)
  moreover have "run (copy_steps (block_off 255) (block_off b) n) d =
      run (map (\<lambda>i e. e[block_off 255 + i := d ! (block_off b + i)]) [0..<n]) d"
    using assms by (intro run_copy) (auto simp: block_off_def)
  moreover have "map (\<lambda>i e. e[block_off 255 + i := d ! (block_off b + i)]) [0..<n] =
      map (\<lambda>i e. e[block_off 255 + i := block_of d b ! i]) [0..<n]"
    using assms(3) by (auto simp: block_of_def)
  moreover have "jb (view d) b = block_of d b" using assms(2) by (simp add: view_def)
  ultimately show ?thesis using view_stores [of d 255 n "block_of d b"] assms by simp
qed

lemma view_copy_back:
  assumes "length d = disk_size" "b < 254"
  shows "length (copy_bytes (block_off b) (block_off 255) 4096 d) = disk_size
    \<and> view (copy_bytes (block_off b) (block_off 255) 4096 d) = (view d)\<lparr>jb := (jb (view d))(b := jb (view d) 255)\<rparr>"
proof -
  have "copy_bytes (block_off b) (block_off 255) 4096 d =
      run (map (\<lambda>i e. e[block_off b + i := d ! (block_off 255 + i)]) [0..<4096]) d"
    unfolding copy_bytes_def using assms by (intro run_copy) (auto simp: block_off_def)
  also have "map (\<lambda>i e. e[block_off b + i := d ! (block_off 255 + i)]) [0..<4096] =
      map (\<lambda>i e. e[block_off b + i := block_of d 255 ! i]) [0..<4096]"
    by (auto simp: block_of_def)
  finally show ?thesis using view_stores [of d b 4096 "block_of d 255"] assms
    by (simp add: view_def [of d])
qed

lemma view_clear:
  "length d = disk_size \<Longrightarrow> length (journal_clear d) = disk_size
     \<and> view (journal_clear d) = (view d)\<lparr>jm := 0, jt := 0, jc := 0, jk := 0\<rparr>"
  by (simp add: journal_clear_def journal_clear_steps_def)

text \<open>Recovery on the view.\<close>

definition recover_view :: "jview \<Rightarrow> jview" where
  "recover_view A =
     (if jm A \<noteq> JOURNAL_MAGIC \<or> 254 \<le> jt A then A
      else if hash (jb A 255) \<noteq> jc A \<or> jk A \<noteq> 0 then A\<lparr>jm := 0, jt := 0, jc := 0, jk := 0\<rparr>
      else A\<lparr>jm := 0, jt := 0, jc := 0, jk := 0, jb := (jb A)(unat (jt A) := jb A 255)\<rparr>)"

lemma view_recover:
  assumes "length d = disk_size"
  shows "length (ramdisk_init d) = disk_size \<and> view (ramdisk_init d) = recover_view (view d)"
proof -
  have t: "256 \<le> j_target d \<or> j_target d = 254 \<or> j_target d = 255 \<longleftrightarrow> 254 \<le> j_target d"
    by (auto simp: word_le_nat_alt word_unat_eq_iff)
  have "unat (j_target d) < 254" if "\<not> 254 \<le> j_target d" using that by (simp add: word_le_nat_alt)
  then show ?thesis
    using assms view_clear [OF assms] view_copy_back [OF assms, of "unat (j_target d)"]
      view_clear [of "copy_bytes (block_off (unat (j_target d))) (block_off 255) 4096 d"]
    unfolding ramdisk_init_def journal_recover_def t recover_view_def
    by (auto simp: checksum32_block view_def [of d])
qed

subsection \<open>Interrupted writes\<close>

text \<open>
  Between operations the journal is idle: no valid header, and what is left of an earlier one
  cannot cause a restore.
\<close>

definition journal_idle :: "jview \<Rightarrow> bool" where
  "journal_idle A \<longleftrightarrow> jm A \<noteq> JOURNAL_MAGIC \<and> jt A < 254 \<and> (jk A = 0 \<longrightarrow> jt A = 0 \<and> jc A = 0)"

definition disk_ok :: "disk \<Rightarrow> bool" where
  "disk_ok d \<longleftrightarrow> length d = disk_size \<and> journal_idle (view d)"

abbreviation logged :: "jview \<Rightarrow> nat \<Rightarrow> (nat \<Rightarrow> u8 list)" where
  "logged A t \<equiv> (jb A)(255 := jb A t)"

text \<open>The view after each prefix of the stores of a write.\<close>

lemma crash_copying:
  assumes "length d = disk_size" "unat block < 254" "k \<le> 4096"
  shows "\<exists>x. view (crash_write k block src d) = (view d)\<lparr>jb := (jb (view d))(255 := x)\<rparr>
     \<and> length (crash_write k block src d) = disk_size"
proof -
  have "take k (write_steps block src) = take k (copy_steps (block_off 255) (block_off (unat block)) 4096)"
    using assms(3) by (simp add: write_steps_def copy_steps_def)
  then show ?thesis using view_copy [OF assms] by (auto simp: crash_write_def)
qed

lemma length_copy_steps [simp]: "length (copy_steps dst src n) = n"
  by (simp add: copy_steps_def)

lemma view_logged:
  assumes "length d = disk_size" "unat block < 254"
  defines "e \<equiv> run (copy_steps (block_off 255) (block_off (unat block)) 4096) d"
  shows "length e = disk_size" "view e = (view d)\<lparr>jb := logged (view d) (unat block)\<rparr>"
proof -
  have "length (jb (view d) 255) = 4096" "length (jb (view d) (unat block)) = 4096"
    using assms(2) by (simp_all add: view_def)
  then show "length e = disk_size" "view e = (view d)\<lparr>jb := logged (view d) (unat block)\<rparr>"
    using view_copy [OF assms(1,2), of 4096] by (simp_all add: e_def)
qed

lemma take_4: "take (4 + i) (w # x # y # z # zs) = w # x # y # z # take i zs"
  by (simp add: numeral_eq_Suc)

lemma crash_prefixes:
  fixes src :: "u8 list"
  defines "st \<equiv> \<lambda>b n. map (\<lambda>i (d :: disk). d[block_off (unat b) + i := src ! i]) [0..<n]"
  shows "crash_write 4097 block src d = set_j_magic JOURNAL_MAGIC (run (copy_steps (block_off 255) (block_off (unat block)) 4096) d)"
    "crash_write 4098 block src d = set_j_target block (crash_write 4097 block src d)"
    "crash_write 4099 block src d = set_j_checksum (checksum32 (crash_write 4098 block src d) (block_off 255) 4096) (crash_write 4098 block src d)"
    "i \<le> 4096 \<Longrightarrow> crash_write (4100 + i) block src d = run (st block i) (set_j_committed 0 (crash_write 4099 block src d))"
    "crash_write (8197 + j) block src d = run (take j journal_clear_steps) (set_j_committed 1 (crash_write 8196 block src d))"
proof -
  show "crash_write 4097 block src d = set_j_magic JOURNAL_MAGIC (run (copy_steps (block_off 255) (block_off (unat block)) 4096) d)"
    "crash_write 4098 block src d = set_j_target block (crash_write 4097 block src d)"
    "crash_write 4099 block src d = set_j_checksum (checksum32 (crash_write 4098 block src d) (block_off 255) 4096) (crash_write 4098 block src d)"
    by (simp_all add: crash_write_def write_steps_def run_append)
  assume "i \<le> 4096"
  then have "take i (st block 4096) = st block i" by (simp add: st_def take_map)
  then show "crash_write (4100 + i) block src d = run (st block i) (set_j_committed 0 (crash_write 4099 block src d))"
    using \<open>i \<le> 4096\<close> by (simp add: crash_write_def write_steps_def run_append st_def take_4)
next
  show "crash_write (8197 + j) block src d = run (take j journal_clear_steps) (set_j_committed 1 (crash_write 8196 block src d))"
    by (simp add: crash_write_def write_steps_def run_append take_4 [of "4097 + j", simplified])
qed

lemma hash_of_view: "hash (block_of d 255) = hash (jb (view d) 255)"
  by (simp add: view_def)

lemma view_headers:
  assumes "length d = disk_size" "unat block < 254"
  defines "A \<equiv> (view d)\<lparr>jb := logged (view d) (unat block)\<rparr>"
  shows "length (crash_write 4097 block src d) = disk_size" "view (crash_write 4097 block src d) = A\<lparr>jm := JOURNAL_MAGIC\<rparr>"
    "length (crash_write 4098 block src d) = disk_size" "view (crash_write 4098 block src d) = A\<lparr>jm := JOURNAL_MAGIC, jt := block\<rparr>"
    "length (crash_write 4099 block src d) = disk_size"
    "view (crash_write 4099 block src d) = A\<lparr>jm := JOURNAL_MAGIC, jt := block, jc := hash (jb (view d) (unat block))\<rparr>"
proof -
  note l = view_logged [OF assms(1,2)]
  show l1: "length (crash_write 4097 block src d) = disk_size"
    and v1: "view (crash_write 4097 block src d) = A\<lparr>jm := JOURNAL_MAGIC\<rparr>"
    using l by (simp_all add: crash_prefixes(1) A_def)
  show l2: "length (crash_write 4098 block src d) = disk_size"
    and v2: "view (crash_write 4098 block src d) = A\<lparr>jm := JOURNAL_MAGIC, jt := block\<rparr>"
    using l1 v1 by (simp_all add: crash_prefixes(2))
  show "length (crash_write 4099 block src d) = disk_size"
    using l2 by (simp add: crash_prefixes(3))
  show "view (crash_write 4099 block src d) = A\<lparr>jm := JOURNAL_MAGIC, jt := block, jc := hash (jb (view d) (unat block))\<rparr>"
    using l2 v2 by (simp add: crash_prefixes(3) checksum32_block hash_of_view A_def)
qed

lemma view_target:
  assumes "length d = disk_size" "unat block < 254" "length src = 4096" "i \<le> 4096"
  shows "length (crash_write (4100 + i) block src d) = disk_size"
    "view (crash_write (4100 + i) block src d) =
       (view d)\<lparr>jb := (logged (view d) (unat block))(unat block := take i src @ drop i (jb (view d) (unat block))),
         jm := JOURNAL_MAGIC, jt := block, jc := hash (jb (view d) (unat block)), jk := 0\<rparr>"
  using view_stores [of "set_j_committed 0 (crash_write 4099 block src d)" "unat block" i src]
    view_headers(5,6) [OF assms(1,2), of src] assms(2-4)
  by (simp_all add: crash_prefixes(4) [OF assms(4)])

lemma view_commit:
  assumes "length d = disk_size" "unat block < 254" "length src = 4096"
  shows "length (crash_write (8197 + j) block src d) = disk_size"
    "\<exists>m t c k. view (crash_write (8197 + j) block src d) =
       (view d)\<lparr>jb := (logged (view d) (unat block))(unat block := src), jm := m, jt := t, jc := c, jk := k\<rparr>
       \<and> (j = 0 \<and> m = JOURNAL_MAGIC \<or> m = 0) \<and> (t = block \<or> t = 0) \<and> (k = 1 \<or> k = 0 \<and> m = 0 \<and> t = 0 \<and> c = 0)"
proof -
  let ?e = "set_j_committed 1 (crash_write 8196 block src d)"
  have e: "length ?e = disk_size" "view ?e = (view d)\<lparr>jb := (logged (view d) (unat block))(unat block := src),
      jm := JOURNAL_MAGIC, jt := block, jc := hash (jb (view d) (unat block)), jk := 1\<rparr>"
    using view_target [OF assms, of 4096] assms by (simp_all add: view_def [of d])
  let ?h = "hash (jb (view d) (unat block))"
  let ?V = "\<lambda>m t c k. (view d)\<lparr>jb := (logged (view d) (unat block))(unat block := src), jm := m, jt := t, jc := c, jk := k\<rparr>"
  let ?f = "run (take j journal_clear_steps) ?e"
  have "j = 0 \<or> j = 1 \<or> j = 2 \<or> j = 3 \<or> 4 \<le> j" by auto
  then have f: "length ?f = disk_size \<and>
      (j = 0 \<and> view ?f = ?V JOURNAL_MAGIC block ?h 1 \<or> view ?f = ?V 0 block ?h 1 \<or> view ?f = ?V 0 0 ?h 1
       \<or> view ?f = ?V 0 0 0 1 \<or> view ?f = ?V 0 0 0 0)"
    unfolding journal_clear_steps_def using e by (elim disjE) simp_all
  then show "length (crash_write (8197 + j) block src d) = disk_size" by (simp add: crash_prefixes(5))
  show "\<exists>m t c k. view (crash_write (8197 + j) block src d) = ?V m t c k
       \<and> (j = 0 \<and> m = JOURNAL_MAGIC \<or> m = 0) \<and> (t = block \<or> t = 0) \<and> (k = 1 \<or> k = 0 \<and> m = 0 \<and> t = 0 \<and> c = 0)"
    unfolding crash_prefixes(5) using f by blast
qed

lemma recover_idle [simp]: "journal_idle (A\<lparr>jm := 0, jt := 0, jc := 0, jk := 0\<rparr>)"
  "journal_idle (A\<lparr>jm := 0, jt := 0, jc := 0, jk := 0, jb := B\<rparr>)"
  by (simp_all add: journal_idle_def)

lemma recover_logged:
  assumes "journal_idle A" "unat block < 254" "hash (jb A (unat block)) \<noteq> 0 \<or> block = 0"
    and "t = jt A \<and> c = jc A \<or> t = block"
  defines "R \<equiv> recover_view (A\<lparr>jb := logged A (unat block), jm := JOURNAL_MAGIC, jt := t, jc := c\<rparr>)"
  shows "journal_idle R" "b < 254 \<Longrightarrow> jb R b = jb A b"
proof -
  have t: "\<not> 254 \<le> t" using assms(1,2,4) by (auto simp: journal_idle_def word_less_nat_alt word_le_nat_alt)
  then show "journal_idle R" by (simp add: R_def recover_view_def)
  assume "b < 254"
  show "jb R b = jb A b"
  proof (cases "hash (jb A (unat block)) = c \<and> jk A = 0")
    case True
    then have "t = block" using assms(1,3,4) by (auto simp: journal_idle_def)
    then show ?thesis using True t \<open>b < 254\<close> by (simp add: R_def recover_view_def)
  next
    case False
    then show ?thesis using t \<open>b < 254\<close> by (auto simp: R_def recover_view_def)
  qed
qed

lemma crash_recover_view:
  fixes k :: nat
  assumes "disk_ok d" "unat block < 254" "length src = 4096" "hash (jb (view d) (unat block)) \<noteq> 0 \<or> block = 0"
  defines "R \<equiv> recover_view (view (crash_write k block src d))"
  shows "journal_idle R \<and> (\<forall>b < 254. jb R b = (if b = unat block \<and> 8196 < k then src else jb (view d) b))
     \<and> length (crash_write k block src d) = disk_size"
proof -
  have len: "length d = disk_size" and idle: "journal_idle (view d)" using assms(1) by (simp_all add: disk_ok_def)
  have "k \<le> 4096 \<or> k = 4097 \<or> k = 4098 \<or> k = 4099 \<or> k = 4100 + (k - 4100) \<and> k - 4100 \<le> 4096
      \<or> k = 8197 + (k - 8197)" by linarith
  then consider "k \<le> 4096" | "k = 4097" | "k = 4098" | "k = 4099" | i where "k = 4100 + i" "i \<le> 4096" | j where "k = 8197 + j"
    by metis
  then show ?thesis
  proof cases
    case 1
    from crash_copying [OF len assms(2) 1, of src] obtain x where
      "view (crash_write k block src d) = (view d)\<lparr>jb := (jb (view d))(255 := x)\<rparr>"
      "length (crash_write k block src d) = disk_size" by blast
    then show ?thesis using idle 1 by (simp add: R_def recover_view_def journal_idle_def)
  next
    case 2
    note v = view_headers(1,2) [OF len assms(2), of src]
    show ?thesis using recover_logged [OF idle assms(2,4), of "jt (view d)" "jc (view d)"] v 2
      by (simp add: R_def)
  next
    case 3
    note v = view_headers(3,4) [OF len assms(2), of src]
    show ?thesis using recover_logged [OF idle assms(2,4), of block "jc (view d)"] v 3
      by (simp add: R_def)
  next
    case 4
    note v = view_headers(5,6) [OF len assms(2), of src]
    show ?thesis using recover_logged [OF idle assms(2,4), of block] v 4
      by (simp add: R_def)
  next
    case (5 i)
    have "block < 254" using assms(2) by (simp add: word_less_nat_alt)
    then show ?thesis using view_target [OF len assms(2,3) 5(2)] 5 assms(2)
      by (auto simp: R_def recover_view_def)
  next
    case (6 j)
    from view_commit [OF len assms(2,3), of j] obtain m t c kk where
      l: "length (crash_write k block src d) = disk_size" and
      v: "view (crash_write k block src d) =
       (view d)\<lparr>jb := (logged (view d) (unat block))(unat block := src), jm := m, jt := t, jc := c, jk := kk\<rparr>" and
      f: "(m = JOURNAL_MAGIC \<or> m = 0)" "(t = block \<or> t = 0)" "(kk = 1 \<or> kk = 0 \<and> m = 0 \<and> t = 0 \<and> c = 0)"
      unfolding 6 by blast
    have "block < 254" using assms(2) by (simp add: word_less_nat_alt)
    then have t: "\<not> 254 \<le> t" "t < 254" using f(2) by auto
    have k: "8196 < k" using 6 by simp
    show ?thesis
    proof (cases "m = 0")
      case True
      then have "R = view (crash_write k block src d)" by (simp add: R_def v recover_view_def)
      moreover have "journal_idle (view (crash_write k block src d))"
        using True t f(3) by (auto simp: v journal_idle_def)
      ultimately show ?thesis using l k assms(2) by (simp add: v)
    next
      case False
      then have "R = (view (crash_write k block src d))\<lparr>jm := 0, jt := 0, jc := 0, jk := 0\<rparr>"
        using f(1,3) t by (simp add: R_def v recover_view_def)
      then show ?thesis using l k assms(2) by (simp add: v)
    qed
  qed
qed

subsection \<open>Block interface\<close>

text \<open>
  What the file system relies on: blocks \<open>b < size\<close> are independent cells; a write to one
  succeeds and is what a later read returns, and every other block keeps its contents.
\<close>

locale block_device =
  fixes inv :: "'d \<Rightarrow> bool" and size_of :: nat and rd :: "'d \<Rightarrow> nat \<Rightarrow> u8 list"
    and wr :: "nat \<Rightarrow> u8 list \<Rightarrow> 'd \<Rightarrow> 'd"
  assumes wr_inv: "inv d \<Longrightarrow> b < size_of \<Longrightarrow> length xs = 4096 \<Longrightarrow> inv (wr b xs d)"
    and rd_wr: "inv d \<Longrightarrow> b < size_of \<Longrightarrow> length xs = 4096 \<Longrightarrow> c < size_of \<Longrightarrow>
      rd (wr b xs d) c = (if c = b then xs else rd d c)"
    and rd_length: "inv d \<Longrightarrow> c < size_of \<Longrightarrow> length (rd d c) = 4096"
begin

text \<open>A batch of block writes, in order.\<close>

definition wr_all :: "(nat \<times> u8 list) list \<Rightarrow> 'd \<Rightarrow> 'd" where
  "wr_all ws = fold (\<lambda>(b, xs). wr b xs) ws"

lemma wr_all_inv:
  "inv d \<Longrightarrow> \<forall>(b, xs) \<in> set ws. b < size_of \<and> length xs = 4096 \<Longrightarrow> inv (wr_all ws d)"
  by (induction ws arbitrary: d) (auto simp: wr_all_def wr_inv)

text \<open>The last write to a block wins; a block that is not written keeps its contents.\<close>

lemma rd_wr_all:
  "inv d \<Longrightarrow> \<forall>(b, xs) \<in> set ws. b < size_of \<and> length xs = 4096 \<Longrightarrow> c < size_of \<Longrightarrow>
   rd (wr_all ws d) c = (case map_of (rev ws) c of None \<Rightarrow> rd d c | Some xs \<Rightarrow> xs)"
proof (induction ws arbitrary: d)
  case Nil
  then show ?case by (simp add: wr_all_def)
next
  case (Cons w ws)
  obtain b xs where w: "w = (b, xs)" by fastforce
  have "rd (wr_all ws (wr b xs d)) c = (case map_of (rev ws) c of None \<Rightarrow> rd (wr b xs d) c | Some ys \<Rightarrow> ys)"
    using Cons.prems w by (intro Cons.IH) (auto simp: wr_inv)
  then show ?case using Cons.prems w
    by (auto simp: wr_all_def rd_wr map_add_def split: option.splits)
qed

lemma wr_commute:
  "inv d \<Longrightarrow> b < size_of \<Longrightarrow> b' < size_of \<Longrightarrow> b \<noteq> b' \<Longrightarrow> length xs = 4096 \<Longrightarrow> length ys = 4096 \<Longrightarrow> c < size_of \<Longrightarrow>
   rd (wr b xs (wr b' ys d)) c = rd (wr b' ys (wr b xs d)) c"
  by (simp add: rd_wr wr_inv)

end

lemma write_steps_length: "length (write_steps block src) = 8201"
  by (simp add: write_steps_def journal_clear_steps_def)

lemma write_as_crash:
  "run (write_steps block src) d = run journal_clear_steps (set_j_committed 1 (crash_write 8196 block src d))"
proof -
  have "run (write_steps block src) d = crash_write (8197 + 4) block src d"
    by (simp add: crash_write_def write_steps_length)
  then show ?thesis unfolding crash_prefixes(5) by (simp add: journal_clear_steps_def)
qed

lemma write_block_view:
  assumes "length d = disk_size" "block < 254" "length src = 4096"
  shows "snd (ramdisk_write_block block (Some src) d) = 0"
    "length (fst (ramdisk_write_block block (Some src) d)) = disk_size"
    "view (fst (ramdisk_write_block block (Some src) d)) =
      \<lparr>jm = 0, jt = 0, jc = 0, jk = 0, jb = (logged (view d) (unat block))(unat block := src)\<rparr>"
proof -
  have b: "unat block < 254" "\<not> 256 \<le> block" "block \<noteq> 254" "block \<noteq> 255"
    using assms(2) by (auto simp: word_less_nat_alt word_le_nat_alt)
  let ?e = "set_j_committed 1 (crash_write 8196 block src d)"
  have "length ?e = disk_size" "view ?e = (view d)\<lparr>jb := (logged (view d) (unat block))(unat block := src),
      jm := JOURNAL_MAGIC, jt := block, jc := hash (jb (view d) (unat block)), jk := 1\<rparr>"
    using view_target [OF assms(1) b(1) assms(3), of 4096] assms(3) b(1) by (simp_all add: view_def [of d])
  then show "snd (ramdisk_write_block block (Some src) d) = 0"
    "length (fst (ramdisk_write_block block (Some src) d)) = disk_size"
    "view (fst (ramdisk_write_block block (Some src) d)) =
      \<lparr>jm = 0, jt = 0, jc = 0, jk = 0, jb = (logged (view d) (unat block))(unat block := src)\<rparr>"
    using b unfolding ramdisk_write_block_def
    by (simp_all add: write_as_crash journal_clear_steps_def)
qed

lemma block_of_view: "b < 254 \<Longrightarrow> block_of d b = jb (view d) b"
  by (simp add: view_def)

interpretation rd: block_device disk_ok 254 block_of
  "\<lambda>b xs d. fst (ramdisk_write_block (of_nat b) (Some xs) d)"
proof (unfold_locales, goal_cases)
  case (1 d b xs)
  then have "(of_nat b :: u32) < 254" by (simp add: word_less_nat_alt unat_of_nat)
  then show ?case using 1 write_block_view [of d "of_nat b" xs] by (simp add: disk_ok_def journal_idle_def)
next
  case (2 d b xs c)
  then have b: "(of_nat b :: u32) < 254" "unat (of_nat b :: u32) = b" by (simp_all add: word_less_nat_alt unat_of_nat)
  then show ?case using 2 write_block_view [of d "of_nat b" xs] by (simp add: disk_ok_def block_of_view)
next
  case (3 d c)
  then show ?case by simp
qed

subsection \<open>Properties\<close>

lemma read_block_of:
  assumes "block < 256" "length dst = 4096"
  shows "ramdisk_read_block d block (Some dst) = Some (block_of d (unat block))"
proof -
  let ?f = "\<lambda>i (dst :: u8 list). dst[i := d ! (block_off (unat block) + i)]"
  have "fold ?f [0..<4096] dst = run (map (\<lambda>i e. e[0 + i := d ! (block_off (unat block) + i)]) [0..<4096]) dst"
    by (simp add: run_def fold_map comp_def)
  then have "fold ?f [0..<4096] dst = block_of d (unat block)"
    using run_stores [of 0 "\<lambda>i. d ! (block_off (unat block) + i)" 4096 dst] assms(2)
    by (auto simp: list_eq_iff_nth_eq block_of_def)
  moreover have "\<not> 256 \<le> block" using assms(1) by (simp only: not_le)
  ultimately show ?thesis by (simp add: ramdisk_read_block_def)
qed

text \<open>
  C3: a block write is atomic with respect to a stop of the machine, unless the old contents of the
  target hash to zero and the target is not block 0 (then block 0 may be overwritten, see
  \<open>journal_header_window\<close>). Whichever of its 8201 stores was the last one carried out, recovery leaves the target block wholly old (up to the store that
  sets the commit flag) or wholly new (from that store on), every other data block as it was,
  and an idle journal.
\<close>

theorem ramdisk_write_atomic:
  assumes "disk_ok d" "block < 254" "length src = 4096"
    and "checksum32 d (block_off (unat block)) 4096 \<noteq> 0 \<or> block = 0"
    and "d' = ramdisk_init (crash_write k block src d)"
  shows "disk_ok d' \<and> (\<forall>b < 254. block_of d' b = (if b = unat block \<and> 8196 < k then src else block_of d b))"
proof -
  have b: "unat block < 254" using assms(2) by (simp add: word_less_nat_alt)
  have h: "hash (jb (view d) (unat block)) \<noteq> 0 \<or> block = 0"
    using assms(4) b by (simp add: checksum32_block block_of_view)
  note r = crash_recover_view [OF assms(1) b assms(3) h, of k]
  have "length d' = disk_size \<and> view d' = recover_view (view (crash_write k block src d))"
    unfolding assms(5) using r by (intro view_recover) simp
  then show ?thesis using r by (simp add: disk_ok_def block_of_view)
qed

text \<open>The disk at boot: all zero.\<close>

definition blank_disk :: disk where
  "blank_disk = replicate 1048576 0"

lemma get32_replicate: "k + 4 \<le> n \<Longrightarrow> get32 (replicate n 0) k = 0"
  by (simp add: get32_def)

lemma blank_disk_ok: "disk_ok blank_disk"
  by (simp add: disk_ok_def blank_disk_def journal_idle_def view_def header_defs block_off_def get32_replicate)

lemma block_of_blank: "b < 256 \<Longrightarrow> block_of blank_disk b = replicate 4096 0"
  by (auto simp: list_eq_iff_nth_eq block_of_def blank_disk_def block_off_def)

theorem ramdisk_write_atomic_witness:
  "block_of (ramdisk_init (crash_write 5000 0 (replicate 4096 1) blank_disk)) 0 = replicate 4096 0
   \<and> block_of (ramdisk_init (crash_write 8197 0 (replicate 4096 1) blank_disk)) 0 = replicate 4096 1"
  using ramdisk_write_atomic [OF blank_disk_ok _ _ _ refl, of 0 "replicate 4096 1" 5000]
    ramdisk_write_atomic [OF blank_disk_ok _ _ _ refl, of 0 "replicate 4096 1" 8197]
  by (simp add: block_of_blank)

text \<open>
  C37: read after write. A write to a data block succeeds, a read of that block then returns the
  data written, a read of any other block returns what it held, and the journal is idle again.
\<close>

theorem ramdisk_write_read:
  assumes "disk_ok d" "block < 254" "length src = 4096" "c < 254" "length buf = 4096"
    and "ramdisk_write_block block (Some src) d = (d', rc)"
  shows "rc = 0 \<and> disk_ok d' \<and>
     ramdisk_read_block d' c (Some buf) = (if c = block then Some src else ramdisk_read_block d c (Some buf))"
proof -
  have b: "unat block < 254" "unat c < 254" "c < 256" using assms(2,4) by (auto simp: word_less_nat_alt)
  have w: "d' = fst (ramdisk_write_block (of_nat (unat block)) (Some src) d)" using assms(6) by simp
  have "block_of d' (unat c) = (if unat c = unat block then src else block_of d (unat c))"
    unfolding w using rd.rd_wr [OF assms(1) b(1) assms(3) b(2)] .
  moreover have "disk_ok d'" unfolding w using rd.wr_inv [OF assms(1) b(1) assms(3)] .
  moreover have "rc = 0" using write_block_view(1) [of d block src] assms by (simp add: disk_ok_def)
  moreover have "unat c = unat block \<longleftrightarrow> c = block" by (simp only: word_unat_eq_iff)
  ultimately show ?thesis using read_block_of [OF b(3) assms(5)] by simp
qed

theorem ramdisk_write_read_witness:
  "ramdisk_read_block (fst (ramdisk_write_block 7 (Some (replicate 4096 9)) blank_disk)) 7 (Some (replicate 4096 0))
     = Some (replicate 4096 9)"
  using ramdisk_write_read [OF blank_disk_ok, of 7 "replicate 4096 9" 7 "replicate 4096 0"]
  by (cases "ramdisk_write_block 7 (Some (replicate 4096 9)) blank_disk") simp

text \<open>
  exactly the writes with a null buffer, an out-of-range block or a journal block are refused
  with -1, and a refused write changes nothing.
\<close>

theorem ramdisk_write_refused:
  "snd (ramdisk_write_block block buf d) = (if buf = None \<or> 254 \<le> block then -1 else 0)
   \<and> (buf = None \<or> 254 \<le> block \<longrightarrow> fst (ramdisk_write_block block buf d) = d)"
proof -
  have "256 \<le> block \<or> block = 254 \<or> block = 255 \<longleftrightarrow> 254 \<le> block"
    by (auto simp: word_le_nat_alt word_unat_eq_iff)
  then show ?thesis by (auto simp: ramdisk_write_block_def split: option.splits)
qed

theorem ramdisk_write_refused_witness:
  "ramdisk_write_block 254 (Some (replicate 4096 1)) blank_disk = (blank_disk, -1)"
  using ramdisk_write_refused [of 254 "Some (replicate 4096 1)" blank_disk] by (simp add: prod_eq_iff)

text \<open>
  the window the journal leaves open. The header is written field by field: when the machine
  stops right after the magic number, with the target field still 0 from the previous clear,
  and the old contents of the target hash to zero, recovery takes the record as valid and
  copies the old contents of the target over block 0, the superblock.
\<close>

theorem journal_header_window:
  assumes "length d = 1048576" "j_target d = 0" "j_checksum d = 0" "j_committed d = 0" "block < 254"
    and "checksum32 d (block_off (unat block)) 4096 = 0"
  shows "block_of (ramdisk_init (crash_write 4097 block src d)) 0 = block_of d (unat block)"
proof -
  have b: "unat block < 254" using assms(5) by (simp add: word_less_nat_alt)
  note v = view_headers(1,2) [OF assms(1) b, of src]
  have h: "hash (jb (view d) (unat block)) = 0" using assms(6) b by (simp add: checksum32_block block_of_view)
  have "jt (view d) = 0" "jc (view d) = 0" "jk (view d) = 0" using assms(2-4) by (simp_all add: view_def)
  then have "jb (recover_view (view (crash_write 4097 block src d))) 0 = jb (view d) (unat block)"
    using v(2) h by (simp add: recover_view_def)
  then show ?thesis using view_recover [OF v(1)] b by (simp add: block_of_view)
qed

text \<open>A block that hashes to zero: these four bytes, then zeros.\<close>

definition zero_hash_disk :: disk where
  "zero_hash_disk = blank_disk[28672 := 0xCC, 28673 := 0x24, 28674 := 0x31, 28675 := 0xC4]"

lemma fold_zero: "(\<forall>x \<in> set xs. f x = 0) \<Longrightarrow> fold (\<lambda>x h. (h XOR f x) * 16777619) xs (0 :: u32) = 0"
  by (induction xs) auto

lemma zero_hash: "checksum32 zero_hash_disk (block_off 7) 4096 = 0"
proof -
  have n: "zero_hash_disk ! k = (if k = 28672 then 0xCC else if k = 28673 then 0x24 else if k = 28674 then 0x31
      else if k = 28675 then 0xC4 else 0)" if "k < 1048576" for k
    using that by (simp add: zero_hash_disk_def blank_disk_def nth_list_update)
  have "[0..<4096] = [0..<4] @ [4..<4096 :: nat]"
    using upt_add_eq_append [of 0 4 4092] by (simp del: upt_rec_numeral)
  moreover have "[0..<4] = [0, 1, 2, 3 :: nat]" by (simp add: upt_rec)
  ultimately have "[0..<4096] = 0 # 1 # 2 # 3 # [4..<4096 :: nat]" by simp
  then have "checksum32 zero_hash_disk (block_off 7) 4096 =
      fold (\<lambda>i h. (h XOR ucast (zero_hash_disk ! (28672 + i))) * 16777619) [4..<4096] (171635471026683324516333136672951631872 :: u32)"
    by (simp add: checksum32_def block_off_def n del: upt_rec_numeral)
  also have "(171635471026683324516333136672951631872 :: u32) = 0" by simp
  also have "fold (\<lambda>i h. (h XOR ucast (zero_hash_disk ! (28672 + i))) * 16777619) [4..<4096] (0 :: u32) = 0"
    by (intro fold_zero ballI) (simp add: n del: upt_rec_numeral)
  finally show ?thesis .
qed

lemma zero_hash_header: "j_target zero_hash_disk = 0" "j_checksum zero_hash_disk = 0" "j_committed zero_hash_disk = 0"
  by (simp_all add: zero_hash_disk_def blank_disk_def header_defs block_off_def get32_def nth_list_update)

theorem journal_header_window_witness:
  "block_of zero_hash_disk 0 \<noteq> block_of zero_hash_disk 7
   \<and> block_of (ramdisk_init (crash_write 4097 7 (replicate 4096 0) zero_hash_disk)) 0 = block_of zero_hash_disk 7"
proof -
  have "zero_hash_disk ! (block_off 0 + 0) \<noteq> zero_hash_disk ! (block_off 7 + 0)"
    by (simp add: zero_hash_disk_def blank_disk_def block_off_def nth_list_update)
  then have "block_of zero_hash_disk 0 \<noteq> block_of zero_hash_disk 7" unfolding block_of_eq_iff by force
  moreover have "length zero_hash_disk = 1048576" by (simp add: zero_hash_disk_def blank_disk_def)
  ultimately show ?thesis
    using journal_header_window [OF _ zero_hash_header, of 7 "replicate 4096 0"] zero_hash by simp
qed

end
