(* ===== verification/Vga.thy ===== *)
theory Vga
  imports Kernel_Prelude "HOL-Library.Signed_Division"
begin

text \<open>
  The text console of \<^verbatim>\<open>kernel/vga.c\<close>: a ring of 200 lines of 80 cells, a window of 25 lines that
  is copied to the video memory, the cursor, and the output of characters, strings with colour
  sequences, numbers and formats. The ring is the flat array the two-dimensional C array is in
  memory; a store outside it raises \<open>v_fault\<close>. Strings are lists of bytes that end at the first
  zero or at the end of the list. Line numbers are unbounded integers. \<open>None\<close> as the result of an
  output function means that it does not return (or, for \<^verbatim>\<open>vga_printf\<close>, that it reads past its
  arguments or its format).
\<close>

subsection \<open>State\<close>

abbreviation VGA_COLS :: nat where "VGA_COLS \<equiv> 80"
abbreviation VGA_ROWS :: nat where "VGA_ROWS \<equiv> 25"
abbreviation SCROLLBACK_LINES :: nat where "SCROLLBACK_LINES \<equiv> 200"

type_synonym vga_color = u8

abbreviation VGA_BLACK :: vga_color where "VGA_BLACK \<equiv> 0"
abbreviation VGA_LIGHT_GREY :: vga_color where "VGA_LIGHT_GREY \<equiv> 7"

definition VGA_ATTR :: "vga_color \<Rightarrow> vga_color \<Rightarrow> u8" where
  "VGA_ATTR fg bg = push_bit 4 bg OR fg"

record vga =
  v_text :: "u16 list"
  v_cursor_line :: int
  v_cursor_col :: int
  v_first_line :: int
  v_line_count :: int
  v_view_top :: int
  v_follow_tail :: bool
  v_attr :: u8
  v_vram :: "u16 list"
  v_ports :: "(u16 \<times> u8) list"
  v_fault :: bool

definition vga_outb :: "u16 \<Rightarrow> u8 \<Rightarrow> vga \<Rightarrow> vga" where
  "vga_outb port val s = s\<lparr>v_ports := v_ports s @ [(port, val)]\<rparr>"

subsection \<open>Lines and the window\<close>

definition last_line :: "vga \<Rightarrow> int" where
  "last_line s = v_first_line s + v_line_count s - 1"

definition line_slot :: "int \<Rightarrow> int" where
  "line_slot line = (let slot = line smod 200 in if slot < 0 then slot + 200 else slot)"

text \<open>A store to \<^verbatim>\<open>text_buffer[slot][col]\<close>.\<close>

definition set_cell :: "int \<Rightarrow> int \<Rightarrow> u16 \<Rightarrow> vga \<Rightarrow> vga" where
  "set_cell slot col v s =
     (let a = slot * 80 + col in
      if 0 \<le> a \<and> a < int (length (v_text s)) then s\<lparr>v_text := (v_text s)[nat a := v]\<rparr> else s\<lparr>v_fault := True\<rparr>)"

definition enable_hw_cursor :: "vga \<Rightarrow> vga" where
  "enable_hw_cursor s = vga_outb 0x3D5 0x0F (vga_outb 0x3D4 0x0B (vga_outb 0x3D5 0x0E (vga_outb 0x3D4 0x0A s)))"

definition disable_hw_cursor :: "vga \<Rightarrow> vga" where
  "disable_hw_cursor s = vga_outb 0x3D5 0x20 (vga_outb 0x3D4 0x0A s)"

definition update_hw_cursor :: "vga \<Rightarrow> vga" where
  "update_hw_cursor s =
     (if \<not> v_follow_tail s then disable_hw_cursor s
      else let screen_row = v_cursor_line s - v_view_top s in
        if screen_row < 0 \<or> 25 \<le> screen_row then disable_hw_cursor s
        else let pos = (word_of_int (screen_row * 80 + v_cursor_col s) :: u16)
          in vga_outb 0x3D5 (ucast (drop_bit 8 pos AND 0xFF))
               (vga_outb 0x3D4 0x0E (vga_outb 0x3D5 (ucast (pos AND 0xFF)) (vga_outb 0x3D4 0x0F (enable_hw_cursor s)))))"

definition cell_of :: "u8 \<Rightarrow> u8 \<Rightarrow> u16" where
  "cell_of attr c = push_bit 8 (ucast attr) OR ucast c"

definition fill_line :: "int \<Rightarrow> u8 \<Rightarrow> vga \<Rightarrow> vga" where
  "fill_line line attr s = fold (\<lambda>c. set_cell (line_slot line) (int c) (cell_of attr 32)) [0..<VGA_COLS] s"

definition render_row :: "nat \<Rightarrow> vga \<Rightarrow> vga" where
  "render_row r s =
     (let line = v_view_top s + int r;
          available = v_first_line s \<le> line \<and> line \<le> last_line s
      in fold (\<lambda>c s. s\<lparr>v_vram := (v_vram s)[r * VGA_COLS + c :=
           if available then v_text s ! nat (line_slot line * 80 + int c) else cell_of (v_attr s) 32]\<rparr>) [0..<VGA_COLS] s)"

definition render_view :: "vga \<Rightarrow> vga" where
  "render_view s = update_hw_cursor (fold render_row [0..<VGA_ROWS] s)"

definition ensure_tail_view :: "vga \<Rightarrow> vga" where
  "ensure_tail_view s =
     (let tail_top = v_cursor_line s - 24
      in s\<lparr>v_view_top := if tail_top < v_first_line s then v_first_line s else tail_top\<rparr>)"

definition new_line :: "vga \<Rightarrow> vga" where
  "new_line s =
     (let s1 = s\<lparr>v_cursor_line := v_cursor_line s + 1, v_cursor_col := 0\<rparr>;
          s2 = (if v_line_count s1 < 200 then s1\<lparr>v_line_count := v_line_count s1 + 1\<rparr>
                else s1\<lparr>v_first_line := v_first_line s1 + 1\<rparr>);
          s3 = fill_line (v_cursor_line s2) (v_attr s2) s2
      in if v_follow_tail s3 then ensure_tail_view s3 else s3)"

definition vga_write_current :: "u8 \<Rightarrow> vga \<Rightarrow> vga" where
  "vga_write_current c s = set_cell (line_slot (v_cursor_line s)) (v_cursor_col s) (cell_of (v_attr s) c) s"

text \<open>The common part of \<^verbatim>\<open>vga_init\<close> and \<^verbatim>\<open>vga_clear\<close>.\<close>

definition reset_lines :: "u8 \<Rightarrow> vga \<Rightarrow> vga" where
  "reset_lines attr s =
     render_view (fold (\<lambda>r. fill_line (int r) attr) [0..<SCROLLBACK_LINES]
       (s\<lparr>v_attr := attr, v_cursor_line := 0, v_cursor_col := 0, v_first_line := 0, v_line_count := 1, v_view_top := 0, v_follow_tail := True\<rparr>))"

definition vga_init :: "vga \<Rightarrow> vga" where
  "vga_init s = reset_lines (VGA_ATTR VGA_LIGHT_GREY VGA_BLACK) s"

definition vga_clear :: "vga_color \<Rightarrow> vga \<Rightarrow> vga" where
  "vga_clear bg s = reset_lines (VGA_ATTR VGA_LIGHT_GREY bg) s"

definition vga_set_color :: "vga_color \<Rightarrow> vga_color \<Rightarrow> vga \<Rightarrow> vga" where
  "vga_set_color fg bg s = s\<lparr>v_attr := VGA_ATTR fg bg\<rparr>"

definition vga_get_fg :: "vga \<Rightarrow> vga_color" where
  "vga_get_fg s = v_attr s AND 0x0F"

definition vga_get_bg :: "vga \<Rightarrow> vga_color" where
  "vga_get_bg s = drop_bit 4 (v_attr s) AND 0x0F"

subsection \<open>Output\<close>

definition vga_putchar :: "u8 \<Rightarrow> vga \<Rightarrow> vga" where
  "vga_putchar c s =
     (let s0 = (if \<not> v_follow_tail s then ensure_tail_view (s\<lparr>v_follow_tail := True\<rparr>) else s);
          s1 = (if c = 10 then new_line s0
                else if c = 13 then s0\<lparr>v_cursor_col := 0\<rparr>
                else if c = 9 then
                  (let next = (v_cursor_col s0 + 8) AND NOT 7
                   in if 80 \<le> next then new_line s0 else s0\<lparr>v_cursor_col := next\<rparr>)
                else if c = 8 then
                  (if 0 < v_cursor_col s0 then vga_write_current 32 (s0\<lparr>v_cursor_col := v_cursor_col s0 - 1\<rparr>) else s0)
                else
                  (let t0 = (if 80 \<le> v_cursor_col s0 then new_line s0 else s0);
                       t1 = vga_write_current c t0;
                       t2 = t1\<lparr>v_cursor_col := v_cursor_col t1 + 1\<rparr>
                   in if 80 \<le> v_cursor_col t2 then new_line t2 else t2))
      in if v_follow_tail s1 then render_view (ensure_tail_view s1) else render_view s1)"

text \<open>Reading a terminated string: past the end of the list there is the terminator.\<close>

definition char_at :: "u8 list \<Rightarrow> nat \<Rightarrow> u8" where
  "char_at str i = (if i < length str then str ! i else 0)"

definition is_digit :: "u8 \<Rightarrow> bool" where
  "is_digit c \<longleftrightarrow> 0x30 \<le> c \<and> c \<le> 0x39"

function ansi_digits :: "u8 list \<Rightarrow> nat \<Rightarrow> int \<Rightarrow> int \<times> nat" where
  "ansi_digits s i value =
     (if is_digit (char_at s i) then ansi_digits s (i + 1) (value * 10 + (uint (char_at s i) - 0x30)) else (value, i))"
  by pat_completeness auto
termination
proof (relation "measure (\<lambda>(s, i, value). length s - i)", goal_cases)
  case (2 s i v)
  then have "i < length s" by (auto simp: char_at_def is_digit_def split: if_splits)
  then show ?case by simp
qed simp

definition ansi_value :: "u8 list \<Rightarrow> nat \<Rightarrow> int \<times> nat" where
  "ansi_value s i = ansi_digits s i 0"

definition ansi_fg :: "int \<Rightarrow> vga_color" where
  "ansi_fg code = (if 30 \<le> code \<and> code \<le> 37 then word_of_int (code - 30) else word_of_int (code - 90 + 8))"

definition ansi_bg :: "int \<Rightarrow> vga_color" where
  "ansi_bg code = (if 40 \<le> code \<and> code \<le> 47 then word_of_int (code - 40) else word_of_int (code - 100 + 8))"

definition ansi_code :: "int \<Rightarrow> vga_color \<times> vga_color \<Rightarrow> vga_color \<times> vga_color" where
  "ansi_code code c =
     (if code = 0 then (VGA_LIGHT_GREY, VGA_BLACK)
      else if 30 \<le> code \<and> code \<le> 37 then (ansi_fg code, snd c)
      else if 90 \<le> code \<and> code \<le> 97 then (ansi_fg code, snd c)
      else if 40 \<le> code \<and> code \<le> 47 then (fst c, ansi_bg code)
      else if 100 \<le> code \<and> code \<le> 107 then (fst c, ansi_bg code)
      else c)"

text \<open>The loop over the parameters of a colour sequence; it may run for ever.\<close>

partial_function (option) ansi_loop ::
  "u8 list \<Rightarrow> nat \<Rightarrow> nat \<Rightarrow> bool \<Rightarrow> vga_color \<times> vga_color \<Rightarrow> (bool \<times> vga_color \<times> vga_color) option" where
  "ansi_loop seq fin i had c =
     (if i < fin then
        if char_at seq i = 0x3B then ansi_loop seq fin (i + 1) had c
        else
          let (code, j) = ansi_value seq i;
              j1 = (if j < fin \<and> char_at seq j = 0x3B then j + 1 else j)
          in ansi_loop seq fin j1 True (ansi_code code c)
      else Some (had, c))"

declare ansi_loop.simps [code]

definition ansi_apply :: "u8 list \<Rightarrow> nat \<Rightarrow> vga \<Rightarrow> vga option" where
  "ansi_apply seq fin s =
     (case ansi_loop seq fin 0 False (vga_get_fg s, vga_get_bg s) of
        None \<Rightarrow> None
      | Some (had, c) \<Rightarrow>
          if \<not> had then Some (vga_set_color VGA_LIGHT_GREY VGA_BLACK s)
          else Some (vga_set_color (fst c) (snd c) s))"

text \<open>The end of a colour sequence: the first character from \<open>i\<close> on that is zero or in \<open>@..~\<close>.\<close>

function seq_end :: "u8 list \<Rightarrow> nat \<Rightarrow> nat" where
  "seq_end str i =
     (if char_at str i \<noteq> 0 \<and> \<not> (0x40 \<le> char_at str i \<and> char_at str i \<le> 0x7E) then seq_end str (i + 1) else i)"
  by pat_completeness auto
termination
proof (relation "measure (\<lambda>(str, i). length str - i)", goal_cases)
  case (2 str i)
  then have "i < length str" by (auto simp: char_at_def split: if_splits)
  then show ?case by simp
qed simp

declare ansi_digits.simps [simp del] seq_end.simps [simp del]

function puts_loop :: "u8 list \<Rightarrow> vga \<Rightarrow> vga option" where
  "puts_loop str s =
     (if char_at str 0 = 0 then Some s
      else if char_at str 0 = 0x1B \<and> char_at str 1 = 0x5B \<and> char_at str (seq_end str 2) = 0x6D
      then (case ansi_apply (drop 2 str) (seq_end str 2 - 2) s of
              None \<Rightarrow> None
            | Some s1 \<Rightarrow> puts_loop (drop (seq_end str 2 + 1) str) s1)
      else puts_loop (drop 1 str) (vga_putchar (char_at str 0) s))"
  by pat_completeness auto
termination
  by (relation "measure (\<lambda>(str, s). length str)") (auto simp: char_at_def split: if_splits)

declare puts_loop.simps [simp del]

definition vga_puts :: "u8 list option \<Rightarrow> vga \<Rightarrow> vga option" where
  "vga_puts ptr s = (case ptr of None \<Rightarrow> Some s | Some str \<Rightarrow> puts_loop str s)"

definition vga_puts_color :: "u8 list option \<Rightarrow> vga_color \<Rightarrow> vga_color \<Rightarrow> vga \<Rightarrow> vga option" where
  "vga_puts_color ptr fg bg s =
     (case vga_puts ptr (vga_set_color fg bg s) of
        None \<Rightarrow> None
      | Some s1 \<Rightarrow> Some (s1\<lparr>v_attr := v_attr s\<rparr>))"

subsection \<open>Cursor and scrolling\<close>

lemma set_cell_fields [simp]:
  "v_cursor_line (set_cell sl c v s) = v_cursor_line s" "v_cursor_col (set_cell sl c v s) = v_cursor_col s"
  "v_first_line (set_cell sl c v s) = v_first_line s" "v_line_count (set_cell sl c v s) = v_line_count s"
  "v_view_top (set_cell sl c v s) = v_view_top s" "v_follow_tail (set_cell sl c v s) = v_follow_tail s"
  "v_attr (set_cell sl c v s) = v_attr s" "v_vram (set_cell sl c v s) = v_vram s" "v_ports (set_cell sl c v s) = v_ports s"
  "length (v_text (set_cell sl c v s)) = length (v_text s)"
  by (simp_all add: set_cell_def Let_def)

lemma fill_line_fields [simp]:
  "v_cursor_line (fill_line l a s) = v_cursor_line s" "v_cursor_col (fill_line l a s) = v_cursor_col s"
  "v_first_line (fill_line l a s) = v_first_line s" "v_line_count (fill_line l a s) = v_line_count s"
  "v_view_top (fill_line l a s) = v_view_top s" "v_follow_tail (fill_line l a s) = v_follow_tail s"
  "v_attr (fill_line l a s) = v_attr s" "v_vram (fill_line l a s) = v_vram s" "v_ports (fill_line l a s) = v_ports s"
  "length (v_text (fill_line l a s)) = length (v_text s)"
proof -
  let ?f = "\<lambda>c. set_cell (line_slot l) (int c) (cell_of a 32)"
  have "v_cursor_line (fold ?f cs s) = v_cursor_line s \<and> v_cursor_col (fold ?f cs s) = v_cursor_col s
      \<and> v_first_line (fold ?f cs s) = v_first_line s \<and> v_line_count (fold ?f cs s) = v_line_count s
      \<and> v_view_top (fold ?f cs s) = v_view_top s \<and> v_follow_tail (fold ?f cs s) = v_follow_tail s
      \<and> v_attr (fold ?f cs s) = v_attr s \<and> v_vram (fold ?f cs s) = v_vram s \<and> v_ports (fold ?f cs s) = v_ports s
      \<and> length (v_text (fold ?f cs s)) = length (v_text s)" for cs
    by (induction cs arbitrary: s) simp_all
  then show "v_cursor_line (fill_line l a s) = v_cursor_line s" "v_cursor_col (fill_line l a s) = v_cursor_col s"
    "v_first_line (fill_line l a s) = v_first_line s" "v_line_count (fill_line l a s) = v_line_count s"
    "v_view_top (fill_line l a s) = v_view_top s" "v_follow_tail (fill_line l a s) = v_follow_tail s"
    "v_attr (fill_line l a s) = v_attr s" "v_vram (fill_line l a s) = v_vram s" "v_ports (fill_line l a s) = v_ports s"
    "length (v_text (fill_line l a s)) = length (v_text s)"
    by (simp_all add: fill_line_def)
qed

text \<open>The two loops of \<^verbatim>\<open>ensure_line_exists\<close>.\<close>

function add_lines :: "int \<Rightarrow> vga \<Rightarrow> vga" where
  "add_lines line s =
     (if last_line s < line \<and> v_line_count s < 200
      then add_lines line ((fill_line (v_first_line s + v_line_count s) (v_attr s) s)\<lparr>v_line_count := v_line_count s + 1\<rparr>)
      else s)"
  by pat_completeness auto
termination by (relation "measure (\<lambda>(line, s). nat (200 - v_line_count s))") auto

function drop_lines :: "int \<Rightarrow> vga \<Rightarrow> vga" where
  "drop_lines line s =
     (if last_line s < line
      then drop_lines line ((fill_line (v_first_line s + 1 + v_line_count s - 1) (v_attr s) s)\<lparr>v_first_line := v_first_line s + 1\<rparr>)
      else s)"
  by pat_completeness auto
termination by (relation "measure (\<lambda>(line, s). nat (line - last_line s))") (auto simp: last_line_def)

declare add_lines.simps [simp del] drop_lines.simps [simp del]

definition ensure_line_exists :: "int \<Rightarrow> vga \<Rightarrow> vga" where
  "ensure_line_exists line s =
     (if line < v_first_line s then s else drop_lines line (add_lines line s))"

definition vga_set_cursor :: "int \<Rightarrow> int \<Rightarrow> vga \<Rightarrow> vga" where
  "vga_set_cursor row col s =
     (let row1 = (if row < 0 then 0 else row);
          row2 = (if 25 \<le> row1 then 24 else row1);
          col1 = (if col < 0 then 0 else col);
          col2 = (if 80 \<le> col1 then 79 else col1);
          line = v_view_top s + row2;
          line1 = (if line < v_first_line s then v_first_line s else line);
          s1 = ensure_line_exists line1 (s\<lparr>v_cursor_line := line1\<rparr>)
      in render_view (ensure_tail_view (s1\<lparr>v_cursor_col := col2, v_follow_tail := True\<rparr>)))"

definition vga_scroll_page :: "int \<Rightarrow> vga \<Rightarrow> vga" where
  "vga_scroll_page direction s =
     (let tp = last_line s - 24;
          max_top = (if tp < v_first_line s then v_first_line s else tp);
          s1 = (if direction < 0 then
                  (let v = v_view_top s - 24; v1 = (if v < v_first_line s then v_first_line s else v)
                   in s\<lparr>v_view_top := v1, v_follow_tail := (v1 = max_top)\<rparr>)
                else if 0 < direction then
                  (let v = v_view_top s + 24
                   in if max_top \<le> v then s\<lparr>v_view_top := max_top, v_follow_tail := True\<rparr>
                      else s\<lparr>v_view_top := v, v_follow_tail := False\<rparr>)
                else s)
      in render_view s1)"

subsection \<open>Numbers and formats\<close>

text \<open>
  The digits the first loop of \<^verbatim>\<open>print_uint\<close> stores, in the order of the buffer (lowest first). Only
  the bases 10 and 16 occur.
\<close>

definition digit_char :: "nat \<Rightarrow> u8" where
  "digit_char r = (if r < 10 then 0x30 + of_nat r else 0x61 + of_nat r - 10)"

function uint_digits :: "nat \<Rightarrow> nat \<Rightarrow> u8 list" where
  "uint_digits base n = (if n = 0 \<or> base < 2 then [] else digit_char (n mod base) # uint_digits base (n div base))"
  by pat_completeness auto
termination by (relation "measure (\<lambda>(base, n). n)") auto

declare uint_digits.simps [simp del]

definition print_uint :: "u32 \<Rightarrow> nat \<Rightarrow> vga \<Rightarrow> vga" where
  "print_uint n base s =
     (if n = 0 then vga_putchar 0x30 s else fold vga_putchar (rev (uint_digits base (unat n))) s)"

text \<open>The variable arguments: a string pointer or a 32-bit number.\<close>

datatype va_arg = Str_arg "u8 list option" | Num_arg u32

text \<open>One conversion: the letter after the percent sign and the arguments still to come.\<close>

definition printf_conv :: "u8 \<Rightarrow> va_arg list \<Rightarrow> vga \<Rightarrow> (va_arg list \<times> vga) option" where
  "printf_conv f args s =
     (if f = 0x73 then (case args of Str_arg p # as \<Rightarrow> (case vga_puts p s of None \<Rightarrow> None | Some s1 \<Rightarrow> Some (as, s1)) | _ \<Rightarrow> None)
      else if f = 0x63 then (case args of Num_arg v # as \<Rightarrow> Some (as, vga_putchar (ucast v) s) | _ \<Rightarrow> None)
      else if f = 0x64 then
        (case args of
           Num_arg v # as \<Rightarrow>
             Some (as, if sint v < 0 then print_uint (- v) 10 (vga_putchar 0x2D s) else print_uint v 10 s)
         | _ \<Rightarrow> None)
      else if f = 0x75 then (case args of Num_arg v # as \<Rightarrow> Some (as, print_uint v 10 s) | _ \<Rightarrow> None)
      else if f = 0x78 then (case args of Num_arg v # as \<Rightarrow> Some (as, print_uint v 16 s) | _ \<Rightarrow> None)
      else if f = 0x25 then Some (args, vga_putchar 0x25 s)
      else Some (args, vga_putchar f s))"

function vga_printf :: "u8 list \<Rightarrow> va_arg list \<Rightarrow> vga \<Rightarrow> vga option" where
  "vga_printf fmt args s =
     (if char_at fmt 0 = 0 then Some s
      else if char_at fmt 0 \<noteq> 0x25 then vga_printf (drop 1 fmt) args (vga_putchar (char_at fmt 0) s)
      else if char_at fmt 1 = 0 then None
      else case printf_conv (char_at fmt 1) args s of
        None \<Rightarrow> None
      | Some (as, s1) \<Rightarrow> vga_printf (drop 2 fmt) as s1)"
  by pat_completeness auto
termination
  by (relation "measure (\<lambda>(fmt, args, s). length fmt)") (auto simp: char_at_def split: if_splits)

declare vga_printf.simps [simp del]

subsection \<open>Boxes\<close>

text \<open>Whether a line is in the ring.\<close>

definition line_there :: "int \<Rightarrow> vga \<Rightarrow> bool" where
  "line_there line s \<longleftrightarrow> v_first_line s \<le> line \<and> line \<le> last_line s"

definition box_columns :: "int \<Rightarrow> int \<Rightarrow> int \<Rightarrow> int \<Rightarrow> vga \<Rightarrow> vga" where
  "box_columns tp bt col width s =
     fold (\<lambda>c s.
       let s1 = (if line_there tp s
                 then set_cell (line_slot tp) (col + int c)
                   (cell_of (v_attr s) (if c = 0 then 0xC9 else if int c = width - 1 then 0xBB else 0xCD)) s
                 else s)
       in if line_there bt s1
          then set_cell (line_slot bt) (col + int c)
            (cell_of (v_attr s1) (if c = 0 then 0xC8 else if int c = width - 1 then 0xBC else 0xCD)) s1
          else s1)
       (takeWhile (\<lambda>c. col + int c < 80) [0..<nat width]) s"

definition box_rows :: "int \<Rightarrow> int \<Rightarrow> int \<Rightarrow> int \<Rightarrow> vga \<Rightarrow> vga" where
  "box_rows tp height col width s =
     fold (\<lambda>r s.
       let line = tp + int r in
       if \<not> line_there line s then s
       else let s1 = (if 0 \<le> col \<and> col < 80 then set_cell (line_slot line) col (cell_of (v_attr s) 0xBA) s else s)
         in if 0 \<le> col + width - 1 \<and> col + width - 1 < 80
            then set_cell (line_slot line) (col + width - 1) (cell_of (v_attr s1) 0xBA) s1 else s1)
       [1..<nat (height - 1)] s"

definition vga_draw_box :: "int \<Rightarrow> int \<Rightarrow> int \<Rightarrow> int \<Rightarrow> vga_color \<Rightarrow> vga \<Rightarrow> vga" where
  "vga_draw_box row col height width color s =
     (let tp = v_view_top s + row;
          bt = tp + height - 1;
          s1 = (ensure_line_exists bt s)\<lparr>v_attr := VGA_ATTR color VGA_BLACK\<rparr>;
          s2 = box_rows tp height col width (box_columns tp bt col width s1)
      in render_view (s2\<lparr>v_attr := v_attr s\<rparr>))"

subsection \<open>Cells and the window\<close>

lemma line_slot_mod: "line_slot line = line mod 200"
proof (cases "0 \<le> line")
  case True
  then have "line smod 200 = line mod 200" by (simp add: smod_int_alt_def sgn_if)
  moreover have "0 \<le> line mod 200" by simp
  ultimately show ?thesis by (simp add: line_slot_def Let_def)
next
  case False
  then have s: "line smod 200 = - (- line mod 200)" by (simp add: smod_int_alt_def sgn_if)
  have m: "(- line) mod 200 = (if line mod 200 = 0 then 0 else 200 - line mod 200)" by (simp add: zmod_zminus1_eq_if)
  have "0 \<le> line mod 200" "line mod 200 < 200" by simp_all
  then show ?thesis unfolding line_slot_def Let_def s m by simp
qed

lemma slot_bounds [simp]: "0 \<le> line_slot l" "line_slot l < 200"
  by (simp_all add: line_slot_mod)

definition cell_ix :: "int \<Rightarrow> nat \<Rightarrow> nat" where
  "cell_ix line c = nat (line_slot line) * 80 + c"

lemma cell_ix_less: "c < 80 \<Longrightarrow> cell_ix l c < 16000"
proof -
  assume "c < 80"
  moreover have "nat (line_slot l) < 200" using slot_bounds(2) [of l] by linarith
  ultimately show ?thesis unfolding cell_ix_def by linarith
qed

lemma cell_ix_eq: "c < 80 \<Longrightarrow> d < 80 \<Longrightarrow> cell_ix l c = cell_ix k d \<longleftrightarrow> line_slot l = line_slot k \<and> c = d"
proof -
  assume a: "c < 80" "d < 80"
  have "c = cell_ix l c mod 80" "d = cell_ix k d mod 80" "nat (line_slot l) = cell_ix l c div 80" "nat (line_slot k) = cell_ix k d div 80"
    using a by (simp_all add: cell_ix_def)
  then show ?thesis using eq_nat_nat_iff [of "line_slot l" "line_slot k"] slot_bounds(1) by (metis cell_ix_def)
qed

lemma cell_ix_int: "0 \<le> c \<Longrightarrow> nat (line_slot l * 80 + c) = cell_ix l (nat c)"
  by (simp add: cell_ix_def nat_add_distrib nat_mult_distrib)

lemma set_cell_eq:
  assumes "length (v_text s) = 16000" "0 \<le> c" "c < 80"
  shows "set_cell (line_slot l) c v s = s\<lparr>v_text := (v_text s)[cell_ix l (nat c) := v]\<rparr>"
proof -
  have "0 \<le> line_slot l * 80 + c" "line_slot l * 80 + c < 16000" using assms(2,3) slot_bounds(1) [of l] slot_bounds(2) [of l] by linarith+
  then show ?thesis using assms(1) cell_ix_int [OF assms(2)] by (simp add: set_cell_def Let_def)
qed

lemma fill_line_text:
  assumes "length (v_text s) = 16000"
  shows "v_fault (fill_line l a s) = v_fault s"
    "k < 16000 \<Longrightarrow> v_text (fill_line l a s) ! k = (if k div 80 = nat (line_slot l) then cell_of a 32 else v_text s ! k)"
proof -
  have F: "v_fault (fold (\<lambda>c. set_cell (line_slot l) (int c) (cell_of a 32)) [0..<n] s) = v_fault s
      \<and> length (v_text (fold (\<lambda>c. set_cell (line_slot l) (int c) (cell_of a 32)) [0..<n] s)) = 16000
      \<and> (\<forall>k < 16000. v_text (fold (\<lambda>c. set_cell (line_slot l) (int c) (cell_of a 32)) [0..<n] s) ! k
        = (if \<exists>c < n. k = cell_ix l c then cell_of a 32 else v_text s ! k))" if "n \<le> 80" for n
    using that
  proof (induction n)
    case 0
    then show ?case using assms by simp
  next
    case (Suc n)
    let ?t = "fold (\<lambda>c. set_cell (line_slot l) (int c) (cell_of a 32)) [0..<n] s"
    have t: "fold (\<lambda>c. set_cell (line_slot l) (int c) (cell_of a 32)) [0..<Suc n] s = ?t\<lparr>v_text := (v_text ?t)[cell_ix l n := cell_of a 32]\<rparr>"
      using set_cell_eq [of ?t "int n" l] Suc by simp
    have "n < 80" using Suc.prems by simp
    then have "cell_ix l n < 16000" by (rule cell_ix_less)
    then show ?case unfolding t using Suc by (auto simp: nth_list_update less_Suc_eq)
  qed
  have ex: "(\<exists>c < 80. k = cell_ix l c) \<longleftrightarrow> k div 80 = nat (line_slot l)" for k
  proof
    assume "k div 80 = nat (line_slot l)"
    then show "\<exists>c < 80. k = cell_ix l c" by (intro exI [of _ "k mod 80"]) (metis cell_ix_def div_mult_mod_eq mod_less_divisor zero_less_numeral)
  qed (auto simp: cell_ix_def)
  show "v_fault (fill_line l a s) = v_fault s" using F [of 80] by (simp add: fill_line_def)
  show "k < 16000 \<Longrightarrow> v_text (fill_line l a s) ! k = (if k div 80 = nat (line_slot l) then cell_of a 32 else v_text s ! k)"
    using F [of 80] by (simp add: fill_line_def ex)
qed

text \<open>What row \<open>r\<close> and column \<open>c\<close> of the screen have to show.\<close>

definition shown :: "vga \<Rightarrow> nat \<Rightarrow> nat \<Rightarrow> u16" where
  "shown s r c = (if line_there (v_view_top s + int r) s then v_text s ! cell_ix (v_view_top s + int r) c else cell_of (v_attr s) 32)"

lemma shown_vram [simp]: "shown (s\<lparr>v_vram := m\<rparr>) = shown s"
  by (intro ext) (simp add: shown_def line_there_def last_line_def)

lemma shown_ports [simp]: "shown (s\<lparr>v_ports := m\<rparr>) = shown s"
  by (intro ext) (simp add: shown_def line_there_def last_line_def)

lemma render_row_eq:
  assumes "length (v_vram s) = 2000" "r < 25"
  shows "\<exists>m. render_row r s = s\<lparr>v_vram := m\<rparr> \<and> length m = 2000
     \<and> (\<forall>k < 2000. m ! k = (if k div 80 = r then shown s r (k mod 80) else v_vram s ! k))"
proof -
  let ?b = "v_first_line s \<le> v_view_top s + int r \<and> v_view_top s + int r \<le> last_line s"
  let ?v = "\<lambda>s' c. if ?b then v_text s' ! nat (line_slot (v_view_top s + int r) * 80 + int c) else cell_of (v_attr s') 32"
  let ?f = "\<lambda>c s. s\<lparr>v_vram := (v_vram s)[r * 80 + c := ?v s c]\<rparr>"
  have v: "?v (s\<lparr>v_vram := m\<rparr>) c = shown s r c" for m c
    by (simp add: shown_def line_there_def cell_ix_int)
  have rr: "render_row r s = fold ?f [0..<80] s" unfolding render_row_def Let_def by simp
  have "\<exists>m. fold ?f [0..<n] s = s\<lparr>v_vram := m\<rparr> \<and> length m = 2000
      \<and> (\<forall>k < 2000. m ! k = (if k div 80 = r \<and> k mod 80 < n then shown s r (k mod 80) else v_vram s ! k))" if "n \<le> 80" for n
    using that
  proof (induction n)
    case 0
    then show ?case using assms(1) by (intro exI [of _ "v_vram s"]) simp
  next
    case (Suc n)
    then obtain m where m: "fold ?f [0..<n] s = s\<lparr>v_vram := m\<rparr>" "length m = 2000"
      "\<forall>k < 2000. m ! k = (if k div 80 = r \<and> k mod 80 < n then shown s r (k mod 80) else v_vram s ! k)" by auto
    let ?m = "m[r * 80 + n := shown s r n]"
    have "fold ?f [0..<Suc n] s = ?f n (fold ?f [0..<n] s)" by simp
    then have "fold ?f [0..<Suc n] s = s\<lparr>v_vram := ?m\<rparr>" unfolding m(1) v by simp
    moreover have "?m ! k = (if k div 80 = r \<and> k mod 80 < Suc n then shown s r (k mod 80) else v_vram s ! k)" if "k < 2000" for k
    proof (cases "k = r * 80 + n")
      case True
      then show ?thesis using m(2) that Suc.prems by simp
    next
      case False
      have "k = k div 80 * 80 + k mod 80" by simp
      then have "k div 80 = r \<Longrightarrow> k mod 80 \<noteq> n" using False by metis
      then show ?thesis using False m(3) that by (auto simp: less_Suc_eq)
    qed
    ultimately show ?case using m(2) by (intro exI [of _ ?m]) simp
  qed
  from this [of 80] show ?thesis unfolding rr by simp
qed

lemma update_hw_cursor_eq: "\<exists>ps. update_hw_cursor s = s\<lparr>v_ports := ps\<rparr>"
  by (auto simp: update_hw_cursor_def disable_hw_cursor_def enable_hw_cursor_def vga_outb_def Let_def)

text \<open>\<^verbatim>\<open>render_view\<close> copies the window and changes nothing else the driver keeps.\<close>

lemma render_view_eq:
  assumes "length (v_vram s) = 2000"
  obtains m ps where "render_view s = s\<lparr>v_vram := m, v_ports := ps\<rparr>" "length m = 2000"
    "\<And>r c. r < 25 \<Longrightarrow> c < 80 \<Longrightarrow> m ! (r * 80 + c) = shown s r c"
proof -
  have "\<exists>m. fold render_row [0..<n] s = s\<lparr>v_vram := m\<rparr> \<and> length m = 2000
      \<and> (\<forall>k < 2000. k div 80 < n \<longrightarrow> m ! k = shown s (k div 80) (k mod 80))" if "n \<le> 25" for n
    using that
  proof (induction n)
    case 0
    then show ?case using assms by (intro exI [of _ "v_vram s"]) simp
  next
    case (Suc n)
    then obtain m where m: "fold render_row [0..<n] s = s\<lparr>v_vram := m\<rparr>" "length m = 2000"
      "\<forall>k < 2000. k div 80 < n \<longrightarrow> m ! k = shown s (k div 80) (k mod 80)" by auto
    obtain m' where m': "render_row n (s\<lparr>v_vram := m\<rparr>) = s\<lparr>v_vram := m'\<rparr>" "length m' = 2000"
      "\<forall>k < 2000. m' ! k = (if k div 80 = n then shown s n (k mod 80) else m ! k)"
      using render_row_eq [of "s\<lparr>v_vram := m\<rparr>" n] m(2) Suc.prems by auto
    then show ?case using m by (intro exI [of _ m']) (auto simp: less_Suc_eq)
  qed
  from this [of 25] obtain m where m: "fold render_row [0..<25] s = s\<lparr>v_vram := m\<rparr>" "length m = 2000"
    "\<forall>k < 2000. k div 80 < 25 \<longrightarrow> m ! k = shown s (k div 80) (k mod 80)" by auto
  obtain ps where ps: "render_view s = s\<lparr>v_vram := m, v_ports := ps\<rparr>"
    using update_hw_cursor_eq [of "s\<lparr>v_vram := m\<rparr>"] m(1) by (auto simp: render_view_def)
  have "m ! (r * 80 + c) = shown s r c" if "r < 25" "c < 80" for r c
    using m(3) [rule_format, of "r * 80 + c"] that by simp
  then show ?thesis using that [OF ps m(2)] by blast
qed

subsection \<open>Invariant\<close>

text \<open>All fields but the column, and the invariant between two calls.\<close>

definition vga_frame :: "vga \<Rightarrow> bool" where
  "vga_frame s \<longleftrightarrow> length (v_text s) = 16000 \<and> length (v_vram s) = 2000 \<and> 1 \<le> v_line_count s \<and> v_line_count s \<le> 200
     \<and> v_first_line s \<le> v_cursor_line s \<and> v_cursor_line s \<le> last_line s \<and> v_first_line s \<le> v_view_top s
     \<and> v_view_top s \<le> last_line s \<and> \<not> v_fault s"

definition vga_inv :: "vga \<Rightarrow> bool" where
  "vga_inv s \<longleftrightarrow> vga_frame s \<and> 0 \<le> v_cursor_col s \<and> v_cursor_col s < 80"

lemma vga_frameD:
  assumes "vga_frame s"
  shows "length (v_text s) = 16000" "length (v_vram s) = 2000" "1 \<le> v_line_count s" "v_line_count s \<le> 200"
    "v_first_line s \<le> v_cursor_line s" "v_cursor_line s \<le> last_line s" "v_first_line s \<le> v_view_top s" "v_view_top s \<le> last_line s" "\<not> v_fault s"
  using assms by (simp_all add: vga_frame_def)

lemma frame_tail: "vga_frame s \<Longrightarrow> vga_frame (ensure_tail_view s)"
  by (auto simp: vga_frame_def ensure_tail_view_def last_line_def Let_def)

lemma tail_fields [simp]:
  "v_cursor_line (ensure_tail_view s) = v_cursor_line s" "v_cursor_col (ensure_tail_view s) = v_cursor_col s"
  "v_first_line (ensure_tail_view s) = v_first_line s" "v_line_count (ensure_tail_view s) = v_line_count s"
  "v_follow_tail (ensure_tail_view s) = v_follow_tail s" "v_attr (ensure_tail_view s) = v_attr s" "v_text (ensure_tail_view s) = v_text s"
  "v_vram (ensure_tail_view s) = v_vram s" "v_fault (ensure_tail_view s) = v_fault s"
  by (simp_all add: ensure_tail_view_def Let_def)

lemma frame_new_line:
  assumes "vga_frame s" "v_follow_tail s"
  shows "vga_frame (new_line s)" "v_cursor_col (new_line s) = 0" "v_follow_tail (new_line s)"
proof -
  note d = vga_frameD [OF assms(1)]
  let ?s1 = "s\<lparr>v_cursor_line := v_cursor_line s + 1, v_cursor_col := 0\<rparr>"
  let ?s2 = "if v_line_count ?s1 < 200 then ?s1\<lparr>v_line_count := v_line_count ?s1 + 1\<rparr> else ?s1\<lparr>v_first_line := v_first_line ?s1 + 1\<rparr>"
  let ?s3 = "fill_line (v_cursor_line ?s2) (v_attr ?s2) ?s2"
  have n: "new_line s = ensure_tail_view ?s3" using assms(2) by (simp add: new_line_def Let_def)
  have l: "length (v_text ?s2) = 16000" "\<not> v_fault ?s2" using d(1,9) by simp_all
  have f: "\<not> v_fault ?s3" using fill_line_text(1) [OF l(1)] l(2) by blast
  have "vga_frame (ensure_tail_view ?s3)"
    using d f by (cases "v_line_count s < 200") (auto simp: vga_frame_def ensure_tail_view_def last_line_def Let_def)
  then show "vga_frame (new_line s)" "v_cursor_col (new_line s) = 0" "v_follow_tail (new_line s)" using n assms(2) by simp_all
qed

lemma frame_write:
  assumes "vga_inv s"
  shows "vga_frame (vga_write_current c s)" "v_cursor_col (vga_write_current c s) = v_cursor_col s"
    "v_follow_tail (vga_write_current c s) = v_follow_tail s"
    "vga_write_current c s = s\<lparr>v_text := (v_text s)[cell_ix (v_cursor_line s) (nat (v_cursor_col s)) := cell_of (v_attr s) c]\<rparr>"
proof -
  have d: "vga_frame s" "0 \<le> v_cursor_col s" "v_cursor_col s < 80" using assms by (simp_all add: vga_inv_def)
  show e: "vga_write_current c s = s\<lparr>v_text := (v_text s)[cell_ix (v_cursor_line s) (nat (v_cursor_col s)) := cell_of (v_attr s) c]\<rparr>"
    unfolding vga_write_current_def by (rule set_cell_eq [OF vga_frameD(1) [OF d(1)] d(2,3)])
  show "vga_frame (vga_write_current c s)" "v_cursor_col (vga_write_current c s) = v_cursor_col s"
    "v_follow_tail (vga_write_current c s) = v_follow_tail s"
    using d(1) unfolding e by (simp_all add: vga_frame_def last_line_def)
qed

lemma render_inv: "vga_inv s \<Longrightarrow> vga_inv (render_view s)"
  and render_fields [simp]: "vga_inv s \<Longrightarrow> v_follow_tail (render_view s) = v_follow_tail s" "vga_inv s \<Longrightarrow> v_attr (render_view s) = v_attr s"
proof -
  assume "vga_inv s"
  then have "length (v_vram s) = 2000" by (simp add: vga_inv_def vga_frame_def)
  then obtain m ps where "render_view s = s\<lparr>v_vram := m, v_ports := ps\<rparr>" "length m = 2000" by (rule render_view_eq)
  then show "vga_inv (render_view s)" "v_follow_tail (render_view s) = v_follow_tail s" "v_attr (render_view s) = v_attr s"
    using \<open>vga_inv s\<close> by (simp_all add: vga_inv_def vga_frame_def last_line_def)
qed

text \<open>The state after the switch to the tail and the character, before the window is shown.\<close>

definition put_raw :: "u8 \<Rightarrow> vga \<Rightarrow> vga" where
  "put_raw c s0 =
     (if c = 10 then new_line s0
      else if c = 13 then s0\<lparr>v_cursor_col := 0\<rparr>
      else if c = 9 then
        (let next = (v_cursor_col s0 + 8) AND NOT 7
         in if 80 \<le> next then new_line s0 else s0\<lparr>v_cursor_col := next\<rparr>)
      else if c = 8 then
        (if 0 < v_cursor_col s0 then vga_write_current 32 (s0\<lparr>v_cursor_col := v_cursor_col s0 - 1\<rparr>) else s0)
      else
        (let t0 = (if 80 \<le> v_cursor_col s0 then new_line s0 else s0);
             t1 = vga_write_current c t0;
             t2 = t1\<lparr>v_cursor_col := v_cursor_col t1 + 1\<rparr>
         in if 80 \<le> v_cursor_col t2 then new_line t2 else t2))"

definition to_tail :: "vga \<Rightarrow> vga" where
  "to_tail s = (if \<not> v_follow_tail s then ensure_tail_view (s\<lparr>v_follow_tail := True\<rparr>) else s)"

lemma to_tail_inv: "vga_inv s \<Longrightarrow> vga_inv (to_tail s) \<and> v_follow_tail (to_tail s)"
  by (auto simp: to_tail_def vga_inv_def vga_frame_def ensure_tail_view_def last_line_def Let_def)

lemma frame_col [simp]: "vga_frame (s\<lparr>v_cursor_col := c\<rparr>) = vga_frame s"
  by (simp add: vga_frame_def last_line_def)

lemma tab_stop: "0 \<le> (c :: int) \<Longrightarrow> 0 \<le> (c + 8) AND NOT 7"
  by simp

lemma put_raw_inv:
  assumes "vga_inv s" "v_follow_tail s"
  shows "vga_inv (put_raw c s)" "v_follow_tail (put_raw c s)"
proof -
  have d: "vga_frame s" "0 \<le> v_cursor_col s" "v_cursor_col s < 80" using assms(1) by (simp_all add: vga_inv_def)
  note n = frame_new_line [OF d(1) assms(2)]
  have nl: "vga_inv (new_line s)" "v_follow_tail (new_line s)" using n by (simp_all add: vga_inv_def)
  have b: "vga_inv (s\<lparr>v_cursor_col := v_cursor_col s - 1\<rparr>)" if "0 < v_cursor_col s" using d that by (simp add: vga_inv_def)
  let ?w = "vga_write_current c s"
  note w = frame_write [OF assms(1), of c]
  have "vga_frame (?w\<lparr>v_cursor_col := v_cursor_col ?w + 1\<rparr>)" "v_follow_tail (?w\<lparr>v_cursor_col := v_cursor_col ?w + 1\<rparr>)" using w assms(2) by simp_all
  note t = frame_new_line [OF this]
  have bk: "vga_inv (vga_write_current 32 (s\<lparr>v_cursor_col := v_cursor_col s - 1\<rparr>))
      \<and> v_follow_tail (vga_write_current 32 (s\<lparr>v_cursor_col := v_cursor_col s - 1\<rparr>))" if "0 < v_cursor_col s"
    using frame_write [OF b [OF that], of 32] d(3) that assms(2) by (simp add: vga_inv_def)
  show "vga_inv (put_raw c s)"
    unfolding put_raw_def Let_def using nl(1) assms(1) d w t bk tab_stop [OF d(2)] by (auto simp: vga_inv_def)
  show "v_follow_tail (put_raw c s)"
    unfolding put_raw_def Let_def using nl(2) assms(2) d(3) w(3) t(3) bk by auto
qed

lemma putchar_eq: "vga_inv s \<Longrightarrow> vga_putchar c s = render_view (ensure_tail_view (put_raw c (to_tail s)))"
  using put_raw_inv [of "to_tail s" c] to_tail_inv [of s]
  unfolding vga_putchar_def put_raw_def to_tail_def Let_def by simp

lemma tail_inv: "vga_inv s \<Longrightarrow> vga_inv (ensure_tail_view s)"
  by (simp add: vga_inv_def frame_tail)

lemma putchar_inv: "vga_inv s \<Longrightarrow> vga_inv (vga_putchar c s)" and putchar_follows: "vga_inv s \<Longrightarrow> v_follow_tail (vga_putchar c s)"
  using put_raw_inv [of "to_tail s" c] to_tail_inv [of s] tail_inv [of "put_raw c (to_tail s)"]
  by (simp_all add: putchar_eq render_inv)

lemma fill_lines_keep:
  assumes "length (v_text s) = 16000"
  shows "\<exists>t. fold (\<lambda>r. fill_line (int r) a) rs s = s\<lparr>v_text := t\<rparr> \<and> length t = 16000"
  using assms
proof (induction rs arbitrary: s)
  case Nil
  then show ?case by (intro exI [of _ "v_text s"]) simp
next
  case (Cons r rs)
  have e: "fill_line (int r) a s = s\<lparr>v_text := v_text (fill_line (int r) a s)\<rparr>"
    using fill_line_text(1) [OF Cons.prems] by (intro vga.equality) simp_all
  have "length (v_text (fill_line (int r) a s)) = 16000" using Cons.prems by simp
  from Cons.IH [OF this] obtain t where t: "fold (\<lambda>r. fill_line (int r) a) rs (fill_line (int r) a s) = (fill_line (int r) a s)\<lparr>v_text := t\<rparr>" "length t = 16000"
    by blast
  have "(fill_line (int r) a s)\<lparr>v_text := t\<rparr> = s\<lparr>v_text := t\<rparr>" by (subst e) simp
  then show ?case using t by auto
qed

lemma reset_inv:
  assumes "length (v_text s) = 16000" "length (v_vram s) = 2000" "\<not> v_fault s"
  shows "vga_inv (reset_lines a s)"
proof -
  let ?s = "s\<lparr>v_attr := a, v_cursor_line := 0, v_cursor_col := 0, v_first_line := 0, v_line_count := 1, v_view_top := 0, v_follow_tail := True\<rparr>"
  obtain t where t: "fold (\<lambda>r. fill_line (int r) a) [0..<200] ?s = ?s\<lparr>v_text := t\<rparr>" "length t = 16000"
    using fill_lines_keep [of ?s a "[0..<200]"] assms(1) by auto
  have "vga_inv (?s\<lparr>v_text := t\<rparr>)" using t(2) assms by (simp add: vga_inv_def vga_frame_def last_line_def)
  then show ?thesis unfolding reset_lines_def t(1) by (rule render_inv)
qed

text \<open>What \<^verbatim>\<open>ensure_line_exists\<close> does to the line numbers, for a line that is not before the ring.\<close>

lemma add_lines_spec:
  assumes "length (v_text s) = 16000" "v_first_line s \<le> line" "v_line_count s \<le> 200"
  shows "\<exists>t n. add_lines line s = s\<lparr>v_text := t, v_line_count := n\<rparr> \<and> length t = 16000 \<and> v_line_count s \<le> n \<and> n \<le> 200
     \<and> (n = 200 \<or> line \<le> v_first_line s + n - 1) \<and> (last_line s \<ge> line \<longrightarrow> n = v_line_count s) \<and> (last_line s < line \<longrightarrow> v_first_line s + n - 1 \<le> line)"
  using assms
proof (induction line s rule: add_lines.induct)
  case (1 line s)
  show ?case
  proof (cases "last_line s < line \<and> v_line_count s < 200")
    case True
    let ?f = "fill_line (v_first_line s + v_line_count s) (v_attr s) s"
    let ?s = "?f\<lparr>v_line_count := v_line_count s + 1\<rparr>"
    have e: "?f = s\<lparr>v_text := v_text ?f\<rparr>" using fill_line_text(1) [OF "1.prems"(1)] by (intro vga.equality) simp_all
    have "\<exists>t n. add_lines line ?s = ?s\<lparr>v_text := t, v_line_count := n\<rparr> \<and> length t = 16000 \<and> v_line_count ?s \<le> n \<and> n \<le> 200
     \<and> (n = 200 \<or> line \<le> v_first_line ?s + n - 1) \<and> (last_line ?s \<ge> line \<longrightarrow> n = v_line_count ?s) \<and> (last_line ?s < line \<longrightarrow> v_first_line ?s + n - 1 \<le> line)"
      using "1.IH" [OF True] "1.prems" True by simp
    then obtain t n where t: "add_lines line ?s = ?s\<lparr>v_text := t, v_line_count := n\<rparr>" "length t = 16000" "v_line_count s + 1 \<le> n" "n \<le> 200"
      "n = 200 \<or> line \<le> v_first_line s + n - 1" "last_line ?s \<ge> line \<Longrightarrow> n = v_line_count s + 1" "last_line ?s < line \<Longrightarrow> v_first_line s + n - 1 \<le> line" by auto
    have "add_lines line s = add_lines line ?s" using True by (subst add_lines.simps) simp
    also have "\<dots> = s\<lparr>v_text := t, v_line_count := n\<rparr>" unfolding t(1) by (subst e) simp
    finally have r: "add_lines line s = s\<lparr>v_text := t, v_line_count := n\<rparr>" .
    have "last_line ?s = last_line s + 1" by (simp add: last_line_def)
    then have "v_first_line s + n - 1 \<le> line" using t(6,7) True by (cases "last_line ?s \<ge> line") (auto simp: last_line_def)
    then show ?thesis using r t True by (intro exI [of _ t] exI [of _ n]) auto
  next
    case False
    have "add_lines line s = s" using False by (subst add_lines.simps) auto
    then show ?thesis using False "1.prems" by (intro exI [of _ "v_text s"] exI [of _ "v_line_count s"]) (auto simp: last_line_def)
  qed
qed

lemma drop_lines_spec:
  assumes "length (v_text s) = 16000"
  shows "\<exists>t. drop_lines line s = s\<lparr>v_text := t, v_first_line := max (v_first_line s) (line - v_line_count s + 1)\<rparr> \<and> length t = 16000"
  using assms
proof (induction line s rule: drop_lines.induct)
  case (1 line s)
  show ?case
  proof (cases "last_line s < line")
    case True
    let ?f = "fill_line (v_first_line s + 1 + v_line_count s - 1) (v_attr s) s"
    let ?s = "?f\<lparr>v_first_line := v_first_line s + 1\<rparr>"
    have e: "?f = s\<lparr>v_text := v_text ?f\<rparr>" using fill_line_text(1) [OF "1.prems"(1)] by (intro vga.equality) simp_all
    obtain t where t: "drop_lines line ?s = ?s\<lparr>v_text := t, v_first_line := max (v_first_line ?s) (line - v_line_count ?s + 1)\<rparr>" "length t = 16000"
      using "1.IH" [OF True] "1.prems" by auto
    have "drop_lines line s = drop_lines line ?s" using True by (subst drop_lines.simps) simp
    also have "\<dots> = s\<lparr>v_text := t, v_first_line := max (v_first_line s) (line - v_line_count s + 1)\<rparr>"
      unfolding t(1) using True by (subst e) (simp add: last_line_def max_def)
    finally show ?thesis using t(2) by blast
  next
    case False
    have "drop_lines line s = s" using False by (subst drop_lines.simps) simp
    then show ?thesis using False "1.prems" by (intro exI [of _ "v_text s"]) (simp add: last_line_def max_def)
  qed
qed

lemma ensure_line_spec:
  assumes "length (v_text s) = 16000" "v_first_line s \<le> line" "1 \<le> v_line_count s" "v_line_count s \<le> 200"
  obtains t n f where "ensure_line_exists line s = s\<lparr>v_text := t, v_line_count := n, v_first_line := f\<rparr>" "length t = 16000"
    "v_line_count s \<le> n" "n \<le> 200" "v_first_line s \<le> f" "line \<le> f + n - 1"
    "f = v_first_line s \<or> f + n - 1 = line" "line < v_first_line s + 200 \<Longrightarrow> f = v_first_line s"
proof -
  obtain t n where a: "add_lines line s = s\<lparr>v_text := t, v_line_count := n\<rparr>" "length t = 16000" "v_line_count s \<le> n" "n \<le> 200"
     "n = 200 \<or> line \<le> v_first_line s + n - 1"
    using add_lines_spec [OF assms(1,2,4)] by blast
  let ?s = "s\<lparr>v_text := t, v_line_count := n\<rparr>"
  obtain u where d: "drop_lines line ?s = ?s\<lparr>v_text := u, v_first_line := max (v_first_line s) (line - n + 1)\<rparr>" "length u = 16000"
    using drop_lines_spec [of ?s line] a(2) by auto
  show ?thesis
    by (rule that [of "max (v_first_line s) (line - n + 1)" n u]) (use a d assms in \<open>auto simp: ensure_line_exists_def max_def\<close>)
qed

lemma set_cursor_inv:
  assumes "vga_inv s"
  shows "vga_inv (vga_set_cursor row col s)"
proof -
  have d: "vga_frame s" using assms by (simp add: vga_inv_def)
  note f = vga_frameD [OF d]
  let ?row = "if 25 \<le> (if row < 0 then 0 else row) then 24 else (if row < 0 then 0 else row)"
  let ?col = "if 80 \<le> (if col < 0 then 0 else col) then 79 else (if col < 0 then 0 else col)"
  let ?line = "if v_view_top s + ?row < v_first_line s then v_first_line s else v_view_top s + ?row"
  have col: "0 \<le> ?col" "?col < 80" and row: "0 \<le> ?row" "v_first_line s \<le> ?line" by auto
  obtain t n f' where e: "ensure_line_exists ?line (s\<lparr>v_cursor_line := ?line\<rparr>) = s\<lparr>v_cursor_line := ?line, v_text := t, v_line_count := n, v_first_line := f'\<rparr>"
    "length t = 16000" "v_line_count s \<le> n" "n \<le> 200" "v_first_line s \<le> f'" "?line \<le> f' + n - 1" "f' = v_first_line s \<or> f' + n - 1 = ?line"
    by (rule ensure_line_spec [of "s\<lparr>v_cursor_line := ?line\<rparr>" ?line]) (use f row in auto)
  let ?t = "s\<lparr>v_cursor_line := ?line, v_text := t, v_line_count := n, v_first_line := f', v_cursor_col := ?col, v_follow_tail := True\<rparr>"
  have "f' \<le> ?line" using e(3,7) f(3) row(2) by auto
  then have "vga_inv (ensure_tail_view ?t)"
    using e(2,3,4,6) f(2,3,9) col by (auto simp: vga_inv_def vga_frame_def ensure_tail_view_def last_line_def Let_def)
  then show ?thesis unfolding vga_set_cursor_def Let_def e(1) by (simp add: render_inv)
qed

lemma scroll_inv: "vga_inv s \<Longrightarrow> vga_inv (vga_scroll_page d s)"
  unfolding vga_scroll_page_def Let_def
  by (rule render_inv) (auto simp: vga_inv_def vga_frame_def last_line_def)

lemma attr_inv [simp]: "vga_inv (s\<lparr>v_attr := a\<rparr>) = vga_inv s"
  by (simp add: vga_inv_def vga_frame_def last_line_def)

lemma set_color_inv [simp]: "vga_inv (vga_set_color fg bg s) = vga_inv s"
  by (simp add: vga_set_color_def)

lemma ansi_apply_inv: "ansi_apply q e s = Some s' \<Longrightarrow> vga_inv s \<Longrightarrow> vga_inv s'"
  by (auto simp: ansi_apply_def split: option.splits if_splits)

lemma puts_loop_inv: "puts_loop str s = Some s' \<Longrightarrow> vga_inv s \<Longrightarrow> vga_inv s'"
proof (induction str s rule: puts_loop.induct)
  case (1 str s)
  show ?case
  proof (cases "char_at str 0 = 0")
    case True
    then show ?thesis using "1.prems" by (simp add: puts_loop.simps [of str])
  next
    case ne: False
    show ?thesis
    proof (cases "char_at str 0 = 0x1B \<and> char_at str 1 = 0x5B \<and> char_at str (seq_end str 2) = 0x6D")
      case True
      then obtain s1 where "ansi_apply (drop 2 str) (seq_end str 2 - 2) s = Some s1" "puts_loop (drop (seq_end str 2 + 1) str) s1 = Some s'"
        using "1.prems"(1) ne by (subst (asm) puts_loop.simps) (auto split: option.splits)
      then show ?thesis using "1.IH"(1) [OF ne True] ansi_apply_inv "1.prems"(2) by blast
    next
      case False
      then have "puts_loop (drop 1 str) (vga_putchar (char_at str 0) s) = Some s'" using "1.prems"(1) ne by (subst (asm) puts_loop.simps) auto
      then show ?thesis using "1.IH"(2) [OF ne False] putchar_inv "1.prems"(2) by blast
    qed
  qed
qed

lemma puts_inv: "vga_puts p s = Some s' \<Longrightarrow> vga_inv s \<Longrightarrow> vga_inv s'"
  by (auto simp: vga_puts_def puts_loop_inv split: option.splits)

lemma puts_color_inv: "vga_puts_color p fg bg s = Some s' \<Longrightarrow> vga_inv s \<Longrightarrow> vga_inv s'"
  using puts_inv [of p "vga_set_color fg bg s"] by (auto simp: vga_puts_color_def split: option.splits)

lemma fold_putchar_inv: "vga_inv s \<Longrightarrow> vga_inv (fold vga_putchar cs s)"
  by (induction cs arbitrary: s) (simp_all add: putchar_inv)

lemma print_uint_inv: "vga_inv s \<Longrightarrow> vga_inv (print_uint n b s)"
  by (simp add: print_uint_def putchar_inv fold_putchar_inv)

lemma printf_conv_inv: "printf_conv f as s = Some (bs, s') \<Longrightarrow> vga_inv s \<Longrightarrow> vga_inv s'"
  by (auto simp: printf_conv_def putchar_inv print_uint_inv puts_inv split: if_splits list.splits va_arg.splits option.splits)

lemma printf_inv: "vga_printf fmt as s = Some s' \<Longrightarrow> vga_inv s \<Longrightarrow> vga_inv s'"
proof (induction fmt as s rule: vga_printf.induct)
  case (1 fmt as s)
  show ?case
  proof (cases "char_at fmt 0 = 0")
    case True
    then show ?thesis using "1.prems" by (simp add: vga_printf.simps [of fmt])
  next
    case ne: False
    show ?thesis
    proof (cases "char_at fmt 0 = 0x25")
      case True
      then obtain bs s1 where c: "printf_conv (char_at fmt 1) as s = Some (bs, s1)" "vga_printf (drop 2 fmt) bs s1 = Some s'" "char_at fmt 1 \<noteq> 0"
        using "1.prems"(1) ne by (subst (asm) vga_printf.simps) (auto split: option.splits if_splits)
      then show ?thesis using "1.IH"(2) [OF ne _ c(3,1) refl] True printf_conv_inv [OF c(1)] "1.prems"(2) by simp
    next
      case False
      then have "vga_printf (drop 1 fmt) as (vga_putchar (char_at fmt 0) s) = Some s'" using "1.prems"(1) ne by (subst (asm) vga_printf.simps) auto
      then show ?thesis using "1.IH"(1) [OF ne False] putchar_inv "1.prems"(2) by blast
    qed
  qed
qed

text \<open>Steps that only store cells inside the ring.\<close>

definition paints :: "vga \<Rightarrow> vga \<Rightarrow> bool" where
  "paints s s' \<longleftrightarrow> (\<exists>t. s' = s\<lparr>v_text := t\<rparr> \<and> length t = 16000)"

lemma paints_cell:
  "length (v_text s) = 16000 \<Longrightarrow> 0 \<le> c \<Longrightarrow> c < 80 \<Longrightarrow> paints s (set_cell (line_slot l) c v s)"
  by (auto simp: paints_def set_cell_eq)

lemma paints_refl: "length (v_text s) = 16000 \<Longrightarrow> paints s s"
  unfolding paints_def by (intro exI [of _ "v_text s"]) simp

lemma paints_trans: "paints s s1 \<Longrightarrow> paints s1 s2 \<Longrightarrow> paints s s2"
  by (auto simp: paints_def)

lemma paints_length: "paints s s' \<Longrightarrow> length (v_text s') = 16000"
  by (auto simp: paints_def)

lemma paints_fold:
  assumes "length (v_text s) = 16000" "\<And>x s. x \<in> set xs \<Longrightarrow> length (v_text s) = 16000 \<Longrightarrow> paints s (f x s)"
  shows "paints s (fold f xs s)"
  using assms
proof (induction xs arbitrary: s)
  case (Cons x xs)
  have "paints s (f x s)" using Cons.prems by simp
  moreover have "paints (f x s) (fold f xs (f x s))" using Cons.IH [of "f x s"] Cons.prems(2) paints_length [OF calculation] by simp
  ultimately show ?case using paints_trans by simp
qed (simp add: paints_refl)

lemma box_columns_paints:
  assumes "length (v_text s) = 16000" "0 \<le> col"
  shows "paints s (box_columns tp bt col width s)"
  unfolding box_columns_def
proof (rule paints_fold [OF assms(1)], goal_cases)
  case (1 c s)
  have c: "col + int c < 80" using 1(1) by (auto dest: set_takeWhileD)
  have p: "paints s (if b then set_cell (line_slot l) (col + int c) v s else s)" if "length (v_text s) = 16000" for b l v s
    using paints_cell [OF that] paints_refl [OF that] assms(2) c by simp
  show ?case unfolding Let_def by (rule paints_trans [OF p [OF 1(2)] p]) (rule paints_length [OF p [OF 1(2)]])
qed

lemma box_rows_paints:
  assumes "length (v_text s) = 16000"
  shows "paints s (box_rows tp height col width s)"
  unfolding box_rows_def
proof (rule paints_fold [OF assms], goal_cases)
  case (1 r s)
  let ?s1 = "if 0 \<le> col \<and> col < 80 then set_cell (line_slot (tp + int r)) col (cell_of (v_attr s) 0xBA) s else s"
  have p: "paints s ?s1" using 1(2) paints_cell paints_refl by simp
  have "paints ?s1 (if 0 \<le> col + width - 1 \<and> col + width - 1 < 80
      then set_cell (line_slot (tp + int r)) (col + width - 1) (cell_of (v_attr ?s1) 0xBA) ?s1 else ?s1)"
    using paints_length [OF p] paints_cell paints_refl by simp
  with p have "paints s (if 0 \<le> col + width - 1 \<and> col + width - 1 < 80
      then set_cell (line_slot (tp + int r)) (col + width - 1) (cell_of (v_attr ?s1) 0xBA) ?s1 else ?s1)" by (rule paints_trans)
  then show ?case unfolding Let_def using paints_refl [OF 1(2)] by (cases "line_there (tp + int r) s") simp_all
qed

text \<open>A box is harmless when its first column is not negative and its last line is within reach of the ring.\<close>

lemma draw_box_inv:
  assumes "vga_inv s" "0 \<le> col" "v_view_top s + row + height - 1 < v_first_line s + 200"
  shows "vga_inv (vga_draw_box row col height width color s)"
proof -
  note f = vga_frameD [OF assms(1) [unfolded vga_inv_def, THEN conjunct1]]
  let ?tp = "v_view_top s + row"
  let ?s1 = "(ensure_line_exists (?tp + height - 1) s)\<lparr>v_attr := VGA_ATTR color VGA_BLACK\<rparr>"
  let ?s2 = "box_rows ?tp height col width (box_columns ?tp (?tp + height - 1) col width ?s1)"
  have e: "vga_inv (ensure_line_exists (?tp + height - 1) s)"
  proof (cases "?tp + height - 1 < v_first_line s")
    case True
    then show ?thesis using assms(1) by (simp add: ensure_line_exists_def)
  next
    case False
    then obtain t n f' where t: "ensure_line_exists (?tp + height - 1) s = s\<lparr>v_text := t, v_line_count := n, v_first_line := f'\<rparr>"
      "length t = 16000" "v_line_count s \<le> n" "n \<le> 200" "?tp + height - 1 < v_first_line s + 200 \<Longrightarrow> f' = v_first_line s"
      by (rule_tac ensure_line_spec [of s "?tp + height - 1"]) (use f in auto)
    have "f' = v_first_line s" using t(5) assms(3) by simp
    then show ?thesis using t(2-4) assms(1) unfolding t(1) by (auto simp: vga_inv_def vga_frame_def last_line_def)
  qed
  then have l: "length (v_text ?s1) = 16000" by (simp add: vga_inv_def vga_frame_def)
  note b = box_columns_paints [OF l assms(2), of ?tp "?tp + height - 1" width]
  have "paints ?s1 ?s2" by (rule paints_trans [OF b box_rows_paints [OF paints_length [OF b]]])
  then obtain t where t: "?s2 = ?s1\<lparr>v_text := t\<rparr>" "length t = 16000" by (auto simp: paints_def)
  have "vga_inv (?s2\<lparr>v_attr := v_attr s\<rparr>)" using e t(2) unfolding t(1) by (simp add: vga_inv_def vga_frame_def last_line_def)
  then show ?thesis unfolding vga_draw_box_def Let_def by (rule render_inv)
qed

text \<open>The calls of the driver's clients, and the state the kernel starts with.\<close>

inductive vga_step :: "vga \<Rightarrow> vga \<Rightarrow> bool" where
  step_init: "vga_step s (vga_init s)"
| step_clear: "vga_step s (vga_clear bg s)"
| step_color: "vga_step s (vga_set_color fg bg s)"
| step_putchar: "vga_step s (vga_putchar c s)"
| step_puts: "vga_puts p s = Some s' \<Longrightarrow> vga_step s s'"
| step_puts_color: "vga_puts_color p fg bg s = Some s' \<Longrightarrow> vga_step s s'"
| step_printf: "vga_printf fmt as s = Some s' \<Longrightarrow> vga_step s s'"
| step_cursor: "vga_step s (vga_set_cursor row col s)"
| step_scroll: "vga_step s (vga_scroll_page d s)"
| step_box: "0 \<le> col \<Longrightarrow> v_view_top s + row + height - 1 < v_first_line s + 200 \<Longrightarrow> vga_step s (vga_draw_box row col height width color s)"

definition vga_boot :: vga where
  "vga_boot = \<lparr>v_text = replicate 16000 0, v_cursor_line = 0, v_cursor_col = 0, v_first_line = 0, v_line_count = 1, v_view_top = 0,
     v_follow_tail = True, v_attr = 0, v_vram = replicate 2000 0, v_ports = [], v_fault = False\<rparr>"

lemma vga_boot_inv: "vga_inv vga_boot"
  by (simp add: vga_inv_def vga_frame_def vga_boot_def last_line_def)

lemma vga_step_inv: "vga_step s s' \<Longrightarrow> vga_inv s \<Longrightarrow> vga_inv s'"
proof (induction rule: vga_step.induct)
  case (step_init s)
  then show ?case unfolding vga_init_def by (intro reset_inv) (simp_all add: vga_inv_def vga_frame_def)
next
  case (step_clear s bg)
  then show ?case unfolding vga_clear_def by (intro reset_inv) (simp_all add: vga_inv_def vga_frame_def)
qed (auto intro: putchar_inv puts_inv puts_color_inv printf_inv set_cursor_inv scroll_inv draw_box_inv)

lemma vga_run_inv: "vga_step\<^sup>*\<^sup>* s s' \<Longrightarrow> vga_inv s \<Longrightarrow> vga_inv s'"
  by (induction rule: rtranclp_induct) (auto intro: vga_step_inv)

subsection \<open>Colour sequences\<close>

text \<open>\<^verbatim>\<open>ansi_value\<close> stops behind the digits at its start.\<close>

lemma ansi_digits_end:
  "snd (ansi_digits s i v) \<ge> i \<and> (\<forall>j. i \<le> j \<and> j < snd (ansi_digits s i v) \<longrightarrow> is_digit (char_at s j)) \<and> \<not> is_digit (char_at s (snd (ansi_digits s i v)))"
proof (induction s i v rule: ansi_digits.induct)
  case (1 s i v)
  show ?case
  proof (cases "is_digit (char_at s i)")
    case True
    let ?w = "v * 10 + (uint (char_at s i) - 0x30)"
    note IH = "1.IH" [OF True]
    have e: "ansi_digits s i v = ansi_digits s (i + 1) ?w" using True by (subst ansi_digits.simps) simp
    have "is_digit (char_at s j)" if "i \<le> j" "j < snd (ansi_digits s (i + 1) ?w)" for j
      using IH True that by (cases "j = i") auto
    then show ?thesis using IH unfolding e by auto
  next
    case False
    then have "ansi_digits s i v = (v, i)" by (subst ansi_digits.simps) simp
    then show ?thesis using False by auto
  qed
qed

abbreviation colour_char :: "u8 \<Rightarrow> bool" where
  "colour_char c \<equiv> is_digit c \<or> c = 0x3B"

lemma ansi_loop_returns:
  assumes "\<And>j. i \<le> j \<Longrightarrow> j < fin \<Longrightarrow> colour_char (char_at seq j)" "\<not> is_digit (char_at seq fin)" "i \<le> fin"
  shows "\<exists>r. ansi_loop seq fin i had c = Some r"
  using assms
proof (induction "fin - i" arbitrary: i had c rule: less_induct)
  case less
  show ?case
  proof (cases "i < fin")
    case False
    then show ?thesis by (simp add: ansi_loop.simps [of seq fin i])
  next
    case True
    show ?thesis
    proof (cases "char_at seq i = 0x3B")
      case sc: True
      have "\<exists>r. ansi_loop seq fin (i + 1) had c = Some r" using True less.prems by (intro less.hyps) auto
      then show ?thesis using True sc by (simp add: ansi_loop.simps [of seq fin i])
    next
      case False
      obtain code j where v: "ansi_value seq i = (code, j)" by fastforce
      let ?j = "if j < fin \<and> char_at seq j = 0x3B then j + 1 else j"
      have d: "i \<le> j" "\<And>k. i \<le> k \<Longrightarrow> k < j \<Longrightarrow> is_digit (char_at seq k)" "\<not> is_digit (char_at seq j)"
        using ansi_digits_end [of i seq 0] v by (simp_all add: ansi_value_def)
      have "is_digit (char_at seq i)" using less.prems(1) [of i] True False by simp
      then have "i < j" using d(1,3) by (metis le_neq_implies_less)
      moreover have "j \<le> fin" using d(2) [of fin] less.prems(2) True by (meson less_imp_le not_le)
      ultimately have "\<exists>r. ansi_loop seq fin ?j True (ansi_code code c) = Some r"
        using less.prems True by (intro less.hyps) (auto split: if_splits)
      then show ?thesis using True False v by (simp add: ansi_loop.simps [of seq fin i])
    qed
  qed
qed

lemma ansi_loop_chars:
  assumes "ansi_loop seq fin i had c = Some r"
  shows "\<forall>j. i \<le> j \<and> j < fin \<longrightarrow> colour_char (char_at seq j)"
proof (rule ansi_loop.raw_induct [OF _ assms, where P = "\<lambda>seq fin i had c r. \<forall>j. i \<le> j \<and> j < fin \<longrightarrow> colour_char (char_at seq j)"], goal_cases)
  case (1 loop seq fin i had c r)
  show ?case
  proof (cases "i < fin")
    case False
    then show ?thesis by auto
  next
    case True
    show ?thesis
    proof (cases "char_at seq i = 0x3B")
      case sc: True
      have "\<forall>j. i + 1 \<le> j \<and> j < fin \<longrightarrow> colour_char (char_at seq j)" using "1"(1) [of seq fin "i + 1" had c r] "1"(2) True sc by simp
      then show ?thesis using sc by (metis Suc_eq_plus1 Suc_leI le_neq_implies_less)
    next
      case False
      obtain code j where v: "ansi_value seq i = (code, j)" by fastforce
      let ?j = "if j < fin \<and> char_at seq j = 0x3B then j + 1 else j"
      have "loop seq fin ?j True (ansi_code code c) = Some r" using "1"(2) True False v by simp
      from "1"(1) [OF this] have IH: "\<forall>k. ?j \<le> k \<and> k < fin \<longrightarrow> colour_char (char_at seq k)" .
      have d: "is_digit (char_at seq k)" if "i \<le> k" "k < j" for k
        using ansi_digits_end [of i seq 0] v that by (simp add: ansi_value_def)
      show ?thesis
      proof (intro allI impI)
        fix k assume k: "i \<le> k \<and> k < fin"
        then show "colour_char (char_at seq k)" using d [of k] IH by (cases "k < j"; cases "k = j") (auto split: if_splits)
      qed
    qed
  qed
qed

lemma seq_end_at:
  assumes "\<And>k. i \<le> k \<Longrightarrow> k < j \<Longrightarrow> char_at str k \<noteq> 0 \<and> \<not> (0x40 \<le> char_at str k \<and> char_at str k \<le> 0x7E)"
    "0x40 \<le> char_at str j" "char_at str j \<le> 0x7E" "i \<le> j"
  shows "seq_end str i = j"
  using assms
proof (induction "j - i" arbitrary: i)
  case 0
  then show ?case by (subst seq_end.simps) auto
next
  case (Suc n)
  have "char_at str i \<noteq> 0 \<and> \<not> (0x40 \<le> char_at str i \<and> char_at str i \<le> 0x7E)" using Suc.prems(1) [of i] Suc.hyps(2) by simp
  then have "seq_end str i = seq_end str (i + 1)" by (subst seq_end.simps) simp
  then show ?case using Suc.hyps(1) [of "i + 1"] Suc.hyps(2) Suc.prems by simp
qed

text \<open>
  C33: colour sequences. For every string that starts with a colour sequence (escape, bracket,
  parameters, \<open>m\<close>), \<^verbatim>\<open>vga_puts\<close> goes on behind it with only the colours changed if all parameter
  characters are digits and semicolons; with any other parameter character it never returns.
\<close>

theorem vga_puts_colour_sequence:
  assumes "\<forall>c \<in> set ps. c \<noteq> 0 \<and> \<not> (0x40 \<le> c \<and> c \<le> 0x7E)"
  shows "if \<forall>c \<in> set ps. colour_char c
     then \<exists>a. vga_puts (Some (0x1B # 0x5B # ps @ 0x6D # rest)) s = vga_puts (Some rest) (s\<lparr>v_attr := a\<rparr>)
     else vga_puts (Some (0x1B # 0x5B # ps @ 0x6D # rest)) s = None"
proof -
  let ?str = "0x1B # 0x5B # ps @ 0x6D # rest" and ?seq = "ps @ 0x6D # rest" and ?n = "length ps"
  have at: "char_at ?seq k = ps ! k" if "k < ?n" for k using that by (simp add: char_at_def nth_append)
  have m: "char_at ?seq ?n = 0x6D" by (simp add: char_at_def nth_append)
  have sh: "char_at ?str (k + 2) = char_at ?seq k" for k by (simp add: char_at_def)
  have sh': "char_at ?str k = char_at ?seq (k - 2)" if "2 \<le> k" for k using sh [of "k - 2", unfolded le_add_diff_inverse2 [OF that]] .
  have sq: "seq_end ?str 2 = ?n + 2"
  proof (rule seq_end_at)
    show "char_at ?str k \<noteq> 0 \<and> \<not> (0x40 \<le> char_at ?str k \<and> char_at ?str k \<le> 0x7E)" if "2 \<le> k" "k < ?n + 2" for k
      unfolding sh' [OF that(1)] using assms at [of "k - 2"] that nth_mem [of "k - 2" ps] by auto
  qed (use sh [of ?n] m in simp_all)
  have dr: "drop (?n + 2 + 1) ?str = rest" "char_at ?str 0 = 0x1B" "char_at ?str 1 = 0x5B" by (simp_all add: char_at_def)
  have e: "vga_puts (Some ?str) s = (case ansi_apply ?seq ?n s of None \<Rightarrow> None | Some s1 \<Rightarrow> puts_loop rest s1)"
    unfolding vga_puts_def option.case puts_loop.simps [of ?str] sq dr using sh [of ?n] m by simp
  show ?thesis
  proof (cases "\<forall>c \<in> set ps. colour_char c")
    case True
    then have "colour_char (char_at ?seq j)" if "j < ?n" for j using at [OF that] nth_mem [OF that] by auto
    moreover have "\<not> is_digit (char_at ?seq ?n)" unfolding m by (simp add: is_digit_def)
    ultimately obtain h c where "ansi_loop ?seq ?n 0 False (vga_get_fg s, vga_get_bg s) = Some (h, c)"
      using ansi_loop_returns [of 0 ?n ?seq False "(vga_get_fg s, vga_get_bg s)"] by (metis le0 surj_pair)
    then have "\<exists>a. ansi_apply ?seq ?n s = Some (s\<lparr>v_attr := a\<rparr>)" by (auto simp: ansi_apply_def vga_set_color_def)
    then show ?thesis using True unfolding e by (auto simp: vga_puts_def)
  next
    case False
    then obtain j where j: "j < ?n" "\<not> colour_char (ps ! j)" by (auto simp: in_set_conv_nth)
    then have "ansi_loop ?seq ?n 0 False (vga_get_fg s, vga_get_bg s) = None"
      using ansi_loop_chars [of ?seq ?n 0 False "(vga_get_fg s, vga_get_bg s)"] at [OF j(1)]
      by (cases "ansi_loop ?seq ?n 0 False (vga_get_fg s, vga_get_bg s)") auto
    then have "vga_puts (Some ?str) s = None" unfolding e by (simp add: ansi_apply_def)
    then show ?thesis using False by auto
  qed
qed

theorem vga_puts_colour_sequence_witness:
  "vga_puts (Some [0x1B, 0x5B, 0x3F, 0x6D]) vga_boot = None"
proof -
  have "\<forall>c \<in> set [0x3F :: u8]. c \<noteq> 0 \<and> \<not> (0x40 \<le> c \<and> c \<le> 0x7E)" by simp
  from vga_puts_colour_sequence [OF this, of "[]" vga_boot] show ?thesis by (simp add: is_digit_def)
qed

subsection \<open>The console as a whole\<close>

text \<open>
  C31: memory safety of the console. In every run of calls in which a box has a column that is
  not negative and a last line within 200 lines of the oldest one (\<^verbatim>\<open>vga_draw_box\<close> checks neither,
  see \<open>vga_box_outside\<close>), and as long as the line numbers stay within a C \<^verbatim>\<open>int\<close> (the model's are
  unbounded), no store leaves the ring, the cursor is on one of its lines and columns, and the
  window starts on one of its lines.
\<close>

theorem vga_memory_safe:
  assumes "vga_step\<^sup>*\<^sup>* vga_boot s"
  shows "\<not> v_fault s \<and> length (v_text s) = 16000 \<and> length (v_vram s) = 2000 \<and> 1 \<le> v_line_count s \<and> v_line_count s \<le> 200
     \<and> v_first_line s \<le> v_cursor_line s \<and> v_cursor_line s \<le> last_line s \<and> 0 \<le> v_cursor_col s \<and> v_cursor_col s < 80
     \<and> v_first_line s \<le> v_view_top s \<and> v_view_top s \<le> last_line s"
  using vga_run_inv [OF assms vga_boot_inv] by (simp add: vga_inv_def vga_frame_def)

theorem vga_memory_safe_witness: "\<not> v_fault (vga_scroll_page 1 (vga_putchar 65 (vga_init vga_boot)))"
proof -
  have "vga_step\<^sup>*\<^sup>* vga_boot (vga_scroll_page 1 (vga_putchar 65 (vga_init vga_boot)))"
    by (meson rtranclp.rtrancl_into_rtrancl rtranclp.rtrancl_refl step_init step_putchar step_scroll)
  from vga_memory_safe [OF this] show ?thesis by blast
qed

text \<open>
  a box with a negative column. \<^verbatim>\<open>vga_draw_box\<close> does not check it for the top and bottom border:
  a box of one cell at row 0, column -1 of the fresh console stores in front of \<^verbatim>\<open>text_buffer\<close>.
\<close>

theorem vga_box_outside: "v_fault (vga_draw_box 0 (-1) 1 1 color vga_boot)"
proof -
  let ?s = "vga_boot\<lparr>v_attr := VGA_ATTR color VGA_BLACK\<rparr>"
  have e: "ensure_line_exists 0 vga_boot = vga_boot"
    by (simp add: ensure_line_exists_def add_lines.simps drop_lines.simps vga_boot_def last_line_def)
  have v: "v_view_top vga_boot = 0" by (simp add: vga_boot_def)
  have l: "line_there 0 ?s" "line_there 0 (?s\<lparr>v_fault := True\<rparr>)" by (simp_all add: line_there_def vga_boot_def last_line_def)
  have "box_columns 0 0 (-1) 1 ?s = ?s\<lparr>v_fault := True\<rparr>"
    using l by (simp add: box_columns_def set_cell_def line_slot_mod Let_def)
  moreover have "box_rows 0 1 (-1) 1 t = t" for t by (simp add: box_rows_def)
  ultimately have d: "vga_draw_box 0 (-1) 1 1 color vga_boot = render_view (?s\<lparr>v_fault := True, v_attr := v_attr vga_boot\<rparr>)"
    using e v by (simp add: vga_draw_box_def Let_def)
  have "length (v_vram (?s\<lparr>v_fault := True, v_attr := v_attr vga_boot\<rparr>)) = 2000" by (simp add: vga_boot_def)
  then obtain m ps where "vga_draw_box 0 (-1) 1 1 color vga_boot = ?s\<lparr>v_fault := True, v_attr := v_attr vga_boot, v_vram := m, v_ports := ps\<rparr>"
    unfolding d using render_view_eq by metis
  then show ?thesis by simp
qed

lemma pos_bytes:
  fixes pos :: u16
  shows "unat (ucast (drop_bit 8 pos AND 0xFF) :: u8) * 256 + unat (ucast (pos AND 0xFF) :: u8) = unat pos"
proof -
  have m: "(0xFF :: u16) = mask 8" by (simp add: mask_eq_exp_minus_1)
  have p: "unat pos < 65536" using unsigned_less [where 'b = 16 and 'a = nat and w = pos] by simp
  have "unat (ucast (drop_bit 8 pos AND 0xFF) :: u8) = unat pos div 256"
    unfolding m take_bit_eq_mask [symmetric] using p by (simp add: unsigned_ucast_eq take_bit_eq_mod drop_bit_eq_div unat_mod unat_div)
  moreover have "unat (ucast (pos AND 0xFF) :: u8) = unat pos mod 256"
    unfolding m take_bit_eq_mask [symmetric] by (simp add: unsigned_ucast_eq take_bit_eq_mod unat_mod)
  ultimately show ?thesis by simp
qed

lemma render_cursor:
  assumes "vga_inv s" "v_follow_tail s" "v_view_top s \<le> v_cursor_line s" "v_cursor_line s < v_view_top s + 25"
  obtains ps hi lo where "v_ports (render_view s) = ps @ [(0x3D4, 0x0F), (0x3D5, lo), (0x3D4, 0x0E), (0x3D5, hi)]"
    "unat hi * 256 + unat lo = nat ((v_cursor_line s - v_view_top s) * 80 + v_cursor_col s)"
proof -
  have "length (v_vram s) = 2000" using assms(1) by (simp add: vga_inv_def vga_frame_def)
  have "\<exists>m. fold render_row [0..<n] s = s\<lparr>v_vram := m\<rparr> \<and> length m = 2000" if "n \<le> 25" for n
    using that
  proof (induction n)
    case 0
    then show ?case using \<open>length (v_vram s) = 2000\<close> by (intro exI [of _ "v_vram s"]) simp
  next
    case (Suc n)
    then obtain m where m: "fold render_row [0..<n] s = s\<lparr>v_vram := m\<rparr>" "length m = 2000" by auto
    then show ?case using render_row_eq [of "s\<lparr>v_vram := m\<rparr>" n] Suc.prems by auto
  qed
  from this [of 25] obtain m where m: "fold render_row [0..<25] s = s\<lparr>v_vram := m\<rparr>" by auto
  let ?p = "(v_cursor_line s - v_view_top s) * 80 + v_cursor_col s"
  let ?pos = "word_of_int ?p :: u16"
  have "0 \<le> ?p" "?p < 2000" using assms(1,3,4) by (auto simp: vga_inv_def)
  moreover have "unat (word_of_int p :: u16) = nat p" if "0 \<le> p" "p < 2000" for p
    using that by (simp add: unsigned_of_int take_bit_int_eq_self)
  ultimately have u: "unat ?pos = nat ?p" by blast
  show ?thesis
  proof (rule that)
    show "v_ports (render_view s) = v_ports (enable_hw_cursor (s\<lparr>v_vram := m\<rparr>)) @
        [(0x3D4, 0x0F), (0x3D5, ucast (?pos AND 0xFF)), (0x3D4, 0x0E), (0x3D5, ucast (drop_bit 8 ?pos AND 0xFF))]"
      using assms(2-4) by (simp add: render_view_def m update_hw_cursor_def vga_outb_def Let_def)
    show "unat (ucast (drop_bit 8 ?pos AND 0xFF) :: u8) * 256 + unat (ucast (?pos AND 0xFF) :: u8) = nat ?p"
      using pos_bytes [of ?pos] u by simp
  qed
qed

text \<open>
  C32: what the screen shows after a character was written, for every state of the console and
  every character: each of the 2000 cells of the video memory is the cell of the ring at the
  window's line and column (blank below the last line), the line of the cursor is in the window,
  and the cursor position sent to the controller is its cell.
\<close>

theorem vga_putchar_shown:
  assumes "vga_inv s" "s' = vga_putchar c s"
  shows "(\<forall>r < 25. \<forall>k < 80. v_vram s' ! (r * 80 + k) =
       (if v_view_top s' + int r \<le> last_line s' then v_text s' ! cell_ix (v_view_top s' + int r) k else cell_of (v_attr s') 32))
     \<and> v_view_top s' \<le> v_cursor_line s' \<and> v_cursor_line s' < v_view_top s' + 25
     \<and> (\<exists>ps hi lo. v_ports s' = ps @ [(0x3D4, 0x0F), (0x3D5, lo), (0x3D4, 0x0E), (0x3D5, hi)]
          \<and> unat hi * 256 + unat lo = nat ((v_cursor_line s' - v_view_top s') * 80 + v_cursor_col s'))"
proof -
  let ?t = "ensure_tail_view (put_raw c (to_tail s))"
  have s': "s' = render_view ?t" using assms by (simp add: putchar_eq)
  have i: "vga_inv ?t" "v_follow_tail ?t"
    using put_raw_inv [of "to_tail s" c] to_tail_inv [OF assms(1)] tail_inv [of "put_raw c (to_tail s)"] by simp_all
  then have l: "length (v_vram ?t) = 2000" and f: "v_first_line ?t \<le> v_view_top ?t" by (simp_all add: vga_inv_def vga_frame_def)
  have w: "v_view_top ?t \<le> v_cursor_line ?t" "v_cursor_line ?t < v_view_top ?t + 25"
    using i(1) by (auto simp: ensure_tail_view_def Let_def vga_inv_def vga_frame_def)
  obtain m ps where m: "render_view ?t = ?t\<lparr>v_vram := m, v_ports := ps\<rparr>" "\<And>r c. r < 25 \<Longrightarrow> c < 80 \<Longrightarrow> m ! (r * 80 + c) = shown ?t r c"
    using render_view_eq [OF l] by metis
  obtain qs hi lo where q: "v_ports s' = qs @ [(0x3D4, 0x0F), (0x3D5, lo), (0x3D4, 0x0E), (0x3D5, hi)]"
    "unat hi * 256 + unat lo = nat ((v_cursor_line ?t - v_view_top ?t) * 80 + v_cursor_col ?t)"
    using render_cursor [OF i w] s' by metis
  have "v_vram s' ! (r * 80 + k) = (if v_view_top s' + int r \<le> last_line s' then v_text s' ! cell_ix (v_view_top s' + int r) k else cell_of (v_attr s') 32)"
    if "r < 25" "k < 80" for r k
    using m(2) [OF that] f unfolding s' m(1) by (simp add: shown_def line_there_def last_line_def)
  moreover have "v_view_top s' \<le> v_cursor_line s' \<and> v_cursor_line s' < v_view_top s' + 25" using w unfolding s' m(1) by simp
  moreover have "unat hi * 256 + unat lo = nat ((v_cursor_line s' - v_view_top s') * 80 + v_cursor_col s')" using q(2) unfolding s' m(1) by simp
  ultimately show ?thesis using q(1) by blast
qed

theorem vga_putchar_shown_witness:
  "v_vram (vga_putchar 65 vga_boot) ! 0 = v_text (vga_putchar 65 vga_boot) ! cell_ix (v_view_top (vga_putchar 65 vga_boot)) 0"
proof -
  have "v_view_top (vga_putchar 65 vga_boot) \<le> last_line (vga_putchar 65 vga_boot)"
    using putchar_inv [OF vga_boot_inv, of 65] by (simp add: vga_inv_def vga_frame_def)
  then show ?thesis using vga_putchar_shown [OF vga_boot_inv refl, of 65, THEN conjunct1, rule_format, of 0 0] by simp
qed

text \<open>Writing one printable character that does not end its line.\<close>

lemma putchar_plain:
  assumes "vga_inv s" "32 \<le> c" "v_cursor_col s < 79"
  shows "vga_inv (vga_putchar c s)" "v_cursor_col (vga_putchar c s) = v_cursor_col s + 1" "v_cursor_line (vga_putchar c s) = v_cursor_line s"
    "v_attr (vga_putchar c s) = v_attr s"
    "v_text (vga_putchar c s) = (v_text s)[cell_ix (v_cursor_line s) (nat (v_cursor_col s)) := cell_of (v_attr s) c]"
proof -
  let ?t = "to_tail s"
  have t: "vga_inv ?t" "v_follow_tail ?t" using to_tail_inv [OF assms(1)] by simp_all
  have f: "v_cursor_col ?t = v_cursor_col s" "v_cursor_line ?t = v_cursor_line s" "v_attr ?t = v_attr s" "v_text ?t = v_text s"
    by (simp_all add: to_tail_def)
  have c: "c \<noteq> 10" "c \<noteq> 13" "c \<noteq> 9" "c \<noteq> 8" using assms(2) by auto
  have p: "put_raw c ?t = ?t\<lparr>v_text := (v_text s)[cell_ix (v_cursor_line s) (nat (v_cursor_col s)) := cell_of (v_attr s) c], v_cursor_col := v_cursor_col s + 1\<rparr>"
    using c assms(3) frame_write(4) [OF t(1), of c] by (simp add: put_raw_def Let_def f)
  let ?u = "ensure_tail_view (put_raw c ?t)"
  have u: "vga_inv ?u" using put_raw_inv [OF t] tail_inv by blast
  have "length (v_vram ?u) = 2000" using u by (simp add: vga_inv_def vga_frame_def)
  then obtain m ps where r: "vga_putchar c s = ?u\<lparr>v_vram := m, v_ports := ps\<rparr>" using render_view_eq putchar_eq [OF assms(1)] by metis
  show "vga_inv (vga_putchar c s)" by (rule putchar_inv [OF assms(1)])
  show "v_cursor_col (vga_putchar c s) = v_cursor_col s + 1" "v_cursor_line (vga_putchar c s) = v_cursor_line s" "v_attr (vga_putchar c s) = v_attr s"
    "v_text (vga_putchar c s) = (v_text s)[cell_ix (v_cursor_line s) (nat (v_cursor_col s)) := cell_of (v_attr s) c]"
    unfolding r by (simp_all add: p f)
qed

lemma puts_plain:
  assumes "vga_inv s" "\<forall>c \<in> set xs. 32 \<le> c" "v_cursor_col s + int (length xs) < 80"
  shows "puts_loop xs s = Some (fold vga_putchar xs s)" "vga_inv (fold vga_putchar xs s)"
    "v_cursor_col (fold vga_putchar xs s) = v_cursor_col s + int (length xs)" "v_cursor_line (fold vga_putchar xs s) = v_cursor_line s"
    "v_attr (fold vga_putchar xs s) = v_attr s"
    "i < length xs \<Longrightarrow> v_text (fold vga_putchar xs s) ! cell_ix (v_cursor_line s) (nat (v_cursor_col s) + i) = cell_of (v_attr s) (xs ! i)"
    "(\<And>i. i < length xs \<Longrightarrow> k \<noteq> cell_ix (v_cursor_line s) (nat (v_cursor_col s) + i)) \<Longrightarrow> v_text (fold vga_putchar xs s) ! k = v_text s ! k"
proof -
  have "puts_loop xs s = Some (fold vga_putchar xs s) \<and> vga_inv (fold vga_putchar xs s)
    \<and> v_cursor_col (fold vga_putchar xs s) = v_cursor_col s + int (length xs) \<and> v_cursor_line (fold vga_putchar xs s) = v_cursor_line s
    \<and> v_attr (fold vga_putchar xs s) = v_attr s
    \<and> (\<forall>i < length xs. v_text (fold vga_putchar xs s) ! cell_ix (v_cursor_line s) (nat (v_cursor_col s) + i) = cell_of (v_attr s) (xs ! i))
    \<and> (\<forall>k. (\<forall>i < length xs. k \<noteq> cell_ix (v_cursor_line s) (nat (v_cursor_col s) + i)) \<longrightarrow> v_text (fold vga_putchar xs s) ! k = v_text s ! k)"
    using assms
  proof (induction xs arbitrary: s)
    case Nil
    then show ?case by (simp add: puts_loop.simps [of "[]"] char_at_def)
  next
    case (Cons c xs)
    have c: "32 \<le> c" "v_cursor_col s < 79" using Cons.prems(2,3) by auto
    let ?s = "vga_putchar c s"
    note p = putchar_plain [OF Cons.prems(1) c]
    have pos: "0 \<le> v_cursor_col s" using Cons.prems(1) by (simp add: vga_inv_def)
    have len: "length (v_text s) = 16000" using Cons.prems(1) by (simp add: vga_inv_def vga_frame_def)
    have col: "nat (v_cursor_col s + 1) = Suc (nat (v_cursor_col s))" using pos by simp
    have IH: "puts_loop xs ?s = Some (fold vga_putchar xs ?s)" "vga_inv (fold vga_putchar xs ?s)"
      "v_cursor_col (fold vga_putchar xs ?s) = v_cursor_col ?s + int (length xs)" "v_cursor_line (fold vga_putchar xs ?s) = v_cursor_line ?s"
      "v_attr (fold vga_putchar xs ?s) = v_attr ?s"
      "\<And>i. i < length xs \<Longrightarrow> v_text (fold vga_putchar xs ?s) ! cell_ix (v_cursor_line s) (nat (v_cursor_col s) + Suc i) = cell_of (v_attr s) (xs ! i)"
      "\<And>k. (\<And>i. i < length xs \<Longrightarrow> k \<noteq> cell_ix (v_cursor_line s) (nat (v_cursor_col s) + Suc i)) \<Longrightarrow> v_text (fold vga_putchar xs ?s) ! k = v_text ?s ! k"
      using Cons.IH [OF p(1)] Cons.prems(2,3) p(2,3,4) by (simp_all add: col)
    have "c \<noteq> 0" "c \<noteq> 0x1B" using c(1) by auto
    then have l: "puts_loop (c # xs) s = puts_loop xs ?s" by (subst puts_loop.simps) (simp add: char_at_def)
    have bd: "nat (v_cursor_col s) + length xs < 80" using Cons.prems(3) pos by simp
    have first: "v_text (fold vga_putchar xs ?s) ! cell_ix (v_cursor_line s) (nat (v_cursor_col s)) = cell_of (v_attr s) c"
    proof -
      have "cell_ix (v_cursor_line s) (nat (v_cursor_col s)) \<noteq> cell_ix (v_cursor_line s) (nat (v_cursor_col s) + Suc i)" if "i < length xs" for i
        using bd that by (subst cell_ix_eq) simp_all
      then have "v_text (fold vga_putchar xs ?s) ! cell_ix (v_cursor_line s) (nat (v_cursor_col s)) = v_text ?s ! cell_ix (v_cursor_line s) (nat (v_cursor_col s))"
        by (rule IH(7))
      then show ?thesis using p(5) len cell_ix_less [of "nat (v_cursor_col s)" "v_cursor_line s"] bd by simp
    qed
    show ?case
    proof (intro conjI allI impI)
      show "v_text (fold vga_putchar (c # xs) s) ! cell_ix (v_cursor_line s) (nat (v_cursor_col s) + i) = cell_of (v_attr s) ((c # xs) ! i)" if "i < length (c # xs)" for i
        using that first IH(6) by (cases i) simp_all
      show "v_text (fold vga_putchar (c # xs) s) ! k = v_text s ! k" if a: "\<forall>i < length (c # xs). k \<noteq> cell_ix (v_cursor_line s) (nat (v_cursor_col s) + i)" for k
      proof -
        have "k \<noteq> cell_ix (v_cursor_line s) (nat (v_cursor_col s) + Suc i)" if "i < length xs" for i using a [rule_format, of "Suc i"] that by simp
        then have "v_text (fold vga_putchar xs ?s) ! k = v_text ?s ! k" by (rule IH(7))
        moreover have "k \<noteq> cell_ix (v_cursor_line s) (nat (v_cursor_col s))" using a [rule_format, of 0] by simp
        ultimately show ?thesis using p(5) by simp
      qed
    qed (use l IH(1-5) p(2-4) in simp_all)
  qed
  then show "puts_loop xs s = Some (fold vga_putchar xs s)" "vga_inv (fold vga_putchar xs s)"
    "v_cursor_col (fold vga_putchar xs s) = v_cursor_col s + int (length xs)" "v_cursor_line (fold vga_putchar xs s) = v_cursor_line s"
    "v_attr (fold vga_putchar xs s) = v_attr s"
    "i < length xs \<Longrightarrow> v_text (fold vga_putchar xs s) ! cell_ix (v_cursor_line s) (nat (v_cursor_col s) + i) = cell_of (v_attr s) (xs ! i)"
    "(\<And>i. i < length xs \<Longrightarrow> k \<noteq> cell_ix (v_cursor_line s) (nat (v_cursor_col s) + i)) \<Longrightarrow> v_text (fold vga_putchar xs s) ! k = v_text s ! k"
    by blast+
qed

text \<open>
  plain text. A string of printable characters that fits on the cursor's line is written
  there character by character in the current colour, the cursor ends behind it, and no other
  cell of the ring changes.
\<close>

theorem vga_puts_plain:
  assumes "vga_inv s" "\<forall>c \<in> set xs. 32 \<le> c" "v_cursor_col s + int (length xs) < 80"
  shows "\<exists>s'. vga_puts (Some xs) s = Some s' \<and> v_cursor_line s' = v_cursor_line s \<and> v_cursor_col s' = v_cursor_col s + int (length xs)
     \<and> (\<forall>k < 16000. v_text s' ! k =
          (if \<exists>i < length xs. k = cell_ix (v_cursor_line s) (nat (v_cursor_col s) + i)
           then cell_of (v_attr s) (xs ! (k mod 80 - nat (v_cursor_col s))) else v_text s ! k))"
proof -
  note p = puts_plain [OF assms]
  have pos: "0 \<le> v_cursor_col s" using assms(1) by (simp add: vga_inv_def)
  have "v_text (fold vga_putchar xs s) ! k = cell_of (v_attr s) (xs ! (k mod 80 - nat (v_cursor_col s)))"
    if "i < length xs" "k = cell_ix (v_cursor_line s) (nat (v_cursor_col s) + i)" for i k
  proof -
    have "nat (v_cursor_col s) + i < 80" using that(1) assms(3) pos by linarith
    then have "k mod 80 = nat (v_cursor_col s) + i" using that(2) by (simp add: cell_ix_def)
    then show ?thesis using p(6) [OF that(1)] that(2) by simp
  qed
  moreover have "v_text (fold vga_putchar xs s) ! k = v_text s ! k"
    if "\<not> (\<exists>i < length xs. k = cell_ix (v_cursor_line s) (nat (v_cursor_col s) + i))" for k
    using p(7) [of k] that by blast
  ultimately show ?thesis using p(1,3,4) by (intro exI [of _ "fold vga_putchar xs s"]) (auto simp: vga_puts_def)
qed

theorem vga_puts_plain_witness:
  "\<exists>s'. vga_puts (Some [0x6F, 0x6B]) vga_boot = Some s' \<and> v_cursor_col s' = 2"
  using vga_puts_plain [OF vga_boot_inv, of "[0x6F, 0x6B]"] by (auto simp: vga_boot_def)

subsection \<open>Numbers\<close>

text \<open>Reading digits back, most significant first.\<close>

definition digit_val :: "u8 \<Rightarrow> nat" where
  "digit_val c = (if c \<le> 0x39 then unat c - 48 else unat c - 87)"

definition read_digits :: "nat \<Rightarrow> u8 list \<Rightarrow> nat" where
  "read_digits base cs = fold (\<lambda>c v. v * base + digit_val c) cs 0"

lemma digit_val_char: "r < 16 \<Longrightarrow> digit_val (digit_char r) = r"
proof -
  have "\<forall>r \<in> set [0..<16]. digit_val (digit_char r) = r" by code_simp
  then show "r < 16 \<Longrightarrow> digit_val (digit_char r) = r" by simp
qed

lemma uint_digits_spec:
  "2 \<le> base \<Longrightarrow> base \<le> 16 \<Longrightarrow> read_digits base (rev (uint_digits base n)) = n
     \<and> (0 < n \<longrightarrow> uint_digits base n \<noteq> [] \<and> digit_val (last (uint_digits base n)) \<noteq> 0)
     \<and> (n < 2 ^ k \<longrightarrow> length (uint_digits base n) \<le> k)"
proof (induction base n arbitrary: k rule: uint_digits.induct)
  case (1 base n)
  show ?case
  proof (cases "n = 0")
    case True
    then show ?thesis by (simp add: uint_digits.simps [of base 0] read_digits_def)
  next
    case False
    let ?d = "uint_digits base (n div base)"
    have b: "\<not> (n = 0 \<or> base < 2)" using False "1.prems"(1) by simp
    note IH = "1.IH" [OF b "1.prems"]
    have e: "uint_digits base n = digit_char (n mod base) # ?d" using b by (subst uint_digits.simps) simp
    have dv: "digit_val (digit_char (n mod base)) = n mod base"
    proof (rule digit_val_char)
      have "n mod base < base" using "1.prems"(1) by simp
      then show "n mod base < 16" using "1.prems"(2) by linarith
    qed
    have "read_digits base (rev (uint_digits base n)) = n div base * base + n mod base"
      using IH unfolding e by (simp add: read_digits_def dv)
    moreover have "digit_val (last (uint_digits base n)) \<noteq> 0"
    proof (cases "n div base = 0")
      case True
      then have "?d = []" "n < base" using b by (simp_all add: uint_digits.simps [of base 0] div_eq_0_iff)
      then show ?thesis unfolding e using False dv by simp
    next
      case False
      then show ?thesis unfolding e using IH [of 0] by simp
    qed
    moreover have "length (uint_digits base n) \<le> k" if "n < 2 ^ k"
    proof (cases k)
      case 0
      then show ?thesis using that False by simp
    next
      case (Suc j)
      have "n div base \<le> n div 2" using "1.prems"(1) by (intro div_le_mono2) simp_all
      also have "\<dots> < 2 ^ j" using that Suc by simp
      finally show ?thesis using IH [of j] unfolding e Suc by simp
    qed
    ultimately show ?thesis unfolding e by simp
  qed
qed

text \<open>
  printing a number. For base 10 and 16 \<^verbatim>\<open>print_uint\<close> writes a string of digits that reads back
  as the number, has no leading zero unless it is the number 0, and never fills more than the 32
  bytes of its buffer.
\<close>

theorem print_uint_roundtrip:
  assumes "base = 10 \<or> base = 16"
  shows "\<exists>cs. print_uint n base s = fold vga_putchar cs s \<and> read_digits base cs = unat n \<and> cs \<noteq> [] \<and> length cs \<le> 32
     \<and> (digit_val (hd cs) = 0 \<longrightarrow> n = 0 \<and> length cs = 1)"
proof (cases "n = 0")
  case True
  have "read_digits base [0x30] = 0" by (simp add: read_digits_def digit_val_def)
  then show ?thesis using True by (intro exI [of _ "[0x30]"]) (simp add: print_uint_def)
next
  case False
  have n: "unat n < 2 ^ 32" using unsigned_less [where 'b = 32 and 'a = nat and w = n] by simp
  have "0 < unat n" using False by (simp add: unat_gt_0)
  then show ?thesis
    using uint_digits_spec [of base "unat n" 32] assms False n
    by (intro exI [of _ "rev (uint_digits base (unat n))"]) (auto simp: print_uint_def hd_rev)
qed

theorem print_uint_roundtrip_witness: "\<exists>cs. print_uint 255 16 vga_boot = fold vga_putchar cs vga_boot \<and> read_digits 16 cs = 255"
  using print_uint_roundtrip [of 16 255 vga_boot] by auto

end
