(* ===== verification/Keyboard.thy ===== *)
theory Keyboard
  imports Vga
begin

text \<open>
  The keyboard driver of \<^verbatim>\<open>kernel/keyboard.c\<close>: decoding of scancodes with the modifier keys, the
  command history and the line editor. The controller is the list of the scancodes still to come;
  \<open>None\<close> means that a function waits for more. The line editor writes to the console of \<open>Vga\<close>.
  The main results: the history is a queue of the last 20 lines, and \<^verbatim>\<open>kb_readline\<close> implements an
  abstract line editor on the decoded keys.
\<close>

subsection \<open>State\<close>

abbreviation KB_BUF_SIZE :: nat where "KB_BUF_SIZE \<equiv> 256"
abbreviation HISTORY_SIZE :: nat where "HISTORY_SIZE \<equiv> 20"
abbreviation KB_KEY_UP :: u8 where "KB_KEY_UP \<equiv> 0xF1"
abbreviation KB_KEY_DOWN :: u8 where "KB_KEY_DOWN \<equiv> 0xF2"
abbreviation KB_KEY_LEFT :: u8 where "KB_KEY_LEFT \<equiv> 0xF3"
abbreviation KB_KEY_RIGHT :: u8 where "KB_KEY_RIGHT \<equiv> 0xF4"
abbreviation KB_KEY_PGUP :: u8 where "KB_KEY_PGUP \<equiv> 0xF5"
abbreviation KB_KEY_PGDN :: u8 where "KB_KEY_PGDN \<equiv> 0xF6"

definition sc_ascii :: "u8 list" where
  "sc_ascii =
    [0, 27, 49, 50, 51, 52, 53, 54, 55, 56, 57, 48, 45, 61, 8, 9,
     113, 119, 101, 114, 116, 121, 117, 105, 111, 112, 91, 93, 10, 0, 97, 115,
     100, 102, 103, 104, 106, 107, 108, 59, 39, 96, 0, 92, 122, 120, 99, 118,
     98, 110, 109, 44, 46, 47, 0, 42, 0, 32, 0, 0, 0, 0, 0, 0,
     0, 0, 0, 0, 0, 0, 0, 55, 56, 57, 45, 52, 53, 54, 43, 49,
     50, 51, 48, 46, 0, 0, 0, 0, 0, 0, 0, 0, 0, 0, 0, 0,
     0, 0, 0, 0, 0, 0, 0, 0, 0, 0, 0, 0, 0, 0, 0, 0,
     0, 0, 0, 0, 0, 0, 0, 0, 0, 0, 0, 0, 0, 0, 0, 0]"

definition sc_ascii_shift :: "u8 list" where
  "sc_ascii_shift =
    [0, 27, 33, 64, 35, 36, 37, 94, 38, 42, 40, 41, 95, 43, 8, 9,
     81, 87, 69, 82, 84, 89, 85, 73, 79, 80, 123, 125, 10, 0, 65, 83,
     68, 70, 71, 72, 74, 75, 76, 58, 34, 126, 0, 124, 90, 88, 67, 86,
     66, 78, 77, 60, 62, 63, 0, 42, 0, 32, 0, 0, 0, 0, 0, 0,
     0, 0, 0, 0, 0, 0, 0, 0, 0, 0, 0, 0, 0, 0, 0, 0,
     0, 0, 0, 0, 0, 0, 0, 0, 0, 0, 0, 0, 0, 0, 0, 0,
     0, 0, 0, 0, 0, 0, 0, 0, 0, 0, 0, 0, 0, 0, 0, 0,
     0, 0, 0, 0, 0, 0, 0, 0, 0, 0, 0, 0, 0, 0, 0, 0]"

record kbd =
  shift_held :: bool
  caps_lock :: bool
  ctrl_held :: bool
  alt_held :: bool
  altgr_held :: bool
  extended_code :: bool
  history :: "u8 list list"
  history_count :: int
  history_next :: int

subsection \<open>Strings\<close>

fun k_strlen :: "u8 list \<Rightarrow> nat" where
  "k_strlen [] = 0"
| "k_strlen (c # s) = (if c = 0 then 0 else Suc (k_strlen s))"

text \<open>\<open>k_strcpy dst src\<close>; what does not fit into \<open>dst\<close> is written behind it.\<close>

fun k_strcpy :: "u8 list \<Rightarrow> u8 list \<Rightarrow> u8 list" where
  "k_strcpy [] src = []"
| "k_strcpy (d # dst) [] = d # dst"
| "k_strcpy (d # dst) (c # src) = (if c = 0 then 0 # dst else c # k_strcpy dst src)"

fun k_streq :: "u8 list \<Rightarrow> u8 list \<Rightarrow> bool" where
  "k_streq (x # a) (y # b) = (if x \<noteq> 0 \<and> y \<noteq> 0 \<and> x = y then k_streq a b else x = 0 \<and> y = 0)"
| "k_streq a b = (char_at a 0 = 0 \<and> char_at b 0 = 0)"

subsection \<open>History\<close>

definition history_add :: "u8 list \<Rightarrow> kbd \<Rightarrow> kbd" where
  "history_add line k =
     (if char_at line 0 = 0 then k
      else if 0 < history_count k \<and> k_streq (history k ! nat ((history_next k + 20 - 1) mod 20)) line then k
      else k\<lparr>history := (history k)[nat (history_next k) := k_strcpy (history k ! nat (history_next k)) line],
             history_next := (history_next k + 1) mod 20,
             history_count := (if history_count k < 20 then history_count k + 1 else history_count k)\<rparr>)"

definition history_get :: "int \<Rightarrow> kbd \<Rightarrow> u8 list option" where
  "history_get position k =
     (if position < 0 \<or> history_count k \<le> position then None
      else let oldest = (history_next k - history_count k + 20) mod 20
           in Some (history k ! nat ((oldest + position) mod 20)))"

subsection \<open>Decoding\<close>

definition apply_caps_shift :: "u8 \<Rightarrow> u8 \<Rightarrow> kbd \<Rightarrow> u8" where
  "apply_caps_shift normal shifted k =
     (let is_letter = (0x61 \<le> normal \<and> normal \<le> 0x7A) in
      if \<not> is_letter then (if shift_held k then shifted else normal)
      else if caps_lock k = shift_held k then normal
      else shifted)"

definition altgr_translate :: "u8 \<Rightarrow> u8" where
  "altgr_translate sc =
     (if sc = 0x03 then 0x40 else if sc = 0x04 then 0x23 else if sc = 0x1A then 0x7B else if sc = 0x1B then 0x7D
      else if sc = 0x27 then 0x7E else if sc = 0x2B then 0x7C else 0)"

definition handle_extended_press :: "u8 \<Rightarrow> kbd \<Rightarrow> u8 \<times> kbd" where
  "handle_extended_press sc k =
     (if sc = 0x1D then (0, k\<lparr>ctrl_held := True\<rparr>)
      else if sc = 0x38 then (0, k\<lparr>altgr_held := True, alt_held := True\<rparr>)
      else (if sc = 0x48 then KB_KEY_UP else if sc = 0x50 then KB_KEY_DOWN else if sc = 0x4B then KB_KEY_LEFT
            else if sc = 0x4D then KB_KEY_RIGHT else if sc = 0x49 then KB_KEY_PGUP else if sc = 0x51 then KB_KEY_PGDN else 0, k))"

definition handle_extended_release :: "u8 \<Rightarrow> kbd \<Rightarrow> kbd" where
  "handle_extended_release sc k =
     (let k1 = (if sc = 0x1D then k\<lparr>ctrl_held := False\<rparr> else k)
      in if sc = 0x38 then k1\<lparr>altgr_held := False, alt_held := False\<rparr> else k1)"

text \<open>\<^verbatim>\<open>kb_init\<close> takes every byte that is waiting in the controller.\<close>

definition kb_init :: "u8 list \<Rightarrow> kbd \<Rightarrow> u8 list \<times> kbd" where
  "kb_init pending k =
     ([], k\<lparr>shift_held := False, caps_lock := False, ctrl_held := False, alt_held := False, altgr_held := False,
           extended_code := False, history_count := 0, history_next := 0\<rparr>)"

text \<open>One pass of the loop of \<^verbatim>\<open>kb_getchar\<close>: the character it returns, or \<open>None\<close> to continue.\<close>

definition kb_scancode :: "u8 \<Rightarrow> kbd \<Rightarrow> u8 option \<times> kbd" where
  "kb_scancode sc k =
     (if sc = 0xE0 then (None, k\<lparr>extended_code := True\<rparr>)
      else if extended_code k then
        (let k1 = k\<lparr>extended_code := False\<rparr> in
         if sc AND 0x80 \<noteq> 0 then (None, handle_extended_release (sc AND 0x7F) k1)
         else let (key, k2) = handle_extended_press sc k1 in if key \<noteq> 0 then (Some key, k2) else (None, k2))
      else if sc AND 0x80 \<noteq> 0 then
        (let release = sc AND 0x7F in
         (None, if release = 0x2A \<or> release = 0x36 then k\<lparr>shift_held := False\<rparr>
                else if release = 0x1D then k\<lparr>ctrl_held := False\<rparr>
                else if release = 0x38 then k\<lparr>alt_held := False\<rparr>
                else k))
      else if sc = 0x2A \<or> sc = 0x36 then (None, k\<lparr>shift_held := True\<rparr>)
      else if sc = 0x1D then (None, k\<lparr>ctrl_held := True\<rparr>)
      else if sc = 0x38 then (None, k\<lparr>alt_held := True, altgr_held := False\<rparr>)
      else if sc = 0x3A then (None, k\<lparr>caps_lock := \<not> caps_lock k\<rparr>)
      else if 128 \<le> sc then (None, k)
      else
        let normal = sc_ascii ! unat sc; shifted = sc_ascii_shift ! unat sc in
        if normal = 0 \<and> shifted = 0 then (None, k)
        else if ctrl_held k \<and> 0x61 \<le> normal \<and> normal \<le> 0x7A then (Some (normal - 0x61 + 1), k)
        else if altgr_held k \<and> altgr_translate sc \<noteq> 0 then (Some (altgr_translate sc), k)
        else (Some (apply_caps_shift normal shifted k), k))"

fun kb_getchar :: "u8 list \<Rightarrow> kbd \<Rightarrow> (u8 \<times> u8 list \<times> kbd) option" where
  "kb_getchar [] k = None"
| "kb_getchar (sc # inp) k =
     (case kb_scancode sc k of
        (Some c, k1) \<Rightarrow> Some (c, inp, k1)
      | (None, k1) \<Rightarrow> kb_getchar inp k1)"

subsection \<open>The line editor\<close>

definition erase_input :: "nat \<Rightarrow> vga \<Rightarrow> vga" where
  "erase_input count v = ((vga_putchar 8) ^^ count) v"

definition copy_history_to_buffer :: "u8 list \<Rightarrow> nat \<Rightarrow> int \<Rightarrow> kbd \<Rightarrow> u8 list \<times> nat" where
  "copy_history_to_buffer buf len position k =
     (case history_get position k of
        None \<Rightarrow> (buf, 0)
      | Some src \<Rightarrow>
          let n = (if len \<le> k_strlen src then len - 1 else k_strlen src)
          in ((fold (\<lambda>i b. b[i := src ! i]) [0..<n] buf)[n := 0], n))"

record rl =
  rl_i :: nat
  rl_pos :: int
  rl_buf :: "u8 list"

text \<open>The body of the loop for one key; the first component says that the loop ends (\<^verbatim>\<open>break\<close>).\<close>

definition rl_key :: "nat \<Rightarrow> u8 \<Rightarrow> rl \<Rightarrow> kbd \<Rightarrow> vga \<Rightarrow> (bool \<times> rl \<times> kbd \<times> vga) option" where
  "rl_key len c r k v =
     (if c = KB_KEY_UP then
        (if 0 < history_count k \<and> 0 < rl_pos r then
           (let v1 = erase_input (rl_i r) v;
                (b, n) = copy_history_to_buffer (rl_buf r) len (rl_pos r - 1) k
            in case vga_puts (Some b) v1 of
                 None \<Rightarrow> None
               | Some v2 \<Rightarrow> Some (False, r\<lparr>rl_pos := rl_pos r - 1, rl_buf := b, rl_i := n\<rparr>, k, v2))
         else Some (False, r, k, v))
      else if c = KB_KEY_DOWN then
        (if rl_pos r < history_count k then
           (let v1 = erase_input (rl_i r) v;
                (b, n) = (if rl_pos r + 1 = history_count k then ((rl_buf r)[0 := 0], 0)
                          else copy_history_to_buffer (rl_buf r) len (rl_pos r + 1) k)
            in case vga_puts (Some b) v1 of
                 None \<Rightarrow> None
               | Some v2 \<Rightarrow> Some (False, r\<lparr>rl_pos := rl_pos r + 1, rl_buf := b, rl_i := n\<rparr>, k, v2))
         else Some (False, r, k, v))
      else if c = KB_KEY_PGUP then Some (False, r, k, vga_scroll_page (- 1) v)
      else if c = KB_KEY_PGDN then Some (False, r, k, vga_scroll_page 1 v)
      else if c = KB_KEY_LEFT \<or> c = KB_KEY_RIGHT then Some (False, r, k, v)
      else if c = 10 \<or> c = 13 then
        (let b = (rl_buf r)[rl_i r := 0] in Some (True, r\<lparr>rl_buf := b\<rparr>, history_add b k, vga_putchar 10 v))
      else if c = 8 then
        (if 0 < rl_i r
         then Some (False, r\<lparr>rl_i := rl_i r - 1, rl_buf := (rl_buf r)[rl_i r - 1 := 0]\<rparr>, k, vga_putchar 8 v)
         else Some (False, r, k, v))
      else if c < 32 then Some (False, r, k, v)
      else Some (False, r\<lparr>rl_i := rl_i r + 1, rl_buf := (rl_buf r)[rl_i r := c, rl_i r + 1 := 0], rl_pos := history_count k\<rparr>, k, vga_putchar c v))"

lemma kb_getchar_shorter: "kb_getchar inp k = Some (c, inp', k') \<Longrightarrow> length inp' < length inp"
  by (induction inp k rule: kb_getchar.induct) (fastforce split: prod.splits option.splits)+

function rl_loop :: "nat \<Rightarrow> u8 list \<Rightarrow> rl \<Rightarrow> kbd \<Rightarrow> vga \<Rightarrow> (rl \<times> u8 list \<times> kbd \<times> vga) option" where
  "rl_loop len inp r k v =
     (if rl_i r < len - 1 then
        (case kb_getchar inp k of
           None \<Rightarrow> None
         | Some (c, inp1, k1) \<Rightarrow>
             (case rl_key len c r k1 v of
                None \<Rightarrow> None
              | Some (True, r2, k2, v2) \<Rightarrow> Some (r2, inp1, k2, v2)
              | Some (False, r2, k2, v2) \<Rightarrow> rl_loop len inp1 r2 k2 v2))
      else Some (r, inp, k, v))"
  by pat_completeness auto
termination
  by (relation "measure (\<lambda>(len, inp, r, k, v). length inp)") (auto dest: kb_getchar_shorter)

declare rl_loop.simps [simp del]

definition kb_readline :: "u8 list \<Rightarrow> int \<Rightarrow> u8 list \<Rightarrow> kbd \<Rightarrow> vga \<Rightarrow> (int \<times> u8 list \<times> u8 list \<times> kbd \<times> vga) option" where
  "kb_readline buf len inp k v =
     (if len \<le> 0 then Some (0, buf, inp, k, v)
      else case rl_loop (nat len) inp \<lparr>rl_i = 0, rl_pos = history_count k, rl_buf = buf[0 := 0]\<rparr> k v of
        None \<Rightarrow> None
      | Some (r, inp1, k1, v1) \<Rightarrow> Some (int (rl_i r), (rl_buf r)[rl_i r := 0], inp1, k1, v1))"

subsection \<open>Strings in buffers\<close>

text \<open>The string a buffer holds.\<close>

definition cstr :: "u8 list \<Rightarrow> u8 list" where
  "cstr bs = takeWhile (\<lambda>c. c \<noteq> 0) bs"

lemma cstr_simps [simp]: "cstr [] = []" "cstr (c # s) = (if c = 0 then [] else c # cstr s)"
  by (simp_all add: cstr_def)

lemma k_strlen_cstr: "k_strlen s = length (cstr s)"
  by (induction s) simp_all

lemma char_at_cstr: "char_at s 0 = 0 \<longleftrightarrow> cstr s = []"
  by (cases s) (simp_all add: char_at_def)

lemma k_streq_cstr: "k_streq a b \<longleftrightarrow> cstr a = cstr b"
  by (induction a b rule: k_streq.induct) (auto simp: char_at_cstr)

lemma k_strcpy_spec: "length (k_strcpy d s) = length d"
  "length (cstr s) < length d \<Longrightarrow> 0 \<in> set s \<Longrightarrow> cstr (k_strcpy d s) = cstr s \<and> 0 \<in> set (k_strcpy d s)"
  by (induction d s rule: k_strcpy.induct) auto

lemma cstr_nth: "i < length (cstr s) \<Longrightarrow> s ! i = cstr s ! i"
  by (simp add: cstr_def takeWhile_nth)

lemma cstr_length: "0 \<in> set s \<Longrightarrow> length (cstr s) < length s"
  by (induction s) auto

lemma cstr_take: "n < length b \<Longrightarrow> b ! n = 0 \<Longrightarrow> 0 \<notin> set (take n b) \<Longrightarrow> cstr b = take n b"
  by (induction b arbitrary: n) (auto simp: nth_Cons take_Cons split: nat.splits if_splits)

subsection \<open>The history as a queue\<close>

definition slot :: "kbd \<Rightarrow> int \<Rightarrow> nat" where
  "slot k p = nat ((history_next k - history_count k + p) mod 20)"

definition hist :: "kbd \<Rightarrow> u8 list list" where
  "hist k = map (\<lambda>p. cstr (history k ! slot k (int p))) [0..<nat (history_count k)]"

text \<open>Lines that can be shown: no control characters.\<close>

definition hist_inv :: "kbd \<Rightarrow> bool" where
  "hist_inv k \<longleftrightarrow> length (history k) = 20 \<and> (\<forall>row \<in> set (history k). length row = 256) \<and> 0 \<le> history_count k \<and> history_count k \<le> 20
     \<and> 0 \<le> history_next k \<and> history_next k < 20 \<and> (history_count k < 20 \<longrightarrow> history_next k = history_count k)
     \<and> (\<forall>p. 0 \<le> p \<and> p < history_count k \<longrightarrow> 0 \<in> set (history k ! slot k p) \<and> (\<forall>c \<in> set (cstr (history k ! slot k p)). 32 \<le> c))"

lemma hist_invD:
  assumes "hist_inv k"
  shows "length (history k) = 20" "row \<in> set (history k) \<Longrightarrow> length row = 256" "0 \<le> history_count k" "history_count k \<le> 20"
    "0 \<le> history_next k" "history_next k < 20" "history_count k < 20 \<Longrightarrow> history_next k = history_count k"
    "0 \<le> p \<Longrightarrow> p < history_count k \<Longrightarrow> 0 \<in> set (history k ! slot k p)"
    "0 \<le> p \<Longrightarrow> p < history_count k \<Longrightarrow> c \<in> set (cstr (history k ! slot k p)) \<Longrightarrow> 32 \<le> c"
  using assms by (auto simp: hist_inv_def)

lemma length_hist: "hist_inv k \<Longrightarrow> int (length (hist k)) = history_count k"
  by (simp add: hist_def hist_inv_def)

lemma slot_less: "slot k p < 20"
  by (simp add: slot_def nat_less_iff)

lemma nth_hist: "0 \<le> p \<Longrightarrow> p < history_count k \<Longrightarrow> hist k ! nat p = cstr (history k ! slot k p)"
  by (simp add: hist_def)

lemma history_get_hist:
  assumes "hist_inv k"
  shows "history_get p k = (if 0 \<le> p \<and> p < history_count k then Some (history k ! slot k p) else None)"
proof -
  have "((history_next k - history_count k + 20) mod 20 + p) mod 20 = (history_next k - history_count k + p) mod 20"
    by (metis add.commute mod_add_left_eq mod_add_self2)
  then show ?thesis by (auto simp: history_get_def slot_def Let_def)
qed

definition abs_add :: "u8 list \<Rightarrow> u8 list list \<Rightarrow> u8 list list" where
  "abs_add l H = (if l = [] \<or> H \<noteq> [] \<and> last H = l then H else if length H = 20 then tl H @ [l] else H @ [l])"

lemma mod_once: "0 \<le> (x :: int) \<Longrightarrow> x < 40 \<Longrightarrow> x mod 20 = (if x < 20 then x else x - 20)"
  using mod_pos_pos_trivial [of "x - 20" 20] by simp

lemma history_add_hist:
  assumes "hist_inv k" "0 \<in> set line" "length (cstr line) < 256" "\<forall>c \<in> set (cstr line). 32 \<le> c"
  shows "hist (history_add line k) = abs_add (cstr line) (hist k)" "hist_inv (history_add line k)"
proof -
  note d = hist_invD [OF assms(1)]
  let ?n = "history_next k" and ?c = "history_count k"
  have lst: "last (hist k) = cstr (history k ! nat ((?n + 20 - 1) mod 20))" if "0 < ?c"
  proof -
    have "hist k \<noteq> []" using that by (simp add: hist_def)
    moreover have "length (hist k) - 1 = nat (?c - 1)" using length_hist [OF assms(1)] that by linarith
    ultimately have "last (hist k) = hist k ! nat (?c - 1)" by (simp add: last_conv_nth)
    also have "\<dots> = cstr (history k ! slot k (?c - 1))" using that by (intro nth_hist) simp_all
    also have "slot k (?c - 1) = nat ((?n + 20 - 1) mod 20)"
    proof -
      have "?n + 20 - 1 = (?n - 1) + 20" by simp
      then have "(?n + 20 - 1) mod 20 = (?n - 1) mod 20" by (simp only: mod_add_self2)
      then show ?thesis by (simp add: slot_def)
    qed
    finally show ?thesis .
  qed
  have e: "cstr line = [] \<or> 0 < ?c \<and> cstr (history k ! nat ((?n + 20 - 1) mod 20)) = cstr line \<longleftrightarrow> cstr line = [] \<or> hist k \<noteq> [] \<and> last (hist k) = cstr line"
    using lst d(3) by (auto simp: hist_def)
  have "hist (history_add line k) = abs_add (cstr line) (hist k) \<and> hist_inv (history_add line k)"
  proof (cases "cstr line = [] \<or> 0 < ?c \<and> cstr (history k ! nat ((?n + 20 - 1) mod 20)) = cstr line")
    case True
    then have "history_add line k = k" by (auto simp: history_add_def char_at_cstr k_streq_cstr)
    then show ?thesis using assms(1) True unfolding e by (simp add: abs_add_def)
  next
    case False
    let ?row = "k_strcpy (history k ! nat ?n) line"
    let ?k = "k\<lparr>history := (history k)[nat ?n := ?row], history_next := (?n + 1) mod 20, history_count := (if ?c < 20 then ?c + 1 else ?c)\<rparr>"
    have k: "history_add line k = ?k" using False by (auto simp: history_add_def char_at_cstr k_streq_cstr)
    have n: "nat ?n < 20" using d(5,6) by simp
    have row: "length ?row = 256" "cstr ?row = cstr line" "0 \<in> set ?row"
      using k_strcpy_spec(1) [of "history k ! nat ?n" line] k_strcpy_spec(2) [of line "history k ! nat ?n"] assms(2,3) d(1) d(2) [of "history k ! nat ?n"] n by simp_all
    have c: "hist k = map (\<lambda>p. cstr (history k ! slot k (int p))) [0..<nat ?c]" by (simp add: hist_def)
    show ?thesis
    proof (cases "?c < 20")
      case True
      have sl: "slot k p = nat p" "slot ?k p = nat p" if "0 \<le> p" "p < 20" for p
      proof -
        have "((?c + 1) mod 20 - (?c + 1) + p) mod 20 = (?c + 1 - (?c + 1) + p) mod 20" by (metis mod_add_left_eq mod_diff_left_eq)
        then have "((?c + 1) mod 20 - (?c + 1) + p) mod 20 = p" using that by simp
        then show "slot k p = nat p" "slot ?k p = nat p" using d(3,7) True that by (simp_all add: slot_def)
      qed
      have new: "history ?k ! slot ?k p = (if p = ?c then ?row else history k ! slot k p)" if "0 \<le> p" "p \<le> ?c" for p
        using sl [of p] that True d(1,7) n by (auto simp: nth_list_update)
      have "hist ?k = hist k @ [cstr ?row]"
      proof -
        have "[0..<nat (?c + 1)] = [0..<nat ?c] @ [nat ?c]" using d(3) by (simp add: nat_add_distrib)
        then show ?thesis using True d(3) new by (simp add: hist_def) auto
      qed
      moreover have "hist_inv ?k"
        unfolding hist_inv_def
      proof (intro conjI allI impI ballI)
        show "length r = 256" if "r \<in> set (history ?k)" for r using that row(1) d(1,2) by (auto dest: set_update_subset_insert [THEN subsetD])
        show "0 \<in> set (history ?k ! slot ?k p)" if "0 \<le> p \<and> p < history_count ?k" for p
          using new [of p] that True d(8) [of p] row(3) by auto
        show "32 \<le> x" if "0 \<le> p \<and> p < history_count ?k" "x \<in> set (cstr (history ?k ! slot ?k p))" for p x
          using new [of p] that True d(9) [of p x] row(2) assms(4) by (auto split: if_splits)
      qed (use d(1,3,7) True in auto)
      ultimately show ?thesis using False True length_hist [OF assms(1)] row(2) unfolding k e by (auto simp: abs_add_def)
    next
      case full: False
      then have c20: "?c = 20" using d(4) by simp
      have sl: "slot k p = nat ((?n + p) mod 20)" "slot ?k p = nat ((?n + 1 + p) mod 20)" for p
      proof -
        have "(?n - 20 + p) mod 20 = (?n + p) mod 20"
          using mod_add_self2 [of "?n - 20 + p" 20] by simp
        moreover have "((?n + 1) mod 20 - 20 + p) mod 20 = (?n + 1 + p) mod 20"
          using mod_add_self2 [of "(?n + 1) mod 20 - 20 + p" 20] by (simp add: mod_add_left_eq)
        ultimately show "slot k p = nat ((?n + p) mod 20)" "slot ?k p = nat ((?n + 1 + p) mod 20)" using c20 by (simp_all add: slot_def)
      qed
      have new: "history ?k ! slot ?k p = (if p = 19 then ?row else history k ! slot k (p + 1))" if "0 \<le> p" "p < 20" for p
      proof -
        have "(?n + 1 + p) mod 20 = (if ?n + 1 + p < 20 then ?n + 1 + p else ?n + 1 + p - 20)"
          using d(5,6) that by (intro mod_once) simp_all
        then have "(?n + 1 + p) mod 20 = ?n \<longleftrightarrow> p = 19" using that d(5) by (auto split: if_splits)
        then have "slot ?k p = nat ?n \<longleftrightarrow> p = 19" using sl(2) [of p] d(5) by (simp add: eq_nat_nat_iff)
        moreover have "slot ?k p = slot k (p + 1)" using sl [of p] sl [of "p + 1"] by (simp add: algebra_simps)
        ultimately show ?thesis using n d(1) slot_less [of ?k p] by (auto simp: nth_list_update)
      qed
      have "hist ?k = tl (hist k) @ [cstr ?row]"
      proof (rule nth_equalityI)
        show "length (hist ?k) = length (tl (hist k) @ [cstr ?row])" using c20 by (simp add: hist_def)
        fix i assume "i < length (hist ?k)"
        then have i: "i < 20" using c20 by (simp add: hist_def)
        then show "hist ?k ! i = (tl (hist k) @ [cstr ?row]) ! i"
          using new [of "int i"] c20 by (auto simp: hist_def nth_append nth_tl algebra_simps)
      qed
      moreover have "hist_inv ?k"
        unfolding hist_inv_def
      proof (intro conjI allI impI ballI)
        show "length r = 256" if "r \<in> set (history ?k)" for r using that row(1) d(1,2) by (auto dest: set_update_subset_insert [THEN subsetD])
        show "0 \<in> set (history ?k ! slot ?k p)" if "0 \<le> p \<and> p < history_count ?k" for p
          using new [of p] that c20 d(8) [of "p + 1"] row(3) by auto
        show "32 \<le> x" if "0 \<le> p \<and> p < history_count ?k" "x \<in> set (cstr (history ?k ! slot ?k p))" for p x
          using new [of p] that c20 d(9) [of "p + 1" x] row(2) assms(4) by (auto split: if_splits)
      qed (use d(1) c20 in auto)
      ultimately show ?thesis using False c20 length_hist [OF assms(1)] row(2) unfolding k e by (auto simp: abs_add_def)
    qed
  qed
  then show "hist (history_add line k) = abs_add (cstr line) (hist k)" "hist_inv (history_add line k)" by simp_all
qed

subsection \<open>The abstract line editor\<close>

text \<open>The characters a list of scancodes decodes to.\<close>

fun keys :: "u8 list \<Rightarrow> kbd \<Rightarrow> u8 list" where
  "keys [] k = []"
| "keys (sc # inp) k =
     (case kb_scancode sc k of (Some c, k1) \<Rightarrow> c # keys inp k1 | (None, k1) \<Rightarrow> keys inp k1)"

text \<open>
  The editor on a line \<open>l\<close> and a position \<open>p\<close> in the history \<open>H\<close>, for one key that does not end
  the line, and for a list of keys: the line read, and whether it was entered or filled the buffer.
\<close>

definition edit_key :: "nat \<Rightarrow> u8 list list \<Rightarrow> u8 \<Rightarrow> u8 list \<Rightarrow> nat \<Rightarrow> u8 list \<times> nat" where
  "edit_key len H c l p =
     (if c = KB_KEY_UP then (if 0 < p then (take (len - 1) (H ! (p - 1)), p - 1) else (l, p))
      else if c = KB_KEY_DOWN then
        (if length H \<le> p then (l, p) else if p + 1 = length H then ([], p + 1) else (take (len - 1) (H ! (p + 1)), p + 1))
      else if c \<in> {KB_KEY_PGUP, KB_KEY_PGDN, KB_KEY_LEFT, KB_KEY_RIGHT} then (l, p)
      else if c = 8 then (butlast l, p)
      else if c < 32 then (l, p)
      else (l @ [c], length H))"

primrec edit :: "nat \<Rightarrow> u8 list list \<Rightarrow> u8 list \<Rightarrow> u8 list \<Rightarrow> nat \<Rightarrow> (u8 list \<times> bool) option" where
  "edit len H [] l p = (if length l < len - 1 then None else Some (l, False))"
| "edit len H (c # cs) l p =
     (if length l < len - 1 then
        if c = 10 \<or> c = 13 then Some (l, True)
        else edit len H cs (fst (edit_key len H c l p)) (snd (edit_key len H c l p))
      else Some (l, False))"

definition same_history :: "kbd \<Rightarrow> kbd \<Rightarrow> bool" where
  "same_history k k' \<longleftrightarrow> history k' = history k \<and> history_count k' = history_count k \<and> history_next k' = history_next k"

lemma same_history_if: "(b \<Longrightarrow> same_history k (snd x)) \<Longrightarrow> (\<not> b \<Longrightarrow> same_history k (snd y)) \<Longrightarrow> same_history k (snd (if b then x else y))"
  by simp

lemma extended_history: "same_history k (snd (handle_extended_press sc k))" "same_history k (handle_extended_release sc k)"
  by (simp_all add: same_history_def handle_extended_press_def handle_extended_release_def Let_def)

lemma scancode_history: "same_history k (snd (kb_scancode sc k))"
  unfolding kb_scancode_def Let_def split_beta
  by (intro same_history_if)
    (use extended_history [of "k\<lparr>extended_code := False\<rparr>"] in \<open>simp_all add: same_history_def\<close>)

lemma same_history_hist: "same_history k k' \<Longrightarrow> hist k' = hist k" "same_history k k' \<Longrightarrow> hist_inv k' = hist_inv k"
  by (simp_all add: same_history_def hist_def hist_inv_def slot_def)

lemma getchar_keys:
  "kb_getchar inp k = None \<and> keys inp k = [] \<or>
   (\<exists>c inp' k'. kb_getchar inp k = Some (c, inp', k') \<and> keys inp k = c # keys inp' k' \<and> same_history k k')"
proof (induction inp arbitrary: k)
  case Nil
  then show ?case by simp
next
  case (Cons sc inp)
  obtain x k1 where s: "kb_scancode sc k = (x, k1)" by fastforce
  have h: "same_history k k1" using scancode_history [of k sc] s by simp
  show ?case
  proof (cases x)
    case None
    then show ?thesis using Cons.IH [of k1] s h by (auto simp: same_history_def)
  next
    case (Some c)
    then show ?thesis using s h by simp
  qed
qed

subsection \<open>The driver implements the editor\<close>

lemma puts_no_control:
  "\<forall>c \<in> set (cstr b). 32 \<le> c \<Longrightarrow> vga_inv v \<Longrightarrow> \<exists>v'. puts_loop b v = Some v' \<and> vga_inv v'"
proof (induction b arbitrary: v)
  case Nil
  then show ?case by (simp add: puts_loop.simps [of "[]"] char_at_def)
next
  case (Cons c b)
  show ?case
  proof (cases "c = 0")
    case True
    then show ?thesis using Cons.prems by (subst puts_loop.simps) (simp add: char_at_def)
  next
    case False
    have "32 \<le> c" using Cons.prems(1) False by simp
    then have "c \<noteq> 0x1B" by auto
    then have "puts_loop (c # b) v = puts_loop b (vga_putchar c v)" using False by (subst puts_loop.simps) (simp add: char_at_def)
    then show ?thesis using Cons.IH [of "vga_putchar c v"] Cons.prems False putchar_inv by simp
  qed
qed

lemma erase_inv: "vga_inv v \<Longrightarrow> vga_inv (erase_input n v)"
  unfolding erase_input_def by (induction n) (simp_all add: putchar_inv)

lemma fold_copy: "n \<le> length b \<Longrightarrow> n \<le> length src \<Longrightarrow> fold (\<lambda>i b. b[i := src ! i]) [0..<n] b = take n src @ drop n b"
proof (induction n)
  case (Suc n)
  have "drop n b = b ! n # drop (Suc n) b" using Suc.prems by (simp add: Cons_nth_drop_Suc)
  then show ?case using Suc by (simp add: list_update_append take_Suc_conv_app_nth)
qed simp

text \<open>The buffer holds the line being edited.\<close>

definition holds :: "nat \<Rightarrow> u8 list \<Rightarrow> rl \<Rightarrow> u8 list \<Rightarrow> bool" where
  "holds len buf r l \<longleftrightarrow> length (rl_buf r) = length buf \<and> rl_i r = length l \<and> length l < len \<and> take (length l) (rl_buf r) = l
     \<and> rl_buf r ! length l = 0 \<and> (\<forall>c \<in> set l. 32 \<le> c) \<and> (\<forall>j. len \<le> j \<longrightarrow> rl_buf r ! j = buf ! j)"

lemma holdsD:
  assumes "holds len buf r l"
  shows "length (rl_buf r) = length buf" "rl_i r = length l" "length l < len" "take (length l) (rl_buf r) = l"
    "rl_buf r ! length l = 0" "c \<in> set l \<Longrightarrow> 32 \<le> c" "len \<le> j \<Longrightarrow> rl_buf r ! j = buf ! j"
  using assms by (auto simp: holds_def)

lemma holds_cstr: "holds len buf r l \<Longrightarrow> len \<le> length buf \<Longrightarrow> cstr (rl_buf r) = l \<and> 0 \<in> set (rl_buf r)"
proof -
  assume h: "holds len buf r l" "len \<le> length buf"
  note d = holdsD [OF h(1)]
  have n: "length l < length (rl_buf r)" using d(1,3) h(2) by simp
  have "0 \<notin> set (take (length l) (rl_buf r))" unfolding d(4) using d(6) [of 0] by auto
  then show ?thesis using cstr_take [OF n d(5)] d(4,5) n by (metis nth_mem)
qed

lemma copy_history_holds:
  assumes "hist_inv k" "holds len buf r l" "len \<le> length buf" "0 \<le> p" "p < history_count k" "copy_history_to_buffer (rl_buf r) len p k = (b, n)"
  shows "holds len buf (r\<lparr>rl_pos := q, rl_buf := b, rl_i := n\<rparr>) (take (len - 1) (hist k ! nat p))"
proof -
  let ?s = "history k ! slot k p" and ?L = "take (len - 1) (hist k ! nat p)"
  note d = holdsD [OF assms(2)]
  have L: "hist k ! nat p = cstr ?s" by (rule nth_hist [OF assms(4,5)])
  have get: "history_get p k = Some ?s" using assms(1,4,5) by (simp add: history_get_hist)
  have n: "n = length ?L" and b: "b = (fold (\<lambda>i b. b[i := ?s ! i]) [0..<length ?L] (rl_buf r))[length ?L := 0]"
    using assms(6) get d(3) by (auto simp: copy_history_to_buffer_def Let_def k_strlen_cstr L min_def split: if_splits)
  have len: "length ?L < len" using d(3) by simp
  have Ls: "length ?L \<le> length ?s" unfolding L by (simp add: cstr_def length_takeWhile_le min.coboundedI1)
  have "cstr ?s = take (length (cstr ?s)) ?s" unfolding cstr_def by (rule takeWhile_eq_take)
  then have "?L = take (min (len - 1) (length (cstr ?s))) ?s" unfolding L by (metis take_take)
  moreover have "length ?L = min (len - 1) (length (cstr ?s))" unfolding L by (simp add: min.commute)
  ultimately have "take (length ?L) ?s = ?L" by simp
  then have b': "b = (?L @ drop (length ?L) (rl_buf r))[length ?L := 0]"
    unfolding b using fold_copy [of "length ?L" "rl_buf r" ?s] Ls d(1) len assms(3) by simp
  have room: "length ?L < length (rl_buf r)" using len assms(3) d(1) by simp
  show ?thesis unfolding holds_def
  proof (intro conjI allI impI ballI)
    show "c \<ge> 32" if "c \<in> set ?L" for c using hist_invD(9) [OF assms(1,4,5), of c] that unfolding L by (auto dest: in_set_takeD)
    show "rl_buf (r\<lparr>rl_pos := q, rl_buf := b, rl_i := n\<rparr>) ! j = buf ! j" if "len \<le> j" for j
      using d(7) [OF that] that len room by (auto simp: b' nth_append nth_list_update)
    show "take (length ?L) (rl_buf (r\<lparr>rl_pos := q, rl_buf := b, rl_i := n\<rparr>)) = ?L"
    proof -
      have "take (length X) ((X @ ys)[length X := 0]) = X" for X ys :: "u8 list" by (simp add: take_update_cancel)
      moreover have "rl_buf (r\<lparr>rl_pos := q, rl_buf := b, rl_i := n\<rparr>) = b" by simp
      ultimately show ?thesis unfolding b' by (simp only:)
    qed
  qed (use n len room d(1) in \<open>simp_all add: b' nth_append list_update_append\<close>)
qed

text \<open>One key that does not end the line.\<close>

lemma holds_shorter:
  assumes "holds len buf r l" "len \<le> length buf"
  shows "l \<noteq> [] \<Longrightarrow> holds len buf (r\<lparr>rl_i := rl_i r - 1, rl_buf := (rl_buf r)[rl_i r - 1 := 0]\<rparr>) (butlast l)"
    "holds len buf (r\<lparr>rl_pos := q, rl_buf := (rl_buf r)[0 := 0], rl_i := 0\<rparr>) []"
proof -
  note d = holdsD [OF assms(1)]
  have "take (length l - 1) (rl_buf r) = butlast l" using d(4) by (metis butlast_conv_take diff_le_self min.absorb1 take_take)
  then show "l \<noteq> [] \<Longrightarrow> holds len buf (r\<lparr>rl_i := rl_i r - 1, rl_buf := (rl_buf r)[rl_i r - 1 := 0]\<rparr>) (butlast l)"
    using d assms(2) by (auto simp: holds_def dest: in_set_butlastD)
  show "holds len buf (r\<lparr>rl_pos := q, rl_buf := (rl_buf r)[0 := 0], rl_i := 0\<rparr>) []"
  proof -
    have "0 < length (rl_buf r)" using d(1,3) assms(2) by linarith
    then show ?thesis using d assms(2) by (auto simp: holds_def)
  qed
qed

lemma holds_longer:
  assumes "holds len buf r l" "len \<le> length buf" "length l < len - 1" "32 \<le> c"
  shows "holds len buf (r\<lparr>rl_i := rl_i r + 1, rl_buf := (rl_buf r)[rl_i r := c, rl_i r + 1 := 0], rl_pos := q\<rparr>) (l @ [c])"
proof -
  note d = holdsD [OF assms(1)]
  have "take (Suc (length l)) ((rl_buf r)[length l := c, Suc (length l) := 0]) = l @ [c]"
    using d(1,4) assms(2,3) by (simp add: take_Suc_conv_app_nth)
  then show ?thesis using d assms by (auto simp: holds_def)
qed

lemma holds_pos: "holds len buf (r\<lparr>rl_pos := q\<rparr>) l = holds len buf r l"
  by (simp add: holds_def)

lemma rl_key_edit:
  assumes "hist_inv k" "vga_inv v" "holds len buf r l" "len \<le> length buf" "length l < len - 1" "rl_pos r = int p" "p \<le> length (hist k)"
    "c \<noteq> 10" "c \<noteq> 13"
  shows "\<exists>r' v'. rl_key len c r k v = Some (False, r', k, v') \<and> vga_inv v' \<and> holds len buf r' (fst (edit_key len (hist k) c l p))
     \<and> rl_pos r' = int (snd (edit_key len (hist k) c l p)) \<and> snd (edit_key len (hist k) c l p) \<le> length (hist k)"
proof -
  have n: "int (length (hist k)) = history_count k" by (rule length_hist [OF assms(1)])
  have puts: "\<exists>v'. vga_puts (Some (rl_buf r')) (erase_input (rl_i r) v) = Some v' \<and> vga_inv v'" if "holds len buf r' l'" for r' l'
    using puts_no_control [of "rl_buf r'" "erase_input (rl_i r) v"] holds_cstr [OF that assms(4)] holdsD(6) [OF that] erase_inv [OF assms(2)]
    by (simp add: vga_puts_def)
  note d = holdsD [OF assms(3)]
  consider (up) "c = KB_KEY_UP" | (down) "c = KB_KEY_DOWN" | (nav) "c \<in> {KB_KEY_PGUP, KB_KEY_PGDN, KB_KEY_LEFT, KB_KEY_RIGHT}"
    | (bs) "c = 8" | (low) "c < 32" "c \<noteq> 8" | (chr) "32 \<le> c" "c \<notin> {KB_KEY_UP, KB_KEY_DOWN, KB_KEY_PGUP, KB_KEY_PGDN, KB_KEY_LEFT, KB_KEY_RIGHT}"
    by (cases "c < 32") (auto simp: not_less)
  then show ?thesis
  proof cases
    case up
    show ?thesis
    proof (cases "0 < p")
      case True
      obtain b m where b: "copy_history_to_buffer (rl_buf r) len (rl_pos r - 1) k = (b, m)" by fastforce
      have h: "holds len buf (r\<lparr>rl_pos := rl_pos r - 1, rl_buf := b, rl_i := m\<rparr>) (take (len - 1) (hist k ! nat (rl_pos r - 1)))"
        by (rule copy_history_holds [OF assms(1,3,4) _ _ b]) (use True assms(6,7) n in simp_all)
      obtain v' where v': "vga_puts (Some b) (erase_input (rl_i r) v) = Some v'" "vga_inv v'" using puts [OF h] by auto
      have "0 < history_count k" using True assms(7) n by linarith
      then show ?thesis using up True b h v' assms(6,7) by (auto simp: rl_key_def edit_key_def nat_diff_distrib of_nat_diff)
    next
      case False
      then show ?thesis using up assms by (simp add: rl_key_def edit_key_def)
    qed
  next
    case down
    show ?thesis
    proof (cases "p < length (hist k)")
      case True
      show ?thesis
      proof (cases "p + 1 = length (hist k)")
        case last: True
        note h = holds_shorter(2) [OF assms(3,4), of "rl_pos r + 1"]
        obtain v' where v': "vga_puts (Some ((rl_buf r)[0 := 0])) (erase_input (rl_i r) v) = Some v'" "vga_inv v'" using puts [OF h] by auto
        have "rl_pos r + 1 = history_count k" "rl_pos r < history_count k" using last n assms(6) by linarith+
        then show ?thesis using down True last h v' assms(6) n by (auto simp: rl_key_def edit_key_def)
      next
        case False
        obtain b m where b: "copy_history_to_buffer (rl_buf r) len (rl_pos r + 1) k = (b, m)" by fastforce
        have h: "holds len buf (r\<lparr>rl_pos := rl_pos r + 1, rl_buf := b, rl_i := m\<rparr>) (take (len - 1) (hist k ! nat (rl_pos r + 1)))"
          by (rule copy_history_holds [OF assms(1,3,4) _ _ b]) (use True False assms(6) n in simp_all)
        obtain v' where v': "vga_puts (Some b) (erase_input (rl_i r) v) = Some v'" "vga_inv v'" using puts [OF h] by auto
        have "rl_pos r + 1 \<noteq> history_count k" "rl_pos r < history_count k" using True False n assms(6) by linarith+
        then show ?thesis using down True False b h v' assms(6) by (auto simp: rl_key_def edit_key_def nat_add_distrib)
      qed
    next
      case False
      then have "\<not> rl_pos r < history_count k" using n assms(6) by simp
      then show ?thesis using down False assms by (simp add: rl_key_def edit_key_def)
    qed
  next
    case nav
    then show ?thesis using assms scroll_inv [OF assms(2)] by (auto simp: rl_key_def edit_key_def)
  next
    case bs
    then show ?thesis using assms holds_shorter(1) [OF assms(3,4)] d(2) putchar_inv [OF assms(2)]
      by (cases "l = []") (simp_all add: rl_key_def edit_key_def)
  next
    case low
    then have "c \<notin> {KB_KEY_UP, KB_KEY_DOWN, KB_KEY_PGUP, KB_KEY_PGDN, KB_KEY_LEFT, KB_KEY_RIGHT}" by auto
    then show ?thesis using low assms by (simp add: rl_key_def edit_key_def)
  next
    case chr
    then have "\<not> c < 32" "c \<noteq> 8" by auto
    then show ?thesis using chr assms(8,9) holds_longer [OF assms(3-5) chr(1), of "history_count k"] putchar_inv [OF assms(2)] n
      by (simp add: rl_key_def edit_key_def)
  qed
qed

lemma rl_loop_edit:
  assumes "hist_inv k" "vga_inv v" "holds len buf r l" "len \<le> length buf" "len \<le> 256" "rl_pos r = int p" "p \<le> length (hist k)"
  shows "case edit len (hist k) (keys inp k) l p of
       None \<Rightarrow> rl_loop len inp r k v = None
     | Some (l', entered) \<Rightarrow> \<exists>r' inp' k' v'. rl_loop len inp r k v = Some (r', inp', k', v') \<and> holds len buf r' l' \<and> vga_inv v' \<and> hist_inv k'
         \<and> hist k' = (if entered then abs_add l' (hist k) else hist k)"
  using assms
proof (induction "length inp" arbitrary: inp k v r l p rule: less_induct)
  case less
  note d = holdsD [OF less.prems(3)]
  show ?case
  proof (cases "length l < len - 1")
    case False
    then have "edit len (hist k) (keys inp k) l p = Some (l, False)" by (cases "keys inp k") simp_all
    moreover have "rl_loop len inp r k v = Some (r, inp, k, v)" using False d(2) by (subst rl_loop.simps) simp
    ultimately show ?thesis using less.prems by simp
  next
    case True
    from getchar_keys [of inp k] show ?thesis
    proof (elim disjE conjE exE)
      assume g: "kb_getchar inp k = None" "keys inp k = []"
      then have "rl_loop len inp r k v = None" using True d(2) by (subst rl_loop.simps) simp
      then show ?thesis using True g(2) by simp
    next
      fix c inp1 k1 assume g: "kb_getchar inp k = Some (c, inp1, k1)" "keys inp k = c # keys inp1 k1" "same_history k k1"
      have h: "hist k1 = hist k" "hist_inv k1" using same_history_hist [OF g(3)] less.prems(1) by simp_all
      have sh: "length inp1 < length inp" by (rule kb_getchar_shorter [OF g(1)])
      show ?thesis
      proof (cases "c = 10 \<or> c = 13")
        case enter: True
        let ?b = "(rl_buf r)[rl_i r := 0]"
        have b: "?b = rl_buf r" using d(2,5) by (metis list_update_id)
        have key: "rl_key len c r k1 v = Some (True, r, history_add (rl_buf r) k1, vga_putchar 10 v)"
          using enter b by (auto simp: rl_key_def Let_def)
        have "rl_loop len inp r k v = Some (r, inp1, history_add (rl_buf r) k1, vga_putchar 10 v)"
          using True d(2) g(1) key by (subst rl_loop.simps) simp
        moreover have "edit len (hist k) (keys inp k) l p = Some (l, True)" using True enter g(2) by simp
        moreover have cs: "cstr (rl_buf r) = l" "0 \<in> set (rl_buf r)" using holds_cstr [OF less.prems(3,4)] by simp_all
        moreover have "hist (history_add (rl_buf r) k1) = abs_add l (hist k)" "hist_inv (history_add (rl_buf r) k1)"
          using history_add_hist [OF h(2) cs(2)] cs(1) d(3,6) less.prems(5) h(1) by auto
        ultimately show ?thesis using less.prems(3) putchar_inv [OF less.prems(2)] by simp
      next
        case False
        let ?e = "edit_key len (hist k) c l p"
        obtain r' v' where key: "rl_key len c r k1 v = Some (False, r', k1, v')" "vga_inv v'" "holds len buf r' (fst ?e)" "rl_pos r' = int (snd ?e)" "snd ?e \<le> length (hist k)"
          using rl_key_edit [OF h(2) less.prems(2,3,4) True less.prems(6), of c] less.prems(7) False h(1) by auto
        have lp: "rl_loop len inp r k v = rl_loop len inp1 r' k1 v'" using True d(2) g(1) key(1) by (subst rl_loop.simps) simp
        have ed: "edit len (hist k) (keys inp k) l p = edit len (hist k) (keys inp1 k1) (fst ?e) (snd ?e)" using True False g(2) by simp
        have "snd ?e \<le> length (hist k1)" using key(5) h(1) by simp
        from less.hyps [OF sh h(2) key(2,3) less.prems(4,5) key(4) this] show ?thesis unfolding lp ed h(1) .
      qed
    qed
  qed
qed

text \<open>
  C17: the line editor. For every input, history and buffer of up to 256 bytes, \<^verbatim>\<open>kb_readline\<close>
  waits exactly when the abstract editor needs more keys; otherwise it returns the length of the
  abstract editor's line and leaves that line as the string in the buffer, writes no byte behind
  the first \<open>len\<close>, adds an entered line to the history (dropping the oldest of 20, ignoring an
  empty line and a repetition), and leaves the console sound.
\<close>

theorem kb_readline_refines:
  assumes "hist_inv k" "vga_inv v" "0 < len" "len \<le> 256" "nat len \<le> length buf"
  shows "case edit (nat len) (hist k) (keys inp k) [] (length (hist k)) of
       None \<Rightarrow> kb_readline buf len inp k v = None
     | Some (l, entered) \<Rightarrow> \<exists>buf' inp' k' v'. kb_readline buf len inp k v = Some (int (length l), buf', inp', k', v') \<and> cstr buf' = l
         \<and> length l < nat len \<and> length buf' = length buf \<and> (\<forall>j \<ge> nat len. buf' ! j = buf ! j) \<and> vga_inv v' \<and> hist_inv k'
         \<and> hist k' = (if entered then abs_add l (hist k) else hist k)"
proof -
  let ?r = "\<lparr>rl_i = 0, rl_pos = history_count k, rl_buf = buf[0 := 0]\<rparr>"
  have "0 < length buf" using assms(3,5) by linarith
  then have "holds (nat len) buf ?r []" using assms(3,5) by (auto simp: holds_def)
  note L = rl_loop_edit [OF assms(1,2) this assms(5) _ _ order_refl, of inp]
  have c: "rl_pos ?r = int (length (hist k))" "nat len \<le> 256" using length_hist [OF assms(1)] assms(4) by simp_all
  show ?thesis
  proof (cases "edit (nat len) (hist k) (keys inp k) [] (length (hist k))")
    case None
    then show ?thesis using L c assms(3) by (simp add: kb_readline_def)
  next
    case (Some a)
    obtain l e where a: "a = (l, e)" by fastforce
    obtain r' inp' k' v' where x: "rl_loop (nat len) inp ?r k v = Some (r', inp', k', v')" "holds (nat len) buf r' l" "vga_inv v'" "hist_inv k'"
      "hist k' = (if e then abs_add l (hist k) else hist k)"
      using L c Some a by auto
    note d = holdsD [OF x(2)]
    have b: "(rl_buf r')[rl_i r' := 0] = rl_buf r'" using d(2,5) by (metis list_update_id)
    have "kb_readline buf len inp k v = Some (int (length l), rl_buf r', inp', k', v')" using assms(3) x(1) b d(2) by (simp add: kb_readline_def)
    moreover have "cstr (rl_buf r') = l" using holds_cstr [OF x(2) assms(5)] by simp
    ultimately show ?thesis using Some a x(3-5) d(1,3,7) by auto
  qed
qed

text \<open>The driver after \<^verbatim>\<open>kb_init\<close>.\<close>

definition kbd_boot :: kbd where
  "kbd_boot = \<lparr>shift_held = False, caps_lock = False, ctrl_held = False, alt_held = False, altgr_held = False, extended_code = False,
     history = replicate 20 (replicate 256 0), history_count = 0, history_next = 0\<rparr>"

lemma kbd_boot_inv: "hist_inv kbd_boot" "hist kbd_boot = []"
  by (auto simp: hist_inv_def hist_def kbd_boot_def)

text \<open>The keys l, s, backspace, s, Enter.\<close>

theorem kb_readline_refines_witness:
  "\<exists>buf' inp' k' v'. kb_readline (replicate 8 0) 8 [0x26, 0x1F, 0x0E, 0x1F, 0x1C] kbd_boot vga_boot = Some (2, buf', inp', k', v')
     \<and> cstr buf' = [0x6C, 0x73] \<and> hist k' = [[0x6C, 0x73]]"
proof -
  have k: "keys [0x26, 0x1F, 0x0E, 0x1F, 0x1C] kbd_boot = [0x6C, 0x73, 8, 0x73, 10]" by code_simp
  have e: "edit (nat 8) [] [0x6C, 0x73, 8, 0x73, 10] [] 0 = Some ([0x6C, 0x73], True)" by code_simp
  have "(0 :: int) < 8" "(8 :: int) \<le> 256" "nat 8 \<le> length (replicate 8 (0 :: u8))" by simp_all
  from kb_readline_refines [OF kbd_boot_inv(1) vga_boot_inv this, of "[0x26, 0x1F, 0x0E, 0x1F, 0x1C]", unfolded kbd_boot_inv(2) k list.size(3) e option.case prod.case]
  obtain buf' inp' k' v' where "kb_readline (replicate 8 0) 8 [0x26, 0x1F, 0x0E, 0x1F, 0x1C] kbd_boot vga_boot = Some (int (length [0x6C, 0x73 :: u8]), buf', inp', k', v')"
    "cstr buf' = [0x6C, 0x73]" "hist k' = abs_add [0x6C, 0x73] []" by auto
  then show ?thesis by (auto simp: abs_add_def)
qed

text \<open>The letter keys, in both tables.\<close>

lemma letter_tables:
  "\<forall>sc \<in> set [0..<128]. 0x61 \<le> sc_ascii ! sc \<and> sc_ascii ! sc \<le> 0x7A \<longrightarrow>
     sc_ascii_shift ! sc = sc_ascii ! sc - 32 \<and> altgr_translate (of_nat sc) = 0 \<and> of_nat sc \<notin> {0x2A, 0x36, 0x1D, 0x38, 0x3A :: u8}"
  by code_simp

text \<open>
  letters. A key whose entry in the table is a letter gives, in every state of the modifiers
  outside an extended code: the control character 1 to 26 of the letter while Ctrl is held, else
  the capital letter if exactly one of Shift and Caps Lock is on, else the small letter; and it
  changes no modifier.
\<close>

theorem kb_letter:
  assumes "sc < 128" "0x61 \<le> sc_ascii ! unat sc" "sc_ascii ! unat sc \<le> 0x7A" "\<not> extended_code k"
  shows "kb_scancode sc k =
     (Some (if ctrl_held k then sc_ascii ! unat sc - 0x60
            else if shift_held k \<noteq> caps_lock k then sc_ascii ! unat sc - 32 else sc_ascii ! unat sc), k)"
proof -
  let ?n = "sc_ascii ! unat sc"
  have u: "unat sc < 128" using assms(1) by (simp add: word_less_nat_alt)
  then have t: "sc_ascii_shift ! unat sc = ?n - 32" "altgr_translate sc = 0" "sc \<notin> {0x2A, 0x36, 0x1D, 0x38, 0x3A}"
    using letter_tables [THEN bspec, of "unat sc"] assms(2,3) by simp_all
  have "sc AND 0x80 = 0"
  proof (rule bit_word_eqI)
    fix i assume "i < LENGTH(8)"
    have "sc = take_bit 7 sc" using u by (simp add: word_unat_eq_iff take_bit_nat_eq_self unsigned_take_bit_eq)
    then have "\<not> bit sc 7" by (metis bit_take_bit_iff less_irrefl)
    moreover have "bit (0x80 :: u8) i \<longleftrightarrow> i = 7" using bit_exp_iff [where 'a = u8, of 7 i] \<open>i < LENGTH(8)\<close> by auto
    ultimately show "bit (sc AND 0x80) i = bit 0 i" by (auto simp: bit_simps)
  qed
  moreover have "sc \<noteq> 0xE0" "\<not> 128 \<le> sc" using assms(1) by auto
  moreover have "?n \<noteq> 0" "?n - 0x61 + 1 = ?n - 0x60" using assms(2) by auto
  ultimately show ?thesis
    using t assms(2-4) by (auto simp: kb_scancode_def Let_def apply_caps_shift_def)
qed

theorem kb_letter_witness: "kb_scancode 0x1E (kbd_boot\<lparr>shift_held := True\<rparr>) = (Some 0x41, kbd_boot\<lparr>shift_held := True\<rparr>)"
proof -
  have t: "sc_ascii ! unat (0x1E :: u8) = 0x61" by code_simp
  show ?thesis using kb_letter [of "0x1E" "kbd_boot\<lparr>shift_held := True\<rparr>"] t by (simp add: kbd_boot_def)
qed

end
