(* ===== verification/Fs.thy ===== *)
theory Fs
  imports Ramdisk Keyboard
begin

text \<open>
  The file system of \<^verbatim>\<open>kernel/fs.c\<close> on the RAM disk of \<open>Ramdisk\<close>: bitmaps, inodes, directories,
  paths, open files and the operations the shell calls. The state holds the disk, the two static
  block buffers (every operation reads blocks through them), the open files, the working directory
  and the console; \<open>f_junk\<close> is what an uninitialised local block buffer holds. A C string is a list
  of bytes read up to its first zero, a null pointer \<open>None\<close>. Functions that return a position or a
  number on success and a negative number otherwise return an option here when the number itself is
  not used; the public operations return the integers of the code.
\<close>

unbundle bit_operations_syntax

subsection \<open>Constants and state\<close>

abbreviation FS_MAGIC :: u32 where "FS_MAGIC \<equiv> 0x53465334"
abbreviation FS_VERSION :: u32 where "FS_VERSION \<equiv> 1"
abbreviation INODE_FILE :: u32 where "INODE_FILE \<equiv> 1"
abbreviation INODE_DIR :: u32 where "INODE_DIR \<equiv> 2"
abbreviation FS_INVALID_INODE :: u32 where "FS_INVALID_INODE \<equiv> 0xFFFFFFFF"
abbreviation FS_MAX_INODES :: nat where "FS_MAX_INODES \<equiv> 64"
abbreviation FS_MAX_FD :: nat where "FS_MAX_FD \<equiv> 16"
abbreviation DATA_START_BLOCK :: nat where "DATA_START_BLOCK \<equiv> 6"
abbreviation JOURNAL_START :: nat where "JOURNAL_START \<equiv> 254"
abbreviation DIR_ENTRIES :: nat where "DIR_ENTRIES \<equiv> 128"
abbreviation FS_O_CREATE :: u32 where "FS_O_CREATE \<equiv> 0x100"
abbreviation FS_O_TRUNC :: u32 where "FS_O_TRUNC \<equiv> 0x200"
abbreviation FS_O_APPEND :: u32 where "FS_O_APPEND \<equiv> 0x400"

record inode =
  i_size :: u32
  i_mode :: u32
  i_direct :: "u32 list"
  i_indirect :: u32

record file_desc =
  fd_inode :: u32
  fd_offset :: u32
  fd_flags :: u32
  fd_used :: bool

record fs =
  f_disk :: disk
  f_buf :: "u8 list"
  f_buf2 :: "u8 list"
  f_junk :: "u8 list"
  f_fds :: "file_desc list"
  f_cwd :: u32
  f_ready :: bool
  f_con :: vga

subsection \<open>Memory and strings\<close>

definition mem_zero :: "nat \<Rightarrow> nat \<Rightarrow> u8 list \<Rightarrow> u8 list" where
  "mem_zero p n b = fold (\<lambda>i b. b[p + i := 0]) [0..<n] b"

text \<open>\<open>mem_copy d dst s src n\<close>: \<open>n\<close> bytes from offset \<open>s\<close> of \<open>src\<close> to offset \<open>d\<close> of \<open>dst\<close>.\<close>

definition mem_copy :: "nat \<Rightarrow> u8 list \<Rightarrow> nat \<Rightarrow> u8 list \<Rightarrow> nat \<Rightarrow> u8 list" where
  "mem_copy d dst s src n = fold (\<lambda>i b. b[d + i := src ! (s + i)]) [0..<n] dst"

fun str_len :: "u8 list \<Rightarrow> nat" where
  "str_len [] = 0"
| "str_len (c # s) = (if c = 0 then 0 else Suc (str_len s))"

fun str_eq :: "u8 list \<Rightarrow> u8 list \<Rightarrow> bool" where
  "str_eq (x # a) (y # b) = (if x \<noteq> 0 \<and> y \<noteq> 0 \<and> x = y then str_eq a b else x = 0 \<and> y = 0)"
| "str_eq a b = (char_at a 0 = 0 \<and> char_at b 0 = 0)"

text \<open>\<open>str_copy_n p src max b\<close> stores at offset \<open>p\<close> of \<open>b\<close>; the first argument of the loop counts the bytes left.\<close>

fun str_copy_loop :: "nat \<Rightarrow> nat \<Rightarrow> u8 list \<Rightarrow> nat \<Rightarrow> u8 list \<Rightarrow> u8 list" where
  "str_copy_loop 0 i src p b = b[p + i := 0]"
| "str_copy_loop (Suc k) i src p b =
     (if char_at src i \<noteq> 0 then str_copy_loop k (i + 1) src p (b[p + i := char_at src i]) else b[p + i := 0])"

definition str_copy_n :: "nat \<Rightarrow> u8 list \<Rightarrow> nat \<Rightarrow> u8 list \<Rightarrow> u8 list" where
  "str_copy_n p src m b = (if m = 0 then b else str_copy_loop (m - 1) 0 src p b)"

abbreviation dot :: "u8 list" where "dot \<equiv> [0x2E]"
abbreviation dotdot :: "u8 list" where "dotdot \<equiv> [0x2E, 0x2E]"

subsection \<open>Blocks and bitmaps\<close>

text \<open>\<^verbatim>\<open>ramdisk_read_block\<close> into one of the static buffers, and \<^verbatim>\<open>ramdisk_write_block\<close> from it.\<close>

definition read_buf :: "u32 \<Rightarrow> fs \<Rightarrow> fs" where
  "read_buf b s = s\<lparr>f_buf := the (ramdisk_read_block (f_disk s) b (Some (f_buf s)))\<rparr>"

definition read_buf2 :: "u32 \<Rightarrow> fs \<Rightarrow> fs" where
  "read_buf2 b s = s\<lparr>f_buf2 := the (ramdisk_read_block (f_disk s) b (Some (f_buf2 s)))\<rparr>"

definition write_block :: "u32 \<Rightarrow> u8 list \<Rightarrow> fs \<Rightarrow> int \<times> fs" where
  "write_block b xs s = (case ramdisk_write_block b (Some xs) (f_disk s) of (d, rc) \<Rightarrow> (rc, s\<lparr>f_disk := d\<rparr>))"

definition bitmap_get :: "u32 \<Rightarrow> nat \<Rightarrow> fs \<Rightarrow> bool \<times> fs" where
  "bitmap_get block k s =
     (let s1 = read_buf block s in (drop_bit (k mod 8) (f_buf s1 ! (k div 8)) AND 1 \<noteq> 0, s1))"

definition bitmap_set :: "u32 \<Rightarrow> nat \<Rightarrow> bool \<Rightarrow> fs \<Rightarrow> fs" where
  "bitmap_set block k v s =
     (let s1 = read_buf block s;
          byte = f_buf s1 ! (k div 8);
          byte1 = (if v then byte OR ucast ((2 :: u32) ^ (k mod 8)) else byte AND ucast (NOT ((2 :: u32) ^ (k mod 8))));
          s2 = s1\<lparr>f_buf := (f_buf s1)[k div 8 := byte1]\<rparr>
      in snd (write_block block (f_buf s2) s2))"

fun alloc_block_loop :: "nat list \<Rightarrow> fs \<Rightarrow> nat option \<times> fs" where
  "alloc_block_loop [] s = (None, s)"
| "alloc_block_loop (b # bs) s =
     (let (v, s1) = bitmap_get 2 b s in
      if \<not> v then
        (let s2 = bitmap_set 2 b True s1 in (Some b, s2\<lparr>f_disk := ramdisk_zero_block (of_nat b) (f_disk s2)\<rparr>))
      else alloc_block_loop bs s1)"

definition alloc_block :: "fs \<Rightarrow> nat option \<times> fs" where
  "alloc_block s = alloc_block_loop [DATA_START_BLOCK..<JOURNAL_START] s"

definition free_block :: "u32 \<Rightarrow> fs \<Rightarrow> fs" where
  "free_block b s = (if 6 \<le> b \<and> b < 254 then bitmap_set 2 (unat b) False s else s)"

fun alloc_inode_loop :: "nat list \<Rightarrow> fs \<Rightarrow> nat option \<times> fs" where
  "alloc_inode_loop [] s = (None, s)"
| "alloc_inode_loop (i # is) s =
     (let (v, s1) = bitmap_get 3 i s in
      if \<not> v then (Some i, bitmap_set 3 i True s1) else alloc_inode_loop is s1)"

definition alloc_inode :: "fs \<Rightarrow> nat option \<times> fs" where
  "alloc_inode s = alloc_inode_loop [0..<FS_MAX_INODES] s"

definition free_inode :: "u32 \<Rightarrow> fs \<Rightarrow> fs" where
  "free_inode ino s = (if ino < 64 then bitmap_set 3 (unat ino) False s else s)"

subsection \<open>Inodes\<close>

text \<open>\<^verbatim>\<open>inode_t\<close> in memory: 44 bytes.\<close>

definition get_inode :: "u8 list \<Rightarrow> nat \<Rightarrow> inode" where
  "get_inode b p = \<lparr>i_size = get32 b p, i_mode = get32 b (p + 4),
     i_direct = map (\<lambda>j. get32 b (p + 8 + 4 * j)) [0..<8], i_indirect = get32 b (p + 40)\<rparr>"

definition put_inode :: "nat \<Rightarrow> inode \<Rightarrow> u8 list \<Rightarrow> u8 list" where
  "put_inode p n b =
     put32 (p + 40) (i_indirect n) (fold (\<lambda>j b. put32 (p + 8 + 4 * j) (i_direct n ! j) b) [0..<8]
       (put32 (p + 4) (i_mode n) (put32 p (i_size n) b)))"

definition inode_block :: "u32 \<Rightarrow> u32" where
  "inode_block ino = 4 + (ino * 44) div 4096"

definition inode_off :: "u32 \<Rightarrow> nat" where
  "inode_off ino = unat ((ino * 44) mod 4096)"

definition inode_read :: "u32 \<Rightarrow> fs \<Rightarrow> inode \<times> fs" where
  "inode_read ino s = (let s1 = read_buf (inode_block ino) s in (get_inode (f_buf s1) (inode_off ino), s1))"

definition inode_write :: "u32 \<Rightarrow> inode \<Rightarrow> fs \<Rightarrow> fs" where
  "inode_write ino n s =
     (let s1 = read_buf (inode_block ino) s;
          s2 = s1\<lparr>f_buf := put_inode (inode_off ino) n (f_buf s1)\<rparr>
      in snd (write_block (inode_block ino) (f_buf s2) s2))"

definition zero_inode :: inode where
  "zero_inode = \<lparr>i_size = 0, i_mode = 0, i_direct = replicate 8 0, i_indirect = 0\<rparr>"

subsection \<open>Directories\<close>

text \<open>Entry \<open>i\<close> of a directory block: a name of 28 bytes and an inode number.\<close>

definition ent_name :: "u8 list \<Rightarrow> nat \<Rightarrow> u8 list" where
  "ent_name b i = drop (i * 32) b"

definition ent_inode :: "u8 list \<Rightarrow> nat \<Rightarrow> u32" where
  "ent_inode b i = get32 b (i * 32 + 28)"

definition dir_find :: "u32 \<Rightarrow> u8 list \<Rightarrow> fs \<Rightarrow> (nat \<times> u32) option \<times> fs" where
  "dir_find dir_ino name s =
     (let (dir, s1) = inode_read dir_ino s in
      if i_mode dir \<noteq> INODE_DIR \<or> i_direct dir ! 0 = 0 then (None, s1)
      else let s2 = read_buf (i_direct dir ! 0) s1 in
        case scan (\<lambda>i. ent_inode (f_buf s2) i \<noteq> FS_INVALID_INODE \<and> str_eq (ent_name (f_buf s2) i) name) 0 DIR_ENTRIES of
          None \<Rightarrow> (None, s2)
        | Some i \<Rightarrow> (Some (i, ent_inode (f_buf s2) i), s2))"

definition set_entry :: "nat \<Rightarrow> u8 list \<Rightarrow> u32 \<Rightarrow> u8 list \<Rightarrow> u8 list" where
  "set_entry i name ino b = put32 (i * 32 + 28) ino (str_copy_n (i * 32) name 28 b)"

definition dir_add :: "u32 \<Rightarrow> u8 list option \<Rightarrow> u32 \<Rightarrow> fs \<Rightarrow> int \<times> fs" where
  "dir_add dir_ino nm child s =
     (case nm of
        None \<Rightarrow> (-1, s)
      | Some name \<Rightarrow>
          if char_at name 0 = 0 \<or> 27 < str_len name then (-1, s)
          else
            let (dir, s1) = inode_read dir_ino s in
            if i_mode dir \<noteq> INODE_DIR \<or> i_direct dir ! 0 = 0 then (-1, s1)
            else (case dir_find dir_ino name s1 of
                (Some _, s2) \<Rightarrow> (-1, s2)
              | (None, s2) \<Rightarrow>
                  let s3 = read_buf (i_direct dir ! 0) s2 in
                  case scan (\<lambda>i. ent_inode (f_buf s3) i = FS_INVALID_INODE) 0 DIR_ENTRIES of
                    None \<Rightarrow> (-1, s3)
                  | Some i \<Rightarrow>
                      let s4 = s3\<lparr>f_buf := set_entry i name child (mem_zero (i * 32) 32 (f_buf s3))\<rparr>
                      in write_block (i_direct dir ! 0) (f_buf s4) s4))"

definition dir_remove :: "u32 \<Rightarrow> u8 list \<Rightarrow> fs \<Rightarrow> int \<times> fs" where
  "dir_remove dir_ino name s =
     (let (dir, s1) = inode_read dir_ino s in
      if i_mode dir \<noteq> INODE_DIR \<or> i_direct dir ! 0 = 0 then (-1, s1)
      else case dir_find dir_ino name s1 of
          (None, s2) \<Rightarrow> (-1, s2)
        | (Some (pos, _), s2) \<Rightarrow>
            let s3 = read_buf (i_direct dir ! 0) s2;
                s4 = s3\<lparr>f_buf := (put32 (pos * 32 + 28) FS_INVALID_INODE (f_buf s3))[pos * 32 := 0]\<rparr>
            in write_block (i_direct dir ! 0) (f_buf s4) s4)"

subsection \<open>Paths\<close>

text \<open>The second loop of \<^verbatim>\<open>next_component\<close>: the component and the rest, or \<open>None\<close> when it is too long.\<close>

fun comp_loop :: "nat \<Rightarrow> u8 list \<Rightarrow> u8 list \<Rightarrow> (u8 list \<times> u8 list) option" where
  "comp_loop n [] out = Some (out, [])"
| "comp_loop n (c # s) out =
     (if c \<noteq> 0 \<and> c \<noteq> 0x2F then if 27 \<le> n then None else comp_loop (n + 1) s (out @ [c])
      else Some (out, c # s))"

definition next_component :: "u8 list \<Rightarrow> int \<times> u8 list \<times> u8 list" where
  "next_component p =
     (let s = dropWhile (\<lambda>c. c = 0x2F) p in
      if char_at s 0 = 0 then (0, s, [])
      else case comp_loop 0 s [] of None \<Rightarrow> (-2, p, []) | Some (out, s') \<Rightarrow> (1, s', out))"

lemma comp_loop_length: "comp_loop n s out = Some (c, s') \<Longrightarrow> length s' + length c = length s + length out"
  by (induction n s out rule: comp_loop.induct) (auto split: if_splits)

lemma comp_loop_out: "comp_loop n s out = Some (c, s') \<Longrightarrow> length out \<le> length c"
  by (induction n s out rule: comp_loop.induct) (fastforce split: if_splits)+

lemma next_component_shorter: "next_component p = (1, p', c) \<Longrightarrow> length p' < length p"
proof -
  assume a: "next_component p = (1, p', c)"
  let ?s = "dropWhile (\<lambda>c. c = 0x2F) p"
  have s: "char_at ?s 0 \<noteq> 0" "comp_loop 0 ?s [] = Some (c, p')"
    using a by (auto simp: next_component_def Let_def split: if_splits option.splits)
  obtain x xs where x: "?s = x # xs" using s(1) by (cases ?s) (auto simp: char_at_def)
  then have "x \<noteq> 0" "x \<noteq> 0x2F" using s(1) hd_dropWhile [of "\<lambda>c. c = 0x2F" p] by (auto simp: char_at_def)
  then have "comp_loop 1 xs [x] = Some (c, p')" using s(2) x by simp
  then have "1 \<le> length c" using comp_loop_out by fastforce
  moreover have "length p' + length c = length ?s" using comp_loop_length [OF s(2)] by simp
  moreover have "length ?s \<le> length p" by (rule length_dropWhile_le)
  ultimately show ?thesis by linarith
qed

function resolve_loop :: "u8 list \<Rightarrow> u32 \<Rightarrow> fs \<Rightarrow> u32 option \<times> fs" where
  "resolve_loop p cur s =
     (case next_component p of
        (rc, p', part) \<Rightarrow>
          if rc < 0 then (None, s)
          else if rc = 0 then (Some cur, s)
          else if rc \<noteq> 1 then (None, s)
          else if str_eq part dot then resolve_loop p' cur s
          else (case dir_find cur (if str_eq part dotdot then dotdot else part) s of
              (None, s1) \<Rightarrow> (None, s1)
            | (Some (_, child), s1) \<Rightarrow> resolve_loop p' child s1))"
  by pat_completeness auto
termination
  by (relation "measure (\<lambda>(p, cur, s). length p)") (auto dest!: sym [THEN next_component_shorter])

declare resolve_loop.simps [simp del]

definition resolve_path :: "u8 list option \<Rightarrow> u32 \<Rightarrow> fs \<Rightarrow> u32 option \<times> fs" where
  "resolve_path path start s =
     (case path of
        None \<Rightarrow> (None, s)
      | Some p \<Rightarrow> if char_at p 0 = 0 then (None, s) else resolve_loop p (if char_at p 0 = 0x2F then 0 else start) s)"

text \<open>
  \<^verbatim>\<open>split_parent\<close>: the loop returns the last directory and the last name; the look-ahead
  leaves the loop whenever \<^verbatim>\<open>next_component\<close> does not return 1. A copy into a \<^verbatim>\<open>char[n]\<close> is a string again.
\<close>

definition copy_str :: "nat \<Rightarrow> u8 list \<Rightarrow> u8 list" where
  "copy_str n src = cstr (str_copy_n 0 src n (replicate n 0))"

function split_path_loop :: "u8 list \<Rightarrow> u32 \<Rightarrow> fs \<Rightarrow> (u32 \<times> u8 list) option \<times> fs" where
  "split_path_loop p cur s =
     (case next_component p of
        (rc, p', part) \<Rightarrow>
          if rc < 0 then (None, s)
          else if rc = 0 then (Some (cur, []), s)
          else if rc \<noteq> 1 then (None, s)
          else if str_eq part dot then split_path_loop p' cur s
          else if str_eq part dotdot then
            (case dir_find cur dotdot s of
               (None, s1) \<Rightarrow> (None, s1)
             | (Some (_, child), s1) \<Rightarrow> split_path_loop p' child s1)
          else if fst (next_component p') = 1 then
            (case dir_find cur part s of
               (None, s1) \<Rightarrow> (None, s1)
             | (Some (_, child), s1) \<Rightarrow> split_path_loop p' child s1)
          else (Some (cur, copy_str 28 part), s))"
  by pat_completeness auto
termination
  by (relation "measure (\<lambda>(p, cur, s). length p)") (auto dest!: sym [THEN next_component_shorter])

declare split_path_loop.simps [simp del]

definition split_parent :: "u8 list option \<Rightarrow> fs \<Rightarrow> (u32 \<times> u8 list) option \<times> fs" where
  "split_parent path s =
     (case path of
        None \<Rightarrow> (None, s)
      | Some q \<Rightarrow>
          if char_at q 0 = 0 then (None, s)
          else if 255 < str_len q then (None, s)
          else
            let tmp = copy_str 256 q in
            case split_path_loop tmp (if char_at tmp 0 = 0x2F then 0 else f_cwd s) s of
              (None, s1) \<Rightarrow> (None, s1)
            | (Some (cur, lst), s1) \<Rightarrow>
                if str_len lst = 0 \<or> str_eq lst dot \<or> str_eq lst dotdot then (None, s1)
                else (Some (cur, copy_str 28 lst), s1))"

subsection \<open>The blocks of a file\<close>

text \<open>\<open>block_for_inode\<close> returns the code's integer and the inode it may have changed.\<close>

definition block_for_inode :: "inode \<Rightarrow> u32 \<Rightarrow> bool \<Rightarrow> fs \<Rightarrow> int \<times> inode \<times> fs" where
  "block_for_inode inn logical allocate s =
     (if logical < 8 then
        (let k = unat logical in
         if i_direct inn ! k = 0 \<and> allocate then
           (case alloc_block s of
              (None, s1) \<Rightarrow> (-1, inn, s1)
            | (Some b, s1) \<Rightarrow>
                let in1 = inn\<lparr>i_direct := (i_direct inn)[k := of_nat b]\<rparr> in (sint (i_direct in1 ! k), in1, s1))
         else (sint (i_direct inn ! k), inn, s))
      else
        let k = unat (logical - 8) in
        if 1024 \<le> k then (-1, inn, s)
        else
          let (rc, in1, s1) =
            (if i_indirect inn = 0 then
               if \<not> allocate then (0, inn, s)
               else (case alloc_block s of
                   (None, s1) \<Rightarrow> (-1, inn, s1)
                 | (Some b, s1) \<Rightarrow>
                     (case write_block (of_nat b) (replicate 4096 0) s1 of
                        (rc, s2) \<Rightarrow> (if rc < 0 then -1 else 1, inn\<lparr>i_indirect := of_nat b\<rparr>, s2)))
             else (1, inn, s))
          in if rc \<noteq> (1 :: int) then (rc, in1, s1)
          else
            let ptrs = the (ramdisk_read_block (f_disk s1) (i_indirect in1) (Some (f_junk s1))) in
            if get32 ptrs (4 * k) = 0 \<and> allocate then
              (case alloc_block s1 of
                 (None, s2) \<Rightarrow> (-1, in1, s2)
               | (Some b, s2) \<Rightarrow>
                   let ptrs1 = put32 (4 * k) (of_nat b) ptrs in
                   (case write_block (i_indirect in1) ptrs1 s2 of
                      (rc, s3) \<Rightarrow> if rc < 0 then (-1, in1, s3) else (sint (get32 ptrs1 (4 * k)), in1, s3)))
            else (sint (get32 ptrs (4 * k)), in1, s1))"

definition release_inode_blocks :: "inode \<Rightarrow> fs \<Rightarrow> inode \<times> fs" where
  "release_inode_blocks inn s =
     (let s1 = fold (\<lambda>i s. if i_direct inn ! i \<noteq> 0 then free_block (i_direct inn ! i) s else s) [0..<8] s;
          in1 = inn\<lparr>i_direct := replicate 8 0\<rparr> in
      if i_indirect inn \<noteq> 0 then
        (let ptrs = the (ramdisk_read_block (f_disk s1) (i_indirect inn) (Some (f_junk s1)));
             s2 = fold (\<lambda>i s. if get32 ptrs (4 * i) \<noteq> 0 then free_block (get32 ptrs (4 * i)) s else s) [0..<1024] s1
         in (in1\<lparr>i_indirect := 0\<rparr>, free_block (i_indirect inn) s2))
      else (in1, s1))"

subsection \<open>Formatting and start-up\<close>

record superblock =
  sb_magic :: u32
  sb_version :: u32
  sb_block_count :: u32
  sb_inode_count :: u32
  sb_block_bitmap :: u32
  sb_inode_bitmap :: u32
  sb_inode_table :: u32
  sb_root_inode :: u32
  sb_data_start :: u32
  sb_journal_start :: u32

definition put_super :: "superblock \<Rightarrow> u8 list \<Rightarrow> u8 list" where
  "put_super sb b = put32 36 (sb_journal_start sb) (put32 32 (sb_data_start sb) (put32 28 (sb_root_inode sb)
     (put32 24 (sb_inode_table sb) (put32 20 (sb_inode_bitmap sb) (put32 16 (sb_block_bitmap sb)
     (put32 12 (sb_inode_count sb) (put32 8 (sb_block_count sb) (put32 4 (sb_version sb) (put32 0 (sb_magic sb) b)))))))))"

definition get_super :: "u8 list \<Rightarrow> superblock" where
  "get_super b = \<lparr>sb_magic = get32 b 0, sb_version = get32 b 4, sb_block_count = get32 b 8, sb_inode_count = get32 b 12,
     sb_block_bitmap = get32 b 16, sb_inode_bitmap = get32 b 20, sb_inode_table = get32 b 24, sb_root_inode = get32 b 28,
     sb_data_start = get32 b 32, sb_journal_start = get32 b 36\<rparr>"

definition fs_super :: superblock where
  "fs_super = \<lparr>sb_magic = FS_MAGIC, sb_version = FS_VERSION, sb_block_count = 256, sb_inode_count = 64,
     sb_block_bitmap = 2, sb_inode_bitmap = 3, sb_inode_table = 4, sb_root_inode = 0,
     sb_data_start = 6, sb_journal_start = 254\<rparr>"

text \<open>A directory block with no entry, and with the entries of the directory itself and of its parent.\<close>

definition no_entries :: "u8 list \<Rightarrow> u8 list" where
  "no_entries b = fold (\<lambda>i b. put32 (i * 32 + 28) FS_INVALID_INODE b) [0..<DIR_ENTRIES] (mem_zero 0 4096 b)"

definition dot_entries :: "u32 \<Rightarrow> u32 \<Rightarrow> u8 list \<Rightarrow> u8 list" where
  "dot_entries self parent b = set_entry 1 dotdot parent (set_entry 0 dot self b)"

definition fs_format :: "fs \<Rightarrow> int \<times> fs" where
  "fs_format s =
     (let s1 = s\<lparr>f_disk := mem_zero 0 1048576 (f_disk s), f_buf := put_super fs_super (mem_zero 0 4096 (f_buf s))\<rparr> in
      case write_block 0 (f_buf s1) s1 of
        (rc, s2) \<Rightarrow>
          if rc < 0 then (-1, s2)
          else
            let s3 = fold (\<lambda>i. bitmap_set 2 i True) [0..<DATA_START_BLOCK] s2;
                s4 = fold (\<lambda>i. bitmap_set 2 i True) [JOURNAL_START..<256] s3;
                s5 = bitmap_set 3 0 True s4;
                s6 = inode_write 0 (zero_inode\<lparr>i_mode := INODE_DIR, i_direct := (replicate 8 0)[0 := 1]\<rparr>) s5;
                s7 = s6\<lparr>f_buf := dot_entries 0 0 (no_entries (f_buf s6))\<rparr>
            in case write_block 1 (f_buf s7) s7 of
              (rc, s8) \<Rightarrow> if rc < 0 then (-1, s8) else (0, s8\<lparr>f_cwd := 0, f_ready := True\<rparr>))"

definition zero_fd :: file_desc where
  "zero_fd = \<lparr>fd_inode = 0, fd_offset = 0, fd_flags = 0, fd_used = False\<rparr>"

definition fs_init :: "fs \<Rightarrow> fs" where
  "fs_init s =
     (let s1 = read_buf 0 (s\<lparr>f_disk := ramdisk_init (f_disk s)\<rparr>);
          sb = get_super (f_buf s1);
          s2 = (if sb_magic sb \<noteq> FS_MAGIC \<or> sb_version sb \<noteq> FS_VERSION \<or> sb_block_count sb \<noteq> 256 \<or> sb_inode_count sb \<noteq> 64
                then snd (fs_format s1)
                else s1\<lparr>f_cwd := sb_root_inode sb, f_ready := True\<rparr>)
      in s2\<lparr>f_fds := replicate FS_MAX_FD zero_fd\<rparr>)"

subsection \<open>Operations\<close>

text \<open>\<open>Inl\<close> is the negative result of the code, \<open>Inr\<close> the new inode.\<close>

definition create_inode :: "u32 \<Rightarrow> u8 list \<Rightarrow> u32 \<Rightarrow> fs \<Rightarrow> (int + u32) \<times> fs" where
  "create_inode parent name mode s =
     (case dir_find parent name s of
        (Some _, s1) \<Rightarrow> (Inl (-2), s1)
      | (None, s1) \<Rightarrow>
          (case alloc_inode s1 of
             (None, s2) \<Rightarrow> (Inl (-3), s2)
           | (Some ino, s2) \<Rightarrow>
               (case alloc_block s2 of
                  (None, s3) \<Rightarrow> (Inl (-4), free_inode (of_nat ino) s3)
                | (Some data, s3) \<Rightarrow>
                    let s4 = inode_write (of_nat ino)
                               (zero_inode\<lparr>i_mode := mode, i_direct := (replicate 8 0)[0 := of_nat data]\<rparr>) s3;
                        b5 = no_entries (f_buf s4);
                        s6 = s4\<lparr>f_buf := (if mode = INODE_DIR then dot_entries (of_nat ino) parent b5 else b5)\<rparr>;
                        (rc, s7) = write_block (of_nat data) (f_buf s6) s6;
                        (rc2, s8) = (if rc < 0 then (rc, s7) else dir_add parent (Some name) (of_nat ino) s7)
                    in if rc2 < 0 then (Inl (-5), free_inode (of_nat ino) (free_block (of_nat data) s8))
                       else (Inr (of_nat ino), s8))))"

definition fs_open :: "u8 list option \<Rightarrow> u32 \<Rightarrow> fs \<Rightarrow> int \<times> fs" where
  "fs_open path flags s =
     (if \<not> f_ready s \<or> path = None then (-1, s)
      else
        let (found, s1) =
          (case resolve_path path (f_cwd s) s of
             (Some ino, s1) \<Rightarrow> (Inr ino, s1)
           | (None, s1) \<Rightarrow>
               if flags AND FS_O_CREATE = 0 then (Inl (-2), s1)
               else (case split_parent path s1 of
                   (None, s2) \<Rightarrow> (Inl (-3), s2)
                 | (Some (parent, name), s2) \<Rightarrow>
                     (case create_inode parent name INODE_FILE s2 of
                        (Inl _, s3) \<Rightarrow> (Inl (-4), s3)
                      | (Inr ino, s3) \<Rightarrow> (Inr ino, s3))))
        in case found of
          Inl rc \<Rightarrow> (rc, s1)
        | Inr ino \<Rightarrow>
            let (inn, s2) = inode_read ino s1 in
            if i_mode inn \<noteq> INODE_FILE then (-5, s2)
            else
              let (in1, s3) =
                (if flags AND FS_O_TRUNC \<noteq> 0 then
                   (let (in1, s3) = release_inode_blocks inn s2;
                        in2 = in1\<lparr>i_size := 0\<rparr>
                    in (in2, inode_write ino in2 s3))
                 else (inn, s2))
              in case scan (\<lambda>i. \<not> fd_used (f_fds s3 ! i)) 0 FS_MAX_FD of
                None \<Rightarrow> (-6, s3)
              | Some i \<Rightarrow>
                  (int i, s3\<lparr>f_fds := (f_fds s3)[i := \<lparr>fd_inode = ino,
                     fd_offset = (if flags AND FS_O_APPEND \<noteq> 0 then i_size in1 else 0),
                     fd_flags = flags, fd_used = True\<rparr>]\<rparr>))"

text \<open>The integer a \<^verbatim>\<open>uint32_t\<close> count becomes when it is returned as \<^verbatim>\<open>ssize_t\<close>; a descriptor that is open.\<close>

definition ssize :: "nat \<Rightarrow> int" where
  "ssize n = sint (of_nat n :: u32)"

definition fd_open :: "int \<Rightarrow> fs \<Rightarrow> bool" where
  "fd_open fd s = (0 \<le> fd \<and> nat fd < FS_MAX_FD \<and> fd_used (f_fds s ! nat fd))"

definition advance_fd :: "nat \<Rightarrow> nat \<Rightarrow> fs \<Rightarrow> fs" where
  "advance_fd fd n s = s\<lparr>f_fds := (f_fds s)[fd := (f_fds s ! fd)\<lparr>fd_offset := fd_offset (f_fds s ! fd) + of_nat n\<rparr>]\<rparr>"

function read_loop :: "nat \<Rightarrow> inode \<Rightarrow> nat \<Rightarrow> nat \<Rightarrow> u8 list \<Rightarrow> fs \<Rightarrow> nat \<times> u8 list \<times> fs" where
  "read_loop fd inn count dn buf s =
     (if dn < count then
        let offset = fd_offset (f_fds s ! fd);
            off = unat (offset mod 4096);
            (b, in1, s1) = block_for_inode inn (offset div 4096) False s
        in if b \<le> 0 then (dn, buf, s1)
           else
             let s2 = read_buf2 (of_int b) s1;
                 tk = min (4096 - off) (count - dn)
             in read_loop fd in1 count (dn + tk) (mem_copy dn buf off (f_buf2 s2) tk) (advance_fd fd tk s2)
      else (dn, buf, s))"
  by pat_completeness auto
termination
proof (relation "measure (\<lambda>(fd, inn, count, dn, buf, s). count - dn)", goal_cases)
  case (2 fd inn count dn buf s offset off r1 b r2 in1 s1 s2 n)
  have "off < 4096" unfolding 2(3) by (simp add: unat_mod)
  then have "0 < n" using 2 by simp
  then show ?case using 2(1) by simp
qed simp

declare read_loop.simps [simp del]

definition fs_read :: "int \<Rightarrow> u8 list option \<Rightarrow> u32 \<Rightarrow> fs \<Rightarrow> int \<times> u8 list option \<times> fs" where
  "fs_read fd buf count s =
     (case buf of
        None \<Rightarrow> (-1, buf, s)
      | Some bs \<Rightarrow>
          if \<not> fd_open fd s then (-1, buf, s)
          else
            let (inn, s1) = inode_read (fd_inode (f_fds s ! nat fd)) s;
                offset = fd_offset (f_fds s1 ! nat fd)
            in if i_mode inn \<noteq> INODE_FILE then (-1, buf, s1)
               else if i_size inn \<le> offset then (0, buf, s1)
               else
                 let n = min (unat count) (unat (i_size inn - offset));
                     (dn, bs1, s2) = read_loop (nat fd) inn n 0 bs s1
                 in (ssize dn, Some bs1, s2))"

function write_loop :: "nat \<Rightarrow> inode \<Rightarrow> nat \<Rightarrow> nat \<Rightarrow> u8 list \<Rightarrow> fs \<Rightarrow> nat \<times> inode \<times> fs" where
  "write_loop fd inn count dn buf s =
     (if dn < count then
        let offset = fd_offset (f_fds s ! fd) in
        if 248 \<le> offset div 4096 then (dn, inn, s)
        else
          let (b, in1, s1) = block_for_inode inn (offset div 4096) True s in
          if b \<le> 0 then (dn, in1, s1)
          else
            let off = unat (offset mod 4096);
                tk = min (4096 - off) (count - dn);
                s2 = read_buf2 (of_int b) s1;
                s3 = s2\<lparr>f_buf2 := mem_copy off (f_buf2 s2) dn buf tk\<rparr>;
                (rc, s4) = write_block (of_int b) (f_buf2 s3) s3
            in if rc < 0 then (dn, in1, s4)
               else
                 let s5 = advance_fd fd tk s4;
                     e = fd_offset (f_fds s5 ! fd)
                 in write_loop fd (if i_size in1 < e then in1\<lparr>i_size := e\<rparr> else in1) count (dn + tk) buf s5
      else (dn, inn, s))"
  by pat_completeness auto
termination
proof (relation "measure (\<lambda>(fd, inn, count, dn, buf, s). count - dn)", goal_cases)
  case (2 fd inn count dn buf s offset r1 b r2 in1 s1 off n s2 s3 r3 rc s4 s5 e)
  have "off < 4096" unfolding 2(8) by (simp add: unat_mod)
  then have "0 < n" using 2 by simp
  then show ?case using 2(1) by simp
qed simp

declare write_loop.simps [simp del]

definition fs_write :: "int \<Rightarrow> u8 list option \<Rightarrow> u32 \<Rightarrow> fs \<Rightarrow> int \<times> fs" where
  "fs_write fd buf count s =
     (case buf of
        None \<Rightarrow> (-1, s)
      | Some bs \<Rightarrow>
          if \<not> fd_open fd s then (-1, s)
          else if fd_flags (f_fds s ! nat fd) AND 3 = 0 then (-1, s)
          else
            let (inn, s1) = inode_read (fd_inode (f_fds s ! nat fd)) s in
            if i_mode inn \<noteq> INODE_FILE then (-1, s1)
            else
              let (dn, in1, s2) = write_loop (nat fd) inn (unat count) 0 bs s1
              in (ssize dn, inode_write (fd_inode (f_fds s2 ! nat fd)) in1 s2))"

definition fs_close :: "int \<Rightarrow> fs \<Rightarrow> int \<times> fs" where
  "fs_close fd s =
     (if \<not> fd_open fd s then (-1, s)
      else (0, s\<lparr>f_fds := (f_fds s)[nat fd := (f_fds s ! nat fd)\<lparr>fd_used := False\<rparr>]\<rparr>))"

definition fs_unlink :: "u8 list option \<Rightarrow> fs \<Rightarrow> int \<times> fs" where
  "fs_unlink path s =
     (if \<not> f_ready s \<or> path = None then (-1, s)
      else case split_parent path s of
          (None, s1) \<Rightarrow> (-2, s1)
        | (Some (parent, name), s1) \<Rightarrow>
            (case dir_find parent name s1 of
               (None, s2) \<Rightarrow> (-3, s2)
             | (Some (_, ino), s2) \<Rightarrow>
                 if ino = 0 then (-4, s2)
                 else
                   let (inn, s3) = inode_read ino s2;
                       s4 = (if i_mode inn = INODE_DIR then read_buf (i_direct inn ! 0) s3 else s3)
                   in if i_mode inn = INODE_DIR \<and> scan (\<lambda>i. ent_inode (f_buf s4) i \<noteq> FS_INVALID_INODE) 2 DIR_ENTRIES \<noteq> None
                      then (-5, s4)
                      else
                        let (rc, s5) = dir_remove parent name s4 in
                        if rc < 0 then (-6, s5)
                        else
                          let (_, s6) = release_inode_blocks inn s5;
                              s7 = inode_write ino zero_inode s6;
                              s8 = free_inode ino s7
                          in (0, if f_cwd s8 = ino then s8\<lparr>f_cwd := 0\<rparr> else s8)))"

definition fs_mkdir :: "u8 list option \<Rightarrow> fs \<Rightarrow> int \<times> fs" where
  "fs_mkdir path s =
     (if \<not> f_ready s then (-1, s)
      else case split_parent path s of
          (None, s1) \<Rightarrow> (-1, s1)
        | (Some (parent, name), s1) \<Rightarrow>
            if str_eq name dot \<or> str_eq name dotdot then (-2, s1)
            else (case create_inode parent name INODE_DIR s1 of
                (Inl rc, s2) \<Rightarrow> (rc, s2)
              | (Inr _, s2) \<Rightarrow> (0, s2)))"

definition fs_chdir :: "u8 list option \<Rightarrow> fs \<Rightarrow> int \<times> fs" where
  "fs_chdir path s =
     (if \<not> f_ready s then (-1, s)
      else case resolve_path path (f_cwd s) s of
          (None, s1) \<Rightarrow> (-1, s1)
        | (Some ino, s1) \<Rightarrow>
            let (inn, s2) = inode_read ino s1 in
            if i_mode inn \<noteq> INODE_DIR then (-2, s2) else (0, s2\<lparr>f_cwd := ino\<rparr>))"

text \<open>\<open>None\<close>: the console is given a format or an escape sequence on which \<open>Vga\<close> is undefined.\<close>

definition list_entry :: "nat \<Rightarrow> fs \<Rightarrow> fs option" where
  "list_entry i s =
     (let ino = ent_inode (f_buf2 s) i;
          name = take 28 (ent_name (f_buf2 s) i) in
      if ino = FS_INVALID_INODE \<or> 64 \<le> ino then Some s
      else
        let (child, s1) = inode_read ino s in
        if i_mode child \<noteq> INODE_FILE \<and> i_mode child \<noteq> INODE_DIR then Some s1
        else
          case vga_puts (Some [0x20, 0x20]) (f_con s1) of None \<Rightarrow> None | Some c1 \<Rightarrow>
          (case vga_puts (Some name) c1 of None \<Rightarrow> None | Some c2 \<Rightarrow>
          (let c3 = fold vga_putchar (replicate (28 - str_len name) 0x20) c2 in
           case vga_puts (Some (if i_mode child = INODE_DIR
               then [0x3C, 0x44, 0x49, 0x52, 0x3E, 0x20, 0x20, 0x20, 0x20, 0x20, 0x20]
               else [0x3C, 0x46, 0x49, 0x4C, 0x45, 0x3E, 0x20, 0x20, 0x20, 0x20, 0x20])) c3 of None \<Rightarrow> None | Some c4 \<Rightarrow>
           (case vga_printf [0x25, 0x75, 0x0A] [Num_arg (i_size child)] c4 of None \<Rightarrow> None
            | Some c5 \<Rightarrow> Some (s1\<lparr>f_con := c5\<rparr>)))))"

fun list_entries :: "nat list \<Rightarrow> fs \<Rightarrow> fs option" where
  "list_entries [] s = Some s"
| "list_entries (i # is) s = (case list_entry i s of None \<Rightarrow> None | Some s1 \<Rightarrow> list_entries is s1)"

definition heading :: "u8 list" where
  "heading = [0x0A, 0x20, 0x20, 0x4E, 0x41, 0x4D, 0x45] @ replicate 25 0x20 @ [0x54, 0x59, 0x50, 0x45] @ replicate 7 0x20
     @ [0x53, 0x49, 0x5A, 0x45, 0x0A]"

definition rule_line :: "u8 list" where
  "rule_line = [0x20, 0x20] @ replicate 48 0x2D @ [0x0A]"

definition fs_list :: "u8 list option \<Rightarrow> fs \<Rightarrow> (int \<times> fs) option" where
  "fs_list path s =
     (if \<not> f_ready s then Some (-1, s)
      else
        let (found, s1) = (if path = None \<or> char_at (the path) 0 = 0 then (Some (f_cwd s), s) else resolve_path path (f_cwd s) s) in
        case found of
          None \<Rightarrow> Some (-2, s1)
        | Some ino \<Rightarrow>
            let (dir, s2) = inode_read ino s1 in
            if i_mode dir \<noteq> INODE_DIR then Some (-3, s2)
            else
              let s3 = read_buf2 (i_direct dir ! 0) s2 in
              case vga_puts (Some heading) (f_con s3) of None \<Rightarrow> None | Some c1 \<Rightarrow>
              (case vga_puts (Some rule_line) c1 of None \<Rightarrow> None | Some c2 \<Rightarrow>
              (case list_entries [0..<DIR_ENTRIES] (s3\<lparr>f_con := c2\<rparr>) of None \<Rightarrow> None | Some s4 \<Rightarrow>
              (case vga_puts (Some [0x0A]) (f_con s4) of None \<Rightarrow> None | Some c3 \<Rightarrow> Some (0, s4\<lparr>f_con := c3\<rparr>)))))"

text \<open>
  \<^verbatim>\<open>pwd_rec\<close> follows the parent entries; it returns only when they lead to the root, and \<open>None\<close> is that it
  does not. The buffer, the position and the integer are the results.
\<close>

partial_function (option) pwd_rec :: "u32 \<Rightarrow> u8 list \<Rightarrow> nat \<Rightarrow> nat \<Rightarrow> fs \<Rightarrow> (int \<times> u8 list \<times> nat \<times> fs) option" where
  "pwd_rec ino buf len pos s =
     (if ino = 0 then
        if len \<le> pos + 1 then Some (-1, buf, pos, s)
        else Some (0, (buf[pos := 0x2F])[pos + 1 := 0], pos + 1, s)
      else
        case inode_read ino s of (dir, s1) \<Rightarrow>
        (case dir_find ino dotdot s1 of
           (None, s2) \<Rightarrow> Some (-1, buf, pos, s2)
         | (Some (_, parent), s2) \<Rightarrow>
           (case dir_find parent dot s2 of
              (None, s3) \<Rightarrow> Some (-1, buf, pos, s3)
            | (Some _, s3) \<Rightarrow>
              (case inode_read parent (read_buf2 (i_direct dir ! 0) s3) of (pd, s4) \<Rightarrow>
               (let s5 = read_buf (i_direct pd ! 0) s4;
                    name = (case scan (\<lambda>i. ent_inode (f_buf s5) i = ino \<and> \<not> str_eq (ent_name (f_buf s5) i) dot
                              \<and> \<not> str_eq (ent_name (f_buf s5) i) dotdot) 0 DIR_ENTRIES of
                            None \<Rightarrow> [] | Some i \<Rightarrow> copy_str 28 (ent_name (f_buf s5) i))
                in if char_at name 0 = 0 then Some (-1, buf, pos, s5)
                   else
                     Option.bind (pwd_rec parent buf len pos s5) (\<lambda>(rc, buf1, pos1, s6).
                       if rc < 0 then Some (-1, buf1, pos1, s6)
                       else if len \<le> pos1 + str_len name + 1 then Some (-1, buf1, pos1, s6)
                       else
                         let (buf2, pos2) = (if 1 < pos1 then (buf1[pos1 := 0x2F], pos1 + 1) else (buf1, pos1));
                             buf3 = mem_copy pos2 buf2 0 name (str_len name);
                             pos3 = pos2 + str_len name
                         in Some (0, buf3[pos3 := 0], pos3, s6)))))))"

definition fs_pwd :: "u8 list option \<Rightarrow> u32 \<Rightarrow> fs \<Rightarrow> (int \<times> u8 list option \<times> fs) option" where
  "fs_pwd buf len s =
     (case buf of
        None \<Rightarrow> Some (-1, None, s)
      | Some bs \<Rightarrow>
          if len < 2 then Some (-1, buf, s)
          else case pwd_rec (f_cwd s) (bs[0 := 0]) (unat len) 0 s of
              None \<Rightarrow> None
            | Some (rc, bs1, _, s1) \<Rightarrow> Some (rc, Some bs1, s1))"

text \<open>The inode \<^verbatim>\<open>fs_stat\<close> stores, when \<open>want\<close>, that is \<^verbatim>\<open>out\<close> is not null, and the path resolves.\<close>

definition fs_stat :: "u8 list option \<Rightarrow> bool \<Rightarrow> fs \<Rightarrow> int \<times> inode option \<times> fs" where
  "fs_stat path want s =
     (if \<not> want then (-1, None, s)
      else case resolve_path path (f_cwd s) s of
          (None, s1) \<Rightarrow> (-1, None, s1)
        | (Some ino, s1) \<Rightarrow> (let (inn, s2) = inode_read ino s1 in (0, Some inn, s2)))"

definition fs_free_blocks :: "fs \<Rightarrow> nat \<times> fs" where
  "fs_free_blocks s =
     fold (\<lambda>b (n, s). let (v, s1) = bitmap_get 2 b s in (if \<not> v then n + 1 else n, s1)) [DATA_START_BLOCK..<JOURNAL_START] (0, s)"

definition fs_free_inodes :: "fs \<Rightarrow> nat \<times> fs" where
  "fs_free_inodes s =
     fold (\<lambda>i (n, s). let (v, s1) = bitmap_get 3 i s in (if \<not> v then n + 1 else n, s1)) [0..<FS_MAX_INODES] (0, s)"

end
