(* ===== verification/Fs_Image.thy ===== *)
theory Fs_Image
  imports Fs
begin

text \<open>
  The file system of \<open>Fs\<close> seen through its disk image: the map from block numbers to block contents that
  the locale \<open>block_device\<close> provides. Each helper is given a specification on the image: what it returns, the
  image it leaves, and that everything outside the disk and the block buffers is as it was.
\<close>

unbundle bit_operations_syntax

subsection \<open>Images\<close>

type_synonym image = "nat \<Rightarrow> u8 list"

definition img :: "fs \<Rightarrow> image" where
  "img s = (\<lambda>b. if b < 254 then block_of (f_disk s) b else [])"

definition fs_ok :: "fs \<Rightarrow> bool" where
  "fs_ok s \<longleftrightarrow> disk_ok (f_disk s) \<and> length (f_buf s) = 4096 \<and> length (f_buf2 s) = 4096 \<and> length (f_junk s) = 4096"

text \<open>\<open>fs_upd D s s'\<close>: \<open>s'\<close> has the image \<open>D\<close> and differs from \<open>s\<close> in the disk and the buffers only.\<close>

definition fs_upd :: "image \<Rightarrow> fs \<Rightarrow> fs \<Rightarrow> bool" where
  "fs_upd D s s' \<longleftrightarrow> fs_ok s' \<and> img s' = D \<and> f_fds s' = f_fds s \<and> f_cwd s' = f_cwd s \<and> f_ready s' = f_ready s \<and> f_con s' = f_con s"

lemma fs_updD [dest]:
  assumes "fs_upd D s s'"
  shows "fs_ok s'" "img s' = D" "f_fds s' = f_fds s" "f_cwd s' = f_cwd s" "f_ready s' = f_ready s" "f_con s' = f_con s"
  using assms by (simp_all add: fs_upd_def)

lemma fs_upd_refl [simp]: "fs_ok s \<Longrightarrow> fs_upd (img s) s s"
  by (simp add: fs_upd_def)

lemma fs_upd_trans [trans]: "fs_upd D s s1 \<Longrightarrow> fs_upd E s1 s2 \<Longrightarrow> fs_upd E s s2"
  by (simp add: fs_upd_def)

lemma img_cong: "f_disk s = f_disk t \<Longrightarrow> img s = img t"
  by (simp add: img_def cong: if_cong)

lemma img_fields [simp]:
  "img (s\<lparr>f_buf := xs\<rparr>) = img s" "img (s\<lparr>f_buf2 := xs\<rparr>) = img s" "img (s\<lparr>f_fds := fd\<rparr>) = img s"
  "img (s\<lparr>f_cwd := c\<rparr>) = img s" "img (s\<lparr>f_ready := r\<rparr>) = img s" "img (s\<lparr>f_con := v\<rparr>) = img s"
  by (rule img_cong, simp)+

lemma fs_ok_fields [simp]:
  "length xs = 4096 \<Longrightarrow> fs_ok s \<Longrightarrow> fs_ok (s\<lparr>f_buf := xs\<rparr>)" "length xs = 4096 \<Longrightarrow> fs_ok s \<Longrightarrow> fs_ok (s\<lparr>f_buf2 := xs\<rparr>)"
  "fs_ok (s\<lparr>f_fds := fd\<rparr>) = fs_ok s" "fs_ok (s\<lparr>f_cwd := c\<rparr>) = fs_ok s" "fs_ok (s\<lparr>f_ready := r\<rparr>) = fs_ok s"
  "fs_ok (s\<lparr>f_con := v\<rparr>) = fs_ok s"
  by (simp_all add: fs_ok_def)

lemma fs_upd_buf [simp]:
  "length xs = 4096 \<Longrightarrow> fs_upd D s s' \<Longrightarrow> fs_upd D s (s'\<lparr>f_buf := xs\<rparr>)"
  "length xs = 4096 \<Longrightarrow> fs_upd D s s' \<Longrightarrow> fs_upd D s (s'\<lparr>f_buf2 := xs\<rparr>)"
  by (simp_all add: fs_upd_def)

lemma length_img [simp]: "b < 254 \<Longrightarrow> length (img s b) = 4096"
  by (simp add: img_def)

lemma fs_upd_length [simp]: "fs_upd D s s' \<Longrightarrow> b < 254 \<Longrightarrow> length (D b) = 4096"
  by (auto simp: fs_upd_def)

lemma img_outside [simp]: "\<not> b < 254 \<Longrightarrow> img s b = []"
  by (simp add: img_def)

lemma block_less: "(b :: u32) < 254 \<longleftrightarrow> unat b < 254"
  by (simp add: word_less_nat_alt)

lemma read_buf_spec:
  assumes "fs_ok s" "b < 254"
  shows "fs_upd (img s) s (read_buf b s)" "f_buf (read_buf b s) = img s (unat b)"
proof -
  have "b < 256" using assms(2) by (simp add: word_less_nat_alt)
  then have "ramdisk_read_block (f_disk s) b (Some (f_buf s)) = Some (block_of (f_disk s) (unat b))"
    using assms by (intro read_block_of) (simp_all add: fs_ok_def)
  then show "fs_upd (img s) s (read_buf b s)" "f_buf (read_buf b s) = img s (unat b)"
    using assms by (simp_all add: read_buf_def fs_upd_def fs_ok_def block_less, simp add: img_def)
qed

lemma read_buf2_spec:
  assumes "fs_ok s" "b < 254"
  shows "fs_upd (img s) s (read_buf2 b s)" "f_buf2 (read_buf2 b s) = img s (unat b)"
proof -
  have "b < 256" using assms(2) by (simp add: word_less_nat_alt)
  then have "ramdisk_read_block (f_disk s) b (Some (f_buf2 s)) = Some (block_of (f_disk s) (unat b))"
    using assms by (intro read_block_of) (simp_all add: fs_ok_def)
  then show "fs_upd (img s) s (read_buf2 b s)" "f_buf2 (read_buf2 b s) = img s (unat b)"
    using assms by (simp_all add: read_buf2_def fs_upd_def fs_ok_def block_less, simp add: img_def)
qed

lemma read_ptrs_spec:
  assumes "fs_ok s" "b < 254"
  shows "the (ramdisk_read_block (f_disk s) b (Some (f_junk s))) = img s (unat b)"
proof -
  have "b < 256" using assms(2) by (simp add: word_less_nat_alt)
  then show ?thesis using assms read_block_of [of b "f_junk s" "f_disk s"] by (simp add: fs_ok_def img_def block_less)
qed

lemma write_disk_img:
  assumes "disk_ok d" "b < 254" "length xs = 4096"
  shows "snd (ramdisk_write_block b (Some xs) d) = 0" "disk_ok (fst (ramdisk_write_block b (Some xs) d))"
    "c < 254 \<Longrightarrow> block_of (fst (ramdisk_write_block b (Some xs) d)) c = (if c = unat b then xs else block_of d c)"
  using assms rd.wr_inv [of d "unat b" xs] rd.rd_wr [of d "unat b" xs c] write_block_view(1) [of d b xs]
  by (simp_all add: block_less disk_ok_def)

lemma write_block_spec:
  assumes "fs_ok s" "b < 254" "length xs = 4096"
  shows "\<exists>s'. write_block b xs s = (0, s') \<and> fs_upd ((img s)(unat b := xs)) s s' \<and> f_buf s' = f_buf s \<and> f_buf2 s' = f_buf2 s"
  using assms write_disk_img [of "f_disk s" b xs]
  by (auto simp: write_block_def fs_upd_def fs_ok_def img_def block_less split: prod.splits)

text \<open>The pattern of every update: fill the buffer and write it.\<close>

lemma buf_write:
  assumes "fs_upd D s s1" "b < 254" "length xs = 4096"
  shows "\<exists>s'. write_block b xs (s1\<lparr>f_buf := xs\<rparr>) = (0, s') \<and> fs_upd (D(unat b := xs)) s s'"
    "\<exists>s'. write_block b xs (s1\<lparr>f_buf2 := xs\<rparr>) = (0, s') \<and> fs_upd (D(unat b := xs)) s s'"
  using write_block_spec [of "s1\<lparr>f_buf := xs\<rparr>" b xs] write_block_spec [of "s1\<lparr>f_buf2 := xs\<rparr>" b xs] assms
  by (auto simp: fs_upd_def)

lemma zero_block_spec:
  assumes "fs_ok s" "b < 254"
  shows "fs_upd ((img s)(unat b := replicate 4096 0)) s (s\<lparr>f_disk := ramdisk_zero_block b (f_disk s)\<rparr>)"
  using assms write_disk_img [of "f_disk s" b "replicate 4096 0"]
  by (auto simp: ramdisk_zero_block_def fs_upd_def fs_ok_def img_def block_less)

subsection \<open>Byte copies\<close>

lemma mem_zero_nth:
  "length (mem_zero p n b) = length b \<and> (\<forall>j < length b. mem_zero p n b ! j = (if p \<le> j \<and> j < p + n then 0 else b ! j))"
  unfolding mem_zero_def by (induction n arbitrary: b) (auto simp: nth_list_update less_Suc_eq)

lemma length_mem_zero [simp]: "length (mem_zero p n b) = length b"
  by (simp add: mem_zero_nth)

lemma mem_zero_all: "length b \<le> n \<Longrightarrow> mem_zero 0 n b = replicate (length b) 0"
  by (rule nth_equalityI) (simp_all add: mem_zero_nth)

lemma mem_copy_nth:
  "length (mem_copy d dst s src n) = length dst \<and>
   (\<forall>j < length dst. mem_copy d dst s src n ! j = (if d \<le> j \<and> j < d + n then src ! (s + (j - d)) else dst ! j))"
  unfolding mem_copy_def by (induction n arbitrary: dst) (auto simp: nth_list_update less_Suc_eq)

lemma length_mem_copy [simp]: "length (mem_copy d dst s src n) = length dst"
  by (simp add: mem_copy_nth)

subsection \<open>Bitmaps\<close>

definition bm :: "image \<Rightarrow> nat \<Rightarrow> nat \<Rightarrow> bool" where
  "bm D b k \<longleftrightarrow> bit (D b ! (k div 8)) (k mod 8)"

definition bm_set :: "nat \<Rightarrow> nat \<Rightarrow> bool \<Rightarrow> image \<Rightarrow> image" where
  "bm_set b k v D = D(b := (D b)[k div 8 := (if v then D b ! (k div 8) OR ucast ((2 :: u32) ^ (k mod 8))
     else D b ! (k div 8) AND ucast (NOT ((2 :: u32) ^ (k mod 8))))])"

lemma bm_set_other [simp]: "c \<noteq> b \<Longrightarrow> bm_set b k v D c = D c"
  by (simp add: bm_set_def)

lemma length_bm_set [simp]: "length (bm_set b k v D c) = length (D c)"
  by (simp add: bm_set_def)

lemma bm_bm_set [simp]:
  assumes "k < 32768" "length (D b) = 4096"
  shows "bm (bm_set b k v D) c j = (if c = b \<and> j = k then v else bm D c j)"
proof -
  have "k div 8 < 4096" using assms(1) by linarith
  moreover have "j = k \<longleftrightarrow> j div 8 = k div 8 \<and> j mod 8 = k mod 8" by (metis div_mult_mod_eq)
  ultimately show ?thesis using assms(2)
    by (auto simp: bm_def bm_set_def nth_list_update bit_u8_set bit_u8_clear)
qed

lemma bm_upd_other [simp]: "c \<noteq> b \<Longrightarrow> bm (D(b := xs)) c k = bm D c k"
  by (simp add: bm_def)

lemma bitmap_get_spec:
  assumes "fs_ok s" "b < 254"
  shows "\<exists>s'. bitmap_get b k s = (bm (img s) (unat b) k, s') \<and> fs_upd (img s) s s'"
  using read_buf_spec [OF assms] by (simp add: bitmap_get_def Let_def u8_test bm_def)

lemma bitmap_set_spec:
  assumes "fs_ok s" "b < 254"
  shows "fs_upd (bm_set (unat b) k v (img s)) s (bitmap_set b k v s)"
proof -
  let ?s1 = "read_buf b s" and ?D = "img s" and ?b = "unat b"
  let ?x = "bm_set ?b k v ?D ?b"
  have len: "length ?x = 4096" using assms(2) by (simp add: block_less)
  have r: "fs_upd ?D s ?s1" "f_buf ?s1 = ?D ?b" using read_buf_spec [OF assms] by auto
  have x: "?x = (f_buf ?s1)[k div 8 := (if v then f_buf ?s1 ! (k div 8) OR ucast ((2 :: u32) ^ (k mod 8))
     else f_buf ?s1 ! (k div 8) AND ucast (NOT ((2 :: u32) ^ (k mod 8))))]"
    by (simp add: bm_set_def r(2))
  from buf_write(1) [OF r(1) assms(2) len] obtain s3 where
    s3: "write_block b ?x (?s1\<lparr>f_buf := ?x\<rparr>) = (0, s3)" "fs_upd (?D(?b := ?x)) s s3" by auto
  have "bitmap_set b k v s = snd (write_block b ?x (?s1\<lparr>f_buf := ?x\<rparr>))"
    unfolding x bitmap_set_def Let_def by simp
  moreover have "?D(?b := ?x) = bm_set ?b k v ?D" by (auto simp: bm_set_def)
  ultimately show ?thesis using s3 by simp
qed

text \<open>The same facts along a chain of operations that started in \<open>s0\<close>.\<close>

lemma read_buf_upd:
  assumes "fs_upd D s0 s" "b < 254"
  shows "fs_upd D s0 (read_buf b s)" "f_buf (read_buf b s) = D (unat b)"
  using read_buf_spec [of s b] assms by (metis fs_updD(1,2) fs_upd_trans)+

lemma read_buf2_upd:
  assumes "fs_upd D s0 s" "b < 254"
  shows "fs_upd D s0 (read_buf2 b s)" "f_buf2 (read_buf2 b s) = D (unat b)"
  using read_buf2_spec [of s b] assms by (metis fs_updD(1,2) fs_upd_trans)+

lemma write_block_upd:
  assumes "fs_upd D s0 s" "b < 254" "length xs = 4096"
  shows "\<exists>s'. write_block b xs s = (0, s') \<and> fs_upd (D(unat b := xs)) s0 s'"
  using write_block_spec [of s b xs] assms by (metis fs_updD(1,2) fs_upd_trans)

lemma zero_block_upd:
  assumes "fs_upd D s0 s" "b < 254"
  shows "fs_upd (D(unat b := replicate 4096 0)) s0 (s\<lparr>f_disk := ramdisk_zero_block b (f_disk s)\<rparr>)"
  using zero_block_spec [of s b] fs_upd_trans [OF assms(1)] assms by (simp add: fs_updD)

lemma bitmap_get_upd:
  assumes "fs_upd D s0 s" "b < 254"
  shows "\<exists>s'. bitmap_get b k s = (bm D (unat b) k, s') \<and> fs_upd D s0 s'"
  using bitmap_get_spec [of s b k] assms by (metis fs_updD(1,2) fs_upd_trans)

lemma bitmap_set_upd:
  assumes "fs_upd D s0 s" "b < 254"
  shows "fs_upd (bm_set (unat b) k v D) s0 (bitmap_set b k v s)"
  using bitmap_set_spec [of s b k v] assms by (metis fs_updD(1,2) fs_upd_trans)

subsection \<open>Allocation\<close>

definition zeros :: "u8 list" where
  "zeros = replicate 4096 0"

lemma length_zeros [simp]: "length zeros = 4096"
  by (simp add: zeros_def)

lemma zeros_nth [simp]: "i < 4096 \<Longrightarrow> zeros ! i = 0"
  by (simp add: zeros_def)

text \<open>The image after allocating block \<open>b\<close>, and after releasing it.\<close>

definition take_block :: "nat \<Rightarrow> image \<Rightarrow> image" where
  "take_block b D = (bm_set 2 b True D)(b := zeros)"

lemma word_of_less: "b < 254 \<Longrightarrow> (of_nat b :: u32) < 254 \<and> unat (of_nat b :: u32) = b"
  by (simp add: word_less_nat_alt unat_of_nat)

lemma alloc_block_loop_spec:
  "fs_ok s \<Longrightarrow> 3 \<le> lo \<Longrightarrow> hi \<le> 254 \<Longrightarrow>
   \<exists>s'. alloc_block_loop [lo..<hi] s = (scan (\<lambda>b. \<not> bm (img s) 2 b) lo hi, s') \<and>
     fs_upd (case scan (\<lambda>b. \<not> bm (img s) 2 b) lo hi of None \<Rightarrow> img s | Some b \<Rightarrow> take_block b (img s)) s s'"
proof (induction "hi - lo" arbitrary: lo s)
  case 0
  then show ?case by (simp add: scan.simps [of _ lo hi])
next
  case (Suc n)
  let ?D = "img s"
  have lo: "lo < hi" and n: "n = hi - Suc lo" using Suc(2) by simp_all
  have upt: "[lo..<hi] = lo # [Suc lo..<hi]" using lo by (rule upt_conv_Cons)
  obtain s1 where s1: "bitmap_get 2 lo s = (bm ?D 2 lo, s1)" "fs_upd ?D s s1"
    using bitmap_get_spec [of s 2 lo] Suc.prems by auto
  show ?case
  proof (cases "bm ?D 2 lo")
    case True
    obtain s2 where "alloc_block_loop [Suc lo..<hi] s1 = (scan (\<lambda>b. \<not> bm ?D 2 b) (Suc lo) hi, s2)"
      "fs_upd (case scan (\<lambda>b. \<not> bm ?D 2 b) (Suc lo) hi of None \<Rightarrow> ?D | Some b \<Rightarrow> take_block b ?D) s1 s2"
      using Suc.hyps(1) [of "Suc lo" s1] n Suc.prems fs_updD(1,2) [OF s1(2)] by (auto cong: option.case_cong)
    then show ?thesis using True lo s1 by (auto simp: upt scan.simps [of _ lo hi] intro: fs_upd_trans)
  next
    case False
    let ?s2 = "bitmap_set 2 lo True s1"
    have s2: "fs_upd (bm_set 2 lo True ?D) s ?s2" using bitmap_set_upd [OF s1(2), of 2 lo True] by simp
    have "fs_upd (take_block lo ?D) s (?s2\<lparr>f_disk := ramdisk_zero_block (of_nat lo) (f_disk ?s2)\<rparr>)"
      using zero_block_upd [OF s2, of "of_nat lo"] word_of_less [of lo] lo Suc.prems by (simp add: take_block_def zeros_def)
    then show ?thesis using False lo s1(1) by (simp add: Let_def upt scan.simps [of _ lo hi])
  qed
qed

abbreviation free_scan :: "image \<Rightarrow> nat option" where
  "free_scan D \<equiv> scan (\<lambda>b. \<not> bm D 2 b) 6 254"

lemma alloc_block_upd:
  assumes "fs_upd D s0 s"
  shows "\<exists>s'. alloc_block s = (free_scan D, s') \<and>
    fs_upd (case free_scan D of None \<Rightarrow> D | Some b \<Rightarrow> take_block b D) s0 s'"
proof -
  have D: "img s = D" using assms by auto
  have "\<exists>s'. alloc_block s = (free_scan (img s), s') \<and>
      fs_upd (case free_scan (img s) of None \<Rightarrow> img s | Some b \<Rightarrow> take_block b (img s)) s s'"
    using alloc_block_loop_spec [of s 6 254] assms by (auto simp: alloc_block_def)
  then show ?thesis unfolding D using fs_upd_trans [OF assms] by blast
qed

definition drop_block :: "u32 \<Rightarrow> image \<Rightarrow> image" where
  "drop_block b D = (if 6 \<le> unat b \<and> unat b < 254 then bm_set 2 (unat b) False D else D)"

lemma free_block_upd:
  assumes "fs_upd D s0 s"
  shows "fs_upd (drop_block b D) s0 (free_block b s)"
  using assms bitmap_set_upd [OF assms, of 2 "unat b" False]
  by (simp add: drop_block_def free_block_def word_less_nat_alt word_le_nat_alt)

lemma alloc_inode_loop_spec:
  "fs_ok s \<Longrightarrow>
   \<exists>s'. alloc_inode_loop [lo..<hi] s = (scan (\<lambda>i. \<not> bm (img s) 3 i) lo hi, s') \<and>
     fs_upd (case scan (\<lambda>i. \<not> bm (img s) 3 i) lo hi of None \<Rightarrow> img s | Some i \<Rightarrow> bm_set 3 i True (img s)) s s'"
proof (induction "hi - lo" arbitrary: lo s)
  case 0
  then show ?case by (simp add: scan.simps [of _ lo hi])
next
  case (Suc n)
  let ?D = "img s"
  have lo: "lo < hi" and n: "n = hi - Suc lo" using Suc(2) by simp_all
  have upt: "[lo..<hi] = lo # [Suc lo..<hi]" using lo by (rule upt_conv_Cons)
  obtain s1 where s1: "bitmap_get 3 lo s = (bm ?D 3 lo, s1)" "fs_upd ?D s s1"
    using bitmap_get_spec [of s 3 lo] Suc.prems by auto
  show ?case
  proof (cases "bm ?D 3 lo")
    case True
    obtain s2 where "alloc_inode_loop [Suc lo..<hi] s1 = (scan (\<lambda>b. \<not> bm ?D 3 b) (Suc lo) hi, s2)"
      "fs_upd (case scan (\<lambda>b. \<not> bm ?D 3 b) (Suc lo) hi of None \<Rightarrow> ?D | Some b \<Rightarrow> bm_set 3 b True ?D) s1 s2"
      using Suc.hyps(1) [of "Suc lo" s1] n fs_updD(1,2) [OF s1(2)] by (auto cong: option.case_cong)
    then show ?thesis using True lo s1 by (auto simp: upt scan.simps [of _ lo hi] intro: fs_upd_trans)
  next
    case False
    then show ?thesis using lo s1 bitmap_set_upd [OF s1(2), of 3 lo True] by (simp add: upt scan.simps [of _ lo hi])
  qed
qed

abbreviation inode_scan :: "image \<Rightarrow> nat option" where
  "inode_scan D \<equiv> scan (\<lambda>i. \<not> bm D 3 i) 0 64"

lemma alloc_inode_upd:
  assumes "fs_upd D s0 s"
  shows "\<exists>s'. alloc_inode s = (inode_scan D, s') \<and>
    fs_upd (case inode_scan D of None \<Rightarrow> D | Some i \<Rightarrow> bm_set 3 i True D) s0 s'"
proof -
  have D: "img s = D" using assms by auto
  have "\<exists>s'. alloc_inode s = (inode_scan (img s), s') \<and>
      fs_upd (case inode_scan (img s) of None \<Rightarrow> img s | Some i \<Rightarrow> bm_set 3 i True (img s)) s s'"
    using alloc_inode_loop_spec [of s 0 64] assms by (auto simp: alloc_inode_def)
  then show ?thesis unfolding D using fs_upd_trans [OF assms] by blast
qed

lemma free_inode_upd:
  assumes "fs_upd D s0 s" "i < 64"
  shows "fs_upd (bm_set 3 (unat i) False D) s0 (free_inode i s)"
  using assms(2) bitmap_set_upd [OF assms(1), of 3 "unat i" False] by (simp add: free_inode_def)

subsection \<open>Inodes\<close>

definition ino_at :: "image \<Rightarrow> nat \<Rightarrow> inode" where
  "ino_at D i = get_inode (D 4) (44 * i)"

definition set_ino :: "nat \<Rightarrow> inode \<Rightarrow> image \<Rightarrow> image" where
  "set_ino i n D = D(4 := put_inode (44 * i) n (D 4))"

lemma put_ptrs_nth:
  "length (fold (\<lambda>j b. put32 (p + 4 * j) (f j) b) [0..<n] b) = length b \<and>
   (\<forall>j. j < p \<or> p + 4 * n \<le> j \<longrightarrow> fold (\<lambda>j b. put32 (p + 4 * j) (f j) b) [0..<n] b ! j = b ! j) \<and>
   (p + 4 * n \<le> length b \<longrightarrow> (\<forall>j < n. get32 (fold (\<lambda>j b. put32 (p + 4 * j) (f j) b) [0..<n] b) (p + 4 * j) = f j))"
  by (induction n arbitrary: b) (auto simp: byte_simps less_Suc_eq)

lemma length_put_inode [simp]: "length (put_inode p n b) = length b"
  by (simp add: put_inode_def put_ptrs_nth)

lemma put_inode_other: "j < p \<or> p + 44 \<le> j \<Longrightarrow> put_inode p n b ! j = b ! j"
  by (auto simp: put_inode_def put_ptrs_nth byte_simps)

lemma get32_cong: "(\<And>i. i < 4 \<Longrightarrow> b ! (k + i) = c ! (k + i)) \<Longrightarrow> get32 b k = get32 c k"
proof -
  assume a: "\<And>i. i < 4 \<Longrightarrow> b ! (k + i) = c ! (k + i)"
  show ?thesis using a [of 0] a [of 1] a [of 2] a [of 3] by (simp add: get32_def)
qed

lemma get_inode_cong:
  assumes "\<And>i. i < 44 \<Longrightarrow> b ! (p + i) = c ! (p + i)"
  shows "get_inode b p = get_inode c p"
proof -
  have "get32 b (p + k) = get32 c (p + k)" if "k \<le> 40" for k
    using that by (intro get32_cong) (simp add: assms add.assoc)
  from this [of 0] this [of 4] this [of 40] this show ?thesis
    by (auto simp: get_inode_def add.assoc)
qed

lemma get_put_inode:
  assumes "p + 44 \<le> length b" "length (i_direct n) = 8"
  shows "get_inode (put_inode p n b) p = n"
proof -
  let ?f = "fold (\<lambda>j b. put32 (p + 8 + 4 * j) (i_direct n ! j) b) [0..<8] (put32 (p + 4) (i_mode n) (put32 p (i_size n) b))"
  have f: "length ?f = length b" "\<And>j. j < p + 8 \<Longrightarrow> ?f ! j = put32 (p + 4) (i_mode n) (put32 p (i_size n) b) ! j"
    "\<And>j. j < 8 \<Longrightarrow> get32 ?f (p + 8 + 4 * j) = i_direct n ! j"
    using put_ptrs_nth [of "p + 8" "\<lambda>j. i_direct n ! j" 8 "put32 (p + 4) (i_mode n) (put32 p (i_size n) b)"] assms(1) by auto
  have "get32 ?f k = get32 (put32 (p + 4) (i_mode n) (put32 p (i_size n) b)) k" if "k \<le> p + 4" for k
    using that by (intro get32_cong f(2)) simp
  then have "get32 ?f p = i_size n" "get32 ?f (p + 4) = i_mode n" using assms(1) by (simp_all add: byte_simps)
  moreover have "map (\<lambda>j. get32 (put32 (p + 40) (i_indirect n) ?f) (p + 8 + 4 * j)) [0..<8] = i_direct n"
    using f assms(2) by (intro nth_equalityI) (simp_all add: byte_simps)
  ultimately show ?thesis using assms(1) f(1) by (simp add: get_inode_def put_inode_def byte_simps)
qed

lemma length_direct [simp]: "length (i_direct (ino_at D i)) = 8"
  by (simp add: ino_at_def get_inode_def)

lemma ino_at_set_ino [simp]:
  assumes "length (D 4) = 4096" "i < 64" "length (i_direct n) = 8"
  shows "ino_at (set_ino i n D) j = (if j = i then n else ino_at D j)"
proof (cases "j = i")
  case False
  then have "44 * j + 44 \<le> 44 * i \<or> 44 * i + 44 \<le> 44 * j" by linarith
  then have "get_inode (put_inode (44 * i) n (D 4)) (44 * j) = get_inode (D 4) (44 * j)"
    by (intro get_inode_cong put_inode_other) linarith
  then show ?thesis using False by (simp add: ino_at_def set_ino_def)
qed (use assms in \<open>simp add: ino_at_def set_ino_def get_put_inode\<close>)

lemma set_ino_other [simp]: "b \<noteq> 4 \<Longrightarrow> set_ino i n D b = D b"
  by (simp add: set_ino_def)

lemma length_set_ino [simp]: "length (set_ino i n D b) = length (D b)"
  by (simp add: set_ino_def)

lemma bm_set_ino [simp]: "b \<noteq> 4 \<Longrightarrow> bm (set_ino i n D) b k = bm D b k"
  by (simp add: bm_def)

lemma ino_at_other [simp]: "b \<noteq> 4 \<Longrightarrow> ino_at (D(b := xs)) i = ino_at D i" "b \<noteq> 4 \<Longrightarrow> ino_at (bm_set b k v D) i = ino_at D i"
  by (simp_all add: ino_at_def)

lemma inode_place: "i < 64 \<Longrightarrow> inode_block i = 4 \<and> inode_off i = 44 * unat i"
proof -
  assume "i < 64"
  then have "unat i < 64" by (simp add: word_less_nat_alt)
  then have "unat (i * 44) = 44 * unat i" by (simp add: unat_word_ariths)
  then show ?thesis using \<open>unat i < 64\<close> by (simp add: inode_block_def inode_off_def word_eq_iff_unsigned unat_div unat_mod word_arith_nat_div)
qed

lemma inode_read_upd:
  assumes "fs_upd D s0 s" "i < 64"
  shows "\<exists>s'. inode_read i s = (ino_at D (unat i), s') \<and> fs_upd D s0 s'"
  using inode_place [OF assms(2)] read_buf_upd [OF assms(1), of 4] by (simp add: inode_read_def Let_def ino_at_def)

lemma inode_write_upd:
  assumes "fs_upd D s0 s" "i < 64"
  shows "fs_upd (set_ino (unat i) n D) s0 (inode_write i n s)"
proof -
  let ?s1 = "read_buf 4 s"
  let ?x = "put_inode (44 * unat i) n (D 4)"
  have r: "fs_upd D s0 ?s1" "f_buf ?s1 = D 4" using read_buf_upd [OF assms(1), of 4] by auto
  have "length ?x = 4096" using assms(1) by simp
  with buf_write(1) [OF r(1), of 4 ?x] obtain s3 where
    "write_block 4 ?x (?s1\<lparr>f_buf := ?x\<rparr>) = (0, s3)" "fs_upd (D(4 := ?x)) s0 s3" by auto
  then show ?thesis using inode_place [OF assms(2)] r(2) by (simp add: inode_write_def Let_def set_ino_def)
qed

subsection \<open>Strings\<close>

lemma str_len_cstr: "str_len s = length (cstr s)"
  by (induction s) auto

lemma str_eq_cstr: "str_eq a b \<longleftrightarrow> cstr a = cstr b"
  by (induction a b rule: str_eq.induct) (auto simp: char_at_cstr)

lemma cstr_drop:
  "char_at src i \<noteq> 0 \<Longrightarrow> cstr (drop i src) = char_at src i # cstr (drop (Suc i) src)"
  "char_at src i = 0 \<Longrightarrow> cstr (drop i src) = []"
  by (cases "i < length src"; simp add: char_at_def Cons_nth_drop_Suc [symmetric])+

lemma str_copy_loop_nth:
  "p + i + k < length b \<Longrightarrow>
   length (str_copy_loop k i src p b) = length b \<and>
   (\<forall>j. str_copy_loop k i src p b ! j =
     (if p + i \<le> j \<and> j < p + i + min k (length (cstr (drop i src))) then cstr (drop i src) ! (j - p - i)
      else if j = p + i + min k (length (cstr (drop i src))) then 0 else b ! j))"
proof (induction k arbitrary: i b)
  case (Suc k)
  show ?case
  proof (cases "char_at src i = 0")
    case False
    note c = cstr_drop(1) [OF False]
    have IH: "length (str_copy_loop k (i + 1) src p (b[p + i := char_at src i])) = length b \<and>
      (\<forall>j. str_copy_loop k (i + 1) src p (b[p + i := char_at src i]) ! j =
       (if p + (i + 1) \<le> j \<and> j < p + (i + 1) + min k (length (cstr (drop (i + 1) src))) then cstr (drop (i + 1) src) ! (j - p - (i + 1))
        else if j = p + (i + 1) + min k (length (cstr (drop (i + 1) src))) then 0 else b[p + i := char_at src i] ! j))"
      using Suc.IH [of "i + 1" "b[p + i := char_at src i]"] Suc.prems by simp
    then show ?thesis using False Suc.prems
      by (auto simp: c nth_list_update nth_Cons')
  qed (use Suc.prems in \<open>auto simp: cstr_drop(2) nth_list_update\<close>)
qed (auto simp: nth_list_update)

lemma str_copy_n_spec:
  assumes "p + m \<le> length b" "length (cstr src) < m"
  shows "length (str_copy_n p src m b) = length b"
    "str_copy_n p src m b ! j =
      (if p \<le> j \<and> j < p + length (cstr src) then cstr src ! (j - p) else if j = p + length (cstr src) then 0 else b ! j)"
  using str_copy_loop_nth [of p 0 "m - 1" b src] assms by (auto simp: str_copy_n_def min_def)

lemma cstr_cstr [simp]: "cstr (cstr s) = cstr s"
  by (simp add: cstr_def)

lemma zero_notin_cstr [simp]: "0 \<notin> set (cstr s)"
  by (auto simp: cstr_def dest: set_takeWhileD)

lemma cstr_id: "0 \<notin> set s \<Longrightarrow> cstr s = s"
  by (auto simp: cstr_def takeWhile_eq_all_conv)

lemma copy_str_spec:
  assumes "length (cstr src) < n"
  shows "copy_str n src = cstr src"
proof -
  let ?b = "str_copy_n 0 src n (replicate n 0)" and ?m = "length (cstr src)"
  have b: "length ?b = n" "\<And>j. ?b ! j = (if j < ?m then cstr src ! j else if j = ?m then 0 else replicate n 0 ! j)"
    using str_copy_n_spec [of 0 n "replicate n 0" src] assms by auto
  have t: "take ?m ?b = cstr src" using b assms by (intro nth_equalityI) auto
  have "cstr ?b = take ?m ?b" using b assms t by (intro cstr_take) simp_all
  then show ?thesis by (simp add: copy_str_def t)
qed

subsection \<open>Directory blocks\<close>

text \<open>
  The name of an entry is read from its own 28 bytes; \<open>named\<close> says that it ends there. The map of a directory
  block is what a search from its first entry finds.
\<close>

definition ename :: "u8 list \<Rightarrow> nat \<Rightarrow> u8 list" where
  "ename B e = cstr (take 28 (drop (e * 32) B))"

definition named :: "u8 list \<Rightarrow> nat \<Rightarrow> bool" where
  "named B e \<longleftrightarrow> 0 \<in> set (take 28 (drop (e * 32) B))"

abbreviation live :: "u8 list \<Rightarrow> nat \<Rightarrow> bool" where
  "live B e \<equiv> ent_inode B e \<noteq> FS_INVALID_INODE"

definition dblock_ok :: "u8 list \<Rightarrow> bool" where
  "dblock_ok B \<longleftrightarrow> length B = 4096 \<and> (\<forall>e < 128. live B e \<longrightarrow> named B e \<and> ename B e \<noteq> [])
     \<and> (\<forall>e < 128. \<forall>e' < 128. live B e \<and> live B e' \<and> ename B e = ename B e' \<longrightarrow> e = e')"

definition dir_pos :: "u8 list \<Rightarrow> u8 list \<Rightarrow> nat option" where
  "dir_pos B nm = scan (\<lambda>e. live B e \<and> ename B e = nm) 0 128"

definition dir_map :: "u8 list \<Rightarrow> u8 list \<rightharpoonup> u32" where
  "dir_map B nm = map_option (ent_inode B) (dir_pos B nm)"

lemma cstr_prefix: "0 \<in> set (take n xs) \<Longrightarrow> cstr xs = cstr (take n xs)"
proof -
  assume "0 \<in> set (take n xs)"
  then have "takeWhile (\<lambda>c. c \<noteq> 0) (take n xs @ drop n xs) = takeWhile (\<lambda>c. c \<noteq> 0) (take n xs)"
    by (rule takeWhile_append1) simp
  then show ?thesis by (simp add: cstr_def)
qed

lemma ename_ent: "named B e \<Longrightarrow> cstr (ent_name B e) = ename B e"
  using cstr_prefix [of 28 "drop (e * 32) B"] by (simp add: named_def ename_def ent_name_def)

lemma ename_length: "named B e \<Longrightarrow> length (ename B e) < 28"
  using cstr_length [of "take 28 (drop (e * 32) B)"] by (simp add: named_def ename_def)

text \<open>What an entry holds depends on its own bytes.\<close>

lemma entry_cong:
  assumes "length B = 4096" "length C = 4096" "e < 128" "\<And>j. e * 32 \<le> j \<Longrightarrow> j < e * 32 + 32 \<Longrightarrow> B ! j = C ! j"
  shows "ent_inode B e = ent_inode C e" "ename B e = ename C e" "named B e = named C e"
proof -
  show "ent_inode B e = ent_inode C e" unfolding ent_inode_def by (rule get32_cong) (simp add: assms(4))
  have "take 28 (drop (e * 32) B) = take 28 (drop (e * 32) C)"
    using assms by (intro nth_equalityI) simp_all
  then show "ename B e = ename C e" "named B e = named C e" by (simp_all add: ename_def named_def)
qed

text \<open>The entry \<^verbatim>\<open>dir_add\<close> fills, and the one \<^verbatim>\<open>dir_remove\<close> clears.\<close>

definition fill_entry :: "nat \<Rightarrow> u8 list \<Rightarrow> u32 \<Rightarrow> u8 list \<Rightarrow> u8 list" where
  "fill_entry e name child B = set_entry e name child (mem_zero (e * 32) 32 B)"

definition clear_entry :: "nat \<Rightarrow> u8 list \<Rightarrow> u8 list" where
  "clear_entry e B = (put32 (e * 32 + 28) FS_INVALID_INODE B)[e * 32 := 0]"

lemma set_entry_bytes:
  assumes "length B = 4096" "e < 128" "length (cstr name) < 28"
  shows "length (set_entry e name c B) = 4096"
    "j < e * 32 \<or> e * 32 + 32 \<le> j \<Longrightarrow> set_entry e name c B ! j = B ! j"
    "ent_inode (set_entry e name c B) e = c" "ename (set_entry e name c B) e = cstr name" "named (set_entry e name c B) e"
proof -
  let ?b = "str_copy_n (e * 32) name 28 B" and ?m = "length (cstr name)"
  have e: "e * 32 + 32 \<le> 4096" using assms(2) by linarith
  have b: "length ?b = 4096" "\<And>j. ?b ! j = (if e * 32 \<le> j \<and> j < e * 32 + ?m then cstr name ! (j - e * 32)
      else if j = e * 32 + ?m then 0 else B ! j)"
    using str_copy_n_spec [of "e * 32" 28 B name] assms(1,3) e by auto
  show l: "length (set_entry e name c B) = 4096" by (simp add: set_entry_def b(1))
  show "set_entry e name c B ! j = B ! j" if "j < e * 32 \<or> e * 32 + 32 \<le> j"
    using that assms(3) by (auto simp: set_entry_def nth_put32_other b(2))
  show "ent_inode (set_entry e name c B) e = c"
    using b(1) e by (simp add: ent_inode_def set_entry_def get32_put32_same)
  let ?t = "take 28 (drop (e * 32) (set_entry e name c B))"
  have t: "length ?t = 28" using e l by simp
  have n: "\<And>i. i < 28 \<Longrightarrow> ?t ! i = ?b ! (e * 32 + i)" using e l by (simp add: set_entry_def nth_put32_other)
  have "?t ! ?m = 0" using n [of ?m] assms(3) by (simp add: b(2))
  moreover have p: "take ?m ?t = cstr name" using n t assms(3) by (intro nth_equalityI) (simp_all add: b(2))
  ultimately show "ename (set_entry e name c B) e = cstr name"
    using cstr_take [of ?m ?t] t assms(3) by (simp add: ename_def)
  show "named (set_entry e name c B) e"
    using \<open>?t ! ?m = 0\<close> t assms(3) by (metis named_def nth_mem)
qed

lemma fill_entry_spec:
  assumes "length B = 4096" "e < 128" "length (cstr name) < 28" "e' < 128"
  shows "length (fill_entry e name c B) = 4096"
    "ent_inode (fill_entry e name c B) e' = (if e' = e then c else ent_inode B e')"
    "ename (fill_entry e name c B) e' = (if e' = e then cstr name else ename B e')"
    "named (fill_entry e name c B) e' \<longleftrightarrow> e' = e \<or> named B e'"
proof -
  note s = set_entry_bytes [of "mem_zero (e * 32) 32 B" e name, simplified, OF assms(1-3), folded fill_entry_def]
  show l: "length (fill_entry e name c B) = 4096" by (rule s(1))
  have o: "ent_inode (fill_entry e name c B) e' = ent_inode B e'" "ename (fill_entry e name c B) e' = ename B e'"
      "named (fill_entry e name c B) e' = named B e'" if "e' \<noteq> e"
  proof -
    have "fill_entry e name c B ! j = B ! j" if "e' * 32 \<le> j" "j < e' * 32 + 32" for j
    proof -
      have "j < e * 32 \<or> e * 32 + 32 \<le> j" using \<open>e' \<noteq> e\<close> that by linarith
      moreover have "j < 4096" using that assms(4) by linarith
      ultimately show ?thesis using assms(1) by (auto simp: s(2) mem_zero_nth)
    qed
    then show "ent_inode (fill_entry e name c B) e' = ent_inode B e'" "ename (fill_entry e name c B) e' = ename B e'"
      "named (fill_entry e name c B) e' = named B e'"
      using entry_cong [OF l assms(1,4)] by blast+
  qed
  show "ent_inode (fill_entry e name c B) e' = (if e' = e then c else ent_inode B e')"
    "ename (fill_entry e name c B) e' = (if e' = e then cstr name else ename B e')"
    "named (fill_entry e name c B) e' \<longleftrightarrow> e' = e \<or> named B e'"
    using s(3-5) o by (cases "e' = e"; simp)+
qed

lemma clear_entry_spec:
  assumes "length B = 4096" "e < 128" "e' < 128"
  shows "length (clear_entry e B) = 4096"
    "ent_inode (clear_entry e B) e' = (if e' = e then FS_INVALID_INODE else ent_inode B e')"
    "e' \<noteq> e \<Longrightarrow> ename (clear_entry e B) e' = ename B e'" "e' \<noteq> e \<Longrightarrow> named (clear_entry e B) e' = named B e'"
proof -
  have e: "e * 32 + 32 \<le> 4096" using assms(2) by linarith
  show l: "length (clear_entry e B) = 4096" by (simp add: clear_entry_def assms(1))
  have o: "clear_entry e B ! j = B ! j" if "e' \<noteq> e" "e' * 32 \<le> j" "j < e' * 32 + 32" for j
  proof -
    have "j < e * 32 \<or> e * 32 + 32 \<le> j" using that by linarith
    then show ?thesis by (auto simp: clear_entry_def nth_put32_other)
  qed
  have same: "ent_inode (clear_entry e B) e = FS_INVALID_INODE"
  proof -
    have "get32 (clear_entry e B) (e * 32 + 28) = get32 (put32 (e * 32 + 28) FS_INVALID_INODE B) (e * 32 + 28)"
      unfolding clear_entry_def by (rule get32_cong) simp
    then show ?thesis using e assms(1) by (simp add: ent_inode_def get32_put32_same)
  qed
  show "e' \<noteq> e \<Longrightarrow> ename (clear_entry e B) e' = ename B e'" "e' \<noteq> e \<Longrightarrow> named (clear_entry e B) e' = named B e'"
    "ent_inode (clear_entry e B) e' = (if e' = e then FS_INVALID_INODE else ent_inode B e')"
    using entry_cong [OF l assms(1,3)] o same by (cases "e' = e"; auto)+
qed

lemma dblock_okD:
  assumes "dblock_ok B"
  shows "length B = 4096" "e < 128 \<Longrightarrow> live B e \<Longrightarrow> named B e" "e < 128 \<Longrightarrow> live B e \<Longrightarrow> ename B e \<noteq> []"
    "e < 128 \<Longrightarrow> e' < 128 \<Longrightarrow> live B e \<Longrightarrow> live B e' \<Longrightarrow> ename B e = ename B e' \<Longrightarrow> e = e'"
  using assms by (auto simp: dblock_ok_def)

lemma dir_pos_Some:
  assumes "dblock_ok B"
  shows "dir_pos B nm = Some e \<longleftrightarrow> e < 128 \<and> live B e \<and> ename B e = nm"
proof
  assume r: "e < 128 \<and> live B e \<and> ename B e = nm"
  then obtain e' where "dir_pos B nm = Some e'" unfolding dir_pos_def using scan_ex [of 0 e 128] by fastforce
  then show "dir_pos B nm = Some e" using r dblock_okD(4) [OF assms, of e' e] by (auto simp: dir_pos_def scan_Some_iff)
qed (auto simp: dir_pos_def scan_Some_iff)

lemma dir_pos_None: "dir_pos B nm = None \<longleftrightarrow> (\<forall>e < 128. live B e \<longrightarrow> ename B e \<noteq> nm)"
  by (auto simp: dir_pos_def scan_None_iff)

lemma dir_map_Some:
  "dblock_ok B \<Longrightarrow> dir_map B nm = Some c \<longleftrightarrow> (\<exists>e < 128. live B e \<and> ename B e = nm \<and> ent_inode B e = c)"
  by (auto simp: dir_map_def dir_pos_Some)

lemma dir_map_None: "dir_map B nm = None \<longleftrightarrow> (\<forall>e < 128. live B e \<longrightarrow> ename B e \<noteq> nm)"
  by (simp add: dir_map_def dir_pos_None)

lemma fill_entry_map:
  assumes "dblock_ok B" "e < 128" "\<not> live B e" "length (cstr name) < 28" "cstr name \<noteq> []" "dir_map B (cstr name) = None"
    "c \<noteq> FS_INVALID_INODE"
  shows "dblock_ok (fill_entry e name c B)" "dir_map (fill_entry e name c B) = (dir_map B)(cstr name \<mapsto> c)"
proof -
  let ?F = "fill_entry e name c B"
  note f = fill_entry_spec [OF dblock_okD(1) [OF assms(1)] assms(2,4)]
  note n = assms(6) [unfolded dir_map_None]
  show ok: "dblock_ok ?F" unfolding dblock_ok_def
  proof (intro conjI allI impI)
    fix x y assume x: "x < 128" and y: "y < 128" and l: "live ?F x \<and> live ?F y \<and> ename ?F x = ename ?F y"
    show "x = y"
    proof (cases "x = e \<or> y = e")
      case True
      then show ?thesis using f(2,3) [OF x, of c] f(2,3) [OF y, of c] l x y n by (auto split: if_splits)
    next
      case False
      then show ?thesis using f(2,3) [OF x, of c] f(2,3) [OF y, of c] l x y dblock_okD(4) [OF assms(1) x y] by auto
    qed
  next
    fix x assume x: "x < 128" and l: "live ?F x"
    then show "named ?F x" "ename ?F x \<noteq> []"
      using f(2-4) [OF x, of c] dblock_okD(2,3) [OF assms(1) x] assms(5) by (auto split: if_splits)
  qed (rule f(1) [OF assms(2)])
  show "dir_map ?F = (dir_map B)(cstr name \<mapsto> c)"
  proof
    fix nm
    show "dir_map ?F nm = ((dir_map B)(cstr name \<mapsto> c)) nm"
    proof (cases "nm = cstr name")
      case True
      then show ?thesis using assms(2,7) f(2,3) [OF assms(2), of c] ok by (auto simp: dir_map_Some)
    next
      case False
      have "dir_map ?F nm = Some v \<longleftrightarrow> dir_map B nm = Some v" for v
      proof -
        have "(live ?F x \<and> ename ?F x = nm \<and> ent_inode ?F x = v) = (live B x \<and> ename B x = nm \<and> ent_inode B x = v)"
          if "x < 128" for x
          using f(2,3) [OF that, of c] False assms(3) by auto
        then show ?thesis using ok assms(1) by (auto simp: dir_map_Some)
      qed
      then have "dir_map ?F nm = dir_map B nm" by (metis option.exhaust)
      then show ?thesis using False by simp
    qed
  qed
qed

lemma clear_entry_map:
  assumes "dblock_ok B" "e < 128" "live B e"
  shows "dblock_ok (clear_entry e B)" "dir_map (clear_entry e B) = (dir_map B)(ename B e := None)"
proof -
  let ?F = "clear_entry e B"
  note f = clear_entry_spec [OF dblock_okD(1) [OF assms(1)] assms(2)]
  have o: "live ?F x \<longleftrightarrow> x \<noteq> e \<and> live B x" "live ?F x \<Longrightarrow> ename ?F x = ename B x \<and> named ?F x = named B x \<and> ent_inode ?F x = ent_inode B x"
    if "x < 128" for x using f(2-4) [OF that] by (auto split: if_splits)
  show ok: "dblock_ok ?F" unfolding dblock_ok_def
    using f(1) [OF assms(2)] o dblock_okD(2-4) [OF assms(1)] by auto
  show "dir_map ?F = (dir_map B)(ename B e := None)"
  proof
    fix nm
    show "dir_map ?F nm = ((dir_map B)(ename B e := None)) nm"
    proof (cases "nm = ename B e")
      case True
      then show ?thesis using o dblock_okD(4) [OF assms(1) _ assms(2) _ assms(3)] by (auto simp: dir_map_None)
    next
      case False
      have "dir_map ?F nm = Some v \<longleftrightarrow> dir_map B nm = Some v" for v
        using o False ok assms(1) by (auto simp: dir_map_Some)
      then have "dir_map ?F nm = dir_map B nm" by (metis option.exhaust)
      then show ?thesis using False by simp
    qed
  qed
qed

subsection \<open>Directory operations\<close>

text \<open>The first block of an inode; \<open>node_ok\<close> says that a directory has a good one.\<close>

definition dirn :: "image \<Rightarrow> nat \<Rightarrow> nat" where
  "dirn D i = unat (i_direct (ino_at D i) ! 0)"

definition is_dir :: "image \<Rightarrow> nat \<Rightarrow> bool" where
  "is_dir D i \<longleftrightarrow> i_mode (ino_at D i) = INODE_DIR"

definition node_ok :: "image \<Rightarrow> nat \<Rightarrow> bool" where
  "node_ok D i \<longleftrightarrow> (is_dir D i \<longrightarrow> 0 < dirn D i \<and> dirn D i < 254 \<and> dblock_ok (D (dirn D i)))"

definition dir_entry :: "image \<Rightarrow> nat \<Rightarrow> u8 list \<Rightarrow> (nat \<times> u32) option" where
  "dir_entry D i nm = (if is_dir D i then map_option (\<lambda>e. (e, ent_inode (D (dirn D i)) e)) (dir_pos (D (dirn D i)) nm) else None)"

definition lookup :: "image \<Rightarrow> nat \<Rightarrow> u8 list \<rightharpoonup> u32" where
  "lookup D i nm = map_option snd (dir_entry D i nm)"

lemma lookup_map: "lookup D i = (if is_dir D i then dir_map (D (dirn D i)) else Map.empty)"
  by (rule ext) (simp add: lookup_def dir_entry_def dir_map_def option.map_comp comp_def)

lemma node_okD:
  assumes "node_ok D i" "is_dir D i"
  shows "i_direct (ino_at D i) ! 0 \<noteq> 0" "i_direct (ino_at D i) ! 0 < 254" "dirn D i < 254" "dblock_ok (D (dirn D i))"
  using assms by (auto simp: node_ok_def dirn_def word_less_nat_alt)

lemma scan_find:
  assumes "dblock_ok B"
  shows "scan (\<lambda>i. ent_inode B i \<noteq> FS_INVALID_INODE \<and> str_eq (ent_name B i) name) 0 128 = dir_pos B (cstr name)"
  unfolding dir_pos_def
  by (rule scan_cong) (auto simp: str_eq_cstr ename_ent dblock_okD(2) [OF assms])

lemma dir_find_upd:
  assumes "fs_upd D s0 s" "i < 64" "node_ok D (unat i)"
  shows "\<exists>s'. dir_find i name s = (dir_entry D (unat i) (cstr name), s') \<and> fs_upd D s0 s'"
proof -
  let ?n = "ino_at D (unat i)"
  obtain s1 where s1: "inode_read i s = (?n, s1)" "fs_upd D s0 s1" using inode_read_upd [OF assms(1,2)] by auto
  show ?thesis
  proof (cases "is_dir D (unat i)")
    case True
    note n = node_okD [OF assms(3) True]
    note r = read_buf_upd [OF s1(2) n(2), folded dirn_def]
    have "dir_find i name s = (dir_entry D (unat i) (cstr name), read_buf (i_direct ?n ! 0) s1)"
      using True n s1(1) r(2) scan_find [OF n(4)]
      by (simp add: dir_find_def is_dir_def dir_entry_def Let_def split: option.splits)
    then show ?thesis using r(1) by simp
  qed (use s1 in \<open>simp add: dir_find_def is_dir_def dir_entry_def\<close>)
qed

definition free_entry :: "image \<Rightarrow> nat \<Rightarrow> nat option" where
  "free_entry D i = scan (\<lambda>e. \<not> live (D (dirn D i)) e) 0 128"

lemma dir_add_upd:
  assumes "fs_upd D s0 s" "i < 64" "node_ok D (unat i)"
  shows "\<exists>s'. dir_add i (Some name) child s =
      (if cstr name \<noteq> [] \<and> length (cstr name) < 28 \<and> is_dir D (unat i) \<and> lookup D (unat i) (cstr name) = None
          \<and> free_entry D (unat i) \<noteq> None then 0 else -1, s') \<and>
    fs_upd (if cstr name \<noteq> [] \<and> length (cstr name) < 28 \<and> is_dir D (unat i) \<and> lookup D (unat i) (cstr name) = None
          \<and> free_entry D (unat i) \<noteq> None
        then D(dirn D (unat i) := fill_entry (the (free_entry D (unat i))) name child (D (dirn D (unat i)))) else D) s0 s'"
proof (cases "cstr name \<noteq> [] \<and> length (cstr name) < 28")
  case True
  let ?n = "ino_at D (unat i)" and ?B = "D (dirn D (unat i))"
  obtain s1 where s1: "inode_read i s = (?n, s1)" "fs_upd D s0 s1" using inode_read_upd [OF assms(1,2)] by auto
  have c: "char_at name 0 \<noteq> 0" "\<not> 27 < str_len name" using True by (auto simp: char_at_cstr str_len_cstr)
  show ?thesis
  proof (cases "is_dir D (unat i)")
    case dir: True
    note n = node_okD [OF assms(3) dir]
    obtain s2 where s2: "dir_find i name s1 = (dir_entry D (unat i) (cstr name), s2)" "fs_upd D s0 s2"
      using dir_find_upd [OF s1(2) assms(2,3)] by auto
    show ?thesis
    proof (cases "lookup D (unat i) (cstr name)")
      case None
      then have e: "dir_entry D (unat i) (cstr name) = None" by (simp add: lookup_def)
      note r = read_buf_upd [OF s2(2) n(2), folded dirn_def]
      let ?s3 = "read_buf (i_direct ?n ! 0) s2"
      show ?thesis
      proof (cases "free_entry D (unat i)")
        case None
        then show ?thesis using r s1(1) s2(1) e dir n(1) c
          by (simp add: dir_add_def is_dir_def free_entry_def)
      next
        case (Some k)
        let ?x = "fill_entry k name child ?B"
        have k: "k < 128" using Some by (auto simp: free_entry_def scan_Some_iff)
        have "length ?x = 4096" using fill_entry_spec(1) [OF dblock_okD(1) [OF n(4)] k _ k] True by blast
        with buf_write(1) [OF r(1) n(2)] obtain s4 where
          "write_block (i_direct ?n ! 0) ?x (?s3\<lparr>f_buf := ?x\<rparr>) = (0, s4)" "fs_upd (D(dirn D (unat i) := ?x)) s0 s4"
          by (auto simp: dirn_def)
        then show ?thesis using Some True \<open>lookup D (unat i) (cstr name) = None\<close> r(2) s1(1) s2(1) e dir n(1) c
          by (simp add: dir_add_def is_dir_def free_entry_def fill_entry_def)
      qed
    next
      case (Some a)
      then have "\<exists>p. dir_entry D (unat i) (cstr name) = Some p" by (auto simp: lookup_def)
      then show ?thesis using Some s1(1) s2 dir n(1) c by (auto simp: dir_add_def is_dir_def)
    qed
  qed (use s1 c in \<open>simp add: dir_add_def is_dir_def\<close>)
qed (use assms(1) in \<open>auto simp: dir_add_def char_at_cstr str_len_cstr\<close>)

lemma dir_remove_upd:
  assumes "fs_upd D s0 s" "i < 64" "node_ok D (unat i)"
  shows "\<exists>s'. dir_remove i name s = (if dir_entry D (unat i) (cstr name) = None then -1 else 0, s') \<and>
    fs_upd (case dir_entry D (unat i) (cstr name) of None \<Rightarrow> D
      | Some (e, _) \<Rightarrow> D(dirn D (unat i) := clear_entry e (D (dirn D (unat i))))) s0 s'"
proof -
  let ?n = "ino_at D (unat i)" and ?B = "D (dirn D (unat i))"
  obtain s1 where s1: "inode_read i s = (?n, s1)" "fs_upd D s0 s1" using inode_read_upd [OF assms(1,2)] by auto
  show ?thesis
  proof (cases "dir_entry D (unat i) (cstr name)")
    case None
    obtain s2 where s2: "dir_find i name s1 = (None, s2)" "fs_upd D s0 s2"
      using dir_find_upd [OF s1(2) assms(2,3), of name] None by auto
    then show ?thesis using None s1 by (auto simp: dir_remove_def)
  next
    case (Some p)
    obtain e c where p: "p = (e, c)" by fastforce
    have dir: "is_dir D (unat i)" using Some by (auto simp: dir_entry_def split: if_splits)
    note n = node_okD [OF assms(3) dir]
    obtain s2 where s2: "dir_find i name s1 = (Some (e, c), s2)" "fs_upd D s0 s2"
      using dir_find_upd [OF s1(2) assms(2,3), of name] Some p by auto
    note r = read_buf_upd [OF s2(2) n(2), folded dirn_def]
    let ?x = "clear_entry e ?B" and ?s3 = "read_buf (i_direct ?n ! 0) s2"
    have "length ?x = 4096" using dblock_okD(1) [OF n(4)] by (simp add: clear_entry_def)
    with buf_write(1) [OF r(1) n(2)] obtain s4 where
      "write_block (i_direct ?n ! 0) ?x (?s3\<lparr>f_buf := ?x\<rparr>) = (0, s4)" "fs_upd (D(dirn D (unat i) := ?x)) s0 s4"
      by (auto simp: dirn_def)
    then show ?thesis using Some p s1(1) s2(1) r(2) dir n(1)
      by (simp add: dir_remove_def is_dir_def clear_entry_def)
  qed
qed

end
