(* ===== verification/Fs_Path.thy ===== *)
theory Fs_Path
  imports Fs_Image
begin

text \<open>
  Paths. The components of a path are its non-empty parts between slashes; the abstract walk follows the
  directory maps of the image. \<^verbatim>\<open>resolve_path\<close> is the walk, for every path, and \<^verbatim>\<open>split_parent\<close> is the walk to
  the last directory when no component is longer than a name.
\<close>

subsection \<open>Components\<close>

fun split_slash :: "u8 list \<Rightarrow> u8 list list" where
  "split_slash [] = [[]]"
| "split_slash (c # s) = (if c = 0x2F then [] # split_slash s else (c # hd (split_slash s)) # tl (split_slash s))"

definition comps :: "u8 list \<Rightarrow> u8 list list" where
  "comps p = filter (\<lambda>x. x \<noteq> []) (split_slash (cstr p))"

lemma split_slash_not_Nil [simp]: "split_slash s \<noteq> []"
  by (cases s) auto

lemma comps_slash: "comps (0x2F # s) = comps s"
  by (simp add: comps_def)

lemma comps_dropWhile: "comps (dropWhile (\<lambda>c. c = 0x2F) p) = comps p"
  by (induction p) (auto simp: comps_slash)

lemma comps_zero: "char_at s 0 = 0 \<Longrightarrow> comps s = []"
  by (simp add: char_at_cstr comps_def)

text \<open>The scan of one component.\<close>

abbreviation name_char :: "u8 \<Rightarrow> bool" where
  "name_char c \<equiv> c \<noteq> 0 \<and> c \<noteq> 0x2F"

lemma split_slash_name:
  "split_slash (cstr s) = takeWhile name_char s #
     (if cstr (dropWhile name_char s) = [] then [] else tl (split_slash (cstr (dropWhile name_char s))))"
  by (induction s) auto

lemma comps_name:
  assumes "s \<noteq> []" "name_char (hd s)"
  shows "comps s = takeWhile name_char s # comps (dropWhile name_char s)"
proof -
  let ?r = "dropWhile name_char s"
  have "cstr ?r = [] \<or> (\<exists>t. cstr ?r = 0x2F # t)"
  proof (cases ?r)
    case (Cons x t)
    then have "\<not> name_char x" using hd_dropWhile [of name_char s] by simp
    then show ?thesis using Cons by auto
  next
    case Nil
    then show ?thesis by (simp only: cstr_simps simp_thms)
  qed
  then have "filter (\<lambda>x. x \<noteq> []) (split_slash (cstr ?r)) =
      filter (\<lambda>x. x \<noteq> []) (if cstr ?r = [] then [] else tl (split_slash (cstr ?r)))" by auto
  moreover have "takeWhile name_char s \<noteq> []" using assms by (cases s) auto
  ultimately show ?thesis unfolding comps_def split_slash_name [of s] by (simp add: comps_def)
qed

lemma comp_loop_eq:
  "n \<le> 27 \<Longrightarrow> comp_loop n s out =
     (if n + length (takeWhile name_char s) \<le> 27 then Some (out @ takeWhile name_char s, dropWhile name_char s) else None)"
  by (induction n s out rule: comp_loop.induct) auto

lemma next_component_comps:
  "comps p = [] \<Longrightarrow> \<exists>p'. next_component p = (0, p', [])"
  "comps p = c # cs \<Longrightarrow> length c \<le> 27 \<Longrightarrow> \<exists>p'. next_component p = (1, p', c) \<and> comps p' = cs"
  "comps p = c # cs \<Longrightarrow> 27 < length c \<Longrightarrow> next_component p = (-2, p, [])"
proof -
  let ?s = "dropWhile (\<lambda>c. c = 0x2F) p"
  have z: "char_at ?s 0 = 0 \<Longrightarrow> comps p = []" using comps_zero [of ?s] by (simp add: comps_dropWhile)
  have nz: "comps p = takeWhile name_char ?s # comps (dropWhile name_char ?s)" if "char_at ?s 0 \<noteq> 0"
  proof -
    have "?s \<noteq> []" "hd ?s \<noteq> 0" using that by (cases ?s; simp add: char_at_def)+
    moreover have "hd ?s \<noteq> 0x2F" using hd_dropWhile [of "\<lambda>c. c = 0x2F" p] \<open>?s \<noteq> []\<close> by simp
    ultimately show ?thesis using comps_name [of ?s] by (simp add: comps_dropWhile)
  qed
  show "comps p = [] \<Longrightarrow> \<exists>p'. next_component p = (0, p', [])" using nz by (auto simp: next_component_def Let_def)
  show "comps p = c # cs \<Longrightarrow> length c \<le> 27 \<Longrightarrow> \<exists>p'. next_component p = (1, p', c) \<and> comps p' = cs"
    using z nz by (cases "char_at ?s 0 = 0") (auto simp: next_component_def Let_def comp_loop_eq)
  show "comps p = c # cs \<Longrightarrow> 27 < length c \<Longrightarrow> next_component p = (-2, p, [])"
    using z nz by (cases "char_at ?s 0 = 0") (auto simp: next_component_def Let_def comp_loop_eq)
qed

lemma split_slash_chars: "x \<in> set (split_slash s) \<Longrightarrow> c \<in> set x \<Longrightarrow> c \<in> set s \<and> c \<noteq> 0x2F"
proof (induction s arbitrary: x)
  case (Cons a s)
  have "set (tl (split_slash s)) \<subseteq> set (split_slash s)"
    by (cases "split_slash s") auto
  then show ?case using Cons.IH Cons.IH [of "hd (split_slash s)"] Cons.prems by (auto split: if_splits)
qed simp

lemma comps_no_zero: "c \<in> set (comps p) \<Longrightarrow> cstr c = c"
  by (rule cstr_id) (use split_slash_chars [of c "cstr p" 0] in \<open>auto simp: comps_def\<close>)

subsection \<open>The walk\<close>

abbreviation used_ino :: "image \<Rightarrow> nat \<Rightarrow> bool" where
  "used_ino D i \<equiv> bm D 3 i"

text \<open>Every inode in use is well formed, and every entry of a directory in use leads to an inode in use.\<close>

definition closed :: "image \<Rightarrow> bool" where
  "closed D \<longleftrightarrow> used_ino D 0 \<and>
     (\<forall>i < 64. used_ino D i \<longrightarrow> node_ok D i \<and> (\<forall>nm c. lookup D i nm = Some c \<longrightarrow> unat c < 64 \<and> used_ino D (unat c)))"

definition good :: "image \<Rightarrow> u32 \<Rightarrow> bool" where
  "good D c \<longleftrightarrow> c < 64 \<and> used_ino D (unat c)"

lemma closedD:
  assumes "closed D" "good D i"
  shows "i < 64" "node_ok D (unat i)" "lookup D (unat i) nm = Some c \<Longrightarrow> good D c"
  using assms by (auto simp: closed_def good_def word_less_nat_alt)

lemma good_root: "closed D \<Longrightarrow> good D 0"
  by (simp add: closed_def good_def)

fun walk :: "image \<Rightarrow> u8 list list \<Rightarrow> u32 \<Rightarrow> u32 option" where
  "walk D [] cur = Some cur"
| "walk D (c # cs) cur =
     (if c = dot then walk D cs cur
      else case lookup D (unat cur) c of None \<Rightarrow> None | Some child \<Rightarrow> walk D cs child)"

lemma walk_append: "walk D (xs @ ys) cur = (case walk D xs cur of None \<Rightarrow> None | Some d \<Rightarrow> walk D ys d)"
  by (induction xs arbitrary: cur) (auto split: option.splits)

lemma walk_good: "closed D \<Longrightarrow> good D cur \<Longrightarrow> walk D cs cur = Some d \<Longrightarrow> good D d"
proof (induction cs arbitrary: cur)
  case (Cons c cs)
  then show ?case using closedD(3) [OF Cons.prems(1,2), of c] by (auto split: if_splits option.splits)
qed simp

lemma lookup_long:
  assumes "closed D" "good D i" "27 < length nm"
  shows "lookup D (unat i) nm = None"
proof (cases "is_dir D (unat i)")
  case True
  note b = node_okD(4) [OF closedD(2) [OF assms(1,2)] True]
  have "ename (D (dirn D (unat i))) e \<noteq> nm" if "e < 128" "live (D (dirn D (unat i))) e" for e
    using ename_length [OF dblock_okD(2) [OF b that]] assms(3) by auto
  then show ?thesis using True by (simp add: lookup_map dir_map_None)
qed (simp add: lookup_map)

lemma dir_find_good:
  assumes "fs_upd D s0 s" "closed D" "good D i"
  obtains s' where "dir_find i name s = (dir_entry D (unat i) (cstr name), s')" "fs_upd D s0 s'"
  using dir_find_upd [OF assms(1) closedD(1,2) [OF assms(2,3)]] by blast

lemma cstr_dots [simp]: "cstr dot = dot" "cstr dotdot = dotdot"
  by simp_all

lemma lookup_cases:
  obtains "lookup D i nm = None" "dir_entry D i nm = None" | e c where "lookup D i nm = Some c" "dir_entry D i nm = Some (e, c)"
  by (cases "dir_entry D i nm") (auto simp: lookup_def)

lemma resolve_loop_walk:
  "fs_upd D s0 s \<Longrightarrow> closed D \<Longrightarrow> good D cur \<Longrightarrow>
   \<exists>s'. resolve_loop p cur s = (walk D (comps p) cur, s') \<and> fs_upd D s0 s'"
proof (induction "comps p" arbitrary: p cur s)
  case Nil
  then show ?case using next_component_comps(1) [of p] by (auto simp: resolve_loop.simps [of p])
next
  case (Cons c cs)
  note D = Cons.prems
  show ?case
  proof (cases "length c \<le> 27")
    case True
    obtain p' where p': "next_component p = (1, p', c)" "comps p' = cs"
      using next_component_comps(2) [OF Cons.hyps(2) [symmetric] True] by blast
    have cc: "cstr c = c" using comps_no_zero [of c p] Cons.hyps(2) [symmetric] by simp
    show ?thesis
    proof (cases "c = dot")
      case dot: True
      then show ?thesis using Cons.hyps(1) [OF p'(2) [symmetric] D] p' Cons.hyps(2) [symmetric]
        by (simp add: resolve_loop.simps [of p] str_eq_cstr)
    next
      case False
      let ?nm = "if str_eq c dotdot then dotdot else c"
      have nm: "cstr ?nm = c" using cc by (auto simp: str_eq_cstr)
      obtain s1 where s1: "dir_find cur ?nm s = (dir_entry D (unat cur) c, s1)" "fs_upd D s0 s1"
        using dir_find_good [OF D] nm by metis
      have step: "resolve_loop p cur s = (case (dir_entry D (unat cur) c, s1) of (None, s1) \<Rightarrow> (None, s1)
          | (Some (_, child), s1) \<Rightarrow> resolve_loop p' child s1)"
        unfolding s1(1) [symmetric] resolve_loop.simps [of p] using p' False cc by (simp add: str_eq_cstr)
      show ?thesis
      proof (cases rule: lookup_cases [of D "unat cur" c])
        case 1
        then show ?thesis using step s1(2) Cons.hyps(2) [symmetric] False by simp
      next
        case (2 e ch)
        then show ?thesis using step False Cons.hyps(2) [symmetric] p'(2)
            Cons.hyps(1) [OF p'(2) [symmetric] s1(2) D(2) closedD(3) [OF D(2,3) 2(1)]] by simp
      qed
    qed
  next
    case False
    then have "next_component p = (-2, p, [])" using next_component_comps(3) Cons.hyps(2) [symmetric] by simp
    moreover have "c \<noteq> dot" using False by auto
    ultimately show ?thesis
      using lookup_long [OF D(2,3), of c] False D(1) Cons.hyps(2) [symmetric] by (simp add: resolve_loop.simps [of p])
  qed
qed

text \<open>Where a path starts.\<close>

definition from_dir :: "u8 list \<Rightarrow> u32 \<Rightarrow> u32" where
  "from_dir p cwd = (if char_at p 0 = 0x2F then 0 else cwd)"

lemma good_from: "closed D \<Longrightarrow> good D c \<Longrightarrow> good D (from_dir p c)"
  by (simp add: from_dir_def good_root)

lemma resolve_path_walk:
  assumes "fs_upd D s0 s" "closed D" "good D start"
  shows "\<exists>s'. resolve_path (Some p) start s = (if cstr p = [] then None else walk D (comps p) (from_dir p start), s') \<and> fs_upd D s0 s'"
  using resolve_loop_walk [OF assms(1,2) good_from [OF assms(2,3), of p], of p] assms(1)
  by (auto simp: resolve_path_def from_dir_def char_at_cstr)

subsection \<open>The parent of a path\<close>

text \<open>What the loop of \<^verbatim>\<open>split_parent\<close> computes; a component that is followed by one too long ends it.\<close>

fun split_walk :: "image \<Rightarrow> u8 list list \<Rightarrow> u32 \<Rightarrow> (u32 \<times> u8 list) option" where
  "split_walk D [] cur = Some (cur, [])"
| "split_walk D (c # cs) cur =
     (if 27 < length c then None
      else if c = dot then split_walk D cs cur
      else if c = dotdot \<or> cs \<noteq> [] \<and> length (hd cs) \<le> 27 then
        (case lookup D (unat cur) c of None \<Rightarrow> None | Some child \<Rightarrow> split_walk D cs child)
      else Some (cur, c))"

lemma split_path_loop_walk:
  "fs_upd D s0 s \<Longrightarrow> closed D \<Longrightarrow> good D cur \<Longrightarrow>
   \<exists>s'. split_path_loop p cur s = (split_walk D (comps p) cur, s') \<and> fs_upd D s0 s'"
proof (induction "comps p" arbitrary: p cur s)
  case Nil
  then show ?case using next_component_comps(1) [of p] by (auto simp: split_path_loop.simps [of p])
next
  case (Cons c cs)
  note D = Cons.prems and cs = Cons.hyps(2) [symmetric]
  show ?case
  proof (cases "length c \<le> 27")
    case True
    obtain p' where p': "next_component p = (1, p', c)" "comps p' = cs"
      using next_component_comps(2) [OF cs True] by blast
    have cc: "cstr c = c" using comps_no_zero [of c p] cs by simp
    have more: "fst (next_component p') = 1 \<longleftrightarrow> cs \<noteq> [] \<and> length (hd cs) \<le> 27"
    proof (cases cs)
      case Nil
      then show ?thesis using next_component_comps(1) [of p'] p'(2) by auto
    next
      case (Cons l ls)
      then show ?thesis using next_component_comps(2,3) [of p' l ls] p'(2) by (cases "length l \<le> 27") auto
    qed
    have copy: "copy_str 28 c = c" using copy_str_spec [of c 28] cc True by simp
    consider "c = dot" | "c \<noteq> dot" "c = dotdot \<or> fst (next_component p') = 1" | "c \<noteq> dot" "c \<noteq> dotdot" "fst (next_component p') \<noteq> 1"
      by blast
    then show ?thesis
    proof cases
      case 1
      then show ?thesis using Cons.hyps(1) [OF p'(2) [symmetric] D] p' cs by (simp add: split_path_loop.simps [of p] str_eq_cstr)
    next
      case 2
      obtain s1 where s1: "dir_find cur c s = (dir_entry D (unat cur) c, s1)" "fs_upd D s0 s1"
        using dir_find_good [OF D, of c] cc by metis
      have step: "split_path_loop p cur s = (case (dir_entry D (unat cur) c, s1) of (None, s1) \<Rightarrow> (None, s1)
          | (Some (_, child), s1) \<Rightarrow> split_path_loop p' child s1)"
        unfolding s1(1) [symmetric] split_path_loop.simps [of p] using p' 2 cc by (auto simp: str_eq_cstr)
      show ?thesis
      proof (cases rule: lookup_cases [of D "unat cur" c])
        case 1
        then show ?thesis using step s1(2) cs 2 True more by simp
      next
        case L: (2 e ch)
        then show ?thesis using step cs 2 True more p'(2)
            Cons.hyps(1) [OF p'(2) [symmetric] s1(2) D(2) closedD(3) [OF D(2,3) L(1)]] by simp
      qed
    next
      case 3
      then show ?thesis using p'(1) cs more True copy cc D(1) by (auto simp: split_path_loop.simps [of p] str_eq_cstr)
    qed
  next
    case False
    then have "next_component p = (-2, p, [])" using next_component_comps(3) cs by simp
    then show ?thesis using False D(1) cs by (simp add: split_path_loop.simps [of p])
  qed
qed

lemma split_walk_name:
  "split_walk D cs cur = Some (d, nm) \<Longrightarrow> \<forall>c \<in> set cs. c \<noteq> [] \<and> cstr c = c \<Longrightarrow>
     nm = [] \<or> nm \<in> set cs \<and> length nm \<le> 27 \<and> nm \<noteq> dot \<and> nm \<noteq> dotdot \<and> cstr nm = nm"
  by (induction D cs cur rule: split_walk.induct) (auto split: if_splits option.splits)

lemma split_walk_good: "closed D \<Longrightarrow> good D cur \<Longrightarrow> split_walk D cs cur = Some (d, nm) \<Longrightarrow> good D d"
proof (induction cs arbitrary: cur)
  case (Cons c cs)
  then show ?case using closedD(3) [OF Cons.prems(1,2), of c] by (auto split: if_splits option.splits)
qed simp

text \<open>Without a component that is too long it is the walk to the last directory.\<close>

lemma split_walk_short:
  "\<forall>c \<in> set cs. length c \<le> 27 \<Longrightarrow> cs \<noteq> [] \<Longrightarrow> last cs \<noteq> dot \<Longrightarrow> last cs \<noteq> dotdot \<Longrightarrow>
   split_walk D cs cur = map_option (\<lambda>d. (d, last cs)) (walk D (butlast cs) cur)"
  by (induction cs arbitrary: cur) (auto split: option.splits)

lemma split_walk_dots:
  "\<forall>c \<in> set cs. length c \<le> 27 \<Longrightarrow> cs = [] \<or> last cs = dot \<or> last cs = dotdot \<Longrightarrow> split_walk D cs cur = Some (d, nm) \<Longrightarrow> nm = []"
  by (induction cs arbitrary: cur) (auto split: option.splits if_splits)

text \<open>With one, the component before it is taken for the last.\<close>

lemma split_walk_long:
  "\<forall>c \<in> set cs. length c \<le> 27 \<Longrightarrow> length nm \<le> 27 \<Longrightarrow> nm \<noteq> dot \<Longrightarrow> nm \<noteq> dotdot \<Longrightarrow> 27 < length l \<Longrightarrow>
   split_walk D (cs @ nm # l # ls) cur = map_option (\<lambda>d. (d, nm)) (walk D cs cur)"
proof (induction cs arbitrary: cur)
  case (Cons c cs)
  then show ?case by (cases cs) (auto split: option.splits)
qed auto

definition parent_walk :: "image \<Rightarrow> u8 list \<Rightarrow> u32 \<Rightarrow> (u32 \<times> u8 list) option" where
  "parent_walk D p cwd =
     (if cstr p = [] \<or> 255 < length (cstr p) then None
      else case split_walk D (comps p) (from_dir p cwd) of
        None \<Rightarrow> None | Some (d, nm) \<Rightarrow> if nm = [] then None else Some (d, nm))"

lemma comps_nonempty: "c \<in> set (comps p) \<Longrightarrow> c \<noteq> []"
  by (simp add: comps_def)

lemma parent_walk_name:
  assumes "parent_walk D p cwd = Some (d, nm)"
  shows "nm \<noteq> []" "length nm \<le> 27" "nm \<noteq> dot" "nm \<noteq> dotdot" "cstr nm = nm"
  using assms split_walk_name [of D "comps p" "from_dir p cwd" d nm] comps_nonempty comps_no_zero
  by (fastforce simp: parent_walk_def split: if_splits option.splits)+

lemma parent_walk_good: "closed D \<Longrightarrow> good D cwd \<Longrightarrow> parent_walk D p cwd = Some (d, nm) \<Longrightarrow> good D d"
  using split_walk_good [of D "from_dir p cwd" "comps p" d nm] good_from [of D cwd p]
  by (auto simp: parent_walk_def split: if_splits option.splits)

lemma split_parent_walk:
  assumes "fs_upd D s0 s" "closed D" "good D (f_cwd s)"
  shows "\<exists>s'. split_parent (Some p) s = (parent_walk D p (f_cwd s), s') \<and> fs_upd D s0 s'"
proof (cases "cstr p = [] \<or> 255 < length (cstr p)")
  case True
  then show ?thesis using assms(1) by (auto simp: split_parent_def parent_walk_def char_at_cstr str_len_cstr)
next
  case False
  let ?c = "from_dir p (f_cwd s)"
  have tmp: "copy_str 256 p = cstr p" using copy_str_spec [of p 256] False by simp
  have at: "char_at (cstr p) 0 = char_at p 0" by (cases p) (simp_all add: char_at_def)
  have "comps (cstr p) = comps p" by (simp add: comps_def)
  then obtain s1 where s1: "split_path_loop (cstr p) ?c s = (split_walk D (comps p) ?c, s1)" "fs_upd D s0 s1"
    using split_path_loop_walk [OF assms(1,2) good_from [OF assms(2,3), of p], of "cstr p"] by auto
  have eq: "split_parent (Some p) s = (case (split_walk D (comps p) ?c, s1) of (None, s1) \<Rightarrow> (None, s1)
      | (Some (cur, lst), s1) \<Rightarrow> if str_len lst = 0 \<or> str_eq lst dot \<or> str_eq lst dotdot then (None, s1)
                else (Some (cur, copy_str 28 lst), s1))"
    unfolding s1(1) [symmetric] using False by (simp add: split_parent_def char_at_cstr str_len_cstr tmp from_dir_def at)
  show ?thesis
  proof (cases "split_walk D (comps p) ?c")
    case None
    then show ?thesis using eq s1(2) False by (simp add: parent_walk_def)
  next
    case (Some r)
    obtain d nm where r: "r = (d, nm)" by fastforce
    have "nm = [] \<or> length nm \<le> 27 \<and> nm \<noteq> dot \<and> nm \<noteq> dotdot \<and> cstr nm = nm"
      using split_walk_name [OF Some [unfolded r]] comps_nonempty comps_no_zero by blast
    then show ?thesis using eq s1(2) Some r False copy_str_spec [of nm 28]
      by (auto simp: parent_walk_def str_len_cstr str_eq_cstr)
  qed
qed

end
