(* ===== verification/Fs_Vol.thy ===== *)
theory Fs_Vol
  imports Fs_Path
begin

text \<open>
  The volume: the inodes in use, with their block pointers and directory entries, and the set of blocks the
  bitmap marks as taken. The invariant \<open>vinv\<close> says that the volume is a tree of directories in which no two
  block pointers are equal and every block pointed to is marked. It is stated on the volume, so that what an
  operation leaves in unused inodes and blocks does not matter.
\<close>

subsection \<open>Volumes\<close>

record vnode =
  vn_mode :: u32
  vn_size :: u32
  vn_ptr :: "nat \<Rightarrow> u32"
  vn_ents :: "nat \<rightharpoonup> (u8 list \<times> nat)"

type_synonym volume = "nat \<rightharpoonup> vnode"

text \<open>Slots 0 to 7 are the direct pointers, slot 8 the indirect block, slot \<open>9 + k\<close> its entry \<open>k\<close>.\<close>

definition ptr :: "image \<Rightarrow> inode \<Rightarrow> nat \<Rightarrow> u32" where
  "ptr D n sl = (if sl < 8 then i_direct n ! sl else if sl = 8 then i_indirect n
     else if sl < 1033 \<and> i_indirect n \<noteq> 0 then get32 (D (unat (i_indirect n))) (4 * (sl - 9)) else 0)"

definition ents :: "u8 list \<Rightarrow> nat \<rightharpoonup> (u8 list \<times> nat)" where
  "ents B e = (if e < 128 \<and> live B e then Some (if named B e then ename B e else [], unat (ent_inode B e)) else None)"

definition vnode_of :: "image \<Rightarrow> inode \<Rightarrow> vnode" where
  "vnode_of D n = \<lparr>vn_mode = i_mode n, vn_size = i_size n, vn_ptr = ptr D n,
     vn_ents = (if i_mode n = INODE_DIR then ents (D (unat (i_direct n ! 0))) else Map.empty)\<rparr>"

definition vol :: "image \<Rightarrow> volume" where
  "vol D i = (if i < 64 \<and> used_ino D i then Some (vnode_of D (ino_at D i)) else None)"

definition busy :: "image \<Rightarrow> nat set" where
  "busy D = {b. 6 \<le> b \<and> b < 254 \<and> bm D 2 b}"

definition owns :: "volume \<Rightarrow> nat \<Rightarrow> nat \<Rightarrow> nat \<Rightarrow> bool" where
  "owns N i sl b \<longleftrightarrow> (\<exists>n. N i = Some n \<and> vn_ptr n sl \<noteq> 0 \<and> unat (vn_ptr n sl) = b)"

definition kid :: "volume \<Rightarrow> nat \<Rightarrow> nat \<Rightarrow> nat \<Rightarrow> bool" where
  "kid N d e i \<longleftrightarrow> 2 \<le> e \<and> (\<exists>n nm. N d = Some n \<and> vn_ents n e = Some (nm, i))"

inductive tree :: "volume \<Rightarrow> nat \<Rightarrow> bool" for N where
  root: "tree N 0"
| child: "tree N d \<Longrightarrow> kid N d e i \<Longrightarrow> tree N i"

definition dir_ok :: "volume \<Rightarrow> nat \<Rightarrow> vnode \<Rightarrow> bool" where
  "dir_ok N i n \<longleftrightarrow> vn_ptr n 0 \<noteq> 0 \<and> (\<forall>sl > 0. vn_ptr n sl = 0) \<and> vn_ents n 0 = Some (dot, i)
     \<and> (\<exists>par. vn_ents n 1 = Some (dotdot, par) \<and> (if i = 0 then par = 0 else \<exists>e. kid N par e i))
     \<and> (\<forall>e nm c. vn_ents n e = Some (nm, c) \<longrightarrow> nm \<noteq> [] \<and> c \<in> dom N)
     \<and> (\<forall>e e' nm c c'. vn_ents n e = Some (nm, c) \<and> vn_ents n e' = Some (nm, c') \<longrightarrow> e = e')"

definition file_ok :: "vnode \<Rightarrow> bool" where
  "file_ok n \<longleftrightarrow> vn_mode n = INODE_FILE \<and> vn_size n \<le> 1015808 \<and> vn_ents n = Map.empty"

definition node_inv :: "volume \<Rightarrow> nat \<Rightarrow> vnode \<Rightarrow> bool" where
  "node_inv N i n \<longleftrightarrow> i < 64 \<and> (if vn_mode n = INODE_DIR then dir_ok N i n else file_ok n)"

definition root_ok :: "volume \<Rightarrow> bool" where
  "root_ok N \<longleftrightarrow> (\<exists>r. N 0 = Some r \<and> vn_mode r = INODE_DIR \<and> vn_ptr r 0 = 1)"

definition blocks_ok :: "volume \<Rightarrow> nat set \<Rightarrow> bool" where
  "blocks_ok N U \<longleftrightarrow> U \<subseteq> {6..<254} \<and> (\<forall>i sl b. owns N i sl b \<longrightarrow> b \<in> U \<or> i = 0 \<and> sl = 0 \<and> b = 1)
     \<and> (\<forall>i sl j sl' b. owns N i sl b \<and> owns N j sl' b \<longrightarrow> i = j \<and> sl = sl')"

definition tree_ok :: "volume \<Rightarrow> bool" where
  "tree_ok N \<longleftrightarrow> (\<forall>d e i d' e'. kid N d e i \<and> kid N d' e' i \<longrightarrow> d = d' \<and> e = e') \<and> (\<forall>d e. \<not> kid N d e 0) \<and> (\<forall>i \<in> dom N. tree N i)"

definition vinv :: "volume \<Rightarrow> nat set \<Rightarrow> bool" where
  "vinv N U \<longleftrightarrow> root_ok N \<and> (\<forall>i n. N i = Some n \<longrightarrow> node_inv N i n) \<and> blocks_ok N U \<and> tree_ok N"

lemma vinvD:
  assumes "vinv N U"
  shows "root_ok N" "N i = Some n \<Longrightarrow> node_inv N i n" "blocks_ok N U" "tree_ok N"
  using assms by (auto simp: vinv_def)

lemma blocks_okD:
  assumes "blocks_ok N U"
  shows "U \<subseteq> {6..<254}" "owns N i sl b \<Longrightarrow> b \<in> U \<or> i = 0 \<and> sl = 0 \<and> b = 1"
    "owns N i sl b \<Longrightarrow> owns N j sl' b \<Longrightarrow> i = j \<and> sl = sl'" "owns N i sl b \<Longrightarrow> b \<notin> U \<Longrightarrow> i = 0 \<and> sl = 0 \<and> b = 1"
    "owns N i sl b \<Longrightarrow> 0 < b \<and> b < 254 \<and> (b = 1 \<or> 6 \<le> b)"
proof -
  show "owns N i sl b \<Longrightarrow> 0 < b \<and> b < 254 \<and> (b = 1 \<or> 6 \<le> b)"
    using assms by (fastforce simp: blocks_ok_def)
qed (use assms in \<open>unfold blocks_ok_def, blast+\<close>)

lemma dir_okD:
  assumes "vinv N U" "N i = Some n" "vn_mode n = INODE_DIR"
  shows "dir_ok N i n" "i < 64"
  using vinvD(2) [OF assms(1,2)] assms(3) by (simp_all add: node_inv_def)

lemma file_okD:
  assumes "vinv N U" "N i = Some n" "vn_mode n \<noteq> INODE_DIR"
  shows "file_ok n" "i < 64"
  using vinvD(2) [OF assms(1,2)] assms(3) by (simp_all add: node_inv_def)

lemma ents_dir:
  assumes "vinv N U" "N i = Some n" "vn_ents n e = Some p"
  shows "vn_mode n = INODE_DIR" "dir_ok N i n"
proof -
  show "vn_mode n = INODE_DIR" using file_okD(1) [OF assms(1,2)] assms(3) by (cases "vn_mode n = INODE_DIR") (auto simp: file_ok_def)
  then show "dir_ok N i n" using dir_okD [OF assms(1,2)] by simp
qed

lemma kid_dom: "vinv N U \<Longrightarrow> kid N d e i \<Longrightarrow> i \<in> dom N"
  unfolding kid_def using ents_dir(2) by (metis dir_ok_def)

lemma kid_not_root: "vinv N U \<Longrightarrow> kid N d e i \<Longrightarrow> i \<noteq> 0"
  unfolding vinv_def tree_ok_def by (metis (full_types))

lemma used_tree: "vinv N U \<Longrightarrow> i \<in> dom N \<Longrightarrow> tree N i"
  by (simp add: vinv_def tree_ok_def)

subsection \<open>Adding a node\<close>

lemma tree_mono: "tree N i \<Longrightarrow> (\<And>d e i. kid N d e i \<Longrightarrow> \<exists>e'. kid M d e' i) \<Longrightarrow> tree M i"
proof (induction rule: tree.induct)
  case (child d e i)
  then show ?case by (metis tree.child)
qed (rule tree.root)

lemma dir_okI:
  assumes "vn_ptr n 0 \<noteq> 0 \<and> (\<forall>sl > 0. vn_ptr n sl = 0)" "vn_ents n 0 = Some (dot, i)" "vn_ents n 1 = Some (dotdot, par)"
    "if i = 0 then par = 0 else \<exists>e. kid N par e i" "\<And>e nm c. vn_ents n e = Some (nm, c) \<Longrightarrow> nm \<noteq> [] \<and> c \<in> dom N"
    "\<And>e e' nm c c'. vn_ents n e = Some (nm, c) \<Longrightarrow> vn_ents n e' = Some (nm, c') \<Longrightarrow> e = e'"
  shows "dir_ok N i n"
  unfolding dir_ok_def using assms by blast

lemma dir_okE:
  assumes "dir_ok N i n"
  obtains par where "vn_ptr n 0 \<noteq> 0 \<and> (\<forall>sl > 0. vn_ptr n sl = 0)" "vn_ents n 0 = Some (dot, i)" "vn_ents n 1 = Some (dotdot, par)"
    "if i = 0 then par = 0 else \<exists>e. kid N par e i" "\<And>e nm c. vn_ents n e = Some (nm, c) \<Longrightarrow> nm \<noteq> [] \<and> c \<in> dom N"
    "\<And>e e' nm c c'. vn_ents n e = Some (nm, c) \<Longrightarrow> vn_ents n e' = Some (nm, c') \<Longrightarrow> e = e'"
  using assms unfolding dir_ok_def by blast

lemma dir_ok_mono:
  assumes "dir_ok N i n" "\<And>d e. kid N d e i \<Longrightarrow> \<exists>e'. kid M d e' i" "dom N \<subseteq> dom M"
  shows "dir_ok M i n"
proof (rule dir_okE [OF assms(1)])
  fix par assume a: "vn_ptr n 0 \<noteq> 0 \<and> (\<forall>sl > 0. vn_ptr n sl = 0)" "vn_ents n 0 = Some (dot, i)" "vn_ents n 1 = Some (dotdot, par)"
    and k: "if i = 0 then par = 0 else \<exists>e. kid N par e i"
    and e: "\<And>e nm c. vn_ents n e = Some (nm, c) \<Longrightarrow> nm \<noteq> [] \<and> c \<in> dom N"
    and u: "\<And>e e' nm c c'. vn_ents n e = Some (nm, c) \<Longrightarrow> vn_ents n e' = Some (nm, c') \<Longrightarrow> e = e'"
  have "if i = 0 then par = 0 else \<exists>e. kid M par e i" using k assms(2) by (auto split: if_splits)
  then show ?thesis using a e u assms(3) by (intro dir_okI) blast+
qed

lemma dir_ok_add:
  assumes "dir_ok N d n" "2 \<le> e" "nm \<noteq> []" "\<forall>e' c. vn_ents n e' \<noteq> Some (nm, c)" "i \<in> dom N"
  shows "dir_ok N d (n\<lparr>vn_ents := (vn_ents n)(e \<mapsto> (nm, i))\<rparr>)"
proof (rule dir_okE [OF assms(1)])
  let ?n = "n\<lparr>vn_ents := (vn_ents n)(e \<mapsto> (nm, i))\<rparr>"
  fix par assume a: "vn_ptr n 0 \<noteq> 0 \<and> (\<forall>sl > 0. vn_ptr n sl = 0)" "vn_ents n 0 = Some (dot, d)" "vn_ents n 1 = Some (dotdot, par)"
    and k: "if d = 0 then par = 0 else \<exists>e. kid N par e d"
    and l: "\<And>e nm c. vn_ents n e = Some (nm, c) \<Longrightarrow> nm \<noteq> [] \<and> c \<in> dom N"
    and u: "\<And>e e' nm c c'. vn_ents n e = Some (nm, c) \<Longrightarrow> vn_ents n e' = Some (nm, c') \<Longrightarrow> e = e'"
  show ?thesis
  proof (rule dir_okI [OF _ _ _ k])
    show "x = y" if "vn_ents ?n x = Some (z, c)" "vn_ents ?n y = Some (z, c')" for x y z c c'
      using that assms(4) u [of x z c y c'] by (auto split: if_splits)
    show "z \<noteq> [] \<and> c \<in> dom N" if "vn_ents ?n x = Some (z, c)" for x z c
      using that assms(3,5) l [of x z c] by (auto split: if_splits)
  qed (use a assms(2) in auto)
qed

text \<open>A new inode \<open>i\<close> with one block \<open>b\<close>, entered as entry \<open>e\<close> of directory \<open>d\<close>.\<close>

definition new_node :: "u32 \<Rightarrow> nat \<Rightarrow> nat \<Rightarrow> nat \<Rightarrow> vnode" where
  "new_node mode i d b = \<lparr>vn_mode = mode, vn_size = 0, vn_ptr = (\<lambda>sl. if sl = 0 then of_nat b else 0),
     vn_ents = (if mode = INODE_DIR then [0 \<mapsto> (dot, i), 1 \<mapsto> (dotdot, d)] else Map.empty)\<rparr>"

definition vcreate :: "nat \<Rightarrow> nat \<Rightarrow> u8 list \<Rightarrow> u32 \<Rightarrow> nat \<Rightarrow> nat \<Rightarrow> volume \<Rightarrow> volume" where
  "vcreate d e nm mode i b N =
     N(i \<mapsto> new_node mode i d b, d \<mapsto> (the (N d))\<lparr>vn_ents := (vn_ents (the (N d)))(e \<mapsto> (nm, i))\<rparr>)"

lemma vcreate_vinv:
  assumes v: "vinv N U" and i: "N i = None" "i < 64" and b: "b \<notin> U" "6 \<le> b" "b < 254"
    and d: "N d = Some n" "vn_mode n = INODE_DIR" and e: "vn_ents n e = None" "2 \<le> e"
    and nm: "nm \<noteq> []" "\<forall>e' c. vn_ents n e' \<noteq> Some (nm, c)" and mode: "mode = INODE_DIR \<or> mode = INODE_FILE"
  shows "vinv (vcreate d e nm mode i b N) (insert b U)"
proof -
  let ?M = "vcreate d e nm mode i b N" and ?n = "n\<lparr>vn_ents := (vn_ents n)(e \<mapsto> (nm, i))\<rparr>"
  let ?x = "new_node mode i d b"
  have ne: "d \<noteq> i" "i \<noteq> 0" using d i(1) vinvD(1) [OF v] by (auto simp: root_ok_def intro!: gr0I)
  have M: "?M = N(i \<mapsto> ?x, d \<mapsto> ?n)" by (simp add: vcreate_def d)
  have M': "?M i = Some ?x" "?M d = Some ?n" "\<And>j. j \<noteq> i \<Longrightarrow> j \<noteq> d \<Longrightarrow> ?M j = N j" using ne(1) by (auto simp: M)
  have dom: "dom ?M = insert i (dom N)" using d(1) by (auto simp: M)
  have b32: "(of_nat b :: u32) \<noteq> 0" "unat (of_nat b :: u32) = b" using b by (simp_all add: unat_of_nat word_of_nat_eq_0_iff nat_dvd_not_less)
  have own: "owns ?M j sl c \<longleftrightarrow> owns N j sl c \<or> j = i \<and> sl = 0 \<and> c = b" for j sl c
    using M' i(1) d(1) b32 by (cases "j = i"; cases "j = d") (auto simp: owns_def new_node_def)
  have kid: "kid ?M f e' j \<longleftrightarrow> kid N f e' j \<or> f = d \<and> e' = e \<and> j = i" for f e' j
    using M' i(1) d(1) e by (cases "f = i"; cases "f = d") (auto simp: kid_def new_node_def)
  have noi: "\<not> kid N f e' i" for f e' using kid_dom [OF v] i(1) by blast
  have node: "node_inv ?M j m" if mj: "?M j = Some m" for j m
  proof (cases "j = i")
    case True
    then have "m = ?x" using mj M'(1) by simp
    then show ?thesis using True i(2) b32(1) ne(2) kid [of d e i] d(1) mode dom by (auto simp: node_inv_def dir_ok_def file_ok_def new_node_def)
  next
    case False
    then obtain m0 where m0: "N j = Some m0" using mj M' d by (cases "j = d") auto
    have nd: "node_inv N j m0" using vinvD(2) [OF v m0] .
    show ?thesis
    proof (cases "j = d")
      case True
      then have m: "m = ?n" "m0 = n" using mj M'(2) m0 d(1) by auto
      then have ok: "dir_ok N d n" "d < 64" using nd d(2) True by (simp_all add: node_inv_def)
      have "dir_ok ?M d n" using ok(1) kid dom by (intro dir_ok_mono [OF ok(1)]) auto
      then have "dir_ok ?M d ?n" using nm e(2) dom by (intro dir_ok_add) auto
      then show ?thesis using True m ok(2) d(2) by (simp add: node_inv_def)
    next
      case n: False
      then have "m = m0" using mj False M'(3) m0 by simp
      moreover have "dir_ok N j m0 \<Longrightarrow> dir_ok ?M j m0" using kid dom by (elim dir_ok_mono) auto
      ultimately show ?thesis using nd by (simp add: node_inv_def split: if_splits)
    qed
  qed
  have "blocks_ok ?M (insert b U)"
    using vinvD(3) [OF v] b own unfolding blocks_ok_def by fastforce
  moreover have "root_ok ?M" using vinvD(1) [OF v] ne(2) d M' by (cases "d = 0") (auto simp: root_ok_def)
  moreover have tr: "tree ?M j" if "tree N j" for j by (rule tree_mono [OF that]) (use kid in blast)
  moreover have "tree ?M d" using vinvD(4) [OF v] d(1) by (intro tr) (auto simp: tree_ok_def)
  then have "tree_ok ?M"
    using vinvD(4) [OF v] kid noi ne(2) d(1) dom tree.child [of ?M d e i] tr unfolding tree_ok_def by auto
  ultimately show ?thesis using node by (simp add: vinv_def)
qed

subsection \<open>Removing a node\<close>

text \<open>Inode \<open>i\<close>, entry \<open>e\<close> of directory \<open>d\<close>, goes away with its blocks.\<close>

definition vremove :: "nat \<Rightarrow> nat \<Rightarrow> nat \<Rightarrow> volume \<Rightarrow> volume" where
  "vremove d e i N = (N(d \<mapsto> (the (N d))\<lparr>vn_ents := (vn_ents (the (N d)))(e := None)\<rparr>))(i := None)"

definition owned_set :: "volume \<Rightarrow> nat \<Rightarrow> nat set" where
  "owned_set N i = {b. \<exists>sl. owns N i sl b}"

lemma kid_not_self:
  assumes "vinv N U" "kid N d e i"
  shows "d \<noteq> i"
proof
  assume di: "d = i"
  have u: "\<And>d' e'. kid N d' e' i \<Longrightarrow> d' = i"
    using vinvD(4) [OF assms(1)] assms(2) di unfolding tree_ok_def by blast
  have ni: "i \<noteq> 0" by (rule kid_not_root [OF assms])
  have "tree N j \<Longrightarrow> j \<noteq> i" for j
    by (induction rule: tree.induct) (use u ni in auto)
  then show False using used_tree [OF assms(1) kid_dom [OF assms]] by blast
qed

lemma vremove_vinv:
  assumes v: "vinv N U" and k: "kid N d e i" and n: "N i = Some n" and leaf: "\<forall>e' j. \<not> kid N i e' j"
  shows "vinv (vremove d e i N) (U - owned_set N i)"
proof -
  let ?M = "vremove d e i N"
  obtain nd where nd: "N d = Some nd" and e: "2 \<le> e" using k by (auto simp: kid_def)
  let ?nd = "nd\<lparr>vn_ents := (vn_ents nd)(e := None)\<rparr>"
  have ne: "d \<noteq> i" "i \<noteq> 0" using kid_not_self [OF v k] kid_not_root [OF v k] by auto
  have M: "?M i = None" "?M d = Some ?nd" "\<And>j. j \<noteq> i \<Longrightarrow> j \<noteq> d \<Longrightarrow> ?M j = N j" using ne(1) nd by (auto simp: vremove_def)
  have dom: "dom ?M = dom N - {i}" using nd ne(1) by (auto simp: vremove_def)
  have own: "owns ?M j sl b \<longleftrightarrow> owns N j sl b \<and> j \<noteq> i" for j sl b
    using M nd by (cases "j = i"; cases "j = d") (auto simp: owns_def)
  have uniq: "kid N f e' j \<Longrightarrow> kid N f' e'' j \<Longrightarrow> f = f' \<and> e' = e''" for f e' j f' e''
    using vinvD(4) [OF v] unfolding tree_ok_def by blast
  have kid: "kid ?M f e' j \<longleftrightarrow> kid N f e' j \<and> j \<noteq> i" for f e' j
  proof -
    have a: "kid ?M f e' j \<longleftrightarrow> kid N f e' j \<and> f \<noteq> i \<and> \<not> (f = d \<and> e' = e)"
      using M nd by (cases "f = i"; cases "f = d") (auto simp: kid_def)
    have b: "kid N d e j \<longleftrightarrow> j = i" using k by (auto simp: kid_def)
    show ?thesis using leaf a b uniq [OF k] by blast
  qed
  have node: "node_inv ?M j m" if mj: "?M j = Some m" for j m
  proof -
    have ji: "j \<noteq> i" using mj M(1) by auto
    obtain m0 where m0: "N j = Some m0" "vn_mode m = vn_mode m0" "vn_size m = vn_size m0" "vn_ptr m = vn_ptr m0"
        "vn_ents m = (if j = d then (vn_ents m0)(e := None) else vn_ents m0)"
      using mj M ji nd by (cases "j = d") auto
    have nv: "node_inv N j m0" by (rule vinvD(2) [OF v m0(1)])
    show ?thesis
    proof (cases "vn_mode m0 = INODE_DIR")
      case True
      have dk: "dir_ok N j m0" using nv True by (simp add: node_inv_def)
      have "dir_ok ?M j m"
      proof (rule dir_okE [OF dk])
        fix par assume a: "vn_ptr m0 0 \<noteq> 0 \<and> (\<forall>sl > 0. vn_ptr m0 sl = 0)" "vn_ents m0 0 = Some (dot, j)" "vn_ents m0 1 = Some (dotdot, par)"
          and p: "if j = 0 then par = 0 else \<exists>e. kid N par e j"
          and l: "\<And>e nm c. vn_ents m0 e = Some (nm, c) \<Longrightarrow> nm \<noteq> [] \<and> c \<in> dom N"
          and u: "\<And>e e' nm c c'. vn_ents m0 e = Some (nm, c) \<Longrightarrow> vn_ents m0 e' = Some (nm, c') \<Longrightarrow> e = e'"
        have pi: "par \<noteq> i" using p leaf ne(2) by (auto split: if_splits)
        show ?thesis
        proof (rule dir_okI [of _ _ par])
          show "if j = 0 then par = 0 else \<exists>e. kid ?M par e j" using p kid ji by auto
          show "x = y" if "vn_ents m x = Some (z, c)" "vn_ents m y = Some (z, c')" for x y z c c'
            using that u [of x z c y c'] m0(5) by (auto split: if_splits)
          show "z \<noteq> [] \<and> c \<in> dom ?M" if x: "vn_ents m x = Some (z, c)" for x z c
          proof -
            have x0: "vn_ents m0 x = Some (z, c)" "\<not> (j = d \<and> x = e)" using x m0(5) by (auto split: if_splits)
            have "c \<noteq> i"
            proof (cases "2 \<le> x")
              case True
              then have "kid N j x c" using m0(1) x0(1) by (auto simp: kid_def)
              then show ?thesis using uniq [OF k] x0(2) by blast
            next
              case False
              then have "x = 0 \<or> x = 1" by auto
              then show ?thesis using x0(1) a ji pi by auto
            qed
            then show ?thesis using l [OF x0(1)] dom by simp
          qed
        qed (use a m0 e in auto)
      qed
      then show ?thesis using True m0(2) nv by (simp add: node_inv_def)
    next
      case False
      then show ?thesis using nv m0 by (auto simp: node_inv_def file_ok_def)
    qed
  qed
  have "blocks_ok ?M (U - owned_set N i)"
    using blocks_okD(1-3) [OF vinvD(3) [OF v]] own unfolding blocks_ok_def owned_set_def by blast
  moreover have "root_ok ?M" using vinvD(1) [OF v] ne(2) nd M by (cases "d = 0") (auto simp: root_ok_def)
  moreover have "tree N j \<Longrightarrow> j \<noteq> i \<Longrightarrow> tree ?M j" for j
  proof (induction rule: tree.induct)
    case (child f e' j)
    then show ?case using leaf kid tree.child [of ?M f e' j] by blast
  qed (rule tree.root)
  then have "tree_ok ?M" using vinvD(4) [OF v] kid dom unfolding tree_ok_def by auto
  ultimately show ?thesis using node by (simp add: vinv_def)
qed

subsection \<open>Changing a file\<close>

text \<open>
  A file gets a new size and new pointers; \<open>U'\<close> is the set of blocks taken afterwards. Nothing else changes
  in the tree.
\<close>

definition vfile :: "nat \<Rightarrow> vnode \<Rightarrow> volume \<Rightarrow> volume" where
  "vfile i n N = N(i \<mapsto> n)"

lemma vfile_vinv:
  assumes v: "vinv N U" and n: "N i = Some n" "vn_mode n = INODE_FILE" and m: "file_ok m"
    and U: "U' \<subseteq> {6..<254}" "U - owned_set N i \<subseteq> U'"
    and p: "\<And>sl. vn_ptr m sl \<noteq> 0 \<Longrightarrow> unat (vn_ptr m sl) \<in> U' \<and> unat (vn_ptr m sl) \<notin> U - owned_set N i"
    and inj: "\<And>sl sl'. vn_ptr m sl \<noteq> 0 \<Longrightarrow> vn_ptr m sl = vn_ptr m sl' \<Longrightarrow> sl = sl'"
  shows "vinv (vfile i m N) U'"
proof -
  let ?M = "vfile i m N"
  have i0: "i \<noteq> 0" using n vinvD(1) [OF v] by (auto simp: root_ok_def intro!: gr0I)
  have em: "vn_ents n = Map.empty" using file_okD(1) [OF v n(1)] n(2) by (simp add: file_ok_def)
  have dom: "dom ?M = dom N" using n by (auto simp: vfile_def)
  have own: "owns ?M j sl b \<longleftrightarrow> (if j = i then vn_ptr m sl \<noteq> 0 \<and> unat (vn_ptr m sl) = b else owns N j sl b)" for j sl b
    by (auto simp: owns_def vfile_def)
  have kid: "kid ?M f e' j \<longleftrightarrow> kid N f e' j" for f e' j
    using n(1) em m by (auto simp: kid_def vfile_def file_ok_def)
  have node: "node_inv ?M j x" if mj: "?M j = Some x" for j x
  proof (cases "j = i")
    case True
    then show ?thesis using mj m file_okD(2) [OF v n(1)] n(2) by (auto simp: node_inv_def vfile_def file_ok_def)
  next
    case False
    then have "node_inv N j x" using mj vinvD(2) [OF v] by (simp add: vfile_def)
    moreover have "dir_ok N j x \<Longrightarrow> dir_ok ?M j x" using kid dom by (elim dir_ok_mono) auto
    ultimately show ?thesis by (simp add: node_inv_def split: if_splits)
  qed
  note B = blocks_okD(1-3) [OF vinvD(3) [OF v]]
  have other: "b \<in> U - owned_set N i \<or> j = 0 \<and> sl = 0 \<and> b = 1" if "owns N j sl b" "j \<noteq> i" for j sl b
  proof -
    have "b \<notin> owned_set N i" using that B(3) unfolding owned_set_def by blast
    then show ?thesis using B(2) [OF that(1)] by blast
  qed
  have "blocks_ok ?M U'"
    unfolding blocks_ok_def
  proof (intro conjI allI impI)
    fix j sl b assume "owns ?M j sl b"
    then show "b \<in> U' \<or> j = 0 \<and> sl = 0 \<and> b = 1" using own p other [of j sl b] U(2) by (cases "j = i") auto
  next
    fix j sl j' sl' b assume "owns ?M j sl b \<and> owns ?M j' sl' b"
    then have o: "owns ?M j sl b" "owns ?M j' sl' b" by simp_all
    have x: "j' = i \<and> sl = sl'" if a: "j = i" and o: "owns ?M j sl b" "owns ?M j' sl' b" for j j' sl sl'
    proof (cases "j' = i")
      case True
      then show ?thesis using o a inj [of sl sl'] own by (auto simp: word_unat_eq_iff)
    next
      case False
      have "b \<in> U'" "b \<notin> U - owned_set N i" using o(1) a own p [of sl] by auto
      moreover have "b \<in> U - owned_set N i \<or> b = 1" using o(2) False own other [of j' sl' b] by auto
      ultimately have False using U(1) by auto
      then show ?thesis ..
    qed
    have "j = j' \<and> sl = sl'"
    proof (cases "j = i \<or> j' = i")
      case True
      then show ?thesis using x [of j sl j' sl'] x [of j' sl' j sl] o by blast
    next
      case False
      then show ?thesis using o own by (intro B(3) [of j sl b]) simp_all
    qed
    then show "j = j'" "sl = sl'" by simp_all
  qed (rule U(1))
  moreover have "root_ok ?M" using vinvD(1) [OF v] i0 by (auto simp: root_ok_def vfile_def)
  moreover have "tree N j \<Longrightarrow> tree ?M j" for j by (erule tree_mono) (use kid in blast)
  then have "tree_ok ?M" using vinvD(4) [OF v] kid dom unfolding tree_ok_def by auto
  ultimately show ?thesis using node by (simp add: vinv_def)
qed

end
