(* ===== verification/Fs_Inv.thy ===== *)
theory Fs_Inv
  imports Fs_Vol
begin

text \<open>
  The invariant of the file system and the operations that change the tree: creating and removing files and
  directories. Each one is shown to be the corresponding change of the volume; on every error the volume is
  unchanged.
\<close>

unbundle bit_operations_syntax

subsection \<open>Images and volumes\<close>

definition wf_img :: "image \<Rightarrow> bool" where
  "wf_img D \<longleftrightarrow> (\<forall>b < 254. length (D b) = 4096)"

definition img_inv :: "image \<Rightarrow> bool" where
  "img_inv D \<longleftrightarrow> wf_img D \<and> vinv (vol D) (busy D)"

lemma wf_imgD: "wf_img D \<Longrightarrow> b < 254 \<Longrightarrow> length (D b) = 4096"
  by (simp add: wf_img_def)

lemma fs_upd_wf: "fs_upd D s s' \<Longrightarrow> wf_img D"
  by (simp add: wf_img_def)

lemma img_invD: "img_inv D \<Longrightarrow> vinv (vol D) (busy D)" "img_inv D \<Longrightarrow> wf_img D"
  by (simp_all add: img_inv_def)

lemma vol_Some: "vol D i = Some n \<longleftrightarrow> i < 64 \<and> used_ino D i \<and> n = vnode_of D (ino_at D i)"
  by (auto simp: vol_def)

lemma good_dom: "good D c \<longleftrightarrow> unat c \<in> dom (vol D)"
  by (auto simp: good_def vol_def word_less_nat_alt split: if_splits)

lemma vnode_fields [simp]:
  "vn_mode (vnode_of D n) = i_mode n" "vn_size (vnode_of D n) = i_size n" "vn_ptr (vnode_of D n) = ptr D n"
  by (simp_all add: vnode_of_def)

lemma ptr_direct [simp]: "sl < 8 \<Longrightarrow> ptr D n sl = i_direct n ! sl" "ptr D n 8 = i_indirect n"
  by (simp_all add: ptr_def)

lemma is_dir_mode: "is_dir D i \<longleftrightarrow> i_mode (ino_at D i) = INODE_DIR"
  by (simp add: is_dir_def)

lemma vol_dir:
  assumes "img_inv D" "i < 64" "used_ino D i" "is_dir D i"
  shows "owns (vol D) i 0 (dirn D i)" "dir_ok (vol D) i (vnode_of D (ino_at D i))"
    "vn_ents (vnode_of D (ino_at D i)) = ents (D (dirn D i))"
proof -
  have v: "vol D i = Some (vnode_of D (ino_at D i))" using assms by (simp add: vol_def)
  show d: "dir_ok (vol D) i (vnode_of D (ino_at D i))"
    using dir_okD(1) [OF img_invD(1) [OF assms(1)] v] assms(4) by (simp add: is_dir_def)
  show "owns (vol D) i 0 (dirn D i)" using v d by (auto simp: owns_def dir_ok_def dirn_def)
  show "vn_ents (vnode_of D (ino_at D i)) = ents (D (dirn D i))" using assms(4) by (simp add: vnode_of_def is_dir_def dirn_def)
qed

lemma ents_Some:
  "ents B e = Some (nm, c) \<Longrightarrow> nm \<noteq> [] \<Longrightarrow> e < 128 \<and> live B e \<and> named B e \<and> ename B e = nm \<and> unat (ent_inode B e) = c"
  by (auto simp: ents_def split: if_splits)

lemma inv_block_ok:
  assumes "img_inv D" "i < 64" "used_ino D i" "is_dir D i"
  shows "0 < dirn D i" "dirn D i < 254" "dirn D i = 1 \<or> 6 \<le> dirn D i" "dblock_ok (D (dirn D i))"
proof -
  note v = vol_dir [OF assms]
  show b: "0 < dirn D i" "dirn D i < 254" "dirn D i = 1 \<or> 6 \<le> dirn D i"
    using blocks_okD(5) [OF vinvD(3) [OF img_invD(1) [OF assms(1)]] v(1)] by auto
  let ?B = "D (dirn D i)"
  show "dblock_ok ?B"
  proof (rule dir_okE [OF v(2)], unfold v(3))
    fix par assume l: "\<And>e nm c. ents ?B e = Some (nm, c) \<Longrightarrow> nm \<noteq> [] \<and> c \<in> dom (vol D)"
      and u: "\<And>e e' nm c c'. ents ?B e = Some (nm, c) \<Longrightarrow> ents ?B e' = Some (nm, c') \<Longrightarrow> e = e'"
    have n: "named ?B e \<and> ename ?B e \<noteq> []" if "e < 128" "live ?B e" for e
      using that l [of e] by (auto simp: ents_def split: if_splits)
    then show ?thesis using wf_imgD [OF img_invD(2) [OF assms(1)] b(2)] u unfolding dblock_ok_def by (auto simp: ents_def)
  qed
qed

lemma inv_closed:
  assumes "img_inv D"
  shows "closed D"
proof -
  have r: "used_ino D 0" using vinvD(1) [OF img_invD(1) [OF assms]] by (auto simp: root_ok_def vol_def split: if_splits)
  have "node_ok D i" if i: "i < 64" "used_ino D i" for i
    using inv_block_ok [OF assms i] by (auto simp: node_ok_def)
  moreover have "unat c < 64 \<and> used_ino D (unat c)" if i: "i < 64" "used_ino D i" and l: "lookup D i nm = Some c" for i nm c
  proof -
    have d: "is_dir D i" using l by (auto simp: lookup_map split: if_splits)
    note b = inv_block_ok(4) [OF assms i d] and v = vol_dir [OF assms i d]
    obtain e where "e < 128" "live (D (dirn D i)) e" "ent_inode (D (dirn D i)) e = c"
      using l d dir_map_Some [OF b] by (auto simp: lookup_map)
    then have "\<exists>nm. ents (D (dirn D i)) e = Some (nm, unat c)" by (simp add: ents_def)
    then have "unat c \<in> dom (vol D)" using v(2,3) unfolding dir_ok_def by metis
    then show ?thesis by (auto simp: vol_def split: if_splits)
  qed
  ultimately show ?thesis using r by (auto simp: closed_def)
qed

text \<open>Images that agree outside a set of blocks.\<close>

lemma vnode_agree:
  assumes "\<And>c. c \<notin> S \<Longrightarrow> E c = D c" "i_mode n = INODE_DIR \<Longrightarrow> unat (i_direct n ! 0) \<notin> S"
    "i_indirect n \<noteq> 0 \<Longrightarrow> unat (i_indirect n) \<notin> S"
  shows "vnode_of E n = vnode_of D n"
  using assms by (auto simp: vnode_of_def ptr_def fun_eq_iff)

lemma vol_agree:
  assumes "vol D i = Some n" "\<And>c. c \<notin> S \<Longrightarrow> E c = D c" "\<And>sl b. owns (vol D) i sl b \<Longrightarrow> b \<notin> S"
    "i_mode (ino_at D i) = INODE_DIR \<Longrightarrow> i_direct (ino_at D i) ! 0 \<noteq> 0"
  shows "vnode_of E (ino_at D i) = vnode_of D (ino_at D i)"
proof (rule vnode_agree [OF assms(2)])
  have "vnode_of D (ino_at D i) = n" using assms(1) by (simp add: vol_Some)
  then have o: "owns (vol D) i sl (unat (ptr D (ino_at D i) sl))" if "ptr D (ino_at D i) sl \<noteq> 0" for sl
    using assms(1) that by (auto simp: owns_def)
  show "i_mode (ino_at D i) = INODE_DIR \<Longrightarrow> unat (i_direct (ino_at D i) ! 0) \<notin> S" using o [of 0] assms(3,4) by auto
  show "i_indirect (ino_at D i) \<noteq> 0 \<Longrightarrow> unat (i_indirect (ino_at D i)) \<notin> S" using o [of 8] assms(3) by auto
qed

lemma dir_first: "img_inv D \<Longrightarrow> vol D i = Some n \<Longrightarrow> i_mode (ino_at D i) = INODE_DIR \<Longrightarrow> i_direct (ino_at D i) ! 0 \<noteq> 0"
  using inv_block_ok(1) [of D i] by (auto simp: vol_Some is_dir_def dirn_def)

lemma bm_set_cancel:
  assumes "\<not> bm D b k" "k < 32768" "length (D b) = 4096"
  shows "bm_set b k False (bm_set b k True D) = D"
proof -
  let ?x = "D b ! (k div 8)" and ?r = "k mod 8"
  have "(?x OR ucast ((2 :: u32) ^ ?r)) AND ucast (NOT ((2 :: u32) ^ ?r)) = ?x"
    using assms(1) by (intro bit_word_eqI) (auto simp: bm_def bit_u8_set bit_u8_clear)
  moreover have "k div 8 < 4096" using assms(2) by linarith
  ultimately show ?thesis using assms(3) by (simp add: bm_set_def)
qed

subsection \<open>Entries\<close>

lemma ents_eqI:
  assumes "\<And>e. e < 128 \<Longrightarrow> ent_inode B e = ent_inode C e \<and> (live B e \<longrightarrow> named B e = named C e \<and> ename B e = ename C e)"
  shows "ents B = ents C"
  using assms by (auto simp: ents_def fun_eq_iff)

lemma ents_set_entry:
  assumes "length B = 4096" "e < 128" "length (cstr nm) < 28" "c \<noteq> FS_INVALID_INODE"
  shows "ents (set_entry e nm c B) = (ents B)(e \<mapsto> (cstr nm, unat c))"
proof
  fix x
  note s = set_entry_bytes [OF assms(1-3)]
  show "ents (set_entry e nm c B) x = ((ents B)(e \<mapsto> (cstr nm, unat c))) x"
  proof (cases "x = e")
    case True
    then show ?thesis using s(3-5) assms by (simp add: ents_def)
  next
    case False
    show ?thesis
    proof (cases "x < 128")
      case x: True
      have "set_entry e nm c B ! j = B ! j" if "x * 32 \<le> j" "j < x * 32 + 32" for j
      proof -
        have "j < e * 32 \<or> e * 32 + 32 \<le> j" using False that by linarith
        then show ?thesis by (rule s(2))
      qed
      then show ?thesis using False entry_cong [OF s(1) assms(1) x] by (simp add: ents_def)
    qed (use False in \<open>simp add: ents_def\<close>)
  qed
qed

lemma ents_fill_entry:
  assumes "length B = 4096" "e < 128" "length (cstr nm) < 28" "c \<noteq> FS_INVALID_INODE"
  shows "ents (fill_entry e nm c B) = (ents B)(e \<mapsto> (cstr nm, unat c))"
  using fill_entry_spec [OF assms(1-3)] assms by (auto simp: ents_def fun_eq_iff)

lemma ents_clear_entry:
  assumes "length B = 4096" "e < 128"
  shows "ents (clear_entry e B) = (ents B)(e := None)"
  using clear_entry_spec [OF assms] by (auto simp: ents_def fun_eq_iff)

lemma fold_put32:
  "(\<forall>i < n. k i + 4 \<le> length b) \<Longrightarrow> (\<forall>i < n. \<forall>j < n. i \<noteq> j \<longrightarrow> k i + 4 \<le> k j \<or> k j + 4 \<le> k i) \<Longrightarrow>
   length (fold (\<lambda>i b. put32 (k i) w b) [0..<n] b) = length b \<and>
   (\<forall>i < n. get32 (fold (\<lambda>i b. put32 (k i) w b) [0..<n] b) (k i) = w)"
proof (induction n)
  case (Suc n)
  let ?f = "fold (\<lambda>i b. put32 (k i) w b) [0..<n] b"
  have IH: "length ?f = length b" "\<forall>i < n. get32 ?f (k i) = w" using Suc by auto
  have "get32 (put32 (k n) w ?f) (k i) = w" if "i < Suc n" for i
  proof (cases "i = n")
    case True
    then show ?thesis using IH(1) Suc.prems(1) by (simp add: get32_put32_same)
  next
    case False
    then have "k i + 4 \<le> k n \<or> k n + 4 \<le> k i" using Suc.prems(2) that by simp
    then show ?thesis using IH(2) that False by (simp add: get32_put32_other)
  qed
  then show ?case using IH(1) by simp
qed simp

lemma no_entries_spec:
  assumes "length b = 4096"
  shows "length (no_entries b) = 4096" "ents (no_entries b) = Map.empty"
proof -
  have "i * 32 + 28 + 4 \<le> j * 32 + 28 \<or> j * 32 + 28 + 4 \<le> i * 32 + (28 :: nat)" if "i \<noteq> j" for i j :: nat
    using that by linarith
  then have a: "\<forall>i < 128. \<forall>j < 128. i \<noteq> j \<longrightarrow> i * 32 + 28 + 4 \<le> j * 32 + 28 \<or> j * 32 + 28 + 4 \<le> i * 32 + (28 :: nat)" by blast
  have l: "\<forall>i < 128. i * 32 + 28 + 4 \<le> length (mem_zero 0 4096 b)" using assms by auto
  have "length (no_entries b) = 4096 \<and> (\<forall>e < 128. ent_inode (no_entries b) e = FS_INVALID_INODE)"
    using fold_put32 [of 128 "\<lambda>i. i * 32 + 28", OF l a, of FS_INVALID_INODE] assms
    unfolding no_entries_def ent_inode_def length_mem_zero by simp
  then show "length (no_entries b) = 4096" "ents (no_entries b) = Map.empty" by (auto simp: ents_def fun_eq_iff)
qed

lemma dot_entries_spec:
  assumes "length b = 4096" "x \<noteq> FS_INVALID_INODE" "y \<noteq> FS_INVALID_INODE"
  shows "length (dot_entries x y (no_entries b)) = 4096"
    "ents (dot_entries x y (no_entries b)) = [0 \<mapsto> (dot, unat x), 1 \<mapsto> (dotdot, unat y)]"
proof -
  note n = no_entries_spec [OF assms(1)]
  have a: "length (set_entry 0 dot x (no_entries b)) = 4096" "ents (set_entry 0 dot x (no_entries b)) = [0 \<mapsto> (dot, unat x)]"
    using set_entry_bytes(1) [of "no_entries b" 0 dot x] ents_set_entry [of "no_entries b" 0 dot x] n assms(2) by simp_all
  then show "length (dot_entries x y (no_entries b)) = 4096"
    "ents (dot_entries x y (no_entries b)) = [0 \<mapsto> (dot, unat x), 1 \<mapsto> (dotdot, unat y)]"
    using set_entry_bytes(1) [of "set_entry 0 dot x (no_entries b)" 1 dotdot y]
      ents_set_entry [of "set_entry 0 dot x (no_entries b)" 1 dotdot y] assms(3) by (simp_all add: dot_entries_def)
qed

subsection \<open>Creating\<close>

definition new_inode :: "u32 \<Rightarrow> nat \<Rightarrow> inode" where
  "new_inode mode b = zero_inode\<lparr>i_mode := mode, i_direct := (replicate 8 0)[0 := of_nat b]\<rparr>"

lemma vnode_new:
  assumes "mode = INODE_DIR \<Longrightarrow> ents (E b) = [0 \<mapsto> (dot, i), 1 \<mapsto> (dotdot, d)]" "b < 254"
  shows "vnode_of E (new_inode mode b) = new_node mode i d b"
proof -
  have "ptr E (new_inode mode b) = (\<lambda>sl. if sl = 0 then of_nat b else 0)"
    by (auto simp: fun_eq_iff ptr_def new_inode_def zero_inode_def nth_list_update)
  moreover have "unat (i_direct (new_inode mode b) ! 0) = b" using assms(2) by (simp add: new_inode_def unat_of_nat)
  ultimately show ?thesis using assms(1) by (simp add: vnode_of_def new_node_def) (simp add: new_inode_def zero_inode_def)
qed

lemma create_vol:
  assumes inv: "img_inv D" and d: "d < 64" "used_ino D d" "is_dir D d" and i: "i < 64" "\<not> used_ino D i"
    and b: "b \<notin> busy D" "6 \<le> b" "b < 254" and e: "e < 128" and nm: "length (cstr nm) < 28"
    and agree: "\<And>c. c \<notin> {2, 3, 4, b, dirn D d} \<Longrightarrow> E c = D c"
    and used: "\<And>j. j < 64 \<Longrightarrow> used_ino E j \<longleftrightarrow> used_ino D j \<or> j = i" and ino: "\<And>j. j < 64 \<Longrightarrow> ino_at E j = (if j = i then new_inode mode b else ino_at D j)"
    and blk: "mode = INODE_DIR \<Longrightarrow> ents (E b) = [0 \<mapsto> (dot, i), 1 \<mapsto> (dotdot, d)]"
    and dir: "E (dirn D d) = fill_entry e nm (of_nat i) (D (dirn D d))"
  shows "vol E = vcreate d e (cstr nm) mode i b (vol D)"
proof
  fix j
  note bd = inv_block_ok [OF inv d] and vd = vol_dir [OF inv d]
  have vD: "vol D d = Some (vnode_of D (ino_at D d))" "vol D i = None" using d i by (simp_all add: vol_def)
  have ci: "(of_nat i :: u32) \<noteq> FS_INVALID_INODE" "unat (of_nat i :: u32) = i" using i(1) by (simp_all add: unat_of_nat word_unat_eq_iff)
  show "vol E j = vcreate d e (cstr nm) mode i b (vol D) j"
  proof (cases "j = i \<or> j = d")
    case True
    then show ?thesis
    proof
      assume j: "j = i"
      then have "vol E j = Some (vnode_of E (new_inode mode b))" using i(1) used ino by (simp add: vol_def)
      then show ?thesis using j d i vnode_new [where E = E and mode = mode and b = b and i = i and d = d] blk b(3)
        by (auto simp: vcreate_def)
    next
      assume j: "j = d"
      let ?n = "ino_at D d"
      have n: "ino_at E d = ?n" using ino d i by auto
      have ind: "i_indirect ?n = 0" using vd(2) by (metis dir_ok_def ptr_direct(2) vnode_fields(3) zero_less_numeral)
      have "vnode_of E ?n = (vnode_of D ?n)\<lparr>vn_ents := (ents (D (dirn D d)))(e \<mapsto> (cstr nm, i))\<rparr>"
        using d(3) ind dir ents_fill_entry [of "D (dirn D d)" e nm "of_nat i"] dblock_okD(1) [OF bd(4)] e nm ci
        by (simp add: vnode_of_def ptr_def is_dir_def dirn_def fun_eq_iff)
      then show ?thesis using j d used vd(3) vD n by (simp add: vcreate_def) (simp add: vol_def)
    qed
  next
    case False
    show ?thesis
    proof (cases "vol D j")
      case None
      then show ?thesis using False used by (auto simp: vcreate_def vol_def split: if_splits)
    next
      case (Some m)
      have ns: "x \<notin> {2, 3, 4, b, dirn D d}" if o: "owns (vol D) j sl x" for sl x
        using blocks_okD(2,5) [OF vinvD(3) [OF img_invD(1) [OF inv]] o]
          blocks_okD(3) [OF vinvD(3) [OF img_invD(1) [OF inv]] o, of d 0] vd(1) b False by auto
      have "vnode_of E (ino_at D j) = vnode_of D (ino_at D j)"
        by (rule vol_agree [OF Some agree ns dir_first [OF inv Some]])
      then show ?thesis using Some False used ino by (auto simp: vcreate_def vol_def split: if_splits)
    qed
  qed
qed

lemma vol_same:
  assumes inv: "img_inv D" and agree: "\<And>c. c \<notin> {2, 3, 4, b} \<Longrightarrow> E c = D c" and b: "b \<notin> busy D" "b \<noteq> 1"
    and used: "\<And>j. j < 64 \<Longrightarrow> used_ino E j = used_ino D j" and ino: "\<And>j. j < 64 \<Longrightarrow> used_ino D j \<Longrightarrow> ino_at E j = ino_at D j"
  shows "vol E = vol D"
proof
  fix j
  show "vol E j = vol D j"
  proof (cases "vol D j")
    case None
    then show ?thesis using used by (auto simp: vol_def split: if_splits)
  next
    case (Some m)
    have ns: "x \<notin> {2, 3, 4, b}" if o: "owns (vol D) j sl x" for sl x
      using blocks_okD(2,5) [OF vinvD(3) [OF img_invD(1) [OF inv]] o] b by auto
    have "vnode_of E (ino_at D j) = vnode_of D (ino_at D j)"
      by (rule vol_agree [OF Some agree ns dir_first [OF inv Some]])
    then show ?thesis using Some used ino by (auto simp: vol_def split: if_splits)
  qed
qed

lemma busy_eq: "(\<And>k. 6 \<le> k \<Longrightarrow> k < 254 \<Longrightarrow> bm E 2 k = bm D 2 k) \<Longrightarrow> busy E = busy D"
  by (auto simp: busy_def)

definition empty_dir :: "u8 list" where
  "empty_dir = no_entries zeros"

definition first_block :: "u32 \<Rightarrow> u32 \<Rightarrow> u32 \<Rightarrow> u8 list" where
  "first_block mode ino parent = (if mode = INODE_DIR then dot_entries ino parent empty_dir else empty_dir)"

lemma no_entries_any: "length b = 4096 \<Longrightarrow> no_entries b = empty_dir"
  by (simp add: no_entries_def empty_dir_def mem_zero_all)

text \<open>The image before the entry is added.\<close>

definition make_node :: "u32 \<Rightarrow> u32 \<Rightarrow> nat \<Rightarrow> nat \<Rightarrow> image \<Rightarrow> image" where
  "make_node mode parent i b D =
     (set_ino i (new_inode mode b) (take_block b (bm_set 3 i True D)))(b := first_block mode (of_nat i) parent)"

lemma make_node_spec:
  assumes wf: "wf_img D" and i: "i < 64" and b: "6 \<le> b" "b < 254"
  shows "c \<notin> {2, 3, 4, b} \<Longrightarrow> make_node mode parent i b D c = D c"
    "bm (make_node mode parent i b D) 3 j \<longleftrightarrow> bm D 3 j \<or> j = i" "bm (make_node mode parent i b D) 2 k \<longleftrightarrow> bm D 2 k \<or> k = b"
    "ino_at (make_node mode parent i b D) j = (if j = i then new_inode mode b else ino_at D j)"
    "make_node mode parent i b D b = first_block mode (of_nat i) parent"
proof -
  have l: "length (D 2) = 4096" "length (D 3) = 4096" "length (D 4) = 4096" using wf by (simp_all add: wf_img_def)
  have n: "length (i_direct (new_inode mode b)) = 8" by (simp add: new_inode_def)
  show "c \<notin> {2, 3, 4, b} \<Longrightarrow> make_node mode parent i b D c = D c" by (simp add: make_node_def take_block_def)
  show "bm (make_node mode parent i b D) 3 j \<longleftrightarrow> bm D 3 j \<or> j = i" "bm (make_node mode parent i b D) 2 k \<longleftrightarrow> bm D 2 k \<or> k = b"
    "ino_at (make_node mode parent i b D) j = (if j = i then new_inode mode b else ino_at D j)"
    using l i b n by (simp_all add: make_node_def take_block_def)
  show "make_node mode parent i b D b = first_block mode (of_nat i) parent" by (simp add: make_node_def)
qed

definition create_result :: "image \<Rightarrow> nat \<Rightarrow> u8 list \<Rightarrow> int + u32" where
  "create_result D d nm =
     (if lookup D d nm \<noteq> None then Inl (-2)
      else case inode_scan D of None \<Rightarrow> Inl (-3)
      | Some i \<Rightarrow> (case free_scan D of None \<Rightarrow> Inl (-4)
        | Some b \<Rightarrow> if is_dir D d \<and> free_entry D d \<noteq> None then Inr (of_nat i) else Inl (-5)))"

text \<open>The volume after a call; on an error nothing in it has changed.\<close>

definition create_effect :: "image \<Rightarrow> nat \<Rightarrow> u8 list \<Rightarrow> u32 \<Rightarrow> image \<Rightarrow> bool" where
  "create_effect D d nm mode E \<longleftrightarrow>
     (case create_result D d nm of
        Inl _ \<Rightarrow> vol E = vol D \<and> busy E = busy D
      | Inr c \<Rightarrow> (\<exists>e b. free_entry D d = Some e \<and> free_scan D = Some b
          \<and> vol E = vcreate d e nm mode (unat c) b (vol D) \<and> busy E = insert b (busy D)))
     \<and> (\<forall>b \<in> busy D. b \<noteq> dirn D d \<longrightarrow> E b = D b)"

lemma create_inode_alloc:
  assumes U: "fs_upd D s0 s" and p: "parent < 64" and sc: "inode_scan D = Some i" "free_scan D = Some b"
  shows "\<exists>s2 s3 s4 s7. alloc_inode s = (Some i, s2) \<and> alloc_block s2 = (Some b, s3)
    \<and> inode_write (of_nat i) (new_inode mode b) s3 = s4
    \<and> write_block (of_nat b) (first_block mode (of_nat i) parent)
         (s4\<lparr>f_buf := (if mode = INODE_DIR then dot_entries (of_nat i) parent (no_entries (f_buf s4)) else no_entries (f_buf s4))\<rparr>) = (0, s7)
    \<and> (if mode = INODE_DIR then dot_entries (of_nat i) parent (no_entries (f_buf s4)) else no_entries (f_buf s4)) = first_block mode (of_nat i) parent
    \<and> fs_upd (make_node mode parent i b D) s0 s7"
proof -
  have wf: "wf_img D" by (rule fs_upd_wf [OF U])
  have i: "i < 64" and b: "6 \<le> b" "b < 254" using sc by (auto simp: scan_Some_iff)
  have i32: "(of_nat i :: u32) < 64" "unat (of_nat i :: u32) = i" "(of_nat i :: u32) \<noteq> FS_INVALID_INODE"
    using i by (simp_all add: unat_of_nat word_less_nat_alt word_unat_eq_iff)
  have p': "parent \<noteq> FS_INVALID_INODE" using p by auto
  obtain s2 where s2: "alloc_inode s = (Some i, s2)" "fs_upd (bm_set 3 i True D) s0 s2"
    using alloc_inode_upd [OF U] sc(1) by auto
  have "free_scan (bm_set 3 i True D) = Some b" using sc(2) wf i by (simp add: wf_img_def)
  then obtain s3 where s3: "alloc_block s2 = (Some b, s3)" "fs_upd (take_block b (bm_set 3 i True D)) s0 s3"
    using alloc_block_upd [OF s2(2)] by auto
  let ?s4 = "inode_write (of_nat i) (new_inode mode b) s3"
  have s4: "fs_upd (set_ino i (new_inode mode b) (take_block b (bm_set 3 i True D))) s0 ?s4"
    using inode_write_upd [OF s3(2) i32(1)] i32(2) by simp
  have l4: "length (f_buf ?s4) = 4096" using s4 by (simp add: fs_upd_def fs_ok_def)
  have blk: "(if mode = INODE_DIR then dot_entries (of_nat i) parent (no_entries (f_buf ?s4)) else no_entries (f_buf ?s4))
      = first_block mode (of_nat i) parent" unfolding no_entries_any [OF l4] first_block_def ..
  have lb: "length (first_block mode (of_nat i) parent) = 4096"
    using dot_entries_spec(1) [OF length_zeros i32(3) p'] no_entries_spec(1) [OF length_zeros] by (simp add: first_block_def empty_dir_def)
  obtain s7 where "write_block (of_nat b) (first_block mode (of_nat i) parent) (?s4\<lparr>f_buf := first_block mode (of_nat i) parent\<rparr>) = (0, s7)"
      "fs_upd (make_node mode parent i b D) s0 s7"
    using buf_write(1) [OF s4 _ lb, of "of_nat b"] word_of_less [OF b(2)] by (auto simp: make_node_def)
  then show ?thesis using s2(1) s3(1) blk by auto
qed

lemma make_node_vol:
  assumes inv: "img_inv D" and i: "i < 64" "\<not> used_ino D i" and b: "b \<notin> busy D" "6 \<le> b" "b < 254"
    and d: "unat parent < 64" "used_ino D (unat parent)" "is_dir D (unat parent)"
    and e: "e < 128" and nm: "length (cstr nm) < 28" and E: "E = (make_node mode parent i b D)(dirn D (unat parent) := fill_entry e nm (of_nat i) (D (dirn D (unat parent))))"
  shows "vol E = vcreate (unat parent) e (cstr nm) mode i b (vol D)" "busy E = insert b (busy D)"
    "c \<in> busy D \<Longrightarrow> c \<noteq> dirn D (unat parent) \<Longrightarrow> E c = D c"
proof -
  note m = make_node_spec [OF img_invD(2) [OF inv] i(1) b(2,3)]
  note bd = inv_block_ok [OF inv d]
  have dn: "dirn D (unat parent) \<notin> {2, 3, 4, b}"
    using bd(3) blocks_okD(2) [OF vinvD(3) [OF img_invD(1) [OF inv]] vol_dir(1) [OF inv d]] b by auto
  have w: "(of_nat i :: u32) \<noteq> FS_INVALID_INODE" "unat (of_nat i :: u32) = i" "parent \<noteq> FS_INVALID_INODE"
    using i(1) d(1) by (auto simp: unat_of_nat word_unat_eq_iff)
  have ino: "ino_at E j = ino_at (make_node mode parent i b D) j" for j using dn E by simp
  have fb: "ents (E b) = [0 \<mapsto> (dot, i), 1 \<mapsto> (dotdot, unat parent)]" if "mode = INODE_DIR"
    using that dn m(5) E dot_entries_spec(2) [OF length_zeros w(1,3)] w(2) by (auto simp: first_block_def empty_dir_def)
  show "vol E = vcreate (unat parent) e (cstr nm) mode i b (vol D)"
    by (rule create_vol [OF inv d i b e nm]) (use dn m E ino fb in auto)
  show "busy E = insert b (busy D)" using m(3) dn b E by (auto simp: busy_def)
  show "c \<in> busy D \<Longrightarrow> c \<noteq> dirn D (unat parent) \<Longrightarrow> E c = D c" using m(1) [of c] b(1) E by (auto simp: busy_def)
qed

lemma make_node_undone:
  assumes inv: "img_inv D" and i: "i < 64" "\<not> used_ino D i" and b: "b \<notin> busy D" "6 \<le> b" "b < 254"
    and E: "E = bm_set 3 i False (bm_set 2 b False (make_node mode parent i b D))"
  shows "vol E = vol D" "busy E = busy D" "c \<in> busy D \<Longrightarrow> E c = D c"
proof -
  let ?M = "make_node mode parent i b D"
  note m = make_node_spec [OF img_invD(2) [OF inv] i(1) b(2,3)]
  have l: "length (?M 2) = 4096" "length (?M 3) = 4096"
    using img_invD(2) [OF inv] b by (simp_all add: wf_img_def make_node_def take_block_def)
  have u: "used_ino E j = used_ino D j" for j using l m(2) i b E by auto
  show "vol E = vol D"
  proof (rule vol_same [OF inv _ b(1)])
    show "E c = D c" if "c \<notin> {2, 3, 4, b}" for c using that m(1) [OF that] E by simp
    show "ino_at E j = ino_at D j" if "used_ino D j" for j using that m(4) E i(2) by auto
  qed (use b u in auto)
  show "busy E = busy D" using l m(3) b i E by (intro busy_eq) (auto simp: busy_def)
  show "c \<in> busy D \<Longrightarrow> E c = D c" using m(1) [of c] b(1) E by (auto simp: busy_def)
qed

lemma create_inode_upd:
  assumes U: "fs_upd D s0 s" and inv: "img_inv D" and g: "good D parent" and nm: "cstr nm = nm" "nm \<noteq> []" "length nm < 28"
  shows "\<exists>s' E. create_inode parent nm mode s = (create_result D (unat parent) nm, s') \<and> fs_upd E s0 s'
    \<and> create_effect D (unat parent) nm mode E"
proof -
  let ?d = "unat parent"
  have cl: "closed D" by (rule inv_closed [OF inv])
  obtain s1 where s1: "dir_find parent nm s = (dir_entry D ?d nm, s1)" "fs_upd D s0 s1"
    using dir_find_good [OF U cl g, of nm] nm(1) by metis
  have p: "parent < 64" by (rule closedD(1) [OF cl g])
  show ?thesis
  proof (cases rule: lookup_cases [of D ?d nm])
    case (2 e c)
    then show ?thesis using s1 by (auto simp: create_inode_def create_result_def create_effect_def)
  next
    case 1
    show ?thesis
    proof (cases "inode_scan D")
      case None
      then obtain s2 where "alloc_inode s1 = (None, s2)" "fs_upd D s0 s2" using alloc_inode_upd [OF s1(2)] by auto
      then show ?thesis using 1 s1(1) None by (auto simp: create_inode_def create_result_def create_effect_def)
    next
      case i: (Some i)
      have i': "i < 64" "\<not> used_ino D i" using i by (auto simp: scan_Some_iff)
      have i32: "(of_nat i :: u32) < 64" "unat (of_nat i :: u32) = i" using i' by (simp_all add: unat_of_nat word_less_nat_alt)
      show ?thesis
      proof (cases "free_scan D")
        case None
        obtain s2 where s2: "alloc_inode s1 = (Some i, s2)" "fs_upd (bm_set 3 i True D) s0 s2"
          using alloc_inode_upd [OF s1(2)] i by auto
        have l: "length (D 3) = 4096" using img_invD(2) [OF inv] by (simp add: wf_img_def)
        have "free_scan (bm_set 3 i True D) = None" using None l i' by simp
        then obtain s3 where s3: "alloc_block s2 = (None, s3)" "fs_upd (bm_set 3 i True D) s0 s3"
          using alloc_block_upd [OF s2(2)] by auto
        have "fs_upd D s0 (free_inode (of_nat i) s3)"
          using free_inode_upd [OF s3(2) i32(1)] bm_set_cancel [of D 3 i] i' i32(2) l by simp
        then show ?thesis using 1 s1(1) s2(1) s3(1) i None by (auto simp: create_inode_def create_result_def create_effect_def)
      next
        case b: (Some b)
        have b': "b \<notin> busy D" "6 \<le> b" "b < 254" using b by (auto simp: scan_Some_iff busy_def)
        have b32: "unat (of_nat b :: u32) = b" using b' by (simp add: unat_of_nat)
        let ?M = "make_node mode parent i b D"
        note m = make_node_spec [OF img_invD(2) [OF inv] i'(1) b'(2,3)]
        obtain s2 s3 s4 s7 where s: "alloc_inode s1 = (Some i, s2)" "alloc_block s2 = (Some b, s3)"
          "inode_write (of_nat i) (new_inode mode b) s3 = s4"
          "write_block (of_nat b) (first_block mode (of_nat i) parent)
             (s4\<lparr>f_buf := (if mode = INODE_DIR then dot_entries (of_nat i) parent (no_entries (f_buf s4)) else no_entries (f_buf s4))\<rparr>) = (0, s7)"
          "(if mode = INODE_DIR then dot_entries (of_nat i) parent (no_entries (f_buf s4)) else no_entries (f_buf s4)) = first_block mode (of_nat i) parent"
          "fs_upd ?M s0 s7"
          using create_inode_alloc [OF s1(2) p i b, of mode] by blast
        have di: "?d \<noteq> i" using g i'(2) by (auto simp: good_def)
        have same: "ino_at ?M ?d = ino_at D ?d" using m(4) di by simp
        have d': "?d < 64" "used_ino D ?d" using g by (auto simp: good_def word_less_nat_alt)
        have Md: "?M (dirn D ?d) = D (dirn D ?d)" if dir: "is_dir D ?d"
        proof (rule m(1))
          show "dirn D ?d \<notin> {2, 3, 4, b}"
            using inv_block_ok(3) [OF inv d' dir] blocks_okD(2) [OF vinvD(3) [OF img_invD(1) [OF inv]] vol_dir(1) [OF inv d' dir]] b' by auto
        qed
        have nodeM: "node_ok ?M ?d" using closedD(2) [OF cl g] same Md by (auto simp: node_ok_def is_dir_def dirn_def)
        have q: "is_dir ?M ?d = is_dir D ?d" "dirn ?M ?d = dirn D ?d" using same by (simp_all add: is_dir_def dirn_def)
        have lk: "is_dir D ?d \<Longrightarrow> lookup ?M ?d nm = None \<and> free_entry ?M ?d = free_entry D ?d"
          using 1(1) Md q by (simp add: lookup_map free_entry_def)
        obtain s8 where s8: "dir_add parent (Some nm) (of_nat i) s7 = (if is_dir D ?d \<and> free_entry D ?d \<noteq> None then 0 else -1, s8)"
          "fs_upd (if is_dir D ?d \<and> free_entry D ?d \<noteq> None
             then ?M(dirn D ?d := fill_entry (the (free_entry D ?d)) nm (of_nat i) (D (dirn D ?d))) else ?M) s0 s8"
          using dir_add_upd [OF s(6) p nodeM, of nm "of_nat i"] nm q lk Md by (cases "is_dir D ?d") (auto cong: if_cong)
        have eq: "create_inode parent nm mode s =
            (if is_dir D ?d \<and> free_entry D ?d \<noteq> None then (Inr (of_nat i), s8)
             else (Inl (-5), free_inode (of_nat i) (free_block (of_nat b) s8)))"
          using s(4) [unfolded s(5)] s8(1) unfolding s(3) [symmetric]
          by (simp add: create_inode_def s1(1) 1(2) s(1,2) s(5) [folded s(3)] new_inode_def [symmetric] Let_def split del: if_split) simp
        show ?thesis
        proof (cases "is_dir D ?d \<and> free_entry D ?d \<noteq> None")
          case True
          then obtain e where e: "free_entry D ?d = Some e" "e < 128" by (auto simp: free_entry_def scan_Some_iff)
          note v = make_node_vol [OF inv i' b' d' conjunct1 [OF True] e(2), of nm _ mode, unfolded nm(1), OF nm(3) refl]
          show ?thesis using True eq s8(2) e(1) v i b 1(1) i32(2)
            by (auto simp: create_result_def create_effect_def)
        next
          case False
          have "drop_block (of_nat b) ?M = bm_set 2 b False ?M" using b' b32 by (simp add: drop_block_def)
          then have f: "fs_upd (bm_set 3 i False (bm_set 2 b False ?M)) s0 (free_inode (of_nat i) (free_block (of_nat b) s8))"
            using free_inode_upd [OF free_block_upd [OF s8(2) [unfolded if_not_P [OF False]], of "of_nat b"] i32(1)] i32(2) by simp
          note v = make_node_undone [OF inv i' b' refl, where mode = mode and parent = parent]
          show ?thesis using False eq f v i b 1(1) by (auto simp: create_result_def create_effect_def)
        qed
      qed
    qed
  qed
qed

lemma create_result_Inr:
  assumes "create_result D d nm = Inr c"
  shows "lookup D d nm = None" "is_dir D d" "\<exists>i. inode_scan D = Some i \<and> c = of_nat i \<and> unat c = i"
proof -
  show "\<exists>i. inode_scan D = Some i \<and> c = of_nat i \<and> unat c = i"
    using assms by (auto simp: create_result_def scan_Some_iff unat_of_nat split: if_splits option.splits)
qed (use assms in \<open>auto simp: create_result_def split: if_splits option.splits\<close>)

lemma create_effect_inv:
  assumes inv: "img_inv D" and wf: "wf_img E" and g: "d < 64" "used_ino D d" and nm: "nm \<noteq> []"
    and mode: "mode = INODE_DIR \<or> mode = INODE_FILE" and eff: "create_effect D d nm mode E"
  shows "img_inv E"
proof (cases "create_result D d nm")
  case (Inl r)
  then show ?thesis using eff inv wf by (simp add: create_effect_def img_inv_def)
next
  case (Inr c)
  note r = create_result_Inr [OF Inr]
  obtain e b where e: "free_entry D d = Some e" and b: "free_scan D = Some b"
    and v: "vol E = vcreate d e nm mode (unat c) b (vol D)" "busy E = insert b (busy D)"
    using eff Inr by (auto simp: create_effect_def)
  note vd = vol_dir [OF inv g r(2)] and bk = inv_block_ok(4) [OF inv g r(2)]
  have el: "e < 128" "\<not> live (D (dirn D d)) e" using e by (auto simp: free_entry_def scan_Some_iff)
  have ev: "ents (D (dirn D d)) e = None" using el by (simp add: ents_def)
  have "ents (D (dirn D d)) 0 \<noteq> None" "ents (D (dirn D d)) 1 \<noteq> None" using vd(2) unfolding vd(3) [symmetric] dir_ok_def by auto
  then have "e \<noteq> 0" "e \<noteq> 1" using ev by metis+
  then have e2: "2 \<le> e" by linarith
  have nn: "ents (D (dirn D d)) x \<noteq> Some (nm, y)" for x y
    using r(1,2) nm ents_Some [of "D (dirn D d)" x nm y] by (auto simp: lookup_map dir_map_None)
  have "vinv (vcreate d e nm mode (unat c) b (vol D)) (insert b (busy D))"
  proof (rule vcreate_vinv [OF img_invD(1) [OF inv]])
    show "vol D d = Some (vnode_of D (ino_at D d))" using g by (simp add: vol_def)
    show "vn_mode (vnode_of D (ino_at D d)) = INODE_DIR" using r(2) by (simp add: is_dir_def)
  qed (use r(3) b e2 nm mode nn ev vd(3) in \<open>auto simp: vol_def busy_def scan_Some_iff\<close>)
  then show ?thesis using v wf by (simp add: img_inv_def)
qed

subsection \<open>Releasing\<close>

definition drops :: "u32 list \<Rightarrow> image \<Rightarrow> image" where
  "drops bs = fold drop_block bs"

lemma drop_block_spec:
  assumes "wf_img D"
  shows "wf_img (drop_block b D)" "c \<noteq> 2 \<Longrightarrow> drop_block b D c = D c"
    "k < 254 \<Longrightarrow> bm (drop_block b D) 2 k \<longleftrightarrow> bm D 2 k \<and> \<not> (6 \<le> k \<and> unat b = k)"
proof -
  have "length (D 2) = 4096" using assms by (simp add: wf_img_def)
  then show "wf_img (drop_block b D)" "c \<noteq> 2 \<Longrightarrow> drop_block b D c = D c"
    "k < 254 \<Longrightarrow> bm (drop_block b D) 2 k \<longleftrightarrow> bm D 2 k \<and> \<not> (6 \<le> k \<and> unat b = k)"
    using assms by (auto simp: drop_block_def wf_img_def)
qed

lemma drops_spec:
  "wf_img D \<Longrightarrow> wf_img (drops bs D) \<and> (\<forall>c. c \<noteq> 2 \<longrightarrow> drops bs D c = D c)
     \<and> (\<forall>k < 254. bm (drops bs D) 2 k \<longleftrightarrow> bm D 2 k \<and> \<not> (6 \<le> k \<and> (\<exists>b \<in> set bs. unat b = k)))"
proof (induction bs arbitrary: D)
  case (Cons b bs)
  show ?case using Cons.IH [OF drop_block_spec(1) [OF Cons.prems], of b] drop_block_spec(2,3) [OF Cons.prems, of _ b]
    by (auto simp: drops_def)
qed (simp add: drops_def)

lemma free_blocks_upd:
  "fs_upd D s0 s \<Longrightarrow>
   fs_upd (drops (filter (\<lambda>b. b \<noteq> 0) (map f xs)) D) s0 (fold (\<lambda>i s. if f i \<noteq> 0 then free_block (f i) s else s) xs s)"
proof (induction xs arbitrary: D s)
  case (Cons x xs)
  then show ?case using Cons.IH [OF free_block_upd [OF Cons.prems, of "f x"]] Cons.IH [OF Cons.prems] by (simp add: drops_def)
qed (simp add: drops_def)

definition blocks_of :: "image \<Rightarrow> inode \<Rightarrow> u32 list" where
  "blocks_of D n = filter (\<lambda>b. b \<noteq> 0) (map (\<lambda>i. i_direct n ! i) [0..<8])
     @ (if i_indirect n \<noteq> 0 then filter (\<lambda>b. b \<noteq> 0) (map (\<lambda>i. get32 (D (unat (i_indirect n))) (4 * i)) [0..<1024]) @ [i_indirect n] else [])"

lemma blocks_of_ptr: "b \<in> set (blocks_of D n) \<longleftrightarrow> b \<noteq> 0 \<and> (\<exists>sl < 1033. ptr D n sl = b)"
proof
  assume "b \<in> set (blocks_of D n)"
  then consider j where "j < 8" "b = i_direct n ! j" "b \<noteq> 0" | "b = i_indirect n" "b \<noteq> 0"
    | j where "j < 1024" "i_indirect n \<noteq> 0" "b = get32 (D (unat (i_indirect n))) (4 * j)" "b \<noteq> 0"
    by (auto simp: blocks_of_def split: if_splits)
  then show "b \<noteq> 0 \<and> (\<exists>sl < 1033. ptr D n sl = b)"
  proof cases
    case (1 j)
    then show ?thesis by (intro conjI exI [of _ j]) (auto simp: ptr_def)
  next
    case 2
    then show ?thesis by (intro conjI exI [of _ 8]) (auto simp: ptr_def)
  next
    case (3 j)
    then show ?thesis by (intro conjI exI [of _ "j + 9"]) (auto simp: ptr_def)
  qed
next
  assume "b \<noteq> 0 \<and> (\<exists>sl < 1033. ptr D n sl = b)"
  then obtain sl where sl: "b \<noteq> 0" "sl < 1033" "ptr D n sl = b" by auto
  then show "b \<in> set (blocks_of D n)"
    by (cases "sl < 8"; cases "sl = 8") (auto simp: blocks_of_def ptr_def image_iff split: if_splits intro: bexI [of _ "sl - 9"])
qed

lemma drops_append: "drops (xs @ ys) D = drops ys (drops xs D)"
  by (simp add: drops_def)

lemma release_upd:
  assumes U: "fs_upd D s0 s" and n: "i_indirect n \<noteq> 0 \<Longrightarrow> unat (i_indirect n) < 254 \<and> unat (i_indirect n) \<noteq> 2"
  shows "\<exists>s'. release_inode_blocks n s = (n\<lparr>i_direct := replicate 8 0, i_indirect := 0\<rparr>, s') \<and> fs_upd (drops (blocks_of D n) D) s0 s'"
proof -
  let ?dir = "filter (\<lambda>b. b \<noteq> 0) (map (\<lambda>i. i_direct n ! i) [0..<8])"
  let ?s1 = "fold (\<lambda>i s. if i_direct n ! i \<noteq> 0 then free_block (i_direct n ! i) s else s) [0..<8] s"
  have s1: "fs_upd (drops ?dir D) s0 ?s1" using free_blocks_upd [OF U, of "\<lambda>i. i_direct n ! i"] by simp
  show ?thesis
  proof (cases "i_indirect n = 0")
    case True
    then show ?thesis using s1 by (simp add: release_inode_blocks_def blocks_of_def)
  next
    case False
    let ?P = "D (unat (i_indirect n))"
    have p: "the (ramdisk_read_block (f_disk ?s1) (i_indirect n) (Some (f_junk ?s1))) = ?P"
      using read_ptrs_spec [OF fs_updD(1) [OF s1], of "i_indirect n"] n False drops_spec [OF fs_upd_wf [OF U], of ?dir]
      by (simp add: fs_updD(2) [OF s1] word_less_nat_alt)
    have "fs_upd (drop_block (i_indirect n) (drops (filter (\<lambda>b. b \<noteq> 0) (map (\<lambda>i. get32 ?P (4 * i)) [0..<1024])) (drops ?dir D))) s0
        (free_block (i_indirect n) (fold (\<lambda>i s. if get32 ?P (4 * i) \<noteq> 0 then free_block (get32 ?P (4 * i)) s else s) [0..<1024] ?s1))"
      by (intro free_block_upd free_blocks_upd s1)
    then show ?thesis using False unfolding release_inode_blocks_def Let_def p
      by (simp add: blocks_of_def drops_append) (simp add: drops_def)
  qed
qed

lemma owned_blocks:
  assumes "vol D i = Some n"
  shows "owned_set (vol D) i = {k. \<exists>b \<in> set (blocks_of D (ino_at D i)). unat b = k}"
proof -
  have n: "n = vnode_of D (ino_at D i)" using assms by (simp add: vol_Some)
  have "ptr D (ino_at D i) sl = 0" if "\<not> sl < 1033" for sl using that by (simp add: ptr_def)
  then have "owns (vol D) i sl k \<longleftrightarrow> ptr D (ino_at D i) sl \<noteq> 0 \<and> unat (ptr D (ino_at D i) sl) = k \<and> sl < 1033" for sl k
    using assms n by (auto simp: owns_def)
  then show ?thesis unfolding owned_set_def Bex_def blocks_of_ptr by (intro Collect_cong) metis
qed

lemma indirect_range:
  assumes "img_inv D" "vol D i = Some n" "i_indirect (ino_at D i) \<noteq> 0"
  shows "owns (vol D) i 8 (unat (i_indirect (ino_at D i)))" "unat (i_indirect (ino_at D i)) < 254" "6 \<le> unat (i_indirect (ino_at D i))"
proof -
  show o: "owns (vol D) i 8 (unat (i_indirect (ino_at D i)))" using assms(2,3) by (auto simp: owns_def vol_Some)
  show "unat (i_indirect (ino_at D i)) < 254" "6 \<le> unat (i_indirect (ino_at D i))"
    using blocks_okD(2,5) [OF vinvD(3) [OF img_invD(1) [OF assms(1)]] o] by (auto simp: busy_def)
qed

lemma blocks_of_cong:
  "(i_indirect n \<noteq> 0 \<Longrightarrow> E (unat (i_indirect n)) = D (unat (i_indirect n))) \<Longrightarrow> blocks_of E n = blocks_of D n"
  by (simp add: blocks_of_def)

definition unlinked :: "nat \<Rightarrow> nat \<Rightarrow> nat \<Rightarrow> image \<Rightarrow> image" where
  "unlinked d e i D =
     bm_set 3 i False (set_ino i zero_inode (drops (blocks_of D (ino_at D i)) (D(dirn D d := clear_entry e (D (dirn D d))))))"

lemma unlinked_vol:
  assumes inv: "img_inv D" and d: "d < 64" "used_ino D d" "is_dir D d" and e: "e < 128" "live (D (dirn D d)) e"
    and i: "unat (ent_inode (D (dirn D d)) e) = i" "i \<noteq> d" "vol D i = Some n"
  shows "vol (unlinked d e i D) = vremove d e i (vol D)" "busy (unlinked d e i D) = busy D - owned_set (vol D) i"
    "c \<in> busy D \<Longrightarrow> c \<noteq> dirn D d \<Longrightarrow> unlinked d e i D c = D c"
proof -
  let ?E = "unlinked d e i D" and ?D1 = "D(dirn D d := clear_entry e (D (dirn D d)))"
  note vd = vol_dir [OF inv d] and bd = inv_block_ok [OF inv d] and B = vinvD(3) [OF img_invD(1) [OF inv]]
  have i64: "i < 64" using i(3) by (simp add: vol_Some)
  have len: "length (clear_entry e (D (dirn D d))) = 4096"
    using dblock_okD(1) [OF bd(4)] by (simp add: clear_entry_def)
  have wf: "wf_img ?D1" using img_invD(2) [OF inv] len by (auto simp: wf_img_def)
  note dr = drops_spec [OF wf, of "blocks_of D (ino_at D i)"]
  let ?D2 = "drops (blocks_of D (ino_at D i)) ?D1"
  have l: "length (?D2 3) = 4096" "length (?D2 4) = 4096" using wf_imgD [OF conjunct1 [OF dr]] by auto
  have dn: "dirn D d \<notin> {2, 3, 4}" using bd(3) by auto
  have agree: "?E c = D c" if "c \<notin> {2, 3, 4, dirn D d}" for c using that dr by (simp add: unlinked_def)
  have dir: "?E (dirn D d) = clear_entry e (D (dirn D d))" using dn dr by (simp add: unlinked_def)
  have b3: "bm ?E 3 j \<longleftrightarrow> bm D 3 j \<and> j \<noteq> i" for j
  proof -
    have "bm ?D2 3 j = bm D 3 j" using dr dn by (simp add: bm_def)
    then show ?thesis using l i64 by (simp add: unlinked_def)
  qed
  have ino: "ino_at ?E j = ino_at D j" if "j \<noteq> i" for j
  proof -
    have "ino_at ?D2 j = ino_at D j" using dr dn by (simp add: ino_at_def)
    then show ?thesis using l i64 that by (simp add: unlinked_def zero_inode_def)
  qed
  show "vol ?E = vremove d e i (vol D)"
  proof
    fix j
    have vD: "vol D d = Some (vnode_of D (ino_at D d))" using d by (simp add: vol_def)
    consider "j = i" | "j = d" "j \<noteq> i" | "j \<noteq> i" "j \<noteq> d" "vol D j = None" | m where "j \<noteq> i" "j \<noteq> d" "vol D j = Some m"
      by (cases "vol D j") auto
    then show "vol ?E j = vremove d e i (vol D) j"
    proof cases
      case 1
      then show ?thesis using b3 by (simp add: vol_def vremove_def)
    next
      case 2
      have ind: "i_indirect (ino_at D d) = 0" using vd(2) by (metis dir_ok_def ptr_direct(2) vnode_fields(3) zero_less_numeral)
      have "vnode_of ?E (ino_at D d) = (vnode_of D (ino_at D d))\<lparr>vn_ents := (ents (D (dirn D d)))(e := None)\<rparr>"
        using d(3) ind dir ents_clear_entry [OF dblock_okD(1) [OF bd(4)] e(1)]
        by (simp add: vnode_of_def ptr_def is_dir_def dirn_def fun_eq_iff)
      then show ?thesis using 2 d b3 ino vd(3) vD by (simp add: vremove_def) (simp add: vol_def)
    next
      case 3
      then show ?thesis using b3 by (auto simp: vol_def vremove_def split: if_splits)
    next
      case (4 m)
      have ns: "x \<notin> {2, 3, 4, dirn D d}" if o: "owns (vol D) j sl x" for sl x
        using blocks_okD(5) [OF B o] blocks_okD(3) [OF B o, of d 0] vd(1) 4(2) by auto
      have "vnode_of ?E (ino_at D j) = vnode_of D (ino_at D j)"
        by (rule vol_agree [OF 4(3) agree ns dir_first [OF inv 4(3)]])
      then show ?thesis using 4 b3 ino by (auto simp: vol_def vremove_def split: if_splits)
    qed
  qed
  have b2: "bm ?E 2 k \<longleftrightarrow> bm D 2 k \<and> k \<notin> owned_set (vol D) i" if "6 \<le> k" "k < 254" for k
  proof -
    have "bm ?E 2 k \<longleftrightarrow> bm ?D2 2 k" using l i64 by (simp add: unlinked_def)
    moreover have "bm ?D1 2 k = bm D 2 k" using dn by simp
    ultimately show ?thesis using dr that owned_blocks [OF i(3)] by auto
  qed
  then show "busy ?E = busy D - owned_set (vol D) i" by (auto simp: busy_def)
  show "c \<in> busy D \<Longrightarrow> c \<noteq> dirn D d \<Longrightarrow> ?E c = D c" using agree [of c] by (auto simp: busy_def)
qed

end
