(* ===== verification/Fs_Ops.thy ===== *)
theory Fs_Ops
  imports Fs_Inv
begin

text \<open>
  The operations on paths, and the invariant of the file system: the volume is well formed, the working
  directory is a directory of it, and every open descriptor refers to a file of it.
\<close>

subsection \<open>The invariant\<close>

definition cwd_ok :: "volume \<Rightarrow> u32 \<Rightarrow> bool" where
  "cwd_ok N c \<longleftrightarrow> (\<exists>n. N (unat c) = Some n \<and> vn_mode n = INODE_DIR)"

definition fds_ok :: "volume \<Rightarrow> file_desc list \<Rightarrow> bool" where
  "fds_ok N fds \<longleftrightarrow> length fds = 16 \<and> (\<forall>f \<in> set fds. fd_used f \<longrightarrow> (\<exists>n. N (unat (fd_inode f)) = Some n \<and> vn_mode n = INODE_FILE))"

definition fs_inv :: "fs \<Rightarrow> bool" where
  "fs_inv s \<longleftrightarrow> fs_ok s \<and> f_ready s \<and> img_inv (img s) \<and> cwd_ok (vol (img s)) (f_cwd s) \<and> fds_ok (vol (img s)) (f_fds s)"

lemma fs_invD:
  assumes "fs_inv s"
  shows "fs_upd (img s) s s" "f_ready s" "img_inv (img s)" "closed (img s)" "good (img s) (f_cwd s)"
    "cwd_ok (vol (img s)) (f_cwd s)" "fds_ok (vol (img s)) (f_fds s)"
  using assms inv_closed [of "img s"] by (auto simp: fs_inv_def good_dom cwd_ok_def)

lemma fs_inv_upd:
  assumes "fs_upd D s s'" "img_inv D" "f_ready s" "cwd_ok (vol D) (f_cwd s)" "fds_ok (vol D) (f_fds s)"
  shows "fs_inv s'"
  using assms by (auto simp: fs_inv_def fs_upd_def)

lemma fs_inv_same: "fs_inv s \<Longrightarrow> fs_upd (img s) s s' \<Longrightarrow> fs_inv s'"
  using fs_inv_upd [of "img s" s s'] fs_invD [of s] by blast

text \<open>A change that keeps every node and its kind keeps the directory and the descriptors.\<close>

definition keeps :: "volume \<Rightarrow> volume \<Rightarrow> bool" where
  "keeps N M \<longleftrightarrow> (\<forall>i n. N i = Some n \<longrightarrow> (\<exists>m. M i = Some m \<and> vn_mode m = vn_mode n))"

lemma keepsD: "keeps N M \<Longrightarrow> cwd_ok N c \<Longrightarrow> cwd_ok M c" "keeps N M \<Longrightarrow> fds_ok N fds \<Longrightarrow> fds_ok M fds"
  unfolding keeps_def cwd_ok_def fds_ok_def by metis+

lemma keeps_refl [simp]: "keeps N N"
  by (simp add: keeps_def)

lemma vcreate_keeps: "N i = None \<Longrightarrow> keeps N (vcreate d e nm mode i b N)"
  by (auto simp: keeps_def vcreate_def)

lemma create_effect_keeps:
  assumes "create_effect D d nm mode E"
  shows "keeps (vol D) (vol E)"
proof (cases "create_result D d nm")
  case (Inr c)
  then obtain e b where "vol E = vcreate d e nm mode (unat c) b (vol D)" using assms by (auto simp: create_effect_def)
  moreover have "vol D (unat c) = None" using create_result_Inr(3) [OF Inr] by (auto simp: vol_def scan_Some_iff)
  ultimately show ?thesis by (simp add: vcreate_keeps)
qed (use assms in \<open>simp add: create_effect_def\<close>)

lemma create_inode_inv:
  assumes U: "fs_upd D s s1" and i: "img_inv D" "f_ready s" "cwd_ok (vol D) (f_cwd s)" "fds_ok (vol D) (f_fds s)"
    and g: "good D parent" and nm: "cstr nm = nm" "nm \<noteq> []" "length nm < 28" and mode: "mode = INODE_DIR \<or> mode = INODE_FILE"
  shows "\<exists>s' E. create_inode parent nm mode s1 = (create_result D (unat parent) nm, s') \<and> fs_upd E s s' \<and> img_inv E
    \<and> create_effect D (unat parent) nm mode E \<and> fs_inv s'"
proof -
  obtain s' E where s': "create_inode parent nm mode s1 = (create_result D (unat parent) nm, s')" "fs_upd E s s'"
      "create_effect D (unat parent) nm mode E"
    using create_inode_upd [OF U i(1) g nm] by blast
  have "img_inv E" using g create_effect_inv [OF i(1) fs_upd_wf [OF s'(2)] _ _ nm(2) mode s'(3)]
    by (simp add: good_def word_less_nat_alt)
  then show ?thesis
    using s' fs_inv_upd [OF s'(2) _ i(2)] keepsD(1) [OF create_effect_keeps [OF s'(3)] i(3)]
      keepsD(2) [OF create_effect_keeps [OF s'(3)] i(4)] by blast
qed

subsection \<open>Making directories\<close>

definition mkdir_result :: "image \<Rightarrow> u32 \<Rightarrow> u8 list \<Rightarrow> int" where
  "mkdir_result D cwd p =
     (case parent_walk D p cwd of None \<Rightarrow> -1
      | Some (d, nm) \<Rightarrow> (case create_result D (unat d) nm of Inl rc \<Rightarrow> rc | Inr _ \<Rightarrow> 0))"

lemma fs_mkdir_spec:
  assumes inv: "fs_inv s"
  shows "\<exists>s' E. fs_mkdir (Some p) s = (mkdir_result (img s) (f_cwd s) p, s') \<and> fs_upd E s s' \<and> fs_inv s'
    \<and> (case parent_walk (img s) p (f_cwd s) of None \<Rightarrow> E = img s | Some (d, nm) \<Rightarrow> create_effect (img s) (unat d) nm INODE_DIR E)"
proof -
  let ?D = "img s"
  note I = fs_invD [OF inv]
  obtain s1 where s1: "split_parent (Some p) s = (parent_walk ?D p (f_cwd s), s1)" "fs_upd ?D s s1"
    using split_parent_walk [OF I(1,4,5), of p] by blast
  show ?thesis
  proof (cases "parent_walk ?D p (f_cwd s)")
    case None
    then show ?thesis using s1 I(2) fs_inv_same [OF inv s1(2)] by (auto simp: fs_mkdir_def mkdir_result_def)
  next
    case (Some r)
    obtain d nm where r: "r = (d, nm)" by fastforce
    note w = parent_walk_name [OF Some [unfolded r]] and g = parent_walk_good [OF I(4,5) Some [unfolded r]]
    obtain s2 E where s2: "create_inode d nm INODE_DIR s1 = (create_result ?D (unat d) nm, s2)" "fs_upd E s s2"
        "create_effect ?D (unat d) nm INODE_DIR E" "fs_inv s2"
      using create_inode_inv [OF s1(2) I(3,2,6,7) g w(5,1), of INODE_DIR] w(2) by auto
    have "\<not> str_eq nm dot" "\<not> str_eq nm dotdot" using w by (auto simp: str_eq_cstr)
    then have "fs_mkdir (Some p) s = (mkdir_result ?D (f_cwd s) p, s2)"
      using I(2) s1(1) s2(1) Some r by (simp add: fs_mkdir_def mkdir_result_def split: sum.splits)
    then show ?thesis using s2 Some r by auto
  qed
qed

subsection \<open>Removing\<close>

definition nonempty_dir :: "image \<Rightarrow> nat \<Rightarrow> bool" where
  "nonempty_dir D i \<longleftrightarrow> is_dir D i \<and> (\<exists>e. 2 \<le> e \<and> e < 128 \<and> live (D (dirn D i)) e)"

definition unlink_result :: "image \<Rightarrow> u32 \<Rightarrow> u8 list \<Rightarrow> int" where
  "unlink_result D cwd p =
     (case parent_walk D p cwd of None \<Rightarrow> -2
      | Some (d, nm) \<Rightarrow> (case lookup D (unat d) nm of None \<Rightarrow> -3
        | Some c \<Rightarrow> if nonempty_dir D (unat c) then -5 else 0))"

text \<open>What a name that is neither dot leads to.\<close>

lemma entry_from_two:
  assumes "dir_ok N i n" "vn_ents n e = Some (nm, c)" "nm \<noteq> dot" "nm \<noteq> dotdot"
  shows "2 \<le> e"
proof (rule ccontr)
  assume "\<not> 2 \<le> e"
  then have "e = 0 \<or> e = 1" by auto
  then show False using assms unfolding dir_ok_def by auto
qed

lemma entry_kid:
  assumes inv: "img_inv D" and g: "good D d" and l: "dir_entry D (unat d) nm = Some (e, c)" and nm: "nm \<noteq> dot" "nm \<noteq> dotdot"
  shows "e < 128" "live (D (dirn D (unat d))) e" "ent_inode (D (dirn D (unat d))) e = c" "ename (D (dirn D (unat d))) e = nm"
    "is_dir D (unat d)" "kid (vol D) (unat d) e (unat c)" "good D c"
proof -
  have d: "unat d < 64" "used_ino D (unat d)" using g by (auto simp: good_def word_less_nat_alt)
  show dir: "is_dir D (unat d)" using l by (auto simp: dir_entry_def split: if_splits)
  note vd = vol_dir [OF inv d dir] and bk = inv_block_ok(4) [OF inv d dir]
  show e: "e < 128" "live (D (dirn D (unat d))) e" "ent_inode (D (dirn D (unat d))) e = c" "ename (D (dirn D (unat d))) e = nm"
    using l dir dir_pos_Some [OF bk] by (auto simp: dir_entry_def)
  have en: "ents (D (dirn D (unat d))) e = Some (nm, unat c)" using e dblock_okD(2) [OF bk e(1,2)] by (simp add: ents_def)
  have "2 \<le> e" using entry_from_two [OF vd(2)] en nm vd(3) by simp
  then show "kid (vol D) (unat d) e (unat c)" using d en vd(3) by (auto simp: kid_def vol_def)
  then show "good D c" using kid_dom [OF img_invD(1) [OF inv]] by (auto simp: good_dom)
qed

lemma vremove_mode: "j \<noteq> i \<Longrightarrow> N j = Some n \<Longrightarrow> \<exists>m. vremove d e i N j = Some m \<and> vn_mode m = vn_mode n"
  by (auto simp: vremove_def)

lemma empty_dir_leaf:
  assumes inv: "img_inv D" and c: "vol D i = Some n" and em: "\<not> nonempty_dir D i"
  shows "\<not> kid (vol D) i e j"
proof
  assume "kid (vol D) i e j"
  then obtain nm where k: "2 \<le> e" "vn_ents n e = Some (nm, j)" using c by (auto simp: kid_def)
  have dir: "i_mode (ino_at D i) = INODE_DIR" using ents_dir(1) [OF img_invD(1) [OF inv] c k(2)] c by (simp add: vol_Some)
  then have "ents (D (dirn D i)) e = Some (nm, j)" using k(2) c by (simp add: vol_Some vnode_of_def dirn_def)
  then have "e < 128 \<and> live (D (dirn D i)) e" by (auto simp: ents_def split: if_splits)
  then show False using em k(1) dir by (auto simp: nonempty_dir_def is_dir_def)
qed

text \<open>The steps after the checks.\<close>

lemma unlink_steps:
  assumes U: "fs_upd D s0 s" and inv: "img_inv D" and g: "good D d" and l: "dir_entry D (unat d) nm = Some (e, c)"
    and nm: "nm \<noteq> dot" "nm \<noteq> dotdot" "cstr nm = nm"
  shows "\<exists>s5 s6. dir_remove d nm s = (0, s5) \<and> (\<exists>n'. release_inode_blocks (ino_at D (unat c)) s5 = (n', s6))
    \<and> fs_upd (unlinked (unat d) e (unat c) D) s0 (free_inode c (inode_write c zero_inode s6))"
proof -
  let ?i = "unat c" and ?dn = "dirn D (unat d)"
  note k = entry_kid [OF inv g l nm(1,2)]
  let ?D1 = "D(?dn := clear_entry e (D ?dn))"
  have d: "unat d < 64" "used_ino D (unat d)" using g by (auto simp: good_def word_less_nat_alt)
  obtain n where n: "vol D ?i = Some n" using k(7) by (auto simp: good_dom)
  have ne: "unat d \<noteq> ?i" by (rule kid_not_self [OF img_invD(1) [OF inv] k(6)])
  obtain s5 where s5: "dir_remove d nm s = (0, s5)" "fs_upd ?D1 s0 s5"
    using dir_remove_upd [OF U closedD(1,2) [OF inv_closed [OF inv] g], of nm] l nm(3) by auto
  note B = vinvD(3) [OF img_invD(1) [OF inv]]
  have ind: "unat (i_indirect (ino_at D ?i)) < 254 \<and> unat (i_indirect (ino_at D ?i)) \<noteq> 2 \<and> unat (i_indirect (ino_at D ?i)) \<noteq> ?dn"
    if nz: "i_indirect (ino_at D ?i) \<noteq> 0"
    using indirect_range [OF inv n nz] blocks_okD(3) [OF B indirect_range(1) [OF inv n nz], of "unat d" 0] vol_dir(1) [OF inv d k(5)] ne by auto
  obtain s6 where s6: "\<exists>n'. release_inode_blocks (ino_at D ?i) s5 = (n', s6)" "fs_upd (drops (blocks_of ?D1 (ino_at D ?i)) ?D1) s0 s6"
    using release_upd [OF s5(2), of "ino_at D ?i"] ind by blast
  have "blocks_of ?D1 (ino_at D ?i) = blocks_of D (ino_at D ?i)" using ind by (intro blocks_of_cong) auto
  then have "fs_upd (unlinked (unat d) e ?i D) s0 (free_inode c (inode_write c zero_inode s6))"
    using free_inode_upd [OF inode_write_upd [OF s6(2), of c zero_inode], of c] k(7) by (simp add: unlinked_def good_def)
  then show ?thesis using s5(1) s6(1) by blast
qed

lemma nonempty_scan:
  assumes "is_dir D i"
  shows "scan (\<lambda>e. live (D (dirn D i)) e) 2 128 \<noteq> None \<longleftrightarrow> nonempty_dir D i"
  using assms by (simp only: nonempty_dir_def scan_None_iff not_all simp_thms) blast

lemma fs_unlink_spec:
  assumes inv: "fs_inv s"
  shows "\<exists>s'. fs_unlink (Some p) s = (unlink_result (img s) (f_cwd s) p, s') \<and>
    (if unlink_result (img s) (f_cwd s) p = 0
     then \<exists>d nm e c s1. parent_walk (img s) p (f_cwd s) = Some (d, nm) \<and> dir_entry (img s) (unat d) nm = Some (e, c)
       \<and> \<not> nonempty_dir (img s) (unat c) \<and> fs_upd (unlinked (unat d) e (unat c) (img s)) s s1
       \<and> s' = (if f_cwd s = c then s1\<lparr>f_cwd := 0\<rparr> else s1)
     else fs_upd (img s) s s')"
proof -
  let ?D = "img s"
  note I = fs_invD [OF inv]
  obtain s1 where s1: "split_parent (Some p) s = (parent_walk ?D p (f_cwd s), s1)" "fs_upd ?D s s1"
    using split_parent_walk [OF I(1,4,5), of p] by blast
  show ?thesis
  proof (cases "parent_walk ?D p (f_cwd s)")
    case None
    then show ?thesis using s1 I(2) by (auto simp: fs_unlink_def unlink_result_def)
  next
    case (Some r)
    obtain d nm where r: "r = (d, nm)" by fastforce
    note w = parent_walk_name [OF Some [unfolded r]] and g = parent_walk_good [OF I(4,5) Some [unfolded r]]
    obtain s2 where s2: "dir_find d nm s1 = (dir_entry ?D (unat d) nm, s2)" "fs_upd ?D s s2"
      using dir_find_good [OF s1(2) I(4) g, of nm] w(5) by metis
    show ?thesis
    proof (cases rule: lookup_cases [of ?D "unat d" nm])
      case 1
      then show ?thesis using s1(1) s2 I(2) Some r by (auto simp: fs_unlink_def unlink_result_def)
    next
      case (2 e c)
      note k = entry_kid [OF I(3) g 2(2) w(3,4)]
      have c0: "c \<noteq> 0" using kid_not_root [OF img_invD(1) [OF I(3)] k(6)] by auto
      have c64: "c < 64" using k(7) by (simp add: good_def)
      let ?n = "ino_at ?D (unat c)"
      obtain s3 where s3: "inode_read c s2 = (?n, s3)" "fs_upd ?D s s3" using inode_read_upd [OF s2(2) c64] by auto
      let ?s4 = "if i_mode ?n = INODE_DIR then read_buf (i_direct ?n ! 0) s3 else s3"
      have nd: "is_dir ?D (unat c) \<Longrightarrow> i_direct ?n ! 0 < 254"
        using node_okD(2) [OF closedD(2) [OF I(4) k(7)]] .
      have s4: "fs_upd ?D s ?s4" "is_dir ?D (unat c) \<Longrightarrow> f_buf ?s4 = ?D (dirn ?D (unat c))"
        using read_buf_upd [OF s3(2) nd] s3(2) by (auto simp: is_dir_def dirn_def)
      have full: "(i_mode ?n = INODE_DIR \<and> scan (\<lambda>i. live (f_buf ?s4) i) 2 128 \<noteq> None) = nonempty_dir ?D (unat c)"
      proof (cases "is_dir ?D (unat c)")
        case True
        then show ?thesis using nonempty_scan [OF True] unfolding s4(2) [OF True] by (simp add: is_dir_def)
      qed (simp add: is_dir_def nonempty_dir_def)
      have base: "fs_unlink (Some p) s = (if nonempty_dir ?D (unat c) then (-5, ?s4) else
          (let (rc, s5) = dir_remove d nm ?s4 in if rc < 0 then (-6, s5)
           else let (_, s6) = release_inode_blocks ?n s5; s7 = inode_write c zero_inode s6; s8 = free_inode c s7
             in (0, if f_cwd s8 = c then s8\<lparr>f_cwd := 0\<rparr> else s8)))"
        unfolding full [symmetric] using I(2) s1(1) Some r s2(1) 2(2) c0 s3(1)
        by (simp add: fs_unlink_def Let_def split del: if_split)
      show ?thesis
      proof (cases "nonempty_dir ?D (unat c)")
        case True
        then show ?thesis using base s4(1) Some r 2(1) by (simp add: unlink_result_def)
      next
        case False
        obtain s5 s6 where s: "dir_remove d nm ?s4 = (0, s5)" "\<exists>n'. release_inode_blocks ?n s5 = (n', s6)"
            "fs_upd (unlinked (unat d) e (unat c) ?D) s (free_inode c (inode_write c zero_inode s6))"
          using unlink_steps [OF s4(1) I(3) g 2(2) w(3,4,5)] by blast
        have "unlink_result ?D (f_cwd s) p = 0" using False Some r 2(1) by (simp add: unlink_result_def)
        moreover have "f_cwd (free_inode c (inode_write c zero_inode s6)) = f_cwd s" using fs_updD(4) [OF s(3)] .
        ultimately have "fs_unlink (Some p) s = (0, if f_cwd s = c then free_inode c (inode_write c zero_inode s6)\<lparr>f_cwd := 0\<rparr>
            else free_inode c (inode_write c zero_inode s6))" and "unlink_result ?D (f_cwd s) p = 0"
          using base False s(1,2) by (auto simp: Let_def)
        then show ?thesis using Some r 2(2) False s(3) by auto
      qed
    qed
  qed
qed

text \<open>The inode a path would remove, and that no descriptor has it open.\<close>

definition unlink_target :: "image \<Rightarrow> u32 \<Rightarrow> u8 list \<Rightarrow> u32 option" where
  "unlink_target D cwd p = (case parent_walk D p cwd of None \<Rightarrow> None | Some (d, nm) \<Rightarrow> lookup D (unat d) nm)"

definition not_open :: "u32 \<Rightarrow> file_desc list \<Rightarrow> bool" where
  "not_open c fds \<longleftrightarrow> list_all (\<lambda>f. fd_used f \<longrightarrow> fd_inode f \<noteq> c) fds"

lemma unlinked_inv:
  assumes inv: "img_inv D" and g: "good D d" and l: "dir_entry D (unat d) nm = Some (e, c)" and nm: "nm \<noteq> dot" "nm \<noteq> dotdot"
    and em: "\<not> nonempty_dir D (unat c)" and wf: "wf_img (unlinked (unat d) e (unat c) D)"
  shows "img_inv (unlinked (unat d) e (unat c) D)"
    "vol (unlinked (unat d) e (unat c) D) = vremove (unat d) e (unat c) (vol D)"
    "busy (unlinked (unat d) e (unat c) D) = busy D - owned_set (vol D) (unat c)"
proof -
  note k = entry_kid [OF inv g l nm]
  have d: "unat d < 64" "used_ino D (unat d)" using g by (auto simp: good_def word_less_nat_alt)
  obtain n where n: "vol D (unat c) = Some n" using k(7) by (auto simp: good_dom)
  have ne: "unat c \<noteq> unat d" using kid_not_self [OF img_invD(1) [OF inv] k(6)] by simp
  have ec: "unat (ent_inode (D (dirn D (unat d))) e) = unat c" using k(3) by simp
  note v = unlinked_vol [OF inv d k(5,1,2) ec ne n]
  have "vinv (vremove (unat d) e (unat c) (vol D)) (busy D - owned_set (vol D) (unat c))"
    using vremove_vinv [OF img_invD(1) [OF inv] k(6) n] empty_dir_leaf [OF inv n em] by blast
  then show "img_inv (unlinked (unat d) e (unat c) D)" using v wf by (simp add: img_inv_def)
  show "vol (unlinked (unat d) e (unat c) D) = vremove (unat d) e (unat c) (vol D)"
    "busy (unlinked (unat d) e (unat c) D) = busy D - owned_set (vol D) (unat c)" by (rule v)+
qed

lemma fs_unlink_inv:
  assumes inv: "fs_inv s" and no: "\<And>c. unlink_target (img s) (f_cwd s) p = Some c \<Longrightarrow> not_open c (f_fds s)"
  shows "fs_inv (snd (fs_unlink (Some p) s))"
proof -
  let ?D = "img s"
  note I = fs_invD [OF inv]
  obtain s' where s': "fs_unlink (Some p) s = (unlink_result ?D (f_cwd s) p, s')"
    and eff: "if unlink_result ?D (f_cwd s) p = 0
     then \<exists>d nm e c s1. parent_walk ?D p (f_cwd s) = Some (d, nm) \<and> dir_entry ?D (unat d) nm = Some (e, c)
       \<and> \<not> nonempty_dir ?D (unat c) \<and> fs_upd (unlinked (unat d) e (unat c) ?D) s s1
       \<and> s' = (if f_cwd s = c then s1\<lparr>f_cwd := 0\<rparr> else s1)
     else fs_upd ?D s s'" using fs_unlink_spec [OF inv] by blast
  show ?thesis
  proof (cases "unlink_result ?D (f_cwd s) p = 0")
    case False
    then show ?thesis using s' eff fs_inv_same [OF inv] by simp
  next
    case True
    then obtain d nm e c s1 where w: "parent_walk ?D p (f_cwd s) = Some (d, nm)" and l: "dir_entry ?D (unat d) nm = Some (e, c)"
      and em: "\<not> nonempty_dir ?D (unat c)" and s1: "fs_upd (unlinked (unat d) e (unat c) ?D) s s1"
      and s'': "s' = (if f_cwd s = c then s1\<lparr>f_cwd := 0\<rparr> else s1)" using eff by auto
    let ?E = "unlinked (unat d) e (unat c) ?D"
    note g = parent_walk_good [OF I(4,5) w]
    note u = unlinked_inv [OF I(3) g l parent_walk_name(3,4) [OF w] em fs_upd_wf [OF s1]]
    have keep: "\<exists>m. vol ?E j = Some m \<and> vn_mode m = vn_mode n" if "vol ?D j = Some n" "j \<noteq> unat c" for j n
      using vremove_mode [of j "unat c" "vol ?D" n] that u(2) by simp
    have "unlink_target ?D (f_cwd s) p = Some c" using w l by (simp add: unlink_target_def lookup_def)
    then have no': "\<forall>f \<in> set (f_fds s). fd_used f \<longrightarrow> unat (fd_inode f) \<noteq> unat c"
      using no [of c] by (auto simp: not_open_def list_all_iff word_unat_eq_iff)
    have f: "fds_ok (vol ?E) (f_fds s)" using I(7) keep no' unfolding fds_ok_def by metis
    have r: "cwd_ok (vol ?E) 0" using vinvD(1) [OF img_invD(1) [OF u(1)]] by (auto simp: root_ok_def cwd_ok_def)
    have "cwd_ok (vol ?E) (f_cwd s)" if "f_cwd s \<noteq> c" using I(6) keep that unfolding cwd_ok_def by (metis word_unat_eq_iff)
    then show ?thesis using s' s'' s1 u(1) f r I(2) by (auto simp: fs_inv_def fs_upd_def)
  qed
qed

subsection \<open>Changing directory, closing\<close>

definition open_find :: "image \<Rightarrow> u32 \<Rightarrow> u8 list \<Rightarrow> u32 option" where
  "open_find D cwd p = (if cstr p = [] then None else walk D (comps p) (from_dir p cwd))"

lemma open_find_good: "closed D \<Longrightarrow> good D cwd \<Longrightarrow> open_find D cwd p = Some c \<Longrightarrow> good D c"
  using walk_good [of D "from_dir p cwd" "comps p" c] good_from [of D cwd p] by (auto simp: open_find_def split: if_splits)

lemma resolve_find:
  assumes "fs_upd D s0 s" "closed D" "good D cwd"
  shows "\<exists>s'. resolve_path (Some p) cwd s = (open_find D cwd p, s') \<and> fs_upd D s0 s'"
  using resolve_path_walk [OF assms, of p] by (simp add: open_find_def)

lemma fs_chdir_spec:
  assumes inv: "fs_inv s"
  shows "\<exists>s1. fs_upd (img s) s s1 \<and> fs_chdir (Some p) s =
    (case open_find (img s) (f_cwd s) p of None \<Rightarrow> (-1, s1)
     | Some c \<Rightarrow> if is_dir (img s) (unat c) then (0, s1\<lparr>f_cwd := c\<rparr>) else (-2, s1))"
proof -
  let ?D = "img s"
  note I = fs_invD [OF inv]
  obtain s1 where s1: "resolve_path (Some p) (f_cwd s) s = (open_find ?D (f_cwd s) p, s1)" "fs_upd ?D s s1"
    using resolve_find [OF I(1,4,5)] by blast
  show ?thesis
  proof (cases "open_find ?D (f_cwd s) p")
    case None
    then show ?thesis using s1 I(2) by (auto simp: fs_chdir_def)
  next
    case (Some c)
    obtain s2 where "inode_read c s1 = (ino_at ?D (unat c), s2)" "fs_upd ?D s s2"
      using inode_read_upd [OF s1(2) closedD(1) [OF I(4) open_find_good [OF I(4,5) Some]]] by blast
    then show ?thesis using Some s1(1) I(2) by (auto simp: fs_chdir_def is_dir_def)
  qed
qed

lemma fs_chdir_inv:
  assumes inv: "fs_inv s"
  shows "fs_inv (snd (fs_chdir (Some p) s))"
proof -
  let ?D = "img s"
  note I = fs_invD [OF inv]
  obtain s1 where s1: "fs_upd ?D s s1" and r: "fs_chdir (Some p) s = (case open_find ?D (f_cwd s) p of None \<Rightarrow> (-1, s1)
     | Some c \<Rightarrow> if is_dir ?D (unat c) then (0, s1\<lparr>f_cwd := c\<rparr>) else (-2, s1))"
    using fs_chdir_spec [OF inv] by blast
  have "cwd_ok (vol ?D) c" if "open_find ?D (f_cwd s) p = Some c" "is_dir ?D (unat c)" for c
    using open_find_good [OF I(4,5) that(1)] that(2) by (auto simp: cwd_ok_def good_dom vol_Some is_dir_def)
  then have "fs_inv (s1\<lparr>f_cwd := c\<rparr>)" if "open_find ?D (f_cwd s) p = Some c" "is_dir ?D (unat c)" for c
    using that s1 I(2,3,7) by (auto simp: fs_inv_def fs_upd_def)
  then show ?thesis using r fs_inv_same [OF inv s1] by (auto split: option.splits)
qed

lemma fs_close_inv:
  assumes "fs_inv s"
  shows "fs_inv (snd (fs_close fd s))"
proof -
  have "fds_ok N (fds[k := (fds ! k)\<lparr>fd_used := False\<rparr>])" if "fds_ok N fds" for N fds k
    using that set_update_subset_insert [of fds k "(fds ! k)\<lparr>fd_used := False\<rparr>"] unfolding fds_ok_def
    by (auto dest!: subsetD)
  then show ?thesis using assms by (auto simp: fs_close_def fs_inv_def)
qed

subsection \<open>Opening\<close>

text \<open>Changing one file: only its own node changes in the volume.\<close>

lemma file_vol:
  assumes inv: "img_inv D" and agree: "\<And>c. c \<notin> S \<Longrightarrow> E c = D c" and own: "\<And>j sl b. j \<noteq> i \<Longrightarrow> owns (vol D) j sl b \<Longrightarrow> b \<notin> S"
    and used: "\<And>j. j < 64 \<Longrightarrow> used_ino E j = used_ino D j" and ino: "\<And>j. j < 64 \<Longrightarrow> j \<noteq> i \<Longrightarrow> ino_at E j = ino_at D j"
    and i: "vol D i = Some n"
  shows "vol E = vfile i (vnode_of E (ino_at E i)) (vol D)"
proof
  fix j
  show "vol E j = vfile i (vnode_of E (ino_at E i)) (vol D) j"
  proof (cases "j = i")
    case True
    then show ?thesis using i used by (auto simp: vfile_def vol_def split: if_splits)
  next
    case False
    show ?thesis
    proof (cases "vol D j")
      case None
      then show ?thesis using False used by (auto simp: vfile_def vol_def split: if_splits)
    next
      case (Some m)
      have "vnode_of E (ino_at D j) = vnode_of D (ino_at D j)"
        by (rule vol_agree [OF Some agree own [OF False] dir_first [OF inv Some]])
      then show ?thesis using Some False used ino by (auto simp: vfile_def vol_def split: if_splits)
    qed
  qed
qed

lemma owns_range: "img_inv D \<Longrightarrow> owns (vol D) j sl b \<Longrightarrow> b \<notin> {0, 2, 3, 4, 5}"
  using blocks_okD(5) [OF vinvD(3) [OF img_invD(1)]] by fastforce

definition cleared :: "inode \<Rightarrow> inode" where
  "cleared n = n\<lparr>i_direct := replicate 8 0, i_indirect := 0, i_size := 0\<rparr>"

definition truncated :: "nat \<Rightarrow> image \<Rightarrow> image" where
  "truncated i D = set_ino i (cleared (ino_at D i)) (drops (blocks_of D (ino_at D i)) D)"

lemma truncated_inv:
  assumes inv: "img_inv D" and n: "vol D i = Some n" "vn_mode n = INODE_FILE"
  shows "img_inv (truncated i D)" "vol (truncated i D) = vfile i (n\<lparr>vn_size := 0, vn_ptr := (\<lambda>_. 0)\<rparr>) (vol D)"
    "busy (truncated i D) = busy D - owned_set (vol D) i" "ino_at (truncated i D) i = cleared (ino_at D i)"
proof -
  let ?E = "truncated i D" and ?bs = "blocks_of D (ino_at D i)" and ?n = "n\<lparr>vn_size := 0, vn_ptr := (\<lambda>_. 0)\<rparr>"
  note dr = drops_spec [OF img_invD(2) [OF inv], of ?bs]
  have i: "i < 64" "n = vnode_of D (ino_at D i)" using n(1) by (auto simp: vol_Some)
  have l: "length (drops ?bs D 4) = 4096" using wf_imgD [OF conjunct1 [OF dr]] by simp
  have ino: "ino_at ?E j = (if j = i then cleared (ino_at D i) else ino_at D j)" for j
    using l i(1) dr by (simp add: truncated_def cleared_def) (simp add: ino_at_def)
  then show "ino_at ?E i = cleared (ino_at D i)" by simp
  have b: "bm ?E b k = bm (drops ?bs D) b k" if "b \<noteq> 4" for b k using that by (simp add: truncated_def)
  have wf: "wf_img ?E" using dr by (simp add: wf_img_def truncated_def)
  have "vnode_of ?E (ino_at ?E i) = ?n"
    using i(2) n(2) ino by (auto simp: vnode_of_def cleared_def ptr_def fun_eq_iff)
  moreover have "vol ?E = vfile i (vnode_of ?E (ino_at ?E i)) (vol D)"
  proof (rule file_vol [OF inv, of "{2, 4}"])
    show "?E c = D c" if "c \<notin> {2, 4}" for c using that dr by (simp add: truncated_def)
    show "used_ino ?E j = used_ino D j" for j using b dr by (simp add: bm_def)
  qed (use ino n(1) owns_range [OF inv] in auto)
  ultimately show v: "vol ?E = vfile i ?n (vol D)" by simp
  show u: "busy ?E = busy D - owned_set (vol D) i" using b dr owned_blocks [OF n(1)] by (auto simp: busy_def)
  have "vinv (vfile i ?n (vol D)) (busy D - owned_set (vol D) i)"
    using n file_okD(1) [OF img_invD(1) [OF inv] n(1)] blocks_okD(1) [OF vinvD(3) [OF img_invD(1) [OF inv]]]
    by (intro vfile_vinv [OF img_invD(1) [OF inv] n]) (auto simp: file_ok_def)
  then show "img_inv ?E" using v u wf by (simp add: img_inv_def)
qed

text \<open>The part of \<^verbatim>\<open>fs_open\<close> after the inode is known.\<close>

definition open_ino :: "u32 \<Rightarrow> u32 \<Rightarrow> fs \<Rightarrow> int \<times> fs" where
  "open_ino ino flags s1 =
     (let (inn, s2) = inode_read ino s1 in
      if i_mode inn \<noteq> INODE_FILE then (-5, s2)
      else
        let (in1, s3) =
          (if flags AND FS_O_TRUNC \<noteq> 0 then
             (let (in1, s3) = release_inode_blocks inn s2;
                  in2 = in1\<lparr>i_size := 0\<rparr>
              in (in2, inode_write ino in2 s3))
           else (inn, s2))
        in case scan (\<lambda>i. \<not> fd_used (f_fds s3 ! i)) 0 FS_MAX_FD of
          None \<Rightarrow> (-6, s3)
        | Some i \<Rightarrow>
            (int i, s3\<lparr>f_fds := (f_fds s3)[i := \<lparr>fd_inode = ino,
               fd_offset = (if flags AND FS_O_APPEND \<noteq> 0 then i_size in1 else 0),
               fd_flags = flags, fd_used = True\<rparr>]\<rparr>))"

definition open_effect :: "u32 \<Rightarrow> u32 \<Rightarrow> image \<Rightarrow> image" where
  "open_effect c flags D = (if flags AND FS_O_TRUNC \<noteq> 0 then truncated (unat c) D else D)"

definition new_fd :: "u32 \<Rightarrow> u32 \<Rightarrow> image \<Rightarrow> file_desc" where
  "new_fd c flags D = \<lparr>fd_inode = c,
     fd_offset = (if flags AND FS_O_APPEND \<noteq> 0 then i_size (ino_at (open_effect c flags D) (unat c)) else 0),
     fd_flags = flags, fd_used = True\<rparr>"

definition free_fd :: "file_desc list \<Rightarrow> nat option" where
  "free_fd fds = scan (\<lambda>i. \<not> fd_used (fds ! i)) 0 16"

lemma open_ino_spec:
  assumes U: "fs_upd D s0 s" and inv: "img_inv D" and g: "good D c"
  shows "\<exists>s'. (if i_mode (ino_at D (unat c)) \<noteq> INODE_FILE then fs_upd D s0 s' \<and> open_ino c flags s = (-5, s')
    else fs_upd (open_effect c flags D) s0 s' \<and> open_ino c flags s =
      (case free_fd (f_fds s0) of None \<Rightarrow> (-6, s')
       | Some k \<Rightarrow> (int k, s'\<lparr>f_fds := (f_fds s0)[k := new_fd c flags D]\<rparr>)))"
proof -
  let ?n = "ino_at D (unat c)"
  have c: "c < 64" "unat c < 64" using g by (auto simp: good_def word_less_nat_alt)
  obtain n where n: "vol D (unat c) = Some n" using g by (auto simp: good_dom)
  obtain s2 where s2: "inode_read c s = (?n, s2)" "fs_upd D s0 s2" using inode_read_upd [OF U c(1)] by auto
  show ?thesis
  proof (cases "i_mode ?n = INODE_FILE")
    case False
    then show ?thesis using s2 by (auto simp: open_ino_def)
  next
    case True
    then have nm: "vn_mode n = INODE_FILE" using n by (simp add: vol_Some)
    show ?thesis
    proof (cases "flags AND FS_O_TRUNC = 0")
      case tr: True
      then show ?thesis using s2 True fs_updD(3) [OF s2(2)]
        by (auto simp: open_ino_def free_fd_def open_effect_def new_fd_def split: option.splits)
    next
      case False
      obtain s3 where s3: "release_inode_blocks ?n s2 = (?n\<lparr>i_direct := replicate 8 0, i_indirect := 0\<rparr>, s3)"
          "fs_upd (drops (blocks_of D ?n) D) s0 s3"
        using release_upd [OF s2(2), of ?n] indirect_range [OF inv n] by fastforce
      have s4: "fs_upd (truncated (unat c) D) s0 (inode_write c (cleared ?n) s3)"
        using inode_write_upd [OF s3(2) c(1)] by (simp add: truncated_def)
      have "?n\<lparr>i_direct := replicate 8 0, i_indirect := 0\<rparr>\<lparr>i_size := 0\<rparr> = cleared ?n" by (simp add: cleared_def)
      then have "open_ino c flags s = (case scan (\<lambda>i. \<not> fd_used (f_fds (inode_write c (cleared ?n) s3) ! i)) 0 16 of
          None \<Rightarrow> (-6, inode_write c (cleared ?n) s3)
        | Some i \<Rightarrow> (int i, (inode_write c (cleared ?n) s3)\<lparr>f_fds := (f_fds (inode_write c (cleared ?n) s3))[i := \<lparr>fd_inode = c,
               fd_offset = (if flags AND FS_O_APPEND \<noteq> 0 then i_size (cleared ?n) else 0), fd_flags = flags, fd_used = True\<rparr>]\<rparr>))"
        using True False s2(1) s3(1) by (simp add: open_ino_def Let_def cong: option.case_cong)
      then show ?thesis using True False s4 fs_updD(3) [OF s4] truncated_inv(4) [OF inv n nm]
        by (auto simp: free_fd_def open_effect_def new_fd_def split: option.splits)
    qed
  qed
qed

end
