(* ===== verification/Fs_Open.thy ===== *)
theory Fs_Open
  imports Fs_Ops
begin

text \<open>Opening a file: an existing one, or a new one when the flags ask for it; formatting and start-up.\<close>

unbundle bit_operations_syntax

lemma fs_open_unfold:
  "f_ready s \<Longrightarrow> fs_open (Some p) flags s =
     (case resolve_path (Some p) (f_cwd s) s of
        (Some ino, s1) \<Rightarrow> open_ino ino flags s1
      | (None, s1) \<Rightarrow>
          if flags AND FS_O_CREATE = 0 then (-2, s1)
          else (case split_parent (Some p) s1 of
              (None, s2) \<Rightarrow> (-3, s2)
            | (Some (parent, name), s2) \<Rightarrow>
                (case create_inode parent name INODE_FILE s2 of
                   (Inl _, s3) \<Rightarrow> (-4, s3)
                 | (Inr ino, s3) \<Rightarrow> open_ino ino flags s3)))"
  by (simp add: fs_open_def open_ino_def split: option.splits prod.splits sum.splits)

subsection \<open>Existing files\<close>

lemma fs_open_found:
  assumes inv: "fs_inv s" and c: "open_find (img s) (f_cwd s) p = Some c"
  shows "\<exists>s'. (if i_mode (ino_at (img s) (unat c)) \<noteq> INODE_FILE then fs_upd (img s) s s' \<and> fs_open (Some p) flags s = (-5, s')
    else fs_upd (open_effect c flags (img s)) s s' \<and> fs_open (Some p) flags s =
      (case free_fd (f_fds s) of None \<Rightarrow> (-6, s')
       | Some k \<Rightarrow> (int k, s'\<lparr>f_fds := (f_fds s)[k := new_fd c flags (img s)]\<rparr>)))"
proof -
  note I = fs_invD [OF inv]
  obtain s1 where s1: "resolve_path (Some p) (f_cwd s) s = (Some c, s1)" "fs_upd (img s) s s1"
    using resolve_find [OF I(1,4,5), of p] c by auto
  have "fs_open (Some p) flags s = open_ino c flags s1" using fs_open_unfold [OF I(2)] s1(1) by simp
  then show ?thesis using open_ino_spec [OF s1(2) I(3) open_find_good [OF I(4,5) c], of flags] by (simp only:)
qed

subsection \<open>New files\<close>

lemma open_missing_start:
  assumes inv: "fs_inv s" and c: "open_find (img s) (f_cwd s) p = None" and cr: "flags AND FS_O_CREATE \<noteq> 0"
    and w: "parent_walk (img s) p (f_cwd s) = Some (d, nm)"
  shows "\<exists>s3 E. fs_open (Some p) flags s = (case create_result (img s) (unat d) nm of Inl _ \<Rightarrow> (-4, s3) | Inr ino \<Rightarrow> open_ino ino flags s3)
    \<and> fs_upd E s s3 \<and> img_inv E \<and> create_effect (img s) (unat d) nm INODE_FILE E \<and> fs_inv s3"
proof -
  note I = fs_invD [OF inv]
  obtain s1 where s1: "resolve_path (Some p) (f_cwd s) s = (None, s1)" "fs_upd (img s) s s1"
    using resolve_find [OF I(1,4,5), of p] c by auto
  have cwd: "f_cwd s1 = f_cwd s" using fs_updD(4) [OF s1(2)] .
  obtain s2 where s2: "split_parent (Some p) s1 = (Some (d, nm), s2)" "fs_upd (img s) s s2"
    using split_parent_walk [OF s1(2) I(4), of p] I(5) w cwd by auto
  note n = parent_walk_name [OF w]
  obtain s3 E where s3: "create_inode d nm INODE_FILE s2 = (create_result (img s) (unat d) nm, s3)" "fs_upd E s s3" "img_inv E"
      "create_effect (img s) (unat d) nm INODE_FILE E" "fs_inv s3"
    using create_inode_inv [OF s2(2) I(3,2,6,7) parent_walk_good [OF I(4,5) w] n(5,1), of INODE_FILE] n(2) by auto
  have "fs_open (Some p) flags s = (case create_result (img s) (unat d) nm of Inl _ \<Rightarrow> (-4, s3) | Inr ino \<Rightarrow> open_ino ino flags s3)"
    using fs_open_unfold [OF I(2), of p flags] s1(1) s2(1) s3(1) cr by (simp split: sum.splits)
  then show ?thesis using s3(2-5) by blast
qed

lemma created_node:
  assumes "create_effect D d nm mode E" "create_result D d nm = Inr c" "d < 64" "used_ino D d"
  shows "good E c" "i_mode (ino_at E (unat c)) = mode" "i_size (ino_at E (unat c)) = 0"
    "\<exists>b. free_scan D = Some b \<and> vol E (unat c) = Some (new_node mode (unat c) d b)"
proof -
  obtain e b where v: "vol E = vcreate d e nm mode (unat c) b (vol D)" "free_scan D = Some b"
    using assms(1,2) by (auto simp: create_effect_def)
  have "d \<noteq> unat c" using create_result_Inr(3) [OF assms(2)] assms(4) by (auto simp: scan_Some_iff)
  then have x: "vol E (unat c) = Some (new_node mode (unat c) d b)" using v by (simp add: vcreate_def)
  then show "good E c" "\<exists>b. free_scan D = Some b \<and> vol E (unat c) = Some (new_node mode (unat c) d b)"
    using v(2) by (auto simp: good_dom)
  have "vnode_of E (ino_at E (unat c)) = new_node mode (unat c) d b" using x by (simp add: vol_Some)
  then show "i_mode (ino_at E (unat c)) = mode" "i_size (ino_at E (unat c)) = 0"
    by (metis vnode_fields(1) new_node_def vnode.select_convs(1)) (metis \<open>vnode_of E _ = _\<close> vnode_fields(2) new_node_def vnode.select_convs(2))
qed

lemma fs_open_new:
  assumes inv: "fs_inv s" and c: "open_find (img s) (f_cwd s) p = None" and cr: "flags AND FS_O_CREATE \<noteq> 0"
    and w: "parent_walk (img s) p (f_cwd s) = Some (d, nm)" and r: "create_result (img s) (unat d) nm = Inr ino"
  shows "\<exists>s' E. create_effect (img s) (unat d) nm INODE_FILE E \<and> img_inv E \<and> fs_upd (open_effect ino flags E) s s' \<and> fs_open (Some p) flags s =
      (case free_fd (f_fds s) of None \<Rightarrow> (-6, s')
       | Some k \<Rightarrow> (int k, s'\<lparr>f_fds := (f_fds s)[k := new_fd ino flags E]\<rparr>))"
proof -
  note I = fs_invD [OF inv]
  obtain s3 E where s3: "fs_open (Some p) flags s = open_ino ino flags s3" "fs_upd E s s3" "img_inv E"
      "create_effect (img s) (unat d) nm INODE_FILE E"
    using open_missing_start [OF inv c cr w] r by auto
  have d: "unat d < 64" "used_ino (img s) (unat d)"
    using parent_walk_good [OF I(4,5) w] by (auto simp: good_def word_less_nat_alt)
  note n = created_node [OF s3(4) r d]
  obtain s' where "fs_upd (open_effect ino flags E) s s'" "open_ino ino flags s3 = (case free_fd (f_fds s) of None \<Rightarrow> (-6, s')
       | Some k \<Rightarrow> (int k, s'\<lparr>f_fds := (f_fds s)[k := new_fd ino flags E]\<rparr>))"
    using open_ino_spec [OF s3(2,3) n(1), of flags] n(2) by auto
  then show ?thesis using s3(3,4) unfolding s3(1) by (intro exI conjI)
qed

lemma fs_open_failed:
  assumes inv: "fs_inv s" and c: "open_find (img s) (f_cwd s) p = None"
    and f: "flags AND FS_O_CREATE = 0 \<or> parent_walk (img s) p (f_cwd s) = None
      \<or> (\<exists>d nm rc. parent_walk (img s) p (f_cwd s) = Some (d, nm) \<and> create_result (img s) (unat d) nm = Inl rc)"
  shows "\<exists>s' rc. fs_open (Some p) flags s = (rc, s') \<and> rc < 0 \<and> fs_inv s' \<and> vol (img s') = vol (img s)
    \<and> f_fds s' = f_fds s \<and> f_cwd s' = f_cwd s"
proof -
  note I = fs_invD [OF inv]
  obtain s1 where s1: "resolve_path (Some p) (f_cwd s) s = (None, s1)" "fs_upd (img s) s s1"
    using resolve_find [OF I(1,4,5), of p] c by auto
  have cwd: "f_cwd s1 = f_cwd s" using fs_updD(4) [OF s1(2)] .
  obtain s2 where s2: "split_parent (Some p) s1 = (parent_walk (img s) p (f_cwd s), s2)" "fs_upd (img s) s s2"
    using split_parent_walk [OF s1(2) I(4), of p] I(5) cwd by auto
  show ?thesis
  proof (cases "flags AND FS_O_CREATE = 0 \<or> parent_walk (img s) p (f_cwd s) = None")
    case True
    then obtain s' rc where "fs_open (Some p) flags s = (rc, s')" "rc < 0" "fs_upd (img s) s s'"
      using fs_open_unfold [OF I(2), of p flags] s1 s2 by (cases "flags AND FS_O_CREATE = 0") auto
    then show ?thesis using fs_inv_same [OF inv, of s'] by (auto simp: fs_upd_def)
  next
    case False
    then obtain d nm rc where w: "parent_walk (img s) p (f_cwd s) = Some (d, nm)" "create_result (img s) (unat d) nm = Inl rc"
      using f by auto
    have cr: "flags AND FS_O_CREATE \<noteq> 0" using False by simp
    obtain s3 E where "fs_open (Some p) flags s = (-4, s3)" "fs_upd E s s3" "create_effect (img s) (unat d) nm INODE_FILE E" "fs_inv s3"
      using open_missing_start [OF inv c cr w(1)] w(2) by auto
    then show ?thesis using w(2) by (auto simp: create_effect_def fs_upd_def)
  qed
qed

lemma vfile_keeps: "N i = Some n \<Longrightarrow> vn_mode m = vn_mode n \<Longrightarrow> keeps N (vfile i m N)"
  by (auto simp: keeps_def vfile_def)

lemma open_effect_inv:
  assumes "img_inv D" "good D c" "i_mode (ino_at D (unat c)) = INODE_FILE"
  shows "img_inv (open_effect c flags D)" "keeps (vol D) (vol (open_effect c flags D))"
proof -
  obtain n where n: "vol D (unat c) = Some n" using assms(2) by (auto simp: good_dom)
  then have m: "vn_mode n = INODE_FILE" using assms(3) by (simp add: vol_Some)
  show "img_inv (open_effect c flags D)" "keeps (vol D) (vol (open_effect c flags D))"
    using assms(1) truncated_inv(1,2) [OF assms(1) n m] n by (auto simp: open_effect_def intro!: vfile_keeps)
qed

lemma fd_added:
  assumes "fds_ok N fds" "\<exists>n. N (unat c) = Some n \<and> vn_mode n = INODE_FILE"
  shows "fds_ok N (fds[k := new_fd c flags D])"
proof -
  have "f = new_fd c flags D \<or> f \<in> set fds" if "f \<in> set (fds[k := new_fd c flags D])" for f
    using that set_update_subset_insert by fastforce
  moreover have "fd_inode (new_fd c flags D) = c" by (simp add: new_fd_def)
  ultimately show ?thesis using assms unfolding fds_ok_def by (metis length_list_update)
qed

lemma open_done_inv:
  assumes inv: "img_inv E" "good E c" "i_mode (ino_at E (unat c)) = INODE_FILE" and U: "fs_upd (open_effect c flags E) s s'"
    and s: "f_ready s" "cwd_ok (vol E) (f_cwd s)" "fds_ok (vol E) (f_fds s)"
  shows "fs_inv s'" "fs_inv (s'\<lparr>f_fds := (f_fds s)[k := new_fd c flags E]\<rparr>)"
proof -
  note o = open_effect_inv [OF inv, of flags]
  note K = keepsD(1) [OF o(2) s(2)] keepsD(2) [OF o(2) s(3)]
  show "fs_inv s'" by (rule fs_inv_upd [OF U o(1) s(1) K])
  obtain n where "vol E (unat c) = Some n" "vn_mode n = INODE_FILE" using inv(2,3) by (auto simp: good_dom vol_Some)
  then have "\<exists>n. vol (open_effect c flags E) (unat c) = Some n \<and> vn_mode n = INODE_FILE" using o(2) unfolding keeps_def by metis
  then show "fs_inv (s'\<lparr>f_fds := (f_fds s)[k := new_fd c flags E]\<rparr>)"
    using fd_added [OF K(2)] U o(1) s(1) K(1) by (auto simp: fs_inv_def fs_upd_def)
qed

lemma fs_open_inv:
  assumes inv: "fs_inv s"
  shows "fs_inv (snd (fs_open (Some p) flags s))"
proof (cases "open_find (img s) (f_cwd s) p")
  case (Some c)
  note I = fs_invD [OF inv]
  show ?thesis
  proof (cases "i_mode (ino_at (img s) (unat c)) = INODE_FILE")
    case True
    obtain s' where s': "fs_upd (open_effect c flags (img s)) s s'" "fs_open (Some p) flags s =
      (case free_fd (f_fds s) of None \<Rightarrow> (-6, s') | Some k \<Rightarrow> (int k, s'\<lparr>f_fds := (f_fds s)[k := new_fd c flags (img s)]\<rparr>))"
      using fs_open_found [OF inv Some, of flags] True by auto
    show ?thesis using open_done_inv [OF I(3) open_find_good [OF I(4,5) Some] True s'(1) I(2,6,7)] s'(2) by (auto split: option.splits)
  next
    case False
    then show ?thesis using fs_open_found [OF inv Some, of flags] fs_inv_same [OF inv] by auto
  qed
next
  case None
  note I = fs_invD [OF inv]
  show ?thesis
  proof (cases "\<exists>d nm c. flags AND FS_O_CREATE \<noteq> 0 \<and> parent_walk (img s) p (f_cwd s) = Some (d, nm) \<and> create_result (img s) (unat d) nm = Inr c")
    case True
    then obtain d nm c where cr: "flags AND FS_O_CREATE \<noteq> 0" and w: "parent_walk (img s) p (f_cwd s) = Some (d, nm)"
      and r: "create_result (img s) (unat d) nm = Inr c" by blast
    obtain s' E where s': "create_effect (img s) (unat d) nm INODE_FILE E" "img_inv E" "fs_upd (open_effect c flags E) s s'"
      "fs_open (Some p) flags s = (case free_fd (f_fds s) of None \<Rightarrow> (-6, s')
       | Some k \<Rightarrow> (int k, s'\<lparr>f_fds := (f_fds s)[k := new_fd c flags E]\<rparr>))"
      using fs_open_new [OF inv None cr w r] by blast
    have d: "unat d < 64" "used_ino (img s) (unat d)"
      using parent_walk_good [OF I(4,5) w] by (auto simp: good_def word_less_nat_alt)
    note n = created_node [OF s'(1) r d] and K = create_effect_keeps [OF s'(1)]
    show ?thesis using open_done_inv [OF s'(2) n(1,2) s'(3) I(2) keepsD(1) [OF K I(6)] keepsD(2) [OF K I(7)]] s'(4)
      by (auto split: option.splits)
  next
    case False
    have "flags AND FS_O_CREATE = 0 \<or> parent_walk (img s) p (f_cwd s) = None
      \<or> (\<exists>d nm rc. parent_walk (img s) p (f_cwd s) = Some (d, nm) \<and> create_result (img s) (unat d) nm = Inl rc)"
    proof (cases "parent_walk (img s) p (f_cwd s)")
      case (Some r)
      obtain d nm where r: "r = (d, nm)" by fastforce
      then show ?thesis using Some False by (cases "create_result (img s) (unat d) nm") auto
    qed simp
    then show ?thesis using fs_open_failed [OF inv None, of flags] by auto
  qed
qed

subsection \<open>Formatting\<close>

lemma bitmap_fold_upd:
  "fs_upd D s0 s \<Longrightarrow> fs_upd (fold (\<lambda>i. bm_set 2 i True) xs D) s0 (fold (\<lambda>i. bitmap_set 2 i True) xs s)"
proof (induction xs arbitrary: D s)
  case (Cons x xs)
  then show ?case using Cons.IH [OF bitmap_set_upd [OF Cons.prems, of 2 x True]] by simp
qed simp

lemma bm_fold:
  "length (D 2) = 4096 \<Longrightarrow> \<forall>k \<in> set xs. k < 32768 \<Longrightarrow>
   (\<forall>c. length (fold (\<lambda>i. bm_set 2 i True) xs D c) = length (D c)) \<and> (\<forall>c. c \<noteq> 2 \<longrightarrow> fold (\<lambda>i. bm_set 2 i True) xs D c = D c)
   \<and> (\<forall>k. bm (fold (\<lambda>i. bm_set 2 i True) xs D) 2 k \<longleftrightarrow> bm D 2 k \<or> k \<in> set xs)"
proof (induction xs arbitrary: D)
  case (Cons x xs)
  have "length (bm_set 2 x True D 2) = 4096" using Cons.prems by simp
  then show ?case using Cons.IH [of "bm_set 2 x True D"] Cons.prems by auto
qed simp

lemma bm_set_bm_other [simp]: "c \<noteq> b \<Longrightarrow> bm (bm_set b k v D) c j = bm D c j"
  by (simp add: bm_def)

lemma bm_zeros: "D b = zeros \<Longrightarrow> k < 32768 \<Longrightarrow> \<not> bm D b k"
  by (simp add: bm_def)

text \<open>The volume of a fresh disk: the root directory and nothing else.\<close>

definition fresh_vol :: volume where
  "fresh_vol = [0 \<mapsto> new_node INODE_DIR 0 0 1]"

lemma fresh_vinv: "vinv fresh_vol {}"
proof -
  have own: "owns fresh_vol i sl b \<longleftrightarrow> i = 0 \<and> sl = 0 \<and> b = 1" for i sl b
    by (auto simp: owns_def fresh_vol_def new_node_def)
  have kid: "\<not> kid fresh_vol d e i" for d e i by (auto simp: kid_def fresh_vol_def new_node_def split: if_splits)
  have "dir_ok fresh_vol 0 (new_node INODE_DIR 0 0 1)"
    by (rule dir_okI [of _ _ 0]) (auto simp: new_node_def fresh_vol_def split: if_splits)
  moreover have "fresh_vol i = Some n \<Longrightarrow> i = 0 \<and> n = new_node INODE_DIR 0 0 1" for i n by (auto simp: fresh_vol_def split: if_splits)
  moreover have "vn_mode (new_node INODE_DIR 0 0 1) = INODE_DIR" by (simp add: new_node_def)
  ultimately have "\<forall>i n. fresh_vol i = Some n \<longrightarrow> node_inv fresh_vol i n" unfolding node_inv_def by (metis zero_less_numeral)
  moreover have "root_ok fresh_vol" by (simp add: root_ok_def fresh_vol_def new_node_def)
  moreover have "tree_ok fresh_vol" using kid tree.root by (auto simp: tree_ok_def fresh_vol_def split: if_splits)
  ultimately show ?thesis using own by (simp add: vinv_def blocks_ok_def)
qed

definition lengths_ok :: "fs \<Rightarrow> bool" where
  "lengths_ok s \<longleftrightarrow> length (f_disk s) = 1048576 \<and> length (f_buf s) = 4096 \<and> length (f_buf2 s) = 4096 \<and> length (f_junk s) = 4096"

lemma length_put_super [simp]: "length (put_super sb b) = length b"
  by (simp add: put_super_def)

lemma fs_format_spec:
  assumes l: "lengths_ok s"
  shows "\<exists>E s1. fs_format s = (0, s1\<lparr>f_cwd := 0, f_ready := True\<rparr>) \<and> fs_ok s1 \<and> img s1 = E \<and> f_fds s1 = f_fds s \<and> f_con s1 = f_con s
    \<and> vol E = fresh_vol \<and> busy E = {}"
proof -
  let ?sb = "put_super fs_super (mem_zero 0 4096 (f_buf s))"
  let ?s1 = "s\<lparr>f_disk := mem_zero 0 1048576 (f_disk s), f_buf := ?sb\<rparr>"
  let ?root = "zero_inode\<lparr>i_mode := INODE_DIR, i_direct := (replicate 8 0)[0 := 1]\<rparr>"
  have disk: "mem_zero 0 1048576 (f_disk s) = blank_disk" using l mem_zero_all [of "f_disk s" 1048576] by (simp add: lengths_ok_def blank_disk_def)
  have ok1: "fs_ok ?s1" using l disk blank_disk_ok by (simp add: fs_ok_def lengths_ok_def)
  have z: "img ?s1 b = zeros" if "b < 254" for b using that disk block_of_blank [of b] by (simp add: img_def zeros_def)
  obtain s2 where s2: "write_block 0 ?sb ?s1 = (0, s2)" "fs_upd ((img ?s1)(0 := ?sb)) ?s1 s2"
    using write_block_upd [OF fs_upd_refl [OF ok1], of 0 ?sb] l by (auto simp: lengths_ok_def)
  let ?D1 = "(img ?s1)(0 := ?sb)"
  let ?D4 = "fold (\<lambda>i. bm_set 2 i True) [254..<256] (fold (\<lambda>i. bm_set 2 i True) [0..<6] ?D1)"
  let ?s4 = "fold (\<lambda>i. bitmap_set 2 i True) [254..<256] (fold (\<lambda>i. bitmap_set 2 i True) [0..<6] s2)"
  have s4: "fs_upd ?D4 ?s1 ?s4" by (intro bitmap_fold_upd s2(2))
  let ?D6 = "set_ino 0 ?root (bm_set 3 0 True ?D4)"
  let ?s6 = "inode_write 0 ?root (bitmap_set 3 0 True ?s4)"
  have s6: "fs_upd ?D6 ?s1 ?s6" using inode_write_upd [OF bitmap_set_upd [OF s4, of 3 0 True], of 0 ?root] by simp
  have lb: "length (f_buf ?s6) = 4096" using s6 by (simp add: fs_upd_def fs_ok_def)
  let ?x = "dot_entries 0 0 (no_entries (f_buf ?s6))"
  note x = dot_entries_spec [OF lb, of 0 0]
  obtain s8 where s8: "write_block 1 ?x (?s6\<lparr>f_buf := ?x\<rparr>) = (0, s8)" "fs_upd (?D6(1 := ?x)) ?s1 s8"
    using buf_write(1) [OF s6, of 1 ?x] x by auto
  let ?E = "?D6(1 := ?x)"
  have "fs_format s = (0, s8\<lparr>f_cwd := 0, f_ready := True\<rparr>)"
    using s2(1) s8(1) by (simp add: fs_format_def Let_def)
  moreover have f: "fs_ok s8" "img s8 = ?E" "f_fds s8 = f_fds s" "f_con s8 = f_con s" using s8(2) by (auto simp: fs_upd_def)
  have b1: "length (?D1 2) = 4096" using z by simp
  note b2 = bm_fold [of ?D1 "[0..<6]", OF b1]
  have b2': "length (fold (\<lambda>i. bm_set 2 i True) [0..<6] ?D1 2) = 4096" using b2 b1 by auto
  note b4 = bm_fold [of "fold (\<lambda>i. bm_set 2 i True) [0..<6] ?D1", OF b2', of "[254..<256]"]
  have D4: "?D4 3 = zeros" "length (?D4 4) = 4096" "bm ?D4 2 k \<longleftrightarrow> bm ?D1 2 k \<or> k < 6 \<or> k = 254 \<or> k = 255" for k
    using b2 b4 z by auto
  have D1: "\<not> bm ?D1 2 k" if "k < 32768" for k using that z by (intro bm_zeros) simp_all
  have u: "used_ino ?E j \<longleftrightarrow> j = 0" if "j < 64" for j using that D4(1) bm_zeros [of ?D4 3 j] by simp
  have i0: "ino_at ?E 0 = new_inode INODE_DIR 1" using D4(2) by (simp add: new_inode_def zero_inode_def)
  have "vnode_of ?E (new_inode INODE_DIR 1) = new_node INODE_DIR 0 0 1" using x(2) by (intro vnode_new) simp_all
  then have "vol ?E j = fresh_vol j" for j using u [of 0] i0 u [of j] by (auto simp: vol_def fresh_vol_def)
  then have "vol ?E = fresh_vol" by blast
  moreover have "busy ?E = {}" using D4(3) D1 by (auto simp: busy_def)
  ultimately show ?thesis using f by blast
qed

lemma fs_format_inv:
  assumes l: "lengths_ok s" and f: "length (f_fds s) = 16" "\<forall>f \<in> set (f_fds s). \<not> fd_used f"
  shows "fs_inv (snd (fs_format s))" "fst (fs_format s) = 0" "vol (img (snd (fs_format s))) = fresh_vol" "busy (img (snd (fs_format s))) = {}"
    "f_cwd (snd (fs_format s)) = 0" "f_fds (snd (fs_format s)) = f_fds s" "f_con (snd (fs_format s)) = f_con s"
proof -
  obtain s1 where s1: "fs_format s = (0, s1\<lparr>f_cwd := 0, f_ready := True\<rparr>)" "fs_ok s1" "f_fds s1 = f_fds s" "f_con s1 = f_con s"
      "vol (img s1) = fresh_vol" "busy (img s1) = {}"
    using fs_format_spec [OF l] by blast
  have "img_inv (img s1)" using s1 fresh_vinv by (simp add: img_inv_def wf_img_def)
  then show "fs_inv (snd (fs_format s))" using s1 f by (simp add: fs_inv_def cwd_ok_def fds_ok_def) (simp add: fresh_vol_def new_node_def)
  show "fst (fs_format s) = 0" "vol (img (snd (fs_format s))) = fresh_vol" "busy (img (snd (fs_format s))) = {}"
    "f_cwd (snd (fs_format s)) = 0" "f_fds (snd (fs_format s)) = f_fds s" "f_con (snd (fs_format s)) = f_con s"
    using s1 by simp_all
qed

lemma fs_init_blank:
  assumes l: "lengths_ok s" and b: "f_disk s = blank_disk"
  shows "fs_inv (fs_init s)" "vol (img (fs_init s)) = fresh_vol" "busy (img (fs_init s)) = {}" "f_cwd (fs_init s) = 0"
    "f_fds (fs_init s) = replicate 16 zero_fd" "f_con (fs_init s) = f_con s"
proof -
  have j: "j_magic blank_disk = 0" by (simp add: j_magic_def blank_disk_def get32_replicate block_off_def)
  then have ri: "ramdisk_init blank_disk = blank_disk" by (simp add: ramdisk_init_def journal_recover_def)
  have ok: "fs_ok s" using l b blank_disk_ok by (simp add: fs_ok_def lengths_ok_def)
  let ?s1 = "read_buf 0 s"
  have s1: "fs_upd (img s) s ?s1" "f_buf ?s1 = img s 0" using read_buf_spec [OF ok, of 0] by auto
  have "img s 0 = replicate 4096 0" using b block_of_blank [of 0] by (simp add: img_def)
  then have m: "sb_magic (get_super (f_buf ?s1)) = 0" using s1(2) by (simp add: get_super_def get32_replicate)
  have "s\<lparr>f_disk := ramdisk_init (f_disk s)\<rparr> = s" using b ri by simp
  then have eq: "fs_init s = (snd (fs_format ?s1))\<lparr>f_fds := replicate 16 zero_fd\<rparr>" using m by (simp add: fs_init_def Let_def)
  have l1: "lengths_ok ?s1" using s1(1) by (simp add: lengths_ok_def fs_upd_def fs_ok_def disk_ok_def)
  obtain s2 where s2: "fs_format ?s1 = (0, s2\<lparr>f_cwd := 0, f_ready := True\<rparr>)" "fs_ok s2" "f_con s2 = f_con ?s1"
      "vol (img s2) = fresh_vol" "busy (img s2) = {}"
    using fs_format_spec [OF l1] by blast
  have "img_inv (img s2)" using s2 fresh_vinv by (simp add: img_inv_def wf_img_def)
  then show "fs_inv (fs_init s)" using s2 eq by (simp add: fs_inv_def cwd_ok_def fds_ok_def) (simp add: fresh_vol_def new_node_def zero_fd_def)
  show "vol (img (fs_init s)) = fresh_vol" "busy (img (fs_init s)) = {}" "f_cwd (fs_init s) = 0"
    "f_fds (fs_init s) = replicate 16 zero_fd" "f_con (fs_init s) = f_con s" using eq s2 fs_updD(6) [OF s1(1)] by simp_all
qed

text \<open>The file system after the machine has started.\<close>

definition fs_start :: fs where
  "fs_start = \<lparr>f_disk = blank_disk, f_buf = zeros, f_buf2 = zeros, f_junk = zeros, f_fds = replicate 16 zero_fd, f_cwd = 0, f_ready = False, f_con = vga_boot\<rparr>"

definition fs_boot :: fs where
  "fs_boot = fs_init fs_start"

lemma fs_boot_props:
  "fs_inv fs_boot" "vol (img fs_boot) = fresh_vol" "busy (img fs_boot) = {}" "f_cwd fs_boot = 0" "f_fds fs_boot = replicate 16 zero_fd"
proof -
  have l: "lengths_ok fs_start" by (simp add: lengths_ok_def fs_start_def blank_disk_def)
  have b: "f_disk fs_start = blank_disk" by (simp add: fs_start_def)
  show "fs_inv fs_boot" "vol (img fs_boot) = fresh_vol" "busy (img fs_boot) = {}" "f_cwd fs_boot = 0" "f_fds fs_boot = replicate 16 zero_fd"
    using fs_init_blank [OF l b] by (simp_all add: fs_boot_def)
qed

end
