(* ===== verification/Fs_File.thy ===== *)
theory Fs_File
  imports Fs_Ops
begin

text \<open>
  The contents of files. A file is the sequence of the bytes of its blocks, a hole reading as zeros. While
  \<^verbatim>\<open>fs_write\<close> runs, the inode it changes is a local variable and the disk holds the old one; the state of its
  loop is therefore an image together with that inode, and its invariant that the image would be well formed
  with the inode written to it.
\<close>

unbundle bit_operations_syntax

subsection \<open>Contents\<close>

definition fslot :: "nat \<Rightarrow> nat" where
  "fslot q = (if q < 8 then q else q + 1)"

definition fbyte :: "image \<Rightarrow> inode \<Rightarrow> nat \<Rightarrow> u8" where
  "fbyte D n k = (let p = ptr D n (fslot (k div 4096)) in if p = 0 then 0 else D (unat p) ! (k mod 4096))"

lemma fslot_not_8 [simp]: "fslot q \<noteq> 8"
  by (simp add: fslot_def)

lemma fslot_inj: "fslot q = fslot r \<longleftrightarrow> q = r"
  by (auto simp: fslot_def)

text \<open>Inode \<open>i\<close> is the file \<open>n\<close> once \<open>n\<close> is written to the image.\<close>

definition wstate :: "image \<Rightarrow> nat \<Rightarrow> inode \<Rightarrow> bool" where
  "wstate D i n \<longleftrightarrow> wf_img D \<and> i < 64 \<and> used_ino D i \<and> length (i_direct n) = 8 \<and> i_mode n = INODE_FILE \<and> img_inv (set_ino i n D)"

lemma wstateD:
  assumes "wstate D i n"
  shows "wf_img D" "i < 64" "used_ino D i" "length (i_direct n) = 8" "i_mode n = INODE_FILE" "img_inv (set_ino i n D)"
    "ino_at (set_ino i n D) j = (if j = i then n else ino_at D j)" "busy (set_ino i n D) = busy D"
proof -
  show w: "wf_img D" "i < 64" "used_ino D i" "length (i_direct n) = 8" "i_mode n = INODE_FILE" "img_inv (set_ino i n D)"
    using assms by (auto simp: wstate_def)
  show "ino_at (set_ino i n D) j = (if j = i then n else ino_at D j)" using w wf_imgD [OF w(1), of 4] by simp
  show "busy (set_ino i n D) = busy D" by (simp add: busy_def)
qed

lemma wstate_ptr:
  assumes "wstate D i n"
  shows "ptr (set_ino i n D) n = ptr D n" "vol (set_ino i n D) i = Some (vnode_of (set_ino i n D) n)"
    "ptr D n sl \<noteq> 0 \<Longrightarrow> owns (vol (set_ino i n D)) i sl (unat (ptr D n sl))"
    "ptr D n sl \<noteq> 0 \<Longrightarrow> unat (ptr D n sl) \<in> busy D"
    "ptr D n sl \<noteq> 0 \<Longrightarrow> ptr D n sl = ptr D n sl' \<Longrightarrow> sl = sl'" "i \<noteq> 0"
proof -
  let ?V = "set_ino i n D"
  note w = wstateD [OF assms]
  show v: "vol ?V i = Some (vnode_of ?V n)" using w(2,3,7) by (simp add: vol_def)
  have "i_indirect n \<noteq> 0 \<Longrightarrow> 6 \<le> unat (i_indirect n)" using indirect_range(3) [OF w(6) v] w(7) by simp
  then show p: "ptr ?V n = ptr D n" by (auto simp: ptr_def fun_eq_iff)
  show o: "owns (vol ?V) i sl (unat (ptr D n sl))" if "ptr D n sl \<noteq> 0" for sl using v p that by (auto simp: owns_def)
  show i0: "i \<noteq> 0"
  proof
    assume "i = 0"
    then show False using v vinvD(1) [OF img_invD(1) [OF w(6)]] w(5) by (auto simp: root_ok_def)
  qed
  note B = vinvD(3) [OF img_invD(1) [OF w(6)]]
  show "unat (ptr D n sl) \<in> busy D" if "ptr D n sl \<noteq> 0"
    using blocks_okD(2) [OF B o [OF that]] i0 w(8) by auto
  show "sl = sl'" if "ptr D n sl \<noteq> 0" "ptr D n sl = ptr D n sl'"
    using blocks_okD(3) [OF B o [OF that(1)], of i sl'] o [of sl'] that by auto
qed

lemma wstate_start:
  assumes inv: "img_inv D" and c: "good D c" "i_mode (ino_at D (unat c)) = INODE_FILE"
  shows "wstate D (unat c) (ino_at D (unat c))" "vol (set_ino (unat c) (ino_at D (unat c)) D) = vol D"
proof -
  let ?i = "unat c" and ?V = "set_ino (unat c) (ino_at D (unat c)) D"
  have g: "?i < 64" "used_ino D ?i" using c(1) by (auto simp: good_def word_less_nat_alt)
  have l: "length (D 4) = 4096" using img_invD(2) [OF inv] by (simp add: wf_img_def)
  obtain n where n: "vol D ?i = Some n" using c(1) by (auto simp: good_dom)
  have ino: "ino_at ?V j = ino_at D j" for j using l g by simp
  have v: "vol ?V = vfile ?i (vnode_of ?V (ino_at ?V ?i)) (vol D)"
    by (rule file_vol [OF inv, where S = "{4}"]) (use ino n owns_range [OF inv] in auto)
  have "i_indirect (ino_at D ?i) \<noteq> 0 \<Longrightarrow> 6 \<le> unat (i_indirect (ino_at D ?i))" using indirect_range(3) [OF inv n] .
  then have "vnode_of ?V (ino_at D ?i) = vnode_of D (ino_at D ?i)" using c(2) by (auto simp: vnode_of_def ptr_def fun_eq_iff)
  moreover have "vol D ?i = Some (vnode_of D (ino_at D ?i))" using g by (simp add: vol_def)
  ultimately show same: "vol ?V = vol D" using v ino by (simp add: vfile_def fun_upd_idem)
  then have "img_inv ?V" using inv by (simp add: img_inv_def wf_img_def busy_def)
  then show "wstate D (unat c) (ino_at D (unat c))" using g c(2) img_invD(2) [OF inv] by (simp add: wstate_def)
qed

subsection \<open>Growing a file\<close>

lemma wstate_step:
  assumes w: "wstate D i n" and wf: "wf_img E" and n': "length (i_direct m) = 8" "i_mode m = INODE_FILE" "i_size m \<le> 1015808"
    and agree: "\<And>c. c \<notin> S \<Longrightarrow> E c = D c" "3 \<notin> S" "4 \<notin> S"
    and own: "\<And>j sl b. j \<noteq> i \<Longrightarrow> owns (vol (set_ino i n D)) j sl b \<Longrightarrow> b \<notin> S" and U: "busy D \<subseteq> busy E"
    and p: "\<And>sl. ptr E m sl \<noteq> 0 \<Longrightarrow> unat (ptr E m sl) \<in> busy E \<and> (unat (ptr E m sl) \<notin> busy D \<or> (\<exists>sl'. ptr D n sl' = ptr E m sl))"
    and inj: "\<And>sl sl'. ptr E m sl \<noteq> 0 \<Longrightarrow> ptr E m sl = ptr E m sl' \<Longrightarrow> sl = sl'"
  shows "wstate E i m" "vol (set_ino i m E) = vfile i (vnode_of (set_ino i m E) m) (vol (set_ino i n D))"
proof -
  let ?V = "set_ino i n D" and ?F = "set_ino i m E"
  note W = wstateD [OF w] and P = wstate_ptr [OF w]
  have l4: "length (E 4) = 4096" using wf by (simp add: wf_img_def)
  have e: "E 3 = D 3" "E 4 = D 4" using agree by auto
  have ino: "ino_at ?F j = (if j = i then m else ino_at D j)" for j
    using l4 W(2) n'(1) e(2) by (simp add: ino_at_def [of E] ino_at_def [of D])
  have u: "used_ino ?F j = used_ino ?V j" for j using e(1) by (simp add: bm_def)
  have "vol ?F = vfile i (vnode_of ?F (ino_at ?F i)) (vol ?V)"
  proof (rule file_vol [OF W(6), of "insert 4 S"])
    show "?F c = ?V c" if "c \<notin> insert 4 S" for c using that agree(1) by simp
    show "b \<notin> insert 4 S" if "j \<noteq> i" "owns (vol ?V) j sl b" for j sl b
      using own [OF that] owns_range [OF W(6) that(2)] by auto
    show "vol ?V i = Some (vnode_of ?V n)" by (rule P(2))
    show "ino_at ?F j = ino_at ?V j" if "j \<noteq> i" for j using that ino W(7) by simp
  qed (use u in blast)
  then show v: "vol ?F = vfile i (vnode_of ?F m) (vol ?V)" using ino by simp
  have pE: "ptr ?F m = ptr E m"
  proof -
    have "i_indirect m \<noteq> 0 \<Longrightarrow> unat (i_indirect m) \<noteq> 4" using p [of 8] by (auto simp: busy_def)
    then show ?thesis by (auto simp: ptr_def fun_eq_iff)
  qed
  have own_i: "owned_set (vol ?V) i = {b. \<exists>sl. ptr D n sl \<noteq> 0 \<and> unat (ptr D n sl) = b}"
    using P(1,2) by (auto simp: owned_set_def owns_def)
  have "vinv (vfile i (vnode_of ?F m) (vol ?V)) (busy E)"
  proof (rule vfile_vinv [OF img_invD(1) [OF W(6)] P(2)])
    show "vn_mode (vnode_of ?V n) = INODE_FILE" using W(5) by simp
    show "file_ok (vnode_of ?F m)" using n' by (simp add: file_ok_def vnode_of_def)
    show "busy E \<subseteq> {6..<254}" by (auto simp: busy_def)
    show "busy ?V - owned_set (vol ?V) i \<subseteq> busy E" using U W(8) by auto
    show "unat (vn_ptr (vnode_of ?F m) sl) \<in> busy E \<and> unat (vn_ptr (vnode_of ?F m) sl) \<notin> busy ?V - owned_set (vol ?V) i"
      if "vn_ptr (vnode_of ?F m) sl \<noteq> 0" for sl
    proof -
      have nz: "ptr E m sl \<noteq> 0" using that pE by simp
      have "unat (ptr E m sl) \<in> owned_set (vol ?V) i" if "unat (ptr E m sl) \<in> busy D"
        using p [OF nz] that nz unfolding own_i by (metis (mono_tags, lifting) mem_Collect_eq)
      then show ?thesis using p [OF nz] pE W(8) by auto
    qed
    show "sl = sl'" if "vn_ptr (vnode_of ?F m) sl \<noteq> 0" "vn_ptr (vnode_of ?F m) sl = vn_ptr (vnode_of ?F m) sl'" for sl sl'
      using that inj pE by simp
  qed
  moreover have "busy ?F = busy E" by (simp add: busy_def)
  ultimately have "img_inv ?F" using v wf by (simp add: img_inv_def wf_img_def)
  then show "wstate E i m" using wf W(2,3) n' e(1) by (simp add: wstate_def bm_def)
qed

text \<open>One more block, zeroed, at a slot that was empty.\<close>

lemma wstate_grow:
  assumes w: "wstate D i n" and wf: "wf_img E" and m: "length (i_direct m) = 8" "i_mode m = INODE_FILE" "i_size m = i_size n"
    and b: "b \<notin> busy D" "6 \<le> b" "b < 254" and bE: "busy E = insert b (busy D)" "E b = zeros"
    and agree: "\<And>c. c \<notin> {2, b} \<Longrightarrow> (i_indirect n \<noteq> 0 \<Longrightarrow> c \<noteq> unat (i_indirect n)) \<Longrightarrow> E c = D c"
    and p: "ptr E m = (ptr D n)(sl0 := of_nat b)" and sl0: "ptr D n sl0 = 0"
  shows "wstate E i m" "fbyte E m k = fbyte D n k" "vol (set_ino i m E) = vfile i (vnode_of (set_ino i m E) m) (vol (set_ino i n D))"
proof -
  note W = wstateD [OF w] and P = wstate_ptr [OF w]
  have b32: "(of_nat b :: u32) \<noteq> 0" "unat (of_nat b :: u32) = b" using b by (simp_all add: unat_of_nat word_of_nat_eq_0_iff nat_dvd_not_less)
  let ?S = "insert 2 (insert b (if i_indirect n \<noteq> 0 then {unat (i_indirect n)} else {}))"
  have ind: "i_indirect n \<noteq> 0 \<Longrightarrow> unat (i_indirect n) \<in> busy D" using P(4) [of 8] by simp
  have sz: "i_size n \<le> 1015808" using file_okD(1) [OF img_invD(1) [OF W(6)] P(2)] W(5) by (simp add: file_ok_def)
  have own: "c \<notin> ?S" if j: "j \<noteq> i" and o: "owns (vol (set_ino i n D)) j sl c" for j sl c
    using blocks_okD(2,3) [OF vinvD(3) [OF img_invD(1) [OF W(6)]] o] blocks_okD(5) [OF vinvD(3) [OF img_invD(1) [OF W(6)]] o]
      P(3) [of 8] j b W(8) by (auto split: if_splits)
  have ne: "ptr D n sl \<noteq> of_nat b" for sl using P(4) [of sl] b(1) b32 by metis
  have inj: "sl = sl'" if "ptr E m sl \<noteq> 0" "ptr E m sl = ptr E m sl'" for sl sl'
    using that p P(5) [of sl sl'] ne by (auto split: if_splits)
  have pp: "unat (ptr E m sl) \<in> busy E \<and> (unat (ptr E m sl) \<notin> busy D \<or> (\<exists>sl'. ptr D n sl' = ptr E m sl))" if "ptr E m sl \<noteq> 0" for sl
    using that p P(4) [of sl] bE b(1) b32 by (auto split: if_splits)
  have ag: "E c = D c" if "c \<notin> ?S" for c using that by (intro agree) (auto split: if_splits)
  have S: "3 \<notin> ?S" "4 \<notin> ?S" using b ind by (auto simp: busy_def split: if_splits)
  have U: "busy D \<subseteq> busy E" using bE by auto
  have sm: "i_size m \<le> 1015808" using sz m(3) by simp
  show "wstate E i m" by (rule wstate_step(1) [OF w wf m(1,2) sm ag S own U pp inj])
  show "vol (set_ino i m E) = vfile i (vnode_of (set_ino i m E) m) (vol (set_ino i n D))"
    by (rule wstate_step(2) [OF w wf m(1,2) sm ag S own U pp inj])
  let ?sl = "fslot (k div 4096)"
  show "fbyte E m k = fbyte D n k"
  proof (cases "?sl = sl0")
    case True
    then show ?thesis using p sl0 b32 bE(2) by (simp add: fbyte_def)
  next
    case False
    have "E (unat (ptr D n ?sl)) = D (unat (ptr D n ?sl))" if nz: "ptr D n ?sl \<noteq> 0"
    proof (rule agree)
      show "unat (ptr D n ?sl) \<notin> {2, b}" using P(4) [OF nz] b(1) by (auto simp: busy_def)
      show "unat (ptr D n ?sl) \<noteq> unat (i_indirect n)" if "i_indirect n \<noteq> 0"
        using P(5) [OF nz, of 8] fslot_not_8 by (auto simp: word_unat_eq_iff)
    qed
    then show ?thesis using False p by (simp add: fbyte_def Let_def)
  qed
qed

text \<open>What allocating blocks for a file leaves as it was.\<close>

definition fgrow :: "nat \<Rightarrow> image \<Rightarrow> inode \<Rightarrow> image \<Rightarrow> inode \<Rightarrow> bool" where
  "fgrow i D n E m \<longleftrightarrow> wstate E i m \<and> i_size m = i_size n \<and> (\<forall>k. fbyte E m k = fbyte D n k)
     \<and> (\<forall>sl. ptr D n sl \<noteq> 0 \<longrightarrow> ptr E m sl \<noteq> 0)
     \<and> (\<forall>j. j \<noteq> i \<longrightarrow> vol (set_ino i m E) j = vol (set_ino i n D) j)
     \<and> (\<forall>j sl c. j \<noteq> i \<longrightarrow> owns (vol (set_ino i n D)) j sl c \<longrightarrow> E c = D c)"

lemma fgrow_refl: "wstate D i n \<Longrightarrow> fgrow i D n D n"
  by (simp add: fgrow_def)

lemma fgrow_trans: "fgrow i D n E m \<Longrightarrow> fgrow i E m F p \<Longrightarrow> fgrow i D n F p"
  unfolding fgrow_def owns_def by (elim conjE, intro conjI) metis+

lemma fgrow_wstate: "fgrow i D n E m \<Longrightarrow> wstate E i m"
  by (simp add: fgrow_def)

lemma wstate_fgrow:
  assumes "wstate D i n" "wf_img E" "length (i_direct m) = 8" "i_mode m = INODE_FILE" "i_size m = i_size n"
    "b \<notin> busy D" "6 \<le> b" "b < 254" "busy E = insert b (busy D)" "E b = zeros"
    "\<And>c. c \<notin> {2, b} \<Longrightarrow> (i_indirect n \<noteq> 0 \<Longrightarrow> c \<noteq> unat (i_indirect n)) \<Longrightarrow> E c = D c"
    "ptr E m = (ptr D n)(sl0 := of_nat b)" "ptr D n sl0 = 0"
  shows "fgrow i D n E m"
proof -
  note g = wstate_grow [OF assms]
  note W = wstateD [OF assms(1)] and P = wstate_ptr [OF assms(1)]
  note B = vinvD(3) [OF img_invD(1) [OF W(6)]]
  have "E c = D c" if j: "j \<noteq> i" and o: "owns (vol (set_ino i n D)) j sl c" for j sl c
  proof (rule assms(11))
    show "c \<notin> {2, b}" using blocks_okD(2,5) [OF B o] assms(6,7) W(8) by auto
    show "c \<noteq> unat (i_indirect n)" if "i_indirect n \<noteq> 0"
      using blocks_okD(3) [OF B o, of i 8] P(3) [of 8] that j by auto
  qed
  moreover have "vol (set_ino i m E) j = vol (set_ino i n D) j" if "j \<noteq> i" for j using g(3) that by (simp add: vfile_def)
  moreover have "ptr D n sl \<noteq> 0 \<longrightarrow> ptr E m sl \<noteq> 0" for sl using assms(12,13) by (cases "sl = sl0") auto
  ultimately show ?thesis using g(1,2) assms(5) by (simp add: fgrow_def)
qed

lemma sint_small: "unat (w :: u32) < 254 \<Longrightarrow> sint w = int (unat w)"
proof -
  assume "unat w < 254"
  then have "uint w < 254" by (metis of_nat_less_iff of_nat_numeral uint_nat)
  then have "signed_take_bit 31 (uint w) = uint w" by (intro signed_take_bit_int_eq_self) (simp_all, use uint_ge_0 [of w] in linarith)
  then show ?thesis by (simp add: sint_uint)
qed

lemma ptr_small: "wstate D i n \<Longrightarrow> sint (ptr D n sl) = int (unat (ptr D n sl))"
proof (cases "ptr D n sl = 0")
  case False
  assume "wstate D i n"
  then have "unat (ptr D n sl) < 254" using wstate_ptr(4) [of D i n sl] False by (simp add: busy_def)
  then show ?thesis by (rule sint_small)
qed simp

lemma take_block_spec:
  assumes "wf_img D" "b \<notin> busy D" "6 \<le> b" "b < 254"
  shows "wf_img (take_block b D)" "busy (take_block b D) = insert b (busy D)" "take_block b D b = zeros" "c \<notin> {2, b} \<Longrightarrow> take_block b D c = D c"
proof -
  have "length (D 2) = 4096" using assms(1) by (simp add: wf_img_def)
  then show "wf_img (take_block b D)" "busy (take_block b D) = insert b (busy D)" "take_block b D b = zeros"
    "c \<notin> {2, b} \<Longrightarrow> take_block b D c = D c"
    using assms by (auto simp: take_block_def wf_img_def busy_def)
qed

lemma free_scan_Some: "free_scan D = Some b \<Longrightarrow> b \<notin> busy D \<and> 6 \<le> b \<and> b < 254"
  by (auto simp: scan_Some_iff busy_def)

lemma get32_zeros: "k + 4 \<le> 4096 \<Longrightarrow> get32 zeros k = 0"
  by (simp add: zeros_def get32_replicate)

text \<open>The result of looking for a block: an allocation can fail only when the bitmap is full.\<close>

definition bfi_ok :: "image \<Rightarrow> inode \<Rightarrow> nat \<Rightarrow> int \<Rightarrow> bool" where
  "bfi_ok E m sl r \<longleftrightarrow> (if r \<le> 0 then free_scan E = None \<and> ptr E m sl = 0 else ptr E m sl \<noteq> 0 \<and> r = int (unat (ptr E m sl)))"

lemma bfi_there:
  assumes "wstate D i n" "ptr D n sl \<noteq> 0"
  shows "bfi_ok D n sl (sint (ptr D n sl))"
proof -
  have "0 < unat (ptr D n sl)" using assms(2) by (simp add: unat_gt_0)
  then have "0 < sint (ptr D n sl)" unfolding ptr_small [OF assms(1)] by linarith
  then show ?thesis using assms(2) ptr_small [OF assms(1), of sl] by (simp add: bfi_ok_def)
qed

lemma bfi_direct:
  assumes U: "fs_upd D s0 s" and w: "wstate D i n" and q: "q < 8"
  shows "\<exists>r m s' E. block_for_inode n q True s = (r, m, s') \<and> fs_upd E s0 s' \<and> fgrow i D n E m \<and> bfi_ok E m (unat q) r"
proof -
  let ?k = "unat q"
  have k: "?k < 8" using q by (simp add: word_less_nat_alt)
  note W = wstateD [OF w] and P = wstate_ptr [OF w]
  show ?thesis
  proof (cases "i_direct n ! ?k = 0")
    case False
    then have "bfi_ok D n ?k (sint (i_direct n ! ?k))" using bfi_there [OF w, of ?k] k by simp
    then show ?thesis using U False q fgrow_refl [OF w] by (auto simp: block_for_inode_def)
  next
    case True
    show ?thesis
    proof (cases "free_scan D")
      case None
      then obtain s1 where "alloc_block s = (None, s1)" "fs_upd D s0 s1" using alloc_block_upd [OF U] by auto
      moreover have "ptr D n ?k = 0" using True k by simp
      ultimately show ?thesis using True q None fgrow_refl [OF w] by (auto simp: block_for_inode_def bfi_ok_def)
    next
      case (Some b)
      note b = free_scan_Some [OF Some]
      let ?E = "take_block b D" and ?m = "n\<lparr>i_direct := (i_direct n)[?k := of_nat b]\<rparr>"
      note t = take_block_spec [OF W(1), of b]
      obtain s1 where s1: "alloc_block s = (Some b, s1)" "fs_upd ?E s0 s1" using alloc_block_upd [OF U] Some by auto
      have ind: "i_indirect n \<noteq> 0 \<Longrightarrow> ?E (unat (i_indirect n)) = D (unat (i_indirect n))"
        using P(4) [of 8] b t(4) [of "unat (i_indirect n)"] by (auto simp: busy_def)
      have p: "ptr ?E ?m = (ptr D n)(?k := of_nat b)" using ind k W(4) by (auto simp: ptr_def fun_eq_iff nth_list_update)
      have g: "fgrow i D n ?E ?m"
        using b t W(4,5) True k by (intro wstate_fgrow [OF w _ _ _ _ _ _ _ _ _ _ p]) auto
      have "ptr ?E ?m ?k \<noteq> 0" using p b by (simp add: word_of_nat_eq_0_iff nat_dvd_not_less)
      then have "bfi_ok ?E ?m ?k (sint (of_nat b :: u32))" using bfi_there [OF fgrow_wstate [OF g], of ?k] p by simp
      then show ?thesis using s1 g True q k W(4) by (auto simp: block_for_inode_def)
    qed
  qed
qed

text \<open>The entry of the indirect block; \<open>bfi_entry\<close> is the last part of \<^verbatim>\<open>block_for_inode\<close>.\<close>

definition bfi_tail :: "inode \<Rightarrow> nat \<Rightarrow> fs \<Rightarrow> int \<times> inode \<times> fs" where
  "bfi_tail in1 k s1 =
     (let ptrs = the (ramdisk_read_block (f_disk s1) (i_indirect in1) (Some (f_junk s1))) in
      if get32 ptrs (4 * k) = 0 then
        (case alloc_block s1 of
           (None, s2) \<Rightarrow> (-1, in1, s2)
         | (Some b, s2) \<Rightarrow>
             let ptrs1 = put32 (4 * k) (of_nat b) ptrs in
             (case write_block (i_indirect in1) ptrs1 s2 of
                (rc, s3) \<Rightarrow> if rc < 0 then (-1, in1, s3) else (sint (get32 ptrs1 (4 * k)), in1, s3)))
      else (sint (get32 ptrs (4 * k)), in1, s1))"

lemma entry_updated:
  assumes w: "wstate D i n" and ind: "i_indirect n \<noteq> 0" and k: "k < 1024" and b: "b \<notin> busy D" "6 \<le> b" "b < 254"
    and z: "ptr D n (9 + k) = 0"
    and E: "E = (take_block b D)(unat (i_indirect n) := put32 (4 * k) (of_nat b) (D (unat (i_indirect n))))"
  shows "fgrow i D n E n" "ptr E n (9 + k) = of_nat b" "bfi_ok E n (9 + k) (sint (of_nat b :: u32))"
proof -
  note W = wstateD [OF w] and P = wstate_ptr [OF w]
  let ?I = "unat (i_indirect n)"
  have I: "?I \<in> busy D" using P(4) [of 8] ind by simp
  then have Ir: "6 \<le> ?I" "?I < 254" "?I \<noteq> b" using b by (auto simp: busy_def)
  note t = take_block_spec [OF W(1) b]
  have l: "length (D ?I) = 4096" using wf_imgD [OF W(1) Ir(2)] .
  have wf: "wf_img E" using t(1) l E by (auto simp: wf_img_def)
  have bE: "busy E = insert b (busy D)" using t(2) Ir E by (auto simp: busy_def)
  have Eb: "E b = zeros" using t(3) Ir E by auto
  have p: "ptr E n = (ptr D n)(9 + k := of_nat b)"
  proof
    fix sl
    show "ptr E n sl = ((ptr D n)(9 + k := of_nat b)) sl"
    proof (cases "9 \<le> sl \<and> sl < 1033")
      case True
      then have "4 * (sl - 9) + 4 \<le> 4096" "4 * k + 4 \<le> 4096" using k by linarith+
      moreover have "sl \<noteq> 9 + k \<Longrightarrow> 4 * (sl - 9) + 4 \<le> 4 * k \<or> 4 * k + 4 \<le> 4 * (sl - 9)" using True by linarith
      ultimately show ?thesis using True ind l E
        by (cases "sl = 9 + k") (auto simp: ptr_def get32_put32_same get32_put32_other)
    qed (use k in \<open>auto simp: ptr_def\<close>)
  qed
  show g: "fgrow i D n E n"
    by (rule wstate_fgrow [OF w wf _ _ _ b bE Eb _ p z]) (use W(4,5) t(4) ind E in auto)
  show pe: "ptr E n (9 + k) = of_nat b" using p by simp
  have "ptr E n (9 + k) \<noteq> 0" using pe b by (simp add: word_of_nat_eq_0_iff nat_dvd_not_less)
  then show "bfi_ok E n (9 + k) (sint (of_nat b :: u32))" using bfi_there [OF fgrow_wstate [OF g], of "9 + k"] pe by simp
qed

lemma bfi_tail_spec:
  assumes U: "fs_upd D s0 s" and w: "wstate D i n" and ind: "i_indirect n \<noteq> 0" and k: "k < 1024"
  shows "\<exists>r s' E. bfi_tail n k s = (r, n, s') \<and> fs_upd E s0 s' \<and> fgrow i D n E n \<and> bfi_ok E n (9 + k) r"
proof -
  note W = wstateD [OF w] and P = wstate_ptr [OF w]
  let ?I = "unat (i_indirect n)"
  have I: "?I < 254" "i_indirect n < 254" using P(4) [of 8] ind by (auto simp: busy_def word_less_nat_alt)
  have rd: "the (ramdisk_read_block (f_disk s) (i_indirect n) (Some (f_junk s))) = D ?I"
    using read_ptrs_spec [OF fs_updD(1) [OF U] I(2)] fs_updD(2) [OF U] by simp
  have e: "ptr D n (9 + k) = get32 (D ?I) (4 * k)" using ind k by (simp add: ptr_def)
  show ?thesis
  proof (cases "get32 (D ?I) (4 * k) = 0")
    case False
    then have "bfi_ok D n (9 + k) (sint (get32 (D ?I) (4 * k)))" using bfi_there [OF w, of "9 + k"] e by simp
    then show ?thesis using U False rd fgrow_refl [OF w] by (auto simp: bfi_tail_def)
  next
    case True
    show ?thesis
    proof (cases "free_scan D")
      case None
      then obtain s1 where "alloc_block s = (None, s1)" "fs_upd D s0 s1" using alloc_block_upd [OF U] by auto
      then show ?thesis using True e rd None fgrow_refl [OF w] by (auto simp: bfi_tail_def bfi_ok_def)
    next
      case (Some b)
      note b = free_scan_Some [OF Some]
      let ?x = "put32 (4 * k) (of_nat b) (D ?I)"
      obtain s1 where s1: "alloc_block s = (Some b, s1)" "fs_upd (take_block b D) s0 s1" using alloc_block_upd [OF U] Some by auto
      have l: "length (D ?I) = 4096" using wf_imgD [OF W(1) I(1)] .
      obtain s2 where s2: "write_block (i_indirect n) ?x s1 = (0, s2)" "fs_upd ((take_block b D)(?I := ?x)) s0 s2"
        using write_block_upd [OF s1(2) I(2), of ?x] l by auto
      note g = entry_updated [OF w ind k _ _ _ _ refl, of b, unfolded e, OF _ _ _ True]
      have "get32 ?x (4 * k) = of_nat b" using k l by (simp add: get32_put32_same)
      then have "bfi_tail n k s = (sint (of_nat b :: u32), n, s2)" using s1(1) s2(1) rd True by (simp add: bfi_tail_def Let_def)
      then show ?thesis using s2(2) g b by blast
    qed
  qed
qed

lemma bfi_indirect:
  assumes U: "fs_upd D s0 s" and w: "wstate D i n" and q: "8 \<le> q" "q < 1032"
  shows "\<exists>r m s' E. block_for_inode n q True s = (r, m, s') \<and> fs_upd E s0 s' \<and> fgrow i D n E m \<and> bfi_ok E m (unat q + 1) r"
proof -
  let ?k = "unat (q - 8)"
  have qn: "8 \<le> unat q" "unat q < 1032" using q by (simp_all add: word_less_nat_alt word_le_nat_alt)
  then have k: "?k = unat q - 8" using q(1) by (simp add: unat_sub)
  have k': "?k < 1024" "9 + ?k = unat q + 1" using qn k by auto
  have nq: "\<not> q < 8" using q(1) by simp
  note W = wstateD [OF w]
  show ?thesis
  proof (cases "i_indirect n = 0")
    case False
    have "block_for_inode n q True s = bfi_tail n ?k s" using nq k'(1) False by (simp add: block_for_inode_def bfi_tail_def Let_def)
    then show ?thesis using bfi_tail_spec [OF U w False k'(1)] unfolding k'(2) by metis
  next
    case True
    show ?thesis
    proof (cases "free_scan D")
      case None
      then obtain s1 where "alloc_block s = (None, s1)" "fs_upd D s0 s1" using alloc_block_upd [OF U] by auto
      moreover have "ptr D n (unat q + 1) = 0" using True k'(2) by (simp add: ptr_def)
      ultimately show ?thesis using True nq k'(1) None fgrow_refl [OF w] by (auto simp: block_for_inode_def bfi_ok_def Let_def)
    next
      case (Some b)
      note b = free_scan_Some [OF Some]
      let ?E = "take_block b D" and ?m = "n\<lparr>i_indirect := of_nat b\<rparr>"
      note t = take_block_spec [OF W(1), of b]
      obtain s1 where s1: "alloc_block s = (Some b, s1)" "fs_upd ?E s0 s1" using alloc_block_upd [OF U] Some by auto
      have b32: "(of_nat b :: u32) < 254" "unat (of_nat b :: u32) = b" using word_of_less b by auto
      have same: "?E(b := replicate 4096 0) = ?E" using t(3) b by (auto simp: zeros_def)
      obtain s2 where s2: "write_block (of_nat b) (replicate 4096 0) s1 = (0, s2)" "fs_upd ?E s0 s2"
        using write_block_upd [OF s1(2) b32(1), of "replicate 4096 0"] b32(2) same by auto
      have p: "ptr ?E ?m = (ptr D n)(8 := of_nat b)"
        using True b b32(2) t(3) get32_zeros by (auto simp: ptr_def fun_eq_iff)
      have g: "fgrow i D n ?E ?m"
        using b t W(4,5) True by (intro wstate_fgrow [OF w _ _ _ _ _ _ _ _ _ _ p]) (auto simp: ptr_def)
      have nz: "i_indirect ?m \<noteq> 0" using b by (simp add: word_of_nat_eq_0_iff nat_dvd_not_less)
      have "block_for_inode n q True s = bfi_tail ?m ?k s2"
        using nq k'(1) True s1(1) s2(1) by (simp add: block_for_inode_def bfi_tail_def Let_def split: option.split prod.split)
      then show ?thesis using bfi_tail_spec [OF s2(2) fgrow_wstate [OF g] nz k'(1)] fgrow_trans [OF g] unfolding k'(2) by metis
    qed
  qed
qed

lemma bfi_write:
  assumes U: "fs_upd D s0 s" and w: "wstate D i n" and q: "q < 248"
  shows "\<exists>r m s' E. block_for_inode n q True s = (r, m, s') \<and> fs_upd E s0 s' \<and> fgrow i D n E m \<and> bfi_ok E m (fslot (unat q)) r"
proof (cases "q < 8")
  case True
  then show ?thesis using bfi_direct [OF U w True] by (simp add: fslot_def word_less_nat_alt)
next
  case False
  have "q < 1032" using q by (simp add: word_less_nat_alt)
  then show ?thesis using bfi_indirect [OF U w, of q] False by (simp add: fslot_def word_less_nat_alt word_le_nat_alt not_less)
qed

lemma bfi_read:
  assumes U: "fs_upd D s0 s" and w: "wstate D i n" and q: "unat q < 1032"
  shows "block_for_inode n q False s = (int (unat (ptr D n (fslot (unat q)))), n, s)"
proof (cases "q < 8")
  case True
  then have "unat q < 8" by (simp add: word_less_nat_alt)
  then show ?thesis using True ptr_small [OF w, of "unat q"] by (simp add: block_for_inode_def fslot_def)
next
  case False
  then have q8: "8 \<le> unat q" by (simp add: word_less_nat_alt)
  have k: "unat (q - 8) = unat q - 8" using q8 by (simp add: unat_sub word_le_nat_alt)
  have f: "fslot (unat q) = 9 + unat (q - 8)" using q8 k by (simp add: fslot_def)
  show ?thesis
  proof (cases "i_indirect n = 0")
    case True
    then show ?thesis using False q k f by (simp add: block_for_inode_def Let_def ptr_def)
  next
    case ind: False
    have I: "i_indirect n < 254" using wstate_ptr(4) [OF w, of 8] ind by (auto simp: busy_def word_less_nat_alt)
    have "the (ramdisk_read_block (f_disk s) (i_indirect n) (Some (f_junk s))) = D (unat (i_indirect n))"
      using read_ptrs_spec [OF fs_updD(1) [OF U] I] fs_updD(2) [OF U] by simp
    moreover have k': "unat (q - 8) < 1024" using q k q8 by linarith
    moreover have "ptr D n (9 + unat (q - 8)) = get32 (D (unat (i_indirect n))) (4 * unat (q - 8))" using ind k' by (simp add: ptr_def)
    ultimately show ?thesis using False ind f ptr_small [OF w, of "9 + unat (q - 8)"] by (simp add: block_for_inode_def Let_def)
  qed
qed

subsection \<open>Writing\<close>

text \<open>\<open>wrote i D n E m off xs\<close>: the bytes \<open>xs\<close> have been stored at \<open>off\<close> in file \<open>i\<close>, and nothing else.\<close>

definition present :: "image \<Rightarrow> inode \<Rightarrow> nat \<Rightarrow> bool" where
  "present D n k \<longleftrightarrow> ptr D n (fslot (k div 4096)) \<noteq> 0"

definition wrote :: "nat \<Rightarrow> image \<Rightarrow> inode \<Rightarrow> image \<Rightarrow> inode \<Rightarrow> nat \<Rightarrow> u8 list \<Rightarrow> bool" where
  "wrote i D n E m off xs \<longleftrightarrow> wstate E i m
     \<and> unat (i_size m) = (if xs = [] then unat (i_size n) else max (unat (i_size n)) (off + length xs))
     \<and> (\<forall>k. fbyte E m k = (if off \<le> k \<and> k < off + length xs then xs ! (k - off) else fbyte D n k))
     \<and> (\<forall>k. present D n k \<or> off \<le> k \<and> k < off + length xs \<longrightarrow> present E m k)
     \<and> (\<forall>j. j \<noteq> i \<longrightarrow> vol (set_ino i m E) j = vol (set_ino i n D) j)
     \<and> (\<forall>j sl c. j \<noteq> i \<longrightarrow> owns (vol (set_ino i n D)) j sl c \<longrightarrow> E c = D c)"

lemma fgrow_wrote: "fgrow i D n E m \<Longrightarrow> wrote i D n E m off []"
  by (auto simp: fgrow_def wrote_def present_def)

lemma wrote_trans:
  assumes a: "wrote i D n E m off xs" and b: "wrote i E m F p (off + length xs) ys"
  shows "wrote i D n F p off (xs @ ys)"
proof -
  have "fbyte F p k = (if off \<le> k \<and> k < off + length (xs @ ys) then (xs @ ys) ! (k - off) else fbyte D n k)" for k
    using a b by (auto simp: wrote_def nth_append)
  moreover have "unat (i_size p) = (if xs @ ys = [] then unat (i_size n) else max (unat (i_size n)) (off + length (xs @ ys)))"
    using a b by (auto simp: wrote_def)
  moreover have "vol (set_ino i p F) j = vol (set_ino i n D) j" if "j \<noteq> i" for j using a b that by (simp add: wrote_def)
  moreover have "F c = D c" if "j \<noteq> i" "owns (vol (set_ino i n D)) j sl c" for j sl c
  proof -
    have "owns (vol (set_ino i m E)) j sl c" using a that by (simp add: wrote_def owns_def)
    then show ?thesis using a b that unfolding wrote_def by metis
  qed
  moreover have "present F p k" if "present D n k \<or> off \<le> k \<and> k < off + length (xs @ ys)" for k
  proof (cases "present D n k \<or> off \<le> k \<and> k < off + length xs")
    case True
    then have "present E m k" using a unfolding wrote_def by blast
    then show ?thesis using b unfolding wrote_def by blast
  next
    case False
    then have "off + length xs \<le> k \<and> k < off + length xs + length ys" using that by auto
    then show ?thesis using b unfolding wrote_def by blast
  qed
  ultimately show ?thesis using b by (simp add: wrote_def)
qed

lemma wrote_block:
  assumes w: "wstate D i n" and q: "off div 4096 < 248" and p: "ptr D n (fslot (off div 4096)) \<noteq> 0"
    and t: "0 < tk" "off mod 4096 + tk \<le> 4096" "dn + tk \<le> length buf"
    and E: "E = D(unat (ptr D n (fslot (off div 4096))) := mem_copy (off mod 4096) (D (unat (ptr D n (fslot (off div 4096))))) dn buf tk)"
    and m: "m = (if unat (i_size n) < off + tk then n\<lparr>i_size := of_nat (off + tk)\<rparr> else n)"
  shows "wrote i D n E m off (take tk (drop dn buf))"
proof -
  let ?sl = "fslot (off div 4096)" and ?b = "unat (ptr D n (fslot (off div 4096)))"
  note W = wstateD [OF w] and P = wstate_ptr [OF w]
  have b: "?b \<in> busy D" "6 \<le> ?b" "?b < 254" using P(4) [OF p] by (auto simp: busy_def)
  have l: "length (D ?b) = 4096" using wf_imgD [OF W(1) b(3)] .
  have wf: "wf_img E" using W(1) l E by (auto simp: wf_img_def)
  have bE: "busy E = busy D" using b E by (auto simp: busy_def)
  have dm: "off = off div 4096 * 4096 + off mod 4096" by simp
  have lim: "off + tk \<le> 1015808" using q t(2) dm by linarith
  then have e32: "unat (of_nat (off + tk) :: u32) = off + tk" by (simp add: unat_of_nat del: of_nat_add)
  have sz: "i_size n \<le> 1015808" using file_okD(1) [OF img_invD(1) [OF W(6)] P(2)] W(5) by (simp add: file_ok_def)
  have mf: "i_direct m = i_direct n" "i_indirect m = i_indirect n" "i_mode m = i_mode n" using m by auto
  have ms: "i_size m \<le> 1015808" using sz e32 lim m by (auto simp: word_le_nat_alt)
  have ib: "i_indirect n \<noteq> 0 \<Longrightarrow> unat (i_indirect n) \<noteq> ?b"
    using P(5) [OF p, of 8] by (auto simp: word_unat_eq_iff)
  have pE: "ptr E m = ptr D n" using mf ib E by (auto simp: ptr_def fun_eq_iff)
  have own: "c \<notin> {?b}" if "j \<noteq> i" "owns (vol (set_ino i n D)) j sl c" for j sl c
    using blocks_okD(3) [OF vinvD(3) [OF img_invD(1) [OF W(6)]] that(2), of i ?sl] P(3) [OF p] that(1) by auto
  have ag: "E c = D c" if "c \<notin> {?b}" for c using that E by simp
  have S: "3 \<notin> {?b}" "4 \<notin> {?b}" using b by auto
  have pp: "unat (ptr E m sl) \<in> busy E \<and> (unat (ptr E m sl) \<notin> busy D \<or> (\<exists>sl'. ptr D n sl' = ptr E m sl))" if "ptr E m sl \<noteq> 0" for sl
    using that P(4) [of sl] pE bE by auto
  have inj: "sl = sl'" if "ptr E m sl \<noteq> 0" "ptr E m sl = ptr E m sl'" for sl sl' using that P(5) pE by simp
  have md: "length (i_direct m) = 8" "i_mode m = INODE_FILE" using mf W(4,5) by simp_all
  have U: "busy D \<subseteq> busy E" using bE by simp
  have ws: "wstate E i m" by (rule wstate_step(1) [OF w wf md ms ag S own U pp inj])
  have vo: "vol (set_ino i m E) = vfile i (vnode_of (set_ino i m E) m) (vol (set_ino i n D))"
    by (rule wstate_step(2) [OF w wf md ms ag S own U pp inj])
  have len: "length (take tk (drop dn buf)) = tk" using t(3) by simp
  have in_range: "k div 4096 = off div 4096" if "off \<le> k \<and> k < off + tk" for k
  proof -
    have "4096 * (off div 4096) \<le> k" "k < 4096 * (off div 4096) + 4096"
      using that t(2) mult_div_mod_eq [of 4096 off] by linarith+
    then show ?thesis by (intro div_nat_eqI) simp_all
  qed
  have pre: "present E m k" if "present D n k \<or> off \<le> k \<and> k < off + tk" for k
    using that p pE in_range [of k] unfolding present_def by metis
  have "fbyte E m k = (if off \<le> k \<and> k < off + tk then take tk (drop dn buf) ! (k - off) else fbyte D n k)" for k
  proof (cases "k div 4096 = off div 4096")
    case True
    have k: "k = off div 4096 * 4096 + k mod 4096" using True [symmetric] by simp
    have "fbyte E m k = mem_copy (off mod 4096) (D ?b) dn buf tk ! (k mod 4096)"
      using True p pE E by (simp add: fbyte_def)
    also have "\<dots> = (if off mod 4096 \<le> k mod 4096 \<and> k mod 4096 < off mod 4096 + tk then buf ! (dn + (k mod 4096 - off mod 4096)) else D ?b ! (k mod 4096))"
      using l by (simp add: mem_copy_nth)
    also have "\<dots> = (if off \<le> k \<and> k < off + tk then take tk (drop dn buf) ! (k - off) else fbyte D n k)"
    proof -
      have eq: "off mod 4096 \<le> k mod 4096 \<longleftrightarrow> off \<le> k" "k mod 4096 < off mod 4096 + tk \<longleftrightarrow> k < off + tk"
        "k mod 4096 - off mod 4096 = k - off" using k dm by linarith+
      have "D ?b ! (k mod 4096) = fbyte D n k" using True p by (simp add: fbyte_def)
      moreover have "off \<le> k \<Longrightarrow> k < off + tk \<Longrightarrow> buf ! (dn + (k - off)) = take tk (drop dn buf) ! (k - off)"
        using t(3) by (subst nth_take) auto
      ultimately show ?thesis unfolding eq by presburger
    qed
    finally show ?thesis .
  next
    case False
    have "\<not> (off \<le> k \<and> k < off + tk)" using in_range False by blast
    moreover have "E (unat (ptr D n (fslot (k div 4096)))) = D (unat (ptr D n (fslot (k div 4096))))" if nz: "ptr D n (fslot (k div 4096)) \<noteq> 0"
      using P(5) [OF nz, of ?sl] False fslot_inj E by (auto simp: word_unat_eq_iff)
    ultimately show ?thesis using pE by (auto simp: fbyte_def Let_def)
  qed
  then show ?thesis using ws vo own ag len t(1) m e32 pre unfolding wrote_def
    by (auto simp: vfile_def)
qed

text \<open>The states of the loop differ from the first one in the offset of the descriptor too.\<close>

definition set_off :: "nat \<Rightarrow> u32 \<Rightarrow> fs \<Rightarrow> fs" where
  "set_off fd x s = s\<lparr>f_fds := (f_fds s)[fd := (f_fds s ! fd)\<lparr>fd_offset := x\<rparr>]\<rparr>"

lemma set_off_fields [simp]:
  "f_cwd (set_off fd x s) = f_cwd s" "f_ready (set_off fd x s) = f_ready s" "f_con (set_off fd x s) = f_con s"
  "length (f_fds (set_off fd x s)) = length (f_fds s)"
  "fd < length (f_fds s) \<Longrightarrow> fd_offset (f_fds (set_off fd x s) ! fd) = x"
  "fd < length (f_fds s) \<Longrightarrow> fd_inode (f_fds (set_off fd x s) ! fd) = fd_inode (f_fds s ! fd)"
  by (simp_all add: set_off_def)

lemma set_off_same [simp]: "set_off fd (fd_offset (f_fds s ! fd)) s = s"
  by (simp add: set_off_def)

lemma fs_upd_advance:
  assumes "fs_upd D (set_off fd x s0) s" "fd < length (f_fds s0)"
  shows "fs_upd D (set_off fd (x + of_nat k) s0) (advance_fd fd k s)"
  using assms by (auto simp: fs_upd_def fs_ok_def set_off_def advance_fd_def)

lemma fd_offset_upd: "fs_upd D (set_off fd x s0) s \<Longrightarrow> fd < length (f_fds s0) \<Longrightarrow> fd_offset (f_fds s ! fd) = x"
  by (simp add: fs_updD(3))

text \<open>One round of the loop: a block is found, changed and written back.\<close>

lemma write_round:
  assumes U: "fs_upd D (set_off fd x s0) s" and w: "wstate D i n" and x: "unat x < 1015808" and fd: "fd < length (f_fds s0)"
    and c: "dn < count" "count \<le> length buf"
  shows "(\<exists>m s' E. write_loop fd n count dn buf s = (dn, m, s') \<and> fs_upd E (set_off fd x s0) s' \<and> wrote i D n E m (unat x) [] \<and> free_scan E = None \<and> \<not> present E m (unat x))
    \<or> (\<exists>m s' E tk. write_loop fd n count dn buf s = write_loop fd m count (dn + tk) buf s' \<and> 0 < tk \<and> dn + tk \<le> count
         \<and> unat x + tk \<le> 1015808 \<and> fs_upd E (set_off fd (x + of_nat tk) s0) s' \<and> wrote i D n E m (unat x) (take tk (drop dn buf)))"
proof -
  let ?q = "x div 4096" and ?o = "unat x mod 4096"
  have qu: "unat ?q = unat x div 4096" by (simp add: unat_div)
  have q: "?q < 248" using x qu by (simp add: word_less_nat_alt)
  have nq: "\<not> 248 \<le> ?q" using q by simp
  have ox: "unat (x mod 4096) = ?o" by (simp add: unat_mod)
  note off = fd_offset_upd [OF U fd]
  obtain r m s1 E where B: "block_for_inode n ?q True s = (r, m, s1)" "fs_upd E (set_off fd x s0) s1" "fgrow i D n E m" "bfi_ok E m (fslot (unat ?q)) r"
    using bfi_write [OF U w q] by blast
  show ?thesis
  proof (cases "r \<le> 0")
    case True
    then have "write_loop fd n count dn buf s = (dn, m, s1)" using off nq B(1) c by (subst write_loop.simps) simp
    then show ?thesis using B True qu fgrow_wrote [OF B(3)] by (auto simp: bfi_ok_def present_def)
  next
    case False
    let ?p = "ptr E m (fslot (unat x div 4096))" and ?tk = "min (4096 - ?o) (count - dn)"
    have p: "?p \<noteq> 0" "r = int (unat ?p)" using B(4) False qu by (simp_all add: bfi_ok_def)
    have rp: "of_int r = ?p" using p(2) by simp
    note wE = fgrow_wstate [OF B(3)]
    have pb: "?p < 254" "unat ?p < 254" using wstate_ptr(4) [OF wE p(1)] by (auto simp: busy_def word_less_nat_alt)
    let ?s2 = "read_buf2 ?p s1" and ?x = "mem_copy ?o (E (unat ?p)) dn buf ?tk"
    let ?F = "E(unat ?p := ?x)"
    have l: "length (E (unat ?p)) = 4096" using wf_imgD [OF wstateD(1) [OF wE] pb(2)] .
    have R: "fs_upd E (set_off fd x s0) ?s2" "f_buf2 ?s2 = E (unat ?p)" using read_buf2_upd [OF B(2) pb(1)] by auto
    have lx: "length ?x = 4096" using l by (simp add: mem_copy_nth)
    obtain s4 where s4: "write_block ?p ?x (?s2\<lparr>f_buf2 := ?x\<rparr>) = (0, s4)" "fs_upd ?F (set_off fd x s0) s4"
      using write_block_upd [OF fs_upd_buf(2) [OF lx R(1)] pb(1) lx] by blast
    have tk: "0 < ?tk" "?o + ?tk \<le> 4096" "dn + ?tk \<le> count" using c by auto
    have "unat x div 4096 \<le> 247" using x by simp
    then have lim: "unat x + ?tk \<le> 1015808" using tk(2) mult_div_mod_eq [of 4096 "unat x"] by linarith
    let ?m = "if unat (i_size m) < unat x + ?tk then m\<lparr>i_size := of_nat (unat x + ?tk)\<rparr> else m"
    have e: "x + of_nat ?tk = of_nat (unat x + ?tk)" by simp
    have eu: "unat (x + of_nat ?tk) = unat x + ?tk" using lim unfolding e by (simp add: unat_of_nat del: of_nat_add)
    have A: "fs_upd ?F (set_off fd (x + of_nat ?tk) s0) (advance_fd fd ?tk s4)" by (rule fs_upd_advance [OF s4(2) fd])
    have sm: "(if i_size m < x + of_nat ?tk then m\<lparr>i_size := x + of_nat ?tk\<rparr> else m) = ?m" using eu by (simp add: word_less_nat_alt)
    have "write_loop fd n count dn buf s = write_loop fd ?m count (dn + ?tk) buf (advance_fd fd ?tk s4)"
      by (subst write_loop.simps) (simp add: Let_def c off nq B(1) False rp R(2) ox s4(1) fd_offset_upd [OF A fd] sm [symmetric] del: of_nat_min)
    moreover have "wrote i E m ?F ?m (unat x) (take ?tk (drop dn buf))"
      by (rule wrote_block [OF wE _ p(1) tk(1,2) _ refl refl]) (use q qu tk(3) c in \<open>simp_all add: word_less_nat_alt\<close>)
    then have "wrote i D n ?F ?m (unat x) (take ?tk (drop dn buf))" using wrote_trans [OF fgrow_wrote [OF B(3), of "unat x"]] by simp
    ultimately show ?thesis using tk lim A by blast
  qed
qed

definition wrote_upto :: "nat \<Rightarrow> image \<Rightarrow> inode \<Rightarrow> fs \<Rightarrow> nat \<Rightarrow> u32 \<Rightarrow> nat \<Rightarrow> u8 list \<Rightarrow> nat \<times> inode \<times> fs \<Rightarrow> bool" where
  "wrote_upto i D n s0 fd x count bs r \<longleftrightarrow> (\<exists>dn m s' E. r = (dn, m, s') \<and> dn \<le> count \<and> unat x + dn \<le> 1015808
     \<and> fs_upd E (set_off fd (x + of_nat dn) s0) s' \<and> wrote i D n E m (unat x) (take dn bs)
     \<and> (dn < count \<longrightarrow> free_scan E = None \<and> \<not> present E m (unat x + dn) \<or> unat x + dn = 1015808))"

lemma write_loop_spec:
  assumes "fs_upd D (set_off fd x s0) s" "wstate D i n" "unat x \<le> 1015808" "fd < length (f_fds s0)" "dn \<le> count" "count \<le> length buf"
  shows "\<exists>k m s'. write_loop fd n count dn buf s = (dn + k, m, s') \<and> wrote_upto i D n s0 fd x (count - dn) (drop dn buf) (k, m, s')"
  using assms
proof (induction "count - dn" arbitrary: dn D x n s rule: less_induct)
  case less
  note U = less.prems(1) and w = less.prems(2) and fd = less.prems(4)
  have stop: ?case if "write_loop fd n count dn buf s = (dn, m, s')" "fs_upd E (set_off fd x s0) s'" "wrote i D n E m (unat x) []"
    "dn < count \<Longrightarrow> free_scan E = None \<and> \<not> present E m (unat x) \<or> unat x = 1015808" for m s' E
    using that less.prems(3,5) by (intro exI [of _ 0] exI [of _ m] exI [of _ s']) (auto simp: wrote_upto_def)
  consider "\<not> dn < count" | "dn < count" "unat x = 1015808" | "dn < count" "unat x < 1015808" using less.prems(3) by linarith
  then show ?case
  proof cases
    case 1
    then have "write_loop fd n count dn buf s = (dn, n, s)" by (subst write_loop.simps) simp
    then show ?thesis using stop [OF _ U fgrow_wrote [OF fgrow_refl [OF w]]] 1 by simp
  next
    case 2
    then have "248 \<le> x div 4096" by (simp add: word_le_nat_alt unat_div)
    then have "write_loop fd n count dn buf s = (dn, n, s)" using fd_offset_upd [OF U fd] by (subst write_loop.simps) simp
    then show ?thesis using stop [OF _ U fgrow_wrote [OF fgrow_refl [OF w]]] 2 by simp
  next
    case 3
    consider (full) m s' E where "write_loop fd n count dn buf s = (dn, m, s')" "fs_upd E (set_off fd x s0) s'" "wrote i D n E m (unat x) []" "free_scan E = None" "\<not> present E m (unat x)"
      | (more) m s' E tk where "write_loop fd n count dn buf s = write_loop fd m count (dn + tk) buf s'" "0 < tk" "dn + tk \<le> count"
         "unat x + tk \<le> 1015808" "fs_upd E (set_off fd (x + of_nat tk) s0) s'" "wrote i D n E m (unat x) (take tk (drop dn buf))"
      using write_round [OF U w 3(2) fd 3(1) less.prems(6)] by blast
    then show ?thesis
    proof cases
      case full
      then show ?thesis using stop by blast
    next
      case more
      have x': "unat (x + of_nat tk) = unat x + tk"
      proof -
        have "x + of_nat tk = of_nat (unat x + tk)" by simp
        then show ?thesis using more(4) by (simp add: unat_of_nat del: of_nat_add)
      qed
      have lt: "count - (dn + tk) < count - dn" using more(2) 3(1) by simp
      have wE: "wstate E i m" using more(6) by (simp add: wrote_def)
      obtain k m' s'' where k: "write_loop fd m count (dn + tk) buf s' = (dn + tk + k, m', s'')"
        "wrote_upto i E m s0 fd (x + of_nat tk) (count - (dn + tk)) (drop (dn + tk) buf) (k, m', s'')"
        using less.hyps [OF lt more(5) wE _ fd more(3) less.prems(6)] more(4) x' by auto
      then obtain F where F: "k \<le> count - (dn + tk)" "unat x + tk + k \<le> 1015808" "fs_upd F (set_off fd (x + of_nat tk + of_nat k) s0) s''"
        "wrote i E m F m' (unat x + tk) (take k (drop (dn + tk) buf))" "k < count - (dn + tk) \<longrightarrow> free_scan F = None \<and> \<not> present F m' (unat x + tk + k) \<or> unat x + tk + k = 1015808"
        unfolding wrote_upto_def x' by auto
      have len: "length (take tk (drop dn buf)) = tk" using more(3) less.prems(6) by simp
      have "wrote i D n F m' (unat x) (take (tk + k) (drop dn buf))"
        using wrote_trans [OF more(6)] F(4) unfolding len take_add by (simp add: add.commute)
      then have "wrote_upto i D n s0 fd x (count - dn) (drop dn buf) (tk + k, m', s'')"
        using F(1-3,5) more(3) by (auto simp: wrote_upto_def algebra_simps)
      then show ?thesis using more(1) k(1) by (metis add.assoc)
    qed
  qed
qed

subsection \<open>The contents of a file\<close>

definition contents :: "image \<Rightarrow> nat \<Rightarrow> u8 list" where
  "contents D i = map (fbyte D (ino_at D i)) [0..<unat (i_size (ino_at D i))]"

lemma contents_length [simp]: "length (contents D i) = unat (i_size (ino_at D i))"
  by (simp add: contents_def)

lemma contents_vol:
  assumes "vol D j = Some n"
  shows "contents D j = map (\<lambda>k. let p = vn_ptr n (fslot (k div 4096)) in if p = 0 then 0 else D (unat p) ! (k mod 4096)) [0..<unat (vn_size n)]"
  using assms by (auto simp: contents_def fbyte_def vol_def split: if_splits)

lemma contents_kept:
  assumes "vol D j = Some n" "vol E j = Some n" "\<And>sl c. owns (vol D) j sl c \<Longrightarrow> E c = D c"
  shows "contents E j = contents D j"
proof -
  have "vn_ptr n sl \<noteq> 0 \<Longrightarrow> E (unat (vn_ptr n sl)) = D (unat (vn_ptr n sl))" for sl
    using assms(1,3) by (auto simp: owns_def)
  then show ?thesis unfolding contents_vol [OF assms(1)] contents_vol [OF assms(2)] by (simp add: Let_def)
qed

lemma fbyte_set_ino:
  assumes "wstate E i m"
  shows "fbyte (set_ino i m E) m k = fbyte E m k" "present (set_ino i m E) m k = present E m k"
proof -
  note P = wstate_ptr [OF assms]
  have "unat (ptr E m sl) \<noteq> 4" if "ptr E m sl \<noteq> 0" for sl using P(4) [OF that] by (auto simp: busy_def)
  then show "fbyte (set_ino i m E) m k = fbyte E m k" using P(1) by (simp add: fbyte_def Let_def)
  show "present (set_ino i m E) m k = present E m k" using P(1) by (simp add: present_def)
qed

lemma wrote_contents:
  assumes w: "wrote i D n E m off xs" and n: "ino_at D i = n" and off: "off \<le> unat (i_size n)"
  shows "contents (set_ino i m E) i = take off (contents D i) @ xs @ drop (off + length xs) (contents D i)"
proof (rule nth_equalityI)
  have wE: "wstate E i m" using w by (simp add: wrote_def)
  have mi: "ino_at (set_ino i m E) i = m" using wstateD(7) [OF wE] by simp
  have sz: "unat (i_size m) = max (unat (i_size n)) (off + length xs)" using w off by (auto simp: wrote_def)
  show l: "length (contents (set_ino i m E) i) = length (take off (contents D i) @ xs @ drop (off + length xs) (contents D i))"
    using mi sz n off by auto
  fix k
  assume k: "k < length (contents (set_ino i m E) i)"
  have "contents (set_ino i m E) i ! k = (if off \<le> k \<and> k < off + length xs then xs ! (k - off) else fbyte D n k)"
    using k w mi fbyte_set_ino(1) [OF wE] by (simp add: contents_def wrote_def)
  moreover have "k < unat (i_size n) \<Longrightarrow> contents D i ! k = fbyte D n k" using n by (simp add: contents_def)
  moreover have "k < unat (i_size n) \<or> k < off + length xs" using k mi sz by auto
  ultimately show "contents (set_ino i m E) i ! k = (take off (contents D i) @ xs @ drop (off + length xs) (contents D i)) ! k"
    using off n by (auto simp: nth_append)
qed

subsection \<open>Reading\<close>

text \<open>A read stops at the first byte of a block that does not exist.\<close>

definition span :: "image \<Rightarrow> inode \<Rightarrow> nat \<Rightarrow> nat \<Rightarrow> nat" where
  "span D n x c = length (takeWhile (present D n) [x..<x + c])"

lemma span_le: "span D n x c \<le> c"
  unfolding span_def by (metis length_takeWhile_le length_upt diff_add_inverse)

lemma span_add:
  assumes "\<And>k. x \<le> k \<Longrightarrow> k < x + a \<Longrightarrow> present D n k"
  shows "span D n x (a + c) = a + span D n (x + a) c"
proof -
  have "[x..<x + (a + c)] = [x..<x + a] @ [x + a..<x + a + c]" by (metis add.assoc le_add1 upt_add_eq_append)
  moreover have "takeWhile (present D n) ([x..<x + a] @ [x + a..<x + a + c]) = [x..<x + a] @ takeWhile (present D n) [x + a..<x + a + c]"
    using assms by (intro takeWhile_append2) auto
  ultimately show ?thesis by (simp add: span_def)
qed

lemma span_all: "(\<And>k. x \<le> k \<Longrightarrow> k < x + c \<Longrightarrow> present D n k) \<Longrightarrow> span D n x c = c"
  using span_add [of x c D n 0] by (simp add: span_def)

lemma span_hole: "\<not> present D n x \<Longrightarrow> span D n x c = 0"
  by (cases c) (simp_all add: span_def upt_conv_Cons del: upt_Suc)

lemma mem_copy_append:
  assumes "dn + k \<le> length buf" "so + k \<le> length src"
  shows "mem_copy dn buf so src k = take dn buf @ take k (drop so src) @ drop (dn + k) buf"
  using assms by (intro nth_equalityI) (auto simp: mem_copy_nth nth_append)

lemma block_bytes:
  assumes "present D n x" "length (D (unat (ptr D n (fslot (x div 4096))))) = 4096" "x mod 4096 + k \<le> 4096"
  shows "take k (drop (x mod 4096) (D (unat (ptr D n (fslot (x div 4096)))))) = map (fbyte D n) [x..<x + k]"
    "\<And>j. x \<le> j \<Longrightarrow> j < x + k \<Longrightarrow> present D n j"
proof -
  have same: "j div 4096 = x div 4096" "j mod 4096 = x mod 4096 + (j - x)" if "x \<le> j" "j < x + k" for j
  proof -
    have "4096 * (x div 4096) \<le> j" "j < 4096 * (x div 4096) + 4096"
      using that assms(3) mult_div_mod_eq [of 4096 x] by linarith+
    then show d: "j div 4096 = x div 4096" by (intro div_nat_eqI) simp_all
    show "j mod 4096 = x mod 4096 + (j - x)"
      using mult_div_mod_eq [of 4096 x] mult_div_mod_eq [of 4096 j] d that(1) by linarith
  qed
  show "\<And>j. x \<le> j \<Longrightarrow> j < x + k \<Longrightarrow> present D n j" using assms(1) same(1) unfolding present_def by metis
  show "take k (drop (x mod 4096) (D (unat (ptr D n (fslot (x div 4096)))))) = map (fbyte D n) [x..<x + k]"
  proof (rule nth_equalityI)
    fix j
    assume "j < length (take k (drop (x mod 4096) (D (unat (ptr D n (fslot (x div 4096)))))))"
    then have j: "j < k" by simp
    note e = same [of "x + j"]
    have "fbyte D n (x + j) = D (unat (ptr D n (fslot (x div 4096)))) ! (x mod 4096 + j)"
      using e j assms(1) by (simp add: fbyte_def present_def)
    then show "take k (drop (x mod 4096) (D (unat (ptr D n (fslot (x div 4096)))))) ! j = map (fbyte D n) [x..<x + k] ! j"
      using j assms(2,3) by simp
  qed (use assms(2,3) in simp)
qed

lemma read_loop_spec:
  assumes "fs_upd D (set_off fd x s0) s" "wstate D i n" "unat x + (count - dn) \<le> 1015808" "fd < length (f_fds s0)" "dn \<le> count" "count \<le> length buf"
  shows "\<exists>k s'. k = span D n (unat x) (count - dn)
    \<and> read_loop fd n count dn buf s = (dn + k, take dn buf @ map (fbyte D n) [unat x..<unat x + k] @ drop (dn + k) buf, s')
    \<and> fs_upd D (set_off fd (x + of_nat k) s0) s'"
  using assms
proof (induction "count - dn" arbitrary: dn x buf s rule: less_induct)
  case less
  note U = less.prems(1) and w = less.prems(2) and fd = less.prems(4) and off = fd_offset_upd [OF less.prems(1,4)]
  have qu: "unat (x div 4096) = unat x div 4096" by (simp add: unat_div)
  have ox: "unat (x mod 4096) = unat x mod 4096" by (simp add: unat_mod)
  have "unat x div 4096 \<le> 248" using less.prems(3) by simp
  then have q: "unat (x div 4096) < 1032" using qu by linarith
  let ?p = "ptr D n (fslot (unat x div 4096))"
  note b = bfi_read [OF U w q, unfolded qu]
  consider "\<not> dn < count" | "dn < count" "\<not> present D n (unat x)" | "dn < count" "present D n (unat x)" by blast
  then show ?case
  proof cases
    case 1
    then show ?thesis using U less.prems(5) by (subst read_loop.simps) (auto simp: span_def)
  next
    case 2
    then have "?p = 0" by (simp add: present_def)
    then show ?thesis using 2 U off b span_hole [OF 2(2)] by (subst read_loop.simps) auto
  next
    case 3
    let ?o = "unat x mod 4096"
    define tk where tk_def: "tk = min (4096 - unat x mod 4096) (count - dn)"
    have p: "?p \<noteq> 0" using 3(2) by (simp add: present_def)
    then have pu: "0 < unat ?p" by (simp add: unat_gt_0)
    have pb: "?p < 254" "unat ?p < 254" using wstate_ptr(4) [OF w p] by (auto simp: busy_def word_less_nat_alt)
    have R: "fs_upd D (set_off fd x s0) (read_buf2 ?p s)" "f_buf2 (read_buf2 ?p s) = D (unat ?p)" using read_buf2_upd [OF U pb(1)] by auto
    have l: "length (D (unat ?p)) = 4096" using wf_imgD [OF wstateD(1) [OF w] pb(2)] .
    have tkp: "0 < tk" "?o + tk \<le> 4096" "dn + tk \<le> count" using 3(1) tk_def by auto
    let ?b = "mem_copy dn buf ?o (D (unat ?p)) tk"
    note bb = block_bytes [OF 3(2) l tkp(2)]
    have r: "dn + tk \<le> length buf" "?o + tk \<le> length (D (unat ?p))" using tkp(2,3) l less.prems(6) by linarith+
    have B: "?b = take dn buf @ map (fbyte D n) [unat x..<unat x + tk] @ drop (dn + tk) buf"
      using mem_copy_append [OF r] unfolding bb(1) .
    have A: "fs_upd D (set_off fd (x + of_nat tk) s0) (advance_fd fd tk (read_buf2 ?p s))" by (rule fs_upd_advance [OF R(1) fd])
    have "\<not> int (unat ?p) \<le> 0" using pu by linarith
    then have step: "read_loop fd n count dn buf s = read_loop fd n count (dn + tk) ?b (advance_fd fd tk (read_buf2 ?p s))"
      by (subst read_loop.simps) (simp add: Let_def 3(1) off b R(2) ox tk_def)
    have x': "unat (x + of_nat tk) = unat x + tk"
    proof -
      have "x + of_nat tk = of_nat (unat x + tk)" by simp
      moreover have "unat x + tk \<le> 1015808" using tkp(3) less.prems(3) by linarith
      ultimately show ?thesis by (simp add: unat_of_nat del: of_nat_add)
    qed
    have lt: "count - (dn + tk) < count - dn" using tkp(1) 3(1) by linarith
    have lb: "length ?b = length buf" by (simp add: mem_copy_nth)
    have "unat (x + of_nat tk) + (count - (dn + tk)) \<le> 1015808" "count \<le> length ?b" using x' less.prems(3,6) tkp(3) lb by linarith+
    then obtain k s' where k: "k = span D n (unat x + tk) (count - (dn + tk))"
      "read_loop fd n count (dn + tk) ?b (advance_fd fd tk (read_buf2 ?p s))
         = (dn + tk + k, take (dn + tk) ?b @ map (fbyte D n) [unat x + tk..<unat x + tk + k] @ drop (dn + tk + k) ?b, s')"
      "fs_upd D (set_off fd (x + of_nat tk + of_nat k) s0) s'"
      using less.hyps [OF lt A w _ fd tkp(3)] unfolding x' by blast
    have "count - dn = tk + (count - (dn + tk))" using tkp(3) by linarith
    then have sp: "tk + k = span D n (unat x) (count - dn)" using span_add [OF bb(2)] k(1) by metis
    have m: "map (fbyte D n) [unat x..<unat x + (tk + k)] = map (fbyte D n) [unat x..<unat x + tk] @ map (fbyte D n) [unat x + tk..<unat x + tk + k]"
      by (metis add.assoc le_add1 map_append upt_add_eq_append)
    have "take (dn + tk) ?b = take dn buf @ map (fbyte D n) [unat x..<unat x + tk]" "drop (dn + tk + k) ?b = drop (dn + (tk + k)) buf"
      using B tkp(3) less.prems(6) by (simp_all add: ac_simps)
    moreover have "fs_upd D (set_off fd (x + of_nat (tk + k)) s0) s'" using k(3) by (simp add: add.assoc)
    ultimately show ?thesis using step k(2) sp m by (intro exI [of _ "tk + k"] exI [of _ s']) (simp add: add.assoc)
  qed
qed

subsection \<open>The operations\<close>

text \<open>The file a descriptor is open on, and where it stands.\<close>

definition fd_file :: "int \<Rightarrow> fs \<Rightarrow> nat" where
  "fd_file fd s = unat (fd_inode (f_fds s ! nat fd))"

definition fd_pos :: "int \<Rightarrow> fs \<Rightarrow> nat" where
  "fd_pos fd s = unat (fd_offset (f_fds s ! nat fd))"

lemma fd_openD:
  assumes inv: "fs_inv s" and fd: "fd_open fd s"
  shows "nat fd < length (f_fds s)" "good (img s) (fd_inode (f_fds s ! nat fd))" "i_mode (ino_at (img s) (fd_file fd s)) = INODE_FILE"
    "fd_inode (f_fds s ! nat fd) < 64" "i_size (ino_at (img s) (fd_file fd s)) \<le> 1015808"
proof -
  let ?f = "f_fds s ! nat fd"
  show l: "nat fd < length (f_fds s)" using fs_invD(7) [OF inv] fd by (simp add: fds_ok_def fd_open_def)
  then have "?f \<in> set (f_fds s)" "fd_used ?f" using fd by (auto simp: fd_open_def)
  then obtain n where n: "vol (img s) (unat (fd_inode ?f)) = Some n" "vn_mode n = INODE_FILE"
    using fs_invD(7) [OF inv] unfolding fds_ok_def by blast
  show g: "good (img s) (fd_inode ?f)" using n by (auto simp: good_dom)
  then show "fd_inode ?f < 64" by (simp add: good_def)
  show m: "i_mode (ino_at (img s) (fd_file fd s)) = INODE_FILE" using n by (auto simp: fd_file_def vol_def split: if_splits)
  have v: "vol (img s) (unat (fd_inode ?f)) = Some (vnode_of (img s) (ino_at (img s) (unat (fd_inode ?f))))" using n by (auto simp: vol_def split: if_splits)
  show "i_size (ino_at (img s) (fd_file fd s)) \<le> 1015808"
    using file_okD(1) [OF img_invD(1) [OF fs_invD(3) [OF inv]] v] m by (simp add: file_ok_def fd_file_def)
qed

lemma ssize_small: "n \<le> 1015808 \<Longrightarrow> ssize n = int n"
proof -
  assume n: "n \<le> 1015808"
  then have "unat (of_nat n :: u32) = n" by (simp add: unat_of_nat)
  then have "uint (of_nat n :: u32) = int n" by (simp add: uint_nat)
  moreover have "signed_take_bit 31 (int n) = int n" using n by (intro signed_take_bit_int_eq_self) simp_all
  ultimately show ?thesis by (simp add: ssize_def sint_uint)
qed

lemma fds_ok_set_off:
  assumes "fds_ok N (f_fds s)" "fd < length (f_fds s)"
  shows "fds_ok N (f_fds (set_off fd y s))"
proof -
  let ?g = "(f_fds s ! fd)\<lparr>fd_offset := y\<rparr>"
  have "\<exists>n. N (unat (fd_inode f)) = Some n \<and> vn_mode n = INODE_FILE" if f: "f \<in> set (f_fds (set_off fd y s))" "fd_used f" for f
  proof -
    have "f = ?g \<or> f \<in> set (f_fds s)" using f(1) set_update_subset_insert [of "f_fds s" fd ?g] unfolding set_off_def by auto
    then show ?thesis using assms f(2) nth_mem [OF assms(2)] unfolding fds_ok_def by auto
  qed
  then show ?thesis using assms(1) by (simp add: fds_ok_def)
qed

lemma fs_write_spec:
  assumes inv: "fs_inv s" and fd: "fd_open fd s" "fd_flags (f_fds s ! nat fd) AND 3 \<noteq> 0" and c: "unat count \<le> length bs"
    and pos: "fd_pos fd s \<le> 1015808"
  shows "\<exists>dn s'. fs_write fd (Some bs) count s = (int dn, s') \<and> dn \<le> unat count \<and> fs_inv s'
    \<and> f_fds s' = f_fds (set_off (nat fd) (fd_offset (f_fds s ! nat fd) + of_nat dn) s) \<and> f_cwd s' = f_cwd s \<and> f_con s' = f_con s
    \<and> (fd_pos fd s \<le> length (contents (img s) (fd_file fd s)) \<longrightarrow> contents (img s') (fd_file fd s) = take (fd_pos fd s) (contents (img s) (fd_file fd s)) @ take dn bs @ drop (fd_pos fd s + dn) (contents (img s) (fd_file fd s)))
    \<and> (\<forall>k. present (img s) (ino_at (img s) (fd_file fd s)) k \<or> fd_pos fd s \<le> k \<and> k < fd_pos fd s + dn \<longrightarrow> present (img s') (ino_at (img s') (fd_file fd s)) k)
    \<and> (\<forall>j. j \<noteq> fd_file fd s \<longrightarrow> vol (img s') j = vol (img s) j \<and> (j \<in> dom (vol (img s)) \<longrightarrow> contents (img s') j = contents (img s) j))
    \<and> fd_pos fd s + dn \<le> 1015808 \<and> (dn < unat count \<longrightarrow> free_scan (img s') = None \<and> \<not> present (img s') (ino_at (img s') (fd_file fd s)) (fd_pos fd s + dn) \<or> fd_pos fd s + dn = 1015808)"
proof -
  let ?D = "img s" and ?c = "fd_inode (f_fds s ! nat fd)" and ?x = "fd_offset (f_fds s ! nat fd)" and ?i = "fd_file fd s"
  let ?n = "ino_at ?D ?i"
  note F = fd_openD [OF inv fd(1)] and I = fs_invD [OF inv]
  have x: "unat ?x \<le> 1015808" using pos by (simp add: fd_pos_def)
  have W: "wstate ?D ?i ?n" and V: "vol (set_ino ?i ?n ?D) = vol ?D" using wstate_start [OF I(3) F(2)] F(3) unfolding fd_file_def by auto
  obtain s1 where s1: "inode_read ?c s = (?n, s1)" "fs_upd ?D s s1" using inode_read_upd [OF I(1) F(4)] unfolding fd_file_def by auto
  have U: "fs_upd ?D (set_off (nat fd) ?x s) s1" using s1(2) by simp
  obtain dn m s2 where L: "write_loop (nat fd) ?n (unat count) 0 bs s1 = (dn, m, s2)" "wrote_upto ?i ?D ?n s (nat fd) ?x (unat count) bs (dn, m, s2)"
    using write_loop_spec [OF U W x F(1) _ c, of 0] by auto
  then obtain E where E: "dn \<le> unat count" "unat ?x + dn \<le> 1015808" "fs_upd E (set_off (nat fd) (?x + of_nat dn) s) s2"
    "wrote ?i ?D ?n E m (unat ?x) (take dn bs)" "dn < unat count \<longrightarrow> free_scan E = None \<and> \<not> present E m (unat ?x + dn) \<or> unat ?x + dn = 1015808"
    by (auto simp: wrote_upto_def)
  let ?s' = "inode_write ?c m s2" and ?F = "set_ino ?i m E"
  have c2: "fd_inode (f_fds s2 ! nat fd) = ?c" using fs_updD(3) [OF E(3)] F(1) by simp
  have S: "fs_upd ?F (set_off (nat fd) (?x + of_nat dn) s) ?s'" using inode_write_upd [OF E(3) F(4), of m] by (simp add: fd_file_def)
  have res: "fs_write fd (Some bs) count s = (int dn, ?s')"
    using fd s1(1) L(1) F(3) c2 E(1,2) by (simp add: fs_write_def ssize_small)
  have wE: "wstate E ?i m" using E(4) by (simp add: wrote_def)
  note wD = wstateD [OF wE]
  have vj: "vol ?F j = vol ?D j" if "j \<noteq> ?i" for j using E(4) V that by (simp add: wrote_def)
  have mi: "ino_at ?F ?i = m" using wD(7) by simp
  have keep: "keeps (vol ?D) (vol ?F)" unfolding keeps_def
  proof (intro allI impI)
    fix j n
    assume n: "vol ?D j = Some n"
    show "\<exists>m. vol ?F j = Some m \<and> vn_mode m = vn_mode n"
    proof (cases "j = ?i")
      case True
      then show ?thesis using n wstate_ptr(2) [OF wE] wD(5) F(3) by (auto simp: vol_def split: if_splits)
    qed (use n vj in simp)
  qed
  note fds = fds_ok_set_off [OF I(7) F(1)]
  have inv': "fs_inv ?s'" using fs_inv_upd [OF S wD(6)] I(2,6) keepsD [OF keep] fds by simp
  have cj: "contents ?F j = contents ?D j" if j: "j \<noteq> ?i" "j \<in> dom (vol ?D)" for j
  proof -
    obtain n where n: "vol ?D j = Some n" using j(2) by auto
    have "?F b = ?D b" if o: "owns (vol ?D) j sl b" for sl b
    proof -
      have "E b = ?D b" using E(4) V o j(1) unfolding wrote_def by metis
      then show ?thesis using owns_range [OF I(3) o] by auto
    qed
    then show ?thesis by (intro contents_kept [OF n]) (simp_all add: vj [OF j(1)] n)
  qed
  have len: "length (take dn bs) = dn" using E(1) c by simp
  have cn: "unat ?x \<le> length (contents ?D ?i) \<longrightarrow> contents ?F ?i = take (unat ?x) (contents ?D ?i) @ take dn bs @ drop (unat ?x + dn) (contents ?D ?i)"
    using wrote_contents [OF E(4) refl] len by simp
  have pr: "present ?D ?n k \<or> unat ?x \<le> k \<and> k < unat ?x + dn \<longrightarrow> present ?F (ino_at ?F ?i) k" for k
    using E(4) len fbyte_set_ino(2) [OF wE] unfolding mi wrote_def by metis
  have fs: "free_scan ?F = free_scan E" by (simp add: bm_def)
  note up = fs_updD [OF S]
  show ?thesis
  proof (intro exI [of _ dn] exI [of _ ?s'] conjI)
    show "fs_write fd (Some bs) count s = (int dn, ?s')" "dn \<le> unat count" "fs_inv ?s'" by fact+
    show "f_fds ?s' = f_fds (set_off (nat fd) (?x + of_nat dn) s)" "f_cwd ?s' = f_cwd s" "f_con ?s' = f_con s" using up by simp_all
    show "fd_pos fd s \<le> length (contents ?D ?i) \<longrightarrow> contents (img ?s') ?i = take (fd_pos fd s) (contents ?D ?i) @ take dn bs @ drop (fd_pos fd s + dn) (contents ?D ?i)"
      using cn unfolding up(2) fd_pos_def .
    show "\<forall>k. present ?D ?n k \<or> fd_pos fd s \<le> k \<and> k < fd_pos fd s + dn \<longrightarrow> present (img ?s') (ino_at (img ?s') ?i) k"
      using pr unfolding up(2) fd_pos_def by blast
    show "\<forall>j. j \<noteq> ?i \<longrightarrow> vol (img ?s') j = vol ?D j \<and> (j \<in> dom (vol ?D) \<longrightarrow> contents (img ?s') j = contents ?D j)"
      using vj cj unfolding up(2) by blast
    show "fd_pos fd s + dn \<le> 1015808" "dn < unat count \<longrightarrow> free_scan (img ?s') = None \<and> \<not> present (img ?s') (ino_at (img ?s') ?i) (fd_pos fd s + dn) \<or> fd_pos fd s + dn = 1015808"
      using E(2,5) fs fbyte_set_ino(2) [OF wE] mi unfolding up(2) fd_pos_def by auto
  qed
qed

lemma fs_read_spec:
  assumes inv: "fs_inv s" and fd: "fd_open fd s" and c: "unat count \<le> length bs"
  shows "\<exists>k s'. k = span (img s) (ino_at (img s) (fd_file fd s)) (fd_pos fd s) (min (unat count) (length (contents (img s) (fd_file fd s)) - fd_pos fd s))
    \<and> fs_read fd (Some bs) count s = (int k, Some (take k (drop (fd_pos fd s) (contents (img s) (fd_file fd s))) @ drop k bs), s')
    \<and> fs_upd (img s) (set_off (nat fd) (fd_offset (f_fds s ! nat fd) + of_nat k) s) s' \<and> fs_inv s'"
proof -
  let ?D = "img s" and ?c = "fd_inode (f_fds s ! nat fd)" and ?x = "fd_offset (f_fds s ! nat fd)" and ?i = "fd_file fd s"
  let ?n = "ino_at ?D ?i" and ?l = "min (unat count) (length (contents (img s) (fd_file fd s)) - fd_pos fd s)"
  note F = fd_openD [OF inv fd] and I = fs_invD [OF inv]
  have W: "wstate ?D ?i ?n" using wstate_start [OF I(3) F(2)] F(3) unfolding fd_file_def by auto
  obtain s1 where s1: "inode_read ?c s = (?n, s1)" "fs_upd ?D s s1" using inode_read_upd [OF I(1) F(4)] unfolding fd_file_def by auto
  have U: "fs_upd ?D (set_off (nat fd) ?x s) s1" using s1(2) by simp
  have off: "f_fds s1 = f_fds s" using s1(2) by auto
  have inv': "fs_inv s'" if "fs_upd ?D (set_off (nat fd) y s) s'" for y s'
    using fs_inv_upd [OF that I(3)] I(2,6) fds_ok_set_off [OF I(7) F(1)] by simp
  show ?thesis
  proof (cases "i_size ?n \<le> ?x")
    case True
    then have "length (contents ?D ?i) - fd_pos fd s = 0" by (simp add: fd_pos_def word_le_nat_alt)
    moreover have "fs_read fd (Some bs) count s = (0, Some bs, s1)" using fd s1(1) F(3) True off by (simp add: fs_read_def)
    ultimately show ?thesis using U inv' [OF U] by (simp add: span_def)
  next
    case False
    have n: "unat (i_size ?n - ?x) = unat (i_size ?n) - unat ?x" using False by (simp add: unat_sub)
    have lim: "unat ?x + ?l \<le> unat (i_size ?n)" using False by (simp add: fd_pos_def word_le_nat_alt)
    then have lim': "unat ?x + (?l - 0) \<le> 1015808" using F(5) by (simp add: word_le_nat_alt)
    have lb: "?l \<le> length bs" using c by simp
    obtain k s2 where k: "k = span ?D ?n (unat ?x) ?l" "read_loop (nat fd) ?n ?l 0 bs s1 = (k, map (fbyte ?D ?n) [unat ?x..<unat ?x + k] @ drop k bs, s2)"
      "fs_upd ?D (set_off (nat fd) (?x + of_nat k) s) s2"
      using read_loop_spec [OF U W lim' F(1) _ lb] by auto
    have kl: "k \<le> ?l" using k(1) span_le by metis
    have "ssize k = int k" using kl lim' by (intro ssize_small) linarith
    moreover have "map (fbyte ?D ?n) [unat ?x..<unat ?x + k] = take k (drop (fd_pos fd s) (contents ?D ?i))"
      using kl lim by (intro nth_equalityI) (auto simp: contents_def fd_pos_def)
    ultimately have "fs_read fd (Some bs) count s = (int k, Some (take k (drop (fd_pos fd s) (contents ?D ?i)) @ drop k bs), s2)"
      using fd s1(1) F(3) False off k(2) n by (simp add: fs_read_def fd_pos_def)
    then show ?thesis using k(1,3) inv' [OF k(3)] unfolding fd_pos_def by blast
  qed
qed

end
