(* ===== verification/Fs_Run.thy ===== *)
theory Fs_Run
  imports Fs_Open Fs_File
begin

text \<open>
  The file system as its clients see it: what each call does to the volume and to the contents of the files, and
  the states that sequences of calls reach.
\<close>

unbundle bit_operations_syntax

subsection \<open>The image and the volume\<close>

lemma lookup_vol:
  assumes inv: "img_inv D" and d: "vol D d = Some n" and nm: "nm \<noteq> []"
  shows "lookup D d nm = Some c \<longleftrightarrow> (\<exists>e. vn_ents n e = Some (nm, unat c))"
proof -
  have i: "d < 64" "used_ino D d" "n = vnode_of D (ino_at D d)" using d by (simp_all add: vol_Some)
  show ?thesis
  proof (cases "is_dir D d")
    case True
    note v = vol_dir [OF inv i(1,2) True] and b = inv_block_ok(4) [OF inv i(1,2) True]
    have "named (D (dirn D d)) e" if "e < 128" "live (D (dirn D d)) e" for e using b that by (auto simp: dblock_ok_def)
    then have "ents (D (dirn D d)) e = Some (nm, unat c) \<longleftrightarrow>
        e < 128 \<and> live (D (dirn D d)) e \<and> ename (D (dirn D d)) e = nm \<and> ent_inode (D (dirn D d)) e = c" for e
      using nm by (auto simp: ents_def word_unat_eq_iff split: if_splits)
    then show ?thesis using v(3) i(3) True dir_map_Some [OF b] by (auto simp: lookup_map)
  next
    case False
    then show ?thesis using i(3) by (auto simp: lookup_map vnode_of_def is_dir_def)
  qed
qed

lemma inode_scan_vol: "inode_scan D = scan (\<lambda>i. vol D i = None) 0 64"
proof -
  have "(\<not> bm D 3 i) = (vol D i = None)" if "i < 64" for i using that by (simp add: vol_def)
  then show ?thesis by (intro scan_cong) simp
qed

lemma free_scan_vol: "free_scan D = scan (\<lambda>b. b \<notin> busy D) 6 254"
  by (rule scan_cong) (simp add: busy_def)

lemma free_entry_vol:
  assumes inv: "img_inv D" and d: "vol D d = Some n" "vn_mode n = INODE_DIR"
  shows "is_dir D d" "free_entry D d = scan (\<lambda>e. vn_ents n e = None) 0 128"
proof -
  have i: "d < 64" "used_ino D d" "n = vnode_of D (ino_at D d)" using d by (simp_all add: vol_Some)
  show di: "is_dir D d" using d i(3) by (simp add: is_dir_def)
  have "(vn_ents n e = None) = (\<not> live (D (dirn D d)) e)" if "e < 128" for e
    using vol_dir(3) [OF inv i(1,2) di] i(3) that by (simp add: ents_def)
  then show "free_entry D d = scan (\<lambda>e. vn_ents n e = None) 0 128"
    unfolding free_entry_def by (intro scan_cong) simp
qed

subsection \<open>Files a call does not name\<close>

text \<open>A change of the blocks of directories leaves the contents of a file that keeps its node.\<close>

lemma other_contents:
  assumes inv: "img_inv D" and j: "vol D j = Some n" "vol E j = Some n" "vn_mode n = INODE_FILE"
    and b: "\<And>b. b \<in> busy D \<Longrightarrow> b \<noteq> x \<Longrightarrow> E b = D b" and x: "\<And>sl. \<not> owns (vol D) j sl x"
  shows "contents E j = contents D j"
proof (rule contents_kept [OF j(1,2)])
  fix sl c
  assume o: "owns (vol D) j sl c"
  note B = vinvD(3) [OF img_invD(1) [OF inv]]
  obtain r where "vol D 0 = Some r" "vn_mode r = INODE_DIR" using vinvD(1) [OF img_invD(1) [OF inv]] by (auto simp: root_ok_def)
  then have "j \<noteq> 0" using j(1,3) by (intro notI) simp
  then have "c \<in> busy D" using blocks_okD(2) [OF B o] by auto
  then show "E c = D c" using b x o by metis
qed

lemma dir_block_foreign:
  assumes inv: "img_inv D" and d: "vol D d = Some m" and nd: "j \<noteq> d" "dirn D d \<noteq> 0"
  shows "\<not> owns (vol D) j sl (dirn D d)"
proof
  assume o: "owns (vol D) j sl (dirn D d)"
  have "i_direct (ino_at D d) ! 0 \<noteq> 0" using nd(2) by (auto simp: dirn_def)
  then have "owns (vol D) d 0 (dirn D d)" using d by (auto simp: owns_def vol_Some dirn_def)
  then show False using blocks_okD(3) [OF vinvD(3) [OF img_invD(1) [OF inv]] o] nd(1) by blast
qed

lemma dir_block_file:
  assumes inv: "img_inv D" and d: "vol D d = Some m" and nd: "j \<noteq> d"
  shows "\<not> owns (vol D) j sl (dirn D d)"
proof (cases "dirn D d = 0")
  case True
  then show ?thesis using blocks_okD(5) [OF vinvD(3) [OF img_invD(1) [OF inv]], of j sl "dirn D d"] by auto
qed (rule dir_block_foreign [OF assms])

definition same_files :: "nat set \<Rightarrow> image \<Rightarrow> image \<Rightarrow> bool" where
  "same_files X D E \<longleftrightarrow> (\<forall>j n. j \<notin> X \<and> vol D j = Some n \<and> vn_mode n = INODE_FILE \<longrightarrow> vol E j = Some n \<and> contents E j = contents D j)"

lemma same_files_refl [simp]: "same_files X D D"
  by (simp add: same_files_def)

lemma create_same_files:
  assumes inv: "img_inv D" and d: "vol D d = Some m" and eff: "create_effect D d nm mode E"
  shows "same_files {d} D E"
  unfolding same_files_def
proof (intro allI impI)
  fix j n
  assume a: "j \<notin> {d} \<and> vol D j = Some n \<and> vn_mode n = INODE_FILE"
  have v: "vol E j = Some n"
  proof (cases "create_result D d nm")
    case (Inr c)
    then obtain e b where "vol E = vcreate d e nm mode (unat c) b (vol D)" using eff by (auto simp: create_effect_def)
    moreover have "vol D (unat c) = None" using create_result_Inr(3) [OF Inr] by (auto simp: scan_Some_iff vol_def)
    ultimately show ?thesis using a by (auto simp: vcreate_def)
  qed (use eff a in \<open>auto simp: create_effect_def\<close>)
  have "E b = D b" if "b \<in> busy D" "b \<noteq> dirn D d" for b using eff that by (auto simp: create_effect_def)
  then show "vol E j = Some n \<and> contents E j = contents D j"
    using v other_contents [OF inv _ v] a dir_block_file [OF inv d, of j] by blast
qed

lemma unlink_same_files:
  assumes inv: "img_inv D" and d: "d < 64" "used_ino D d" "is_dir D d" and e: "e < 128" "live (D (dirn D d)) e"
    and i: "unat (ent_inode (D (dirn D d)) e) = i" "i \<noteq> d" "vol D i = Some n"
  shows "same_files {i} D (unlinked d e i D)"
  unfolding same_files_def
proof (intro allI impI)
  fix j n'
  assume a: "j \<notin> {i} \<and> vol D j = Some n' \<and> vn_mode n' = INODE_FILE"
  note u = unlinked_vol [OF inv d e i]
  have vd: "vol D d = Some (vnode_of D (ino_at D d))" using d by (simp add: vol_def)
  have jd: "j \<noteq> d" using a d(3) vd by (auto simp: is_dir_def)
  then have v: "vol (unlinked d e i D) j = Some n'" using a u(1) by (auto simp: vremove_def)
  show "vol (unlinked d e i D) j = Some n' \<and> contents (unlinked d e i D) j = contents D j"
    using v other_contents [OF inv _ v _ u(3) dir_block_file [OF inv vd jd]] a by blast
qed

lemma truncate_same_files:
  assumes inv: "img_inv D" and n: "vol D i = Some n" "vn_mode n = INODE_FILE"
  shows "same_files {i} D (truncated i D)" "contents (truncated i D) i = []"
proof -
  note t = truncated_inv [OF inv n] and dr = drops_spec [OF img_invD(2) [OF inv], of "blocks_of D (ino_at D i)"]
  show "contents (truncated i D) i = []" using t(4) by (simp add: contents_def cleared_def)
  show "same_files {i} D (truncated i D)" unfolding same_files_def
  proof (intro allI impI)
    fix j n'
    assume a: "j \<notin> {i} \<and> vol D j = Some n' \<and> vn_mode n' = INODE_FILE"
    then have v: "vol (truncated i D) j = Some n'" using t(2) by (simp add: vfile_def)
    have "truncated i D b = D b" if "b \<in> busy D" for b using that dr by (auto simp: truncated_def busy_def)
    then show "vol (truncated i D) j = Some n' \<and> contents (truncated i D) j = contents D j"
      using v other_contents [OF inv _ v _ _, of 0] a blocks_okD(5) [OF vinvD(3) [OF img_invD(1) [OF inv]], of j _ 0] by blast
  qed
qed

subsection \<open>A disk with one file\<close>

text \<open>The state after \<^verbatim>\<open>fs_open("a", O_CREATE | O_WRITE)\<close> on a fresh disk, and after a second \<^verbatim>\<open>fs_open("a", O_READ)\<close>.\<close>

definition fs_a :: fs where
  "fs_a = snd (fs_open (Some [0x61]) 0x102 fs_boot)"

definition fs_aa :: fs where
  "fs_aa = snd (fs_open (Some [0x61]) 1 fs_a)"

lemma comps_a: "comps [0x61] = [[0x61]]" "cstr [0x61 :: u8] = [0x61]" "from_dir [0x61] c = c"
  by code_simp+

lemma path_a:
  "open_find D cwd [0x61] = lookup D (unat cwd) [0x61]" "parent_walk D [0x61] cwd = Some (cwd, [0x61])"
  by (auto simp: open_find_def parent_walk_def comps_a split: option.splits)

lemma boot_lookup: "lookup (img fs_boot) 0 [0x61] = None" "create_result (img fs_boot) 0 [0x61] = Inr 1"
  "free_entry (img fs_boot) 0 = Some 2" "free_scan (img fs_boot) = Some 6"
proof -
  note B = fs_boot_props and inv = fs_invD(3) [OF fs_boot_props(1)]
  let ?r = "new_node INODE_DIR 0 0 1"
  have r: "vol (img fs_boot) 0 = Some ?r" by (simp add: B(2) fresh_vol_def)
  show l: "lookup (img fs_boot) 0 [0x61] = None"
  proof (cases "lookup (img fs_boot) 0 [0x61]")
    case (Some c)
    then obtain e where "vn_ents ?r e = Some ([0x61], unat c)" using lookup_vol [OF inv r, of "[0x61]" c] by auto
    then show ?thesis by (auto simp: new_node_def split: if_splits)
  qed
  have d: "is_dir (img fs_boot) 0" "free_entry (img fs_boot) 0 = scan (\<lambda>e. vn_ents ?r e = None) 0 128"
    using free_entry_vol [OF inv r] by (simp_all add: new_node_def)
  show e: "free_entry (img fs_boot) 0 = Some 2" unfolding d(2) by (auto simp: scan_Some_iff new_node_def less_2_cases_iff)
  show f: "free_scan (img fs_boot) = Some 6" unfolding free_scan_vol B(3) by (simp add: scan_Some_iff)
  have i: "inode_scan (img fs_boot) = Some 1" unfolding inode_scan_vol B(2) by (simp add: scan_Some_iff fresh_vol_def)
  show "create_result (img fs_boot) 0 [0x61] = Inr 1" using l d(1) e f i by (simp add: create_result_def)
qed

lemma fs_a_props:
  "fs_inv fs_a" "f_fds fs_a = (replicate 16 zero_fd)[0 := \<lparr>fd_inode = 1, fd_offset = 0, fd_flags = 0x102, fd_used = True\<rparr>]"
  "f_cwd fs_a = 0" "vol (img fs_a) = vcreate 0 2 [0x61] INODE_FILE 1 6 fresh_vol" "busy (img fs_a) = {6}"
proof -
  note B = fs_boot_props
  show "fs_inv fs_a" unfolding fs_a_def by (rule fs_open_inv [OF B(1)])
  have none: "open_find (img fs_boot) (f_cwd fs_boot) [0x61] = None" using path_a boot_lookup(1) B(4) by simp
  have fl: "(0x102 :: u32) AND FS_O_CREATE \<noteq> 0" "(0x102 :: u32) AND FS_O_TRUNC = 0" "(0x102 :: u32) AND FS_O_APPEND = 0" by code_simp+
  have pw: "parent_walk (img fs_boot) [0x61] (f_cwd fs_boot) = Some (0, [0x61])" using path_a B(4) by simp
  have cr: "create_result (img fs_boot) (unat (0 :: u32)) [0x61] = Inr 1" using boot_lookup(2) by simp
  have fd: "free_fd (f_fds fs_boot) = Some 0" by (simp add: B(5) free_fd_def scan_Some_iff zero_fd_def)
  obtain s' E where s: "create_effect (img fs_boot) 0 [0x61] INODE_FILE E" "fs_upd E fs_boot s'"
    "fs_open (Some [0x61]) 0x102 fs_boot = (0, s'\<lparr>f_fds := (f_fds fs_boot)[0 := new_fd 1 0x102 E]\<rparr>)"
    using fs_open_new [OF B(1) none fl(1) pw cr] fd fl(2) by (auto simp: open_effect_def)
  have v: "vol E = vcreate 0 2 [0x61] INODE_FILE 1 6 fresh_vol" "busy E = {6}"
    using s(1) boot_lookup B(2,3) by (simp_all add: create_effect_def)
  show "f_fds fs_a = (replicate 16 zero_fd)[0 := \<lparr>fd_inode = 1, fd_offset = 0, fd_flags = 0x102, fd_used = True\<rparr>]" "f_cwd fs_a = 0"
    "vol (img fs_a) = vcreate 0 2 [0x61] INODE_FILE 1 6 fresh_vol" "busy (img fs_a) = {6}"
    using s(2,3) v B(4,5) fl(3) by (auto simp: fs_a_def new_fd_def fs_upd_def)
qed

lemma fs_a_file: "lookup (img fs_a) 0 [0x61] = Some 1" "i_mode (ino_at (img fs_a) 1) = INODE_FILE" "contents (img fs_a) 1 = []"
proof -
  note A = fs_a_props and inv = fs_invD(3) [OF fs_a_props(1)]
  let ?d = "(new_node INODE_DIR 0 0 1)\<lparr>vn_ents := (vn_ents (new_node INODE_DIR 0 0 1))(2 \<mapsto> ([0x61], 1))\<rparr>"
  have d: "vol (img fs_a) 0 = Some ?d" by (simp add: A(4) vcreate_def fresh_vol_def)
  have "vn_ents ?d 2 = Some ([0x61], unat (1 :: u32))" by simp
  then show "lookup (img fs_a) 0 [0x61] = Some 1" using lookup_vol [OF inv d, of "[0x61]" 1] by blast
  have "vol (img fs_a) 1 = Some (new_node INODE_FILE 1 0 6)" by (simp add: A(4) vcreate_def)
  then have n: "vnode_of (img fs_a) (ino_at (img fs_a) 1) = new_node INODE_FILE 1 0 6" by (simp add: vol_Some)
  show "i_mode (ino_at (img fs_a) 1) = INODE_FILE" using arg_cong [OF n, of vn_mode] by (simp add: new_node_def)
  have "i_size (ino_at (img fs_a) 1) = 0" using arg_cong [OF n, of vn_size] by (simp add: new_node_def)
  then show "contents (img fs_a) 1 = []" by (simp add: contents_def)
qed

lemma fs_aa_props:
  "fs_inv fs_aa" "f_fds fs_aa = (replicate 16 zero_fd)[0 := \<lparr>fd_inode = 1, fd_offset = 0, fd_flags = 0x102, fd_used = True\<rparr>,
     1 := \<lparr>fd_inode = 1, fd_offset = 0, fd_flags = 1, fd_used = True\<rparr>]"
  "f_cwd fs_aa = 0" "img fs_aa = img fs_a"
proof -
  note A = fs_a_props
  show "fs_inv fs_aa" unfolding fs_aa_def by (rule fs_open_inv [OF A(1)])
  have some: "open_find (img fs_a) (f_cwd fs_a) [0x61] = Some 1" using path_a fs_a_file(1) A(3) by simp
  have fl: "(1 :: u32) AND FS_O_TRUNC = 0" "(1 :: u32) AND FS_O_APPEND = 0" by code_simp+
  have fd: "free_fd (f_fds fs_a) = Some 1" by (simp add: A(2) free_fd_def scan_Some_iff zero_fd_def)
  obtain s' where s: "fs_upd (img fs_a) fs_a s'" "fs_open (Some [0x61]) 1 fs_a = (1, s'\<lparr>f_fds := (f_fds fs_a)[1 := new_fd 1 1 (img fs_a)]\<rparr>)"
    using fs_open_found [OF A(1) some, of 1] fd fl(1) fs_a_file(2) by (auto simp: open_effect_def)
  show "f_fds fs_aa = (replicate 16 zero_fd)[0 := \<lparr>fd_inode = 1, fd_offset = 0, fd_flags = 0x102, fd_used = True\<rparr>,
     1 := \<lparr>fd_inode = 1, fd_offset = 0, fd_flags = 1, fd_used = True\<rparr>]" "f_cwd fs_aa = 0" "img fs_aa = img fs_a"
    using s fl(2) A(2,3) by (auto simp: fs_aa_def new_fd_def fs_upd_def)
qed

lemma fs_aa_fds: "fd_open 0 fs_aa" "fd_open 1 fs_aa" "fd_file 0 fs_aa = 1" "fd_file 1 fs_aa = 1" "fd_pos 0 fs_aa = 0" "fd_pos 1 fs_aa = 0"
  "fd_flags (f_fds fs_aa ! nat 0) AND 3 \<noteq> 0" "contents (img fs_aa) 1 = []"
  using fs_a_file(3) by (simp_all add: fd_open_def fd_file_def fd_pos_def fs_aa_props)

lemma write_fs_aa: "\<exists>s1. fs_write 0 (Some [7, 8, 9]) 3 fs_aa = (3, s1)"
proof -
  have p: "fd_pos 0 fs_aa \<le> 1015808" using fs_aa_fds by simp
  obtain n s1 where w: "fs_write 0 (Some [7, 8, 9]) 3 fs_aa = (int n, s1)" "n \<le> 3"
    "\<forall>k. present (img fs_aa) (ino_at (img fs_aa) 1) k \<longrightarrow> present (img s1) (ino_at (img s1) 1) k"
    "n < 3 \<longrightarrow> \<not> present (img s1) (ino_at (img s1) 1) n \<or> n = 1015808"
    using fs_write_spec [OF fs_aa_props(1) fs_aa_fds(1,7) _ p, of 3 "[7, 8, 9]"] fs_aa_fds(3,5) by auto
  have "vol (img fs_a) 1 = Some (new_node INODE_FILE 1 0 6)" by (simp add: fs_a_props(4) vcreate_def)
  then have v: "vnode_of (img fs_a) (ino_at (img fs_a) 1) = new_node INODE_FILE 1 0 6" by (simp add: vol_Some)
  have "ptr (img fs_a) (ino_at (img fs_a) 1) 0 = 6" using arg_cong [OF v, of "\<lambda>x. vn_ptr x 0"] by (simp add: new_node_def)
  then have "present (img fs_aa) (ino_at (img fs_aa) 1) n" if "n < 3" using that by (simp add: present_def fslot_def fs_aa_props(4))
  then have "n = 3" using w(2-4) by (cases "n < 3") auto
  then show ?thesis using w(1) by simp
qed

subsection \<open>Reading and writing\<close>

text \<open>
  C8: Writing \<open>count\<close> bytes at the position of an open descriptor, which lies in the file: the bytes replace those at
  the position, in order, and extend the file; the position moves past them; every other file and its node stay as
  they are, and the invariant holds. Fewer bytes are written only when the next one needs a block and none is free, or the file has the
  largest size there is.\<close>

theorem fs_write_correct:
  assumes "fs_inv s" "fd_open fd s" "fd_flags (f_fds s ! nat fd) AND 3 \<noteq> 0" "unat count \<le> length bs"
    and "fd_pos fd s \<le> length (contents (img s) (fd_file fd s))"
  shows "\<exists>n s'. fs_write fd (Some bs) count s = (int n, s') \<and> n \<le> unat count \<and> fs_inv s'
    \<and> f_fds s' = f_fds (set_off (nat fd) (of_nat (fd_pos fd s + n)) s)
    \<and> contents (img s') (fd_file fd s) = take (fd_pos fd s) (contents (img s) (fd_file fd s)) @ take n bs
        @ drop (fd_pos fd s + n) (contents (img s) (fd_file fd s))
    \<and> (\<forall>j. j \<noteq> fd_file fd s \<longrightarrow> vol (img s') j = vol (img s) j) \<and> same_files {fd_file fd s} (img s) (img s')
    \<and> (n < unat count \<longrightarrow> free_scan (img s') = None \<and> \<not> present (img s') (ino_at (img s') (fd_file fd s)) (fd_pos fd s + n) \<or> fd_pos fd s + n = 1015808)"
proof -
  have "unat (i_size (ino_at (img s) (fd_file fd s))) \<le> 1015808"
    using fd_openD(5) [OF assms(1,2)] by (simp add: word_le_nat_alt)
  then have pos: "fd_pos fd s \<le> 1015808" using assms(5) by simp
  have x: "fd_offset (f_fds s ! nat fd) + of_nat n = of_nat (fd_pos fd s + n)" for n by (simp add: fd_pos_def)
  obtain n s' where w: "fs_write fd (Some bs) count s = (int n, s')" "n \<le> unat count" "fs_inv s'"
    "f_fds s' = f_fds (set_off (nat fd) (of_nat (fd_pos fd s + n)) s)"
    "contents (img s') (fd_file fd s) = take (fd_pos fd s) (contents (img s) (fd_file fd s)) @ take n bs
        @ drop (fd_pos fd s + n) (contents (img s) (fd_file fd s))"
    "\<forall>j. j \<noteq> fd_file fd s \<longrightarrow> vol (img s') j = vol (img s) j \<and> (j \<in> dom (vol (img s)) \<longrightarrow> contents (img s') j = contents (img s) j)"
    "n < unat count \<longrightarrow> free_scan (img s') = None \<and> \<not> present (img s') (ino_at (img s') (fd_file fd s)) (fd_pos fd s + n) \<or> fd_pos fd s + n = 1015808"
    using fs_write_spec [OF assms(1-4) pos] assms(5) unfolding x by blast
  moreover have "same_files {fd_file fd s} (img s) (img s')" using w(6) by (auto simp: same_files_def)
  ultimately show ?thesis by blast
qed

theorem fs_write_correct_witness:
  "\<exists>n s'. fs_write 0 (Some [7, 8, 9]) 3 fs_aa = (int n, s') \<and> contents (img s') 1 = take n [7, 8, 9] \<and> fs_inv s'"
proof -
  have "fd_pos 0 fs_aa \<le> length (contents (img fs_aa) (fd_file 0 fs_aa))" using fs_aa_fds by simp
  then show ?thesis using fs_write_correct [OF fs_aa_props(1) fs_aa_fds(1,7), of 3 "[7, 8, 9]"] fs_aa_fds by auto
qed

text \<open>
  C18: What a write puts into a file, a read of another descriptor of the file at the same place gets back.\<close>

theorem fs_write_read:
  assumes "fs_inv s" "fd_open fd s" "fd_flags (f_fds s ! nat fd) AND 3 \<noteq> 0" "unat count \<le> length bs"
    and "fd_pos fd s \<le> length (contents (img s) (fd_file fd s))"
    and "fd_open fd' s" "fd' \<noteq> fd" "fd_file fd' s = fd_file fd s" "fd_pos fd' s = fd_pos fd s"
    and "fs_write fd (Some bs) count s = (int n, s1)" "unat m \<le> n" "unat m \<le> length bs'"
  shows "\<exists>s2. fs_read fd' (Some bs') m s1 = (int (unat m), Some (take (unat m) bs @ drop (unat m) bs'), s2)
    \<and> img s2 = img s1 \<and> fs_inv s2 \<and> fd_pos fd' s2 = fd_pos fd s + unat m"
proof -
  let ?i = "fd_file fd s" and ?o = "fd_pos fd s"
  have "unat (i_size (ino_at (img s) ?i)) \<le> 1015808" using fd_openD(5) [OF assms(1,2)] by (simp add: word_le_nat_alt)
  then have pos: "?o \<le> 1015808" using assms(5) by simp
  have w: "n \<le> unat count" "fs_inv s1" "f_fds s1 = f_fds (set_off (nat fd) (fd_offset (f_fds s ! nat fd) + of_nat n) s)"
    "contents (img s1) ?i = take ?o (contents (img s) ?i) @ take n bs @ drop (?o + n) (contents (img s) ?i)"
    "\<And>k. ?o \<le> k \<Longrightarrow> k < ?o + n \<Longrightarrow> present (img s1) (ino_at (img s1) ?i) k"
    using fs_write_spec [OF assms(1-4) pos] assms(5,10) by auto
  have ne: "nat fd' \<noteq> nat fd" using assms(2,6,7) by (auto simp: fd_open_def)
  then have f: "f_fds s1 ! nat fd' = f_fds s ! nat fd'" using w(3) by (simp add: set_off_def)
  then have f': "fd_open fd' s1" "fd_file fd' s1 = ?i" "fd_pos fd' s1 = ?o" using assms(6,8,9) by (simp_all add: fd_open_def fd_file_def fd_pos_def)
  have len: "length (contents (img s1) ?i) = max (length (contents (img s) ?i)) (?o + n)"
    using w(1,4) assms(4,5) by simp
  have mn: "min (unat m) (length (contents (img s1) ?i) - ?o) = unat m" using len assms(11) by simp
  have sp: "span (img s1) (ino_at (img s1) ?i) ?o (unat m) = unat m" using w(5) assms(11) by (intro span_all) simp
  have d: "take (unat m) (drop ?o (contents (img s1) ?i)) = take (unat m) bs" using w(1,4) assms(4,5,11) by (simp add: min_def)
  obtain k s2 where k: "k = unat m" "fs_read fd' (Some bs') m s1 = (int k, Some (take k (drop ?o (contents (img s1) ?i)) @ drop k bs'), s2)"
    "fs_upd (img s1) (set_off (nat fd') (fd_offset (f_fds s1 ! nat fd') + of_nat k) s1) s2" and i2: "fs_inv s2"
    using fs_read_spec [OF w(2) f'(1) assms(12)] unfolding f'(2,3) mn sp by blast
  note r = k(2,3) [unfolded k(1) d]
  have "fd_pos fd' s2 = ?o + unat m"
  proof -
    have "fd_offset (f_fds s2 ! nat fd') = fd_offset (f_fds s1 ! nat fd') + of_nat (unat m)"
      using fs_updD(3) [OF r(2)] fd_openD(1) [OF w(2) f'(1)] by simp
    also have "\<dots> = of_nat (?o + unat m)" by (simp add: f'(3) [symmetric]) (simp add: fd_pos_def)
    finally have "fd_pos fd' s2 = unat (of_nat (?o + unat m) :: u32)" by (simp add: fd_pos_def)
    moreover have "?o + unat m \<le> 1015808"
      using len assms(11) fd_openD(5) [OF w(2) f'(1)] unfolding f'(2) by (simp add: word_le_nat_alt)
    ultimately show ?thesis by (simp add: unat_of_nat del: of_nat_add)
  qed
  then show ?thesis using r(1) i2 fs_updD(2) [OF r(2)] by blast
qed

theorem fs_write_read_witness:
  "\<exists>s1 s2. fs_write 0 (Some [7, 8, 9]) 3 fs_aa = (3, s1) \<and> fs_read 1 (Some [0, 0, 0]) 3 s1 = (3, Some [7, 8, 9], s2)"
proof -
  have p: "fd_pos 0 fs_aa \<le> length (contents (img fs_aa) (fd_file 0 fs_aa))" using fs_aa_fds by simp
  obtain s1 where s1: "fs_write 0 (Some [7, 8, 9]) 3 fs_aa = (int 3, s1)" using write_fs_aa by auto
  have "fd_file 1 fs_aa = fd_file 0 fs_aa" "fd_pos 1 fs_aa = fd_pos 0 fs_aa" "(1 :: int) \<noteq> 0" using fs_aa_fds by simp_all
  then show ?thesis
    using fs_write_read [OF fs_aa_props(1) fs_aa_fds(1,7) _ p fs_aa_fds(2) _ _ _ s1, where m = 3 and bs' = "[0, 0, 0]"] s1 by auto
qed

subsection \<open>Paths\<close>

text \<open>
  C19: Resolving a path is walking its components from the root or from the starting directory: the empty ones are
  skipped, a dot stays, every other one is looked up in the directory reached; nothing on the disk changes. There is
  no other condition on the path: a component longer than a name is in no directory.\<close>

theorem resolve_path_refines:
  assumes "fs_inv s" "good (img s) start"
  shows "\<exists>s'. resolve_path (Some p) start s = (if cstr p = [] then None else walk (img s) (comps p) (if char_at p 0 = 0x2F then 0 else start), s')
    \<and> fs_upd (img s) s s'"
  using resolve_path_walk [OF fs_invD(1,4) [OF assms(1)] assms(2), of p] unfolding from_dir_def .

theorem resolve_path_refines_witness:
  "\<exists>s'. resolve_path (Some [0x2F, 0x2F, 0x61, 0x2F]) 0 fs_a = (Some 1, s')"
proof -
  have g: "good (img fs_a) 0" using fs_invD(5) [OF fs_a_props(1)] fs_a_props(3) by simp
  have c: "comps [0x2F, 0x2F, 0x61, 0x2F] = [[0x61]]" "cstr [0x2F, 0x2F, 0x61, 0x2F :: u8] \<noteq> []" by code_simp+
  show ?thesis using resolve_path_refines [OF fs_a_props(1) g, of "[0x2F, 0x2F, 0x61, 0x2F]"] c fs_a_file(1) by auto
qed

text \<open>When the component after it is longer than a name, \<^verbatim>\<open>split_parent\<close> takes a component for the last one of
  the path: removing \<^verbatim>\<open>a/l\<close> with such an \<^verbatim>\<open>l\<close> removes \<^verbatim>\<open>a\<close>, though no such file exists.\<close>

theorem fs_unlink_long_component:
  assumes "fs_inv s" "comps p = nm # l # ls" "length nm \<le> 27" "27 < length l" "length (cstr p) \<le> 255" "char_at p 0 \<noteq> 0x2F"
    and "nm \<noteq> dot" "nm \<noteq> dotdot" "lookup (img s) (unat (f_cwd s)) nm = Some c" "i_mode (ino_at (img s) (unat c)) = INODE_FILE"
  shows "open_find (img s) (f_cwd s) p = None \<and> (\<exists>s'. fs_unlink (Some p) s = (0, s') \<and> vol (img s') (unat c) = None)"
proof -
  let ?D = "img s"
  note I = fs_invD [OF assms(1)]
  have "nm \<noteq> []" using comps_nonempty [of nm p] assms(2) by simp
  moreover have "cstr p \<noteq> []" using assms(2) by (auto simp: comps_def)
  ultimately have w: "parent_walk ?D p (f_cwd s) = Some (f_cwd s, nm)"
    using split_walk_long [of "[]" nm l ?D ls "f_cwd s"] assms(2-8) by (simp add: parent_walk_def from_dir_def)
  have "unlink_result ?D (f_cwd s) p = 0" using w assms(9,10) by (simp add: unlink_result_def nonempty_dir_def is_dir_def)
  then obtain s' e c' s1 where u: "fs_unlink (Some p) s = (0, s')" "dir_entry ?D (unat (f_cwd s)) nm = Some (e, c')" "\<not> nonempty_dir ?D (unat c')"
    "fs_upd (unlinked (unat (f_cwd s)) e (unat c') ?D) s s1" "s' = (if f_cwd s = c' then s1\<lparr>f_cwd := 0\<rparr> else s1)"
    using fs_unlink_spec [OF assms(1), of p] w by auto
  have c: "c' = c" using u(2) assms(9) by (simp add: lookup_def)
  have "vol (unlinked (unat (f_cwd s)) e (unat c) ?D) = vremove (unat (f_cwd s)) e (unat c) (vol ?D)"
    using unlinked_inv(2) [OF I(3,5) u(2) assms(7,8) u(3) fs_upd_wf [OF u(4)]] c by simp
  then have "vol (img s') (unat c) = None" using u(4,5) c by (auto simp: vremove_def fs_upd_def)
  moreover have "lookup ?D (unat c) l = None" using assms(10) by (simp add: lookup_map is_dir_def)
  moreover have "l \<noteq> dot" using assms(4) by auto
  ultimately show ?thesis using u(1) assms(2,6-9) by (auto simp: open_find_def from_dir_def)
qed

lemma split_slash_none: "0x2F \<notin> set xs \<Longrightarrow> split_slash xs = [xs]"
  by (induction xs) auto

theorem fs_unlink_long_component_witness:
  "\<exists>s'. fs_unlink (Some (0x61 # 0x2F # replicate 28 0x78)) fs_a = (0, s') \<and> vol (img s') 1 = None"
proof -
  let ?p = "0x61 # 0x2F # replicate 28 (0x78 :: u8)"
  have z: "cstr (replicate 28 (0x78 :: u8)) = replicate 28 0x78" by (simp add: cstr_def)
  then have c: "comps ?p = [[0x61], replicate 28 0x78]" "length (cstr ?p) \<le> 255" "char_at ?p 0 \<noteq> 0x2F"
    by (simp_all add: comps_def split_slash_none char_at_def)
  have l: "lookup (img fs_a) (unat (f_cwd fs_a)) [0x61] = Some 1" "i_mode (ino_at (img fs_a) (unat (1 :: u32))) = INODE_FILE"
    using fs_a_file fs_a_props(3) by simp_all
  have n: "length [0x61 :: u8] \<le> 27" "27 < length (replicate 28 (0x78 :: u8))" "[0x61 :: u8] \<noteq> dot" "[0x61 :: u8] \<noteq> dotdot" by simp_all
  show ?thesis using conjunct2 [OF fs_unlink_long_component [OF fs_a_props(1) c(1) n(1,2) c(2,3) n(3,4) l]] unfolding unat_1 .
qed

subsection \<open>Directories\<close>

text \<open>
  C34: \<^verbatim>\<open>fs_mkdir\<close> adds one directory, with its two entries, under the directory its path leads to, in an unused inode,
  block and entry, and nothing else; when it returns an error the volume and every file are as before. The
  descriptors and the current directory do not change.\<close>

theorem fs_mkdir_correct:
  assumes "fs_inv s"
  shows "\<exists>s'. fs_mkdir (Some p) s = (mkdir_result (img s) (f_cwd s) p, s') \<and> fs_inv s' \<and> f_fds s' = f_fds s \<and> f_cwd s' = f_cwd s
    \<and> (case parent_walk (img s) p (f_cwd s) of
        None \<Rightarrow> img s' = img s
      | Some (d, nm) \<Rightarrow> same_files {unat d} (img s) (img s')
          \<and> (if mkdir_result (img s) (f_cwd s) p = 0
             then \<exists>e i b. vol (img s) i = None \<and> b \<notin> busy (img s) \<and> free_entry (img s) (unat d) = Some e \<and> lookup (img s) (unat d) nm = None
               \<and> vol (img s') = vcreate (unat d) e nm INODE_DIR i b (vol (img s)) \<and> busy (img s') = insert b (busy (img s))
             else vol (img s') = vol (img s) \<and> busy (img s') = busy (img s)))"
proof -
  let ?D = "img s"
  note I = fs_invD [OF assms]
  obtain s' E where m: "fs_mkdir (Some p) s = (mkdir_result ?D (f_cwd s) p, s')" "fs_upd E s s'" "fs_inv s'"
    "case parent_walk ?D p (f_cwd s) of None \<Rightarrow> E = ?D | Some (d, nm) \<Rightarrow> create_effect ?D (unat d) nm INODE_DIR E"
    using fs_mkdir_spec [OF assms, of p] by blast
  note u = fs_updD [OF m(2)]
  show ?thesis
  proof (cases "parent_walk ?D p (f_cwd s)")
    case None
    then show ?thesis using m u by auto
  next
    case (Some x)
    obtain d nm where x: "x = (d, nm)" by (cases x)
    note w = Some [unfolded x]
    have eff: "create_effect ?D (unat d) nm INODE_DIR E" using m(4) w by simp
    obtain n where n: "vol ?D (unat d) = Some n" using parent_walk_good [OF I(4,5) w] by (auto simp: good_dom)
    note sf = create_same_files [OF I(3) n eff]
    show ?thesis
    proof (cases "create_result ?D (unat d) nm")
      case (Inl rc)
      then have "mkdir_result ?D (f_cwd s) p \<noteq> 0" using w by (auto simp: mkdir_result_def create_result_def split: if_splits option.splits)
      then show ?thesis using m(1,3) u w sf eff Inl by (auto simp: create_effect_def)
    next
      case (Inr c)
      then obtain e b where e: "free_entry ?D (unat d) = Some e" "free_scan ?D = Some b"
        "vol E = vcreate (unat d) e nm INODE_DIR (unat c) b (vol ?D)" "busy E = insert b (busy ?D)" using eff by (auto simp: create_effect_def)
      have "vol ?D (unat c) = None" using create_result_Inr(3) [OF Inr] by (auto simp: scan_Some_iff vol_def)
      moreover have "b \<notin> busy ?D" using free_scan_Some [OF e(2)] by simp
      moreover have "mkdir_result ?D (f_cwd s) p = 0" using w Inr by (simp add: mkdir_result_def)
      ultimately show ?thesis using m(1,3) u w sf e(1,3,4) create_result_Inr(1) [OF Inr] by auto
    qed
  qed
qed

theorem fs_mkdir_correct_witness:
  "\<exists>s'. fs_mkdir (Some [0x61]) fs_boot = (0, s') \<and> (\<exists>e i b. vol (img s') = vcreate 0 e [0x61] INODE_DIR i b fresh_vol)"
proof -
  have "mkdir_result (img fs_boot) (f_cwd fs_boot) [0x61] = 0"
    using boot_lookup(2) by (simp add: mkdir_result_def path_a fs_boot_props(4))
  then show ?thesis using fs_mkdir_correct [OF fs_boot_props(1), of "[0x61]"] by (auto simp: path_a fs_boot_props(2,4))
qed

lemma fs_unlink_effect:
  assumes "fs_inv s"
  shows "\<exists>s'. fs_unlink (Some p) s = (unlink_result (img s) (f_cwd s) p, s') \<and> f_fds s' = f_fds s
    \<and> (if unlink_result (img s) (f_cwd s) p = 0
       then \<exists>d nm e c. parent_walk (img s) p (f_cwd s) = Some (d, nm) \<and> lookup (img s) (unat d) nm = Some c \<and> kid (vol (img s)) (unat d) e (unat c)
         \<and> vol (img s') = vremove (unat d) e (unat c) (vol (img s)) \<and> busy (img s') = busy (img s) - owned_set (vol (img s)) (unat c)
         \<and> same_files {unat c} (img s) (img s') \<and> img_inv (img s') \<and> f_cwd s' = (if f_cwd s = c then 0 else f_cwd s)
       else img s' = img s \<and> f_cwd s' = f_cwd s \<and> fs_inv s')"
proof -
  let ?D = "img s"
  note I = fs_invD [OF assms]
  obtain s' where s': "fs_unlink (Some p) s = (unlink_result ?D (f_cwd s) p, s')"
    and eff: "if unlink_result ?D (f_cwd s) p = 0
     then \<exists>d nm e c s1. parent_walk ?D p (f_cwd s) = Some (d, nm) \<and> dir_entry ?D (unat d) nm = Some (e, c)
       \<and> \<not> nonempty_dir ?D (unat c) \<and> fs_upd (unlinked (unat d) e (unat c) ?D) s s1 \<and> s' = (if f_cwd s = c then s1\<lparr>f_cwd := 0\<rparr> else s1)
     else fs_upd ?D s s'"
    using fs_unlink_spec [OF assms, of p] by blast
  show ?thesis
  proof (cases "unlink_result ?D (f_cwd s) p = 0")
    case True
    then obtain d nm e c s1 where r: "parent_walk ?D p (f_cwd s) = Some (d, nm)" "dir_entry ?D (unat d) nm = Some (e, c)"
      "\<not> nonempty_dir ?D (unat c)" "fs_upd (unlinked (unat d) e (unat c) ?D) s s1" "s' = (if f_cwd s = c then s1\<lparr>f_cwd := 0\<rparr> else s1)"
      using eff by auto
    note g = parent_walk_good [OF I(4,5) r(1)] and nm = parent_walk_name [OF r(1)]
    have d: "unat d < 64" "used_ino ?D (unat d)" using g by (auto simp: good_def word_less_nat_alt)
    note k = entry_kid [OF I(3) g r(2) nm(3,4)]
    obtain n where n: "vol ?D (unat c) = Some n" using k(7) by (auto simp: good_dom)
    have ne: "unat c \<noteq> unat d" using kid_not_self [OF img_invD(1) [OF I(3)] k(6)] by simp
    have ec: "unat (ent_inode (?D (dirn ?D (unat d))) e) = unat c" using k(3) by simp
    note ui = unlinked_inv [OF I(3) g r(2) nm(3,4) r(3) fs_upd_wf [OF r(4)]] and sf = unlink_same_files [OF I(3) d k(5,1,2) ec ne n]
    have im: "img s' = unlinked (unat d) e (unat c) ?D" "f_fds s' = f_fds s" "f_cwd s' = (if f_cwd s = c then 0 else f_cwd s)"
      using r(4,5) by (auto simp: fs_upd_def)
    have "lookup ?D (unat d) nm = Some c" using r(2) by (simp add: lookup_def)
    then show ?thesis using True s' r(1) k(6) ui sf im by auto
  next
    case False
    then show ?thesis using s' eff fs_inv_same [OF assms] by (auto simp: fs_upd_def)
  qed
qed

text \<open>
  C20: \<^verbatim>\<open>fs_unlink\<close> takes away one node, a file or an empty directory, with its entry, and frees the blocks it owned and
  no other; every other file keeps its contents. On an error nothing on the disk changes. The current directory is
  the root when the node was it.\<close>

theorem fs_unlink_correct:
  assumes "fs_inv s"
  shows "\<exists>s'. fs_unlink (Some p) s = (unlink_result (img s) (f_cwd s) p, s') \<and> f_fds s' = f_fds s
    \<and> (if unlink_result (img s) (f_cwd s) p = 0
       then \<exists>d nm e c. parent_walk (img s) p (f_cwd s) = Some (d, nm) \<and> lookup (img s) (unat d) nm = Some c \<and> kid (vol (img s)) (unat d) e (unat c)
         \<and> vol (img s') = vremove (unat d) e (unat c) (vol (img s)) \<and> busy (img s') = busy (img s) - owned_set (vol (img s)) (unat c)
         \<and> same_files {unat c} (img s) (img s') \<and> img_inv (img s') \<and> f_cwd s' = (if f_cwd s = c then 0 else f_cwd s)
       else img s' = img s \<and> f_cwd s' = f_cwd s \<and> fs_inv s')"
  by (rule fs_unlink_effect [OF assms])

theorem fs_unlink_correct_witness:
  "\<exists>s'. fs_unlink (Some [0x61]) fs_a = (0, s') \<and> (\<exists>e. vol (img s') = vremove 0 e 1 (vol (img fs_a)))"
proof -
  have l: "lookup (img fs_a) (unat (0 :: u32)) [0x61] = Some 1" using fs_a_file(1) by simp
  have "unlink_result (img fs_a) (f_cwd fs_a) [0x61] = 0"
    using l fs_a_file(2) by (simp add: unlink_result_def path_a fs_a_props(3) nonempty_dir_def is_dir_def)
  then show ?thesis using fs_unlink_correct [OF fs_a_props(1), of "[0x61]"] l by (auto simp: path_a fs_a_props(3))
qed

subsection \<open>Opening\<close>

lemma fs_open_effect:
  assumes "fs_inv s" "open_find (img s) (f_cwd s) p = Some c" "i_mode (ino_at (img s) (unat c)) = INODE_FILE"
  shows "\<exists>rc s'. fs_open (Some p) flags s = (rc, s') \<and> fs_inv s' \<and> f_cwd s' = f_cwd s \<and> f_con s' = f_con s \<and> same_files {unat c} (img s) (img s')
    \<and> (if flags AND FS_O_TRUNC = 0 then img s' = img s
       else contents (img s') (unat c) = [] \<and> busy (img s') = busy (img s) - owned_set (vol (img s)) (unat c))
    \<and> (case free_fd (f_fds s) of
         None \<Rightarrow> rc = -6 \<and> f_fds s' = f_fds s
       | Some k \<Rightarrow> rc = int k \<and> f_fds s' = (f_fds s)[k := \<lparr>fd_inode = c,
           fd_offset = (if flags AND FS_O_APPEND \<noteq> 0 then of_nat (length (contents (img s') (unat c))) else 0),
           fd_flags = flags, fd_used = True\<rparr>])"
proof -
  let ?D = "img s" and ?E = "open_effect c flags (img s)"
  note I = fs_invD [OF assms(1)]
  obtain s' where s': "fs_upd ?E s s'" "fs_open (Some p) flags s =
      (case free_fd (f_fds s) of None \<Rightarrow> (-6, s') | Some k \<Rightarrow> (int k, s'\<lparr>f_fds := (f_fds s)[k := new_fd c flags ?D]\<rparr>))"
    using fs_open_found [OF assms(1,2), of flags] assms(3) by auto
  note g = open_find_good [OF I(4,5) assms(2)]
  note inv = open_done_inv [OF I(3) g assms(3) s'(1) I(2,6,7)]
  obtain n where n: "vol ?D (unat c) = Some n" "vn_mode n = INODE_FILE" using g assms(3) by (auto simp: good_dom vol_Some)
  have sf: "same_files {unat c} ?D ?E" using truncate_same_files(1) [OF I(3) n] by (simp add: open_effect_def)
  have tr: "if flags AND FS_O_TRUNC = 0 then ?E = ?D else contents ?E (unat c) = [] \<and> busy ?E = busy ?D - owned_set (vol ?D) (unat c)"
    using truncate_same_files(2) [OF I(3) n] truncated_inv(3) [OF I(3) n] by (simp add: open_effect_def)
  have off: "new_fd c flags ?D = \<lparr>fd_inode = c,
           fd_offset = (if flags AND FS_O_APPEND \<noteq> 0 then of_nat (length (contents ?E (unat c))) else 0),
           fd_flags = flags, fd_used = True\<rparr>" by (simp add: new_fd_def)
  note u = fs_updD [OF s'(1)]
  show ?thesis
  proof (cases "free_fd (f_fds s)")
    case None
    then show ?thesis using s'(2) inv(1) sf tr u by auto
  next
    case (Some k)
    then show ?thesis using s'(2) inv(2) [of k] sf tr u off by auto
  qed
qed

text \<open>
  C35: Opening an existing file gives the lowest unused descriptor, at the start of the file, or at its end for appending;
  \<^verbatim>\<open>FS_O_TRUNC\<close> empties the file and frees its blocks, even when there is no descriptor left and the call fails,
  and touches no other file.\<close>

theorem fs_open_correct:
  assumes "fs_inv s" "open_find (img s) (f_cwd s) p = Some c" "i_mode (ino_at (img s) (unat c)) = INODE_FILE"
  shows "\<exists>rc s'. fs_open (Some p) flags s = (rc, s') \<and> fs_inv s' \<and> f_cwd s' = f_cwd s \<and> f_con s' = f_con s \<and> same_files {unat c} (img s) (img s')
    \<and> (if flags AND FS_O_TRUNC = 0 then img s' = img s
       else contents (img s') (unat c) = [] \<and> busy (img s') = busy (img s) - owned_set (vol (img s)) (unat c))
    \<and> (case free_fd (f_fds s) of
         None \<Rightarrow> rc = -6 \<and> f_fds s' = f_fds s
       | Some k \<Rightarrow> rc = int k \<and> f_fds s' = (f_fds s)[k := \<lparr>fd_inode = c,
           fd_offset = (if flags AND FS_O_APPEND \<noteq> 0 then of_nat (length (contents (img s') (unat c))) else 0),
           fd_flags = flags, fd_used = True\<rparr>])"
  by (rule fs_open_effect [OF assms])

theorem fs_open_correct_witness:
  "\<exists>s'. fs_open (Some [0x61]) (FS_O_TRUNC OR 1) fs_a = (1, s') \<and> contents (img s') 1 = []"
proof -
  have o: "open_find (img fs_a) (f_cwd fs_a) [0x61] = Some 1" using path_a fs_a_file(1) fs_a_props(3) by simp
  have m: "i_mode (ino_at (img fs_a) (unat (1 :: u32))) = INODE_FILE" using fs_a_file(2) by simp
  have fd: "free_fd (f_fds fs_a) = Some 1" by (simp add: fs_a_props(2) free_fd_def scan_Some_iff zero_fd_def)
  have fl: "(FS_O_TRUNC OR 1) AND FS_O_TRUNC \<noteq> (0 :: u32)" by code_simp
  show ?thesis using fs_open_correct [OF fs_a_props(1) o m, of "FS_O_TRUNC OR 1"] fd fl by auto
qed

text \<open>Initialising the file system on a blank disk makes a volume with an empty root directory, no block taken, the root
  as the current directory and every descriptor closed.\<close>

theorem fs_init_correct:
  assumes "f_disk s = blank_disk" "length (f_buf s) = 4096" "length (f_buf2 s) = 4096" "length (f_junk s) = 4096"
  shows "fs_inv (fs_init s) \<and> vol (img (fs_init s)) = [0 \<mapsto> new_node INODE_DIR 0 0 1] \<and> free_scan (img (fs_init s)) = Some 6
    \<and> f_cwd (fs_init s) = 0 \<and> (\<forall>fd. \<not> fd_open fd (fs_init s))"
proof -
  have l: "lengths_ok s" using assms by (simp add: lengths_ok_def blank_disk_def)
  note b = fs_init_blank [OF l assms(1)]
  have "free_scan (img (fs_init s)) = Some 6" unfolding free_scan_vol b(3) by (simp add: scan_Some_iff)
  then show ?thesis using b by (auto simp: fresh_vol_def fd_open_def zero_fd_def)
qed

theorem fs_init_correct_witness: "fs_inv (fs_init fs_start) \<and> f_cwd (fs_init fs_start) = 0"
  using fs_init_correct [of fs_start] by (simp add: fs_start_def zeros_def)

subsection \<open>Descriptors of removed files\<close>

text \<open>\<^verbatim>\<open>fs_unlink\<close> does not look at the descriptors: one that is open on the file stays open on an inode that is free, and
  that the next file to be created may get.\<close>

theorem fs_unlink_stale_descriptor:
  assumes "fs_inv s" "fd_open fd s" "unlink_target (img s) (f_cwd s) p = Some (fd_inode (f_fds s ! nat fd))"
  shows "\<exists>s'. fs_unlink (Some p) s = (0, s') \<and> fd_open fd s' \<and> vol (img s') (fd_file fd s') = None \<and> \<not> fs_inv s'"
proof -
  let ?c = "fd_inode (f_fds s ! nat fd)"
  note F = fd_openD [OF assms(1,2)]
  obtain d nm where w: "parent_walk (img s) p (f_cwd s) = Some (d, nm)" "lookup (img s) (unat d) nm = Some ?c"
    using assms(3) by (auto simp: unlink_target_def split: option.splits)
  have "unlink_result (img s) (f_cwd s) p = 0" using w F(3) by (simp add: unlink_result_def nonempty_dir_def is_dir_def fd_file_def)
  then obtain s' e where s': "fs_unlink (Some p) s = (0, s')" "f_fds s' = f_fds s" "vol (img s') = vremove (unat d) e (unat ?c) (vol (img s))"
    using fs_unlink_effect [OF assms(1), of p] w by auto
  then have "fd_open fd s'" "vol (img s') (fd_file fd s') = None" using assms(2) by (simp_all add: fd_open_def fd_file_def vremove_def)
  moreover from this have "\<not> fs_inv s'" using fd_openD(2) [of s' fd] by (auto simp: good_dom fd_file_def)
  ultimately show ?thesis using s'(1) by blast
qed

theorem fs_unlink_stale_descriptor_witness:
  "\<exists>s'. fs_unlink (Some [0x61]) fs_aa = (0, s') \<and> fd_open 0 s' \<and> vol (img s') (fd_file 0 s') = None"
proof -
  have "unlink_target (img fs_aa) (f_cwd fs_aa) [0x61] = Some (fd_inode (f_fds fs_aa ! nat 0))"
    using fs_a_file(1) by (simp add: unlink_target_def path_a fs_aa_props)
  then show ?thesis using fs_unlink_stale_descriptor [OF fs_aa_props(1) fs_aa_fds(1)] by blast
qed

subsection \<open>Sequences of calls\<close>

text \<open>The states a sequence of calls reaches from a fresh disk. A buffer holds as many bytes as the call is told, and
  no file that is removed is open: the two things the code leaves to its callers. What \<^verbatim>\<open>fs_unlink\<close> does to a file that is
  open is \<open>fs_unlink_stale_descriptor\<close>.\<close>

inductive fs_run :: "fs \<Rightarrow> bool" where
  init: "f_disk s = blank_disk \<Longrightarrow> lengths_ok s \<Longrightarrow> fs_run (fs_init s)"
| mkdir: "fs_run s \<Longrightarrow> fs_run (snd (fs_mkdir (Some p) s))"
| unlink: "fs_run s \<Longrightarrow> (\<And>c. unlink_target (img s) (f_cwd s) p = Some c \<Longrightarrow> not_open c (f_fds s)) \<Longrightarrow> fs_run (snd (fs_unlink (Some p) s))"
| chdir: "fs_run s \<Longrightarrow> fs_run (snd (fs_chdir (Some p) s))"
| opened: "fs_run s \<Longrightarrow> fs_run (snd (fs_open (Some p) flags s))"
| closes: "fs_run s \<Longrightarrow> fs_run (snd (fs_close fd s))"
| writes: "fs_run s \<Longrightarrow> unat count \<le> length bs \<Longrightarrow> fs_run (snd (fs_write fd (Some bs) count s))"
| reads: "fs_run s \<Longrightarrow> unat count \<le> length bs \<Longrightarrow> fs_run (snd (snd (fs_read fd (Some bs) count s)))"

text \<open>The positions of the descriptors stay within the largest file.\<close>

definition offs_ok :: "file_desc list \<Rightarrow> bool" where
  "offs_ok fds \<longleftrightarrow> (\<forall>f \<in> set fds. fd_used f \<longrightarrow> unat (fd_offset f) \<le> 1015808)"

lemma offs_ok_update: "offs_ok fds \<Longrightarrow> (fd_used f \<Longrightarrow> unat (fd_offset f) \<le> 1015808) \<Longrightarrow> offs_ok (fds[k := f])"
  using set_update_subset_insert [of fds k f] unfolding offs_ok_def by blast

lemma offs_okD: "offs_ok (f_fds s) \<Longrightarrow> fs_inv s \<Longrightarrow> fd_open fd s \<Longrightarrow> fd_pos fd s \<le> 1015808"
  using fd_openD(1) [of s fd] nth_mem [of "nat fd" "f_fds s"] by (auto simp: offs_ok_def fd_open_def fd_pos_def)

lemma open_fds:
  assumes inv: "fs_inv s"
  shows "fst (fs_open (Some p) flags s) < 0 \<and> f_fds (snd (fs_open (Some p) flags s)) = f_fds s
    \<or> (\<exists>k c. k < 16 \<and> fst (fs_open (Some p) flags s) = int k \<and> f_fds (snd (fs_open (Some p) flags s)) = (f_fds s)[k := \<lparr>fd_inode = c,
    fd_offset = (if flags AND FS_O_APPEND \<noteq> 0 then i_size (ino_at (img (snd (fs_open (Some p) flags s))) (unat c)) else 0), fd_flags = flags, fd_used = True\<rparr>])"
proof -
  let ?t = "snd (fs_open (Some p) flags s)"
  have fd: "k < 16" if "free_fd (f_fds s) = Some k" for k using that by (auto simp: free_fd_def scan_Some_iff)
  have fin: ?thesis if "fs_upd (open_effect c flags E) s s'" "fs_open (Some p) flags s = (case free_fd (f_fds s) of None \<Rightarrow> (-6, s')
       | Some k \<Rightarrow> (int k, s'\<lparr>f_fds := (f_fds s)[k := new_fd c flags E]\<rparr>))" for c E s'
  proof (cases "free_fd (f_fds s)")
    case None
    then show ?thesis using that by (simp add: fs_upd_def)
  next
    case (Some k)
    then show ?thesis using that fd [OF Some] by (intro disjI2 exI [of _ k] exI [of _ c]) (auto simp: fs_upd_def new_fd_def)
  qed
  show ?thesis
  proof (cases "open_find (img s) (f_cwd s) p")
    case (Some c)
    note o = fs_open_found [OF inv Some, of flags]
    show ?thesis
    proof (cases "i_mode (ino_at (img s) (unat c)) = INODE_FILE")
      case True
      then obtain s' where "fs_upd (open_effect c flags (img s)) s s'" "fs_open (Some p) flags s =
        (case free_fd (f_fds s) of None \<Rightarrow> (-6, s') | Some k \<Rightarrow> (int k, s'\<lparr>f_fds := (f_fds s)[k := new_fd c flags (img s)]\<rparr>))" using o by auto
      then show ?thesis by (rule fin)
    next
      case False
      then show ?thesis using o by (auto simp: fs_upd_def)
    qed
  next
    case None
    show ?thesis
    proof (cases "\<exists>d nm c. flags AND FS_O_CREATE \<noteq> 0 \<and> parent_walk (img s) p (f_cwd s) = Some (d, nm) \<and> create_result (img s) (unat d) nm = Inr c")
      case True
      then obtain d nm c where cr: "flags AND FS_O_CREATE \<noteq> 0" and w: "parent_walk (img s) p (f_cwd s) = Some (d, nm)"
        and r: "create_result (img s) (unat d) nm = Inr c" by blast
      obtain s' E where "fs_upd (open_effect c flags E) s s'" "fs_open (Some p) flags s =
        (case free_fd (f_fds s) of None \<Rightarrow> (-6, s') | Some k \<Rightarrow> (int k, s'\<lparr>f_fds := (f_fds s)[k := new_fd c flags E]\<rparr>))"
        using fs_open_new [OF inv None cr w r] by blast
      then show ?thesis by (rule fin)
    next
      case False
      then have "flags AND FS_O_CREATE = 0 \<or> parent_walk (img s) p (f_cwd s) = None
        \<or> (\<exists>d nm rc. parent_walk (img s) p (f_cwd s) = Some (d, nm) \<and> create_result (img s) (unat d) nm = Inl rc)"
        by (metis old.sum.exhaust option.exhaust surj_pair)
      then show ?thesis using fs_open_failed [OF inv None, of flags] by auto
    qed
  qed
qed

lemma open_offs:
  assumes inv: "fs_inv s" and o: "offs_ok (f_fds s)"
  shows "offs_ok (f_fds (snd (fs_open (Some p) flags s)))"
proof -
  let ?t = "snd (fs_open (Some p) flags s)"
  note inv' = fs_open_inv [OF inv, of p flags]
  consider "f_fds ?t = f_fds s" | k c where "k < 16" "f_fds ?t = (f_fds s)[k := \<lparr>fd_inode = c,
    fd_offset = (if flags AND FS_O_APPEND \<noteq> 0 then i_size (ino_at (img ?t) (unat c)) else 0), fd_flags = flags, fd_used = True\<rparr>]"
    using open_fds [OF inv, of p flags] by blast
  then show ?thesis
  proof cases
    case 2
    have l: "length (f_fds s) = 16" using fs_invD(7) [OF inv] by (simp add: fds_ok_def)
    then have op: "fd_open (int k) ?t" "fd_file (int k) ?t = unat c" using 2 by (simp_all add: fd_open_def fd_file_def)
    have "unat (i_size (ino_at (img ?t) (unat c))) \<le> 1015808" using fd_openD(5) [OF inv' op(1)] unfolding op(2) by (simp add: word_le_nat_alt)
    then show ?thesis unfolding 2(2) using o by (intro offs_ok_update) simp_all
  qed (use o in simp)
qed

lemma write_run:
  assumes inv: "fs_inv s" and o: "offs_ok (f_fds s)" and c: "unat count \<le> length bs"
  shows "fs_inv (snd (fs_write fd (Some bs) count s))" "offs_ok (f_fds (snd (fs_write fd (Some bs) count s)))"
proof -
  have "fs_inv (snd (fs_write fd (Some bs) count s)) \<and> offs_ok (f_fds (snd (fs_write fd (Some bs) count s)))"
  proof (cases "fd_open fd s \<and> fd_flags (f_fds s ! nat fd) AND 3 \<noteq> 0")
    case True
    then have op: "fd_open fd s" and fl: "fd_flags (f_fds s ! nat fd) AND 3 \<noteq> 0" by auto
    obtain n s' where w: "fs_write fd (Some bs) count s = (int n, s')" "fs_inv s'"
      "f_fds s' = f_fds (set_off (nat fd) (fd_offset (f_fds s ! nat fd) + of_nat n) s)" "fd_pos fd s + n \<le> 1015808"
      using fs_write_spec [OF inv op fl c offs_okD [OF o inv op]] by blast
    have "fd_offset (f_fds s ! nat fd) + of_nat n = (of_nat (fd_pos fd s + n) :: u32)" by (simp add: fd_pos_def)
    then have "unat (fd_offset (f_fds s ! nat fd) + of_nat n) \<le> 1015808" using w(4) by (simp add: unat_of_nat del: of_nat_add)
    then show ?thesis using w(1-3) offs_ok_update [OF o] by (simp add: set_off_def)
  qed (use inv o in \<open>auto simp: fs_write_def\<close>)
  then show "fs_inv (snd (fs_write fd (Some bs) count s))" "offs_ok (f_fds (snd (fs_write fd (Some bs) count s)))" by auto
qed

lemma read_run:
  assumes inv: "fs_inv s" and o: "offs_ok (f_fds s)" and c: "unat count \<le> length bs"
  shows "fs_inv (snd (snd (fs_read fd (Some bs) count s)))" "offs_ok (f_fds (snd (snd (fs_read fd (Some bs) count s))))"
proof -
  let ?i = "fd_file fd s"
  have "fs_inv (snd (snd (fs_read fd (Some bs) count s))) \<and> offs_ok (f_fds (snd (snd (fs_read fd (Some bs) count s))))"
  proof (cases "fd_open fd s")
    case True
    obtain k s' where r: "k = span (img s) (ino_at (img s) ?i) (fd_pos fd s) (min (unat count) (length (contents (img s) ?i) - fd_pos fd s))"
      "snd (snd (fs_read fd (Some bs) count s)) = s'" "fs_upd (img s) (set_off (nat fd) (fd_offset (f_fds s ! nat fd) + of_nat k) s) s'" "fs_inv s'"
      using fs_read_spec [OF inv True c] by (metis snd_conv)
    have sz: "length (contents (img s) ?i) \<le> 1015808" using fd_openD(5) [OF inv True] by (simp add: word_le_nat_alt)
    have "k \<le> length (contents (img s) ?i) - fd_pos fd s" using r(1) span_le by (metis min.boundedE)
    then have "fd_pos fd s + k \<le> 1015808" using sz offs_okD [OF o inv True] by linarith
    moreover have "fd_offset (f_fds s ! nat fd) + of_nat k = (of_nat (fd_pos fd s + k) :: u32)" by (simp add: fd_pos_def)
    ultimately have "unat (fd_offset (f_fds s ! nat fd) + of_nat k) \<le> 1015808" by (simp add: unat_of_nat del: of_nat_add)
    then have "offs_ok (f_fds s')" using fs_updD(3) [OF r(3)] offs_ok_update [OF o] by (simp add: set_off_def)
    then show ?thesis using r(2,4) by simp
  qed (use inv o in \<open>auto simp: fs_read_def\<close>)
  then show "fs_inv (snd (snd (fs_read fd (Some bs) count s)))" "offs_ok (f_fds (snd (snd (fs_read fd (Some bs) count s))))" by auto
qed

lemma fs_run_ok: "fs_run s \<Longrightarrow> fs_inv s \<and> offs_ok (f_fds s)"
proof (induction rule: fs_run.induct)
  case (init s)
  then show ?case using fs_init_blank [of s] by (simp add: offs_ok_def zero_fd_def)
next
  case (mkdir s p)
  then show ?case using fs_mkdir_spec [of s p] by (auto simp: fs_upd_def)
next
  case (unlink s p)
  then show ?case using fs_unlink_inv [of s p] fs_unlink_effect [of s p] by auto
next
  case (chdir s p)
  then show ?case using fs_chdir_inv [of s p] fs_chdir_spec [of s p] by (auto simp: fs_upd_def split: option.splits if_splits)
next
  case (opened s p flags)
  then show ?case using fs_open_inv open_offs by blast
next
  case (closes s fd)
  then show ?case using fs_close_inv [of s fd] by (auto simp: fs_close_def intro!: offs_ok_update)
next
  case (writes s count bs fd)
  then show ?case using write_run by blast
next
  case (reads s count bs fd)
  then show ?case using read_run by blast
qed

lemma fs_aa_run: "fs_run fs_aa"
proof -
  have "fs_run fs_boot" unfolding fs_boot_def by (rule fs_run.init) (simp_all add: fs_start_def lengths_ok_def blank_disk_def)
  then show ?thesis unfolding fs_aa_def fs_a_def by (intro fs_run.opened)
qed

text \<open>
  C7: Whatever calls of \<^verbatim>\<open>fs_mkdir\<close>, \<^verbatim>\<open>fs_unlink\<close>, \<^verbatim>\<open>fs_chdir\<close>, \<^verbatim>\<open>fs_open\<close>, \<^verbatim>\<open>fs_close\<close>, \<^verbatim>\<open>fs_write\<close> and
  \<^verbatim>\<open>fs_read\<close> follow an \<^verbatim>\<open>fs_init\<close>, as long as no file is removed while a descriptor is open on it (\<^verbatim>\<open>fs_unlink\<close> does
  not check that, see \<open>fs_unlink_stale_descriptor\<close>) and the buffers are as long as the calls are told: no block belongs to two files or to two places of one, every block of a file is marked as
  taken and none of the reserved blocks is one, the inodes in use are those that the root directory leads to, by one
  entry each, the current directory is a directory and every open descriptor is open on a file.\<close>

theorem fs_run_invariant:
  assumes "fs_run s"
  shows "(\<forall>i sl j sl' b. owns (vol (img s)) i sl b \<and> owns (vol (img s)) j sl' b \<longrightarrow> i = j \<and> sl = sl')
    \<and> (\<forall>i sl b. owns (vol (img s)) i sl b \<longrightarrow> (6 \<le> b \<and> b < 254 \<and> bm (img s) 2 b) \<or> i = 0 \<and> sl = 0 \<and> b = 1)
    \<and> (\<forall>i \<in> dom (vol (img s)). tree (vol (img s)) i)
    \<and> (\<forall>d e d' e' i. kid (vol (img s)) d e i \<and> kid (vol (img s)) d' e' i \<longrightarrow> d = d' \<and> e = e')
    \<and> is_dir (img s) (unat (f_cwd s)) \<and> good (img s) (f_cwd s)
    \<and> (\<forall>fd. fd_open fd s \<longrightarrow> good (img s) (fd_inode (f_fds s ! nat fd)) \<and> i_mode (ino_at (img s) (fd_file fd s)) = INODE_FILE)"
proof -
  have inv: "fs_inv s" using fs_run_ok [OF assms] by blast
  note I = fs_invD [OF inv] and V = img_invD(1) [OF fs_invD(3) [OF inv]]
  note B = vinvD(3) [OF V]
  have "is_dir (img s) (unat (f_cwd s))" using I(6) by (auto simp: cwd_ok_def vol_Some is_dir_def)
  moreover have "(6 \<le> b \<and> b < 254 \<and> bm (img s) 2 b) \<or> i = 0 \<and> sl = 0 \<and> b = 1" if "owns (vol (img s)) i sl b" for i sl b
    using blocks_okD(2) [OF B that] by (auto simp: busy_def)
  moreover have "\<forall>d e d' e' i. kid (vol (img s)) d e i \<and> kid (vol (img s)) d' e' i \<longrightarrow> d = d' \<and> e = e'"
    using vinvD(4) [OF V] unfolding tree_ok_def by blast
  moreover have "\<forall>i sl j sl' b. owns (vol (img s)) i sl b \<and> owns (vol (img s)) j sl' b \<longrightarrow> i = j \<and> sl = sl'"
    using blocks_okD(3) [OF B] by blast
  ultimately show ?thesis using used_tree [OF V] I(5) fd_openD(2,3) [OF inv] by blast
qed

theorem fs_run_invariant_witness: "tree (vol (img fs_aa)) 1"
proof -
  have "1 \<in> dom (vol (img fs_aa))" by (simp add: fs_aa_props(4) fs_a_props(4) vcreate_def)
  then show ?thesis using fs_run_invariant [OF fs_aa_run] by blast
qed

end
