(* ===== verification/Fs_Pwd.thy ===== *)
theory Fs_Pwd
  imports Fs_Run
begin

text \<open>
  The path of the current directory: \<^verbatim>\<open>pwd_rec\<close> of \<^verbatim>\<open>fs.c\<close> climbs the parent entries. It returns because they lead to
  the root, and the path it builds is a walk from the root to the directory.
\<close>

subsection \<open>The names on the way from the root\<close>

inductive way :: "volume \<Rightarrow> nat \<Rightarrow> u8 list list \<Rightarrow> bool" for N where
  root: "way N 0 []"
| child: "way N d ns \<Longrightarrow> N d = Some n \<Longrightarrow> vn_ents n e = Some (nm, i) \<Longrightarrow> 2 \<le> e \<Longrightarrow> way N i (ns @ [nm])"

lemma tree_way: "tree N i \<Longrightarrow> \<exists>ns. way N i ns"
proof (induction rule: tree.induct)
  case (child d e i)
  then show ?case by (metis kid_def way.child)
qed (use way.root in blast)

text \<open>There is one way only: a node has one entry above it, and the root none.\<close>

lemma way_unique:
  assumes V: "vinv N U"
  shows "way N i ns \<Longrightarrow> way N i ns' \<Longrightarrow> ns = ns'"
proof (induction arbitrary: ns' rule: way.induct)
  case root
  then show ?case
  proof (cases rule: way.cases)
    case (child d ns n e nm)
    then have "kid N d e 0" by (auto simp: kid_def)
    then show ?thesis using kid_not_root [OF V] by blast
  qed simp
next
  case (child d ns n e nm i)
  have k: "kid N d e i" using child.hyps by (auto simp: kid_def)
  from child.prems show ?case
  proof (cases rule: way.cases)
    case root
    then show ?thesis using kid_not_root [OF V] k by blast
  next
    case (child d' ms n' e' nm')
    then have "kid N d' e' i" by (auto simp: kid_def)
    then have "d' = d" "e' = e" using k vinvD(4) [OF V] unfolding tree_ok_def by blast+
    then show ?thesis using child child.hyps child.IH \<open>N d = Some n\<close> \<open>vn_ents n e = Some (nm, i)\<close> by auto
  qed
qed

definition dpath :: "u8 list list \<Rightarrow> u8 list" where
  "dpath ns = (if ns = [] then [0x2F] else concat (map (\<lambda>n. 0x2F # n) ns))"

lemma dpath_snoc: "dpath (ns @ [nm]) = (if ns = [] then 0x2F # nm else dpath ns @ 0x2F # nm)"
  by (simp add: dpath_def)

lemma dpath_length: "0 < length (dpath ns)" "ns \<noteq> [] \<Longrightarrow> (\<And>n. n \<in> set ns \<Longrightarrow> n \<noteq> []) \<Longrightarrow> 1 < length (dpath ns)"
proof -
  show "0 < length (dpath ns)" by (cases ns) (auto simp: dpath_def)
  assume "ns \<noteq> []" "\<And>n. n \<in> set ns \<Longrightarrow> n \<noteq> []"
  then show "1 < length (dpath ns)" by (cases ns) (auto simp: dpath_def)
qed

lemma way_names:
  assumes "way N i ns" "vinv N U"
  shows "\<forall>nm \<in> set ns. nm \<noteq> []"
  using assms by (induction rule: way.induct) (use ents_dir(2) [OF assms(2)] in \<open>auto simp: dir_ok_def\<close>)

lemma way_walk:
  assumes "way (vol D) i ns" "img_inv D"
  shows "i < 64 \<and> walk D ns 0 = Some (of_nat i)"
  using assms(1)
proof (induction rule: way.induct)
  case (child d ns n e nm i)
  note V = img_invD(1) [OF assms(2)]
  have k: "kid (vol D) d e i" using child by (auto simp: kid_def)
  obtain m where m: "vol D i = Some m" using kid_dom [OF V k] by auto
  then have i: "i < 64" by (simp add: vol_Some)
  have dk: "dir_ok (vol D) d n" using ents_dir(2) [OF V child.hyps(2,3)] .
  have nm: "nm \<noteq> []" using dk child.hyps(3) by (auto simp: dir_ok_def)
  have "nm \<noteq> dot"
  proof
    assume "nm = dot"
    then have "e = 0" using dk child.hyps(3) unfolding dir_ok_def by metis
    then show False using child.hyps(4) by simp
  qed
  moreover have "lookup D d nm = Some (of_nat i)"
    using lookup_vol [OF assms(2) child.hyps(2) nm, of "of_nat i"] child.hyps(3) i by (auto simp: unat_of_nat)
  moreover have "unat (of_nat d :: u32) = d" using child.IH by (simp add: unat_of_nat)
  ultimately show ?case using child.IH i by (simp add: walk_append)
qed simp

subsection \<open>One directory and its parent\<close>

lemma parent_entries:
  assumes inv: "img_inv D" and k: "kid (vol D) d e i" and dir: "is_dir D i"
  shows "lookup D i dotdot = Some (of_nat d)" "lookup D d dot = Some (of_nat d)" "i \<noteq> 0" "d < 64" "is_dir D d"
proof -
  note V = img_invD(1) [OF inv]
  obtain m where m: "vol D i = Some m" using kid_dom [OF V k] by auto
  obtain n nm where n: "vol D d = Some n" "vn_ents n e = Some (nm, i)" using k by (auto simp: kid_def)
  show d: "d < 64" using n by (simp add: vol_Some)
  show i0: "i \<noteq> 0" using kid_not_root [OF V k] .
  have mm: "vn_mode m = INODE_DIR" using dir m by (simp add: is_dir_def vol_Some)
  obtain par where par: "vn_ents m 1 = Some (dotdot, par)" "\<exists>e. kid (vol D) par e i"
    using dir_okE [OF dir_okD(1) [OF V m mm]] i0 by metis
  have "par = d" using par(2) k vinvD(4) [OF V] unfolding tree_ok_def by blast
  then show "lookup D i dotdot = Some (of_nat d)" using lookup_vol [OF inv m, of dotdot "of_nat d"] par(1) d by (auto simp: unat_of_nat)
  have dk: "dir_ok (vol D) d n" "vn_mode n = INODE_DIR" using ents_dir [OF V n] by auto
  then show "is_dir D d" using n by (simp add: is_dir_def vol_Some)
  have "vn_ents n 0 = Some (dot, d)" using dk by (simp add: dir_ok_def)
  then show "lookup D d dot = Some (of_nat d)" using lookup_vol [OF inv n(1), of dot "of_nat d"] d by (auto simp: unat_of_nat)
qed

lemma cstr_shorter: "0 \<in> set xs \<Longrightarrow> length (cstr xs) < length xs"
  by (induction xs) (auto simp: cstr_def)

lemma name_in_parent:
  assumes inv: "img_inv D" and n: "vol D d = Some n" and en: "vn_ents n e = Some (nm, unat ino)" "2 \<le> e"
  shows "scan (\<lambda>i. ent_inode (D (dirn D d)) i = ino \<and> \<not> str_eq (ent_name (D (dirn D d)) i) dot \<and> \<not> str_eq (ent_name (D (dirn D d)) i) dotdot) 0 128 = Some e"
    "copy_str 28 (ent_name (D (dirn D d)) e) = nm" "cstr nm = nm" "nm \<noteq> []"
proof -
  let ?B = "D (dirn D d)"
  note V = img_invD(1) [OF inv]
  have dk: "dir_ok (vol D) d n" "vn_mode n = INODE_DIR" using ents_dir [OF V n en(1)] by auto
  have d: "d < 64" "used_ino D d" "n = vnode_of D (ino_at D d)" using n by (simp_all add: vol_Some)
  have dir: "is_dir D d" using dk(2) d(3) by (simp add: is_dir_def)
  have b: "dblock_ok ?B" using inv_block_ok(4) [OF inv d(1,2) dir] .
  have ve: "vn_ents n = ents ?B" using vol_dir(3) [OF inv d(1,2) dir] d(3) by simp
  show ne: "nm \<noteq> []" using dk(1) en(1) by (auto simp: dir_ok_def)
  have e: "e < 128" "live ?B e" "named ?B e" "ename ?B e = nm" "ent_inode ?B e = ino"
    using ents_Some [of ?B e nm "unat ino"] en(1) ve ne by (auto simp: word_unat_eq_iff)
  have cn: "cstr (ent_name ?B e) = nm" using ename_ent [OF e(3)] e(4) by simp
  then show "cstr nm = nm" by (auto simp: cstr_def dest: set_takeWhileD)
  have "length nm < 28"
  proof -
    have "length (cstr (take 28 (drop (e * 32) ?B))) < length (take 28 (drop (e * 32) ?B))"
      using e(3) unfolding named_def by (rule cstr_shorter)
    then show ?thesis using e(4) by (simp add: ename_def)
  qed
  then show "copy_str 28 (ent_name ?B e) = nm" using copy_str_spec [of "ent_name ?B e" 28] cn by simp
  have nd: "nm \<noteq> dot" "nm \<noteq> dotdot"
  proof -
    have "vn_ents n 0 = Some (dot, d)" "\<exists>par. vn_ents n 1 = Some (dotdot, par)" using dk(1) by (auto simp: dir_ok_def)
    moreover have "e = e'" if "vn_ents n e' = Some (nm, c)" for e' c using dk(1) en(1) that unfolding dir_ok_def by metis
    ultimately show "nm \<noteq> dot" "nm \<noteq> dotdot" using en(2) by fastforce+
  qed
  show "scan (\<lambda>i. ent_inode ?B i = ino \<and> \<not> str_eq (ent_name ?B i) dot \<and> \<not> str_eq (ent_name ?B i) dotdot) 0 128 = Some e"
    unfolding scan_Some_iff
  proof (intro conjI allI impI)
    show "\<not> str_eq (ent_name ?B e) dot" "\<not> str_eq (ent_name ?B e) dotdot" using cn nd by (auto simp: str_eq_cstr)
    fix j
    assume j: "0 \<le> j \<and> j < e"
    show "\<not> (ent_inode ?B j = ino \<and> \<not> str_eq (ent_name ?B j) dot \<and> \<not> str_eq (ent_name ?B j) dotdot)"
    proof
      assume a: "ent_inode ?B j = ino \<and> \<not> str_eq (ent_name ?B j) dot \<and> \<not> str_eq (ent_name ?B j) dotdot"
      have l: "live ?B j" "j < 128" using a e j by auto
      have nj: "named ?B j" using b l by (auto simp: dblock_ok_def)
      then have vj: "vn_ents n j = Some (ename ?B j, unat ino)" using ve l a by (simp add: ents_def)
      have "ename ?B j \<noteq> dot" "ename ?B j \<noteq> dotdot" using a ename_ent [OF nj] by (auto simp: str_eq_cstr)
      then have "2 \<le> j" using entry_from_two [OF dk(1) vj] by blast
      then have "kid (vol D) d j (unat ino)" "kid (vol D) d e (unat ino)" using n vj en by (auto simp: kid_def)
      then show False using j vinvD(4) [OF V] unfolding tree_ok_def by (metis less_irrefl)
    qed
  qed (use e in auto)
qed

subsection \<open>The climb\<close>

text \<open>What a call returns: the path, when it fits, in the buffer up to the position, with a zero behind it.\<close>

definition pwd_result :: "u8 list list \<Rightarrow> u8 list \<Rightarrow> nat \<Rightarrow> image \<Rightarrow> fs \<Rightarrow> (int \<times> u8 list \<times> nat \<times> fs) option \<Rightarrow> bool" where
  "pwd_result ns buf len D s0 r \<longleftrightarrow> (\<exists>rc buf' pos s'. r = Some (rc, buf', pos, s') \<and> fs_upd D s0 s' \<and> length buf' = length buf
     \<and> (rc = 0 \<or> rc = -1) \<and> (length (dpath ns) + 1 < len \<longrightarrow> rc = 0)
     \<and> (rc = 0 \<longrightarrow> pos = length (dpath ns) \<and> pos < len \<and> take pos buf' = dpath ns \<and> buf' ! pos = 0))"

lemma pwd_root:
  assumes "fs_upd D s0 s" "len \<le> length buf"
  shows "pwd_result [] buf len D s0 (pwd_rec 0 buf len 0 s)"
proof -
  have "take 1 (buf[0 := 0x2F, 1 := 0]) = [0x2F]" if "1 < len" using that assms(2) by (cases buf) auto
  then show ?thesis using assms by (subst pwd_rec.simps) (auto simp: pwd_result_def dpath_def)
qed

lemma pwd_append:
  assumes b: "take pos buf = dpath ns" "pos = length (dpath ns)" "len \<le> length buf" "\<forall>x \<in> set ns. x \<noteq> []"
    and nm: "cstr nm = nm" and l: "\<not> len \<le> pos + length nm + 1"
    and r: "(buf2, pos2) = (if 1 < pos then (buf[pos := 0x2F], pos + 1) else (buf, pos))"
      "buf3 = (mem_copy pos2 buf2 0 nm (length nm))[pos2 + length nm := 0]" "pos3 = pos2 + length nm"
  shows "pos3 = length (dpath (ns @ [nm]))" "pos3 < len" "take pos3 buf3 = dpath (ns @ [nm])" "buf3 ! pos3 = 0" "length buf3 = length buf"
proof -
  have "take pos2 buf2 @ nm = dpath (ns @ [nm]) \<and> pos2 + length nm < len \<and> length buf2 = length buf \<and> pos2 \<le> length buf2"
  proof (cases "ns = []")
    case True
    then have "pos = 1" using b(2) by (simp add: dpath_def)
    then show ?thesis using r(1) b(1,3) l True by (simp add: dpath_def)
  next
    case False
    then have "1 < pos" using b(2,4) dpath_length(2) by auto
    then have p2: "buf2 = buf[pos := 0x2F]" "pos2 = pos + 1" using r(1) by auto
    have "take (pos + 1) (buf[pos := 0x2F]) = take pos buf @ [0x2F]" using b(3) l by (simp add: take_Suc_conv_app_nth)
    then show ?thesis using p2 b(1,3) l False by (simp add: dpath_snoc)
  qed
  then have h: "take pos2 buf2 @ nm = dpath (ns @ [nm])" "pos2 + length nm < len" "length buf2 = length buf" "pos2 \<le> length buf2" by auto
  have m: "mem_copy pos2 buf2 0 nm (length nm) = take pos2 buf2 @ nm @ drop (pos2 + length nm) buf2"
    using mem_copy_append [of pos2 "length nm" buf2 0 nm] h b(3) by simp
  have lp: "length (dpath (ns @ [nm])) = pos2 + length nm" using arg_cong [OF h(1), of length] h(4) by simp
  show "pos3 = length (dpath (ns @ [nm]))" "pos3 < len" using lp r(3) h(2) by auto
  show "length buf3 = length buf" using r(2) h(3) by (simp add: mem_copy_nth)
  show "buf3 ! pos3 = 0" using r(2,3) h(2,3) b(3) by (simp add: mem_copy_nth)
  have "take pos3 buf3 = take pos2 buf2 @ nm" using r(2,3) m h(4) by simp
  then show "take pos3 buf3 = dpath (ns @ [nm])" using h(1) by simp
qed

lemma pwd_climb:
  assumes U: "fs_upd D s0 s" and inv: "img_inv D" and w: "way (vol D) d ns" and n: "vol D d = Some n" and en: "vn_ents n e = Some (nm, unat ino)" "2 \<le> e"
    and dir: "is_dir D (unat ino)" and l: "len \<le> length buf"
    and IH: "\<And>s. fs_upd D s0 s \<Longrightarrow> pwd_result ns buf len D s0 (pwd_rec (of_nat d) buf len 0 s)"
  shows "pwd_result (ns @ [nm]) buf len D s0 (pwd_rec ino buf len 0 s)"
proof -
  have k: "kid (vol D) d e (unat ino)" using n en by (auto simp: kid_def)
  note pe = parent_entries [OF inv k dir] and np = name_in_parent [OF inv n en]
  have i0: "ino \<noteq> 0" using pe(3) by auto
  have gi: "ino < 64" "unat ino < 64" "used_ino D (unat ino)" using kid_dom [OF img_invD(1) [OF inv] k] by (auto simp: vol_Some word_less_nat_alt)
  have d32: "unat (of_nat d :: u32) = d" "(of_nat d :: u32) < 64" using pe(4) by (simp_all add: unat_of_nat word_less_nat_alt)
  have du: "used_ino D d" using n by (simp add: vol_Some)
  have ok: "node_ok D (unat ino)" "node_ok D d"
    using inv_closed [OF inv] gi pe(4) du by (auto simp: closed_def)
  have cs: "cstr dotdot = dotdot" "cstr dot = dot" by code_simp+
  obtain s1 where s1: "inode_read ino s = (ino_at D (unat ino), s1)" "fs_upd D s0 s1" using inode_read_upd [OF U gi(1)] by blast
  obtain e1 s2 where s2: "dir_find ino dotdot s1 = (Some (e1, of_nat d), s2)" "fs_upd D s0 s2"
    using dir_find_upd [OF s1(2) gi(1) ok(1), of dotdot] pe(1) cs by (auto simp: lookup_def)
  obtain e2 s3 where s3: "dir_find (of_nat d) dot s2 = (Some e2, s3)" "fs_upd D s0 s3"
    using dir_find_upd [OF s2(2) d32(2), of dot] ok(2) pe(2) cs d32(1) by (auto simp: lookup_def)
  have bi: "i_direct (ino_at D (unat ino)) ! 0 < 254" "i_direct (ino_at D d) ! 0 < 254"
    using node_okD(2) [OF ok(1) dir] node_okD(2) [OF ok(2) pe(5)] by auto
  have s3': "fs_upd D s0 (read_buf2 (i_direct (ino_at D (unat ino)) ! 0) s3)" using read_buf2_upd(1) [OF s3(2) bi(1)] .
  obtain s4 where s4: "inode_read (of_nat d) (read_buf2 (i_direct (ino_at D (unat ino)) ! 0) s3) = (ino_at D d, s4)" "fs_upd D s0 s4"
    using inode_read_upd [OF s3' d32(2)] d32(1) by auto
  let ?s5 = "read_buf (i_direct (ino_at D d) ! 0) s4"
  have s5: "fs_upd D s0 ?s5" "f_buf ?s5 = D (dirn D d)" using read_buf_upd [OF s4(2) bi(2)] by (auto simp: dirn_def)
  obtain rc buf1 pos1 s6 where r: "pwd_rec (of_nat d) buf len 0 ?s5 = Some (rc, buf1, pos1, s6)" "fs_upd D s0 s6" "length buf1 = length buf"
    "rc = 0 \<or> rc = -1" "length (dpath ns) + 1 < len \<longrightarrow> rc = 0" "rc = 0 \<longrightarrow> pos1 = length (dpath ns) \<and> pos1 < len \<and> take pos1 buf1 = dpath ns \<and> buf1 ! pos1 = 0"
    using IH [OF s5(1)] unfolding pwd_result_def by blast
  let ?p = "if 1 < pos1 then (buf1[pos1 := 0x2F], pos1 + 1) else (buf1, pos1)"
  have sl: "str_len nm = length nm" "char_at nm 0 \<noteq> 0" using np(3,4) by (simp_all add: str_len_cstr char_at_cstr)
  have step: "pwd_rec ino buf len 0 s =
      (if rc < 0 then Some (-1, buf1, pos1, s6) else if len \<le> pos1 + length nm + 1 then Some (-1, buf1, pos1, s6)
       else Some (0, (mem_copy (snd ?p) (fst ?p) 0 nm (length nm))[snd ?p + length nm := 0], snd ?p + length nm, s6))"
    by (subst pwd_rec.simps) (simp add: i0 s1(1) s2(1) s3(1) s4(1) s5(2) np(1,2) sl r(1) Let_def)
  have ll: "length (dpath ns) < length (dpath (ns @ [nm]))" "length (dpath ns) + length nm \<le> length (dpath (ns @ [nm]))" using np(4) by (auto simp: dpath_def)
  show ?thesis
  proof (cases "rc < 0 \<or> len \<le> pos1 + length nm + 1")
    case True
    then have "pwd_rec ino buf len 0 s = Some (-1, buf1, pos1, s6)" using step by auto
    moreover have "\<not> length (dpath (ns @ [nm])) + 1 < len" using True r(4-6) ll by auto
    ultimately show ?thesis using r(2,3) unfolding pwd_result_def by simp
  next
    case False
    then have rc: "rc = 0" using r(4) by auto
    have "\<forall>x \<in> set ns. x \<noteq> []" using way_names [OF w img_invD(1) [OF inv]] .
    have ne: "\<not> len \<le> pos1 + length nm + 1" using False by simp
    have b1: "take pos1 buf1 = dpath ns" "pos1 = length (dpath ns)" "len \<le> length buf1" using r(3,6) rc l by auto
    obtain b2 p2 where p: "(b2, p2) = ?p" by (metis surj_pair)
    note pa = pwd_append [OF b1 \<open>\<forall>x \<in> set ns. x \<noteq> []\<close> np(3) ne p refl refl]
    have "pwd_rec ino buf len 0 s = Some (0, (mem_copy p2 b2 0 nm (length nm))[p2 + length nm := 0], p2 + length nm, s6)"
      using step rc ne unfolding p [symmetric] by simp
    then show ?thesis using pa r(2,3) unfolding pwd_result_def by simp
  qed
qed

lemma pwd_rec_spec:
  assumes "way (vol D) i ns" "img_inv D" "is_dir D i" "len \<le> length buf" "fs_upd D s0 s"
  shows "pwd_result ns buf len D s0 (pwd_rec (of_nat i) buf len 0 s)"
  using assms(1,3,5)
proof (induction arbitrary: s rule: way.induct)
  case root
  then show ?case using pwd_root [OF root.prems(2) assms(4)] by simp
next
  case (child d ns n e nm i)
  have k: "kid (vol D) d e i" using child.hyps by (auto simp: kid_def)
  note pe = parent_entries [OF assms(2) k child.prems(1)]
  have "i < 64" using kid_dom [OF img_invD(1) [OF assms(2)] k] by (auto simp: vol_Some)
  then have i: "unat (of_nat i :: u32) = i" by (simp add: unat_of_nat)
  show ?case
    using pwd_climb [OF child.prems(2) assms(2) child.hyps(1,2), of e nm "of_nat i" len buf] child.hyps(3,4) child.prems(1) child.IH [OF pe(5)] assms(4)
    unfolding i by blast
qed

lemma fs_pwd_way:
  assumes "fs_inv s" "2 \<le> len" "unat len \<le> length bs"
  shows "\<exists>ns rc bs' s'. way (vol (img s)) (unat (f_cwd s)) ns \<and> walk (img s) ns 0 = Some (f_cwd s)
    \<and> fs_pwd (Some bs) len s = Some (rc, Some bs', s') \<and> img s' = img s \<and> f_fds s' = f_fds s \<and> fs_inv s' \<and> length bs' = length bs
    \<and> (rc = 0 \<or> rc = -1) \<and> (length (dpath ns) + 1 < unat len \<longrightarrow> rc = 0) \<and> (rc = 0 \<longrightarrow> cstr bs' = dpath ns \<and> length (dpath ns) < unat len)"
proof -
  let ?D = "img s" and ?c = "unat (f_cwd s)"
  note I = fs_invD [OF assms(1)] and V = img_invD(1) [OF fs_invD(3) [OF assms(1)]]
  have dom: "?c \<in> dom (vol ?D)" using I(5) by (simp add: good_dom)
  then obtain ns where w: "way (vol ?D) ?c ns" using tree_way used_tree [OF V] by blast
  have dir: "is_dir ?D ?c" using I(6) by (auto simp: cwd_ok_def vol_Some is_dir_def)
  have wk: "walk ?D ns 0 = Some (f_cwd s)" using way_walk [OF w I(3)] by simp
  have nz: "0 \<notin> set (dpath ns)"
  proof -
    have "\<forall>nm \<in> set ns. cstr nm = nm" using w
    proof (induction rule: way.induct)
      case (child d ns n e nm i)
      have "unat (of_nat i :: u32) = i" using way_walk [OF way.child [OF child.hyps] I(3)] by (simp add: unat_of_nat)
      then show ?case using name_in_parent(3) [OF I(3) child.hyps(2), of e nm "of_nat i"] child by auto
    qed simp
    then show ?thesis by (auto simp: dpath_def cstr_def dest: set_takeWhileD split: if_splits)
  qed
  have l: "unat len \<le> length (bs[0 := 0])" using assms(3) by simp
  have up: "fs_upd ?D s s" by (rule I(1))
  obtain rc buf' pos s' where r: "pwd_rec (f_cwd s) (bs[0 := 0]) (unat len) 0 s = Some (rc, buf', pos, s')" "fs_upd ?D s s'" "length buf' = length bs"
    "rc = 0 \<or> rc = -1" "length (dpath ns) + 1 < unat len \<longrightarrow> rc = 0"
    "rc = 0 \<longrightarrow> pos = length (dpath ns) \<and> pos < unat len \<and> take pos buf' = dpath ns \<and> buf' ! pos = 0"
    using pwd_rec_spec [OF w I(3) dir l up] by (auto simp: pwd_result_def)
  have "cstr buf' = dpath ns" if "rc = 0"
  proof -
    have p: "take pos buf' = dpath ns" "pos < length buf'" "buf' ! pos = 0" using r(3,6) that assms(3) by auto
    then have "buf' = dpath ns @ 0 # drop (Suc pos) buf'" by (metis append_take_drop_id Cons_nth_drop_Suc)
    then show ?thesis using nz unfolding cstr_def by (metis (mono_tags, lifting) takeWhile_append2 takeWhile.simps(2) append_Nil2)
  qed
  moreover have "fs_pwd (Some bs) len s = Some (rc, Some buf', s')" using r(1) assms(2) by (simp add: fs_pwd_def not_less [symmetric])
  moreover have "rc = 0 \<longrightarrow> length (dpath ns) < unat len" using r(6) by auto
  ultimately show ?thesis using w wk r(2-5) fs_inv_same [OF assms(1) r(2)] fs_updD(2,3) [OF r(2)] by blast
qed

lemma fs_pwd_spec:
  assumes "fs_inv s" "2 \<le> len" "unat len \<le> length bs"
  shows "\<exists>rc bs' s' ns. fs_pwd (Some bs) len s = Some (rc, Some bs', s') \<and> img s' = img s \<and> f_fds s' = f_fds s \<and> fs_inv s' \<and> length bs' = length bs
    \<and> walk (img s) ns 0 = Some (f_cwd s) \<and> (rc = 0 \<longrightarrow> cstr bs' = dpath ns) \<and> (rc = 0 \<or> rc = -1 \<and> unat len \<le> length (dpath ns) + 1)"
  using fs_pwd_way [OF assms] by (metis not_less)

text \<open>
  C36: \<^verbatim>\<open>fs_pwd\<close> always returns, and leaves the disk and the descriptors as they are. There is exactly one list of names \<open>ns\<close> on
  the entries (not counting \<open>.\<close> and \<open>..\<close>) that lead from the root to the current directory, and a walk from the root follows it
  there. Whenever the path made of them, with its zero and one byte more, fits the buffer, the call succeeds; whenever it
  succeeds, the path fits with its zero and the buffer holds exactly it. Otherwise it returns -1.\<close>

theorem fs_pwd_correct:
  assumes "fs_inv s" "2 \<le> len" "unat len \<le> length bs"
  shows "\<exists>ns rc bs' s'. (\<forall>ns'. way (vol (img s)) (unat (f_cwd s)) ns' \<longleftrightarrow> ns' = ns) \<and> walk (img s) ns 0 = Some (f_cwd s)
    \<and> fs_pwd (Some bs) len s = Some (rc, Some bs', s') \<and> img s' = img s \<and> f_fds s' = f_fds s \<and> fs_inv s' \<and> length bs' = length bs
    \<and> (rc = 0 \<or> rc = -1) \<and> (length (dpath ns) + 1 < unat len \<longrightarrow> rc = 0) \<and> (rc = 0 \<longrightarrow> cstr bs' = dpath ns \<and> length (dpath ns) < unat len)"
proof -
  note V = img_invD(1) [OF fs_invD(3) [OF assms(1)]]
  show ?thesis using fs_pwd_way [OF assms] way_unique [OF V] by metis
qed

theorem fs_pwd_correct_witness:
  "\<exists>bs' s'. fs_pwd (Some (replicate 256 0)) 256 fs_boot = Some (0, Some bs', s') \<and> cstr bs' = [0x2F] \<and> img s' = img fs_boot"
proof -
  obtain ns rc bs' s' where r: "\<forall>ns'. way (vol (img fs_boot)) (unat (f_cwd fs_boot)) ns' \<longleftrightarrow> ns' = ns"
    "fs_pwd (Some (replicate 256 0)) 256 fs_boot = Some (rc, Some bs', s')" "img s' = img fs_boot"
    "length (dpath ns) + 1 < unat (256 :: u32) \<longrightarrow> rc = 0" "rc = 0 \<longrightarrow> cstr bs' = dpath ns"
    using fs_pwd_correct [OF fs_boot_props(1), of 256 "replicate 256 0"] by auto
  have "way (vol (img fs_boot)) (unat (f_cwd fs_boot)) []" using way.root [of "vol (img fs_boot)"] fs_boot_props(4) by simp
  then have "ns = []" using r(1) by simp
  then show ?thesis using r(2-5) by (simp add: dpath_def)
qed

end
