(* ===== verification/Shell_Fs.thy ===== *)
theory Shell_Fs
  imports Fs_Pwd "HOL-Library.Monad_Syntax"
begin

text \<open>
  The file commands of the shell, \<^verbatim>\<open>kernel/kernel.c\<close>, and the string functions the shell uses. A command reads and
  changes the state of the file system, of which the console is a part; \<open>None\<close> is that the console does not return
  from a string it is given. A \<^verbatim>\<open>char\<close> array that is filled before it is read is the string in it; a string literal
  is the list of its bytes.
\<close>

unbundle bit_operations_syntax

subsection \<open>Strings\<close>

definition lit :: "string \<Rightarrow> u8 list" where
  "lit = map of_char"

definition nl :: "u8 list" where
  "nl = [0x0A]"

fun k_strcmp :: "u8 list \<Rightarrow> u8 list \<Rightarrow> int" where
  "k_strcmp (x # a) (y # b) = (if x \<noteq> 0 \<and> x = y then k_strcmp a b else uint x - uint y)"
| "k_strcmp a b = uint (char_at a 0) - uint (char_at b 0)"

fun k_ltrim :: "u8 list \<Rightarrow> u8 list" where
  "k_ltrim (c # s) = (if c = 0x20 then k_ltrim s else c # s)"
| "k_ltrim [] = []"

text \<open>The value of \<^verbatim>\<open>k_parse_uint\<close> is a 32-bit \<^verbatim>\<open>int\<close>; past its bound the multiplication wraps around.\<close>

fun parse_loop :: "u8 list \<Rightarrow> u32 \<Rightarrow> bool \<Rightarrow> u32 \<times> bool \<times> u8 list" where
  "parse_loop (c # s) v d = (if 0x30 \<le> c \<and> c \<le> 0x39 then parse_loop s (v * 10 + (ucast c - 0x30)) True else (v, d, c # s))"
| "parse_loop [] v d = (v, d, [])"

definition k_parse_uint :: "u8 list \<Rightarrow> int \<times> u8 list" where
  "k_parse_uint p = (case parse_loop p 0 False of (v, d, s) \<Rightarrow> (if d then sint v else -1, s))"

fun skip_spaces :: "u8 list \<Rightarrow> u8 list" where
  "skip_spaces (c # s) = (if c = 0x20 then skip_spaces s else c # s)"
| "skip_spaces [] = []"

text \<open>\<open>word_loop cap s out\<close>: the word, or \<open>None\<close> when it does not fit; and the rest of the line.\<close>

fun word_loop :: "nat \<Rightarrow> u8 list \<Rightarrow> u8 list \<Rightarrow> (u8 list \<times> u8 list) option" where
  "word_loop cap (c # s) out =
     (if c \<noteq> 0 \<and> c \<noteq> 0x20 then if cap \<le> length out + 1 then None else word_loop cap s (out @ [c]) else Some (out, c # s))"
| "word_loop cap [] out = Some (out, [])"

definition take_word :: "u8 list \<Rightarrow> nat \<Rightarrow> int \<times> u8 list \<times> u8 list" where
  "take_word p cap =
     (let s = skip_spaces p in
      if char_at s 0 = 0 then (0, [], s)
      else case word_loop cap s [] of None \<Rightarrow> (-1, [], p) | Some (out, s1) \<Rightarrow> (1, out, s1))"

subsection \<open>Output\<close>

definition say :: "u8 list \<Rightarrow> fs \<Rightarrow> fs option" where
  "say str s = map_option (\<lambda>c. s\<lparr>f_con := c\<rparr>) (vga_puts (Some str) (f_con s))"

definition say_color :: "u8 list \<Rightarrow> vga_color \<Rightarrow> vga_color \<Rightarrow> fs \<Rightarrow> fs option" where
  "say_color str fg bg s = map_option (\<lambda>c. s\<lparr>f_con := c\<rparr>) (vga_puts_color (Some str) fg bg (f_con s))"

definition sayf :: "u8 list \<Rightarrow> va_arg list \<Rightarrow> fs \<Rightarrow> fs option" where
  "sayf fmt args s = map_option (\<lambda>c. s\<lparr>f_con := c\<rparr>) (vga_printf fmt args (f_con s))"

abbreviation VGA_LIGHT_GREEN :: vga_color where "VGA_LIGHT_GREEN \<equiv> 10"
abbreviation VGA_LIGHT_CYAN :: vga_color where "VGA_LIGHT_CYAN \<equiv> 11"
abbreviation VGA_LIGHT_RED :: vga_color where "VGA_LIGHT_RED \<equiv> 12"
abbreviation VGA_YELLOW :: vga_color where "VGA_YELLOW \<equiv> 14"
abbreviation FS_O_RDONLY :: u32 where "FS_O_RDONLY \<equiv> 0"
abbreviation FS_O_RDWR :: u32 where "FS_O_RDWR \<equiv> 2"
abbreviation PATH_CAP :: nat where "PATH_CAP \<equiv> 256"

definition complain :: "u8 list \<Rightarrow> fs \<Rightarrow> fs option" where
  "complain str = say_color str VGA_LIGHT_RED VGA_BLACK"

subsection \<open>The commands\<close>

definition cmd_ls :: "u8 list \<Rightarrow> fs \<Rightarrow> fs option" where
  "cmd_ls args s =
     (let p = skip_spaces args in
      if char_at p 0 = 0
      then do { (rc, s1) \<leftarrow> fs_list None s; if rc < 0 then complain (lit ''  ls: failed'' @ nl) s1 else Some s1 }
      else do { (rc, s1) \<leftarrow> fs_list (Some p) s;
                if rc < 0 then complain (lit ''  ls: path not found or not a directory'' @ nl) s1 else Some s1 })"

definition cmd_touch :: "u8 list \<Rightarrow> fs \<Rightarrow> fs option" where
  "cmd_touch args s =
     (case take_word args PATH_CAP of (w, name, _) \<Rightarrow>
      if w \<le> 0 then complain (lit ''  Usage: touch <file>'' @ nl) s
      else case fs_stat (Some name) True s of (rc, _, s1) \<Rightarrow>
        if rc = 0 then say_color (lit ''  touch: file already exists'' @ nl) VGA_YELLOW VGA_BLACK s1
        else case fs_open (Some name) (FS_O_RDWR OR FS_O_CREATE) s1 of (fd, s2) \<Rightarrow>
          if fd < 0 then complain (lit ''  touch: unable to create file'' @ nl) s2
          else do { s3 \<leftarrow> say (lit ''  created: '') (snd (fs_close fd s2)); s4 \<leftarrow> say name s3; say nl s4 })"

definition cmd_write :: "u8 list \<Rightarrow> fs \<Rightarrow> fs option" where
  "cmd_write args s =
     (case take_word args PATH_CAP of (w, name, rest) \<Rightarrow>
      if w \<le> 0 then complain (lit ''  Usage: write <file> <text>'' @ nl) s
      else
        let p = skip_spaces rest in
        if char_at p 0 = 0 then complain (lit ''  Usage: write <file> <text>'' @ nl) s
        else case fs_open (Some name) (FS_O_RDWR OR FS_O_CREATE OR FS_O_TRUNC) s of (fd, s1) \<Rightarrow>
          if fd < 0 then complain (lit ''  write: unable to open file'' @ nl) s1
          else case fs_write fd (Some p) (of_nat (k_strlen p)) s1 of (n, s2) \<Rightarrow>
            let s3 = snd (fs_close fd s2) in
            if n < 0 then complain (lit ''  write: failed'' @ nl) s3
            else sayf (lit ''  wrote %d bytes to %s'' @ nl) [Num_arg (of_int n), Str_arg (Some name)] s3)"

text \<open>The loop of \<^verbatim>\<open>cat\<close>; its array has 128 bytes, and none of them is read before it is written.\<close>

partial_function (option) cat_loop :: "int \<Rightarrow> u8 list \<Rightarrow> fs \<Rightarrow> fs option" where
  "cat_loop fd buf s =
     (case fs_read fd (Some buf) 127 s of (n, b, s1) \<Rightarrow>
      if n < 0 then do { s2 \<leftarrow> complain (nl @ lit ''  cat: read error'' @ nl) s1; Some (snd (fs_close fd s2)) }
      else if n = 0 then say nl (snd (fs_close fd s1))
      else let buf1 = (the b)[nat n := 0] in do { s2 \<leftarrow> say buf1 s1; cat_loop fd buf1 s2 })"

definition cmd_cat :: "u8 list \<Rightarrow> fs \<Rightarrow> fs option" where
  "cmd_cat args s =
     (case take_word args PATH_CAP of (w, name, _) \<Rightarrow>
      if w \<le> 0 then complain (lit ''  Usage: cat <file>'' @ nl) s
      else case fs_open (Some name) FS_O_RDONLY s of (fd, s1) \<Rightarrow>
        if fd < 0 then complain (lit ''  cat: file not found'' @ nl) s1
        else do { s2 \<leftarrow> say (lit ''  '') s1; cat_loop fd (replicate 128 0) s2 })"

definition cmd_rm :: "u8 list \<Rightarrow> fs \<Rightarrow> fs option" where
  "cmd_rm args s =
     (case take_word args PATH_CAP of (w, name, _) \<Rightarrow>
      if w \<le> 0 then complain (lit ''  Usage: rm <file>'' @ nl) s
      else case fs_unlink (Some name) s of (rc, s1) \<Rightarrow>
        if rc < 0 then complain (lit ''  rm: unable to remove file/directory'' @ nl) s1
        else do { s2 \<leftarrow> say (lit ''  removed: '') s1; s3 \<leftarrow> say name s2; say nl s3 })"

definition cmd_mkdir :: "u8 list \<Rightarrow> fs \<Rightarrow> fs option" where
  "cmd_mkdir args s =
     (case take_word args PATH_CAP of (w, name, _) \<Rightarrow>
      if w \<le> 0 then complain (lit ''  Usage: mkdir <directory>'' @ nl) s
      else case fs_mkdir (Some name) s of (rc, s1) \<Rightarrow>
        if rc < 0 then complain (lit ''  mkdir: unable to create directory'' @ nl) s1
        else do { s2 \<leftarrow> say (lit ''  directory created: '') s1; s3 \<leftarrow> say name s2; say nl s3 })"

definition cmd_cd :: "u8 list \<Rightarrow> fs \<Rightarrow> fs option" where
  "cmd_cd args s =
     (case take_word args PATH_CAP of (w, name, _) \<Rightarrow>
      if w \<le> 0 then complain (lit ''  Usage: cd <directory>'' @ nl) s
      else case fs_chdir (Some name) s of (rc, s1) \<Rightarrow>
        if rc < 0 then complain (lit ''  cd: directory not found'' @ nl) s1 else Some s1)"

definition cmd_pwd :: "fs \<Rightarrow> fs option" where
  "cmd_pwd s =
     do { (rc, path, s1) \<leftarrow> fs_pwd (Some (replicate 256 0)) 256 s;
          if rc < 0 then complain (lit ''  pwd: failed'' @ nl) s1
          else do { s2 \<leftarrow> say (lit ''  '') s1; s3 \<leftarrow> say (the path) s2; say nl s3 } }"

subsection \<open>The built-in tests\<close>

definition fstest_names :: "u8 list list" where
  "fstest_names = map lit [''stage4a.txt'', ''stage4b.txt'', ''stage4c.txt'', ''stage4d.txt'', ''stage4e.txt'']"

definition fstest_data :: "u8 list list" where
  "fstest_data = map lit [''Stage4 file A'', ''Stage4 file B'', ''Stage4 file C'', ''Stage4 file D'', ''Stage4 file E'']"

text \<open>One round of \<^verbatim>\<open>fstest\<close>, and whether the test goes on after it.\<close>

definition fstest_round :: "u8 list \<Rightarrow> u8 list \<Rightarrow> fs \<Rightarrow> (bool \<times> fs) option" where
  "fstest_round name text s =
     (case fs_open (Some name) (FS_O_RDWR OR FS_O_CREATE OR FS_O_TRUNC) s of (fd, s1) \<Rightarrow>
      if fd < 0 then do { s2 \<leftarrow> complain (lit ''[FS] FAIL: create'' @ nl) s1; Some (False, s2) }
      else do {
        s2 \<leftarrow> sayf (lit ''[FS] create %s: PASS'' @ nl) [Str_arg (Some name)] (snd (fs_close fd s1));
        (_, s3) \<leftarrow> fs_list None s2;
        let (fd2, s4) = fs_open (Some name) FS_O_RDWR s3;
        let (n, s5) = fs_write fd2 (Some text) (of_nat (k_strlen text)) s4;
        let s6 = snd (fs_close fd2 s5);
        if n \<noteq> ssize (k_strlen text) then do { s7 \<leftarrow> complain (lit ''[FS] FAIL: write'' @ nl) s6; Some (False, s7) }
        else do {
          s7 \<leftarrow> sayf (lit ''[FS] write %s: PASS'' @ nl) [Str_arg (Some name)] s6;
          (_, s8) \<leftarrow> fs_list None s7;
          let (fd3, s9) = fs_open (Some name) FS_O_RDONLY s8;
          let (m, buf, s10) = fs_read fd3 (Some (replicate 64 0)) 63 s9;
          let s11 = snd (fs_close fd3 s10);
          if m < 0 then do { s12 \<leftarrow> complain (lit ''[FS] FAIL: read'' @ nl) s11; Some (False, s12) }
          else do {
            s12 \<leftarrow> sayf (lit ''[FS] read %s: '') [Str_arg (Some name)] s11;
            s13 \<leftarrow> say ((the buf)[nat m := 0]) s12;
            s14 \<leftarrow> say nl s13;
            (_, s15) \<leftarrow> fs_list None s14;
            let (rc, s16) = fs_unlink (Some name) s15;
            if rc < 0 then do { s17 \<leftarrow> complain (lit ''[FS] FAIL: delete'' @ nl) s16; Some (False, s17) }
            else do {
              s17 \<leftarrow> sayf (lit ''[FS] delete %s: PASS'' @ nl) [Str_arg (Some name)] s16;
              (_, s18) \<leftarrow> fs_list None s17;
              Some (True, s18) } } } })"

fun fstest_loop :: "(u8 list \<times> u8 list) list \<Rightarrow> fs \<Rightarrow> fs option" where
  "fstest_loop ((name, text) # fs) s = do { (go, s1) \<leftarrow> fstest_round name text s; if go then fstest_loop fs s1 else Some s1 }"
| "fstest_loop [] s = say (lit ''[FS] PASS: create/write/read/delete completed for 5 files.'' @ nl @ nl) s"

definition cmd_fstest :: "fs \<Rightarrow> fs option" where
  "cmd_fstest s = do { s1 \<leftarrow> say (nl @ lit ''[FS] Stage 4 five-file test'' @ nl) s; fstest_loop (zip fstest_names fstest_data) s1 }"

definition journal_name :: "u8 list" where "journal_name = lit ''journal-test.txt''"
definition journal_data :: "u8 list" where "journal_data = lit ''JOURNAL TEST DATA''"

definition cmd_jtest :: "fs \<Rightarrow> fs option" where
  "cmd_jtest s0 = do {
     s1 \<leftarrow> say (nl @ lit ''[Journal] Write-ahead journaling test'' @ nl) s0;
     s2 \<leftarrow> say (lit ''--------------------------------------'' @ nl) s1;
     case fs_open (Some journal_name) (FS_O_RDWR OR FS_O_CREATE OR FS_O_TRUNC) s2 of (fd, s3) \<Rightarrow>
     if fd < 0 then complain (lit ''[Journal] FAIL: file creation'' @ nl) s3
     else do {
       s4 \<leftarrow> say (lit ''[Journal] Transaction/file create: PASS'' @ nl) s3;
       case fs_write fd (Some journal_data) 17 s4 of (n, s5) \<Rightarrow>
       let s6 = snd (fs_close fd s5) in
       if n \<noteq> 17 then complain (lit ''[Journal] FAIL: journaled write'' @ nl) s6
       else do {
         s7 \<leftarrow> say (lit ''[Journal] Write transaction: PASS'' @ nl) s6;
         case fs_open (Some journal_name) FS_O_RDONLY s7 of (fd2, s8) \<Rightarrow>
         if fd2 < 0 then complain (lit ''[Journal] FAIL: reopen after commit'' @ nl) s8
         else case fs_read fd2 (Some (replicate 64 0)) 63 s8 of (m, buf, s9) \<Rightarrow>
           let s10 = snd (fs_close fd2 s9) in
           if m \<noteq> 17 then complain (lit ''[Journal] FAIL: recovery/read'' @ nl) s10
           else if k_strcmp ((the buf)[nat m := 0]) journal_data \<noteq> 0
           then complain (lit ''[Journal] FAIL: recovered data mismatch'' @ nl) s10
           else do {
             s11 \<leftarrow> say (lit ''[Journal] Committed data verified: PASS'' @ nl) s10;
             case fs_unlink (Some journal_name) s11 of (rc, s12) \<Rightarrow>
             if rc < 0 then complain (lit ''[Journal] FAIL: cleanup'' @ nl) s12
             else do {
               s13 \<leftarrow> say (lit ''[Journal] Cleanup: PASS'' @ nl) s12;
               say_color (lit ''[Journal] TEST PASSED'' @ nl @ nl) VGA_LIGHT_GREEN VGA_BLACK s13 } } } } }"

text \<open>The entries of the table \<^verbatim>\<open>vfs_root\<close> returns are the functions of the file system, none of them null.\<close>

definition vfs_name :: "u8 list" where "vfs_name = lit ''vfs-test.txt''"
definition vfs_data :: "u8 list" where "vfs_data = lit ''VFS TEST''"

definition cmd_vfstest :: "fs \<Rightarrow> fs option" where
  "cmd_vfstest s0 = do {
     s1 \<leftarrow> say (nl @ lit ''[VFS] file_ops_t test'' @ nl) s0;
     s2 \<leftarrow> say (lit ''---------------------'' @ nl) s1;
     s3 \<leftarrow> say (lit ''[VFS] vfs_root(): PASS'' @ nl) s2;
     s4 \<leftarrow> say (lit ''[VFS] file_ops_t vtable: PASS'' @ nl) s3;
     case fs_open (Some vfs_name) (FS_O_RDWR OR FS_O_CREATE OR FS_O_TRUNC) s4 of (fd, s5) \<Rightarrow>
     if fd < 0 then complain (lit ''[VFS] FAIL: open dispatch'' @ nl) s5
     else do {
       s6 \<leftarrow> say (lit ''[VFS] open dispatch: PASS'' @ nl) s5;
       case fs_write fd (Some vfs_data) 8 s6 of (n, s7) \<Rightarrow>
       if n \<noteq> 8 then complain (lit ''[VFS] FAIL: write dispatch'' @ nl) (snd (fs_close fd s7))
       else do {
         s8 \<leftarrow> say (lit ''[VFS] write dispatch: PASS'' @ nl) s7;
         case fs_open (Some vfs_name) FS_O_RDONLY (snd (fs_close fd s8)) of (fd2, s9) \<Rightarrow>
         if fd2 < 0 then complain (lit ''[VFS] FAIL: reopen dispatch'' @ nl) s9
         else case fs_read fd2 (Some (replicate 32 0)) 31 s9 of (m, buf, s10) \<Rightarrow>
           let s11 = snd (fs_close fd2 s10) in
           if m \<noteq> 8 then complain (lit ''[VFS] FAIL: read dispatch'' @ nl) s11
           else if k_strcmp ((the buf)[nat m := 0]) vfs_data \<noteq> 0
           then complain (lit ''[VFS] FAIL: data mismatch'' @ nl) s11
           else do {
             s12 \<leftarrow> say (lit ''[VFS] read dispatch: PASS'' @ nl) s11;
             case fs_unlink (Some vfs_name) s12 of (rc, s13) \<Rightarrow>
             if rc < 0 then complain (lit ''[VFS] FAIL: unlink dispatch'' @ nl) s13
             else do {
               s14 \<leftarrow> say (lit ''[VFS] unlink dispatch: PASS'' @ nl) s13;
               say_color (lit ''[VFS] TEST PASSED'' @ nl @ nl) VGA_LIGHT_GREEN VGA_BLACK s14 } } } } }"

subsection \<open>What the commands leave behind\<close>

text \<open>At most the descriptor \<open>fd\<close> is open; a negative one means that none is.\<close>

definition at_most :: "int \<Rightarrow> fs \<Rightarrow> bool" where
  "at_most fd s \<longleftrightarrow> fs_inv s \<and> offs_ok (f_fds s) \<and> (\<forall>k < 16. int k \<noteq> fd \<longrightarrow> \<not> fd_used (f_fds s ! k))"

definition shell_ok :: "fs \<Rightarrow> bool" where
  "shell_ok s \<longleftrightarrow> fs_inv s \<and> (\<forall>f \<in> set (f_fds s). \<not> fd_used f)"

lemma fds_length: "fs_inv s \<Longrightarrow> length (f_fds s) = 16"
  using fs_invD(7) by (simp add: fds_ok_def)

lemma shell_ok_at_most: "shell_ok s \<Longrightarrow> at_most fd s"
  using fds_length [of s] by (auto simp: shell_ok_def at_most_def offs_ok_def)

lemma at_most_shell_ok:
  assumes "at_most fd s" "\<not> fd_open fd s"
  shows "shell_ok s"
proof -
  have l: "length (f_fds s) = 16" using assms(1) fds_length by (auto simp: at_most_def)
  have "\<not> fd_used (f_fds s ! k)" if "k < 16" for k
    using assms that by (cases "int k = fd") (auto simp: at_most_def fd_open_def)
  then show ?thesis using assms(1) l by (auto simp: shell_ok_def at_most_def in_set_conv_nth)
qed

lemma con_inv [simp]: "fs_inv (s\<lparr>f_con := c\<rparr>) = fs_inv s"
  by (simp add: fs_inv_def fs_ok_def)

lemma con_at_most [simp]: "at_most fd (s\<lparr>f_con := c\<rparr>) = at_most fd s" "shell_ok (s\<lparr>f_con := c\<rparr>) = shell_ok s"
  by (simp_all add: at_most_def shell_ok_def)

lemma say_con: "say x s = Some s' \<Longrightarrow> \<exists>c. s' = s\<lparr>f_con := c\<rparr>" "say_color x fg bg s = Some s' \<Longrightarrow> \<exists>c. s' = s\<lparr>f_con := c\<rparr>"
  "sayf x as s = Some s' \<Longrightarrow> \<exists>c. s' = s\<lparr>f_con := c\<rparr>" "complain x s = Some s' \<Longrightarrow> \<exists>c. s' = s\<lparr>f_con := c\<rparr>"
  by (auto simp: say_def say_color_def sayf_def complain_def)

lemma say_keeps:
  "say x s = Some s' \<Longrightarrow> at_most fd s' = at_most fd s" "say_color x fg bg s = Some s' \<Longrightarrow> at_most fd s' = at_most fd s"
  "sayf x as s = Some s' \<Longrightarrow> at_most fd s' = at_most fd s" "complain x s = Some s' \<Longrightarrow> at_most fd s' = at_most fd s"
  "say x s = Some s' \<Longrightarrow> shell_ok s' = shell_ok s" "say_color x fg bg s = Some s' \<Longrightarrow> shell_ok s' = shell_ok s"
  "sayf x as s = Some s' \<Longrightarrow> shell_ok s' = shell_ok s" "complain x s = Some s' \<Longrightarrow> shell_ok s' = shell_ok s"
  using say_con by (metis con_at_most)+

lemma open_at_most:
  assumes ok: "shell_ok s" and o: "fs_open (Some p) flags s = (fd, s1)"
  shows "at_most fd s1"
proof -
  have inv: "fs_inv s" and none: "\<And>k. k < 16 \<Longrightarrow> \<not> fd_used (f_fds s ! k)"
    using ok fds_length [of s] by (auto simp: shell_ok_def)
  have "offs_ok (f_fds s)" using ok by (auto simp: shell_ok_def offs_ok_def)
  then have o1: "fs_inv s1" "offs_ok (f_fds s1)" using fs_open_inv [OF inv, of p flags] open_offs [OF inv, of p flags] o by auto
  consider "f_fds s1 = f_fds s" | k f where "fd = int k" "f_fds s1 = (f_fds s)[k := f]"
    using open_fds [OF inv, of p flags] o by auto
  then show ?thesis using o1 none by cases (auto simp: at_most_def nth_list_update)
qed

lemma write_fds:
  assumes inv: "fs_inv s" "offs_ok (f_fds s)" and c: "unat count \<le> length bs"
  shows "\<exists>x. f_fds (snd (fs_write fd (Some bs) count s)) = f_fds (set_off (nat fd) x s)"
proof (cases "fd_open fd s \<and> fd_flags (f_fds s ! nat fd) AND 3 \<noteq> 0")
  case True
  then show ?thesis using fs_write_spec [OF inv(1) _ _ c offs_okD [OF inv(2,1)]] by (metis snd_conv)
next
  case False
  then have "snd (fs_write fd (Some bs) count s) = s" by (auto simp: fs_write_def)
  then show ?thesis by (metis set_off_same)
qed

lemma set_off_used [simp]: "k < length (f_fds s) \<Longrightarrow> fd_used (f_fds (set_off j x s) ! k) = fd_used (f_fds s ! k)"
  by (cases "j = k") (auto simp: set_off_def)

lemma write_at_most:
  assumes a: "at_most fd s" and c: "unat count \<le> length bs" and w: "fs_write fd (Some bs) count s = (n, s1)"
  shows "at_most fd s1"
proof -
  have i: "fs_inv s" "offs_ok (f_fds s)" using a by (auto simp: at_most_def)
  obtain x where x: "f_fds s1 = f_fds (set_off (nat fd) x s)" using write_fds [OF i c, of fd] w by auto
  have "fs_inv s1" "offs_ok (f_fds s1)" using write_run [OF i c, of fd] w by auto
  then show ?thesis using a x fds_length [OF i(1)] by (auto simp: at_most_def)
qed

lemma read_at_most:
  assumes a: "at_most fd s" and c: "unat count \<le> length bs" and r: "fs_read fd (Some bs) count s = (n, b, s1)"
  shows "at_most fd s1" "0 \<le> n \<Longrightarrow> \<exists>b'. b = Some b' \<and> length b' = length bs"
proof -
  have i: "fs_inv s" "offs_ok (f_fds s)" using a by (auto simp: at_most_def)
  have r1: "fs_inv s1" "offs_ok (f_fds s1)" using read_run [OF i c, of fd] r by auto
  have "at_most fd s1 \<and> (0 \<le> n \<longrightarrow> (\<exists>b'. b = Some b' \<and> length b' = length bs))"
  proof (cases "fd_open fd s")
    case True
    obtain k s' where k: "k = span (img s) (ino_at (img s) (fd_file fd s)) (fd_pos fd s) (min (unat count) (length (contents (img s) (fd_file fd s)) - fd_pos fd s))"
      and q: "fs_read fd (Some bs) count s = (int k, Some (take k (drop (fd_pos fd s) (contents (img s) (fd_file fd s))) @ drop k bs), s')"
      and u: "fs_upd (img s) (set_off (nat fd) (fd_offset (f_fds s ! nat fd) + of_nat k) s) s'"
      using fs_read_spec [OF i(1) True c] by blast
    have kk: "k \<le> unat count" "k \<le> length (contents (img s) (fd_file fd s)) - fd_pos fd s"
      using span_le [of "img s" "ino_at (img s) (fd_file fd s)" "fd_pos fd s"] k by (metis min.boundedE)+
    have "f_fds s1 = f_fds (set_off (nat fd) (fd_offset (f_fds s ! nat fd) + of_nat k) s)" using u q r fs_updD(3) by auto
    moreover have "b = Some (take k (drop (fd_pos fd s) (contents (img s) (fd_file fd s))) @ drop k bs)" using q r by simp
    ultimately show ?thesis using a r1 fds_length [OF i(1)] kk c by (auto simp: at_most_def)
  next
    case False
    then have "n = -1" "s1 = s" using r by (auto simp: fs_read_def)
    then show ?thesis using a by simp
  qed
  then show "at_most fd s1" "0 \<le> n \<Longrightarrow> \<exists>b'. b = Some b' \<and> length b' = length bs" by auto
qed

lemma close_ok:
  assumes "at_most fd s"
  shows "shell_ok (snd (fs_close fd s))"
proof (cases "fd_open fd s")
  case True
  let ?s = "snd (fs_close fd s)"
  have s: "?s = s\<lparr>f_fds := (f_fds s)[nat fd := (f_fds s ! nat fd)\<lparr>fd_used := False\<rparr>]\<rparr>" using True by (simp add: fs_close_def)
  have inv: "fs_inv s" "fs_inv ?s" using assms fs_close_inv by (auto simp: at_most_def)
  have "\<not> fd_used (f_fds ?s ! k)" if "k < 16" for k
    using that assms True fds_length [OF inv(1)] unfolding s at_most_def fd_open_def by (cases "k = nat fd") auto
  then show ?thesis using inv(2) fds_length [OF inv(2)] by (auto simp: shell_ok_def in_set_conv_nth)
next
  case False
  then have "snd (fs_close fd s) = s" by (simp add: fs_close_def)
  then show ?thesis using at_most_shell_ok [OF assms False] by simp
qed

lemma unlink_ok:
  assumes "shell_ok s"
  shows "shell_ok (snd (fs_unlink (Some p) s))"
proof -
  have i: "fs_inv s" and n: "not_open c (f_fds s)" for c using assms by (auto simp: shell_ok_def not_open_def list_all_iff)
  have "fs_inv (snd (fs_unlink (Some p) s))" by (rule fs_unlink_inv [OF i n])
  then show ?thesis using assms fs_unlink_effect [OF i, of p] by (auto simp: shell_ok_def)
qed

lemma mkdir_ok: "shell_ok s \<Longrightarrow> shell_ok (snd (fs_mkdir (Some p) s))"
  using fs_mkdir_spec [of s p] by (auto simp: shell_ok_def fs_upd_def)

lemma chdir_ok: "shell_ok s \<Longrightarrow> shell_ok (snd (fs_chdir (Some p) s))"
  using fs_chdir_inv [of s p] fs_chdir_spec [of s p] by (auto simp: shell_ok_def fs_upd_def split: option.splits if_splits)

text \<open>Calls that change the buffers and the console only.\<close>

definition quiet :: "fs \<Rightarrow> fs \<Rightarrow> bool" where
  "quiet s0 s \<longleftrightarrow> (\<exists>c. fs_upd (img s0) (s0\<lparr>f_con := c\<rparr>) s)"

lemma quiet_upd: "fs_upd (img s0) s0 s \<Longrightarrow> quiet s0 s"
  unfolding quiet_def by (intro exI [of _ "f_con s0"]) (simp add: fs_upd_def)

lemma quiet_con: "quiet s0 s \<Longrightarrow> quiet s0 (s\<lparr>f_con := c\<rparr>)"
  unfolding quiet_def by (elim exE, intro exI [of _ c]) (auto simp: fs_upd_def fs_ok_def)

lemma quiet_step: "quiet s0 s \<Longrightarrow> fs_upd (img s0) s s' \<Longrightarrow> quiet s0 s'"
  by (auto simp: quiet_def fs_upd_def)

lemma quietD:
  assumes "quiet s0 s"
  shows "img s = img s0" "f_fds s = f_fds s0" "f_cwd s = f_cwd s0" "f_ready s = f_ready s0" "fs_upd (img s0) s s"
  using assms by (auto simp: quiet_def fs_upd_def)

lemma quiet_ok: "quiet s0 s \<Longrightarrow> shell_ok s0 \<Longrightarrow> shell_ok s"
  using quietD [of s0 s] by (auto simp: shell_ok_def fs_inv_def fs_upd_def)

lemma list_entry_quiet:
  assumes "quiet s0 s" "list_entry i s = Some s'"
  shows "quiet s0 s'"
proof -
  let ?ino = "ent_inode (f_buf2 s) i"
  show ?thesis
  proof (cases "?ino = FS_INVALID_INODE \<or> 64 \<le> ?ino")
    case True
    then show ?thesis using assms by (auto simp: list_entry_def Let_def)
  next
    case False
    then have "?ino < 64" by (simp add: not_le)
    then obtain s1 where s1: "inode_read ?ino s = (ino_at (img s0) (unat ?ino), s1)" "fs_upd (img s0) s s1"
      using inode_read_upd [OF quietD(5) [OF assms(1)]] by blast
    note q = quiet_step [OF assms(1) s1(2)]
    show ?thesis using assms(2) False s1(1) q quiet_con [OF q] by (auto simp: list_entry_def Let_def split: if_splits option.splits)
  qed
qed

lemma list_entries_quiet: "list_entries is s = Some s' \<Longrightarrow> quiet s0 s \<Longrightarrow> quiet s0 s'"
proof (induction "is" arbitrary: s)
  case (Cons i "is")
  then show ?case using list_entry_quiet by (auto split: option.splits)
qed simp

lemma find_quiet:
  assumes "fs_inv s"
  shows "\<exists>s1. resolve_path (Some p) (f_cwd s) s = (open_find (img s) (f_cwd s) p, s1) \<and> quiet s s1"
  using resolve_find [OF fs_invD(1,4,5) [OF assms], of p] quiet_upd by blast

lemma list_rest_quiet:
  assumes inv: "fs_inv s" and q: "quiet s s1" and g: "good (img s) ino"
    and r: "(let (dir, s2) = inode_read ino s1 in
            if i_mode dir \<noteq> INODE_DIR then Some (-3, s2)
            else
              let s3 = read_buf2 (i_direct dir ! 0) s2 in
              case vga_puts (Some heading) (f_con s3) of None \<Rightarrow> None | Some c1 \<Rightarrow>
              (case vga_puts (Some rule_line) c1 of None \<Rightarrow> None | Some c2 \<Rightarrow>
              (case list_entries [0..<DIR_ENTRIES] (s3\<lparr>f_con := c2\<rparr>) of None \<Rightarrow> None | Some s4 \<Rightarrow>
              (case vga_puts (Some [0x0A]) (f_con s4) of None \<Rightarrow> None | Some c3 \<Rightarrow> Some (0, s4\<lparr>f_con := c3\<rparr>))))) = Some (rc, s')"
  shows "quiet s s'"
proof -
  let ?D = "img s" and ?n = "ino_at (img s) (unat ino)"
  have i: "ino < 64" "unat ino < 64" "used_ino ?D (unat ino)" using g by (auto simp: good_def word_less_nat_alt)
  obtain s2 where s2: "inode_read ino s1 = (?n, s2)" "fs_upd ?D s1 s2" using inode_read_upd [OF quietD(5) [OF q] i(1)] by blast
  note q2 = quiet_step [OF q s2(2)]
  show ?thesis
  proof (cases "i_mode ?n = INODE_DIR")
    case True
    have "i_direct ?n ! 0 < 254"
      using inv_block_ok(2) [OF fs_invD(3) [OF inv] i(2,3)] True by (simp add: is_dir_def dirn_def word_less_nat_alt)
    then have q3: "quiet s (read_buf2 (i_direct ?n ! 0) s2)" using quiet_step [OF q2] read_buf2_upd(1) [OF quietD(5) [OF q2]] by blast
    show ?thesis using r True s2(1) list_entries_quiet [OF _ quiet_con [OF q3]]
      by (auto simp: Let_def split: option.splits intro: quiet_con)
  qed (use r s2(1) q2 in auto)
qed

lemma fs_list_quiet:
  assumes inv: "fs_inv s" and l: "fs_list p s = Some (rc, s')"
  shows "quiet s s'"
proof -
  note I = fs_invD [OF inv]
  note rest = list_rest_quiet [OF inv]
  show ?thesis
  proof (cases "p = None \<or> char_at (the p) 0 = 0")
    case True
    then show ?thesis using l rest [OF quiet_upd [OF I(1)] I(5)] I(2) by (simp add: fs_list_def)
  next
    case False
    then obtain q where p: "p = Some q" by auto
    obtain s1 where s1: "resolve_path (Some q) (f_cwd s) s = (open_find (img s) (f_cwd s) q, s1)" "quiet s s1" using find_quiet [OF inv] by blast
    show ?thesis
    proof (cases "open_find (img s) (f_cwd s) q")
      case None
      then show ?thesis using l False I(2) p s1 by (auto simp: fs_list_def)
    next
      case (Some ino)
      then show ?thesis using l False I(2) p s1 rest [OF s1(2) open_find_good [OF I(4,5) Some]] by (simp add: fs_list_def)
    qed
  qed
qed

lemma fs_stat_quiet:
  assumes inv: "fs_inv s" and l: "fs_stat (Some p) True s = (rc, n, s')"
  shows "quiet s s'" "rc = 0 \<longleftrightarrow> open_find (img s) (f_cwd s) p \<noteq> None"
proof -
  note I = fs_invD [OF inv]
  obtain s1 where s1: "resolve_path (Some p) (f_cwd s) s = (open_find (img s) (f_cwd s) p, s1)" "quiet s s1" using find_quiet [OF inv] by blast
  have "quiet s s' \<and> (rc = 0 \<longleftrightarrow> open_find (img s) (f_cwd s) p \<noteq> None)"
  proof (cases "open_find (img s) (f_cwd s) p")
    case None
    then show ?thesis using l s1 by (auto simp: fs_stat_def)
  next
    case (Some ino)
    have "ino < 64" using open_find_good [OF I(4,5) Some] by (simp add: good_def)
    then obtain s2 where s2: "inode_read ino s1 = (ino_at (img s) (unat ino), s2)" "fs_upd (img s) s1 s2" using inode_read_upd [OF quietD(5) [OF s1(2)]] by blast
    then show ?thesis using l s1 Some quiet_step [OF s1(2)] by (auto simp: fs_stat_def)
  qed
  then show "quiet s s'" "rc = 0 \<longleftrightarrow> open_find (img s) (f_cwd s) p \<noteq> None" by auto
qed

subsection \<open>The commands keep the invariant and leave no descriptor open\<close>

lemmas say_ok = say_keeps(5-8) [THEN iffD2]
lemmas say_am = say_keeps(1-4) [THEN iffD2]
lemmas run_defs = Option.bind_eq_Some_conv Let_def

lemma count_le: "unat (of_nat (k_strlen p) :: u32) \<le> length p"
proof -
  have "k_strlen p \<le> length p" by (induction p) auto
  moreover have "unat (of_nat (k_strlen p) :: u32) \<le> k_strlen p" by (simp add: unat_of_nat)
  ultimately show ?thesis by linarith
qed

lemma ls_ok: "shell_ok s \<Longrightarrow> cmd_ls args s = Some s' \<Longrightarrow> shell_ok s'"
  using fs_list_quiet [of s] quiet_ok [of s]
  by (auto simp: cmd_ls_def run_defs shell_ok_def [of s] split: if_splits prod.splits dest!: say_keeps(8))

lemma touch_ok:
  assumes "shell_ok s" "cmd_touch args s = Some s'"
  shows "shell_ok s'"
proof -
  obtain w name rest where t: "take_word args PATH_CAP = (w, name, rest)" by (metis surj_pair)
  obtain rc n s1 where st: "fs_stat (Some name) True s = (rc, n, s1)" by (metis surj_pair)
  obtain fd s2 where o: "fs_open (Some name) (FS_O_RDWR OR FS_O_CREATE) s1 = (fd, s2)" by (metis surj_pair)
  have inv: "fs_inv s" using assms(1) by (simp add: shell_ok_def)
  have ok1: "shell_ok s1" using quiet_ok [OF fs_stat_quiet(1) [OF inv st] assms(1)] .
  note am = open_at_most [OF ok1 o]
  have ok2: "fd < 0 \<Longrightarrow> shell_ok s2" using at_most_shell_ok [OF am] by (simp add: fd_open_def)
  show ?thesis using assms t st o ok1 ok2 close_ok [OF am]
    by (auto simp: cmd_touch_def run_defs split: if_splits dest!: say_keeps(5-8))
qed

lemma write_ok:
  assumes "shell_ok s" "cmd_write args s = Some s'"
  shows "shell_ok s'"
proof -
  obtain w name rest where t: "take_word args PATH_CAP = (w, name, rest)" by (metis surj_pair)
  let ?p = "skip_spaces rest"
  obtain fd s1 where o: "fs_open (Some name) (FS_O_RDWR OR FS_O_CREATE OR FS_O_TRUNC) s = (fd, s1)" by (metis surj_pair)
  obtain n s2 where wr: "fs_write fd (Some ?p) (of_nat (k_strlen ?p)) s1 = (n, s2)" by (metis surj_pair)
  note am = open_at_most [OF assms(1) o]
  have ok1: "fd < 0 \<Longrightarrow> shell_ok s1" using at_most_shell_ok [OF am] by (simp add: fd_open_def)
  have ok2: "shell_ok (snd (fs_close fd s2))" using close_ok [OF write_at_most [OF am count_le wr]] .
  show ?thesis using assms t o wr ok1 ok2 by (auto simp: cmd_write_def run_defs split: if_splits dest!: say_keeps(5-8))
qed

lemma cat_loop_ok:
  assumes "cat_loop fd buf s = Some s'" "at_most fd s" "length buf = 128"
  shows "shell_ok s'"
proof -
  have "at_most fd s \<longrightarrow> length buf = 128 \<longrightarrow> shell_ok s'"
  proof (rule cat_loop.raw_induct [OF _ assms(1)], intro impI, goal_cases)
    case (1 f fd buf s s')
    obtain n b s1 where r: "fs_read fd (Some buf) 127 s = (n, b, s1)" by (metis surj_pair)
    have c: "unat (127 :: u32) \<le> length buf" using 1(4) by simp
    note am = read_at_most [OF 1(3) c r]
    show ?case
    proof (cases "0 < n")
      case True
      then obtain b' where b: "b = Some b'" "length b' = 128" using am(2) 1(4) by auto
      obtain s2 where s2: "say (b'[nat n := 0]) s1 = Some s2" "f fd (b'[nat n := 0]) s2 = Some s'"
        using 1(2) r b True by (auto simp: run_defs)
      then show ?thesis using 1(1) [OF s2(2)] am(1) say_keeps(1) [OF s2(1)] b(2) by simp
    next
      case False
      then show ?thesis using 1(2) r close_ok [OF am(1)] close_ok say_keeps(4,5) am(1)
        by (auto simp: run_defs split: if_splits)
    qed
  qed
  then show ?thesis using assms(2,3) by blast
qed

lemma cat_ok:
  assumes "shell_ok s" "cmd_cat args s = Some s'"
  shows "shell_ok s'"
proof -
  obtain w name rest where t: "take_word args PATH_CAP = (w, name, rest)" by (metis surj_pair)
  obtain fd s1 where o: "fs_open (Some name) FS_O_RDONLY s = (fd, s1)" by (metis surj_pair)
  note am = open_at_most [OF assms(1) o]
  have ok1: "fd < 0 \<Longrightarrow> shell_ok s1" using at_most_shell_ok [OF am] by (simp add: fd_open_def)
  show ?thesis using assms t o ok1 am say_keeps(1) cat_loop_ok
    by (auto simp: cmd_cat_def run_defs split: if_splits dest!: say_keeps(8))
qed

lemma rm_ok:
  assumes "shell_ok s" "cmd_rm args s = Some s'"
  shows "shell_ok s'"
proof -
  obtain w name rest where t: "take_word args PATH_CAP = (w, name, rest)" by (metis surj_pair)
  show ?thesis using assms t unlink_ok [OF assms(1), of name]
    by (auto simp: cmd_rm_def run_defs split: if_splits prod.splits dest!: say_keeps(5-8))
qed

lemma mkdir_cmd_ok:
  assumes "shell_ok s" "cmd_mkdir args s = Some s'"
  shows "shell_ok s'"
proof -
  obtain w name rest where t: "take_word args PATH_CAP = (w, name, rest)" by (metis surj_pair)
  show ?thesis using assms t mkdir_ok [OF assms(1), of name]
    by (auto simp: cmd_mkdir_def run_defs split: if_splits prod.splits dest!: say_keeps(5-8))
qed

lemma cd_ok:
  assumes "shell_ok s" "cmd_cd args s = Some s'"
  shows "shell_ok s'"
proof -
  obtain w name rest where t: "take_word args PATH_CAP = (w, name, rest)" by (metis surj_pair)
  show ?thesis using assms t chdir_ok [OF assms(1), of name]
    by (auto simp: cmd_cd_def run_defs split: if_splits prod.splits dest!: say_keeps(5-8))
qed

lemma pwd_ok:
  assumes "shell_ok s" "cmd_pwd s = Some s'"
  shows "shell_ok s'"
proof -
  have inv: "fs_inv s" using assms(1) by (simp add: shell_ok_def)
  have "(2 :: u32) \<le> 256" "unat (256 :: u32) \<le> length (replicate 256 (0 :: u8))" by simp_all
  then obtain rc bs s1 where p: "fs_pwd (Some (replicate 256 0)) 256 s = Some (rc, Some bs, s1)" "fs_inv s1" "f_fds s1 = f_fds s"
    using fs_pwd_spec [OF inv] by blast
  then have "shell_ok s1" using assms(1) by (simp add: shell_ok_def)
  then show ?thesis using assms(2) p(1) by (auto simp: cmd_pwd_def run_defs split: if_splits dest!: say_keeps(5-8))
qed

text \<open>The tests are longer; what each call in them leaves is collected in rules.\<close>

lemma shell_ok_iff: "shell_ok s \<longleftrightarrow> at_most (-1) s"
  using shell_ok_at_most at_most_shell_ok [of "-1" s] by (auto simp: fd_open_def)

lemma at_most_failed: "at_most fd s \<Longrightarrow> fd < 0 \<Longrightarrow> at_most (-1) s"
  unfolding shell_ok_iff [symmetric] by (rule at_most_shell_ok) (auto simp: fd_open_def)

lemma at_most_closed: "at_most fd s \<Longrightarrow> at_most (-1) (snd (fs_close fd s))"
  using close_ok unfolding shell_ok_iff .

definition leaves :: "('a \<Rightarrow> fs) \<Rightarrow> 'a option \<Rightarrow> bool" where
  "leaves g r \<longleftrightarrow> (\<forall>y. r = Some y \<longrightarrow> at_most (-1) (g y))"

lemma leaves_out:
  "at_most (-1) s \<Longrightarrow> leaves (\<lambda>s. s) (complain x s)" "at_most (-1) s \<Longrightarrow> leaves (\<lambda>s. s) (say x s)"
  "at_most (-1) s \<Longrightarrow> leaves (\<lambda>s. s) (say_color x fg bg s)" "at_most (-1) s \<Longrightarrow> leaves (\<lambda>s. s) (sayf x as s)"
  "at_most (-1) s \<Longrightarrow> leaves snd (Some (go, s))"
  using say_keeps(1-4) unfolding leaves_def by auto

lemma leaves_bind:
  "at_most fd s \<Longrightarrow> (\<And>s1. at_most fd s1 \<Longrightarrow> leaves g (f s1)) \<Longrightarrow> leaves g (say x s \<bind> f)"
  "at_most fd s \<Longrightarrow> (\<And>s1. at_most fd s1 \<Longrightarrow> leaves g (f s1)) \<Longrightarrow> leaves g (sayf x as s \<bind> f)"
  "at_most fd s \<Longrightarrow> (\<And>s1. at_most fd s1 \<Longrightarrow> leaves g (f s1)) \<Longrightarrow> leaves g (complain x s \<bind> f)"
  using say_keeps(1,3,4) unfolding leaves_def Option.bind_eq_Some_conv by blast+

lemma leaves_list:
  assumes "at_most (-1) s" "\<And>rc s1. at_most (-1) s1 \<Longrightarrow> leaves g (f rc s1)"
  shows "leaves g (fs_list p s \<bind> (\<lambda>(rc, s1). f rc s1))"
proof -
  have "at_most (-1) s1" if "fs_list p s = Some (rc, s1)" for rc s1
    using assms(1) fs_list_quiet [OF _ that] quiet_ok [of s s1] unfolding shell_ok_iff at_most_def by blast
  then show ?thesis using assms(2) unfolding leaves_def Option.bind_eq_Some_conv by fastforce
qed

lemma leaves_open:
  assumes "at_most (-1) s" "\<And>fd s1. at_most fd s1 \<Longrightarrow> leaves g (f fd s1)"
  shows "leaves g (case fs_open (Some p) flags s of (fd, s1) \<Rightarrow> f fd s1)"
  using assms(1) by (cases "fs_open (Some p) flags s") (simp add: shell_ok_iff open_at_most assms(2))

lemma leaves_write:
  assumes "at_most fd s" "unat c \<le> length bs" "\<And>n s1. at_most fd s1 \<Longrightarrow> leaves g (f n s1)"
  shows "leaves g (case fs_write fd (Some bs) c s of (n, s1) \<Rightarrow> f n s1)"
  by (cases "fs_write fd (Some bs) c s") (simp add: assms(3) write_at_most [OF assms(1,2)])

lemma leaves_read:
  assumes "at_most fd s" "unat c \<le> length bs" "\<And>n b s1. at_most fd s1 \<Longrightarrow> leaves g (f n b s1)"
  shows "leaves g (case fs_read fd (Some bs) c s of (n, b, s1) \<Rightarrow> f n b s1)"
  by (cases "fs_read fd (Some bs) c s") (simp add: assms(3) read_at_most(1) [OF assms(1,2)])

lemma leaves_unlink:
  assumes "at_most (-1) s" "\<And>rc s1. at_most (-1) s1 \<Longrightarrow> leaves g (f rc s1)"
  shows "leaves g (case fs_unlink (Some p) s of (rc, s1) \<Rightarrow> f rc s1)"
  using unlink_ok [of s p] assms by (cases "fs_unlink (Some p) s") (simp add: shell_ok_iff)

lemma leaves_if: "(b \<Longrightarrow> leaves g x) \<Longrightarrow> (\<not> b \<Longrightarrow> leaves g y) \<Longrightarrow> leaves g (if b then x else y)"
  by simp

lemmas leaves_rules = leaves_out leaves_bind leaves_list leaves_open leaves_write leaves_read leaves_unlink leaves_if

lemma data_length: "length journal_data = 17" "length vfs_data = 8"
  by (simp_all add: journal_data_def vfs_data_def lit_def)

lemma jtest_ok:
  assumes "shell_ok s"
  shows "leaves (\<lambda>s. s) (cmd_jtest s)"
  using assms unfolding cmd_jtest_def Let_def shell_ok_iff
  by (intro leaves_rules) (assumption | (rule at_most_closed, assumption) | (rule at_most_failed, assumption, assumption) | simp add: data_length)+

lemma vfstest_ok:
  assumes "shell_ok s"
  shows "leaves (\<lambda>s. s) (cmd_vfstest s)"
  using assms unfolding cmd_vfstest_def Let_def shell_ok_iff
  by (intro leaves_rules) (assumption | (rule at_most_closed, assumption) | (rule at_most_failed, assumption, assumption) | simp add: data_length)+

lemma fstest_ok:
  assumes "shell_ok s"
  shows "leaves (\<lambda>s. s) (cmd_fstest s)"
proof -
  have once: "leaves snd (fstest_round name dat s)" if "at_most (-1) s" for name dat s
    using that unfolding fstest_round_def Let_def
    by (intro leaves_rules) (assumption | (rule at_most_closed, assumption) | (rule at_most_failed, assumption, assumption) | simp add: count_le)+
  have "leaves (\<lambda>s. s) (fstest_loop fs s)" if "at_most (-1) s" for fs s
    using that
  proof (induction fs s rule: fstest_loop.induct)
    case (1 name dat fs s)
    then show ?case using once [OF 1(2), of name dat] by (fastforce simp: leaves_def Option.bind_eq_Some_conv)
  next
    case (2 s)
    then show ?case by (simp add: leaves_out)
  qed
  then show ?thesis using assms unfolding cmd_fstest_def shell_ok_iff by (intro leaves_rules) assumption+
qed

end
