(* ===== verification/Shell_Text.thy ===== *)
theory Shell_Text
  imports Shell_Fs
begin

text \<open>
  What the shell does with text: the words of a line, and that \<^verbatim>\<open>cat\<close> shows what \<^verbatim>\<open>write\<close> stored.
\<close>

unbundle bit_operations_syntax

subsection \<open>Words\<close>

lemma skip_spaces_drop: "skip_spaces p = dropWhile (\<lambda>c. c = 0x20) p"
  by (induction p) auto

lemma word_loop_spec:
  "word_loop cap s out = (let w = takeWhile (\<lambda>c. c \<noteq> 0 \<and> c \<noteq> 0x20) s in
     if w = [] \<or> length out + length w < cap then Some (out @ w, drop (length w) s) else None)"
  by (induction s arbitrary: out) (auto simp: Let_def)

text \<open>\<^verbatim>\<open>take_word\<close> gives the first word of the rest of the line and what follows it; it returns 0 when there is none and \<open>-1\<close>,
  with the line as it was, when the word and the zero behind it are longer than the array.\<close>

lemma take_word_spec:
  "take_word p cap = (let s = dropWhile (\<lambda>c. c = 0x20) p; w = takeWhile (\<lambda>c. c \<noteq> 0 \<and> c \<noteq> 0x20) s in
     if w = [] then (0, [], s) else if length w < cap then (1, w, drop (length w) s) else (-1, [], p))"
proof -
  let ?s = "dropWhile (\<lambda>c. c = 0x20) p"
  have "takeWhile (\<lambda>c. c \<noteq> 0 \<and> c \<noteq> 0x20) ?s = [] \<longleftrightarrow> char_at ?s 0 = 0"
  proof (cases ?s)
    case (Cons c s)
    then have "c \<noteq> 0x20" using hd_dropWhile [of "\<lambda>c. c = 0x20" p] by force
    then show ?thesis using Cons by (simp add: char_at_def)
  next
    case Nil
    show ?thesis unfolding Nil by (simp add: char_at_def)
  qed
  then show ?thesis unfolding take_word_def skip_spaces_drop word_loop_spec by (simp add: Let_def)
qed

subsection \<open>Printing a buffer\<close>

definition plain :: "u8 list \<Rightarrow> bool" where
  "plain xs \<longleftrightarrow> (\<forall>c \<in> set xs. c \<noteq> 0 \<and> c \<noteq> 0x1B)"

lemma puts_plain_zero: "plain xs \<Longrightarrow> puts_loop (xs @ 0 # ys) v = Some (fold vga_putchar xs v)"
proof (induction xs arbitrary: v)
  case Nil
  then show ?case by (subst puts_loop.simps) (simp add: char_at_def)
next
  case (Cons c xs)
  then have "puts_loop ((c # xs) @ 0 # ys) v = puts_loop (xs @ 0 # ys) (vga_putchar c v)"
    by (subst puts_loop.simps) (simp add: char_at_def plain_def)
  then show ?case using Cons by (simp add: plain_def)
qed

lemma puts_plain_end: "plain xs \<Longrightarrow> puts_loop xs v = Some (fold vga_putchar xs v)"
proof (induction xs arbitrary: v)
  case Nil
  then show ?case by (subst puts_loop.simps) (simp add: char_at_def)
next
  case (Cons c xs)
  then have "puts_loop (c # xs) v = puts_loop xs (vga_putchar c v)"
    by (subst puts_loop.simps) (simp add: char_at_def plain_def)
  then show ?case using Cons by (simp add: plain_def)
qed

lemma say_plain:
  "plain xs \<Longrightarrow> say xs s = Some (s\<lparr>f_con := fold vga_putchar xs (f_con s)\<rparr>)"
  "plain xs \<Longrightarrow> say (xs @ 0 # ys) s = Some (s\<lparr>f_con := fold vga_putchar xs (f_con s)\<rparr>)"
  by (simp_all add: say_def vga_puts_def puts_plain_end puts_plain_zero)

lemma plain_nl: "plain nl" "plain (lit ''  '')"
  by (simp_all add: plain_def nl_def lit_def)

subsection \<open>The loop of cat\<close>

definition solid :: "image \<Rightarrow> nat \<Rightarrow> bool" where
  "solid D i \<longleftrightarrow> (\<forall>k < length (contents D i). present D (ino_at D i) k)"

lemma cat_loop_spec:
  assumes "fs_inv s" "fd_open fd s" "fd_pos fd s \<le> length (contents (img s) (fd_file fd s))" "solid (img s) (fd_file fd s)"
    "plain (contents (img s) (fd_file fd s))" "length buf = 128"
  shows "\<exists>s'. cat_loop fd buf s = Some s' \<and> img s' = img s
    \<and> f_con s' = fold vga_putchar (drop (fd_pos fd s) (contents (img s) (fd_file fd s)) @ nl) (f_con s)"
  using assms
proof (induction "length (contents (img s) (fd_file fd s)) - fd_pos fd s" arbitrary: s buf rule: less_induct)
  case less
  let ?c = "contents (img s) (fd_file fd s)" and ?p = "fd_pos fd s"
  have cb: "unat (127 :: u32) \<le> length buf" using less.prems(6) by simp
  define k where kd: "k = min 127 (length ?c - ?p)"
  have sp: "span (img s) (ino_at (img s) (fd_file fd s)) ?p k = k" using less.prems(3,4) by (intro span_all) (auto simp: solid_def kd)
  obtain s1 where r: "fs_read fd (Some buf) 127 s = (int k, Some (take k (drop ?p ?c) @ drop k buf), s1)"
    "fs_upd (img s) (set_off (nat fd) (fd_offset (f_fds s ! nat fd) + of_nat k) s) s1" "fs_inv s1"
    using fs_read_spec [OF less.prems(1,2) cb] sp unfolding kd by auto
  note u = fs_updD [OF r(2)]
  show ?case
  proof (cases "?p = length ?c")
    case True
    then have "k = 0" by (simp add: kd)
    then have "cat_loop fd buf s = say nl (snd (fs_close fd s1))" using r(1) by (subst cat_loop.simps) simp
    moreover have "f_con (snd (fs_close fd s1)) = f_con s" "img (snd (fs_close fd s1)) = img s" using u by (simp_all add: fs_close_def)
    ultimately show ?thesis using True by (simp add: say_plain plain_nl)
  next
    case False
    then have kk: "0 < k" "?p + k \<le> length ?c" "k < 128" using less.prems(3) by (auto simp: kd)
    let ?t = "take k (drop ?p ?c)"
    have lt: "length ?t = k" using kk by simp
    have pt: "plain ?t" using less.prems(5) by (auto simp: plain_def dest!: in_set_takeD in_set_dropD)
    let ?b = "(?t @ drop k buf)[k := 0]"
    have b: "?b = ?t @ 0 # drop (Suc k) buf"
    proof -
      have "drop k buf = buf ! k # drop (Suc k) buf" using kk(3) less.prems(6) by (simp add: Cons_nth_drop_Suc)
      then show ?thesis using lt by (metis list_update_length)
    qed
    let ?s2 = "s1\<lparr>f_con := fold vga_putchar ?t (f_con s1)\<rparr>"
    have step: "cat_loop fd buf s = cat_loop fd ?b ?s2"
      using r(1) kk(1) say_plain(2) [OF pt, of "drop (Suc k) buf" s1] unfolding b [symmetric] by (subst cat_loop.simps) (simp add: nat_int)
    have l: "nat fd < length (f_fds s)" using fd_openD(1) [OF less.prems(1,2)] .
    have fd: "fd_open fd ?s2" "fd_file fd ?s2 = fd_file fd s" using u(3) l less.prems(2) by (simp_all add: fd_open_def fd_file_def)
    have im: "img ?s2 = img s" using u(2) by simp
    have pos: "fd_pos fd ?s2 = ?p + k"
    proof -
      have "fd_offset (f_fds s1 ! nat fd) = of_nat (?p + k)" using u(3) l by (simp add: fd_pos_def)
      moreover have "?p + k \<le> 1015808" using kk(2) fd_openD(5) [OF less.prems(1,2)] by (simp add: word_le_nat_alt)
      ultimately show ?thesis by (simp add: fd_pos_def unat_of_nat del: of_nat_add)
    qed
    have "\<exists>s'. cat_loop fd ?b ?s2 = Some s' \<and> img s' = img ?s2
      \<and> f_con s' = fold vga_putchar (drop (fd_pos fd ?s2) (contents (img ?s2) (fd_file fd ?s2)) @ nl) (f_con ?s2)"
      using kk less.prems r(3) fd(1) lt by (intro less.hyps) (simp_all only: fd(2) im pos, simp_all)
    moreover have "fold vga_putchar (drop ?p ?c @ nl) v = fold vga_putchar (drop (?p + k) ?c @ nl) (fold vga_putchar ?t v)" for v
    proof -
      have "drop ?p ?c = ?t @ drop (?p + k) ?c" by (metis append_take_drop_id drop_drop add.commute)
      then show ?thesis by (metis fold_append comp_apply append_assoc)
    qed
    ultimately show ?thesis using step im u(6) unfolding fd(2) pos by simp
  qed
qed

subsection \<open>Paths and changes of a file\<close>

lemma lookup_same:
  assumes "img_inv D" "img_inv E" "\<And>j. j \<noteq> i \<Longrightarrow> vol E j = vol D j" "\<not> is_dir D i" "\<not> is_dir E i" "vol D j = Some n" "nm \<noteq> []"
  shows "lookup E j nm = lookup D j nm"
proof (cases "j = i")
  case True
  then show ?thesis using assms(4,5) by (simp add: lookup_map)
next
  case False
  then have "vol E j = Some n" using assms(3,6) by simp
  then have "lookup E j nm = Some c \<longleftrightarrow> lookup D j nm = Some c" for c
    using lookup_vol [OF assms(1,6,7)] lookup_vol [OF assms(2) _ assms(7)] by blast
  then show ?thesis by (metis option.exhaust)
qed

lemma walk_same:
  assumes "img_inv D" "img_inv E" "\<And>j. j \<noteq> i \<Longrightarrow> vol E j = vol D j" "\<not> is_dir D i" "\<not> is_dir E i"
  shows "good D cur \<Longrightarrow> \<forall>c \<in> set cs. c \<noteq> [] \<Longrightarrow> walk E cs cur = walk D cs cur"
proof (induction cs arbitrary: cur)
  case (Cons c cs)
  obtain n where n: "vol D (unat cur) = Some n" using Cons.prems(1) by (auto simp: good_dom)
  have l: "lookup E (unat cur) c = lookup D (unat cur) c" using lookup_same [OF assms n] Cons.prems(2) by simp
  show ?case
  proof (cases "lookup D (unat cur) c")
    case (Some child)
    then have "good D child" using closedD(3) [OF inv_closed [OF assms(1)] Cons.prems(1)] by blast
    then show ?thesis using Cons l Some by simp
  qed (use Cons l in simp)
qed simp

lemma find_same:
  assumes "img_inv D" "img_inv E" "\<And>j. j \<noteq> i \<Longrightarrow> vol E j = vol D j" "\<not> is_dir D i" "\<not> is_dir E i" "good D cwd"
  shows "open_find E cwd p = open_find D cwd p"
proof -
  have g: "good D (from_dir p cwd)" using good_from [OF inv_closed [OF assms(1)] assms(6)] .
  have "\<forall>c \<in> set (comps p). c \<noteq> []" using comps_nonempty by blast
  then show ?thesis using walk_same [OF assms(1-5) g] by (simp add: open_find_def)
qed

subsection \<open>Writing and showing\<close>

lemma cat_shows:
  assumes ok: "shell_ok s" and t: "take_word args PATH_CAP = (1, name, rest)" and f: "open_find (img s) (f_cwd s) name = Some c"
    and m: "i_mode (ino_at (img s) (unat c)) = INODE_FILE" and so: "solid (img s) (unat c)" and pl: "plain (contents (img s) (unat c))"
  shows "\<exists>s'. cmd_cat args s = Some s' \<and> img s' = img s \<and> f_con s' = fold vga_putchar (lit ''  '' @ contents (img s) (unat c) @ nl) (f_con s)"
proof -
  have inv: "fs_inv s" using ok by (simp add: shell_ok_def)
  have fl: "FS_O_RDONLY AND FS_O_TRUNC = 0" "FS_O_RDONLY AND FS_O_APPEND = 0" by simp_all
  have "\<not> fd_used (f_fds s ! 0)" using ok fds_length [OF inv] by (auto simp: shell_ok_def)
  then have "free_fd (f_fds s) = Some 0" by (simp add: free_fd_def scan_Some_iff)
  then obtain s1 where o: "fs_open (Some name) FS_O_RDONLY s = (0, s1)" "fs_inv s1" "img s1 = img s" "f_con s1 = f_con s"
    "f_fds s1 = (f_fds s)[0 := \<lparr>fd_inode = c, fd_offset = 0, fd_flags = FS_O_RDONLY, fd_used = True\<rparr>]"
    using fs_open_effect [OF inv f m, of FS_O_RDONLY] fl by auto
  let ?s2 = "s1\<lparr>f_con := fold vga_putchar (lit ''  '') (f_con s)\<rparr>"
  have fd: "fd_open 0 ?s2" "fd_file 0 ?s2 = unat c" "fd_pos 0 ?s2 = 0"
    using o(5) fds_length [OF inv] by (simp_all add: fd_open_def fd_file_def fd_pos_def)
  have "cmd_cat args s = cat_loop 0 (replicate 128 0) ?s2"
    using t o(1,4) by (simp add: cmd_cat_def say_plain plain_nl)
  moreover have "\<exists>s'. cat_loop 0 (replicate 128 0) ?s2 = Some s' \<and> img s' = img ?s2
    \<and> f_con s' = fold vga_putchar (drop (fd_pos 0 ?s2) (contents (img ?s2) (fd_file 0 ?s2)) @ nl) (f_con ?s2)"
    using fd so pl o(2,3) by (intro cat_loop_spec) simp_all
  ultimately show ?thesis using fd o(3) by simp
qed

subsection \<open>Output that returns\<close>

definition calm :: "u8 list \<Rightarrow> bool" where
  "calm xs \<longleftrightarrow> 0x1B \<notin> set xs"

text \<open>The arguments fit the conversions of the format.\<close>

fun fits :: "u8 list \<Rightarrow> va_arg list \<Rightarrow> bool" where
  "fits [] as = True"
| "fits [c] as = (c \<noteq> 0x25)"
| "fits (c # d # f) as =
     (if c = 0 then True
      else if c \<noteq> 0x25 then fits (d # f) as
      else if d = 0x73 then (case as of Str_arg (Some p) # as' \<Rightarrow> calm p \<and> fits f as' | _ \<Rightarrow> False)
      else if d \<in> {0x63, 0x64, 0x75, 0x78} then (case as of Num_arg v # as' \<Rightarrow> fits f as' | _ \<Rightarrow> False)
      else d \<noteq> 0 \<and> fits f as)"

lemma puts_returns: "calm xs \<Longrightarrow> \<exists>v'. puts_loop xs v = Some v'"
proof (induction xs arbitrary: v)
  case Nil
  then show ?case by (subst puts_loop.simps) (simp add: char_at_def)
next
  case (Cons c xs)
  then show ?case by (subst puts_loop.simps) (simp add: char_at_def calm_def)
qed

lemma printf_returns: "fits f as \<Longrightarrow> \<exists>v'. vga_printf f as v = Some v'"
proof (induction f as arbitrary: v rule: fits.induct)
  case (1 as)
  then show ?case by (subst vga_printf.simps) (simp add: char_at_def)
next
  case (2 c as)
  then have "vga_printf [c] as v = (if c = 0 then Some v else vga_printf [] as (vga_putchar c v))"
    by (subst vga_printf.simps) (simp add: char_at_def)
  moreover have "vga_printf [] as u = Some u" for u by (subst vga_printf.simps) (simp add: char_at_def)
  ultimately show ?case by simp
next
  case (3 c d f as)
  show ?case
  proof (cases "c = 0x25")
    case False
    then show ?thesis using 3 by (subst vga_printf.simps) (auto simp: char_at_def)
  next
    case True
    have "\<exists>as' u. printf_conv d as v = Some (as', u) \<and> d \<noteq> 0 \<and> (\<exists>v'. vga_printf f as' u = Some v')"
    proof (cases "d = 0x73")
      case s: True
      then obtain p as' where p: "as = Str_arg (Some p) # as'" "calm p" "fits f as'"
        using "3.prems" True by (auto split: list.splits va_arg.splits option.splits)
      obtain u where "puts_loop p v = Some u" using puts_returns [OF p(2)] by blast
      then show ?thesis using s p True "3.IH"(2) [of "Str_arg (Some p)" as' "Some p" p u] by (simp add: printf_conv_def vga_puts_def)
    next
      case s: False
      show ?thesis
      proof (cases "d \<in> {0x63, 0x64, 0x75, 0x78}")
        case n: True
        then obtain w as' where p: "as = Num_arg w # as'" "fits f as'"
          using "3.prems" True s by (auto split: list.splits va_arg.splits)
        have "\<exists>v'. vga_printf f as' u = Some v'" for u using "3.IH"(3) [of "Num_arg w" as' w u] True s n p by simp
        then show ?thesis using n p by (auto simp: printf_conv_def)
      next
        case n: False
        then have p: "d \<noteq> 0" "fits f as" using "3.prems" True s by auto
        have "\<exists>v'. vga_printf f as u = Some v'" for u using "3.IH"(4) [of u] True s n p by simp
        then show ?thesis using n s p by (auto simp: printf_conv_def)
      qed
    qed
    then show ?thesis using True by (subst vga_printf.simps) (auto simp: char_at_def)
  qed
qed

lemma say_returns:
  "calm xs \<Longrightarrow> \<exists>s'. say xs s = Some s'" "calm xs \<Longrightarrow> \<exists>s'. complain xs s = Some s'"
  "calm xs \<Longrightarrow> \<exists>s'. say_color xs fg bg s = Some s'" "fits xs as \<Longrightarrow> \<exists>s'. sayf xs as s = Some s'"
  using puts_returns [of xs] printf_returns [of xs as]
  by (force simp: say_def complain_def say_color_def sayf_def vga_puts_def vga_puts_color_def split: option.splits)+

subsection \<open>Commands that return\<close>

lemma calm_simps [simp]: "calm []" "calm (c # xs) \<longleftrightarrow> c \<noteq> 0x1B \<and> calm xs" "calm (xs @ ys) \<longleftrightarrow> calm xs \<and> calm ys"
  by (auto simp: calm_def)

lemma word_calm:
  assumes "calm p" "take_word p cap = (w, name, rest)"
  shows "calm name" "calm rest"
proof -
  have "set name \<subseteq> set p \<and> set rest \<subseteq> set p"
    using assms(2) unfolding take_word_spec
    by (auto simp: Let_def split: if_splits dest!: set_takeWhileD in_set_dropD set_dropWhileD)
  then show "calm name" "calm rest" using assms(1) by (auto simp: calm_def)
qed

lemmas literal_simps = lit_def nl_def

definition returns :: "'a option \<Rightarrow> bool" where
  "returns r \<longleftrightarrow> r \<noteq> None"

lemma returns_out:
  "calm x \<Longrightarrow> returns (say x s)" "calm x \<Longrightarrow> returns (complain x s)"
  "calm x \<Longrightarrow> returns (say_color x fg bg s)" "fits x as \<Longrightarrow> returns (sayf x as s)" "returns (Some s)"
  using say_returns unfolding returns_def by fastforce+

lemma returns_bind: "calm x \<Longrightarrow> (\<And>s1. returns (f s1)) \<Longrightarrow> returns (say x s \<bind> f)"
  using say_returns(1) [of x s] by (auto simp: returns_def)

lemma touch_returns: "calm args \<Longrightarrow> returns (cmd_touch args s)"
  using word_calm(1) [of args PATH_CAP]
  by (auto simp: cmd_touch_def literal_simps Let_def intro!: returns_out returns_bind split: prod.split)

lemma write_returns: "calm args \<Longrightarrow> returns (cmd_write args s)"
  using word_calm(1) [of args PATH_CAP]
  by (auto simp: cmd_write_def literal_simps Let_def intro!: returns_out returns_bind split: prod.split)

lemma rm_returns: "calm args \<Longrightarrow> returns (cmd_rm args s)"
  using word_calm(1) [of args PATH_CAP]
  by (auto simp: cmd_rm_def literal_simps Let_def intro!: returns_out returns_bind split: prod.split)

lemma mkdir_returns: "calm args \<Longrightarrow> returns (cmd_mkdir args s)"
  using word_calm(1) [of args PATH_CAP]
  by (auto simp: cmd_mkdir_def literal_simps Let_def intro!: returns_out returns_bind split: prod.split)

lemma cd_returns: "returns (cmd_cd args s)"
  by (auto simp: cmd_cd_def literal_simps Let_def intro!: returns_out returns_bind split: prod.split)

subsection \<open>Writing to a file\<close>

lemma first_fd: "shell_ok s \<Longrightarrow> free_fd (f_fds s) = Some 0"
  using fds_length [of s] by (auto simp: shell_ok_def free_fd_def scan_Some_iff)

lemma open_vol:
  assumes inv: "fs_inv s" and c: "open_find (img s) (f_cwd s) p = Some c" "i_mode (ino_at (img s) (unat c)) = INODE_FILE" "j \<noteq> unat c"
  shows "vol (img (snd (fs_open (Some p) flags s))) j = vol (img s) j"
proof -
  note I = fs_invD [OF inv]
  have g: "good (img s) c" using open_find_good [OF I(4,5) c(1)] .
  then obtain n where n: "vol (img s) (unat c) = Some n" "vn_mode n = INODE_FILE" using c(2) by (auto simp: good_dom vol_Some)
  have "vol (open_effect c flags (img s)) j = vol (img s) j" using truncated_inv(2) [OF I(3) n] c(3) by (simp add: open_effect_def vfile_def)
  moreover obtain s' where "fs_upd (open_effect c flags (img s)) s s'" "img (snd (fs_open (Some p) flags s)) = img s'"
    using fs_open_found [OF inv c(1), of flags] c(2) by (cases "free_fd (f_fds s)") auto
  ultimately show ?thesis using fs_updD(2) by metis
qed

lemma take_cstr: "n \<le> length (cstr p) \<Longrightarrow> take n p = take n (cstr p)"
  unfolding cstr_def by (metis append_eq_conv_conj take_append takeWhile_dropWhile_id append_Nil2 diff_is_0_eq take_eq_Nil)

lemma write_start:
  assumes "fs_inv s" "fd_open fd s" "fd_flags (f_fds s ! nat fd) AND 3 \<noteq> 0" "unat count \<le> length bs"
    and e: "fd_file fd s = i" "fd_pos fd s = 0" "contents (img s) i = []"
  shows "\<exists>n s'. fs_write fd (Some bs) count s = (int n, s') \<and> n \<le> unat count \<and> fs_inv s'
    \<and> f_fds s' = f_fds (set_off (nat fd) (fd_offset (f_fds s ! nat fd) + of_nat n) s) \<and> f_cwd s' = f_cwd s
    \<and> contents (img s') i = take n bs \<and> (\<forall>k. k < n \<longrightarrow> present (img s') (ino_at (img s') i) k)
    \<and> (\<forall>j. j \<noteq> i \<longrightarrow> vol (img s') j = vol (img s) j) \<and> (n < unat count \<longrightarrow> free_scan (img s') = None \<or> n = 1015808)"
proof -
  have p: "fd_pos fd s \<le> 1015808" using e(2) by simp
  show ?thesis using fs_write_spec [OF assms(1-4) p] unfolding e by (elim ex_forward) auto
qed

lemma write_stores:
  assumes ok: "shell_ok s" and t: "take_word args PATH_CAP = (1, name, rest)" and c: "calm args"
    and f: "open_find (img s) (f_cwd s) name = Some c" "i_mode (ino_at (img s) (unat c)) = INODE_FILE"
    and p: "cstr (skip_spaces rest) \<noteq> []" "length (cstr (skip_spaces rest)) \<le> 4096"
  shows "\<exists>n s'. cmd_write args s = Some s' \<and> shell_ok s' \<and> f_cwd s' = f_cwd s \<and> contents (img s') (unat c) = take n (cstr (skip_spaces rest))
    \<and> n \<le> length (cstr (skip_spaces rest)) \<and> solid (img s') (unat c) \<and> (n < length (cstr (skip_spaces rest)) \<longrightarrow> free_scan (img s') = None)
    \<and> (\<forall>j. j \<noteq> unat c \<longrightarrow> vol (img s') j = vol (img s) j) \<and> i_mode (ino_at (img s') (unat c)) = INODE_FILE"
proof -
  let ?p = "skip_spaces rest" and ?fl = "FS_O_RDWR OR FS_O_CREATE OR FS_O_TRUNC"
  let ?k = "of_nat (k_strlen ?p) :: u32"
  have inv: "fs_inv s" using ok by (simp add: shell_ok_def)
  have fl: "?fl AND FS_O_TRUNC \<noteq> 0" "?fl AND FS_O_APPEND = 0" "?fl AND 3 \<noteq> 0" by code_simp+
  obtain s1 where o: "fs_open (Some name) ?fl s = (0, s1)" "fs_inv s1" "f_cwd s1 = f_cwd s" "contents (img s1) (unat c) = []"
    "f_fds s1 = (f_fds s)[0 := \<lparr>fd_inode = c, fd_offset = 0, fd_flags = ?fl, fd_used = True\<rparr>]"
    using fs_open_effect [OF inv f, of ?fl] first_fd [OF ok] fl by auto
  have v1: "vol (img s1) j = vol (img s) j" if "j \<noteq> unat c" for j using open_vol [OF inv f that, of ?fl] o(1) by simp
  have fd: "fd_open 0 s1" "fd_file 0 s1 = unat c" "fd_pos 0 s1 = 0" "fd_flags (f_fds s1 ! nat 0) = ?fl"
    using o(5) fds_length [OF inv] by (simp_all add: fd_open_def fd_file_def fd_pos_def)
  have k: "unat ?k = length (cstr ?p)" using p(2) by (simp add: k_strlen_cstr unat_of_nat)
  have f3: "fd_flags (f_fds s1 ! nat 0) AND 3 \<noteq> 0" using fd(4) fl(3) by simp
  obtain n s2 where w0: "fs_write 0 (Some ?p) ?k s1 = (int n, s2)" "n \<le> unat ?k" "fs_inv s2"
    "f_fds s2 = f_fds (set_off (nat 0) (fd_offset (f_fds s1 ! nat 0) + of_nat n) s1)" "f_cwd s2 = f_cwd s1"
    "contents (img s2) (unat c) = take n ?p" "\<forall>i. i < n \<longrightarrow> present (img s2) (ino_at (img s2) (unat c)) i"
    "\<forall>j. j \<noteq> unat c \<longrightarrow> vol (img s2) j = vol (img s1) j" "n < unat ?k \<longrightarrow> free_scan (img s2) = None \<or> n = 1015808"
    using write_start [OF o(2) fd(1) f3 count_le [of ?p] fd(2,3) o(4)] by (elim exE conjE) (rule that)
  note w = w0(2) [unfolded k] w0(6-8) w0(9) [unfolded k]
  have full: "contents (img s2) (unat c) = take n (cstr ?p)" using w(2) take_cstr [OF w(1)] by simp
  let ?s3 = "snd (fs_close 0 s2)"
  have ok2: "fd_open 0 s2" "fd_file 0 s2 = unat c" using w0(4) fd(1,2) fds_length [OF o(2)] by (simp_all add: fd_open_def fd_file_def)
  have i3: "img ?s3 = img s2" "f_cwd ?s3 = f_cwd s2" by (simp_all add: fs_close_def)
  have "char_at ?p 0 \<noteq> 0" using p(1) by (cases ?p) (auto simp: cstr_def char_at_def)
  then have r: "cmd_write args s = sayf (lit ''  wrote %d bytes to %s'' @ nl) [Num_arg (of_int (int n)), Str_arg (Some name)] ?s3"
    using t o(1) w0(1) by (simp add: cmd_write_def)
  obtain s' where s': "cmd_write args s = Some s'" using write_returns [OF c, of s] by (auto simp: returns_def)
  then obtain v where v: "s' = ?s3\<lparr>f_con := v\<rparr>" using r say_con(3) by metis
  then have e: "img s' = img s2" "f_cwd s' = f_cwd s" using i3 w0(5) o(3) by simp_all
  have "i_mode (ino_at (img s2) (unat c)) = INODE_FILE" using fd_openD(3) [OF w0(3) ok2(1)] ok2(2) by simp
  moreover have "solid (img s') (unat c)" using w(1,3) full e by (simp add: solid_def)
  moreover have "n < length (cstr ?p) \<longrightarrow> free_scan (img s') = None" using w(5) p(2) e by auto
  ultimately show ?thesis using s' write_ok [OF ok s'] full w(1,4) v1 e by auto
qed

lemma cat_after_write:
  assumes ok: "shell_ok s" "shell_ok s'" and cwd: "f_cwd s' = f_cwd s" and v: "\<And>j. j \<noteq> unat c \<Longrightarrow> vol (img s') j = vol (img s) j"
    and f: "open_find (img s) (f_cwd s) name = Some c" "i_mode (ino_at (img s) (unat c)) = INODE_FILE" "i_mode (ino_at (img s') (unat c)) = INODE_FILE"
  shows "open_find (img s') (f_cwd s') name = Some c"
proof -
  have inv: "fs_inv s" "fs_inv s'" using ok by (simp_all add: shell_ok_def)
  have "open_find (img s') (f_cwd s) name = open_find (img s) (f_cwd s) name"
    using fs_invD(5) [OF inv(1)] f(2,3) v by (intro find_same [OF fs_invD(3) [OF inv(1)] fs_invD(3) [OF inv(2)]]) (auto simp: is_dir_def)
  then show ?thesis using f(1) cwd by simp
qed

text \<open>
  C13: \<^verbatim>\<open>write\<close> and then \<^verbatim>\<open>cat\<close> of an existing file prints the text that was written, cut off only when the disk is full, and leaves
  the files as they are.\<close>

theorem write_then_cat:
  assumes "shell_ok s" "take_word args PATH_CAP = (1, name, rest)" "plain (cstr (skip_spaces rest))" "calm args"
    and "open_find (img s) (f_cwd s) name = Some c" "i_mode (ino_at (img s) (unat c)) = INODE_FILE"
    and "cstr (skip_spaces rest) \<noteq> []" "length args < 256" "take_word cargs PATH_CAP = (1, name, crest)"
  shows "\<exists>n s1 s2. cmd_write args s = Some s1 \<and> cmd_cat cargs s1 = Some s2
    \<and> f_con s2 = fold vga_putchar (lit ''  '' @ take n (cstr (skip_spaces rest)) @ nl) (f_con s1)
    \<and> (n < length (cstr (skip_spaces rest)) \<longrightarrow> free_scan (img s1) = None)
    \<and> img s2 = img s1 \<and> shell_ok s2 \<and> (\<forall>j. j \<noteq> unat c \<longrightarrow> vol (img s2) j = vol (img s) j)"
proof -
  let ?p = "cstr (skip_spaces rest)"
  have l: "length ?p \<le> 4096"
  proof -
    have "length rest \<le> length args" using assms(2) unfolding take_word_spec using length_dropWhile_le [of "\<lambda>c. c = 0x20" args] by (auto simp: Let_def split: if_splits)
    moreover have "length ?p \<le> length rest" unfolding cstr_def skip_spaces_drop by (meson length_takeWhile_le length_dropWhile_le order_trans)
    ultimately show ?thesis using assms(8) by simp
  qed
  obtain n s1 where s1: "cmd_write args s = Some s1" "shell_ok s1" "f_cwd s1 = f_cwd s" "contents (img s1) (unat c) = take n ?p"
    "solid (img s1) (unat c)" "n < length ?p \<longrightarrow> free_scan (img s1) = None" "\<forall>j. j \<noteq> unat c \<longrightarrow> vol (img s1) j = vol (img s) j"
    "i_mode (ino_at (img s1) (unat c)) = INODE_FILE"
    using write_stores [OF assms(1,2,4-7) l] by blast
  have f: "open_find (img s1) (f_cwd s1) name = Some c" using cat_after_write [OF assms(1) s1(2,3) _ assms(5,6) s1(8)] s1(7) by blast
  have pl: "plain (contents (img s1) (unat c))" using assms(3) s1(4) by (auto simp: plain_def dest: in_set_takeD)
  obtain s2 where s2: "cmd_cat cargs s1 = Some s2" "img s2 = img s1" "f_con s2 = fold vga_putchar (lit ''  '' @ take n ?p @ nl) (f_con s1)"
    using cat_shows [OF s1(2) assms(9) f s1(8,5) pl] s1(4) by auto
  show ?thesis using s1(1,6,7) s2 cat_ok [OF s1(2) s2(1)] by (intro exI [of _ n] exI [of _ s1] exI [of _ s2]) simp
qed

text \<open>A volume with an empty file \<^verbatim>\<open>a\<close> and no descriptor open.\<close>

definition fs_c :: fs where
  "fs_c = snd (fs_close 0 fs_a)"

lemma fs_c_props: "shell_ok fs_c" "open_find (img fs_c) (f_cwd fs_c) [0x61] = Some 1" "i_mode (ino_at (img fs_c) (unat (1 :: u32))) = INODE_FILE"
proof -
  note A = fs_a_props
  have "at_most 0 fs_a" using A(1) unfolding at_most_def offs_ok_def A(2) by (auto simp: zero_fd_def nth_list_update dest!: set_update_subset_insert [THEN subsetD])
  then show "shell_ok fs_c" unfolding fs_c_def by (rule close_ok)
  have "img fs_c = img fs_a" "f_cwd fs_c = f_cwd fs_a" by (simp_all add: fs_c_def fs_close_def)
  then show "open_find (img fs_c) (f_cwd fs_c) [0x61] = Some 1" "i_mode (ino_at (img fs_c) (unat (1 :: u32))) = INODE_FILE"
    using path_a fs_a_file(1,2) A(3) by simp_all
qed

theorem write_then_cat_witness:
  "\<exists>n s1 s2. cmd_write [0x61, 0x20, 0x68, 0x69] fs_c = Some s1 \<and> cmd_cat [0x61] s1 = Some s2
    \<and> f_con s2 = fold vga_putchar (lit ''  '' @ take n [0x68, 0x69] @ nl) (f_con s1)"
proof -
  have t: "take_word [0x61, 0x20, 0x68, 0x69] PATH_CAP = (1, [0x61], [0x20, 0x68, 0x69])" "take_word [0x61] PATH_CAP = (1, [0x61], [])"
    by (simp_all add: take_word_spec)
  have p: "cstr (skip_spaces [0x20, 0x68, 0x69]) = [0x68, 0x69]" by (simp add: cstr_def)
  show ?thesis using write_then_cat [OF fs_c_props(1) t(1) _ _ fs_c_props(2,3) _ _ t(2)] unfolding p by (simp add: plain_def) blast
qed

text \<open>
  C28: The commands that change files always return when the line they are given has no escape character, and like every other
  file command they keep the invariant of the file system and leave no descriptor open.\<close>

theorem file_commands_correct:
  assumes "shell_ok s"
  shows "(calm args \<longrightarrow> (\<forall>f \<in> {cmd_touch, cmd_write, cmd_rm, cmd_mkdir, cmd_cd}. \<exists>s'. f args s = Some s' \<and> shell_ok s'))
    \<and> (\<forall>f \<in> {cmd_touch args, cmd_write args, cmd_rm args, cmd_mkdir args, cmd_cd args, cmd_ls args, cmd_cat args, cmd_pwd, cmd_fstest, cmd_jtest, cmd_vfstest}.
         \<forall>s'. f s = Some s' \<longrightarrow> shell_ok s')"
proof -
  have "\<forall>f \<in> {cmd_touch args, cmd_write args, cmd_rm args, cmd_mkdir args, cmd_cd args, cmd_ls args, cmd_cat args, cmd_pwd, cmd_fstest, cmd_jtest, cmd_vfstest}.
         \<forall>s'. f s = Some s' \<longrightarrow> shell_ok s'"
    using touch_ok [OF assms] write_ok [OF assms] rm_ok [OF assms] mkdir_cmd_ok [OF assms] cd_ok [OF assms] ls_ok [OF assms] cat_ok [OF assms]
      pwd_ok [OF assms] fstest_ok [OF assms] jtest_ok [OF assms] vfstest_ok [OF assms] by (simp add: leaves_def shell_ok_iff)
  then show ?thesis using touch_returns [of args s] write_returns [of args s] rm_returns [of args s] mkdir_returns [of args s] cd_returns [of args s]
    by (auto simp: returns_def)
qed

theorem file_commands_correct_witness: "\<exists>s'. cmd_mkdir [0x64] fs_c = Some s' \<and> shell_ok s'"
  using file_commands_correct [OF fs_c_props(1), of "[0x64]"] by simp

end
