(* ===== verification/Shell_Cmd.thy ===== *)
theory Shell_Cmd
  imports Shell_Text Process
begin

text \<open>
  The rest of the shell, \<^verbatim>\<open>kernel/kernel.c\<close>: the console commands, the command table, and how a line is taken apart and given to
  the command it names. The state of a command is the file system with its console, and the process table with the memory
  manager. The commands that only start a test or a demo of another component, and \<^verbatim>\<open>kill\<close> and \<^verbatim>\<open>halt\<close>, which leave the C code, are
  the argument \<open>other\<close> of the table.
\<close>

unbundle bit_operations_syntax

type_synonym 'a machine = "fs \<times> 'a proc_scheme"
type_synonym 'a handler = "u8 list \<Rightarrow> 'a machine \<Rightarrow> 'a machine option"

record 'a command =
  c_name :: "u8 list"
  c_description :: "u8 list"
  c_handler :: "'a handler"

subsection \<open>The splash screen\<close>

definition ok_line :: "string \<Rightarrow> fs \<Rightarrow> fs option" where
  "ok_line t s = do { s1 \<leftarrow> say (lit ''[ '') s; s2 \<leftarrow> say_color (lit ''OK'') VGA_LIGHT_GREEN VGA_BLACK s1; say (lit t @ nl) s2 }"

definition box_line :: "string \<Rightarrow> vga_color \<Rightarrow> string \<Rightarrow> fs \<Rightarrow> fs option" where
  "box_line t c pad s = do { s1 \<leftarrow> say (lit ''| '') s; s2 \<leftarrow> say_color (lit t) c VGA_BLACK s1; say (lit pad @ nl) s2 }"

definition print_splash :: "fs \<Rightarrow> fs option" where
  "print_splash s = do {
     s1 \<leftarrow> say (lit ''SENG21213 Stage 4 - Loading kernel...'' @ nl)
       (s\<lparr>f_con := vga_set_color VGA_LIGHT_GREY VGA_BLACK (vga_set_cursor 0 0 (vga_clear VGA_BLACK (f_con s)))\<rparr>);
     s2 \<leftarrow> say (lit ''Kernel loaded. Switching to Protected Mode.'' @ nl @ nl) s1;
     s3 \<leftarrow> ok_line '' ] VGA driver initialised'' s2;
     s4 \<leftarrow> ok_line '' ] PS/2 keyboard driver initialised'' s3;
     s5 \<leftarrow> ok_line '' ] Interrupt handling initialised'' s4;
     s6 \<leftarrow> ok_line '' ] Timer interrupt initialised'' s5;
     s7 \<leftarrow> ok_line '' ] Scheduler initialised'' s6;
     s8 \<leftarrow> ok_line '' ] Context switching enabled'' s7;
     s9 \<leftarrow> ok_line '' ] Physical memory manager initialised'' s8;
     s10 \<leftarrow> say (nl @ lit ''+=================================================+'' @ nl) s9;
     s11 \<leftarrow> box_line ''SENG 21213 - Stage 4 Kernel'' VGA_LIGHT_CYAN ''                     |'' s10;
     s12 \<leftarrow> box_line ''RAM Disk File System'' VGA_YELLOW ''                            |'' s11;
     s13 \<leftarrow> say (lit ''| Type '' @ [0x27] @ lit ''help'' @ [0x27] @ lit '' for available commands              |'' @ nl) s12;
     say (lit ''+=================================================+'' @ nl @ nl) s13 }"

subsection \<open>Names and descriptions\<close>

definition command_text :: "(string \<times> string) list" where
  "command_text = [
     (''help'', ''List all available commands with descriptions''),
     (''clear'', ''Fill screen with spaces and reset cursor to (0,0)''),
     (''echo'', ''Print all arguments back to the screen''),
     (''version'', ''Print kernel name and version string''),
     (''colour'', ''Change text colour (0-15 for foreground/background)''),
     (''mem'', ''Show memory information''),
     (''about'', ''Show information about SENG21213-OS''),
     (''ps'', ''List all process control blocks and states''),
     (''fork'', ''Create a child process from the current process''),
     (''kill'', ''Terminate a process by PID''),
     (''thtest'', ''Test kernel thread creation and execution''),
     (''racetest'', ''Demonstrate myglobal race with and without mutex''),
     (''pctest'', ''Run bounded-buffer producer-consumer test''),
     (''pitest'', ''Demonstrate mutex priority inheritance''),
     (''rwtest'', ''Run reader-writer lock demonstration''),
     (''deadtest'', ''Run resource-allocation graph deadlock detector''),
     (''meminfo'', ''Show physical memory totals and free frames''),
     (''pmmtest'', ''Allocate and free 100 physical frames''),
     (''buddytest'', ''Test buddy allocator''),
     (''slabtest'', ''Test slab allocator''),
     (''ls'', ''List files and directories''),
     (''touch'', ''Create an empty file''),
     (''cat'', ''Read and display a file''),
     (''write'', ''Write text to a file''),
     (''rm'', ''Delete a file or empty directory''),
     (''mkdir'', ''Create a directory''),
     (''cd'', ''Change current directory''),
     (''pwd'', ''Print current directory''),
     (''fstest'', ''Create/read/write/delete five files''),
     (''jtest'', ''Run job scheduler test''),
     (''vfstest'', ''Run virtual file system test''),
     (''halt'', ''Disable interrupts and halt the CPU'')]"

subsection \<open>Console commands\<close>

definition put :: "u8 \<Rightarrow> fs \<Rightarrow> fs" where
  "put c s = s\<lparr>f_con := vga_putchar c (f_con s)\<rparr>"

fun help_rows :: "(string \<times> string) list \<Rightarrow> fs \<Rightarrow> fs option" where
  "help_rows ((name, description) # rows) s = do {
     s1 \<leftarrow> say (lit ''  '') s;
     s2 \<leftarrow> say (lit name) s1;
     s3 \<leftarrow> say (lit ''- '') (fold (\<lambda>_. put 0x20) [k_strlen (lit name)..<10] s2);
     s4 \<leftarrow> say (lit description) s3;
     s5 \<leftarrow> say nl s4;
     help_rows rows s5 }"
| "help_rows [] s = Some s"

definition cmd_help :: "fs \<Rightarrow> fs option" where
  "cmd_help s = do {
     s1 \<leftarrow> say_color (nl @ lit ''  SENG21213-OS Shell Commands'' @ nl) VGA_YELLOW VGA_BLACK s;
     s2 \<leftarrow> say (lit ''  ------------------------------------------------------------'' @ nl) s1;
     s3 \<leftarrow> help_rows command_text s2;
     say nl s3 }"

definition cmd_clear :: "fs \<Rightarrow> fs" where
  "cmd_clear s = s\<lparr>f_con := vga_clear VGA_BLACK (f_con s)\<rparr>"

definition cmd_echo :: "u8 list \<Rightarrow> fs \<Rightarrow> fs option" where
  "cmd_echo args s = do { s1 \<leftarrow> say (lit ''  '') s; s2 \<leftarrow> say args s1; say nl s2 }"

definition cmd_version :: "fs \<Rightarrow> fs option" where
  "cmd_version s = do {
     s1 \<leftarrow> say_color (nl @ lit ''  SENG21213-OS Stage 4'' @ nl) VGA_LIGHT_CYAN VGA_BLACK s;
     say (lit ''  Kernel version: v0.5-stage4'' @ nl @ nl) s1 }"

definition cmd_colour :: "u8 list \<Rightarrow> fs \<Rightarrow> fs option" where
  "cmd_colour args s =
     (case k_parse_uint (k_ltrim args) of (fg, p1) \<Rightarrow>
      case k_parse_uint (k_ltrim p1) of (bg, p2) \<Rightarrow>
      let p = k_ltrim p2 in
      if fg < 0 \<or> bg < 0 \<or> 15 < fg \<or> 15 < bg \<or> char_at p 0 \<noteq> 0
      then complain (lit ''  Usage: colour <fg> <bg>   (both values 0-15)'' @ nl) s
      else sayf (lit ''  Colour changed: foreground=%d background=%d'' @ nl) [Num_arg (of_int fg), Num_arg (of_int bg)]
        (s\<lparr>f_con := vga_set_color (of_int fg) (of_int bg) (f_con s)\<rparr>))"

definition cmd_meminfo :: "pmm_state \<Rightarrow> fs \<Rightarrow> fs option" where
  "cmd_meminfo p s = do {
     s1 \<leftarrow> say (nl @ lit ''  Physical Memory Manager'' @ nl) s;
     s2 \<leftarrow> say (lit ''  ------------------------'' @ nl) s1;
     s3 \<leftarrow> sayf (lit ''  Total : %u MB'' @ nl) [Num_arg (pmm_total_bytes p div (1024 * 1024))] s2;
     s4 \<leftarrow> sayf (lit ''  Used  : %u MB'' @ nl) [Num_arg (pmm_used_bytes p div (1024 * 1024))] s3;
     s5 \<leftarrow> sayf (lit ''  Free  : %u MB'' @ nl) [Num_arg (pmm_free_bytes p div (1024 * 1024))] s4;
     sayf (lit ''  Frames: total=%u used=%u free=%u'' @ nl @ nl)
       [Num_arg (pmm_total_frames p), Num_arg (pmm_used_frames p), Num_arg (pmm_free_frames p)] s5 }"

definition cmd_mem :: "pmm_state \<Rightarrow> fs \<Rightarrow> fs option" where
  "cmd_mem p s = cmd_meminfo p s"

definition cmd_about :: "fs \<Rightarrow> fs option" where
  "cmd_about s = do {
     s1 \<leftarrow> say_color (nl @ lit ''  About SENG21213-OS'' @ nl) VGA_LIGHT_CYAN VGA_BLACK s;
     s2 \<leftarrow> say (lit ''  ---------------------------------------------------'' @ nl) s1;
     s3 \<leftarrow> say (lit ''  Architecture : x86 (i686), 32-bit Protected Mode'' @ nl) s2;
     s4 \<leftarrow> say (lit ''  Bootloader   : Custom MBR (NASM)'' @ nl) s3;
     s5 \<leftarrow> say (lit ''  Kernel       : Freestanding C (GCC, no libc)'' @ nl) s4;
     s6 \<leftarrow> say (lit ''  VM Target    : QEMU (qemu-system-i386)'' @ nl) s5;
     s7 \<leftarrow> say (lit ''  Course       : SENG 21213 - Sem 2'' @ nl) s6;
     say (lit ''  Reference    : Stallings, OS: Internals & Design Principles'' @ nl @ nl) s7 }"

subsection \<open>Commands on the process table\<close>

text \<open>The name in a process is an array of 16 characters that ends with a zero.\<close>

definition ps_row :: "pcb \<Rightarrow> fs \<Rightarrow> fs option" where
  "ps_row p s = do {
     s1 \<leftarrow> sayf (lit ''  %u    '') [Num_arg (p_pid p)] s;
     let state = lit (process_state_name (p_state p));
     s2 \<leftarrow> say state s1;
     s3 \<leftarrow> sayf (lit ''%u        '') [Num_arg (ucast (p_priority p))] (fold (\<lambda>_. put 0x20) [k_strlen state..<13] s2);
     s4 \<leftarrow> say (if char_at (lit (p_name p)) 0 \<noteq> 0 then lit (p_name p) else lit ''-'') s3;
     say nl s4 }"

fun ps_rows :: "pcb list \<Rightarrow> nat list \<Rightarrow> fs \<Rightarrow> fs option" where
  "ps_rows t (i # is) s =
     (if p_pid (t ! i) = 0 \<and> i \<noteq> 0 then ps_rows t is s else do { s1 \<leftarrow> ps_row (t ! i) s; ps_rows t is s1 })"
| "ps_rows t [] s = Some s"

definition cmd_ps :: "'a machine \<Rightarrow> 'a machine option" where
  "cmd_ps = (\<lambda>(s, k). do {
     s1 \<leftarrow> say_color (nl @ lit ''  PID   STATE        PRIORITY  NAME'' @ nl) VGA_YELLOW VGA_BLACK s;
     s2 \<leftarrow> say (lit ''  ------------------------------------------'' @ nl) s1;
     s3 \<leftarrow> ps_rows (pcbs k) [0..<MAX_PROCESSES] s2;
     s4 \<leftarrow> say nl s3;
     Some (s4, k) })"

text \<open>\<open>boot\<close> and \<open>entry\<close> are the addresses of the entry routine of a process and of \<^verbatim>\<open>fork_test_process\<close>.\<close>

definition cmd_fork :: "u32 \<Rightarrow> u32 \<Rightarrow> 'a machine \<Rightarrow> 'a machine option" where
  "cmd_fork boot entry = (\<lambda>(s, k).
     case process_create_named boot entry (Some ''fork-test'') k of
       (k1, None) \<Rightarrow> map_option (\<lambda>s1. (s1, k1)) (complain (lit ''  fork: unable to create test process'' @ nl) s)
     | (k1, Some i) \<Rightarrow>
         map_option (\<lambda>s1. (s1, k1)) (sayf (lit ''  fork test process created: PID %u'' @ nl) [Num_arg (p_pid (pcbs k1 ! i))] s))"

subsection \<open>The command table\<close>

definition on_fs :: "(fs \<Rightarrow> fs option) \<Rightarrow> 'a machine \<Rightarrow> 'a machine option" where
  "on_fs f = (\<lambda>(s, k). map_option (\<lambda>s1. (s1, k)) (f s))"

text \<open>The third column of the table.\<close>

definition handlers :: "u32 \<Rightarrow> u32 \<Rightarrow> (string \<Rightarrow> 'a handler) \<Rightarrow> 'a handler list" where
  "handlers boot entry other = [
     \<lambda>args. on_fs cmd_help, \<lambda>args. on_fs (\<lambda>s. Some (cmd_clear s)), \<lambda>args. on_fs (cmd_echo args), \<lambda>args. on_fs cmd_version,
     \<lambda>args. on_fs (cmd_colour args), \<lambda>args (s, k). on_fs (cmd_mem (pmm_of k)) (s, k), \<lambda>args. on_fs cmd_about,
     \<lambda>args. cmd_ps, \<lambda>args. cmd_fork boot entry, other ''kill'', other ''thtest'', other ''racetest'', other ''pctest'', other ''pitest'',
     other ''rwtest'', other ''deadtest'', \<lambda>args (s, k). on_fs (cmd_meminfo (pmm_of k)) (s, k), other ''pmmtest'', other ''buddytest'',
     other ''slabtest'', \<lambda>args. on_fs (cmd_ls args), \<lambda>args. on_fs (cmd_touch args), \<lambda>args. on_fs (cmd_cat args), \<lambda>args. on_fs (cmd_write args),
     \<lambda>args. on_fs (cmd_rm args), \<lambda>args. on_fs (cmd_mkdir args), \<lambda>args. on_fs (cmd_cd args), \<lambda>args. on_fs cmd_pwd, \<lambda>args. on_fs cmd_fstest,
     \<lambda>args. on_fs cmd_jtest, \<lambda>args. on_fs cmd_vfstest, other ''halt'']"

definition commands :: "u32 \<Rightarrow> u32 \<Rightarrow> (string \<Rightarrow> 'a handler) \<Rightarrow> 'a command list" where
  "commands boot entry other =
     map (\<lambda>((name, description), h). \<lparr>c_name = lit name, c_description = lit description, c_handler = h\<rparr>)
       (zip command_text (handlers boot entry other))"

subsection \<open>One line\<close>

text \<open>The loop that copies the name of the command, at most 31 characters of it.\<close>

fun name_loop :: "u8 list \<Rightarrow> u8 list \<Rightarrow> u8 list" where
  "name_loop (c # cmd) name = (if c \<noteq> 0 \<and> c \<noteq> 0x20 \<and> length name < 31 then name_loop cmd (name @ [c]) else name)"
| "name_loop [] name = name"

fun dispatch_loop :: "'a command list \<Rightarrow> u8 list \<Rightarrow> 'a handler option" where
  "dispatch_loop (c # cs) name = (if k_strcmp name (c_name c) = 0 then Some (c_handler c) else dispatch_loop cs name)"
| "dispatch_loop [] name = None"

definition unknown_command :: "u8 list \<Rightarrow> fs \<Rightarrow> fs option" where
  "unknown_command name s = do {
     s1 \<leftarrow> say_color (lit ''  Unknown command: '') VGA_LIGHT_RED VGA_BLACK s;
     s2 \<leftarrow> say name s1;
     say (nl @ lit ''  Type '' @ [0x27] @ lit ''help'' @ [0x27] @ lit '' for a list of commands.'' @ nl) s2 }"

definition shell_line :: "'a command list \<Rightarrow> u8 list \<Rightarrow> 'a machine \<Rightarrow> 'a machine option" where
  "shell_line table buf m =
     (let cmd = k_ltrim buf in
      if k_strlen cmd = 0 then Some m
      else
        let name = name_loop cmd [];
            args = k_ltrim (drop (length name) cmd)
        in case dispatch_loop table name of
             Some h \<Rightarrow> h args m
           | None \<Rightarrow> on_fs (unknown_command name) m)"

text \<open>The prompt and the line that follows it: one round of the loop of \<^verbatim>\<open>shell_run\<close>. \<open>inp\<close> are the scan codes to come.\<close>

definition shell_round :: "'a command list \<Rightarrow> u8 list \<times> u8 list \<times> kbd \<times> 'a machine \<Rightarrow> (u8 list \<times> u8 list \<times> kbd \<times> 'a machine) option" where
  "shell_round table = (\<lambda>(buf, inp, kb, s, k). do {
     s1 \<leftarrow> say_color (nl @ lit ''  ksh> '') VGA_LIGHT_GREEN VGA_BLACK s;
     (_, buf1, inp1, kb1, con) \<leftarrow> kb_readline buf 256 inp kb (f_con s1);
     m \<leftarrow> shell_line table buf1 (s1\<lparr>f_con := con\<rparr>, k);
     Some (buf1, inp1, kb1, m) })"

subsection \<open>Comparing and reading\<close>

lemma k_strcmp_zero: "k_strcmp a b = 0 \<longleftrightarrow> cstr a = cstr b"
proof (induction a arbitrary: b)
  case Nil
  then show ?case by (cases b) (auto simp: char_at_def uint_0_iff)
next
  case (Cons c a)
  have u: "uint x = uint y \<longleftrightarrow> x = y" for x y :: u8 by (simp add: word_uint_eq_iff)
  show ?case using Cons by (cases b) (auto simp: char_at_def uint_0_iff u)
qed

lemma parse_loop_digits:
  "\<forall>c \<in> set ds. 0x30 \<le> c \<and> c \<le> 0x39 \<Longrightarrow> \<not> (0x30 \<le> char_at rest 0 \<and> char_at rest 0 \<le> 0x39) \<Longrightarrow>
   parse_loop (ds @ rest) v d = (fold (\<lambda>c v. v * 10 + (ucast c - 0x30)) ds v, d \<or> ds \<noteq> [], rest)"
proof (induction ds arbitrary: v d)
  case Nil
  then show ?case by (cases rest) (auto simp: char_at_def)
qed auto

lemma digit_word: "0x30 \<le> c \<Longrightarrow> c \<le> 0x39 \<Longrightarrow> (ucast c - 0x30 :: u32) = of_nat (digit_val c)"
proof -
  assume a: "0x30 \<le> c" "c \<le> 0x39"
  then have "48 \<le> unat c" by (simp add: word_le_nat_alt)
  moreover have "(ucast c :: u32) = of_nat (unat c)" by simp
  ultimately show ?thesis using a(2) by (simp add: digit_val_def of_nat_diff)
qed

lemma fold_digits:
  "\<forall>c \<in> set ds. 0x30 \<le> c \<and> c \<le> 0x39 \<Longrightarrow>
   fold (\<lambda>c v. v * 10 + (ucast c - 0x30)) ds (of_nat n :: u32) = of_nat (fold (\<lambda>c v. v * 10 + digit_val c) ds n)"
proof (induction ds arbitrary: n)
  case (Cons c ds)
  have "of_nat n * 10 + (ucast c - 0x30 :: u32) = of_nat (n * 10 + digit_val c)" using Cons.prems digit_word [of c] by simp
  then show ?case using Cons.IH [of "n * 10 + digit_val c"] Cons.prems by simp
qed simp

text \<open>\<^verbatim>\<open>k_parse_uint\<close> reads the longest prefix of digits. The value is the number they write as long as it fits a signed 32-bit
  number; a longer one wraps around, and without a digit the result is \<open>-1\<close>.\<close>

theorem k_parse_uint_correct:
  assumes "\<forall>c \<in> set ds. 0x30 \<le> c \<and> c \<le> 0x39" "\<not> (0x30 \<le> char_at rest 0 \<and> char_at rest 0 \<le> 0x39)"
  shows "k_parse_uint (ds @ rest) = (if ds = [] then -1 else sint (of_nat (read_digits 10 ds) :: u32), rest)
    \<and> (ds \<noteq> [] \<and> read_digits 10 ds < 2 ^ 31 \<longrightarrow> fst (k_parse_uint (ds @ rest)) = int (read_digits 10 ds))"
proof -
  have p: "k_parse_uint (ds @ rest) = (if ds = [] then -1 else sint (of_nat (read_digits 10 ds) :: u32), rest)"
    using parse_loop_digits [OF assms, of 0 False] fold_digits [OF assms(1), of 0] by (auto simp: k_parse_uint_def read_digits_def)
  have "sint (of_nat n :: u32) = int n" if "n < 2 ^ 31" for n
    using that by (simp add: sint_uint uint_nat unat_of_nat signed_take_bit_int_eq_self)
  then show ?thesis using p by simp
qed

theorem k_parse_uint_correct_witness: "k_parse_uint [0x34, 0x32, 0x20] = (42, [0x20])"
  using k_parse_uint_correct [of "[0x34, 0x32]" "[0x20]"] by (simp add: char_at_def read_digits_def digit_val_def)

text \<open>The wrap-around reaches the commands: \<^verbatim>\<open>colour 4294967297 0\<close> is accepted as \<^verbatim>\<open>colour 1 0\<close>.\<close>

theorem colour_wraps: "cmd_colour (lit ''4294967297 0'') s = cmd_colour (lit ''1 0'') s"
proof -
  have "k_parse_uint (k_ltrim (lit ''4294967297 0'')) = k_parse_uint (k_ltrim (lit ''1 0''))" by code_simp
  then show ?thesis by (simp add: cmd_colour_def)
qed

subsection \<open>Which command a line runs\<close>

lemma k_ltrim_drop: "k_ltrim p = dropWhile (\<lambda>c. c = 0x20) p"
  by (induction p) auto

lemma name_loop_spec: "length name \<le> 31 \<Longrightarrow> name_loop cmd name = take 31 (name @ takeWhile (\<lambda>c. c \<noteq> 0 \<and> c \<noteq> 0x20) cmd)"
  by (induction cmd arbitrary: name) (auto simp: take_Cons')

lemma scan_Suc: "scan P (Suc lo) (Suc hi) = map_option Suc (scan (\<lambda>i. P (Suc i)) lo hi)"
proof (induction "\<lambda>i. P (Suc i)" lo hi rule: scan.induct)
  case (1 lo hi)
  then show ?case by (simp add: scan.simps [of _ lo hi] scan.simps [of P "Suc lo"])
qed

lemma dispatch_scan:
  "dispatch_loop cs name = map_option (\<lambda>i. c_handler (cs ! i)) (scan (\<lambda>i. k_strcmp name (c_name (cs ! i)) = 0) 0 (length cs))"
proof (induction cs)
  case (Cons c cs)
  then show ?case by (simp add: scan.simps [of _ 0] scan_Suc option.map_comp comp_def)
qed (simp add: scan_None_iff)

lemma take_short: "length ys < n \<Longrightarrow> take n xs = ys \<longleftrightarrow> ys = xs"
  by (cases "length xs \<le> n") (auto simp: min_def)

lemma command_count: "length command_text = 32" "length (handlers b e other) = 32" "length (commands b e other) = 32"
  by (simp_all add: command_text_def handlers_def commands_def)

lemma command_names: "list_all (\<lambda>(name, d). length name < 31 \<and> 0 \<notin> set (lit name)) command_text"
  by (simp add: command_text_def lit_def)

lemma command_short: "i < 32 \<Longrightarrow> length (lit (fst (command_text ! i))) < 31"
  using command_names by (simp add: list_all_length command_count case_prod_beta) (simp add: lit_def)

lemma commands_nth:
  "i < 32 \<Longrightarrow> c_name (commands b e other ! i) = lit (fst (command_text ! i)) \<and> c_handler (commands b e other ! i) = handlers b e other ! i"
  by (simp add: commands_def command_count split: prod.split)

lemma shell_line_spec:
  "shell_line (commands b e other) buf m =
     (let line = k_ltrim buf; w = takeWhile (\<lambda>c. c \<noteq> 0 \<and> c \<noteq> 0x20) line in
      if w = [] then Some m
      else case scan (\<lambda>i. lit (fst (command_text ! i)) = w) 0 32 of
        Some i \<Rightarrow> (handlers b e other ! i) (k_ltrim (drop (length w) line)) m
      | None \<Rightarrow> on_fs (unknown_command (take 31 w)) m)"
proof -
  let ?w = "takeWhile (\<lambda>c. c \<noteq> 0 \<and> c \<noteq> 0x20) (k_ltrim buf)"
  have e: "k_strlen (k_ltrim buf) = 0 \<longleftrightarrow> ?w = []"
  proof (cases "k_ltrim buf")
    case (Cons c s)
    then have "c \<noteq> 0x20" using hd_dropWhile [of "\<lambda>c. c = 0x20" buf] unfolding k_ltrim_drop by force
    then show ?thesis using Cons by simp
  qed simp
  have n: "k_strcmp (take 31 ?w) (lit nm) = 0 \<longleftrightarrow> lit nm = ?w" if "(nm, d) \<in> set command_text" for nm d
  proof -
    have nm: "length nm < 31" "0 \<notin> set (lit nm)" using that command_names by (auto simp: list_all_iff)
    have "0 \<notin> set (take 31 ?w)" by (auto dest!: in_set_takeD set_takeWhileD)
    then have "cstr (take 31 ?w) = take 31 ?w" "cstr (lit nm) = lit nm" using nm(2) by (auto simp: cstr_def takeWhile_eq_all_conv)
    then have "k_strcmp (take 31 ?w) (lit nm) = 0 \<longleftrightarrow> take 31 ?w = lit nm" by (simp add: k_strcmp_zero)
    moreover have "length (lit nm) < 31" using nm(1) by (simp add: lit_def)
    ultimately show ?thesis using take_short [of "lit nm" 31 ?w] by (simp only:)
  qed
  have sc: "scan (\<lambda>i. k_strcmp (take 31 ?w) (c_name (commands b e other ! i)) = 0) 0 32 = scan (\<lambda>i. lit (fst (command_text ! i)) = ?w) 0 32"
  proof (rule scan_cong)
    fix i :: nat
    assume i: "i < 32"
    have "(fst (command_text ! i), snd (command_text ! i)) \<in> set command_text" using i command_count(1) by simp
    then show "k_strcmp (take 31 ?w) (c_name (commands b e other ! i)) = 0 \<longleftrightarrow> lit (fst (command_text ! i)) = ?w"
      unfolding conjunct1 [OF commands_nth [OF i]] by (rule n)
  qed
  have d: "drop (length (take 31 ?w)) (k_ltrim buf) = drop (length ?w) (k_ltrim buf)" if "scan (\<lambda>i. lit (fst (command_text ! i)) = ?w) 0 32 = Some i" for i
  proof -
    have "lit (fst (command_text ! i)) = ?w" "i < 32" using scan_SomeD [OF that] by auto
    then have "length ?w < 31" using command_short by metis
    then show ?thesis by simp
  qed
  have h: "c_handler (commands b e other ! i) = handlers b e other ! i" if "scan (\<lambda>i. lit (fst (command_text ! i)) = ?w) 0 32 = Some i" for i
    using commands_nth scan_SomeD(2) [OF that] by blast
  show ?thesis using e d h unfolding shell_line_def Let_def name_loop_spec [of "[]", simplified] dispatch_scan command_count sc
    by (auto split: option.split)
qed

text \<open>
  C27: A line runs the command its first word names, with the rest of the line behind the spaces as the argument; an empty line does
  nothing, and a word that names no command only prints a message.\<close>

theorem shell_line_correct:
  "shell_line (commands b e other) buf m =
     (let line = k_ltrim buf; w = takeWhile (\<lambda>c. c \<noteq> 0 \<and> c \<noteq> 0x20) line in
      if w = [] then Some m
      else case scan (\<lambda>i. lit (fst (command_text ! i)) = w) 0 32 of
        Some i \<Rightarrow> (handlers b e other ! i) (k_ltrim (drop (length w) line)) m
      | None \<Rightarrow> on_fs (unknown_command (take 31 w)) m)"
  by (rule shell_line_spec)

subsection \<open>Sessions\<close>

primrec shell_rounds ::
    "'a command list \<Rightarrow> nat \<Rightarrow> u8 list \<times> u8 list \<times> kbd \<times> 'a machine \<Rightarrow> (u8 list \<times> u8 list \<times> kbd \<times> 'a machine) option" where
  "shell_rounds table 0 st = Some st"
| "shell_rounds table (Suc n) st = do { st1 \<leftarrow> shell_round table st; shell_rounds table n st1 }"

definition safe :: "'a handler \<Rightarrow> bool" where
  "safe h \<longleftrightarrow> (\<forall>args m m'. h args m = Some m' \<longrightarrow> shell_ok (fst m) \<longrightarrow> shell_ok (fst m'))"

lemma safeD: "safe h \<Longrightarrow> h args m = Some m' \<Longrightarrow> shell_ok (fst m) \<Longrightarrow> shell_ok (fst m')"
  unfolding safe_def by blast

lemma safe_fs: "(\<And>args s s'. f args s = Some s' \<Longrightarrow> shell_ok s \<Longrightarrow> shell_ok s') \<Longrightarrow> safe (\<lambda>args. on_fs (f args))"
  by (auto simp: safe_def on_fs_def)

lemma put_ok [simp]: "shell_ok (fold (\<lambda>_. put c) is s) = shell_ok s"
  by (induction "is" arbitrary: s) (simp_all add: put_def)

lemma help_rows_ok: "help_rows rows s = Some s' \<Longrightarrow> shell_ok s' = shell_ok s"
proof (induction rows arbitrary: s)
  case (Cons row rows)
  show ?case using Cons.prems Cons.IH by (cases row) (fastforce simp: run_defs dest!: say_keeps(5-8))
qed simp

lemma ps_rows_ok: "ps_rows t is s = Some s' \<Longrightarrow> shell_ok s' = shell_ok s"
proof (induction t "is" s rule: ps_rows.induct)
  case (1 t i "is" s)
  have "ps_row (t ! i) s = Some s1 \<Longrightarrow> shell_ok s1 = shell_ok s" for s1 by (auto simp: ps_row_def run_defs dest!: say_keeps(5-8))
  then show ?case using 1 by (auto simp: run_defs split: if_splits)
qed simp

lemma console_ok:
  "cmd_help s = Some s' \<Longrightarrow> shell_ok s' = shell_ok s" "shell_ok (cmd_clear s) = shell_ok s" "cmd_echo args s = Some s' \<Longrightarrow> shell_ok s' = shell_ok s"
  "cmd_version s = Some s' \<Longrightarrow> shell_ok s' = shell_ok s" "cmd_colour args s = Some s' \<Longrightarrow> shell_ok s' = shell_ok s"
  "cmd_meminfo p s = Some s' \<Longrightarrow> shell_ok s' = shell_ok s" "cmd_mem p s = Some s' \<Longrightarrow> shell_ok s' = shell_ok s"
  "cmd_about s = Some s' \<Longrightarrow> shell_ok s' = shell_ok s" "unknown_command name s = Some s' \<Longrightarrow> shell_ok s' = shell_ok s"
  by (auto simp: cmd_help_def cmd_clear_def cmd_echo_def cmd_version_def cmd_colour_def cmd_meminfo_def cmd_mem_def cmd_about_def unknown_command_def run_defs
      split: prod.splits if_splits dest!: say_keeps(5-8) help_rows_ok)

lemma process_safe: "safe (\<lambda>args. cmd_ps)" "safe (\<lambda>args. cmd_fork boot entry)"
  by (auto simp: safe_def cmd_ps_def cmd_fork_def run_defs split: prod.splits option.splits dest!: say_keeps(5-8) ps_rows_ok)

lemma tests_ok: "cmd_fstest s = Some s' \<Longrightarrow> shell_ok s \<Longrightarrow> shell_ok s'" "cmd_jtest s = Some s' \<Longrightarrow> shell_ok s \<Longrightarrow> shell_ok s'"
  "cmd_vfstest s = Some s' \<Longrightarrow> shell_ok s \<Longrightarrow> shell_ok s'"
  using fstest_ok [of s] jtest_ok [of s] vfstest_ok [of s] by (simp_all add: leaves_def shell_ok_iff)

lemmas command_ok = ls_ok touch_ok cat_ok write_ok rm_ok mkdir_cmd_ok cd_ok pwd_ok tests_ok console_ok(1,3-5,8) [THEN iffD2]

lemma clear_safe: "safe (\<lambda>args. on_fs (\<lambda>s. Some (cmd_clear s)))"
  by (simp add: safe_def on_fs_def split_beta console_ok(2))

lemma memory_safe: "safe (\<lambda>args (s, k). on_fs (cmd_mem (pmm_of k)) (s, k))" "safe (\<lambda>args (s, k). on_fs (cmd_meminfo (pmm_of k)) (s, k))"
  using console_ok(6,7) by (auto simp: safe_def on_fs_def)

lemma fs_safe: "safe (\<lambda>args. on_fs cmd_help)" "safe (\<lambda>args. on_fs (cmd_echo args))"
  "safe (\<lambda>args. on_fs cmd_version)" "safe (\<lambda>args. on_fs (cmd_colour args))" "safe (\<lambda>args. on_fs cmd_about)"
  "safe (\<lambda>args. on_fs (cmd_ls args))" "safe (\<lambda>args. on_fs (cmd_touch args))" "safe (\<lambda>args. on_fs (cmd_cat args))"
  "safe (\<lambda>args. on_fs (cmd_write args))" "safe (\<lambda>args. on_fs (cmd_rm args))" "safe (\<lambda>args. on_fs (cmd_mkdir args))"
  "safe (\<lambda>args. on_fs (cmd_cd args))" "safe (\<lambda>args. on_fs cmd_pwd)" "safe (\<lambda>args. on_fs cmd_fstest)"
  "safe (\<lambda>args. on_fs cmd_jtest)" "safe (\<lambda>args. on_fs cmd_vfstest)"
  by (rule safe_fs, rule command_ok, assumption, assumption)+

lemma handlers_safe:
  assumes "\<And>n. safe (other n)"
  shows "\<forall>h \<in> set (handlers b e other). safe h"
  unfolding handlers_def using assms by (simp add: memory_safe fs_safe clear_safe process_safe)

lemma shell_line_safe:
  assumes o: "\<And>n. safe (other n)" and l: "shell_line (commands b e other) buf m = Some m'" and ok: "shell_ok (fst m)"
  shows "shell_ok (fst m')"
proof -
  let ?w = "takeWhile (\<lambda>c. c \<noteq> 0 \<and> c \<noteq> 0x20) (k_ltrim buf)"
  have u: "shell_ok (fst m1)" if "on_fs (unknown_command name) m = Some m1" for name m1
    using that ok console_ok(9) by (auto simp: on_fs_def split: prod.splits)
  have h: "shell_ok (fst m1)" if "scan (\<lambda>i. lit (fst (command_text ! i)) = ?w) 0 32 = Some i" "(handlers b e other ! i) args m = Some m1" for i args m1
  proof -
    have "handlers b e other ! i \<in> set (handlers b e other)" using scan_SomeD(2) [OF that(1)] by (simp add: command_count)
    then have "safe (handlers b e other ! i)" using handlers_safe [OF o] by (rule bspec [rotated])
    then show ?thesis using safeD that(2) ok by blast
  qed
  show ?thesis
  proof (cases "scan (\<lambda>i. lit (fst (command_text ! i)) = ?w) 0 32")
    case None
    then show ?thesis using l u [of "take 31 ?w" m'] ok unfolding shell_line_spec Let_def by (simp split: if_splits)
  next
    case (Some i)
    then show ?thesis using l h [OF Some] ok unfolding shell_line_spec Let_def by (simp split: if_splits)
  qed
qed

lemma shell_rounds_safe:
  assumes o: "\<And>n. safe (other n)"
  shows "shell_rounds (commands b e other) n (buf, inp, kb, s, k) = Some (buf', inp', kb', s', k') \<Longrightarrow> shell_ok s \<Longrightarrow> shell_ok s'"
proof (induction n arbitrary: buf inp kb s k)
  case (Suc n)
  obtain buf1 inp1 kb1 s1 k1 where r: "shell_round (commands b e other) (buf, inp, kb, s, k) = Some (buf1, inp1, kb1, s1, k1)"
    "shell_rounds (commands b e other) n (buf1, inp1, kb1, s1, k1) = Some (buf', inp', kb', s', k')"
    using Suc.prems(1) by (auto simp: Option.bind_eq_Some_conv)
  have "shell_ok s1"
    using r(1) Suc.prems(2) by (auto simp: shell_round_def run_defs dest!: say_keeps(6) shell_line_safe [OF o])
  then show ?case using Suc.IH [OF r(2)] by blast
qed simp

text \<open>A command outside this model that changes the console and the process table only.\<close>

definition spares_fs :: "'a handler \<Rightarrow> bool" where
  "spares_fs h \<longleftrightarrow> (\<forall>args s k s' k'. h args (s, k) = Some (s', k') \<longrightarrow> (\<exists>c. s' = s\<lparr>f_con := c\<rparr>))"

text \<open>
  C14: Whatever lines are typed, after every command the file system satisfies its invariant and no descriptor is left open.\<close>

theorem shell_session_invariant:
  assumes "\<And>name. spares_fs (other name)" "shell_ok s"
    "shell_rounds (commands boot entry other) n (buf, inp, kb, s, k) = Some (buf', inp', kb', s', k')"
  shows "shell_ok s'"
proof -
  have "safe (other name)" for name using assms(1) [of name] unfolding safe_def spares_fs_def by (metis con_at_most(2) prod.collapse)
  then show ?thesis using shell_rounds_safe assms(2,3) by blast
qed

lemma enter_key: "kb_getchar [0x1C] kbd_boot = Some (10, [], kbd_boot)"
  by code_simp

lemma enter_line: "\<exists>kb v'. kb_readline (replicate 256 0) 256 [0x1C] kbd_boot v = Some (0, replicate 256 0, [], kb, v')"
proof -
  have z: "(replicate 256 (0 :: u8))[0 := 0] = replicate 256 0" by (simp add: list_update_same_conv)
  have "rl_loop 256 [0x1C] \<lparr>rl_i = 0, rl_pos = p, rl_buf = replicate 256 0\<rparr> kbd_boot v
      = Some (\<lparr>rl_i = 0, rl_pos = p, rl_buf = replicate 256 0\<rparr>, [], history_add (replicate 256 0) kbd_boot, vga_putchar 10 v)" for p
    by (subst rl_loop.simps) (simp add: enter_key rl_key_def Let_def z del: kb_getchar.simps)
  then show ?thesis by (simp add: kb_readline_def z)
qed

lemma enter_round:
  "\<exists>kb s'. shell_rounds table 1 (replicate 256 0, [0x1C], kbd_boot, s, k) = Some (replicate 256 0, [], kb, s', k)"
proof -
  obtain s1 where p: "say_color (nl @ lit ''  ksh> '') VGA_LIGHT_GREEN VGA_BLACK s = Some s1"
    using say_returns(3) [of "nl @ lit ''  ksh> ''" VGA_LIGHT_GREEN VGA_BLACK s] by (auto simp: literal_simps)
  obtain kb v where r: "kb_readline (replicate 256 0) 256 [0x1C] kbd_boot (f_con s1) = Some (0, replicate 256 0, [], kb, v)"
    using enter_line by blast
  have "k_ltrim (replicate 256 0) = replicate 256 0" by (simp add: k_ltrim_drop)
  then have "shell_line table (replicate 256 0) m = Some m" for m by (simp add: shell_line_def k_strlen_cstr cstr_def)
  then show ?thesis using p r by (simp add: shell_round_def)
qed

theorem shell_session_invariant_witness:
  "\<exists>kb s'. shell_rounds (commands 0 0 (\<lambda>_ _. Some)) 1 (replicate 256 0, [0x1C], kbd_boot, fs_c, booted) = Some (replicate 256 0, [], kb, s', booted) \<and> shell_ok s'"
proof -
  obtain kb s' where r: "shell_rounds (commands 0 0 (\<lambda>_ _. Some)) 1 (replicate 256 0, [0x1C], kbd_boot, fs_c, booted) = Some (replicate 256 0, [], kb, s', booted)"
    using enter_round by blast
  have "s = s\<lparr>f_con := f_con s\<rparr>" for s :: fs by simp
  then have "spares_fs (\<lambda>_. Some)" unfolding spares_fs_def by blast
  then show ?thesis using shell_session_invariant [OF _ fs_c_props(1) r] r by blast
qed

end
