(* ===== verification/Spec2Isabelle.thy ===== *)
theory Spec2Isabelle
  imports Slab Fork Semaphore Rwlock Deadlock Shell_Cmd
begin

text \<open>
  A verification of the SENG21213 teaching kernel (\<^verbatim>\<open>src/kernel\<close>): a 32-bit x86 kernel with a physical memory
  manager, two allocators on top of it, a preemptive scheduler with forks, blocking locks, a journaled RAM disk with
  a file system, a text console, a keyboard driver and a shell. Each component is a theory; the machine it runs on
  is reduced to the state the C code reads and writes. This theory only joins the parts.

  \<^bold>\<open>The parts, and how they correspond to the code.\<close>

  \<^item> \<^verbatim>\<open>Kernel_Prelude\<close>: the integer types of \<^verbatim>\<open>include/types.h\<close> as words, and the two loop shapes of the code, the
    first match in an index range and the removal from an array.
  \<^item> \<^verbatim>\<open>Pmm\<close> (\<^verbatim>\<open>pmm.c\<close>): the bitmap of frames, its construction from the E820 map in \<^verbatim>\<open>pmm_init\<close>, allocation and
    release. They refine a set of free frames; the locale \<^verbatim>\<open>frame_allocator\<close> is what its clients rely on.
  \<^item> \<^verbatim>\<open>Buddy\<close> (\<^verbatim>\<open>buddy.c\<close>): the pool of 1 MiB taken from the memory manager, splitting and merging. In every run the
    blocks handed out are disjoint, nothing is lost while the block table has room, and blocks merge back.
  \<^item> \<^verbatim>\<open>Slab\<close> (\<^verbatim>\<open>slab.c\<close>): the four caches with their free lists stored in the objects, on bytes.
  \<^item> \<^verbatim>\<open>Process\<close>, \<^verbatim>\<open>Scheduler\<close>, \<^verbatim>\<open>Fork\<close> (\<^verbatim>\<open>process.c\<close>, \<^verbatim>\<open>thread.c\<close>, \<^verbatim>\<open>scheduler.c\<close>): the table of 16 process
    control blocks, the stacks in a byte-addressed memory, the four priority levels, the sleep queue, the
    dispatcher, kill and fork. A stack is what the interrupt stubs push; the address the dispatcher returns is the
    stack pointer they load.
  \<^item> \<^verbatim>\<open>Blocking\<close>: what \<^verbatim>\<open>mutex.c\<close>, \<^verbatim>\<open>semaphore.c\<close> and \<^verbatim>\<open>rwlock.c\<close> need of the scheduler, as the locale
    \<^verbatim>\<open>blocking_kernel\<close>, and of their wait queues, as the locale \<^verbatim>\<open>wait_queue\<close>, with the interpretation on the
    scheduler. \<^verbatim>\<open>Mutex\<close>, \<^verbatim>\<open>Semaphore\<close> and \<^verbatim>\<open>Rwlock\<close> interpret the queues and prove mutual exclusion, conservation
    of the units and the absence of lost wakeups for the interleavings that start with initialised locks; that the
    condition is needed is shown by \<^verbatim>\<open>mutex_lazy_init_race\<close>, \<^verbatim>\<open>rw_lazy_init_race\<close> and \<^verbatim>\<open>sem_lazy_init_race\<close>.
    \<^verbatim>\<open>Deadlock\<close> (\<^verbatim>\<open>deadlock.c\<close>) compares the search on the registry of mutexes with cycles of a wait-for graph that
    is defined on owners and waiters alone, without the functions of the search.
  \<^item> \<^verbatim>\<open>Ramdisk\<close> (\<^verbatim>\<open>ramdisk.c\<close>): the disk as an array of bytes, a block write as the list of its single stores, so that
    the machine may stop between any two of them; the locale \<^verbatim>\<open>block_device\<close> is what the file system uses.
  \<^item> \<^verbatim>\<open>Fs\<close> (\<^verbatim>\<open>fs.c\<close>): every function of the file system on the bytes of that disk. \<^verbatim>\<open>Fs_Image\<close> reads the disk as an
    image of 254 blocks and says what each helper does to it; \<^verbatim>\<open>Fs_Path\<close> turns the path functions into a walk over
    components; \<^verbatim>\<open>Fs_Vol\<close> is the abstract volume, a map from inode numbers to nodes, with its invariant and the
    abstract operations; \<^verbatim>\<open>Fs_Inv\<close> and \<^verbatim>\<open>Fs_Ops\<close> connect the two for creating, removing and changing the
    directory; \<^verbatim>\<open>Fs_Open\<close> and \<^verbatim>\<open>Fs_File\<close> do so for opening, formatting, writing and reading; \<^verbatim>\<open>Fs_Run\<close> has the
    properties of the calls and of every sequence of them; \<^verbatim>\<open>Fs_Pwd\<close> shows that the climb to the root ends with a path that
    leads back to the current directory.
  \<^item> \<^verbatim>\<open>Vga\<close> (\<^verbatim>\<open>vga.c\<close>): the ring of 200 lines, the window on it, the colour sequences and the formatted output.
    \<^verbatim>\<open>Keyboard\<close> (\<^verbatim>\<open>keyboard.c\<close>): scancodes, modifiers and the line editor with its history, which refines an
    abstract editor on a line and a position.
  \<^item> The shell (\<^verbatim>\<open>kernel.c\<close>): \<^verbatim>\<open>Shell_Fs\<close> has its string functions, the file commands and the tests of the file system, and
    that each of them keeps the invariant and closes what it opens; \<^verbatim>\<open>Shell_Text\<close> shows which commands always return and that
    \<^verbatim>\<open>cat\<close> prints what \<^verbatim>\<open>write\<close> stored; \<^verbatim>\<open>Shell_Cmd\<close> has the splash screen, the console commands, \<^verbatim>\<open>ps\<close> and \<^verbatim>\<open>fork\<close>, the command
    table and the loop that reads a line and runs the command it names, and the invariant of a whole session. The memory
    tests of the shell are with the allocators they test.

  \<^bold>\<open>What the theorems show.\<close> Of every component: that its invariant holds initially and is kept by each operation;
  what each operation does on every branch; and, where there are several clients, that this holds along every run of
  the step relation of the component, whose rules say which calls may be made. Error paths that leave the state in a way the code does not mean are stated as
  theorems too.

  \<^bold>\<open>Conventions.\<close> Words have the width of the C type. A null pointer is \<^verbatim>\<open>None\<close>. Errors are the integers the code
  returns, or a sum when a result comes with them. Loops over a known range are folds or structural recursion; the
  search of \<^verbatim>\<open>deadlock.c\<close> takes the depth 17, one more than there are processes, and the walk of \<^verbatim>\<open>propagate_priority\<close>
  its own bound of 16; the demonstration graph has 6 nodes and fuel 7. Loops that may not end are partial functions
  with the value \<^verbatim>\<open>None\<close>: \<^verbatim>\<open>vga_puts\<close> on some colour sequences, and \<^verbatim>\<open>pwd_rec\<close> when the parent entries do not lead to the
  root. The static buffers of the file system are part of its state, \<^verbatim>\<open>f_junk\<close> being an uninitialised local one.
  A handler runs with interrupts off and is one step. A locking call is cut wherever its interrupts are on: after the
  test of the initialised flag, after the lazy initialisation, and at its yield; the call that nobody interrupts is a
  definition of its own, equal to that sequence of steps. Semaphore counts are 32-bit words read as signed numbers. What
  clients hold of an allocator is a multiset, so that handing out one object twice would show.

  \<^bold>\<open>Bounds of the runs.\<close> In the runs of the lock operations no process is created, killed or ends, process 0 (the shell),
  which these calls let through without locking, makes none of them, a process is in at most one call at a time, and no
  process sleeps with a wake tick that wraps to 0; the initial value and the signals of a semaphore stay below
  2147483648 together. In the runs of the file system no file is unlinked while it is open, which
  \<^verbatim>\<open>fs_unlink_stale_descriptor\<close> shows to be needed. In the runs of the console boxes start in a column that is not
  negative and end within the 200 lines of the ring; \<^verbatim>\<open>vga_box_outside\<close> has a box that does not.

  \<^bold>\<open>Not modelled.\<close> The boot sector, the protected-mode entry and the interrupt stubs, which are assembly; what the C code
  takes from them (the E820 map, the end of the kernel, the saved registers) is an argument. The build files. Of the
  shell, \<^verbatim>\<open>kill\<close>, \<^verbatim>\<open>halt\<close>, the output of the memory tests and the demonstrations of \<^verbatim>\<open>stage2_demo.c\<close> are an argument of the
  command table, of which the session theorem assumes that they spare the file system; \<^verbatim>\<open>kernel_main\<close>, which only calls the
  initialisations in order, is not a definition. Line
  numbers of the console, of the C type \<^verbatim>\<open>int\<close>, are unbounded: its theorems are about output of fewer than 2147483648
  lines.
\<close>

end
